(* ===== verification/Llama_Prelude.thy ===== *)
theory Llama_Prelude
  imports Main "HOL-Library.Monad_Syntax"
begin

text \<open>
  Shared vocabulary of the development.

  \<^item> Integer types of the C++ code: \<open>llama_pos\<close> and \<open>llama_seq_id\<close> are \<open>int32_t\<close>
    (kept as \<open>int\<close>, with the range test \<open>in_i32\<close> where an operation could leave it);
    \<open>uint32_t\<close> indices and sizes are \<open>nat\<close>.
  \<^item> Failure: a function that can hit a C++ \<open>assert\<close>/\<open>GGML_ASSERT\<close>, index a vector out of
    range or otherwise leave the defined behaviour of C++ returns an \<open>option\<close>; \<open>None\<close> is
    that abort. \<open>assert_that\<close> is the assertion, \<open>vget\<close> and \<open>vset\<close> are
    \<open>operator[]\<close> on a vector.
  \<^item> \<open>std::set\<close> and \<open>std::map\<close> are strictly increasing lists; the locale \<open>ordered_counter\<close>
    states what a client that keeps occurrence counts in a \<open>std::map\<close> relies on.
  \<^item> Loops that can abort: \<open>ofold\<close> runs a body over a list of indices.
\<close>

named_theorems kv_defs \<open>definitions of the cell operations, for unfolding\<close>
named_theorems abort_simps \<open>simplification of the abort monad\<close>

type_synonym llama_pos = int
type_synonym llama_seq_id = int
type_synonym llama_token = int

definition LLAMA_MAX_SEQ :: nat where
  "LLAMA_MAX_SEQ = 256"

definition i32_max :: int where
  "i32_max = 2147483647"

definition in_i32 :: "int \<Rightarrow> bool" where
  "in_i32 x \<longleftrightarrow> - 2147483648 \<le> x \<and> x \<le> i32_max"

text \<open>The result of an \<open>int32_t\<close> operation; overflow is undefined behaviour.\<close>

definition i32 :: "int \<Rightarrow> int option" where
  "i32 x = (if in_i32 x then Some x else None)"

text \<open>The result of a \<open>uint32_t\<close> operation, which wraps around; it is computed with \<open>int\<close>.\<close>

definition u32 :: "nat \<Rightarrow> nat" where
  "u32 x = x mod 2 ^ 32"

lemma u32_code [code]: "u32 x = nat (int x mod 2 ^ 32)"
  by (simp add: u32_def nat_mod_distrib)

lemma u32_id [simp]: "x < 2 ^ 32 \<Longrightarrow> u32 x = x"
  by (simp add: u32_def)

section \<open>The abort monad\<close>

lemma i32_Some [simp]: "i32 x = Some y \<longleftrightarrow> in_i32 x \<and> y = x"
  by (auto simp: i32_def)

lemma i32_in [simp]: "in_i32 x \<Longrightarrow> i32 x = Some x"
  by (simp add: i32_def)

definition assert_that :: "bool \<Rightarrow> unit option" where
  "assert_that b = (if b then Some () else None)"

definition vget :: "'a list \<Rightarrow> nat \<Rightarrow> 'a option" where
  "vget xs i = (if i < length xs then Some (xs ! i) else None)"

definition vset :: "'a list \<Rightarrow> nat \<Rightarrow> 'a \<Rightarrow> 'a list option" where
  "vset xs i x = (if i < length xs then Some (xs[i := x]) else None)"

fun ofold :: "('a \<Rightarrow> 's \<Rightarrow> 's option) \<Rightarrow> 'a list \<Rightarrow> 's \<Rightarrow> 's option" where
  "ofold f [] s = Some s"
| "ofold f (x # xs) s = Option.bind (f x s) (ofold f xs)"

lemma assert_that_Some [simp, abort_simps]: "assert_that b = Some u \<longleftrightarrow> b"
  by (simp add: assert_that_def)

lemma assert_that_bind [simp, abort_simps]:
  "Option.bind (assert_that b) f = (if b then f () else None)"
  by (simp add: assert_that_def)

lemma vget_Some [simp, abort_simps]: "vget xs i = Some x \<longleftrightarrow> i < length xs \<and> xs ! i = x"
  by (auto simp: vget_def)

lemma vget_in [simp, abort_simps]: "i < length xs \<Longrightarrow> vget xs i = Some (xs ! i)"
  by (simp add: vget_def)

lemma vset_Some [simp, abort_simps]: "vset xs i x = Some ys \<longleftrightarrow> i < length xs \<and> ys = xs[i := x]"
  by (auto simp: vset_def)

lemma vset_in [simp, abort_simps]: "i < length xs \<Longrightarrow> vset xs i x = Some (xs[i := x])"
  by (simp add: vset_def)

lemma bind_Some_iff [abort_simps]:
  "Option.bind m f = Some y \<longleftrightarrow> (\<exists>x. m = Some x \<and> f x = Some y)"
  by (cases m) auto

lemma ofold_append: "ofold f (xs @ ys) s = Option.bind (ofold f xs s) (ofold f ys)"
proof (induction xs arbitrary: s)
  case (Cons x xs)
  then show ?case by (cases "f x s") auto
qed simp

text \<open>
  Loop rules. \<open>ofold_upto\<close> is total: the body succeeds on every state that satisfies the
  invariant, so the loop returns. The \<open>_partial\<close> rules speak about a loop that returned.
\<close>

lemma ofold_upto:
  assumes "P 0 s"
    and "\<And>i t. \<lbrakk>i < n; P i t\<rbrakk> \<Longrightarrow> \<exists>t'. f i t = Some t' \<and> P (Suc i) t'"
  shows "\<exists>t. ofold f [0..<n] s = Some t \<and> P n t"
  using assms(2)
proof (induction n)
  case 0
  with assms(1) show ?case by simp
next
  case (Suc n)
  then obtain t where t: "ofold f [0..<n] s = Some t" "P n t"
    by (meson less_Suc_eq)
  with Suc.prems[of n t] show ?case
    by (auto simp: ofold_append)
qed

lemma ofold_upto_partial:
  assumes "ofold f [0..<n] s = Some t" and "P 0 s"
    and "\<And>i u u'. \<lbrakk>i < n; P i u; f i u = Some u'\<rbrakk> \<Longrightarrow> P (Suc i) u'"
  shows "P n t"
  using assms(1,3)
proof (induction n arbitrary: t)
  case 0
  with assms(2) show ?case by simp
next
  case (Suc n)
  then obtain u where "ofold f [0..<n] s = Some u" "f n u = Some t"
    by (auto simp: ofold_append bind_Some_iff)
  with Suc show ?case by (meson less_Suc_eq lessI)
qed

lemma ofold_partial:
  assumes "ofold f xs s = Some t" and "P s"
    and "\<And>x u u'. \<lbrakk>x \<in> set xs; P u; f x u = Some u'\<rbrakk> \<Longrightarrow> P u'"
  shows "P t"
  using assms by (induction xs arbitrary: s) (auto simp: bind_Some_iff)

lemma ofold_total:
  assumes "P s" and "\<And>x u. \<lbrakk>x \<in> set xs; P u\<rbrakk> \<Longrightarrow> \<exists>u'. f x u = Some u' \<and> P u'"
  shows "\<exists>t. ofold f xs s = Some t \<and> P t"
  using assms
proof (induction xs arbitrary: s)
  case Nil
  then show ?case by simp
next
  case (Cons x xs)
  then obtain u where "f x s = Some u" "P u" by (meson list.set_intros(1))
  with Cons.IH[of u] Cons.prems(2) show ?case by auto
qed

lemma ofold_cong_set [fundef_cong]:
  assumes "s = s'" "xs = ys" "\<And>x t. x \<in> set ys \<Longrightarrow> f x t = g x t"
  shows "ofold f xs s = ofold g ys s'"
  using assms(3) unfolding assms(1,2)
proof (induction ys arbitrary: s')
  case (Cons y ys)
  then show ?case by (cases "g y s'") auto
qed simp

text \<open>A body that always succeeds makes the loop an ordinary fold.\<close>

lemma ofold_pure: "ofold (\<lambda>x s. Some (g x s)) xs s = Some (fold g xs s)"
  by (induction xs arbitrary: s) auto

section \<open>Lists\<close>

lemma nth_list_update_eq_if: "i < length xs \<Longrightarrow> xs[i := x] ! j = (if j = i then x else xs ! j)"
  by simp

lemma nth_list_update_in: "j < length xs \<Longrightarrow> xs[i := x] ! j = (if j = i then x else xs ! j)"
  by auto

lemma length_takeWhile_lt: "length (takeWhile P xs) < length xs \<longleftrightarrow> (\<exists>x \<in> set xs. \<not> P x)"
  by (induction xs) auto

lemma map_upt_nth: "map (\<lambda>i. f (xs ! i)) [0..<length xs] = map f xs"
  by (simp add: map_equality_iff)

lemma sorted_strict_unique:
  assumes "sorted_wrt (<) xs" "sorted_wrt (<) (ys :: 'a :: linorder list)" "set xs = set ys"
  shows "xs = ys"
  using assms by (simp add: strict_sorted_equal)

end
