(* ===== verification/Std_Containers.thy ===== *)
theory Std_Containers
  imports Llama_Prelude
begin

text \<open>
  \<open>std::set\<close> over a linear order as a strictly increasing list, \<open>std::map\<close> as an
  association list with strictly increasing keys: \<open>begin\<close>/\<open>rbegin\<close> are the first and
  last element, as in the standard library. A client that counts occurrences in a
  \<open>std::map<llama_pos, int>\<close> (\<open>it->second++\<close>, erase at zero) is served by the locale
  \<open>ordered_counter\<close>.
\<close>

section \<open>std::set\<close>

fun sset_insert :: "'a::linorder \<Rightarrow> 'a list \<Rightarrow> 'a list" where
  "sset_insert x [] = [x]"
| "sset_insert x (y # ys) = (if x < y then x # y # ys else if x = y then y # ys else y # sset_insert x ys)"

definition sset_erase :: "'a::linorder \<Rightarrow> 'a list \<Rightarrow> 'a list" where
  "sset_erase x xs = filter (\<lambda>y. y \<noteq> x) xs"

definition sset_ok :: "'a::linorder list \<Rightarrow> bool" where
  "sset_ok xs = sorted_wrt (<) xs"

lemma set_sset_insert [simp]: "set (sset_insert x xs) = insert x (set xs)"
  by (induction xs) auto

lemma set_sset_erase [simp]: "set (sset_erase x xs) = set xs - {x}"
  by (auto simp: sset_erase_def)

lemma sset_erase_absent: "x \<notin> set xs \<Longrightarrow> sset_erase x xs = xs"
  by (induction xs) (auto simp: sset_erase_def)

lemma sset_ok_Nil [simp]: "sset_ok []"
  by (simp add: sset_ok_def)

lemma sset_ok_insert [simp]: "sset_ok xs \<Longrightarrow> sset_ok (sset_insert x xs)"
  unfolding sset_ok_def by (induction xs) (auto intro: less_trans)

lemma sset_ok_erase [simp]: "sset_ok xs \<Longrightarrow> sset_ok (sset_erase x xs)"
  unfolding sset_ok_def sset_erase_def by (rule sorted_wrt_filter)

lemma sset_ok_unique: "\<lbrakk>sset_ok xs; sset_ok ys; set xs = set ys\<rbrakk> \<Longrightarrow> xs = ys"
  unfolding sset_ok_def by (rule sorted_strict_unique)

lemma sset_ok_distinct: "sset_ok xs \<Longrightarrow> distinct xs"
  unfolding sset_ok_def by (simp add: strict_sorted_iff)

lemma sset_ok_sorted: "sset_ok xs \<Longrightarrow> sorted xs"
  unfolding sset_ok_def by (simp add: strict_sorted_iff)

lemma sset_begin: "\<lbrakk>sset_ok xs; xs \<noteq> []\<rbrakk> \<Longrightarrow> hd xs = Min (set xs)"
  unfolding sset_ok_def by (cases xs) (force intro!: Min_eqI [symmetric])+

lemma sset_rbegin: "\<lbrakk>sset_ok xs; xs \<noteq> []\<rbrakk> \<Longrightarrow> last xs = Max (set xs)"
proof -
  assume "sset_ok xs" "xs \<noteq> []"
  then obtain ys y where "xs = ys @ [y]" by (meson rev_exhaust)
  with \<open>sset_ok xs\<close> show ?thesis
    unfolding sset_ok_def by (auto intro!: Max_eqI [symmetric] simp: sorted_wrt_append less_imp_le)
qed

section \<open>std::map\<close>

fun smap_put :: "'k::linorder \<Rightarrow> 'v \<Rightarrow> ('k \<times> 'v) list \<Rightarrow> ('k \<times> 'v) list" where
  "smap_put k v [] = [(k, v)]"
| "smap_put k v ((a, b) # m) =
     (if k < a then (k, v) # (a, b) # m else if k = a then (a, v) # m else (a, b) # smap_put k v m)"

definition smap_erase :: "'k \<Rightarrow> ('k \<times> 'v) list \<Rightarrow> ('k \<times> 'v) list" where
  "smap_erase k m = filter (\<lambda>e. fst e \<noteq> k) m"

definition smap_ok :: "('k::linorder \<times> 'v) list \<Rightarrow> bool" where
  "smap_ok m = sset_ok (map fst m)"

lemma keys_smap_put [simp]: "map fst (smap_put k v m) = sset_insert k (map fst m)"
  by (induction k v m rule: smap_put.induct) auto

lemma keys_smap_erase [simp]: "map fst (smap_erase k m) = sset_erase k (map fst m)"
  by (auto simp: smap_erase_def sset_erase_def filter_map o_def)

lemma smap_ok_Nil [simp]: "smap_ok []"
  by (simp add: smap_ok_def)

lemma smap_ok_put [simp]: "smap_ok m \<Longrightarrow> smap_ok (smap_put k v m)"
  by (simp add: smap_ok_def)

lemma smap_ok_erase [simp]: "smap_ok m \<Longrightarrow> smap_ok (smap_erase k m)"
  by (simp add: smap_ok_def)

lemma map_of_smap_put [simp]: "smap_ok m \<Longrightarrow> map_of (smap_put k v m) = (map_of m)(k \<mapsto> v)"
  by (induction k v m rule: smap_put.induct) (auto simp: smap_ok_def sset_ok_def fun_eq_iff)

lemma map_of_smap_erase [simp]: "map_of (smap_erase k m) = (map_of m)(k := None)"
  by (induction m) (auto simp: smap_erase_def fun_eq_iff)

lemma smap_by_keys:
  assumes "smap_ok m"
  shows "map (\<lambda>k. (k, the (map_of m k))) (map fst m) = m"
  unfolding map_map o_def using assms
  by (intro map_idI) (auto simp: smap_ok_def sset_ok_distinct)

lemma smap_ok_unique:
  assumes "smap_ok m" "smap_ok m'" "map_of m = map_of m'"
  shows "m = m'"
proof -
  have "map fst m = map fst m'"
    using assms unfolding smap_ok_def
    by (intro sset_ok_unique) (auto simp: dom_map_of_conv_image_fst [symmetric])
  then show ?thesis
    using smap_by_keys[OF assms(1)] smap_by_keys[OF assms(2)] assms(3) by metis
qed

section \<open>Occurrence counts in a std::map\<close>

text \<open>
  The interface of a counter over an ordered key type: \<open>inc\<close> and \<open>dec\<close> (which fails on an
  absent key), the count of a key, and the least and greatest key present. Clients state
  what the counter should hold as a function to \<open>nat\<close>; \<open>tracks\<close> ties the two together.
\<close>

locale ordered_counter =
  fixes empty :: 'm
    and inc :: "'k::linorder \<Rightarrow> 'm \<Rightarrow> 'm"
    and dec :: "'k \<Rightarrow> 'm \<Rightarrow> 'm option"
    and lo hi :: "'m \<Rightarrow> 'k option"
    and tracks :: "'m \<Rightarrow> ('k \<Rightarrow> nat) \<Rightarrow> bool"
  assumes tracks_empty: "tracks empty (\<lambda>_. 0)"
    and tracks_inc: "tracks m f \<Longrightarrow> tracks (inc k m) (f(k := Suc (f k)))"
    and tracks_dec: "\<lbrakk>tracks m f; 0 < f k\<rbrakk> \<Longrightarrow> \<exists>m'. dec k m = Some m' \<and> tracks m' (f(k := f k - 1))"
    and dec_absent: "\<lbrakk>tracks m f; f k = 0\<rbrakk> \<Longrightarrow> dec k m = None"
    and tracks_finite: "tracks m f \<Longrightarrow> finite {k. 0 < f k}"
    and tracks_lo: "tracks m f \<Longrightarrow> lo m = (if {k. 0 < f k} = {} then None else Some (Min {k. 0 < f k}))"
    and tracks_hi: "tracks m f \<Longrightarrow> hi m = (if {k. 0 < f k} = {} then None else Some (Max {k. 0 < f k}))"
    and tracks_unique: "\<lbrakk>tracks m f; tracks m' f\<rbrakk> \<Longrightarrow> m = m'"
begin

lemma dec_inc: "tracks m f \<Longrightarrow> dec k (inc k m) = Some m"
  using tracks_dec[OF tracks_inc, of m f k k] tracks_unique[of _ "f"] by fastforce

lemma dec_defined_iff: "tracks m f \<Longrightarrow> (\<exists>m'. dec k m = Some m') \<longleftrightarrow> 0 < f k"
  using tracks_dec[of m f k] dec_absent[of m f k] by (cases "f k = 0") auto

lemma lo_le_hi: "\<lbrakk>tracks m f; lo m = Some a; hi m = Some b\<rbrakk> \<Longrightarrow> a \<le> b"
  using tracks_finite[of m f]
  by (auto simp: tracks_lo tracks_hi split: if_splits intro: order.trans[OF Min_le Max_ge])

end

definition counter_inc :: "'k::linorder \<Rightarrow> ('k \<times> int) list \<Rightarrow> ('k \<times> int) list" where
  "counter_inc k m = (case map_of m k of None \<Rightarrow> smap_put k 1 m | Some v \<Rightarrow> smap_put k (v + 1) m)"

definition counter_dec :: "'k::linorder \<Rightarrow> ('k \<times> int) list \<Rightarrow> ('k \<times> int) list option" where
  "counter_dec k m = (case map_of m k of None \<Rightarrow> None
     | Some v \<Rightarrow> Some (if v - 1 = 0 then smap_erase k m else smap_put k (v - 1) m))"

definition counter_lo :: "('k \<times> int) list \<Rightarrow> 'k option" where
  "counter_lo m = (if m = [] then None else Some (fst (hd m)))"

definition counter_hi :: "('k \<times> int) list \<Rightarrow> 'k option" where
  "counter_hi m = (if m = [] then None else Some (fst (last m)))"

definition counter_tracks :: "('k::linorder \<times> int) list \<Rightarrow> ('k \<Rightarrow> nat) \<Rightarrow> bool" where
  "counter_tracks m f \<longleftrightarrow> smap_ok m \<and> map_of m = (\<lambda>k. if f k = 0 then None else Some (int (f k)))"

lemma counter_tracks_keys: "counter_tracks m f \<Longrightarrow> {k. 0 < f k} = set (map fst m)"
  using dom_map_of_conv_image_fst[of m] by (auto simp: counter_tracks_def dom_def split: if_splits)

interpretation smap_counter:
  ordered_counter "[]" counter_inc counter_dec counter_lo counter_hi counter_tracks
proof
  fix m :: "('a \<times> int) list" and f k
  assume t: "counter_tracks m f"
  show "counter_tracks (counter_inc k m) (f(k := Suc (f k)))"
    using t by (auto simp: counter_tracks_def counter_inc_def fun_eq_iff)
  show "f k = 0 \<Longrightarrow> counter_dec k m = None"
    using t by (auto simp: counter_tracks_def counter_dec_def)
  show "\<exists>m'. counter_dec k m = Some m' \<and> counter_tracks m' (f(k := f k - 1))" if "0 < f k"
    using t that by (auto simp: counter_tracks_def counter_dec_def fun_eq_iff)
  show "finite {k. 0 < f k}"
    by (simp add: counter_tracks_keys[OF t])
  show "counter_lo m = (if {k. 0 < f k} = {} then None else Some (Min {k. 0 < f k}))"
    using sset_begin[of "map fst m"] t
    by (auto simp: counter_tracks_keys[OF t] counter_lo_def counter_tracks_def smap_ok_def hd_map)
  show "counter_hi m = (if {k. 0 < f k} = {} then None else Some (Max {k. 0 < f k}))"
    using sset_rbegin[of "map fst m"] t
    by (auto simp: counter_tracks_keys[OF t] counter_hi_def counter_tracks_def smap_ok_def last_map)
  show "counter_tracks m' f \<Longrightarrow> m = m'" for m'
    using t by (auto simp: counter_tracks_def intro: smap_ok_unique)
qed (simp add: counter_tracks_def)

end
