(* ===== verification/Memory_Interface.thy ===== *)
theory Memory_Interface
  imports Llama_Prelude
begin

text \<open>
  The memory interface (\<open>src/src/llama-memory.h\<close>, \<open>llama-memory.cpp\<close>): the status of a memory
  context and how the statuses of two memories are combined, and, as the locale
  \<open>seq_memory\<close>, what a client of \<open>llama_memory_i\<close> relies on when it asks for the first and last
  position of a sequence. The KV cells and the KV cache are shown to provide it.
\<close>

datatype llama_memory_status =
    LLAMA_MEMORY_STATUS_SUCCESS
  | LLAMA_MEMORY_STATUS_NO_UPDATE
  | LLAMA_MEMORY_STATUS_FAILED_PREPARE
  | LLAMA_MEMORY_STATUS_FAILED_COMPUTE

definition llama_memory_status_combine :: "llama_memory_status \<Rightarrow> llama_memory_status \<Rightarrow> llama_memory_status" where
  "llama_memory_status_combine s0 s1 =
    (case s0 of
       LLAMA_MEMORY_STATUS_FAILED_PREPARE \<Rightarrow> s0
     | LLAMA_MEMORY_STATUS_FAILED_COMPUTE \<Rightarrow> s0
     | _ \<Rightarrow> (let has_update = (s0 = LLAMA_MEMORY_STATUS_SUCCESS) in
         (case s1 of
            LLAMA_MEMORY_STATUS_FAILED_PREPARE \<Rightarrow> s1
          | LLAMA_MEMORY_STATUS_FAILED_COMPUTE \<Rightarrow> s1
          | _ \<Rightarrow> (let has_update = (has_update \<or> s1 = LLAMA_MEMORY_STATUS_SUCCESS) in
              if has_update then LLAMA_MEMORY_STATUS_SUCCESS else LLAMA_MEMORY_STATUS_NO_UPDATE))))"

definition llama_memory_status_is_fail :: "llama_memory_status \<Rightarrow> bool" where
  "llama_memory_status_is_fail status =
    (case status of
       LLAMA_MEMORY_STATUS_SUCCESS \<Rightarrow> False
     | LLAMA_MEMORY_STATUS_NO_UPDATE \<Rightarrow> False
     | LLAMA_MEMORY_STATUS_FAILED_PREPARE \<Rightarrow> True
     | LLAMA_MEMORY_STATUS_FAILED_COMPUTE \<Rightarrow> True)"

lemma combine_fail_iff:
  "llama_memory_status_is_fail (llama_memory_status_combine a b) \<longleftrightarrow>
     llama_memory_status_is_fail a \<or> llama_memory_status_is_fail b"
  by (cases a; cases b) (simp_all add: llama_memory_status_combine_def llama_memory_status_is_fail_def)

lemma combine_assoc:
  "llama_memory_status_combine (llama_memory_status_combine a b) c =
     llama_memory_status_combine a (llama_memory_status_combine b c)"
  by (cases a; cases b; cases c) (simp_all add: llama_memory_status_combine_def)

lemma combine_no_update:
  "llama_memory_status_combine a LLAMA_MEMORY_STATUS_NO_UPDATE = a"
  "llama_memory_status_combine LLAMA_MEMORY_STATUS_NO_UPDATE a = a"
  by (cases a; simp add: llama_memory_status_combine_def)+

text \<open>
  \<open>positions m s\<close> is the set of positions a memory holds for sequence \<open>s\<close>. The interface
  promises its extremes, with \<open>-1\<close> for an absent sequence.
\<close>

locale seq_memory =
  fixes mem_ok :: "'m \<Rightarrow> bool"
    and positions :: "'m \<Rightarrow> nat \<Rightarrow> llama_pos set"
    and pos_min pos_max :: "llama_seq_id \<Rightarrow> 'm \<Rightarrow> llama_pos option"
    and valid_seq :: "'m \<Rightarrow> llama_seq_id \<Rightarrow> bool"
  assumes positions_finite: "mem_ok m \<Longrightarrow> finite (positions m k)"
    and positions_nonneg: "\<lbrakk>mem_ok m; p \<in> positions m k\<rbrakk> \<Longrightarrow> 0 \<le> p"
    and pos_min_eq: "\<lbrakk>mem_ok m; valid_seq m s\<rbrakk> \<Longrightarrow>
      pos_min s m = Some (if positions m (nat s) = {} then -1 else Min (positions m (nat s)))"
    and pos_max_eq: "\<lbrakk>mem_ok m; valid_seq m s\<rbrakk> \<Longrightarrow>
      pos_max s m = Some (if positions m (nat s) = {} then -1 else Max (positions m (nat s)))"
begin

lemma absent_iff:
  assumes "mem_ok m" "valid_seq m s"
  shows "pos_max s m = Some (-1) \<longleftrightarrow> positions m (nat s) = {}"
proof
  assume l: "pos_max s m = Some (-1)"
  show "positions m (nat s) = {}"
  proof (rule ccontr)
    assume ne: "positions m (nat s) \<noteq> {}"
    then have "Max (positions m (nat s)) \<in> positions m (nat s)"
      using positions_finite[OF assms(1)] by simp
    from positions_nonneg[OF assms(1) this] l ne pos_max_eq[OF assms] show False by simp
  qed
qed (simp add: pos_max_eq[OF assms])

lemma min_le_max:
  assumes "mem_ok m" "valid_seq m s" "pos_min s m = Some a" "pos_max s m = Some b"
  shows "a \<le> b"
  using assms positions_finite[OF assms(1), of "nat s"]
  by (auto simp: pos_min_eq pos_max_eq split: if_splits intro: order.trans[OF Min_le Max_ge])

text \<open>The position after the last one is free, and so is every later one.\<close>

lemma next_position_fresh:
  assumes "mem_ok m" "valid_seq m s" "pos_max s m = Some p" "p < q"
  shows "q \<notin> positions m (nat s)"
  using assms positions_finite[OF assms(1), of "nat s"]
  by (auto simp: pos_max_eq split: if_splits dest!: Max_ge)

end

end
