(* ===== verification/Kv_Cells.thy ===== *)
theory Kv_Cells
  imports Std_Containers Memory_Interface
begin

text \<open>
  The cell metadata of the KV cache (\<open>src/src/llama-kv-cells.h\<close>): which positions and which
  sequences every cell holds, the set of used cells, and per sequence the multiset of
  positions present (\<open>seq_pos\<close>), from which \<open>seq_pos_min\<close> and \<open>seq_pos_max\<close> are read in
  constant time. The vectors of the class are lists, \<open>std::bitset<LLAMA_MAX_SEQ>\<close> is a set of
  numbers below \<open>LLAMA_MAX_SEQ\<close>, the array of \<open>std::map\<close>s is a function from sequence ids.
  Every \<open>assert\<close> of the class is a branch to \<open>None\<close>, and so are the \<open>std::out_of_range\<close> of
  \<open>bitset\<close> and signed overflow of a position.

  The invariant \<open>cells_ok\<close> ties the redundant parts together; \<open>cells_step\<close> is one call of a
  mutator within its documented precondition, and every reachable state satisfies the
  invariant. The queries are then characterised against the plain cells.
\<close>

section \<open>Data\<close>

record llama_kv_cell_ext =
  ext_x :: llama_pos
  ext_y :: llama_pos

definition is_2d_gt :: "llama_kv_cell_ext \<Rightarrow> llama_pos \<Rightarrow> llama_pos \<Rightarrow> bool" where
  "is_2d_gt e ox oy \<longleftrightarrow> ext_y e > oy \<or> (ext_y e = oy \<and> ext_x e > ox)"

definition ext_reset :: llama_kv_cell_ext where
  "ext_reset = \<lparr>ext_x = 0, ext_y = 0\<rparr>"

record llama_kv_cells =
  c_has_shift :: bool
  c_used :: "nat list"
  c_pos :: "llama_pos list"
  c_ext :: "llama_kv_cell_ext list"
  c_shift :: "llama_pos list"
  c_seq :: "nat set list"
  c_seq_pos :: "nat \<Rightarrow> (llama_pos \<times> int) list"

text \<open>\<open>bitset::test\<close> throws outside the width of the bitset.\<close>

definition bit_test :: "nat set \<Rightarrow> llama_seq_id \<Rightarrow> bool option" where
  "bit_test b s = (if 0 \<le> s \<and> s < int LLAMA_MAX_SEQ then Some (nat s \<in> b) else None)"

section \<open>Operations\<close>

definition cells_reset :: "llama_kv_cells \<Rightarrow> llama_kv_cells" where
  "cells_reset c = (let n = length (c_pos c) in
     c\<lparr>c_pos := replicate n (-1), c_ext := replicate n ext_reset, c_shift := replicate n 0,
       c_seq := replicate n {}, c_has_shift := False, c_used := [],
       c_seq_pos := (\<lambda>s. if s < LLAMA_MAX_SEQ then [] else c_seq_pos c s)\<rparr>)"

definition cells_reset_shift :: "llama_kv_cells \<Rightarrow> llama_kv_cells" where
  "cells_reset_shift c = c\<lparr>c_has_shift := False, c_shift := replicate (length (c_shift c)) 0\<rparr>"

definition cells_size :: "llama_kv_cells \<Rightarrow> nat" where
  "cells_size c = length (c_pos c)"

text \<open>The default-constructed object, and \<open>resize\<close>, which ends in a reset.\<close>

definition cells_new :: llama_kv_cells where
  "cells_new = \<lparr>c_has_shift = False, c_used = [], c_pos = [], c_ext = [], c_shift = [], c_seq = [],
     c_seq_pos = (\<lambda>_. [])\<rparr>"

definition cells_resize :: "nat \<Rightarrow> llama_kv_cells \<Rightarrow> llama_kv_cells" where
  "cells_resize n c = cells_reset
     (c\<lparr>c_pos := take n (c_pos c) @ replicate (n - length (c_pos c)) 0,
        c_ext := take n (c_ext c) @ replicate (n - length (c_ext c)) ext_reset,
        c_shift := take n (c_shift c) @ replicate (n - length (c_shift c)) 0,
        c_seq := take n (c_seq c) @ replicate (n - length (c_seq c)) {}\<rparr>)"

definition cells_is_empty :: "nat \<Rightarrow> llama_kv_cells \<Rightarrow> bool option" where
  "cells_is_empty i c = do {
     p \<leftarrow> vget (c_pos c) i;
     assert_that ((p < 0 \<and> p = -1) \<or> p \<ge> 0);
     Some (p = -1) }"

definition cells_get_used :: "llama_kv_cells \<Rightarrow> nat" where
  "cells_get_used c = length (c_used c)"

definition cells_used_min :: "llama_kv_cells \<Rightarrow> nat" where
  "cells_used_min c = (if c_used c = [] then 0 else hd (c_used c))"

definition cells_used_max_p1 :: "llama_kv_cells \<Rightarrow> nat" where
  "cells_used_max_p1 c = (if c_used c = [] then 0 else last (c_used c) + 1)"

definition cells_get_has_shift :: "llama_kv_cells \<Rightarrow> bool" where
  "cells_get_has_shift c = c_has_shift c"

subsection \<open>Helpers for seq_pos\<close>

definition seq_pos_dec :: "nat \<Rightarrow> llama_pos \<Rightarrow> llama_kv_cells \<Rightarrow> llama_kv_cells option" where
  "seq_pos_dec s p c = do {
     m \<leftarrow> counter_dec p (c_seq_pos c s);
     Some (c\<lparr>c_seq_pos := (c_seq_pos c)(s := m)\<rparr>) }"

definition seq_pos_inc :: "nat \<Rightarrow> llama_pos \<Rightarrow> llama_kv_cells \<Rightarrow> llama_kv_cells" where
  "seq_pos_inc s p c = c\<lparr>c_seq_pos := (c_seq_pos c)(s := counter_inc p (c_seq_pos c s))\<rparr>"

definition seq_pos_rm :: "nat \<Rightarrow> llama_kv_cells \<Rightarrow> llama_kv_cells option" where
  "seq_pos_rm i c = ofold (\<lambda>s c. do {
     b \<leftarrow> vget (c_seq c) i;
     p \<leftarrow> vget (c_pos c) i;
     if s \<in> b then seq_pos_dec s p c else Some c }) [0..<LLAMA_MAX_SEQ] c"

definition seq_pos_add :: "nat \<Rightarrow> llama_kv_cells \<Rightarrow> llama_kv_cells option" where
  "seq_pos_add i c = ofold (\<lambda>s c. do {
     b \<leftarrow> vget (c_seq c) i;
     p \<leftarrow> vget (c_pos c) i;
     if s \<in> b then Some (seq_pos_inc s p c) else Some c }) [0..<LLAMA_MAX_SEQ] c"

subsection \<open>Saving and restoring cells\<close>

text \<open>The loop body shared by the two overloads of \<open>cp\<close>: cell \<open>idx\<close> is copied to place \<open>j\<close>.\<close>

definition cp_cell :: "llama_kv_cells \<Rightarrow> nat \<Rightarrow> nat \<Rightarrow> llama_kv_cells \<Rightarrow> llama_kv_cells option" where
  "cp_cell c idx j res = do {
     p \<leftarrow> vget (c_pos c) idx;
     e \<leftarrow> vget (c_ext c) idx;
     b \<leftarrow> vget (c_seq c) idx;
     d \<leftarrow> vget (c_shift c) idx;
     assert_that (d = 0);
     Some (res\<lparr>c_pos := (c_pos res)[j := p], c_ext := (c_ext res)[j := e], c_seq := (c_seq res)[j := b]\<rparr>) }"

definition cells_cp_range :: "nat \<Rightarrow> nat \<Rightarrow> llama_kv_cells \<Rightarrow> llama_kv_cells option" where
  "cells_cp_range i n c = do {
     assert_that (i + n \<le> length (c_pos c));
     ofold (\<lambda>j res. cp_cell c (i + j) j res) [0..<n] (cells_resize n cells_new) }"

definition cells_cp :: "nat list \<Rightarrow> llama_kv_cells \<Rightarrow> llama_kv_cells option" where
  "cells_cp idxs c =
     ofold (\<lambda>j res. cp_cell c (idxs ! j) j res) [0..<length idxs] (cells_resize (length idxs) cells_new)"

text \<open>The loop body shared by the two overloads of \<open>set\<close>: cell \<open>idx\<close> becomes \<open>other\<close>'s cell \<open>j\<close>.\<close>

definition set_cell :: "nat \<Rightarrow> llama_kv_cells \<Rightarrow> nat \<Rightarrow> llama_kv_cells \<Rightarrow> llama_kv_cells option" where
  "set_cell idx other j c = do {
     p \<leftarrow> vget (c_pos c) idx;
     q \<leftarrow> vget (c_pos other) j;
     e \<leftarrow> vget (c_ext other) j;
     b \<leftarrow> vget (c_seq other) j;
     let c = (if p = -1 \<and> q \<noteq> -1 then c\<lparr>c_used := sset_insert idx (c_used c)\<rparr> else c);
     let c = (if p \<noteq> -1 \<and> q = -1 then c\<lparr>c_used := sset_erase idx (c_used c)\<rparr> else c);
     c \<leftarrow> (if p \<noteq> -1 then seq_pos_rm idx c else Some c);
     let c = c\<lparr>c_pos := (c_pos c)[idx := q], c_ext := (c_ext c)[idx := e], c_seq := (c_seq c)[idx := b]\<rparr>;
     c \<leftarrow> (if q \<noteq> -1 then seq_pos_add idx c else Some c);
     d \<leftarrow> vget (c_shift c) idx;
     assert_that (d = 0);
     Some c }"

definition cells_set_range :: "nat \<Rightarrow> llama_kv_cells \<Rightarrow> llama_kv_cells \<Rightarrow> llama_kv_cells option" where
  "cells_set_range i other c = do {
     assert_that (i + length (c_pos other) \<le> length (c_pos c));
     ofold (\<lambda>j c. set_cell (i + j) other j c) [0..<length (c_pos other)] c }"

definition cells_set :: "nat list \<Rightarrow> llama_kv_cells \<Rightarrow> llama_kv_cells \<Rightarrow> llama_kv_cells option" where
  "cells_set idxs other c = do {
     assert_that (length idxs = length (c_pos other));
     ofold (\<lambda>j c. set_cell (idxs ! j) other j c) [0..<length (c_pos other)] c }"

subsection \<open>Cell mutators\<close>

text \<open>What \<open>rm\<close>, \<open>seq_rm\<close> and \<open>seq_keep\<close> do to a cell that becomes empty.\<close>

definition cell_clear :: "nat \<Rightarrow> llama_kv_cells \<Rightarrow> llama_kv_cells" where
  "cell_clear i c = c\<lparr>c_pos := (c_pos c)[i := -1], c_ext := (c_ext c)[i := ext_reset],
     c_shift := (c_shift c)[i := 0], c_used := sset_erase i (c_used c)\<rparr>"

definition cells_rm :: "nat \<Rightarrow> llama_kv_cells \<Rightarrow> llama_kv_cells option" where
  "cells_rm i c = do {
     p \<leftarrow> vget (c_pos c) i;
     assert_that (p \<noteq> -1);
     c \<leftarrow> seq_pos_rm i c;
     let c = c\<lparr>c_seq := (c_seq c)[i := {}]\<rparr>;
     Some (cell_clear i c) }"

definition cells_seq_rm :: "nat \<Rightarrow> llama_seq_id \<Rightarrow> llama_kv_cells \<Rightarrow> (bool \<times> llama_kv_cells) option" where
  "cells_seq_rm i s c = do {
     p \<leftarrow> vget (c_pos c) i;
     b \<leftarrow> vget (c_seq c) i;
     t \<leftarrow> bit_test b s;
     assert_that t;
     assert_that (p \<noteq> -1);
     let b = b - {nat s};
     let c = c\<lparr>c_seq := (c_seq c)[i := b]\<rparr>;
     c \<leftarrow> seq_pos_dec (nat s) p c;
     Some (if b = {} then (True, cell_clear i c) else (False, c)) }"

definition cells_seq_keep :: "nat \<Rightarrow> llama_seq_id \<Rightarrow> llama_kv_cells \<Rightarrow> (bool \<times> llama_kv_cells) option" where
  "cells_seq_keep i s c = do {
     p \<leftarrow> vget (c_pos c) i;
     b \<leftarrow> vget (c_seq c) i;
     t \<leftarrow> bit_test b s;
     if t then do {
       c \<leftarrow> seq_pos_rm i c;
       let c = c\<lparr>c_seq := (c_seq c)[i := {nat s}]\<rparr>;
       Some (False, seq_pos_inc (nat s) p c) }
     else if b \<noteq> {} then do {
       c \<leftarrow> seq_pos_rm i c;
       let c = c\<lparr>c_seq := (c_seq c)[i := {}]\<rparr>;
       Some (True, cell_clear i c) }
     else do {
       assert_that (p = -1);
       Some (False, c) } }"

definition cells_seq_count :: "nat \<Rightarrow> llama_kv_cells \<Rightarrow> nat option" where
  "cells_seq_count i c = do {
     p \<leftarrow> vget (c_pos c) i;
     assert_that (p \<noteq> -1);
     b \<leftarrow> vget (c_seq c) i;
     Some (card b) }"

definition cells_seq_has :: "nat \<Rightarrow> llama_seq_id \<Rightarrow> llama_kv_cells \<Rightarrow> bool option" where
  "cells_seq_has i s c = do {
     assert_that (i < length (c_pos c));
     b \<leftarrow> vget (c_seq c) i;
     bit_test b s }"

definition cells_seq_add :: "nat \<Rightarrow> llama_seq_id \<Rightarrow> llama_kv_cells \<Rightarrow> llama_kv_cells option" where
  "cells_seq_add i s c = do {
     p \<leftarrow> vget (c_pos c) i;
     assert_that (p \<noteq> -1);
     b \<leftarrow> vget (c_seq c) i;
     t \<leftarrow> bit_test b s;
     assert_that (\<not> t);
     let c = c\<lparr>c_seq := (c_seq c)[i := insert (nat s) b]\<rparr>;
     Some (seq_pos_inc (nat s) p c) }"

definition cells_seq_get :: "nat \<Rightarrow> llama_kv_cells \<Rightarrow> llama_seq_id option" where
  "cells_seq_get i c = do {
     b \<leftarrow> vget (c_seq c) i;
     assert_that (card b = 1);
     Some (case filter (\<lambda>s. s \<in> b) [0..<LLAMA_MAX_SEQ] of [] \<Rightarrow> -1 | s # _ \<Rightarrow> int s) }"

definition cells_seq_pos_min :: "llama_seq_id \<Rightarrow> llama_kv_cells \<Rightarrow> llama_pos option" where
  "cells_seq_pos_min s c = do {
     assert_that (0 \<le> s);
     assert_that (s < int LLAMA_MAX_SEQ);
     if c_seq_pos c (nat s) = [] then Some (-1)
     else do {
       assert_that (snd (hd (c_seq_pos c (nat s))) > 0);
       Some (fst (hd (c_seq_pos c (nat s)))) } }"

definition cells_seq_pos_max :: "llama_seq_id \<Rightarrow> llama_kv_cells \<Rightarrow> llama_pos option" where
  "cells_seq_pos_max s c = do {
     assert_that (0 \<le> s);
     assert_that (s < int LLAMA_MAX_SEQ);
     if c_seq_pos c (nat s) = [] then Some (-1)
     else do {
       assert_that (snd (last (c_seq_pos c (nat s))) > 0);
       Some (fst (last (c_seq_pos c (nat s)))) } }"

definition cells_pos_get :: "nat \<Rightarrow> llama_kv_cells \<Rightarrow> llama_pos option" where
  "cells_pos_get i c = do { p \<leftarrow> vget (c_pos c) i; assert_that (p \<noteq> -1); Some p }"

definition cells_ext_get :: "nat \<Rightarrow> llama_kv_cells \<Rightarrow> llama_kv_cell_ext option" where
  "cells_ext_get i c = do { p \<leftarrow> vget (c_pos c) i; assert_that (p \<noteq> -1); vget (c_ext c) i }"

definition cells_get_shift :: "nat \<Rightarrow> llama_kv_cells \<Rightarrow> llama_pos option" where
  "cells_get_shift i c = do { p \<leftarrow> vget (c_pos c) i; assert_that (p \<noteq> -1); vget (c_shift c) i }"

definition cells_pos_in :: "nat \<Rightarrow> llama_pos \<Rightarrow> llama_pos \<Rightarrow> llama_kv_cells \<Rightarrow> bool option" where
  "cells_pos_in i p0 p1 c = do { p \<leftarrow> vget (c_pos c) i; Some (p \<ge> p0 \<and> p < p1) }"

definition cells_pos_set :: "nat \<Rightarrow> llama_pos \<Rightarrow> llama_kv_cells \<Rightarrow> llama_kv_cells option" where
  "cells_pos_set i p c = do {
     q \<leftarrow> vget (c_pos c) i;
     assert_that (q = -1);
     b \<leftarrow> vget (c_seq c) i;
     assert_that (b = {});
     Some (c\<lparr>c_pos := (c_pos c)[i := p], c_used := sset_insert i (c_used c)\<rparr>) }"

definition cells_ext_set :: "nat \<Rightarrow> llama_kv_cell_ext \<Rightarrow> llama_kv_cells \<Rightarrow> llama_kv_cells option" where
  "cells_ext_set i e c = do {
     assert_that (i < length (c_ext c));
     Some (c\<lparr>c_ext := (c_ext c)[i := e]\<rparr>) }"

definition cells_pos_add :: "nat \<Rightarrow> llama_pos \<Rightarrow> llama_kv_cells \<Rightarrow> (bool \<times> llama_kv_cells) option" where
  "cells_pos_add i d c = do {
     p \<leftarrow> vget (c_pos c) i;
     assert_that (p \<noteq> -1);
     c \<leftarrow> seq_pos_rm i c;
     sh \<leftarrow> vget (c_shift c) i;
     assert_that (in_i32 (p + d) \<and> in_i32 (sh + d));
     let c = c\<lparr>c_pos := (c_pos c)[i := p + d], c_shift := (c_shift c)[i := sh + d], c_has_shift := True\<rparr>;
     if p + d < 0 then
       Some (True, c\<lparr>c_seq := (c_seq c)[i := {}], c_pos := (c_pos c)[i := -1],
                     c_shift := (c_shift c)[i := 0], c_used := sset_erase i (c_used c)\<rparr>)
     else do {
       c \<leftarrow> seq_pos_add i c;
       Some (False, c) } }"

text \<open>Integer division of C++ truncates towards zero and is undefined for a zero divisor.\<close>

definition c_div :: "int \<Rightarrow> int \<Rightarrow> int" where
  "c_div a b = sgn a * sgn b * (\<bar>a\<bar> div \<bar>b\<bar>)"

definition cells_pos_div :: "nat \<Rightarrow> int \<Rightarrow> llama_kv_cells \<Rightarrow> llama_kv_cells option" where
  "cells_pos_div i d c = do {
     p \<leftarrow> vget (c_pos c) i;
     assert_that (p \<noteq> -1);
     c \<leftarrow> seq_pos_rm i c;
     sh \<leftarrow> vget (c_shift c) i;
     assert_that (d \<noteq> 0);
     let q = c_div p d;
     assert_that (in_i32 q \<and> in_i32 (p - q) \<and> in_i32 (sh + (p - q)));
     let c = c\<lparr>c_pos := (c_pos c)[i := q], c_shift := (c_shift c)[i := sh + (p - q)]\<rparr>;
     c \<leftarrow> seq_pos_add i c;
     Some (c\<lparr>c_has_shift := True\<rparr>) }"

lemmas cell_op_defs [kv_defs] =
  cells_rm_def cells_seq_rm_def cells_seq_keep_def cells_seq_add_def cells_pos_set_def
  cells_ext_set_def cells_pos_add_def cells_pos_div_def cell_clear_def set_cell_def cp_cell_def

section \<open>Invariant\<close>

definition occ :: "llama_kv_cells \<Rightarrow> nat \<Rightarrow> llama_pos \<Rightarrow> nat set" where
  "occ c s p = {i. i < length (c_pos c) \<and> s \<in> c_seq c ! i \<and> c_pos c ! i = p}"

definition shape_ok :: "llama_kv_cells \<Rightarrow> bool" where
  "shape_ok c \<longleftrightarrow> length (c_ext c) = length (c_pos c) \<and> length (c_shift c) = length (c_pos c) \<and>
     length (c_seq c) = length (c_pos c) \<and>
     (\<forall>i < length (c_pos c). -1 \<le> c_pos c ! i \<and> c_seq c ! i \<subseteq> {..<LLAMA_MAX_SEQ} \<and>
        (c_pos c ! i = -1 \<longrightarrow> c_seq c ! i = {} \<and> c_shift c ! i = 0)) \<and>
     (\<not> c_has_shift c \<longrightarrow> (\<forall>i < length (c_pos c). c_shift c ! i = 0))"

definition used_ok :: "llama_kv_cells \<Rightarrow> bool" where
  "used_ok c \<longleftrightarrow> sset_ok (c_used c) \<and> set (c_used c) = {i. i < length (c_pos c) \<and> c_pos c ! i \<noteq> -1}"

definition track_ok :: "llama_kv_cells \<Rightarrow> bool" where
  "track_ok c \<longleftrightarrow> (\<forall>s. counter_tracks (c_seq_pos c s) (\<lambda>p. card (occ c s p)))"

definition cells_ok :: "llama_kv_cells \<Rightarrow> bool" where
  "cells_ok c \<longleftrightarrow> shape_ok c \<and> used_ok c \<and> track_ok c"

text \<open>While a cell is being rewritten, \<open>seq_pos\<close> counts every cell but that one.\<close>

definition track_but :: "nat \<Rightarrow> llama_kv_cells \<Rightarrow> bool" where
  "track_but i c \<longleftrightarrow> (\<forall>s. counter_tracks (c_seq_pos c s) (\<lambda>p. card (occ c s p - {i})))"

lemma seq_pos_last: "c\<lparr>c_seq_pos := sp, c_seq := bs\<rparr> = c\<lparr>c_seq := bs, c_seq_pos := sp\<rparr>"
  by simp

lemma finite_occ [simp]: "finite (occ c s p)"
  by (simp add: occ_def)

lemma occ_frame [simp]:
  "occ (c\<lparr>c_seq_pos := sp\<rparr>) = occ c" "occ (c\<lparr>c_used := us\<rparr>) = occ c" "occ (c\<lparr>c_shift := ss\<rparr>) = occ c"
  "occ (c\<lparr>c_ext := es\<rparr>) = occ c" "occ (c\<lparr>c_has_shift := h\<rparr>) = occ c"
  by (simp_all add: occ_def fun_eq_iff)

lemma occ_but_update:
  "length ps = length (c_pos c) \<Longrightarrow>
   (\<And>j. j \<noteq> i \<Longrightarrow> ps ! j = c_pos c ! j \<and> bs ! j = c_seq c ! j) \<Longrightarrow>
   occ (c\<lparr>c_pos := ps, c_seq := bs, c_seq_pos := sp\<rparr>) s p - {i} = occ c s p - {i}"
  by (auto simp: occ_def)

text \<open>The two loops over all sequence ids have one shape: \<open>g\<close> updates the map of each member.\<close>

lemma seq_loop:
  assumes "i < length (c_seq c)" "i < length (c_pos c)"
    and "\<And>s. \<lbrakk>s < n; s \<in> c_seq c ! i\<rbrakk> \<Longrightarrow> g (c_pos c ! i) (c_seq_pos c s) = Some (h s)"
  shows "ofold (\<lambda>s c. do { b \<leftarrow> vget (c_seq c) i; p \<leftarrow> vget (c_pos c) i;
             if s \<in> b then do { m \<leftarrow> g p (c_seq_pos c s); Some (c\<lparr>c_seq_pos := (c_seq_pos c)(s := m)\<rparr>) }
             else Some c }) [0..<n] c =
         Some (c\<lparr>c_seq_pos := (\<lambda>s. if s < n \<and> s \<in> c_seq c ! i then h s else c_seq_pos c s)\<rparr>)"
  using assms(3)
proof (induction n)
  case (Suc n)
  then show ?case
    using assms(1,2) by (auto simp: ofold_append less_Suc_eq fun_eq_iff intro!: arg_cong[where f = "\<lambda>sp. c\<lparr>c_seq_pos := sp\<rparr>"])
qed simp

lemma occ_member: "\<lbrakk>i < length (c_pos c); s \<in> c_seq c ! i\<rbrakk> \<Longrightarrow> i \<in> occ c s (c_pos c ! i)"
  by (simp add: occ_def)

lemma card_occ_but:
  assumes "i < length (c_pos c)"
  shows "(\<lambda>p. card (occ c s p - {i})) =
    (if s \<in> c_seq c ! i
     then (\<lambda>p. card (occ c s p))(c_pos c ! i := card (occ c s (c_pos c ! i)) - 1)
     else (\<lambda>p. card (occ c s p)))"
  using assms occ_member[OF assms, of s]
  by (auto simp: fun_eq_iff card_Diff_singleton_if) (auto simp: occ_def)

lemma card_occ_pos: "\<lbrakk>i < length (c_pos c); s \<in> c_seq c ! i\<rbrakk> \<Longrightarrow> 0 < card (occ c s (c_pos c ! i))"
  using occ_member by (fastforce simp: card_gt_0_iff)

lemma seq_pos_rm_spec:
  assumes "shape_ok c" "track_ok c" "i < length (c_pos c)"
  shows "\<exists>sp. seq_pos_rm i c = Some (c\<lparr>c_seq_pos := sp\<rparr>) \<and> track_but i (c\<lparr>c_seq_pos := sp\<rparr>)"
proof -
  let ?p = "c_pos c ! i"
  have len: "i < length (c_seq c)" and seq: "c_seq c ! i \<subseteq> {..<LLAMA_MAX_SEQ}"
    using assms by (auto simp: shape_ok_def)
  have "\<exists>m. counter_dec ?p (c_seq_pos c s) = Some m \<and> counter_tracks m (\<lambda>p. card (occ c s p - {i}))"
    if "s \<in> c_seq c ! i" for s
    using smap_counter.tracks_dec[of "c_seq_pos c s" "\<lambda>p. card (occ c s p)" ?p] that assms(2,3)
      card_occ_pos[OF assms(3) that] by (auto simp: track_ok_def card_occ_but)
  then obtain h where h: "counter_dec ?p (c_seq_pos c s) = Some (h s)"
      "counter_tracks (h s) (\<lambda>p. card (occ c s p - {i}))" if "s \<in> c_seq c ! i" for s
    by metis
  let ?sp = "\<lambda>s. if s < LLAMA_MAX_SEQ \<and> s \<in> c_seq c ! i then h s else c_seq_pos c s"
  have "seq_pos_rm i c = Some (c\<lparr>c_seq_pos := ?sp\<rparr>)"
    unfolding seq_pos_rm_def seq_pos_dec_def by (rule seq_loop) (auto simp: len assms(3) h)
  moreover have "track_but i (c\<lparr>c_seq_pos := ?sp\<rparr>)"
    using h assms(2,3) seq by (auto simp: track_but_def track_ok_def card_occ_but)
  ultimately show ?thesis by blast
qed

lemma seq_pos_add_eval:
  assumes "i < length (c_seq c)" "i < length (c_pos c)"
  shows "seq_pos_add i c = Some (c\<lparr>c_seq_pos := (\<lambda>s. if s < LLAMA_MAX_SEQ \<and> s \<in> c_seq c ! i
    then counter_inc (c_pos c ! i) (c_seq_pos c s) else c_seq_pos c s)\<rparr>)"
  unfolding seq_pos_add_def seq_pos_inc_def
  using seq_loop[OF assms, of LLAMA_MAX_SEQ "\<lambda>p m. Some (counter_inc p m)"
      "\<lambda>s. counter_inc (c_pos c ! i) (c_seq_pos c s)"] by (simp cong: if_cong)

lemma seq_pos_add_spec:
  assumes "shape_ok c" "track_but i c" "i < length (c_pos c)"
  shows "\<exists>sp. seq_pos_add i c = Some (c\<lparr>c_seq_pos := sp\<rparr>) \<and> track_ok (c\<lparr>c_seq_pos := sp\<rparr>)"
proof -
  let ?p = "c_pos c ! i"
  have len: "i < length (c_seq c)" and seq: "c_seq c ! i \<subseteq> {..<LLAMA_MAX_SEQ}"
    using assms by (auto simp: shape_ok_def)
  let ?sp = "\<lambda>s. if s < LLAMA_MAX_SEQ \<and> s \<in> c_seq c ! i then counter_inc ?p (c_seq_pos c s) else c_seq_pos c s"
  have "seq_pos_add i c = Some (c\<lparr>c_seq_pos := ?sp\<rparr>)"
    by (rule seq_pos_add_eval[OF len assms(3)])
  moreover have "counter_tracks (counter_inc ?p (c_seq_pos c s)) (\<lambda>p. card (occ c s p))" if "s \<in> c_seq c ! i" for s
  proof -
    have "(\<lambda>p. card (occ c s p - {i}))(?p := Suc (card (occ c s ?p - {i}))) = (\<lambda>p. card (occ c s p))"
      using occ_member[OF assms(3) that] card_occ_pos[OF assms(3) that]
      by (simp add: card_Suc_Diff1 card_occ_but[OF assms(3)] that fun_upd_idem)
    with assms(2) show ?thesis
      using smap_counter.tracks_inc[of "c_seq_pos c s" "\<lambda>p. card (occ c s p - {i})" ?p]
      by (simp add: track_but_def)
  qed
  moreover have "counter_tracks (c_seq_pos c s) (\<lambda>p. card (occ c s p))" if "s \<notin> c_seq c ! i" for s
    using assms(2)[unfolded track_but_def, rule_format, of s] that by (simp add: card_occ_but[OF assms(3)])
  ultimately have "seq_pos_add i c = Some (c\<lparr>c_seq_pos := ?sp\<rparr>) \<and> track_ok (c\<lparr>c_seq_pos := ?sp\<rparr>)"
    using seq by (auto simp: track_ok_def)
  then show ?thesis by blast
qed

text \<open>Rewriting the position and the sequences of the cell left out does not disturb the rest.\<close>

lemma track_but_update:
  assumes "track_but i c" "c_pos c' = (c_pos c)[i := p]" "c_seq c' = (c_seq c)[i := b]" "c_seq_pos c' = c_seq_pos c"
  shows "track_but i c'"
proof -
  have "occ c' s q - {i} = occ c s q - {i}" for s q
    using assms by (auto simp: occ_def nth_list_update)
  with assms show ?thesis by (simp add: track_but_def)
qed

lemma track_frame [simp]:
  "track_but i (c\<lparr>c_used := us\<rparr>) = track_but i c" "track_but i (c\<lparr>c_shift := ss\<rparr>) = track_but i c"
  "track_but i (c\<lparr>c_ext := es\<rparr>) = track_but i c" "track_but i (c\<lparr>c_has_shift := h\<rparr>) = track_but i c"
  "track_ok (c\<lparr>c_used := us\<rparr>) = track_ok c" "track_ok (c\<lparr>c_shift := ss\<rparr>) = track_ok c"
  "track_ok (c\<lparr>c_ext := es\<rparr>) = track_ok c" "track_ok (c\<lparr>c_has_shift := h\<rparr>) = track_ok c"
  by (simp_all add: track_but_def track_ok_def)

text \<open>A cell without sequences does not count.\<close>

lemma track_but_empty: "\<lbrakk>track_but i c; i < length (c_seq c) \<Longrightarrow> c_seq c ! i = {}; length (c_seq c) = length (c_pos c)\<rbrakk> \<Longrightarrow> track_ok c"
proof -
  assume "track_but i c" "i < length (c_seq c) \<Longrightarrow> c_seq c ! i = {}" "length (c_seq c) = length (c_pos c)"
  moreover from this have "occ c s p - {i} = occ c s p" for s p
    by (auto simp: occ_def)
  ultimately show ?thesis by (simp add: track_but_def track_ok_def)
qed

lemma track_but_new: "\<lbrakk>track_ok c; i < length (c_pos c); c_seq c ! i = {}\<rbrakk> \<Longrightarrow> track_but i c"
  by (simp add: track_but_def track_ok_def card_occ_but)

section \<open>What the operations do\<close>

text \<open>
  \<open>used\<close> and \<open>seq_pos\<close> are functions of the rest of the state: the view of a well-formed
  object determines it.
\<close>

definition view :: "llama_kv_cells \<Rightarrow> bool \<times> llama_pos list \<times> llama_kv_cell_ext list \<times> llama_pos list \<times> nat set list" where
  "view c = (c_has_shift c, c_pos c, c_ext c, c_shift c, c_seq c)"

lemma view_inject: "\<lbrakk>cells_ok c; cells_ok c'; view c = view c'\<rbrakk> \<Longrightarrow> c = c'"
proof -
  assume ok: "cells_ok c" "cells_ok c'" and v: "view c = view c'"
  have "c_used c = c_used c'"
    using ok v by (auto simp: cells_ok_def used_ok_def view_def intro!: sset_ok_unique)
  moreover have "occ c = occ c'"
    using v by (simp add: occ_def view_def fun_eq_iff)
  then have "c_seq_pos c = c_seq_pos c'"
    using ok by (auto simp: cells_ok_def track_ok_def fun_eq_iff intro: smap_counter.tracks_unique)
  ultimately show "c = c'"
    using v by (simp add: view_def)
qed

lemma shape_ok_upd:
  assumes "shape_ok c" "i < length (c_pos c)"
    and v: "view c' = (h, (c_pos c)[i := p], (c_ext c)[i := e], (c_shift c)[i := d], (c_seq c)[i := b])"
    and "-1 \<le> p" "b \<subseteq> {..<LLAMA_MAX_SEQ}" "p = -1 \<longrightarrow> b = {} \<and> d = 0" "d = 0 \<or> h" "c_has_shift c \<longrightarrow> h"
  shows "shape_ok c'"
  using assms by (auto simp: shape_ok_def nth_list_update view_def)

lemma shape_ok_frame [simp]:
  "shape_ok (c\<lparr>c_seq_pos := sp\<rparr>) = shape_ok c" "shape_ok (c\<lparr>c_used := us\<rparr>) = shape_ok c"
  by (simp_all add: shape_ok_def)

lemma used_ok_frame [simp]:
  "used_ok (c\<lparr>c_seq_pos := sp\<rparr>) = used_ok c" "used_ok (c\<lparr>c_seq := bs\<rparr>) = used_ok c"
  "used_ok (c\<lparr>c_ext := es\<rparr>) = used_ok c" "used_ok (c\<lparr>c_shift := ss\<rparr>) = used_ok c"
  "used_ok (c\<lparr>c_has_shift := h\<rparr>) = used_ok c"
  by (simp_all add: used_ok_def)

lemma used_ok_upd:
  assumes "used_ok c" "i < length (c_pos c)" "c_pos c' = (c_pos c)[i := p]"
  shows "\<lbrakk>p = -1; c_used c' = sset_erase i (c_used c)\<rbrakk> \<Longrightarrow> used_ok c'"
    and "\<lbrakk>p \<noteq> -1; c_used c' = sset_insert i (c_used c)\<rbrakk> \<Longrightarrow> used_ok c'"
    and "\<lbrakk>p \<noteq> -1; c_pos c ! i \<noteq> -1; c_used c' = c_used c\<rbrakk> \<Longrightarrow> used_ok c'"
  using assms by (auto simp: used_ok_def nth_list_update)

text \<open>
  The one update every mutator amounts to: cell \<open>i\<close> gets position \<open>p\<close>, extra data \<open>e\<close>,
  shift \<open>d\<close> and sequences \<open>b\<close>; \<open>used\<close> and \<open>seq_pos\<close> follow.
\<close>

definition cell_put :: "nat \<Rightarrow> llama_pos \<Rightarrow> llama_kv_cell_ext \<Rightarrow> llama_pos \<Rightarrow> nat set \<Rightarrow> bool \<Rightarrow> llama_kv_cells \<Rightarrow> llama_kv_cells \<Rightarrow> bool" where
  "cell_put i p e d b h c c' \<longleftrightarrow> cells_ok c' \<and>
     view c' = (h, (c_pos c)[i := p], (c_ext c)[i := e], (c_shift c)[i := d], (c_seq c)[i := b])"

lemma cell_put_unique: "\<lbrakk>cell_put i p e d b h c c'; cell_put i p e d b h c c''\<rbrakk> \<Longrightarrow> c' = c''"
  by (auto simp: cell_put_def intro: view_inject)

text \<open>
  The two halves of a rewrite: take the cell out of the counts, change it, and either leave it
  empty or count it again.
\<close>

lemma rewrite_empty:
  assumes ok: "cells_ok c" and i: "i < length (c_pos c)" and tr: "track_but i (c\<lparr>c_seq_pos := sp\<rparr>)"
    and h: "c_has_shift c \<longrightarrow> h"
    and v: "view c' = (h, (c_pos c)[i := -1], (c_ext c)[i := e], (c_shift c)[i := 0], (c_seq c)[i := {}])"
    and u: "c_used c' = sset_erase i (c_used c)" and sp: "c_seq_pos c' = sp"
  shows "cell_put i (-1) e 0 {} h c c'"
proof -
  have "shape_ok c'"
    using ok h by (intro shape_ok_upd[OF _ i v]) (auto simp: cells_ok_def)
  moreover have "used_ok c'"
    using used_ok_upd(1)[OF _ i _ refl u] ok v by (simp add: cells_ok_def view_def)
  moreover have "track_but i c'"
    using tr v sp by (intro track_but_update[OF tr]) (auto simp: view_def)
  then have "track_ok c'"
    using ok i v by (intro track_but_empty[of i]) (auto simp: cells_ok_def shape_ok_def view_def)
  ultimately show ?thesis using v by (simp add: cell_put_def cells_ok_def)
qed

lemma rewrite_full:
  assumes ok: "cells_ok c" and i: "i < length (c_pos c)" and tr: "track_but i (c\<lparr>c_seq_pos := sp\<rparr>)"
    and cell: "0 \<le> p" "b \<subseteq> {..<LLAMA_MAX_SEQ}" "d = 0 \<or> h" and h: "c_has_shift c \<longrightarrow> h"
    and v: "view c1 = (h, (c_pos c)[i := p], (c_ext c)[i := e], (c_shift c)[i := d], (c_seq c)[i := b])"
    and us: "used_ok c1" and sp: "c_seq_pos c1 = sp"
  shows "\<exists>c'. seq_pos_add i c1 = Some c' \<and> cell_put i p e d b h c c'"
proof -
  have sh: "shape_ok c1"
    using ok h cell by (intro shape_ok_upd[OF _ i v]) (auto simp: cells_ok_def)
  have tr1: "track_but i c1"
    using v sp by (intro track_but_update[OF tr]) (auto simp: view_def)
  have len: "i < length (c_pos c1)" using i v by (simp add: view_def)
  obtain sp' where
    "seq_pos_add i c1 = Some (c1\<lparr>c_seq_pos := sp'\<rparr>)" "track_ok (c1\<lparr>c_seq_pos := sp'\<rparr>)"
    using seq_pos_add_spec[OF sh tr1 len] by blast
  moreover from this us sh v have "cell_put i p e d b h c (c1\<lparr>c_seq_pos := sp'\<rparr>)"
    unfolding cell_put_def cells_ok_def by (simp add: view_def)
  ultimately show ?thesis by blast
qed

lemma occ_seq_upd:
  "\<lbrakk>i < length (c_pos c); length (c_seq c) = length (c_pos c)\<rbrakk> \<Longrightarrow>
   occ (c\<lparr>c_seq := (c_seq c)[i := b]\<rparr>) s p =
     (if s \<in> b \<and> c_pos c ! i = p then insert i (occ c s p) else occ c s p - {i})"
  by (auto simp: occ_def nth_list_update)

lemma cells_okD:
  assumes "cells_ok c" "i < length (c_pos c)"
  shows "shape_ok c" "track_ok c" "used_ok c" "length (c_seq c) = length (c_pos c)"
    "length (c_shift c) = length (c_pos c)" "length (c_ext c) = length (c_pos c)"
    "-1 \<le> c_pos c ! i" "c_seq c ! i \<subseteq> {..<LLAMA_MAX_SEQ}"
    "c_pos c ! i = -1 \<Longrightarrow> c_seq c ! i = {}" "c_pos c ! i = -1 \<Longrightarrow> c_shift c ! i = 0"
    "c_shift c ! i = 0 \<or> c_has_shift c"
  using assms by (auto simp: cells_ok_def shape_ok_def)

lemma cells_rm_spec:
  assumes ok: "cells_ok c" and i: "i < length (c_pos c)" and p: "c_pos c ! i \<noteq> -1"
  shows "\<exists>c'. cells_rm i c = Some c' \<and> cell_put i (-1) ext_reset 0 {} (c_has_shift c) c c'"
proof -
  note D = cells_okD[OF ok i]
  obtain sp where "seq_pos_rm i c = Some (c\<lparr>c_seq_pos := sp\<rparr>)" "track_but i (c\<lparr>c_seq_pos := sp\<rparr>)"
    using seq_pos_rm_spec[OF D(1,2) i] by blast
  with i p show ?thesis
    by (auto simp: cells_rm_def cell_clear_def view_def intro!: rewrite_empty[OF ok i])
qed

text \<open>Adding or removing one sequence of a cell changes one count.\<close>

lemma track_seq_del:
  assumes ok: "cells_ok c" and i: "i < length (c_pos c)" and s: "s \<in> c_seq c ! i"
  shows "\<exists>m. counter_dec (c_pos c ! i) (c_seq_pos c s) = Some m \<and>
    track_ok (c\<lparr>c_seq := (c_seq c)[i := c_seq c ! i - {s}], c_seq_pos := (c_seq_pos c)(s := m)\<rparr>)"
proof -
  note D = cells_okD[OF ok i]
  have "counter_tracks (c_seq_pos c s) (\<lambda>p. card (occ c s p))"
    using D(2) by (simp add: track_ok_def)
  from smap_counter.tracks_dec[OF this card_occ_pos[OF i s]] obtain m where
    m: "counter_dec (c_pos c ! i) (c_seq_pos c s) = Some m" "counter_tracks m (\<lambda>p. card (occ c s p - {i}))"
    by (auto simp: card_occ_but[OF i] s)
  have "occ (c\<lparr>c_seq := (c_seq c)[i := c_seq c ! i - {s}]\<rparr>) k p = (if k = s then occ c s p - {i} else occ c k p)" for k p
    using i D(4) by (auto simp: occ_def nth_list_update)
  with m D(2) show ?thesis by (auto simp: track_ok_def)
qed

lemma track_seq_ins:
  assumes ok: "cells_ok c" and i: "i < length (c_pos c)" and s: "s \<notin> c_seq c ! i"
  shows "track_ok (c\<lparr>c_seq := (c_seq c)[i := insert s (c_seq c ! i)],
      c_seq_pos := (c_seq_pos c)(s := counter_inc (c_pos c ! i) (c_seq_pos c s))\<rparr>)"
proof -
  note D = cells_okD[OF ok i]
  let ?c' = "c\<lparr>c_seq := (c_seq c)[i := insert s (c_seq c ! i)]\<rparr>"
  have occ: "occ ?c' k p = (if k = s \<and> p = c_pos c ! i then insert i (occ c s p) else occ c k p)" for k p
    using i D(4) s by (auto simp: occ_def nth_list_update)
  have "i \<notin> occ c s p" for p
    using s by (simp add: occ_def)
  then have "(\<lambda>p. card (occ ?c' s p)) = (\<lambda>p. card (occ c s p))(c_pos c ! i := Suc (card (occ c s (c_pos c ! i))))"
    by (auto simp: occ fun_eq_iff)
  then show ?thesis
    using D(2) smap_counter.tracks_inc[of "c_seq_pos c s" "\<lambda>p. card (occ c s p)" "c_pos c ! i"]
    by (auto simp: track_ok_def occ)
qed

lemma reseq_put:
  assumes ok: "cells_ok c" and i: "i < length (c_pos c)" and p: "c_pos c ! i \<noteq> -1"
    and b: "b \<subseteq> {..<LLAMA_MAX_SEQ}" and tr: "track_ok (c\<lparr>c_seq := (c_seq c)[i := b], c_seq_pos := sp\<rparr>)"
  shows "cell_put i (c_pos c ! i) (c_ext c ! i) (c_shift c ! i) b (c_has_shift c) c
    (c\<lparr>c_seq := (c_seq c)[i := b], c_seq_pos := sp\<rparr>)" (is "cell_put _ _ _ _ _ _ _ ?c'")
proof -
  note D = cells_okD[OF ok i]
  have v: "view ?c' = (c_has_shift c, (c_pos c)[i := c_pos c ! i], (c_ext c)[i := c_ext c ! i],
      (c_shift c)[i := c_shift c ! i], (c_seq c)[i := b])"
    by (simp add: view_def)
  have "shape_ok ?c'"
    using D p b by (intro shape_ok_upd[OF D(1) i v]) auto
  then show ?thesis
    using tr D(3) v by (simp add: cell_put_def cells_ok_def)
qed

lemma cells_seq_rm_spec:
  assumes ok: "cells_ok c" and i: "i < length (c_pos c)" and s: "0 \<le> s" "nat s \<in> c_seq c ! i"
  shows "\<exists>c'. cells_seq_rm i s c = Some (c_seq c ! i = {nat s}, c') \<and>
    (if c_seq c ! i = {nat s} then cell_put i (-1) ext_reset 0 {} (c_has_shift c) c c'
     else cell_put i (c_pos c ! i) (c_ext c ! i) (c_shift c ! i) (c_seq c ! i - {nat s}) (c_has_shift c) c c')"
proof -
  note D = cells_okD[OF ok i]
  let ?b = "c_seq c ! i - {nat s}"
  have p: "c_pos c ! i \<noteq> -1" and lt: "s < int LLAMA_MAX_SEQ" using D(8,9) s by auto
  obtain m where m: "counter_dec (c_pos c ! i) (c_seq_pos c (nat s)) = Some m"
    and tr: "track_ok (c\<lparr>c_seq := (c_seq c)[i := ?b], c_seq_pos := (c_seq_pos c)(nat s := m)\<rparr>)" (is "track_ok ?c2")
    using track_seq_del[OF ok i s(2)] by blast
  have eval: "cells_seq_rm i s c = Some (if ?b = {} then (True, cell_clear i ?c2) else (False, ?c2))"
    using i D(4) s lt p m by (simp add: cells_seq_rm_def bit_test_def seq_pos_dec_def)
  have b: "?b = {} \<longleftrightarrow> c_seq c ! i = {nat s}" using s by auto
  show ?thesis
  proof (cases "?b = {}")
    case True
    then have "track_but i ?c2"
      using i D(4) by (intro track_but_new[OF tr]) simp_all
    then have "track_but i (c\<lparr>c_seq_pos := (c_seq_pos c)(nat s := m)\<rparr>)"
      by (rule track_but_update[where b = "c_seq c ! i" and p = "c_pos c ! i"]) simp_all
    with eval True b show ?thesis
      by (auto simp: cell_clear_def view_def intro!: rewrite_empty[OF ok i])
  next
    case False
    have "?b \<subseteq> {..<LLAMA_MAX_SEQ}" using D(8) by blast
    from reseq_put[OF ok i p this tr] eval False b show ?thesis by simp
  qed
qed

lemma cells_seq_add_spec:
  assumes ok: "cells_ok c" and i: "i < length (c_pos c)" and p: "c_pos c ! i \<noteq> -1"
    and s: "0 \<le> s" "s < int LLAMA_MAX_SEQ" "nat s \<notin> c_seq c ! i"
  shows "\<exists>c'. cells_seq_add i s c = Some c' \<and>
    cell_put i (c_pos c ! i) (c_ext c ! i) (c_shift c ! i) (insert (nat s) (c_seq c ! i)) (c_has_shift c) c c'"
proof -
  note D = cells_okD[OF ok i]
  have "insert (nat s) (c_seq c ! i) \<subseteq> {..<LLAMA_MAX_SEQ}" using D(8) s by auto
  from reseq_put[OF ok i p this track_seq_ins[OF ok i s(3)]] show ?thesis
    using i D(4) p s by (simp add: cells_seq_add_def bit_test_def seq_pos_inc_def)
qed

lemma cells_seq_keep_spec:
  assumes ok: "cells_ok c" and i: "i < length (c_pos c)" and s: "0 \<le> s" "s < int LLAMA_MAX_SEQ"
    and pb: "c_pos c ! i \<noteq> -1 \<longrightarrow> c_seq c ! i \<noteq> {}"
  shows "\<exists>c'. cells_seq_keep i s c = Some (c_seq c ! i \<noteq> {} \<and> nat s \<notin> c_seq c ! i, c') \<and>
    (if nat s \<in> c_seq c ! i
     then cell_put i (c_pos c ! i) (c_ext c ! i) (c_shift c ! i) {nat s} (c_has_shift c) c c'
     else if c_seq c ! i \<noteq> {} then cell_put i (-1) ext_reset 0 {} (c_has_shift c) c c'
     else c' = c)"
proof -
  note D = cells_okD[OF ok i]
  obtain sp where rm: "seq_pos_rm i c = Some (c\<lparr>c_seq_pos := sp\<rparr>)" and tr: "track_but i (c\<lparr>c_seq_pos := sp\<rparr>)"
    using seq_pos_rm_spec[OF D(1,2) i] by blast
  have empty: "cell_put i (-1) ext_reset 0 {} (c_has_shift c) c (cell_clear i (c\<lparr>c_seq_pos := sp, c_seq := (c_seq c)[i := {}]\<rparr>))"
    by (rule rewrite_empty[OF ok i tr]) (simp_all add: cell_clear_def view_def)
  show ?thesis
  proof (cases "nat s \<in> c_seq c ! i")
    case True
    have p: "c_pos c ! i \<noteq> -1" using D(9) True by auto
    let ?c0 = "c\<lparr>c_seq := (c_seq c)[i := {}], c_seq_pos := sp\<rparr>"
    have "track_ok ?c0"
      using i D(4) track_but_update[OF tr, of ?c0 "c_pos c ! i" "{}"]
      by (intro track_but_empty[of i]) auto
    then have "cells_ok ?c0"
      using reseq_put[OF ok i p, of "{}" sp] by (simp add: cell_put_def)
    from track_seq_ins[OF this, of i "nat s"] i D(4)
    have "track_ok (c\<lparr>c_seq := (c_seq c)[i := {nat s}], c_seq_pos := sp(nat s := counter_inc (c_pos c ! i) (sp (nat s)))\<rparr>)"
      by simp
    from reseq_put[OF ok i p _ this] s True show ?thesis
      using i D(4) p by (simp add: cells_seq_keep_def bit_test_def rm seq_pos_inc_def seq_pos_last)
  next
    case False
    with i D(4) s pb empty show ?thesis
      by (auto simp: cells_seq_keep_def bit_test_def rm)
  qed
qed

lemma cells_pos_set_spec:
  assumes ok: "cells_ok c" and i: "i < length (c_pos c)" and e: "c_pos c ! i = -1" and p: "0 \<le> p"
  shows "\<exists>c'. cells_pos_set i p c = Some c' \<and> cell_put i p (c_ext c ! i) (c_shift c ! i) {} (c_has_shift c) c c'"
proof -
  note D = cells_okD[OF ok i]
  let ?c' = "c\<lparr>c_pos := (c_pos c)[i := p], c_used := sset_insert i (c_used c)\<rparr>"
  have b: "(c_seq c)[i := {}] = c_seq c" using D(9)[OF e] by (metis list_update_id)
  have v: "view ?c' = (c_has_shift c, (c_pos c)[i := p], (c_ext c)[i := c_ext c ! i],
      (c_shift c)[i := c_shift c ! i], (c_seq c)[i := {}])"
    by (simp add: view_def b)
  have "shape_ok ?c'"
    using D p by (intro shape_ok_upd[OF D(1) i v]) auto
  moreover have "used_ok ?c'" using used_ok_upd(2)[OF D(3) i, of ?c' p] p by simp
  moreover have "track_but i ?c'"
    using track_but_update[OF track_but_new[OF D(2) i D(9)[OF e]], of ?c' p "{}"] b by simp
  then have "track_ok ?c'"
    using D(4) D(9)[OF e] by (intro track_but_empty[of i]) auto
  ultimately show ?thesis
    using i e D(4) D(9)[OF e] v by (simp add: cells_pos_set_def cell_put_def cells_ok_def)
qed

lemma cells_ext_set_spec:
  assumes ok: "cells_ok c" and i: "i < length (c_pos c)"
  shows "\<exists>c'. cells_ext_set i e c = Some c' \<and>
    cell_put i (c_pos c ! i) e (c_shift c ! i) (c_seq c ! i) (c_has_shift c) c c'"
  using cells_okD[OF ok i] i ok
  by (auto simp: cells_ext_set_def cell_put_def cells_ok_def view_def shape_ok_def)

lemma cells_pos_add_spec:
  assumes ok: "cells_ok c" and i: "i < length (c_pos c)" and p: "c_pos c ! i \<noteq> -1"
    and r: "in_i32 (c_pos c ! i + d)" "in_i32 (c_shift c ! i + d)"
  shows "\<exists>c'. cells_pos_add i d c = Some (c_pos c ! i + d < 0, c') \<and>
    (if c_pos c ! i + d < 0 then cell_put i (-1) (c_ext c ! i) 0 {} True c c'
     else cell_put i (c_pos c ! i + d) (c_ext c ! i) (c_shift c ! i + d) (c_seq c ! i) True c c')"
proof -
  note D = cells_okD[OF ok i]
  obtain sp where rm: "seq_pos_rm i c = Some (c\<lparr>c_seq_pos := sp\<rparr>)" and tr: "track_but i (c\<lparr>c_seq_pos := sp\<rparr>)"
    using seq_pos_rm_spec[OF D(1,2) i] by blast
  show ?thesis
  proof (cases "c_pos c ! i + d < 0")
    case True
    with i p r D show ?thesis
      by (auto simp: cells_pos_add_def rm view_def intro!: rewrite_empty[OF ok i tr])
  next
    case False
    let ?c1 = "c\<lparr>c_seq_pos := sp, c_pos := (c_pos c)[i := c_pos c ! i + d],
      c_shift := (c_shift c)[i := c_shift c ! i + d], c_has_shift := True\<rparr>"
    have "used_ok ?c1"
      using used_ok_upd(3)[OF D(3) i, of ?c1 "c_pos c ! i + d"] p False by simp
    with False rewrite_full[OF ok i tr, of "c_pos c ! i + d" "c_seq c ! i" "c_shift c ! i + d" True ?c1 "c_ext c ! i"]
    show ?thesis
      using i p r D by (auto simp: cells_pos_add_def rm view_def)
  qed
qed

lemma c_div_nonneg: "\<lbrakk>0 \<le> p; 0 < d\<rbrakk> \<Longrightarrow> c_div p d = p div d"
  by (auto simp: c_div_def sgn_if)

lemma cells_pos_div_spec:
  assumes ok: "cells_ok c" and i: "i < length (c_pos c)" and p: "c_pos c ! i \<noteq> -1" and d: "0 < d"
    and r: "in_i32 (c_pos c ! i div d)" "in_i32 (c_pos c ! i - c_pos c ! i div d)"
      "in_i32 (c_shift c ! i + (c_pos c ! i - c_pos c ! i div d))"
  shows "\<exists>c'. cells_pos_div i d c = Some c' \<and>
    cell_put i (c_pos c ! i div d) (c_ext c ! i) (c_shift c ! i + (c_pos c ! i - c_pos c ! i div d)) (c_seq c ! i) True c c'"
proof -
  note D = cells_okD[OF ok i]
  let ?q = "c_pos c ! i div d" and ?d = "c_shift c ! i + (c_pos c ! i - c_pos c ! i div d)"
  have nn: "0 \<le> c_pos c ! i" using D(7) p by simp
  have q: "0 \<le> ?q" "c_div (c_pos c ! i) d = ?q"
    using nn d by (auto simp: c_div_nonneg pos_imp_zdiv_nonneg_iff)
  obtain sp where rm: "seq_pos_rm i c = Some (c\<lparr>c_seq_pos := sp\<rparr>)" and tr: "track_but i (c\<lparr>c_seq_pos := sp\<rparr>)"
    using seq_pos_rm_spec[OF D(1,2) i] by blast
  let ?c1 = "c\<lparr>c_seq_pos := sp, c_pos := (c_pos c)[i := ?q], c_shift := (c_shift c)[i := ?d]\<rparr>"
  have "used_ok (?c1\<lparr>c_has_shift := True\<rparr>)"
    using used_ok_upd(3)[OF D(3) i, of "?c1\<lparr>c_has_shift := True\<rparr>" ?q] p q(1) by simp
  with rewrite_full[OF ok i tr, of ?q "c_seq c ! i" ?d True "?c1\<lparr>c_has_shift := True\<rparr>" "c_ext c ! i"] obtain c' where
    c': "seq_pos_add i (?c1\<lparr>c_has_shift := True\<rparr>) = Some c'"
      "cell_put i ?q (c_ext c ! i) ?d (c_seq c ! i) True c c'"
    using q(1) D by (auto simp: view_def)
  have "cells_pos_div i d c = Some c'"
    using c'(1) i p q(2) d r D
    by (auto simp: cells_pos_div_def rm seq_pos_add_eval Let_def cong: if_cong)
  with c'(2) show ?thesis by blast
qed

lemma cells_reset_ok:
  assumes "\<And>s. LLAMA_MAX_SEQ \<le> s \<Longrightarrow> c_seq_pos c s = []"
  shows "cells_ok (cells_reset c)"
proof -
  have "occ (cells_reset c) s p = {}" for s p
    by (auto simp: occ_def cells_reset_def Let_def)
  moreover have "c_seq_pos (cells_reset c) = (\<lambda>s. [])"
    using assms by (auto simp: cells_reset_def Let_def)
  ultimately have "track_ok (cells_reset c)"
    using smap_counter.tracks_empty by (simp add: track_ok_def)
  then show ?thesis
    by (auto simp: cells_ok_def cells_reset_def shape_ok_def used_ok_def Let_def)
qed

lemma cells_ok_high: "\<lbrakk>cells_ok c; LLAMA_MAX_SEQ \<le> s\<rbrakk> \<Longrightarrow> c_seq_pos c s = []"
proof -
  assume ok: "cells_ok c" and s: "LLAMA_MAX_SEQ \<le> s"
  have "s \<notin> c_seq c ! i" if "i < length (c_pos c)" for i
    using cells_okD(8)[OF ok that] s by auto
  then have "occ c s p = {}" for p
    by (auto simp: occ_def)
  with ok have "counter_tracks (c_seq_pos c s) (\<lambda>_. 0)"
    by (auto simp: cells_ok_def track_ok_def dest: spec[of _ s])
  then show ?thesis
    using smap_counter.tracks_empty by (rule smap_counter.tracks_unique)
qed

lemma cells_resize_ok: "(\<And>s. LLAMA_MAX_SEQ \<le> s \<Longrightarrow> c_seq_pos c s = []) \<Longrightarrow> cells_ok (cells_resize n c)"
  unfolding cells_resize_def by (rule cells_reset_ok) simp

lemma cells_reset_shift_ok: "cells_ok c \<Longrightarrow> cells_ok (cells_reset_shift c)"
  by (auto simp: cells_ok_def cells_reset_shift_def shape_ok_def)

lemma set_cell_spec:
  assumes ok: "cells_ok c" and i: "i < length (c_pos c)" and j: "j < length (c_pos r)"
    and r: "length (c_ext r) = length (c_pos r)" "length (c_seq r) = length (c_pos r)"
    and cell: "-1 \<le> c_pos r ! j" "c_seq r ! j \<subseteq> {..<LLAMA_MAX_SEQ}" "c_pos r ! j = -1 \<longrightarrow> c_seq r ! j = {}"
    and d: "c_shift c ! i = 0"
  shows "\<exists>c'. set_cell i r j c = Some c' \<and> cell_put i (c_pos r ! j) (c_ext r ! j) 0 (c_seq r ! j) (c_has_shift c) c c'"
proof -
  note D = cells_okD[OF ok i]
  let ?q = "c_pos r ! j"
  define us where "us = (if c_pos c ! i = -1 \<and> ?q \<noteq> -1 then sset_insert i (c_used c)
      else if c_pos c ! i \<noteq> -1 \<and> ?q = -1 then sset_erase i (c_used c) else c_used c)"
  obtain sp where sp: "(if c_pos c ! i \<noteq> -1 then seq_pos_rm i (c\<lparr>c_used := us\<rparr>) else Some (c\<lparr>c_used := us\<rparr>)) = Some (c\<lparr>c_used := us, c_seq_pos := sp\<rparr>)"
    and tr: "track_but i (c\<lparr>c_seq_pos := sp\<rparr>)"
  proof (cases "c_pos c ! i = -1")
    case True
    with that[of "c_seq_pos c"] track_but_new[OF D(2) i D(9)] show ?thesis by simp
  next
    case False
    with seq_pos_rm_spec[of "c\<lparr>c_used := us\<rparr>" i] D i obtain sp where
      "seq_pos_rm i (c\<lparr>c_used := us\<rparr>) = Some (c\<lparr>c_used := us, c_seq_pos := sp\<rparr>)"
      "track_but i (c\<lparr>c_used := us, c_seq_pos := sp\<rparr>)" by auto
    with that[of sp] False show ?thesis by (simp add: track_but_def occ_def)
  qed
  let ?c1 = "c\<lparr>c_used := us, c_seq_pos := sp, c_pos := (c_pos c)[i := ?q],
      c_ext := (c_ext c)[i := c_ext r ! j], c_seq := (c_seq c)[i := c_seq r ! j]\<rparr>"
  have v: "view ?c1 = (c_has_shift c, (c_pos c)[i := ?q], (c_ext c)[i := c_ext r ! j], (c_shift c)[i := 0],
      (c_seq c)[i := c_seq r ! j])"
    using d by (simp add: view_def) (metis list_update_id)
  have us_ok: "used_ok ?c1"
    using D(3) i by (auto simp: used_ok_def us_def nth_list_update)
  have eval: "set_cell i r j c = do { c \<leftarrow> (if ?q \<noteq> -1 then seq_pos_add i ?c1 else Some ?c1);
      d \<leftarrow> vget (c_shift c) i; assert_that (d = 0); Some c }"
  proof -
    let ?X = "if c_pos c ! i = -1 \<and> ?q \<noteq> -1 then c\<lparr>c_used := sset_insert i (c_used c)\<rparr> else c"
    have u: "(if c_pos c ! i \<noteq> -1 \<and> ?q = -1 then ?X\<lparr>c_used := sset_erase i (c_used ?X)\<rparr> else ?X) = c\<lparr>c_used := us\<rparr>"
      by (simp add: us_def)
    show ?thesis
      unfolding set_cell_def Let_def vget_in[OF i] vget_in[OF j] vget_in[OF j[folded r(1)]] vget_in[OF j[folded r(2)]]
        Option.bind.simps u sp by simp
  qed
  show ?thesis
  proof (cases "?q = -1")
    case True
    have "us = sset_erase i (c_used c)"
    proof (cases "c_pos c ! i = -1")
      case e: True
      then have "i \<notin> set (c_used c)" using D(3) by (simp add: used_ok_def)
      with e True show ?thesis by (simp add: us_def sset_erase_absent)
    next
      case False
      with True show ?thesis by (simp add: us_def)
    qed
    with True cell v have "cell_put i (-1) (c_ext r ! j) 0 {} (c_has_shift c) c ?c1"
      using rewrite_empty[OF ok i tr, of "c_has_shift c" ?c1 "c_ext r ! j"] by simp
    with eval True cell d i D show ?thesis by simp
  next
    case False
    with cell v us_ok obtain c' where c': "seq_pos_add i ?c1 = Some c'"
      "cell_put i ?q (c_ext r ! j) 0 (c_seq r ! j) (c_has_shift c) c c'"
      using rewrite_full[OF ok i tr, of ?q "c_seq r ! j" 0 "c_has_shift c" ?c1 "c_ext r ! j"] by auto
    then have "c_shift c' = (c_shift c)[i := 0]" by (simp add: cell_put_def view_def)
    with eval c' False i D show ?thesis by auto
  qed
qed

text \<open>What \<open>cp\<close> saves of the cells at \<open>idxs\<close>.\<close>

lemma cells_cp_spec:
  assumes "cells_ok c" "\<And>i. i \<in> set idxs \<Longrightarrow> i < length (c_pos c) \<and> c_shift c ! i = 0"
  shows "\<exists>r. cells_cp idxs c = Some r \<and> c_pos r = map ((!) (c_pos c)) idxs \<and>
    c_ext r = map ((!) (c_ext c)) idxs \<and> c_seq r = map ((!) (c_seq c)) idxs"
proof -
  let ?n = "length idxs"
  let ?P = "\<lambda>j r. length (c_pos r) = ?n \<and> length (c_ext r) = ?n \<and> length (c_seq r) = ?n \<and>
    (\<forall>k < j. c_pos r ! k = c_pos c ! (idxs ! k) \<and> c_ext r ! k = c_ext c ! (idxs ! k) \<and>
      c_seq r ! k = c_seq c ! (idxs ! k))"
  have "\<exists>r. cells_cp idxs c = Some r \<and> ?P ?n r"
    unfolding cells_cp_def
  proof (rule ofold_upto[where P = ?P])
    show "?P 0 (cells_resize ?n cells_new)"
      by (simp add: cells_resize_def cells_reset_def cells_new_def Let_def)
  next
    fix j and r :: llama_kv_cells assume j: "j < ?n" and P: "?P j r"
    note idx = assms(2)[OF nth_mem[OF j]]
    then have "idxs ! j < length (c_ext c)" "idxs ! j < length (c_seq c)" "idxs ! j < length (c_shift c)"
      using cells_okD[OF assms(1), of "idxs ! j"] by auto
    with idx j P show "\<exists>r'. cp_cell c (idxs ! j) j r = Some r' \<and> ?P (Suc j) r'"
      by (simp add: cp_cell_def nth_list_update less_Suc_eq)
  qed
  then show ?thesis by (auto intro!: nth_equalityI)
qed

text \<open>
  Restoring: if \<open>c\<close> differs from \<open>c0\<close> only at the saved cells, \<open>set\<close> brings \<open>c0\<close> back, with
  \<open>used\<close> and \<open>seq_pos\<close>.
\<close>

definition agree_on :: "nat set \<Rightarrow> llama_kv_cells \<Rightarrow> llama_kv_cells \<Rightarrow> bool" where
  "agree_on A c c0 \<longleftrightarrow> length (c_pos c) = length (c_pos c0) \<and> c_has_shift c = c_has_shift c0 \<and>
     (\<forall>k < length (c_pos c0). k \<in> A \<longrightarrow> c_pos c ! k = c_pos c0 ! k \<and> c_ext c ! k = c_ext c0 ! k \<and>
        c_shift c ! k = c_shift c0 ! k \<and> c_seq c ! k = c_seq c0 ! k)"

lemma agree_on_all: "\<lbrakk>cells_ok c; cells_ok c0; agree_on UNIV c c0\<rbrakk> \<Longrightarrow> c = c0"
  by (rule view_inject) (auto simp: agree_on_def view_def cells_ok_def shape_ok_def intro!: nth_equalityI)

lemma cells_set_restores:
  assumes ok0: "cells_ok c0" and sv: "cells_cp idxs c0 = Some r"
    and idx: "\<And>i. i \<in> set idxs \<Longrightarrow> i < length (c_pos c0) \<and> c_shift c0 ! i = 0"
    and ok: "cells_ok c" and ag: "agree_on (- set idxs) c c0"
    and sh: "\<And>i. i \<in> set idxs \<Longrightarrow> c_shift c ! i = 0"
  shows "cells_set idxs r c = Some c0"
proof -
  have r: "c_pos r = map ((!) (c_pos c0)) idxs" "c_ext r = map ((!) (c_ext c0)) idxs"
      "c_seq r = map ((!) (c_seq c0)) idxs"
    using cells_cp_spec[OF ok0, of idxs] idx sv by auto
  let ?P = "\<lambda>j c. cells_ok c \<and> agree_on (- set idxs \<union> set (take j idxs)) c c0 \<and>
     (\<forall>i \<in> set idxs. c_shift c ! i = 0)"
  have "\<exists>c'. ofold (\<lambda>j c. set_cell (idxs ! j) r j c) [0..<length (c_pos r)] c = Some c' \<and> ?P (length (c_pos r)) c'"
  proof (rule ofold_upto[where P = ?P])
    show "?P 0 c" using ok ag sh by simp
  next
    fix j and c :: llama_kv_cells assume j: "j < length (c_pos r)" and P: "?P j c"
    then have j': "j < length idxs" by (simp add: r)
    have i: "idxs ! j < length (c_pos c0)" "c_shift c0 ! (idxs ! j) = 0" using idx[OF nth_mem[OF j']] by auto
    note D0 = cells_okD[OF ok0 i(1)]
    have ic: "idxs ! j < length (c_pos c)" using P i by (simp add: agree_on_def)
    obtain c' where c': "set_cell (idxs ! j) r j c = Some c'"
      "cell_put (idxs ! j) (c_pos c0 ! (idxs ! j)) (c_ext c0 ! (idxs ! j)) 0 (c_seq c0 ! (idxs ! j)) (c_has_shift c) c c'"
      using set_cell_spec[of c "idxs ! j" j r] P ic j' D0 by (auto simp: r)
    have Dc: "length (c_seq c) = length (c_pos c)" "length (c_shift c) = length (c_pos c)" "length (c_ext c) = length (c_pos c)"
      using P by (auto simp: cells_ok_def shape_ok_def)
    have "?P (Suc j) c'"
      using c'(2) P i ic j' Dc
      by (auto simp: cell_put_def view_def agree_on_def take_Suc_conv_app_nth nth_list_update)
    with c'(1) show "\<exists>c'. set_cell (idxs ! j) r j c = Some c' \<and> ?P (Suc j) c'" by blast
  qed
  then obtain c' where c': "cells_set idxs r c = Some c'" "?P (length idxs) c'"
    by (auto simp: cells_set_def r)
  then have "agree_on UNIV c' c0" by (simp add: agree_on_def)
  with c' ok0 show ?thesis using agree_on_all by blast
qed

section \<open>Reachable states\<close>

text \<open>What \<open>set\<close> is given: a snapshot made by \<open>cp\<close>, of which only the cells are meaningful.\<close>

definition snapshot_ok :: "llama_kv_cells \<Rightarrow> bool" where
  "snapshot_ok r \<longleftrightarrow> length (c_ext r) = length (c_pos r) \<and> length (c_seq r) = length (c_pos r) \<and>
     (\<forall>j < length (c_pos r). -1 \<le> c_pos r ! j \<and> c_seq r ! j \<subseteq> {..<LLAMA_MAX_SEQ} \<and>
        (c_pos r ! j = -1 \<longrightarrow> c_seq r ! j = {}))"

lemma cells_set_ok:
  assumes "cells_ok c" "snapshot_ok r" "length idxs = length (c_pos r)"
    "\<And>i. i \<in> set idxs \<Longrightarrow> i < length (c_pos c) \<and> c_shift c ! i = 0"
  shows "\<exists>c'. cells_set idxs r c = Some c' \<and> cells_ok c'"
proof -
  let ?P = "\<lambda>j c'. cells_ok c' \<and> length (c_pos c') = length (c_pos c) \<and> (\<forall>i \<in> set idxs. c_shift c' ! i = 0)"
  have "\<exists>c'. ofold (\<lambda>j c. set_cell (idxs ! j) r j c) [0..<length (c_pos r)] c = Some c' \<and> ?P (length (c_pos r)) c'"
  proof (rule ofold_upto[where P = ?P])
    show "?P 0 c" using assms by auto
  next
    fix j and c' :: llama_kv_cells assume j: "j < length (c_pos r)" and P: "?P j c'"
    have i: "idxs ! j \<in> set idxs" "idxs ! j < length (c_pos c')" using j P assms(3,4) by auto
    obtain c'' where c'': "set_cell (idxs ! j) r j c' = Some c''"
      "cell_put (idxs ! j) (c_pos r ! j) (c_ext r ! j) 0 (c_seq r ! j) (c_has_shift c') c' c''"
      using set_cell_spec[of c' "idxs ! j" j r] j i P assms(2) by (auto simp: snapshot_ok_def)
    have "length (c_shift c') = length (c_pos c')" using P by (simp add: cells_ok_def shape_ok_def)
    with c'' P i show "\<exists>c''. set_cell (idxs ! j) r j c' = Some c'' \<and> ?P (Suc j) c''"
      by (auto simp: cell_put_def view_def nth_list_update)
  qed
  with assms(3) show ?thesis by (auto simp: cells_set_def)
qed

lemma cells_set_range_eq: "cells_set_range i r c =
  (if i + length (c_pos r) \<le> length (c_pos c) then cells_set [i..<i + length (c_pos r)] r c else None)"
  by (auto simp: cells_set_range_def cells_set_def intro!: ofold_cong_set)

lemma snapshot_ok_cp:
  assumes "cells_ok c" "cells_cp idxs c = Some r" "\<And>i. i \<in> set idxs \<Longrightarrow> i < length (c_pos c) \<and> c_shift c ! i = 0"
  shows "snapshot_ok r"
proof -
  have "c_pos r = map ((!) (c_pos c)) idxs" "c_ext r = map ((!) (c_ext c)) idxs" "c_seq r = map ((!) (c_seq c)) idxs"
    using cells_cp_spec[OF assms(1), of idxs] assms(2,3) by auto
  moreover have "idxs ! j < length (c_pos c)" if "j < length idxs" for j
    using assms(3) that by simp
  ultimately show ?thesis
    using cells_okD(7,8,9)[OF assms(1)] by (simp add: snapshot_ok_def)
qed

text \<open>
  One call of a mutator. A call that trips an assertion has no successor; beyond the
  assertions, a position set is not negative and a divisor is positive.
\<close>

inductive cells_step :: "llama_kv_cells \<Rightarrow> llama_kv_cells \<Rightarrow> bool" where
  reset: "cells_step c (cells_reset c)"
| reset_shift: "cells_step c (cells_reset_shift c)"
| resize: "cells_step c (cells_resize n c)"
| rm: "cells_rm i c = Some c' \<Longrightarrow> cells_step c c'"
| seq_rm: "cells_seq_rm i s c = Some (b, c') \<Longrightarrow> cells_step c c'"
| seq_keep: "cells_seq_keep i s c = Some (b, c') \<Longrightarrow> cells_step c c'"
| seq_add: "cells_seq_add i s c = Some c' \<Longrightarrow> cells_step c c'"
| pos_set: "\<lbrakk>cells_pos_set i p c = Some c'; 0 \<le> p\<rbrakk> \<Longrightarrow> cells_step c c'"
| ext_set: "cells_ext_set i e c = Some c' \<Longrightarrow> cells_step c c'"
| pos_add: "cells_pos_add i d c = Some (b, c') \<Longrightarrow> cells_step c c'"
| pos_div: "\<lbrakk>cells_pos_div i d c = Some c'; 0 < d\<rbrakk> \<Longrightarrow> cells_step c c'"
| set: "\<lbrakk>cells_set idxs r c = Some c'; snapshot_ok r; \<forall>i \<in> set idxs. i < length (c_pos c) \<and> c_shift c ! i = 0\<rbrakk> \<Longrightarrow> cells_step c c'"
| set_range: "\<lbrakk>cells_set_range k r c = Some c'; snapshot_ok r; \<forall>i \<in> {k..<k + length (c_pos r)}. c_shift c ! i = 0\<rbrakk> \<Longrightarrow> cells_step c c'"

inductive cells_reach :: "llama_kv_cells \<Rightarrow> bool" where
  init: "cells_reach (cells_resize n cells_new)"
| step: "\<lbrakk>cells_reach c; cells_step c c'\<rbrakk> \<Longrightarrow> cells_reach c'"

lemma cell_put_ok: "cell_put i p e d b h c c' \<Longrightarrow> cells_ok c'"
  by (simp add: cell_put_def)

lemma cells_step_ok:
  assumes "cells_step c c'" "cells_ok c"
  shows "cells_ok c'"
  using assms
proof (cases rule: cells_step.cases)
  case reset
  with assms(2) show ?thesis by (auto intro: cells_reset_ok cells_ok_high)
next
  case (resize n)
  with assms(2) show ?thesis by (auto intro: cells_resize_ok cells_ok_high)
next
  case reset_shift
  with assms(2) show ?thesis by (auto intro: cells_reset_shift_ok)
next
  case (rm i)
  then have "i < length (c_pos c)" "c_pos c ! i \<noteq> -1"
    by (auto simp: cells_rm_def abort_simps split: if_splits)
  with cells_rm_spec[OF assms(2), of i] rm show ?thesis by (auto dest: cell_put_ok)
next
  case (seq_rm i s b)
  then have "i < length (c_pos c)" "0 \<le> s" "nat s \<in> c_seq c ! i"
    by (auto simp: cells_seq_rm_def abort_simps bit_test_def split: if_splits)
  with cells_seq_rm_spec[OF assms(2), of i s] seq_rm show ?thesis by (auto dest: cell_put_ok split: if_splits)
next
  case (seq_keep i s b)
  then have "i < length (c_pos c)" "0 \<le> s" "s < int LLAMA_MAX_SEQ" "c_pos c ! i \<noteq> -1 \<longrightarrow> c_seq c ! i \<noteq> {}"
    by (auto simp: cells_seq_keep_def abort_simps bit_test_def split: if_splits)
  with cells_seq_keep_spec[OF assms(2), of i s] seq_keep assms(2) show ?thesis
    by (auto dest: cell_put_ok split: if_splits)
next
  case (seq_add i s)
  then have "i < length (c_pos c)" "c_pos c ! i \<noteq> -1" "0 \<le> s" "s < int LLAMA_MAX_SEQ" "nat s \<notin> c_seq c ! i"
    by (auto simp: cells_seq_add_def abort_simps bit_test_def split: if_splits)
  with cells_seq_add_spec[OF assms(2), of i s] seq_add show ?thesis by (auto dest: cell_put_ok)
next
  case (pos_set i p)
  then have "i < length (c_pos c)" "c_pos c ! i = -1"
    by (auto simp: cells_pos_set_def abort_simps split: if_splits)
  with cells_pos_set_spec[OF assms(2), of i p] pos_set show ?thesis by (auto dest: cell_put_ok)
next
  case (ext_set i e)
  then have "i < length (c_pos c)"
    using assms(2) by (auto simp: cells_ext_set_def abort_simps cells_ok_def shape_ok_def split: if_splits)
  with cells_ext_set_spec[OF assms(2), of i e] ext_set show ?thesis by (auto dest: cell_put_ok)
next
  case (pos_add i d b)
  then have "i < length (c_pos c)" "c_pos c ! i \<noteq> -1" by (auto simp: cells_pos_add_def abort_simps split: if_splits)
  moreover from this obtain sp where "seq_pos_rm i c = Some (c\<lparr>c_seq_pos := sp\<rparr>)"
    using seq_pos_rm_spec[of c i] assms(2) by (auto simp: cells_ok_def)
  with pos_add have "in_i32 (c_pos c ! i + d)" "in_i32 (c_shift c ! i + d)"
    by (auto simp: cells_pos_add_def abort_simps split: if_splits)
  ultimately show ?thesis
    using cells_pos_add_spec[OF assms(2), of i d] pos_add by (auto dest: cell_put_ok split: if_splits)
next
  case (pos_div i d)
  then have i: "i < length (c_pos c)" "c_pos c ! i \<noteq> -1" by (auto simp: cells_pos_div_def abort_simps split: if_splits)
  then have q: "c_div (c_pos c ! i) d = c_pos c ! i div d"
    using cells_okD(7)[OF assms(2) i(1)] pos_div(2) by (intro c_div_nonneg) auto
  obtain sp where "seq_pos_rm i c = Some (c\<lparr>c_seq_pos := sp\<rparr>)"
    using seq_pos_rm_spec[of c i] assms(2) i by (auto simp: cells_ok_def)
  with pos_div(1) have "in_i32 (c_pos c ! i div d)" "in_i32 (c_pos c ! i - c_pos c ! i div d)"
      "in_i32 (c_shift c ! i + (c_pos c ! i - c_pos c ! i div d))"
    by (auto simp: cells_pos_div_def abort_simps q Let_def split: if_splits)
  with cells_pos_div_spec[OF assms(2) i pos_div(2)] pos_div(1) show ?thesis by (auto dest: cell_put_ok)
next
  case (set idxs r)
  then have "length idxs = length (c_pos r)" by (auto simp: cells_set_def split: if_splits)
  with cells_set_ok[OF assms(2), of r idxs] set show ?thesis by auto
next
  case (set_range k r)
  then have "k + length (c_pos r) \<le> length (c_pos c)" "cells_set [k..<k + length (c_pos r)] r c = Some c'"
    by (auto simp: cells_set_range_eq split: if_splits)
  with cells_set_ok[OF assms(2), of r "[k..<k + length (c_pos r)]"] set_range show ?thesis by auto
qed

lemma cells_reach_ok: "cells_reach c \<Longrightarrow> cells_ok c"
proof (induction rule: cells_reach.induct)
  case (init n)
  show ?case by (rule cells_resize_ok) (simp add: cells_new_def)
qed (rule cells_step_ok)

section \<open>What the queries answer\<close>

definition seq_positions :: "llama_kv_cells \<Rightarrow> nat \<Rightarrow> llama_pos set" where
  "seq_positions c s = {c_pos c ! i | i. i < length (c_pos c) \<and> s \<in> c_seq c ! i}"

lemma seq_positions_occ: "seq_positions c s = {p. 0 < card (occ c s p)}"
  by (auto simp: seq_positions_def card_gt_0_iff occ_def)

lemma counter_values_pos: "\<lbrakk>counter_tracks m f; e \<in> set m\<rbrakk> \<Longrightarrow> 0 < snd e"
proof -
  assume t: "counter_tracks m f" and e: "e \<in> set m"
  have "distinct (map fst m)"
    using t by (simp add: counter_tracks_def smap_ok_def sset_ok_distinct)
  then have "map_of m (fst e) = Some (snd e)"
    using e by (intro map_of_is_SomeI) simp_all
  with t show ?thesis by (auto simp: counter_tracks_def split: if_splits)
qed

lemma cells_seq_pos_min_eq:
  assumes "cells_ok c" "0 \<le> s" "s < int LLAMA_MAX_SEQ"
  shows "cells_seq_pos_min s c = Some (if seq_positions c (nat s) = {} then -1 else Min (seq_positions c (nat s)))"
proof -
  have t: "counter_tracks (c_seq_pos c (nat s)) (\<lambda>p. card (occ c (nat s) p))"
    using assms(1) by (simp add: cells_ok_def track_ok_def)
  show ?thesis
    using smap_counter.tracks_lo[OF t] counter_values_pos[OF t, of "hd (c_seq_pos c (nat s))"] assms(2,3)
    by (auto simp: cells_seq_pos_min_def counter_lo_def seq_positions_occ split: if_splits)
qed

lemma cells_seq_pos_max_eq:
  assumes "cells_ok c" "0 \<le> s" "s < int LLAMA_MAX_SEQ"
  shows "cells_seq_pos_max s c = Some (if seq_positions c (nat s) = {} then -1 else Max (seq_positions c (nat s)))"
proof -
  have t: "counter_tracks (c_seq_pos c (nat s)) (\<lambda>p. card (occ c (nat s) p))"
    using assms(1) by (simp add: cells_ok_def track_ok_def)
  show ?thesis
    using smap_counter.tracks_hi[OF t] counter_values_pos[OF t, of "last (c_seq_pos c (nat s))"] assms(2,3)
    by (auto simp: cells_seq_pos_max_def counter_hi_def seq_positions_occ split: if_splits)
qed

interpretation kv_cells: seq_memory cells_ok seq_positions cells_seq_pos_min cells_seq_pos_max
  "\<lambda>_ s. 0 \<le> s \<and> s < int LLAMA_MAX_SEQ"
proof
  fix c :: llama_kv_cells and k p
  assume ok: "cells_ok c"
  have "seq_positions c k \<subseteq> set (c_pos c)" by (auto simp: seq_positions_def)
  then show "finite (seq_positions c k)" by (rule finite_subset) simp
  show "p \<in> seq_positions c k \<Longrightarrow> 0 \<le> p"
    using cells_okD(7,9)[OF ok] by (force simp: seq_positions_def)
qed (simp_all add: cells_seq_pos_min_eq cells_seq_pos_max_eq)

lemma cells_used_eq:
  assumes "cells_ok c"
  shows "cells_get_used c = card {i. i < length (c_pos c) \<and> c_pos c ! i \<noteq> -1}"
    and "\<lbrakk>i < length (c_pos c); c_pos c ! i \<noteq> -1\<rbrakk> \<Longrightarrow> i < cells_used_max_p1 c"
    and "\<lbrakk>i < length (c_pos c); c_pos c ! i \<noteq> -1\<rbrakk> \<Longrightarrow> cells_used_min c \<le> i"
    and "cells_used_max_p1 c \<le> length (c_pos c)"
proof -
  have ok: "sset_ok (c_used c)" "set (c_used c) = {i. i < length (c_pos c) \<and> c_pos c ! i \<noteq> -1}"
    using assms by (auto simp: cells_ok_def used_ok_def)
  show "cells_get_used c = card {i. i < length (c_pos c) \<and> c_pos c ! i \<noteq> -1}"
    using distinct_card[OF sset_ok_distinct[OF ok(1)]] ok(2) by (simp add: cells_get_used_def)
  show "i < cells_used_max_p1 c" "cells_used_min c \<le> i" if "i < length (c_pos c)" "c_pos c ! i \<noteq> -1"
  proof -
    have i: "i \<in> set (c_used c)" using that ok(2) by simp
    then show "i < cells_used_max_p1 c" "cells_used_min c \<le> i"
      using sset_rbegin[OF ok(1)] sset_begin[OF ok(1)]
      by (auto simp: cells_used_max_p1_def cells_used_min_def less_Suc_eq_le)
  qed
  show "cells_used_max_p1 c \<le> length (c_pos c)"
    using last_in_set[of "c_used c"] ok(2) by (fastforce simp: cells_used_max_p1_def)
qed

section \<open>Properties\<close>

text \<open>
  C1. In every state the mutators can reach, the redundant fields agree with the cells: \<open>used\<close>
  is the increasing list of the cells with a position, \<open>seq_pos[s]\<close> maps exactly the
  positions present in sequence \<open>s\<close> to the number of cells holding them, an empty cell has no
  sequence and no shift, and no cell has a pending shift while \<open>has_shift\<close> is off.
\<close>

theorem cells_reach_invariant:
  assumes "cells_reach c"
  shows "sorted_wrt (<) (c_used c) \<and> set (c_used c) = {i. i < cells_size c \<and> c_pos c ! i \<noteq> -1} \<and>
    (\<forall>s p. map_of (c_seq_pos c s) p =
       (let n = card {i. i < cells_size c \<and> s \<in> c_seq c ! i \<and> c_pos c ! i = p}
        in if n = 0 then None else Some (int n))) \<and>
    (\<forall>i < cells_size c. c_pos c ! i = -1 \<longrightarrow> c_seq c ! i = {} \<and> c_shift c ! i = 0) \<and>
    (\<forall>i < cells_size c. c_shift c ! i \<noteq> 0 \<longrightarrow> c_has_shift c)"
  using cells_reach_ok[OF assms]
  by (auto simp: cells_ok_def used_ok_def track_ok_def shape_ok_def counter_tracks_def sset_ok_def
      occ_def cells_size_def Let_def)

definition example_cells :: llama_kv_cells where
  "example_cells = \<lparr>c_has_shift = False, c_used = [1], c_pos = [-1, 7], c_ext = [ext_reset, ext_reset],
     c_shift = [0, 0], c_seq = [{}, {3}], c_seq_pos = (\<lambda>_. [])(3 := [(7, 1)])\<rparr>"

lemma example_cells_reach: "cells_reach example_cells"
proof -
  have "cells_reach (cells_resize 2 cells_new)" by (rule cells_reach.init)
  moreover have "cells_pos_set 1 7 (cells_resize 2 cells_new) =
      Some ((cells_resize 2 cells_new)\<lparr>c_pos := [-1, 7], c_used := [1]\<rparr>)"
    by (simp add: cells_pos_set_def cells_resize_def cells_reset_def cells_new_def numeral_2_eq_2)
  ultimately have r: "cells_reach ((cells_resize 2 cells_new)\<lparr>c_pos := [-1, 7], c_used := [1]\<rparr>)"
    by (rule cells_reach.step[OF _ cells_step.pos_set]) simp
  have "cells_seq_add 1 3 ((cells_resize 2 cells_new)\<lparr>c_pos := [-1, 7], c_used := [1]\<rparr>) = Some example_cells"
    by (simp add: cells_seq_add_def cells_resize_def cells_reset_def cells_new_def numeral_2_eq_2
        example_cells_def bit_test_def LLAMA_MAX_SEQ_def seq_pos_inc_def counter_inc_def fun_eq_iff)
  with r show ?thesis by (rule cells_reach.step[OF _ cells_step.seq_add])
qed

theorem cells_reach_invariant_witness:
  "set (c_used example_cells) = {1} \<and> map_of (c_seq_pos example_cells 3) 7 = Some 1"
  using cells_reach_invariant[OF example_cells_reach]
  by (simp add: example_cells_def)

text \<open>
  C2. The constant-time queries are right in every reachable state: \<open>seq_pos_min(s)\<close> and
  \<open>seq_pos_max(s)\<close> do not trip their assertions and return the least and the greatest
  position among the cells of sequence \<open>s\<close>, or -1 when no cell holds \<open>s\<close>.
\<close>

theorem cells_seq_pos_extremes:
  assumes "cells_reach c" "0 \<le> s" "s < int LLAMA_MAX_SEQ"
  shows "let P = {c_pos c ! i | i. i < cells_size c \<and> nat s \<in> c_seq c ! i} in
    cells_seq_pos_min s c = Some (if P = {} then -1 else Min P) \<and>
    cells_seq_pos_max s c = Some (if P = {} then -1 else Max P)"
proof -
  have P: "{c_pos c ! i | i. i < cells_size c \<and> nat s \<in> c_seq c ! i} = seq_positions c (nat s)"
    by (simp add: seq_positions_def cells_size_def)
  show ?thesis
    unfolding P Let_def using kv_cells.pos_min_eq[of c s] kv_cells.pos_max_eq[of c s] assms
    by (simp add: cells_reach_ok)
qed

theorem cells_seq_pos_extremes_witness:
  "cells_seq_pos_max 3 example_cells = Some 7 \<and> cells_seq_pos_min 0 example_cells = Some (-1)"
  using cells_seq_pos_extremes[OF example_cells_reach, of 3] cells_seq_pos_extremes[OF example_cells_reach, of 0]
  by (simp add: cells_seq_pos_max_def cells_seq_pos_min_def example_cells_def LLAMA_MAX_SEQ_def)

text \<open>
  C3. The assertions never fire within the documented preconditions: on a reachable state,
  removing a used cell, removing a sequence a cell has, adding one it does not have, filling
  an empty cell and keeping one sequence all return.
\<close>

theorem cells_ops_no_abort:
  assumes "cells_reach c" "i < cells_size c" "0 \<le> s" "s < int LLAMA_MAX_SEQ"
  shows "(c_pos c ! i \<noteq> -1 \<longrightarrow> cells_rm i c \<noteq> None) \<and>
    (nat s \<in> c_seq c ! i \<longrightarrow> cells_seq_rm i s c \<noteq> None) \<and>
    (c_pos c ! i \<noteq> -1 \<and> nat s \<notin> c_seq c ! i \<longrightarrow> cells_seq_add i s c \<noteq> None) \<and>
    (c_pos c ! i = -1 \<and> 0 \<le> p \<longrightarrow> cells_pos_set i p c \<noteq> None) \<and>
    ((c_pos c ! i = -1 \<or> c_seq c ! i \<noteq> {}) \<longrightarrow> cells_seq_keep i s c \<noteq> None)"
proof -
  have ok: "cells_ok c" and i: "i < length (c_pos c)"
    using cells_reach_ok[OF assms(1)] assms(2) by (simp_all add: cells_size_def)
  from cells_rm_spec[OF ok i] cells_seq_rm_spec[OF ok i, of s] cells_seq_add_spec[OF ok i, of s]
    cells_pos_set_spec[OF ok i, of p] cells_seq_keep_spec[OF ok i, of s] assms(3,4)
  show ?thesis by auto
qed

theorem cells_ops_no_abort_witness: "cells_rm 1 example_cells \<noteq> None \<and> cells_seq_rm 1 3 example_cells \<noteq> None"
  using cells_ops_no_abort[OF example_cells_reach, of 1 3 0]
  by (simp add: example_cells_def cells_size_def LLAMA_MAX_SEQ_def)

text \<open>
  C4. Save and restore. Take the cells at \<open>idxs\<close> with \<open>cp\<close>, change these cells in any way that
  keeps the object reachable and leaves the other cells and the shifts alone, and \<open>set\<close> gives
  the original object back: positions, sequences, extra data, \<open>used\<close> and \<open>seq_pos\<close>.
\<close>

theorem cells_cp_set_roundtrip:
  assumes "cells_reach c0" "cells_reach c"
    and "\<forall>i \<in> set idxs. i < cells_size c0 \<and> c_shift c0 ! i = 0 \<and> c_shift c ! i = 0"
    and "agree_on (- set idxs) c c0"
  shows "\<exists>r. cells_cp idxs c0 = Some r \<and> cells_set idxs r c = Some c0"
proof -
  have ok: "cells_ok c0" "cells_ok c" using assms(1,2) by (auto intro: cells_reach_ok)
  obtain r where "cells_cp idxs c0 = Some r"
    using cells_cp_spec[OF ok(1), of idxs] assms(3) by (auto simp: cells_size_def)
  with cells_set_restores[OF ok(1) this _ ok(2) assms(4)] assms(3) show ?thesis
    by (auto simp: cells_size_def)
qed

theorem cells_cp_set_roundtrip_witness:
  "\<exists>r. cells_cp [1] (cells_resize 2 cells_new) = Some r \<and>
     cells_set [1] r example_cells = Some (cells_resize 2 cells_new)"
  by (rule cells_cp_set_roundtrip[OF cells_reach.init example_cells_reach])
    (auto simp: cells_resize_def cells_reset_def cells_new_def example_cells_def agree_on_def cells_size_def
      numeral_2_eq_2 less_Suc_eq)

text \<open>
  \<open>pos_add\<close> queues its shift: for a cell that stays, the difference of position and
  accumulated shift (the position the cached key was rotated for) is unchanged, the cell's
  sequences are kept, and \<open>has_shift\<close> is raised. A cell moved below 0 is emptied.
\<close>

lemma cells_pos_add_shift:
  assumes "cells_reach c" "i < cells_size c" "cells_pos_add i d c = Some (emptied, c')"
  shows "c_has_shift c' \<and> emptied = (c_pos c ! i + d < 0) \<and>
    (if emptied then c_pos c' ! i = -1 \<and> c_seq c' ! i = {} \<and> i \<notin> set (c_used c')
     else c_pos c' ! i = c_pos c ! i + d \<and> c_seq c' ! i = c_seq c ! i \<and>
          c_pos c' ! i - c_shift c' ! i = c_pos c ! i - c_shift c ! i)"
proof -
  have ok: "cells_ok c" and i: "i < length (c_pos c)"
    using cells_reach_ok[OF assms(1)] assms(2) by (simp_all add: cells_size_def)
  note D = cells_okD[OF ok i]
  obtain sp where "seq_pos_rm i c = Some (c\<lparr>c_seq_pos := sp\<rparr>)"
    using seq_pos_rm_spec[OF D(1,2) i] by blast
  with assms(3) i have "c_pos c ! i \<noteq> -1" "in_i32 (c_pos c ! i + d)" "in_i32 (c_shift c ! i + d)"
    by (auto simp: cells_pos_add_def abort_simps split: if_splits)
  from cells_pos_add_spec[OF ok i this] assms(3) i D show ?thesis
    by (auto simp: cell_put_def view_def cells_ok_def used_ok_def split: if_splits)
qed

text \<open>
  \<open>pos_div\<close> divides the position and keeps the cell's sequences, but it queues the shift
  with the opposite sign: what stays constant is the sum of position and accumulated shift,
  where \<open>pos_add\<close> (and the cross-stream \<open>seq_cp\<close>, which recovers the stored position as
  \<open>pos - shift\<close>) keep the difference constant.
\<close>

lemma cells_pos_div_shift:
  assumes "cells_reach c" "i < cells_size c" "0 < d" "cells_pos_div i d c = Some c'"
  shows "c_has_shift c' \<and> c_pos c' ! i = c_pos c ! i div d \<and> c_seq c' ! i = c_seq c ! i \<and>
    c_pos c' ! i + c_shift c' ! i = c_pos c ! i + c_shift c ! i"
proof -
  have ok: "cells_ok c" and i: "i < length (c_pos c)"
    using cells_reach_ok[OF assms(1)] assms(2) by (simp_all add: cells_size_def)
  note D = cells_okD[OF ok i]
  have p: "c_pos c ! i \<noteq> -1"
    using assms(4) by (auto simp: cells_pos_div_def abort_simps split: if_splits)
  then have q: "c_div (c_pos c ! i) d = c_pos c ! i div d"
    using D(7) assms(3) by (intro c_div_nonneg) auto
  obtain sp where "seq_pos_rm i c = Some (c\<lparr>c_seq_pos := sp\<rparr>)"
    using seq_pos_rm_spec[OF D(1,2) i] by blast
  with assms(4) have "in_i32 (c_pos c ! i div d)" "in_i32 (c_pos c ! i - c_pos c ! i div d)"
      "in_i32 (c_shift c ! i + (c_pos c ! i - c_pos c ! i div d))"
    by (auto simp: cells_pos_div_def abort_simps q Let_def split: if_splits)
  from cells_pos_div_spec[OF ok i p assms(3) this] assms(4) i D show ?thesis
    by (auto simp: cell_put_def view_def)
qed

end
