(* ===== verification/Batch.thy ===== *)
theory Batch
  imports Std_Containers Memory_Interface
begin

text \<open>
  The batch allocator (\<open>src/src/llama-batch.cpp\<close>, \<open>llama-batch.h\<close>): \<open>llama_batch_allocr::init\<close>
  validates an input batch and generates its missing fields, \<open>split_simple\<close>,
  \<open>split_equal\<close> and \<open>split_seq\<close> cut it into ubatches, \<open>ubatch_add\<close> builds one.

  A nullable array of \<open>llama_batch\<close> is an optional list; embeddings are lists of 32-bit
  patterns (they are only copied). The memory module is asked through \<open>seq_pos_min\<close> and
  \<open>seq_pos_max\<close> only, so it is a pair of functions here. The lines of \<open>init\<close> that return
  false are error values, one per message of the source; a state change made before an
  error return is dropped, since the next \<open>init\<close> clears the object first. \<open>None\<close> is the failed
  assertion on an empty batch, or an \<open>int32_t\<close> computation on positions that overflows.
\<close>

section \<open>Data\<close>

record llama_batch =
  b_n_tokens :: nat
  b_token :: "llama_token list option"
  b_embd :: "nat list option"
  b_pos :: "llama_pos list option"
  b_n_seq_id :: "nat list option"
  b_seq_id :: "llama_seq_id list list option"
  b_logits :: "int list option"

record llama_ubatch =
  ub_equal_seqs :: bool
  ub_n_tokens :: nat
  ub_n_seq_tokens :: nat
  ub_n_seqs :: nat
  ub_n_seqs_unq :: nat
  ub_n_pos :: nat
  ub_token :: "llama_token list option"
  ub_embd :: "nat list option"
  ub_pos :: "llama_pos list"
  ub_n_seq_id :: "nat list"
  ub_seq_id :: "llama_seq_id list list"
  ub_seq_id_unq :: "nat list"
  ub_seq_idx :: "int list"
  ub_output :: "int list"

definition ubatch_is_pos_2d :: "llama_ubatch \<Rightarrow> bool" where
  "ubatch_is_pos_2d u \<longleftrightarrow> ub_n_pos u \<ge> 3"

text \<open>The value-initialised ubatch, the result of \<open>return {}\<close>.\<close>

definition ubatch_empty :: llama_ubatch where
  "ubatch_empty = \<lparr>ub_equal_seqs = False, ub_n_tokens = 0, ub_n_seq_tokens = 0, ub_n_seqs = 0, ub_n_seqs_unq = 0,
     ub_n_pos = 0, ub_token = None, ub_embd = None, ub_pos = [], ub_n_seq_id = [], ub_seq_id = [],
     ub_seq_id_unq = [], ub_seq_idx = [], ub_output = []\<rparr>"

text \<open>
  The allocator. The batch it holds has all its fields once \<open>init\<close> has filled them, so
  \<open>a_pos\<close>, \<open>a_n_seq_id\<close>, \<open>a_seq_id\<close> and \<open>a_logits\<close> are plain lists.
\<close>

record llama_batch_allocr =
  a_n_pos_per_embd :: nat
  a_n_tokens :: nat
  a_token :: "llama_token list option"
  a_embd :: "nat list option"
  a_pos :: "llama_pos list"
  a_n_seq_id :: "nat list"
  a_seq_id :: "llama_seq_id list list"
  a_logits :: "int list"
  a_n_embd :: nat
  a_n_seq_max :: nat
  a_n_outputs :: nat
  a_seq_id_unq :: "nat list"
  a_seq_idx :: "nat \<Rightarrow> int"
  a_has_cpl :: bool
  a_seq_pos :: "nat \<Rightarrow> llama_pos list"
  a_seq_cpl :: "nat \<Rightarrow> nat \<Rightarrow> bool"
  a_seq_set :: "nat set list"
  a_seq_set_map :: "nat set \<Rightarrow> nat list"
  a_out_ids :: "nat list"
  a_n_used :: nat
  a_used :: "bool list"

datatype batch_error =
    TooManySequences
  | InvalidToken nat
  | InvalidSeqId nat nat
  | MropeNotIncreasing nat
  | MropeDecreasing nat
  | NotConsecutive nat
  | NotContinuous nat
  | Diverged nat nat
  | IncompatibleSets llama_seq_id
  | DecreasingPositions llama_seq_id

text \<open>A validation loop: the first error, in the order of the loop.\<close>

fun first_error :: "('a \<Rightarrow> 'e option) \<Rightarrow> 'a list \<Rightarrow> 'e option" where
  "first_error f [] = None"
| "first_error f (x # xs) = (case f x of Some e \<Rightarrow> Some e | None \<Rightarrow> first_error f xs)"

text \<open>The same where a test may be undefined.\<close>

fun ofirst_error :: "('a \<Rightarrow> 'e option option) \<Rightarrow> 'a list \<Rightarrow> 'e option option" where
  "ofirst_error f [] = Some None"
| "ofirst_error f (x # xs) = (case f x of None \<Rightarrow> None | Some (Some e) \<Rightarrow> Some (Some e) | Some None \<Rightarrow> ofirst_error f xs)"

type_synonym memory = "(nat \<Rightarrow> llama_pos) \<times> (nat \<Rightarrow> llama_pos)"

abbreviation mem_pos_min :: "memory \<Rightarrow> nat \<Rightarrow> llama_pos" where
  "mem_pos_min mem \<equiv> fst mem"

abbreviation mem_pos_max :: "memory \<Rightarrow> nat \<Rightarrow> llama_pos" where
  "mem_pos_max mem \<equiv> snd mem"

section \<open>Construction and queries\<close>

definition allocr_new :: "nat \<Rightarrow> llama_batch_allocr" where
  "allocr_new n_pos = \<lparr>a_n_pos_per_embd = n_pos, a_n_tokens = 0, a_token = None, a_embd = None, a_pos = [],
     a_n_seq_id = [], a_seq_id = [], a_logits = [], a_n_embd = 0, a_n_seq_max = 0, a_n_outputs = 0,
     a_seq_id_unq = [], a_seq_idx = (\<lambda>_. -1), a_has_cpl = False, a_seq_pos = (\<lambda>_. []),
     a_seq_cpl = (\<lambda>_ _. False), a_seq_set = [], a_seq_set_map = (\<lambda>_. []), a_out_ids = [], a_n_used = 0,
     a_used = []\<rparr>"

definition allocr_clear :: "llama_batch_allocr \<Rightarrow> llama_batch_allocr" where
  "allocr_clear a = a\<lparr>a_n_outputs := 0, a_n_tokens := 0, a_token := None, a_embd := None, a_pos := [],
     a_n_seq_id := [], a_seq_id := [], a_seq_id_unq := [], a_logits := [], a_seq_pos := (\<lambda>_. []),
     a_seq_cpl := (\<lambda>_ _. False), a_seq_set := [], a_seq_set_map := (\<lambda>_. []), a_seq_idx := (\<lambda>_. -1)\<rparr>"

definition allocr_get_n_tokens :: "llama_batch_allocr \<Rightarrow> nat" where
  "allocr_get_n_tokens a = a_n_tokens a"

definition allocr_get_n_outputs :: "llama_batch_allocr \<Rightarrow> nat" where
  "allocr_get_n_outputs a = a_n_outputs a"

definition allocr_get_n_used :: "llama_batch_allocr \<Rightarrow> nat" where
  "allocr_get_n_used a = a_n_used a"

definition allocr_get_out_ids :: "llama_batch_allocr \<Rightarrow> nat list" where
  "allocr_get_out_ids a = a_out_ids a"

definition allocr_seq_pos_min :: "llama_batch_allocr \<Rightarrow> nat \<Rightarrow> llama_pos" where
  "allocr_seq_pos_min a s = (if a_seq_pos a s = [] then -1 else hd (a_seq_pos a s))"

definition allocr_seq_pos_max :: "llama_batch_allocr \<Rightarrow> nat \<Rightarrow> llama_pos" where
  "allocr_seq_pos_max a s = (if a_seq_pos a s = [] then -1 else last (a_seq_pos a s))"

definition split_reset :: "llama_batch_allocr \<Rightarrow> llama_batch_allocr" where
  "split_reset a = a\<lparr>a_out_ids := [], a_n_used := 0, a_used := replicate (allocr_get_n_tokens a) False\<rparr>"

definition llama_batch_get_one :: "llama_token list \<Rightarrow> llama_batch" where
  "llama_batch_get_one tokens = \<lparr>b_n_tokens = length tokens, b_token = Some tokens, b_embd = None, b_pos = None,
     b_n_seq_id = None, b_seq_id = None, b_logits = None\<rparr>"

section \<open>init: validation of the input\<close>

definition check_tokens :: "nat \<Rightarrow> llama_batch \<Rightarrow> batch_error option" where
  "check_tokens n_vocab b = (case b_token b of None \<Rightarrow> None
     | Some tok \<Rightarrow> first_error (\<lambda>i. if tok ! i < 0 \<or> tok ! i \<ge> int n_vocab then Some (InvalidToken i) else None)
         [0..<b_n_tokens b])"

definition check_seq_ids :: "nat \<Rightarrow> llama_batch \<Rightarrow> batch_error option" where
  "check_seq_ids n_seq_max b = (case b_seq_id b of None \<Rightarrow> None
     | Some sid \<Rightarrow> first_error (\<lambda>i. first_error (\<lambda>s.
         if sid ! i ! s < 0 \<or> sid ! i ! s \<ge> int n_seq_max then Some (InvalidSeqId i s) else None)
         [0..<(the (b_n_seq_id b)) ! i]) [0..<b_n_tokens b])"

section \<open>init: generated fields\<close>

definition fill_n_seq_id :: "llama_batch \<Rightarrow> nat list" where
  "fill_n_seq_id b = (case b_n_seq_id b of Some ns \<Rightarrow> ns | None \<Rightarrow> replicate (b_n_tokens b) 1)"

definition fill_seq_id :: "llama_batch \<Rightarrow> llama_seq_id list list" where
  "fill_seq_id b = (case b_seq_id b of Some sid \<Rightarrow> sid | None \<Rightarrow> replicate (b_n_tokens b) [0])"

text \<open>The ids of token \<open>i\<close> are the first \<open>n_seq_id[i]\<close> entries of its row.\<close>

definition tok_seqs :: "nat list \<Rightarrow> llama_seq_id list list \<Rightarrow> nat \<Rightarrow> llama_seq_id list" where
  "tok_seqs ns sid i = take (ns ! i) (sid ! i)"

text \<open>The loop that sets \<open>p0[s]\<close> for every sequence, starting from the uninitialised array \<open>p0\<close>.\<close>

definition pos_start :: "memory option \<Rightarrow> nat \<Rightarrow> (nat \<Rightarrow> llama_pos) \<Rightarrow> (nat \<Rightarrow> llama_pos) option" where
  "pos_start memory n_seq_max p0 = ofold (\<lambda>s p0.
     case memory of None \<Rightarrow> Some (p0(s := 0))
     | Some mem \<Rightarrow> do { p \<leftarrow> i32 (mem_pos_max mem s + 1); Some (p0(s := p)) }) [0..<n_seq_max] p0"

text \<open>The loop over the tokens: each gets the next position of its first sequence, and all its
  sequences continue after it.\<close>

fun gen_pos :: "nat list \<Rightarrow> llama_seq_id list list \<Rightarrow> nat list \<Rightarrow> (nat \<Rightarrow> llama_pos) \<Rightarrow> llama_pos list option" where
  "gen_pos ns sid [] p0 = Some []"
| "gen_pos ns sid (i # is) p0 = (let p = p0 (nat (sid ! i ! 0)) in do {
     p0 \<leftarrow> ofold (\<lambda>s p0. do { q \<leftarrow> i32 (p + 1); Some (p0(nat s := q)) }) (tok_seqs ns sid i) p0;
     ps \<leftarrow> gen_pos ns sid is p0;
     Some (p # ps) })"

definition fill_pos :: "memory option \<Rightarrow> nat \<Rightarrow> llama_batch \<Rightarrow> llama_pos list option" where
  "fill_pos memory n_seq_max b = (case b_pos b of Some ps \<Rightarrow> Some ps
     | None \<Rightarrow> do {
         p0 \<leftarrow> pos_start memory n_seq_max (\<lambda>_. 0);
         gen_pos (fill_n_seq_id b) (fill_seq_id b) [0..<b_n_tokens b] p0 })"

definition fill_logits :: "bool \<Rightarrow> llama_batch \<Rightarrow> int list" where
  "fill_logits output_all b = (case b_logits b of
     None \<Rightarrow> (if output_all then replicate (b_n_tokens b) 1
              else (replicate (b_n_tokens b) 0)[b_n_tokens b - 1 := 1])
   | Some lg \<Rightarrow> (if output_all \<and> (\<exists>i \<in> set [0..<b_n_tokens b]. lg ! i = 0)
                 then replicate (b_n_tokens b) 1 else lg))"

section \<open>init: statistics\<close>

definition count_outputs :: "llama_batch_allocr \<Rightarrow> llama_batch_allocr" where
  "count_outputs a = a\<lparr>a_n_outputs := a_n_outputs a + length (filter (\<lambda>i. a_logits a ! i \<noteq> 0) [0..<a_n_tokens a])\<rparr>"

definition couple_token :: "nat \<Rightarrow> llama_batch_allocr \<Rightarrow> llama_batch_allocr" where
  "couple_token i a = (let s0 = nat (a_seq_id a ! i ! 0) in
     fold (\<lambda>s a. let s1 = nat (a_seq_id a ! i ! s);
              a = a\<lparr>a_seq_pos := (a_seq_pos a)(s1 := sset_insert (a_pos a ! i) (a_seq_pos a s1))\<rparr>
          in if s > 0 then a\<lparr>a_seq_cpl := (a_seq_cpl a)(s1 := (a_seq_cpl a s1)(s0 := True)), a_has_cpl := True\<rparr>
             else a) [0..<a_n_seq_id a ! i] a)"

definition couple_sequences :: "llama_batch_allocr \<Rightarrow> llama_batch_allocr" where
  "couple_sequences a = fold couple_token [0..<a_n_tokens a] (a\<lparr>a_has_cpl := False\<rparr>)"

definition token_seq_set :: "llama_batch_allocr \<Rightarrow> nat \<Rightarrow> nat set" where
  "token_seq_set a i = set (map nat (tok_seqs (a_n_seq_id a) (a_seq_id a) i))"

definition add_seq_set :: "nat \<Rightarrow> llama_batch_allocr \<Rightarrow> llama_batch_allocr" where
  "add_seq_set i a = (let cur = token_seq_set a i in
     a\<lparr>a_seq_set := a_seq_set a @ [cur], a_seq_set_map := (a_seq_set_map a)(cur := a_seq_set_map a cur @ [i])\<rparr>)"

text \<open>Numbering of the sequence ids of a set, in increasing order.\<close>

definition unq_ids :: "nat \<Rightarrow> nat set \<Rightarrow> nat list" where
  "unq_ids n_seq_max u = filter (\<lambda>s. s \<in> u) [0..<n_seq_max]"

definition unq_idx :: "nat \<Rightarrow> nat set \<Rightarrow> nat \<Rightarrow> int" where
  "unq_idx n_seq_max u s = (if s < n_seq_max \<and> s \<in> u then int (length (filter (\<lambda>t. t \<in> u) [0..<s])) else -1)"

definition build_seq_sets :: "llama_batch_allocr \<Rightarrow> llama_batch_allocr" where
  "build_seq_sets a = (let u = \<Union> (set (map (token_seq_set a) [0..<a_n_tokens a]));
       a = fold add_seq_set [0..<a_n_tokens a] a
     in a\<lparr>a_seq_id_unq := a_seq_id_unq a @ unq_ids (a_n_seq_max a) u,
          a_seq_idx := (\<lambda>s. if s < a_n_seq_max a \<and> s \<in> u then unq_idx (a_n_seq_max a) u s else a_seq_idx a s)\<rparr>)"

section \<open>init: consistency checks\<close>

definition check_positions_mrope :: "memory option \<Rightarrow> llama_batch_allocr \<Rightarrow> batch_error option" where
  "check_positions_mrope memory a = first_error (\<lambda>s.
     if a_seq_pos a s = [] then None
     else (let p0 = (case memory of None \<Rightarrow> -1 | Some mem \<Rightarrow> mem_pos_max mem s) in
       if a_token a \<noteq> None
       then (if p0 \<ge> 0 \<and> p0 \<ge> allocr_seq_pos_min a s then Some (MropeNotIncreasing s) else None)
       else (if p0 \<ge> 0 \<and> p0 > allocr_seq_pos_min a s then Some (MropeDecreasing s) else None)))
     [0..<a_n_seq_max a]"

text \<open>One round of the loop over the sequences, for one position per token; both sides are \<open>int32_t\<close>.\<close>

definition check_seq_positions :: "memory option \<Rightarrow> llama_batch_allocr \<Rightarrow> nat \<Rightarrow> batch_error option option" where
  "check_seq_positions memory a s =
    (if a_seq_pos a s = [] then Some None
     else (let p0 = (case memory of None \<Rightarrow> -1 | Some mem \<Rightarrow> mem_pos_max mem s) in do {
       ok \<leftarrow> (if p0 \<ge> 0 then do { p \<leftarrow> i32 (p0 + 1); Some (allocr_seq_pos_min a s = p) } else Some True);
       if \<not> ok then Some (Some (NotConsecutive s))
       else do {
         d \<leftarrow> i32 (allocr_seq_pos_max a s - allocr_seq_pos_min a s);
         n \<leftarrow> i32 (d + 1);
         Some (if n > int (length (a_seq_pos a s)) then Some (NotContinuous s) else None) } }))"

definition check_positions :: "memory option \<Rightarrow> llama_batch_allocr \<Rightarrow> batch_error option option" where
  "check_positions memory a = ofirst_error (check_seq_positions memory a) [0..<a_n_seq_max a]"

definition check_coupled :: "memory option \<Rightarrow> llama_batch_allocr \<Rightarrow> batch_error option" where
  "check_coupled memory a = (case memory of None \<Rightarrow> None
   | Some mem \<Rightarrow> first_error (\<lambda>s0. first_error (\<lambda>s1.
       if a_seq_cpl a s0 s1 \<and> (mem_pos_min mem s0 \<noteq> mem_pos_min mem s1 \<or> mem_pos_max mem s0 \<noteq> mem_pos_max mem s1)
       then Some (Diverged s0 s1) else None) [0..<a_n_seq_max a]) [0..<a_n_seq_max a])"

text \<open>
  The last check, over all pairs of a token and one of its sequences. \<open>cur_seq_set\<close> narrows to the
  intersection of the sequence sets seen for a sequence; \<open>cur_seq_pos\<close> is what the source
  declares it to be, an array that stays at -1.
\<close>

fun check_subsets :: "llama_batch_allocr \<Rightarrow> (nat \<times> llama_seq_id) list \<Rightarrow> (nat \<Rightarrow> nat set) \<Rightarrow> (nat \<Rightarrow> llama_pos) \<Rightarrow> batch_error option" where
  "check_subsets a [] cur_seq_set cur_seq_pos = None"
| "check_subsets a ((i, seq_id) # rest) cur_seq_set cur_seq_pos =
     (let cur_seq_set = cur_seq_set(nat seq_id := cur_seq_set (nat seq_id) \<inter> a_seq_set a ! i) in
      if cur_seq_set (nat seq_id) = {} then Some (IncompatibleSets seq_id)
      else if a_pos a ! i < cur_seq_pos (nat seq_id) then Some (DecreasingPositions seq_id)
      else check_subsets a rest cur_seq_set cur_seq_pos)"

definition token_seq_pairs :: "llama_batch_allocr \<Rightarrow> (nat \<times> llama_seq_id) list" where
  "token_seq_pairs a = concat (map (\<lambda>i. map (Pair i) (tok_seqs (a_n_seq_id a) (a_seq_id a) i)) [0..<a_n_tokens a])"

section \<open>init\<close>

text \<open>The batch with its missing fields generated, and the statistics over it.\<close>

definition init_fill :: "llama_batch \<Rightarrow> llama_pos list \<Rightarrow> nat \<Rightarrow> nat \<Rightarrow> bool \<Rightarrow> llama_batch_allocr \<Rightarrow> llama_batch_allocr" where
  "init_fill b pos n_embd n_seq_max output_all a =
     (allocr_clear a)\<lparr>a_n_tokens := b_n_tokens b, a_token := b_token b, a_embd := b_embd b,
        a_pos := pos, a_n_seq_id := fill_n_seq_id b, a_seq_id := fill_seq_id b,
        a_logits := fill_logits output_all b, a_n_embd := n_embd, a_n_seq_max := n_seq_max\<rparr>"

definition init_stats :: "llama_batch_allocr \<Rightarrow> llama_batch_allocr" where
  "init_stats a = build_seq_sets (couple_sequences (count_outputs a))"

definition init_check :: "memory option \<Rightarrow> llama_batch_allocr \<Rightarrow> batch_error option option" where
  "init_check memory a = do {
     r \<leftarrow> (if a_n_pos_per_embd a > 1 then Some (check_positions_mrope memory a) else check_positions memory a);
     Some (case r of
       Some e \<Rightarrow> Some e
     | None \<Rightarrow> (case check_coupled memory a of
         Some e \<Rightarrow> Some e
       | None \<Rightarrow> check_subsets a (token_seq_pairs a) (\<lambda>_. {..<LLAMA_MAX_SEQ}) (\<lambda>_. -1))) }"

definition allocr_init :: "llama_batch \<Rightarrow> nat \<Rightarrow> memory option \<Rightarrow> nat \<Rightarrow> nat \<Rightarrow> bool \<Rightarrow> llama_batch_allocr \<Rightarrow>
    (batch_error + llama_batch_allocr) option" where
  "allocr_init b n_vocab memory n_embd n_seq_max output_all a = do {
     assert_that (b_n_tokens b > 0);
     if n_seq_max > LLAMA_MAX_SEQ then Some (Inl TooManySequences)
     else (case check_tokens n_vocab b of Some e \<Rightarrow> Some (Inl e)
     | None \<Rightarrow> (case check_seq_ids n_seq_max b of Some e \<Rightarrow> Some (Inl e)
     | None \<Rightarrow> do {
         pos \<leftarrow> fill_pos memory n_seq_max b;
         let a = init_stats (init_fill b pos n_embd n_seq_max output_all a);
         r \<leftarrow> init_check memory a;
         Some (case r of Some e \<Rightarrow> Inl e | None \<Rightarrow> Inr (split_reset a)) })) }"

section \<open>ubatch_add\<close>

definition ubatch_add :: "nat list \<Rightarrow> nat \<Rightarrow> bool \<Rightarrow> llama_batch_allocr \<Rightarrow> llama_ubatch \<times> llama_batch_allocr" where
  "ubatch_add idxs n_seqs equal_seqs a =
    (let n_tokens = length idxs;
         seq_id = map (tok_seqs (a_n_seq_id a) (a_seq_id a)) idxs;
         seq_set_unq = set (map nat (concat seq_id))
     in (\<lparr>ub_equal_seqs = equal_seqs, ub_n_tokens = n_tokens, ub_n_seq_tokens = n_tokens div n_seqs, ub_n_seqs = n_seqs,
          ub_n_seqs_unq = length (unq_ids (a_n_seq_max a) seq_set_unq), ub_n_pos = a_n_pos_per_embd a,
          ub_token = map_option (\<lambda>tok. map ((!) tok) idxs) (a_token a),
          ub_embd = map_option (\<lambda>e. concat (map (\<lambda>i. take (a_n_embd a) (drop (i * a_n_embd a) e)) idxs)) (a_embd a),
          ub_pos = concat (map (\<lambda>j. map (\<lambda>i. a_pos a ! ((if a_token a \<noteq> None then 0 else j * a_n_tokens a) + i)) idxs)
                     [0..<a_n_pos_per_embd a]),
          ub_n_seq_id = map ((!) (a_n_seq_id a)) idxs,
          ub_seq_id = seq_id,
          ub_seq_id_unq = unq_ids (a_n_seq_max a) seq_set_unq,
          ub_seq_idx = map (unq_idx (a_n_seq_max a) seq_set_unq) [0..<LLAMA_MAX_SEQ],
          ub_output = map ((!) (a_logits a)) idxs\<rparr>,
         a\<lparr>a_out_ids := a_out_ids a @ filter (\<lambda>i. a_logits a ! i \<noteq> 0) idxs\<rparr>))"

definition ubatch_reserve :: "nat \<Rightarrow> nat \<Rightarrow> llama_batch_allocr \<Rightarrow> llama_ubatch \<times> llama_batch_allocr" where
  "ubatch_reserve n_seq_tokens n_seqs a =
    (let n_tokens = n_seq_tokens * n_seqs in
     (\<lparr>ub_equal_seqs = True, ub_n_tokens = n_tokens, ub_n_seq_tokens = n_seq_tokens, ub_n_seqs = n_seqs,
       ub_n_seqs_unq = n_seqs, ub_n_pos = a_n_pos_per_embd a,
       ub_token = Some (replicate n_tokens 0), ub_embd = None,
       ub_pos = replicate (n_tokens * a_n_pos_per_embd a) 0,
       ub_n_seq_id = replicate n_tokens 0, ub_seq_id = replicate n_tokens [],
       ub_seq_id_unq = [0..<n_seqs],
       ub_seq_idx = map (\<lambda>s. if s < n_seqs then int s else -1) [0..<LLAMA_MAX_SEQ],
       ub_output = replicate n_tokens 0\<rparr>,
      split_reset (allocr_clear a)))"

section \<open>The three splits\<close>

text \<open>The search for the first unused token, common to \<open>split_simple\<close> and \<open>split_seq\<close>.\<close>

definition first_unused :: "bool list \<Rightarrow> nat" where
  "first_unused us = length (takeWhile (\<lambda>u. u) us)"

definition use_token :: "nat \<Rightarrow> llama_batch_allocr \<Rightarrow> llama_batch_allocr" where
  "use_token i a = a\<lparr>a_used := (a_used a)[i := True], a_n_used := a_n_used a + 1\<rparr>"

function simple_loop :: "nat \<Rightarrow> nat \<Rightarrow> nat list \<Rightarrow> llama_batch_allocr \<Rightarrow> nat list \<times> llama_batch_allocr" where
  "simple_loop n_ubatch cur_idx idxs a =
     (let idxs = idxs @ [cur_idx]; a = use_token cur_idx a; cur_idx = cur_idx + 1 in
      if cur_idx \<ge> length (a_used a) then (idxs, a)
      else if length idxs \<ge> n_ubatch then (idxs, a)
      else simple_loop n_ubatch cur_idx idxs a)"
  by pat_completeness auto
termination
  by (relation "measure (\<lambda>(n, cur, idxs, a). length (a_used a) - cur)") (auto simp: use_token_def)

definition split_simple :: "nat \<Rightarrow> llama_batch_allocr \<Rightarrow> llama_ubatch \<times> llama_batch_allocr" where
  "split_simple n_ubatch a =
    (let cur_idx = first_unused (a_used a) in
     if cur_idx \<ge> length (a_used a) then (ubatch_empty, a)
     else (let (idxs, a) = simple_loop n_ubatch cur_idx [] a in ubatch_add idxs (length idxs) False a))"

text \<open>\<open>split_equal\<close>, first loop: the non-overlapping sequence sets taking part.\<close>

fun pick_sets :: "llama_batch_allocr \<Rightarrow> nat \<Rightarrow> bool \<Rightarrow> nat list \<Rightarrow> nat set list \<Rightarrow> llama_seq_id \<Rightarrow> nat set list" where
  "pick_sets a n_ubatch sequential [] cur_seq_set last_seq_id = cur_seq_set"
| "pick_sets a n_ubatch sequential (i # is) cur_seq_set last_seq_id =
    (if a_used a ! i then pick_sets a n_ubatch sequential is cur_seq_set last_seq_id
     else (let add = (\<forall>s \<in> set cur_seq_set. s \<inter> a_seq_set a ! i = {});
               add = (if sequential then add \<and> (cur_seq_set = [] \<or> a_seq_id a ! i ! 0 = last_seq_id + 1) else add) in
       if add then
         (let cur_seq_set = cur_seq_set @ [a_seq_set a ! i]; last_seq_id = a_seq_id a ! i ! 0 in
          if length cur_seq_set > n_ubatch then cur_seq_set
          else pick_sets a n_ubatch sequential is cur_seq_set last_seq_id)
       else pick_sets a n_ubatch sequential is cur_seq_set last_seq_id))"

text \<open>Second loop: skip the used tokens of each set (the set has an unused one).\<close>

definition start_idx :: "llama_batch_allocr \<Rightarrow> nat set \<Rightarrow> nat" where
  "start_idx a s = length (takeWhile (\<lambda>i. a_used a ! i) (a_seq_set_map a s))"

text \<open>One round of the third loop takes the next token of every set.\<close>

definition take_round :: "nat set list \<Rightarrow> nat list \<Rightarrow> llama_batch_allocr \<Rightarrow> nat list \<times> llama_batch_allocr" where
  "take_round sets cur_idx a =
    (let idx = map (\<lambda>(s, k). a_seq_set_map a s ! k) (zip sets cur_idx) in (idx, fold use_token idx a))"

text \<open>
  The third loop; \<open>idxs_per_seq\<close> collects the tokens of each set. It stops when a set has run out
  or another round would exceed \<open>n_ubatch\<close>; the measure is what is left of the first set.
\<close>

function equal_loop :: "nat \<Rightarrow> nat set list \<Rightarrow> nat list \<Rightarrow> nat list list \<Rightarrow> llama_batch_allocr \<Rightarrow> nat list list \<times> llama_batch_allocr" where
  "equal_loop n_ubatch sets cur_idx idxs_per_seq a =
    (if sets = [] \<or> length cur_idx \<noteq> length sets \<or>
        (\<exists>(s, k) \<in> set (zip sets cur_idx). k \<ge> length (a_seq_set_map a s)) then (idxs_per_seq, a)
     else (let (idx, a) = take_round sets cur_idx a;
               idxs_per_seq = map (\<lambda>(xs, i). xs @ [i]) (zip idxs_per_seq idx);
               cur_idx = map Suc cur_idx in
       if (length (hd idxs_per_seq) + 1) * length sets > n_ubatch then (idxs_per_seq, a)
       else equal_loop n_ubatch sets cur_idx idxs_per_seq a))"
  by pat_completeness auto

lemma a_use_token [simp]:
  "a_seq_set_map (use_token i a) = a_seq_set_map a" "a_n_tokens (use_token i a) = a_n_tokens a"
  "a_seq_set (use_token i a) = a_seq_set a" "a_seq_id (use_token i a) = a_seq_id a"
  "a_n_used (use_token i a) = a_n_used a + 1" "a_used (use_token i a) = (a_used a)[i := True]"
  by (auto simp: use_token_def)

lemma a_use_tokens [simp]:
  "a_seq_set_map (fold use_token is a) = a_seq_set_map a" "a_n_tokens (fold use_token is a) = a_n_tokens a"
  "a_seq_set (fold use_token is a) = a_seq_set a" "a_seq_id (fold use_token is a) = a_seq_id a"
  "a_n_used (fold use_token is a) = a_n_used a + length is" "length (a_used (fold use_token is a)) = length (a_used a)"
  by (induction "is" arbitrary: a) auto

termination equal_loop
proof (relation "measure (\<lambda>(n, sets, cur, xs, a). length (a_seq_set_map a (hd sets)) - hd cur)", goal_cases)
  case (2 n sets cur xs a p idx a' xs' cur')
  then obtain s ss k ks where "sets = s # ss" "cur = k # ks"
    by (cases sets; cases cur) auto
  with 2 show ?case by (auto simp: take_round_def)
qed simp

definition split_equal :: "nat \<Rightarrow> bool \<Rightarrow> llama_batch_allocr \<Rightarrow> llama_ubatch \<times> llama_batch_allocr" where
  "split_equal n_ubatch sequential a =
    (if sequential \<and> a_has_cpl a then (ubatch_empty, a)
     else (let sets = pick_sets a n_ubatch sequential [0..<a_n_tokens a] [] (-1) in
       if sets = [] then (ubatch_empty, a)
       else (let (idxs_per_seq, a) = equal_loop n_ubatch sets (map (start_idx a) sets) (replicate (length sets) []) a
             in ubatch_add (concat idxs_per_seq) (length sets) True a)))"

text \<open>\<open>split_seq\<close>: the next unused token whose sequence set is contained in the current one.\<close>

function next_subset :: "llama_batch_allocr \<Rightarrow> nat set \<Rightarrow> nat \<Rightarrow> nat" where
  "next_subset a cur_seq_set cur_idx =
    (let cur_idx = cur_idx + 1 in
     if cur_idx < a_n_tokens a \<and> (a_used a ! cur_idx \<or> cur_seq_set \<inter> a_seq_set a ! cur_idx \<noteq> a_seq_set a ! cur_idx)
     then next_subset a cur_seq_set cur_idx else cur_idx)"
  by pat_completeness auto
termination
  by (relation "measure (\<lambda>(a, s, cur). a_n_tokens a - cur)") auto

declare next_subset.simps [simp del]

lemma next_subset_gt: "cur < next_subset a s cur"
proof (induction a s cur rule: next_subset.induct)
  case (1 a s cur)
  then have "Suc cur < next_subset a s (Suc cur)"
    if "Suc cur < a_n_tokens a \<and> (a_used a ! Suc cur \<or> s \<inter> a_seq_set a ! Suc cur \<noteq> a_seq_set a ! Suc cur)"
    using that by simp
  then show ?case by (simp add: next_subset.simps[of a s cur] Suc_lessD)
qed

function seq_loop :: "nat \<Rightarrow> nat \<Rightarrow> nat set \<Rightarrow> nat list \<Rightarrow> llama_batch_allocr \<Rightarrow> nat list \<times> llama_batch_allocr" where
  "seq_loop n_ubatch cur_idx cur_seq_set idxs a =
    (let idxs = idxs @ [cur_idx]; a = use_token cur_idx a in
     if length idxs \<ge> n_ubatch then (idxs, a)
     else (let cur_idx = next_subset a cur_seq_set cur_idx in
       if cur_idx \<ge> a_n_tokens a then (idxs, a)
       else seq_loop n_ubatch cur_idx (a_seq_set a ! cur_idx) idxs a))"
  by pat_completeness auto
termination
proof (relation "measure (\<lambda>(n, cur, s, idxs, a). a_n_tokens a - cur)", goal_cases)
  case (2 n cur s idxs a idxs' a' cur')
  then have "cur < cur'" "cur' < a_n_tokens a" using next_subset_gt[of cur a' s] by auto
  with 2 show ?case by simp
qed simp

definition split_seq :: "nat \<Rightarrow> llama_batch_allocr \<Rightarrow> llama_ubatch \<times> llama_batch_allocr" where
  "split_seq n_ubatch a =
    (let cur_idx = first_unused (a_used a) in
     if cur_idx \<ge> length (a_used a) then (ubatch_empty, a)
     else (let (idxs, a) = seq_loop n_ubatch cur_idx (a_seq_set a ! cur_idx) [] a in ubatch_add idxs 1 True a))"

declare simple_loop.simps [simp del] equal_loop.simps [simp del] seq_loop.simps [simp del]

end
