(* ===== verification/Batch_Split.thy ===== *)
theory Batch_Split
  imports Batch
begin

text \<open>
  Correctness of the splits of \<open>llama_batch_allocr\<close>. \<open>split_loop\<close> is the loop around
  \<open>split_simple\<close>, \<open>split_equal\<close> or \<open>split_seq\<close> found in every \<open>init_batch\<close>; it runs until an
  empty ubatch comes back. The locale \<open>batch_split\<close> states what the loop relies on; it is
  interpreted on the three splits. \<open>ordered_split\<close> adds that tokens are taken in order.
\<close>

section \<open>The loop\<close>

partial_function (option) split_loop ::
  "(llama_batch_allocr \<Rightarrow> llama_ubatch \<times> llama_batch_allocr) \<Rightarrow> llama_batch_allocr \<Rightarrow> (llama_ubatch list \<times> llama_batch_allocr) option" where
  "split_loop split a =
    (let (ubatch, a) = split a in
     if ub_n_tokens ubatch = 0 then Some ([], a)
     else do { (ubatches, a) \<leftarrow> split_loop split a; Some (ubatch # ubatches, a) })"

declare split_loop.simps [code]

section \<open>Well-formed allocators\<close>

definition n_set :: "bool list \<Rightarrow> nat" where
  "n_set us = length (filter (\<lambda>u. u) us)"

definition allocr_ok :: "llama_batch_allocr \<Rightarrow> bool" where
  "allocr_ok a \<longleftrightarrow> length (a_used a) = a_n_tokens a \<and> length (a_seq_set a) = a_n_tokens a \<and>
     a_seq_set_map a = (\<lambda>s. filter (\<lambda>i. a_seq_set a ! i = s) [0..<a_n_tokens a]) \<and>
     a_n_used a = n_set (a_used a) \<and> (\<forall>i < a_n_tokens a. a_seq_set a ! i = token_seq_set a i)"

text \<open>What no split changes.\<close>

definition same_batch :: "llama_batch_allocr \<Rightarrow> llama_batch_allocr \<Rightarrow> bool" where
  "same_batch a a' \<longleftrightarrow> (\<exists>us n out. a' = a\<lparr>a_used := us, a_n_used := n, a_out_ids := out\<rparr>)"

lemma same_batchI: "a' = a\<lparr>a_used := us, a_n_used := n, a_out_ids := out\<rparr> \<Longrightarrow> same_batch a a'"
  by (auto simp only: same_batch_def)

lemma same_batch_refl [simp]: "same_batch a a"
  by (rule same_batchI[where us = "a_used a" and n = "a_n_used a" and out = "a_out_ids a"]) simp

lemma same_batch_trans [trans]: "same_batch a b \<Longrightarrow> same_batch b c \<Longrightarrow> same_batch a c"
  unfolding same_batch_def by (elim exE) (rule same_batchI[unfolded same_batch_def], simp)

lemma same_batchD:
  assumes "same_batch a a'"
  shows "a_n_tokens a' = a_n_tokens a" "a_seq_set a' = a_seq_set a" "a_seq_set_map a' = a_seq_set_map a"
    "a_token a' = a_token a" "a_logits a' = a_logits a" "a_has_cpl a' = a_has_cpl a" "a_seq_id a' = a_seq_id a"
    "a_n_seq_id a' = a_n_seq_id a" "a_pos a' = a_pos a" "a_n_pos_per_embd a' = a_n_pos_per_embd a"
    "a_n_outputs a' = a_n_outputs a" "a_n_embd a' = a_n_embd a" "a_embd a' = a_embd a" "a_n_seq_max a' = a_n_seq_max a"
  using assms by (auto simp: same_batch_def)

lemma token_seq_set_same: "same_batch a a' \<Longrightarrow> token_seq_set a' = token_seq_set a"
  by (simp add: fun_eq_iff token_seq_set_def same_batchD)

text \<open>\<open>takes a idxs u a'\<close>: the split consumed the unused tokens \<open>idxs\<close>, recorded them and put
  exactly their data into the ubatch \<open>u\<close>.\<close>

definition ubatch_rows :: "llama_batch_allocr \<Rightarrow> nat list \<Rightarrow> llama_ubatch \<Rightarrow> bool" where
  "ubatch_rows a idxs u \<longleftrightarrow> ub_n_tokens u = length idxs \<and> ub_n_pos u = a_n_pos_per_embd a \<and>
     ub_token u = map_option (\<lambda>tok. map ((!) tok) idxs) (a_token a) \<and>
     ub_seq_id u = map (tok_seqs (a_n_seq_id a) (a_seq_id a)) idxs \<and>
     ub_output u = map ((!) (a_logits a)) idxs \<and>
     ub_pos u = concat (map (\<lambda>j. map (\<lambda>i. a_pos a ! ((if a_token a \<noteq> None then 0 else j * a_n_tokens a) + i)) idxs) [0..<a_n_pos_per_embd a]) \<and>
     ub_n_seq_id u = map ((!) (a_n_seq_id a)) idxs \<and>
     ub_seq_id_unq u = unq_ids (a_n_seq_max a) (nat ` set (concat (ub_seq_id u)))"

definition takes :: "llama_batch_allocr \<Rightarrow> nat list \<Rightarrow> llama_ubatch \<Rightarrow> llama_batch_allocr \<Rightarrow> bool" where
  "takes a idxs u a' \<longleftrightarrow> idxs \<noteq> [] \<and> distinct idxs \<and> (\<forall>i \<in> set idxs. i < a_n_tokens a \<and> \<not> a_used a ! i) \<and>
     ubatch_rows a idxs u \<and> same_batch a a' \<and>
     a_used a' = map (\<lambda>i. a_used a ! i \<or> i \<in> set idxs) [0..<a_n_tokens a] \<and>
     a_n_used a' = a_n_used a + length idxs \<and>
     a_out_ids a' = a_out_ids a @ filter (\<lambda>i. a_logits a ! i \<noteq> 0) idxs"

lemma ubatch_rows_same: "same_batch a a' \<Longrightarrow> ubatch_rows a' idxs u = ubatch_rows a idxs u"
  by (simp add: ubatch_rows_def same_batchD cong: if_cong)

lemma same_batch_use_tokens [simp]: "same_batch a (fold use_token is a)"
proof (induction "is" arbitrary: a)
  case (Cons i "is")
  have "same_batch a (use_token i a)"
    by (rule same_batchI[where us = "(a_used a)[i := True]" and n = "a_n_used a + 1" and out = "a_out_ids a"]) (simp add: use_token_def)
  with Cons show ?case by (auto intro: same_batch_trans)
qed simp

lemma used_use_tokens:
  "a_used (fold use_token is a) = map (\<lambda>i. a_used a ! i \<or> i \<in> set is) [0..<length (a_used a)]"
proof (induction "is" arbitrary: a)
  case Nil
  then show ?case by (simp add: map_nth)
next
  case (Cons i "is")
  then show ?case by (auto simp: nth_list_update_in)
qed

lemma out_ids_use_tokens [simp]: "a_out_ids (fold use_token is a) = a_out_ids a"
  by (induction "is" arbitrary: a) (auto simp: use_token_def)

text \<open>The common end of the three splits.\<close>

lemma takes_ubatch_add:
  assumes ok: "allocr_ok a" and idxs: "idxs \<noteq> []" "distinct idxs" "\<forall>i \<in> set idxs. i < a_n_tokens a \<and> \<not> a_used a ! i"
    and marked: "set marks = set idxs" "length marks = length idxs"
  shows "takes a idxs (fst (ubatch_add idxs n eq (fold use_token marks a))) (snd (ubatch_add idxs n eq (fold use_token marks a)))"
proof -
  let ?a = "fold use_token marks a"
  have same: "same_batch a ?a" by simp
  have "same_batch ?a (snd (ubatch_add idxs n eq ?a))"
    by (rule same_batchI[where us = "a_used ?a" and n = "a_n_used ?a" and out = "a_out_ids ?a @ filter (\<lambda>i. a_logits ?a ! i \<noteq> 0) idxs"]) (simp add: ubatch_add_def Let_def)
  with same have "same_batch a (snd (ubatch_add idxs n eq ?a))" by (rule same_batch_trans)
  moreover have "ubatch_rows a idxs (fst (ubatch_add idxs n eq ?a))"
    by (simp add: ubatch_rows_def ubatch_add_def Let_def same_batchD[OF same] cong: if_cong)
  ultimately show ?thesis using ok idxs marked
    by (simp add: takes_def ubatch_add_def Let_def used_use_tokens allocr_ok_def same_batchD[OF same])
qed

lemma n_set_card: "n_set us = card {i. i < length us \<and> us ! i}"
  by (simp add: n_set_def length_filter_conv_card)

lemma n_set_all: "n_set us = length us \<longleftrightarrow> (\<forall>i < length us. us ! i)"
proof -
  have "length (filter (\<lambda>u. u) us) = length us \<longleftrightarrow> (\<forall>u \<in> set us. u)"
    by (metis filter_True length_filter_less less_irrefl)
  then show ?thesis by (simp add: n_set_def all_set_conv_all_nth)
qed

lemma takes_same: "takes a idxs u a' \<Longrightarrow> same_batch a a'"
  by (simp add: takes_def)

lemma takes_ok:
  assumes ok: "allocr_ok a" and t: "takes a idxs u a'"
  shows "allocr_ok a'" "a_n_used a' \<le> a_n_tokens a" "a_n_used a < a_n_used a'"
proof -
  let ?U = "{i. i < a_n_tokens a \<and> a_used a ! i}"
  have "{i. i < a_n_tokens a \<and> a_used a' ! i} = ?U \<union> set idxs" "?U \<inter> set idxs = {}"
    using t by (auto simp: takes_def)
  then have "card {i. i < a_n_tokens a \<and> a_used a' ! i} = card ?U + length idxs"
    using t by (simp add: card_Un_disjoint takes_def distinct_card)
  with ok t show ok': "allocr_ok a'"
    by (simp add: allocr_ok_def takes_def same_batchD[OF takes_same[OF t]] token_seq_set_same[OF takes_same[OF t]] n_set_card)
  have "n_set (a_used a') \<le> length (a_used a')" by (simp add: n_set_def)
  with ok' t show "a_n_used a' \<le> a_n_tokens a"
    by (simp add: allocr_ok_def same_batchD[OF takes_same[OF t]])
  show "a_n_used a < a_n_used a'" using t by (simp add: takes_def)
qed

lemma ubatch_empty_n_tokens [simp]: "ub_n_tokens ubatch_empty = 0"
  by (simp add: ubatch_empty_def)

section \<open>The interface of a split\<close>

text \<open>A run of the loop; \<open>pick a\<close> are the indices of the tokens that the split takes in state \<open>a\<close>.\<close>

inductive split_run ::
  "(llama_batch_allocr \<Rightarrow> llama_ubatch \<times> llama_batch_allocr) \<Rightarrow> (llama_batch_allocr \<Rightarrow> nat list) \<Rightarrow>
   llama_batch_allocr \<Rightarrow> nat list list \<Rightarrow> llama_ubatch list \<Rightarrow> llama_batch_allocr \<Rightarrow> bool" for split pick where
  run_stop: "\<lbrakk>split a = (u, a); ub_n_tokens u = 0; a_n_used a = a_n_tokens a\<rbrakk> \<Longrightarrow> split_run split pick a [] [] a"
| run_step: "\<lbrakk>split a = (u, a'); takes a (pick a) u a'; split_run split pick a' parts us a''\<rbrakk>
    \<Longrightarrow> split_run split pick a (pick a # parts) (u # us) a''"

lemma split_run_loop: "split_run split pick a parts us a' \<Longrightarrow> split_loop split a = Some (us, a')"
proof (induction rule: split_run.induct)
  case (run_stop a u)
  then show ?case by (simp add: split_loop.simps)
next
  case (run_step a u a' parts us a'')
  then have "ub_n_tokens u \<noteq> 0" by (simp add: takes_def ubatch_rows_def)
  with run_step show ?case by (simp add: split_loop.simps[of split a])
qed

lemma split_run_same: "split_run split pick a parts us a' \<Longrightarrow> same_batch a a'"
  by (induction rule: split_run.induct) (auto intro: same_batch_trans takes_same)

lemma split_run_rows: "split_run split pick a parts us a' \<Longrightarrow> list_all2 (ubatch_rows a) parts us"
proof (induction rule: split_run.induct)
  case (run_step a u a' parts us a'')
  then have "ubatch_rows a' = ubatch_rows a" by (auto simp: fun_eq_iff ubatch_rows_same takes_same)
  with run_step show ?case by (simp add: takes_def)
qed simp

lemma split_run_out_ids:
  "split_run split pick a parts us a' \<Longrightarrow> a_out_ids a' = a_out_ids a @ filter (\<lambda>i. a_logits a ! i \<noteq> 0) (concat parts)"
proof (induction rule: split_run.induct)
  case (run_step a u a' parts us a'')
  then show ?case by (auto simp: takes_def same_batchD)
qed simp

lemma split_run_parts:
  assumes "split_run split pick a parts us a'" "allocr_ok a"
  shows "distinct (concat parts) \<and> set (concat parts) = {i. i < a_n_tokens a \<and> \<not> a_used a ! i} \<and>
    a_n_used a' = a_n_tokens a'"
  using assms
proof (induction rule: split_run.induct)
  case (run_stop a u)
  then have "\<forall>i < a_n_tokens a. a_used a ! i" by (metis allocr_ok_def n_set_all)
  with run_stop show ?case by auto
next
  case (run_step a u a' parts us a'')
  note IH = run_step.IH[OF takes_ok(1)[OF run_step.prems run_step.hyps(2)]]
  have "a_n_tokens a' = a_n_tokens a" "\<forall>i < a_n_tokens a. a_used a' ! i \<longleftrightarrow> a_used a ! i \<or> i \<in> set (pick a)"
    "distinct (pick a)" "\<forall>i \<in> set (pick a). i < a_n_tokens a \<and> \<not> a_used a ! i"
    using run_step.hyps(2) by (auto simp: takes_def same_batchD)
  with IH show ?case by auto
qed

lemma split_run_pos: "split_run split pick a parts us a' \<Longrightarrow> \<forall>u \<in> set us. 0 < ub_n_tokens u"
  by (induction rule: split_run.induct) (auto simp: takes_def ubatch_rows_def)

lemma split_run_tokens:
  assumes "split_run split pick a parts us a'" "a_token a = Some toks"
  shows "map (the \<circ> ub_token) us = map (map ((!) toks)) parts"
  using split_run_rows[OF assms(1)] assms(2)
  by (induction rule: list_all2_induct) (auto simp: ubatch_rows_def)

text \<open>
  What the loop relies on, for an invariant \<open>inv\<close> of the allocator and a promise \<open>post\<close> on
  the ubatch: as long as tokens are left the split takes some, otherwise it does nothing.
\<close>

locale batch_split =
  fixes split :: "llama_batch_allocr \<Rightarrow> llama_ubatch \<times> llama_batch_allocr"
    and pick :: "llama_batch_allocr \<Rightarrow> nat list"
    and inv :: "llama_batch_allocr \<Rightarrow> bool"
    and post :: "llama_ubatch \<Rightarrow> bool"
  assumes inv_ok: "inv a \<Longrightarrow> allocr_ok a"
    and split_takes: "\<lbrakk>inv a; a_n_used a < a_n_tokens a; split a = (u, a')\<rbrakk>
      \<Longrightarrow> takes a (pick a) u a' \<and> inv a' \<and> post u"
    and split_done: "\<lbrakk>inv a; a_n_used a = a_n_tokens a\<rbrakk> \<Longrightarrow> split a = (ubatch_empty, a)"
begin

lemma split_loop_total:
  assumes "inv a"
  shows "\<exists>parts us a'. split_run split pick a parts us a' \<and> (\<forall>u \<in> set us. post u)"
  using assms
proof (induction "a_n_tokens a - a_n_used a" arbitrary: a rule: less_induct)
  case less
  obtain u a' where sp: "split a = (u, a')" by force
  have "a_n_used a \<le> a_n_tokens a"
    using inv_ok[OF less.prems] by (metis allocr_ok_def length_filter_le n_set_def)
  then consider "a_n_used a = a_n_tokens a" | "a_n_used a < a_n_tokens a" by linarith
  then show ?case
  proof cases
    case 1
    then show ?thesis using split_done[OF less.prems 1] by (metis (no_types) ubatch_empty_n_tokens run_stop empty_iff empty_set)
  next
    case 2
    then have t: "takes a (pick a) u a'" "inv a'" "post u" using split_takes[OF less.prems _ sp] by auto
    then have "a_n_tokens a' - a_n_used a' < a_n_tokens a - a_n_used a"
      using takes_ok[OF inv_ok[OF less.prems] t(1)] 2 by (simp add: same_batchD[OF takes_same[OF t(1)]])
    then obtain parts us a'' where run: "split_run split pick a' parts us a''" "\<forall>u \<in> set us. post u"
      using less.hyps t(2) by blast
    have "split_run split pick a (pick a # parts) (u # us) a''" using sp t(1) run(1) by (rule run_step)
    with run(2) t(3) show ?thesis by (metis set_ConsD)
  qed
qed

end

text \<open>A split that takes the tokens in the order of the batch.\<close>

locale ordered_split = batch_split +
  assumes in_order: "\<lbrakk>inv a; a_n_used a < a_n_tokens a\<rbrakk> \<Longrightarrow> pick a = [a_n_used a..<a_n_used a + length (pick a)]"
begin

lemma parts_in_order:
  assumes "split_run split pick a parts us a'" "inv a"
  shows "concat parts = [a_n_used a..<a_n_tokens a]"
  using assms
proof (induction rule: split_run.induct)
  case (run_step a u a' parts us a'')
  have le: "a_n_used a' \<le> a_n_tokens a" "a_n_used a' = a_n_used a + length (pick a)" "a_n_tokens a' = a_n_tokens a"
    "a_n_used a < a_n_tokens a"
    using takes_ok(2,3)[OF inv_ok[OF run_step.prems] run_step.hyps(2)] same_batchD(1)[OF takes_same[OF run_step.hyps(2)]]
      run_step.hyps(2)[unfolded takes_def] by linarith+
  have "concat parts = [a_n_used a'..<a_n_tokens a']"
    using run_step.IH split_takes[OF run_step.prems le(4) run_step.hyps(1)] by simp
  with in_order[OF run_step.prems le(4)] le show ?case
    by simp (metis le_add1 le_add_diff_inverse upt_add_eq_append)
qed simp

end

section \<open>split_simple\<close>

definition simple_inv :: "llama_batch_allocr \<Rightarrow> bool" where
  "simple_inv a \<longleftrightarrow> allocr_ok a \<and> a_used a = replicate (a_n_used a) True @ replicate (a_n_tokens a - a_n_used a) False"

lemma first_unused_prefix: "first_unused (replicate k True @ replicate m False) = k"
  by (cases m) (auto simp: first_unused_def takeWhile_append)

lemma simple_loop_eq:
  assumes "cur < length (a_used a)"
  shows "\<exists>e. simple_loop n cur idxs a = (idxs @ [cur..<e], fold use_token [cur..<e] a) \<and>
    cur < e \<and> e \<le> length (a_used a) \<and> (length idxs < n \<longrightarrow> length idxs + (e - cur) \<le> n) \<and> (n \<le> length idxs \<longrightarrow> e = Suc cur)"
  using assms
proof (induction n cur idxs a rule: simple_loop.induct)
  case (1 n cur idxs a)
  show ?case
  proof (cases "Suc cur \<ge> length (a_used a) \<or> Suc (length idxs) \<ge> n")
    case True
    with 1(2) show ?thesis by (intro exI[of _ "Suc cur"]) (auto simp: simple_loop.simps[of n cur] Let_def)
  next
    case False
    let ?a = "use_token cur a"
    from False 1(1)[OF refl refl refl] obtain e where
      "simple_loop n (Suc cur) (idxs @ [cur]) ?a = ((idxs @ [cur]) @ [Suc cur..<e], fold use_token [Suc cur..<e] ?a)"
      "Suc cur < e" "e \<le> length (a_used a)" "Suc (length idxs) + (e - Suc cur) \<le> n"
      by auto
    with False show ?thesis
      by (intro exI[of _ e]) (auto simp: simple_loop.simps[of n cur] upt_conv_Cons Let_def)
  qed
qed

definition simple_pick :: "nat \<Rightarrow> llama_batch_allocr \<Rightarrow> nat list" where
  "simple_pick n a = fst (simple_loop n (a_n_used a) [] a)"

text \<open>The outcome of one \<open>split_simple\<close> call.\<close>

lemma split_simple_takes:
  assumes "simple_inv a" "a_n_used a < a_n_tokens a"
  shows "simple_pick n a = [a_n_used a..<a_n_used a + length (simple_pick n a)] \<and>
    takes a (simple_pick n a) (fst (split_simple n a)) (snd (split_simple n a)) \<and>
    ub_n_tokens (fst (split_simple n a)) \<le> max 1 n \<and> simple_inv (snd (split_simple n a))"
proof -
  let ?k = "a_n_used a" and ?n = "a_n_tokens a"
  have ok: "allocr_ok a" and used: "a_used a = replicate ?k True @ replicate (?n - ?k) False"
    using assms(1) by (auto simp: simple_inv_def)
  have len: "length (a_used a) = ?n" using ok by (simp add: allocr_ok_def)
  obtain e where e: "simple_loop n ?k [] a = ([?k..<e], fold use_token [?k..<e] a)" "?k < e" "e \<le> ?n"
    and en: "0 < n \<longrightarrow> e - ?k \<le> n" "n = 0 \<longrightarrow> e = Suc ?k"
    using simple_loop_eq[of ?k a n "[]"] assms(2) len by (auto simp del: simple_loop.simps)
  from en have e4: "e - ?k \<le> max 1 n" by (cases "n = 0") auto
  let ?r = "ubatch_add [?k..<e] (length [?k..<e]) False (fold use_token [?k..<e] a)"
  have r: "split_simple n a = ?r"
    using e(1) assms(2) first_unused_prefix[of ?k "?n - ?k"] len
    by (simp add: split_simple_def Let_def used[symmetric])
  have t: "takes a [?k..<e] (fst ?r) (snd ?r)"
    using e by (intro takes_ubatch_add[OF ok]) (auto simp: used nth_append)
  have "a_used (snd ?r) = replicate e True @ replicate (?n - e) False"
    using t e(2,3) used by (auto simp: takes_def list_eq_iff_nth_eq nth_append)
  moreover have "a_n_used (snd ?r) = e" "a_n_tokens (snd ?r) = ?n"
    using t e(2) by (auto simp: takes_def same_batchD)
  ultimately have "simple_inv (snd ?r)" using takes_ok(1)[OF ok t] by (simp add: simple_inv_def)
  moreover have "ub_n_tokens (fst ?r) \<le> max 1 n" using t e(2) e4 by (simp add: takes_def ubatch_rows_def)
  moreover have "simple_pick n a = [?k..<e]" by (simp add: simple_pick_def e(1))
  ultimately show ?thesis using t e(2) r by simp
qed

lemma split_simple_done: "simple_inv a \<Longrightarrow> a_n_used a = a_n_tokens a \<Longrightarrow> split_simple n a = (ubatch_empty, a)"
  using first_unused_prefix[of "a_n_tokens a" 0] by (simp add: split_simple_def simple_inv_def Let_def)

interpretation simple_split: ordered_split "split_simple n" "simple_pick n" simple_inv "\<lambda>u. ub_n_tokens u \<le> max 1 n"
proof (unfold_locales, goal_cases)
  case (1 a)
  then show ?case by (simp add: simple_inv_def)
next
  case (2 a u a')
  then show ?case using split_simple_takes[of a n] by simp
next
  case (3 a)
  then show ?case by (rule split_simple_done)
next
  case (4 a)
  then show ?case by (rule conjunct1[OF split_simple_takes])
qed

section \<open>split_seq\<close>

text \<open>The sequence set of each row of a ubatch.\<close>

definition ub_seq_sets :: "llama_ubatch \<Rightarrow> nat set list" where
  "ub_seq_sets u = map (\<lambda>r. set (map nat r)) (ub_seq_id u)"

lemma ub_seq_sets_rows:
  assumes "allocr_ok a" "takes a idxs u a'"
  shows "ub_seq_sets u = map ((!) (a_seq_set a)) idxs"
  using assms by (auto simp: ub_seq_sets_def takes_def ubatch_rows_def allocr_ok_def token_seq_set_def)

lemma next_subset_spec:
  "next_subset a s cur < a_n_tokens a \<Longrightarrow>
   \<not> a_used a ! next_subset a s cur \<and> a_seq_set a ! next_subset a s cur \<subseteq> s"
proof (induction a s cur rule: next_subset.induct)
  case (1 a s cur)
  show ?case
  proof (cases "Suc cur < a_n_tokens a \<and> (a_used a ! Suc cur \<or> s \<inter> a_seq_set a ! Suc cur \<noteq> a_seq_set a ! Suc cur)")
    case True
    with 1 show ?thesis by (simp add: next_subset.simps[of a s cur])
  next
    case False
    with 1(2) have "Suc cur < a_n_tokens a" "next_subset a s cur = Suc cur" by (auto simp: next_subset.simps[of a s cur])
    with False show ?thesis by auto
  qed
qed

lemma seq_loop_eq:
  assumes "cur < a_n_tokens a" "\<not> a_used a ! cur" "s = a_seq_set a ! cur" "length (a_used a) = a_n_tokens a"
  shows "\<exists>js. seq_loop n cur s idxs a = (idxs @ cur # js, fold use_token (cur # js) a) \<and>
    sorted_wrt (<) (cur # js) \<and> sorted_wrt (\<lambda>i j. a_seq_set a ! j \<subseteq> a_seq_set a ! i) (cur # js) \<and>
    (\<forall>j \<in> set (cur # js). j < a_n_tokens a \<and> \<not> a_used a ! j) \<and>
    (if length idxs < n then length idxs + length (cur # js) \<le> n else js = [])"
  using assms
proof (induction n cur s idxs a rule: seq_loop.induct)
  case (1 n cur s idxs a)
  let ?a = "use_token cur a" and ?c = "next_subset (use_token cur a) s cur"
  show ?case
  proof (cases "n \<le> Suc (length idxs) \<or> a_n_tokens a \<le> ?c")
    case True
    with 1(2-) show ?thesis by (intro exI[of _ "[]"]) (auto simp: seq_loop.simps[of n cur] Let_def)
  next
    case False
    then have c: "\<not> a_used ?a ! ?c" "a_seq_set a ! ?c \<subseteq> s" "cur < ?c"
      using next_subset_spec[of ?a s cur] next_subset_gt[of cur ?a s] by auto
    from False c 1(1)[OF refl refl _ refl] 1(5) obtain js where js:
      "seq_loop n ?c (a_seq_set a ! ?c) (idxs @ [cur]) ?a = ((idxs @ [cur]) @ ?c # js, fold use_token (?c # js) ?a)"
      "sorted_wrt (<) (?c # js)" "sorted_wrt (\<lambda>i j. a_seq_set a ! j \<subseteq> a_seq_set a ! i) (?c # js)"
      "\<forall>j \<in> set (?c # js). j < a_n_tokens a \<and> \<not> a_used ?a ! j" "Suc (length idxs) + length (?c # js) \<le> n"
      by auto
    have "\<not> a_used a ! j" if j: "j \<in> set (?c # js)" for j
    proof -
      have "cur < j" using js(2) c(3) j by auto
      then show ?thesis using js(4) j by auto
    qed
    moreover have "\<forall>j \<in> set (?c # js). a_seq_set a ! j \<subseteq> s" using js(3) c(2) by auto
    ultimately show ?thesis using False js c 1(2-4)
      by (intro exI[of _ "?c # js"]) (auto simp: seq_loop.simps[of n cur] Let_def)
  qed
qed

lemma first_unused_all: "first_unused us = length us \<longleftrightarrow> n_set us = length us"
proof -
  have "first_unused us = length us \<longleftrightarrow> takeWhile (\<lambda>u. u) us = us"
    unfolding first_unused_def by (metis order_refl take_all takeWhile_eq_take)
  also have "\<dots> \<longleftrightarrow> (\<forall>u \<in> set us. u)" by (rule takeWhile_eq_all_conv)
  finally show ?thesis by (simp add: n_set_all all_set_conv_all_nth)
qed

lemma first_unused_spec:
  assumes "n_set us < length us"
  shows "first_unused us < length us" "\<not> us ! first_unused us"
proof -
  have "first_unused us \<le> length us" by (simp add: first_unused_def length_takeWhile_le)
  with assms first_unused_all[of us] show "first_unused us < length us" by linarith
  then show "\<not> us ! first_unused us"
    unfolding first_unused_def by (rule nth_length_takeWhile)
qed

definition seq_pick :: "nat \<Rightarrow> llama_batch_allocr \<Rightarrow> nat list" where
  "seq_pick n a = fst (seq_loop n (first_unused (a_used a)) (a_seq_set a ! first_unused (a_used a)) [] a)"

definition seq_post :: "nat \<Rightarrow> llama_ubatch \<Rightarrow> bool" where
  "seq_post n u \<longleftrightarrow> sorted_wrt (\<lambda>s t. t \<subseteq> s) (ub_seq_sets u) \<and> ub_n_tokens u \<le> max 1 n"

lemma split_seq_takes:
  assumes ok: "allocr_ok a" and left: "a_n_used a < a_n_tokens a"
  shows "takes a (seq_pick n a) (fst (split_seq n a)) (snd (split_seq n a)) \<and> seq_post n (fst (split_seq n a))"
proof -
  let ?c = "first_unused (a_used a)"
  have c: "?c < a_n_tokens a" "\<not> a_used a ! ?c" and len: "length (a_used a) = a_n_tokens a"
    using ok left first_unused_spec[of "a_used a"] by (auto simp: allocr_ok_def)
  obtain js where js: "seq_loop n ?c (a_seq_set a ! ?c) [] a = (?c # js, fold use_token (?c # js) a)"
    "sorted_wrt (<) (?c # js)" "sorted_wrt (\<lambda>i j. a_seq_set a ! j \<subseteq> a_seq_set a ! i) (?c # js)"
    "\<forall>j \<in> set (?c # js). j < a_n_tokens a \<and> \<not> a_used a ! j"
    and n: "if 0 < n then length (?c # js) \<le> n else js = []"
    using seq_loop_eq[OF c refl len, of n "[]"] by (auto simp only: append_Nil list.size add_0)
  let ?r = "ubatch_add (?c # js) 1 True (fold use_token (?c # js) a)"
  have r: "split_seq n a = ?r" "seq_pick n a = ?c # js"
    using js(1) c len by (auto simp: split_seq_def seq_pick_def Let_def)
  have "distinct (?c # js)" using js(2) strict_sorted_iff by blast
  then have t: "takes a (?c # js) (fst ?r) (snd ?r)"
    using js(4) by (intro takes_ubatch_add[OF ok]) auto
  have "sorted_wrt (\<lambda>s t. t \<subseteq> s) (ub_seq_sets (fst ?r))"
    using js(3) by (simp only: ub_seq_sets_rows[OF ok t] sorted_wrt_map)
  moreover have "ub_n_tokens (fst ?r) \<le> max 1 n" using t n by (auto simp: takes_def ubatch_rows_def split: if_splits)
  ultimately show ?thesis using t r by (simp add: seq_post_def)
qed

interpretation seq_split: batch_split "split_seq n" "seq_pick n" allocr_ok "seq_post n"
proof (unfold_locales, goal_cases)
  case (2 a u a')
  then show ?case using split_seq_takes[of a n] takes_ok(1)[of a "seq_pick n a" u a'] by simp
next
  case (3 a)
  then show ?case using first_unused_all[of "a_used a"] by (simp add: allocr_ok_def split_seq_def Let_def)
qed

section \<open>split_equal\<close>

definition disjoint_sets :: "nat set list \<Rightarrow> bool" where
  "disjoint_sets sets \<longleftrightarrow> sorted_wrt (\<lambda>s t. s \<inter> t = {}) sets"

definition adds_set :: "llama_batch_allocr \<Rightarrow> bool \<Rightarrow> nat set list \<Rightarrow> llama_seq_id \<Rightarrow> nat \<Rightarrow> bool" where
  "adds_set a sq acc l i \<longleftrightarrow> \<not> a_used a ! i \<and> (\<forall>s \<in> set acc. s \<inter> a_seq_set a ! i = {}) \<and>
     (sq \<longrightarrow> acc = [] \<or> a_seq_id a ! i ! 0 = l + 1)"

lemma pick_sets_Cons:
  "pick_sets a n sq (i # is) acc l =
    (if \<not> adds_set a sq acc l i then pick_sets a n sq is acc l
     else if length acc \<ge> n then acc @ [a_seq_set a ! i]
     else pick_sets a n sq is (acc @ [a_seq_set a ! i]) (a_seq_id a ! i ! 0))"
  by (auto simp: adds_set_def Let_def)

lemma pick_sets_spec:
  assumes "disjoint_sets acc" "length acc \<le> n" "\<forall>s \<in> set acc. \<exists>i \<in> I. s = a_seq_set a ! i \<and> \<not> a_used a ! i"
    "set is \<subseteq> I"
  shows "disjoint_sets (pick_sets a n sq is acc l) \<and> length (pick_sets a n sq is acc l) \<le> n + 1 \<and>
    (\<forall>s \<in> set (pick_sets a n sq is acc l). \<exists>i \<in> I. s = a_seq_set a ! i \<and> \<not> a_used a ! i)"
  using assms
proof (induction "is" arbitrary: acc l)
  case (Cons i "is")
  have "disjoint_sets (acc @ [a_seq_set a ! i]) \<and>
    (\<forall>s \<in> set (acc @ [a_seq_set a ! i]). \<exists>i \<in> I. s = a_seq_set a ! i \<and> \<not> a_used a ! i)" if "adds_set a sq acc l i"
    using that Cons.prems by (auto simp: disjoint_sets_def sorted_wrt_append adds_set_def)
  note add = this
  have IH: "set is \<subseteq> I" "i \<in> I" using Cons.prems(4) by auto
  consider "\<not> adds_set a sq acc l i" | "adds_set a sq acc l i" "n \<le> length acc" | "adds_set a sq acc l i" "length acc < n"
    by linarith
  then show ?case
  proof cases
    case 1
    then show ?thesis using Cons.IH[OF Cons.prems(1-3) IH(1)] by (simp add: pick_sets_Cons del: pick_sets.simps)
  next
    case 2
    then show ?thesis using add[OF 2(1)] Cons.prems(2) by (simp add: pick_sets_Cons del: pick_sets.simps)
  next
    case 3
    then show ?thesis using Cons.IH[OF conjunct1[OF add[OF 3(1)]] _ conjunct2[OF add[OF 3(1)]] IH(1)]
      by (simp add: pick_sets_Cons del: pick_sets.simps)
  qed
qed simp

lemma pick_sets_nonempty: "acc \<noteq> [] \<or> (\<exists>i \<in> set is. \<not> a_used a ! i) \<Longrightarrow> pick_sets a n sq is acc l \<noteq> []"
proof (induction "is" arbitrary: acc l)
  case (Cons i "is")
  then show ?case unfolding pick_sets_Cons by (cases "acc = []") (auto simp: adds_set_def)
qed simp

text \<open>
  The third loop takes, from each set, \<open>m\<close> consecutive members starting at its current index,
  for one common \<open>m\<close>; it stops at \<open>n\<close> tokens unless a single round already exceeds it.
\<close>

abbreviation chunk :: "llama_batch_allocr \<Rightarrow> nat set list \<Rightarrow> nat list \<Rightarrow> nat \<Rightarrow> nat \<Rightarrow> nat list" where
  "chunk a sets cur m j \<equiv> take m (drop (cur ! j) (a_seq_set_map a (sets ! j)))"

lemma chunk_Suc:
  assumes "cur ! j < length (a_seq_set_map a (sets ! j))" "j < length cur"
  shows "chunk a sets cur (Suc m) j = a_seq_set_map a (sets ! j) ! (cur ! j) # chunk a sets (map Suc cur) m j"
  using assms by (simp add: Cons_nth_drop_Suc[symmetric])

lemma equal_loop_eq:
  assumes "sets \<noteq> []" "length cur = length sets" "length xss = length sets"
  shows "\<exists>m marks. equal_loop n sets cur xss a =
      (map (\<lambda>j. xss ! j @ chunk a sets cur m j) [0..<length sets], fold use_token marks a) \<and>
    set marks = (\<Union>j < length sets. set (chunk a sets cur m j)) \<and> length marks = m * length sets \<and>
    (m > 0 \<longrightarrow> (\<forall>j < length sets. cur ! j + m \<le> length (a_seq_set_map a (sets ! j)))) \<and>
    ((\<forall>j < length sets. cur ! j < length (a_seq_set_map a (sets ! j))) \<longrightarrow> m > 0) \<and>
    (length (hd xss) + m) * length sets \<le> max n ((length (hd xss) + 1) * length sets)"
  using assms
proof (induction n sets cur xss a rule: equal_loop.induct)
  case (1 n sets cur xss a)
  show ?case
  proof (cases "\<exists>(s, k) \<in> set (zip sets cur). k \<ge> length (a_seq_set_map a s)")
    case True
    then obtain j where "j < length sets" "length (a_seq_set_map a (sets ! j)) \<le> cur ! j"
      using 1(3) by (auto simp: in_set_zip)
    moreover have "xss = map ((!) xss) [0..<length sets]" using 1(4) map_nth[of xss] by simp
    ultimately show ?thesis using True
      by (intro exI[of _ 0] exI[of _ "[]"]) (auto simp: equal_loop.simps[of n sets])
  next
    case False
    have more: "cur ! j < length (a_seq_set_map a (sets ! j))" if j: "j < length sets" for j
    proof -
      have "(sets ! j, cur ! j) \<in> set (zip sets cur)" using j 1(3) by (auto simp: in_set_zip)
      with False show ?thesis by force
    qed
    let ?idx = "map (\<lambda>(s, k). a_seq_set_map a s ! k) (zip sets cur)"
    let ?a = "fold use_token ?idx a"
    let ?xss = "map (\<lambda>(xs, i). xs @ [i]) (zip xss ?idx)"
    have tr: "take_round sets cur a = (?idx, ?a)" by (simp add: take_round_def Let_def)
    have "?idx = map (\<lambda>j. a_seq_set_map a (sets ! j) ! (cur ! j)) [0..<length sets]"
      by (rule nth_equalityI) (simp_all add: 1(3))
    then have idx_set: "set ?idx = (\<lambda>j. a_seq_set_map a (sets ! j) ! (cur ! j)) ` {..<length sets}" by auto
    have hd: "length (hd ?xss) = Suc (length (hd xss))"
      using 1(2-4) by (cases sets; cases cur; cases xss) auto
    have xss: "?xss ! j = xss ! j @ [a_seq_set_map a (sets ! j) ! (cur ! j)]" if "j < length sets" for j
      using that 1(3,4) by simp
    have chunk1: "chunk a sets cur (Suc 0) j = [a_seq_set_map a (sets ! j) ! (cur ! j)]" if "j < length sets" for j
      using that more[OF that] chunk_Suc[of cur j a sets 0] 1(3) by simp
    show ?thesis
    proof (cases "(length (hd ?xss) + 1) * length sets > n")
      case True
      have "equal_loop n sets cur xss a = (?xss, ?a)"
        using False True 1(2,3) by (simp add: equal_loop.simps[of n sets] tr)
      moreover have "?xss = map (\<lambda>j. xss ! j @ chunk a sets cur (Suc 0) j) [0..<length sets]"
      proof (rule nth_equalityI)
        fix j assume "j < length ?xss"
        then have "j < length sets" by simp
        with xss[OF this] chunk1[OF this] show "?xss ! j = map (\<lambda>j. xss ! j @ chunk a sets cur (Suc 0) j) [0..<length sets] ! j"
          by simp
      qed (simp add: 1(3,4))
      moreover have "set ?idx = (\<Union>j < length sets. set (chunk a sets cur (Suc 0) j))"
        using chunk1 unfolding idx_set by auto
      ultimately show ?thesis using more 1(3)
        by (intro exI[of _ "Suc 0"] exI[of _ ?idx]) (auto simp: Suc_le_eq)
    next
      case False2: False
      have step: "equal_loop n sets cur xss a = equal_loop n sets (map Suc cur) ?xss ?a"
        using False False2 1(2,3) by (simp add: equal_loop.simps[of n sets cur] tr)
      have "\<not> (sets = [] \<or> length cur \<noteq> length sets \<or> (\<exists>(s, k) \<in> set (zip sets cur). k \<ge> length (a_seq_set_map a s)))"
        using False 1(2,3) by auto
      from 1(1)[OF this tr[symmetric] refl refl refl] False2 1(2-4) obtain m marks where m:
        "equal_loop n sets (map Suc cur) ?xss ?a =
           (map (\<lambda>j. ?xss ! j @ chunk ?a sets (map Suc cur) m j) [0..<length sets], fold use_token marks ?a)"
        "set marks = (\<Union>j < length sets. set (chunk ?a sets (map Suc cur) m j))" "length marks = m * length sets"
        "m > 0 \<longrightarrow> (\<forall>j < length sets. map Suc cur ! j + m \<le> length (a_seq_set_map ?a (sets ! j)))"
        "(length (hd ?xss) + m) * length sets \<le> max n ((length (hd ?xss) + 1) * length sets)"
        by (auto simp: case_prod_beta)
      have "?xss ! j @ chunk ?a sets (map Suc cur) m j = xss ! j @ chunk a sets cur (Suc m) j" if "j < length sets" for j
        using that more[OF that] xss[OF that] 1(3) chunk_Suc[of cur j a sets m] by simp
      then have "equal_loop n sets cur xss a =
          (map (\<lambda>j. xss ! j @ chunk a sets cur (Suc m) j) [0..<length sets], fold use_token (?idx @ marks) a)"
        unfolding step m(1) by simp
      moreover have "set (?idx @ marks) = (\<Union>j < length sets. set (chunk a sets cur (Suc m) j))"
        using more 1(3) unfolding set_append idx_set m(2) by (auto simp del: take_Suc_Cons simp: chunk_Suc[of cur _ a sets m])
      moreover have "length (?idx @ marks) = Suc m * length sets" using m(3) 1(3) by simp
      moreover have "cur ! j + Suc m \<le> length (a_seq_set_map a (sets ! j))" if "j < length sets" for j
        using m(4) more[OF that] that 1(3) by (cases m) auto
      moreover have "(length (hd xss) + Suc m) * length sets \<le> max n ((length (hd xss) + 1) * length sets)"
      proof (rule max.coboundedI1)
        have "max n ((length (hd ?xss) + 1) * length sets) = n" using False2 by (simp add: max_def)
        with m(5) hd show "(length (hd xss) + Suc m) * length sets \<le> n" by simp
      qed
      ultimately show ?thesis by (intro exI[of _ "Suc m"] exI[of _ "?idx @ marks"]) blast
    qed
  qed
qed

text \<open>
  The invariant that the rounds rely on: in every sequence set the used tokens come first.
\<close>

definition used_prefix :: "llama_batch_allocr \<Rightarrow> bool" where
  "used_prefix a \<longleftrightarrow> (\<forall>j < a_n_tokens a. \<forall>i < j. a_seq_set a ! i = a_seq_set a ! j \<longrightarrow> a_used a ! j \<longrightarrow> a_used a ! i)"

definition equal_inv :: "bool \<Rightarrow> llama_batch_allocr \<Rightarrow> bool" where
  "equal_inv sequential a \<longleftrightarrow> allocr_ok a \<and> used_prefix a \<and> {} \<notin> set (a_seq_set a) \<and> \<not> (sequential \<and> a_has_cpl a)"

definition equal_post :: "nat \<Rightarrow> llama_ubatch \<Rightarrow> bool" where
  "equal_post n u \<longleftrightarrow> (\<exists>sets. disjoint_sets sets \<and> length sets = ub_n_seqs u \<and>
     ub_seq_sets u = concat (map (replicate (ub_n_seq_tokens u)) sets) \<and>
     ub_n_seqs u \<le> n + 1 \<and> ub_n_tokens u \<le> max n (ub_n_seqs u))"

text \<open>The unused members of a set are those after the ones the second loop skips.\<close>

abbreviation members :: "llama_batch_allocr \<Rightarrow> nat set \<Rightarrow> nat list" where
  "members a s \<equiv> drop (start_idx a s) (a_seq_set_map a s)"

lemma dropWhile_eq_filter_not:
  "sorted_wrt (\<lambda>x y. P y \<longrightarrow> P x) xs \<Longrightarrow> dropWhile P xs = filter (\<lambda>x. \<not> P x) xs"
  by (induction xs) (auto simp: filter_id_conv)

lemma members_eq:
  assumes "allocr_ok a" "used_prefix a"
  shows "members a s = filter (\<lambda>i. a_seq_set a ! i = s \<and> \<not> a_used a ! i) [0..<a_n_tokens a]"
proof -
  let ?xs = "filter (\<lambda>i. a_seq_set a ! i = s) [0..<a_n_tokens a]"
  have "sorted_wrt (<) ?xs" by (simp add: sorted_wrt_filter)
  then have "sorted_wrt (\<lambda>i j. a_used a ! j \<longrightarrow> a_used a ! i) ?xs"
    by (rule sorted_wrt_mono_rel[rotated]) (use assms(2) in \<open>auto simp: used_prefix_def\<close>)
  then have "dropWhile (\<lambda>i. a_used a ! i) ?xs = filter (\<lambda>i. \<not> a_used a ! i) ?xs"
    by (rule dropWhile_eq_filter_not)
  then show ?thesis using assms(1) by (simp add: start_idx_def allocr_ok_def dropWhile_eq_drop[symmetric] conj_commute)
qed

lemma distinct_concat_keyed:
  assumes "distinct ks" "\<And>k. k \<in> set ks \<Longrightarrow> distinct (f k)" "\<And>k x. \<lbrakk>k \<in> set ks; x \<in> set (f k)\<rbrakk> \<Longrightarrow> g x = k"
  shows "distinct (concat (map f ks))"
  using assms
proof (induction ks)
  case (Cons k ks)
  have "set (f k) \<inter> set (concat (map f ks)) = {}"
  proof (rule ccontr)
    assume "set (f k) \<inter> set (concat (map f ks)) \<noteq> {}"
    then obtain x k' where "x \<in> set (f k)" "k' \<in> set ks" "x \<in> set (f k')" by auto
    then have "k = k'" using Cons.prems(3)[of k x] Cons.prems(3)[of k' x] by simp
    with Cons.prems(1) \<open>k' \<in> set ks\<close> show False by simp
  qed
  with Cons show ?case by simp
qed simp

lemma disjoint_sets_distinct: "disjoint_sets sets \<Longrightarrow> {} \<notin> set sets \<Longrightarrow> distinct sets"
  unfolding disjoint_sets_def by (induction sets) auto

lemma length_concat_const: "(\<And>x. x \<in> set xs \<Longrightarrow> length (f x) = m) \<Longrightarrow> length (concat (map f xs)) = m * length xs"
  by (induction xs) auto

lemma take_sorted_closed:
  "\<lbrakk>sorted_wrt (<) xs; j \<in> set (take m xs); i \<in> set xs; i < (j :: nat)\<rbrakk> \<Longrightarrow> i \<in> set (take m xs)"
proof (induction xs arbitrary: m)
  case (Cons x xs)
  then show ?case by (cases m) (auto dest: in_set_takeD)
qed simp

definition equal_sets :: "nat \<Rightarrow> bool \<Rightarrow> llama_batch_allocr \<Rightarrow> nat set list" where
  "equal_sets n sequential a = pick_sets a n sequential [0..<a_n_tokens a] [] (-1)"

definition equal_pick :: "nat \<Rightarrow> bool \<Rightarrow> llama_batch_allocr \<Rightarrow> nat list" where
  "equal_pick n sequential a = (let sets = equal_sets n sequential a in
     concat (fst (equal_loop n sets (map (start_idx a) sets) (replicate (length sets) []) a)))"

lemma equal_sets_spec:
  assumes inv: "equal_inv sq a" and left: "a_n_used a < a_n_tokens a"
  shows "equal_sets n sq a \<noteq> []" "disjoint_sets (equal_sets n sq a)" "distinct (equal_sets n sq a)"
    "length (equal_sets n sq a) \<le> n + 1" "\<And>s. s \<in> set (equal_sets n sq a) \<Longrightarrow> members a s \<noteq> []"
proof -
  have ok: "allocr_ok a" and len: "length (a_used a) = a_n_tokens a" "length (a_seq_set a) = a_n_tokens a"
    and ne: "{} \<notin> set (a_seq_set a)"
    using inv by (auto simp: equal_inv_def allocr_ok_def)
  note spec = pick_sets_spec[of "[]" n "set [0..<a_n_tokens a]" a "[0..<a_n_tokens a]" sq "-1"]
  have D: "disjoint_sets (equal_sets n sq a)" "length (equal_sets n sq a) \<le> n + 1"
    and S: "\<forall>s \<in> set (equal_sets n sq a). \<exists>i \<in> {0..<a_n_tokens a}. s = a_seq_set a ! i \<and> \<not> a_used a ! i"
    using spec by (auto simp: disjoint_sets_def equal_sets_def simp del: pick_sets.simps)
  then show "disjoint_sets (equal_sets n sq a)" "length (equal_sets n sq a) \<le> n + 1" by auto
  have "{} \<notin> set (equal_sets n sq a)" using S ne len by (metis atLeastLessThan_iff nth_mem)
  with D show "distinct (equal_sets n sq a)" by (simp add: disjoint_sets_distinct)
  obtain i where "i < a_n_tokens a" "\<not> a_used a ! i"
    using ok left n_set_all[of "a_used a"] by (auto simp: allocr_ok_def)
  then show "equal_sets n sq a \<noteq> []" unfolding equal_sets_def by (intro pick_sets_nonempty) auto
  show "members a s \<noteq> []" if "s \<in> set (equal_sets n sq a)" for s
    using S that members_eq[of a s] inv by (auto simp: equal_inv_def filter_empty_conv)
qed

lemma split_equal_parts:
  assumes inv: "equal_inv sq a" and left: "a_n_used a < a_n_tokens a"
  shows "\<exists>m marks. let sets = equal_sets n sq a; idxs = concat (map (\<lambda>s. take m (members a s)) sets) in
    0 < m \<and> (\<forall>s \<in> set sets. m \<le> length (members a s)) \<and> equal_pick n sq a = idxs \<and>
    split_equal n sq a = ubatch_add idxs (length sets) True (fold use_token marks a) \<and>
    set marks = set idxs \<and> length marks = m * length sets \<and> m * length sets \<le> max n (length sets)"
proof -
  let ?sets = "equal_sets n sq a"
  let ?cur = "map (start_idx a) ?sets" and ?xss = "replicate (length ?sets) ([] :: nat list)"
  note S = equal_sets_spec[OF inv left, where n = n]
  have "length ?cur = length ?sets" "length ?xss = length ?sets" by simp_all
  from equal_loop_eq[OF S(1) this, of n a] obtain m marks where
    eq: "equal_loop n ?sets ?cur ?xss a =
      (map (\<lambda>j. ?xss ! j @ chunk a ?sets ?cur m j) [0..<length ?sets], fold use_token marks a)" and
    mk: "set marks = (\<Union>j < length ?sets. set (chunk a ?sets ?cur m j))" "length marks = m * length ?sets" and
    fit: "m > 0 \<longrightarrow> (\<forall>j < length ?sets. ?cur ! j + m \<le> length (a_seq_set_map a (?sets ! j)))" and
    pos: "(\<forall>j < length ?sets. ?cur ! j < length (a_seq_set_map a (?sets ! j))) \<longrightarrow> m > 0" and
    bnd: "(length (hd ?xss) + m) * length ?sets \<le> max n ((length (hd ?xss) + 1) * length ?sets)"
    by (elim exE conjE) (rule that, assumption+)
  have m: "0 < m" using pos S(5)[OF nth_mem] by (auto simp: not_le)
  have parts: "map (\<lambda>j. ?xss ! j @ chunk a ?sets ?cur m j) [0..<length ?sets] = map (\<lambda>s. take m (members a s)) ?sets"
    by (rule nth_equalityI) simp_all
  have "equal_pick n sq a = concat (map (\<lambda>s. take m (members a s)) ?sets)"
    unfolding equal_pick_def Let_def eq parts by simp
  moreover have "split_equal n sq a = ubatch_add (concat (map (\<lambda>s. take m (members a s)) ?sets)) (length ?sets) True (fold use_token marks a)"
    using inv S(1) eq unfolding parts by (auto simp: split_equal_def equal_inv_def equal_sets_def[symmetric] Let_def)
  moreover have "set marks = set (concat (map (\<lambda>s. take m (members a s)) ?sets))"
    unfolding mk by (auto simp: set_conv_nth[of ?sets])
  moreover have "\<forall>s \<in> set ?sets. m \<le> length (members a s)"
    using fit m by (fastforce simp: in_set_conv_nth)
  moreover have "m * length ?sets \<le> max n (length ?sets)" using bnd S(1) by simp
  ultimately show ?thesis using m mk(2) by (auto simp: Let_def)
qed

lemma split_equal_takes:
  assumes inv: "equal_inv sq a" and left: "a_n_used a < a_n_tokens a"
  shows "takes a (equal_pick n sq a) (fst (split_equal n sq a)) (snd (split_equal n sq a)) \<and>
    equal_post n (fst (split_equal n sq a)) \<and> equal_inv sq (snd (split_equal n sq a))"
proof -
  note S = equal_sets_spec[OF inv left, where n = n]
  let ?sets = "equal_sets n sq a"
  have ok: "allocr_ok a" and pre: "used_prefix a" using inv by (auto simp: equal_inv_def)
  obtain m marks where m: "0 < m" "\<forall>s \<in> set ?sets. m \<le> length (members a s)"
    and idxs: "equal_pick n sq a = concat (map (\<lambda>s. take m (members a s)) ?sets)"
    and sp: "split_equal n sq a = ubatch_add (equal_pick n sq a) (length ?sets) True (fold use_token marks a)"
    and mk: "set marks = set (equal_pick n sq a)" "length marks = m * length ?sets"
    and bnd: "m * length ?sets \<le> max n (length ?sets)"
    using split_equal_parts[OF inv left, of n] by (auto simp: Let_def)
  let ?idxs = "equal_pick n sq a" and ?u = "fst (split_equal n sq a)" and ?a = "snd (split_equal n sq a)"
  have mem: "i < a_n_tokens a \<and> \<not> a_used a ! i \<and> a_seq_set a ! i = s" if "i \<in> set (members a s)" for i s
    using that unfolding members_eq[OF ok pre] by auto
  have dist: "distinct (members a s)" for s unfolding members_eq[OF ok pre] by simp
  have len: "length ?idxs = m * length ?sets" using m unfolding idxs by (intro length_concat_const) auto
  have "distinct ?idxs" unfolding idxs
    by (rule distinct_concat_keyed[OF S(3), of _ "\<lambda>i. a_seq_set a ! i"]) (use dist mem in \<open>auto dest: in_set_takeD\<close>)
  moreover have "?idxs \<noteq> []" using len m(1) S(1) by auto
  moreover have "\<forall>i \<in> set ?idxs. i < a_n_tokens a \<and> \<not> a_used a ! i" unfolding idxs using mem by (auto dest: in_set_takeD)
  ultimately have t: "takes a ?idxs ?u ?a"
    using mk len unfolding sp by (intro takes_ubatch_add[OF ok]) auto
  have "map ((!) (a_seq_set a)) (take m (members a s)) = replicate m s" if "s \<in> set ?sets" for s
    using m(2) that mem[OF in_set_takeD] by (intro replicate_eqI) auto
  then have "ub_seq_sets ?u = concat (map (replicate m) ?sets)"
    unfolding ub_seq_sets_rows[OF ok t] unfolding idxs by (simp add: map_concat o_def cong: map_cong)
  moreover have "ub_n_tokens ?u = m * length ?sets" "ub_n_seqs ?u = length ?sets" "ub_n_seq_tokens ?u = m"
    using len S(1) unfolding sp by (auto simp: ubatch_add_def Let_def)
  ultimately have "equal_post n ?u"
    unfolding equal_post_def using S(2,4) bnd by (intro exI[of _ ?sets]) simp
  moreover have "used_prefix ?a"
  proof -
    have "a_used a ! i \<or> i \<in> set ?idxs" if "j \<in> set ?idxs" "i < j" "a_seq_set a ! i = a_seq_set a ! j" for i j
    proof -
      from that(1) obtain s where s: "s \<in> set ?sets" "j \<in> set (take m (members a s))" unfolding idxs by auto
      note j = mem[OF in_set_takeD[OF s(2)]]
      have "sorted_wrt (<) (members a s)" unfolding members_eq[OF ok pre] by (simp add: sorted_wrt_filter)
      moreover have "a_used a ! i \<or> i \<in> set (members a s)" unfolding members_eq[OF ok pre] using that(2,3) j by auto
      ultimately have "a_used a ! i \<or> i \<in> set (take m (members a s))" using take_sorted_closed[OF _ s(2) _ that(2)] by auto
      with s(1) show ?thesis unfolding idxs by auto
    qed
    then show ?thesis using pre t unfolding used_prefix_def same_batchD[OF takes_same[OF t]] by (auto simp: takes_def)
  qed
  then have "equal_inv sq ?a"
    using inv takes_ok(1)[OF ok t] by (simp add: equal_inv_def same_batchD[OF takes_same[OF t]])
  ultimately show ?thesis using t by simp
qed

interpretation equal_split: batch_split "split_equal n sequential" "equal_pick n sequential" "equal_inv sequential" "equal_post n"
proof (unfold_locales, goal_cases)
  case (1 a)
  then show ?case by (simp add: equal_inv_def)
next
  case (2 a u a')
  then show ?case using split_equal_takes[of sequential a n] by simp
next
  case (3 a)
  have "\<forall>i < a_n_tokens a. a_used a ! i" using 3 by (metis equal_inv_def allocr_ok_def n_set_all)
  then have "pick_sets a n sequential is [] l = []" if "set is \<subseteq> {..<a_n_tokens a}" for "is" l
    using that by (induction "is") auto
  then show ?case using 3 by (simp add: split_equal_def equal_inv_def lessThan_atLeast0)
qed

end
