(* ===== verification/Batch_Init.thy ===== *)
theory Batch_Init
  imports Batch_Split
begin

text \<open>
  What \<open>llama_batch_allocr::init\<close> establishes: the state the splits start from, the positions
  an accepted batch has, and the positions that are generated when the caller gives none.
\<close>

section \<open>The arrays of a batch\<close>

text \<open>The caller's arrays have one entry per token, and every token is in some sequence.\<close>

definition batch_wf :: "llama_batch \<Rightarrow> bool" where
  "batch_wf b \<longleftrightarrow> (\<forall>tok. b_token b = Some tok \<longrightarrow> length tok = b_n_tokens b) \<and>
     (\<forall>lg. b_logits b = Some lg \<longrightarrow> length lg = b_n_tokens b) \<and>
     (case (b_n_seq_id b, b_seq_id b) of (None, None) \<Rightarrow> True
      | (Some ns, Some sid) \<Rightarrow> length ns = b_n_tokens b \<and> length sid = b_n_tokens b \<and>
          (\<forall>i < b_n_tokens b. 0 < ns ! i \<and> ns ! i \<le> length (sid ! i))
      | _ \<Rightarrow> False)"

lemma fold_add_seq_set:
  "fold add_seq_set is a = a\<lparr>a_seq_set := a_seq_set a @ map (token_seq_set a) is,
     a_seq_set_map := (\<lambda>s. a_seq_set_map a s @ filter (\<lambda>i. token_seq_set a i = s) is)\<rparr>"
proof (induction "is" arbitrary: a)
  case (Cons i "is")
  have "token_seq_set (add_seq_set i a) = token_seq_set a"
    by (simp add: fun_eq_iff token_seq_set_def add_seq_set_def Let_def)
  then have "fold add_seq_set (i # is) a = (add_seq_set i a)\<lparr>a_seq_set := a_seq_set (add_seq_set i a) @ map (token_seq_set a) is,
     a_seq_set_map := (\<lambda>s. a_seq_set_map (add_seq_set i a) s @ filter (\<lambda>j. token_seq_set a j = s) is)\<rparr>"
    by (simp add: Cons)
  moreover have "(\<lambda>s. a_seq_set_map (add_seq_set i a) s @ filter (\<lambda>j. token_seq_set a j = s) is) =
      (\<lambda>s. a_seq_set_map a s @ filter (\<lambda>j. token_seq_set a j = s) (i # is))"
    by (auto simp: add_seq_set_def Let_def)
  ultimately have "fold add_seq_set (i # is) a = (add_seq_set i a)\<lparr>a_seq_set := a_seq_set (add_seq_set i a) @ map (token_seq_set a) is,
     a_seq_set_map := (\<lambda>s. a_seq_set_map a s @ filter (\<lambda>j. token_seq_set a j = s) (i # is))\<rparr>"
    by (simp only:)
  moreover have "(add_seq_set i a)\<lparr>a_seq_set := a_seq_set (add_seq_set i a) @ map (token_seq_set a) is, a_seq_set_map := g\<rparr> =
      a\<lparr>a_seq_set := a_seq_set a @ map (token_seq_set a) (i # is), a_seq_set_map := g\<rparr>" for g
    by (simp add: add_seq_set_def Let_def)
  ultimately show ?case by (simp only:)
qed simp

text \<open>The loop over coupled sequences touches three members only.\<close>

definition couple_frame :: "llama_batch_allocr \<Rightarrow> llama_batch_allocr \<Rightarrow> bool" where
  "couple_frame a a' \<longleftrightarrow> (\<exists>sp cpl h. a' = a\<lparr>a_seq_pos := sp, a_seq_cpl := cpl, a_has_cpl := h\<rparr>)"

lemma couple_frameI: "a' = a\<lparr>a_seq_pos := sp, a_seq_cpl := cpl, a_has_cpl := h\<rparr> \<Longrightarrow> couple_frame a a'"
  by (auto simp only: couple_frame_def)

lemma couple_frame_trans: "couple_frame a b \<Longrightarrow> couple_frame b c \<Longrightarrow> couple_frame a c"
  unfolding couple_frame_def by (elim exE) (rule couple_frameI[unfolded couple_frame_def], simp)

lemma couple_frame_refl: "couple_frame a a"
  by (rule couple_frameI[where sp = "a_seq_pos a" and cpl = "a_seq_cpl a" and h = "a_has_cpl a"]) simp

lemma couple_frame_fold: "(\<And>x a. couple_frame a (f x a)) \<Longrightarrow> couple_frame a (fold f xs a)"
proof (induction xs arbitrary: a)
  case (Cons x xs)
  then show ?case by (auto intro: couple_frame_trans)
qed (simp add: couple_frame_refl)

text \<open>One sequence id of a token.\<close>

definition couple_one :: "nat \<Rightarrow> nat \<Rightarrow> nat \<Rightarrow> llama_batch_allocr \<Rightarrow> llama_batch_allocr" where
  "couple_one s0 i s a = (let s1 = nat (a_seq_id a ! i ! s);
              a = a\<lparr>a_seq_pos := (a_seq_pos a)(s1 := sset_insert (a_pos a ! i) (a_seq_pos a s1))\<rparr>
          in if s > 0 then a\<lparr>a_seq_cpl := (a_seq_cpl a)(s1 := (a_seq_cpl a s1)(s0 := True)), a_has_cpl := True\<rparr>
             else a)"

lemma couple_token_fold: "couple_token i a = fold (couple_one (nat (a_seq_id a ! i ! 0)) i) [0..<a_n_seq_id a ! i] a"
  unfolding couple_token_def couple_one_def Let_def by simp

lemma couple_frame_one: "couple_frame a (couple_one s0 i s a)"
proof (cases "s > 0")
  case True
  then show ?thesis by (auto simp: couple_one_def Let_def intro!: couple_frameI)
next
  case False
  then show ?thesis
    by (intro couple_frameI[where sp = "(a_seq_pos a)(nat (a_seq_id a ! i ! s) := sset_insert (a_pos a ! i) (a_seq_pos a (nat (a_seq_id a ! i ! s))))"
        and cpl = "a_seq_cpl a" and h = "a_has_cpl a"]) (simp add: couple_one_def Let_def)
qed

lemma couple_frame_token: "couple_frame a (couple_token i a)"
  unfolding couple_token_fold by (rule couple_frame_fold[OF couple_frame_one])

lemma couple_frameD:
  assumes "couple_frame a a'"
  shows "a_n_tokens a' = a_n_tokens a" "a_seq_set a' = a_seq_set a" "a_seq_set_map a' = a_seq_set_map a"
    "a_token a' = a_token a" "a_logits a' = a_logits a" "a_seq_id a' = a_seq_id a"
    "a_n_seq_id a' = a_n_seq_id a" "a_pos a' = a_pos a" "a_n_pos_per_embd a' = a_n_pos_per_embd a"
    "a_n_outputs a' = a_n_outputs a" "a_n_embd a' = a_n_embd a" "a_embd a' = a_embd a" "a_n_seq_max a' = a_n_seq_max a"
  using assms by (auto simp: couple_frame_def)

lemma couple_frame_sequences: "couple_frame a (couple_sequences a)"
proof -
  have "couple_frame a (a\<lparr>a_has_cpl := False\<rparr>)"
    by (rule couple_frameI[where sp = "a_seq_pos a" and cpl = "a_seq_cpl a" and h = False]) simp
  then show ?thesis unfolding couple_sequences_def
    by (rule couple_frame_trans[OF _ couple_frame_fold[OF couple_frame_token]])
qed

section \<open>The state after init\<close>

lemma count_outputs_fields [simp]:
  "a_n_tokens (count_outputs a) = a_n_tokens a" "a_token (count_outputs a) = a_token a" "a_pos (count_outputs a) = a_pos a"
  "a_logits (count_outputs a) = a_logits a" "a_n_seq_id (count_outputs a) = a_n_seq_id a"
  "a_seq_id (count_outputs a) = a_seq_id a" "a_seq_set (count_outputs a) = a_seq_set a"
  "a_seq_set_map (count_outputs a) = a_seq_set_map a" "a_n_seq_max (count_outputs a) = a_n_seq_max a"
  "a_n_pos_per_embd (count_outputs a) = a_n_pos_per_embd a" "a_seq_pos (count_outputs a) = a_seq_pos a"
  "a_seq_cpl (count_outputs a) = a_seq_cpl a"
  by (simp_all add: count_outputs_def)

lemma init_stats_fields:
  assumes "a_seq_set a = []" "a_seq_set_map a = (\<lambda>_. [])"
  shows "a_n_tokens (init_stats a) = a_n_tokens a" "a_token (init_stats a) = a_token a" "a_pos (init_stats a) = a_pos a"
    "a_logits (init_stats a) = a_logits a" "a_n_seq_id (init_stats a) = a_n_seq_id a" "a_seq_id (init_stats a) = a_seq_id a"
    "a_seq_set (init_stats a) = map (token_seq_set a) [0..<a_n_tokens a]"
    "a_seq_set_map (init_stats a) = (\<lambda>s. filter (\<lambda>i. token_seq_set a i = s) [0..<a_n_tokens a])"
    "a_seq_pos (init_stats a) = a_seq_pos (couple_sequences (count_outputs a))"
    "a_n_outputs (init_stats a) = a_n_outputs (count_outputs a)" "a_n_seq_max (init_stats a) = a_n_seq_max a"
    "a_n_pos_per_embd (init_stats a) = a_n_pos_per_embd a" "a_has_cpl (init_stats a) = a_has_cpl (couple_sequences (count_outputs a))"
    "a_seq_cpl (init_stats a) = a_seq_cpl (couple_sequences (count_outputs a))"
proof -
  note fr = couple_frameD[OF couple_frame_sequences[of "count_outputs a"]]
  have ts: "token_seq_set (couple_sequences (count_outputs a)) = token_seq_set a"
    by (simp add: fun_eq_iff token_seq_set_def fr)
  show "a_n_tokens (init_stats a) = a_n_tokens a" "a_token (init_stats a) = a_token a" "a_pos (init_stats a) = a_pos a"
    "a_logits (init_stats a) = a_logits a" "a_n_seq_id (init_stats a) = a_n_seq_id a" "a_seq_id (init_stats a) = a_seq_id a"
    "a_seq_set (init_stats a) = map (token_seq_set a) [0..<a_n_tokens a]"
    "a_seq_set_map (init_stats a) = (\<lambda>s. filter (\<lambda>i. token_seq_set a i = s) [0..<a_n_tokens a])"
    "a_seq_pos (init_stats a) = a_seq_pos (couple_sequences (count_outputs a))"
    "a_n_outputs (init_stats a) = a_n_outputs (count_outputs a)" "a_n_seq_max (init_stats a) = a_n_seq_max a"
    "a_n_pos_per_embd (init_stats a) = a_n_pos_per_embd a" "a_has_cpl (init_stats a) = a_has_cpl (couple_sequences (count_outputs a))"
    "a_seq_cpl (init_stats a) = a_seq_cpl (couple_sequences (count_outputs a))"
    by (simp_all add: init_stats_def build_seq_sets_def Let_def fold_add_seq_set fr ts assms)
qed

lemma allocr_init_Inr:
  assumes "allocr_init b n_vocab memory n_embd n_seq_max output_all a0 = Some (Inr a)"
  shows "0 < b_n_tokens b" "n_seq_max \<le> LLAMA_MAX_SEQ" "check_tokens n_vocab b = None" "check_seq_ids n_seq_max b = None"
    "\<exists>ps. fill_pos memory n_seq_max b = Some ps \<and> init_check memory (init_stats (init_fill b ps n_embd n_seq_max output_all a0)) = Some None \<and>
      a = split_reset (init_stats (init_fill b ps n_embd n_seq_max output_all a0))"
  using assms by (auto simp: allocr_init_def Let_def bind_Some_iff split: if_splits option.splits)

lemma init_fill_fields [simp]:
  "a_n_tokens (init_fill b ps ne ns oa a) = b_n_tokens b" "a_token (init_fill b ps ne ns oa a) = b_token b"
  "a_pos (init_fill b ps ne ns oa a) = ps" "a_logits (init_fill b ps ne ns oa a) = fill_logits oa b"
  "a_n_seq_id (init_fill b ps ne ns oa a) = fill_n_seq_id b" "a_seq_id (init_fill b ps ne ns oa a) = fill_seq_id b"
  "a_seq_set (init_fill b ps ne ns oa a) = []" "a_seq_set_map (init_fill b ps ne ns oa a) = (\<lambda>_. [])"
  "a_seq_pos (init_fill b ps ne ns oa a) = (\<lambda>_. [])" "a_n_outputs (init_fill b ps ne ns oa a) = 0"
  "a_n_seq_max (init_fill b ps ne ns oa a) = ns" "a_n_pos_per_embd (init_fill b ps ne ns oa a) = a_n_pos_per_embd a"
  "a_seq_cpl (init_fill b ps ne ns oa a) = (\<lambda>_ _. False)"
  by (simp_all add: init_fill_def allocr_clear_def)

lemma split_reset_fields [simp]:
  "a_n_tokens (split_reset a) = a_n_tokens a" "a_token (split_reset a) = a_token a" "a_pos (split_reset a) = a_pos a"
  "a_logits (split_reset a) = a_logits a" "a_n_seq_id (split_reset a) = a_n_seq_id a" "a_seq_id (split_reset a) = a_seq_id a"
  "a_seq_set (split_reset a) = a_seq_set a" "a_seq_set_map (split_reset a) = a_seq_set_map a" "a_out_ids (split_reset a) = []"
  "a_n_used (split_reset a) = 0" "a_used (split_reset a) = replicate (a_n_tokens a) False" "a_seq_pos (split_reset a) = a_seq_pos a"
  "a_n_outputs (split_reset a) = a_n_outputs a" "a_n_seq_max (split_reset a) = a_n_seq_max a" "a_has_cpl (split_reset a) = a_has_cpl a"
  "a_n_pos_per_embd (split_reset a) = a_n_pos_per_embd a" "token_seq_set (split_reset a) = token_seq_set a"
  by (simp_all add: split_reset_def allocr_get_n_tokens_def fun_eq_iff token_seq_set_def)

lemma token_seq_set_nonempty:
  assumes "batch_wf b" "i < b_n_tokens b" "a_n_seq_id a = fill_n_seq_id b" "a_seq_id a = fill_seq_id b"
  shows "token_seq_set a i \<noteq> {}"
  using assms by (auto simp: token_seq_set_def tok_seqs_def batch_wf_def fill_n_seq_id_def fill_seq_id_def split: option.splits)

lemma init_ready:
  assumes init: "allocr_init b n_vocab memory n_embd n_seq_max output_all a0 = Some (Inr a)" and wf: "batch_wf b"
  shows "simple_inv a" "a_n_used a = 0" "a_n_tokens a = b_n_tokens b" "a_token a = b_token b" "a_out_ids a = []"
    "a_n_outputs a = length (filter (\<lambda>i. a_logits a ! i \<noteq> 0) [0..<b_n_tokens b])"
    "\<not> (sequential \<and> a_has_cpl a) \<Longrightarrow> equal_inv sequential a" "a_used a = replicate (b_n_tokens b) False"
    "a_n_seq_id a = fill_n_seq_id b" "a_seq_id a = fill_seq_id b"
proof -
  obtain ps where a: "a = split_reset (init_stats (init_fill b ps n_embd n_seq_max output_all a0))" using allocr_init_Inr(5)[OF init] by blast
  let ?f = "init_fill b ps n_embd n_seq_max output_all a0"
  note st = init_stats_fields[of ?f, simplified]
  have ts: "token_seq_set (init_stats ?f) = token_seq_set ?f" by (simp add: fun_eq_iff token_seq_set_def st)
  have F: "a_n_used a = 0" "a_n_tokens a = b_n_tokens b" "a_token a = b_token b" "a_out_ids a = []"
    "a_used a = replicate (b_n_tokens b) False" "a_n_seq_id a = fill_n_seq_id b" "a_seq_id a = fill_seq_id b"
    "a_seq_set a = map (token_seq_set ?f) [0..<b_n_tokens b]"
    "a_seq_set_map a = (\<lambda>s. filter (\<lambda>i. token_seq_set ?f i = s) [0..<b_n_tokens b])" "token_seq_set a = token_seq_set ?f"
    by (simp_all add: a st ts)
  then show "a_n_used a = 0" "a_n_tokens a = b_n_tokens b" "a_token a = b_token b" "a_out_ids a = []"
    "a_used a = replicate (b_n_tokens b) False" "a_n_seq_id a = fill_n_seq_id b" "a_seq_id a = fill_seq_id b" by auto
  show "a_n_outputs a = length (filter (\<lambda>i. a_logits a ! i \<noteq> 0) [0..<b_n_tokens b])"
    by (simp add: a st count_outputs_def)
  have ok: "allocr_ok a"
    unfolding allocr_ok_def by (auto simp: F n_set_def fun_eq_iff intro!: filter_cong)
  then show "simple_inv a" by (simp add: simple_inv_def F)
  show "equal_inv sequential a" if "\<not> (sequential \<and> a_has_cpl a)"
    using ok that token_seq_set_nonempty[OF wf, of _ ?f] by (force simp: equal_inv_def used_prefix_def F)
qed

section \<open>Cutting an accepted batch\<close>

text \<open>
  C7: The loop around \<open>split_simple\<close> terminates on every accepted batch and cuts it, in order,
  into non-empty ubatches of at most \<open>n_ubatch\<close> tokens (one token if \<open>n_ubatch\<close> is 0): their
  concatenated tokens are the tokens of the batch, every token is consumed, and the recorded
  output indices are those of the output tokens, in order, \<open>n_outputs\<close> many.
\<close>

theorem split_simple_partition:
  assumes "allocr_init b n_vocab memory n_embd n_seq_max output_all a0 = Some (Inr a)" "batch_wf b" "b_token b = Some toks"
  shows "\<exists>us a'. split_loop (split_simple n_ubatch) a = Some (us, a') \<and> concat (map (the \<circ> ub_token) us) = toks \<and>
    (\<forall>u \<in> set us. 0 < ub_n_tokens u \<and> ub_n_tokens u \<le> max 1 n_ubatch) \<and> allocr_get_n_used a' = b_n_tokens b \<and>
    allocr_get_out_ids a' = filter (\<lambda>i. a_logits a ! i \<noteq> 0) [0..<b_n_tokens b] \<and>
    length (allocr_get_out_ids a') = allocr_get_n_outputs a"
proof -
  note R = init_ready[OF assms(1,2)]
  obtain parts us a' where run: "split_run (split_simple n_ubatch) (simple_pick n_ubatch) a parts us a'"
    and bnd: "\<forall>u \<in> set us. ub_n_tokens u \<le> max 1 n_ubatch"
    using simple_split.split_loop_total[OF R(1)] by blast
  have parts: "concat parts = [0..<b_n_tokens b]"
    using simple_split.parts_in_order[OF run R(1)] R(2,3) by simp
  have "concat (map (the \<circ> ub_token) us) = map ((!) toks) (concat parts)"
    using split_run_tokens[OF run] assms(3) R(4) by (simp add: map_concat)
  also have "\<dots> = toks" using assms(2,3) map_nth[of toks] by (simp add: parts batch_wf_def)
  finally have toks: "concat (map (the \<circ> ub_token) us) = toks" .
  have "\<forall>u \<in> set us. 0 < ub_n_tokens u" using split_run_pos[OF run] .
  then show ?thesis
    using split_run_loop[OF run] toks bnd split_run_parts[OF run] split_run_out_ids[OF run] R same_batchD[OF split_run_same[OF run]] parts
    by (auto simp: simple_inv_def allocr_get_n_used_def allocr_get_out_ids_def allocr_get_n_outputs_def)
qed

lemma split_loop_empty: "split a = (ubatch_empty, a') \<Longrightarrow> split_loop split a = Some ([], a')"
  by (simp add: split_loop.simps ubatch_empty_def)

text \<open>
  C8: The loop around \<open>split_equal\<close> terminates on every accepted batch. With \<open>sequential\<close> set and a token that is in several
  sequences it gives no ubatch and uses no token. In all other cases it distributes the tokens
  over the ubatches without loss or repetition. Each ubatch consists of \<open>n_seqs\<close> blocks
  of the same length \<open>n_seq_tokens\<close>, one per sequence set, and these sets are disjoint; it
  has at most \<open>n_ubatch\<close> tokens or is a single token for each of at most \<open>n_ubatch + 1\<close> sets.
\<close>

theorem split_equal_partition:
  assumes "allocr_init b n_vocab memory n_embd n_seq_max output_all a0 = Some (Inr a)" "batch_wf b" "b_token b = Some toks"
  shows "if sequential \<and> a_has_cpl a then split_loop (split_equal n_ubatch sequential) a = Some ([], a) \<and> allocr_get_n_used a = 0
   else \<exists>parts us a'. split_loop (split_equal n_ubatch sequential) a = Some (us, a') \<and>
    map (the \<circ> ub_token) us = map (map ((!) toks)) parts \<and> distinct (concat parts) \<and> set (concat parts) = {..<b_n_tokens b} \<and>
    allocr_get_n_used a' = b_n_tokens b \<and>
    (\<forall>u \<in> set us. 0 < ub_n_tokens u \<and> (\<exists>sets. disjoint_sets sets \<and> length sets = ub_n_seqs u \<and>
       ub_seq_sets u = concat (map (replicate (ub_n_seq_tokens u)) sets) \<and>
       ub_n_seqs u \<le> n_ubatch + 1 \<and> ub_n_tokens u \<le> max n_ubatch (ub_n_seqs u)))"
proof (cases "sequential \<and> a_has_cpl a")
  case True
  then have "split_equal n_ubatch sequential a = (ubatch_empty, a)" by (simp add: split_equal_def)
  from split_loop_empty[of "split_equal n_ubatch sequential", OF this] show ?thesis
    using True init_ready(2)[OF assms(1,2)] by (simp add: allocr_get_n_used_def)
next
  case False
  note R = init_ready[OF assms(1,2)]
  note inv = R(7)[OF False]
  obtain parts us a' where run: "split_run (split_equal n_ubatch sequential) (equal_pick n_ubatch sequential) a parts us a'"
    and post: "\<forall>u \<in> set us. equal_post n_ubatch u"
    using equal_split.split_loop_total[OF inv] by blast
  have "distinct (concat parts) \<and> set (concat parts) = {..<b_n_tokens b} \<and> a_n_used a' = b_n_tokens b"
    using split_run_parts[OF run] inv R(3,8) same_batchD(1)[OF split_run_same[OF run]] by (auto simp: equal_inv_def)
  moreover have "map (the \<circ> ub_token) us = map (map ((!) toks)) parts"
    using split_run_tokens[OF run] R(4) assms(3) by simp
  ultimately show ?thesis
    using split_run_loop[OF run] split_run_pos[OF run] post False
    unfolding allocr_get_n_used_def equal_post_def by auto
qed

text \<open>
  C9: The loop around \<open>split_seq\<close> terminates and distributes the tokens of an accepted batch
  without loss or repetition; within a ubatch the sequence sets only shrink, so all its tokens
  share the sequences of the last one.
\<close>

theorem split_seq_partition:
  assumes "allocr_init b n_vocab memory n_embd n_seq_max output_all a0 = Some (Inr a)" "batch_wf b" "b_token b = Some toks"
  shows "\<exists>parts us a'. split_loop (split_seq n_ubatch) a = Some (us, a') \<and>
    map (the \<circ> ub_token) us = map (map ((!) toks)) parts \<and> distinct (concat parts) \<and> set (concat parts) = {..<b_n_tokens b} \<and>
    allocr_get_n_used a' = b_n_tokens b \<and>
    (\<forall>u \<in> set us. 0 < ub_n_tokens u \<and> ub_n_tokens u \<le> max 1 n_ubatch \<and> sorted_wrt (\<lambda>s t. t \<subseteq> s) (ub_seq_sets u))"
proof -
  note R = init_ready[OF assms(1,2)]
  have inv: "allocr_ok a" using R(1) by (simp add: simple_inv_def)
  obtain parts us a' where run: "split_run (split_seq n_ubatch) (seq_pick n_ubatch) a parts us a'"
    and post: "\<forall>u \<in> set us. seq_post n_ubatch u"
    using seq_split.split_loop_total[OF inv] by blast
  have "distinct (concat parts) \<and> set (concat parts) = {..<b_n_tokens b} \<and> a_n_used a' = b_n_tokens b"
    using split_run_parts[OF run] inv R(3,8) same_batchD(1)[OF split_run_same[OF run]] by auto
  moreover have "map (the \<circ> ub_token) us = map (map ((!) toks)) parts"
    using split_run_tokens[OF run] R(4) assms(3) by simp
  ultimately show ?thesis
    using split_run_loop[OF run] split_run_pos[OF run] post
    unfolding allocr_get_n_used_def seq_post_def by blast
qed

section \<open>Positions of an accepted batch\<close>

definition batch_positions :: "llama_batch_allocr \<Rightarrow> nat \<Rightarrow> llama_pos set" where
  "batch_positions a s = {a_pos a ! i | i. i < a_n_tokens a \<and> s \<in> token_seq_set a i}"

text \<open>The positions continue the memory's without a gap.\<close>

definition consecutive :: "memory option \<Rightarrow> nat \<Rightarrow> llama_pos set \<Rightarrow> bool" where
  "consecutive memory s P \<longleftrightarrow> P = {} \<or> (\<exists>lo hi. P = {lo..hi} \<and>
     (\<forall>mem. memory = Some mem \<and> mem_pos_max mem s \<ge> 0 \<longrightarrow> lo = mem_pos_max mem s + 1))"

lemma couple_one_seq_pos:
  "a_seq_pos (couple_one s0 i k a) s =
    (if s = nat (a_seq_id a ! i ! k) then sset_insert (a_pos a ! i) (a_seq_pos a s) else a_seq_pos a s)"
  by (simp add: couple_one_def Let_def)

lemma couple_ones_seq_pos:
  assumes "\<And>s. sset_ok (a_seq_pos a s)"
  shows "sset_ok (a_seq_pos (fold (couple_one s0 i) ks a) s) \<and>
    set (a_seq_pos (fold (couple_one s0 i) ks a) s) =
      set (a_seq_pos a s) \<union> (if s \<in> (\<lambda>k. nat (a_seq_id a ! i ! k)) ` set ks then {a_pos a ! i} else {})"
  using assms
proof (induction ks arbitrary: a)
  case (Cons k ks)
  note fr = couple_frameD[OF couple_frame_one[of a s0 i k]]
  have "\<And>s. sset_ok (a_seq_pos (couple_one s0 i k a) s)" using Cons.prems by (simp add: couple_one_seq_pos)
  with Cons.IH[of "couple_one s0 i k a"] show ?case by (auto simp: fr couple_one_seq_pos)
qed simp

lemma couple_token_seq_pos:
  assumes "\<And>s. sset_ok (a_seq_pos a s)" "a_n_seq_id a ! i \<le> length (a_seq_id a ! i)"
  shows "sset_ok (a_seq_pos (couple_token i a) s) \<and>
    set (a_seq_pos (couple_token i a) s) = set (a_seq_pos a s) \<union> (if s \<in> token_seq_set a i then {a_pos a ! i} else {})"
proof -
  have "(\<lambda>k. nat (a_seq_id a ! i ! k)) ` set [0..<a_n_seq_id a ! i] = token_seq_set a i"
  proof -
    have "take m xs = map ((!) xs) [0..<m]" if "m \<le> length xs" for m and xs :: "int list"
      using that by (intro nth_equalityI) auto
    with assms(2) show ?thesis by (simp add: token_seq_set_def tok_seqs_def image_image)
  qed
  with couple_ones_seq_pos[OF assms(1), of "nat (a_seq_id a ! i ! 0)" i "[0..<a_n_seq_id a ! i]" s] show ?thesis
    by (simp only: couple_token_fold)
qed

lemma couple_tokens_seq_pos:
  assumes "\<And>s. sset_ok (a_seq_pos a s)" "\<And>i. i \<in> set is \<Longrightarrow> a_n_seq_id a ! i \<le> length (a_seq_id a ! i)"
  shows "sset_ok (a_seq_pos (fold couple_token is a) s) \<and>
    set (a_seq_pos (fold couple_token is a) s) = set (a_seq_pos a s) \<union> {a_pos a ! i | i. i \<in> set is \<and> s \<in> token_seq_set a i}"
  using assms
proof (induction "is" arbitrary: a)
  case (Cons i "is")
  note fr = couple_frameD[OF couple_frame_token[of a i]]
  have ts: "token_seq_set (couple_token i a) = token_seq_set a" by (simp add: fun_eq_iff token_seq_set_def fr)
  have i: "\<And>s. sset_ok (a_seq_pos (couple_token i a) s)"
    "set (a_seq_pos (couple_token i a) s) = set (a_seq_pos a s) \<union> (if s \<in> token_seq_set a i then {a_pos a ! i} else {})"
    using couple_token_seq_pos[OF Cons.prems(1)] Cons.prems(2)[of i] by auto
  have "sset_ok (a_seq_pos (fold couple_token is (couple_token i a)) s) \<and>
    set (a_seq_pos (fold couple_token is (couple_token i a)) s) =
      set (a_seq_pos (couple_token i a) s) \<union> {a_pos a ! i | i. i \<in> set is \<and> s \<in> token_seq_set a i}"
    using Cons.IH[of "couple_token i a", OF i(1)] Cons.prems(2) by (simp add: fr ts)
  then show ?case unfolding i(2) by auto
qed simp

lemma fill_seq_id_rows:
  "batch_wf b \<Longrightarrow> i < b_n_tokens b \<Longrightarrow> fill_n_seq_id b ! i \<le> length (fill_seq_id b ! i) \<and> 0 < fill_n_seq_id b ! i"
  by (auto simp: batch_wf_def fill_n_seq_id_def fill_seq_id_def split: option.splits)

lemma init_stats_seq_pos:
  assumes "batch_wf b" and a_def: "a = init_stats (init_fill b ps n_embd n_seq_max output_all a0)"
  shows "sset_ok (a_seq_pos a s)" "set (a_seq_pos a s) = batch_positions a s"
proof -
  let ?f = "init_fill b ps n_embd n_seq_max output_all a0"
  let ?c = "(count_outputs ?f)\<lparr>a_has_cpl := False\<rparr>"
  note st = init_stats_fields[of ?f, simplified]
  have ts: "token_seq_set a = token_seq_set ?f" "token_seq_set ?c = token_seq_set ?f"
    by (auto simp: a_def fun_eq_iff token_seq_set_def st)
  have "sset_ok (a_seq_pos (fold couple_token [0..<b_n_tokens b] ?c) s) \<and>
      set (a_seq_pos (fold couple_token [0..<b_n_tokens b] ?c) s) =
        set (a_seq_pos ?c s) \<union> {a_pos ?c ! i | i. i \<in> set [0..<b_n_tokens b] \<and> s \<in> token_seq_set ?c i}"
    by (rule couple_tokens_seq_pos) (use fill_seq_id_rows[OF assms(1)] in auto)
  then show "sset_ok (a_seq_pos a s)" "set (a_seq_pos a s) = batch_positions a s"
    by (auto simp: a_def batch_positions_def st couple_sequences_def ts[unfolded a_def])
qed

lemma first_error_None: "first_error f xs = None \<longleftrightarrow> (\<forall>x \<in> set xs. f x = None)"
  by (induction xs) (auto split: option.splits)

lemma sset_interval:
  assumes ok: "sset_ok (xs :: int list)" and ne: "xs \<noteq> []"
  shows "last xs - hd xs + 1 \<le> int (length xs) \<longleftrightarrow> set xs = {hd xs..last xs}"
proof -
  have sub: "set xs \<subseteq> {hd xs..last xs}"
    using sset_begin[OF ok ne] sset_rbegin[OF ok ne] by auto
  have card: "card (set xs) = length xs" by (rule distinct_card[OF sset_ok_distinct[OF ok]])
  have "hd xs \<le> last xs" using sub ne by (metis atLeastAtMost_iff hd_in_set subsetD)
  then have int: "int (card {hd xs..last xs}) = last xs - hd xs + 1" by simp
  show ?thesis
  proof
    assume "last xs - hd xs + 1 \<le> int (length xs)"
    then have "card {hd xs..last xs} \<le> card (set xs)" using int card by linarith
    then show "set xs = {hd xs..last xs}" using sub by (metis card_seteq finite_atLeastAtMost_int)
  next
    assume "set xs = {hd xs..last xs}"
    with int card show "last xs - hd xs + 1 \<le> int (length xs)" by simp
  qed
qed

lemma ofirst_error_clear: "ofirst_error f xs = Some None \<longleftrightarrow> (\<forall>x \<in> set xs. f x = Some None)"
  by (induction xs) (auto split: option.splits)

lemma ofirst_error_total: "(\<And>x. x \<in> set xs \<Longrightarrow> f x \<noteq> None) \<Longrightarrow> ofirst_error f xs \<noteq> None"
  by (induction xs) (auto split: option.splits)

lemma check_seq_positions_iff:
  assumes "batch_wf b" and a_def: "a = init_stats (init_fill b ps n_embd n_seq_max output_all a0)"
  shows "check_seq_positions memory a s = Some None \<Longrightarrow> consecutive memory s (batch_positions a s)"
    "\<lbrakk>batch_positions a s \<subseteq> {0..<i32_max}; \<And>mem. memory = Some mem \<Longrightarrow> mem_pos_max mem s < i32_max\<rbrakk> \<Longrightarrow> check_seq_positions memory a s \<noteq> None"
    "\<lbrakk>consecutive memory s (batch_positions a s); batch_positions a s \<subseteq> {0..<i32_max}; \<And>mem. memory = Some mem \<Longrightarrow> mem_pos_max mem s < i32_max\<rbrakk> \<Longrightarrow>
      check_seq_positions memory a s = Some None"
proof -
  have *: "(check_seq_positions memory a s = Some None \<longrightarrow> consecutive memory s (batch_positions a s)) \<and>
    (batch_positions a s \<subseteq> {0..<i32_max} \<and> (\<forall>mem. memory = Some mem \<longrightarrow> mem_pos_max mem s < i32_max) \<longrightarrow>
      check_seq_positions memory a s \<noteq> None \<and> (consecutive memory s (batch_positions a s) \<longrightarrow> check_seq_positions memory a s = Some None))"
  proof (cases "a_seq_pos a s = []")
    case True
    then show ?thesis using init_stats_seq_pos(2)[OF assms, of s] by (simp add: consecutive_def check_seq_positions_def)
  next
    case ne: False
    let ?xs = "a_seq_pos a s"
    note P = init_stats_seq_pos[OF assms, of s]
    have bounds: "hd ?xs = lo \<and> last ?xs = hi" if "batch_positions a s = {lo..hi}" for lo hi
    proof -
      have "lo \<le> hi" using that P(2) ne by (metis atLeastatMost_empty_iff set_empty)
      then have "Min {lo..hi} = lo" "Max {lo..hi} = hi" by (auto intro: Min_eqI Max_eqI)
      then show ?thesis using sset_begin[OF P(1) ne] sset_rbegin[OF P(1) ne] that P(2) by simp
    qed
    have int: "last ?xs - hd ?xs + 1 \<le> int (length ?xs) \<longleftrightarrow> batch_positions a s = {hd ?xs..last ?xs}"
      using sset_interval[OF P(1) ne] P(2) by simp
    have "batch_positions a s \<noteq> {}" using P(2) ne by auto
    then have iff: "consecutive memory s (batch_positions a s) \<longleftrightarrow> last ?xs - hd ?xs + 1 \<le> int (length ?xs) \<and>
        (\<forall>mem. memory = Some mem \<and> mem_pos_max mem s \<ge> 0 \<longrightarrow> hd ?xs = mem_pos_max mem s + 1)"
    proof -
      let ?M = "\<lambda>lo. \<forall>mem. memory = Some mem \<and> mem_pos_max mem s \<ge> 0 \<longrightarrow> lo = mem_pos_max mem s + 1"
      have "(\<exists>lo hi. batch_positions a s = {lo..hi} \<and> ?M lo) \<longleftrightarrow> batch_positions a s = {hd ?xs..last ?xs} \<and> ?M (hd ?xs)"
      proof
        assume "\<exists>lo hi. batch_positions a s = {lo..hi} \<and> ?M lo"
        then obtain lo hi where l: "batch_positions a s = {lo..hi}" "?M lo" by (elim exE conjE)
        show "batch_positions a s = {hd ?xs..last ?xs} \<and> ?M (hd ?xs)" using l(2) unfolding bounds[OF l(1), THEN conjunct1] bounds[OF l(1), THEN conjunct2]
          by (intro conjI l(1))
      qed (intro exI)
      then show ?thesis unfolding int consecutive_def using \<open>batch_positions a s \<noteq> {}\<close> by argo
    qed
    have mem: "hd ?xs \<in> batch_positions a s" "last ?xs \<in> batch_positions a s" using hd_in_set[OF ne] last_in_set[OF ne] unfolding P(2) by blast+
    have d: "in_i32 (last ?xs - hd ?xs)" "in_i32 (last ?xs - hd ?xs + 1)" if "batch_positions a s \<subseteq> {0..<i32_max}"
      using subsetD[OF that mem(1)] subsetD[OF that mem(2)] by (auto simp: in_i32_def i32_max_def)
    have q: "in_i32 (p + 1)" if "0 \<le> p" "p < i32_max" for p using that by (simp add: in_i32_def i32_max_def)
    have eq: "check_seq_positions memory a s = (let p0 = (case memory of None \<Rightarrow> -1 | Some mem \<Rightarrow> mem_pos_max mem s) in do {
       ok \<leftarrow> (if p0 \<ge> 0 then do { p \<leftarrow> i32 (p0 + 1); Some (hd ?xs = p) } else Some True);
       if \<not> ok then Some (Some (NotConsecutive s))
       else do {
         d \<leftarrow> i32 (last ?xs - hd ?xs);
         n \<leftarrow> i32 (d + 1);
         Some (if n > int (length ?xs) then Some (NotContinuous s) else None) } })"
      using ne by (simp only: check_seq_positions_def allocr_seq_pos_min_def allocr_seq_pos_max_def if_False)
    show ?thesis
    proof (cases "\<exists>mem. memory = Some mem \<and> 0 \<le> mem_pos_max mem s")
      case True
      then obtain f g where m: "memory = Some (f, g)" "0 \<le> g s" by force
      then show ?thesis unfolding iff eq using d q[of "g s"] by (cases "hd ?xs = g s + 1") (auto simp: Let_def i32_def)
    next
      case False
      then have "(case memory of None \<Rightarrow> -1 | Some mem \<Rightarrow> mem_pos_max mem s) < 0" by (auto split: option.splits)
      then show ?thesis unfolding iff eq using d False by (simp add: Let_def i32_def) blast
    qed
  qed
  show "check_seq_positions memory a s = Some None \<Longrightarrow> consecutive memory s (batch_positions a s)"
    "\<lbrakk>batch_positions a s \<subseteq> {0..<i32_max}; \<And>mem. memory = Some mem \<Longrightarrow> mem_pos_max mem s < i32_max\<rbrakk> \<Longrightarrow> check_seq_positions memory a s \<noteq> None"
    "\<lbrakk>consecutive memory s (batch_positions a s); batch_positions a s \<subseteq> {0..<i32_max}; \<And>mem. memory = Some mem \<Longrightarrow> mem_pos_max mem s < i32_max\<rbrakk> \<Longrightarrow>
      check_seq_positions memory a s = Some None" using * by blast+
qed

lemma check_positions_iff:
  assumes "batch_wf b" "a = init_stats (init_fill b ps n_embd n_seq_max output_all a0)"
  shows "check_positions memory a = Some None \<Longrightarrow> s < n_seq_max \<Longrightarrow> consecutive memory s (batch_positions a s)"
    "\<lbrakk>\<And>s. s < n_seq_max \<Longrightarrow> batch_positions a s \<subseteq> {0..<i32_max}; \<And>mem s. memory = Some mem \<Longrightarrow> s < n_seq_max \<Longrightarrow> mem_pos_max mem s < i32_max\<rbrakk> \<Longrightarrow>
      check_positions memory a \<noteq> None"
    "\<lbrakk>\<And>s. s < n_seq_max \<Longrightarrow> consecutive memory s (batch_positions a s); \<And>s. s < n_seq_max \<Longrightarrow> batch_positions a s \<subseteq> {0..<i32_max};
      \<And>mem s. memory = Some mem \<Longrightarrow> s < n_seq_max \<Longrightarrow> mem_pos_max mem s < i32_max\<rbrakk> \<Longrightarrow> check_positions memory a = Some None"
proof -
  have n: "a_n_seq_max a = n_seq_max" by (simp add: assms(2) init_stats_fields)
  note C = check_seq_positions_iff[OF assms]
  show "check_positions memory a = Some None \<Longrightarrow> s < n_seq_max \<Longrightarrow> consecutive memory s (batch_positions a s)"
    using C(1)[of memory s] unfolding check_positions_def n ofirst_error_clear by simp
  show "check_positions memory a \<noteq> None" if "\<And>s. s < n_seq_max \<Longrightarrow> batch_positions a s \<subseteq> {0..<i32_max}"
    "\<And>mem s. memory = Some mem \<Longrightarrow> s < n_seq_max \<Longrightarrow> mem_pos_max mem s < i32_max"
    unfolding check_positions_def n by (rule ofirst_error_total, rule C(2)) (use that in auto)
  show "check_positions memory a = Some None" if "\<And>s. s < n_seq_max \<Longrightarrow> consecutive memory s (batch_positions a s)"
    "\<And>s. s < n_seq_max \<Longrightarrow> batch_positions a s \<subseteq> {0..<i32_max}" "\<And>mem s. memory = Some mem \<Longrightarrow> s < n_seq_max \<Longrightarrow> mem_pos_max mem s < i32_max"
    unfolding check_positions_def n ofirst_error_clear by (intro ballI C(3)) (use that in auto)
qed

lemma batch_positions_reset [simp]: "batch_positions (split_reset a) s = batch_positions a s"
  by (simp add: batch_positions_def)

text \<open>
  C10: With one position per token, an accepted batch gives every sequence it touches an
  interval of positions, which starts right after the last position that the memory holds for
  that sequence, if it holds one. A batch that breaks this for some sequence is rejected with an error,
  provided that its positions, given or generated, are not negative and that these and the last positions in the memory are below
  \<open>INT32_MAX\<close>, so that the computations of the check do not overflow.
\<close>

theorem init_positions:
  assumes wf: "batch_wf b" and np: "a_n_pos_per_embd a0 \<le> 1"
  shows "(\<forall>a. allocr_init b n_vocab memory n_embd n_seq_max output_all a0 = Some (Inr a) \<longrightarrow>
      (\<forall>s < n_seq_max. consecutive memory s (batch_positions a s))) \<and>
    (\<forall>pos a s. fill_pos memory n_seq_max b = Some pos \<and> a = init_stats (init_fill b pos n_embd n_seq_max output_all a0) \<and>
      (\<forall>t < n_seq_max. batch_positions a t \<subseteq> {0..<i32_max}) \<and> (\<forall>mem. memory = Some mem \<longrightarrow> (\<forall>t < n_seq_max. mem_pos_max mem t < i32_max)) \<and>
      s < n_seq_max \<and> \<not> consecutive memory s (batch_positions a s) \<longrightarrow>
      (\<exists>e. allocr_init b n_vocab memory n_embd n_seq_max output_all a0 = Some (Inl e)))"
proof (intro conjI allI impI)
  fix a s assume "allocr_init b n_vocab memory n_embd n_seq_max output_all a0 = Some (Inr a)" and s: "s < n_seq_max"
  then obtain ps where a: "init_check memory (init_stats (init_fill b ps n_embd n_seq_max output_all a0)) = Some None"
    "a = split_reset (init_stats (init_fill b ps n_embd n_seq_max output_all a0))" using allocr_init_Inr(5) by blast
  then have "check_positions memory (init_stats (init_fill b ps n_embd n_seq_max output_all a0)) = Some None"
    using np by (auto simp: init_check_def init_stats_fields bind_Some_iff split: option.splits)
  from check_positions_iff(1)[OF wf refl this s] show "consecutive memory s (batch_positions a s)" by (simp add: a(2))
next
  fix pos a s
  assume h: "fill_pos memory n_seq_max b = Some pos \<and> a = init_stats (init_fill b pos n_embd n_seq_max output_all a0) \<and>
      (\<forall>t < n_seq_max. batch_positions a t \<subseteq> {0..<i32_max}) \<and> (\<forall>mem. memory = Some mem \<longrightarrow> (\<forall>t < n_seq_max. mem_pos_max mem t < i32_max)) \<and>
      s < n_seq_max \<and> \<not> consecutive memory s (batch_positions a s)"
  then have a: "a = init_stats (init_fill b pos n_embd n_seq_max output_all a0)" by simp
  have "check_positions memory a \<noteq> None" by (rule check_positions_iff(2)[OF wf a]) (use h in auto)
  moreover have "check_positions memory a \<noteq> Some None" using check_positions_iff(1)[OF wf a] h by blast
  ultimately obtain e where e: "check_positions memory a = Some (Some e)" by auto
  have "0 < b_n_tokens b" using h by (auto simp: consecutive_def batch_positions_def init_stats_fields)
  with e h np show "\<exists>e. allocr_init b n_vocab memory n_embd n_seq_max output_all a0 = Some (Inl e)"
    by (auto simp: allocr_init_def init_check_def init_stats_fields Let_def split: option.splits)
qed

section \<open>Generated positions\<close>

text \<open>The positions without the bounds of \<open>int32_t\<close>, and that the loop computes them within these bounds.\<close>

definition next_pos :: "memory option \<Rightarrow> nat \<Rightarrow> llama_pos" where
  "next_pos memory s = (case memory of None \<Rightarrow> 0 | Some mem \<Rightarrow> mem_pos_max mem s + 1)"

fun plain_pos :: "nat list \<Rightarrow> llama_seq_id list list \<Rightarrow> nat list \<Rightarrow> (nat \<Rightarrow> llama_pos) \<Rightarrow> llama_pos list" where
  "plain_pos ns sid [] p0 = []"
| "plain_pos ns sid (i # is) p0 =
     (let p = p0 (nat (sid ! i ! 0));
          p0 = fold (\<lambda>s p0. p0(nat s := p + 1)) (tok_seqs ns sid i) p0
      in p # plain_pos ns sid is p0)"

lemma pos_start_Some:
  assumes "\<And>mem s. memory = Some mem \<Longrightarrow> s < n_seq_max \<Longrightarrow> in_i32 (mem_pos_max mem s + 1)"
  shows "\<exists>p0'. pos_start memory n_seq_max p0 = Some p0' \<and> (\<forall>s. p0' s = (if s < n_seq_max then next_pos memory s else p0 s))"
  unfolding pos_start_def
  by (rule ofold_upto) (use assms in \<open>auto simp: next_pos_def less_Suc_eq split: option.splits\<close>)

lemma gen_pos_plain:
  assumes "\<forall>p \<in> set (plain_pos ns sid is p0). in_i32 (p + 1)"
  shows "gen_pos ns sid is p0 = Some (plain_pos ns sid is p0)"
  using assms
proof (induction "is" arbitrary: p0)
  case (Cons i "is")
  then show ?case by (auto simp: Let_def ofold_pure i32_def)
qed simp

lemma plain_pos_single:
  assumes "\<forall>i \<in> set is. tok_seqs ns sid i = [sid ! i ! 0]" "k < length is"
  shows "plain_pos ns sid is p0 ! k = p0 (nat (sid ! (is ! k) ! 0)) +
    int (length (filter (\<lambda>j. nat (sid ! j ! 0) = nat (sid ! (is ! k) ! 0)) (take k is)))"
  using assms
proof (induction "is" arbitrary: p0 k)
  case (Cons i "is")
  then show ?case by (cases k) (auto simp: Let_def)
qed simp

lemma plain_pos_length [simp]: "length (plain_pos ns sid is p0) = length is"
  by (induction "is" arbitrary: p0) (auto simp: Let_def)

lemma filter_ranks:
  "(\<lambda>k. length (filter P (take k xs))) ` {k. k < length xs \<and> P (xs ! k)} = {..<length (filter P xs)}"
proof (induction xs rule: rev_induct)
  case (snoc x xs)
  have "{k. k < length (xs @ [x]) \<and> P ((xs @ [x]) ! k)} = {k. k < length xs \<and> P (xs ! k)} \<union> (if P x then {length xs} else {})"
    by (auto simp: nth_append less_Suc_eq)
  moreover have "(\<lambda>k. length (filter P (take k (xs @ [x])))) ` {k. k < length xs \<and> P (xs ! k)} = {..<length (filter P xs)}"
    unfolding snoc[symmetric] by (rule image_cong) auto
  ultimately show ?case by (auto simp: image_Un lessThan_Suc)
qed simp

lemma image_add_int_lessThan: "(\<lambda>r. c + int r) ` {..<n} = {c..<c + int n}"
proof
  show "{c..<c + int n} \<subseteq> (\<lambda>r. c + int r) ` {..<n}"
  proof
    fix x assume "x \<in> {c..<c + int n}"
    then have "x = c + int (nat (x - c))" "nat (x - c) \<in> {..<n}" by auto
    then show "x \<in> (\<lambda>r. c + int r) ` {..<n}" by blast
  qed
qed auto

text \<open>The sequence of a token that has exactly one, and its position when none is given.\<close>

definition tok_seq :: "llama_batch \<Rightarrow> nat \<Rightarrow> nat" where
  "tok_seq b i = nat (fill_seq_id b ! i ! 0)"

definition auto_pos :: "memory option \<Rightarrow> llama_batch \<Rightarrow> nat \<Rightarrow> llama_pos" where
  "auto_pos memory b i = next_pos memory (tok_seq b i) + int (length (filter (\<lambda>j. tok_seq b j = tok_seq b i) [0..<i]))"

definition single_seq :: "llama_batch \<Rightarrow> bool" where
  "single_seq b \<longleftrightarrow> batch_wf b \<and> (\<forall>i < b_n_tokens b. fill_n_seq_id b ! i = 1)"

lemma single_tok_seqs:
  assumes "single_seq b" "i < b_n_tokens b"
  shows "tok_seqs (fill_n_seq_id b) (fill_seq_id b) i = [fill_seq_id b ! i ! 0]"
  using assms fill_seq_id_rows[of b i] by (cases "fill_seq_id b ! i") (auto simp: tok_seqs_def single_seq_def)

text \<open>There is room for the batch below \<open>INT32_MAX\<close> in every sequence.\<close>

definition pos_room :: "memory option \<Rightarrow> nat \<Rightarrow> nat \<Rightarrow> bool" where
  "pos_room memory n_seq_max n \<longleftrightarrow> (\<forall>s < n_seq_max. 0 \<le> next_pos memory s \<and> next_pos memory s + int n \<le> i32_max)"

lemma fill_pos_auto:
  assumes "single_seq b" "b_pos b = None" "pos_room memory n_seq_max (b_n_tokens b)" "\<And>i. i < b_n_tokens b \<Longrightarrow> tok_seq b i < n_seq_max"
  shows "fill_pos memory n_seq_max b = Some (map (auto_pos memory b) [0..<b_n_tokens b])"
proof -
  have "in_i32 (mem_pos_max mem s + 1)" if "memory = Some mem" "s < n_seq_max" for mem s
  proof -
    have "0 \<le> next_pos memory s \<and> next_pos memory s + int (b_n_tokens b) \<le> i32_max" using assms(3) that(2) by (simp add: pos_room_def)
    then show ?thesis using that(1) by (auto simp: next_pos_def in_i32_def)
  qed
  from pos_start_Some[of memory n_seq_max "\<lambda>_. 0", OF this] obtain p0 where p0: "pos_start memory n_seq_max (\<lambda>_. 0) = Some p0"
    "\<forall>s < n_seq_max. p0 s = next_pos memory s" by auto
  let ?ps = "plain_pos (fill_n_seq_id b) (fill_seq_id b) [0..<b_n_tokens b] p0"
  have nth: "?ps ! i = auto_pos memory b i" if "i < b_n_tokens b" for i
    using that plain_pos_single[of "[0..<b_n_tokens b]" "fill_n_seq_id b" "fill_seq_id b" i p0] assms(1,4) p0(2)
    by (simp add: auto_pos_def tok_seq_def single_tok_seqs)
  have eq: "?ps = map (auto_pos memory b) [0..<b_n_tokens b]" using nth by (intro nth_equalityI) auto
  have "in_i32 (auto_pos memory b i + 1)" if "i < b_n_tokens b" for i
  proof -
    have "length (filter (\<lambda>j. tok_seq b j = tok_seq b i) [0..<i]) \<le> i" using length_filter_le[of _ "[0..<i]"] by simp
    then show ?thesis using assms(3) assms(4)[OF that] that by (fastforce simp: pos_room_def auto_pos_def in_i32_def)
  qed
  then have "gen_pos (fill_n_seq_id b) (fill_seq_id b) [0..<b_n_tokens b] p0 = Some ?ps" by (intro gen_pos_plain) (auto simp: eq)
  then show ?thesis using p0(1) assms(2) by (simp add: fill_pos_def eq)
qed

lemma auto_positions:
  assumes "single_seq b" "a = init_stats (init_fill b (map (auto_pos memory b) [0..<b_n_tokens b]) n_embd n_seq_max output_all a0)"
  shows "batch_positions a s = {next_pos memory s..<next_pos memory s + int (length (filter (\<lambda>i. tok_seq b i = s) [0..<b_n_tokens b]))}"
proof -
  let ?n = "b_n_tokens b" and ?r = "\<lambda>i. length (filter (\<lambda>j. tok_seq b j = s) [0..<i])"
  have ts: "token_seq_set a i = {tok_seq b i}" if "i < ?n" for i
    using single_tok_seqs[OF assms(1) that] by (simp add: assms(2) token_seq_set_def init_stats_fields tok_seq_def)
  have "batch_positions a s = (\<lambda>i. a_pos a ! i) ` {i. i < ?n \<and> tok_seq b i = s}"
  proof -
    have "a_n_tokens a = ?n" by (simp add: assms(2) init_stats_fields)
    then show ?thesis using ts by (auto simp: batch_positions_def)
  qed
  also have "\<dots> = (\<lambda>i. next_pos memory s + int (?r i)) ` {i. i < ?n \<and> tok_seq b i = s}"
    by (rule image_cong) (auto simp: assms(2) init_stats_fields auto_pos_def)
  also have "\<dots> = (\<lambda>r. next_pos memory s + int r) ` ?r ` {i. i < ?n \<and> tok_seq b i = s}"
    by (simp add: image_image)
  also have "?r ` {i. i < ?n \<and> tok_seq b i = s} = {..<?r ?n}"
  proof -
    have "{i. i < ?n \<and> tok_seq b i = s} = {i. i < length [0..<?n] \<and> tok_seq b ([0..<?n] ! i) = s}" by auto
    moreover have "?r i = length (filter (\<lambda>j. tok_seq b j = s) (take i [0..<?n]))" if "i < ?n" for i using that by simp
    ultimately show ?thesis unfolding filter_ranks[of "\<lambda>i. tok_seq b i = s" "[0..<?n]", symmetric]
      by (intro image_cong) auto
  qed
  also have "(\<lambda>r. next_pos memory s + int r) ` {..<?r ?n} = {next_pos memory s..<next_pos memory s + int (?r ?n)}"
    by (rule image_add_int_lessThan)
  finally show ?thesis .
qed

lemma couple_token_single:
  assumes "a_n_seq_id a ! i = 1"
  shows "a_seq_cpl (couple_token i a) = a_seq_cpl a"
  using assms by (simp add: couple_token_fold couple_one_def Let_def)

lemma couple_tokens_single:
  assumes "\<forall>i \<in> set is. a_n_seq_id a ! i = 1"
  shows "a_seq_cpl (fold couple_token is a) = a_seq_cpl a"
  using assms
proof (induction "is" arbitrary: a)
  case (Cons i "is")
  then show ?case by (simp add: couple_token_single couple_frameD[OF couple_frame_token])
qed simp

lemma check_coupled_none: "a_seq_cpl a = (\<lambda>_ _. False) \<Longrightarrow> check_coupled memory a = None"
  by (cases memory) (simp_all add: check_coupled_def first_error_None)

lemma check_subsets_single:
  assumes "\<forall>(i, q) \<in> set ps. a_seq_set a ! i = {nat q} \<and> a_pos a ! i \<ge> -1" "\<forall>(i, q) \<in> set ps. nat q \<in> cur (nat q)"
  shows "check_subsets a ps cur (\<lambda>_. -1) = None"
  using assms
proof (induction ps arbitrary: cur)
  case (Cons p ps)
  obtain i q where p: "p = (i, q)" by force
  have "check_subsets a ps (cur(nat q := {nat q})) (\<lambda>_. -1) = None"
    by (rule Cons.IH) (use Cons.prems in auto)
  moreover have "cur (nat q) \<inter> {nat q} = {nat q}" using Cons.prems(2) p by auto
  ultimately show ?case using Cons.prems(1) by (simp add: p Let_def)
qed simp

lemma init_auto_accepts:
  assumes "single_seq b" "b_pos b = None" "0 < b_n_tokens b" "n_seq_max \<le> LLAMA_MAX_SEQ" "a_n_pos_per_embd a0 \<le> 1"
    "check_tokens n_vocab b = None" "check_seq_ids n_seq_max b = None" "\<And>i. i < b_n_tokens b \<Longrightarrow> tok_seq b i < n_seq_max"
    "pos_room memory n_seq_max (b_n_tokens b)"
  shows "allocr_init b n_vocab memory n_embd n_seq_max output_all a0 =
    Some (Inr (split_reset (init_stats (init_fill b (map (auto_pos memory b) [0..<b_n_tokens b]) n_embd n_seq_max output_all a0))))"
proof -
  let ?f = "init_fill b (map (auto_pos memory b) [0..<b_n_tokens b]) n_embd n_seq_max output_all a0"
  let ?a = "init_stats ?f"
  note st = init_stats_fields[of ?f, simplified]
  have wf: "batch_wf b" and one: "\<forall>i < b_n_tokens b. fill_n_seq_id b ! i = 1" using assms(1) by (auto simp: single_seq_def)
  have start: "0 \<le> next_pos memory s" "next_pos memory s + int (b_n_tokens b) \<le> i32_max" if "s < n_seq_max" for s
    using assms(9) that by (auto simp: pos_room_def)
  let ?k = "\<lambda>s. length (filter (\<lambda>i. tok_seq b i = s) [0..<b_n_tokens b])"
  have ps: "batch_positions ?a s = {next_pos memory s..<next_pos memory s + int (?k s)}" for s using auto_positions[OF assms(1) refl] .
  have c1: "check_positions memory ?a = Some None"
  proof (rule check_positions_iff(3)[OF wf refl])
    fix s assume s: "s < n_seq_max"
    have "batch_positions ?a s = {next_pos memory s..next_pos memory s + int (?k s) - 1}" unfolding ps by auto
    then show "consecutive memory s (batch_positions ?a s)" unfolding consecutive_def by (auto simp: next_pos_def)
    have "?k s \<le> b_n_tokens b" using length_filter_le[of _ "[0..<b_n_tokens b]"] by simp
    then show "batch_positions ?a s \<subseteq> {0..<i32_max}" unfolding ps using start[OF s] by auto
    show "mem_pos_max mem s < i32_max" if "memory = Some mem" for mem using start(2)[OF s] that by (simp add: next_pos_def)
  qed
  have "a_seq_cpl ?a = (\<lambda>_ _. False)"
    using one by (simp add: st couple_sequences_def couple_tokens_single)
  then have c2: "check_coupled memory ?a = None" by (rule check_coupled_none)
  have c3: "check_subsets ?a (token_seq_pairs ?a) (\<lambda>_. {..<LLAMA_MAX_SEQ}) (\<lambda>_. -1) = None"
  proof (rule check_subsets_single)
    have pair: "i < b_n_tokens b \<and> q = fill_seq_id b ! i ! 0" if "(i, q) \<in> set (token_seq_pairs ?a)" for i q
      using that single_tok_seqs[OF assms(1)] by (auto simp: token_seq_pairs_def st)
    show "\<forall>(i, q) \<in> set (token_seq_pairs ?a). a_seq_set ?a ! i = {nat q} \<and> a_pos ?a ! i \<ge> -1"
    proof (intro ballI, clarsimp)
      fix i q assume "(i, q) \<in> set (token_seq_pairs ?a)"
      note p = pair[OF this]
      have "a_pos ?a ! i = auto_pos memory b i" using p by (simp add: st)
      moreover have "a_seq_set ?a ! i = {nat q}" using p single_tok_seqs[OF assms(1)] by (simp add: st token_seq_set_def)
      ultimately show "a_seq_set ?a ! i = {nat q} \<and> - 1 \<le> a_pos ?a ! i" using start(1)[of "tok_seq b i"] assms(8) p by (simp add: auto_pos_def)
    qed
    show "\<forall>(i, q) \<in> set (token_seq_pairs ?a). nat q \<in> {..<LLAMA_MAX_SEQ}"
      using pair assms(4,8)[unfolded tok_seq_def] by (auto dest!: pair intro: less_le_trans)
  qed
  show ?thesis
    using assms(3-7) c1 c2 c3 fill_pos_auto[OF assms(1,2,9,8)] by (simp add: allocr_init_def init_check_def Let_def st)
qed

text \<open>
  C11: A batch of valid tokens that gives no positions and puts each token in one valid
  sequence is always accepted, provided that every sequence has room for the batch below \<open>INT32_MAX\<close>
  (and the memory reports -1 or a position for it); each token gets the position that continues its sequence, after
  the last one in the memory (or from 0) and after the earlier tokens of that sequence.
\<close>

theorem init_auto_positions:
  assumes "single_seq b" "b_pos b = None" "0 < b_n_tokens b" "n_seq_max \<le> LLAMA_MAX_SEQ" "a_n_pos_per_embd a0 \<le> 1"
    "check_tokens n_vocab b = None" "check_seq_ids n_seq_max b = None" "\<And>i. i < b_n_tokens b \<Longrightarrow> tok_seq b i < n_seq_max"
    "pos_room memory n_seq_max (b_n_tokens b)"
  shows "\<exists>a. allocr_init b n_vocab memory n_embd n_seq_max output_all a0 = Some (Inr a) \<and>
    (\<forall>i < b_n_tokens b. a_pos a ! i = auto_pos memory b i)"
  using init_auto_accepts[OF assms, where n_embd = n_embd and output_all = output_all]
  by (simp add: init_stats_fields)

lemma check_subsets_not_decreasing:
  "\<forall>(i, q) \<in> set ps. a_pos a ! i \<ge> -1 \<Longrightarrow> check_subsets a ps cur (\<lambda>_. -1) \<noteq> Some (DecreasingPositions s)"
  by (induction ps arbitrary: cur) (auto simp: Let_def split: if_splits)

lemma first_error_not: "(\<And>x. f x \<noteq> Some e) \<Longrightarrow> first_error f xs \<noteq> Some e"
  by (induction xs) (auto split: option.splits)

lemma ofirst_error_not: "(\<And>x. f x \<noteq> Some (Some e)) \<Longrightarrow> ofirst_error f xs \<noteq> Some (Some e)"
  by (induction xs) (auto split: option.splits)

lemma init_check_not_decreasing:
  assumes "\<forall>i < a_n_tokens a. a_pos a ! i \<ge> -1"
  shows "init_check memory a \<noteq> Some (Some (DecreasingPositions s))"
proof -
  have "check_seq_positions memory a t \<noteq> Some (Some (DecreasingPositions s))" for t
    by (auto simp: check_seq_positions_def Let_def bind_Some_iff split: if_splits)
  then have "check_positions memory a \<noteq> Some (Some (DecreasingPositions s))" unfolding check_positions_def by (rule ofirst_error_not)
  moreover have "check_positions_mrope memory a \<noteq> Some (DecreasingPositions s)"
    unfolding check_positions_mrope_def by (rule first_error_not, simp add: Let_def)
  moreover have "check_coupled memory a \<noteq> Some (DecreasingPositions s)"
    unfolding check_coupled_def by (cases memory) (simp_all add: first_error_not)
  moreover have "check_subsets a (token_seq_pairs a) cur (\<lambda>_. -1) \<noteq> Some (DecreasingPositions s)" for cur
    by (rule check_subsets_not_decreasing) (use assms in \<open>auto simp: token_seq_pairs_def\<close>)
  ultimately show ?thesis by (auto simp: init_check_def bind_Some_iff split: option.splits)
qed

text \<open>
  The check for decreasing positions cannot fire: for positions that are not below
  -1, \<open>init\<close> never reports them, because \<open>cur_seq_pos\<close> is compared with and never updated.
\<close>

lemma init_never_decreasing:
  assumes "\<And>ps i. fill_pos memory n_seq_max b = Some ps \<Longrightarrow> i < b_n_tokens b \<Longrightarrow> ps ! i \<ge> -1"
  shows "allocr_init b n_vocab memory n_embd n_seq_max output_all a0 \<noteq> Some (Inl (DecreasingPositions s))"
proof -
  have "init_check memory (init_stats (init_fill b ps n_embd n_seq_max output_all a0)) \<noteq> Some (Some (DecreasingPositions s))"
    if "fill_pos memory n_seq_max b = Some ps" for ps
    using assms[OF that] by (intro init_check_not_decreasing) (simp add: init_stats_fields)
  moreover have "check_tokens n_vocab b \<noteq> Some (DecreasingPositions s)"
    unfolding check_tokens_def by (cases "b_token b") (simp_all add: first_error_not)
  moreover have "check_seq_ids n_seq_max b \<noteq> Some (DecreasingPositions s)"
    unfolding check_seq_ids_def by (cases "b_seq_id b") (simp_all add: first_error_not)
  ultimately show ?thesis by (auto simp: allocr_init_def Let_def bind_Some_iff split: option.splits if_splits)
qed

section \<open>Examples\<close>

text \<open>Two sequences with interleaved tokens, positions left to be generated.\<close>

definition example_batch :: llama_batch where
  "example_batch = \<lparr>b_n_tokens = 3, b_token = Some [7, 8, 9], b_embd = None, b_pos = None,
     b_n_seq_id = Some [1, 1, 1], b_seq_id = Some [[0], [1], [0]], b_logits = None\<rparr>"

definition example_allocr :: llama_batch_allocr where
  "example_allocr = split_reset (init_stats (init_fill example_batch [0, 0, 1] 4 2 False (allocr_new 1)))"

lemma example_wf: "batch_wf example_batch"
  by (auto simp: batch_wf_def example_batch_def less_Suc_eq numeral_3_eq_3)

lemma example_single: "single_seq example_batch"
  by (auto simp: single_seq_def example_wf) (auto simp: fill_n_seq_id_def example_batch_def less_Suc_eq numeral_3_eq_3)

lemma example_checks: "check_tokens 10 example_batch = None" "check_seq_ids 2 example_batch = None"
  by code_simp+

lemma example_tok_seq: "i < b_n_tokens example_batch \<Longrightarrow> tok_seq example_batch i < 2"
  by (auto simp: tok_seq_def fill_seq_id_def example_batch_def less_Suc_eq numeral_3_eq_3)

lemma example_auto: "map (auto_pos None example_batch) [0..<b_n_tokens example_batch] = [0, 0, 1]"
  by code_simp

lemma example_init: "allocr_init example_batch 10 None 4 2 False (allocr_new 1) = Some (Inr example_allocr)"
  unfolding example_allocr_def example_auto[symmetric]
  by (rule init_auto_accepts[OF example_single])
    (simp_all add: example_checks example_tok_seq, simp_all add: example_batch_def LLAMA_MAX_SEQ_def allocr_new_def pos_room_def next_pos_def i32_max_def)

theorem split_simple_partition_witness:
  "\<exists>us a'. split_loop (split_simple 2) example_allocr = Some (us, a') \<and> concat (map (the \<circ> ub_token) us) = [7, 8, 9] \<and>
     allocr_get_n_used a' = 3"
  using split_simple_partition[OF example_init example_wf, of "[7, 8, 9]" 2] by (auto simp: example_batch_def)

theorem split_equal_partition_witness:
  "\<exists>parts us a'. split_loop (split_equal 2 False) example_allocr = Some (us, a') \<and> set (concat parts) = {..<3} \<and>
     map (the \<circ> ub_token) us = map (map ((!) [7, 8, 9])) parts \<and> allocr_get_n_used a' = 3"
  using split_equal_partition[OF example_init example_wf, of "[7, 8, 9]" False 2]
  by (simp add: example_batch_def) blast

theorem split_seq_partition_witness:
  "\<exists>parts us a'. split_loop (split_seq 2) example_allocr = Some (us, a') \<and> set (concat parts) = {..<3} \<and>
     map (the \<circ> ub_token) us = map (map ((!) [7, 8, 9])) parts \<and> allocr_get_n_used a' = 3"
  using split_seq_partition[OF example_init example_wf, of "[7, 8, 9]" 2]
  by (simp add: example_batch_def) blast

text \<open>A gap between the positions of a sequence.\<close>

definition gap_batch :: llama_batch where
  "gap_batch = \<lparr>b_n_tokens = 2, b_token = Some [7, 8], b_embd = None, b_pos = Some [0, 2],
     b_n_seq_id = None, b_seq_id = None, b_logits = None\<rparr>"

theorem init_positions_witness:
  "consecutive None 0 (batch_positions example_allocr 0) \<and> consecutive None 1 (batch_positions example_allocr 1) \<and>
   (\<exists>e. allocr_init gap_batch 10 None 4 2 False (allocr_new 1) = Some (Inl e))"
proof -
  have np: "a_n_pos_per_embd (allocr_new 1) \<le> 1" by (simp add: allocr_new_def)
  have wf: "batch_wf gap_batch" by (simp add: batch_wf_def gap_batch_def)
  let ?a = "init_stats (init_fill gap_batch [0, 2] 4 2 False (allocr_new 1))"
  have p: "batch_positions ?a s = (if s = 0 then {0, 2} else {})" for s
  proof -
    have "token_seq_set ?a i = {0}" if "i < 2" for i
      using that by (simp add: token_seq_set_def tok_seqs_def init_stats_fields fill_n_seq_id_def fill_seq_id_def gap_batch_def)
    moreover have "a_n_tokens ?a = 2" "a_pos ?a = [0, 2]" by (simp_all add: init_stats_fields gap_batch_def)
    ultimately have "batch_positions ?a s = (if s = 0 then (!) [0, 2] ` {..<2} else {})" by (auto simp: batch_positions_def)
    moreover have "{..<2 :: nat} = {0, 1}" by auto
    ultimately show ?thesis by simp
  qed
  have gap: "\<not> consecutive None 0 (batch_positions ?a 0)"
  proof
    assume "consecutive None 0 (batch_positions ?a 0)"
    then obtain lo hi :: int where e: "{0, 2} = {lo..hi}" unfolding p consecutive_def by auto
    then have "0 \<in> {lo..hi}" "2 \<in> {lo..hi}" by (metis insertI1 insertI2)+
    then have "1 \<in> {lo..hi}" by simp
    then show False using e by (metis insertE one_neq_zero one_eq_numeral_iff semiring_norm(85) singletonD)
  qed
  have "fill_pos None 2 gap_batch = Some [0, 2]" by (simp add: fill_pos_def gap_batch_def)
  then have "\<exists>e. allocr_init gap_batch 10 None 4 2 False (allocr_new 1) = Some (Inl e)"
    using conjunct2[OF init_positions[OF wf np, of 10 None 4 2 False], rule_format, of "[0, 2]" ?a 0] gap p by (simp add: i32_max_def)
  moreover have "\<forall>s < 2. consecutive None s (batch_positions example_allocr s)"
    using conjunct1[OF init_positions[OF example_wf np, of 10 None 4 2 False]] example_init by blast
  ultimately show ?thesis by simp
qed

theorem init_auto_positions_witness:
  "\<exists>a. allocr_init example_batch 10 (Some (\<lambda>_. 0, \<lambda>_. 4)) 4 2 False (allocr_new 1) = Some (Inr a) \<and>
     a_pos a ! 0 = 5 \<and> a_pos a ! 1 = 5 \<and> a_pos a ! 2 = 6"
proof -
  have pos: "auto_pos (Some (\<lambda>_. 0, \<lambda>_. 4)) example_batch 0 = 5" "auto_pos (Some (\<lambda>_. 0, \<lambda>_. 4)) example_batch 1 = 5"
    "auto_pos (Some (\<lambda>_. 0, \<lambda>_. 4)) example_batch 2 = 6" by code_simp+
  have "b_pos example_batch = None" "b_n_tokens example_batch = 3" "2 \<le> LLAMA_MAX_SEQ" "a_n_pos_per_embd (allocr_new 1) \<le> 1"
    "pos_room (Some (\<lambda>_. 0, \<lambda>_. 4)) 2 3"
    by (simp_all add: example_batch_def LLAMA_MAX_SEQ_def allocr_new_def pos_room_def next_pos_def i32_max_def)
  then show ?thesis
    using init_auto_positions[OF example_single _ _ _ _ example_checks example_tok_seq, where memory = "Some (\<lambda>_. 0, \<lambda>_. 4)" and ?a0.0 = "allocr_new 1" and n_embd = 4 and output_all = False] pos
    by auto
qed

text \<open>
  The test for a gap overflows on the positions 0 and \<open>INT32_MAX\<close> of one sequence. With a result that wraps
  around, the batch would pass the test.
\<close>

definition wide_batch :: llama_batch where
  "wide_batch = gap_batch\<lparr>b_pos := Some [0, i32_max]\<rparr>"

lemma gap_test_overflows: "allocr_init wide_batch 10 None 4 2 False (allocr_new 1) = None"
  by code_simp

text \<open>Positions 1, 0 for one sequence: the batch that the comment in \<open>init\<close> calls invalid.\<close>

definition decreasing_batch :: llama_batch where
  "decreasing_batch = \<lparr>b_n_tokens = 2, b_token = Some [7, 8], b_embd = None, b_pos = Some [1, 0],
     b_n_seq_id = None, b_seq_id = None, b_logits = None\<rparr>"

lemma decreasing_accepted:
  "case allocr_init decreasing_batch 10 None 4 2 False (allocr_new 1) of Some (Inr a) \<Rightarrow> a_pos a = [1, 0] | _ \<Rightarrow> False"
  by code_simp

lemma init_never_decreasing_example:
  "allocr_init decreasing_batch 10 None 4 2 False (allocr_new 1) \<noteq> Some (Inl (DecreasingPositions 0))"
  by (rule init_never_decreasing) (auto simp: fill_pos_def decreasing_batch_def less_Suc_eq numeral_2_eq_2)

text \<open>With \<open>n_ubatch = 1\<close>, \<open>split_equal\<close> returns two tokens for two sequences.\<close>

lemma split_equal_exceeds: "ub_n_tokens (fst (split_equal 1 False example_allocr)) = 2"
  by code_simp

end
