(* ===== verification/Kv_Cache.thy ===== *)
theory Kv_Cache
  imports Kv_Cells Batch_Split
begin

text \<open>
  The KV cache (\<open>src/src/llama-kv-cache.cpp\<close>, \<open>llama-kv-cache.h\<close>): one array of cells and one
  search head per stream, and a map from sequences to streams. The sequence operations
  (\<open>seq_rm\<close>, \<open>seq_cp\<close>, \<open>seq_keep\<close>, \<open>seq_add\<close>, \<open>seq_div\<close>) sweep over the cells; \<open>find_slot\<close>,
  \<open>apply_ubatch\<close>, \<open>prepare\<close> and \<open>init_batch\<close> place ubatches. Tensors, buffers and the compute
  graph are left out: they do not influence the metadata. As for the cells, \<open>None\<close> is a failed
  assertion (or undefined behaviour), and here also a loop that does not end.
\<close>

section \<open>Data\<close>

datatype llama_swa_type = SWA_NONE | SWA_STANDARD | SWA_CHUNKED | SWA_SYMMETRIC

record stream_copy_info =
  sc_ssrc :: "nat list"
  sc_sdst :: "nat list"

record slot_info =
  si_s0 :: nat
  si_s1 :: nat
  si_strm :: "nat list"
  si_idxs :: "nat list list"

record llama_kv_cache =
  kc_n_seq_max :: nat
  kc_n_stream :: nat
  kc_n_pad :: nat
  kc_n_swa :: nat
  kc_swa_type :: llama_swa_type
  kc_n_pos :: nat
  kc_heads :: "nat list"
  kc_cells :: "llama_kv_cells list"
  kc_seq_to_stream :: "nat list"
  kc_sc_info :: stream_copy_info

definition sc_empty :: "stream_copy_info \<Rightarrow> bool option" where
  "sc_empty sc = do { assert_that (length (sc_ssrc sc) = length (sc_sdst sc)); Some (sc_ssrc sc = []) }"

subsection \<open>slot_info\<close>

definition slot_none :: slot_info where
  "slot_none = \<lparr>si_s0 = 0, si_s1 = 0, si_strm = [], si_idxs = []\<rparr>"

definition slot_head :: "slot_info \<Rightarrow> nat option" where
  "slot_head si = do {
     assert_that (length (si_idxs si) = 1);
     assert_that (hd (si_idxs si) \<noteq> []);
     Some (hd (hd (si_idxs si))) }"

definition slot_size :: "slot_info \<Rightarrow> nat option" where
  "slot_size si = do {
     assert_that (length (si_idxs si) = length (si_strm si));
     assert_that (si_idxs si \<noteq> []);
     Some (length (hd (si_idxs si))) }"

definition slot_n_stream :: "slot_info \<Rightarrow> nat" where
  "slot_n_stream si = length (si_strm si)"

definition slot_empty :: "slot_info \<Rightarrow> bool" where
  "slot_empty si \<longleftrightarrow> si_idxs si = []"

definition slot_is_contiguous :: "slot_info \<Rightarrow> bool" where
  "slot_is_contiguous si \<longleftrightarrow> (case si_idxs si of
       [] \<Rightarrow> True
     | xs # xss \<Rightarrow> if xs = [] then True else if xss \<noteq> [] then False
         else (\<forall>i < length xs. xs ! i = hd xs + i))"

subsection \<open>Construction\<close>

definition cache_new :: "bool \<Rightarrow> nat \<Rightarrow> nat \<Rightarrow> nat \<Rightarrow> nat \<Rightarrow> llama_swa_type \<Rightarrow> nat \<Rightarrow> llama_kv_cache option" where
  "cache_new unified kv_size n_seq_max n_pad n_swa swa_type n_pos =
    (let n_stream = (if unified then 1 else n_seq_max) in do {
     assert_that (n_pad \<noteq> 0 \<and> kv_size mod n_pad = 0);
     assert_that (n_stream = 1 \<or> n_stream = n_seq_max);
     Some \<lparr>kc_n_seq_max = n_seq_max, kc_n_stream = n_stream, kc_n_pad = n_pad, kc_n_swa = n_swa, kc_swa_type = swa_type,
       kc_n_pos = n_pos, kc_heads = replicate n_stream 0, kc_cells = replicate n_stream (cells_resize kv_size cells_new),
       kc_seq_to_stream = (if n_stream > 1 then [0..<n_stream] else replicate LLAMA_MAX_SEQ 0),
       kc_sc_info = \<lparr>sc_ssrc = [], sc_sdst = []\<rparr>\<rparr> })"

definition cache_clear :: "llama_kv_cache \<Rightarrow> llama_kv_cache" where
  "cache_clear k = k\<lparr>kc_cells := map cells_reset (kc_cells k), kc_heads := map (\<lambda>_. 0) (kc_heads k)\<rparr>"

section \<open>Sequence operations\<close>

text \<open>The default for an open position range.\<close>

definition range_lo :: "llama_pos \<Rightarrow> llama_pos" where
  "range_lo p0 = (if p0 < 0 then 0 else p0)"

definition range_hi :: "llama_pos \<Rightarrow> llama_pos" where
  "range_hi p1 = (if p1 < 0 then i32_max else p1)"

text \<open>\<open>v_cells[s]\<close> and \<open>v_heads[s]\<close> after a sweep over the cells of stream \<open>s\<close>.\<close>

definition put_stream :: "nat \<Rightarrow> nat \<Rightarrow> llama_kv_cells \<Rightarrow> llama_kv_cache \<Rightarrow> llama_kv_cache" where
  "put_stream s h c k = k\<lparr>kc_cells := (kc_cells k)[s := c], kc_heads := (kc_heads k)[s := h]\<rparr>"

text \<open>The head moves back to the first freed cell.\<close>

definition head_back :: "nat \<Rightarrow> nat \<Rightarrow> nat \<Rightarrow> nat" where
  "head_back n new_head head = (if new_head \<noteq> n \<and> new_head < head then new_head else head)"

text \<open>The stream of a sequence id, with the assertion on the id.\<close>

definition stream_of :: "llama_seq_id \<Rightarrow> llama_kv_cache \<Rightarrow> nat option" where
  "stream_of seq_id k = do {
     assert_that (0 \<le> seq_id);
     vget (kc_seq_to_stream k) (nat seq_id) }"

definition note_freed :: "nat \<Rightarrow> bool \<Rightarrow> nat \<Rightarrow> nat \<Rightarrow> nat" where
  "note_freed i freed n new_head = (if freed \<and> new_head = n then i else new_head)"

definition rm_body :: "llama_seq_id \<Rightarrow> llama_pos \<Rightarrow> llama_pos \<Rightarrow> nat \<Rightarrow> nat \<times> llama_kv_cells \<Rightarrow> (nat \<times> llama_kv_cells) option" where
  "rm_body seq_id p0 p1 i = (\<lambda>(new_head, c). do {
     inr \<leftarrow> cells_pos_in i p0 p1 c;
     if \<not> inr then Some (new_head, c)
     else do {
       has \<leftarrow> cells_seq_has i seq_id c;
       if \<not> has then Some (new_head, c)
       else do {
         (freed, c) \<leftarrow> cells_seq_rm i seq_id c;
         Some (note_freed i freed (cells_size c) new_head, c) } } })"

definition rm_any_body :: "llama_pos \<Rightarrow> llama_pos \<Rightarrow> nat \<Rightarrow> nat \<times> llama_kv_cells \<Rightarrow> (nat \<times> llama_kv_cells) option" where
  "rm_any_body p0 p1 i = (\<lambda>(new_head, c). do {
     inr \<leftarrow> cells_pos_in i p0 p1 c;
     if \<not> inr then Some (new_head, c)
     else do {
       c \<leftarrow> cells_rm i c;
       Some (note_freed i True (cells_size c) new_head, c) } })"

text \<open>A sweep: run the body over all cells of stream \<open>s\<close>, then fix the head with \<open>upd\<close>.\<close>

definition sweep :: "nat \<Rightarrow> (nat \<Rightarrow> nat \<times> llama_kv_cells \<Rightarrow> (nat \<times> llama_kv_cells) option) \<Rightarrow> (nat \<Rightarrow> nat \<Rightarrow> nat \<Rightarrow> nat) \<Rightarrow>
    llama_kv_cache \<Rightarrow> llama_kv_cache option" where
  "sweep s body upd k = do {
     c \<leftarrow> vget (kc_cells k) s;
     head \<leftarrow> vget (kc_heads k) s;
     (new_head, c) \<leftarrow> ofold body [0..<cells_size c] (cells_size c, c);
     Some (put_stream s (upd (cells_size c) new_head head) c k) }"

definition cache_seq_rm :: "llama_seq_id \<Rightarrow> llama_pos \<Rightarrow> llama_pos \<Rightarrow> llama_kv_cache \<Rightarrow> llama_kv_cache option" where
  "cache_seq_rm seq_id p0 p1 k = (let p0 = range_lo p0; p1 = range_hi p1 in
     if seq_id = -1 then ofold (\<lambda>s k. sweep s (rm_any_body p0 p1) head_back k) [0..<kc_n_stream k] k
     else do {
       s \<leftarrow> stream_of seq_id k;
       sweep s (rm_body seq_id p0 p1) head_back k })"

definition cp_body :: "llama_seq_id \<Rightarrow> llama_seq_id \<Rightarrow> llama_pos \<Rightarrow> llama_pos \<Rightarrow> nat \<Rightarrow> nat \<times> llama_kv_cells \<Rightarrow> (nat \<times> llama_kv_cells) option" where
  "cp_body src dst p0 p1 i = (\<lambda>(new_head, c). do {
     inr \<leftarrow> cells_pos_in i p0 p1 c;
     if \<not> inr then Some (new_head, c)
     else do {
       has \<leftarrow> cells_seq_has i src c;
       if \<not> has then Some (new_head, c)
       else do {
         c \<leftarrow> cells_seq_add i dst c;
         Some (new_head, c) } } })"

definition cache_get_size :: "llama_kv_cache \<Rightarrow> nat option" where
  "cache_get_size k = do {
     s \<leftarrow> vget (kc_seq_to_stream k) 0;
     c \<leftarrow> vget (kc_cells k) s;
     Some (cells_size c) }"

text \<open>The copy of one cell of the source stream \<open>c0\<close> to the destination stream \<open>c1\<close>.\<close>

definition cp_stream_body :: "llama_kv_cells \<Rightarrow> llama_seq_id \<Rightarrow> llama_seq_id \<Rightarrow> nat \<Rightarrow> llama_kv_cells \<Rightarrow> llama_kv_cells option" where
  "cp_stream_body c0 src dst i c1 = do {
     has \<leftarrow> cells_seq_has i src c0;
     if \<not> has then Some c1
     else do {
       pos \<leftarrow> cells_pos_get i c0;
       shift \<leftarrow> cells_get_shift i c0;
       ext \<leftarrow> cells_ext_get i c0;
       let pos = (if shift \<noteq> 0 then pos - shift else pos);
       assert_that (shift \<noteq> 0 \<longrightarrow> pos \<ge> 0);
       c1 \<leftarrow> cells_pos_set i pos c1;
       c1 \<leftarrow> cells_seq_add i dst c1;
       c1 \<leftarrow> (if shift \<noteq> 0 then do { (_, c1) \<leftarrow> cells_pos_add i shift c1; Some c1 } else Some c1);
       cells_ext_set i ext c1 } }"

definition cache_seq_cp :: "llama_seq_id \<Rightarrow> llama_seq_id \<Rightarrow> llama_pos \<Rightarrow> llama_pos \<Rightarrow> llama_kv_cache \<Rightarrow> llama_kv_cache option" where
  "cache_seq_cp src dst p0 p1 k = do {
     s0 \<leftarrow> stream_of src k;
     s1 \<leftarrow> stream_of dst k;
     if s0 = s1 then
       (if src = dst then Some k
        else sweep s0 (cp_body src dst (range_lo p0) (range_hi p1)) (\<lambda>_ _ head. head) k)
     else do {
       size \<leftarrow> cache_get_size k;
       assert_that (\<not> (p0 > 0 \<and> p0 + 1 < int size) \<and> \<not> (p1 > 0 \<and> p1 + 1 < int size));
       c0 \<leftarrow> vget (kc_cells k) s0;
       c1 \<leftarrow> vget (kc_cells k) s1;
       h0 \<leftarrow> vget (kc_heads k) s0;
       c1 \<leftarrow> ofold (cp_stream_body c0 src dst) [0..<cells_size c0] (cells_reset c1);
       Some (put_stream s1 h0 c1 k\<lparr>kc_sc_info := \<lparr>sc_ssrc = sc_ssrc (kc_sc_info k) @ [s0], sc_sdst = sc_sdst (kc_sc_info k) @ [s1]\<rparr>\<rparr>) } }"

definition keep_body :: "llama_seq_id \<Rightarrow> nat \<Rightarrow> nat \<times> llama_kv_cells \<Rightarrow> (nat \<times> llama_kv_cells) option" where
  "keep_body seq_id i = (\<lambda>(new_head, c). do {
     (freed, c) \<leftarrow> cells_seq_keep i seq_id c;
     Some (note_freed i freed (cells_size c) new_head, c) })"

definition cache_seq_keep :: "llama_seq_id \<Rightarrow> llama_kv_cache \<Rightarrow> llama_kv_cache option" where
  "cache_seq_keep seq_id k = do {
     s \<leftarrow> stream_of seq_id k;
     sweep s (keep_body seq_id) head_back k }"

definition add_body :: "llama_seq_id \<Rightarrow> llama_pos \<Rightarrow> llama_pos \<Rightarrow> llama_pos \<Rightarrow> nat \<Rightarrow> nat \<times> llama_kv_cells \<Rightarrow> (nat \<times> llama_kv_cells) option" where
  "add_body seq_id p0 p1 shift i = (\<lambda>(new_head, c). do {
     inr \<leftarrow> cells_pos_in i p0 p1 c;
     if \<not> inr then Some (new_head, c)
     else do {
       has \<leftarrow> cells_seq_has i seq_id c;
       if \<not> has then Some (new_head, c)
       else do {
         (freed, c) \<leftarrow> cells_pos_add i shift c;
         Some (note_freed i freed (cells_size c) new_head, c) } } })"

definition cache_seq_add :: "llama_seq_id \<Rightarrow> llama_pos \<Rightarrow> llama_pos \<Rightarrow> llama_pos \<Rightarrow> llama_kv_cache \<Rightarrow> llama_kv_cache option" where
  "cache_seq_add seq_id p0 p1 shift k = do {
     s \<leftarrow> stream_of seq_id k;
     assert_that (kc_n_pos k = 1);
     if shift = 0 then Some k
     else (let p0 = range_lo p0; p1 = range_hi p1 in
       if p0 = p1 then Some k
       else sweep s (add_body seq_id p0 p1 shift) (\<lambda>n new_head _. if new_head \<noteq> n then new_head else 0) k) }"

definition div_body :: "llama_seq_id \<Rightarrow> llama_pos \<Rightarrow> llama_pos \<Rightarrow> int \<Rightarrow> nat \<Rightarrow> nat \<times> llama_kv_cells \<Rightarrow> (nat \<times> llama_kv_cells) option" where
  "div_body seq_id p0 p1 d i = (\<lambda>(new_head, c). do {
     inr \<leftarrow> cells_pos_in i p0 p1 c;
     if \<not> inr then Some (new_head, c)
     else do {
       has \<leftarrow> cells_seq_has i seq_id c;
       if \<not> has then Some (new_head, c)
       else do {
         c \<leftarrow> cells_pos_div i d c;
         Some (new_head, c) } } })"

definition cache_seq_div :: "llama_seq_id \<Rightarrow> llama_pos \<Rightarrow> llama_pos \<Rightarrow> int \<Rightarrow> llama_kv_cache \<Rightarrow> llama_kv_cache option" where
  "cache_seq_div seq_id p0 p1 d k = do {
     s \<leftarrow> stream_of seq_id k;
     assert_that (kc_n_pos k = 1);
     if d = 1 then Some k
     else (let p0 = range_lo p0; p1 = range_hi p1 in
       if p0 = p1 then Some k
       else sweep s (div_body seq_id p0 p1 d) (\<lambda>_ _ head. head) k) }"

definition cache_seq_pos_min :: "llama_seq_id \<Rightarrow> llama_kv_cache \<Rightarrow> llama_pos option" where
  "cache_seq_pos_min seq_id k = do { s \<leftarrow> stream_of seq_id k; c \<leftarrow> vget (kc_cells k) s; cells_seq_pos_min seq_id c }"

definition cache_seq_pos_max :: "llama_seq_id \<Rightarrow> llama_kv_cache \<Rightarrow> llama_pos option" where
  "cache_seq_pos_max seq_id k = do { s \<leftarrow> stream_of seq_id k; c \<leftarrow> vget (kc_cells k) s; cells_seq_pos_max seq_id c }"

definition cache_get_has_shift :: "llama_kv_cache \<Rightarrow> bool" where
  "cache_get_has_shift k = fold (\<lambda>c r. r \<or> cells_get_has_shift c) (kc_cells k) False"

definition cache_reset_shift :: "llama_kv_cache \<Rightarrow> llama_kv_cache" where
  "cache_reset_shift k = k\<lparr>kc_cells := map cells_reset_shift (kc_cells k)\<rparr>"

section \<open>Sweeps\<close>

text \<open>
  Every sweep rewrites each cell on its own. A cell is its position, extra data, shift and
  sequence set; \<open>F\<close> says what becomes of a cell, \<open>E\<close> whether the sweep reports it as freed,
  \<open>H\<close> whether it raises \<open>has_shift\<close>, and \<open>valid\<close> when the body does not abort.
\<close>

type_synonym cell = "llama_pos \<times> llama_kv_cell_ext \<times> llama_pos \<times> nat set"

definition cell_at :: "llama_kv_cells \<Rightarrow> nat \<Rightarrow> cell" where
  "cell_at c i = (c_pos c ! i, c_ext c ! i, c_shift c ! i, c_seq c ! i)"

abbreviation cell_free :: cell where
  "cell_free \<equiv> (-1, ext_reset, 0, {})"

definition put_cell :: "nat \<Rightarrow> cell \<Rightarrow> bool \<Rightarrow> llama_kv_cells \<Rightarrow> llama_kv_cells \<Rightarrow> bool" where
  "put_cell i x h c c' \<longleftrightarrow> (case x of (p, e, d, b) \<Rightarrow> cell_put i p e d b h c c')"

lemma put_cellD:
  assumes "put_cell i x h c c'" "cells_ok c" "i < cells_size c"
  shows "cells_ok c'" "cells_size c' = cells_size c" "c_has_shift c' = h"
    "j < cells_size c \<Longrightarrow> cell_at c' j = (if j = i then x else cell_at c j)"
  using assms cells_okD(4-6)[OF assms(2), of i]
  by (auto simp: put_cell_def cell_put_def view_def cells_size_def cell_at_def split: prod.splits)

lemma put_cell_same: "\<lbrakk>cells_ok c; i < cells_size c\<rbrakk> \<Longrightarrow> put_cell i (cell_at c i) (c_has_shift c) c c"
  by (simp add: put_cell_def cell_at_def cell_put_def view_def)

definition first_freed :: "(cell \<Rightarrow> bool) \<Rightarrow> llama_kv_cells \<Rightarrow> nat \<Rightarrow> nat" where
  "first_freed E c n = length (takeWhile (\<lambda>i. \<not> E (cell_at c i)) [0..<n])"

lemma first_freed_Suc:
  "first_freed E c (Suc n) = (if first_freed E c n < n then first_freed E c n else if E (cell_at c n) then n else Suc n)"
proof (cases "\<exists>i < n. E (cell_at c i)")
  case True
  then have "first_freed E c n < n"
    using length_takeWhile_lt[of "\<lambda>i. \<not> E (cell_at c i)" "[0..<n]"] by (auto simp: first_freed_def)
  moreover have "first_freed E c (Suc n) = first_freed E c n"
    using True by (auto simp: first_freed_def takeWhile_append1)
  ultimately show ?thesis by simp
next
  case False
  then have "\<not> first_freed E c n < n"
    using length_takeWhile_lt[of "\<lambda>i. \<not> E (cell_at c i)" "[0..<n]"] by (auto simp: first_freed_def)
  with False show ?thesis by (auto simp: first_freed_def takeWhile_append)
qed

locale cell_sweep =
  fixes body :: "nat \<Rightarrow> nat \<times> llama_kv_cells \<Rightarrow> (nat \<times> llama_kv_cells) option"
    and F :: "cell \<Rightarrow> cell" and E H valid :: "cell \<Rightarrow> bool"
  assumes body_step: "\<lbrakk>cells_ok c; i < cells_size c; valid (cell_at c i)\<rbrakk> \<Longrightarrow>
    \<exists>c'. body i (nh, c) = Some (note_freed i (E (cell_at c i)) (cells_size c) nh, c') \<and>
      put_cell i (F (cell_at c i)) (c_has_shift c \<or> H (cell_at c i)) c c'"
begin

lemma sweep_cells:
  assumes ok: "cells_ok c" and val: "\<And>i. i < cells_size c \<Longrightarrow> valid (cell_at c i)"
  shows "\<exists>c'. ofold body [0..<cells_size c] (cells_size c, c) = Some (first_freed E c (cells_size c), c') \<and>
    cells_ok c' \<and> cells_size c' = cells_size c \<and> (\<forall>i < cells_size c. cell_at c' i = F (cell_at c i)) \<and>
    c_has_shift c' = (c_has_shift c \<or> (\<exists>i < cells_size c. H (cell_at c i)))"
proof -
  let ?n = "cells_size c"
  let ?P = "\<lambda>j (nh, c'). cells_ok c' \<and> cells_size c' = ?n \<and>
    (\<forall>i < ?n. cell_at c' i = (if i < j then F (cell_at c i) else cell_at c i)) \<and>
    c_has_shift c' = (c_has_shift c \<or> (\<exists>i < j. H (cell_at c i))) \<and>
    nh = (if first_freed E c j < j then first_freed E c j else ?n)"
  have "\<exists>t. ofold body [0..<?n] (?n, c) = Some t \<and> ?P ?n t"
  proof (rule ofold_upto[where P = ?P])
    show "?P 0 (?n, c)" using ok by simp
  next
    fix j t assume j: "j < ?n" and P: "?P j t"
    obtain nh c1 where t: "t = (nh, c1)" by force
    have c1: "cells_ok c1" "cells_size c1 = ?n" "cell_at c1 j = cell_at c j" using P j by (auto simp: t)
    then obtain c2 where step: "body j (nh, c1) = Some (note_freed j (E (cell_at c j)) ?n nh, c2)"
      and put: "put_cell j (F (cell_at c j)) (c_has_shift c1 \<or> H (cell_at c j)) c1 c2"
      using body_step[of c1 j nh] val[OF j] j by auto
    note D = put_cellD[OF put c1(1)]
    have "?P (Suc j) (note_freed j (E (cell_at c j)) ?n nh, c2)"
      using P D j c1 by (auto simp: t less_Suc_eq note_freed_def first_freed_Suc)
    with step t show "\<exists>t'. body j t = Some t' \<and> ?P (Suc j) t'" by blast
  qed
  then obtain nh c' where r: "ofold body [0..<?n] (?n, c) = Some (nh, c')" "?P ?n (nh, c')" by auto
  moreover have "nh = first_freed E c ?n"
    using r(2) length_takeWhile_le[of "\<lambda>i. \<not> E (cell_at c i)" "[0..<?n]"] by (auto simp: first_freed_def)
  ultimately show ?thesis by auto
qed

lemma sweep_spec:
  assumes "s < length (kc_cells k)" "s < length (kc_heads k)" "cells_ok (kc_cells k ! s)"
    and "\<And>i. i < cells_size (kc_cells k ! s) \<Longrightarrow> valid (cell_at (kc_cells k ! s) i)"
  shows "\<exists>c'. sweep s body upd k = Some (put_stream s
      (upd (cells_size (kc_cells k ! s)) (first_freed E (kc_cells k ! s) (cells_size (kc_cells k ! s))) (kc_heads k ! s)) c' k) \<and>
    cells_ok c' \<and> cells_size c' = cells_size (kc_cells k ! s) \<and>
    (\<forall>i < cells_size (kc_cells k ! s). cell_at c' i = F (cell_at (kc_cells k ! s) i)) \<and>
    c_has_shift c' = (c_has_shift (kc_cells k ! s) \<or> (\<exists>i < cells_size (kc_cells k ! s). H (cell_at (kc_cells k ! s) i)))"
  using sweep_cells[OF assms(3,4)] assms(1,2) by (auto simp: sweep_def)

end

section \<open>What the sweeps do to a cell\<close>

definition valid_seq_id :: "llama_seq_id \<Rightarrow> bool" where
  "valid_seq_id s \<longleftrightarrow> 0 \<le> s \<and> s < int LLAMA_MAX_SEQ"

definition hits :: "nat \<Rightarrow> llama_pos \<Rightarrow> llama_pos \<Rightarrow> cell \<Rightarrow> bool" where
  "hits s p0 p1 = (\<lambda>(p, e, d, b). p0 \<le> p \<and> p < p1 \<and> s \<in> b)"

definition rm_cell :: "nat \<Rightarrow> llama_pos \<Rightarrow> llama_pos \<Rightarrow> cell \<Rightarrow> cell" where
  "rm_cell s p0 p1 x = (if hits s p0 p1 x
     then case x of (p, e, d, b) \<Rightarrow> if b = {s} then cell_free else (p, e, d, b - {s}) else x)"

definition rm_frees :: "nat \<Rightarrow> llama_pos \<Rightarrow> llama_pos \<Rightarrow> cell \<Rightarrow> bool" where
  "rm_frees s p0 p1 x \<longleftrightarrow> hits s p0 p1 x \<and> snd (snd (snd x)) = {s}"

definition rm_any_cell :: "llama_pos \<Rightarrow> llama_pos \<Rightarrow> cell \<Rightarrow> cell" where
  "rm_any_cell p0 p1 x = (if p0 \<le> fst x \<and> fst x < p1 then cell_free else x)"

definition cp_cell_seq :: "nat \<Rightarrow> nat \<Rightarrow> llama_pos \<Rightarrow> llama_pos \<Rightarrow> cell \<Rightarrow> cell" where
  "cp_cell_seq s t p0 p1 x = (if hits s p0 p1 x then case x of (p, e, d, b) \<Rightarrow> (p, e, d, insert t b) else x)"

definition keep_cell :: "nat \<Rightarrow> cell \<Rightarrow> cell" where
  "keep_cell s x = (case x of (p, e, d, b) \<Rightarrow> if s \<in> b then (p, e, d, {s}) else if b \<noteq> {} then cell_free else x)"

definition add_cell :: "nat \<Rightarrow> llama_pos \<Rightarrow> llama_pos \<Rightarrow> llama_pos \<Rightarrow> cell \<Rightarrow> cell" where
  "add_cell s p0 p1 m x = (if hits s p0 p1 x
     then case x of (p, e, d, b) \<Rightarrow> if p + m < 0 then (-1, e, 0, {}) else (p + m, e, d + m, b) else x)"

definition div_cell :: "nat \<Rightarrow> llama_pos \<Rightarrow> llama_pos \<Rightarrow> int \<Rightarrow> cell \<Rightarrow> cell" where
  "div_cell s p0 p1 m x = (if hits s p0 p1 x
     then case x of (p, e, d, b) \<Rightarrow> (p div m, e, d + (p - p div m), b) else x)"

lemmas sweep_cell_defs =
  rm_cell_def rm_frees_def rm_any_cell_def cp_cell_seq_def keep_cell_def add_cell_def div_cell_def hits_def cell_at_def

lemma size_put: "cell_put i p e d b h c c' \<Longrightarrow> cells_size c' = cells_size c"
  by (simp add: cell_put_def view_def cells_size_def)

text \<open>The guard shared by the bodies of \<open>seq_rm\<close>, \<open>seq_cp\<close>, \<open>seq_add\<close> and \<open>seq_div\<close>.\<close>

lemma hit_guard:
  assumes "cells_ok c" "i < cells_size c" "valid_seq_id s"
  shows "Option.bind (cells_pos_in i p0 p1 c) (\<lambda>inr. if \<not> inr then Some x
      else Option.bind (cells_seq_has i s c) (\<lambda>has. if \<not> has then Some x else m)) =
    (if hits (nat s) p0 p1 (cell_at c i) then m else Some x)"
  using assms cells_okD(4)[OF assms(1), of i]
  by (auto simp: cells_pos_in_def cells_seq_has_def bit_test_def valid_seq_id_def hits_def cell_at_def cells_size_def)

lemma guarded_bodies:
  assumes "cells_ok c" "i < cells_size c" "valid_seq_id s"
  shows "rm_body s p0 p1 i (nh, c) = (if hits (nat s) p0 p1 (cell_at c i)
      then do { (freed, c) \<leftarrow> cells_seq_rm i s c; Some (note_freed i freed (cells_size c) nh, c) } else Some (nh, c))"
    "cp_body s t p0 p1 i (nh, c) = (if hits (nat s) p0 p1 (cell_at c i)
      then do { c \<leftarrow> cells_seq_add i t c; Some (nh, c) } else Some (nh, c))"
    "add_body s p0 p1 m i (nh, c) = (if hits (nat s) p0 p1 (cell_at c i)
      then do { (freed, c) \<leftarrow> cells_pos_add i m c; Some (note_freed i freed (cells_size c) nh, c) } else Some (nh, c))"
    "div_body s p0 p1 m i (nh, c) = (if hits (nat s) p0 p1 (cell_at c i)
      then do { c \<leftarrow> cells_pos_div i m c; Some (nh, c) } else Some (nh, c))"
  unfolding rm_body_def cp_body_def add_body_def div_body_def prod.case hit_guard[OF assms] by simp_all

lemma hits_used:
  assumes "cells_ok c" "i < cells_size c" "hits (nat s) p0 p1 (cell_at c i)"
  shows "c_pos c ! i \<noteq> -1" "nat s \<in> c_seq c ! i" "i < length (c_pos c)"
  using assms cells_okD(9)[OF assms(1), of i] by (auto simp: hits_def cell_at_def cells_size_def)

interpretation rm_sweep: cell_sweep "rm_body s p0 p1" "rm_cell (nat s) p0 p1" "rm_frees (nat s) p0 p1" "\<lambda>_. False"
  "\<lambda>_. valid_seq_id s"
proof
  fix c :: llama_kv_cells and i nh
  assume ok: "cells_ok c" and i: "i < cells_size c" and v: "valid_seq_id s"
  show "\<exists>c'. rm_body s p0 p1 i (nh, c) = Some (note_freed i (rm_frees (nat s) p0 p1 (cell_at c i)) (cells_size c) nh, c') \<and>
      put_cell i (rm_cell (nat s) p0 p1 (cell_at c i)) (c_has_shift c \<or> False) c c'"
  proof (cases "hits (nat s) p0 p1 (cell_at c i)")
    case True
    note U = hits_used[OF ok i True]
    from cells_seq_rm_spec[OF ok U(3) _ U(2)] v obtain c' where
      c': "cells_seq_rm i s c = Some (c_seq c ! i = {nat s}, c')"
      "if c_seq c ! i = {nat s} then cell_put i (-1) ext_reset 0 {} (c_has_shift c) c c'
       else cell_put i (c_pos c ! i) (c_ext c ! i) (c_shift c ! i) (c_seq c ! i - {nat s}) (c_has_shift c) c c'"
      by (auto simp: valid_seq_id_def)
    moreover have "cells_size c' = cells_size c" using c'(2) size_put by (metis (full_types))
    ultimately show ?thesis using True guarded_bodies[OF ok i v]
      by (auto simp: put_cell_def rm_cell_def rm_frees_def cell_at_def)
  next
    case False
    with put_cell_same[OF ok i] guarded_bodies[OF ok i v] show ?thesis
      by (auto simp: note_freed_def rm_cell_def rm_frees_def)
  qed
qed

interpretation rm_any_sweep: cell_sweep "rm_any_body p0 p1" "rm_any_cell p0 p1" "\<lambda>x. p0 \<le> fst x \<and> fst x < p1" "\<lambda>_. False"
  "\<lambda>_. 0 \<le> p0"
proof
  fix c :: llama_kv_cells and i nh
  assume ok: "cells_ok c" and i: "i < cells_size c" and v: "0 \<le> p0"
  let ?in = "p0 \<le> fst (cell_at c i) \<and> fst (cell_at c i) < p1"
  have i': "i < length (c_pos c)" using i by (simp add: cells_size_def)
  show "\<exists>c'. rm_any_body p0 p1 i (nh, c) = Some (note_freed i ?in (cells_size c) nh, c') \<and>
      put_cell i (rm_any_cell p0 p1 (cell_at c i)) (c_has_shift c \<or> False) c c'"
  proof (cases ?in)
    case True
    then have "c_pos c ! i \<noteq> -1" using v by (auto simp: cell_at_def)
    from cells_rm_spec[OF ok i' this] obtain c' where
      "cells_rm i c = Some c'" "cell_put i (-1) ext_reset 0 {} (c_has_shift c) c c'" by auto
    moreover from this(2) have "cells_size c' = cells_size c" by (rule size_put)
    ultimately show ?thesis using True i'
      by (auto simp: rm_any_body_def put_cell_def rm_any_cell_def cell_at_def cells_pos_in_def)
  next
    case False
    with put_cell_same[OF ok i] i' show ?thesis
      by (auto simp: rm_any_body_def note_freed_def rm_any_cell_def cells_pos_in_def) (auto simp: cell_at_def)
  qed
qed

interpretation cp_sweep: cell_sweep "cp_body s t p0 p1" "cp_cell_seq (nat s) (nat t) p0 p1" "\<lambda>_. False" "\<lambda>_. False"
  "\<lambda>x. valid_seq_id s \<and> valid_seq_id t \<and> (hits (nat s) p0 p1 x \<longrightarrow> nat t \<notin> snd (snd (snd x)))"
proof
  fix c :: llama_kv_cells and i nh
  assume ok: "cells_ok c" and i: "i < cells_size c"
    and v: "valid_seq_id s \<and> valid_seq_id t \<and> (hits (nat s) p0 p1 (cell_at c i) \<longrightarrow> nat t \<notin> snd (snd (snd (cell_at c i))))"
  show "\<exists>c'. cp_body s t p0 p1 i (nh, c) = Some (note_freed i False (cells_size c) nh, c') \<and>
      put_cell i (cp_cell_seq (nat s) (nat t) p0 p1 (cell_at c i)) (c_has_shift c \<or> False) c c'"
  proof (cases "hits (nat s) p0 p1 (cell_at c i)")
    case True
    note U = hits_used[OF ok i True]
    from cells_seq_add_spec[OF ok U(3,1), of t] v True show ?thesis using guarded_bodies[OF ok i, of s]
      by (auto simp: put_cell_def cp_cell_seq_def cell_at_def valid_seq_id_def note_freed_def)
  next
    case False
    with put_cell_same[OF ok i] guarded_bodies[OF ok i, of s] v show ?thesis
      by (auto simp: note_freed_def cp_cell_seq_def)
  qed
qed

interpretation keep_sweep: cell_sweep "keep_body s" "keep_cell (nat s)"
  "\<lambda>x. snd (snd (snd x)) \<noteq> {} \<and> nat s \<notin> snd (snd (snd x))" "\<lambda>_. False"
  "\<lambda>x. valid_seq_id s \<and> (fst x \<noteq> -1 \<longrightarrow> snd (snd (snd x)) \<noteq> {})"
proof
  fix c :: llama_kv_cells and i nh
  assume ok: "cells_ok c" and i: "i < cells_size c"
    and v: "valid_seq_id s \<and> (fst (cell_at c i) \<noteq> -1 \<longrightarrow> snd (snd (snd (cell_at c i))) \<noteq> {})"
  have i': "i < length (c_pos c)" using i by (simp add: cells_size_def)
  from cells_seq_keep_spec[OF ok i', of s] v obtain c' where
    c': "cells_seq_keep i s c = Some (c_seq c ! i \<noteq> {} \<and> nat s \<notin> c_seq c ! i, c')"
    "if nat s \<in> c_seq c ! i then cell_put i (c_pos c ! i) (c_ext c ! i) (c_shift c ! i) {nat s} (c_has_shift c) c c'
     else if c_seq c ! i \<noteq> {} then cell_put i (-1) ext_reset 0 {} (c_has_shift c) c c' else c' = c"
    by (auto simp: valid_seq_id_def cell_at_def)
  moreover have "cells_size c' = cells_size c" using c'(2) size_put by (metis (full_types))
  ultimately show "\<exists>c'. keep_body s i (nh, c) = Some (note_freed i (snd (snd (snd (cell_at c i))) \<noteq> {} \<and> nat s \<notin> snd (snd (snd (cell_at c i))))
        (cells_size c) nh, c') \<and> put_cell i (keep_cell (nat s) (cell_at c i)) (c_has_shift c \<or> False) c c'"
    using put_cell_same[OF ok i] by (auto simp: keep_body_def put_cell_def keep_cell_def cell_at_def split: if_splits)
qed

interpretation add_sweep: cell_sweep "add_body s p0 p1 m" "add_cell (nat s) p0 p1 m"
  "\<lambda>x. hits (nat s) p0 p1 x \<and> fst x + m < 0" "hits (nat s) p0 p1"
  "\<lambda>x. valid_seq_id s \<and> (hits (nat s) p0 p1 x \<longrightarrow> in_i32 (fst x + m) \<and> in_i32 (fst (snd (snd x)) + m))"
proof
  fix c :: llama_kv_cells and i nh
  assume ok: "cells_ok c" and i: "i < cells_size c" and v: "valid_seq_id s \<and> (hits (nat s) p0 p1 (cell_at c i) \<longrightarrow>
    in_i32 (fst (cell_at c i) + m) \<and> in_i32 (fst (snd (snd (cell_at c i))) + m))"
  show "\<exists>c'. add_body s p0 p1 m i (nh, c) = Some (note_freed i (hits (nat s) p0 p1 (cell_at c i) \<and> fst (cell_at c i) + m < 0) (cells_size c) nh, c') \<and>
      put_cell i (add_cell (nat s) p0 p1 m (cell_at c i)) (c_has_shift c \<or> hits (nat s) p0 p1 (cell_at c i)) c c'"
  proof (cases "hits (nat s) p0 p1 (cell_at c i)")
    case True
    note U = hits_used[OF ok i True]
    from cells_pos_add_spec[OF ok U(3,1), of m] v True obtain c' where
      c': "cells_pos_add i m c = Some (c_pos c ! i + m < 0, c')"
      "if c_pos c ! i + m < 0 then cell_put i (-1) (c_ext c ! i) 0 {} True c c'
       else cell_put i (c_pos c ! i + m) (c_ext c ! i) (c_shift c ! i + m) (c_seq c ! i) True c c'"
      by (auto simp: cell_at_def)
    moreover have "cells_size c' = cells_size c" using c'(2) size_put by (metis (full_types))
    ultimately show ?thesis using True guarded_bodies[OF ok i, of s] v
      by (auto simp: put_cell_def add_cell_def cell_at_def)
  next
    case False
    with put_cell_same[OF ok i] guarded_bodies[OF ok i, of s] v show ?thesis
      by (auto simp: note_freed_def add_cell_def)
  qed
qed

interpretation div_sweep: cell_sweep "div_body s p0 p1 m" "div_cell (nat s) p0 p1 m" "\<lambda>_. False" "hits (nat s) p0 p1"
  "\<lambda>x. valid_seq_id s \<and> 0 < m \<and> (hits (nat s) p0 p1 x \<longrightarrow> in_i32 (fst x div m) \<and> in_i32 (fst x - fst x div m) \<and>
     in_i32 (fst (snd (snd x)) + (fst x - fst x div m)))"
proof
  fix c :: llama_kv_cells and i nh
  assume ok: "cells_ok c" and i: "i < cells_size c" and v: "valid_seq_id s \<and> 0 < m \<and> (hits (nat s) p0 p1 (cell_at c i) \<longrightarrow>
    in_i32 (fst (cell_at c i) div m) \<and> in_i32 (fst (cell_at c i) - fst (cell_at c i) div m) \<and>
     in_i32 (fst (snd (snd (cell_at c i))) + (fst (cell_at c i) - fst (cell_at c i) div m)))"
  show "\<exists>c'. div_body s p0 p1 m i (nh, c) = Some (note_freed i False (cells_size c) nh, c') \<and>
      put_cell i (div_cell (nat s) p0 p1 m (cell_at c i)) (c_has_shift c \<or> hits (nat s) p0 p1 (cell_at c i)) c c'"
  proof (cases "hits (nat s) p0 p1 (cell_at c i)")
    case True
    note U = hits_used[OF ok i True]
    from cells_pos_div_spec[OF ok U(3,1), of m] v True show ?thesis using guarded_bodies[OF ok i, of s]
      by (auto simp: put_cell_def div_cell_def cell_at_def note_freed_def)
  next
    case False
    with put_cell_same[OF ok i] guarded_bodies[OF ok i, of s] v show ?thesis
      by (auto simp: note_freed_def div_cell_def)
  qed
qed

section \<open>The cache invariant\<close>

definition cache_ok :: "llama_kv_cache \<Rightarrow> bool" where
  "cache_ok k \<longleftrightarrow> length (kc_cells k) = kc_n_stream k \<and> length (kc_heads k) = kc_n_stream k \<and>
     (\<forall>c \<in> set (kc_cells k). cells_ok c) \<and> (\<forall>s \<in> set (kc_seq_to_stream k). s < kc_n_stream k) \<and>
     length (kc_seq_to_stream k) \<le> LLAMA_MAX_SEQ \<and>
     (\<forall>s < kc_n_stream k. kc_heads k ! s \<le> cells_size (kc_cells k ! s))"

abbreviation cells_of :: "llama_kv_cache \<Rightarrow> nat \<Rightarrow> llama_kv_cells" where
  "cells_of k t \<equiv> kc_cells k ! (kc_seq_to_stream k ! t)"

abbreviation known_seq :: "llama_kv_cache \<Rightarrow> llama_seq_id \<Rightarrow> bool" where
  "known_seq k s \<equiv> 0 \<le> s \<and> s < int (length (kc_seq_to_stream k))"

text \<open>The positions a sequence has in the cache: those of its cells in its stream.\<close>

definition cache_positions :: "llama_kv_cache \<Rightarrow> nat \<Rightarrow> llama_pos set" where
  "cache_positions k t = (if t < length (kc_seq_to_stream k) then seq_positions (cells_of k t) t else {})"

lemma stream_of_known: "known_seq k s \<Longrightarrow> stream_of s k = Some (kc_seq_to_stream k ! nat s)"
  by (auto simp: stream_of_def nat_less_iff)

lemma cache_okD:
  assumes "cache_ok k" "known_seq k s"
  shows "kc_seq_to_stream k ! nat s < length (kc_cells k)" "kc_seq_to_stream k ! nat s < length (kc_heads k)"
    "cells_ok (cells_of k (nat s))" "valid_seq_id s" "kc_seq_to_stream k ! nat s < kc_n_stream k"
  using assms nth_mem[of "nat s" "kc_seq_to_stream k"]
  by (auto simp: cache_ok_def valid_seq_id_def nat_less_iff)

lemma seq_positions_cell: "seq_positions c t = {fst (cell_at c i) | i. i < cells_size c \<and> t \<in> snd (snd (snd (cell_at c i)))}"
  by (simp add: seq_positions_def cell_at_def cells_size_def)

lemma first_freed_le: "first_freed E c n \<le> n"
  unfolding first_freed_def using length_takeWhile_le[of "\<lambda>i. \<not> E (cell_at c i)" "[0..<n]"] by simp

lemma head_back_le: "\<lbrakk>h \<le> n\<rbrakk> \<Longrightarrow> head_back n nh h \<le> n"
  by (auto simp: head_back_def)

lemma put_stream_ok:
  assumes "cache_ok k" "st < kc_n_stream k" "cells_ok c'" "cells_size c' = cells_size (kc_cells k ! st)" "h \<le> cells_size c'"
  shows "cache_ok (put_stream st h c' k)"
  using assms by (auto simp: cache_ok_def put_stream_def nth_list_update dest!: set_update_subset_insert[THEN subsetD])

lemma put_stream_fields [simp]:
  "kc_seq_to_stream (put_stream st h c k) = kc_seq_to_stream k" "kc_n_stream (put_stream st h c k) = kc_n_stream k"
  "kc_cells (put_stream st h c k) = (kc_cells k)[st := c]" "kc_heads (put_stream st h c k) = (kc_heads k)[st := h]"
  "kc_n_pos (put_stream st h c k) = kc_n_pos k"
  by (simp_all add: put_stream_def)

interpretation kv_cache: seq_memory cache_ok cache_positions cache_seq_pos_min cache_seq_pos_max known_seq
proof
  fix k :: llama_kv_cache and t p
  assume ok: "cache_ok k"
  have c: "cells_ok (cells_of k t)" if "t < length (kc_seq_to_stream k)"
    using cache_okD(3)[OF ok, of "int t"] that by simp
  then show "finite (cache_positions k t)" using kv_cells.positions_finite by (simp add: cache_positions_def)
  show "p \<in> cache_positions k t \<Longrightarrow> 0 \<le> p"
    using c kv_cells.positions_nonneg[of "cells_of k t" p t] by (auto simp: cache_positions_def split: if_splits)
next
  fix k :: llama_kv_cache and s
  assume A: "cache_ok k" "known_seq k s"
  note D = cache_okD[OF A]
  have s: "0 \<le> s" "s < int LLAMA_MAX_SEQ" using D(4) by (auto simp: valid_seq_id_def)
  show "cache_seq_pos_min s k = Some (if cache_positions k (nat s) = {} then -1 else Min (cache_positions k (nat s)))"
    using A(2) D cells_seq_pos_min_eq[OF D(3) s] by (simp add: cache_seq_pos_min_def stream_of_known cache_positions_def nat_less_iff)
  show "cache_seq_pos_max s k = Some (if cache_positions k (nat s) = {} then -1 else Max (cache_positions k (nat s)))"
    using A(2) D cells_seq_pos_max_eq[OF D(3) s] by (simp add: cache_seq_pos_max_def stream_of_known cache_positions_def nat_less_iff)
qed

text \<open>
  A cache that differs from \<open>k\<close> only in the cells of stream \<open>st\<close>, which were rewritten by \<open>F\<close>,
  and possibly in the head of that stream.
\<close>

definition rewritten :: "nat \<Rightarrow> (cell \<Rightarrow> cell) \<Rightarrow> llama_kv_cache \<Rightarrow> llama_kv_cache \<Rightarrow> bool" where
  "rewritten st F k k' \<longleftrightarrow> cache_ok k' \<and> kc_seq_to_stream k' = kc_seq_to_stream k \<and> kc_n_stream k' = kc_n_stream k \<and>
     (\<forall>s < kc_n_stream k. s \<noteq> st \<longrightarrow> kc_cells k' ! s = kc_cells k ! s \<and> kc_heads k' ! s = kc_heads k ! s) \<and>
     cells_size (kc_cells k' ! st) = cells_size (kc_cells k ! st) \<and>
     (\<forall>i < cells_size (kc_cells k ! st). cell_at (kc_cells k' ! st) i = F (cell_at (kc_cells k ! st) i))"

lemma rewritten_put:
  assumes "cache_ok k" "st < kc_n_stream k" "cells_ok c'" "cells_size c' = cells_size (kc_cells k ! st)" "h \<le> cells_size c'"
    "\<forall>i < cells_size (kc_cells k ! st). cell_at c' i = F (cell_at (kc_cells k ! st) i)"
  shows "rewritten st F k (put_stream st h c' k)"
  using put_stream_ok[OF assms(1-5)] assms by (auto simp: rewritten_def cache_ok_def)

lemma seq_positions_rewritten:
  assumes "cells_size c' = cells_size c" "\<forall>i < cells_size c. cell_at c' i = F (cell_at c i)"
  shows "seq_positions c' t = {fst (F (cell_at c i)) | i. i < cells_size c \<and> t \<in> snd (snd (snd (F (cell_at c i))))}"
  unfolding seq_positions_cell using assms by auto (metis+)

lemma rewritten_positions:
  assumes r: "rewritten (kc_seq_to_stream k ! s) F k k'" and s: "s < length (kc_seq_to_stream k)"
    and t: "t < length (kc_seq_to_stream k)" and ok: "cache_ok k"
  shows "cache_positions k' t = (if kc_seq_to_stream k ! t = kc_seq_to_stream k ! s
    then {fst (F (cell_at (cells_of k t) i)) | i. i < cells_size (cells_of k t) \<and> t \<in> snd (snd (snd (F (cell_at (cells_of k t) i))))}
    else cache_positions k t)"
proof (cases "kc_seq_to_stream k ! t = kc_seq_to_stream k ! s")
  case True
  then have "seq_positions (kc_cells k' ! (kc_seq_to_stream k ! t)) t =
      {fst (F (cell_at (cells_of k t) i)) | i. i < cells_size (cells_of k t) \<and> t \<in> snd (snd (snd (F (cell_at (cells_of k t) i))))}"
    using r by (intro seq_positions_rewritten) (auto simp: rewritten_def)
  then show ?thesis using r t True by (simp add: cache_positions_def rewritten_def)
next
  case False
  have "kc_seq_to_stream k ! t < kc_n_stream k" using ok t by (simp add: cache_ok_def)
  with False r t show ?thesis by (simp add: cache_positions_def rewritten_def)
qed

section \<open>Effect of the sequence operations\<close>

lemma cache_ok_heads: "\<lbrakk>cache_ok k; st < kc_n_stream k\<rbrakk> \<Longrightarrow> kc_heads k ! st \<le> cells_size (kc_cells k ! st)"
  by (simp add: cache_ok_def)

lemma sweep_rewritten:
  assumes sw: "cell_sweep body F E H valid" and ok: "cache_ok k" and st: "st < kc_n_stream k"
    and val: "\<And>i. i < cells_size (kc_cells k ! st) \<Longrightarrow> valid (cell_at (kc_cells k ! st) i)"
    and upd: "\<And>nh h. \<lbrakk>nh \<le> cells_size (kc_cells k ! st); h \<le> cells_size (kc_cells k ! st)\<rbrakk>
      \<Longrightarrow> upd (cells_size (kc_cells k ! st)) nh h \<le> cells_size (kc_cells k ! st)"
  shows "\<exists>k'. sweep st body upd k = Some k' \<and> rewritten st F k k' \<and>
    c_has_shift (kc_cells k' ! st) = (c_has_shift (kc_cells k ! st) \<or> (\<exists>i < cells_size (kc_cells k ! st). H (cell_at (kc_cells k ! st) i)))"
proof -
  let ?c = "kc_cells k ! st"
  have len: "st < length (kc_cells k)" "st < length (kc_heads k)" and c: "cells_ok ?c"
    using ok st by (auto simp: cache_ok_def)
  from cell_sweep.sweep_spec[OF sw len c, of upd] val obtain c' where
    c': "sweep st body upd k = Some (put_stream st (upd (cells_size ?c) (first_freed E ?c (cells_size ?c)) (kc_heads k ! st)) c' k)"
    "cells_ok c'" "cells_size c' = cells_size ?c" "\<forall>i < cells_size ?c. cell_at c' i = F (cell_at ?c i)"
    "c_has_shift c' = (c_has_shift ?c \<or> (\<exists>i < cells_size ?c. H (cell_at ?c i)))" by auto
  have "upd (cells_size ?c) (first_freed E ?c (cells_size ?c)) (kc_heads k ! st) \<le> cells_size c'"
    using upd[OF first_freed_le cache_ok_heads[OF ok st]] c'(3) by simp
  from rewritten_put[OF ok st c'(2,3) this c'(4)] c'(1,5) len show ?thesis by auto
qed

lemma known_nat: "known_seq k s \<Longrightarrow> nat s < length (kc_seq_to_stream k)"
  by (simp add: nat_less_iff)

lemma cache_seq_rm_one:
  assumes "cache_ok k" "known_seq k s"
  shows "\<exists>k'. cache_seq_rm s p0 p1 k = Some k' \<and>
    rewritten (kc_seq_to_stream k ! nat s) (rm_cell (nat s) (range_lo p0) (range_hi p1)) k k'"
  using sweep_rewritten[OF rm_sweep.cell_sweep_axioms assms(1) cache_okD(5)[OF assms],
      of s head_back "range_lo p0" "range_hi p1"] assms cache_okD(4)[OF assms]
  by (auto simp: cache_seq_rm_def stream_of_known head_back_le)

lemma cache_seq_rm_any:
  assumes "cache_ok k"
  shows "\<exists>k'. cache_seq_rm (-1) p0 p1 k = Some k' \<and> cache_ok k' \<and> kc_seq_to_stream k' = kc_seq_to_stream k \<and>
    (\<forall>s < kc_n_stream k. cells_size (kc_cells k' ! s) = cells_size (kc_cells k ! s) \<and>
      (\<forall>i < cells_size (kc_cells k ! s). cell_at (kc_cells k' ! s) i = rm_any_cell (range_lo p0) (range_hi p1) (cell_at (kc_cells k ! s) i)))"
proof -
  let ?F = "rm_any_cell (range_lo p0) (range_hi p1)" and ?n = "kc_n_stream k"
  let ?P = "\<lambda>j k'. cache_ok k' \<and> kc_seq_to_stream k' = kc_seq_to_stream k \<and> kc_n_stream k' = ?n \<and>
    (\<forall>s < ?n. cells_size (kc_cells k' ! s) = cells_size (kc_cells k ! s) \<and>
      (\<forall>i < cells_size (kc_cells k ! s). cell_at (kc_cells k' ! s) i = (if s < j then ?F (cell_at (kc_cells k ! s) i) else cell_at (kc_cells k ! s) i)))"
  have lo: "0 \<le> range_lo p0" by (simp add: range_lo_def)
  have "\<exists>k'. ofold (\<lambda>s k. sweep s (rm_any_body (range_lo p0) (range_hi p1)) head_back k) [0..<?n] k = Some k' \<and> ?P ?n k'"
  proof (rule ofold_upto[where P = ?P])
    show "?P 0 k" using assms by simp
  next
    fix j k1 assume j: "j < ?n" and P: "?P j k1"
    then have "cache_ok k1" "j < kc_n_stream k1" by auto
    from sweep_rewritten[OF rm_any_sweep.cell_sweep_axioms this, of "range_lo p0" head_back "range_hi p1"] lo
    obtain k2 where k2: "sweep j (rm_any_body (range_lo p0) (range_hi p1)) head_back k1 = Some k2" "rewritten j ?F k1 k2"
      by (auto simp: head_back_le)
    moreover have "?P (Suc j) k2"
      using P k2(2) by (auto simp: rewritten_def less_Suc_eq)
    ultimately show "\<exists>k2. sweep j (rm_any_body (range_lo p0) (range_hi p1)) head_back k1 = Some k2 \<and> ?P (Suc j) k2" by blast
  qed
  then show ?thesis by (auto simp: cache_seq_rm_def)
qed

abbreviation cell_seqs :: "cell \<Rightarrow> nat set" where
  "cell_seqs x \<equiv> snd (snd (snd x))"

text \<open>A rewriting that keeps sequence \<open>t\<close> in the cells whose position satisfies \<open>Q\<close> and moves them by \<open>g\<close>.\<close>

lemma positions_moved:
  assumes F: "\<And>x. t \<in> cell_seqs (F x) \<longleftrightarrow> t \<in> cell_seqs x \<and> Q (fst x)" "\<And>x. t \<in> cell_seqs (F x) \<Longrightarrow> fst (F x) = g (fst x)"
  shows "{fst (F (cell_at c i)) | i. i < n \<and> t \<in> cell_seqs (F (cell_at c i))} =
    g ` {p \<in> {fst (cell_at c i) | i. i < n \<and> t \<in> cell_seqs (cell_at c i)}. Q p}"
proof -
  have "{fst (F (cell_at c i)) | i. i < n \<and> t \<in> cell_seqs (F (cell_at c i))} =
      (\<lambda>i. fst (F (cell_at c i))) ` {i. i < n \<and> t \<in> cell_seqs (F (cell_at c i))}" by blast
  also have "\<dots> = (\<lambda>i. g (fst (cell_at c i))) ` {i. i < n \<and> t \<in> cell_seqs (cell_at c i) \<and> Q (fst (cell_at c i))}"
    by (rule image_cong) (auto simp: F(1)[symmetric] intro: F(2) simp flip: F(1))
  also have "\<dots> = g ` {p \<in> {fst (cell_at c i) | i. i < n \<and> t \<in> cell_seqs (cell_at c i)}. Q p}" by auto
  finally show ?thesis .
qed

lemma positions_removed:
  assumes "\<And>x. t \<in> cell_seqs (F x) \<longleftrightarrow> t \<in> cell_seqs x \<and> fst x \<notin> R" "\<And>x. t \<in> cell_seqs (F x) \<Longrightarrow> fst (F x) = fst x"
  shows "{fst (F (cell_at c i)) | i. i < n \<and> t \<in> cell_seqs (F (cell_at c i))} = {fst (cell_at c i) | i. i < n \<and> t \<in> cell_seqs (cell_at c i)} - R"
  using positions_moved[of t F "\<lambda>p. p \<notin> R" "\<lambda>p. p" c n, OF assms] by auto

text \<open>
  C13: \<open>seq_rm\<close> never aborts on a well-formed cache and a known sequence (or -1); it removes from
  the sequence (from every sequence) exactly the positions in the range and leaves the
  positions of the others alone.
\<close>

theorem seq_rm_effect:
  assumes ok: "cache_ok k" and s: "known_seq k s \<or> s = -1"
  shows "\<exists>k'. cache_seq_rm s p0 p1 k = Some k' \<and> cache_ok k' \<and>
    (\<forall>t < length (kc_seq_to_stream k). cache_positions k' t =
      cache_positions k t - (if s = int t \<or> s = -1 then {range_lo p0..<range_hi p1} else {}))"
proof (cases "s = -1")
  case True
  obtain k' where k': "cache_seq_rm (-1) p0 p1 k = Some k'" "cache_ok k'" "kc_seq_to_stream k' = kc_seq_to_stream k"
    "\<forall>s < kc_n_stream k. cells_size (kc_cells k' ! s) = cells_size (kc_cells k ! s) \<and>
      (\<forall>i < cells_size (kc_cells k ! s). cell_at (kc_cells k' ! s) i = rm_any_cell (range_lo p0) (range_hi p1) (cell_at (kc_cells k ! s) i))"
    using cache_seq_rm_any[OF ok] by blast
  have "cache_positions k' t = cache_positions k t - {range_lo p0..<range_hi p1}" if t: "t < length (kc_seq_to_stream k)" for t
  proof -
    have "kc_seq_to_stream k ! t < kc_n_stream k" using ok t by (simp add: cache_ok_def)
    with k'(4) have "cells_size (kc_cells k' ! (kc_seq_to_stream k ! t)) = cells_size (cells_of k t)"
      "\<forall>i < cells_size (cells_of k t). cell_at (kc_cells k' ! (kc_seq_to_stream k ! t)) i =
        rm_any_cell (range_lo p0) (range_hi p1) (cell_at (cells_of k t) i)" by auto
    from seq_positions_rewritten[OF this, of t]
    have "seq_positions (kc_cells k' ! (kc_seq_to_stream k ! t)) t = seq_positions (cells_of k t) t - {range_lo p0..<range_hi p1}"
      unfolding seq_positions_cell[of "cells_of k t"]
      by (rule trans) (rule positions_removed, auto simp: rm_any_cell_def split: if_splits)
    then show ?thesis using t k'(3) by (simp add: cache_positions_def)
  qed
  with k' True show ?thesis by auto
next
  case False
  with s have s: "known_seq k s" by simp
  obtain k' where k': "cache_seq_rm s p0 p1 k = Some k'"
    and r: "rewritten (kc_seq_to_stream k ! nat s) (rm_cell (nat s) (range_lo p0) (range_hi p1)) k k'"
    using cache_seq_rm_one[OF ok s] by blast
  have "cache_positions k' t = cache_positions k t - (if s = int t then {range_lo p0..<range_hi p1} else {})"
    if t: "t < length (kc_seq_to_stream k)" for t
  proof -
    let ?R = "if s = int t then {range_lo p0..<range_hi p1} else {}"
    have eq: "{fst (rm_cell (nat s) (range_lo p0) (range_hi p1) (cell_at (cells_of k t) i)) | i. i < cells_size (cells_of k t) \<and>
        t \<in> cell_seqs (rm_cell (nat s) (range_lo p0) (range_hi p1) (cell_at (cells_of k t) i))} = cache_positions k t - ?R"
      unfolding cache_positions_def seq_positions_cell if_P[OF t]
      by (rule positions_removed) (use s in \<open>auto simp: rm_cell_def hits_def split: if_splits\<close>)
    have "kc_seq_to_stream k ! t \<noteq> kc_seq_to_stream k ! nat s \<Longrightarrow> ?R = {}" by auto
    then show ?thesis unfolding rewritten_positions[OF r known_nat[OF s] t ok] eq
      by (cases "kc_seq_to_stream k ! t = kc_seq_to_stream k ! nat s") (simp_all only: if_True if_False Diff_empty simp_thms)
  qed
  with k' r s show ?thesis by (auto simp: rewritten_def)
qed

lemma cache_positions_cells:
  "t < length (kc_seq_to_stream k) \<Longrightarrow>
   cache_positions k t = {fst (cell_at (cells_of k t) i) | i. i < cells_size (cells_of k t) \<and> t \<in> cell_seqs (cell_at (cells_of k t) i)}"
  by (simp add: cache_positions_def seq_positions_cell)

text \<open>The positions of a sequence of the rewritten stream, read off the new cells.\<close>

lemma rewritten_positions_in:
  assumes "rewritten (kc_seq_to_stream k ! s) F k k'" "s < length (kc_seq_to_stream k)" "t < length (kc_seq_to_stream k)"
    "cache_ok k" "kc_seq_to_stream k ! t = kc_seq_to_stream k ! s"
  shows "cache_positions k' t = {fst (F (cell_at (cells_of k t) i)) | i. i < cells_size (cells_of k t) \<and> t \<in> cell_seqs (F (cell_at (cells_of k t) i))}"
  using rewritten_positions[OF assms(1-4)] assms(5) by (simp only: if_True simp_thms)

text \<open>
  C14: Copying a sequence within a stream. If no cell of the range already has the destination,
  \<open>seq_cp\<close> succeeds, gives the destination the positions that the source has in the range, in
  addition to its own, and changes no other sequence.
\<close>

theorem seq_cp_effect:
  assumes ok: "cache_ok k" and s: "known_seq k s" and d: "known_seq k d" and sd: "s \<noteq> d"
    and st: "kc_seq_to_stream k ! nat s = kc_seq_to_stream k ! nat d"
    and fresh: "\<And>i. \<lbrakk>i < cells_size (cells_of k (nat s)); hits (nat s) (range_lo p0) (range_hi p1) (cell_at (cells_of k (nat s)) i)\<rbrakk>
      \<Longrightarrow> nat d \<notin> cell_seqs (cell_at (cells_of k (nat s)) i)"
  shows "\<exists>k'. cache_seq_cp s d p0 p1 k = Some k' \<and> cache_ok k' \<and>
    cache_positions k' (nat d) = cache_positions k (nat d) \<union> (cache_positions k (nat s) \<inter> {range_lo p0..<range_hi p1}) \<and>
    (\<forall>t < length (kc_seq_to_stream k). t \<noteq> nat d \<longrightarrow> cache_positions k' t = cache_positions k t)"
proof -
  let ?F = "cp_cell_seq (nat s) (nat d) (range_lo p0) (range_hi p1)" and ?st = "kc_seq_to_stream k ! nat s"
  note D = cache_okD[OF ok s] and D' = cache_okD[OF ok d]
  from sweep_rewritten[OF cp_sweep.cell_sweep_axioms ok D(5), of s d "range_lo p0" "range_hi p1" "\<lambda>_ _ h. h"] fresh D(4) D'(4)
  obtain k' where k': "cache_seq_cp s d p0 p1 k = Some k'" and r: "rewritten ?st ?F k k'"
    using s d sd st by (auto simp: cache_seq_cp_def stream_of_known)
  have "cache_positions k' t = cache_positions k t" if t: "t < length (kc_seq_to_stream k)" "t \<noteq> nat d" for t
  proof (cases "kc_seq_to_stream k ! t = ?st")
    case True
    show ?thesis unfolding rewritten_positions_in[OF r known_nat[OF s] t(1) ok True] cache_positions_cells[OF t(1)]
      using t(2) by (subst positions_removed[where R = "{}"]) (auto simp: cp_cell_seq_def split: if_splits)
  next
    case False
    then show ?thesis using rewritten_positions[OF r known_nat[OF s] t(1) ok] by (simp only: if_False simp_thms)
  qed
  moreover have "cache_positions k' (nat d) = cache_positions k (nat d) \<union> (cache_positions k (nat s) \<inter> {range_lo p0..<range_hi p1})"
  proof -
    have m: "nat d \<in> cell_seqs (?F x) \<longleftrightarrow> nat d \<in> cell_seqs x \<or> hits (nat s) (range_lo p0) (range_hi p1) x" "fst (?F x) = fst x" for x
      by (auto simp: cp_cell_seq_def split: prod.splits)
    show ?thesis
      unfolding rewritten_positions_in[OF r known_nat[OF s] known_nat[OF d] ok st[symmetric]]
        cache_positions_cells[OF known_nat[OF d]] cache_positions_cells[OF known_nat[OF s]] st m
      by (fastforce simp: hits_def)
  qed
  ultimately show ?thesis using k' r by (auto simp: rewritten_def)
qed


text \<open>
  C16: Shifting a range. \<open>seq_add\<close> moves the positions of the sequence that lie in the range by
  \<open>m\<close> and drops those that would become negative; cells outside the range or without the
  sequence are untouched; a moved cell adds \<open>m\<close> to its pending shift, so that the position at
  which its keys were computed (position minus shift) does not change.
\<close>

theorem seq_add_effect:
  assumes ok: "cache_ok k" and s: "known_seq k s" and "kc_n_pos k = 1" "m \<noteq> 0" "range_lo p0 \<noteq> range_hi p1"
    and rng: "\<And>i. \<lbrakk>i < cells_size (cells_of k (nat s)); hits (nat s) (range_lo p0) (range_hi p1) (cell_at (cells_of k (nat s)) i)\<rbrakk>
      \<Longrightarrow> in_i32 (c_pos (cells_of k (nat s)) ! i + m) \<and> in_i32 (c_shift (cells_of k (nat s)) ! i + m)"
  shows "\<exists>k'. cache_seq_add s p0 p1 m k = Some k' \<and> cache_ok k' \<and>
    cache_positions k' (nat s) = (cache_positions k (nat s) - {range_lo p0..<range_hi p1}) \<union>
      {p + m | p. p \<in> cache_positions k (nat s) \<inter> {range_lo p0..<range_hi p1} \<and> 0 \<le> p + m} \<and>
    (\<forall>i < cells_size (cells_of k (nat s)).
      if hits (nat s) (range_lo p0) (range_hi p1) (cell_at (cells_of k (nat s)) i)
      then c_pos (cells_of k' (nat s)) ! i = -1 \<or>
        c_pos (cells_of k' (nat s)) ! i - c_shift (cells_of k' (nat s)) ! i = c_pos (cells_of k (nat s)) ! i - c_shift (cells_of k (nat s)) ! i
      else cell_at (cells_of k' (nat s)) i = cell_at (cells_of k (nat s)) i)"
proof -
  let ?F = "add_cell (nat s) (range_lo p0) (range_hi p1) m" and ?st = "kc_seq_to_stream k ! nat s"
  note D = cache_okD[OF ok s]
  have "\<exists>k'. sweep ?st (add_body s (range_lo p0) (range_hi p1) m) (\<lambda>n nh _. if nh \<noteq> n then nh else 0) k = Some k' \<and> rewritten ?st ?F k k' \<and>
      c_has_shift (kc_cells k' ! ?st) = (c_has_shift (kc_cells k ! ?st) \<or>
        (\<exists>i < cells_size (kc_cells k ! ?st). hits (nat s) (range_lo p0) (range_hi p1) (cell_at (kc_cells k ! ?st) i)))"
    by (rule sweep_rewritten[OF add_sweep.cell_sweep_axioms ok D(5)]) (use rng D(4) in \<open>auto simp: cell_at_def\<close>)
  then obtain k' where k': "cache_seq_add s p0 p1 m k = Some k'" and r: "rewritten ?st ?F k k'"
    using s assms(3-5) by (auto simp: cache_seq_add_def stream_of_known Let_def)
  let ?R = "{range_lo p0..<range_hi p1}" and ?P = "cache_positions k (nat s)"
  have "cache_positions k' (nat s) = (\<lambda>p. if p \<in> ?R then p + m else p) ` {p \<in> ?P. \<not> (p \<in> ?R \<and> p + m < 0)}"
    unfolding rewritten_positions_in[OF r known_nat[OF s] known_nat[OF s] ok refl] cache_positions_cells[OF known_nat[OF s]]
    by (rule positions_moved) (auto simp: add_cell_def hits_def split: if_splits)
  then have "cache_positions k' (nat s) = (?P - ?R) \<union> {p + m | p. p \<in> ?P \<inter> ?R \<and> 0 \<le> p + m}" by auto
  moreover have "if hits (nat s) (range_lo p0) (range_hi p1) (cell_at (cells_of k (nat s)) i)
      then c_pos (cells_of k' (nat s)) ! i = -1 \<or>
        c_pos (cells_of k' (nat s)) ! i - c_shift (cells_of k' (nat s)) ! i = c_pos (cells_of k (nat s)) ! i - c_shift (cells_of k (nat s)) ! i
      else cell_at (cells_of k' (nat s)) i = cell_at (cells_of k (nat s)) i" if "i < cells_size (cells_of k (nat s))" for i
    using r that by (auto simp: rewritten_def add_cell_def cell_at_def split: if_splits)
  moreover have "cache_ok k'" using r by (simp add: rewritten_def)
  ultimately show ?thesis using k' by blast
qed

section \<open>Construction, and an example\<close>

lemma cache_new_ok:
  assumes "cache_new unified kv_size n_seq_max n_pad n_swa swa_type n_pos = Some k" "n_seq_max \<le> LLAMA_MAX_SEQ" "unified \<or> 0 < n_seq_max"
  shows "cache_ok k"
proof -
  have c: "cells_ok (cells_resize kv_size cells_new)" by (rule cells_resize_ok) (simp add: cells_new_def)
  from assms show ?thesis
    by (auto simp: cache_new_def Let_def cache_ok_def c split: if_splits)
qed

text \<open>One stream of two cells, the second of which holds position 7 of sequence 3.\<close>

definition example_cache :: llama_kv_cache where
  "example_cache = \<lparr>kc_n_seq_max = 4, kc_n_stream = 1, kc_n_pad = 1, kc_n_swa = 0, kc_swa_type = SWA_NONE, kc_n_pos = 1,
     kc_heads = [0], kc_cells = [example_cells], kc_seq_to_stream = replicate LLAMA_MAX_SEQ 0,
     kc_sc_info = \<lparr>sc_ssrc = [], sc_sdst = []\<rparr>\<rparr>"

lemma example_cache_ok: "cache_ok example_cache"
  using cells_reach_ok[OF example_cells_reach] by (simp add: cache_ok_def example_cache_def)

lemma example_known: "known_seq example_cache 3" "known_seq example_cache 1"
  by (simp_all add: example_cache_def LLAMA_MAX_SEQ_def)

lemma example_stream [simp]: "kc_cells example_cache ! 0 = example_cells"
  "t < LLAMA_MAX_SEQ \<Longrightarrow> kc_seq_to_stream example_cache ! t = 0" "length (kc_seq_to_stream example_cache) = LLAMA_MAX_SEQ"
  by (simp_all add: example_cache_def)

lemma max_seq_gt [simp]: "3 < LLAMA_MAX_SEQ" "Suc 0 < LLAMA_MAX_SEQ" "0 < LLAMA_MAX_SEQ"
  by (simp_all add: LLAMA_MAX_SEQ_def)

lemma example_cell [simp]: "cells_size example_cells = 2" "cell_at example_cells 0 = cell_free"
  "cell_at example_cells (Suc 0) = (7, ext_reset, 0, {3})"
  "c_pos example_cells = [-1, 7]" "c_shift example_cells = [0, 0]" "c_seq example_cells = [{}, {3}]"
  by (simp_all add: example_cells_def cells_size_def cell_at_def)

lemma example_positions: "cache_positions example_cache 3 = {7}" "cache_positions example_cache 1 = {}"
proof -
  have "{fst (cell_at example_cells i) | i. i < 2 \<and> t \<in> snd (snd (snd (cell_at example_cells i)))} = (if t = 3 then {7} else {})" for t
    by (auto dest!: less_2_cases intro!: exI[of _ "Suc 0"])
  then show "cache_positions example_cache 3 = {7}" "cache_positions example_cache 1 = {}"
    by (simp_all add: cache_positions_def seq_positions_cell)
qed

theorem seq_rm_effect_witness:
  "\<exists>k'. cache_seq_rm 3 5 (-1) example_cache = Some k' \<and> cache_positions k' 3 = {}"
  using seq_rm_effect[OF example_cache_ok, of 3 5 "-1"] example_known example_positions
  by (auto simp: range_lo_def range_hi_def i32_max_def)

theorem seq_cp_effect_witness:
  "\<exists>k'. cache_seq_cp 3 1 (-1) (-1) example_cache = Some k' \<and> cache_positions k' 1 = {7} \<and> cache_positions k' 3 = {7}"
proof -
  have "\<exists>k'. cache_seq_cp 3 1 (-1) (-1) example_cache = Some k' \<and> cache_ok k' \<and>
    cache_positions k' (nat 1) = cache_positions example_cache (nat 1) \<union> (cache_positions example_cache (nat 3) \<inter> {range_lo (-1)..<range_hi (-1)}) \<and>
    (\<forall>t < length (kc_seq_to_stream example_cache). t \<noteq> nat 1 \<longrightarrow> cache_positions k' t = cache_positions example_cache t)"
    by (rule seq_cp_effect[OF example_cache_ok example_known]) (auto simp: hits_def dest!: less_2_cases)
  then show ?thesis using example_positions by (auto simp: range_lo_def range_hi_def i32_max_def)
qed


theorem seq_add_effect_witness:
  "\<exists>k'. cache_seq_add 3 0 (-1) (-2) example_cache = Some k' \<and> cache_positions k' 3 = {5}"
proof -
  have "\<exists>k'. cache_seq_add 3 0 (-1) (-2) example_cache = Some k' \<and>
      cache_positions k' (nat 3) = (cache_positions example_cache (nat 3) - {range_lo 0..<range_hi (-1)}) \<union>
      {p + (-2) | p. p \<in> cache_positions example_cache (nat 3) \<inter> {range_lo 0..<range_hi (-1)} \<and> 0 \<le> p + (-2)}"
  proof -
    have "kc_n_pos example_cache = 1" "(- 2 :: int) \<noteq> 0" "range_lo 0 \<noteq> range_hi (-1)" by (simp_all add: example_cache_def range_lo_def range_hi_def i32_max_def)
    moreover have "in_i32 (c_pos (cells_of example_cache (nat 3)) ! i + (-2)) \<and> in_i32 (c_shift (cells_of example_cache (nat 3)) ! i + (-2))"
      if "i < cells_size (cells_of example_cache (nat 3))" for i
      using that by (auto dest!: less_2_cases simp: in_i32_def i32_max_def)
    ultimately show ?thesis using seq_add_effect[OF example_cache_ok example_known(1), of "-2" 0 "-1"] by blast
  qed
  then show ?thesis using example_positions by (auto simp: range_lo_def range_hi_def i32_max_def)
qed

text \<open>
  Copying a sequence twice: the second \<open>seq_cp\<close> meets cells that already have the destination
  and runs into the assertion of \<open>llama_kv_cells::seq_add\<close>.
\<close>

lemma seq_cp_twice_aborts:
  "Option.bind (cache_seq_cp 3 1 (-1) (-1) example_cache) (cache_seq_cp 3 1 (-1) (-1)) = None"
  by code_simp

end
