(* ===== verification/Kv_Slots.thy ===== *)
theory Kv_Slots
  imports Kv_Cache
begin

text \<open>
  Placing ubatches in the cache: \<open>find_slot\<close> searches free cells, \<open>apply_ubatch\<close> writes the
  metadata of a ubatch into them, \<open>prepare\<close> tries out a list of ubatches and takes everything
  back, \<open>init_batch\<close> combines the split of the batch with \<open>prepare\<close>, and
  \<open>llama_kv_cache_context\<close> applies the ubatches one after the other.
\<close>

section \<open>find_slot\<close>

text \<open>\<open>llama_hparams::is_masked_swa\<close>; the window size is an \<open>int32_t\<close> value.\<close>

definition is_masked_swa :: "nat \<Rightarrow> llama_swa_type \<Rightarrow> llama_pos \<Rightarrow> llama_pos \<Rightarrow> bool option" where
  "is_masked_swa n_swa swa_type p0 p1 = do {
     assert_that (p0 \<ge> 0 \<and> p1 \<ge> 0);
     case swa_type of
       SWA_NONE \<Rightarrow> Some False
     | SWA_STANDARD \<Rightarrow> Some (p1 - p0 \<ge> int n_swa)
     | SWA_CHUNKED \<Rightarrow> do {
         assert_that (n_swa \<noteq> 0);
         Some (p0 < (p1 div int n_swa) * int n_swa) }
     | SWA_SYMMETRIC \<Rightarrow> Some (p1 - p0 < - (int n_swa div 2) \<or> p1 - p0 > int n_swa div 2) }"

definition can_use :: "nat \<Rightarrow> llama_swa_type \<Rightarrow> llama_kv_cells \<Rightarrow> nat \<Rightarrow> bool option" where
  "can_use n_swa swa_type c idx = do {
     e \<leftarrow> cells_is_empty idx c;
     if e then Some True
     else do {
       n \<leftarrow> cells_seq_count idx c;
       if n \<noteq> 1 then Some False
       else do {
         pos_cell \<leftarrow> cells_pos_get idx c;
         seq_id_cell \<leftarrow> cells_seq_get idx c;
         m \<leftarrow> cells_seq_pos_max seq_id_cell c;
         is_masked_swa n_swa swa_type pos_cell (m + 1) } } }"

text \<open>The inner loop: \<open>k\<close> cells from \<open>head_cur\<close> on; a continuous search gives up at the first
  cell that cannot be used.\<close>

fun test_cells :: "(nat \<Rightarrow> bool option) \<Rightarrow> bool \<Rightarrow> nat \<Rightarrow> nat \<times> nat \<times> nat list \<Rightarrow> (nat \<times> nat \<times> nat list) option" where
  "test_cells use cont 0 st = Some st"
| "test_cells use cont (Suc k) (head_cur, n_tested, idxs) = do {
     u \<leftarrow> use head_cur;
     if u then test_cells use cont k (head_cur + 1, n_tested + 1, idxs @ [head_cur])
     else if cont then Some (head_cur + 1, n_tested + 1, idxs)
     else test_cells use cont k (head_cur + 1, n_tested + 1, idxs) }"

text \<open>The outer loop; the result is \<open>Some None\<close> when the search fails.\<close>

partial_function (option) slot_loop ::
  "(nat \<Rightarrow> bool option) \<Rightarrow> bool \<Rightarrow> nat \<Rightarrow> nat \<Rightarrow> nat \<Rightarrow> nat \<Rightarrow> nat list \<Rightarrow> nat list option option" where
  "slot_loop use cont sz n_tokens head_cur n_tested idxs =
    (let n_test = (if cont then n_tokens else 1) in
     if head_cur + n_test > sz
     then slot_loop use cont sz n_tokens 0 (n_tested + (sz - head_cur)) idxs
     else do {
       (head_cur, n_tested, idxs) \<leftarrow> test_cells use cont n_test (head_cur, n_tested, idxs);
       if length idxs = n_tokens then Some (Some idxs)
       else (let idxs = (if cont then [] else idxs) in
         if n_tested \<ge> sz then Some None
         else slot_loop use cont sz n_tokens head_cur n_tested idxs) })"

declare slot_loop.simps [code]

text \<open>The search in the stream of one sequence.\<close>

definition find_cells :: "llama_kv_cache \<Rightarrow> bool \<Rightarrow> nat \<Rightarrow> nat \<Rightarrow> nat list option option" where
  "find_cells k cont n_tokens st = do {
     c \<leftarrow> vget (kc_cells k) st;
     head_cur \<leftarrow> vget (kc_heads k) st;
     let head_cur = (if head_cur > cells_get_used c + 2 * n_tokens then 0 else head_cur);
     if n_tokens > cells_size c then Some None
     else slot_loop (can_use (kc_n_swa k) (kc_swa_type k) c) cont (cells_size c) n_tokens head_cur 0 [] }"

text \<open>The loop over the sequences of the ubatch; the result is empty when one search fails.\<close>

fun find_streams :: "llama_kv_cache \<Rightarrow> llama_ubatch \<Rightarrow> bool \<Rightarrow> nat \<Rightarrow> nat list \<Rightarrow> slot_info \<Rightarrow> slot_info option" where
  "find_streams k ub cont n_tokens [] res = do { assert_that (si_s1 res \<ge> si_s0 res); Some res }"
| "find_streams k ub cont n_tokens (s # ss) res = do {
     seq_id \<leftarrow> vget (ub_seq_id_unq ub) s;
     st \<leftarrow> vget (kc_seq_to_stream k) seq_id;
     assert_that (kc_n_stream k > 1 \<longrightarrow> ub_n_seq_id ub ! (s * n_tokens) = 1 \<and> ub_seq_id ub ! (s * n_tokens) ! 0 = int seq_id);
     r \<leftarrow> find_cells k cont n_tokens st;
     case r of
       None \<Rightarrow> Some slot_none
     | Some idxs \<Rightarrow> find_streams k ub cont n_tokens ss
         (res\<lparr>si_s0 := min (si_s0 res) st, si_s1 := max (si_s1 res) st, si_strm := si_strm res @ [st], si_idxs := si_idxs res @ [idxs]\<rparr>) }"

definition find_slot :: "llama_kv_cache \<Rightarrow> llama_ubatch \<Rightarrow> bool \<Rightarrow> slot_info option" where
  "find_slot k ub cont = (let n_tokens = ub_n_tokens ub; n_seqs = (if kc_n_stream k > 1 then ub_n_seqs_unq ub else 1) in do {
     assert_that (kc_n_stream k > 1 \<longrightarrow> n_seqs \<noteq> 0 \<and> n_tokens mod n_seqs = 0);
     find_streams k ub cont (if kc_n_stream k > 1 then n_tokens div n_seqs else n_tokens) [0..<n_seqs]
       \<lparr>si_s0 = LLAMA_MAX_SEQ, si_s1 = 0, si_strm = [], si_idxs = []\<rparr> })"

section \<open>apply_ubatch\<close>

text \<open>Emptying the cell that is going to be overwritten; \<open>rm\<close> is \<open>seq_pos_max_rm\<close>.\<close>

definition evict :: "nat \<Rightarrow> (nat \<Rightarrow> llama_pos) \<times> llama_kv_cells \<Rightarrow> ((nat \<Rightarrow> llama_pos) \<times> llama_kv_cells) option" where
  "evict idx = (\<lambda>(rm, c). do {
     e \<leftarrow> cells_is_empty idx c;
     if e then Some (rm, c)
     else do {
       n \<leftarrow> cells_seq_count idx c;
       assert_that (n = 1);
       seq_id \<leftarrow> cells_seq_get idx c;
       pos \<leftarrow> cells_pos_get idx c;
       c \<leftarrow> cells_rm idx c;
       Some (rm(nat seq_id := max (rm (nat seq_id)) pos), c) } })"

definition fill_cell :: "llama_ubatch \<Rightarrow> nat \<Rightarrow> nat \<Rightarrow> llama_kv_cells \<Rightarrow> llama_kv_cells option" where
  "fill_cell ub i idx c = do {
     c \<leftarrow> cells_pos_set idx (ub_pos ub ! i) c;
     c \<leftarrow> (if ubatch_is_pos_2d ub
          then cells_ext_set idx \<lparr>ext_x = ub_pos ub ! (i + ub_n_tokens ub * 2), ext_y = ub_pos ub ! (i + ub_n_tokens ub)\<rparr> c
          else Some c);
     ofold (\<lambda>s c. cells_seq_add idx (ub_seq_id ub ! i ! s) c) [0..<ub_n_seq_id ub ! i] c }"

definition apply_token :: "slot_info \<Rightarrow> llama_ubatch \<Rightarrow> nat \<Rightarrow> nat \<times> nat \<Rightarrow> (nat \<Rightarrow> llama_pos) \<times> llama_kv_cache \<Rightarrow>
    ((nat \<Rightarrow> llama_pos) \<times> llama_kv_cache) option" where
  "apply_token si ub sz = (\<lambda>(s, ii) (rm, k). do {
     st \<leftarrow> vget (si_strm si) s;
     xs \<leftarrow> vget (si_idxs si) s;
     idx \<leftarrow> vget xs ii;
     c \<leftarrow> vget (kc_cells k) st;
     (rm, c) \<leftarrow> evict idx (rm, c);
     c \<leftarrow> fill_cell ub (s * sz + ii) idx c;
     Some (rm, k\<lparr>kc_cells := (kc_cells k)[st := c]\<rparr>) })"

definition purge :: "(nat \<Rightarrow> llama_pos) \<Rightarrow> nat \<Rightarrow> llama_kv_cache \<Rightarrow> llama_kv_cache option" where
  "purge rm s k = (if rm s = -1 then Some k
     else do {
       st \<leftarrow> vget (kc_seq_to_stream k) s;
       c \<leftarrow> vget (kc_cells k) st;
       lo \<leftarrow> cells_seq_pos_min (int s) c;
       if lo \<le> rm s then cache_seq_rm (int s) lo (rm s + 1) k else Some k })"

definition move_head :: "slot_info \<Rightarrow> nat \<Rightarrow> llama_kv_cache \<Rightarrow> llama_kv_cache option" where
  "move_head si s k = do {
     st \<leftarrow> vget (si_strm si) s;
     xs \<leftarrow> vget (si_idxs si) s;
     assert_that (xs \<noteq> []);
     h \<leftarrow> vset (kc_heads k) st (last xs + 1);
     Some (k\<lparr>kc_heads := h\<rparr>) }"

definition apply_ubatch :: "slot_info \<Rightarrow> llama_ubatch \<Rightarrow> llama_kv_cache \<Rightarrow> llama_kv_cache option" where
  "apply_ubatch si ub k = do {
     sz \<leftarrow> slot_size si;
     assert_that (ub_n_tokens ub = slot_n_stream si * sz);
     (rm, k) \<leftarrow> ofold (apply_token si ub sz) (List.product [0..<slot_n_stream si] [0..<sz]) (\<lambda>_. -1, k);
     k \<leftarrow> ofold (purge rm) [0..<LLAMA_MAX_SEQ] k;
     ofold (move_head si) [0..<slot_n_stream si] k }"

section \<open>prepare and init_batch\<close>

text \<open>What \<open>prepare\<close> remembers per ubatch (\<open>state_t\<close>).\<close>

record prepare_state =
  ps_sinfo :: slot_info
  ps_heads_old :: "nat list"
  ps_cells :: "llama_kv_cells list"

fun save_cells :: "llama_kv_cache \<Rightarrow> (nat \<times> nat list) list \<Rightarrow> llama_kv_cells list option" where
  "save_cells k [] = Some []"
| "save_cells k ((st, xs) # r) = do {
     c \<leftarrow> vget (kc_cells k) st;
     saved \<leftarrow> cells_cp xs c;
     rest \<leftarrow> save_cells k r;
     Some (saved # rest) }"

text \<open>The first loop of \<open>prepare\<close>; the flag is \<open>success\<close>.\<close>

fun place_ubatches :: "llama_ubatch list \<Rightarrow> prepare_state list \<Rightarrow> llama_kv_cache \<Rightarrow> (bool \<times> prepare_state list \<times> llama_kv_cache) option" where
  "place_ubatches [] states k = Some (True, states, k)"
| "place_ubatches (ub # ubs) states k = do {
     si \<leftarrow> find_slot k ub False;
     if slot_empty si then Some (False, states, k)
     else do {
       saved \<leftarrow> save_cells k (zip (si_strm si) (si_idxs si));
       k' \<leftarrow> apply_ubatch si ub k;
       place_ubatches ubs (states @ [\<lparr>ps_sinfo = si, ps_heads_old = kc_heads k, ps_cells = saved\<rparr>]) k' } }"

text \<open>The second loop, for one state; note the index of \<open>v_heads_old\<close>.\<close>

definition restore_stream :: "prepare_state \<Rightarrow> nat \<Rightarrow> llama_kv_cache \<Rightarrow> llama_kv_cache option" where
  "restore_stream ps s k = do {
     st \<leftarrow> vget (si_strm (ps_sinfo ps)) s;
     xs \<leftarrow> vget (si_idxs (ps_sinfo ps)) s;
     saved \<leftarrow> vget (ps_cells ps) s;
     c \<leftarrow> vget (kc_cells k) st;
     c \<leftarrow> cells_set xs saved c;
     h \<leftarrow> vget (ps_heads_old ps) s;
     assert_that (st < length (kc_heads k));
     Some (put_stream st h c k) }"

definition restore_state :: "prepare_state \<Rightarrow> llama_kv_cache \<Rightarrow> llama_kv_cache option" where
  "restore_state ps k = ofold (restore_stream ps) [0..<slot_n_stream (ps_sinfo ps)] k"

definition prepare :: "llama_ubatch list \<Rightarrow> llama_kv_cache \<Rightarrow> (slot_info list \<times> llama_kv_cache) option" where
  "prepare ubatches k = do {
     (success, states, k) \<leftarrow> place_ubatches ubatches [] k;
     assert_that (states \<noteq> [] \<or> \<not> success);
     k \<leftarrow> ofold restore_state (rev states) k;
     Some (if success then map ps_sinfo states else [], k) }"

text \<open>The context that \<open>init_batch\<close>, \<open>init_full\<close> and \<open>init_update\<close> return.\<close>

record llama_kv_cache_context =
  cx_status :: llama_memory_status
  cx_do_shift :: bool
  cx_sc_info :: stream_copy_info
  cx_i_cur :: nat
  cx_sinfos :: "slot_info list"
  cx_ubatches :: "llama_ubatch list"
  cx_n_kv :: nat

definition context_status :: "llama_memory_status \<Rightarrow> llama_kv_cache_context" where
  "context_status status = \<lparr>cx_status = status, cx_do_shift = False, cx_sc_info = \<lparr>sc_ssrc = [], sc_sdst = []\<rparr>, cx_i_cur = 0,
     cx_sinfos = [], cx_ubatches = [], cx_n_kv = 0\<rparr>"

definition context_full :: "llama_kv_cache \<Rightarrow> llama_kv_cache_context option" where
  "context_full k = do {
     n \<leftarrow> cache_get_size k;
     Some ((context_status LLAMA_MEMORY_STATUS_SUCCESS)\<lparr>cx_n_kv := n,
       cx_sinfos := [\<lparr>si_s0 = 0, si_s1 = kc_n_stream k - 1, si_strm = [0..<kc_n_stream k], si_idxs = replicate (kc_n_stream k) [0]\<rparr>]\<rparr>) }"

definition context_update :: "bool \<Rightarrow> stream_copy_info \<Rightarrow> llama_kv_cache_context option" where
  "context_update do_shift sc = do {
     e \<leftarrow> (if do_shift then Some False else sc_empty sc);
     Some ((context_status (if e then LLAMA_MEMORY_STATUS_NO_UPDATE else LLAMA_MEMORY_STATUS_SUCCESS))
       \<lparr>cx_do_shift := do_shift, cx_sc_info := sc\<rparr>) }"

definition context_batch :: "slot_info list \<Rightarrow> llama_ubatch list \<Rightarrow> llama_kv_cache_context" where
  "context_batch sinfos ubatches = (context_status LLAMA_MEMORY_STATUS_SUCCESS)\<lparr>cx_sinfos := sinfos, cx_ubatches := ubatches\<rparr>"

definition cache_init_batch :: "nat \<Rightarrow> llama_batch_allocr \<Rightarrow> llama_kv_cache \<Rightarrow> (llama_kv_cache_context \<times> llama_batch_allocr \<times> llama_kv_cache) option" where
  "cache_init_batch n_ubatch balloc k = do {
     (ubatches, balloc) \<leftarrow> split_loop (if kc_n_stream k = 1 then split_simple n_ubatch else split_equal n_ubatch True) (split_reset balloc);
     if allocr_get_n_used balloc < allocr_get_n_tokens balloc
     then Some (context_status LLAMA_MEMORY_STATUS_FAILED_PREPARE, balloc, k)
     else do {
       (sinfos, k) \<leftarrow> prepare ubatches k;
       if sinfos = [] then Some (context_status LLAMA_MEMORY_STATUS_FAILED_PREPARE, balloc, k)
       else Some (context_batch sinfos ubatches, balloc, k) } }"

definition cache_init_update :: "llama_kv_cache \<Rightarrow> (llama_kv_cache_context \<times> llama_kv_cache) option" where
  "cache_init_update k = do {
     x \<leftarrow> context_update (cache_get_has_shift k) (kc_sc_info k);
     Some (x, k\<lparr>kc_sc_info := \<lparr>sc_ssrc = [], sc_sdst = []\<rparr>\<rparr>) }"

text \<open>
  \<open>update\<close>: the metadata part. Whether the model can shift (\<open>get_can_shift\<close>), whether it
  uses RoPE, and whether the graph could be allocated and computed are parameters.
\<close>

definition check_stream_copies :: "llama_kv_cache \<Rightarrow> stream_copy_info \<Rightarrow> unit option" where
  "check_stream_copies k sc = do {
     e \<leftarrow> sc_empty sc;
     if e then Some ()
     else do {
       assert_that (kc_n_stream k > 1);
       ofold (\<lambda>(a, b) _. assert_that (a < kc_n_stream k \<and> b < kc_n_stream k \<and> a \<noteq> b)) (zip (sc_ssrc sc) (sc_sdst sc)) () } }"

definition cache_update :: "bool \<Rightarrow> bool \<Rightarrow> bool \<Rightarrow> bool \<Rightarrow> stream_copy_info \<Rightarrow> llama_kv_cache \<Rightarrow> (bool \<times> llama_kv_cache) option" where
  "cache_update can_shift uses_rope computed do_shift sc k = do {
     check_stream_copies k sc;
     if \<not> do_shift then Some (False, k)
     else do {
       assert_that can_shift;
       if uses_rope \<and> \<not> computed then Some (False, k)
       else Some (uses_rope, cache_reset_shift k) } }"

text \<open>\<open>GGML_PAD\<close> rounds up by clearing low bits.\<close>

definition ggml_pad :: "nat \<Rightarrow> nat \<Rightarrow> nat" where
  "ggml_pad x n = (x + n - 1) - and (x + n - 1) (n - 1)"

definition cache_get_n_kv :: "llama_kv_cache \<Rightarrow> slot_info \<Rightarrow> nat option" where
  "cache_get_n_kv k si = (let n_pad_cur = max (kc_n_pad k) 256 in
     ofold (\<lambda>st result. do {
       c \<leftarrow> vget (kc_cells k) st;
       Some (max (min (cells_size c) (max n_pad_cur (ggml_pad (cells_used_max_p1 c) n_pad_cur))) result) }) (si_strm si) 0)"

definition context_next :: "llama_kv_cache_context \<Rightarrow> (bool \<times> llama_kv_cache_context) option" where
  "context_next x = do {
     assert_that (cx_status x = LLAMA_MEMORY_STATUS_SUCCESS);
     let x = x\<lparr>cx_i_cur := cx_i_cur x + 1\<rparr>;
     Some (\<not> cx_i_cur x \<ge> length (cx_ubatches x), x) }"

definition context_apply :: "bool \<Rightarrow> bool \<Rightarrow> bool \<Rightarrow> llama_kv_cache_context \<Rightarrow> llama_kv_cache \<Rightarrow> (llama_kv_cache_context \<times> llama_kv_cache) option" where
  "context_apply can_shift uses_rope computed x k = do {
     assert_that (\<not> llama_memory_status_is_fail (cx_status x));
     if cx_ubatches x = [] then do {
       (_, k) \<leftarrow> cache_update can_shift uses_rope computed (cx_do_shift x) (cx_sc_info x) k;
       Some (x, k) }
     else do {
       si \<leftarrow> vget (cx_sinfos x) (cx_i_cur x);
       ub \<leftarrow> vget (cx_ubatches x) (cx_i_cur x);
       k \<leftarrow> apply_ubatch si ub k;
       n \<leftarrow> cache_get_n_kv k si;
       Some (x\<lparr>cx_n_kv := n\<rparr>, k) } }"

end
