(* ===== verification/Kv_Find.thy ===== *)
theory Kv_Find
  imports Kv_Slots
begin

text \<open>
  Correctness of the slot search: both searches return, the plain one finds the first usable
  cells in cyclic order and fails exactly when there are too few, the continuous one returns a
  run of adjacent usable cells.
\<close>

section \<open>The plain search\<close>

text \<open>The cells in the order in which a search that starts at \<open>h\<close> visits them.\<close>

definition scan_order :: "nat \<Rightarrow> nat \<Rightarrow> nat list" where
  "scan_order sz h = map (\<lambda>k. (h + k) mod sz) [0..<sz]"

lemma scan_order_distinct: "distinct (scan_order sz h)"
proof -
  have le: "b \<le> a" if "a < sz" "b < sz" "(h + a) mod sz = (h + b) mod sz" for a b
  proof (rule ccontr)
    assume "\<not> b \<le> a"
    then have "sz dvd b - a" using that(3) mod_eq_dvd_iff_nat[of "h + a" "h + b" sz] by simp
    with \<open>\<not> b \<le> a\<close> that(2) show False by (auto dest: dvd_imp_le)
  qed
  have "inj_on (\<lambda>k. (h + k) mod sz) {0..<sz}"
    by (rule inj_onI) (use le in \<open>force intro: antisym\<close>)
  then show ?thesis by (simp add: scan_order_def distinct_map)
qed

lemma scan_order_set: "set (scan_order sz h) = {..<sz}"
proof -
  have "set (scan_order sz h) \<subseteq> {..<sz}" by (auto simp: scan_order_def)
  moreover have "card (set (scan_order sz h)) = sz"
    using distinct_card[OF scan_order_distinct, of sz h] by (simp add: scan_order_def)
  ultimately show ?thesis by (simp add: card_subset_eq)
qed

lemma slot_loop_wrap: "\<lbrakk>head + n_test > sz; n_test = (if cont then n else 1)\<rbrakk> \<Longrightarrow>
  slot_loop use cont sz n head t idxs = slot_loop use cont sz n 0 (t + (sz - head)) idxs"
  by (simp add: slot_loop.simps[of use cont sz n head])

lemma slot_loop_one:
  assumes "head < sz" "use head = Some u"
  shows "slot_loop use False sz n head t idxs = (let idxs = (if u then idxs @ [head] else idxs) in
    if length idxs = n then Some (Some idxs) else if t + 1 \<ge> sz then Some None
    else slot_loop use False sz n (head + 1) (t + 1) idxs)"
  using assms by (simp add: slot_loop.simps[of use False sz n head] numeral_eq_Suc Let_def)

lemma slot_loop_scan_from:
  assumes use: "\<And>i. i < sz \<Longrightarrow> use i = Some (U i)" and n: "0 < n" and t: "t < sz" and h: "h \<le> sz" "h mod sz = (h0 + t) mod sz"
    and idxs: "idxs = filter U (map (\<lambda>k. (h0 + k) mod sz) [0..<t])" "length idxs < n"
  shows "slot_loop use False sz n h t idxs =
    Some (if n \<le> length (filter U (scan_order sz h0)) then Some (take n (filter U (scan_order sz h0))) else None)"
  using t h idxs
proof (induction "sz - t" arbitrary: h t idxs)
  case 0
  then show ?case by simp
next
  case (Suc d)
  let ?h = "(h0 + t) mod sz" and ?V = "\<lambda>t. filter U (map (\<lambda>k. (h0 + k) mod sz) [0..<t])"
  have hlt: "?h < sz" using Suc.prems(1) by simp
  have start: "slot_loop use False sz n h t idxs = slot_loop use False sz n ?h t idxs"
  proof (cases "h = sz")
    case True
    then show ?thesis using slot_loop_wrap[where head = h and n_test = 1 and sz = sz and cont = False and n = n] Suc.prems(3) by simp
  next
    case False
    then show ?thesis using Suc.prems(2,3) by simp
  qed
  let ?idxs = "if U ?h then idxs @ [?h] else idxs"
  have V: "?idxs = ?V (Suc t)" using Suc.prems(4) by simp
  have step: "slot_loop use False sz n h t idxs = (if length ?idxs = n then Some (Some ?idxs) else if t + 1 \<ge> sz then Some None
      else slot_loop use False sz n (?h + 1) (t + 1) ?idxs)"
    unfolding start slot_loop_one[where use = use and u = "U ?h" and head = ?h and sz = sz, OF hlt use[OF hlt]] by (simp add: Let_def)
  have order: "scan_order sz h0 = map (\<lambda>k. (h0 + k) mod sz) [0..<Suc t] @ map (\<lambda>k. (h0 + k) mod sz) [Suc t..<sz]"
    unfolding scan_order_def map_append[symmetric] using upt_add_eq_append[of 0 "Suc t" "sz - Suc t"] Suc.prems(1) by simp
  show ?case
  proof (cases "length ?idxs = n")
    case True
    have "filter U (scan_order sz h0) = ?idxs @ filter U (map (\<lambda>k. (h0 + k) mod sz) [Suc t..<sz])"
      unfolding order filter_append V ..
    with True show ?thesis unfolding step by (simp del: upt_Suc)
  next
    case False
    then have lt: "length ?idxs < n" using Suc.prems(5) by (auto split: if_splits)
    show ?thesis
    proof (cases "t + 1 \<ge> sz")
      case True
      then have "Suc t = sz" using Suc.prems(1) by simp
      then have "filter U (scan_order sz h0) = ?idxs" unfolding V scan_order_def by simp
      with False lt True show ?thesis unfolding step by simp
    next
      case more: False
      have "slot_loop use False sz n (?h + 1) (t + 1) ?idxs =
        Some (if n \<le> length (filter U (scan_order sz h0)) then Some (take n (filter U (scan_order sz h0))) else None)"
      proof (rule Suc.hyps(1))
        show "?h + 1 \<le> sz" using hlt by linarith
        show "(?h + 1) mod sz = (h0 + (t + 1)) mod sz" by (simp add: mod_Suc_eq)
        show "?idxs = ?V (t + 1)" using V by simp
      qed (use Suc.hyps(2) more lt in auto)
      with False more show ?thesis unfolding step by simp
    qed
  qed
qed

lemma slot_loop_scan:
  assumes "\<And>i. i < sz \<Longrightarrow> use i = Some (U i)" "0 < n" "0 < sz" "h \<le> sz"
  shows "slot_loop use False sz n h 0 [] =
    Some (if n \<le> length (filter U (scan_order sz h)) then Some (take n (filter U (scan_order sz h))) else None)"
  by (rule slot_loop_scan_from) (use assms in auto)

section \<open>The continuous search\<close>

lemma test_cells_cont:
  assumes "\<And>i. i < sz \<Longrightarrow> use i = Some (U i)" "h + k \<le> sz"
  shows "\<exists>j \<le> k. (\<forall>i \<in> {h..<h + j}. U i) \<and> test_cells use True k (h, t, idxs) =
    (if j = k then Some (h + k, t + k, idxs @ [h..<h + k]) else Some (h + j + 1, t + j + 1, idxs @ [h..<h + j]))"
  using assms(2)
proof (induction k arbitrary: h t idxs)
  case (Suc k)
  show ?case
  proof (cases "U h")
    case True
    from Suc.IH[of "Suc h" "Suc t" "idxs @ [h]"] Suc.prems obtain j where
      j: "j \<le> k" "\<forall>i \<in> {Suc h..<Suc h + j}. U i" "test_cells use True k (Suc h, Suc t, idxs @ [h]) =
        (if j = k then Some (Suc h + k, Suc t + k, (idxs @ [h]) @ [Suc h..<Suc h + k])
         else Some (Suc h + j + 1, Suc t + j + 1, (idxs @ [h]) @ [Suc h..<Suc h + j]))" by auto
    have "\<forall>i \<in> {h..<h + Suc j}. U i" using j(2) True by (metis Suc_leI add_Suc add_Suc_right atLeastLessThan_iff le_neq_implies_less)
    moreover have "use h = Some True" using assms(1) Suc.prems True by simp
    ultimately show ?thesis using j(1,3) by (intro exI[of _ "Suc j"]) (auto simp: upt_conv_Cons simp del: upt_Suc)
  next
    case False
    then have "use h = Some False" using assms(1) Suc.prems by simp
    then show ?thesis by (intro exI[of _ 0]) simp
  qed
qed simp

lemma slot_loop_cont_from:
  assumes use: "\<And>i. i < sz \<Longrightarrow> use i = Some (U i)" and n: "0 < n" "n \<le> sz"
  shows "\<exists>r. slot_loop use True sz n h t [] = Some r \<and>
    (\<forall>xs. r = Some xs \<longrightarrow> (\<exists>a. xs = [a..<a + n] \<and> a + n \<le> sz \<and> (\<forall>i \<in> {a..<a + n}. U i)))"
proof -
  have fits: "\<exists>r. slot_loop use True sz n h t [] = Some r \<and>
    (\<forall>xs. r = Some xs \<longrightarrow> (\<exists>a. xs = [a..<a + n] \<and> a + n \<le> sz \<and> (\<forall>i \<in> {a..<a + n}. U i)))" if "h + n \<le> sz" for h t
    using that
  proof (induction "sz - t" arbitrary: h t rule: less_induct)
    case less
    obtain j where j: "j \<le> n" "\<forall>i \<in> {h..<h + j}. U i" "test_cells use True n (h, t, []) =
        (if j = n then Some (h + n, t + n, [h..<h + n]) else Some (h + j + 1, t + j + 1, [h..<h + j]))"
      using test_cells_cont[where use = use and U = U and sz = sz and h = h and k = n and t = t and idxs = "[]", OF use less.prems] by auto
    show ?case
    proof (cases "j = n")
      case True
      then have "slot_loop use True sz n h t [] = Some (Some [h..<h + n])"
        using j(3) less.prems by (simp add: slot_loop.simps[of use True sz n h])
      with True j(2) less.prems show ?thesis by auto
    next
      case False
      then have step: "slot_loop use True sz n h t [] = (if t + j + 1 \<ge> sz then Some None else slot_loop use True sz n (h + j + 1) (t + j + 1) [])"
        using j(1,3) less.prems by (simp add: slot_loop.simps[of use True sz n h] Let_def)
      show ?thesis
      proof (cases "t + j + 1 \<ge> sz")
        case True
        then show ?thesis unfolding step by simp
      next
        case more: False
        show ?thesis
        proof (cases "h + j + 1 + n \<le> sz")
          case True
          then show ?thesis using less.hyps[of "t + j + 1" "h + j + 1"] more unfolding step by simp
        next
          case wrap: False
          then have "slot_loop use True sz n (h + j + 1) (t + j + 1) [] = slot_loop use True sz n 0 (t + j + 1 + (sz - (h + j + 1))) []"
            by (intro slot_loop_wrap[where n_test = n]) auto
          then show ?thesis using less.hyps[of "t + j + 1 + (sz - (h + j + 1))" 0] more n(2) unfolding step by simp
        qed
      qed
    qed
  qed
  show ?thesis
  proof (cases "h + n \<le> sz")
    case True
    then show ?thesis by (rule fits)
  next
    case False
    then have "slot_loop use True sz n h t [] = slot_loop use True sz n 0 (t + (sz - h)) []"
      by (intro slot_loop_wrap[where n_test = n]) auto
    then show ?thesis using fits[of 0 "t + (sz - h)"] n(2) by simp
  qed
qed

section \<open>Usable cells\<close>

definition usable :: "llama_kv_cache \<Rightarrow> llama_kv_cells \<Rightarrow> nat \<Rightarrow> bool" where
  "usable k c i \<longleftrightarrow> can_use (kc_n_swa k) (kc_swa_type k) c i = Some True"

lemma cells_seq_get_single:
  assumes "i < length (c_seq c)" "c_seq c ! i = {s}" "s < LLAMA_MAX_SEQ"
  shows "cells_seq_get i c = Some (int s)"
proof -
  have "filter (\<lambda>t. t \<in> {s}) [0..<LLAMA_MAX_SEQ] = [s]"
  proof -
    have "[0..<LLAMA_MAX_SEQ] = [0..<s] @ s # [Suc s..<LLAMA_MAX_SEQ]"
      using assms(3) by (metis le_add_same_cancel1 less_imp_add_positive upt_add_eq_append upt_conv_Cons zero_le le_add1 less_add_same_cancel1)
    then show ?thesis by (simp del: upt_Suc)
  qed
  with assms show ?thesis by (simp add: cells_seq_get_def)
qed

lemma can_use_total:
  assumes ok: "cells_ok c" and i: "i < cells_size c" and sw: "swa_type = SWA_CHUNKED \<longrightarrow> n_swa \<noteq> 0"
  shows "\<exists>u. can_use n_swa swa_type c i = Some u"
proof -
  have i': "i < length (c_pos c)" using i by (simp add: cells_size_def)
  note D = cells_okD[OF ok i']
  have e: "cells_is_empty i c = Some (c_pos c ! i = -1)" using i' D(7) by (auto simp: cells_is_empty_def)
  show ?thesis
  proof (cases "c_pos c ! i \<noteq> -1 \<and> card (c_seq c ! i) = 1")
    case False
    then show ?thesis using e i' D(4) by (auto simp: can_use_def cells_seq_count_def)
  next
    case True
    then obtain s where s: "c_seq c ! i = {s}" by (auto simp: card_1_singleton_iff)
    have sl: "s < LLAMA_MAX_SEQ" using D(8) s by auto
    have pos: "c_pos c ! i \<in> seq_positions c s" using i' s by (auto simp: seq_positions_def)
    then have "Max (seq_positions c s) \<ge> c_pos c ! i" "seq_positions c s \<noteq> {}"
      using kv_cells.positions_finite[OF ok] by auto
    moreover have "c_pos c ! i \<ge> 0" using D(7) True by simp
    ultimately show ?thesis
      using e i' D(4) True sl sw cells_seq_get_single[of i c s] s cells_seq_pos_max_eq[OF ok, of "int s"]
      by (cases swa_type) (auto simp: can_use_def cells_seq_count_def cells_pos_get_def is_masked_swa_def)
  qed
qed

text \<open>Without a sliding window only empty cells are usable.\<close>

lemma usable_no_swa:
  assumes "cells_ok c" "i < cells_size c" "kc_swa_type k = SWA_NONE"
  shows "usable k c i \<longleftrightarrow> c_pos c ! i = -1"
proof -
  have i': "i < length (c_pos c)" using assms by (simp add: cells_size_def)
  have e: "cells_is_empty i c = Some (c_pos c ! i = -1)" using i' cells_okD(7)[OF assms(1) i'] by (auto simp: cells_is_empty_def)
  then show ?thesis
    by (auto simp: usable_def can_use_def assms(3) is_masked_swa_def bind_Some_iff split: if_splits)
qed

definition swa_ok :: "llama_kv_cache \<Rightarrow> bool" where
  "swa_ok k \<longleftrightarrow> (kc_swa_type k = SWA_CHUNKED \<longrightarrow> kc_n_swa k \<noteq> 0)"

text \<open>Where the search in stream \<open>st\<close> starts.\<close>

definition search_head :: "llama_kv_cache \<Rightarrow> nat \<Rightarrow> nat \<Rightarrow> nat" where
  "search_head k n st = (if kc_heads k ! st > cells_get_used (kc_cells k ! st) + 2 * n then 0 else kc_heads k ! st)"

definition free_cells :: "llama_kv_cache \<Rightarrow> nat \<Rightarrow> nat \<Rightarrow> nat list" where
  "free_cells k n st = filter (usable k (kc_cells k ! st)) (scan_order (cells_size (kc_cells k ! st)) (search_head k n st))"

lemma find_cells_plain:
  assumes ok: "cache_ok k" and sw: "swa_ok k" and st: "st < kc_n_stream k" and n: "0 < n"
  shows "find_cells k False n st = Some (if n \<le> length (free_cells k n st) then Some (take n (free_cells k n st)) else None)"
proof -
  let ?c = "kc_cells k ! st"
  have c: "cells_ok ?c" "st < length (kc_cells k)" "st < length (kc_heads k)" "search_head k n st \<le> cells_size ?c"
    using ok st by (auto simp: cache_ok_def search_head_def)
  have eq: "find_cells k False n st = (if n > cells_size ?c then Some None
    else slot_loop (can_use (kc_n_swa k) (kc_swa_type k) ?c) False (cells_size ?c) n (search_head k n st) 0 [])"
    using c(2,3) by (simp add: find_cells_def search_head_def Let_def)
  show ?thesis
  proof (cases "n > cells_size ?c")
    case True
    have "length (free_cells k n st) \<le> cells_size ?c"
      unfolding free_cells_def using length_filter_le[of "usable k ?c" "scan_order (cells_size ?c) (search_head k n st)"]
      by (simp add: scan_order_def)
    with True eq show ?thesis by simp
  next
    case False
    have "can_use (kc_n_swa k) (kc_swa_type k) ?c i = Some (usable k ?c i)" if "i < cells_size ?c" for i
      using can_use_total[OF c(1) that, of "kc_swa_type k" "kc_n_swa k"] sw unfolding usable_def swa_ok_def by fastforce
    with False eq slot_loop_scan[of "cells_size ?c" "can_use (kc_n_swa k) (kc_swa_type k) ?c" "usable k ?c" n "search_head k n st"] n c(4)
    show ?thesis by (simp add: free_cells_def)
  qed
qed

lemma free_cells_props:
  shows "distinct (free_cells k n st)" "set (free_cells k n st) = {i. i < cells_size (kc_cells k ! st) \<and> usable k (kc_cells k ! st) i}"
  by (auto simp: free_cells_def scan_order_distinct scan_order_set)

section \<open>find_slot in a unified cache\<close>

lemma find_slot_spec:
  assumes ok: "cache_ok k" and sw: "swa_ok k" and one: "kc_n_stream k = 1" and n: "0 < ub_n_tokens ub"
    and sq: "ub_seq_id_unq ub = q # qs" "q < length (kc_seq_to_stream k)"
  shows "\<exists>si. find_slot k ub False = Some si \<and>
    (let F = {i. i < cells_size (kc_cells k ! 0) \<and> usable k (kc_cells k ! 0) i} in
     if card F < ub_n_tokens ub then slot_empty si
     else si_s0 si = 0 \<and> si_s1 si = 0 \<and> si_strm si = [0] \<and>
       (\<exists>xs. si_idxs si = [xs] \<and> length xs = ub_n_tokens ub \<and> distinct xs \<and> set xs \<subseteq> F))"
proof -
  let ?n = "ub_n_tokens ub" and ?F = "{i. i < cells_size (kc_cells k ! 0) \<and> usable k (kc_cells k ! 0) i}"
  have st: "kc_seq_to_stream k ! q = 0" using ok sq(2) one by (auto simp: cache_ok_def)
  have card: "length (free_cells k ?n 0) = card ?F"
    using distinct_card[OF free_cells_props(1)] free_cells_props(2) by metis
  have fc: "find_cells k False ?n 0 = Some (if ?n \<le> card ?F then Some (take ?n (free_cells k ?n 0)) else None)"
    using find_cells_plain[OF ok sw _ n, of 0] one card by simp
  have eq: "find_slot k ub False = (case find_cells k False ?n 0 of None \<Rightarrow> None | Some None \<Rightarrow> Some slot_none
    | Some (Some xs) \<Rightarrow> Some \<lparr>si_s0 = 0, si_s1 = 0, si_strm = [0], si_idxs = [xs]\<rparr>)"
    using sq st one by (auto simp: find_slot_def Let_def split: option.splits)
  show ?thesis
  proof (cases "?n \<le> card ?F")
    case True
    let ?xs = "take ?n (free_cells k ?n 0)"
    have "length ?xs = ?n" "distinct ?xs" "set ?xs \<subseteq> ?F"
      using True card free_cells_props[of k ?n 0] set_take_subset[of ?n "free_cells k ?n 0"] by auto
    with True fc eq show ?thesis by (auto simp: Let_def)
  next
    case False
    with fc eq show ?thesis by (auto simp: Let_def slot_empty_def slot_none_def)
  qed
qed

text \<open>
  C17: The slot search of a unified cache always returns. It fails (empty slot) exactly when
  the stream has fewer usable cells than the ubatch has tokens; otherwise it returns one
  distinct usable cell per token. Without a sliding window, usable means empty.
\<close>

theorem find_slot_unified:
  assumes ok: "cache_ok k" and sw: "swa_ok k" and one: "kc_n_stream k = 1" and n: "0 < ub_n_tokens ub"
    and sq: "ub_seq_id_unq ub = q # qs" "q < length (kc_seq_to_stream k)"
  shows "\<exists>si. find_slot k ub False = Some si \<and>
    (let F = {i. i < cells_size (kc_cells k ! 0) \<and> usable k (kc_cells k ! 0) i} in
     if card F < ub_n_tokens ub then slot_empty si
     else si_s0 si = 0 \<and> si_s1 si = 0 \<and> si_strm si = [0] \<and>
       (\<exists>xs. si_idxs si = [xs] \<and> length xs = ub_n_tokens ub \<and> distinct xs \<and> set xs \<subseteq> F))"
  using assms by (rule find_slot_spec)

definition example_ubatch :: llama_ubatch where
  "example_ubatch = \<lparr>ub_equal_seqs = False, ub_n_tokens = 1, ub_n_seq_tokens = 1, ub_n_seqs = 1, ub_n_seqs_unq = 1, ub_n_pos = 1,
     ub_token = Some [5], ub_embd = None, ub_pos = [8], ub_n_seq_id = [1], ub_seq_id = [[3]], ub_seq_id_unq = [3],
     ub_seq_idx = [], ub_output = [1]\<rparr>"

theorem find_slot_unified_witness:
  "\<exists>si xs. find_slot example_cache example_ubatch False = Some si \<and> si_idxs si = [xs] \<and> set xs = {0}"
proof -
  let ?F = "{i. i < cells_size (kc_cells example_cache ! 0) \<and> usable example_cache (kc_cells example_cache ! 0) i}"
  have "usable example_cache example_cells i \<longleftrightarrow> c_pos example_cells ! i = -1" if "i < 2" for i
    using that by (intro usable_no_swa[OF cells_reach_ok[OF example_cells_reach]]) (simp_all add: example_cache_def)
  then have F: "?F = {0}" by (auto dest!: less_2_cases)
  have "\<exists>si. find_slot example_cache example_ubatch False = Some si \<and>
    (let F = ?F in if card F < ub_n_tokens example_ubatch then slot_empty si
     else si_s0 si = 0 \<and> si_s1 si = 0 \<and> si_strm si = [0] \<and>
       (\<exists>xs. si_idxs si = [xs] \<and> length xs = ub_n_tokens example_ubatch \<and> distinct xs \<and> set xs \<subseteq> F))"
    by (rule find_slot_unified[OF example_cache_ok, where q = 3 and qs = "[]"])
      (simp_all add: swa_ok_def example_cache_def example_ubatch_def LLAMA_MAX_SEQ_def)
  then show ?thesis unfolding F by (auto simp: example_ubatch_def Let_def length_Suc_conv)
qed

text \<open>
  The continuous search also returns, for every start, and what it finds is a run of
  adjacent usable cells inside the stream, one per token.
\<close>

lemma find_cells_continuous:
  assumes ok: "cache_ok k" and sw: "swa_ok k" and st: "st < kc_n_stream k" and n: "0 < n"
  shows "\<exists>r. find_cells k True n st = Some r \<and>
    (\<forall>xs. r = Some xs \<longrightarrow> (\<exists>a. xs = [a..<a + n] \<and> a + n \<le> cells_size (kc_cells k ! st) \<and>
      (\<forall>i \<in> {a..<a + n}. usable k (kc_cells k ! st) i)))"
proof -
  let ?c = "kc_cells k ! st"
  have c: "cells_ok ?c" "st < length (kc_cells k)" "st < length (kc_heads k)"
    using ok st by (auto simp: cache_ok_def)
  have eq: "find_cells k True n st = (if n > cells_size ?c then Some None
    else slot_loop (can_use (kc_n_swa k) (kc_swa_type k) ?c) True (cells_size ?c) n (search_head k n st) 0 [])"
    using c(2,3) by (simp add: find_cells_def search_head_def Let_def)
  have use: "can_use (kc_n_swa k) (kc_swa_type k) ?c i = Some (usable k ?c i)" if "i < cells_size ?c" for i
    using can_use_total[OF c(1) that, of "kc_swa_type k" "kc_n_swa k"] sw unfolding usable_def swa_ok_def by fastforce
  show ?thesis
  proof (cases "n > cells_size ?c")
    case False
    then show ?thesis
      using slot_loop_cont_from[where use = "can_use (kc_n_swa k) (kc_swa_type k) ?c" and U = "usable k ?c" and sz = "cells_size ?c" and n = n and h = "search_head k n st" and t = 0]
        use n eq by auto
  qed (use eq in auto)
qed

lemma find_cells_continuous_example: "\<exists>r. find_cells example_cache True 1 0 = Some r"
  using find_cells_continuous[OF example_cache_ok, of 0 1] by (auto simp: swa_ok_def example_cache_def)

end
