(* ===== verification/Kv_Place.thy ===== *)
theory Kv_Place
  imports Kv_Find
begin

text \<open>
  Placing ubatches in a unified cache without a sliding window: \<open>apply_ubatch\<close> fills the cells
  that \<open>find_slot\<close> returned, and \<open>prepare\<close> leaves the cache as it found it.
\<close>

section \<open>Filling one cell\<close>

lemma ofold_map: "ofold f (map g xs) s = ofold (\<lambda>x. f (g x)) xs s"
proof (induction xs arbitrary: s)
  case (Cons x xs)
  then show ?case by (cases "f (g x) s") auto
qed simp

lemma put_cell_trans: "\<lbrakk>put_cell i x h c c1; put_cell i y h' c1 c2\<rbrakk> \<Longrightarrow> put_cell i y h' c c2"
  by (auto simp: put_cell_def cell_put_def view_def split: prod.splits)

text \<open>The sequences of token \<open>i\<close> of a ubatch, and its extra data for 2D positions.\<close>

definition ub_seqs :: "llama_ubatch \<Rightarrow> nat \<Rightarrow> llama_seq_id list" where
  "ub_seqs ub i = take (ub_n_seq_id ub ! i) (ub_seq_id ub ! i)"

definition ub_ext :: "llama_ubatch \<Rightarrow> nat \<Rightarrow> llama_kv_cell_ext \<Rightarrow> llama_kv_cell_ext" where
  "ub_ext ub i e = (if ubatch_is_pos_2d ub
     then \<lparr>ext_x = ub_pos ub ! (i + ub_n_tokens ub * 2), ext_y = ub_pos ub ! (i + ub_n_tokens ub)\<rparr> else e)"

text \<open>A token that can be placed: a proper position and distinct valid sequences.\<close>

definition token_valid :: "llama_ubatch \<Rightarrow> nat \<Rightarrow> bool" where
  "token_valid ub i \<longleftrightarrow> 0 \<le> ub_pos ub ! i \<and> ub_n_seq_id ub ! i \<le> length (ub_seq_id ub ! i) \<and>
     distinct (ub_seqs ub i) \<and> (\<forall>s \<in> set (ub_seqs ub i). valid_seq_id s)"

lemma add_seqs_spec:
  assumes ok: "cells_ok c" and idx: "idx < cells_size c" and p: "c_pos c ! idx \<noteq> -1" "c_seq c ! idx = {}"
    and ids: "distinct (take m ids)" "\<forall>s \<in> set (take m ids). valid_seq_id s" "m \<le> length ids"
  shows "\<exists>c'. ofold (\<lambda>s c. cells_seq_add idx (ids ! s) c) [0..<m] c = Some c' \<and>
    put_cell idx (c_pos c ! idx, c_ext c ! idx, c_shift c ! idx, nat ` set (take m ids)) (c_has_shift c) c c'"
proof (rule ofold_upto[where P = "\<lambda>j c'. put_cell idx (c_pos c ! idx, c_ext c ! idx, c_shift c ! idx, nat ` set (take j ids)) (c_has_shift c) c c'"])
  show "put_cell idx (c_pos c ! idx, c_ext c ! idx, c_shift c ! idx, nat ` set (take 0 ids)) (c_has_shift c) c c"
    using put_cell_same[OF ok idx] p(2) by (simp add: cell_at_def)
next
  fix j t assume j: "j < m" and P: "put_cell idx (c_pos c ! idx, c_ext c ! idx, c_shift c ! idx, nat ` set (take j ids)) (c_has_shift c) c t"
  note D = put_cellD[OF P ok idx]
  have t: "c_pos t ! idx = c_pos c ! idx" "c_ext t ! idx = c_ext c ! idx" "c_shift t ! idx = c_shift c ! idx"
    "c_seq t ! idx = nat ` set (take j ids)" using D(4)[OF idx] by (auto simp: cell_at_def)
  have len: "idx < length (c_pos t)" using D(2) idx by (simp add: cells_size_def)
  have "ids ! j \<in> set (take m ids)" using j ids(3) by (metis in_set_conv_nth length_take min.absorb2 nth_take)
  then have v: "0 \<le> ids ! j" "ids ! j < int LLAMA_MAX_SEQ" using ids(2) by (auto simp: valid_seq_id_def)
  have tk: "take (Suc j) ids = take j ids @ [ids ! j]" using j ids(3) by (simp add: take_Suc_conv_app_nth)
  have "distinct (take (Suc j) ids)" using ids(1) j by (metis Suc_leI distinct_take min.absorb1 take_take)
  then have "ids ! j \<notin> set (take j ids)" unfolding tk by simp
  moreover have "\<forall>s \<in> set (take j ids). 0 \<le> s" using ids(2) j
    by (meson less_imp_le set_take_subset_set_take subsetD valid_seq_id_def)
  ultimately have "nat (ids ! j) \<notin> c_seq t ! idx" using v(1) by (auto simp: t(4) nat_eq_iff2)
  from cells_seq_add_spec[OF D(1) len _ v this] p(1) t obtain t' where
    t': "cells_seq_add idx (ids ! j) t = Some t'"
    "cell_put idx (c_pos t ! idx) (c_ext t ! idx) (c_shift t ! idx) (insert (nat (ids ! j)) (c_seq t ! idx)) (c_has_shift t) t t'"
    by auto
  then have "put_cell idx (c_pos c ! idx, c_ext c ! idx, c_shift c ! idx, nat ` set (take (Suc j) ids)) (c_has_shift c) t t'"
    using D(3) by (simp add: put_cell_def t tk)
  with t'(1) put_cell_trans[OF P] show "\<exists>t'. cells_seq_add idx (ids ! j) t = Some t' \<and>
    put_cell idx (c_pos c ! idx, c_ext c ! idx, c_shift c ! idx, nat ` set (take (Suc j) ids)) (c_has_shift c) c t'" by blast
qed

lemma fill_cell_spec:
  assumes ok: "cells_ok c" and idx: "idx < cells_size c" and e: "c_pos c ! idx = -1" and tv: "token_valid ub i"
  shows "\<exists>c'. fill_cell ub i idx c = Some c' \<and>
    put_cell idx (ub_pos ub ! i, ub_ext ub i (c_ext c ! idx), 0, nat ` set (ub_seqs ub i)) (c_has_shift c) c c'"
proof -
  have idx': "idx < length (c_pos c)" using idx by (simp add: cells_size_def)
  have d0: "c_shift c ! idx = 0" using cells_okD(10)[OF ok idx' e] .
  have p: "0 \<le> ub_pos ub ! i" using tv by (simp add: token_valid_def)
  obtain c1 where c1: "cells_pos_set idx (ub_pos ub ! i) c = Some c1"
    and P1: "put_cell idx (ub_pos ub ! i, c_ext c ! idx, 0, {}) (c_has_shift c) c c1"
    using cells_pos_set_spec[OF ok idx' e p] d0 by (auto simp: put_cell_def)
  note D1 = put_cellD[OF P1 ok idx]
  have f1: "c_pos c1 ! idx = ub_pos ub ! i" "c_ext c1 ! idx = c_ext c ! idx" "c_shift c1 ! idx = 0" "c_seq c1 ! idx = {}"
    using D1(4)[OF idx] by (auto simp: cell_at_def)
  have idx1: "idx < length (c_pos c1)" using D1(2) idx by (simp add: cells_size_def)
  obtain c2 where c2: "(if ubatch_is_pos_2d ub
      then cells_ext_set idx \<lparr>ext_x = ub_pos ub ! (i + ub_n_tokens ub * 2), ext_y = ub_pos ub ! (i + ub_n_tokens ub)\<rparr> c1
      else Some c1) = Some c2"
    and P2: "put_cell idx (ub_pos ub ! i, ub_ext ub i (c_ext c ! idx), 0, {}) (c_has_shift c) c c2"
  proof (cases "ubatch_is_pos_2d ub")
    case True
    with cells_ext_set_spec[OF D1(1) idx1, of "\<lparr>ext_x = ub_pos ub ! (i + ub_n_tokens ub * 2), ext_y = ub_pos ub ! (i + ub_n_tokens ub)\<rparr>"] f1 D1(3)
    show ?thesis using that put_cell_trans[OF P1] by (fastforce simp: put_cell_def ub_ext_def)
  next
    case False
    then show ?thesis using that P1 by (simp add: ub_ext_def)
  qed
  note D2 = put_cellD[OF P2 ok idx]
  have f2: "c_pos c2 ! idx = ub_pos ub ! i" "c_ext c2 ! idx = ub_ext ub i (c_ext c ! idx)" "c_shift c2 ! idx = 0" "c_seq c2 ! idx = {}"
    using D2(4)[OF idx] by (auto simp: cell_at_def)
  have "\<exists>c3. ofold (\<lambda>s c. cells_seq_add idx (ub_seq_id ub ! i ! s) c) [0..<ub_n_seq_id ub ! i] c2 = Some c3 \<and>
    put_cell idx (c_pos c2 ! idx, c_ext c2 ! idx, c_shift c2 ! idx, nat ` set (take (ub_n_seq_id ub ! i) (ub_seq_id ub ! i))) (c_has_shift c2) c2 c3"
    by (rule add_seqs_spec[OF D2(1)]) (use D2(2) idx f2 p tv in \<open>auto simp: token_valid_def ub_seqs_def\<close>)
  then obtain c3 where c3: "ofold (\<lambda>s c. cells_seq_add idx (ub_seq_id ub ! i ! s) c) [0..<ub_n_seq_id ub ! i] c2 = Some c3"
    "put_cell idx (ub_pos ub ! i, ub_ext ub i (c_ext c ! idx), 0, nat ` set (ub_seqs ub i)) (c_has_shift c) c2 c3"
    using f2 D2(3) by (auto simp: ub_seqs_def)
  then show ?thesis using c1 c2 put_cell_trans[OF P2 c3(2)] by (simp add: fill_cell_def)
qed

section \<open>apply_ubatch on empty cells\<close>

lemma evict_empty: "\<lbrakk>cells_ok c; idx < cells_size c; c_pos c ! idx = -1\<rbrakk> \<Longrightarrow> evict idx (rm, c) = Some (rm, c)"
  by (simp add: evict_def cells_is_empty_def cells_size_def)

lemma purge_nothing: "ofold (purge (\<lambda>_. -1)) xs k = Some k"
  by (induction xs) (auto simp: purge_def)

text \<open>A slot of a unified cache: one stream, one distinct empty cell per token.\<close>

definition slot_fits :: "llama_kv_cells \<Rightarrow> llama_ubatch \<Rightarrow> slot_info \<Rightarrow> nat list \<Rightarrow> bool" where
  "slot_fits c ub si xs \<longleftrightarrow> si_strm si = [0] \<and> si_idxs si = [xs] \<and> length xs = ub_n_tokens ub \<and> xs \<noteq> [] \<and> distinct xs \<and>
     (\<forall>i \<in> set xs. i < cells_size c \<and> c_pos c ! i = -1)"

definition ubatch_valid :: "llama_ubatch \<Rightarrow> bool" where
  "ubatch_valid ub \<longleftrightarrow> (\<forall>i < ub_n_tokens ub. token_valid ub i)"

text \<open>The cells after the tokens of \<open>ub\<close> went into the cells \<open>xs\<close>.\<close>

definition filled :: "llama_ubatch \<Rightarrow> nat list \<Rightarrow> llama_kv_cells \<Rightarrow> llama_kv_cells \<Rightarrow> bool" where
  "filled ub xs c c' \<longleftrightarrow> cells_ok c' \<and> cells_size c' = cells_size c \<and> c_has_shift c' = c_has_shift c \<and>
     (\<forall>j < cells_size c. j \<notin> set xs \<longrightarrow> cell_at c' j = cell_at c j) \<and>
     (\<forall>i < length xs. cell_at c' (xs ! i) = (ub_pos ub ! i, ub_ext ub i (c_ext c ! (xs ! i)), 0, nat ` set (ub_seqs ub i)))"

lemma apply_tokens_spec:
  assumes ok: "cells_ok c" and k: "kc_cells k = [c]" and fit: "slot_fits c ub si xs" and v: "ubatch_valid ub"
  shows "\<exists>c'. ofold (apply_token si ub (length xs)) (map (Pair 0) [0..<length xs]) (\<lambda>_. -1, k) = Some (\<lambda>_. -1, k\<lparr>kc_cells := [c']\<rparr>) \<and>
    filled ub xs c c'"
proof -
  let ?P = "\<lambda>j (rm :: nat \<Rightarrow> int, k'). rm = (\<lambda>_. -1) \<and> (\<exists>c'. k' = k\<lparr>kc_cells := [c']\<rparr> \<and> filled ub (take j xs) c c')"
  have si: "si_strm si = [0]" "si_idxs si = [xs]" "length xs = ub_n_tokens ub" "distinct xs"
    "\<And>i. i \<in> set xs \<Longrightarrow> i < cells_size c \<and> c_pos c ! i = -1" using fit by (auto simp: slot_fits_def)
  have "\<exists>t. ofold (\<lambda>ii. apply_token si ub (length xs) (0, ii)) [0..<length xs] (\<lambda>_. -1, k) = Some t \<and> ?P (length xs) t"
  proof (rule ofold_upto[where P = ?P])
    have "k = k\<lparr>kc_cells := [c]\<rparr>" using k by simp
    then show "?P 0 (\<lambda>_. -1, k)" using ok by (auto simp: filled_def)
  next
    fix j t assume j: "j < length xs" and "?P j t"
    then obtain c1 where t: "t = (\<lambda>_. -1, k\<lparr>kc_cells := [c1]\<rparr>)" and f: "filled ub (take j xs) c c1" by auto
    let ?x = "xs ! j"
    have x: "?x < cells_size c" "c_pos c ! ?x = -1" "?x \<notin> set (take j xs)"
      using si(4,5) j by (auto simp: in_set_conv_nth nth_eq_iff_index_eq)
    have c1: "cells_ok c1" "cells_size c1 = cells_size c" "c_has_shift c1 = c_has_shift c" and at: "cell_at c1 ?x = cell_at c ?x"
      using f x by (auto simp: filled_def)
    have e1: "c_pos c1 ! ?x = -1" "c_ext c1 ! ?x = c_ext c ! ?x" using at x(2) by (auto simp: cell_at_def)
    have tv: "token_valid ub j" using v j si(3) by (simp add: ubatch_valid_def)
    obtain c2 where c2: "fill_cell ub j ?x c1 = Some c2"
      and P2: "put_cell ?x (ub_pos ub ! j, ub_ext ub j (c_ext c ! ?x), 0, nat ` set (ub_seqs ub j)) (c_has_shift c) c1 c2"
      using fill_cell_spec[OF c1(1) _ e1(1) tv] x(1) c1(2,3) e1(2) by auto
    note D = put_cellD[OF P2 c1(1), unfolded c1(2), OF x(1)]
    have tk: "take (Suc j) xs = take j xs @ [?x]" using j by (simp add: take_Suc_conv_app_nth)
    have "filled ub (take (Suc j) xs) c c2"
      unfolding filled_def
    proof (intro conjI allI impI)
      fix i assume i: "i < length (take (Suc j) xs)"
      show "cell_at c2 (take (Suc j) xs ! i) = (ub_pos ub ! i, ub_ext ub i (c_ext c ! (take (Suc j) xs ! i)), 0, nat ` set (ub_seqs ub i))"
      proof (cases "i = j")
        case True
        then show ?thesis using D(4)[OF x(1)] j by (simp add: tk nth_append)
      next
        case False
        then have ij: "i < j" using i j by simp
        then have "take (Suc j) xs ! i = take j xs ! i" "xs ! i \<noteq> ?x" "xs ! i < cells_size c"
          using j si(4,5) by (auto simp: nth_eq_iff_index_eq)
        with f ij j D(4)[of "xs ! i"] show ?thesis by (simp add: filled_def)
      qed
    next
      fix i assume "i < cells_size c" "i \<notin> set (take (Suc j) xs)"
      then show "cell_at c2 i = cell_at c i" using f D(4) by (auto simp: filled_def tk)
    qed (use D c1 in auto)
    moreover have "apply_token si ub (length xs) (0, j) t = Some (\<lambda>_. -1, k\<lparr>kc_cells := [c2]\<rparr>)"
      using c2 j evict_empty[OF c1(1) _ e1(1)] x(1) c1(2) by (simp add: apply_token_def t si(1,2))
    ultimately show "\<exists>t'. apply_token si ub (length xs) (0, j) t = Some t' \<and> ?P (Suc j) t'" by blast
  qed
  then show ?thesis unfolding ofold_map by auto
qed

lemma apply_ubatch_spec:
  assumes ok: "cells_ok c" and k: "kc_cells k = [c]" "kc_heads k = [h]" and fit: "slot_fits c ub si xs" and v: "ubatch_valid ub"
  shows "\<exists>c'. apply_ubatch si ub k = Some (k\<lparr>kc_cells := [c'], kc_heads := [last xs + 1]\<rparr>) \<and> filled ub xs c c'"
proof -
  obtain c' where c': "ofold (apply_token si ub (length xs)) (map (Pair 0) [0..<length xs]) (\<lambda>_. -1, k) = Some (\<lambda>_. -1, k\<lparr>kc_cells := [c']\<rparr>)"
    "filled ub xs c c'" using apply_tokens_spec[OF ok k(1) fit v] by blast
  have si: "si_strm si = [0]" "si_idxs si = [xs]" "length xs = ub_n_tokens ub" "xs \<noteq> []" using fit by (auto simp: slot_fits_def)
  have "List.product [0..<1] [0..<length xs] = map (Pair 0) [0..<length xs]" by simp
  then have "apply_ubatch si ub k = Some (k\<lparr>kc_cells := [c'], kc_heads := [last xs + 1]\<rparr>)"
    using c'(1) si k(2) by (simp add: apply_ubatch_def slot_size_def slot_n_stream_def purge_nothing move_head_def)
  with c'(2) show ?thesis by blast
qed

section \<open>Placing and taking back\<close>

text \<open>A unified cache without a sliding window, and a ubatch for it.\<close>

definition plain_cache :: "llama_kv_cache \<Rightarrow> bool" where
  "plain_cache k \<longleftrightarrow> cache_ok k \<and> kc_n_stream k = 1 \<and> kc_swa_type k = SWA_NONE"

definition ubatch_for :: "llama_kv_cache \<Rightarrow> llama_ubatch \<Rightarrow> bool" where
  "ubatch_for k ub \<longleftrightarrow> ubatch_valid ub \<and> 0 < ub_n_tokens ub \<and>
     (\<exists>q qs. ub_seq_id_unq ub = q # qs \<and> q < length (kc_seq_to_stream k))"

lemma plain_cacheD:
  assumes "plain_cache k"
  shows "cache_ok k" "swa_ok k" "kc_n_stream k = 1" "kc_cells k = [kc_cells k ! 0]" "kc_heads k = [kc_heads k ! 0]" "cells_ok (kc_cells k ! 0)"
proof -
  have len: "length (kc_cells k) = 1" "length (kc_heads k) = 1" using assms by (auto simp: plain_cache_def cache_ok_def)
  then show "kc_cells k = [kc_cells k ! 0]" "kc_heads k = [kc_heads k ! 0]" by (auto simp: length_Suc_conv)
  show "cache_ok k" "swa_ok k" "kc_n_stream k = 1" using assms by (auto simp: plain_cache_def swa_ok_def)
  have "kc_cells k ! 0 \<in> set (kc_cells k)" using len by simp
  then show "cells_ok (kc_cells k ! 0)" using assms by (auto simp: plain_cache_def cache_ok_def)
qed

lemma plain_find_slot:
  assumes k: "plain_cache k" and ub: "ubatch_for k ub"
  shows "\<exists>si. find_slot k ub False = Some si \<and>
    (card {i. i < cells_size (kc_cells k ! 0) \<and> c_pos (kc_cells k ! 0) ! i = -1} < ub_n_tokens ub \<and> slot_empty si \<or>
     \<not> slot_empty si \<and> (\<exists>xs. slot_fits (kc_cells k ! 0) ub si xs))"
proof -
  note K = plain_cacheD[OF k]
  obtain q qs where q: "ub_seq_id_unq ub = q # qs" "q < length (kc_seq_to_stream k)" and n: "0 < ub_n_tokens ub"
    using ub by (auto simp: ubatch_for_def)
  have F: "{i. i < cells_size (kc_cells k ! 0) \<and> usable k (kc_cells k ! 0) i} = {i. i < cells_size (kc_cells k ! 0) \<and> c_pos (kc_cells k ! 0) ! i = -1}"
    using usable_no_swa[OF K(6)] k by (auto simp: plain_cache_def)
  from find_slot_spec[OF K(1-3) n q] obtain si where si: "find_slot k ub False = Some si"
    "let F = {i. i < cells_size (kc_cells k ! 0) \<and> usable k (kc_cells k ! 0) i} in
     if card F < ub_n_tokens ub then slot_empty si
     else si_s0 si = 0 \<and> si_s1 si = 0 \<and> si_strm si = [0] \<and>
       (\<exists>xs. si_idxs si = [xs] \<and> length xs = ub_n_tokens ub \<and> distinct xs \<and> set xs \<subseteq> F)" by blast
  show ?thesis
  proof (cases "card {i. i < cells_size (kc_cells k ! 0) \<and> c_pos (kc_cells k ! 0) ! i = -1} < ub_n_tokens ub")
    case True
    with si show ?thesis unfolding F by (auto simp: Let_def)
  next
    case False
    with si(2) n have "\<not> slot_empty si \<and> (\<exists>xs. slot_fits (kc_cells k ! 0) ub si xs)"
      unfolding F Let_def slot_fits_def slot_empty_def by fastforce
    with si(1) show ?thesis by blast
  qed
qed

lemma filled_positions:
  assumes f: "filled ub xs c c'" and xs: "distinct xs" "length xs = ub_n_tokens ub" "\<forall>i \<in> set xs. i < cells_size c \<and> c_pos c ! i = -1"
    and ok: "cells_ok c" and v: "ubatch_valid ub"
  shows "seq_positions c' t = seq_positions c t \<union> {ub_pos ub ! i | i. i < ub_n_tokens ub \<and> int t \<in> set (ub_seqs ub i)}"
proof -
  have new: "t \<in> nat ` set (ub_seqs ub i) \<longleftrightarrow> int t \<in> set (ub_seqs ub i)" if "i < ub_n_tokens ub" for i
  proof -
    have "\<forall>s \<in> set (ub_seqs ub i). 0 \<le> s" using v that by (auto simp: ubatch_valid_def token_valid_def valid_seq_id_def)
    then show ?thesis by (force simp: image_iff)
  qed
  have old: "j \<notin> set xs" if "j < cells_size c" "t \<in> cell_seqs (cell_at c j)" for j
    using that xs(3) cells_okD(9)[OF ok, of j] by (auto simp: cell_at_def cells_size_def)
  have sz: "cells_size c' = cells_size c" using f by (simp add: filled_def)
  have "seq_positions c' t = (\<lambda>j. fst (cell_at c' j)) ` {j. j < cells_size c \<and> j \<notin> set xs \<and> t \<in> cell_seqs (cell_at c' j)} \<union>
      (\<lambda>j. fst (cell_at c' j)) ` {j \<in> set xs. t \<in> cell_seqs (cell_at c' j)}"
    unfolding seq_positions_cell sz using xs(3) by blast
  also have "(\<lambda>j. fst (cell_at c' j)) ` {j. j < cells_size c \<and> j \<notin> set xs \<and> t \<in> cell_seqs (cell_at c' j)} =
      (\<lambda>j. fst (cell_at c j)) ` {j. j < cells_size c \<and> t \<in> cell_seqs (cell_at c j)}"
    by (rule image_cong) (use f old in \<open>auto simp: filled_def\<close>)
  also have "\<dots> = seq_positions c t" unfolding seq_positions_cell by blast
  also have "{j \<in> set xs. t \<in> cell_seqs (cell_at c' j)} = (!) xs ` {i. i < ub_n_tokens ub \<and> int t \<in> set (ub_seqs ub i)}"
    using f xs(2) new by (auto simp: filled_def in_set_conv_nth)
  also have "(\<lambda>j. fst (cell_at c' j)) ` (!) xs ` {i. i < ub_n_tokens ub \<and> int t \<in> set (ub_seqs ub i)} =
      (\<lambda>i. ub_pos ub ! i) ` {i. i < ub_n_tokens ub \<and> int t \<in> set (ub_seqs ub i)}"
    unfolding image_image by (rule image_cong) (use f xs(2) in \<open>auto simp: filled_def\<close>)
  finally show ?thesis by blast
qed

lemma filled_used:
  assumes f: "filled ub xs c c'" and xs: "distinct xs" "length xs = ub_n_tokens ub" "\<forall>i \<in> set xs. i < cells_size c \<and> c_pos c ! i = -1"
    and ok: "cells_ok c" and v: "ubatch_valid ub"
  shows "cells_get_used c' = cells_get_used c + ub_n_tokens ub"
proof -
  have sz: "length (c_pos c') = length (c_pos c)" and ok': "cells_ok c'" using f by (auto simp: filled_def cells_size_def)
  have pos: "c_pos c' ! j \<noteq> -1 \<longleftrightarrow> c_pos c ! j \<noteq> -1 \<or> j \<in> set xs" if j: "j < length (c_pos c)" for j
  proof (cases "j \<in> set xs")
    case True
    then obtain i where i: "i < length xs" "j = xs ! i" by (auto simp: in_set_conv_nth)
    then have "c_pos c' ! j = ub_pos ub ! i" using f by (auto simp: filled_def cell_at_def)
    moreover have "0 \<le> ub_pos ub ! i" using v i xs(2) by (auto simp: ubatch_valid_def token_valid_def)
    ultimately show ?thesis using True by simp
  next
    case False
    then show ?thesis using f j by (auto simp: filled_def cell_at_def cells_size_def)
  qed
  have "{i. i < length (c_pos c') \<and> c_pos c' ! i \<noteq> -1} = {i. i < length (c_pos c) \<and> c_pos c ! i \<noteq> -1} \<union> set xs"
    using pos sz xs(3) by (auto simp: cells_size_def)
  moreover have "{i. i < length (c_pos c) \<and> c_pos c ! i \<noteq> -1} \<inter> set xs = {}" using xs(3) by auto
  ultimately show ?thesis
    using cells_used_eq(1)[OF ok] cells_used_eq(1)[OF ok'] xs(1,2) by (simp add: card_Un_disjoint distinct_card)
qed

lemma plain_apply:
  assumes k: "plain_cache k" and ub: "ubatch_valid ub" and fit: "slot_fits (kc_cells k ! 0) ub si xs"
  shows "\<exists>c'. apply_ubatch si ub k = Some (k\<lparr>kc_cells := [c'], kc_heads := [last xs + 1]\<rparr>) \<and>
    filled ub xs (kc_cells k ! 0) c' \<and> plain_cache (k\<lparr>kc_cells := [c'], kc_heads := [last xs + 1]\<rparr>)"
proof -
  note K = plain_cacheD[OF k]
  obtain c' where c': "apply_ubatch si ub k = Some (k\<lparr>kc_cells := [c'], kc_heads := [last xs + 1]\<rparr>)" "filled ub xs (kc_cells k ! 0) c'"
    using apply_ubatch_spec[OF K(6,4,5) fit ub] by blast
  have "last xs \<in> set xs" using fit by (auto simp: slot_fits_def)
  then have "last xs + 1 \<le> cells_size c'" using c'(2) fit by (auto simp: slot_fits_def filled_def Suc_le_eq)
  moreover have "cells_ok c'" using c'(2) by (simp add: filled_def)
  ultimately have "plain_cache (k\<lparr>kc_cells := [c'], kc_heads := [last xs + 1]\<rparr>)"
    using k by (auto simp: plain_cache_def cache_ok_def)
  with c' show ?thesis by blast
qed

text \<open>
  C19: Placing a ubatch in a unified cache without sliding window. When \<open>find_slot\<close> found a
  slot, it consists of distinct empty cells, one for each token. \<open>apply_ubatch\<close> does not abort and keeps the cache well-formed; the
  i-th cell of the slot gets the position and the sequences of the i-th token, with no shift, every other cell is what it was,
  and the head is behind the last cell of the slot. So every sequence gains
  exactly the positions of its tokens in the ubatch and loses none, and the number of used
  cells grows by the number of tokens.
\<close>

theorem apply_ubatch_places:
  assumes k: "plain_cache k" and ub: "ubatch_for k ub" and si: "find_slot k ub False = Some si" "\<not> slot_empty si"
  shows "\<exists>k' xs. apply_ubatch si ub k = Some k' \<and> plain_cache k' \<and>
    si_idxs si = [xs] \<and> distinct xs \<and> length xs = ub_n_tokens ub \<and> (\<forall>i \<in> set xs. i < cells_size (kc_cells k ! 0) \<and> c_pos (kc_cells k ! 0) ! i = -1) \<and>
    (\<forall>i < length xs. cell_at (kc_cells k' ! 0) (xs ! i) = (ub_pos ub ! i, ub_ext ub i (c_ext (kc_cells k ! 0) ! (xs ! i)), 0, nat ` set (ub_seqs ub i))) \<and>
    (\<forall>j < cells_size (kc_cells k ! 0). j \<notin> set xs \<longrightarrow> cell_at (kc_cells k' ! 0) j = cell_at (kc_cells k ! 0) j) \<and>
    kc_heads k' = [last xs + 1] \<and>
    (\<forall>t < length (kc_seq_to_stream k). cache_positions k' t =
      cache_positions k t \<union> {ub_pos ub ! i | i. i < ub_n_tokens ub \<and> int t \<in> set (ub_seqs ub i)}) \<and>
    cells_get_used (kc_cells k' ! 0) = cells_get_used (kc_cells k ! 0) + ub_n_tokens ub"
proof -
  note K = plain_cacheD[OF k]
  have v: "ubatch_valid ub" using ub by (simp add: ubatch_for_def)
  obtain xs where fit: "slot_fits (kc_cells k ! 0) ub si xs" using plain_find_slot[OF k ub] si by auto
  obtain c' where c': "apply_ubatch si ub k = Some (k\<lparr>kc_cells := [c'], kc_heads := [last xs + 1]\<rparr>)"
    "filled ub xs (kc_cells k ! 0) c'" "plain_cache (k\<lparr>kc_cells := [c'], kc_heads := [last xs + 1]\<rparr>)"
    using plain_apply[OF k v fit] by blast
  have xs: "distinct xs" "length xs = ub_n_tokens ub" "\<forall>i \<in> set xs. i < cells_size (kc_cells k ! 0) \<and> c_pos (kc_cells k ! 0) ! i = -1"
    using fit by (auto simp: slot_fits_def)
  have st: "kc_seq_to_stream k ! t = 0" if "t < length (kc_seq_to_stream k)" for t
    using K(1,3) that by (auto simp: cache_ok_def)
  have "cache_positions (k\<lparr>kc_cells := [c'], kc_heads := [last xs + 1]\<rparr>) t =
      cache_positions k t \<union> {ub_pos ub ! i | i. i < ub_n_tokens ub \<and> int t \<in> set (ub_seqs ub i)}"
    if t: "t < length (kc_seq_to_stream k)" for t
    using filled_positions[OF c'(2) xs K(6) v, of t] t st[OF t] by (simp add: cache_positions_def)
  moreover have "cells_get_used c' = cells_get_used (kc_cells k ! 0) + ub_n_tokens ub"
    by (rule filled_used[OF c'(2) xs K(6) v])
  ultimately show ?thesis using c' xs fit
    by (intro exI[of _ "k\<lparr>kc_cells := [c'], kc_heads := [last xs + 1]\<rparr>"] exI[of _ xs]) (simp add: filled_def slot_fits_def)
qed

lemma filled_agree: "filled ub xs c c' \<Longrightarrow> agree_on (- set xs) c' c"
  by (auto simp: filled_def agree_on_def cell_at_def cells_size_def)

lemma filled_shift:
  assumes "filled ub xs c c'" "i \<in> set xs"
  shows "c_shift c' ! i = 0"
  using assms by (auto simp: filled_def cell_at_def in_set_conv_nth)

text \<open>One round of \<open>prepare\<close>: saving, placing and restoring gives the old cache back.\<close>

lemma restore_placed:
  assumes k: "plain_cache k" and fit: "slot_fits (kc_cells k ! 0) ub si xs" and f: "filled ub xs (kc_cells k ! 0) c'"
  shows "\<exists>saved. save_cells k (zip (si_strm si) (si_idxs si)) = Some saved \<and>
    restore_state \<lparr>ps_sinfo = si, ps_heads_old = kc_heads k, ps_cells = saved\<rparr> (k\<lparr>kc_cells := [c'], kc_heads := [h]\<rparr>) = Some k"
proof -
  note K = plain_cacheD[OF k]
  let ?c = "kc_cells k ! 0"
  have si: "si_strm si = [0]" "si_idxs si = [xs]" "\<And>i. i \<in> set xs \<Longrightarrow> i < length (c_pos ?c) \<and> c_shift ?c ! i = 0"
    using fit cells_okD(10)[OF K(6)] by (auto simp: slot_fits_def cells_size_def)
  obtain r where r: "cells_cp xs ?c = Some r" using cells_cp_spec[OF K(6), of xs] si(3) by blast
  have set: "cells_set xs r c' = Some ?c"
    by (rule cells_set_restores[OF K(6) r si(3) _ filled_agree[OF f] filled_shift[OF f]]) (use f in \<open>auto simp: filled_def\<close>)
  have k0: "0 < length (kc_cells k)" "0 < length (kc_heads k)" using K(4,5) by (metis length_greater_0_conv list.discI)+
  have "save_cells k (zip (si_strm si) (si_idxs si)) = Some [r]" using r si k0 by simp
  moreover have "put_stream 0 (kc_heads k ! 0) ?c (k\<lparr>kc_cells := [c'], kc_heads := [h]\<rparr>) = k"
    using K(4,5) by (simp add: put_stream_def)
  then have "restore_state \<lparr>ps_sinfo = si, ps_heads_old = kc_heads k, ps_cells = [r]\<rparr> (k\<lparr>kc_cells := [c'], kc_heads := [h]\<rparr>) = Some k"
    using set si k0 by (simp add: restore_state_def slot_n_stream_def restore_stream_def)
  ultimately show ?thesis by blast
qed

lemma place_restores:
  assumes "plain_cache k" "\<forall>ub \<in> set ubs. ubatch_for k ub"
  shows "\<exists>success new k'. place_ubatches ubs states k = Some (success, states @ new, k') \<and>
    ofold restore_state (rev new) k' = Some k \<and> (success \<longrightarrow> length new = length ubs)"
  using assms
proof (induction ubs arbitrary: states k)
  case (Cons ub ubs)
  obtain si where si: "find_slot k ub False = Some si"
    and alt: "slot_empty si \<or> \<not> slot_empty si \<and> (\<exists>xs. slot_fits (kc_cells k ! 0) ub si xs)"
    using plain_find_slot[OF Cons.prems(1), of ub] Cons.prems(2) by auto
  show ?case
  proof (cases "slot_empty si")
    case True
    with si show ?thesis by (intro exI[of _ False]) simp
  next
    case False
    with alt obtain xs where fit: "slot_fits (kc_cells k ! 0) ub si xs" by auto
    have v: "ubatch_valid ub" using Cons.prems(2) by (simp add: ubatch_for_def)
    obtain c' where c': "apply_ubatch si ub k = Some (k\<lparr>kc_cells := [c'], kc_heads := [last xs + 1]\<rparr>)"
      "filled ub xs (kc_cells k ! 0) c'" "plain_cache (k\<lparr>kc_cells := [c'], kc_heads := [last xs + 1]\<rparr>)"
      using plain_apply[OF Cons.prems(1) v fit] by blast
    obtain saved where saved: "save_cells k (zip (si_strm si) (si_idxs si)) = Some saved"
      "restore_state \<lparr>ps_sinfo = si, ps_heads_old = kc_heads k, ps_cells = saved\<rparr> (k\<lparr>kc_cells := [c'], kc_heads := [last xs + 1]\<rparr>) = Some k"
      using restore_placed[OF Cons.prems(1) fit c'(2)] by blast
    let ?ps = "\<lparr>ps_sinfo = si, ps_heads_old = kc_heads k, ps_cells = saved\<rparr>"
    have "\<forall>ub \<in> set ubs. ubatch_for (k\<lparr>kc_cells := [c'], kc_heads := [last xs + 1]\<rparr>) ub"
      using Cons.prems(2) by (simp add: ubatch_for_def)
    from Cons.IH[OF c'(3) this, of "states @ [?ps]"] obtain success new k' where
      IH: "place_ubatches ubs (states @ [?ps]) (k\<lparr>kc_cells := [c'], kc_heads := [last xs + 1]\<rparr>) = Some (success, (states @ [?ps]) @ new, k')"
      "ofold restore_state (rev new) k' = Some (k\<lparr>kc_cells := [c'], kc_heads := [last xs + 1]\<rparr>)" "success \<longrightarrow> length new = length ubs"
      by blast
    have "place_ubatches (ub # ubs) states k = Some (success, states @ (?ps # new), k')"
      using si False saved(1) c'(1) IH(1) by simp
    moreover have "ofold restore_state (rev (?ps # new)) k' = Some k" using IH(2) saved(2) by (simp add: ofold_append)
    ultimately show ?thesis using IH(3) by (metis length_Cons)
  qed
qed (auto intro: exI[of _ True])

text \<open>
  Without a sliding window \<open>prepare\<close> is a dry run: on a unified cache and for valid
  ubatches it neither aborts nor changes anything: cells, used sets, position counts and
  heads are what they were, whether a slot was found for every ubatch (then there is one slot
  per ubatch) or not (then the result is empty).
\<close>

lemma prepare_restores:
  assumes "plain_cache k" "\<forall>ub \<in> set ubs. ubatch_for k ub" "ubs \<noteq> []"
  shows "\<exists>sinfos. prepare ubs k = Some (sinfos, k) \<and> (sinfos = [] \<or> length sinfos = length ubs)"
proof -
  obtain success new k' where *: "place_ubatches ubs [] k = Some (success, new, k')"
    "ofold restore_state (rev new) k' = Some k" "success \<longrightarrow> length new = length ubs"
    using place_restores[OF assms(1,2), of "[]"] by auto
  then have "new \<noteq> [] \<or> \<not> success" using assms(3) by auto
  with * show ?thesis by (auto simp: prepare_def)
qed

lemma example_plain: "plain_cache example_cache"
  using example_cache_ok by (simp add: plain_cache_def example_cache_def)

lemma example_for: "ubatch_for example_cache example_ubatch"
  by (simp add: ubatch_for_def ubatch_valid_def token_valid_def ub_seqs_def example_ubatch_def example_cache_def valid_seq_id_def LLAMA_MAX_SEQ_def)

theorem apply_ubatch_places_witness:
  "\<exists>si k'. find_slot example_cache example_ubatch False = Some si \<and> apply_ubatch si example_ubatch example_cache = Some k' \<and>
     cache_positions k' 3 = {7, 8}"
proof -
  obtain si where si: "find_slot example_cache example_ubatch False = Some si"
    and alt: "card {i. i < cells_size (kc_cells example_cache ! 0) \<and> c_pos (kc_cells example_cache ! 0) ! i = -1} < ub_n_tokens example_ubatch \<and> slot_empty si \<or>
      \<not> slot_empty si \<and> (\<exists>xs. slot_fits (kc_cells example_cache ! 0) example_ubatch si xs)"
    using plain_find_slot[OF example_plain example_for] by blast
  have "{i. i < cells_size (kc_cells example_cache ! 0) \<and> c_pos (kc_cells example_cache ! 0) ! i = -1} = {0}"
    by (auto dest!: less_2_cases)
  then have "\<not> slot_empty si" using alt by (auto simp: example_ubatch_def)
  from apply_ubatch_places[OF example_plain example_for si this] obtain k' where k': "apply_ubatch si example_ubatch example_cache = Some k'"
    "\<forall>t < length (kc_seq_to_stream example_cache). cache_positions k' t = cache_positions example_cache t \<union>
      {ub_pos example_ubatch ! i | i. i < ub_n_tokens example_ubatch \<and> int t \<in> set (ub_seqs example_ubatch i)}" by blast
  then have "cache_positions k' 3 = {7, 8}" using example_positions by (auto simp: ub_seqs_def example_ubatch_def)
  with si k'(1) show ?thesis by blast
qed

section \<open>Where prepare does not restore\<close>

text \<open>
  With two streams, a ubatch for the second one alone: the restored head is read from entry 0
  of the saved heads instead of the entry of the stream.
\<close>

definition two_streams :: llama_kv_cache where
  "two_streams = \<lparr>kc_n_seq_max = 2, kc_n_stream = 2, kc_n_pad = 1, kc_n_swa = 0, kc_swa_type = SWA_NONE, kc_n_pos = 1,
     kc_heads = [0, 1], kc_cells = [cells_resize 2 cells_new, cells_resize 2 cells_new], kc_seq_to_stream = [0, 1],
     kc_sc_info = \<lparr>sc_ssrc = [], sc_sdst = []\<rparr>\<rparr>"

definition second_ubatch :: llama_ubatch where
  "second_ubatch = example_ubatch\<lparr>ub_pos := [0], ub_seq_id := [[1]], ub_seq_id_unq := [1]\<rparr>"

lemma prepare_wrong_head: "map_option (kc_heads \<circ> snd) (prepare [second_ubatch] two_streams) = Some [0, 0]"
  by code_simp

text \<open>
  With a sliding window, \<open>apply_ubatch\<close> purges old positions from cells outside the slot: here
  the token goes to cell 1, and cell 0 is used before and empty afterwards. \<open>prepare\<close> saves and
  restores the cells of the slot only, so such cells stay lost.
\<close>

definition window_cells :: llama_kv_cells where
  "window_cells = \<lparr>c_has_shift = False, c_used = [0, 1, 2], c_pos = [0, 1, 2], c_ext = [ext_reset, ext_reset, ext_reset],
     c_shift = [0, 0, 0], c_seq = [{0}, {0}, {0}], c_seq_pos = (\<lambda>_. [])(0 := [(0, 1), (1, 1), (2, 1)])\<rparr>"

definition window_cache :: llama_kv_cache where
  "window_cache = example_cache\<lparr>kc_n_swa := 1, kc_swa_type := SWA_STANDARD, kc_heads := [1], kc_cells := [window_cells]\<rparr>"

definition window_ubatch :: llama_ubatch where
  "window_ubatch = example_ubatch\<lparr>ub_pos := [3], ub_seq_id := [[0]], ub_seq_id_unq := [0]\<rparr>"

lemma apply_purges_outside_slot:
  "map_option (map c_used \<circ> kc_cells) (apply_ubatch \<lparr>si_s0 = 0, si_s1 = 0, si_strm = [0], si_idxs = [[1]]\<rparr> window_ubatch window_cache) = Some [[1, 2]]"
  by code_simp

end
