(* ===== verification/Kv_Mask.thy ===== *)
theory Kv_Mask
  imports Kv_Slots
begin

text \<open>
  The attention mask (\<open>set_input_kq_mask_impl\<close> of \<open>src/src/llama-kv-cache.cpp\<close>). For the first
  token of a sequence the whole row is computed; for a later token the row is copied from the
  first one and only the cells with positions near the batch are recomputed. The theorem of
  this file is that the shortcut computes the same mask as the plain double loop.

  A row of the mask tensor is a list of \<open>n_kv\<close> values; \<open>Masked\<close> is minus infinity.
\<close>

section \<open>Definitions\<close>

datatype mask_value = Masked | Bias int

record mask_args =
  ma_causal :: bool
  ma_swa :: bool
  ma_2d :: bool
  ma_alibi :: bool
  ma_n_swa :: nat
  ma_swa_type :: llama_swa_type
  ma_n_kv :: nat

text \<open>The token of a row: its sequence, position and 2D position.\<close>

record mask_tok =
  mt_seq :: llama_seq_id
  mt_p1 :: llama_pos
  mt_x :: llama_pos
  mt_y :: llama_pos

definition mask_token :: "mask_args \<Rightarrow> llama_ubatch \<Rightarrow> nat \<Rightarrow> mask_tok option" where
  "mask_token A ub i = do {
     ids \<leftarrow> vget (ub_seq_id ub) i;
     seq_id \<leftarrow> vget ids 0;
     p1 \<leftarrow> vget (ub_pos ub) i;
     x \<leftarrow> (if ma_2d A then vget (ub_pos ub) (i + ub_n_tokens ub * 2) else Some 0);
     y \<leftarrow> (if ma_2d A then vget (ub_pos ub) (i + ub_n_tokens ub) else Some 0);
     Some \<lparr>mt_seq = seq_id, mt_p1 = p1, mt_x = x, mt_y = y\<rparr> }"

text \<open>The value of one cell of the row, with the position of the cell if it is of the sequence.\<close>

definition mask_visible :: "llama_kv_cells \<Rightarrow> llama_seq_id \<Rightarrow> nat \<Rightarrow> llama_pos option option" where
  "mask_visible c seq_id j = do {
     e \<leftarrow> cells_is_empty j c;
     if e then Some None
     else do {
       has \<leftarrow> cells_seq_has j seq_id c;
       if \<not> has then Some None
       else do { p0 \<leftarrow> cells_pos_get j c; Some (Some p0) } } }"

definition mask_value_at :: "mask_args \<Rightarrow> llama_kv_cells \<Rightarrow> mask_tok \<Rightarrow> nat \<Rightarrow> llama_pos \<Rightarrow> mask_value option" where
  "mask_value_at A c t j p0 =
    (if ma_causal A \<and> p0 > mt_p1 t then Some Masked
     else do {
       gt \<leftarrow> (if ma_causal A \<and> ma_2d A \<and> p0 = mt_p1 t
             then do { e \<leftarrow> cells_ext_get j c; Some (is_2d_gt e (mt_x t) (mt_y t)) } else Some False);
       if gt then Some Masked
       else do {
         out \<leftarrow> (if ma_swa A then is_masked_swa (ma_n_swa A) (ma_swa_type A) p0 (mt_p1 t) else Some False);
         if out then Some Masked
         else Some (Bias (if ma_alibi A then - \<bar>p0 - mt_p1 t\<bar> else 0)) } })"

text \<open>The loop over all cells; it also records the cells near the batch.\<close>

definition full_step :: "mask_args \<Rightarrow> llama_kv_cells \<Rightarrow> llama_pos \<Rightarrow> mask_tok \<Rightarrow> nat \<Rightarrow> mask_value list \<times> nat list \<Rightarrow> (mask_value list \<times> nat list) option" where
  "full_step A c pos_min t j = (\<lambda>(row, idxs). do {
     vis \<leftarrow> mask_visible c (mt_seq t) j;
     case vis of
       None \<Rightarrow> do { row \<leftarrow> vset row j Masked; Some (row, idxs) }
     | Some p0 \<Rightarrow> do {
         assert_that (\<not> ma_alibi A \<longrightarrow> in_i32 (p0 + int (ma_n_swa A + 32)));
         let idxs = (if \<not> ma_alibi A \<and> p0 + int (ma_n_swa A + 32) \<ge> pos_min then idxs @ [j] else idxs);
         v \<leftarrow> mask_value_at A c t j p0;
         row \<leftarrow> vset row j v;
         Some (row, idxs) } })"

text \<open>The loop over the recorded cells.\<close>

definition prev_step :: "mask_args \<Rightarrow> llama_kv_cells \<Rightarrow> mask_tok \<Rightarrow> nat \<Rightarrow> mask_value list \<Rightarrow> mask_value list option" where
  "prev_step A c t j row = do {
     vis \<leftarrow> mask_visible c (mt_seq t) j;
     case vis of
       None \<Rightarrow> vset row j Masked
     | Some p0 \<Rightarrow> do { v \<leftarrow> mask_value_at A c t j p0; vset row j v } }"

text \<open>One row; \<open>seq_srct\<close> and \<open>seq_idxs\<close> are the two maps of the stream.\<close>

definition mask_row :: "mask_args \<Rightarrow> llama_kv_cache \<Rightarrow> llama_ubatch \<Rightarrow> (llama_seq_id \<Rightarrow> llama_pos) \<Rightarrow> nat \<Rightarrow>
    mask_value list list \<times> (llama_seq_id \<rightharpoonup> nat) \<times> (llama_seq_id \<Rightarrow> nat list) \<Rightarrow>
    (mask_value list list \<times> (llama_seq_id \<rightharpoonup> nat) \<times> (llama_seq_id \<Rightarrow> nat list)) option" where
  "mask_row A k ub pos_min i = (\<lambda>(data, seq_srct, seq_idxs). do {
     t \<leftarrow> mask_token A ub i;
     st \<leftarrow> stream_of (mt_seq t) k;
     c \<leftarrow> vget (kc_cells k) st;
     case (if ma_alibi A then None else seq_srct (mt_seq t)) of
       Some srct \<Rightarrow> do {
         row \<leftarrow> vget data srct;
         row \<leftarrow> ofold (prev_step A c t) (take (ma_n_kv A) (seq_idxs (mt_seq t))) row;
         data \<leftarrow> vset data i row;
         Some (data, seq_srct, seq_idxs) }
     | None \<Rightarrow> do {
         row \<leftarrow> vget data i;
         (row, idxs) \<leftarrow> ofold (full_step A c (pos_min (mt_seq t)) t) [0..<ma_n_kv A] (row, []);
         data \<leftarrow> vset data i row;
         Some (if ma_alibi A then (data, seq_srct, seq_idxs)
               else (data, seq_srct(mt_seq t \<mapsto> i), seq_idxs(mt_seq t := idxs))) } })"

text \<open>The least position of each sequence in the ubatch.\<close>

definition batch_pos_min :: "llama_ubatch \<Rightarrow> llama_seq_id \<Rightarrow> llama_pos" where
  "batch_pos_min ub = fold (\<lambda>i m. let s = ub_seq_id ub ! i ! 0 in m(s := min (m s) (ub_pos ub ! i))) [0..<ub_n_tokens ub] (\<lambda>_. i32_max)"

text \<open>All streams; the two maps are fresh for each stream.\<close>

definition set_input_kq_mask_impl :: "mask_args \<Rightarrow> llama_kv_cache \<Rightarrow> llama_ubatch \<Rightarrow> nat \<Rightarrow> nat \<Rightarrow> mask_value list list \<Rightarrow> mask_value list list option" where
  "set_input_kq_mask_impl A k ub n_stream n_tps data =
     ofold (\<lambda>s data. do {
       (data, _, _) \<leftarrow> ofold (\<lambda>ii. mask_row A k ub (batch_pos_min ub) (s * n_tps + ii)) [0..<n_tps] (data, Map.empty, \<lambda>_. []);
       Some data }) [0..<n_stream] data"

text \<open>\<open>set_input_kq_mask\<close> and the dispatching templates choose the flags.\<close>

definition cache_set_input_kq_mask :: "bool \<Rightarrow> bool \<Rightarrow> llama_kv_cache \<Rightarrow> llama_ubatch \<Rightarrow> nat \<Rightarrow> nat \<Rightarrow> mask_value list list \<Rightarrow> mask_value list list option" where
  "cache_set_input_kq_mask use_alibi causal_attn k ub n_kv n_stream data = do {
     assert_that (n_stream \<noteq> 0 \<and> ub_n_tokens ub mod n_stream = 0);
     set_input_kq_mask_impl \<lparr>ma_causal = causal_attn, ma_swa = (kc_swa_type k \<noteq> SWA_NONE), ma_2d = ubatch_is_pos_2d ub, ma_alibi = use_alibi,
       ma_n_swa = kc_n_swa k, ma_swa_type = kc_swa_type k, ma_n_kv = n_kv\<rparr> k ub n_stream (ub_n_tokens ub div n_stream) data }"

section \<open>The plain mask\<close>

text \<open>The value of cell \<open>j\<close> in the row of token \<open>t\<close>, computed on its own.\<close>

definition mask_ref :: "mask_args \<Rightarrow> llama_kv_cells \<Rightarrow> mask_tok \<Rightarrow> nat \<Rightarrow> mask_value option" where
  "mask_ref A c t j = do {
     vis \<leftarrow> mask_visible c (mt_seq t) j;
     case vis of None \<Rightarrow> Some Masked | Some p0 \<Rightarrow> mask_value_at A c t j p0 }"

section \<open>One row\<close>

text \<open>A token and cells for which no assertion of the row fails.\<close>

definition row_ready :: "mask_args \<Rightarrow> llama_kv_cells \<Rightarrow> mask_tok \<Rightarrow> bool" where
  "row_ready A c t \<longleftrightarrow> cells_ok c \<and> valid_seq_id (mt_seq t) \<and> 0 \<le> mt_p1 t \<and> ma_n_kv A \<le> cells_size c \<and>
     (ma_swa_type A = SWA_CHUNKED \<longrightarrow> ma_n_swa A \<noteq> 0) \<and>
     (\<forall>j < cells_size c. in_i32 (c_pos c ! j + int (ma_n_swa A + 32)))"

definition visible :: "llama_kv_cells \<Rightarrow> llama_seq_id \<Rightarrow> nat \<Rightarrow> bool" where
  "visible c s j \<longleftrightarrow> c_pos c ! j \<noteq> -1 \<and> nat s \<in> c_seq c ! j"

definition near :: "mask_args \<Rightarrow> llama_kv_cells \<Rightarrow> llama_pos \<Rightarrow> llama_seq_id \<Rightarrow> nat \<Rightarrow> bool" where
  "near A c pos_min s j \<longleftrightarrow> visible c s j \<and> c_pos c ! j + int (ma_n_swa A + 32) \<ge> pos_min"

lemma mask_visible_eq:
  assumes "cells_ok c" "valid_seq_id s" "j < cells_size c"
  shows "mask_visible c s j = Some (if visible c s j then Some (c_pos c ! j) else None)"
  using assms cells_okD[OF assms(1), of j]
  by (auto simp: mask_visible_def visible_def cells_is_empty_def cells_seq_has_def bit_test_def cells_pos_get_def valid_seq_id_def cells_size_def)

lemma swa_total: "\<lbrakk>0 \<le> p0; 0 \<le> p1; ty = SWA_CHUNKED \<longrightarrow> n \<noteq> 0\<rbrakk> \<Longrightarrow> \<exists>b. is_masked_swa n ty p0 p1 = Some b"
  by (cases ty) (auto simp: is_masked_swa_def)

lemma mask_value_total:
  assumes r: "row_ready A c t" and j: "j < cells_size c" "visible c s j"
  shows "\<exists>v. mask_value_at A c t j (c_pos c ! j) = Some v"
proof -
  have ok: "cells_ok c" and p: "0 \<le> mt_p1 t" "ma_swa_type A = SWA_CHUNKED \<longrightarrow> ma_n_swa A \<noteq> 0" using r by (auto simp: row_ready_def)
  have j': "j < length (c_pos c)" using j(1) by (simp add: cells_size_def)
  note D = cells_okD[OF ok j']
  have p0: "0 \<le> c_pos c ! j" using D(7) j(2) by (auto simp: visible_def)
  have e: "cells_ext_get j c = Some (c_ext c ! j)" using j' D(6) j(2) by (auto simp: cells_ext_get_def visible_def)
  obtain b where b: "is_masked_swa (ma_n_swa A) (ma_swa_type A) (c_pos c ! j) (mt_p1 t) = Some b"
    using swa_total[OF p0 p] by blast
  show ?thesis unfolding mask_value_at_def e b by (cases "ma_causal A"; cases "ma_2d A"; cases "ma_swa A") auto
qed

abbreviation mv :: "mask_args \<Rightarrow> llama_kv_cells \<Rightarrow> mask_tok \<Rightarrow> nat \<Rightarrow> mask_value" where
  "mv A c t j \<equiv> the (mask_ref A c t j)"

lemma mask_ref_total:
  assumes r: "row_ready A c t" and j: "j < cells_size c"
  shows "mask_ref A c t j = Some (mv A c t j)"
    "visible c (mt_seq t) j \<Longrightarrow> mask_value_at A c t j (c_pos c ! j) = Some (mv A c t j)"
    "\<not> visible c (mt_seq t) j \<Longrightarrow> mv A c t j = Masked"
  using mask_value_total[OF r j, of "mt_seq t"] mask_visible_eq[of c "mt_seq t" j] r j
  by (auto simp: mask_ref_def row_ready_def)

lemma full_row:
  assumes r: "row_ready A c t" and len: "length row = ma_n_kv A" and al: "\<not> ma_alibi A"
  shows "ofold (full_step A c pm t) [0..<ma_n_kv A] (row, []) =
    Some (map (mv A c t) [0..<ma_n_kv A], filter (near A c pm (mt_seq t)) [0..<ma_n_kv A])"
proof -
  let ?P = "\<lambda>n (row', idxs). length row' = ma_n_kv A \<and> (\<forall>j < n. row' ! j = mv A c t j) \<and> idxs = filter (near A c pm (mt_seq t)) [0..<n]"
  have "\<exists>x. ofold (full_step A c pm t) [0..<ma_n_kv A] (row, []) = Some x \<and> ?P (ma_n_kv A) x"
  proof (rule ofold_upto[where P = ?P])
    show "?P 0 (row, [])" using len by simp
  next
    fix j x assume j: "j < ma_n_kv A" and P: "?P j x"
    obtain row' idxs where x: "x = (row', idxs)" by force
    have jc: "j < cells_size c" using j r by (simp add: row_ready_def)
    have i32: "in_i32 (c_pos c ! j + int (ma_n_swa A + 32))" using r jc by (simp add: row_ready_def)
    note M = mask_ref_total[OF r jc] and V = mask_visible_eq[of c "mt_seq t" j]
    have "full_step A c pm t j x = Some (row'[j := mv A c t j], if near A c pm (mt_seq t) j then idxs @ [j] else idxs)"
    proof (cases "visible c (mt_seq t) j")
      case True
      then show ?thesis using M(2) V r jc i32 j P al by (simp add: full_step_def x row_ready_def near_def)
    next
      case False
      then show ?thesis using M(3) V r jc j P by (simp add: full_step_def x row_ready_def near_def)
    qed
    moreover have "?P (Suc j) (row'[j := mv A c t j], if near A c pm (mt_seq t) j then idxs @ [j] else idxs)"
      using P j by (auto simp: x less_Suc_eq nth_list_update)
    ultimately show "\<exists>x'. full_step A c pm t j x = Some x' \<and> ?P (Suc j) x'" by blast
  qed
  then show ?thesis by (auto intro!: nth_equalityI)
qed

lemma full_row_alibi:
  assumes r: "row_ready A c t" and len: "length row = ma_n_kv A" and al: "ma_alibi A"
  shows "ofold (full_step A c pm t) [0..<ma_n_kv A] (row, []) = Some (map (mv A c t) [0..<ma_n_kv A], [])"
proof -
  let ?P = "\<lambda>n (row', idxs :: nat list). length row' = ma_n_kv A \<and> (\<forall>j < n. row' ! j = mv A c t j) \<and> idxs = []"
  have "\<exists>x. ofold (full_step A c pm t) [0..<ma_n_kv A] (row, []) = Some x \<and> ?P (ma_n_kv A) x"
  proof (rule ofold_upto[where P = ?P])
    show "?P 0 (row, [])" using len by simp
  next
    fix j x assume j: "j < ma_n_kv A" and P: "?P j x"
    obtain row' where x: "x = (row', [])" using P by auto
    have jc: "j < cells_size c" using j r by (simp add: row_ready_def)
    note M = mask_ref_total[OF r jc] and V = mask_visible_eq[of c "mt_seq t" j]
    have "full_step A c pm t j x = Some (row'[j := mv A c t j], [])"
      using M(2,3) V r jc j P al by (cases "visible c (mt_seq t) j") (auto simp: full_step_def x row_ready_def)
    moreover have "?P (Suc j) (row'[j := mv A c t j], [])"
      using P j by (auto simp: x less_Suc_eq nth_list_update)
    ultimately show "\<exists>x'. full_step A c pm t j x = Some x' \<and> ?P (Suc j) x'" by blast
  qed
  then show ?thesis by (auto intro!: nth_equalityI)
qed

lemma prev_row:
  assumes r: "row_ready A c t" and len: "length row = ma_n_kv A" and js: "set js \<subseteq> {..<ma_n_kv A}"
  shows "\<exists>row'. ofold (prev_step A c t) js row = Some row' \<and> length row' = ma_n_kv A \<and>
    (\<forall>j < ma_n_kv A. row' ! j = (if j \<in> set js then mv A c t j else row ! j))"
  using len js
proof (induction js arbitrary: row)
  case (Cons i js)
  have i: "i < ma_n_kv A" "i < cells_size c" using Cons.prems(2) r by (auto simp: row_ready_def)
  note M = mask_ref_total[OF r i(2)] and V = mask_visible_eq[of c "mt_seq t" i]
  have step: "prev_step A c t i row = Some (row[i := mv A c t i])"
    using M(2,3) V r i Cons.prems(1) by (cases "visible c (mt_seq t) i") (auto simp: prev_step_def row_ready_def)
  from Cons.IH[of "row[i := mv A c t i]"] Cons.prems obtain row' where
    "ofold (prev_step A c t) js (row[i := mv A c t i]) = Some row'" "length row' = ma_n_kv A"
    "\<forall>j < ma_n_kv A. row' ! j = (if j \<in> set js then mv A c t j else row[i := mv A c t i] ! j)" by auto
  then show ?case using step Cons.prems(1) by (auto simp: nth_list_update)
qed simp

text \<open>Why the shortcut is right: cells far behind the batch look the same to all its tokens.\<close>

lemma far_same:
  assumes r: "row_ready A c t" "row_ready A c t0" and j: "j < cells_size c" and same: "mt_seq t = mt_seq t0"
    and pm: "pm \<le> mt_p1 t" "pm \<le> mt_p1 t0" and far: "\<not> near A c pm (mt_seq t) j" and al: "\<not> ma_alibi A"
  shows "mv A c t j = mv A c t0 j"
proof (cases "visible c (mt_seq t) j")
  case False
  then show ?thesis using mask_ref_total(3)[OF r(1) j] mask_ref_total(3)[OF r(2) j] same by simp
next
  case True
  let ?p = "c_pos c ! j" and ?n = "int (ma_n_swa A)"
  have j': "j < length (c_pos c)" "cells_ok c" using j r(1) by (auto simp: cells_size_def row_ready_def)
  have p: "0 \<le> ?p" using cells_okD(7)[OF j'(2,1)] True by (auto simp: visible_def)
  have lt: "?p + ?n + 32 < mt_p1 t" "?p + ?n + 32 < mt_p1 t0" using far True pm by (auto simp: near_def)
  have ch: "ma_swa_type A = SWA_CHUNKED \<Longrightarrow> 0 < ?n" using r(1) by (auto simp: row_ready_def)
  have swa: "is_masked_swa (ma_n_swa A) (ma_swa_type A) ?p q = Some (ma_swa_type A \<noteq> SWA_NONE)" if q: "?p + ?n + 32 < q" for q
  proof (cases "ma_swa_type A")
    case SWA_CHUNKED
    have "q - ?n < q div ?n * ?n"
      using ch[OF SWA_CHUNKED] by (simp add: minus_mod_eq_div_mult[symmetric])
    then show ?thesis using q p ch[OF SWA_CHUNKED] SWA_CHUNKED by (simp add: is_masked_swa_def)
  next
    case SWA_SYMMETRIC
    have "?n div 2 \<le> ?n" by simp
    with q p SWA_SYMMETRIC show ?thesis by (simp add: is_masked_swa_def)
  qed (use q p in \<open>auto simp: is_masked_swa_def\<close>)
  have "mask_value_at A c t j ?p = mask_value_at A c t0 j ?p"
    using lt al swa[OF lt(1)] swa[OF lt(2)] by (simp add: mask_value_at_def)
  then show ?thesis using mask_ref_total(2)[OF r(1) j True] mask_ref_total(2)[OF r(2) j] True same by simp
qed

section \<open>All rows\<close>

lemma batch_pos_min_le:
  assumes "i < ub_n_tokens ub"
  shows "batch_pos_min ub (ub_seq_id ub ! i ! 0) \<le> ub_pos ub ! i"
proof -
  let ?f = "\<lambda>i m. let s = ub_seq_id ub ! i ! 0 in m(s := min (m s) (ub_pos ub ! i))"
  have mono: "fold ?f xs m s \<le> m s" for xs m s
  proof (induction xs arbitrary: m)
    case (Cons x xs)
    have "?f x m s \<le> m s" by (simp add: Let_def)
    with Cons[of "?f x m"] show ?case by (simp del: fun_upd_apply)
  qed simp
  have "i \<in> set xs \<Longrightarrow> fold ?f xs m (ub_seq_id ub ! i ! 0) \<le> ub_pos ub ! i" for xs m
  proof (induction xs arbitrary: m)
    case (Cons x xs)
    show ?case
    proof (cases "x = i")
      case True
      have "fold ?f xs (?f i m) (ub_seq_id ub ! i ! 0) \<le> ?f i m (ub_seq_id ub ! i ! 0)" by (rule mono)
      also have "\<dots> \<le> ub_pos ub ! i" by (simp add: Let_def)
      finally show ?thesis using True by (simp only: fold_simps)
    next
      case False
      with Cons show ?thesis by simp
    qed
  qed simp
  then show ?thesis using assms by (simp add: batch_pos_min_def)
qed

text \<open>Token \<open>i\<close> and the cells of its stream.\<close>

definition mask_tok_of :: "mask_args \<Rightarrow> llama_ubatch \<Rightarrow> nat \<Rightarrow> mask_tok" where
  "mask_tok_of A ub i = the (mask_token A ub i)"

definition mask_cells_of :: "llama_kv_cache \<Rightarrow> llama_seq_id \<Rightarrow> llama_kv_cells" where
  "mask_cells_of k s = cells_of k (nat s)"

definition mask_ready :: "mask_args \<Rightarrow> llama_kv_cache \<Rightarrow> llama_ubatch \<Rightarrow> bool" where
  "mask_ready A k ub \<longleftrightarrow> cache_ok k \<and> (\<forall>i < ub_n_tokens ub. mask_token A ub i \<noteq> None \<and>
     known_seq k (mt_seq (mask_tok_of A ub i)) \<and>
     row_ready A (mask_cells_of k (mt_seq (mask_tok_of A ub i))) (mask_tok_of A ub i))"

definition ref_row :: "mask_args \<Rightarrow> llama_kv_cache \<Rightarrow> llama_ubatch \<Rightarrow> nat \<Rightarrow> mask_value list" where
  "ref_row A k ub i = map (mv A (mask_cells_of k (mt_seq (mask_tok_of A ub i))) (mask_tok_of A ub i)) [0..<ma_n_kv A]"

lemma mask_readyD:
  assumes "mask_ready A k ub" "i < ub_n_tokens ub"
  shows "mask_token A ub i = Some (mask_tok_of A ub i)" "stream_of (mt_seq (mask_tok_of A ub i)) k = Some (kc_seq_to_stream k ! nat (mt_seq (mask_tok_of A ub i)))"
    "vget (kc_cells k) (kc_seq_to_stream k ! nat (mt_seq (mask_tok_of A ub i))) = Some (mask_cells_of k (mt_seq (mask_tok_of A ub i)))"
    "row_ready A (mask_cells_of k (mt_seq (mask_tok_of A ub i))) (mask_tok_of A ub i)"
    "batch_pos_min ub (mt_seq (mask_tok_of A ub i)) \<le> mt_p1 (mask_tok_of A ub i)"
proof -
  let ?t = "mask_tok_of A ub i"
  show t: "mask_token A ub i = Some ?t" using assms by (auto simp: mask_ready_def mask_tok_of_def)
  have kn: "known_seq k (mt_seq ?t)" "cache_ok k" using assms by (auto simp: mask_ready_def)
  show "stream_of (mt_seq ?t) k = Some (kc_seq_to_stream k ! nat (mt_seq ?t))" by (rule stream_of_known[OF kn(1)])
  show "vget (kc_cells k) (kc_seq_to_stream k ! nat (mt_seq ?t)) = Some (mask_cells_of k (mt_seq ?t))"
    using cache_okD(1)[OF kn(2,1)] by (simp add: mask_cells_of_def)
  show "row_ready A (mask_cells_of k (mt_seq ?t)) ?t" using assms by (auto simp: mask_ready_def)
  have "mt_seq ?t = ub_seq_id ub ! i ! 0" "mt_p1 ?t = ub_pos ub ! i"
    using t by (auto simp: mask_token_def bind_Some_iff dest!: sym[of _ ?t])
  then show "batch_pos_min ub (mt_seq ?t) \<le> mt_p1 ?t" using batch_pos_min_le[OF assms(2)] by simp
qed

text \<open>The maps are right for the rows \<open>R\<close> done so far in this stream.\<close>

definition maps_ok :: "mask_args \<Rightarrow> llama_kv_cache \<Rightarrow> llama_ubatch \<Rightarrow> nat set \<Rightarrow> (llama_seq_id \<rightharpoonup> nat) \<Rightarrow> (llama_seq_id \<Rightarrow> nat list) \<Rightarrow> bool" where
  "maps_ok A k ub R srct sidxs \<longleftrightarrow> (\<forall>q i0. srct q = Some i0 \<longrightarrow> i0 \<in> R \<and> mt_seq (mask_tok_of A ub i0) = q \<and>
     sidxs q = filter (near A (mask_cells_of k q) (batch_pos_min ub q) q) [0..<ma_n_kv A])"

lemma mask_row_step:
  assumes rd: "mask_ready A k ub" and i: "i < ub_n_tokens ub" "i \<notin> R" "R \<subseteq> {..<ub_n_tokens ub}"
    and len: "length data = ub_n_tokens ub" "\<forall>row \<in> set data. length row = ma_n_kv A"
    and dn: "\<forall>r \<in> R. data ! r = ref_row A k ub r" and maps: "maps_ok A k ub R srct sidxs"
  shows "\<exists>srct' sidxs'. mask_row A k ub (batch_pos_min ub) i (data, srct, sidxs) = Some (data[i := ref_row A k ub i], srct', sidxs') \<and>
    maps_ok A k ub (insert i R) srct' sidxs'"
proof -
  let ?t = "mask_tok_of A ub i"
  let ?c = "mask_cells_of k (mt_seq ?t)" and ?pm = "batch_pos_min ub (mt_seq ?t)"
  note D = mask_readyD[OF rd i(1)]
  have row: "length (data ! i) = ma_n_kv A" using len i(1) by simp
  show ?thesis
  proof (cases "if ma_alibi A then None else srct (mt_seq ?t)")
    case None
    have "ofold (full_step A ?c ?pm ?t) [0..<ma_n_kv A] (data ! i, []) =
        Some (ref_row A k ub i, if ma_alibi A then [] else filter (near A ?c ?pm (mt_seq ?t)) [0..<ma_n_kv A])"
      using full_row[OF D(4) row] full_row_alibi[OF D(4) row] by (simp add: ref_row_def)
    then have "mask_row A k ub (batch_pos_min ub) i (data, srct, sidxs) = Some (if ma_alibi A then (data[i := ref_row A k ub i], srct, sidxs)
        else (data[i := ref_row A k ub i], srct(mt_seq ?t \<mapsto> i), sidxs(mt_seq ?t := filter (near A ?c ?pm (mt_seq ?t)) [0..<ma_n_kv A])))"
      using None D(1-3) i(1) len(1) by (simp add: mask_row_def)
    then show ?thesis using maps by (auto simp: maps_ok_def)
  next
    case (Some i0)
    then have al: "\<not> ma_alibi A" and i0: "srct (mt_seq ?t) = Some i0" by (auto split: if_splits)
    let ?u = "mask_tok_of A ub i0"
    let ?js = "filter (near A ?c ?pm (mt_seq ?t)) [0..<ma_n_kv A]"
    have m: "i0 \<in> R" "mt_seq ?u = mt_seq ?t" "sidxs (mt_seq ?t) = ?js" using maps i0 by (auto simp: maps_ok_def)
    have i0n: "i0 < ub_n_tokens ub" using m(1) i(3) by auto
    note D0 = mask_readyD[OF rd i0n]
    have D0': "row_ready A ?c ?u" "?pm \<le> mt_p1 ?u"
      using D0(4,5) m(2) by (simp_all only:)
    have data0: "data ! i0 = map (mv A ?c ?u) [0..<ma_n_kv A]" using dn m(1,2) by (simp add: ref_row_def)
    have tk: "take (ma_n_kv A) ?js = ?js" using length_filter_le[of "near A ?c ?pm (mt_seq ?t)" "[0..<ma_n_kv A]"] by simp
    obtain row' where row': "ofold (prev_step A ?c ?t) ?js (data ! i0) = Some row'" "length row' = ma_n_kv A"
      "\<forall>j < ma_n_kv A. row' ! j = (if j \<in> set ?js then mv A ?c ?t j else data ! i0 ! j)"
      using prev_row[OF D(4), of "data ! i0" ?js] data0 by auto
    have "row' ! j = mv A ?c ?t j" if j: "j < ma_n_kv A" for j
    proof (cases "near A ?c ?pm (mt_seq ?t) j")
      case True
      then show ?thesis using row'(3) j by simp
    next
      case False
      have jc: "j < cells_size ?c" using D(4) j by (simp add: row_ready_def)
      have "mv A ?c ?t j = mv A ?c ?u j"
        by (rule far_same[OF D(4) D0'(1) jc m(2)[symmetric] D(5) D0'(2) False al])
      then show ?thesis using row'(3) j False data0 by simp
    qed
    then have "row' = ref_row A k ub i" using row'(2) by (auto simp: ref_row_def intro!: nth_equalityI)
    then have "mask_row A k ub (batch_pos_min ub) i (data, srct, sidxs) = Some (data[i := ref_row A k ub i], srct, sidxs)"
      using i0 al D(1-3) i0n i(1) len(1) row'(1) m(3) tk by (simp add: mask_row_def)
    then show ?thesis using maps by (auto simp: maps_ok_def)
  qed
qed

lemma mask_stream:
  assumes rd: "mask_ready A k ub" and s: "s * n_tps + n_tps \<le> ub_n_tokens ub"
    and len: "length data = ub_n_tokens ub" "\<forall>row \<in> set data. length row = ma_n_kv A"
  shows "\<exists>data' srct sidxs. ofold (\<lambda>ii. mask_row A k ub (batch_pos_min ub) (s * n_tps + ii)) [0..<n_tps] (data, Map.empty, \<lambda>_. []) = Some (data', srct, sidxs) \<and>
    length data' = length data \<and> (\<forall>row \<in> set data'. length row = ma_n_kv A) \<and>
    (\<forall>i < length data. data' ! i = (if s * n_tps \<le> i \<and> i < s * n_tps + n_tps then ref_row A k ub i else data ! i))"
proof -
  let ?P = "\<lambda>m (d, srct, sidxs). length d = length data \<and> (\<forall>row \<in> set d. length row = ma_n_kv A) \<and>
    (\<forall>i < length data. d ! i = (if s * n_tps \<le> i \<and> i < s * n_tps + m then ref_row A k ub i else data ! i)) \<and>
    maps_ok A k ub {s * n_tps..<s * n_tps + m} srct sidxs"
  have "\<exists>x. ofold (\<lambda>ii. mask_row A k ub (batch_pos_min ub) (s * n_tps + ii)) [0..<n_tps] (data, Map.empty, \<lambda>_. []) = Some x \<and> ?P n_tps x"
  proof (rule ofold_upto[where P = ?P])
    show "?P 0 (data, Map.empty, \<lambda>_. [])" using len by (auto simp: maps_ok_def)
  next
    fix m x assume m: "m < n_tps" and P: "?P m x"
    obtain d srct sidxs where x: "x = (d, srct, sidxs)" by (cases x)
    let ?i = "s * n_tps + m"
    have i: "?i < ub_n_tokens ub" using s m by simp
    obtain srct' sidxs' where st: "mask_row A k ub (batch_pos_min ub) ?i (d, srct, sidxs) = Some (d[?i := ref_row A k ub ?i], srct', sidxs')"
      "maps_ok A k ub (insert ?i {s * n_tps..<?i}) srct' sidxs'"
      using mask_row_step[OF rd i, of "{s * n_tps..<?i}" d srct sidxs] P i len by (fastforce simp: x)
    have "insert ?i {s * n_tps..<?i} = {s * n_tps..<s * n_tps + Suc m}" by auto
    moreover have "\<forall>row \<in> set (d[?i := ref_row A k ub ?i]). length row = ma_n_kv A"
      using P set_update_subset_insert[of d ?i "ref_row A k ub ?i"] by (auto simp: x ref_row_def)
    ultimately have "?P (Suc m) (d[?i := ref_row A k ub ?i], srct', sidxs')"
      using P st(2) i len(1) by (auto simp: x nth_list_update)
    with st(1) x show "\<exists>x'. mask_row A k ub (batch_pos_min ub) ?i x = Some x' \<and> ?P (Suc m) x'" by blast
  qed
  then show ?thesis by auto
qed

lemma mask_impl_spec:
  assumes rd: "mask_ready A k ub" and n: "ub_n_tokens ub = n_stream * n_tps"
    and len: "length data = ub_n_tokens ub" "\<forall>row \<in> set data. length row = ma_n_kv A"
  shows "set_input_kq_mask_impl A k ub n_stream n_tps data = Some (map (ref_row A k ub) [0..<ub_n_tokens ub])"
proof -
  let ?P = "\<lambda>s d. length d = length data \<and> (\<forall>row \<in> set d. length row = ma_n_kv A) \<and> (\<forall>i < s * n_tps. d ! i = ref_row A k ub i)"
  have "\<exists>d. set_input_kq_mask_impl A k ub n_stream n_tps data = Some d \<and> ?P n_stream d"
    unfolding set_input_kq_mask_impl_def
  proof (rule ofold_upto[where P = ?P])
    show "?P 0 data" using len by simp
  next
    fix s d assume s: "s < n_stream" and P: "?P s d"
    have "Suc s * n_tps \<le> n_stream * n_tps" using s by (intro mult_le_mono1) simp
    then have le: "s * n_tps + n_tps \<le> ub_n_tokens ub" by (simp add: n)
    from mask_stream[OF rd le, of d] P len obtain d' srct sidxs where
      "ofold (\<lambda>ii. mask_row A k ub (batch_pos_min ub) (s * n_tps + ii)) [0..<n_tps] (d, Map.empty, \<lambda>_. []) = Some (d', srct, sidxs)"
      "length d' = length d" "\<forall>row \<in> set d'. length row = ma_n_kv A"
      "\<forall>i < length d. d' ! i = (if s * n_tps \<le> i \<and> i < s * n_tps + n_tps then ref_row A k ub i else d ! i)" by auto
    with P le len(1) show "\<exists>d'. (do { (data, _, _) \<leftarrow> ofold (\<lambda>ii. mask_row A k ub (batch_pos_min ub) (s * n_tps + ii)) [0..<n_tps] (d, Map.empty, \<lambda>_. []); Some data }) = Some d' \<and> ?P (Suc s) d'"
      by auto
  qed
  then show ?thesis using n len(1) by (auto intro!: nth_equalityI)
qed

text \<open>
  C21: The mask is right. Copying the row of the first token of a sequence and recomputing only
  the cells recorded as near the batch gives, for every token and every cell, the value that
  computing the cell on its own gives: masked if the cell is empty or not of the token's
  sequence, in the future (causal), or outside the window, and the bias otherwise.
\<close>

theorem kq_mask_reuse_correct:
  assumes "mask_ready A k ub" "ub_n_tokens ub = n_stream * n_tps"
    "length data = ub_n_tokens ub" "\<forall>row \<in> set data. length row = ma_n_kv A"
  shows "\<exists>data'. set_input_kq_mask_impl A k ub n_stream n_tps data = Some data' \<and> length data' = ub_n_tokens ub \<and>
    (\<forall>i < ub_n_tokens ub. length (data' ! i) = ma_n_kv A \<and>
      (\<forall>j < ma_n_kv A. mask_ref A (mask_cells_of k (mt_seq (mask_tok_of A ub i))) (mask_tok_of A ub i) j = Some (data' ! i ! j)))"
proof -
  have "mask_ref A (mask_cells_of k (mt_seq (mask_tok_of A ub i))) (mask_tok_of A ub i) j = Some (ref_row A k ub i ! j)"
    if "i < ub_n_tokens ub" "j < ma_n_kv A" for i j
    using mask_ref_total(1)[OF mask_readyD(4)[OF assms(1) that(1)], of j] mask_readyD(4)[OF assms(1) that(1)] that(2)
    by (auto simp: ref_row_def row_ready_def)
  then show ?thesis using mask_impl_spec[OF assms] by (auto simp: ref_row_def)
qed

text \<open>Two tokens of sequence 3, whose position 7 the cache holds: masked at 6, visible at 7.\<close>

definition example_mask_ubatch :: llama_ubatch where
  "example_mask_ubatch = \<lparr>ub_equal_seqs = False, ub_n_tokens = 2, ub_n_seq_tokens = 1, ub_n_seqs = 2, ub_n_seqs_unq = 1, ub_n_pos = 1,
     ub_token = Some [11, 12], ub_embd = None, ub_pos = [6, 7], ub_n_seq_id = [1, 1], ub_seq_id = [[3], [3]], ub_seq_id_unq = [3],
     ub_seq_idx = [], ub_output = [1, 1]\<rparr>"

definition example_mask_args :: mask_args where
  "example_mask_args = \<lparr>ma_causal = True, ma_swa = False, ma_2d = False, ma_alibi = False, ma_n_swa = 0, ma_swa_type = SWA_NONE, ma_n_kv = 2\<rparr>"

lemma example_mask_ready: "mask_ready example_mask_args example_cache example_mask_ubatch"
  "mask_tok_of example_mask_args example_mask_ubatch 0 = \<lparr>mt_seq = 3, mt_p1 = 6, mt_x = 0, mt_y = 0\<rparr>"
  "mask_tok_of example_mask_args example_mask_ubatch (Suc 0) = \<lparr>mt_seq = 3, mt_p1 = 7, mt_x = 0, mt_y = 0\<rparr>"
proof -
  have tok: "mask_token example_mask_args example_mask_ubatch 0 = Some \<lparr>mt_seq = 3, mt_p1 = 6, mt_x = 0, mt_y = 0\<rparr>"
    "mask_token example_mask_args example_mask_ubatch (Suc 0) = Some \<lparr>mt_seq = 3, mt_p1 = 7, mt_x = 0, mt_y = 0\<rparr>"
    by (simp_all add: mask_token_def example_mask_args_def example_mask_ubatch_def)
  then show "mask_tok_of example_mask_args example_mask_ubatch 0 = \<lparr>mt_seq = 3, mt_p1 = 6, mt_x = 0, mt_y = 0\<rparr>"
    "mask_tok_of example_mask_args example_mask_ubatch (Suc 0) = \<lparr>mt_seq = 3, mt_p1 = 7, mt_x = 0, mt_y = 0\<rparr>"
    by (simp_all add: mask_tok_of_def)
  have "cells_ok example_cells" by (rule cells_reach_ok[OF example_cells_reach])
  then show "mask_ready example_mask_args example_cache example_mask_ubatch"
    using tok example_cache_ok example_known
    by (auto simp: mask_ready_def mask_tok_of_def row_ready_def mask_cells_of_def example_mask_ubatch_def example_mask_args_def
        valid_seq_id_def LLAMA_MAX_SEQ_def in_i32_def i32_max_def less_2_cases_iff)
qed

theorem kq_mask_reuse_correct_witness:
  "\<exists>data'. set_input_kq_mask_impl example_mask_args example_cache example_mask_ubatch 1 2 [[Masked, Masked], [Masked, Masked]] = Some data' \<and>
    data' ! 0 ! 1 = Masked \<and> data' ! 1 ! 1 = Bias 0"
proof -
  let ?d = "[[Masked, Masked], [Masked, Masked]]"
  have "ub_n_tokens example_mask_ubatch = 1 * 2" "length ?d = ub_n_tokens example_mask_ubatch" "\<forall>row \<in> set ?d. length row = ma_n_kv example_mask_args"
    by (simp_all add: example_mask_ubatch_def example_mask_args_def)
  from kq_mask_reuse_correct[OF example_mask_ready(1) this] obtain data' where
    d: "set_input_kq_mask_impl example_mask_args example_cache example_mask_ubatch 1 2 ?d = Some data'"
      "\<forall>i < 2. \<forall>j < 2. mask_ref example_mask_args (mask_cells_of example_cache (mt_seq (mask_tok_of example_mask_args example_mask_ubatch i)))
        (mask_tok_of example_mask_args example_mask_ubatch i) j = Some (data' ! i ! j)"
    by (auto simp: example_mask_ubatch_def example_mask_args_def)
  have r: "mask_ref example_mask_args example_cells \<lparr>mt_seq = 3, mt_p1 = 6, mt_x = 0, mt_y = 0\<rparr> (Suc 0) = Some Masked"
    "mask_ref example_mask_args example_cells \<lparr>mt_seq = 3, mt_p1 = 7, mt_x = 0, mt_y = 0\<rparr> (Suc 0) = Some (Bias 0)"
    by code_simp+
  have c: "mask_cells_of example_cache 3 = example_cells" by (simp add: mask_cells_of_def)
  have "data' ! 0 ! 1 = Masked" "data' ! 1 ! 1 = Bias 0"
    using d(2)[rule_format, of 0 1] d(2)[rule_format, of 1 1] r by (simp_all add: example_mask_ready(2,3) c)
  with d(1) show ?thesis by blast
qed

end
