(* ===== verification/Kv_State.thy ===== *)
theory Kv_State
  imports Kv_Place
begin

text \<open>
  Saving and restoring the cache (\<open>state_write\<close>, \<open>state_read\<close> of \<open>src/src/llama-kv-cache.cpp\<close>), with the byte buffers of
  \<open>src/src/llama-context.cpp\<close>. A tensor is the list of its bytes; the tensors of the streams are disjoint views. Integers are
  written as the bytes of a little-endian machine. The rows that ggml computes from the types of the tensors are fields
  of the layer. Offsets into transposed values are computed in \<open>uint32_t\<close>, on both sides in a different way; all other offsets
  have 64 bits.
\<close>

section \<open>Bytes\<close>

fun le_bytes :: "nat \<Rightarrow> nat \<Rightarrow> nat list" where
  "le_bytes 0 v = []"
| "le_bytes (Suc n) v = v mod 256 # le_bytes n (v div 256)"

fun le_value :: "nat list \<Rightarrow> nat" where
  "le_value [] = 0"
| "le_value (b # bs) = b + 256 * le_value bs"

definition u32_bytes :: "nat \<Rightarrow> nat list" where
  "u32_bytes v = le_bytes 4 v"

definition u64_bytes :: "nat \<Rightarrow> nat list" where
  "u64_bytes v = le_bytes 8 v"

definition i32_bytes :: "int \<Rightarrow> nat list" where
  "i32_bytes x = le_bytes 4 (nat (x mod 2 ^ 32))"

definition i32_of :: "nat \<Rightarrow> int" where
  "i32_of v = (if int v < 2 ^ 31 then int v else int v - 2 ^ 32)"

text \<open>\<open>llama_io_read_buffer::read\<close>; \<open>None\<close> is the exception at the end of the buffer.\<close>

definition io_read :: "nat \<Rightarrow> nat list \<Rightarrow> (nat list \<times> nat list) option" where
  "io_read sz io = (if sz > length io then None else Some (take sz io, drop sz io))"

definition read_u32 :: "nat list \<Rightarrow> (nat \<times> nat list) option" where
  "read_u32 io = do { (bs, io) \<leftarrow> io_read 4 io; Some (le_value bs, io) }"

definition read_u64 :: "nat list \<Rightarrow> (nat \<times> nat list) option" where
  "read_u64 io = do { (bs, io) \<leftarrow> io_read 8 io; Some (le_value bs, io) }"

definition read_i32 :: "nat list \<Rightarrow> (int \<times> nat list) option" where
  "read_i32 io = do { (bs, io) \<leftarrow> io_read 4 io; Some (i32_of (le_value bs), io) }"

text \<open>\<open>ggml_backend_tensor_get\<close> and \<open>ggml_backend_tensor_set\<close> do nothing for no bytes, and assert that the range is inside the
  tensor otherwise.\<close>

definition tensor_get :: "nat list \<Rightarrow> nat \<Rightarrow> nat \<Rightarrow> nat list option" where
  "tensor_get t off n = (if n = 0 then Some [] else do { assert_that (off + n \<le> length t); Some (take n (drop off t)) })"

definition tensor_set :: "nat list \<Rightarrow> nat list \<Rightarrow> nat \<Rightarrow> nat list option" where
  "tensor_set t data off = (if data = [] then Some t
     else do { assert_that (off + length data \<le> length t); Some (take off t @ data @ drop (off + length data) t) })"

lemma tensor_get_in: "off + n \<le> length t \<Longrightarrow> tensor_get t off n = Some (take n (drop off t))"
  by (simp add: tensor_get_def)

lemma tensor_set_in: "off + length data \<le> length t \<Longrightarrow> tensor_set t data off = Some (take off t @ data @ drop (off + length data) t)"
  by (simp add: tensor_set_def)

lemma length_tensor_set: "tensor_set t data off = Some t' \<Longrightarrow> length t' = length t"
  by (auto simp: tensor_set_def split: if_splits)

section \<open>The cache with its tensors\<close>

text \<open>One layer: the keys, and the values unless the layer has none, one tensor for each stream.\<close>

record kv_layer =
  kl_k_type :: int
  kl_k_row :: nat
  kl_k :: "nat list list"
  kl_v_type :: int
  kl_v_row :: nat
  kl_v_el :: nat
  kl_n_embd_v :: nat
  kl_v :: "nat list option list"

record kv_store =
  ks_cache :: llama_kv_cache
  ks_v_trans :: bool
  ks_layers :: "kv_layer list"

text \<open>\<open>clear(true)\<close> also zeroes the buffers.\<close>

definition layer_zero :: "kv_layer \<Rightarrow> kv_layer" where
  "layer_zero l = l\<lparr>kl_k := map (map (\<lambda>_. 0)) (kl_k l), kl_v := map (map_option (map (\<lambda>_. 0))) (kl_v l)\<rparr>"

definition store_clear :: "kv_store \<Rightarrow> kv_store" where
  "store_clear st = st\<lparr>ks_cache := cache_clear (ks_cache st), ks_layers := map layer_zero (ks_layers st)\<rparr>"

section \<open>Writing\<close>

text \<open>The loop that collects the ranges of cells: the count, the begin of the open range (the size if there is none) and the
  ranges so far.\<close>

definition range_step :: "llama_kv_cells \<Rightarrow> llama_seq_id \<Rightarrow> nat \<Rightarrow> nat \<times> nat \<times> (nat \<times> nat) list \<Rightarrow> (nat \<times> nat \<times> (nat \<times> nat) list) option" where
  "range_step c seq_id i = (\<lambda>(cell_count, begin_i, cr). do {
     e \<leftarrow> cells_is_empty i c;
     sel \<leftarrow> (if e then Some False else if seq_id = -1 then Some True else cells_seq_has i seq_id c);
     Some (if sel then (cell_count + 1, if begin_i = cells_size c then i else begin_i, cr)
           else if begin_i \<noteq> cells_size c then (cell_count, cells_size c, cr @ [(begin_i, i)])
           else (cell_count, begin_i, cr)) })"

definition cell_ranges :: "llama_kv_cells \<Rightarrow> llama_seq_id \<Rightarrow> (nat \<times> (nat \<times> nat) list) option" where
  "cell_ranges c seq_id = do {
     (cell_count, begin_i, cr) \<leftarrow> ofold (range_step c seq_id) [0..<cells_size c] (0, cells_size c, []);
     let cr = (if begin_i \<noteq> cells_size c then cr @ [(begin_i, cells_size c)] else cr);
     assert_that (cell_count = sum_list (map (\<lambda>(a, b). b - a) cr));
     Some (cell_count, cr) }"

text \<open>The cells of the ranges, in order.\<close>

definition range_cells :: "(nat \<times> nat) list \<Rightarrow> nat list" where
  "range_cells cr = concat (map (\<lambda>(a, b). [a..<b]) cr)"

definition write_cell :: "nat \<Rightarrow> nat \<Rightarrow> llama_seq_id \<Rightarrow> llama_kv_cells \<Rightarrow> nat \<Rightarrow> nat list option" where
  "write_cell n_seq_max n_pos seq_id c i = do {
     seq_ids \<leftarrow> ofold (\<lambda>cur seq_ids. if int cur = seq_id \<or> seq_id = -1
       then do { has \<leftarrow> cells_seq_has i (int cur) c; Some (if has then seq_ids @ [int cur] else seq_ids) }
       else Some seq_ids) [0..<n_seq_max] [];
     pos \<leftarrow> cells_pos_get i c;
     ext \<leftarrow> (if n_pos > 1 then do { e \<leftarrow> cells_ext_get i c; Some (i32_bytes (ext_x e) @ i32_bytes (ext_y e)) } else Some []);
     Some (i32_bytes pos @ u32_bytes (length seq_ids) @ ext @ concat (map i32_bytes seq_ids)) }"

definition omap_concat :: "('a \<Rightarrow> nat list option) \<Rightarrow> 'a list \<Rightarrow> nat list option" where
  "omap_concat f xs = ofold (\<lambda>x out. do { bs \<leftarrow> f x; Some (out @ bs) }) xs []"

definition state_write_meta :: "llama_kv_cache \<Rightarrow> llama_kv_cells \<Rightarrow> (nat \<times> nat) list \<Rightarrow> llama_seq_id \<Rightarrow> nat list option" where
  "state_write_meta k c cr seq_id = omap_concat (write_cell (kc_n_seq_max k) (kc_n_pos k) seq_id c) (range_cells cr)"

text \<open>The ranges of one tensor of rows, and those of one column of a transposed tensor.\<close>

definition write_ranges :: "nat list \<Rightarrow> nat \<Rightarrow> (nat \<times> nat) list \<Rightarrow> nat list option" where
  "write_ranges t sz cr = omap_concat (\<lambda>(a, b). tensor_get t (a * sz) ((b - a) * sz)) cr"

definition write_cols :: "nat list \<Rightarrow> nat \<Rightarrow> nat \<Rightarrow> nat \<Rightarrow> (nat \<times> nat) list \<Rightarrow> nat list option" where
  "write_cols t kv_size el j cr = omap_concat (\<lambda>(a, b). tensor_get t (u32 ((a + j * kv_size) * el)) ((b - a) * el)) cr"

definition write_k :: "nat \<Rightarrow> (nat \<times> nat) list \<Rightarrow> kv_layer \<Rightarrow> nat list option" where
  "write_k strm cr l = do {
     k \<leftarrow> vget (kl_k l) strm;
     bs \<leftarrow> write_ranges k (kl_k_row l) cr;
     Some (i32_bytes (kl_k_type l) @ u64_bytes (kl_k_row l) @ bs) }"

definition write_v :: "nat \<Rightarrow> (nat \<times> nat) list \<Rightarrow> kv_layer \<Rightarrow> nat list option" where
  "write_v strm cr l = do {
     v \<leftarrow> vget (kl_v l) strm;
     case v of None \<Rightarrow> Some []
     | Some v \<Rightarrow> do {
         bs \<leftarrow> write_ranges v (kl_v_row l) cr;
         Some (i32_bytes (kl_v_type l) @ u64_bytes (kl_v_row l) @ bs) } }"

definition write_v_trans :: "nat \<Rightarrow> nat \<Rightarrow> (nat \<times> nat) list \<Rightarrow> kv_layer \<Rightarrow> nat list option" where
  "write_v_trans strm kv_size cr l = do {
     v \<leftarrow> vget (kl_v l) strm;
     case v of None \<Rightarrow> Some []
     | Some v \<Rightarrow> do {
         bs \<leftarrow> omap_concat (\<lambda>j. write_cols v kv_size (kl_v_el l) j cr) [0..<kl_n_embd_v l];
         Some (i32_bytes (kl_v_type l) @ u32_bytes (kl_v_el l) @ u32_bytes (kl_n_embd_v l) @ bs) } }"

definition state_write_data :: "kv_store \<Rightarrow> nat \<Rightarrow> llama_kv_cells \<Rightarrow> (nat \<times> nat) list \<Rightarrow> nat list option" where
  "state_write_data st strm c cr = do {
     ks \<leftarrow> omap_concat (write_k strm cr) (ks_layers st);
     vs \<leftarrow> omap_concat (if ks_v_trans st then write_v_trans strm (cells_size c) cr else write_v strm cr) (ks_layers st);
     Some (u32_bytes (if ks_v_trans st then 1 else 0) @ u32_bytes (length (ks_layers st)) @ ks @ vs) }"

definition write_stream :: "kv_store \<Rightarrow> llama_seq_id \<Rightarrow> nat \<Rightarrow> nat list option" where
  "write_stream st seq_id s = do {
     c \<leftarrow> vget (kc_cells (ks_cache st)) s;
     (cell_count, cr) \<leftarrow> cell_ranges c seq_id;
     if cell_count = 0 then Some (u32_bytes cell_count)
     else do {
       meta \<leftarrow> state_write_meta (ks_cache st) c cr seq_id;
       data \<leftarrow> state_write_data st s c cr;
       Some (u32_bytes cell_count @ meta @ data) } }"

definition state_write :: "kv_store \<Rightarrow> llama_seq_id \<Rightarrow> nat list option" where
  "state_write st seq_id = do {
     bs \<leftarrow> omap_concat (write_stream st seq_id) [0..<kc_n_stream (ks_cache st)];
     Some (u32_bytes (kc_n_stream (ks_cache st)) @ bs) }"

section \<open>Reading\<close>

datatype state_exn = End_Of_Buffer | N_Stream_Mismatch | Failed_To_Restore

text \<open>How a step of the reader ends: it goes on, it returns false, or it throws.\<close>

datatype state_res = RD_OK | RD_FALSE | RD_THROW state_exn

fun read_seqs :: "nat \<Rightarrow> nat \<Rightarrow> nat \<Rightarrow> llama_kv_cells \<Rightarrow> nat list \<Rightarrow> (state_res \<times> llama_kv_cells \<times> nat list) option" where
  "read_seqs 0 i n_seq_max c io = Some (RD_OK, c, io)"
| "read_seqs (Suc n) i n_seq_max c io = (case read_i32 io of
     None \<Rightarrow> Some (RD_THROW End_Of_Buffer, c, io)
   | Some (seq_id, io) \<Rightarrow>
       if seq_id < 0 \<or> seq_id \<ge> int n_seq_max then Some (RD_FALSE, c, io)
       else do { c \<leftarrow> cells_seq_add i seq_id c; read_seqs n i n_seq_max c io })"

text \<open>The loop of a whole restore, from cell \<open>i\<close> on.\<close>

fun read_cells :: "nat \<Rightarrow> nat \<Rightarrow> nat \<Rightarrow> llama_kv_cells \<Rightarrow> nat list \<Rightarrow> (state_res \<times> llama_kv_cells \<times> nat list) option" where
  "read_cells 0 i n_seq_max c io = Some (RD_OK, c, io)"
| "read_cells (Suc n) i n_seq_max c io = (case read_i32 io of
     None \<Rightarrow> Some (RD_THROW End_Of_Buffer, c, io)
   | Some (pos, io) \<Rightarrow> (case read_u32 io of
       None \<Rightarrow> Some (RD_THROW End_Of_Buffer, c, io)
     | Some (n_seq_id, io) \<Rightarrow> do {
         c \<leftarrow> cells_pos_set i pos c;
         (r, c, io) \<leftarrow> read_seqs n_seq_id i n_seq_max c io;
         if r \<noteq> RD_OK then Some (r, c, io) else read_cells n (Suc i) n_seq_max c io }))"

text \<open>The loop of a single-sequence restore, which fills a ubatch. With more than one position per embedding, the extra
  data is read and put behind the positions.\<close>

definition read_ext :: "nat \<Rightarrow> nat \<Rightarrow> llama_ubatch \<Rightarrow> nat list \<Rightarrow> (llama_ubatch \<times> nat list) option option" where
  "read_ext n_pos i ub io = (if n_pos > 1
     then (case io_read 8 io of
         None \<Rightarrow> Some None
       | Some (e, io) \<Rightarrow> do {
           ps \<leftarrow> vset (ub_pos ub) (i + ub_n_tokens ub) (i32_of (le_value (drop 4 e)));
           ps \<leftarrow> vset ps (i + ub_n_tokens ub * 2) (i32_of (le_value (take 4 e)));
           Some (Some (ub\<lparr>ub_pos := ps\<rparr>, io)) })
     else Some (Some (ub, io)))"

fun read_tokens :: "nat \<Rightarrow> nat \<Rightarrow> nat \<Rightarrow> llama_seq_id \<Rightarrow> llama_ubatch \<Rightarrow> nat list \<Rightarrow> (state_res \<times> llama_ubatch \<times> nat list) option" where
  "read_tokens 0 i n_pos dest ub io = Some (RD_OK, ub, io)"
| "read_tokens (Suc n) i n_pos dest ub io = (case read_i32 io of
     None \<Rightarrow> Some (RD_THROW End_Of_Buffer, ub, io)
   | Some (pos, io) \<Rightarrow> (case read_u32 io of
       None \<Rightarrow> Some (RD_THROW End_Of_Buffer, ub, io)
     | Some (n_seq_id, io) \<Rightarrow>
         if n_seq_id \<noteq> 1 then Some (RD_FALSE, ub, io)
         else do {
           x \<leftarrow> read_ext n_pos i ub io;
           case x of None \<Rightarrow> Some (RD_THROW End_Of_Buffer, ub, io)
           | Some (ub, io) \<Rightarrow> (case read_i32 io of
               None \<Rightarrow> Some (RD_THROW End_Of_Buffer, ub, io)
             | Some (_, io) \<Rightarrow> do {
                 ps \<leftarrow> vset (ub_pos ub) i pos;
                 ns \<leftarrow> vset (ub_n_seq_id ub) i n_seq_id;
                 ss \<leftarrow> vset (ub_seq_id ub) i [dest];
                 read_tokens n (Suc i) n_pos dest (ub\<lparr>ub_pos := ps, ub_n_seq_id := ns, ub_seq_id := ss\<rparr>) io }) }))"

text \<open>The check at the end of a single-sequence restore.\<close>

definition check_restored :: "nat \<Rightarrow> nat \<Rightarrow> llama_seq_id \<Rightarrow> slot_info \<Rightarrow> llama_ubatch \<Rightarrow> llama_kv_cache \<Rightarrow> unit option" where
  "check_restored strm cell_count dest si ub k = do {
     c \<leftarrow> vget (kc_cells k) strm;
     assert_that (slot_n_stream si = 1);
     xs \<leftarrow> vget (si_idxs si) 0;
     assert_that (length xs = cell_count);
     ofold (\<lambda>i _. do {
       p \<leftarrow> cells_pos_get (xs ! i) c;
       q \<leftarrow> vget (ub_pos ub) i;
       assert_that (p = q);
       b \<leftarrow> cells_seq_has (xs ! i) dest c;
       assert_that b }) [0..<cell_count] () }"

definition state_read_meta :: "nat \<Rightarrow> nat \<Rightarrow> llama_seq_id \<Rightarrow> kv_store \<Rightarrow> nat list \<Rightarrow> (state_res \<times> slot_info \<times> kv_store \<times> nat list) option" where
  "state_read_meta strm cell_count dest st io =
    (if dest \<noteq> -1 then do {
       k \<leftarrow> cache_seq_rm dest (-1) (-1) (ks_cache st);
       let st = st\<lparr>ks_cache := k\<rparr>;
       let ub = (fst (ubatch_reserve cell_count 1 (allocr_new (kc_n_pos k))))\<lparr>ub_seq_id_unq := [nat dest]\<rparr>;
       (r, ub, io) \<leftarrow> read_tokens cell_count 0 (kc_n_pos k) dest ub io;
       if r \<noteq> RD_OK then Some (r, slot_none, st, io)
       else do {
         si \<leftarrow> find_slot k ub False;
         if slot_empty si then Some (RD_FALSE, si, st, io)
         else do {
           k \<leftarrow> apply_ubatch si ub k;
           check_restored strm cell_count dest si ub k;
           Some (RD_OK, si, st\<lparr>ks_cache := k\<rparr>, io) } } }
     else do {
       c \<leftarrow> vget (kc_cells (ks_cache st)) strm;
       if cell_count > cells_size c then Some (RD_FALSE, slot_none, st, io)
       else do {
         let st = store_clear st;
         let k = ks_cache st;
         (r, c, io) \<leftarrow> read_cells cell_count 0 (kc_n_seq_max k) (kc_cells k ! strm) io;
         let st = st\<lparr>ks_cache := k\<lparr>kc_cells := (kc_cells k)[strm := c]\<rparr>\<rparr>;
         if r \<noteq> RD_OK then Some (r, slot_none, st, io)
         else do {
           hs \<leftarrow> vset (kc_heads k) strm 0;
           Some (RD_OK, \<lparr>si_s0 = strm, si_s1 = strm, si_strm = [strm], si_idxs = [[0..<cell_count]]\<rparr>,
             st\<lparr>ks_cache := (ks_cache st)\<lparr>kc_heads := hs\<rparr>\<rparr>, io) } } })"

text \<open>One block of data: the cells of the slot, in one piece if they are contiguous. The cells start behind \<open>off\<close> elements (none for a
  tensor of rows); the index of the element has 32 bits and its offset 64.\<close>

definition put_block :: "slot_info \<Rightarrow> nat \<Rightarrow> nat \<Rightarrow> nat \<Rightarrow> nat list \<Rightarrow> nat list \<Rightarrow> nat list option" where
  "put_block si off sz cell_count data t =
    (if slot_is_contiguous si then do { h \<leftarrow> slot_head si; tensor_set t data (u32 (h + off) * sz) }
     else do {
       xs \<leftarrow> vget (si_idxs si) 0;
       ofold (\<lambda>i t. do { x \<leftarrow> vget xs i; tensor_set t (take sz (drop (i * sz) data)) (u32 (x + off) * sz) }) [0..<cell_count] t })"

definition read_block :: "slot_info \<Rightarrow> nat \<Rightarrow> nat \<Rightarrow> nat \<Rightarrow> nat list \<Rightarrow> nat list \<Rightarrow> (state_res \<times> nat list \<times> nat list) option" where
  "read_block si off sz cell_count t io = (case io_read (cell_count * sz) io of
     None \<Rightarrow> Some (RD_THROW End_Of_Buffer, t, io)
   | Some (data, io) \<Rightarrow> do { t \<leftarrow> put_block si off sz cell_count data t; Some (RD_OK, t, io) })"

text \<open>A tensor of rows: the type and the row size have to agree.\<close>

definition read_rows :: "slot_info \<Rightarrow> nat \<Rightarrow> int \<Rightarrow> nat \<Rightarrow> nat list \<Rightarrow> nat list \<Rightarrow> (state_res \<times> nat list \<times> nat list) option" where
  "read_rows si cell_count type_i row t io = (case read_i32 io of
     None \<Rightarrow> Some (RD_THROW End_Of_Buffer, t, io)
   | Some (type_ref, io) \<Rightarrow>
       if type_i \<noteq> type_ref then Some (RD_FALSE, t, io)
       else (case read_u64 io of
           None \<Rightarrow> Some (RD_THROW End_Of_Buffer, t, io)
         | Some (row_ref, io) \<Rightarrow>
             if row \<noteq> row_ref then Some (RD_FALSE, t, io)
             else if cell_count = 0 then Some (RD_OK, t, io)
             else read_block si 0 row cell_count t io))"

text \<open>A transposed tensor: \<open>n_embd\<close> blocks of one element per cell.\<close>

fun read_cols :: "slot_info \<Rightarrow> nat \<Rightarrow> nat \<Rightarrow> nat \<Rightarrow> nat list \<Rightarrow> nat list \<Rightarrow> nat list \<Rightarrow> (state_res \<times> nat list \<times> nat list) option" where
  "read_cols si kv_size sz cell_count [] t io = Some (RD_OK, t, io)"
| "read_cols si kv_size sz cell_count (j # js) t io = do {
     (r, t, io) \<leftarrow> read_block si (j * kv_size) sz cell_count t io;
     if r \<noteq> RD_OK then Some (r, t, io) else read_cols si kv_size sz cell_count js t io }"

definition read_trans :: "slot_info \<Rightarrow> nat \<Rightarrow> nat \<Rightarrow> int \<Rightarrow> nat \<Rightarrow> nat \<Rightarrow> nat list \<Rightarrow> nat list \<Rightarrow> (state_res \<times> nat list \<times> nat list) option" where
  "read_trans si kv_size cell_count type_i el n_embd t io = (case read_i32 io of
     None \<Rightarrow> Some (RD_THROW End_Of_Buffer, t, io)
   | Some (type_ref, io) \<Rightarrow>
       if type_i \<noteq> type_ref then Some (RD_FALSE, t, io)
       else (case read_u32 io of
           None \<Rightarrow> Some (RD_THROW End_Of_Buffer, t, io)
         | Some (el_ref, io) \<Rightarrow>
             if el \<noteq> el_ref then Some (RD_FALSE, t, io)
             else (case read_u32 io of
                 None \<Rightarrow> Some (RD_THROW End_Of_Buffer, t, io)
               | Some (n_embd_ref, io) \<Rightarrow>
                   if n_embd \<noteq> n_embd_ref then Some (RD_FALSE, t, io)
                   else if cell_count = 0 then Some (RD_OK, t, io)
                   else read_cols si kv_size el cell_count [0..<n_embd] t io)))"

definition read_k :: "nat \<Rightarrow> slot_info \<Rightarrow> nat \<Rightarrow> kv_layer \<Rightarrow> nat list \<Rightarrow> (state_res \<times> kv_layer \<times> nat list) option" where
  "read_k strm si cell_count l io = do {
     k \<leftarrow> vget (kl_k l) strm;
     (r, k, io) \<leftarrow> read_rows si cell_count (kl_k_type l) (kl_k_row l) k io;
     Some (r, l\<lparr>kl_k := (kl_k l)[strm := k]\<rparr>, io) }"

definition read_v :: "bool \<Rightarrow> nat \<Rightarrow> nat \<Rightarrow> slot_info \<Rightarrow> nat \<Rightarrow> kv_layer \<Rightarrow> nat list \<Rightarrow> (state_res \<times> kv_layer \<times> nat list) option" where
  "read_v v_trans strm kv_size si cell_count l io = do {
     v \<leftarrow> vget (kl_v l) strm;
     case v of None \<Rightarrow> Some (RD_OK, l, io)
     | Some v \<Rightarrow> do {
         (r, v, io) \<leftarrow> (if v_trans then read_trans si kv_size cell_count (kl_v_type l) (kl_v_el l) (kl_n_embd_v l) v io
                      else read_rows si cell_count (kl_v_type l) (kl_v_row l) v io);
         Some (r, l\<lparr>kl_v := (kl_v l)[strm := Some v]\<rparr>, io) } }"

fun read_layers :: "(kv_layer \<Rightarrow> nat list \<Rightarrow> (state_res \<times> kv_layer \<times> nat list) option) \<Rightarrow> kv_layer list \<Rightarrow> nat list \<Rightarrow>
    (state_res \<times> kv_layer list \<times> nat list) option" where
  "read_layers f [] io = Some (RD_OK, [], io)"
| "read_layers f (l # ls) io = do {
     (r, l, io) \<leftarrow> f l io;
     if r \<noteq> RD_OK then Some (r, l # ls, io)
     else do { (r, ls, io) \<leftarrow> read_layers f ls io; Some (r, l # ls, io) } }"

definition state_read_data :: "nat \<Rightarrow> nat \<Rightarrow> slot_info \<Rightarrow> kv_store \<Rightarrow> nat list \<Rightarrow> (state_res \<times> kv_store \<times> nat list) option" where
  "state_read_data strm cell_count si st io = do {
     c \<leftarrow> vget (kc_cells (ks_cache st)) strm;
     case read_u32 io of
       None \<Rightarrow> Some (RD_THROW End_Of_Buffer, st, io)
     | Some (v_trans, io) \<Rightarrow> (case read_u32 io of
         None \<Rightarrow> Some (RD_THROW End_Of_Buffer, st, io)
       | Some (n_layer, io) \<Rightarrow>
           if n_layer \<noteq> length (ks_layers st) then Some (RD_FALSE, st, io)
           else if cell_count > cells_size c then Some (RD_FALSE, st, io)
           else if ks_v_trans st \<noteq> (v_trans \<noteq> 0) then Some (RD_FALSE, st, io)
           else do {
             (r, ls, io) \<leftarrow> read_layers (read_k strm si cell_count) (ks_layers st) io;
             let st = st\<lparr>ks_layers := ls\<rparr>;
             if r \<noteq> RD_OK then Some (r, st, io)
             else do {
               (r, ls, io) \<leftarrow> read_layers (read_v (ks_v_trans st) strm (cells_size c) si cell_count) (ks_layers st) io;
               Some (r, st\<lparr>ks_layers := ls\<rparr>, io) } }) }"

text \<open>What a failed restore leaves.\<close>

definition restore_failed :: "llama_seq_id \<Rightarrow> kv_store \<Rightarrow> kv_store option" where
  "restore_failed seq_id st = (if seq_id = -1 then Some (store_clear st)
     else do { k \<leftarrow> cache_seq_rm seq_id (-1) (-1) (ks_cache st); Some (st\<lparr>ks_cache := k\<rparr>) })"

fun read_streams :: "llama_seq_id \<Rightarrow> nat list \<Rightarrow> kv_store \<Rightarrow> nat list \<Rightarrow> (state_res \<times> kv_store \<times> nat list) option" where
  "read_streams seq_id [] st io = Some (RD_OK, st, io)"
| "read_streams seq_id (s # ss) st io = (case read_u32 io of
     None \<Rightarrow> Some (RD_THROW End_Of_Buffer, st, io)
   | Some (cell_count, io) \<Rightarrow>
       if cell_count = 0 then read_streams seq_id ss st io
       else do {
         strm \<leftarrow> (if seq_id = -1 then Some s else vget (kc_seq_to_stream (ks_cache st)) (nat seq_id));
         (r, si, st, io) \<leftarrow> state_read_meta strm cell_count seq_id st io;
         (r, st, io) \<leftarrow> (if r = RD_OK then state_read_data strm cell_count si st io else Some (r, st, io));
         if r = RD_OK then read_streams seq_id ss st io
         else if r = RD_FALSE then do { st \<leftarrow> restore_failed seq_id st; Some (RD_THROW Failed_To_Restore, st, io) }
         else Some (r, st, io) })"

definition state_read :: "llama_seq_id \<Rightarrow> kv_store \<Rightarrow> nat list \<Rightarrow> (state_res \<times> kv_store \<times> nat list) option" where
  "state_read seq_id st io = do {
     assert_that (seq_id = -1 \<or> (seq_id \<ge> 0 \<and> nat seq_id < length (kc_seq_to_stream (ks_cache st))));
     case read_u32 io of
       None \<Rightarrow> Some (RD_THROW End_Of_Buffer, st, io)
     | Some (n_stream_cur, io) \<Rightarrow>
         if n_stream_cur \<noteq> kc_n_stream (ks_cache st) then Some (RD_THROW N_Stream_Mismatch, st, io)
         else read_streams seq_id [0..<kc_n_stream (ks_cache st)] st io }"

end
