(* ===== verification/Kv_Restore.thy ===== *)
theory Kv_Restore
  imports Kv_State
begin

text \<open>
  What is saved is restored: the bytes that \<open>state_write\<close> produces, read back by \<open>state_read\<close>, give the same cells with the
  same keys and values, for the whole cache and for one sequence.
\<close>

section \<open>Numbers\<close>

lemma length_le_bytes [simp]: "length (le_bytes n v) = n"
  by (induction n arbitrary: v) auto

lemma le_value_bytes: "le_value (le_bytes n v) = v mod 256 ^ n"
proof (induction n arbitrary: v)
  case (Suc n)
  have "v mod (256 * 256 ^ n) = v mod 256 + 256 * (v div 256 mod 256 ^ n)" using mod_mult2_eq[of v 256 "256 ^ n"] by simp
  then show ?case using Suc by simp
qed simp

lemma io_read_append [simp]: "length bs = n \<Longrightarrow> io_read n (bs @ io) = Some (bs, io)"
  by (simp add: io_read_def)

lemma read_u32_bytes [simp]: "v < 2 ^ 32 \<Longrightarrow> read_u32 (u32_bytes v @ io) = Some (v, io)"
  by (simp add: read_u32_def u32_bytes_def le_value_bytes)

lemma read_u64_bytes [simp]: "v < 2 ^ 64 \<Longrightarrow> read_u64 (u64_bytes v @ io) = Some (v, io)"
  by (simp add: read_u64_def u64_bytes_def le_value_bytes)

lemma read_i32_bytes [simp]:
  assumes "in_i32 x"
  shows "read_i32 (i32_bytes x @ io) = Some (x, io)"
proof -
  have "i32_of (nat (x mod 2 ^ 32)) = x"
  proof (cases "x \<ge> 0")
    case True
    then show ?thesis using assms by (simp add: i32_of_def in_i32_def i32_max_def)
  next
    case False
    have "(x + 2 ^ 32) mod 2 ^ 32 = x + 2 ^ 32" by (rule mod_pos_pos_trivial) (use False assms in \<open>auto simp: in_i32_def\<close>)
    then have "x mod 2 ^ 32 = x + 2 ^ 32" by simp
    then show ?thesis using False assms by (simp add: i32_of_def in_i32_def nat_less_iff)
  qed
  moreover have "nat (x mod 2 ^ 32) < 2 ^ 32" by (simp add: nat_less_iff)
  ultimately show ?thesis by (simp add: read_i32_def i32_bytes_def le_value_bytes)
qed

lemma omap_concat_Some: "(\<And>x. x \<in> set xs \<Longrightarrow> f x = Some (g x)) \<Longrightarrow> omap_concat f xs = Some (concat (map g xs))"
proof -
  assume h: "\<And>x. x \<in> set xs \<Longrightarrow> f x = Some (g x)"
  have "ofold (\<lambda>x out. do { bs \<leftarrow> f x; Some (out @ bs) }) xs out = Some (out @ concat (map g xs))" for out
    using h by (induction xs arbitrary: out) auto
  then show ?thesis by (simp add: omap_concat_def)
qed

section \<open>Tensors\<close>

text \<open>The bytes of one cell, and what a step of the reader changes: a map from cells to their new bytes.\<close>

definition cell_bytes :: "nat list \<Rightarrow> nat \<Rightarrow> nat \<Rightarrow> nat list" where
  "cell_bytes t n p = take n (drop (p * n) t)"

definition cells_set_to :: "nat \<Rightarrow> (nat \<rightharpoonup> nat list) \<Rightarrow> nat list \<Rightarrow> nat list \<Rightarrow> bool" where
  "cells_set_to n m t t' \<longleftrightarrow> length t' = length t \<and>
     (\<forall>p. cell_bytes t' n p = (case m p of Some d \<Rightarrow> d | None \<Rightarrow> cell_bytes t n p))"

lemma cells_set_to_refl: "cells_set_to n Map.empty t t"
  by (simp add: cells_set_to_def)

lemma cells_set_to_trans: "cells_set_to n m t t' \<Longrightarrow> cells_set_to n m' t' t'' \<Longrightarrow> cells_set_to n (m ++ m') t t''"
  by (auto simp: cells_set_to_def map_add_def split: option.splits)

lemma length_cell_bytes: "(p + 1) * n \<le> length t \<Longrightarrow> length (cell_bytes t n p) = n"
  by (simp add: cell_bytes_def)

lemma tensor_set_cell:
  assumes "length d = n" "(p + 1) * n \<le> length t"
  shows "\<exists>t'. tensor_set t d (p * n) = Some t' \<and> cells_set_to n [p \<mapsto> d] t t'"
proof -
  let ?t' = "take (p * n) t @ d @ drop (p * n + length d) t"
  have l: "p * n + n \<le> length t" using assms(2) by (simp add: algebra_simps)
  have "cell_bytes ?t' n q = cell_bytes t n q" if "q \<noteq> p" for q
  proof (cases "q < p")
    case True
    then have "q * n + n \<le> p * n" by (metis Suc_leI add.commute mult_Suc mult_le_mono1)
    then have "n \<le> p * n - q * n" "q * n - length (take (p * n) t) = 0" using l True by simp_all
    then show ?thesis using l by (simp add: cell_bytes_def drop_take)
  next
    case False
    with that have "p * n + n \<le> q * n" by (metis Suc_leI add.commute linorder_neqE_nat mult_Suc mult_le_mono1)
    moreover from this have "drop (q * n) (take (p * n) t) = []" "p * n - q * n = 0" using False that by simp_all
    ultimately show ?thesis using l assms(1) by (simp add: cell_bytes_def)
  qed
  moreover have "cell_bytes ?t' n p = d" using l assms(1) by (simp add: cell_bytes_def)
  ultimately have "cells_set_to n [p \<mapsto> d] t ?t'" using l assms(1) by (simp add: cells_set_to_def)
  then show ?thesis using l assms(1) by (simp add: tensor_set_in)
qed

lemma tensor_set_append:
  "off + length a + length b \<le> length t \<Longrightarrow> tensor_set t (a @ b) off = do { t \<leftarrow> tensor_set t a off; tensor_set t b (off + length a) }"
  by (simp add: tensor_set_in ac_simps)

text \<open>The cells \<open>xs\<close> written one after the other.\<close>

definition scatter :: "nat \<Rightarrow> (nat \<times> nat list) list \<Rightarrow> nat list \<Rightarrow> nat list option" where
  "scatter n pds t = ofold (\<lambda>(p, d) t. tensor_set t d (p * n)) pds t"

lemma scatter_spec:
  assumes "\<forall>(p, d) \<in> set pds. length d = n \<and> (p + 1) * n \<le> length t" "distinct (map fst pds)"
  shows "\<exists>t'. scatter n pds t = Some t' \<and> cells_set_to n (map_of pds) t t'"
  using assms
proof (induction pds arbitrary: t)
  case Nil
  then show ?case by (simp add: scatter_def cells_set_to_refl)
next
  case (Cons x pds)
  obtain p d where x: "x = (p, d)" by (cases x)
  obtain t1 where t1: "tensor_set t d (p * n) = Some t1" "cells_set_to n [p \<mapsto> d] t t1" using tensor_set_cell[of d n p t] Cons(2) x by auto
  then have "length t1 = length t" by (simp add: cells_set_to_def)
  with Cons(1)[of t1] Cons(2,3) obtain t' where t': "scatter n pds t1 = Some t'" "cells_set_to n (map_of pds) t1 t'" by auto
  have "map_of pds p = None" using Cons(3) x by (simp add: map_of_eq_None_iff)
  then have "[p \<mapsto> d] ++ map_of pds = map_of (x # pds)" using x by (auto simp: fun_eq_iff map_add_def split: option.splits)
  then show ?case using t1(1) t'(1) cells_set_to_trans[OF t1(2) t'(2)] x by (simp add: scatter_def fun_upd_def)
qed

lemma tensor_set_scatter:
  assumes "\<forall>d \<in> set ds. length d = n" "(h + length ds) * n \<le> length t"
  shows "tensor_set t (concat ds) (h * n) = scatter n (zip [h..<h + length ds] ds) t"
  using assms
proof (induction ds arbitrary: h t)
  case Nil
  then show ?case by (simp add: scatter_def tensor_set_in)
next
  case (Cons d ds)
  have l: "length (concat ds) = length ds * n" using Cons(2) by (induction ds) auto
  have le: "h * n + n + length ds * n \<le> length t" using Cons(3) by (simp add: algebra_simps)
  have "tensor_set t (d @ concat ds) (h * n) = do { t \<leftarrow> tensor_set t d (h * n); tensor_set t (concat ds) (h * n + length d) }"
    using le l Cons(2) by (intro tensor_set_append) simp
  also have "\<dots> = do { t \<leftarrow> tensor_set t d (h * n); scatter n (zip [Suc h..<Suc h + length ds] ds) t }"
  proof (rule Option.bind_cong[OF refl])
    fix t' assume "tensor_set t d (h * n) = Some t'"
    then have "length t' = length t" by (rule length_tensor_set)
    then show "tensor_set t' (concat ds) (h * n + length d) = scatter n (zip [Suc h..<Suc h + length ds] ds) t'"
      using Cons(1)[of "Suc h" t'] Cons(2,3) by (simp add: algebra_simps del: upt_Suc)
  qed
  moreover have "[h..<h + length (d # ds)] = h # [Suc h..<Suc h + length ds]" by (simp add: upt_conv_Cons del: upt_Suc)
  ultimately show ?case by (simp add: scatter_def del: upt_Suc)
qed

text \<open>A slot whose cells are \<open>xs\<close>.\<close>

definition slot_of :: "slot_info \<Rightarrow> nat list \<Rightarrow> bool" where
  "slot_of si xs \<longleftrightarrow> si_idxs si = [xs] \<and> xs \<noteq> [] \<and> distinct xs"

lemma put_block_spec:
  assumes si: "slot_of si xs" and d: "length ds = length xs" "\<forall>d \<in> set ds. length d = n" and r: "\<forall>x \<in> set xs. (x + off + 1) * n \<le> length t \<and> x + off < 2 ^ 32"
  shows "\<exists>t'. put_block si off n (length xs) (concat ds) t = Some t' \<and> cells_set_to n (map_of (zip (map (\<lambda>x. x + off) xs) ds)) t t'"
proof -
  let ?ps = "map (\<lambda>x. x + off) xs"
  have "put_block si off n (length xs) (concat ds) t = scatter n (zip ?ps ds) t"
  proof (cases "slot_is_contiguous si")
    case True
    then have x: "\<forall>i < length xs. xs ! i = hd xs + i" using si by (simp add: slot_is_contiguous_def slot_of_def)
    then have ps: "?ps = [hd xs + off..<hd xs + off + length ds]" using d(1) by (intro nth_equalityI) auto
    have "last xs + 1 = hd xs + length xs" using x si by (simp add: slot_of_def last_conv_nth)
    moreover have "last xs \<in> set xs" using si by (simp add: slot_of_def)
    ultimately have le: "(hd xs + off + length ds) * n \<le> length t" using r d(1) si by (fastforce simp: slot_of_def algebra_simps)
    have "slot_head si = Some (hd xs)" "u32 (hd xs + off) = hd xs + off" using si r by (auto simp: slot_head_def slot_of_def u32_def)
    then show ?thesis using True tensor_set_scatter[OF d(2) le] ps by (simp add: put_block_def)
  next
    case False
    have tk: "take n (drop (i * n) (concat ds)) = ds ! i" if "i < length ds" for i
      using d(2) that by (induction ds arbitrary: i) (auto simp: nth_Cons split: nat.splits)
    have "zip ?ps ds = map (\<lambda>i. (xs ! i + off, ds ! i)) [0..<length xs]" using d(1) by (intro nth_equalityI) auto
    then have "scatter n (zip ?ps ds) t = ofold (\<lambda>i t. tensor_set t (ds ! i) ((xs ! i + off) * n)) [0..<length xs] t"
      by (simp add: scatter_def ofold_map)
    also have "\<dots> = ofold (\<lambda>i t. do { x \<leftarrow> vget xs i; tensor_set t (take n (drop (i * n) (concat ds))) (u32 (x + off) * n) }) [0..<length xs] t"
      by (rule ofold_cong_set) (use tk d(1) r in \<open>auto simp: u32_def\<close>)
    finally show ?thesis using False si by (simp add: put_block_def slot_of_def)
  qed
  moreover have "length d = n \<and> (p + 1) * n \<le> length t" if "(p, d) \<in> set (zip ?ps ds)" for p d
    using set_zip_leftD[OF that] set_zip_rightD[OF that] d(2) r by auto
  moreover have "distinct (map fst (zip ?ps ds))" using si d(1) by (simp add: slot_of_def distinct_map)
  ultimately show ?thesis using scatter_spec[of "zip ?ps ds" n t] by auto
qed

section \<open>Ranges\<close>

definition selected :: "llama_kv_cells \<Rightarrow> llama_seq_id \<Rightarrow> nat \<Rightarrow> bool" where
  "selected c seq_id i \<longleftrightarrow> c_pos c ! i \<noteq> -1 \<and> (seq_id = -1 \<or> nat seq_id \<in> c_seq c ! i)"

definition selection :: "llama_kv_cells \<Rightarrow> llama_seq_id \<Rightarrow> nat list" where
  "selection c seq_id = filter (selected c seq_id) [0..<cells_size c]"

lemma range_cells_append [simp]: "range_cells (cr @ cr') = range_cells cr @ range_cells cr'" "range_cells [(a, b)] = [a..<b]" "range_cells [] = []"
  by (simp_all add: range_cells_def)

definition ranges_ok :: "nat \<Rightarrow> (nat \<times> nat) list \<Rightarrow> bool" where
  "ranges_ok n cr \<longleftrightarrow> (\<forall>(a, b) \<in> set cr. a < b \<and> b \<le> n)"

lemma length_range_cells: "length (range_cells cr) = sum_list (map (\<lambda>(a, b). b - a) cr)"
  by (induction cr) (auto simp: range_cells_def)

lemma range_step_eval:
  assumes "cells_ok c" "i < cells_size c" "seq_id = -1 \<or> valid_seq_id seq_id"
  shows "range_step c seq_id i (n, b, cr) =
    Some (if selected c seq_id i then (n + 1, if b = cells_size c then i else b, cr)
          else if b \<noteq> cells_size c then (n, cells_size c, cr @ [(b, i)]) else (n, b, cr))"
proof -
  have i: "i < length (c_pos c)" using assms(2) by (simp add: cells_size_def)
  note D = cells_okD[OF assms(1) i]
  have "-1 \<le> c_pos c ! i" using D by blast
  then have e: "cells_is_empty i c = Some (c_pos c ! i = -1)" using i by (auto simp: cells_is_empty_def)
  have h: "seq_id \<noteq> -1 \<Longrightarrow> cells_seq_has i seq_id c = Some (nat seq_id \<in> c_seq c ! i)"
    using assms(3) i D(4) by (auto simp: cells_seq_has_def bit_test_def valid_seq_id_def)
  show ?thesis using e h by (auto simp: range_step_def selected_def)
qed

lemma cell_ranges_spec:
  assumes "cells_ok c" "seq_id = -1 \<or> valid_seq_id seq_id"
  shows "\<exists>cr. cell_ranges c seq_id = Some (length (selection c seq_id), cr) \<and> range_cells cr = selection c seq_id \<and> ranges_ok (cells_size c) cr"
proof -
  let ?n = "cells_size c"
  let ?open = "\<lambda>b i. if b = ?n then [] else [b..<i]"
  let ?P = "\<lambda>i (n, b, cr). range_cells cr @ ?open b i = filter (selected c seq_id) [0..<i] \<and> n = length (range_cells cr @ ?open b i) \<and>
    (b \<noteq> ?n \<longrightarrow> b < i) \<and> ranges_ok ?n cr"
  have "\<exists>t. ofold (range_step c seq_id) [0..<?n] (0, ?n, []) = Some t \<and> ?P ?n t"
  proof (rule ofold_upto[where P = ?P])
    show "?P 0 (0, ?n, [])" by (simp add: ranges_ok_def)
  next
    fix i t assume i: "i < ?n" and P: "?P i t"
    obtain n b cr where t: "t = (n, b, cr)" by (cases t)
    show "\<exists>t'. range_step c seq_id i t = Some t' \<and> ?P (Suc i) t'"
      using P i unfolding t range_step_eval[OF assms(1) i assms(2)] by (auto simp: ranges_ok_def)
  qed
  then obtain n b cr where f: "ofold (range_step c seq_id) [0..<?n] (0, ?n, []) = Some (n, b, cr)" "?P ?n (n, b, cr)" by auto
  define cr' where "cr' = (if b \<noteq> ?n then cr @ [(b, ?n)] else cr)"
  have r: "range_cells cr' = selection c seq_id" "ranges_ok ?n cr'" "n = length (range_cells cr')"
    using f(2) by (auto simp: cr'_def selection_def ranges_ok_def)
  have "cell_ranges c seq_id = Some (n, cr')"
    using f(1) r(3) by (simp add: cell_ranges_def length_range_cells[symmetric] cr'_def Let_def)
  then show ?thesis using r by auto
qed

section \<open>Blocks of data\<close>

lemma slice_cells: "take (m * n) (drop (a * n) t) = concat (map (cell_bytes t n) [a..<a + m])"
proof (induction m)
  case (Suc m)
  have "take (Suc m * n) (drop (a * n) t) = take (m * n) (drop (a * n) t) @ take n (drop ((a + m) * n) t)"
    by (simp add: take_add[symmetric] algebra_simps drop_drop[symmetric] del: drop_drop)
      (metis add.commute drop_drop take_add)
  then show ?case using Suc by (simp add: cell_bytes_def)
qed simp

lemma write_at_spec:
  assumes "ranges_ok n cr" "(n + off) * sz \<le> length t"
  shows "omap_concat (\<lambda>(a, b). tensor_get t ((a + off) * sz) ((b - a) * sz)) cr = Some (concat (map (\<lambda>i. cell_bytes t sz (i + off)) (range_cells cr)))"
proof -
  have "tensor_get t ((a + off) * sz) ((b - a) * sz) = Some (concat (map (\<lambda>i. cell_bytes t sz (i + off)) [a..<b]))" if "(a, b) \<in> set cr" for a b
  proof -
    have ab: "a < b" "b \<le> n" using assms(1) that by (auto simp: ranges_ok_def)
    then have "(a + off) * sz + (b - a) * sz = (b + off) * sz" by (simp add: add_mult_distrib[symmetric])
    also have "\<dots> \<le> length t" using ab(2) assms(2) by (meson add_le_mono1 le_trans mult_le_mono1)
    finally have "tensor_get t ((a + off) * sz) ((b - a) * sz) = Some (concat (map (cell_bytes t sz) [a + off..<a + off + (b - a)]))"
      by (simp add: tensor_get_in slice_cells)
    moreover have "map (cell_bytes t sz) [a + off..<a + off + (b - a)] = map (\<lambda>i. cell_bytes t sz (i + off)) [a..<b]"
      using ab by (intro nth_equalityI) (auto simp: add_ac)
    ultimately show ?thesis by simp
  qed
  then have "omap_concat (\<lambda>(a, b). tensor_get t ((a + off) * sz) ((b - a) * sz)) cr =
      Some (concat (map (\<lambda>(a, b). concat (map (\<lambda>i. cell_bytes t sz (i + off)) [a..<b])) cr))"
    by (intro omap_concat_Some) auto
  moreover have "concat (map (\<lambda>(a, b). concat (map (\<lambda>i. cell_bytes t sz (i + off)) [a..<b])) cr) = concat (map (\<lambda>i. cell_bytes t sz (i + off)) (range_cells cr))"
    by (induction cr) (auto simp: range_cells_def)
  ultimately show ?thesis by simp
qed

lemma write_ranges_spec:
  assumes "ranges_ok n cr" "n * sz \<le> length t"
  shows "write_ranges t sz cr = Some (concat (map (cell_bytes t sz) (range_cells cr)))"
  using write_at_spec[OF assms(1), of 0 sz t] assms(2) by (simp add: write_ranges_def)

lemma omap_concat_cong: "(\<And>x. x \<in> set xs \<Longrightarrow> f x = g x) \<Longrightarrow> omap_concat f xs = omap_concat g xs"
  unfolding omap_concat_def by (rule ofold_cong_set) auto

lemma write_cols_spec:
  assumes "ranges_ok n cr" "(n + j * n) * el \<le> length t" "length t \<le> 2 ^ 32" "0 < el"
  shows "write_cols t n el j cr = Some (concat (map (\<lambda>i. cell_bytes t el (i + j * n)) (range_cells cr)))"
proof -
  have "u32 ((a + j * n) * el) = (a + j * n) * el" if "(a, b) \<in> set cr" for a b
  proof -
    have "a < n" using assms(1) that by (auto simp: ranges_ok_def)
    then have "(a + j * n) * el < (n + j * n) * el" using assms(4) by simp
    then have "(a + j * n) * el < 2 ^ 32" using assms(2,3) by linarith
    then show ?thesis by (simp add: u32_def)
  qed
  then have "write_cols t n el j cr = omap_concat (\<lambda>(a, b). tensor_get t ((a + j * n) * el) ((b - a) * el)) cr"
    unfolding write_cols_def by (intro omap_concat_cong) auto
  then show ?thesis using write_at_spec[OF assms(1,2)] by simp
qed

text \<open>
  From 4 GiB on the writer reads the wrong bytes: with \<open>2 ^ 20\<close> cells and elements of two bytes, column 2048 of the values is
  written from column 0.
\<close>

lemma v_offset_wraps: "write_cols v 1048576 2 2048 cr = write_cols v 1048576 2 0 cr"
  unfolding write_cols_def u32_def
  by (rule omap_concat_cong) (simp add: mod_add_self2 mult.commute split: prod.splits)

lemma read_block_spec:
  assumes "slot_of si xs" "length ds = length xs" "\<forall>d \<in> set ds. length d = n" "\<forall>x \<in> set xs. (x + off + 1) * n \<le> length t \<and> x + off < 2 ^ 32"
  shows "\<exists>t'. read_block si off n (length xs) t (concat ds @ io) = Some (RD_OK, t', io) \<and> cells_set_to n (map_of (zip (map (\<lambda>x. x + off) xs) ds)) t t'"
proof -
  obtain t' where t': "put_block si off n (length xs) (concat ds) t = Some t'" "cells_set_to n (map_of (zip (map (\<lambda>x. x + off) xs) ds)) t t'"
    using put_block_spec[OF assms] by blast
  have "length (concat ds) = length xs * n" using assms(3) unfolding assms(2)[symmetric] by (induction ds) auto
  then show ?thesis using t' by (simp add: read_block_def)
qed

text \<open>The pieces \<open>ds\<close> are in the cells \<open>ps\<close>, and every other cell is as before.\<close>

definition placed :: "nat \<Rightarrow> nat list \<Rightarrow> nat list list \<Rightarrow> nat list \<Rightarrow> nat list \<Rightarrow> bool" where
  "placed n ps ds t t' \<longleftrightarrow> length t' = length t \<and> (\<forall>i < length ps. cell_bytes t' n (ps ! i) = ds ! i) \<and>
     (\<forall>p. p \<notin> set ps \<longrightarrow> cell_bytes t' n p = cell_bytes t n p)"

lemma cells_set_to_placed:
  assumes "cells_set_to n (map_of (zip ps ds)) t t'" "distinct ps" "length ds = length ps"
  shows "placed n ps ds t t'"
proof -
  have "map_of (zip ps ds) (ps ! i) = Some (ds ! i)" if "i < length ps" for i using that assms(2,3) by (simp add: map_of_zip_nth)
  moreover have "map_of (zip ps ds) p = None" if "p \<notin> set ps" for p using that assms(3) by (simp add: map_of_zip_is_None)
  ultimately show ?thesis using assms(1) by (simp add: cells_set_to_def placed_def)
qed

lemma read_block_placed:
  assumes "slot_of si xs" "length ds = length xs" "\<forall>d \<in> set ds. length d = n" "\<forall>x \<in> set xs. (x + off + 1) * n \<le> length t \<and> x + off < 2 ^ 32"
  shows "\<exists>t'. read_block si off n (length xs) t (concat ds @ io) = Some (RD_OK, t', io) \<and> placed n (map (\<lambda>x. x + off) xs) ds t t'"
proof -
  obtain t' where t': "read_block si off n (length xs) t (concat ds @ io) = Some (RD_OK, t', io)"
    "cells_set_to n (map_of (zip (map (\<lambda>x. x + off) xs) ds)) t t'" using read_block_spec[OF assms] by blast
  have "distinct (map (\<lambda>x. x + off) xs)" using assms(1) by (simp add: slot_of_def distinct_map)
  then show ?thesis using t'(1) cells_set_to_placed[OF t'(2)] assms(2) by auto
qed

lemma slot_of_length: "slot_of si xs \<Longrightarrow> length xs \<noteq> 0"
  by (simp add: slot_of_def)

lemma read_rows_spec:
  assumes "slot_of si xs" "length ds = length xs" "\<forall>d \<in> set ds. length d = n" "\<forall>x \<in> set xs. (x + 1) * n \<le> length t \<and> x < 2 ^ 32" "in_i32 ty" "n < 2 ^ 64"
  shows "\<exists>t'. read_rows si (length xs) ty n t (i32_bytes ty @ u64_bytes n @ concat ds @ io) = Some (RD_OK, t', io) \<and> placed n xs ds t t'"
  using read_block_placed[OF assms(1-3), of 0 t io] assms(4-6) slot_of_length[OF assms(1)] by (auto simp: read_rows_def)

lemma read_cols_spec:
  assumes si: "slot_of si xs" "\<forall>x \<in> set xs. x < kv" and d: "\<And>j. length (ds j) = length xs" "\<And>j. j \<in> set js \<Longrightarrow> \<forall>d \<in> set (ds j). length d = n"
    and t: "\<forall>j \<in> set js. (kv + j * kv) * n \<le> length t \<and> kv + j * kv \<le> 2 ^ 32" "distinct js"
  shows "\<exists>t'. read_cols si kv n (length xs) js t (concat (map (\<lambda>j. concat (ds j)) js) @ io) = Some (RD_OK, t', io) \<and> length t' = length t \<and>
    (\<forall>j \<in> set js. \<forall>i < length xs. cell_bytes t' n (xs ! i + j * kv) = ds j ! i) \<and>
    (\<forall>x j. x < kv \<longrightarrow> j \<notin> set js \<or> x \<notin> set xs \<longrightarrow> cell_bytes t' n (x + j * kv) = cell_bytes t n (x + j * kv))"
  using d(2) t
proof (induction js arbitrary: t)
  case Nil
  then show ?case by simp
next
  case (Cons j js)
  have inj: "x + j * kv = y + j' * kv \<longleftrightarrow> x = y \<and> j = j'" if xy: "x < kv" "y < kv" for x y j'
  proof
    assume e: "x + j * kv = y + j' * kv"
    have "(x + j * kv) div kv = j" "(y + j' * kv) div kv = j'" using xy by simp_all
    then show "x = y \<and> j = j'" using e by simp
  qed simp
  have "(x + j * kv + 1) * n \<le> length t \<and> x + j * kv < 2 ^ 32" if "x \<in> set xs" for x
  proof -
    have x: "x + j * kv + 1 \<le> kv + j * kv" using si(2) that by (simp add: Suc_le_eq)
    have k: "(kv + j * kv) * n \<le> length t" "kv + j * kv \<le> 2 ^ 32" using Cons(3) by auto
    show ?thesis using le_trans[OF mult_le_mono1[OF x] k(1)] le_trans[OF x k(2)] by simp
  qed
  then obtain t1 where t1: "read_block si (j * kv) n (length xs) t (concat (ds j) @ concat (map (\<lambda>j. concat (ds j)) js) @ io) =
      Some (RD_OK, t1, concat (map (\<lambda>j. concat (ds j)) js) @ io)" "placed n (map (\<lambda>x. x + j * kv) xs) (ds j) t t1"
    using read_block_placed[OF si(1) d(1), of j n "j * kv" t] Cons(2) by (metis list.set_intros(1))
  have l: "length t1 = length t" and p: "\<And>i. i < length xs \<Longrightarrow> cell_bytes t1 n (xs ! i + j * kv) = ds j ! i"
    using t1(2) by (auto simp: placed_def)
  have q: "cell_bytes t1 n (x + j' * kv) = cell_bytes t n (x + j' * kv)" if "x < kv" "j' \<noteq> j \<or> x \<notin> set xs" for x j'
  proof -
    have "x + j' * kv \<noteq> y + j * kv" if "y \<in> set xs" for y using inj[of y x j'] \<open>x < kv\<close> si(2) that \<open>j' \<noteq> j \<or> x \<notin> set xs\<close> by auto
    then show ?thesis using t1(2) by (auto simp: placed_def)
  qed
  obtain t' where t': "read_cols si kv n (length xs) js t1 (concat (map (\<lambda>j. concat (ds j)) js) @ io) = Some (RD_OK, t', io)" "length t' = length t1"
    "\<forall>j \<in> set js. \<forall>i < length xs. cell_bytes t' n (xs ! i + j * kv) = ds j ! i"
    "\<forall>x j. x < kv \<longrightarrow> j \<notin> set js \<or> x \<notin> set xs \<longrightarrow> cell_bytes t' n (x + j * kv) = cell_bytes t1 n (x + j * kv)"
  proof -
    have "\<And>j. j \<in> set js \<Longrightarrow> \<forall>d \<in> set (ds j). length d = n" using Cons(2) by (meson list.set_intros(2))
    from Cons(1)[OF this, of t1] Cons(3,4) l that show thesis by auto
  qed
  have "cell_bytes t' n (xs ! i + j * kv) = ds j ! i" if "i < length xs" for i using t'(4) p[OF that] si(2) that Cons(4) by simp
  moreover have "cell_bytes t' n (x + j' * kv) = cell_bytes t n (x + j' * kv)" if "x < kv" "j' \<notin> set (j # js) \<or> x \<notin> set xs" for x j'
    using t'(4) q[of x j'] that by auto
  ultimately show ?case using t'(1-3) t1(1) l by (intro exI[of _ t']) simp
qed

section \<open>Layers\<close>

definition k_cell :: "kv_layer \<Rightarrow> nat \<Rightarrow> nat \<Rightarrow> nat list" where
  "k_cell l s i = cell_bytes (kl_k l ! s) (kl_k_row l) i"

definition v_cell :: "bool \<Rightarrow> nat \<Rightarrow> kv_layer \<Rightarrow> nat \<Rightarrow> nat \<Rightarrow> nat list list option" where
  "v_cell vt n l s i = map_option (\<lambda>v. if vt then map (\<lambda>j. cell_bytes v (kl_v_el l) (i + j * n)) [0..<kl_n_embd_v l] else [cell_bytes v (kl_v_row l) i])
     (kl_v l ! s)"

text \<open>The tensors of a layer fit \<open>n\<close> cells in each of \<open>m\<close> streams; transposed values have at most 4 GiB.\<close>

definition layer_ok :: "bool \<Rightarrow> nat \<Rightarrow> nat \<Rightarrow> kv_layer \<Rightarrow> bool" where
  "layer_ok vt n m l \<longleftrightarrow> in_i32 (kl_k_type l) \<and> in_i32 (kl_v_type l) \<and> kl_k_row l < 2 ^ 64 \<and> kl_v_row l < 2 ^ 64 \<and> kl_v_el l < 2 ^ 32 \<and>
     kl_n_embd_v l < 2 ^ 32 \<and> n < 2 ^ 32 \<and> (vt \<longrightarrow> 0 < kl_v_el l \<and> n * (kl_n_embd_v l * kl_v_el l) \<le> 2 ^ 32) \<and> length (kl_k l) = m \<and> length (kl_v l) = m \<and>
     (\<forall>s < m. length (kl_k l ! s) = n * kl_k_row l \<and>
        (\<forall>v. kl_v l ! s = Some v \<longrightarrow> length v = n * (if vt then kl_n_embd_v l * kl_v_el l else kl_v_row l)))"

text \<open>Layers of the same model, at a stream of each.\<close>

definition layer_like :: "nat \<Rightarrow> nat \<Rightarrow> kv_layer \<Rightarrow> kv_layer \<Rightarrow> bool" where
  "layer_like s s' l l' \<longleftrightarrow> kl_k_type l = kl_k_type l' \<and> kl_k_row l = kl_k_row l' \<and> kl_v_type l = kl_v_type l' \<and> kl_v_row l = kl_v_row l' \<and>
     kl_v_el l = kl_v_el l' \<and> kl_n_embd_v l = kl_n_embd_v l' \<and> (kl_v l ! s = None \<longleftrightarrow> kl_v l' ! s' = None)"

definition k_header :: "kv_layer \<Rightarrow> nat list" where
  "k_header l = i32_bytes (kl_k_type l) @ u64_bytes (kl_k_row l)"

definition v_header :: "bool \<Rightarrow> kv_layer \<Rightarrow> nat list" where
  "v_header vt l = i32_bytes (kl_v_type l) @ (if vt then u32_bytes (kl_v_el l) @ u32_bytes (kl_n_embd_v l) else u64_bytes (kl_v_row l))"

definition k_image :: "kv_layer \<Rightarrow> nat \<Rightarrow> nat list \<Rightarrow> nat list" where
  "k_image l s sel = k_header l @ concat (map (k_cell l s) sel)"

definition v_image :: "bool \<Rightarrow> nat \<Rightarrow> kv_layer \<Rightarrow> nat \<Rightarrow> nat list \<Rightarrow> nat list" where
  "v_image vt n l s sel = (case kl_v l ! s of None \<Rightarrow> []
     | Some v \<Rightarrow> v_header vt l @ (if vt then concat (map (\<lambda>j. concat (map (\<lambda>i. cell_bytes v (kl_v_el l) (i + j * n)) sel)) [0..<kl_n_embd_v l])
         else concat (map (\<lambda>i. cell_bytes v (kl_v_row l) i) sel)))"

lemma k_cell_eq: "k_cell l s = cell_bytes (kl_k l ! s) (kl_k_row l)"
  by (simp add: k_cell_def fun_eq_iff)

lemma write_k_image:
  assumes "layer_ok vt n m l" "s < m" "ranges_ok n cr"
  shows "write_k s cr l = Some (k_image l s (range_cells cr))"
  using assms write_ranges_spec[OF assms(3), of "kl_k_row l" "kl_k l ! s"]
  by (simp add: write_k_def layer_ok_def k_image_def k_header_def k_cell_eq)

lemma col_fits: "j < n_embd \<Longrightarrow> (n + j * n) * el \<le> n * (n_embd * el)" for j :: nat
proof -
  assume "j < n_embd"
  then have "(Suc j) * (n * el) \<le> n_embd * (n * el)" by (intro mult_le_mono1) simp
  then show ?thesis by (simp add: algebra_simps)
qed

lemma write_v_image:
  assumes "layer_ok vt n m l" "s < m" "ranges_ok n cr"
  shows "(if vt then write_v_trans s n cr else write_v s cr) l = Some (v_image vt n l s (range_cells cr))"
proof (cases "kl_v l ! s")
  case None
  then show ?thesis using assms by (simp add: write_v_def write_v_trans_def layer_ok_def v_image_def)
next
  case (Some v)
  then have l: "length v = n * (if vt then kl_n_embd_v l * kl_v_el l else kl_v_row l)" "s < length (kl_v l)" using assms(1,2) by (auto simp: layer_ok_def)
  show ?thesis
  proof (cases vt)
    case True
    have "write_cols v n (kl_v_el l) j cr = Some (concat (map (\<lambda>i. cell_bytes v (kl_v_el l) (i + j * n)) (range_cells cr)))"
      if "j \<in> set [0..<kl_n_embd_v l]" for j
      by (rule write_cols_spec[OF assms(3)]) (use that l(1) True col_fits[of j "kl_n_embd_v l" n "kl_v_el l"] assms(1) in \<open>auto simp: layer_ok_def\<close>)
    from omap_concat_Some[of "[0..<kl_n_embd_v l]", OF this] show ?thesis using Some l(2) True by (simp add: write_v_trans_def v_image_def v_header_def)
  next
    case False
    then show ?thesis using write_ranges_spec[OF assms(3), of "kl_v_row l" v] Some l by (simp add: write_v_def v_image_def v_header_def)
  qed
qed

text \<open>Reading the image of the cells \<open>sel\<close> of a layer into the cells \<open>xs\<close> of a layer of the same kind.\<close>

definition layer_frame :: "nat \<Rightarrow> kv_layer \<Rightarrow> kv_layer \<Rightarrow> bool" where
  "layer_frame s l l' \<longleftrightarrow> kl_k_type l = kl_k_type l' \<and> kl_k_row l = kl_k_row l' \<and> kl_v_type l = kl_v_type l' \<and> kl_v_row l = kl_v_row l' \<and>
     kl_v_el l = kl_v_el l' \<and> kl_n_embd_v l = kl_n_embd_v l' \<and> (kl_v l ! s = None \<longleftrightarrow> kl_v l' ! s = None) \<and>
     (\<forall>r. r \<noteq> s \<longrightarrow> kl_k l ! r = kl_k l' ! r \<and> kl_v l ! r = kl_v l' ! r)"

lemma read_k_spec:
  assumes si: "slot_of si xs" "\<forall>x \<in> set xs. x < n'" and l: "layer_ok vt n m l" "layer_ok vt n' m' l'" "layer_like s s' l l'" "s < m" "s' < m'"
    and sel: "length sel = length xs" "\<forall>i \<in> set sel. i < n"
  shows "\<exists>l''. read_k s' si (length xs) l' (k_image l s sel @ io) = Some (RD_OK, l'', io) \<and> layer_ok vt n' m' l'' \<and> layer_frame s' l' l'' \<and>
    kl_v l'' = kl_v l' \<and> (\<forall>i < length xs. k_cell l'' s' (xs ! i) = k_cell l s (sel ! i)) \<and> (\<forall>x. x \<notin> set xs \<longrightarrow> k_cell l'' s' x = k_cell l' s' x)"
proof -
  let ?n = "kl_k_row l'"
  have lk: "kl_k_row l = ?n" "kl_k_type l = kl_k_type l'" using l(3) by (auto simp: layer_like_def)
  have len: "length (kl_k l ! s) = n * ?n" "length (kl_k l' ! s') = n' * ?n" "s' < length (kl_k l')" using l lk by (auto simp: layer_ok_def)
  have d: "\<forall>d \<in> set (map (k_cell l s) sel). length d = ?n"
  proof -
    have "(i + 1) * ?n \<le> n * ?n" if "i \<in> set sel" for i using sel(2) that by (intro mult_le_mono1) (simp add: Suc_le_eq)
    then show ?thesis using len(1) lk(1) by (auto simp: k_cell_def intro!: length_cell_bytes)
  qed
  have x: "\<forall>x \<in> set xs. (x + 1) * ?n \<le> length (kl_k l' ! s') \<and> x < 2 ^ 32"
  proof
    fix x assume x: "x \<in> set xs"
    then have "(x + 1) * ?n \<le> n' * ?n" using si(2) by (intro mult_le_mono1) (simp add: Suc_le_eq)
    moreover have "n' < 2 ^ 32" using l(2) by (simp add: layer_ok_def)
    ultimately show "(x + 1) * ?n \<le> length (kl_k l' ! s') \<and> x < 2 ^ 32" using len(2) si(2) x by force
  qed
  obtain t' where t': "read_rows si (length xs) (kl_k_type l') ?n (kl_k l' ! s') (i32_bytes (kl_k_type l') @ u64_bytes ?n @ concat (map (k_cell l s) sel) @ io) =
      Some (RD_OK, t', io)" "placed ?n xs (map (k_cell l s) sel) (kl_k l' ! s') t'"
    using read_rows_spec[OF si(1) _ d x, of "kl_k_type l'" io] sel(1) l(2) by (auto simp: layer_ok_def)
  let ?l = "l'\<lparr>kl_k := (kl_k l')[s' := t']\<rparr>"
  have "read_k s' si (length xs) l' (k_image l s sel @ io) = Some (RD_OK, ?l, io)"
    using t'(1) len(3) lk by (simp add: read_k_def k_image_def k_header_def)
  moreover have "layer_ok vt n' m' ?l" using l(2) t'(2) len(2) by (auto simp: layer_ok_def placed_def nth_list_update_in)
  moreover have "layer_frame s' l' ?l" by (auto simp: layer_frame_def)
  moreover have "\<forall>i < length xs. k_cell ?l s' (xs ! i) = k_cell l s (sel ! i)" "\<forall>x. x \<notin> set xs \<longrightarrow> k_cell ?l s' x = k_cell l' s' x"
    using t'(2) len(3) sel(1) by (auto simp: k_cell_def placed_def)
  ultimately show ?thesis by (intro exI[of _ ?l]) simp
qed

lemma read_v_spec:
  assumes si: "slot_of si xs" "\<forall>x \<in> set xs. x < n'" and l: "layer_ok vt n m l" "layer_ok vt n' m' l'" "layer_like s s' l l'" "s < m" "s' < m'"
    and sel: "length sel = length xs" "\<forall>i \<in> set sel. i < n"
  shows "\<exists>l''. read_v vt s' n' si (length xs) l' (v_image vt n l s sel @ io) = Some (RD_OK, l'', io) \<and> layer_ok vt n' m' l'' \<and> layer_frame s' l' l'' \<and>
    kl_k l'' = kl_k l' \<and> (\<forall>i < length xs. v_cell vt n' l'' s' (xs ! i) = v_cell vt n l s (sel ! i)) \<and>
    (\<forall>x < n'. x \<notin> set xs \<longrightarrow> v_cell vt n' l'' s' x = v_cell vt n' l' s' x)"
proof (cases "kl_v l' ! s'")
  case None
  then have "kl_v l ! s = None" using l(3) by (simp add: layer_like_def)
  with None show ?thesis using l(2,5) sel(1) by (intro exI[of _ l']) (auto simp: read_v_def v_image_def layer_ok_def layer_frame_def v_cell_def)
next
  case (Some v')
  then obtain v where v: "kl_v l ! s = Some v" using l(3) by (auto simp: layer_like_def)
  have lk: "kl_v_type l = kl_v_type l'" "kl_v_row l = kl_v_row l'" "kl_v_el l = kl_v_el l'" "kl_n_embd_v l = kl_n_embd_v l'" using l(3) by (auto simp: layer_like_def)
  have len: "length v = n * (if vt then kl_n_embd_v l' * kl_v_el l' else kl_v_row l')" "length v' = n' * (if vt then kl_n_embd_v l' * kl_v_el l' else kl_v_row l')"
    "s' < length (kl_v l')" using l v Some lk by (auto simp: layer_ok_def)
  obtain w where w: "(if vt then read_trans si n' (length xs) (kl_v_type l') (kl_v_el l') (kl_n_embd_v l') v' (v_image vt n l s sel @ io)
      else read_rows si (length xs) (kl_v_type l') (kl_v_row l') v' (v_image vt n l s sel @ io)) = Some (RD_OK, w, io)" "length w = length v'"
    "\<forall>i < length xs. v_cell vt n' (l'\<lparr>kl_v := (kl_v l')[s' := Some w]\<rparr>) s' (xs ! i) = v_cell vt n l s (sel ! i)"
    "\<forall>x < n'. x \<notin> set xs \<longrightarrow> v_cell vt n' (l'\<lparr>kl_v := (kl_v l')[s' := Some w]\<rparr>) s' x = v_cell vt n' l' s' x"
  proof (cases vt)
    case True
    let ?el = "kl_v_el l'" and ?ne = "kl_n_embd_v l'"
    let ?ds = "\<lambda>j. map (\<lambda>i. cell_bytes v ?el (i + j * n)) sel"
    have d: "\<forall>d \<in> set (?ds j). length d = ?el" if "j \<in> set [0..<?ne]" for j
    proof -
      have "(i + j * n + 1) * ?el \<le> length v" if i: "i \<in> set sel" for i
      proof -
        have "i + j * n + 1 \<le> n + j * n" using sel(2) i by (simp add: Suc_le_eq)
        then have "(i + j * n + 1) * ?el \<le> (n + j * n) * ?el" by (rule mult_le_mono1)
        also have "\<dots> \<le> length v" using col_fits[of j ?ne n ?el] \<open>j \<in> set [0..<?ne]\<close> len(1) True by simp
        finally show ?thesis .
      qed
      then show ?thesis by (auto intro!: length_cell_bytes)
    qed
    have t: "\<forall>j \<in> set [0..<?ne]. (n' + j * n') * ?el \<le> length v' \<and> n' + j * n' \<le> 2 ^ 32"
    proof
      fix j assume "j \<in> set [0..<?ne]"
      then have f: "(n' + j * n') * ?el \<le> n' * (?ne * ?el)" using col_fits[of j ?ne n' ?el] by simp
      have e: "0 < ?el" "n' * (?ne * ?el) \<le> 2 ^ 32" using l(2) True by (auto simp: layer_ok_def)
      have "n' + j * n' \<le> (n' + j * n') * ?el" using e(1) by simp
      then have "n' + j * n' \<le> 2 ^ 32" using le_trans[OF _ le_trans[OF f e(2)]] by blast
      moreover have "length v' = n' * (?ne * ?el)" using len(2) True by simp
      ultimately show "(n' + j * n') * ?el \<le> length v' \<and> n' + j * n' \<le> 2 ^ 32" using f by (metis)
    qed
    obtain w where w: "read_cols si n' ?el (length xs) [0..<?ne] v' (concat (map (\<lambda>j. concat (?ds j)) [0..<?ne]) @ io) = Some (RD_OK, w, io)" "length w = length v'"
      "\<forall>j \<in> set [0..<?ne]. \<forall>i < length xs. cell_bytes w ?el (xs ! i + j * n') = ?ds j ! i"
      "\<forall>x j. x < n' \<longrightarrow> j \<notin> set [0..<?ne] \<or> x \<notin> set xs \<longrightarrow> cell_bytes w ?el (x + j * n') = cell_bytes v' ?el (x + j * n')"
      using read_cols_spec[OF si, of ?ds "[0..<?ne]" ?el v' io] sel(1) d t by auto
    have "read_trans si n' (length xs) (kl_v_type l') ?el ?ne v' (v_image vt n l s sel @ io) = Some (RD_OK, w, io)"
      using w(1) v True lk l(2) slot_of_length[OF si(1)] by (simp add: read_trans_def v_image_def v_header_def layer_ok_def)
    moreover have "v_cell vt n' (l'\<lparr>kl_v := (kl_v l')[s' := Some w]\<rparr>) s' (xs ! i) = v_cell vt n l s (sel ! i)" if "i < length xs" for i
      using w(3) that sel(1) v lk len(3) True by (simp add: v_cell_def)
    moreover have "v_cell vt n' (l'\<lparr>kl_v := (kl_v l')[s' := Some w]\<rparr>) s' x = v_cell vt n' l' s' x" if "x < n'" "x \<notin> set xs" for x
      using w(4) that Some len(3) True by (simp add: v_cell_def)
    ultimately show thesis using that[of w] w(2) True by simp
  next
    case False
    let ?r = "kl_v_row l'"
    have d: "\<forall>d \<in> set (map (\<lambda>i. cell_bytes v ?r i) sel). length d = ?r"
    proof -
      have "(i + 1) * ?r \<le> n * ?r" if "i \<in> set sel" for i using sel(2) that by (intro mult_le_mono1) (simp add: Suc_le_eq)
      then show ?thesis using len(1) False by (auto intro!: length_cell_bytes)
    qed
    have x: "\<forall>x \<in> set xs. (x + 1) * ?r \<le> length v' \<and> x < 2 ^ 32"
    proof
      fix x assume x: "x \<in> set xs"
      then have "(x + 1) * ?r \<le> n' * ?r" using si(2) by (intro mult_le_mono1) (simp add: Suc_le_eq)
      moreover have "n' < 2 ^ 32" using l(2) by (simp add: layer_ok_def)
      ultimately show "(x + 1) * ?r \<le> length v' \<and> x < 2 ^ 32" using len(2) False si(2) x by force
    qed
    obtain w where w: "read_rows si (length xs) (kl_v_type l') ?r v' (i32_bytes (kl_v_type l') @ u64_bytes ?r @ concat (map (\<lambda>i. cell_bytes v ?r i) sel) @ io) =
        Some (RD_OK, w, io)" "placed ?r xs (map (\<lambda>i. cell_bytes v ?r i) sel) v' w"
      using read_rows_spec[OF si(1) _ d x, of "kl_v_type l'" io] sel(1) l(2) by (auto simp: layer_ok_def)
    have "read_rows si (length xs) (kl_v_type l') ?r v' (v_image vt n l s sel @ io) = Some (RD_OK, w, io)"
      using w(1) v False lk by (simp add: v_image_def v_header_def)
    moreover have "v_cell vt n' (l'\<lparr>kl_v := (kl_v l')[s' := Some w]\<rparr>) s' (xs ! i) = v_cell vt n l s (sel ! i)" if "i < length xs" for i
      using w(2) that sel(1) v lk len(3) False by (simp add: v_cell_def placed_def)
    moreover have "v_cell vt n' (l'\<lparr>kl_v := (kl_v l')[s' := Some w]\<rparr>) s' x = v_cell vt n' l' s' x" if "x < n'" "x \<notin> set xs" for x
      using w(2) that Some len(3) False by (simp add: v_cell_def placed_def)
    ultimately show thesis using that[of w] w(2) False by (simp add: placed_def)
  qed
  let ?l = "l'\<lparr>kl_v := (kl_v l')[s' := Some w]\<rparr>"
  have "read_v vt s' n' si (length xs) l' (v_image vt n l s sel @ io) = Some (RD_OK, ?l, io)"
    using w(1) len(3) Some by (cases vt) (simp_all add: read_v_def)
  moreover have "layer_ok vt n' m' ?l" using l(2) w(2) len(2) by (auto simp: layer_ok_def nth_list_update_in)
  moreover have "layer_frame s' l' ?l" using Some len(3) by (auto simp: layer_frame_def)
  ultimately show ?thesis using w(3,4) by (intro exI[of _ ?l]) simp
qed

lemma read_layers_spec:
  assumes "length ws = length ls" "\<And>j io. j < length ls \<Longrightarrow> \<exists>l'. f (ls ! j) (ws ! j @ io) = Some (RD_OK, l', io) \<and> Q j l'"
  shows "\<exists>ls'. read_layers f ls (concat ws @ io) = Some (RD_OK, ls', io) \<and> length ls' = length ls \<and> (\<forall>j < length ls. Q j (ls' ! j))"
  using assms
proof (induction ls arbitrary: ws Q)
  case Nil
  then show ?case by simp
next
  case (Cons l ls)
  obtain w ws' where ws: "ws = w # ws'" "length ws' = length ls" using Cons(2) by (cases ws) auto
  obtain l' where l': "f l (w @ concat ws' @ io) = Some (RD_OK, l', concat ws' @ io)" "Q 0 l'" using Cons(3)[of 0 "concat ws' @ io"] ws by auto
  have "\<exists>l'. f (ls ! j) (ws' ! j @ io) = Some (RD_OK, l', io) \<and> Q (Suc j) l'" if "j < length ls" for j io
    using Cons(3)[of "Suc j" io] that ws by simp
  from Cons(1)[OF ws(2) this] obtain ls' where ls': "read_layers f ls (concat ws' @ io) = Some (RD_OK, ls', io)" "length ls' = length ls"
    "\<forall>j < length ls. Q (Suc j) (ls' ! j)" by auto
  have "\<forall>j < length (l # ls). Q j ((l' # ls') ! j)" using l'(2) ls'(3) by (auto simp: nth_Cons split: nat.split)
  then show ?case using l'(1) ls'(1,2) ws(1) by (intro exI[of _ "l' # ls'"]) simp
qed

section \<open>The data of a stream\<close>

definition data_image :: "bool \<Rightarrow> nat \<Rightarrow> kv_layer list \<Rightarrow> nat \<Rightarrow> nat list \<Rightarrow> nat list" where
  "data_image vt n ls s sel = u32_bytes (if vt then 1 else 0) @ u32_bytes (length ls) @
     concat (map (\<lambda>l. k_image l s sel) ls) @ concat (map (\<lambda>l. v_image vt n l s sel) ls)"

lemma write_data_image:
  assumes "\<forall>l \<in> set (ks_layers st). layer_ok (ks_v_trans st) (cells_size c) m l" "s < m" "ranges_ok (cells_size c) cr"
  shows "state_write_data st s c cr = Some (data_image (ks_v_trans st) (cells_size c) (ks_layers st) s (range_cells cr))"
proof -
  have "omap_concat (write_k s cr) (ks_layers st) = Some (concat (map (\<lambda>l. k_image l s (range_cells cr)) (ks_layers st)))"
    by (rule omap_concat_Some) (use assms write_k_image in blast)
  moreover have "omap_concat (if ks_v_trans st then write_v_trans s (cells_size c) cr else write_v s cr) (ks_layers st) =
      Some (concat (map (\<lambda>l. v_image (ks_v_trans st) (cells_size c) l s (range_cells cr)) (ks_layers st)))"
    by (rule omap_concat_Some) (use assms write_v_image in blast)
  ultimately show ?thesis by (simp add: state_write_data_def data_image_def)
qed

text \<open>The cells \<open>sel\<close> of layer \<open>l\<close> are in the cells \<open>xs\<close> of layer \<open>l''\<close>, which is otherwise layer \<open>l'\<close>.\<close>

definition layer_restored :: "bool \<Rightarrow> nat \<Rightarrow> nat \<Rightarrow> nat \<Rightarrow> nat \<Rightarrow> nat list \<Rightarrow> nat list \<Rightarrow> kv_layer \<Rightarrow> kv_layer \<Rightarrow> kv_layer \<Rightarrow> bool" where
  "layer_restored vt n n' s s' sel xs l l' l'' \<longleftrightarrow> layer_frame s' l' l'' \<and>
     (\<forall>i < length xs. k_cell l'' s' (xs ! i) = k_cell l s (sel ! i) \<and> v_cell vt n' l'' s' (xs ! i) = v_cell vt n l s (sel ! i)) \<and>
     (\<forall>x < n'. x \<notin> set xs \<longrightarrow> k_cell l'' s' x = k_cell l' s' x \<and> v_cell vt n' l'' s' x = v_cell vt n' l' s' x)"

lemma layer_like_frame: "layer_like s s' l l' \<Longrightarrow> layer_frame s' l' l'' \<Longrightarrow> layer_like s s' l l''"
  by (simp add: layer_like_def layer_frame_def)

lemma layer_frame_trans: "layer_frame s l l' \<Longrightarrow> layer_frame s l' l'' \<Longrightarrow> layer_frame s l l''"
  by (simp add: layer_frame_def)

lemma v_cell_frame: "layer_frame s l l' \<Longrightarrow> kl_v l' = kl_v l \<Longrightarrow> v_cell vt n l' s x = v_cell vt n l s x"
  by (cases "kl_v l ! s") (simp_all add: v_cell_def layer_frame_def)

lemma k_cell_frame: "layer_frame s l l' \<Longrightarrow> kl_k l' = kl_k l \<Longrightarrow> k_cell l' s x = k_cell l s x"
  by (simp add: k_cell_def layer_frame_def)

lemma read_data_spec:
  assumes si: "slot_of si xs" "\<forall>x \<in> set xs. x < n'" and sel: "length sel = length xs" "\<forall>i \<in> set sel. i < n"
    and ls: "\<forall>l \<in> set ls. layer_ok vt n m l" "\<forall>l \<in> set (ks_layers st). layer_ok vt n' m' l" "list_all2 (layer_like s s') ls (ks_layers st)" "s < m" "s' < m'" "length ls < 2 ^ 32"
    and st: "s' < length (kc_cells (ks_cache st))" "cells_size (kc_cells (ks_cache st) ! s') = n'" "ks_v_trans st = vt"
  shows "\<exists>ls''. state_read_data s' (length xs) si st (data_image vt n ls s sel @ io) = Some (RD_OK, st\<lparr>ks_layers := ls''\<rparr>, io) \<and>
    length ls'' = length ls \<and> (\<forall>j < length ls. layer_ok vt n' m' (ls'' ! j) \<and> layer_restored vt n n' s s' sel xs (ls ! j) (ks_layers st ! j) (ls'' ! j))"
proof -
  have len: "length (ks_layers st) = length ls" using ls(3) by (simp add: list_all2_lengthD)
  have lk: "layer_like s s' (ls ! j) (ks_layers st ! j)" "layer_ok vt n m (ls ! j)" "layer_ok vt n' m' (ks_layers st ! j)" if "j < length ls" for j
    using that ls(1-3) len by (auto simp: list_all2_conv_all_nth)
  let ?K = "map (\<lambda>l. k_image l s sel) ls" and ?V = "map (\<lambda>l. v_image vt n l s sel) ls"
  let ?Q = "\<lambda>j l''. layer_ok vt n' m' l'' \<and> layer_frame s' (ks_layers st ! j) l'' \<and> kl_v l'' = kl_v (ks_layers st ! j) \<and>
    (\<forall>i < length xs. k_cell l'' s' (xs ! i) = k_cell (ls ! j) s (sel ! i)) \<and> (\<forall>x. x \<notin> set xs \<longrightarrow> k_cell l'' s' x = k_cell (ks_layers st ! j) s' x)"
  have "\<exists>ls'. read_layers (read_k s' si (length xs)) (ks_layers st) (concat ?K @ concat ?V @ io) = Some (RD_OK, ls', concat ?V @ io) \<and>
      length ls' = length (ks_layers st) \<and> (\<forall>j < length (ks_layers st). ?Q j (ls' ! j))"
    by (rule read_layers_spec) (use len read_k_spec[OF si lk(2,3,1) ls(4,5) sel] in auto)
  then obtain ls1 where k: "read_layers (read_k s' si (length xs)) (ks_layers st) (concat ?K @ concat ?V @ io) = Some (RD_OK, ls1, concat ?V @ io)"
    "length ls1 = length ls" and Q: "\<And>j. j < length ls \<Longrightarrow> ?Q j (ls1 ! j)" using len by auto
  have lk1: "layer_like s s' (ls ! j) (ls1 ! j)" "layer_ok vt n' m' (ls1 ! j)" if "j < length ls" for j using layer_like_frame[OF lk(1)[OF that]] Q[OF that] by auto
  let ?R = "\<lambda>j l''. layer_ok vt n' m' l'' \<and> layer_frame s' (ls1 ! j) l'' \<and> kl_k l'' = kl_k (ls1 ! j) \<and>
    (\<forall>i < length xs. v_cell vt n' l'' s' (xs ! i) = v_cell vt n (ls ! j) s (sel ! i)) \<and> (\<forall>x < n'. x \<notin> set xs \<longrightarrow> v_cell vt n' l'' s' x = v_cell vt n' (ls1 ! j) s' x)"
  have "\<exists>ls'. read_layers (read_v vt s' n' si (length xs)) ls1 (concat ?V @ io) = Some (RD_OK, ls', io) \<and>
      length ls' = length ls1 \<and> (\<forall>j < length ls1. ?R j (ls' ! j))"
    by (rule read_layers_spec) (use k(2) read_v_spec[OF si lk(2) lk1(2,1) ls(4,5) sel] in auto)
  then obtain ls2 where v: "read_layers (read_v vt s' n' si (length xs)) ls1 (concat ?V @ io) = Some (RD_OK, ls2, io)" "length ls2 = length ls"
    and R: "\<And>j. j < length ls \<Longrightarrow> ?R j (ls2 ! j)" using k(2) by auto
  have "length xs \<le> n'" using si by (metis card_mono distinct_card finite_lessThan slot_of_def subsetI lessThan_iff card_lessThan)
  then have "state_read_data s' (length xs) si st (data_image vt n ls s sel @ io) = Some (RD_OK, st\<lparr>ks_layers := ls2\<rparr>, io)"
    using k(1) v(1) st ls(6) len by (simp add: state_read_data_def data_image_def)
  moreover have "layer_ok vt n' m' (ls2 ! j) \<and> layer_restored vt n n' s s' sel xs (ls ! j) (ks_layers st ! j) (ls2 ! j)" if j: "j < length ls" for j
  proof -
    note q = Q[OF j] and r = R[OF j]
    have "v_cell vt n' (ls1 ! j) s' x = v_cell vt n' (ks_layers st ! j) s' x" for x using q v_cell_frame by blast
    moreover have "k_cell (ls2 ! j) s' x = k_cell (ls1 ! j) s' x" for x using r k_cell_frame by blast
    moreover have "layer_frame s' (ks_layers st ! j) (ls2 ! j)" using q r layer_frame_trans by blast
    ultimately show ?thesis using q r by (simp add: layer_restored_def)
  qed
  ultimately show ?thesis using v(2) by blast
qed

section \<open>The metadata\<close>

definition cell_ids :: "nat \<Rightarrow> llama_seq_id \<Rightarrow> llama_kv_cells \<Rightarrow> nat \<Rightarrow> llama_seq_id list" where
  "cell_ids n_seq_max seq_id c i = map int (filter (\<lambda>s. (int s = seq_id \<or> seq_id = -1) \<and> s \<in> c_seq c ! i) [0..<n_seq_max])"

definition meta_bytes :: "llama_pos \<times> llama_seq_id list \<Rightarrow> nat list" where
  "meta_bytes e = i32_bytes (fst e) @ u32_bytes (length (snd e)) @ concat (map i32_bytes (snd e))"

definition cell_entry :: "nat \<Rightarrow> llama_seq_id \<Rightarrow> llama_kv_cells \<Rightarrow> nat \<Rightarrow> llama_pos \<times> llama_seq_id list" where
  "cell_entry n_seq_max seq_id c i = (c_pos c ! i, cell_ids n_seq_max seq_id c i)"

lemma write_cell_entry:
  assumes "cells_ok c" "i < cells_size c" "c_pos c ! i \<noteq> -1" "n_seq_max \<le> LLAMA_MAX_SEQ"
  shows "write_cell n_seq_max 1 seq_id c i = Some (meta_bytes (cell_entry n_seq_max seq_id c i))"
proof -
  have i: "i < length (c_pos c)" "i < length (c_seq c)" using assms(2) cells_okD(4)[OF assms(1)] by (auto simp: cells_size_def)
  have "ofold (\<lambda>cur seq_ids. if int cur = seq_id \<or> seq_id = -1
       then do { has \<leftarrow> cells_seq_has i (int cur) c; Some (if has then seq_ids @ [int cur] else seq_ids) }
       else Some seq_ids) [0..<m] [] = Some (cell_ids m seq_id c i)" if "m \<le> LLAMA_MAX_SEQ" for m
    using that
  proof (induction m)
    case (Suc m)
    then show ?case using i by (simp add: ofold_append cell_ids_def cells_seq_has_def bit_test_def)
  qed (simp add: cell_ids_def)
  then show ?thesis using assms i by (simp add: write_cell_def meta_bytes_def cell_entry_def cells_pos_get_def)
qed

text \<open>Entries that a restore accepts.\<close>

definition entry_ok :: "nat \<Rightarrow> llama_pos \<times> llama_seq_id list \<Rightarrow> bool" where
  "entry_ok n_seq_max e \<longleftrightarrow> 0 \<le> fst e \<and> in_i32 (fst e) \<and> distinct (snd e) \<and> (\<forall>s \<in> set (snd e). 0 \<le> s \<and> s < int n_seq_max)"

lemma read_seqs_ofold:
  assumes "\<forall>s \<in> set ids. 0 \<le> s \<and> s < int n_seq_max" "n_seq_max \<le> LLAMA_MAX_SEQ" "ofold (cells_seq_add i) ids c = Some c'"
  shows "read_seqs (length ids) i n_seq_max c (concat (map i32_bytes ids) @ io) = Some (RD_OK, c', io)"
  using assms(1,3)
proof (induction ids arbitrary: c)
  case (Cons s ids)
  have "in_i32 s" using Cons(2) assms(2) by (auto simp: in_i32_def i32_max_def LLAMA_MAX_SEQ_def)
  then show ?case using Cons by (auto simp: bind_Some_iff)
qed simp

lemma add_ids_spec:
  assumes ok: "cells_ok c" and i: "i < cells_size c" and p: "c_pos c ! i \<noteq> -1" "c_seq c ! i = {}"
    and ids: "distinct ids" "\<forall>s \<in> set ids. valid_seq_id s"
  shows "\<exists>c'. ofold (cells_seq_add i) ids c = Some c' \<and> put_cell i (c_pos c ! i, c_ext c ! i, c_shift c ! i, nat ` set ids) (c_has_shift c) c c'"
proof -
  have "ofold (\<lambda>s c. cells_seq_add i (ids ! s) c) [0..<length ids] c = ofold (cells_seq_add i) (map ((!) ids) [0..<length ids]) c"
    by (simp add: ofold_map)
  then show ?thesis using add_seqs_spec[OF ok i p, of "length ids" ids] ids by (simp add: map_nth)
qed

lemma length_ids: "distinct ids \<Longrightarrow> \<forall>s \<in> set ids. 0 \<le> s \<and> s < int m \<Longrightarrow> length ids \<le> m"
proof -
  assume a: "distinct ids" "\<forall>s \<in> set ids. 0 \<le> s \<and> s < int m"
  then have "set ids \<subseteq> {0..<int m}" by auto
  then have "card (set ids) \<le> m" using card_mono[of "{0..<int m}" "set ids"] by simp
  then show ?thesis using a(1) by (simp add: distinct_card)
qed

lemma read_cells_spec:
  assumes "cells_ok c" "i + length es \<le> cells_size c" "\<forall>e \<in> set es. entry_ok m e" "m \<le> LLAMA_MAX_SEQ" "\<forall>j. i \<le> j \<and> j < i + length es \<longrightarrow> c_pos c ! j = -1"
  shows "\<exists>c'. read_cells (length es) i m c (concat (map meta_bytes es) @ io) = Some (RD_OK, c', io) \<and> cells_ok c' \<and> cells_size c' = cells_size c \<and>
    (\<forall>j < cells_size c. cell_at c' j = (if i \<le> j \<and> j < i + length es then (fst (es ! (j - i)), c_ext c ! j, 0, nat ` set (snd (es ! (j - i)))) else cell_at c j))"
  using assms
proof (induction es arbitrary: i c)
  case (Cons e es)
  obtain p ids where e: "e = (p, ids)" by (cases e)
  have eo: "0 \<le> p" "in_i32 p" "distinct ids" "\<forall>s \<in> set ids. 0 \<le> s \<and> s < int m" using Cons(4) e by (auto simp: entry_ok_def)
  have v: "\<forall>s \<in> set ids. valid_seq_id s" using eo(4) Cons(5) by (auto simp: valid_seq_id_def)
  have i: "i < cells_size c" "i < length (c_pos c)" "c_pos c ! i = -1" using Cons(3,6) by (auto simp: cells_size_def)
  obtain c1 where c1: "cells_pos_set i p c = Some c1" "put_cell i (p, c_ext c ! i, 0, {}) (c_has_shift c) c c1"
    using cells_pos_set_spec[OF Cons(2) i(2,3) eo(1)] cells_okD(10)[OF Cons(2) i(2,3)] by (auto simp: put_cell_def)
  note D1 = put_cellD[OF c1(2) Cons(2) i(1)]
  have f1: "c_pos c1 ! i = p" "c_ext c1 ! i = c_ext c ! i" "c_shift c1 ! i = 0" "c_seq c1 ! i = {}" using D1(4)[OF i(1)] by (auto simp: cell_at_def)
  obtain c2 where c2: "ofold (cells_seq_add i) ids c1 = Some c2" "put_cell i (p, c_ext c ! i, 0, nat ` set ids) (c_has_shift c1) c1 c2"
    using add_ids_spec[OF D1(1) _ _ f1(4) eo(3) v] D1(2) i(1) f1 eo(1) by auto
  note D2 = put_cellD[OF c2(2) D1(1), unfolded D1(2), OF i(1)]
  have at2: "cell_at c2 j = (if j = i then (p, c_ext c ! i, 0, nat ` set ids) else cell_at c j)" if "j < cells_size c" for j
    using D2(4)[OF that] D1(4)[OF that] by simp
  have "length ids < 2 ^ 32" using length_ids[OF eo(3,4)] Cons(5) by (simp add: LLAMA_MAX_SEQ_def)
  then have rd: "read_cells (length (e # es)) i m c (concat (map meta_bytes (e # es)) @ io) = read_cells (length es) (Suc i) m c2 (concat (map meta_bytes es) @ io)"
    using c1(1) eo(2) read_seqs_ofold[OF eo(4) Cons(5) c2(1)] by (simp add: e meta_bytes_def)
  have "c_pos c2 ! j = -1" if "Suc i \<le> j \<and> j < Suc i + length es" for j using at2[of j] Cons(3,6) that by (simp add: cell_at_def)
  then obtain c' where c': "read_cells (length es) (Suc i) m c2 (concat (map meta_bytes es) @ io) = Some (RD_OK, c', io)" "cells_ok c'" "cells_size c' = cells_size c2"
    "\<forall>j < cells_size c2. cell_at c' j = (if Suc i \<le> j \<and> j < Suc i + length es then (fst (es ! (j - Suc i)), c_ext c2 ! j, 0, nat ` set (snd (es ! (j - Suc i)))) else cell_at c2 j)"
    using Cons(1)[of c2 "Suc i"] Cons(3-5) D2(1,2) by auto
  have "cell_at c' j = (if i \<le> j \<and> j < i + length (e # es) then (fst ((e # es) ! (j - i)), c_ext c ! j, 0, nat ` set (snd ((e # es) ! (j - i)))) else cell_at c j)"
    if j: "j < cells_size c" for j
  proof (cases "Suc i \<le> j \<and> j < Suc i + length es")
    case True
    have "c_ext c2 ! j = c_ext c ! j" using at2[OF j] True by (simp add: cell_at_def)
    then show ?thesis using c'(4) True j D2(2) by (simp add: nth_Cons')
  next
    case False
    then show ?thesis using c'(4) j D2(2) at2[OF j] by (auto simp: e)
  qed
  then show ?case using c' rd D2(2) by auto
qed auto

section \<open>The whole cache\<close>

text \<open>A unified cache with its tensors, one position per embedding; its numbers fit the width they are written with.\<close>

definition store_ok :: "kv_store \<Rightarrow> bool" where
  "store_ok st \<longleftrightarrow> (let k = ks_cache st; c = kc_cells k ! 0; n = cells_size c in
     cache_ok k \<and> kc_n_stream k = 1 \<and> kc_n_pos k = 1 \<and> kc_n_seq_max k \<le> LLAMA_MAX_SEQ \<and> length (ks_layers st) < 2 ^ 32 \<and> n < 2 ^ 32 \<and>
     (\<forall>l \<in> set (ks_layers st). layer_ok (ks_v_trans st) n 1 l) \<and> (\<forall>i < n. in_i32 (c_pos c ! i) \<and> c_seq c ! i \<subseteq> {..<kc_n_seq_max k}))"

definition compatible :: "kv_store \<Rightarrow> kv_store \<Rightarrow> bool" where
  "compatible st st' \<longleftrightarrow> ks_v_trans st = ks_v_trans st' \<and> list_all2 (layer_like 0 0) (ks_layers st) (ks_layers st') \<and>
     kc_n_seq_max (ks_cache st) = kc_n_seq_max (ks_cache st')"

lemma store_okD:
  assumes "store_ok st" "c = kc_cells (ks_cache st) ! 0"
  shows "cache_ok (ks_cache st)" "kc_n_stream (ks_cache st) = 1" "kc_n_pos (ks_cache st) = 1" "kc_n_seq_max (ks_cache st) \<le> LLAMA_MAX_SEQ"
    "length (ks_layers st) < 2 ^ 32" "cells_size c < 2 ^ 32" "\<forall>l \<in> set (ks_layers st). layer_ok (ks_v_trans st) (cells_size c) 1 l"
    "\<And>i. i < cells_size c \<Longrightarrow> in_i32 (c_pos c ! i) \<and> c_seq c ! i \<subseteq> {..<kc_n_seq_max (ks_cache st)}"
    "kc_cells (ks_cache st) = [c]" "length (kc_heads (ks_cache st)) = 1" "cells_ok c"
proof -
  show "cache_ok (ks_cache st)" "kc_n_stream (ks_cache st) = 1" "kc_n_pos (ks_cache st) = 1" "kc_n_seq_max (ks_cache st) \<le> LLAMA_MAX_SEQ"
    "length (ks_layers st) < 2 ^ 32" "cells_size c < 2 ^ 32" "\<forall>l \<in> set (ks_layers st). layer_ok (ks_v_trans st) (cells_size c) 1 l"
    "\<And>i. i < cells_size c \<Longrightarrow> in_i32 (c_pos c ! i) \<and> c_seq c ! i \<subseteq> {..<kc_n_seq_max (ks_cache st)}"
    using assms by (auto simp: store_ok_def Let_def)
  then have "length (kc_cells (ks_cache st)) = 1" "length (kc_heads (ks_cache st)) = 1" "\<forall>c \<in> set (kc_cells (ks_cache st)). cells_ok c" by (auto simp: cache_ok_def)
  then show "kc_cells (ks_cache st) = [c]" "length (kc_heads (ks_cache st)) = 1" "cells_ok c" using assms(2) by (auto simp: length_Suc_conv)
qed

lemma selection_cells: "i \<in> set (selection c seq_id) \<Longrightarrow> i < cells_size c \<and> c_pos c ! i \<noteq> -1"
  by (auto simp: selection_def selected_def)

lemma length_selection: "length (selection c seq_id) \<le> cells_size c"
  unfolding selection_def by (metis length_filter_le length_upt minus_nat.diff_0)

text \<open>The bytes of a unified cache.\<close>

lemma state_write_bytes:
  assumes "store_ok st" "c = kc_cells (ks_cache st) ! 0" "seq_id = -1 \<or> valid_seq_id seq_id" "sel = selection c seq_id" "sel \<noteq> []"
  shows "state_write st seq_id = Some (u32_bytes 1 @ u32_bytes (length sel) @
    concat (map meta_bytes (map (cell_entry (kc_n_seq_max (ks_cache st)) seq_id c) sel)) @ data_image (ks_v_trans st) (cells_size c) (ks_layers st) 0 sel)"
proof -
  note K = store_okD[OF assms(1,2)]
  obtain cr where cr: "cell_ranges c seq_id = Some (length sel, cr)" "range_cells cr = sel" "ranges_ok (cells_size c) cr"
    using cell_ranges_spec[OF K(11) assms(3)] assms(4) by auto
  have "write_cell (kc_n_seq_max (ks_cache st)) 1 seq_id c i = Some (meta_bytes (cell_entry (kc_n_seq_max (ks_cache st)) seq_id c i))" if "i \<in> set sel" for i
    using write_cell_entry[OF K(11) _ _ K(4)] selection_cells[of i c seq_id] that assms(4) by auto
  from omap_concat_Some[of sel, OF this] have m: "state_write_meta (ks_cache st) c cr seq_id = Some (concat (map meta_bytes (map (cell_entry (kc_n_seq_max (ks_cache st)) seq_id c) sel)))"
    using K(3) cr(2) by (simp add: state_write_meta_def comp_def)
  have d: "state_write_data st 0 c cr = Some (data_image (ks_v_trans st) (cells_size c) (ks_layers st) 0 sel)"
    using write_data_image[OF K(7) _ cr(3)] cr(2) by simp
  have "write_stream st seq_id 0 = Some (u32_bytes (length sel) @ concat (map meta_bytes (map (cell_entry (kc_n_seq_max (ks_cache st)) seq_id c) sel)) @
      data_image (ks_v_trans st) (cells_size c) (ks_layers st) 0 sel)"
    using cr(1) m d K(9) assms(5) by (simp add: write_stream_def)
  then show ?thesis using K(2) by (simp add: state_write_def omap_concat_def)
qed

lemma nat_cell_ids: "nat ` set (cell_ids m (-1) c i) = c_seq c ! i \<inter> {..<m}"
  by (auto simp: cell_ids_def image_iff)

lemma entry_ok_cell:
  assumes "cells_ok c" "i < cells_size c" "c_pos c ! i \<noteq> -1" "in_i32 (c_pos c ! i)"
  shows "entry_ok m (cell_entry m seq_id c i)"
proof -
  have "-1 \<le> c_pos c ! i" using assms(1,2) cells_okD(7)[OF assms(1)] by (auto simp: cells_ok_def shape_ok_def cells_size_def)
  then show ?thesis using assms(3,4) by (auto simp: entry_ok_def cell_entry_def cell_ids_def distinct_map)
qed

lemma cells_okD_seq_pos: "cells_ok c \<Longrightarrow> s \<ge> LLAMA_MAX_SEQ \<Longrightarrow> c_seq_pos c s = []"
proof -
  assume "cells_ok c" "s \<ge> LLAMA_MAX_SEQ"
  then have "occ c s p = {}" for p by (force simp: occ_def cells_ok_def shape_ok_def)
  moreover have "counter_tracks (c_seq_pos c s) (\<lambda>p. card (occ c s p))" using \<open>cells_ok c\<close> by (simp add: cells_ok_def track_ok_def)
  ultimately show ?thesis using counter_tracks_keys by fastforce
qed

lemma cells_reset_cells:
  assumes "cells_ok c"
  shows "cells_ok (cells_reset c)" "cells_size (cells_reset c) = cells_size c" "\<And>i. i < cells_size c \<Longrightarrow> cell_at (cells_reset c) i = cell_free"
    "\<And>i. i < cells_size c \<Longrightarrow> c_pos (cells_reset c) ! i = -1 \<and> c_ext (cells_reset c) ! i = ext_reset"
  by (rule cells_reset_ok) (use assms cells_okD_seq_pos in \<open>auto simp: cells_reset_def Let_def cells_size_def cell_at_def\<close>)

lemma layer_zero_simps:
  "layer_ok vt n m (layer_zero l) \<longleftrightarrow> layer_ok vt n m l"
  "s' < length (kl_v l') \<Longrightarrow> layer_like s s' l (layer_zero l') \<longleftrightarrow> layer_like s s' l l'"
  by (auto simp: layer_zero_def layer_ok_def layer_like_def map_option_case split: option.splits)

text \<open>The metadata of a whole restore.\<close>

lemma read_meta_whole:
  assumes st: "store_ok st" "c = kc_cells (ks_cache st) ! 0" and es: "\<forall>e \<in> set es. entry_ok (kc_n_seq_max (ks_cache st)) e" "length es \<le> cells_size c"
  shows "\<exists>c'. state_read_meta 0 (length es) (-1) st (concat (map meta_bytes es) @ io) =
      Some (RD_OK, \<lparr>si_s0 = 0, si_s1 = 0, si_strm = [0], si_idxs = [[0..<length es]]\<rparr>,
        (store_clear st)\<lparr>ks_cache := (ks_cache st)\<lparr>kc_cells := [c'], kc_heads := [0]\<rparr>\<rparr>, io) \<and>
    cells_ok c' \<and> cells_size c' = cells_size c \<and>
    (\<forall>j < cells_size c. cell_at c' j = (if j < length es then (fst (es ! j), ext_reset, 0, nat ` set (snd (es ! j))) else cell_free))"
proof -
  note K = store_okD[OF st]
  note R = cells_reset_cells[OF K(11)]
  have fr: "\<forall>j. 0 \<le> j \<and> j < 0 + length es \<longrightarrow> c_pos (cells_reset c) ! j = -1" and n: "0 + length es \<le> cells_size (cells_reset c)" using R(2,4) es(2) by simp_all
  obtain c' where c': "read_cells (length es) 0 (kc_n_seq_max (ks_cache st)) (cells_reset c) (concat (map meta_bytes es) @ io) = Some (RD_OK, c', io)"
    "cells_ok c'" "cells_size c' = cells_size c"
    "\<forall>j < cells_size c. cell_at c' j = (if j < length es then (fst (es ! j), c_ext (cells_reset c) ! j, 0, nat ` set (snd (es ! j))) else cell_at (cells_reset c) j)"
    using read_cells_spec[OF R(1) n es(1) K(4) fr, of io] R(2) by auto
  have hs: "kc_heads (ks_cache st) = [hd (kc_heads (ks_cache st))]" using K(10) by (cases "kc_heads (ks_cache st)") auto
  have "cache_clear (ks_cache st) = (ks_cache st)\<lparr>kc_cells := [cells_reset c], kc_heads := [0]\<rparr>" unfolding cache_clear_def K(9) by (subst hs) simp
  then show ?thesis using c' R(3,4) K(9) es(2) unfolding state_read_meta_def store_clear_def by (intro exI[of _ c']) simp
qed

text \<open>
  C22: What is saved is restored. The state of a unified cache with at least one used cell, one position per embedding and transposed values of
  at most 4 GiB per layer is written without a failed assertion, and
  reading it into any such cache of the same model that is large enough succeeds and consumes exactly these bytes. The used cells,
  in order, are then the first cells of the other cache, with the same positions, sequences, keys and values in every
  layer, whether or not the values are transposed; all other cells are empty, and no shift is pending.
\<close>

theorem state_whole_roundtrip:
  assumes st: "store_ok st" "c = kc_cells (ks_cache st) ! 0" "sel = selection c (-1)" "sel \<noteq> []"
    and st': "store_ok st'" "compatible st st'" "length sel \<le> cells_size (kc_cells (ks_cache st') ! 0)"
  shows "\<exists>bs st'' c''. state_write st (-1) = Some bs \<and> state_read (-1) st' (bs @ io) = Some (RD_OK, st'', io) \<and>
    kc_cells (ks_cache st'') = [c''] \<and> cells_ok c'' \<and> cells_size c'' = cells_size (kc_cells (ks_cache st') ! 0) \<and>
    (\<forall>i < cells_size c''. cell_at c'' i = (if i < length sel then (c_pos c ! (sel ! i), ext_reset, 0, c_seq c ! (sel ! i)) else cell_free)) \<and>
    length (ks_layers st'') = length (ks_layers st) \<and>
    (\<forall>j < length (ks_layers st). \<forall>i < length sel.
       k_cell (ks_layers st'' ! j) 0 i = k_cell (ks_layers st ! j) 0 (sel ! i) \<and>
       v_cell (ks_v_trans st) (cells_size c'') (ks_layers st'' ! j) 0 i = v_cell (ks_v_trans st) (cells_size c) (ks_layers st ! j) 0 (sel ! i))"
proof -
  note K = store_okD[OF st(1,2)]
  define c' where "c' = kc_cells (ks_cache st') ! 0"
  note K' = store_okD[OF st'(1) c'_def]
  define m where "m = kc_n_seq_max (ks_cache st)"
  define n' where "n' = cells_size c'"
  have m: "kc_n_seq_max (ks_cache st') = m" and vt: "ks_v_trans st' = ks_v_trans st" and ll: "list_all2 (layer_like 0 0) (ks_layers st) (ks_layers st')"
    using st'(2) by (auto simp: compatible_def m_def)
  let ?es = "map (cell_entry m (-1) c) sel" and ?D = "data_image (ks_v_trans st) (cells_size c) (ks_layers st) 0 sel"
  let ?si = "\<lparr>si_s0 = 0, si_s1 = 0, si_strm = [0], si_idxs = [[0..<length sel]]\<rparr>"
  have sc: "i < cells_size c \<and> c_pos c ! i \<noteq> -1" if "i \<in> set sel" for i using selection_cells that st(3) by blast
  have es: "\<forall>e \<in> set ?es. entry_ok (kc_n_seq_max (ks_cache st')) e" unfolding m using entry_ok_cell[OF K(11)] K(8) sc by auto
  have n: "length ?es \<le> n'" "length sel < 2 ^ 32" using st'(3) K'(6) by (simp_all add: c'_def[symmetric] n'_def)
  obtain c'' where c'': "state_read_meta 0 (length sel) (-1) st' (concat (map meta_bytes ?es) @ ?D @ io) =
      Some (RD_OK, ?si, (store_clear st')\<lparr>ks_cache := (ks_cache st')\<lparr>kc_cells := [c''], kc_heads := [0]\<rparr>\<rparr>, ?D @ io)" "cells_ok c''" "cells_size c'' = n'"
    and at: "\<And>j. j < n' \<Longrightarrow> cell_at c'' j = (if j < length sel then (fst (?es ! j), ext_reset, 0, nat ` set (snd (?es ! j))) else cell_free)"
    using read_meta_whole[OF st'(1) c'_def es n(1)[unfolded n'_def], of "?D @ io"] by (auto simp: n'_def)
  define st1 where "st1 = (store_clear st')\<lparr>ks_cache := (ks_cache st')\<lparr>kc_cells := [c''], kc_heads := [0]\<rparr>\<rparr>"
  note meta = c''(1)[folded st1_def]
  have slot: "slot_of ?si [0..<length sel]" "\<forall>x \<in> set [0..<length sel]. x < n'" "length sel = length [0..<length sel]"
    using st(4) n(1) by (auto simp: slot_of_def)
  have ls1: "\<forall>l \<in> set (ks_layers st1). layer_ok (ks_v_trans st) n' 1 l" "list_all2 (layer_like 0 0) (ks_layers st) (ks_layers st1)"
  proof -
    show "\<forall>l \<in> set (ks_layers st1). layer_ok (ks_v_trans st) n' 1 l" using K'(7) vt by (auto simp: st1_def store_clear_def layer_zero_simps n'_def)
    have "0 < length (kl_v l)" if "l \<in> set (ks_layers st')" for l using K'(7) that by (auto simp: layer_ok_def)
    then show "list_all2 (layer_like 0 0) (ks_layers st) (ks_layers st1)"
      using ll by (auto simp: st1_def store_clear_def list_all2_conv_all_nth layer_zero_simps(2))
  qed
  have "\<exists>ls''. state_read_data 0 (length [0..<length sel]) ?si st1 (data_image (ks_v_trans st) (cells_size c) (ks_layers st) 0 sel @ io) = Some (RD_OK, st1\<lparr>ks_layers := ls''\<rparr>, io) \<and>
    length ls'' = length (ks_layers st) \<and> (\<forall>j < length (ks_layers st). layer_ok (ks_v_trans st) n' 1 (ls'' ! j) \<and>
      layer_restored (ks_v_trans st) (cells_size c) n' 0 0 sel [0..<length sel] (ks_layers st ! j) (ks_layers st1 ! j) (ls'' ! j))"
    by (rule read_data_spec[OF slot _ K(7) ls1 _ _ K(5)]) (use sc c''(3) vt in \<open>auto simp: st1_def store_clear_def\<close>)
  then obtain ls'' where d: "state_read_data 0 (length sel) ?si st1 (?D @ io) = Some (RD_OK, st1\<lparr>ks_layers := ls''\<rparr>, io)" "length ls'' = length (ks_layers st)"
    and lr: "\<And>j. j < length (ks_layers st) \<Longrightarrow> layer_restored (ks_v_trans st) (cells_size c) n' 0 0 sel [0..<length sel] (ks_layers st ! j) (ks_layers st1 ! j) (ls'' ! j)"
    by auto
  let ?bs = "u32_bytes 1 @ u32_bytes (length sel) @ concat (map meta_bytes ?es) @ ?D"
  have w: "state_write st (-1) = Some ?bs" using state_write_bytes[OF st(1,2) _ st(3,4)] by (simp add: m_def)
  have r: "state_read (-1) st' (?bs @ io) = Some (RD_OK, st1\<lparr>ks_layers := ls''\<rparr>, io)"
    using K'(2) n(2) st(4) meta d(1) by (simp add: state_read_def)
  have "cell_at c'' i = (if i < length sel then (c_pos c ! (sel ! i), ext_reset, 0, c_seq c ! (sel ! i)) else cell_free)" if "i < n'" for i
  proof (cases "i < length sel")
    case True
    then have "c_seq c ! (sel ! i) \<subseteq> {..<m}" using K(8) sc[of "sel ! i"] by (simp add: m_def)
    then show ?thesis using True at[OF that] nat_cell_ids[of m c "sel ! i"] by (auto simp: cell_entry_def)
  next
    case False
    then show ?thesis using at[OF that] by simp
  qed
  moreover have "k_cell (ls'' ! j) 0 i = k_cell (ks_layers st ! j) 0 (sel ! i) \<and> v_cell (ks_v_trans st) n' (ls'' ! j) 0 i = v_cell (ks_v_trans st) (cells_size c) (ks_layers st ! j) 0 (sel ! i)"
    if "j < length (ks_layers st)" "i < length sel" for j i using lr[OF that(1)] that(2) by (auto simp: layer_restored_def)
  ultimately show ?thesis using w r c''(2,3) d(2) by (intro exI[of _ ?bs] exI[of _ "st1\<lparr>ks_layers := ls''\<rparr>"] exI[of _ c'']) (simp add: st1_def n'_def c'_def)
qed

section \<open>One sequence\<close>

lemma read_tokens_spec:
  assumes "length (ub_pos ub) = i + length es" "length (ub_n_seq_id ub) = i + length es" "length (ub_seq_id ub) = i + length es"
    "\<forall>e \<in> set es. in_i32 (fst e) \<and> (\<exists>s. snd e = [s] \<and> in_i32 s)"
  shows "read_tokens (length es) i 1 d ub (concat (map meta_bytes es) @ io) = Some (RD_OK, ub\<lparr>ub_pos := take i (ub_pos ub) @ map fst es,
    ub_n_seq_id := take i (ub_n_seq_id ub) @ replicate (length es) 1, ub_seq_id := take i (ub_seq_id ub) @ replicate (length es) [d]\<rparr>, io)"
  using assms
proof (induction es arbitrary: i ub)
  case (Cons e es)
  obtain p s where e: "e = (p, [s])" "in_i32 p" "in_i32 s" using Cons(5) by (cases e) auto
  define ub' where "ub' = ub\<lparr>ub_pos := (ub_pos ub)[i := p], ub_n_seq_id := (ub_n_seq_id ub)[i := 1], ub_seq_id := (ub_seq_id ub)[i := [d]]\<rparr>"
  have "read_tokens (length (e # es)) i 1 d ub (concat (map meta_bytes (e # es)) @ io) = read_tokens (length es) (Suc i) 1 d ub' (concat (map meta_bytes es) @ io)"
    using e Cons(2-4) by (simp add: meta_bytes_def read_ext_def ub'_def)
  also have "\<dots> = Some (RD_OK, ub'\<lparr>ub_pos := take (Suc i) (ub_pos ub') @ map fst es, ub_n_seq_id := take (Suc i) (ub_n_seq_id ub') @ replicate (length es) 1,
      ub_seq_id := take (Suc i) (ub_seq_id ub') @ replicate (length es) [d]\<rparr>, io)"
    using Cons(2-5) by (intro Cons(1)) (auto simp: ub'_def)
  finally show ?case using Cons(2-4) by (simp add: ub'_def e take_Suc_conv_app_nth)
qed simp

text \<open>The ubatch that a restore fills.\<close>

definition restore_ubatch :: "llama_seq_id \<Rightarrow> llama_pos list \<Rightarrow> llama_ubatch" where
  "restore_ubatch d ps = (fst (ubatch_reserve (length ps) 1 (allocr_new 1)))\<lparr>ub_seq_id_unq := [nat d], ub_pos := ps,
     ub_n_seq_id := replicate (length ps) 1, ub_seq_id := replicate (length ps) [d]\<rparr>"

lemma restore_ubatch_simps [simp]: "ub_n_tokens (restore_ubatch d ps) = length ps" "ub_pos (restore_ubatch d ps) = ps"
  "ub_seq_id_unq (restore_ubatch d ps) = [nat d]" "i < length ps \<Longrightarrow> ub_seqs (restore_ubatch d ps) i = [d]"
  by (simp_all add: restore_ubatch_def ubatch_reserve_def Let_def ub_seqs_def)

lemma restore_ubatch_for:
  assumes "known_seq k d" "cache_ok k" "\<forall>p \<in> set ps. 0 \<le> p" "ps \<noteq> []"
  shows "ubatch_for k (restore_ubatch d ps)"
proof -
  have "valid_seq_id d" using cache_okD(4)[OF assms(2,1)] .
  then have "token_valid (restore_ubatch d ps) i" if "i < length ps" for i
    using that assms(3) by (simp add: token_valid_def) (simp add: restore_ubatch_def)
  then show ?thesis using assms(1,4) by (auto simp: ubatch_for_def ubatch_valid_def nat_less_iff)
qed

lemma seq_rm_frame:
  assumes "cache_seq_rm d p0 p1 k = Some k'" "d \<noteq> -1"
  shows "kc_swa_type k' = kc_swa_type k" "kc_n_pos k' = kc_n_pos k" "kc_n_seq_max k' = kc_n_seq_max k"
  using assms by (auto simp: cache_seq_rm_def sweep_def put_stream_def Let_def bind_Some_iff)

text \<open>The cells \<open>xs\<close> of \<open>c1\<close> were free and hold sequence \<open>d\<close> at the positions \<open>ps\<close> in \<open>c2\<close>.\<close>

definition seq_placed :: "llama_seq_id \<Rightarrow> llama_pos list \<Rightarrow> nat list \<Rightarrow> llama_kv_cells \<Rightarrow> llama_kv_cells \<Rightarrow> bool" where
  "seq_placed d ps xs c1 c2 \<longleftrightarrow> cells_ok c2 \<and> cells_size c2 = cells_size c1 \<and> length xs = length ps \<and> distinct xs \<and>
     (\<forall>x \<in> set xs. x < cells_size c1 \<and> c_pos c1 ! x = -1) \<and>
     (\<forall>i < length xs. c_pos c2 ! (xs ! i) = ps ! i \<and> c_seq c2 ! (xs ! i) = {nat d}) \<and>
     (\<forall>x < cells_size c1. x \<notin> set xs \<longrightarrow> cell_at c2 x = cell_at c1 x)"

lemma restore_place:
  assumes k: "plain_cache k" "known_seq k d" and ps: "\<forall>p \<in> set ps. 0 \<le> p" "ps \<noteq> []" and c: "c = kc_cells k ! 0"
    and en: "length ps \<le> card {i. i < cells_size c \<and> c_pos c ! i = -1}"
  shows "\<exists>si xs c' h. find_slot k (restore_ubatch d ps) False = Some si \<and> \<not> slot_empty si \<and> slot_of si xs \<and> seq_placed d ps xs c c' \<and>
    apply_ubatch si (restore_ubatch d ps) k = Some (k\<lparr>kc_cells := [c'], kc_heads := [h]\<rparr>) \<and>
    check_restored 0 (length ps) d si (restore_ubatch d ps) (k\<lparr>kc_cells := [c'], kc_heads := [h]\<rparr>) = Some ()"
proof -
  let ?ub = "restore_ubatch d ps"
  have ub: "ubatch_for k ?ub" using restore_ubatch_for[OF k(2) _ ps] k(1) by (simp add: plain_cache_def)
  then have uv: "ubatch_valid ?ub" by (simp add: ubatch_for_def)
  obtain si xs where si: "find_slot k ?ub False = Some si" "\<not> slot_empty si" "slot_fits c ?ub si xs"
    using plain_find_slot[OF k(1) ub] en c by fastforce
  obtain c' where c': "apply_ubatch si ?ub k = Some (k\<lparr>kc_cells := [c'], kc_heads := [last xs + 1]\<rparr>)" "filled ?ub xs c c'"
    using plain_apply[OF k(1) uv] si(3) c by blast
  have xs: "length xs = length ps" "distinct xs" "xs \<noteq> []" "si_idxs si = [xs]" "si_strm si = [0]" "\<forall>x \<in> set xs. x < cells_size c \<and> c_pos c ! x = -1"
    using si(3) by (auto simp: slot_fits_def)
  have at: "c_pos c' ! (xs ! i) = ps ! i \<and> c_seq c' ! (xs ! i) = {nat d}" if "i < length xs" for i
    using c'(2) that xs(1) by (simp add: filled_def cell_at_def)
  have sp: "seq_placed d ps xs c c'" using c'(2) xs at by (simp add: seq_placed_def filled_def)
  have so: "slot_of si xs" using xs by (simp add: slot_of_def)
  have in_c: "xs ! i < length (c_pos c') \<and> xs ! i < length (c_seq c')" if "i < length xs" for i
  proof -
    have "xs ! i < length (c_pos c')" "cells_ok c'" using xs(6) that sp by (auto simp: seq_placed_def cells_size_def)
    then show ?thesis using cells_okD(4)[of c' "xs ! i"] by simp
  qed
  have v: "valid_seq_id d" using cache_okD(4)[OF plain_cacheD(1)[OF k(1)] k(2)] .
  have "\<exists>u. ofold (\<lambda>i _. do { p \<leftarrow> cells_pos_get (xs ! i) c'; q \<leftarrow> vget ps i; assert_that (p = q); b \<leftarrow> cells_seq_has (xs ! i) d c'; assert_that b })
      [0..<length ps] () = Some u \<and> True"
  proof (rule ofold_total)
    fix i u assume "i \<in> set [0..<length ps]"
    then have i: "i < length xs" "i < length ps" using xs(1) by auto
    have "ps ! i \<noteq> -1" using ps(1) i(2) by (metis neg_0_le_iff_le not_one_le_zero nth_mem)
    then show "\<exists>u'. (do { p \<leftarrow> cells_pos_get (xs ! i) c'; q \<leftarrow> vget ps i; assert_that (p = q); b \<leftarrow> cells_seq_has (xs ! i) d c'; assert_that b }) = Some u' \<and> True"
      using at[OF i(1)] in_c[OF i(1)] i(2) v by (simp add: cells_pos_get_def cells_seq_has_def bit_test_def valid_seq_id_def)
  qed simp
  then have "check_restored 0 (length ps) d si ?ub (k\<lparr>kc_cells := [c'], kc_heads := [last xs + 1]\<rparr>) = Some ()"
    using xs by (simp add: check_restored_def slot_n_stream_def)
  then show ?thesis using si(1,2) c'(1) sp so by blast
qed

lemma no_room:
  assumes k: "plain_cache k" "known_seq k d" and ps: "\<forall>p \<in> set ps. 0 \<le> p" "ps \<noteq> []" and c: "c = kc_cells k ! 0"
    and en: "card {i. i < cells_size c \<and> c_pos c ! i = -1} < length ps"
  shows "\<exists>si. find_slot k (restore_ubatch d ps) False = Some si \<and> slot_empty si"
proof -
  have ub: "ubatch_for k (restore_ubatch d ps)" using restore_ubatch_for[OF k(2) _ ps] k(1) by (simp add: plain_cache_def)
  obtain si where si: "find_slot k (restore_ubatch d ps) False = Some si"
    "slot_empty si \<or> (\<exists>xs. slot_fits c (restore_ubatch d ps) si xs)" using plain_find_slot[OF k(1) ub] c by auto
  have "\<not> slot_fits c (restore_ubatch d ps) si xs" for xs
  proof
    assume "slot_fits c (restore_ubatch d ps) si xs"
    then have "set xs \<subseteq> {i. i < cells_size c \<and> c_pos c ! i = -1}" "distinct xs" "length xs = length ps" by (auto simp: slot_fits_def)
    then show False using en card_mono[of "{i. i < cells_size c \<and> c_pos c ! i = -1}" "set xs"] by (simp add: distinct_card)
  qed
  then show ?thesis using si by blast
qed

lemma cell_ids_single: "nat s < m \<Longrightarrow> 0 \<le> s \<Longrightarrow> nat s \<in> c_seq c ! i \<Longrightarrow> cell_ids m s c i = [s]"
proof -
  assume a: "nat s < m" "0 \<le> s" "nat s \<in> c_seq c ! i"
  have "filter (\<lambda>t. (int t = s \<or> s = -1) \<and> t \<in> c_seq c ! i) [0..<m] = filter (\<lambda>t. t = nat s) [0..<m]" by (rule filter_cong) (use a in auto)
  also have "\<dots> = [nat s]" using a(1) by (induction m) (auto simp: less_Suc_eq)
  finally show ?thesis using a(2) by (simp add: cell_ids_def)
qed

lemma write_seq_bytes:
  assumes st: "store_ok st" "c = kc_cells (ks_cache st) ! 0" "0 \<le> s" "s < int (kc_n_seq_max (ks_cache st))" "sel = selection c s" "sel \<noteq> []"
  shows "state_write st s = Some (u32_bytes 1 @ u32_bytes (length sel) @ concat (map (\<lambda>p. meta_bytes (p, [s])) (map ((!) (c_pos c)) sel)) @
    data_image (ks_v_trans st) (cells_size c) (ks_layers st) 0 sel)"
proof -
  note K = store_okD[OF st(1,2)]
  have "nat s \<in> c_seq c ! i" if "i \<in> set sel" for i using that st(3) by (auto simp: st(5) selection_def selected_def)
  then have "map (cell_entry (kc_n_seq_max (ks_cache st)) s c) sel = map (\<lambda>i. (c_pos c ! i, [s])) sel"
    using st(3,4) by (auto simp: cell_entry_def intro!: cell_ids_single)
  moreover have "valid_seq_id s" using st(3,4) K(4) by (simp add: valid_seq_id_def)
  ultimately show ?thesis using state_write_bytes[OF st(1,2) _ st(5,6)] by (simp only: map_map comp_def) simp
qed

text \<open>The cache once the destination is removed.\<close>

lemma restore_target:
  assumes "store_ok st" "c = kc_cells (ks_cache st) ! 0" "kc_swa_type (ks_cache st) = SWA_NONE" "known_seq (ks_cache st) d"
  obtains k1 c1 where "cache_seq_rm d (-1) (-1) (ks_cache st) = Some k1" "plain_cache k1" "known_seq k1 d" "kc_n_pos k1 = 1" "kc_cells k1 = [c1]"
    "cells_size c1 = cells_size c" "kc_seq_to_stream (ks_cache st) ! nat d = 0"
proof -
  note K = store_okD[OF assms(1,2)]
  have d: "d \<noteq> -1" using assms(4) by simp
  obtain k1 where k1: "cache_seq_rm d (-1) (-1) (ks_cache st) = Some k1"
    "rewritten (kc_seq_to_stream (ks_cache st) ! nat d) (rm_cell (nat d) (range_lo (-1)) (range_hi (-1))) (ks_cache st) k1"
    using cache_seq_rm_one[OF K(1) assms(4)] by blast
  have strm: "kc_seq_to_stream (ks_cache st) ! nat d = 0" using cache_okD(5)[OF K(1) assms(4)] K(2) by simp
  have p1: "plain_cache k1" "known_seq k1 d" "kc_n_pos k1 = 1"
    using k1(2) K(2,3) assms(3,4) seq_rm_frame[OF k1(1) d] by (auto simp: plain_cache_def rewritten_def)
  have "cells_size (kc_cells k1 ! 0) = cells_size c" using k1(2) strm assms(2) by (simp add: rewritten_def)
  then show ?thesis using that[OF k1(1) p1 plain_cacheD(4)[OF p1(1)]] strm by blast
qed

lemma read_meta_seq:
  assumes k1: "cache_seq_rm d (-1) (-1) (ks_cache st) = Some k1" "plain_cache k1" "known_seq k1 d" "kc_n_pos k1 = 1" "kc_cells k1 = [c1]"
    and ps: "\<forall>p \<in> set ps. 0 \<le> p \<and> in_i32 p" "ps \<noteq> []" and s: "valid_seq_id s"
  shows "if card {i. i < cells_size c1 \<and> c_pos c1 ! i = -1} < length ps
    then \<exists>si. state_read_meta 0 (length ps) d st (concat (map (\<lambda>p. meta_bytes (p, [s])) ps) @ io) = Some (RD_FALSE, si, st\<lparr>ks_cache := k1\<rparr>, io)
    else \<exists>si xs c2 h. state_read_meta 0 (length ps) d st (concat (map (\<lambda>p. meta_bytes (p, [s])) ps) @ io) =
        Some (RD_OK, si, st\<lparr>ks_cache := k1\<lparr>kc_cells := [c2], kc_heads := [h]\<rparr>\<rparr>, io) \<and> slot_of si xs \<and> seq_placed d ps xs c1 c2"
proof -
  have d: "d \<noteq> -1" using k1(3) by simp
  have p: "\<forall>p \<in> set ps. 0 \<le> p" using ps(1) by simp
  let ?es = "map (\<lambda>p. (p, [s])) ps"
  have "in_i32 s" using s by (simp add: valid_seq_id_def in_i32_def i32_max_def LLAMA_MAX_SEQ_def)
  then have es: "\<forall>e \<in> set ?es. in_i32 (fst e) \<and> (\<exists>s. snd e = [s] \<and> in_i32 s)" using ps(1) by auto
  let ?ub = "(fst (ubatch_reserve (length ps) 1 (allocr_new 1)))\<lparr>ub_seq_id_unq := [nat d]\<rparr>"
  have "read_tokens (length ?es) 0 1 d ?ub (concat (map meta_bytes ?es) @ io) = Some (RD_OK, restore_ubatch d ps, io)"
    by (subst read_tokens_spec[OF _ _ _ es]) (simp_all add: restore_ubatch_def ubatch_reserve_def Let_def allocr_new_def comp_def)
  then have tk: "read_tokens (length ps) 0 1 d ?ub (concat (map (\<lambda>p. meta_bytes (p, [s])) ps) @ io) = Some (RD_OK, restore_ubatch d ps, io)"
    by (simp add: comp_def)
  have c1: "c1 = kc_cells k1 ! 0" using k1(5) by simp
  show ?thesis
  proof (cases "card {i. i < cells_size c1 \<and> c_pos c1 ! i = -1} < length ps")
    case True
    obtain si where "find_slot k1 (restore_ubatch d ps) False = Some si" "slot_empty si" using no_room[OF k1(2,3) p ps(2) c1 True] by blast
    then show ?thesis using True d tk k1(1,4) by (simp add: state_read_meta_def Let_def)
  next
    case False
    obtain si xs c2 h where r: "find_slot k1 (restore_ubatch d ps) False = Some si" "\<not> slot_empty si" "slot_of si xs" "seq_placed d ps xs c1 c2"
      "apply_ubatch si (restore_ubatch d ps) k1 = Some (k1\<lparr>kc_cells := [c2], kc_heads := [h]\<rparr>)"
      "check_restored 0 (length ps) d si (restore_ubatch d ps) (k1\<lparr>kc_cells := [c2], kc_heads := [h]\<rparr>) = Some ()"
      using restore_place[OF k1(2,3) p ps(2) c1] False by fastforce
    then have "state_read_meta 0 (length ps) d st (concat (map (\<lambda>p. meta_bytes (p, [s])) ps) @ io) =
        Some (RD_OK, si, st\<lparr>ks_cache := k1\<lparr>kc_cells := [c2], kc_heads := [h]\<rparr>\<rparr>, io)" using d tk k1(1,4) by (simp add: state_read_meta_def Let_def)
    then show ?thesis using False r(3,4) by (simp only: if_False) blast
  qed
qed

text \<open>
  C24: A sequence is restored under another id. The state of one sequence with at least one cell, of a unified cache with one position per embedding and
  transposed values of at most 4 GiB per layer, is read into another such cache of the same model
  without sliding window, for a destination sequence. The destination is removed first; if the cache then has too few free cells,
  the restore throws. Otherwise it succeeds and consumes exactly the bytes of the state: the cells of the sequence, in order, are in
  distinct cells that were free, with their positions, the destination as their only sequence, and their keys and
  values in every layer. Every other cell, and the keys and values of every other cell, are unchanged.
\<close>

theorem state_seq_roundtrip:
  assumes st: "store_ok st" "c = kc_cells (ks_cache st) ! 0" "0 \<le> s" "s < int (kc_n_seq_max (ks_cache st))" "sel = selection c s" "sel \<noteq> []"
    and st': "store_ok st'" "compatible st st'" "kc_swa_type (ks_cache st') = SWA_NONE" "known_seq (ks_cache st') d"
  shows "\<exists>bs k1 c1. state_write st s = Some bs \<and> cache_seq_rm d (-1) (-1) (ks_cache st') = Some k1 \<and> kc_cells k1 = [c1] \<and>
    (if card {i. i < cells_size c1 \<and> c_pos c1 ! i = -1} < length sel
     then \<exists>st'' io'. state_read d st' (bs @ io) = Some (RD_THROW Failed_To_Restore, st'', io')
     else \<exists>st'' c2 xs. state_read d st' (bs @ io) = Some (RD_OK, st'', io) \<and> kc_cells (ks_cache st'') = [c2] \<and>
       seq_placed d (map ((!) (c_pos c)) sel) xs c1 c2 \<and> length (ks_layers st'') = length (ks_layers st) \<and>
       (\<forall>j < length (ks_layers st). layer_restored (ks_v_trans st) (cells_size c) (cells_size c1) 0 0 sel xs
          (ks_layers st ! j) (ks_layers st' ! j) (ks_layers st'' ! j)))"
proof -
  note K = store_okD[OF st(1,2)]
  define c' where "c' = kc_cells (ks_cache st') ! 0"
  note K' = store_okD[OF st'(1) c'_def]
  have vt: "ks_v_trans st' = ks_v_trans st" and ll: "list_all2 (layer_like 0 0) (ks_layers st) (ks_layers st')" using st'(2) by (auto simp: compatible_def)
  obtain k1 c1 where k1: "cache_seq_rm d (-1) (-1) (ks_cache st') = Some k1" "plain_cache k1" "known_seq k1 d" "kc_n_pos k1 = 1" "kc_cells k1 = [c1]"
    "cells_size c1 = cells_size c'" and strm: "kc_seq_to_stream (ks_cache st') ! nat d = 0" using restore_target[OF st'(1) c'_def st'(3,4)] by blast
  let ?ps = "map ((!) (c_pos c)) sel" and ?D = "data_image (ks_v_trans st) (cells_size c) (ks_layers st) 0 sel"
  let ?M = "concat (map (\<lambda>p. meta_bytes (p, [s])) ?ps)"
  have sc: "\<forall>i \<in> set sel. i < cells_size c \<and> c_pos c ! i \<noteq> -1" using selection_cells st(5) by blast
  have "0 \<le> c_pos c ! i" if "i \<in> set sel" for i using sc that K(11) by (force simp: cells_ok_def shape_ok_def cells_size_def)
  then have ps: "\<forall>p \<in> set ?ps. 0 \<le> p \<and> in_i32 p" "?ps \<noteq> []" using st(6) sc K(8) by auto
  have v: "valid_seq_id s" using st(3,4) K(4) by (simp add: valid_seq_id_def)
  have n: "length sel < 2 ^ 32" "length sel \<noteq> 0" using length_selection[of c s] K(6) st(5,6) by simp_all
  note w = write_seq_bytes[OF st]
  note m = read_meta_seq[OF k1(1-5) ps v, of "?D @ io", unfolded length_map]
  have rd: "state_read d st' ((u32_bytes 1 @ u32_bytes (length sel) @ ?M @ ?D) @ io) = do {
      (r, si, st1, io1) \<leftarrow> state_read_meta 0 (length sel) d st' (?M @ ?D @ io);
      (r, st1, io1) \<leftarrow> (if r = RD_OK then state_read_data 0 (length sel) si st1 io1 else Some (r, st1, io1));
      if r = RD_OK then read_streams d [] st1 io1
      else if r = RD_FALSE then do { st1 \<leftarrow> restore_failed d st1; Some (RD_THROW Failed_To_Restore, st1, io1) } else Some (r, st1, io1) }"
    using K'(2) n strm st'(4) by (simp add: state_read_def nat_less_iff)
  show ?thesis
  proof (cases "card {i. i < cells_size c1 \<and> c_pos c1 ! i = -1} < length sel")
    case True
    with m obtain si where "state_read_meta 0 (length sel) d st' (?M @ ?D @ io) = Some (RD_FALSE, si, st'\<lparr>ks_cache := k1\<rparr>, ?D @ io)" by auto
    moreover obtain k2 where "cache_seq_rm d (-1) (-1) k1 = Some k2" using cache_seq_rm_one[OF plain_cacheD(1)[OF k1(2)] k1(3)] by blast
    ultimately have "\<exists>st'' io'. state_read d st' ((u32_bytes 1 @ u32_bytes (length sel) @ ?M @ ?D) @ io) = Some (RD_THROW Failed_To_Restore, st'', io')"
      unfolding rd using st'(4) by (simp add: restore_failed_def)
    then show ?thesis using w k1(1,5) True by (intro exI[of _ "u32_bytes 1 @ u32_bytes (length sel) @ ?M @ ?D"] exI[of _ k1] exI[of _ c1]) (simp only: if_True simp_thms)
  next
    case False
    with m obtain si xs c2 h where mr: "state_read_meta 0 (length sel) d st' (?M @ ?D @ io) = Some (RD_OK, si, st'\<lparr>ks_cache := k1\<lparr>kc_cells := [c2], kc_heads := [h]\<rparr>\<rparr>, ?D @ io)"
      "slot_of si xs" "seq_placed d ?ps xs c1 c2" by auto
    let ?st1 = "st'\<lparr>ks_cache := k1\<lparr>kc_cells := [c2], kc_heads := [h]\<rparr>\<rparr>"
    have xs: "\<forall>x \<in> set xs. x < cells_size c1" "length sel = length xs" "cells_size c2 = cells_size c1" using mr(3) by (auto simp: seq_placed_def)
    have "\<exists>ls''. state_read_data 0 (length xs) si ?st1 (?D @ io) = Some (RD_OK, ?st1\<lparr>ks_layers := ls''\<rparr>, io) \<and> length ls'' = length (ks_layers st) \<and>
      (\<forall>j < length (ks_layers st). layer_ok (ks_v_trans st) (cells_size c1) 1 (ls'' ! j) \<and>
        layer_restored (ks_v_trans st) (cells_size c) (cells_size c1) 0 0 sel xs (ks_layers st ! j) (ks_layers ?st1 ! j) (ls'' ! j))"
      by (rule read_data_spec[OF mr(2) xs(1,2) _ K(7) _ _ _ _ K(5)]) (use sc ll K'(7) vt k1(6) xs(3) in simp_all)
    then obtain ls'' where d: "state_read_data 0 (length sel) si ?st1 (?D @ io) = Some (RD_OK, ?st1\<lparr>ks_layers := ls''\<rparr>, io)" "length ls'' = length (ks_layers st)"
      "\<forall>j < length (ks_layers st). layer_restored (ks_v_trans st) (cells_size c) (cells_size c1) 0 0 sel xs (ks_layers st ! j) (ks_layers st' ! j) (ls'' ! j)"
      using xs(2) by auto
    have "state_read d st' ((u32_bytes 1 @ u32_bytes (length sel) @ ?M @ ?D) @ io) = Some (RD_OK, ?st1\<lparr>ks_layers := ls''\<rparr>, io)"
      unfolding rd using mr(1) d(1) by simp
    then show ?thesis using w k1(1,5) False d(2,3) mr(3)
      by (intro exI[of _ "u32_bytes 1 @ u32_bytes (length sel) @ ?M @ ?D"] exI[of _ k1] exI[of _ c1]) (simp only: if_False simp_thms, fastforce)
  qed
qed

section \<open>Examples\<close>

text \<open>The example cache with one layer: rows of two bytes, values not transposed.\<close>

definition example_layer :: kv_layer where
  "example_layer = \<lparr>kl_k_type = 1, kl_k_row = 2, kl_k = [[10, 11, 12, 13]], kl_v_type = 1, kl_v_row = 2, kl_v_el = 1, kl_n_embd_v = 2,
     kl_v = [Some [20, 21, 22, 23]]\<rparr>"

definition example_store :: kv_store where
  "example_store = \<lparr>ks_cache = example_cache, ks_v_trans = False, ks_layers = [example_layer]\<rparr>"

lemma example_store_ok: "store_ok example_store" "compatible example_store example_store"
  using example_cache_ok by (auto simp: store_ok_def Let_def example_store_def example_cache_def example_layer_def layer_ok_def in_i32_def i32_max_def
      LLAMA_MAX_SEQ_def compatible_def layer_like_def dest!: less_2_cases)

lemma example_selection: "selection example_cells (-1) = [1]" "selection example_cells 3 = [1]"
  by (simp_all add: selection_def selected_def numeral_2_eq_2)

theorem state_whole_roundtrip_witness:
  "\<exists>bs st'' c''. state_write example_store (-1) = Some bs \<and> state_read (-1) example_store bs = Some (RD_OK, st'', []) \<and> kc_cells (ks_cache st'') = [c''] \<and>
     cell_at c'' 0 = (7, ext_reset, 0, {3}) \<and> k_cell (ks_layers st'' ! 0) 0 0 = [12, 13]"
proof -
  have c: "example_cells = kc_cells (ks_cache example_store) ! 0" by (simp add: example_store_def)
  from state_whole_roundtrip[OF example_store_ok(1) c example_selection(1)[symmetric] _ example_store_ok, of "[]"] c
  obtain bs st'' c'' where "state_write example_store (-1) = Some bs" "state_read (-1) example_store bs = Some (RD_OK, st'', [])" "kc_cells (ks_cache st'') = [c'']"
    "cells_size c'' = 2" "\<forall>i < 2. cell_at c'' i = (if i < 1 then (c_pos example_cells ! ([1] ! i), ext_reset, 0, c_seq example_cells ! ([1] ! i)) else cell_free)"
    "k_cell (ks_layers st'' ! 0) 0 0 = k_cell (ks_layers example_store ! 0) 0 1" by (auto simp: example_store_def)
  moreover have "k_cell (ks_layers example_store ! 0) 0 1 = [12, 13]" by code_simp
  ultimately show ?thesis by auto
qed

theorem state_seq_roundtrip_witness:
  "\<exists>bs st'' c2. state_write example_store 3 = Some bs \<and> state_read 1 example_store bs = Some (RD_OK, st'', []) \<and> kc_cells (ks_cache st'') = [c2] \<and>
     c_pos c2 ! 0 = 7 \<and> c_seq c2 ! 0 = {1} \<and> k_cell (ks_layers st'' ! 0) 0 0 = [12, 13]"
proof -
  have c: "example_cells = kc_cells (ks_cache example_store) ! 0" by (simp add: example_store_def)
  have a: "3 < int (kc_n_seq_max (ks_cache example_store))" "kc_swa_type (ks_cache example_store) = SWA_NONE" "known_seq (ks_cache example_store) 1" "[1] \<noteq> ([] :: nat list)"
    using example_known(2) by (simp_all add: example_store_def) (simp_all add: example_cache_def)
  have "map_option (\<lambda>k. map c_pos (kc_cells k)) (cache_seq_rm 1 (-1) (-1) (ks_cache example_store)) = Some [[-1, 7]]" by code_simp
  moreover obtain bs k1 c1 where b: "state_write example_store 3 = Some bs" "cache_seq_rm 1 (-1) (-1) (ks_cache example_store) = Some k1" "kc_cells k1 = [c1]"
    "if card {i. i < cells_size c1 \<and> c_pos c1 ! i = -1} < length [1 :: nat]
     then \<exists>st'' io'. state_read 1 example_store (bs @ []) = Some (RD_THROW Failed_To_Restore, st'', io')
     else \<exists>st'' c2 xs. state_read 1 example_store (bs @ []) = Some (RD_OK, st'', []) \<and> kc_cells (ks_cache st'') = [c2] \<and>
       seq_placed 1 (map ((!) (c_pos example_cells)) [1]) xs c1 c2 \<and> length (ks_layers st'') = length (ks_layers example_store) \<and>
       (\<forall>j < length (ks_layers example_store). layer_restored (ks_v_trans example_store) (cells_size example_cells) (cells_size c1) 0 0 [1] xs
          (ks_layers example_store ! j) (ks_layers example_store ! j) (ks_layers st'' ! j))"
    using state_seq_roundtrip[OF example_store_ok(1) c _ a(1) example_selection(2)[symmetric] a(4) example_store_ok a(2,3), of "[]"] by auto
  ultimately have c1: "c_pos c1 = [-1, 7]" "cells_size c1 = 2" by (simp_all add: cells_size_def)
  then have "{i. i < cells_size c1 \<and> c_pos c1 ! i = -1} = {0}" by (auto dest!: less_2_cases)
  then have n: "\<not> card {i. i < cells_size c1 \<and> c_pos c1 ! i = -1} < length [1 :: nat]" by simp
  from b(4)[unfolded if_not_P[OF n]] obtain st'' c2 xs where r: "state_read 1 example_store bs = Some (RD_OK, st'', [])" "kc_cells (ks_cache st'') = [c2]" "seq_placed 1 [7] xs c1 c2"
    "layer_restored False 2 2 0 0 [1] xs example_layer example_layer (ks_layers st'' ! 0)" using c1(2) by (auto simp: example_store_def)
  have "xs = [0]" using r(3) c1 by (auto simp: seq_placed_def length_Suc_conv dest!: less_2_cases)
  moreover have "k_cell example_layer 0 1 = [12, 13]" by code_simp
  ultimately show ?thesis using b(1) r by (auto simp: seq_placed_def layer_restored_def)
qed

text \<open>
  An empty state is skipped before anything is cleared, so restoring it keeps what the cache holds.
\<close>

lemma empty_state_keeps_cells:
  assumes "store_ok st"
  shows "state_read (-1) st (u32_bytes 1 @ u32_bytes 0) = Some (RD_OK, st, [])"
  using store_okD(2)[OF assms refl] read_u32_bytes[of 0 "[]"] by (simp add: state_read_def)

text \<open>
  With two streams, each stream that is read clears the whole cache first: of a state with one cell in each stream, only the
  second stream is left.
\<close>

definition one_cell :: "nat \<Rightarrow> llama_kv_cells" where
  "one_cell s = \<lparr>c_has_shift = False, c_used = [0], c_pos = [5, -1], c_ext = [ext_reset, ext_reset], c_shift = [0, 0], c_seq = [{s}, {}],
     c_seq_pos = (\<lambda>_. [])(s := [(5, 1)])\<rparr>"

definition full_streams :: kv_store where
  "full_streams = \<lparr>ks_cache = two_streams\<lparr>kc_cells := [one_cell 0, one_cell 1]\<rparr>, ks_v_trans = False, ks_layers = []\<rparr>"

lemma streams_lost:
  "Option.bind (state_write full_streams (-1)) (\<lambda>bs. map_option (\<lambda>(r, st, io). (r, map c_pos (kc_cells (ks_cache st)), io)) (state_read (-1) full_streams bs)) =
     Some (RD_OK, [[-1, -1], [5, -1]], [])"
  by code_simp

text \<open>
  With more than one position per embedding, the writer puts the extra data of a cell between the number of its sequences and
  their ids, and the reader of a whole state does not read it.
\<close>

definition four_positions :: kv_store where
  "four_positions = example_store\<lparr>ks_cache := example_cache\<lparr>kc_n_pos := 4\<rparr>\<rparr>"

lemma extra_data_misread:
  "Option.bind (state_write four_positions (-1)) (\<lambda>bs. map_option (\<lambda>(r, st, io). (r, map c_seq (kc_cells (ks_cache st)))) (state_read (-1) four_positions bs)) =
     Some (RD_THROW Failed_To_Restore, [[{}, {}]])"
  by code_simp

end
