(* ===== verification/Kv_Window.thy ===== *)
theory Kv_Window
  imports Kv_Place
begin

text \<open>
  Placing ubatches in a unified cache with any sliding window. Now \<open>find_slot\<close> also returns used
  cells that the window has left behind; \<open>apply_ubatch\<close> empties them and then purges from every
  sequence the positions up to the last one it lost. \<open>prepare\<close> saves the cells of the slots
  only, so a purge of the dry run is not taken back: the cache afterwards is a thinned version
  of the one before. Applying the slots to the thinned cache nevertheless leads to the very
  state that they lead to from the cache before.
\<close>

section \<open>Cells during the placement\<close>

text \<open>A unified cache with no shift pending.\<close>

definition window_ok :: "llama_kv_cache \<Rightarrow> bool" where
  "window_ok k \<longleftrightarrow> cache_ok k \<and> kc_n_stream k = 1 \<and> swa_ok k \<and> length (kc_seq_to_stream k) = LLAMA_MAX_SEQ \<and>
     \<not> c_has_shift (kc_cells k ! 0)"

lemma window_okD:
  assumes "window_ok k"
  shows "cache_ok k" "swa_ok k" "kc_n_stream k = 1" "kc_cells k = [kc_cells k ! 0]" "kc_heads k = [kc_heads k ! 0]" "cells_ok (kc_cells k ! 0)"
    "length (kc_seq_to_stream k) = LLAMA_MAX_SEQ" "\<not> c_has_shift (kc_cells k ! 0)"
    "t < LLAMA_MAX_SEQ \<Longrightarrow> kc_seq_to_stream k ! t = 0" "kc_heads k ! 0 \<le> cells_size (kc_cells k ! 0)"
proof -
  show 1: "cache_ok k" "swa_ok k" "kc_n_stream k = 1" "length (kc_seq_to_stream k) = LLAMA_MAX_SEQ" "\<not> c_has_shift (kc_cells k ! 0)"
    using assms by (auto simp: window_ok_def)
  have len: "length (kc_cells k) = 1" "length (kc_heads k) = 1" using 1 by (auto simp: cache_ok_def)
  then show "kc_cells k = [kc_cells k ! 0]" "kc_heads k = [kc_heads k ! 0]" by (auto simp: length_Suc_conv)
  have "kc_cells k ! 0 \<in> set (kc_cells k)" using len by simp
  then show "cells_ok (kc_cells k ! 0)" using 1 by (auto simp: cache_ok_def)
  show "t < LLAMA_MAX_SEQ \<Longrightarrow> kc_seq_to_stream k ! t = 0" using 1 by (auto simp: cache_ok_def)
  show "kc_heads k ! 0 \<le> cells_size (kc_cells k ! 0)" using 1 by (auto simp: cache_ok_def)
qed

lemma window_ok_put:
  assumes "window_ok k" "cells_ok c" "cells_size c = cells_size (kc_cells k ! 0)" "\<not> c_has_shift c" "h \<le> cells_size c"
  shows "window_ok (k\<lparr>kc_cells := [c], kc_heads := [h]\<rparr>)"
  using assms by (auto simp: window_ok_def cache_ok_def swa_ok_def)

text \<open>What the tokens of a ubatch make of a cell, and the purge with the positions lost per sequence.\<close>

definition tok_cell :: "llama_ubatch \<Rightarrow> nat \<Rightarrow> cell \<Rightarrow> cell" where
  "tok_cell ub i x = (case x of (p, e, d, b) \<Rightarrow>
     (ub_pos ub ! i, ub_ext ub i (if p = -1 then e else ext_reset), 0, nat ` set (ub_seqs ub i)))"

definition purge_cell :: "(nat \<Rightarrow> llama_pos) \<Rightarrow> cell \<Rightarrow> cell" where
  "purge_cell rm x = (case x of (p, e, d, b) \<Rightarrow>
     if b \<noteq> {} \<and> (\<forall>s \<in> b. p \<le> rm s) then cell_free else (p, e, d, {s \<in> b. rm s < p}))"

definition evicted :: "llama_kv_cells \<Rightarrow> nat list \<Rightarrow> nat \<Rightarrow> llama_pos" where
  "evicted c xs t = Max (insert (-1) ((!) (c_pos c) ` {i \<in> set xs. c_seq c ! i = {t}}))"

lemma evicted_Nil [simp]: "evicted c [] = (\<lambda>_. -1)"
  by (simp add: evicted_def fun_eq_iff)

lemma evicted_snoc:
  "evicted c (xs @ [x]) t = (if c_seq c ! x = {t} then max (evicted c xs t) (c_pos c ! x) else evicted c xs t)"
proof -
  let ?S = "(!) (c_pos c) ` {i \<in> set xs. c_seq c ! i = {t}}"
  have "insert (-1) ((!) (c_pos c) ` {i \<in> set (xs @ [x]). c_seq c ! i = {t}}) =
      (if c_seq c ! x = {t} then insert (c_pos c ! x) (insert (-1) ?S) else insert (-1) ?S)" by auto
  moreover have "Max (insert (c_pos c ! x) (insert (-1) ?S)) = max (c_pos c ! x) (Max (insert (-1) ?S))" by (rule Max_insert) auto
  ultimately show ?thesis by (simp only: evicted_def max.commute split: if_split) simp
qed

lemma evicted_ge: "-1 \<le> evicted c xs t" "\<lbrakk>i \<in> set xs; c_seq c ! i = {t}\<rbrakk> \<Longrightarrow> c_pos c ! i \<le> evicted c xs t"
  by (auto simp: evicted_def intro!: Max_ge)

lemma evicted_from: "evicted c xs t \<noteq> -1 \<Longrightarrow> \<exists>i \<in> set xs. c_seq c ! i = {t} \<and> evicted c xs t = c_pos c ! i"
  using Max_in[of "insert (-1) ((!) (c_pos c) ` {i \<in> set xs. c_seq c ! i = {t}})"] by (auto simp: evicted_def)

text \<open>A slot whose cells are empty or belong to one sequence.\<close>

definition slot_takes :: "llama_kv_cells \<Rightarrow> llama_ubatch \<Rightarrow> slot_info \<Rightarrow> nat list \<Rightarrow> bool" where
  "slot_takes c ub si xs \<longleftrightarrow> si_strm si = [0] \<and> si_idxs si = [xs] \<and> length xs = ub_n_tokens ub \<and> xs \<noteq> [] \<and> distinct xs \<and>
     (\<forall>i \<in> set xs. i < cells_size c \<and> (c_pos c ! i = -1 \<or> card (c_seq c ! i) = 1))"

text \<open>The cells after the tokens went in, before and after the purge.\<close>

definition taken :: "llama_ubatch \<Rightarrow> nat list \<Rightarrow> (cell \<Rightarrow> cell) \<Rightarrow> llama_kv_cells \<Rightarrow> llama_kv_cells \<Rightarrow> bool" where
  "taken ub xs F c c' \<longleftrightarrow> cells_ok c' \<and> cells_size c' = cells_size c \<and> c_has_shift c' = c_has_shift c \<and>
     (\<forall>j < cells_size c. j \<notin> set xs \<longrightarrow> cell_at c' j = F (cell_at c j)) \<and>
     (\<forall>i < length xs. cell_at c' (xs ! i) = F (tok_cell ub i (cell_at c (xs ! i))))"

lemma evict_spec:
  assumes ok: "cells_ok c" and x: "x < cells_size c" and u: "c_pos c ! x = -1 \<or> card (c_seq c ! x) = 1"
  shows "\<exists>c'. evict x (rm, c) = Some (\<lambda>t. if c_seq c ! x = {t} then max (rm t) (c_pos c ! x) else rm t, c') \<and>
    put_cell x (-1, if c_pos c ! x = -1 then c_ext c ! x else ext_reset, 0, {}) (c_has_shift c) c c'"
proof (cases "c_pos c ! x = -1")
  case True
  have x': "x < length (c_pos c)" using x by (simp add: cells_size_def)
  note D = cells_okD(9,10)[OF ok x' True]
  have "cell_at c x = (-1, c_ext c ! x, 0, {})" using True D by (simp add: cell_at_def)
  with put_cell_same[OF ok x] evict_empty[OF ok x True, of rm] True D show ?thesis by simp
next
  case False
  have x': "x < length (c_pos c)" using x by (simp add: cells_size_def)
  note D = cells_okD[OF ok x']
  obtain s where s: "c_seq c ! x = {s}" using u False by (auto simp: card_1_singleton_iff)
  have sl: "s < LLAMA_MAX_SEQ" using D(8) s by auto
  obtain c' where c': "cells_rm x c = Some c'" "cell_put x (-1) ext_reset 0 {} (c_has_shift c) c c'"
    using cells_rm_spec[OF ok x' False] by blast
  have g: "cells_seq_get x c = Some (int s)" using cells_seq_get_single[OF _ s sl] D(4) x' by simp
  have "evict x (rm, c) = Some (rm(s := max (rm s) (c_pos c ! x)), c')"
    using c'(1) g x' D(4,7) False s by (simp add: evict_def cells_is_empty_def cells_seq_count_def cells_pos_get_def)
  moreover have "rm(s := max (rm s) (c_pos c ! x)) = (\<lambda>t. if c_seq c ! x = {t} then max (rm t) (c_pos c ! x) else rm t)"
    using s by (auto simp: fun_eq_iff)
  ultimately show ?thesis using c'(2) False by (auto simp: put_cell_def)
qed

lemma take_token:
  assumes ok: "cells_ok c" and x: "x < cells_size c" and u: "c_pos c ! x = -1 \<or> card (c_seq c ! x) = 1" and tv: "token_valid ub i"
  shows "\<exists>c1 c'. evict x (rm, c) = Some (\<lambda>t. if c_seq c ! x = {t} then max (rm t) (c_pos c ! x) else rm t, c1) \<and>
    fill_cell ub i x c1 = Some c' \<and> put_cell x (tok_cell ub i (cell_at c x)) (c_has_shift c) c c'"
proof -
  obtain c1 where c1: "evict x (rm, c) = Some (\<lambda>t. if c_seq c ! x = {t} then max (rm t) (c_pos c ! x) else rm t, c1)"
    and P: "put_cell x (-1, if c_pos c ! x = -1 then c_ext c ! x else ext_reset, 0, {}) (c_has_shift c) c c1"
    using evict_spec[OF ok x u] by blast
  note D = put_cellD[OF P ok x]
  have "c_pos c1 ! x = -1" "c_ext c1 ! x = (if c_pos c ! x = -1 then c_ext c ! x else ext_reset)"
    using D(4)[OF x] by (auto simp: cell_at_def)
  with fill_cell_spec[OF D(1) _ _ tv, of x] D(2,3) x obtain c' where
    c': "fill_cell ub i x c1 = Some c'" "put_cell x (tok_cell ub i (cell_at c x)) (c_has_shift c) c1 c'"
    by (auto simp: tok_cell_def cell_at_def)
  with c1 put_cell_trans[OF P c'(2)] show ?thesis by blast
qed

lemma taken_step:
  assumes f: "taken ub (take j xs) (\<lambda>x. x) c c1" and j: "j < length xs" and d: "distinct xs" and b: "\<forall>i \<in> set xs. i < cells_size c"
    and P: "put_cell (xs ! j) (tok_cell ub j (cell_at c (xs ! j))) (c_has_shift c1) c1 c2"
  shows "taken ub (take (Suc j) xs) (\<lambda>x. x) c c2"
proof -
  have x: "xs ! j < cells_size c" "xs ! j \<notin> set (take j xs)" using d b nth_mem[OF j] j by (auto simp: in_set_conv_nth nth_eq_iff_index_eq)
  have c1: "cells_ok c1" "cells_size c1 = cells_size c" "c_has_shift c1 = c_has_shift c" using f by (auto simp: taken_def)
  note D = put_cellD[OF P c1(1), unfolded c1(2,3), OF x(1)]
  have tk: "take (Suc j) xs = take j xs @ [xs ! j]" using j by (simp add: take_Suc_conv_app_nth)
  show ?thesis
    unfolding taken_def
  proof (intro conjI allI impI)
    fix i assume i: "i < length (take (Suc j) xs)"
    show "cell_at c2 (take (Suc j) xs ! i) = tok_cell ub i (cell_at c (take (Suc j) xs ! i))"
    proof (cases "i = j")
      case True
      then show ?thesis using D(4)[OF x(1)] j by (simp add: tk nth_append)
    next
      case False
      then have ij: "i < j" using i j by simp
      then have "take (Suc j) xs ! i = take j xs ! i" "xs ! i \<noteq> xs ! j" "xs ! i < cells_size c"
        using j d b by (auto simp: nth_eq_iff_index_eq)
      with f ij j D(4)[of "xs ! i"] show ?thesis by (simp add: taken_def)
    qed
  next
    fix i assume "i < cells_size c" "i \<notin> set (take (Suc j) xs)"
    then show "cell_at c2 i = cell_at c i" using f D(4) by (auto simp: taken_def tk)
  qed (use D in auto)
qed

lemma take_tokens:
  assumes ok: "cells_ok c" and k: "kc_cells k = [c]" and fit: "slot_takes c ub si xs" and v: "ubatch_valid ub"
  shows "\<exists>c'. ofold (apply_token si ub (length xs)) (map (Pair 0) [0..<length xs]) (\<lambda>_. -1, k) = Some (evicted c xs, k\<lparr>kc_cells := [c']\<rparr>) \<and>
    taken ub xs (\<lambda>x. x) c c'"
proof -
  let ?P = "\<lambda>j (rm :: nat \<Rightarrow> int, k'). rm = evicted c (take j xs) \<and> (\<exists>c'. k' = k\<lparr>kc_cells := [c']\<rparr> \<and> taken ub (take j xs) (\<lambda>x. x) c c')"
  have si: "si_strm si = [0]" "si_idxs si = [xs]" "length xs = ub_n_tokens ub" "distinct xs"
    "\<forall>i \<in> set xs. i < cells_size c" "\<And>i. i \<in> set xs \<Longrightarrow> c_pos c ! i = -1 \<or> card (c_seq c ! i) = 1" using fit by (auto simp: slot_takes_def)
  have "\<exists>t. ofold (\<lambda>ii. apply_token si ub (length xs) (0, ii)) [0..<length xs] (\<lambda>_. -1, k) = Some t \<and> ?P (length xs) t"
  proof (rule ofold_upto[where P = ?P])
    have "k = k\<lparr>kc_cells := [c]\<rparr>" using k by simp
    then show "?P 0 (\<lambda>_. -1, k)" using ok by (auto simp: taken_def)
  next
    fix j t assume j: "j < length xs" and "?P j t"
    then obtain c1 where t: "t = (evicted c (take j xs), k\<lparr>kc_cells := [c1]\<rparr>)" and f: "taken ub (take j xs) (\<lambda>x. x) c c1" by auto
    let ?x = "xs ! j"
    have x: "?x < cells_size c" "?x \<in> set xs" "?x \<notin> set (take j xs)" using si(4,5) nth_mem[OF j] j by (auto simp: in_set_conv_nth nth_eq_iff_index_eq)
    have c1: "cells_ok c1" "cells_size c1 = cells_size c" and at: "cell_at c1 ?x = cell_at c ?x" using f x by (auto simp: taken_def)
    have e1: "c_pos c1 ! ?x = c_pos c ! ?x" "c_seq c1 ! ?x = c_seq c ! ?x" using at by (auto simp: cell_at_def)
    have tv: "token_valid ub j" using v j si(3) by (simp add: ubatch_valid_def)
    have u: "c_pos c1 ! ?x = -1 \<or> card (c_seq c1 ! ?x) = 1" using si(6)[OF x(2)] by (simp add: e1)
    obtain c' c2 where c2: "evict ?x (evicted c (take j xs), c1) =
          Some (\<lambda>t. if c_seq c ! ?x = {t} then max (evicted c (take j xs) t) (c_pos c ! ?x) else evicted c (take j xs) t, c')"
        "fill_cell ub j ?x c' = Some c2"
      and P: "put_cell ?x (tok_cell ub j (cell_at c ?x)) (c_has_shift c1) c1 c2"
      using take_token[OF c1(1) _ u tv, of "evicted c (take j xs)", unfolded e1 at c1(2), OF x(1)] by blast
    have "evicted c (take (Suc j) xs) = (\<lambda>t. if c_seq c ! ?x = {t} then max (evicted c (take j xs) t) (c_pos c ! ?x) else evicted c (take j xs) t)"
      using j by (simp add: take_Suc_conv_app_nth evicted_snoc fun_eq_iff)
    then have "apply_token si ub (length xs) (0, j) t = Some (evicted c (take (Suc j) xs), k\<lparr>kc_cells := [c2]\<rparr>)"
      using c2 j by (simp add: apply_token_def t si(1,2))
    with taken_step[OF f j si(4,5) P] show "\<exists>t'. apply_token si ub (length xs) (0, j) t = Some t' \<and> ?P (Suc j) t'" by blast
  qed
  then show ?thesis unfolding ofold_map by auto
qed

section \<open>The purge\<close>

lemma purge_cell_free [simp]: "purge_cell rm cell_free = cell_free"
  by (simp add: purge_cell_def)

lemma purge_cell_none:
  assumes "cells_ok c" "i < cells_size c"
  shows "purge_cell (\<lambda>_. -1) (cell_at c i) = cell_at c i"
  using cells_okD(7,9)[OF assms(1), of i] assms(2) by (auto simp: purge_cell_def cell_at_def cells_size_def)

lemma purge_cell_seqs: "t \<in> cell_seqs (purge_cell rm x) \<longleftrightarrow> t \<in> cell_seqs x \<and> rm t < fst x"
  "t \<in> cell_seqs (purge_cell rm x) \<Longrightarrow> fst (purge_cell rm x) = fst x"
  by (auto simp: purge_cell_def split: prod.splits if_splits)

text \<open>One step of the purge, on a cell whose positions for the sequence are at least \<open>lo\<close>.\<close>

lemma purge_cell_step:
  assumes "rm' = rm(s := r)" "rm s = -1" "-1 \<le> fst x" "fst x = -1 \<longrightarrow> cell_seqs x = {}"
    and lo: "s \<in> cell_seqs (purge_cell rm x) \<Longrightarrow> lo \<le> fst x" "0 \<le> r"
  shows "purge_cell rm' x = (if lo \<le> r then rm_cell s (range_lo lo) (range_hi (r + 1)) (purge_cell rm x) else purge_cell rm x)"
proof -
  obtain p e d b where x: "x = (p, e, d, b)" by (cases x)
  have lo': "s \<in> b \<Longrightarrow> lo \<le> p" using assms by (auto simp: x purge_cell_seqs)
  have p: "b \<noteq> {} \<Longrightarrow> 0 \<le> p" using assms(3,4) by (auto simp: x)
  have hi: "range_hi (r + 1) = r + 1" using lo(2) by (simp add: range_hi_def)
  have rl: "s \<in> b \<Longrightarrow> range_lo lo \<le> p" using lo' p by (auto simp: range_lo_def)
  show ?thesis
  proof (cases "s \<in> b")
    case False
    have "\<And>t. t \<in> b \<Longrightarrow> rm' t = rm t" using False assms(1) by auto
    then have "purge_cell rm' x = purge_cell rm x" by (auto simp: x purge_cell_def)
    moreover have "s \<notin> cell_seqs (purge_cell rm x)" using False by (auto simp: x purge_cell_def)
    ultimately show ?thesis by (auto simp: rm_cell_def hits_def split: prod.splits)
  next
    case True
    then have p0: "0 \<le> p" using p by blast
    then have px: "purge_cell rm x = (p, e, d, {t \<in> b. rm t < p})" using True assms(2) by (force simp: x purge_cell_def)
    show ?thesis
    proof (cases "p \<le> r")
      case True
      let ?B = "{t \<in> b. rm t < p}"
      have B: "{t \<in> b. rm' t < p} = ?B - {s}" using True assms(1) by auto
      have sB: "s \<in> ?B" using \<open>s \<in> b\<close> assms(2) p0 by auto
      have E: "(\<forall>t \<in> b. p \<le> rm' t) \<longleftrightarrow> ?B = {s}"
      proof
        assume l: "\<forall>t \<in> b. p \<le> rm' t"
        have "t = s" if "t \<in> ?B" for t using that bspec[OF l, of t] assms(1) by (auto split: if_splits)
        with sB show "?B = {s}" by blast
      next
        assume "?B = {s}"
        then have "t \<in> b \<Longrightarrow> t \<noteq> s \<Longrightarrow> p \<le> rm t" for t by (metis (mono_tags, lifting) mem_Collect_eq not_less singletonD)
        with True assms(1) show "\<forall>t \<in> b. p \<le> rm' t" by simp
      qed
      have ne: "b \<noteq> {}" using \<open>s \<in> b\<close> by blast
      have "purge_cell rm' x = (if ?B = {s} then cell_free else (p, e, d, ?B - {s}))"
        unfolding x purge_cell_def prod.case B E using ne by simp
      moreover have "hits s (range_lo lo) (r + 1) (p, e, d, ?B)" using True rl[OF \<open>s \<in> b\<close>] sB by (simp add: hits_def)
      then have "rm_cell s (range_lo lo) (range_hi (r + 1)) (purge_cell rm x) = (if ?B = {s} then cell_free else (p, e, d, ?B - {s}))"
        unfolding px hi rm_cell_def prod.case by simp
      moreover have "lo \<le> r" using lo'[OF \<open>s \<in> b\<close>] True by simp
      ultimately show ?thesis by simp
    next
      case False
      then have "{t \<in> b. rm' t < p} = {t \<in> b. rm t < p}" using assms(1,2) p0 by auto
      moreover have "\<not> (\<forall>t \<in> b. p \<le> rm' t)" using False \<open>s \<in> b\<close> assms(1) by auto
      ultimately have "purge_cell rm' x = (p, e, d, {t \<in> b. rm t < p})" unfolding x purge_cell_def prod.case by (metis (no_types, lifting))
      moreover have "\<not> hits s (range_lo lo) (r + 1) (p, e, d, {t \<in> b. rm t < p})" using False by (simp add: hits_def)
      ultimately show ?thesis unfolding px hi rm_cell_def by simp
    qed
  qed
qed

text \<open>The cells rewritten one by one.\<close>

definition mapped :: "(cell \<Rightarrow> cell) \<Rightarrow> llama_kv_cells \<Rightarrow> llama_kv_cells \<Rightarrow> bool" where
  "mapped F c c' \<longleftrightarrow> cells_ok c' \<and> cells_size c' = cells_size c \<and> c_has_shift c' = c_has_shift c \<and>
     (\<forall>i < cells_size c. cell_at c' i = F (cell_at c i))"

lemma seq_rm_unified:
  assumes k: "window_ok k" and s: "s < LLAMA_MAX_SEQ"
  shows "\<exists>c h. cache_seq_rm (int s) p0 p1 k = Some (k\<lparr>kc_cells := [c], kc_heads := [h]\<rparr>) \<and> h \<le> cells_size c \<and>
    mapped (rm_cell s (range_lo p0) (range_hi p1)) (kc_cells k ! 0) c"
proof -
  note K = window_okD[OF k]
  have ks: "known_seq k (int s)" using s K(7) by simp
  have st: "kc_seq_to_stream k ! s = 0" using K(9)[OF s] .
  from sweep_rewritten[OF rm_sweep.cell_sweep_axioms K(1), of 0 "int s" head_back "range_lo p0" "range_hi p1"] cache_okD(4)[OF K(1) ks] K(3)
  obtain k' where k': "sweep 0 (rm_body (int s) (range_lo p0) (range_hi p1)) head_back k = Some k'"
    "rewritten 0 (rm_cell s (range_lo p0) (range_hi p1)) k k'" "c_has_shift (kc_cells k' ! 0) = c_has_shift (kc_cells k ! 0)"
    by (auto simp: head_back_le)
  then obtain h c where ch: "k' = put_stream 0 h c k" by (auto simp: sweep_def bind_Some_iff)
  then have eq: "k' = k\<lparr>kc_cells := [c], kc_heads := [h]\<rparr>" using K(4,5) by (metis list_update_code(2) put_stream_def)
  moreover have "mapped (rm_cell s (range_lo p0) (range_hi p1)) (kc_cells k ! 0) c \<and> h \<le> cells_size c"
    using k'(2,3) K(3) eq by (auto simp: rewritten_def mapped_def cache_ok_def)
  ultimately show ?thesis using k'(1) st ks by (auto simp: cache_seq_rm_def stream_of_known)
qed

lemma purge_step:
  assumes k: "window_ok k" and s: "s < LLAMA_MAX_SEQ" and m: "mapped (purge_cell rmo) c0 (kc_cells k ! 0)" and ok: "cells_ok c0"
    and rm: "-1 \<le> rm s" "rmo s = -1"
  shows "\<exists>c h. purge rm s k = Some (k\<lparr>kc_cells := [c], kc_heads := [h]\<rparr>) \<and> h \<le> cells_size c \<and>
    mapped (purge_cell (rmo(s := rm s))) c0 c"
proof -
  note K = window_okD[OF k]
  let ?c = "kc_cells k ! 0"
  show ?thesis
  proof (cases "rm s = -1")
    case True
    then have "rmo(s := rm s) = rmo" using rm(2) by (simp add: fun_upd_idem)
    moreover have "k = k\<lparr>kc_cells := [?c], kc_heads := [kc_heads k ! 0]\<rparr>" using K(4,5) by simp
    ultimately show ?thesis using True m K(10) by (metis purge_def)
  next
    case False
    define lo where "lo = (if seq_positions ?c s = {} then -1 else Min (seq_positions ?c s))"
    have min: "cells_seq_pos_min (int s) ?c = Some lo" using cells_seq_pos_min_eq[OF K(6), of "int s"] s by (simp add: lo_def)
    have lt: "0 < length (kc_cells k)" "s < length (kc_seq_to_stream k)" using K(1,3,7) s by (auto simp: cache_ok_def)
    have eval: "purge rm s k = (if lo \<le> rm s then cache_seq_rm (int s) lo (rm s + 1) k else Some k)"
      using False min lt K(9)[OF s] by (simp add: purge_def)
    have step: "purge_cell (rmo(s := rm s)) (cell_at c0 i) =
        (if lo \<le> rm s then rm_cell s (range_lo lo) (range_hi (rm s + 1)) (purge_cell rmo (cell_at c0 i)) else purge_cell rmo (cell_at c0 i))"
      if i: "i < cells_size c0" for i
    proof (rule purge_cell_step[where rm = rmo and s = s and r = "rm s", OF refl rm(2)])
      show "-1 \<le> fst (cell_at c0 i)" "fst (cell_at c0 i) = -1 \<longrightarrow> cell_seqs (cell_at c0 i) = {}"
        using cells_okD(7,9)[OF ok, of i] i by (auto simp: cell_at_def cells_size_def)
      assume "s \<in> cell_seqs (purge_cell rmo (cell_at c0 i))"
      moreover have "cell_at ?c i = purge_cell rmo (cell_at c0 i)" "i < cells_size ?c" using m i by (auto simp: mapped_def)
      ultimately have "fst (cell_at c0 i) \<in> seq_positions ?c s" by (auto simp: seq_positions_cell intro!: exI[of _ i] purge_cell_seqs(2)[symmetric])
      then show "lo \<le> fst (cell_at c0 i)" using kv_cells.positions_finite[OF K(6)] by (auto simp: lo_def)
    qed (use False rm(1) in simp)
    show ?thesis
    proof (cases "lo \<le> rm s")
      case True
      obtain c h where "cache_seq_rm (int s) lo (rm s + 1) k = Some (k\<lparr>kc_cells := [c], kc_heads := [h]\<rparr>)" "h \<le> cells_size c"
        "mapped (rm_cell s (range_lo lo) (range_hi (rm s + 1))) ?c c" using seq_rm_unified[OF k s] by blast
      moreover from this have "mapped (purge_cell (rmo(s := rm s))) c0 c" using m step True by (simp add: mapped_def)
      ultimately show ?thesis using True eval by (auto simp only: if_True)
    next
      case nle: False
      have "k = k\<lparr>kc_cells := [?c], kc_heads := [kc_heads k ! 0]\<rparr>" using K(4,5) by simp
      moreover have "mapped (purge_cell (rmo(s := rm s))) c0 ?c" using m step nle by (simp add: mapped_def)
      ultimately show ?thesis using nle eval K(10) by metis
    qed
  qed
qed

lemma purge_all:
  assumes k: "window_ok k" and rm: "\<And>s. -1 \<le> rm s"
  shows "\<exists>c h. ofold (purge rm) [0..<LLAMA_MAX_SEQ] k = Some (k\<lparr>kc_cells := [c], kc_heads := [h]\<rparr>) \<and> h \<le> cells_size c \<and>
    mapped (purge_cell rm) (kc_cells k ! 0) c"
proof -
  note K = window_okD[OF k]
  let ?c0 = "kc_cells k ! 0" and ?rm = "\<lambda>n s. if s < n then rm s else -1"
  let ?P = "\<lambda>n k'. \<exists>c h. k' = k\<lparr>kc_cells := [c], kc_heads := [h]\<rparr> \<and> h \<le> cells_size c \<and> mapped (purge_cell (?rm n)) ?c0 c"
  have "\<exists>k'. ofold (purge rm) [0..<LLAMA_MAX_SEQ] k = Some k' \<and> ?P LLAMA_MAX_SEQ k'"
  proof (rule ofold_upto[where P = ?P])
    have "k = k\<lparr>kc_cells := [?c0], kc_heads := [kc_heads k ! 0]\<rparr>" using K(4,5) by simp
    moreover have "mapped (purge_cell (?rm 0)) ?c0 ?c0" using K(6) by (simp add: mapped_def purge_cell_none)
    ultimately show "?P 0 k" using K(10) by blast
  next
    fix s k' assume s: "s < LLAMA_MAX_SEQ" and "?P s k'"
    then obtain c h where k': "k' = k\<lparr>kc_cells := [c], kc_heads := [h]\<rparr>" "h \<le> cells_size c" "mapped (purge_cell (?rm s)) ?c0 c" by blast
    have w: "window_ok k'" unfolding k'(1) by (rule window_ok_put[OF k]) (use k'(2,3) K(8) in \<open>auto simp: mapped_def\<close>)
    have upd: "(?rm s)(s := rm s) = ?rm (Suc s)" by (auto simp: less_Suc_eq)
    from purge_step[where rm = rm and rmo = "?rm s", OF w s _ K(6) rm] k' upd show "\<exists>t. purge rm s k' = Some t \<and> ?P (Suc s) t" by auto
  qed
  moreover have "mapped (purge_cell (?rm LLAMA_MAX_SEQ)) ?c0 = mapped (purge_cell rm) ?c0"
  proof -
    have "purge_cell (?rm LLAMA_MAX_SEQ) (cell_at ?c0 i) = purge_cell rm (cell_at ?c0 i)" if "i < cells_size ?c0" for i
    proof -
      have "s \<in> c_seq ?c0 ! i \<Longrightarrow> s < LLAMA_MAX_SEQ" for s using cells_okD(8)[OF K(6), of i] that by (auto simp: cells_size_def)
      then show ?thesis by (auto simp: purge_cell_def cell_at_def)
    qed
    then show ?thesis by (auto simp: mapped_def fun_eq_iff)
  qed
  ultimately show ?thesis by auto
qed

section \<open>Applying a ubatch\<close>

lemma slot_takes_last: "slot_takes c ub si xs \<Longrightarrow> last xs + 1 \<le> cells_size c"
  using last_in_set[of xs] by (auto simp: slot_takes_def Suc_le_eq)

lemma taken_purged: "\<lbrakk>taken ub xs (\<lambda>x. x) c c1; mapped F c1 c2; \<forall>i \<in> set xs. i < cells_size c\<rbrakk> \<Longrightarrow> taken ub xs F c c2"
  by (auto simp: taken_def mapped_def)

lemma window_apply:
  assumes k: "window_ok k" and fit: "slot_takes (kc_cells k ! 0) ub si xs" and v: "ubatch_valid ub"
  shows "\<exists>c'. apply_ubatch si ub k = Some (k\<lparr>kc_cells := [c'], kc_heads := [last xs + 1]\<rparr>) \<and>
    taken ub xs (purge_cell (evicted (kc_cells k ! 0) xs)) (kc_cells k ! 0) c' \<and> window_ok (k\<lparr>kc_cells := [c'], kc_heads := [last xs + 1]\<rparr>)"
proof -
  note K = window_okD[OF k]
  let ?c = "kc_cells k ! 0" and ?rm = "evicted (kc_cells k ! 0) xs"
  have si: "si_strm si = [0]" "si_idxs si = [xs]" "length xs = ub_n_tokens ub" "xs \<noteq> []" "\<forall>i \<in> set xs. i < cells_size ?c"
    using fit by (auto simp: slot_takes_def)
  obtain c1 where c1: "ofold (apply_token si ub (length xs)) (map (Pair 0) [0..<length xs]) (\<lambda>_. -1, k) = Some (?rm, k\<lparr>kc_cells := [c1]\<rparr>)"
    and t1: "taken ub xs (\<lambda>x. x) ?c c1" using take_tokens[OF K(6,4) fit v] by blast
  have "window_ok (k\<lparr>kc_cells := [c1], kc_heads := [kc_heads k ! 0]\<rparr>)"
    using t1 K(8,10) by (intro window_ok_put[OF k]) (auto simp: taken_def)
  moreover have "k\<lparr>kc_cells := [c1], kc_heads := [kc_heads k ! 0]\<rparr> = k\<lparr>kc_cells := [c1]\<rparr>" using K(5) by simp
  ultimately have w1: "window_ok (k\<lparr>kc_cells := [c1]\<rparr>)" by metis
  obtain c2 h where c2: "ofold (purge ?rm) [0..<LLAMA_MAX_SEQ] (k\<lparr>kc_cells := [c1]\<rparr>) = Some (k\<lparr>kc_cells := [c2], kc_heads := [h]\<rparr>)"
    and m2: "mapped (purge_cell ?rm) c1 c2" using purge_all[OF w1, of ?rm] evicted_ge(1)[of ?c xs] by auto
  have t2: "taken ub xs (purge_cell ?rm) ?c c2" using taken_purged[OF t1 m2 si(5)] .
  have "List.product [0..<1] [0..<length xs] = map (Pair 0) [0..<length xs]" by simp
  then have "apply_ubatch si ub k = Some (k\<lparr>kc_cells := [c2], kc_heads := [last xs + 1]\<rparr>)"
    using c1 c2 si by (simp add: apply_ubatch_def slot_size_def slot_n_stream_def move_head_def)
  moreover have "window_ok (k\<lparr>kc_cells := [c2], kc_heads := [last xs + 1]\<rparr>)"
    using t2 K(8) slot_takes_last[OF fit] by (intro window_ok_put[OF k]) (auto simp: taken_def)
  ultimately show ?thesis using t2 by blast
qed

text \<open>The slots that \<open>find_slot\<close> returns can be applied.\<close>

definition slot_usable :: "llama_kv_cache \<Rightarrow> nat list \<Rightarrow> bool" where
  "slot_usable k xs \<longleftrightarrow> (\<forall>i \<in> set xs. usable k (kc_cells k ! 0) i)"

lemma usable_cell:
  assumes "cells_ok c" "i < cells_size c" "usable k c i"
  shows "c_pos c ! i = -1 \<or> card (c_seq c ! i) = 1 \<and> (\<exists>t. c_seq c ! i = {t} \<and>
    is_masked_swa (kc_n_swa k) (kc_swa_type k) (c_pos c ! i) (Max (seq_positions c t) + 1) = Some True)"
proof (rule disjCI)
  assume n: "\<not> (card (c_seq c ! i) = 1 \<and> (\<exists>t. c_seq c ! i = {t} \<and>
    is_masked_swa (kc_n_swa k) (kc_swa_type k) (c_pos c ! i) (Max (seq_positions c t) + 1) = Some True))"
  have i': "i < length (c_pos c)" using assms(2) by (simp add: cells_size_def)
  note D = cells_okD[OF assms(1) i']
  have e: "cells_is_empty i c = Some (c_pos c ! i = -1)" using i' D(7) by (auto simp: cells_is_empty_def)
  show "c_pos c ! i = -1"
  proof (rule ccontr)
    assume ne: "c_pos c ! i \<noteq> -1"
    then have cd: "card (c_seq c ! i) = 1"
      using assms(3) e i' D(4) by (auto simp: usable_def can_use_def cells_seq_count_def split: if_splits)
    then obtain t where t: "c_seq c ! i = {t}" by (auto simp: card_1_singleton_iff)
    have tl: "t < LLAMA_MAX_SEQ" using D(8) t by auto
    have "seq_positions c t \<noteq> {}" using i' t by (auto simp: seq_positions_def)
    then have "cells_seq_pos_max (int t) c = Some (Max (seq_positions c t))" using cells_seq_pos_max_eq[OF assms(1), of "int t"] tl by simp
    then have "is_masked_swa (kc_n_swa k) (kc_swa_type k) (c_pos c ! i) (Max (seq_positions c t) + 1) = Some True"
      using assms(3) e i' D(4) ne cd cells_seq_get_single[OF _ t tl]
      by (auto simp: usable_def can_use_def cells_seq_count_def cells_pos_get_def)
    with n cd t show False by blast
  qed
qed

lemma window_find_slot:
  assumes k: "window_ok k" and ub: "ubatch_for k ub"
  shows "\<exists>si. find_slot k ub False = Some si \<and>
    (slot_empty si \<or> \<not> slot_empty si \<and> (\<exists>xs. slot_takes (kc_cells k ! 0) ub si xs \<and> slot_usable k xs))"
proof -
  note K = window_okD[OF k]
  obtain q qs where q: "ub_seq_id_unq ub = q # qs" "q < length (kc_seq_to_stream k)" and n: "0 < ub_n_tokens ub"
    using ub by (auto simp: ubatch_for_def)
  let ?F = "{i. i < cells_size (kc_cells k ! 0) \<and> usable k (kc_cells k ! 0) i}"
  from find_slot_spec[OF K(1-3) n q] obtain si where si: "find_slot k ub False = Some si"
    "if card ?F < ub_n_tokens ub then slot_empty si
     else si_s0 si = 0 \<and> si_s1 si = 0 \<and> si_strm si = [0] \<and>
       (\<exists>xs. si_idxs si = [xs] \<and> length xs = ub_n_tokens ub \<and> distinct xs \<and> set xs \<subseteq> ?F)" unfolding Let_def by blast
  show ?thesis
  proof (cases "card ?F < ub_n_tokens ub")
    case True
    with si show ?thesis by auto
  next
    case False
    with si(2) obtain xs where xs: "si_strm si = [0]" "si_idxs si = [xs]" "length xs = ub_n_tokens ub" "distinct xs" "set xs \<subseteq> ?F" by auto
    have "slot_takes (kc_cells k ! 0) ub si xs"
      using xs n usable_cell[OF K(6)] by (auto simp: slot_takes_def)
    moreover have "slot_usable k xs" using xs(5) by (auto simp: slot_usable_def)
    ultimately show ?thesis using si(1) xs(2) by (auto simp: slot_empty_def)
  qed
qed

section \<open>Thinned caches\<close>

text \<open>A cell that has lost some of its sequences, or all of them and is free.\<close>

definition thin :: "cell \<Rightarrow> cell \<Rightarrow> bool" where
  "thin y x \<longleftrightarrow> y = cell_free \<or> (\<exists>p e d b b'. x = (p, e, d, b) \<and> y = (p, e, d, b') \<and> b' \<subseteq> b \<and> (b' = {} \<longrightarrow> b = {}))"

lemma thin_refl [simp]: "thin x x"
  by (cases x) (auto simp: thin_def)

lemma thin_free [simp]: "thin cell_free x"
  by (simp add: thin_def)

lemma thin_antisym: "\<lbrakk>thin x y; thin y x\<rbrakk> \<Longrightarrow> x = y"
  by (auto simp: thin_def)

lemma thin_trans: "\<lbrakk>thin z y; thin y x\<rbrakk> \<Longrightarrow> thin z x"
  unfolding thin_def by blast

lemma thin_seqs: "\<lbrakk>thin y x; t \<in> cell_seqs y\<rbrakk> \<Longrightarrow> t \<in> cell_seqs x \<and> fst x = fst y"
  by (auto simp: thin_def)

lemma thin_purge: "thin (purge_cell rm x) x"
  by (cases x) (auto simp: thin_def purge_cell_def)

lemma purge_cell_kept: "\<lbrakk>s \<in> b; rm s < p\<rbrakk> \<Longrightarrow> purge_cell rm (p, e, d, b) = (p, e, d, {s \<in> b. rm s < p})"
  unfolding purge_cell_def prod.case by (metis not_le)

lemma purge_cell_unowned: "purge_cell rm (p, e, d, {}) = (p, e, d, {})"
  by (simp add: purge_cell_def)

lemma thin_purge_mono: "thin y x \<Longrightarrow> thin (purge_cell rm y) (purge_cell rm x)"
proof -
  assume a: "thin y x"
  show "thin (purge_cell rm y) (purge_cell rm x)"
  proof (cases "y = cell_free")
    case False
    with a obtain p e d b b' where xy: "x = (p, e, d, b)" "y = (p, e, d, b')" "b' \<subseteq> b" "b' = {} \<longrightarrow> b = {}" unfolding thin_def by blast
    consider "b' = {}" | "b' \<noteq> {}" "\<forall>s \<in> b'. p \<le> rm s" | s where "s \<in> b'" "rm s < p" by force
    then show ?thesis
    proof cases
      case 1
      then show ?thesis using xy by (simp add: purge_cell_unowned)
    next
      case 2
      then have "purge_cell rm y = cell_free" by (simp add: xy(2) purge_cell_def)
      then show ?thesis by simp
    next
      case 3
      then have "purge_cell rm y = (p, e, d, {s \<in> b'. rm s < p})" "purge_cell rm x = (p, e, d, {s \<in> b. rm s < p})"
        using xy purge_cell_kept[of s] by auto
      moreover have "{s \<in> b'. rm s < p} \<noteq> {}" "{s \<in> b'. rm s < p} \<subseteq> {s \<in> b. rm s < p}" using 3 xy(3) by auto
      ultimately show ?thesis unfolding thin_def by blast
    qed
  qed simp
qed

lemma thin_between_purged:
  assumes z: "thin z (purge_cell rm x)" "thin z y" and y: "thin y x"
  shows "thin z (purge_cell rm y)"
proof (cases "z = cell_free \<or> y = cell_free")
  case True
  then show ?thesis using z(2) by (auto simp: thin_def)
next
  case False
  with y obtain p e d b b' where xy: "x = (p, e, d, b)" "y = (p, e, d, b')" "b' \<subseteq> b" "b' = {} \<longrightarrow> b = {}" unfolding thin_def by blast
  with z(2) False obtain bz where zz: "z = (p, e, d, bz)" "bz \<subseteq> b'" "bz = {} \<longrightarrow> b' = {}" unfolding thin_def by blast
  have "bz \<subseteq> {s \<in> b. rm s < p}" using z(1) False by (auto simp: zz xy thin_def purge_cell_def split: if_splits)
  then have bz: "bz \<subseteq> {s \<in> b'. rm s < p}" using zz(2) by blast
  then have "\<not> (b' \<noteq> {} \<and> (\<forall>s \<in> b'. p \<le> rm s))" using zz(3) by force
  then have "purge_cell rm y = (p, e, d, {s \<in> b'. rm s < p})" unfolding xy(2) purge_cell_def prod.case by (rule if_not_P)
  with bz zz show ?thesis unfolding thin_def by blast
qed

definition thinner :: "llama_kv_cells \<Rightarrow> llama_kv_cells \<Rightarrow> bool" where
  "thinner c' c \<longleftrightarrow> cells_ok c' \<and> cells_size c' = cells_size c \<and> c_has_shift c' = c_has_shift c \<and>
     (\<forall>i < cells_size c. thin (cell_at c' i) (cell_at c i))"

lemma thinner_refl: "cells_ok c \<Longrightarrow> thinner c c"
  by (simp add: thinner_def)

lemma thinner_positions: "thinner c' c \<Longrightarrow> seq_positions c' t \<subseteq> seq_positions c t"
proof
  fix p assume a: "thinner c' c" and "p \<in> seq_positions c' t"
  then obtain i where i: "i < cells_size c" "p = fst (cell_at c' i)" "t \<in> cell_seqs (cell_at c' i)"
    unfolding seq_positions_cell thinner_def by auto
  with a thin_seqs[of "cell_at c' i" "cell_at c i" t] show "p \<in> seq_positions c t"
    unfolding seq_positions_cell thinner_def by (auto intro!: exI[of _ i])
qed

lemma cell_at_eq:
  assumes "cells_ok c" "cells_ok c'" "cells_size c' = cells_size c" "c_has_shift c' = c_has_shift c"
    and "\<And>i. i < cells_size c \<Longrightarrow> cell_at c' i = cell_at c i"
  shows "c' = c"
  by (rule agree_on_all[OF assms(2,1)]) (use assms in \<open>auto simp: agree_on_def cells_size_def cell_at_def\<close>)

lemma thinner_antisym: "\<lbrakk>cells_ok c; thinner c' c; thinner c c'\<rbrakk> \<Longrightarrow> c' = c"
  by (rule cell_at_eq) (auto simp: thinner_def intro: thin_antisym)

section \<open>The dry run\<close>

lemma no_shift: "\<lbrakk>cells_ok c; \<not> c_has_shift c; i < cells_size c\<rbrakk> \<Longrightarrow> c_shift c ! i = 0"
  using cells_okD(11)[of c i] by (auto simp: cells_size_def)

text \<open>Writing saved cells back into cells that have changed in between.\<close>

lemma cells_set_back:
  assumes ok0: "cells_ok c0" "\<not> c_has_shift c0" and sv: "cells_cp idxs c0 = Some r" and idx: "\<forall>i \<in> set idxs. i < cells_size c0"
    and ok: "cells_ok c" "\<not> c_has_shift c" "cells_size c = cells_size c0"
  shows "\<exists>c'. cells_set idxs r c = Some c' \<and> cells_ok c' \<and> cells_size c' = cells_size c0 \<and> \<not> c_has_shift c' \<and>
    (\<forall>i < cells_size c0. cell_at c' i = (if i \<in> set idxs then cell_at c0 i else cell_at c i))"
proof -
  have r: "c_pos r = map ((!) (c_pos c0)) idxs" "c_ext r = map ((!) (c_ext c0)) idxs" "c_seq r = map ((!) (c_seq c0)) idxs"
    using cells_cp_spec[OF ok0(1), of idxs] idx sv no_shift[OF ok0] by (auto simp: cells_size_def)
  let ?P = "\<lambda>j c'. cells_ok c' \<and> cells_size c' = cells_size c0 \<and> \<not> c_has_shift c' \<and>
    (\<forall>i < cells_size c0. cell_at c' i = (if i \<in> set (take j idxs) then cell_at c0 i else cell_at c i))"
  have "\<exists>c'. ofold (\<lambda>j c. set_cell (idxs ! j) r j c) [0..<length (c_pos r)] c = Some c' \<and> ?P (length (c_pos r)) c'"
  proof (rule ofold_upto[where P = ?P])
    show "?P 0 c" using ok by simp
  next
    fix j and c1 :: llama_kv_cells assume j: "j < length (c_pos r)" and P: "?P j c1"
    then have j': "j < length idxs" by (simp add: r)
    have i: "idxs ! j < cells_size c0" using idx nth_mem[OF j'] by blast
    have i0: "idxs ! j < length (c_pos c0)" and i1: "idxs ! j < length (c_pos c1)" using i P by (auto simp: cells_size_def)
    note D0 = cells_okD[OF ok0(1) i0]
    have at: "cell_at c0 (idxs ! j) = (c_pos c0 ! (idxs ! j), c_ext c0 ! (idxs ! j), 0, c_seq c0 ! (idxs ! j))"
      using no_shift[OF ok0 i] by (simp add: cell_at_def)
    obtain c2 where c2: "set_cell (idxs ! j) r j c1 = Some c2"
      "put_cell (idxs ! j) (cell_at c0 (idxs ! j)) (c_has_shift c1) c1 c2"
      using set_cell_spec[of c1 "idxs ! j" j r] P i1 i j' D0 no_shift[of c1 "idxs ! j"] by (auto simp: r put_cell_def at)
    note D = put_cellD[OF c2(2)]
    have "?P (Suc j) c2" using D P i j' by (auto simp: take_Suc_conv_app_nth)
    with c2(1) show "\<exists>c'. set_cell (idxs ! j) r j c1 = Some c' \<and> ?P (Suc j) c'" by blast
  qed
  then show ?thesis by (auto simp: cells_set_def r)
qed

definition apply_all :: "slot_info list \<Rightarrow> llama_ubatch list \<Rightarrow> llama_kv_cache \<Rightarrow> llama_kv_cache option" where
  "apply_all sinfos ubs k = ofold (\<lambda>(si, ub). apply_ubatch si ub) (zip sinfos ubs) k"

lemma apply_all_Cons: "apply_all (si # sis) (ub # ubs) k = Option.bind (apply_ubatch si ub k) (apply_all sis ubs)"
  by (simp add: apply_all_def[abs_def])

lemma thinner_slot:
  assumes "slot_takes c ub si xs" "cells_size c' = cells_size c" "\<And>i. i \<in> set xs \<Longrightarrow> cell_at c' i = cell_at c i"
  shows "slot_takes c' ub si xs" "evicted c' xs = evicted c xs"
proof -
  have at: "c_pos c' ! i = c_pos c ! i" "c_seq c' ! i = c_seq c ! i" if "i \<in> set xs" for i using assms(3)[OF that] by (auto simp: cell_at_def)
  then show "slot_takes c' ub si xs" using assms(1,2) by (auto simp: slot_takes_def)
  have "(!) (c_pos c') ` {i \<in> set xs. c_seq c' ! i = {t}} = (!) (c_pos c) ` {i \<in> set xs. c_seq c ! i = {t}}" for t
    by (intro image_cong Collect_cong conj_cong refl) (simp_all add: at)
  then show "evicted c' xs = evicted c xs" by (simp add: evicted_def fun_eq_iff)
qed

text \<open>
  The cells \<open>c'\<close> are reached from \<open>c\<close> and then thinned to \<open>z'\<close>; \<open>z\<close> has the saved cells of the
  slot again. Then everything between \<open>z\<close> and \<open>c\<close> leads to something between \<open>z'\<close> and \<open>c'\<close>.
\<close>

lemma taken_between:
  assumes t: "taken ub xs (purge_cell rm) c c'" and z': "thinner z' c'"
    and z: "cells_size z = cells_size c" "\<forall>i < cells_size c. cell_at z i = (if i \<in> set xs then cell_at c i else cell_at z' i)"
    and y: "thinner z y" "thinner y c" and ty: "taken ub xs (purge_cell rm) y y'"
    and b: "\<forall>i \<in> set xs. i < cells_size c"
  shows "thinner z' y'" "thinner y' c'"
proof -
  have sz: "cells_size c' = cells_size c" "cells_size y = cells_size c" "cells_size y' = cells_size c" "cells_size z' = cells_size c"
    using t y ty z' by (auto simp: taken_def thinner_def)
  have slot: "cell_at y (xs ! i) = cell_at c (xs ! i)" if "i < length xs" for i
    using y z b nth_mem[OF that] sz by (intro thin_antisym) (auto simp: thinner_def)
  have eq: "cell_at y' i = cell_at c' i" if "i \<in> set xs" for i
    using that t ty slot by (auto simp: taken_def in_set_conv_nth)
  have "thin (cell_at y' i) (cell_at c' i)" if "i < cells_size c" for i
    using that eq t ty y(2) sz by (cases "i \<in> set xs") (auto simp: taken_def thinner_def intro: thin_purge_mono)
  then show "thinner y' c'" using ty y(2) t sz by (auto simp: thinner_def taken_def)
  have "thin (cell_at z' i) (cell_at y' i)" if i: "i < cells_size c" for i
  proof (cases "i \<in> set xs")
    case True
    then show ?thesis using eq z' i sz by (simp add: thinner_def)
  next
    case False
    then have "cell_at y' i = purge_cell rm (cell_at y i)" "cell_at c' i = purge_cell rm (cell_at c i)" "cell_at z i = cell_at z' i"
      using t ty z i sz by (auto simp: taken_def)
    moreover have "thin (cell_at z i) (cell_at y i)" "thin (cell_at y i) (cell_at c i)" "thin (cell_at z' i) (cell_at c' i)"
      using y z' i sz z(1) by (auto simp: thinner_def)
    ultimately show ?thesis using thin_between_purged by metis
  qed
  then show "thinner z' y'" using z' ty t y sz by (auto simp: thinner_def taken_def)
qed

text \<open>The saved cells of one state go back into thinned cells.\<close>

lemma restore_thinned:
  assumes k: "window_ok k" and fit: "slot_takes (kc_cells k ! 0) ub si xs" and t: "taken ub xs (purge_cell rm) (kc_cells k ! 0) c'"
    and z': "thinner z' c'"
  shows "\<exists>saved z. save_cells k (zip (si_strm si) (si_idxs si)) = Some saved \<and>
    restore_state \<lparr>ps_sinfo = si, ps_heads_old = kc_heads k, ps_cells = saved\<rparr> (k\<lparr>kc_cells := [z'], kc_heads := [h]\<rparr>) = Some (k\<lparr>kc_cells := [z]\<rparr>) \<and>
    thinner z (kc_cells k ! 0) \<and> (\<forall>i < cells_size (kc_cells k ! 0). cell_at z i = (if i \<in> set xs then cell_at (kc_cells k ! 0) i else cell_at z' i))"
proof -
  note K = window_okD[OF k]
  let ?c = "kc_cells k ! 0"
  have si: "si_strm si = [0]" "si_idxs si = [xs]" "\<forall>i \<in> set xs. i < cells_size ?c" using fit by (auto simp: slot_takes_def)
  obtain r where r: "cells_cp xs ?c = Some r" using cells_cp_spec[OF K(6), of xs] si(3) no_shift[OF K(6,8)] by (auto simp: cells_size_def)
  have zc: "cells_ok z'" "\<not> c_has_shift z'" "cells_size z' = cells_size ?c" using z' t K(8) by (auto simp: thinner_def taken_def)
  obtain z where z: "cells_set xs r z' = Some z" "cells_ok z" "cells_size z = cells_size ?c" "\<not> c_has_shift z"
    "\<forall>i < cells_size ?c. cell_at z i = (if i \<in> set xs then cell_at ?c i else cell_at z' i)"
    using cells_set_back[OF K(6,8) r si(3) zc] by blast
  have k0: "0 < length (kc_cells k)" "0 < length (kc_heads k)" using K(4,5) by (metis length_greater_0_conv list.discI)+
  have "put_stream 0 (kc_heads k ! 0) z (k\<lparr>kc_cells := [z'], kc_heads := [h]\<rparr>) = k\<lparr>kc_cells := [z]\<rparr>" using K(5) by (simp add: put_stream_def)
  then have "restore_state \<lparr>ps_sinfo = si, ps_heads_old = kc_heads k, ps_cells = [r]\<rparr> (k\<lparr>kc_cells := [z'], kc_heads := [h]\<rparr>) = Some (k\<lparr>kc_cells := [z]\<rparr>)"
    using z(1) si k0 by (simp add: restore_state_def slot_n_stream_def restore_stream_def)
  moreover have "save_cells k (zip (si_strm si) (si_idxs si)) = Some [r]" using r si k0 by simp
  moreover have "thin (cell_at z i) (cell_at ?c i)" if i: "i < cells_size ?c" for i
  proof (cases "i \<in> set xs")
    case False
    then have "cell_at z i = cell_at z' i" "cell_at c' i = purge_cell rm (cell_at ?c i)" using z(5) t i by (auto simp: taken_def)
    moreover have "thin (cell_at z' i) (cell_at c' i)" using z' t i by (auto simp: thinner_def taken_def)
    ultimately show ?thesis using thin_trans thin_purge by metis
  qed (use z(5) i in simp)
  then have "thinner z ?c" using z(2-4) K(8) by (simp add: thinner_def)
  ultimately show ?thesis using z(5) by blast
qed

text \<open>The states that a list of ubatches leads through.\<close>

inductive placed_run :: "llama_kv_cache \<Rightarrow> llama_ubatch list \<Rightarrow> llama_kv_cache \<Rightarrow> bool" where
  placed_done: "placed_run k [] k"
| placed_more: "\<lbrakk>window_ok k; slot_takes (kc_cells k ! 0) ub si xs; slot_usable k xs; ubatch_valid ub;
     taken ub xs (purge_cell (evicted (kc_cells k ! 0) xs)) (kc_cells k ! 0) c;
     placed_run (k\<lparr>kc_cells := [c], kc_heads := [last xs + 1]\<rparr>) ubs kf\<rbrakk> \<Longrightarrow> placed_run k (ub # ubs) kf"

inductive_cases placed_doneE: "placed_run k [] kf"
inductive_cases placed_moreE: "placed_run k (ub # ubs) kf"

lemma placed_run_ok: "placed_run k ubs kf \<Longrightarrow> window_ok k \<Longrightarrow> window_ok kf"
proof (induction rule: placed_run.induct)
  case (placed_more k ub si xs c ubs kf)
  then show ?case
    using window_okD(8)[OF placed_more(1)] slot_takes_last[OF placed_more(2)]
    by (intro placed_more.IH window_ok_put) (auto simp: taken_def)
qed

lemma apply_between:
  assumes k: "window_ok k" and fit: "slot_takes (kc_cells k ! 0) ub si xs" and v: "ubatch_valid ub"
    and t: "taken ub xs (purge_cell (evicted (kc_cells k ! 0) xs)) (kc_cells k ! 0) c'" and z': "thinner z' c'"
    and z: "thinner z (kc_cells k ! 0)" "\<forall>i < cells_size (kc_cells k ! 0). cell_at z i = (if i \<in> set xs then cell_at (kc_cells k ! 0) i else cell_at z' i)"
    and y: "thinner z y" "thinner y (kc_cells k ! 0)"
  shows "\<exists>y'. apply_ubatch si ub (k\<lparr>kc_cells := [y]\<rparr>) = Some (k\<lparr>kc_cells := [y'], kc_heads := [last xs + 1]\<rparr>) \<and>
    thinner z' y' \<and> thinner y' c'"
proof -
  note K = window_okD[OF k]
  let ?c = "kc_cells k ! 0"
  have b: "\<forall>i \<in> set xs. i < cells_size ?c" using fit by (auto simp: slot_takes_def)
  have sz: "cells_size z = cells_size ?c" "cells_size y = cells_size ?c" using z(1) y(2) by (auto simp: thinner_def)
  have "cell_at y i = cell_at ?c i" if "i \<in> set xs" for i
    using y z(2) b that sz by (intro thin_antisym) (auto simp: thinner_def)
  note S = thinner_slot[OF fit sz(2) this]
  have "window_ok (k\<lparr>kc_cells := [y], kc_heads := [kc_heads k ! 0]\<rparr>)" by (rule window_ok_put[OF k]) (use y(2) K(8,10) in \<open>auto simp: thinner_def\<close>)
  moreover have "k\<lparr>kc_cells := [y], kc_heads := [kc_heads k ! 0]\<rparr> = k\<lparr>kc_cells := [y]\<rparr>" using K(5) by simp
  ultimately have "window_ok (k\<lparr>kc_cells := [y]\<rparr>)" by metis
  from window_apply[OF this _ v] S obtain y' where
    y': "apply_ubatch si ub (k\<lparr>kc_cells := [y]\<rparr>) = Some (k\<lparr>kc_cells := [y'], kc_heads := [last xs + 1]\<rparr>)"
    "taken ub xs (purge_cell (evicted ?c xs)) y y'" by fastforce
  with taken_between[OF t z' sz(1) z(2) y y'(2) b] show ?thesis by blast
qed

lemma place_window:
  assumes "window_ok k" "\<forall>ub \<in> set ubs. ubatch_for k ub"
  shows "\<exists>success new kf z. place_ubatches ubs states k = Some (success, states @ new, kf) \<and>
    ofold restore_state (rev new) kf = Some (k\<lparr>kc_cells := [z]\<rparr>) \<and> thinner z (kc_cells k ! 0) \<and>
    (\<forall>ps \<in> set new. si_strm (ps_sinfo ps) = [0]) \<and> (success \<longrightarrow> length new = length ubs \<and> placed_run k ubs kf \<and>
      (\<forall>y. thinner z y \<and> thinner y (kc_cells k ! 0) \<longrightarrow> apply_all (map ps_sinfo new) ubs (k\<lparr>kc_cells := [y]\<rparr>) = Some kf))"
  using assms
proof (induction ubs arbitrary: states k)
  case Nil
  note K = window_okD[OF Nil(1)]
  have "k\<lparr>kc_cells := [kc_cells k ! 0]\<rparr> = k" using K(4) by simp
  moreover have "thinner (kc_cells k ! 0) y \<Longrightarrow> thinner y (kc_cells k ! 0) \<Longrightarrow> y = kc_cells k ! 0" for y
    using thinner_antisym[OF K(6)] by blast
  ultimately show ?case using thinner_refl[OF K(6)]
    by (intro exI[of _ True] exI[of _ "[]"] exI[of _ k] exI[of _ "kc_cells k ! 0"]) (auto simp: apply_all_def intro: placed_done)
next
  case (Cons ub ubs)
  note K = window_okD[OF Cons.prems(1)]
  let ?c = "kc_cells k ! 0"
  have v: "ubatch_valid ub" using Cons.prems(2) by (simp add: ubatch_for_def)
  obtain si where si: "find_slot k ub False = Some si"
    and alt: "slot_empty si \<or> \<not> slot_empty si \<and> (\<exists>xs. slot_takes ?c ub si xs \<and> slot_usable k xs)"
    using window_find_slot[OF Cons.prems(1), of ub] Cons.prems(2) by auto
  show ?case
  proof (cases "slot_empty si")
    case True
    have "k\<lparr>kc_cells := [?c]\<rparr> = k" using K(4) by simp
    with True si show ?thesis using thinner_refl[OF K(6)] by (intro exI[of _ False] exI[of _ "[]"] exI[of _ k] exI[of _ ?c]) simp
  next
    case False
    with alt obtain xs where fit: "slot_takes ?c ub si xs" and us: "slot_usable k xs" by auto
    obtain c' where c': "apply_ubatch si ub k = Some (k\<lparr>kc_cells := [c'], kc_heads := [last xs + 1]\<rparr>)"
      "taken ub xs (purge_cell (evicted ?c xs)) ?c c'" "window_ok (k\<lparr>kc_cells := [c'], kc_heads := [last xs + 1]\<rparr>)"
      using window_apply[OF Cons.prems(1) fit v] by blast
    let ?k' = "k\<lparr>kc_cells := [c'], kc_heads := [last xs + 1]\<rparr>"
    obtain saved where saved: "save_cells k (zip (si_strm si) (si_idxs si)) = Some saved"
      using restore_thinned[OF Cons.prems(1) fit c'(2) thinner_refl] c'(2) unfolding taken_def by blast
    let ?ps = "\<lparr>ps_sinfo = si, ps_heads_old = kc_heads k, ps_cells = saved\<rparr>"
    have "\<forall>ub \<in> set ubs. ubatch_for ?k' ub" using Cons.prems(2) by (simp add: ubatch_for_def)
    have comm: "?k'\<lparr>kc_cells := [y]\<rparr> = k\<lparr>kc_cells := [y], kc_heads := [last xs + 1]\<rparr>" "kc_cells ?k' ! 0 = c'" for y by simp_all
    from Cons.IH[OF c'(3) \<open>\<forall>ub \<in> set ubs. ubatch_for ?k' ub\<close>, of "states @ [?ps]", unfolded comm] obtain success new kf z' where
      IH: "place_ubatches ubs (states @ [?ps]) ?k' = Some (success, (states @ [?ps]) @ new, kf)"
      "ofold restore_state (rev new) kf = Some (k\<lparr>kc_cells := [z'], kc_heads := [last xs + 1]\<rparr>)" "thinner z' c'"
      "\<forall>ps \<in> set new. si_strm (ps_sinfo ps) = [0]" "success \<longrightarrow> length new = length ubs \<and> placed_run ?k' ubs kf \<and>
        (\<forall>y. thinner z' y \<and> thinner y c' \<longrightarrow> apply_all (map ps_sinfo new) ubs (k\<lparr>kc_cells := [y], kc_heads := [last xs + 1]\<rparr>) = Some kf)"
      by blast
    obtain z where z: "restore_state ?ps (k\<lparr>kc_cells := [z'], kc_heads := [last xs + 1]\<rparr>) = Some (k\<lparr>kc_cells := [z]\<rparr>)" "thinner z ?c"
      "\<forall>i < cells_size ?c. cell_at z i = (if i \<in> set xs then cell_at ?c i else cell_at z' i)"
      using restore_thinned[OF Cons.prems(1) fit c'(2) IH(3)] saved by fastforce
    have "place_ubatches (ub # ubs) states k = Some (success, states @ (?ps # new), kf)" using si False saved c'(1) IH(1) by simp
    moreover have "ofold restore_state (rev (?ps # new)) kf = Some (k\<lparr>kc_cells := [z]\<rparr>)" using IH(2) z(1) by (simp add: ofold_append)
    moreover have "apply_all (map ps_sinfo (?ps # new)) (ub # ubs) (k\<lparr>kc_cells := [y]\<rparr>) = Some kf"
      if "success" "thinner z y" "thinner y ?c" for y
      using apply_between[OF Cons.prems(1) fit v c'(2) IH(3) z(2,3) that(2,3)] IH(5) that(1) by (auto simp: apply_all_Cons)
    moreover have "success \<longrightarrow> placed_run k (ub # ubs) kf" using IH(5) placed_more[OF Cons.prems(1) fit us v c'(2)] by blast
    moreover have "\<forall>ps \<in> set (?ps # new). si_strm (ps_sinfo ps) = [0]" using IH(4) fit by (simp add: slot_takes_def)
    ultimately show ?thesis using z(2) IH(5) by (intro exI[of _ success] exI[of _ "?ps # new"] exI[of _ kf] exI[of _ z]) auto
  qed
qed

text \<open>\<open>prepare\<close> on a cache with a window, with the states that the slots lead through.\<close>

lemma prepare_window:
  assumes k: "window_ok k" and ubs: "\<forall>ub \<in> set ubs. ubatch_for k ub" "ubs \<noteq> []"
  shows "\<exists>sinfos z. prepare ubs k = Some (sinfos, k\<lparr>kc_cells := [z]\<rparr>) \<and> thinner z (kc_cells k ! 0) \<and>
    (\<forall>si \<in> set sinfos. si_strm si = [0]) \<and> (sinfos \<noteq> [] \<longrightarrow> length sinfos = length ubs \<and> (\<exists>kf. placed_run k ubs kf \<and>
      apply_all sinfos ubs k = Some kf \<and> apply_all sinfos ubs (k\<lparr>kc_cells := [z]\<rparr>) = Some kf))"
proof -
  note K = window_okD[OF k]
  obtain success new kf z where *: "place_ubatches ubs [] k = Some (success, new, kf)"
    "ofold restore_state (rev new) kf = Some (k\<lparr>kc_cells := [z]\<rparr>)" "thinner z (kc_cells k ! 0)"
    "\<forall>ps \<in> set new. si_strm (ps_sinfo ps) = [0]" "success \<longrightarrow> length new = length ubs \<and> placed_run k ubs kf \<and>
      (\<forall>y. thinner z y \<and> thinner y (kc_cells k ! 0) \<longrightarrow> apply_all (map ps_sinfo new) ubs (k\<lparr>kc_cells := [y]\<rparr>) = Some kf)"
    using place_window[OF k ubs(1), of "[]"] by auto
  have "new \<noteq> [] \<or> \<not> success" using *(5) ubs(2) by auto
  then have "prepare ubs k = Some (if success then map ps_sinfo new else [], k\<lparr>kc_cells := [z]\<rparr>)" using * by (auto simp: prepare_def)
  moreover have "k\<lparr>kc_cells := [kc_cells k ! 0]\<rparr> = k" using K(4) by simp
  moreover have "success \<Longrightarrow> apply_all (map ps_sinfo new) ubs (k\<lparr>kc_cells := [kc_cells k ! 0]\<rparr>) = Some kf"
    using *(3,5) thinner_refl[OF K(6)] by blast
  moreover have "success \<Longrightarrow> apply_all (map ps_sinfo new) ubs (k\<lparr>kc_cells := [z]\<rparr>) = Some kf"
    using *(3,5) thinner_refl[of z] by (auto simp: thinner_def)
  ultimately show ?thesis using *(3-5) by auto
qed

lemma window_ok_thin:
  assumes k: "window_ok k" and z: "thinner z (kc_cells k ! 0)"
  shows "window_ok (k\<lparr>kc_cells := [z]\<rparr>)"
proof -
  note K = window_okD[OF k]
  have "window_ok (k\<lparr>kc_cells := [z], kc_heads := [kc_heads k ! 0]\<rparr>)" using z K(8,10) by (intro window_ok_put[OF k]) (auto simp: thinner_def)
  moreover have "k\<lparr>kc_cells := [z], kc_heads := [kc_heads k ! 0]\<rparr> = k\<lparr>kc_cells := [z]\<rparr>" using K(5) by simp
  ultimately show ?thesis by metis
qed

lemma window_positions: "window_ok k \<Longrightarrow> cache_positions k t = (if t < LLAMA_MAX_SEQ then seq_positions (kc_cells k ! 0) t else {})"
  using window_okD(7)[of k] window_okD(9)[of k t] by (auto simp: cache_positions_def)

text \<open>
  C20: \<open>prepare\<close> is a dry run. On a unified cache without pending shifts and for valid ubatches it
  does not abort. Without a sliding window the cache is afterwards exactly what it was; with a
  window, sequences may have lost positions, but if a slot was found for every ubatch, then
  applying the slots in order to the cache that \<open>prepare\<close> leaves behind gives exactly the cache
  that applying them to the cache before gives.
\<close>

theorem prepare_dry_run:
  assumes k: "window_ok k" and ubs: "\<forall>ub \<in> set ubs. ubatch_for k ub" "ubs \<noteq> []"
  shows "\<exists>sinfos k'. prepare ubs k = Some (sinfos, k') \<and> (kc_swa_type k = SWA_NONE \<longrightarrow> k' = k) \<and> window_ok k' \<and>
    (\<forall>t. cache_positions k' t \<subseteq> cache_positions k t) \<and>
    (sinfos = [] \<or> length sinfos = length ubs \<and>
      (\<exists>kf. apply_all sinfos ubs k' = Some kf \<and> apply_all sinfos ubs k = Some kf \<and> window_ok kf))"
proof -
  obtain sinfos z where p: "prepare ubs k = Some (sinfos, k\<lparr>kc_cells := [z]\<rparr>)" and z: "thinner z (kc_cells k ! 0)"
    and r: "sinfos \<noteq> [] \<longrightarrow> length sinfos = length ubs \<and> (\<exists>kf. placed_run k ubs kf \<and>
      apply_all sinfos ubs k = Some kf \<and> apply_all sinfos ubs (k\<lparr>kc_cells := [z]\<rparr>) = Some kf)"
    using prepare_window[OF assms] by blast
  note w = window_ok_thin[OF k z]
  have "k\<lparr>kc_cells := [z]\<rparr> = k" if "kc_swa_type k = SWA_NONE"
    using prepare_restores[OF _ ubs] p that k by (auto simp: plain_cache_def window_ok_def)
  moreover have "cache_positions (k\<lparr>kc_cells := [z]\<rparr>) t \<subseteq> cache_positions k t" for t
    using thinner_positions[OF z] by (simp add: window_positions[OF k] window_positions[OF w])
  ultimately show ?thesis using p w r placed_run_ok[OF _ k] by blast
qed

section \<open>What the window keeps\<close>

definition ub_positions :: "llama_ubatch \<Rightarrow> nat \<Rightarrow> llama_pos set" where
  "ub_positions ub t = {ub_pos ub ! i | i. i < ub_n_tokens ub \<and> int t \<in> set (ub_seqs ub i)}"

lemma masked_mono:
  assumes "is_masked_swa n ty p m = Some True" "0 \<le> q" "q \<le> p" "p < m" "m \<le> m'"
  shows "is_masked_swa n ty q m' = Some True"
proof (cases ty)
  case SWA_CHUNKED
  then have n: "n \<noteq> 0" "p < (m div int n) * int n" using assms by (auto simp: is_masked_swa_def split: if_splits)
  have "m div int n \<le> m' div int n" using assms(5) n(1) by (simp add: zdiv_mono1)
  then have "(m div int n) * int n \<le> (m' div int n) * int n" by (rule mult_right_mono) simp
  then have "q < (m' div int n) * int n" using n(2) assms(3) by linarith
  then show ?thesis using SWA_CHUNKED n(1) assms(2-5) by (simp add: is_masked_swa_def)
qed (use assms in \<open>auto simp: is_masked_swa_def\<close>)

lemma evicted_masked:
  assumes k: "window_ok k" and us: "slot_usable k xs" and fit: "slot_takes (kc_cells k ! 0) ub si xs" and e: "evicted (kc_cells k ! 0) xs t \<noteq> -1"
  shows "evicted (kc_cells k ! 0) xs t \<in> seq_positions (kc_cells k ! 0) t"
    "is_masked_swa (kc_n_swa k) (kc_swa_type k) (evicted (kc_cells k ! 0) xs t) (Max (seq_positions (kc_cells k ! 0) t) + 1) = Some True"
proof -
  note K = window_okD[OF k]
  obtain i where i: "i \<in> set xs" "c_seq (kc_cells k ! 0) ! i = {t}" "evicted (kc_cells k ! 0) xs t = c_pos (kc_cells k ! 0) ! i"
    using evicted_from[OF e] by blast
  have il: "i < cells_size (kc_cells k ! 0)" using fit i by (auto simp: slot_takes_def)
  then show "evicted (kc_cells k ! 0) xs t \<in> seq_positions (kc_cells k ! 0) t" using i by (auto simp: seq_positions_def cells_size_def)
  have "c_pos (kc_cells k ! 0) ! i \<noteq> -1" using i e by simp
  then show "is_masked_swa (kc_n_swa k) (kc_swa_type k) (evicted (kc_cells k ! 0) xs t) (Max (seq_positions (kc_cells k ! 0) t) + 1) = Some True"
    using usable_cell[OF K(6) il] us i by (auto simp: slot_usable_def)
qed

text \<open>The positions of a sequence after a ubatch went in.\<close>

lemma taken_positions:
  assumes k: "window_ok k" and fit: "slot_takes (kc_cells k ! 0) ub si xs" and v: "ubatch_valid ub"
    and t: "taken ub xs (purge_cell (evicted (kc_cells k ! 0) xs)) (kc_cells k ! 0) c"
  shows "seq_positions c s = {p \<in> seq_positions (kc_cells k ! 0) s \<union> ub_positions ub s. evicted (kc_cells k ! 0) xs s < p}"
proof -
  note K = window_okD[OF k]
  let ?c = "kc_cells k ! 0" and ?rm = "evicted (kc_cells k ! 0) xs"
  have sz: "cells_size c = cells_size ?c" using t by (simp add: taken_def)
  have xs: "length xs = ub_n_tokens ub" "\<And>i. i \<in> set xs \<Longrightarrow> i < cells_size ?c" "\<And>i. i \<in> set xs \<Longrightarrow> c_pos ?c ! i = -1 \<or> card (c_seq ?c ! i) = 1"
    using fit by (auto simp: slot_takes_def)
  have tok: "s \<in> cell_seqs (cell_at c (xs ! i)) \<longleftrightarrow> int s \<in> set (ub_seqs ub i) \<and> ?rm s < ub_pos ub ! i"
    "s \<in> cell_seqs (cell_at c (xs ! i)) \<Longrightarrow> fst (cell_at c (xs ! i)) = ub_pos ub ! i" if i: "i < length xs" for i
  proof -
    have "\<forall>u \<in> set (ub_seqs ub i). 0 \<le> u" using v i xs(1) by (auto simp: ubatch_valid_def token_valid_def valid_seq_id_def)
    then have "s \<in> nat ` set (ub_seqs ub i) \<longleftrightarrow> int s \<in> set (ub_seqs ub i)" by (force simp: image_iff)
    moreover have at: "cell_at c (xs ! i) = purge_cell ?rm (tok_cell ub i (cell_at ?c (xs ! i)))" using t i by (simp add: taken_def)
    moreover have "fst (tok_cell ub i x) = ub_pos ub ! i" "cell_seqs (tok_cell ub i x) = nat ` set (ub_seqs ub i)" for x
      by (auto simp: tok_cell_def split: prod.splits)
    ultimately show "s \<in> cell_seqs (cell_at c (xs ! i)) \<longleftrightarrow> int s \<in> set (ub_seqs ub i) \<and> ?rm s < ub_pos ub ! i"
      "s \<in> cell_seqs (cell_at c (xs ! i)) \<Longrightarrow> fst (cell_at c (xs ! i)) = ub_pos ub ! i"
      using purge_cell_seqs[of s ?rm "tok_cell ub i (cell_at ?c (xs ! i))"] by simp_all
  qed
  have old: "s \<in> cell_seqs (cell_at c j) \<longleftrightarrow> s \<in> cell_seqs (cell_at ?c j) \<and> ?rm s < fst (cell_at ?c j)"
    "s \<in> cell_seqs (cell_at c j) \<Longrightarrow> fst (cell_at c j) = fst (cell_at ?c j)" if "j < cells_size ?c" "j \<notin> set xs" for j
    using t that purge_cell_seqs[of s ?rm "cell_at ?c j"] by (auto simp: taken_def)
  have gone: "fst (cell_at ?c j) \<le> ?rm s" if "j \<in> set xs" "s \<in> cell_seqs (cell_at ?c j)" for j
  proof -
    have "c_pos ?c ! j \<noteq> -1" using that cells_okD(9)[OF K(6), of j] xs(2)[of j] by (auto simp: cell_at_def cells_size_def)
    then have "c_seq ?c ! j = {s}" using xs(3)[OF that(1)] that(2) by (auto simp: card_1_singleton_iff cell_at_def)
    then show ?thesis using evicted_ge(2)[OF that(1)] by (simp add: cell_at_def)
  qed
  show ?thesis
  proof (intro set_eqI iffI)
    fix p assume "p \<in> seq_positions c s"
    then obtain j where j: "j < cells_size ?c" "p = fst (cell_at c j)" "s \<in> cell_seqs (cell_at c j)" unfolding seq_positions_cell sz by blast
    show "p \<in> {p \<in> seq_positions ?c s \<union> ub_positions ub s. ?rm s < p}"
    proof (cases "j \<in> set xs")
      case True
      then obtain i where "i < length xs" "j = xs ! i" by (auto simp: in_set_conv_nth)
      then show ?thesis using j tok[of i] xs(1) by (auto simp: ub_positions_def)
    next
      case False
      then show ?thesis using j old[OF j(1) False] by (auto simp: seq_positions_cell)
    qed
  next
    fix p assume p: "p \<in> {p \<in> seq_positions ?c s \<union> ub_positions ub s. ?rm s < p}"
    show "p \<in> seq_positions c s"
    proof (cases "p \<in> seq_positions ?c s")
      case True
      then obtain j where j: "j < cells_size ?c" "p = fst (cell_at ?c j)" "s \<in> cell_seqs (cell_at ?c j)" unfolding seq_positions_cell by blast
      have "j \<notin> set xs" using gone[of j] j p by auto
      then show ?thesis using old[OF j(1)] j p sz unfolding seq_positions_cell by (auto intro!: exI[of _ j])
    next
      case False
      then obtain i where "i < length xs" "p = ub_pos ub ! i" "int s \<in> set (ub_seqs ub i)" using p xs(1) by (auto simp: ub_positions_def)
      then show ?thesis using tok[of i] p xs(2)[of "xs ! i"] sz unfolding seq_positions_cell by (auto intro!: exI[of _ "xs ! i"])
    qed
  qed
qed

text \<open>
  At the end of a chunk the whole chunk is masked, its last position too. A sequence that pauses
  there can lose that cell to the tokens of other sequences, and then it is not in the cache at
  all any more.
\<close>

lemma chunk_end_masked: "\<lbrakk>0 < n; 0 \<le> m; int n dvd m + 1\<rbrakk> \<Longrightarrow> is_masked_swa n SWA_CHUNKED m (m + 1) = Some True"
  by (simp add: is_masked_swa_def)

lemma last_cell_taken:
  assumes k: "window_ok k" and fit: "slot_takes (kc_cells k ! 0) ub si xs" and v: "ubatch_valid ub"
    and t: "taken ub xs (purge_cell (evicted (kc_cells k ! 0) xs)) (kc_cells k ! 0) c"
    and i: "i \<in> set xs" "c_seq (kc_cells k ! 0) ! i = {s}" "c_pos (kc_cells k ! 0) ! i = Max (seq_positions (kc_cells k ! 0) s)" and u: "ub_positions ub s = {}"
  shows "seq_positions c s = {}"
proof -
  have "p \<le> evicted (kc_cells k ! 0) xs s" if "p \<in> seq_positions (kc_cells k ! 0) s" for p
    using Max_ge[OF kv_cells.positions_finite[OF window_okD(6)[OF k]] that] evicted_ge(2)[OF i(1,2)] i(3) by simp
  then show ?thesis unfolding taken_positions[OF k fit v t] using u by force
qed

section \<open>An example\<close>

lemma occ_window: "occ window_cells s p = (if s = 0 \<and> 0 \<le> p \<and> p < 3 then {nat p} else {})"
  by (auto simp: occ_def window_cells_def nth_Cons' less_Suc_eq numeral_3_eq_3 split: if_splits)

lemma window_cells_ok: "cells_ok window_cells"
proof -
  have sp: "c_seq_pos window_cells s = (if s = 0 then [(0, 1), (1, 1), (2, 1)] else [])" for s by (simp add: window_cells_def)
  have "counter_tracks (c_seq_pos window_cells s) (\<lambda>p. card (occ window_cells s p))" for s
    unfolding sp occ_window by (cases "s = 0") (auto simp: counter_tracks_def smap_ok_def sset_ok_def fun_eq_iff)
  moreover have "shape_ok window_cells" "used_ok window_cells"
    by (auto simp: shape_ok_def used_ok_def window_cells_def sset_ok_def nth_Cons' LLAMA_MAX_SEQ_def split: if_splits)
  ultimately show ?thesis by (simp add: cells_ok_def track_ok_def)
qed

lemma window_example: "window_ok window_cache" "ubatch_for window_cache window_ubatch"
  using window_cells_ok
  by (auto simp: window_ok_def cache_ok_def swa_ok_def window_cache_def example_cache_def window_cells_def cells_size_def
     ubatch_for_def ubatch_valid_def token_valid_def ub_seqs_def window_ubatch_def example_ubatch_def valid_seq_id_def LLAMA_MAX_SEQ_def)

theorem prepare_dry_run_witness:
  "\<exists>sinfos k'. prepare [window_ubatch] window_cache = Some (sinfos, k') \<and> cache_positions k' 0 \<subseteq> cache_positions window_cache 0 \<and>
     (sinfos = [] \<or> (\<exists>kf. apply_all sinfos [window_ubatch] k' = Some kf \<and> apply_all sinfos [window_ubatch] window_cache = Some kf))"
  using prepare_dry_run[OF window_example(1), of "[window_ubatch]"] window_example(2) by auto

end
