(* ===== verification/Kv_Iswa.thy ===== *)
theory Kv_Iswa
  imports Kv_Window Kv_State
begin

text \<open>
  The KV cache of models that mix full and sliding-window attention
  (\<open>src/src/llama-kv-cache-iswa.cpp\<close>): two caches, \<open>kv_base\<close> for the layers with full attention
  and \<open>kv_swa\<close> for the layers with a window. Every operation goes to both; the extremes of a
  sequence are read from the second one alone. As for the single cache, \<open>None\<close> is a failed
  assertion or a use of a null pointer. \<open>seq_rm\<close> returns true on every path, and so does
  \<open>apply\<close> of a context; these results are left out. \<open>memory_breakdown\<close> and the \<open>data\<close> flag of
  \<open>clear\<close> concern the buffers only.
\<close>

section \<open>Construction\<close>

record llama_kv_cache_iswa =
  iw_unified :: bool
  iw_base :: llama_kv_cache
  iw_swa :: llama_kv_cache

text \<open>The filters that distribute the layers; \<open>None\<close> is the empty callback.\<close>

definition iswa_filter_base :: "(int \<Rightarrow> bool) option \<Rightarrow> (int \<Rightarrow> bool) \<Rightarrow> int \<Rightarrow> bool" where
  "iswa_filter_base flt is_swa il = (if (case flt of None \<Rightarrow> False | Some f \<Rightarrow> \<not> f il) then False else \<not> is_swa il)"

definition iswa_filter_swa :: "(int \<Rightarrow> bool) option \<Rightarrow> (int \<Rightarrow> bool) \<Rightarrow> int \<Rightarrow> bool" where
  "iswa_filter_swa flt is_swa il = (if (case flt of None \<Rightarrow> False | Some f \<Rightarrow> \<not> f il) then False else is_swa il)"

text \<open>
  The size of the cache with the window, in \<open>uint32_t\<close> arithmetic: as many cells as all windows
  and one ubatch take, at most the size of the other cache, rounded up by \<open>GGML_PAD\<close> to a
  multiple of 256.
\<close>

definition iswa_size_swa :: "bool \<Rightarrow> bool \<Rightarrow> nat \<Rightarrow> nat \<Rightarrow> nat \<Rightarrow> nat \<Rightarrow> nat" where
  "iswa_size_swa swa_full unified kv_size n_seq_max n_ubatch n_swa =
    (let x = min kv_size ((n_swa * (if unified then n_seq_max else 1) + n_ubatch) mod 2 ^ 32);
         y = (x + 256 - 1) mod 2 ^ 32
     in if swa_full then kv_size else y - y mod 256)"

definition iswa_new :: "bool \<Rightarrow> bool \<Rightarrow> nat \<Rightarrow> nat \<Rightarrow> nat \<Rightarrow> nat \<Rightarrow> nat \<Rightarrow> llama_swa_type \<Rightarrow> nat \<Rightarrow> llama_kv_cache_iswa option" where
  "iswa_new swa_full unified kv_size n_seq_max n_ubatch n_pad n_swa swa_type n_pos = do {
     base \<leftarrow> cache_new unified kv_size n_seq_max n_pad 0 SWA_NONE n_pos;
     swa \<leftarrow> cache_new unified (iswa_size_swa swa_full unified kv_size n_seq_max n_ubatch n_swa) n_seq_max n_pad n_swa swa_type n_pos;
     Some \<lparr>iw_unified = unified, iw_base = base, iw_swa = swa\<rparr> }"

section \<open>Sequence operations\<close>

definition iswa_clear :: "llama_kv_cache_iswa \<Rightarrow> llama_kv_cache_iswa" where
  "iswa_clear kv = kv\<lparr>iw_base := cache_clear (iw_base kv), iw_swa := cache_clear (iw_swa kv)\<rparr>"

text \<open>The same call to the base cache and then to the other one.\<close>

definition both :: "(llama_kv_cache \<Rightarrow> llama_kv_cache option) \<Rightarrow> llama_kv_cache_iswa \<Rightarrow> llama_kv_cache_iswa option" where
  "both f kv = do {
     base \<leftarrow> f (iw_base kv);
     swa \<leftarrow> f (iw_swa kv);
     Some (kv\<lparr>iw_base := base, iw_swa := swa\<rparr>) }"

definition iswa_seq_rm :: "llama_seq_id \<Rightarrow> llama_pos \<Rightarrow> llama_pos \<Rightarrow> llama_kv_cache_iswa \<Rightarrow> llama_kv_cache_iswa option" where
  "iswa_seq_rm seq_id p0 p1 kv = both (cache_seq_rm seq_id p0 p1) kv"

definition iswa_seq_cp :: "llama_seq_id \<Rightarrow> llama_seq_id \<Rightarrow> llama_pos \<Rightarrow> llama_pos \<Rightarrow> llama_kv_cache_iswa \<Rightarrow> llama_kv_cache_iswa option" where
  "iswa_seq_cp src dst p0 p1 kv = both (cache_seq_cp src dst p0 p1) kv"

definition iswa_seq_keep :: "llama_seq_id \<Rightarrow> llama_kv_cache_iswa \<Rightarrow> llama_kv_cache_iswa option" where
  "iswa_seq_keep seq_id kv = both (cache_seq_keep seq_id) kv"

definition iswa_seq_add :: "llama_seq_id \<Rightarrow> llama_pos \<Rightarrow> llama_pos \<Rightarrow> llama_pos \<Rightarrow> llama_kv_cache_iswa \<Rightarrow> llama_kv_cache_iswa option" where
  "iswa_seq_add seq_id p0 p1 shift kv = both (cache_seq_add seq_id p0 p1 shift) kv"

definition iswa_seq_div :: "llama_seq_id \<Rightarrow> llama_pos \<Rightarrow> llama_pos \<Rightarrow> int \<Rightarrow> llama_kv_cache_iswa \<Rightarrow> llama_kv_cache_iswa option" where
  "iswa_seq_div seq_id p0 p1 d kv = both (cache_seq_div seq_id p0 p1 d) kv"

definition iswa_seq_pos_min :: "llama_seq_id \<Rightarrow> llama_kv_cache_iswa \<Rightarrow> llama_pos option" where
  "iswa_seq_pos_min seq_id kv = cache_seq_pos_min seq_id (iw_swa kv)"

definition iswa_seq_pos_max :: "llama_seq_id \<Rightarrow> llama_kv_cache_iswa \<Rightarrow> llama_pos option" where
  "iswa_seq_pos_max seq_id kv = cache_seq_pos_max seq_id (iw_swa kv)"

text \<open>\<open>get_can_shift\<close> of one cache depends on the architecture of the model (\<open>step35\<close>) and on the
  number of positions per token; the two caches must also have the same size.\<close>

definition cache_get_can_shift :: "bool \<Rightarrow> llama_kv_cache \<Rightarrow> bool" where
  "cache_get_can_shift step35 k = (if step35 then False else if kc_n_pos k > 1 then False else True)"

definition iswa_get_can_shift :: "bool \<Rightarrow> llama_kv_cache_iswa \<Rightarrow> bool option" where
  "iswa_get_can_shift step35 kv =
    (if cache_get_can_shift step35 (iw_base kv) \<and> cache_get_can_shift step35 (iw_swa kv) then do {
       a \<leftarrow> cache_get_size (iw_base kv);
       b \<leftarrow> cache_get_size (iw_swa kv);
       Some (a = b) }
     else Some False)"

section \<open>Contexts\<close>

record llama_kv_cache_iswa_context =
  ix_i_next :: nat
  ix_ubatches :: "llama_ubatch list"
  ix_base :: "llama_kv_cache_context option"
  ix_swa :: "llama_kv_cache_context option"
  ix_status :: llama_memory_status

definition iswa_context_status :: "llama_memory_status \<Rightarrow> llama_kv_cache_iswa_context" where
  "iswa_context_status status = \<lparr>ix_i_next = 0, ix_ubatches = [], ix_base = None, ix_swa = None, ix_status = status\<rparr>"

definition iswa_context_of :: "llama_ubatch list \<Rightarrow> llama_kv_cache_context \<Rightarrow> llama_kv_cache_context \<Rightarrow> llama_kv_cache_iswa_context" where
  "iswa_context_of ubatches base swa = \<lparr>ix_i_next = 0, ix_ubatches = ubatches, ix_base = Some base, ix_swa = Some swa,
     ix_status = llama_memory_status_combine (cx_status base) (cx_status swa)\<rparr>"

definition iswa_init_full :: "llama_kv_cache_iswa \<Rightarrow> llama_kv_cache_iswa_context option" where
  "iswa_init_full kv = do {
     base \<leftarrow> context_full (iw_base kv);
     swa \<leftarrow> context_full (iw_swa kv);
     Some (iswa_context_of [] base swa) }"

definition iswa_init_update :: "llama_kv_cache_iswa \<Rightarrow> (llama_kv_cache_iswa_context \<times> llama_kv_cache_iswa) option" where
  "iswa_init_update kv = do {
     (x_base, base) \<leftarrow> cache_init_update (iw_base kv);
     (x_swa, swa) \<leftarrow> cache_init_update (iw_swa kv);
     Some (iswa_context_of [] x_base x_swa, kv\<lparr>iw_base := base, iw_swa := swa\<rparr>) }"

definition iswa_context_batch :: "slot_info list \<Rightarrow> slot_info list \<Rightarrow> llama_ubatch list \<Rightarrow> llama_kv_cache_iswa_context" where
  "iswa_context_batch sinfos_base sinfos_swa ubatches =
     iswa_context_of ubatches (context_batch sinfos_base ubatches) (context_batch sinfos_swa ubatches)"

text \<open>One attempt of \<open>init_batch\<close> with the given way to split; no context when it breaks off.\<close>

definition iswa_try :: "(llama_batch_allocr \<Rightarrow> llama_ubatch \<times> llama_batch_allocr) \<Rightarrow> llama_batch_allocr \<Rightarrow> llama_kv_cache_iswa \<Rightarrow>
    (llama_kv_cache_iswa_context option \<times> llama_batch_allocr \<times> llama_kv_cache_iswa) option" where
  "iswa_try split balloc kv = do {
     (ubatches, balloc) \<leftarrow> split_loop split (split_reset balloc);
     if allocr_get_n_used balloc < allocr_get_n_tokens balloc then Some (None, balloc, kv)
     else do {
       (sinfos_base, base) \<leftarrow> prepare ubatches (iw_base kv);
       let kv = kv\<lparr>iw_base := base\<rparr>;
       if sinfos_base = [] then Some (None, balloc, kv)
       else do {
         (sinfos_swa, swa) \<leftarrow> prepare ubatches (iw_swa kv);
         let kv = kv\<lparr>iw_swa := swa\<rparr>;
         if sinfos_swa = [] then Some (None, balloc, kv)
         else do {
           assert_that (length sinfos_base = length sinfos_swa);
           Some (Some (iswa_context_batch sinfos_base sinfos_swa ubatches), balloc, kv) } } } }"

definition iswa_init_batch :: "nat \<Rightarrow> llama_batch_allocr \<Rightarrow> llama_kv_cache_iswa \<Rightarrow>
    (llama_kv_cache_iswa_context \<times> llama_batch_allocr \<times> llama_kv_cache_iswa) option" where
  "iswa_init_batch n_ubatch balloc kv = do {
     (r, balloc, kv) \<leftarrow> (if \<not> iw_unified kv then Some (None, balloc, kv) else iswa_try (split_simple n_ubatch) balloc kv);
     case r of
       Some x \<Rightarrow> Some (x, balloc, kv)
     | None \<Rightarrow> do {
         (r, balloc, kv) \<leftarrow> iswa_try (split_equal n_ubatch (\<not> iw_unified kv)) balloc kv;
         case r of
           Some x \<Rightarrow> Some (x, balloc, kv)
         | None \<Rightarrow> Some (iswa_context_status LLAMA_MEMORY_STATUS_FAILED_PREPARE, balloc, kv) } }"

definition iswa_context_next :: "llama_kv_cache_iswa_context \<Rightarrow> (bool \<times> llama_kv_cache_iswa_context) option" where
  "iswa_context_next x = do {
     assert_that (ix_status x = LLAMA_MEMORY_STATUS_SUCCESS);
     base \<leftarrow> ix_base x;
     (_, base) \<leftarrow> context_next base;
     swa \<leftarrow> ix_swa x;
     (_, swa) \<leftarrow> context_next swa;
     let x = x\<lparr>ix_base := Some base, ix_swa := Some swa, ix_i_next := ix_i_next x + 1\<rparr>;
     Some (if ix_i_next x \<ge> length (ix_ubatches x) then False else True, x) }"

text \<open>The parameters of \<open>context_apply\<close> are those of an update; the graph of each cache is computed on its own.\<close>

definition iswa_context_apply :: "bool \<Rightarrow> bool \<Rightarrow> bool \<times> bool \<Rightarrow> llama_kv_cache_iswa_context \<Rightarrow> llama_kv_cache_iswa \<Rightarrow>
    (llama_kv_cache_iswa_context \<times> llama_kv_cache_iswa) option" where
  "iswa_context_apply step35 uses_rope computed x kv = do {
     assert_that (\<not> llama_memory_status_is_fail (ix_status x));
     x_base \<leftarrow> ix_base x;
     (x_base, base) \<leftarrow> context_apply (cache_get_can_shift step35 (iw_base kv)) uses_rope (fst computed) x_base (iw_base kv);
     x_swa \<leftarrow> ix_swa x;
     (x_swa, swa) \<leftarrow> context_apply (cache_get_can_shift step35 (iw_swa kv)) uses_rope (snd computed) x_swa (iw_swa kv);
     Some (x\<lparr>ix_base := Some x_base, ix_swa := Some x_swa\<rparr>, kv\<lparr>iw_base := base, iw_swa := swa\<rparr>) }"

definition iswa_context_get_ubatch :: "llama_kv_cache_iswa_context \<Rightarrow> llama_ubatch option" where
  "iswa_context_get_ubatch x = do {
     assert_that (ix_status x = LLAMA_MEMORY_STATUS_SUCCESS);
     vget (ix_ubatches x) (ix_i_next x) }"

definition iswa_context_get_base :: "llama_kv_cache_iswa_context \<Rightarrow> llama_kv_cache_context option" where
  "iswa_context_get_base x = do { assert_that (ix_status x = LLAMA_MEMORY_STATUS_SUCCESS); ix_base x }"

definition iswa_context_get_swa :: "llama_kv_cache_iswa_context \<Rightarrow> llama_kv_cache_context option" where
  "iswa_context_get_swa x = do { assert_that (ix_status x = LLAMA_MEMORY_STATUS_SUCCESS); ix_swa x }"

section \<open>State files\<close>

record iswa_store =
  iws_base :: kv_store
  iws_swa :: kv_store

definition LLAMA_STATE_SEQ_FLAGS_PARTIAL_ONLY :: nat where
  "LLAMA_STATE_SEQ_FLAGS_PARTIAL_ONLY = 1"

definition iswa_state_write :: "iswa_store \<Rightarrow> llama_seq_id \<Rightarrow> nat \<Rightarrow> nat list option" where
  "iswa_state_write st seq_id flags = do {
     w \<leftarrow> (if and flags LLAMA_STATE_SEQ_FLAGS_PARTIAL_ONLY = 0 then state_write (iws_base st) seq_id else Some []);
     v \<leftarrow> state_write (iws_swa st) seq_id;
     Some (w @ v) }"

definition iswa_state_read :: "llama_seq_id \<Rightarrow> nat \<Rightarrow> iswa_store \<Rightarrow> nat list \<Rightarrow> (state_res \<times> iswa_store \<times> nat list) option" where
  "iswa_state_read seq_id flags st io = do {
     (r, base, io) \<leftarrow> (if and flags LLAMA_STATE_SEQ_FLAGS_PARTIAL_ONLY = 0 then state_read seq_id (iws_base st) io
                       else Some (RD_OK, iws_base st, io));
     let st = st\<lparr>iws_base := base\<rparr>;
     if r \<noteq> RD_OK then Some (r, st, io)
     else do {
       (r, swa, io) \<leftarrow> state_read seq_id (iws_swa st) io;
       Some (r, st\<lparr>iws_swa := swa\<rparr>, io) } }"

section \<open>Sizes and layers\<close>

text \<open>Every layer that the filter admits belongs to exactly one of the two caches.\<close>

lemma iswa_filters_partition:
  "(case flt of None \<Rightarrow> True | Some f \<Rightarrow> f il) \<longleftrightarrow> iswa_filter_base flt is_swa il \<noteq> iswa_filter_swa flt is_swa il"
  "\<not> (iswa_filter_base flt is_swa il \<and> iswa_filter_swa flt is_swa il)"
  by (auto simp: iswa_filter_base_def iswa_filter_swa_def split: option.splits)

text \<open>
  The cache with the window holds all windows and a ubatch, or as much as the other cache,
  unless the sizes exceed 32 bits; it is a multiple of 256.
\<close>

lemma iswa_size_swa_enough:
  assumes "\<not> swa_full" "n_swa * (if unified then n_seq_max else 1) + n_ubatch + 255 < 2 ^ 32"
  shows "min kv_size (n_swa * (if unified then n_seq_max else 1) + n_ubatch) \<le> iswa_size_swa swa_full unified kv_size n_seq_max n_ubatch n_swa"
    "iswa_size_swa swa_full unified kv_size n_seq_max n_ubatch n_swa mod 256 = 0"
    "iswa_size_swa swa_full unified kv_size n_seq_max n_ubatch n_swa < min kv_size (n_swa * (if unified then n_seq_max else 1) + n_ubatch) + 256"
proof -
  let ?x = "min kv_size (n_swa * (if unified then n_seq_max else 1) + n_ubatch)"
  have "(n_swa * (if unified then n_seq_max else 1) + n_ubatch) mod 2 ^ 32 = n_swa * (if unified then n_seq_max else 1) + n_ubatch"
    "(?x + 256 - 1) mod 2 ^ 32 = ?x + 255" using assms(2) by auto
  then have eq: "iswa_size_swa swa_full unified kv_size n_seq_max n_ubatch n_swa = (?x + 255) - (?x + 255) mod 256"
    using assms(1) unfolding iswa_size_swa_def Let_def by (simp only: if_False)
  have "(?x + 255) mod 256 \<le> 255" using mod_less_divisor[of 256 "?x + 255"] by simp
  then show "?x \<le> iswa_size_swa swa_full unified kv_size n_seq_max n_ubatch n_swa"
    "iswa_size_swa swa_full unified kv_size n_seq_max n_ubatch n_swa < ?x + 256" unfolding eq by linarith+
  show "iswa_size_swa swa_full unified kv_size n_seq_max n_ubatch n_swa mod 256 = 0"
    unfolding eq by (metis minus_mod_eq_mult_div mod_mult_self1_is_0)
qed

end
