(* ===== verification/Iswa_Inv.thy ===== *)
theory Iswa_Inv
  imports Kv_Iswa
begin

text \<open>
  The relation between the two caches of \<open>llama_kv_cache_iswa\<close> with one stream: every used cell
  of the cache with the window has a counterpart in the base cache, at the same position and
  with at least its sequences. The sequence operations rewrite the cells of both caches in the
  same way; the locale \<open>cover_step\<close> says what such a rewriting must do to keep the relation.
\<close>

section \<open>Caches with one stream\<close>

definition uni_ok :: "llama_kv_cache \<Rightarrow> bool" where
  "uni_ok k \<longleftrightarrow> cache_ok k \<and> kc_n_stream k = 1 \<and> swa_ok k \<and> length (kc_seq_to_stream k) = LLAMA_MAX_SEQ"

abbreviation cells0 :: "llama_kv_cache \<Rightarrow> llama_kv_cells" where
  "cells0 k \<equiv> kc_cells k ! 0"

lemma uni_okD:
  assumes "uni_ok k"
  shows "cache_ok k" "kc_n_stream k = 1" "kc_cells k = [cells0 k]" "kc_heads k = [kc_heads k ! 0]" "cells_ok (cells0 k)"
    "length (kc_seq_to_stream k) = LLAMA_MAX_SEQ" "t < LLAMA_MAX_SEQ \<Longrightarrow> kc_seq_to_stream k ! t = 0"
    "kc_heads k ! 0 \<le> cells_size (cells0 k)"
proof -
  show 1: "cache_ok k" "kc_n_stream k = 1" "length (kc_seq_to_stream k) = LLAMA_MAX_SEQ" using assms by (auto simp: uni_ok_def)
  have len: "length (kc_cells k) = 1" "length (kc_heads k) = 1" using 1 by (auto simp: cache_ok_def)
  then show "kc_cells k = [cells0 k]" "kc_heads k = [kc_heads k ! 0]" by (auto simp: length_Suc_conv)
  have "cells0 k \<in> set (kc_cells k)" using len by simp
  then show "cells_ok (cells0 k)" using 1 by (auto simp: cache_ok_def)
  show "t < LLAMA_MAX_SEQ \<Longrightarrow> kc_seq_to_stream k ! t = 0" "kc_heads k ! 0 \<le> cells_size (cells0 k)" using 1 by (auto simp: cache_ok_def)
qed

lemma window_ok_uni: "window_ok k \<longleftrightarrow> uni_ok k \<and> \<not> c_has_shift (cells0 k)"
  by (auto simp: window_ok_def uni_ok_def)

lemma uni_positions: "uni_ok k \<Longrightarrow> cache_positions k t = (if t < LLAMA_MAX_SEQ then seq_positions (cells0 k) t else {})"
  using uni_okD(6)[of k] uni_okD(7)[of k t] by (auto simp: cache_positions_def)

text \<open>An operation that rewrites every cell by \<open>F\<close> and otherwise moves the head only.\<close>

definition recast :: "(cell \<Rightarrow> cell) \<Rightarrow> llama_kv_cache \<Rightarrow> llama_kv_cache \<Rightarrow> bool" where
  "recast F k k' \<longleftrightarrow> uni_ok k' \<and> k' = k\<lparr>kc_cells := kc_cells k', kc_heads := kc_heads k'\<rparr> \<and> cells_size (cells0 k') = cells_size (cells0 k) \<and>
     (\<forall>i < cells_size (cells0 k). cell_at (cells0 k') i = F (cell_at (cells0 k) i))"

lemma recast_id: "uni_ok k \<Longrightarrow> recast (\<lambda>x. x) k k"
  by (simp add: recast_def)

lemma recast_fields:
  assumes "recast F k k'"
  shows "kc_swa_type k' = kc_swa_type k" "kc_n_pos k' = kc_n_pos k"
proof -
  have "k' = k\<lparr>kc_cells := kc_cells k', kc_heads := kc_heads k'\<rparr>" using assms by (simp add: recast_def)
  then show "kc_swa_type k' = kc_swa_type k" "kc_n_pos k' = kc_n_pos k"
    by (metis llama_kv_cache.select_convs(5,6) llama_kv_cache.surjective llama_kv_cache.update_convs(7,8))+
qed

lemma sweep_recast:
  assumes sw: "cell_sweep body F E H valid" and k: "uni_ok k"
    and val: "\<And>i. i < cells_size (cells0 k) \<Longrightarrow> valid (cell_at (cells0 k) i)"
    and upd: "\<And>n nh h. \<lbrakk>nh \<le> n; h \<le> n\<rbrakk> \<Longrightarrow> upd n nh h \<le> n"
  shows "\<exists>k'. sweep 0 body upd k = Some k' \<and> recast F k k'"
proof -
  note K = uni_okD[OF k]
  from sweep_rewritten[OF sw K(1), of 0 upd] K(2) val upd obtain k' where
    k': "sweep 0 body upd k = Some k'" "rewritten 0 F k k'" by auto
  then obtain h c where ch: "k' = put_stream 0 h c k" by (auto simp: sweep_def bind_Some_iff)
  then have eq: "k' = k\<lparr>kc_cells := [c], kc_heads := [h]\<rparr>" using K(3,4) by (metis list_update_code(2) put_stream_def)
  have "cache_ok k'" using k'(2) by (simp add: rewritten_def)
  then have "uni_ok k'" using k unfolding eq by (simp add: uni_ok_def swa_ok_def)
  moreover have "k' = k\<lparr>kc_cells := kc_cells k', kc_heads := kc_heads k'\<rparr>" unfolding eq by simp
  ultimately show ?thesis using k' by (auto simp: recast_def rewritten_def)
qed

lemma stream_of_uni: "\<lbrakk>uni_ok k; valid_seq_id s\<rbrakk> \<Longrightarrow> stream_of s k = Some 0"
  using uni_okD(6)[of k] uni_okD(7)[of k "nat s"] by (auto simp: stream_of_def valid_seq_id_def nat_less_iff)

lemma rm_recast:
  assumes k: "uni_ok k" and s: "valid_seq_id s"
  shows "\<exists>k'. cache_seq_rm s p0 p1 k = Some k' \<and> recast (rm_cell (nat s) (range_lo p0) (range_hi p1)) k k'"
  using sweep_recast[OF rm_sweep.cell_sweep_axioms k, of s head_back "range_lo p0" "range_hi p1"] s
  by (auto simp: cache_seq_rm_def stream_of_uni[OF k s] head_back_le valid_seq_id_def)

lemma rm_any_recast:
  assumes k: "uni_ok k"
  shows "\<exists>k'. cache_seq_rm (-1) p0 p1 k = Some k' \<and> recast (rm_any_cell (range_lo p0) (range_hi p1)) k k'"
  using sweep_recast[OF rm_any_sweep.cell_sweep_axioms k, of "range_lo p0" head_back "range_hi p1"] uni_okD(2)[OF k]
  by (auto simp: cache_seq_rm_def head_back_le range_lo_def)

lemma cp_recast:
  assumes k: "uni_ok k" and s: "valid_seq_id s" "valid_seq_id d" "s \<noteq> d"
    and fresh: "\<And>i. \<lbrakk>i < cells_size (cells0 k); hits (nat s) (range_lo p0) (range_hi p1) (cell_at (cells0 k) i)\<rbrakk> \<Longrightarrow> nat d \<notin> cell_seqs (cell_at (cells0 k) i)"
  shows "\<exists>k'. cache_seq_cp s d p0 p1 k = Some k' \<and> recast (cp_cell_seq (nat s) (nat d) (range_lo p0) (range_hi p1)) k k'"
  using sweep_recast[OF cp_sweep.cell_sweep_axioms k, of s d "range_lo p0" "range_hi p1" "\<lambda>_ _ h. h"] s fresh
  by (auto simp: cache_seq_cp_def stream_of_uni[OF k])

definition own :: "cell \<Rightarrow> bool" where
  "own x \<longleftrightarrow> (fst x \<noteq> -1 \<longrightarrow> cell_seqs x \<noteq> {})"

lemma keep_recast:
  assumes k: "uni_ok k" and s: "valid_seq_id s" and o: "\<And>i. i < cells_size (cells0 k) \<Longrightarrow> own (cell_at (cells0 k) i)"
  shows "\<exists>k'. cache_seq_keep s k = Some k' \<and> recast (keep_cell (nat s)) k k'"
  using sweep_recast[OF keep_sweep.cell_sweep_axioms k, of s head_back] s o
  by (auto simp: cache_seq_keep_def stream_of_uni[OF k s] head_back_le own_def)

definition add_fits :: "llama_seq_id \<Rightarrow> llama_pos \<Rightarrow> llama_pos \<Rightarrow> llama_pos \<Rightarrow> llama_kv_cache \<Rightarrow> bool" where
  "add_fits s p0 p1 m k \<longleftrightarrow> kc_n_pos k = 1 \<and> (\<forall>i < cells_size (cells0 k). hits (nat s) (range_lo p0) (range_hi p1) (cell_at (cells0 k) i) \<longrightarrow>
     in_i32 (c_pos (cells0 k) ! i + m) \<and> in_i32 (c_shift (cells0 k) ! i + m))"

lemma add_recast:
  assumes k: "uni_ok k" and s: "valid_seq_id s" and f: "add_fits s p0 p1 m k"
  shows "\<exists>k'. cache_seq_add s p0 p1 m k = Some k' \<and>
    recast (if m = 0 \<or> range_lo p0 = range_hi p1 then (\<lambda>x. x) else add_cell (nat s) (range_lo p0) (range_hi p1) m) k k'"
proof (cases "m = 0 \<or> range_lo p0 = range_hi p1")
  case True
  then have "cache_seq_add s p0 p1 m k = Some k" using f stream_of_uni[OF k s] by (auto simp: cache_seq_add_def add_fits_def Let_def)
  then show ?thesis using True recast_id[OF k] by (auto simp only: if_True)
next
  case False
  have "\<exists>k'. sweep 0 (add_body s (range_lo p0) (range_hi p1) m) (\<lambda>n nh _. if nh \<noteq> n then nh else 0) k = Some k' \<and>
      recast (add_cell (nat s) (range_lo p0) (range_hi p1) m) k k'"
    by (rule sweep_recast[OF add_sweep.cell_sweep_axioms k]) (use f s in \<open>auto simp: add_fits_def cell_at_def\<close>)
  then show ?thesis using False f stream_of_uni[OF k s] by (auto simp: cache_seq_add_def add_fits_def Let_def)
qed

definition div_fits :: "llama_seq_id \<Rightarrow> llama_pos \<Rightarrow> llama_pos \<Rightarrow> int \<Rightarrow> llama_kv_cache \<Rightarrow> bool" where
  "div_fits s p0 p1 m k \<longleftrightarrow> kc_n_pos k = 1 \<and> 0 < m \<and> (\<forall>i < cells_size (cells0 k). hits (nat s) (range_lo p0) (range_hi p1) (cell_at (cells0 k) i) \<longrightarrow>
     in_i32 (c_pos (cells0 k) ! i div m) \<and> in_i32 (c_pos (cells0 k) ! i - c_pos (cells0 k) ! i div m) \<and>
     in_i32 (c_shift (cells0 k) ! i + (c_pos (cells0 k) ! i - c_pos (cells0 k) ! i div m)))"

lemma div_recast:
  assumes k: "uni_ok k" and s: "valid_seq_id s" and f: "div_fits s p0 p1 m k"
  shows "\<exists>k'. cache_seq_div s p0 p1 m k = Some k' \<and>
    recast (if m = 1 \<or> range_lo p0 = range_hi p1 then (\<lambda>x. x) else div_cell (nat s) (range_lo p0) (range_hi p1) m) k k'"
proof (cases "m = 1 \<or> range_lo p0 = range_hi p1")
  case True
  then have "cache_seq_div s p0 p1 m k = Some k" using f stream_of_uni[OF k s] by (auto simp: cache_seq_div_def div_fits_def Let_def)
  then show ?thesis using True recast_id[OF k] by (auto simp only: if_True)
next
  case False
  have "\<exists>k'. sweep 0 (div_body s (range_lo p0) (range_hi p1) m) (\<lambda>_ _ h. h) k = Some k' \<and>
      recast (div_cell (nat s) (range_lo p0) (range_hi p1) m) k k'"
    by (rule sweep_recast[OF div_sweep.cell_sweep_axioms k]) (use f s in \<open>auto simp: div_fits_def cell_at_def\<close>)
  then show ?thesis using False f stream_of_uni[OF k s] by (auto simp: cache_seq_div_def div_fits_def Let_def)
qed

section \<open>The base cache covers the other one\<close>

definition covers :: "llama_kv_cells \<Rightarrow> llama_kv_cells \<Rightarrow> bool" where
  "covers B S \<longleftrightarrow> (\<forall>i < cells_size S. cell_seqs (cell_at S i) \<noteq> {} \<longrightarrow>
     (\<exists>j < cells_size B. fst (cell_at B j) = fst (cell_at S i) \<and> cell_seqs (cell_at S i) \<subseteq> cell_seqs (cell_at B j)))"

lemma covers_positions: "covers B S \<Longrightarrow> seq_positions S t \<subseteq> seq_positions B t"
proof
  fix p assume c: "covers B S" and "p \<in> seq_positions S t"
  then obtain i where i: "i < cells_size S" "p = fst (cell_at S i)" "t \<in> cell_seqs (cell_at S i)" unfolding seq_positions_cell by blast
  then obtain j where "j < cells_size B" "fst (cell_at B j) = p" "t \<in> cell_seqs (cell_at B j)" using c unfolding covers_def by blast
  then show "p \<in> seq_positions B t" unfolding seq_positions_cell by blast
qed

lemma covers_thin: "\<lbrakk>covers B S; thinner S' S\<rbrakk> \<Longrightarrow> covers B S'"
  unfolding covers_def
proof (intro allI impI)
  fix i assume c: "\<forall>i < cells_size S. cell_seqs (cell_at S i) \<noteq> {} \<longrightarrow>
     (\<exists>j < cells_size B. fst (cell_at B j) = fst (cell_at S i) \<and> cell_seqs (cell_at S i) \<subseteq> cell_seqs (cell_at B j))"
    and t: "thinner S' S" and i: "i < cells_size S'" and ne: "cell_seqs (cell_at S' i) \<noteq> {}"
  have i': "i < cells_size S" and th: "thin (cell_at S' i) (cell_at S i)" using t i by (auto simp: thinner_def)
  have sub: "cell_seqs (cell_at S' i) \<subseteq> cell_seqs (cell_at S i)" using thin_seqs[OF th] by blast
  obtain t where "t \<in> cell_seqs (cell_at S' i)" using ne by blast
  then have "fst (cell_at S i) = fst (cell_at S' i)" "cell_seqs (cell_at S i) \<noteq> {}" using thin_seqs[OF th] by auto
  with c i' obtain j where "j < cells_size B" "fst (cell_at B j) = fst (cell_at S' i)" "cell_seqs (cell_at S i) \<subseteq> cell_seqs (cell_at B j)" by force
  with sub show "\<exists>j < cells_size B. fst (cell_at B j) = fst (cell_at S' i) \<and> cell_seqs (cell_at S' i) \<subseteq> cell_seqs (cell_at B j)"
    by blast
qed

text \<open>
  A rewriting that respects the relation, for base cells that satisfy \<open>P\<close>: what is left of the
  smaller cell is in the larger one, and used cells keep a sequence.
\<close>

locale cover_step =
  fixes F :: "cell \<Rightarrow> cell" and P :: "cell \<Rightarrow> bool"
  assumes step_seqs: "cell_seqs (F y) \<noteq> {} \<Longrightarrow> cell_seqs y \<noteq> {}"
    and step_covers: "\<lbrakk>P x; fst x = fst y; cell_seqs y \<subseteq> cell_seqs x; cell_seqs (F y) \<noteq> {}\<rbrakk> \<Longrightarrow>
      fst (F x) = fst (F y) \<and> cell_seqs (F y) \<subseteq> cell_seqs (F x)"
    and step_own: "own x \<Longrightarrow> own (F x)"
begin

lemma recast_covers:
  assumes c: "covers (cells0 b) (cells0 s)" and b: "recast F b b'" and s: "recast F s s'"
    and P: "\<And>j. j < cells_size (cells0 b) \<Longrightarrow> P (cell_at (cells0 b) j)"
  shows "covers (cells0 b') (cells0 s')"
  unfolding covers_def
proof (intro allI impI)
  fix i assume i: "i < cells_size (cells0 s')" and ne: "cell_seqs (cell_at (cells0 s') i) \<noteq> {}"
  have i': "i < cells_size (cells0 s)" and at: "cell_at (cells0 s') i = F (cell_at (cells0 s) i)" using s i by (auto simp: recast_def)
  have "cell_seqs (cell_at (cells0 s) i) \<noteq> {}" using step_seqs ne at by simp
  then obtain j where j: "j < cells_size (cells0 b)" "fst (cell_at (cells0 b) j) = fst (cell_at (cells0 s) i)"
    "cell_seqs (cell_at (cells0 s) i) \<subseteq> cell_seqs (cell_at (cells0 b) j)" using c i' by (auto simp: covers_def)
  from step_covers[OF P[OF j(1)] j(2,3)] ne at b j(1)
  show "\<exists>j < cells_size (cells0 b'). fst (cell_at (cells0 b') j) = fst (cell_at (cells0 s') i) \<and>
      cell_seqs (cell_at (cells0 s') i) \<subseteq> cell_seqs (cell_at (cells0 b') j)"
    by (auto simp: recast_def intro!: exI[of _ j])
qed

lemma recast_owned: "\<lbrakk>recast F k k'; \<forall>i < cells_size (cells0 k). own (cell_at (cells0 k) i)\<rbrakk> \<Longrightarrow> \<forall>i < cells_size (cells0 k'). own (cell_at (cells0 k') i)"
  using step_own by (auto simp: recast_def)

end

interpretation id_step: cover_step "\<lambda>x. x" "\<lambda>_. True"
  by unfold_locales auto

interpretation rm_step: cover_step "rm_cell s p0 p1" "\<lambda>_. True"
  by unfold_locales (auto simp: rm_cell_def hits_def own_def split: if_splits)

interpretation rm_any_step: cover_step "rm_any_cell p0 p1" "\<lambda>_. True"
  by unfold_locales (auto simp: rm_any_cell_def own_def split: if_splits)

interpretation cp_step: cover_step "cp_cell_seq s d p0 p1" "\<lambda>_. True"
  by unfold_locales (auto simp: cp_cell_seq_def hits_def own_def split: if_splits)

interpretation keep_step: cover_step "keep_cell s" "\<lambda>_. True"
  by unfold_locales (auto simp: keep_cell_def own_def split: if_splits prod.splits)

text \<open>A shift moves a whole cell, so the sequence must not share its cells with another one.\<close>

definition unshared :: "nat \<Rightarrow> cell \<Rightarrow> bool" where
  "unshared s x \<longleftrightarrow> (s \<in> cell_seqs x \<longrightarrow> cell_seqs x = {s})"

interpretation add_step: cover_step "add_cell s p0 p1 m" "unshared s"
  by unfold_locales (auto simp: add_cell_def hits_def own_def unshared_def split: if_splits)

text \<open>For a shared cell the rule fails: the cell that has lost the sequence stays where it is, the other one moves.\<close>

lemma shared_shift_diverges:
  assumes "s \<noteq> t" "p0 \<le> p" "p < p1" "0 \<le> p + m"
  shows "fst (add_cell s p0 p1 m (p, e, d, {s, t})) = p + m" "fst (add_cell s p0 p1 m (p, e', d', {t})) = p"
  using assms by (auto simp: add_cell_def hits_def)

interpretation div_step: cover_step "div_cell s p0 p1 m" "unshared s"
  by unfold_locales (auto simp: div_cell_def hits_def own_def unshared_def split: if_splits)

section \<open>The invariant and the sequence operations\<close>

definition owned :: "llama_kv_cells \<Rightarrow> bool" where
  "owned c \<longleftrightarrow> (\<forall>i < cells_size c. own (cell_at c i))"

definition iswa_ok :: "llama_kv_cache_iswa \<Rightarrow> bool" where
  "iswa_ok kv \<longleftrightarrow> uni_ok (iw_base kv) \<and> uni_ok (iw_swa kv) \<and> kc_swa_type (iw_base kv) = SWA_NONE \<and>
     covers (cells0 (iw_base kv)) (cells0 (iw_swa kv)) \<and> owned (cells0 (iw_base kv)) \<and> owned (cells0 (iw_swa kv))"

context cover_step
begin

lemma both_ok:
  assumes kv: "iswa_ok kv" and b: "f (iw_base kv) = Some b" "recast F (iw_base kv) b" and s: "f (iw_swa kv) = Some s" "recast F (iw_swa kv) s"
    and P: "\<And>j. j < cells_size (cells0 (iw_base kv)) \<Longrightarrow> P (cell_at (cells0 (iw_base kv)) j)"
  shows "\<exists>kv'. both f kv = Some kv' \<and> iswa_ok kv'"
  using kv b(1) s(1) recast_covers[OF _ b(2) s(2) P] recast_owned[OF b(2)] recast_owned[OF s(2)] recast_fields(1)[OF b(2)] b(2) s(2)
  by (auto simp: both_def iswa_ok_def owned_def recast_def)

end

lemma iswa_seq_rm_ok:
  assumes kv: "iswa_ok kv" and s: "valid_seq_id s \<or> s = -1"
  shows "\<exists>kv'. iswa_seq_rm s p0 p1 kv = Some kv' \<and> iswa_ok kv'"
proof (cases "s = -1")
  case True
  from rm_any_recast[of "iw_base kv" p0 p1] rm_any_recast[of "iw_swa kv" p0 p1] kv obtain b s' where
    "cache_seq_rm (-1) p0 p1 (iw_base kv) = Some b" "recast (rm_any_cell (range_lo p0) (range_hi p1)) (iw_base kv) b"
    "cache_seq_rm (-1) p0 p1 (iw_swa kv) = Some s'" "recast (rm_any_cell (range_lo p0) (range_hi p1)) (iw_swa kv) s'"
    by (auto simp: iswa_ok_def)
  from rm_any_step.both_ok[OF kv this] True show ?thesis by (simp add: iswa_seq_rm_def)
next
  case False
  with s have "valid_seq_id s" by simp
  from rm_recast[OF _ this, of "iw_base kv" p0 p1] rm_recast[OF _ this, of "iw_swa kv" p0 p1] kv obtain b s' where
    "cache_seq_rm s p0 p1 (iw_base kv) = Some b" "recast (rm_cell (nat s) (range_lo p0) (range_hi p1)) (iw_base kv) b"
    "cache_seq_rm s p0 p1 (iw_swa kv) = Some s'" "recast (rm_cell (nat s) (range_lo p0) (range_hi p1)) (iw_swa kv) s'"
    by (auto simp: iswa_ok_def)
  from rm_step.both_ok[OF kv this] show ?thesis by (simp add: iswa_seq_rm_def)
qed

lemma iswa_seq_keep_ok:
  assumes kv: "iswa_ok kv" and s: "valid_seq_id s"
  shows "\<exists>kv'. iswa_seq_keep s kv = Some kv' \<and> iswa_ok kv'"
proof -
  from keep_recast[OF _ s, of "iw_base kv"] keep_recast[OF _ s, of "iw_swa kv"] kv obtain b s' where
    "cache_seq_keep s (iw_base kv) = Some b" "recast (keep_cell (nat s)) (iw_base kv) b"
    "cache_seq_keep s (iw_swa kv) = Some s'" "recast (keep_cell (nat s)) (iw_swa kv) s'"
    by (auto simp: iswa_ok_def owned_def)
  from keep_step.both_ok[OF kv this] show ?thesis by (simp add: iswa_seq_keep_def)
qed

text \<open>A copy whose destination is in no cell of the range in the base cache.\<close>

definition cp_fresh :: "llama_seq_id \<Rightarrow> llama_seq_id \<Rightarrow> llama_pos \<Rightarrow> llama_pos \<Rightarrow> llama_kv_cache \<Rightarrow> bool" where
  "cp_fresh s d p0 p1 k \<longleftrightarrow> (\<forall>i < cells_size (cells0 k). hits (nat s) (range_lo p0) (range_hi p1) (cell_at (cells0 k) i) \<longrightarrow>
     nat d \<notin> cell_seqs (cell_at (cells0 k) i))"

lemma cp_fresh_covered:
  assumes c: "covers (cells0 b) (cells0 k)" and f: "cp_fresh s d p0 p1 b"
  shows "cp_fresh s d p0 p1 k"
  unfolding cp_fresh_def
proof (intro allI impI)
  fix i assume i: "i < cells_size (cells0 k)" and h: "hits (nat s) (range_lo p0) (range_hi p1) (cell_at (cells0 k) i)"
  then have "cell_seqs (cell_at (cells0 k) i) \<noteq> {}" by (auto simp: hits_def split: prod.splits)
  with c i obtain j where j: "j < cells_size (cells0 b)" "fst (cell_at (cells0 b) j) = fst (cell_at (cells0 k) i)"
    "cell_seqs (cell_at (cells0 k) i) \<subseteq> cell_seqs (cell_at (cells0 b) j)" by (auto simp: covers_def)
  with h have "hits (nat s) (range_lo p0) (range_hi p1) (cell_at (cells0 b) j)" by (auto simp: hits_def split: prod.splits)
  with f j show "nat d \<notin> cell_seqs (cell_at (cells0 k) i)" by (auto simp: cp_fresh_def)
qed

lemma iswa_seq_cp_ok:
  assumes kv: "iswa_ok kv" and s: "valid_seq_id s" "valid_seq_id d" "s \<noteq> d" and f: "cp_fresh s d p0 p1 (iw_base kv)"
  shows "\<exists>kv'. iswa_seq_cp s d p0 p1 kv = Some kv' \<and> iswa_ok kv'"
proof -
  have "cp_fresh s d p0 p1 (iw_swa kv)" using cp_fresh_covered[OF _ f] kv by (simp add: iswa_ok_def)
  with cp_recast[OF _ s, of "iw_base kv" p0 p1] cp_recast[OF _ s, of "iw_swa kv" p0 p1] kv f obtain b s' where
    "cache_seq_cp s d p0 p1 (iw_base kv) = Some b" "recast (cp_cell_seq (nat s) (nat d) (range_lo p0) (range_hi p1)) (iw_base kv) b"
    "cache_seq_cp s d p0 p1 (iw_swa kv) = Some s'" "recast (cp_cell_seq (nat s) (nat d) (range_lo p0) (range_hi p1)) (iw_swa kv) s'"
    by (auto simp: iswa_ok_def cp_fresh_def)
  from cp_step.both_ok[OF kv this] show ?thesis by (simp add: iswa_seq_cp_def)
qed

text \<open>The sequence shares no cell of the base cache with another one.\<close>

definition seq_alone :: "llama_seq_id \<Rightarrow> llama_kv_cache \<Rightarrow> bool" where
  "seq_alone s k \<longleftrightarrow> (\<forall>i < cells_size (cells0 k). unshared (nat s) (cell_at (cells0 k) i))"

lemma iswa_seq_add_ok:
  assumes kv: "iswa_ok kv" and s: "valid_seq_id s" and f: "add_fits s p0 p1 m (iw_base kv)" "add_fits s p0 p1 m (iw_swa kv)" and a: "seq_alone s (iw_base kv)"
  shows "\<exists>kv'. iswa_seq_add s p0 p1 m kv = Some kv' \<and> iswa_ok kv'"
proof -
  let ?F = "if m = 0 \<or> range_lo p0 = range_hi p1 then (\<lambda>x. x) else add_cell (nat s) (range_lo p0) (range_hi p1) m"
  from add_recast[OF _ s f(1)] add_recast[OF _ s f(2)] kv obtain b s' where
    r: "cache_seq_add s p0 p1 m (iw_base kv) = Some b" "recast ?F (iw_base kv) b" "cache_seq_add s p0 p1 m (iw_swa kv) = Some s'" "recast ?F (iw_swa kv) s'"
    unfolding iswa_ok_def by blast
  show ?thesis
  proof (cases "m = 0 \<or> range_lo p0 = range_hi p1")
    case True
    with id_step.both_ok[OF kv r(1) _ r(3)] r show ?thesis by (simp add: iswa_seq_add_def)
  next
    case False
    with add_step.both_ok[OF kv r(1) _ r(3)] r a show ?thesis by (simp add: iswa_seq_add_def seq_alone_def)
  qed
qed

lemma iswa_seq_div_ok:
  assumes kv: "iswa_ok kv" and s: "valid_seq_id s" and f: "div_fits s p0 p1 m (iw_base kv)" "div_fits s p0 p1 m (iw_swa kv)" and a: "seq_alone s (iw_base kv)"
  shows "\<exists>kv'. iswa_seq_div s p0 p1 m kv = Some kv' \<and> iswa_ok kv'"
proof -
  let ?F = "if m = 1 \<or> range_lo p0 = range_hi p1 then (\<lambda>x. x) else div_cell (nat s) (range_lo p0) (range_hi p1) m"
  from div_recast[OF _ s f(1)] div_recast[OF _ s f(2)] kv obtain b s' where
    r: "cache_seq_div s p0 p1 m (iw_base kv) = Some b" "recast ?F (iw_base kv) b" "cache_seq_div s p0 p1 m (iw_swa kv) = Some s'" "recast ?F (iw_swa kv) s'"
    unfolding iswa_ok_def by blast
  show ?thesis
  proof (cases "m = 1 \<or> range_lo p0 = range_hi p1")
    case True
    with id_step.both_ok[OF kv r(1) _ r(3)] r show ?thesis by (simp add: iswa_seq_div_def)
  next
    case False
    with div_step.both_ok[OF kv r(1) _ r(3)] r a show ?thesis by (simp add: iswa_seq_div_def seq_alone_def)
  qed
qed

text \<open>Empty caches.\<close>

lemma empty_cells: "\<lbrakk>cells_ok c; \<forall>i < cells_size c. c_pos c ! i = -1\<rbrakk> \<Longrightarrow> covers B c \<and> owned c"
  using cells_okD(9)[of c] by (auto simp: covers_def owned_def own_def cell_at_def cells_size_def)

lemma cells_reset_empty: "cells_ok c \<Longrightarrow> cells_ok (cells_reset c) \<and> cells_size (cells_reset c) = cells_size c \<and> (\<forall>i < cells_size c. c_pos (cells_reset c) ! i = -1)"
  using cells_reset_ok[of c] cells_ok_high[of c] by (auto simp: cells_reset_def Let_def cells_size_def)

lemma cache_clear_uni:
  assumes "uni_ok k"
  shows "uni_ok (cache_clear k) \<and> kc_swa_type (cache_clear k) = kc_swa_type k \<and> cells_ok (cells0 (cache_clear k)) \<and>
    (\<forall>i < cells_size (cells0 (cache_clear k)). c_pos (cells0 (cache_clear k)) ! i = -1)"
proof -
  note K = uni_okD[OF assms]
  have eq: "cache_clear k = k\<lparr>kc_cells := [cells_reset (cells0 k)], kc_heads := [0]\<rparr>"
    unfolding cache_clear_def by (subst K(3), subst K(4)) simp
  from cells_reset_empty[OF K(5)] assms show ?thesis unfolding eq by (auto simp: uni_ok_def cache_ok_def swa_ok_def)
qed

lemma iswa_clear_ok: "iswa_ok kv \<Longrightarrow> iswa_ok (iswa_clear kv)"
  using cache_clear_uni[of "iw_base kv"] cache_clear_uni[of "iw_swa kv"] empty_cells
  by (auto simp: iswa_ok_def iswa_clear_def)

lemma cache_new_uni:
  assumes "cache_new unified kv_size n_seq_max n_pad n_swa swa_type n_pos = Some k" "unified \<or> n_seq_max = 1" "swa_type = SWA_CHUNKED \<longrightarrow> n_swa \<noteq> 0"
    "n_seq_max \<le> LLAMA_MAX_SEQ"
  shows "uni_ok k \<and> kc_swa_type k = swa_type \<and> kc_n_swa k = n_swa \<and> (\<forall>i < cells_size (cells0 k). c_pos (cells0 k) ! i = -1) \<and> \<not> c_has_shift (cells0 k)"
proof -
  have "cache_ok k" using cache_new_ok[OF assms(1,4)] assms(2) by auto
  then show ?thesis using assms(1-3)
    by (auto simp: uni_ok_def swa_ok_def cache_new_def Let_def cells_size_def cells_resize_def cells_reset_def cells_new_def split: if_splits)
qed

lemma iswa_new_ok:
  assumes "iswa_new swa_full unified kv_size n_seq_max n_ubatch n_pad n_swa swa_type n_pos = Some kv"
    "unified \<or> n_seq_max = 1" "swa_type = SWA_CHUNKED \<longrightarrow> n_swa \<noteq> 0" "n_seq_max \<le> LLAMA_MAX_SEQ"
  shows "iswa_ok kv"
proof -
  obtain b s where bs: "cache_new unified kv_size n_seq_max n_pad 0 SWA_NONE n_pos = Some b"
    "cache_new unified (iswa_size_swa swa_full unified kv_size n_seq_max n_ubatch n_swa) n_seq_max n_pad n_swa swa_type n_pos = Some s"
    "kv = \<lparr>iw_unified = unified, iw_base = b, iw_swa = s\<rparr>"
    using assms(1) by (auto simp: iswa_new_def bind_Some_iff)
  from cache_new_uni[OF bs(1) assms(2) _ assms(4)] cache_new_uni[OF bs(2) assms(2-4)] show ?thesis
    using empty_cells uni_okD(5) by (auto simp: iswa_ok_def bs(3))
qed

end
