(* ===== verification/Iswa_Batch.thy ===== *)
theory Iswa_Batch
  imports Iswa_Inv Batch_Init
begin

text \<open>
  Batches in the two caches: both are tried out and then filled with the same ubatches. The base
  cache gains all positions and keeps them; the cache with the window may drop positions, but
  none that the next token of the sequence may still look at.
\<close>

section \<open>One ubatch in both caches\<close>

definition ubatch_fit :: "llama_kv_cache \<Rightarrow> llama_ubatch \<Rightarrow> bool" where
  "ubatch_fit k ub \<longleftrightarrow> ubatch_for k ub \<and> (\<forall>i < ub_n_tokens ub. ub_seqs ub i \<noteq> [])"

lemma plain_slot:
  assumes k: "window_ok k" and ty: "kc_swa_type k = SWA_NONE" and fit: "slot_takes (cells0 k) ub si xs" and us: "slot_usable k xs"
  shows "\<forall>i \<in> set xs. c_pos (cells0 k) ! i = -1" "evicted (cells0 k) xs = (\<lambda>_. -1)"
proof -
  note K = window_okD[OF k]
  show e: "\<forall>i \<in> set xs. c_pos (cells0 k) ! i = -1"
    using fit us usable_no_swa[OF K(6) _ ty] by (auto simp: slot_takes_def slot_usable_def)
  then have "evicted (cells0 k) xs t = -1" for t
    using evicted_from[of "cells0 k" xs t] by (cases "evicted (cells0 k) xs t = -1") auto
  then show "evicted (cells0 k) xs = (\<lambda>_. -1)" by blast
qed

lemma purge_none: "\<lbrakk>cell_seqs x \<noteq> {} \<Longrightarrow> 0 \<le> fst x\<rbrakk> \<Longrightarrow> purge_cell (\<lambda>_. -1) x = x"
proof -
  assume a: "cell_seqs x \<noteq> {} \<Longrightarrow> 0 \<le> fst x"
  obtain p e d b where x: "x = (p, e, d, b)" by (cases x)
  show ?thesis
  proof (cases "b = {}")
    case False
    then have "0 \<le> p" using a by (simp add: x)
    then show ?thesis using False by (auto simp: x purge_cell_def)
  qed (simp add: x purge_cell_def)
qed

lemma own_thin: "\<lbrakk>thin y x; own x\<rbrakk> \<Longrightarrow> own y"
  by (auto simp: thin_def own_def)

lemma own_purge: "own x \<Longrightarrow> own (purge_cell rm x)"
  using own_thin[OF thin_purge] .

lemma taken_owned:
  assumes t: "taken ub xs (purge_cell rm) c c'" and o: "owned c" and u: "\<forall>i < ub_n_tokens ub. ub_seqs ub i \<noteq> []" and l: "length xs = ub_n_tokens ub"
  shows "owned c'"
  unfolding owned_def
proof (intro allI impI)
  fix j assume j: "j < cells_size c'"
  then have j': "j < cells_size c" using t by (simp add: taken_def)
  show "own (cell_at c' j)"
  proof (cases "j \<in> set xs")
    case True
    then obtain i where i: "i < length xs" "j = xs ! i" by (auto simp: in_set_conv_nth)
    then have "own (tok_cell ub i (cell_at c j))" using u l by (auto simp: tok_cell_def own_def split: prod.splits)
    then show ?thesis using t i own_purge by (auto simp: taken_def)
  next
    case False
    then show ?thesis using t o j' own_purge by (auto simp: taken_def owned_def)
  qed
qed

text \<open>The tokens go into corresponding cells.\<close>

lemma taken_covers:
  assumes c: "covers B S" and okB: "cells_ok B" and e: "\<forall>i \<in> set xs. c_pos B ! i = -1"
    and b: "taken ub xs (purge_cell (\<lambda>_. -1)) B B'" and s: "taken ub ys (purge_cell rm) S S'"
    and l: "length xs = ub_n_tokens ub" "length ys = ub_n_tokens ub" "\<forall>i \<in> set xs. i < cells_size B" and v: "ubatch_valid ub"
  shows "covers B' S'"
  unfolding covers_def
proof (intro allI impI)
  fix i assume "i < cells_size S'" and ne: "cell_seqs (cell_at S' i) \<noteq> {}"
  then have i: "i < cells_size S" using s by (simp add: taken_def)
  have sz: "cells_size B' = cells_size B" using b by (simp add: taken_def)
  show "\<exists>j < cells_size B'. fst (cell_at B' j) = fst (cell_at S' i) \<and> cell_seqs (cell_at S' i) \<subseteq> cell_seqs (cell_at B' j)"
  proof (cases "i \<in> set ys")
    case True
    then obtain m where m: "m < length ys" "i = ys ! m" by (auto simp: in_set_conv_nth)
    let ?tS = "tok_cell ub m (cell_at S i)" and ?tB = "tok_cell ub m (cell_at B (xs ! m))"
    have tok: "fst (tok_cell ub m x) = ub_pos ub ! m" "cell_seqs (tok_cell ub m x) = nat ` set (ub_seqs ub m)" for x
      by (auto simp: tok_cell_def split: prod.splits)
    have "0 \<le> ub_pos ub ! m" using v m l by (auto simp: ubatch_valid_def token_valid_def)
    then have B: "cell_at B' (xs ! m) = ?tB" using b m l purge_none[of ?tB] tok by (simp add: taken_def)
    have S: "cell_at S' i = purge_cell rm ?tS" using s m by (auto simp: taken_def)
    obtain t where "t \<in> cell_seqs (cell_at S' i)" using ne by blast
    then have "fst (cell_at S' i) = ub_pos ub ! m" "cell_seqs (cell_at S' i) \<subseteq> nat ` set (ub_seqs ub m)"
      using purge_cell_seqs[of _ rm ?tS] tok S by auto
    moreover have "fst (cell_at B' (xs ! m)) = ub_pos ub ! m" "cell_seqs (cell_at B' (xs ! m)) = nat ` set (ub_seqs ub m)" unfolding B by (rule tok)+
    moreover have "xs ! m < cells_size B'" using l m sz by simp
    ultimately show ?thesis by (intro exI[of _ "xs ! m"]) simp
  next
    case False
    then have S: "cell_at S' i = purge_cell rm (cell_at S i)" using s i by (simp add: taken_def)
    obtain t where "t \<in> cell_seqs (cell_at S' i)" using ne by blast
    then have S': "fst (cell_at S' i) = fst (cell_at S i)" "cell_seqs (cell_at S' i) \<subseteq> cell_seqs (cell_at S i)"
      using purge_cell_seqs[of _ rm "cell_at S i"] S by auto
    then have "cell_seqs (cell_at S i) \<noteq> {}" using ne by auto
    with c i obtain j where j: "j < cells_size B" "fst (cell_at B j) = fst (cell_at S i)" "cell_seqs (cell_at S i) \<subseteq> cell_seqs (cell_at B j)"
      by (auto simp: covers_def)
    then have used: "cell_seqs (cell_at B j) \<noteq> {}" using S' ne by auto
    then have "c_pos B ! j \<noteq> -1" using cells_okD(9)[OF okB, of j] j(1) by (auto simp: cell_at_def cells_size_def)
    then have "j \<notin> set xs" using e by blast
    then have "cell_at B' j = cell_at B j" using b j(1) purge_cell_none[OF okB j(1)] by (simp add: taken_def)
    then show ?thesis using j S' sz by (auto intro!: exI[of _ j])
  qed
qed

section \<open>All ubatches\<close>

lemma placed_run_fields: "placed_run k us kf \<Longrightarrow> kc_swa_type kf = kc_swa_type k \<and> kc_n_swa kf = kc_n_swa k \<and> kc_seq_to_stream kf = kc_seq_to_stream k"
  by (induction rule: placed_run.induct) auto

lemma runs_cover:
  assumes "placed_run b us bf" "placed_run s us sf" "window_ok b" "window_ok s" "kc_swa_type b = SWA_NONE"
    "covers (cells0 b) (cells0 s)" "owned (cells0 b)" "owned (cells0 s)" "\<forall>ub \<in> set us. \<forall>i < ub_n_tokens ub. ub_seqs ub i \<noteq> []"
  shows "covers (cells0 bf) (cells0 sf) \<and> owned (cells0 bf) \<and> owned (cells0 sf)"
  using assms
proof (induction arbitrary: s rule: placed_run.induct)
  case (placed_done k)
  then show ?case by (auto elim: placed_doneE)
next
  case (placed_more k ub si xs c us kf)
  from placed_more.prems(1) obtain si' ys c' where
    s: "slot_takes (cells0 s) ub si' ys" "slot_usable s ys" "ubatch_valid ub"
      "taken ub ys (purge_cell (evicted (cells0 s) ys)) (cells0 s) c'" "placed_run (s\<lparr>kc_cells := [c'], kc_heads := [last ys + 1]\<rparr>) us sf"
    by (auto elim: placed_moreE)
  note pl = plain_slot[OF placed_more.prems(2,4) placed_more.hyps(2,3)]
  have b: "taken ub xs (purge_cell (\<lambda>_. -1)) (cells0 k) c" using placed_more.hyps(5) pl(2) by simp
  have lx: "length xs = ub_n_tokens ub" "\<forall>i \<in> set xs. i < cells_size (cells0 k)" and ly: "length ys = ub_n_tokens ub"
    using placed_more.hyps(2) s(1) by (auto simp: slot_takes_def)
  note c = taken_covers[OF placed_more.prems(5) window_okD(6)[OF placed_more.prems(2)] pl(1) b s(4) lx(1) ly lx(2) s(3)]
  have o: "owned c" "owned c'" using taken_owned[OF b placed_more.prems(6) _ lx(1)] taken_owned[OF s(4) placed_more.prems(7) _ ly] placed_more.prems(8) by auto
  have "window_ok (k\<lparr>kc_cells := [c], kc_heads := [last xs + 1]\<rparr>)"
    using b window_okD(8)[OF placed_more.prems(2)] slot_takes_last[OF placed_more.hyps(2)]
    by (intro window_ok_put[OF placed_more.prems(2)]) (auto simp: taken_def)
  moreover have "window_ok (s\<lparr>kc_cells := [c'], kc_heads := [last ys + 1]\<rparr>)"
    using s(4) window_okD(8)[OF placed_more.prems(3)] slot_takes_last[OF s(1)]
    by (intro window_ok_put[OF placed_more.prems(3)]) (auto simp: taken_def)
  ultimately show ?case using placed_more.IH[OF s(5)] placed_more.prems(4,8) c o by simp
qed

text \<open>Positions that the next token of a sequence with positions \<open>P\<close> may look at.\<close>

definition in_window :: "nat \<Rightarrow> llama_swa_type \<Rightarrow> llama_pos set \<Rightarrow> llama_pos set" where
  "in_window n ty P = {p \<in> P. is_masked_swa n ty p (Max P + 1) \<noteq> Some True}"

text \<open>The ubatches continue the sequences: every position is larger than those before it.\<close>

fun ascending :: "(nat \<Rightarrow> llama_pos set) \<Rightarrow> llama_ubatch list \<Rightarrow> bool" where
  "ascending P [] = True"
| "ascending P (ub # ubs) = ((\<forall>t. \<forall>p \<in> ub_positions ub t. \<forall>q \<in> P t. q < p) \<and> ascending (\<lambda>t. P t \<union> ub_positions ub t) ubs)"

lemma window_step:
  assumes sub: "S \<subseteq> B" "finite B" and win: "in_window n ty B \<subseteq> S" and nn: "\<And>p. p \<in> B \<union> U \<Longrightarrow> 0 \<le> p" and fin: "finite U"
    and asc: "\<forall>p \<in> U. \<forall>q \<in> B. q < p"
    and e: "e \<noteq> -1 \<Longrightarrow> e \<in> S \<and> is_masked_swa n ty e (Max S + 1) = Some True"
  shows "in_window n ty (B \<union> U) \<subseteq> {p \<in> S \<union> U. e < p}"
proof
  fix p assume p: "p \<in> in_window n ty (B \<union> U)"
  then have pm: "p \<in> B \<union> U" "is_masked_swa n ty p (Max (B \<union> U) + 1) \<noteq> Some True" by (auto simp: in_window_def)
  show "p \<in> {p \<in> S \<union> U. e < p}"
  proof (cases "p \<in> U")
    case True
    then have "e < p" using e sub(1) asc nn[OF pm(1)] by (cases "e = -1") auto
    then show ?thesis using True by simp
  next
    case False
    then have pB: "p \<in> B" using pm(1) by blast
    have mB: "Max B \<le> Max (B \<union> U)" using pB sub(2) fin by (intro Max_mono) auto
    have "p \<le> Max B" using pB sub(2) by simp
    then have "is_masked_swa n ty p (Max B + 1) \<noteq> Some True" using masked_mono[of n ty p "Max B + 1" p "Max (B \<union> U) + 1"] pm(2) nn[OF pm(1)] mB by auto
    then have pS: "p \<in> S" using win pB by (auto simp: in_window_def)
    have "e < p"
    proof (rule ccontr)
      assume "\<not> e < p"
      then have pe: "p \<le> e" by simp
      then have "e \<noteq> -1" using nn[OF pm(1)] by auto
      note e = e[OF this]
      have fS: "finite S" using sub finite_subset by blast
      have "Max S \<le> Max B" using sub pS by (intro Max_mono) auto
      moreover have "e \<le> Max S" using e fS by simp
      ultimately have "is_masked_swa n ty p (Max (B \<union> U) + 1) = Some True"
        using masked_mono[of n ty e "Max S + 1" p "Max (B \<union> U) + 1"] e pe nn[OF pm(1)] mB by auto
      with pm(2) show False by simp
    qed
    with pS show ?thesis by simp
  qed
qed

lemma plain_positions:
  assumes k: "window_ok k" and fit: "slot_takes (cells0 k) ub si xs" and v: "ubatch_valid ub" and e: "evicted (cells0 k) xs = (\<lambda>_. -1)"
    and t: "taken ub xs (purge_cell (\<lambda>_. -1)) (cells0 k) c"
  shows "seq_positions c s = seq_positions (cells0 k) s \<union> ub_positions ub s"
proof -
  have "0 \<le> p" if "p \<in> seq_positions (cells0 k) s \<union> ub_positions ub s" for p
    using that kv_cells.positions_nonneg[OF window_okD(6)[OF k]] v by (auto simp: ub_positions_def ubatch_valid_def token_valid_def)
  then have "-1 < p" if "p \<in> seq_positions (cells0 k) s \<union> ub_positions ub s" for p using that by force
  then show ?thesis using taken_positions[OF k fit v, of c s] t by (auto simp: e)
qed

definition us_positions :: "llama_ubatch list \<Rightarrow> nat \<Rightarrow> llama_pos set" where
  "us_positions us t = (\<Union>ub \<in> set us. ub_positions ub t)"

lemma runs_window:
  assumes "placed_run b us bf" "placed_run s us sf" "window_ok b" "window_ok s" "kc_swa_type b = SWA_NONE"
    "\<And>t. seq_positions (cells0 s) t \<subseteq> seq_positions (cells0 b) t"
    "ascending (\<lambda>t. seq_positions (cells0 b) t) us"
    "\<And>t. in_window (kc_n_swa s) (kc_swa_type s) (seq_positions (cells0 b) t) \<subseteq> seq_positions (cells0 s) t"
  shows "seq_positions (cells0 bf) t = seq_positions (cells0 b) t \<union> us_positions us t \<and>
    in_window (kc_n_swa s) (kc_swa_type s) (seq_positions (cells0 bf) t) \<subseteq> seq_positions (cells0 sf) t"
  using assms
proof (induction arbitrary: s rule: placed_run.induct)
  case (placed_done k)
  have "sf = s" using placed_done(1) by (rule placed_doneE) simp
  then show ?case using placed_done(7) by (simp add: us_positions_def)
next
  case (placed_more k ub si xs c us kf)
  from placed_more.prems(1) obtain si' ys c' where
    s: "slot_takes (cells0 s) ub si' ys" "slot_usable s ys" "ubatch_valid ub"
      "taken ub ys (purge_cell (evicted (cells0 s) ys)) (cells0 s) c'" "placed_run (s\<lparr>kc_cells := [c'], kc_heads := [last ys + 1]\<rparr>) us sf"
    by (auto elim: placed_moreE)
  note kb = placed_more.prems(2) and ks = placed_more.prems(3)
  note pl = plain_slot[OF kb placed_more.prems(4) placed_more.hyps(2,3)]
  have b: "taken ub xs (purge_cell (\<lambda>_. -1)) (cells0 k) c" using placed_more.hyps(5) pl(2) by simp
  have B: "seq_positions c t = seq_positions (cells0 k) t \<union> ub_positions ub t" for t
    by (rule plain_positions[OF kb placed_more.hyps(2) s(3) pl(2) b])
  have S: "seq_positions c' t = {p \<in> seq_positions (cells0 s) t \<union> ub_positions ub t. evicted (cells0 s) ys t < p}" for t
    by (rule taken_positions[OF ks s(1,3,4)])
  have fin: "finite (ub_positions ub t)" for t by (simp add: ub_positions_def)
  have nn: "0 \<le> p" if "p \<in> seq_positions (cells0 k) t \<union> ub_positions ub t" for p t
    using that kv_cells.positions_nonneg[OF window_okD(6)[OF kb]] s(3) by (auto simp: ub_positions_def ubatch_valid_def token_valid_def)
  have win: "in_window (kc_n_swa s) (kc_swa_type s) (seq_positions c t) \<subseteq> seq_positions c' t" for t
    unfolding B S
  proof (rule window_step[OF placed_more.prems(5) _ placed_more.prems(7) nn fin])
    show "finite (seq_positions (cells0 k) t)" using kv_cells.positions_finite[OF window_okD(6)[OF kb]] .
    show "\<forall>p \<in> ub_positions ub t. \<forall>q \<in> seq_positions (cells0 k) t. q < p" using placed_more.prems(6) by simp
    show "evicted (cells0 s) ys t \<in> seq_positions (cells0 s) t \<and>
      is_masked_swa (kc_n_swa s) (kc_swa_type s) (evicted (cells0 s) ys t) (Max (seq_positions (cells0 s) t) + 1) = Some True"
      if "evicted (cells0 s) ys t \<noteq> -1" using evicted_masked[OF ks s(2,1) that] by blast
  qed simp
  have w: "window_ok (k\<lparr>kc_cells := [c], kc_heads := [last xs + 1]\<rparr>)" "window_ok (s\<lparr>kc_cells := [c'], kc_heads := [last ys + 1]\<rparr>)"
    using b window_okD(8)[OF kb] slot_takes_last[OF placed_more.hyps(2)] s(4) window_okD(8)[OF ks] slot_takes_last[OF s(1)]
    by (auto intro!: window_ok_put[OF kb] window_ok_put[OF ks] simp: taken_def)
  have "seq_positions c' t \<subseteq> seq_positions c t" for t using placed_more.prems(5)[of t] unfolding B S by blast
  moreover have "ascending (\<lambda>t. seq_positions c t) us" using placed_more.prems(6) by (simp add: B)
  ultimately have "seq_positions (cells0 kf) t = seq_positions c t \<union> us_positions us t \<and>
    in_window (kc_n_swa s) (kc_swa_type s) (seq_positions (cells0 kf) t) \<subseteq> seq_positions (cells0 sf) t"
    using placed_more.IH[OF s(5)] w win placed_more.prems(4) by auto
  then show ?case by (auto simp: B us_positions_def)
qed

section \<open>Processing a context\<close>

text \<open>What decoding does with a context: apply and next, until next says that it was the last ubatch.\<close>

partial_function (option) iswa_process :: "bool \<Rightarrow> bool \<Rightarrow> bool \<times> bool \<Rightarrow> llama_kv_cache_iswa_context \<Rightarrow> llama_kv_cache_iswa \<Rightarrow> llama_kv_cache_iswa option" where
  "iswa_process step35 uses_rope computed x kv = do {
     (x, kv) \<leftarrow> iswa_context_apply step35 uses_rope computed x kv;
     (more, x) \<leftarrow> iswa_context_next x;
     if more then iswa_process step35 uses_rope computed x kv else Some kv }"

declare iswa_process.simps [code]

lemma sweep_streams: "sweep st body upd k = Some k' \<Longrightarrow> length (kc_cells k') = length (kc_cells k)"
  by (auto simp: sweep_def bind_Some_iff put_stream_def)

lemma apply_ubatch_streams: "apply_ubatch si ub k = Some k' \<Longrightarrow> length (kc_cells k') = length (kc_cells k)"
proof -
  assume a: "apply_ubatch si ub k = Some k'"
  then obtain sz rm k1 k2 where 1: "ofold (apply_token si ub sz) (List.product [0..<slot_n_stream si] [0..<sz]) (\<lambda>_. -1, k) = Some (rm, k1)"
    and 2: "ofold (purge rm) [0..<LLAMA_MAX_SEQ] k1 = Some k2" and 3: "ofold (move_head si) [0..<slot_n_stream si] k2 = Some k'"
    by (auto simp: apply_ubatch_def bind_Some_iff split: if_splits)
  have "length (kc_cells (snd (rm, k1))) = length (kc_cells k)"
    by (rule ofold_partial[OF 1, where P = "\<lambda>t. length (kc_cells (snd t)) = length (kc_cells k)"]) (auto simp: apply_token_def bind_Some_iff)
  moreover have "length (kc_cells k2) = length (kc_cells k1)"
    by (rule ofold_partial[OF 2, where P = "\<lambda>k2. length (kc_cells k2) = length (kc_cells k1)"])
      (auto simp: purge_def cache_seq_rm_def Let_def bind_Some_iff split: if_splits dest: sweep_streams)
  moreover have "length (kc_cells k') = length (kc_cells k2)"
    by (rule ofold_partial[OF 3, where P = "\<lambda>k'. length (kc_cells k') = length (kc_cells k2)"]) (auto simp: move_head_def bind_Some_iff split: if_splits)
  ultimately show "length (kc_cells k') = length (kc_cells k)" by simp
qed

text \<open>The context of one cache before ubatch \<open>i\<close>.\<close>

definition at_ubatch :: "slot_info list \<Rightarrow> llama_ubatch list \<Rightarrow> nat \<Rightarrow> llama_kv_cache_context \<Rightarrow> bool" where
  "at_ubatch sis us i x \<longleftrightarrow> cx_status x = LLAMA_MEMORY_STATUS_SUCCESS \<and> cx_i_cur x = i \<and> cx_sinfos x = sis \<and> cx_ubatches x = us"

lemma apply_at:
  assumes x: "at_ubatch sis us i x" and i: "i < length us" "length sis = length us" and st: "\<forall>si \<in> set sis. si_strm si = [0]"
    and k: "length (kc_cells k) = 1" and a: "apply_all (drop i sis) (drop i us) k = Some kf"
  shows "\<exists>x' k'. context_apply can_shift uses_rope computed x k = Some (x', k') \<and> at_ubatch sis us i x' \<and> length (kc_cells k') = 1 \<and>
    apply_all (drop (Suc i) sis) (drop (Suc i) us) k' = Some kf \<and> (\<exists>more x''. context_next x' = Some (more, x'') \<and> at_ubatch sis us (Suc i) x'')"
proof -
  have d: "drop i sis = sis ! i # drop (Suc i) sis" "drop i us = us ! i # drop (Suc i) us" using i by (simp_all add: Cons_nth_drop_Suc)
  obtain k' where k': "apply_ubatch (sis ! i) (us ! i) k = Some k'" "apply_all (drop (Suc i) sis) (drop (Suc i) us) k' = Some kf"
    using a unfolding d apply_all_Cons by (auto simp: bind_Some_iff)
  have l: "length (kc_cells k') = 1" using apply_ubatch_streams[OF k'(1)] k by simp
  have "si_strm (sis ! i) = [0]" using st i by simp
  then obtain n where n: "cache_get_n_kv k' (sis ! i) = Some n" using l by (auto simp: cache_get_n_kv_def Let_def)
  have "us \<noteq> []" using i by auto
  then have "context_apply can_shift uses_rope computed x k = Some (x\<lparr>cx_n_kv := n\<rparr>, k')"
    using x i k'(1) n by (auto simp: context_apply_def at_ubatch_def llama_memory_status_is_fail_def)
  moreover have "at_ubatch sis us i (x\<lparr>cx_n_kv := n\<rparr>)" using x by (simp add: at_ubatch_def)
  moreover have "\<exists>more x''. context_next (x\<lparr>cx_n_kv := n\<rparr>) = Some (more, x'') \<and> at_ubatch sis us (Suc i) x''"
    using x by (simp add: context_next_def at_ubatch_def Let_def)
  ultimately show ?thesis using l k'(2) by blast
qed

definition iswa_at :: "slot_info list \<Rightarrow> slot_info list \<Rightarrow> llama_ubatch list \<Rightarrow> nat \<Rightarrow> llama_kv_cache_iswa_context \<Rightarrow> bool" where
  "iswa_at sb ss us i x \<longleftrightarrow> ix_i_next x = i \<and> ix_ubatches x = us \<and> ix_status x = LLAMA_MEMORY_STATUS_SUCCESS \<and>
     (\<exists>xb. ix_base x = Some xb \<and> at_ubatch sb us i xb) \<and> (\<exists>xs. ix_swa x = Some xs \<and> at_ubatch ss us i xs)"

lemma process_all:
  assumes "iswa_at sb ss us i x" "i < length us" "length sb = length us" "length ss = length us"
    "\<forall>si \<in> set sb. si_strm si = [0]" "\<forall>si \<in> set ss. si_strm si = [0]" "length (kc_cells (iw_base kv)) = 1" "length (kc_cells (iw_swa kv)) = 1"
    "apply_all (drop i sb) (drop i us) (iw_base kv) = Some bf" "apply_all (drop i ss) (drop i us) (iw_swa kv) = Some sf"
  shows "iswa_process step35 uses_rope computed x kv = Some (kv\<lparr>iw_base := bf, iw_swa := sf\<rparr>)"
  using assms
proof (induction "length us - i" arbitrary: i x kv)
  case 0
  then show ?case by simp
next
  case (Suc n)
  from Suc.prems(1) obtain xb xs where x: "ix_i_next x = i" "ix_ubatches x = us" "ix_status x = LLAMA_MEMORY_STATUS_SUCCESS"
    "ix_base x = Some xb" "at_ubatch sb us i xb" "ix_swa x = Some xs" "at_ubatch ss us i xs" by (auto simp: iswa_at_def)
  obtain xb1 b1 m1 xb2 where b: "context_apply (cache_get_can_shift step35 (iw_base kv)) uses_rope (fst computed) xb (iw_base kv) = Some (xb1, b1)"
    "length (kc_cells b1) = 1" "apply_all (drop (Suc i) sb) (drop (Suc i) us) b1 = Some bf" "context_next xb1 = Some (m1, xb2)" "at_ubatch sb us (Suc i) xb2"
    using apply_at[OF x(5) Suc.prems(2,3,5,7,9)] by blast
  obtain xs1 s1 m2 xs2 where s: "context_apply (cache_get_can_shift step35 (iw_swa kv)) uses_rope (snd computed) xs (iw_swa kv) = Some (xs1, s1)"
    "length (kc_cells s1) = 1" "apply_all (drop (Suc i) ss) (drop (Suc i) us) s1 = Some sf" "context_next xs1 = Some (m2, xs2)" "at_ubatch ss us (Suc i) xs2"
    using apply_at[OF x(7) Suc.prems(2,4,6,8,10)] by blast
  let ?kv = "kv\<lparr>iw_base := b1, iw_swa := s1\<rparr>"
  let ?x = "x\<lparr>ix_base := Some xb2, ix_swa := Some xs2, ix_i_next := Suc i\<rparr>"
  have step: "iswa_process step35 uses_rope computed x kv = (if Suc i < length us then iswa_process step35 uses_rope computed ?x ?kv else Some ?kv)"
    using x b(1,4) s(1,4) by (subst iswa_process.simps) (auto simp: iswa_context_apply_def iswa_context_next_def llama_memory_status_is_fail_def Let_def)
  show ?case
  proof (cases "Suc i < length us")
    case True
    have "iswa_at sb ss us (Suc i) ?x" using x b(5) s(5) by (simp add: iswa_at_def)
    then have "iswa_process step35 uses_rope computed ?x ?kv = Some (?kv\<lparr>iw_base := bf, iw_swa := sf\<rparr>)"
      using Suc.hyps(1)[of "Suc i" ?x ?kv] Suc.hyps(2) True Suc.prems(3-6) b s by simp
    then show ?thesis using step True by simp
  next
    case False
    then have "b1 = bf" "s1 = sf" using b(3) s(3) Suc.prems(3,4) by (auto simp: apply_all_def)
    then show ?thesis using step False by simp
  qed
qed

section \<open>init_batch\<close>

text \<open>What an attempt needs of its split: valid ubatches in which every token has a sequence.\<close>

definition split_fit :: "(llama_batch_allocr \<Rightarrow> llama_ubatch \<times> llama_batch_allocr) \<Rightarrow> llama_batch_allocr \<Rightarrow> llama_kv_cache \<Rightarrow> bool" where
  "split_fit split balloc k \<longleftrightarrow> (\<exists>us a. split_loop split (split_reset balloc) = Some (us, a) \<and> us \<noteq> [] \<and> (\<forall>ub \<in> set us. ubatch_fit k ub) \<and>
     split_reset a = split_reset balloc)"

text \<open>
  The result of an attempt: the cache with the window is thinned at most; when there is a
  context, then processing it leads both caches through the same ubatches.
\<close>

definition try_result :: "llama_kv_cache_iswa \<Rightarrow> llama_kv_cache_iswa_context option \<Rightarrow> llama_kv_cache_iswa \<Rightarrow> bool" where
  "try_result kv r kv' \<longleftrightarrow> (\<exists>z. kv' = kv\<lparr>iw_swa := (iw_swa kv)\<lparr>kc_cells := [z]\<rparr>\<rparr> \<and> thinner z (cells0 (iw_swa kv))) \<and>
     (\<forall>x. r = Some x \<longrightarrow> ix_status x = LLAMA_MEMORY_STATUS_SUCCESS \<and> (\<exists>bf sf. placed_run (iw_base kv) (ix_ubatches x) bf \<and> placed_run (iw_swa kv) (ix_ubatches x) sf \<and>
       (\<forall>step35 uses_rope computed. iswa_process step35 uses_rope computed x kv' = Some (kv'\<lparr>iw_base := bf, iw_swa := sf\<rparr>))))"

lemma try_spec:
  assumes kv: "window_ok (iw_base kv)" "window_ok (iw_swa kv)" "kc_swa_type (iw_base kv) = SWA_NONE"
    and us: "split_loop split (split_reset balloc) = Some (us, a)" "us \<noteq> []" "\<forall>ub \<in> set us. ubatch_for (iw_base kv) ub"
  shows "\<exists>r kv'. iswa_try split balloc kv = Some (r, a, kv') \<and> try_result kv r kv' \<and> (\<forall>x. r = Some x \<longrightarrow> ix_ubatches x = us)"
proof (cases "allocr_get_n_used a < allocr_get_n_tokens a")
  case True
  have "kv = kv\<lparr>iw_swa := (iw_swa kv)\<lparr>kc_cells := [cells0 (iw_swa kv)]\<rparr>\<rparr>" using window_okD(4)[OF kv(2)] by simp
  then have "try_result kv None kv" unfolding try_result_def using thinner_refl[OF window_okD(6)[OF kv(2)]] by blast
  then show ?thesis using True us(1) by (auto simp: iswa_try_def)
next
  case False
  have us': "\<forall>ub \<in> set us. ubatch_for (iw_swa kv) ub"
    using us(3) window_okD(7)[OF kv(1)] window_okD(7)[OF kv(2)] by (simp add: ubatch_for_def)
  obtain sb where sb: "prepare us (iw_base kv) = Some (sb, iw_base kv)" "\<forall>si \<in> set sb. si_strm si = [0]"
    "sb \<noteq> [] \<longrightarrow> length sb = length us \<and> (\<exists>bf. placed_run (iw_base kv) us bf \<and> apply_all sb us (iw_base kv) = Some bf)"
    using prepare_window[OF kv(1) us(3,2)] prepare_restores[of "iw_base kv" us] us(2,3) kv(1,3) by (auto simp: plain_cache_def window_ok_def)
  obtain ss z where ss: "prepare us (iw_swa kv) = Some (ss, (iw_swa kv)\<lparr>kc_cells := [z]\<rparr>)" "thinner z (cells0 (iw_swa kv))" "\<forall>si \<in> set ss. si_strm si = [0]"
    "ss \<noteq> [] \<longrightarrow> length ss = length us \<and> (\<exists>sf. placed_run (iw_swa kv) us sf \<and> apply_all ss us ((iw_swa kv)\<lparr>kc_cells := [z]\<rparr>) = Some sf)"
    using prepare_window[OF kv(2) us' us(2)] by blast
  let ?kv = "kv\<lparr>iw_swa := (iw_swa kv)\<lparr>kc_cells := [z]\<rparr>\<rparr>"
  show ?thesis
  proof (cases "sb = []")
    case True
    have "kv = kv\<lparr>iw_swa := (iw_swa kv)\<lparr>kc_cells := [cells0 (iw_swa kv)]\<rparr>\<rparr>" using window_okD(4)[OF kv(2)] by simp
    then have "try_result kv None kv" unfolding try_result_def using thinner_refl[OF window_okD(6)[OF kv(2)]] by blast
    then show ?thesis using True False us(1) sb(1) by (auto simp: iswa_try_def)
  next
    case ne: False
    show ?thesis
    proof (cases "ss = []")
      case True
      have "try_result kv None ?kv" unfolding try_result_def using ss(2) by blast
      then show ?thesis using True ne False us(1) sb(1) ss(1) by (auto simp: iswa_try_def Let_def)
    next
      case ne': False
      obtain bf where bf: "length sb = length us" "placed_run (iw_base kv) us bf" "apply_all sb us (iw_base kv) = Some bf" using sb(3) ne by blast
      obtain sf where sf: "length ss = length us" "placed_run (iw_swa kv) us sf" "apply_all ss us ((iw_swa kv)\<lparr>kc_cells := [z]\<rparr>) = Some sf" using ss(4) ne' by blast
      let ?x = "iswa_context_batch sb ss us"
      have x: "iswa_at sb ss us 0 ?x"
        by (simp add: iswa_at_def at_ubatch_def iswa_context_batch_def iswa_context_of_def context_batch_def context_status_def llama_memory_status_combine_def)
      have "length (kc_cells (iw_base kv)) = 1" using window_okD(4)[OF kv(1)] by (metis One_nat_def length_Cons list.size(3))
      then have "iswa_process step35 uses_rope computed ?x ?kv = Some (?kv\<lparr>iw_base := bf, iw_swa := sf\<rparr>)" for step35 uses_rope computed
        using process_all[OF x, of ?kv bf sf] us(2) bf sf sb(2) ss(3) by simp
      then have "try_result kv (Some ?x) ?kv"
        unfolding try_result_def using ss(2) bf(2) sf(2) x by (auto simp: iswa_at_def)
      moreover have "ix_ubatches ?x = us" using x by (simp add: iswa_at_def)
      ultimately show ?thesis using ne ne' False us(1) sb(1) ss(1) bf(1) sf(1) by (auto simp: iswa_try_def Let_def)
    qed
  qed
qed

text \<open>Slots are found when there are as many empty cells as tokens.\<close>

definition empties :: "llama_kv_cells \<Rightarrow> nat set" where
  "empties c = {i. i < cells_size c \<and> c_pos c ! i = -1}"

lemma taken_empties:
  assumes t: "taken ub xs (purge_cell rm) c c'" and ok: "cells_ok c"
  shows "empties c - set xs \<subseteq> empties c'"
proof
  fix i assume i: "i \<in> empties c - set xs"
  then have "cell_at c' i = purge_cell rm (cell_at c i)" "c_pos c ! i = -1" "c_seq c ! i = {}"
    using t cells_okD(9)[OF ok, of i] by (auto simp: taken_def empties_def cells_size_def)
  then show "i \<in> empties c'" using i t by (auto simp: empties_def taken_def cell_at_def purge_cell_def)
qed

lemma find_slot_enough:
  assumes k: "window_ok k" and ub: "ubatch_for k ub" and n: "ub_n_tokens ub \<le> card (empties (cells0 k))" and si: "find_slot k ub False = Some si"
  shows "\<not> slot_empty si"
proof -
  note K = window_okD[OF k]
  obtain q qs where q: "ub_seq_id_unq ub = q # qs" "q < length (kc_seq_to_stream k)" and pos: "0 < ub_n_tokens ub"
    using ub by (auto simp: ubatch_for_def)
  let ?F = "{i. i < cells_size (cells0 k) \<and> usable k (cells0 k) i}"
  have "usable k (cells0 k) i" if "i \<in> empties (cells0 k)" for i
    using that cells_okD(7)[OF K(6), of i] by (auto simp: empties_def usable_def can_use_def cells_is_empty_def cells_size_def)
  then have "empties (cells0 k) \<subseteq> ?F" by (auto simp: empties_def)
  then have "card (empties (cells0 k)) \<le> card ?F" by (intro card_mono) auto
  with find_slot_spec[OF K(1-3) pos q] n si show ?thesis by (auto simp: Let_def slot_empty_def)
qed

lemma place_enough:
  assumes "window_ok k" "\<forall>ub \<in> set ubs. ubatch_for k ub" "sum_list (map ub_n_tokens ubs) \<le> card (empties (cells0 k))"
  shows "\<exists>states' kf. place_ubatches ubs states k = Some (True, states', kf) \<and> length states' = length states + length ubs"
  using assms
proof (induction ubs arbitrary: states k)
  case (Cons ub ubs)
  note K = window_okD[OF Cons.prems(1)]
  have u: "ubatch_for k ub" "ubatch_valid ub" using Cons.prems(2) by (auto simp: ubatch_for_def)
  obtain si where si: "find_slot k ub False = Some si" and alt: "slot_empty si \<or> \<not> slot_empty si \<and> (\<exists>xs. slot_takes (cells0 k) ub si xs \<and> slot_usable k xs)"
    using window_find_slot[OF Cons.prems(1) u(1)] by blast
  have ne: "\<not> slot_empty si" using find_slot_enough[OF Cons.prems(1) u(1) _ si] Cons.prems(3) by simp
  with alt obtain xs where fit: "slot_takes (cells0 k) ub si xs" by auto
  obtain c where c: "apply_ubatch si ub k = Some (k\<lparr>kc_cells := [c], kc_heads := [last xs + 1]\<rparr>)"
    "taken ub xs (purge_cell (evicted (cells0 k) xs)) (cells0 k) c" "window_ok (k\<lparr>kc_cells := [c], kc_heads := [last xs + 1]\<rparr>)"
    using window_apply[OF Cons.prems(1) fit u(2)] by blast
  obtain saved where saved: "save_cells k (zip (si_strm si) (si_idxs si)) = Some saved"
    using restore_thinned[OF Cons.prems(1) fit c(2) thinner_refl] c(2) unfolding taken_def by blast
  have "card (empties (cells0 k)) - card (set xs) \<le> card (empties (cells0 k) - set xs)" by (rule diff_card_le_card_Diff) simp
  also have "\<dots> \<le> card (empties c)" by (rule card_mono[OF _ taken_empties[OF c(2) K(6)]]) (simp add: empties_def)
  finally have "sum_list (map ub_n_tokens ubs) \<le> card (empties c)"
    using Cons.prems(3) fit by (simp add: slot_takes_def distinct_card)
  from Cons.IH[OF c(3), of "states @ [\<lparr>ps_sinfo = si, ps_heads_old = kc_heads k, ps_cells = saved\<rparr>]"] this Cons.prems(2) have
    "\<exists>states' kf. place_ubatches ubs (states @ [\<lparr>ps_sinfo = si, ps_heads_old = kc_heads k, ps_cells = saved\<rparr>]) (k\<lparr>kc_cells := [c], kc_heads := [last xs + 1]\<rparr>) =
      Some (True, states', kf) \<and> length states' = Suc (length states) + length ubs" by (auto simp: ubatch_for_def)
  then show ?case using si ne saved c(1) by auto
qed simp

lemma prepare_enough:
  assumes "window_ok k" "\<forall>ub \<in> set ubs. ubatch_for k ub" "ubs \<noteq> []" "sum_list (map ub_n_tokens ubs) \<le> card (empties (cells0 k))"
    and p: "prepare ubs k = Some (sinfos, k')"
  shows "sinfos \<noteq> []"
proof -
  obtain states' kf where "place_ubatches ubs [] k = Some (True, states', kf)" "length states' = length ubs"
    using place_enough[OF assms(1,2,4), of "[]"] by auto
  then show ?thesis using p assms(3) by (auto simp: prepare_def bind_Some_iff split: if_splits)
qed

lemma try_enough:
  assumes kv: "window_ok (iw_base kv)" "window_ok (iw_swa kv)"
    and us: "split_loop split (split_reset balloc) = Some (us, a)" "us \<noteq> []" "\<forall>ub \<in> set us. ubatch_for (iw_base kv) ub"
      "\<not> allocr_get_n_used a < allocr_get_n_tokens a"
    and n: "sum_list (map ub_n_tokens us) \<le> card (empties (cells0 (iw_base kv)))" "sum_list (map ub_n_tokens us) \<le> card (empties (cells0 (iw_swa kv)))"
    and t: "iswa_try split balloc kv = Some (r, a', kv')"
  shows "\<exists>x. r = Some x"
proof -
  have us': "\<forall>ub \<in> set us. ubatch_for (iw_swa kv) ub"
    using us(3) window_okD(7)[OF kv(1)] window_okD(7)[OF kv(2)] by (simp add: ubatch_for_def)
  show ?thesis
    using t us(1,4) prepare_enough[OF kv(1) us(3,2) n(1)] prepare_enough[OF kv(2) us' us(2) n(2)]
    by (auto simp: iswa_try_def bind_Some_iff Let_def split: if_splits)
qed

text \<open>Both caches have no shift pending.\<close>

definition settled :: "llama_kv_cache_iswa \<Rightarrow> bool" where
  "settled kv \<longleftrightarrow> \<not> c_has_shift (cells0 (iw_base kv)) \<and> \<not> c_has_shift (cells0 (iw_swa kv))"

lemma settled_window: "\<lbrakk>iswa_ok kv; settled kv\<rbrakk> \<Longrightarrow> window_ok (iw_base kv) \<and> window_ok (iw_swa kv)"
  by (simp add: iswa_ok_def settled_def window_ok_uni)

lemma owned_thin: "\<lbrakk>thinner z c; owned c\<rbrakk> \<Longrightarrow> owned z"
  by (auto simp: owned_def thinner_def intro: own_thin)

lemma thinned_ok:
  assumes kv: "iswa_ok kv" "settled kv" and z: "thinner z (cells0 (iw_swa kv))"
  shows "iswa_ok (kv\<lparr>iw_swa := (iw_swa kv)\<lparr>kc_cells := [z]\<rparr>\<rparr>) \<and> settled (kv\<lparr>iw_swa := (iw_swa kv)\<lparr>kc_cells := [z]\<rparr>\<rparr>)"
  using kv window_ok_thin[of "iw_swa kv" z] settled_window[OF kv] covers_thin[OF _ z] owned_thin[OF z] z
  by (auto simp: iswa_ok_def settled_def window_ok_uni thinner_def)

lemma processed_ok:
  assumes kv: "iswa_ok kv" "settled kv" and r: "placed_run (iw_base kv) us bf" "placed_run (iw_swa kv) us sf"
    and us: "\<forall>ub \<in> set us. ubatch_fit (iw_base kv) ub"
  shows "iswa_ok (kv\<lparr>iw_base := bf, iw_swa := sf\<rparr>) \<and> settled (kv\<lparr>iw_base := bf, iw_swa := sf\<rparr>)"
proof -
  note w = settled_window[OF kv]
  have "covers (cells0 bf) (cells0 sf) \<and> owned (cells0 bf) \<and> owned (cells0 sf)"
    by (rule runs_cover[OF r]) (use w kv us in \<open>auto simp: iswa_ok_def ubatch_fit_def\<close>)
  moreover have "window_ok bf" "window_ok sf" using placed_run_ok r w by blast+
  moreover have "kc_swa_type bf = SWA_NONE" using placed_run_fields[OF r(1)] kv(1) by (simp add: iswa_ok_def)
  ultimately show ?thesis by (simp add: iswa_ok_def settled_def window_ok_uni)
qed

lemma try_ok:
  assumes kv: "iswa_ok kv" "settled kv" and sp: "split_fit split balloc (iw_base kv)"
  shows "\<exists>r a kv'. iswa_try split balloc kv = Some (r, a, kv') \<and> try_result kv r kv' \<and> split_reset a = split_reset balloc \<and>
    (\<forall>x. r = Some x \<longrightarrow> (\<forall>ub \<in> set (ix_ubatches x). ubatch_fit (iw_base kv) ub))"
proof -
  obtain us a where us: "split_loop split (split_reset balloc) = Some (us, a)" "us \<noteq> []" "\<forall>ub \<in> set us. ubatch_fit (iw_base kv) ub" "split_reset a = split_reset balloc"
    using sp by (auto simp: split_fit_def)
  have "\<forall>ub \<in> set us. ubatch_for (iw_base kv) ub" using us(3) by (simp add: ubatch_fit_def)
  from try_spec[OF _ _ _ us(1,2) this] settled_window[OF kv] kv(1) us(3,4) show ?thesis unfolding iswa_ok_def by blast
qed

text \<open>A batch whose splits are valid for both attempts.\<close>

definition batch_ready :: "nat \<Rightarrow> llama_batch_allocr \<Rightarrow> llama_kv_cache_iswa \<Rightarrow> bool" where
  "batch_ready n balloc kv \<longleftrightarrow> (iw_unified kv \<longrightarrow> split_fit (split_simple n) balloc (iw_base kv)) \<and>
     split_fit (split_equal n (\<not> iw_unified kv)) balloc (iw_base kv)"

text \<open>What \<open>init_batch\<close> leaves behind: well-formed caches that a successful context can be processed on.\<close>

definition batch_result :: "llama_kv_cache_iswa_context \<Rightarrow> llama_kv_cache_iswa \<Rightarrow> bool" where
  "batch_result x kv \<longleftrightarrow> iswa_ok kv \<and> settled kv \<and> ix_status x \<in> {LLAMA_MEMORY_STATUS_SUCCESS, LLAMA_MEMORY_STATUS_FAILED_PREPARE} \<and>
     (ix_status x = LLAMA_MEMORY_STATUS_SUCCESS \<longrightarrow>
       (\<exists>kv'. (\<forall>step35 uses_rope computed. iswa_process step35 uses_rope computed x kv = Some kv') \<and> iswa_ok kv' \<and> settled kv'))"

lemma try_result_ok:
  assumes kv: "iswa_ok kv" "settled kv" and t: "try_result kv r kv'" and us: "\<forall>x. r = Some x \<longrightarrow> (\<forall>ub \<in> set (ix_ubatches x). ubatch_fit (iw_base kv) ub)"
  shows "iswa_ok kv'" "settled kv'" "iw_base kv' = iw_base kv" "iw_unified kv' = iw_unified kv" "r = Some x \<Longrightarrow> batch_result x kv'"
proof -
  obtain z where z: "kv' = kv\<lparr>iw_swa := (iw_swa kv)\<lparr>kc_cells := [z]\<rparr>\<rparr>" "thinner z (cells0 (iw_swa kv))" using t by (auto simp: try_result_def)
  show ok: "iswa_ok kv'" "settled kv'" using thinned_ok[OF kv z(2)] z(1) by auto
  show "iw_base kv' = iw_base kv" "iw_unified kv' = iw_unified kv" using z(1) by auto
  assume r: "r = Some x"
  with t obtain bf sf where bf: "placed_run (iw_base kv) (ix_ubatches x) bf" "placed_run (iw_swa kv) (ix_ubatches x) sf" "ix_status x = LLAMA_MEMORY_STATUS_SUCCESS"
    "\<forall>step35 uses_rope computed. iswa_process step35 uses_rope computed x kv' = Some (kv'\<lparr>iw_base := bf, iw_swa := sf\<rparr>)" by (auto simp: try_result_def)
  have "kv'\<lparr>iw_base := bf, iw_swa := sf\<rparr> = kv\<lparr>iw_base := bf, iw_swa := sf\<rparr>" using z(1) by simp
  with processed_ok[OF kv bf(1,2)] us r bf(3,4) ok show "batch_result x kv'" by (simp add: batch_result_def)
qed

lemma init_batch_ok:
  assumes kv: "iswa_ok kv" "settled kv" and b: "batch_ready n balloc kv"
  shows "\<exists>x a kv'. iswa_init_batch n balloc kv = Some (x, a, kv') \<and> batch_result x kv'"
proof -
  obtain r a kv1 where 1: "(if \<not> iw_unified kv then Some (None, balloc, kv) else iswa_try (split_simple n) balloc kv) = Some (r, a, kv1)"
    "iswa_ok kv1" "settled kv1" "iw_base kv1 = iw_base kv" "iw_unified kv1 = iw_unified kv" "split_reset a = split_reset balloc" "\<forall>x. r = Some x \<longrightarrow> batch_result x kv1"
  proof (cases "iw_unified kv")
    case True
    with b have "split_fit (split_simple n) balloc (iw_base kv)" by (simp add: batch_ready_def)
    from try_ok[OF kv this] try_result_ok[OF kv] True show ?thesis using that by (metis (no_types, lifting))
  next
    case False
    then show ?thesis using that[of None balloc kv] kv by simp
  qed
  show ?thesis
  proof (cases r)
    case (Some x)
    with 1 show ?thesis by (auto simp: iswa_init_batch_def)
  next
    case None
    have "split_fit (split_equal n (\<not> iw_unified kv1)) a (iw_base kv1)" using b 1(4-6) by (simp add: batch_ready_def split_fit_def)
    from try_ok[OF 1(2,3) this] obtain r2 a2 kv2 where 2: "iswa_try (split_equal n (\<not> iw_unified kv1)) a kv1 = Some (r2, a2, kv2)" "try_result kv1 r2 kv2"
      "\<forall>x. r2 = Some x \<longrightarrow> (\<forall>ub \<in> set (ix_ubatches x). ubatch_fit (iw_base kv1) ub)" by blast
    note R = try_result_ok[OF 1(2,3) 2(2,3)]
    have "batch_result (iswa_context_status LLAMA_MEMORY_STATUS_FAILED_PREPARE) kv2" using R(1,2) by (simp add: batch_result_def iswa_context_status_def)
    then show ?thesis using 1(1) None 2(1) R(5) by (cases r2) (auto simp: iswa_init_batch_def)
  qed
qed

end
