(* ===== verification/Iswa_Correct.thy ===== *)
theory Iswa_Correct
  imports Iswa_Batch
begin

text \<open>
  The composition: a batch that \<open>llama_batch_allocr::init\<close> accepts can be placed in the two caches,
  and in every state reachable through the operations of \<open>llama_kv_cache_iswa\<close> the base cache
  holds every position that the cache with the window holds.
\<close>

section \<open>Accepted batches\<close>

text \<open>What is asked of a batch beyond its acceptance: no negative positions, and no sequence twice for a token.\<close>

definition batch_apt :: "llama_batch_allocr \<Rightarrow> bool" where
  "batch_apt a \<longleftrightarrow> (\<forall>i < a_n_tokens a. 0 \<le> a_pos a ! i \<and> distinct (tok_seqs (a_n_seq_id a) (a_seq_id a) i)) \<and> 0 < a_n_pos_per_embd a"

lemma tok_seqs_valid:
  assumes wf: "batch_wf b" and ck: "check_seq_ids n_seq_max b = None" and n: "0 < n_seq_max" and i: "i < b_n_tokens b"
    and s: "s \<in> set (tok_seqs (fill_n_seq_id b) (fill_seq_id b) i)"
  shows "0 \<le> s \<and> s < int n_seq_max"
proof (cases "b_seq_id b")
  case None
  then have "b_n_seq_id b = None" using wf by (auto simp: batch_wf_def split: option.splits)
  then show ?thesis using None s i n by (auto simp: tok_seqs_def fill_n_seq_id_def fill_seq_id_def)
next
  case (Some sid)
  then obtain ns where ns: "b_n_seq_id b = Some ns" using wf by (auto simp: batch_wf_def split: option.splits)
  obtain j where j: "j < ns ! i" "j < length (sid ! i)" "s = sid ! i ! j"
    using s Some ns by (auto simp: tok_seqs_def fill_n_seq_id_def fill_seq_id_def in_set_conv_nth)
  from ck i Some ns have "\<forall>j \<in> {0..<ns ! i}. \<not> (sid ! i ! j < 0 \<or> sid ! i ! j \<ge> int n_seq_max)"
    by (auto simp: check_seq_ids_def first_error_None split: if_splits)
  from bspec[OF this, of j] j show ?thesis by auto
qed

lemma rows_fit:
  assumes init: "allocr_init b n_vocab memory n_embd n_seq_max output_all a0 = Some (Inr a)" and wf: "batch_wf b" and apt: "batch_apt a" and n: "0 < n_seq_max"
    and r: "ubatch_rows a idxs u" and i: "idxs \<noteq> []" "\<forall>i \<in> set idxs. i < b_n_tokens b" and k: "length (kc_seq_to_stream k) = LLAMA_MAX_SEQ"
  shows "ubatch_fit k u"
proof -
  note I = allocr_init_Inr[OF init] and R = init_ready[OF init wf]
  have sm: "a_n_seq_max a = n_seq_max" using I(5) by (auto simp: init_stats_fields)
  have np: "[0..<a_n_pos_per_embd a] = 0 # [1..<a_n_pos_per_embd a]" using apt by (simp add: batch_apt_def upt_conv_Cons)
  have pos: "ub_pos u ! j = a_pos a ! (idxs ! j)" if "j < length idxs" for j
    using r that by (simp add: ubatch_rows_def np nth_append)
  have seqs: "ub_seqs u j = tok_seqs (a_n_seq_id a) (a_seq_id a) (idxs ! j)" if "j < length idxs" for j
    using r that by (simp add: ubatch_rows_def ub_seqs_def tok_seqs_def)
  have idx: "idxs ! j < b_n_tokens b" if "j < length idxs" for j using i(2) that by simp
  have ids: "0 \<le> s \<and> s < int n_seq_max" if "j < length idxs" "s \<in> set (ub_seqs u j)" for j s
    using tok_seqs_valid[OF wf I(4) n idx[OF that(1)]] that(2) seqs[OF that(1)] R(9,10) by simp
  have ne: "ub_seqs u j \<noteq> []" if "j < length idxs" for j
    using fill_seq_id_rows[OF wf idx[OF that]] seqs[OF that] R(9,10) by (auto simp: tok_seqs_def)
  have nt: "ub_n_tokens u = length idxs" using r by (simp add: ubatch_rows_def)
  have "token_valid u j" if j: "j < length idxs" for j
  proof -
    have "ub_n_seq_id u ! j \<le> length (ub_seq_id u ! j)"
      using r j fill_seq_id_rows[OF wf idx[OF j]] R(9,10) by (simp add: ubatch_rows_def tok_seqs_def)
    moreover have "0 \<le> ub_pos u ! j" "distinct (ub_seqs u j)" using apt idx[OF j] R(3) by (auto simp: batch_apt_def pos[OF j] seqs[OF j])
    moreover have "valid_seq_id s" if "s \<in> set (ub_seqs u j)" for s using ids[OF j that] I(2) by (simp add: valid_seq_id_def)
    ultimately show ?thesis by (simp add: token_valid_def)
  qed
  then have v: "ubatch_valid u" by (simp add: ubatch_valid_def nt)
  obtain s where s: "s \<in> set (ub_seqs u 0)" using ne[of 0] i(1) by (cases "ub_seqs u 0") auto
  have "ub_seqs u 0 = ub_seq_id u ! 0" "ub_seq_id u ! 0 \<in> set (ub_seq_id u)" using r i(1) seqs[of 0] by (auto simp: ubatch_rows_def)
  then have "s \<in> set (concat (ub_seq_id u))" using s by auto
  then have "nat s \<in> set (ub_seq_id_unq u)" using r ids[of 0 s] s i(1) sm by (auto simp: ubatch_rows_def unq_ids_def nat_less_iff)
  moreover have "set (ub_seq_id_unq u) \<subseteq> {..<n_seq_max}" using r sm by (auto simp: ubatch_rows_def unq_ids_def)
  ultimately have "\<exists>q qs. ub_seq_id_unq u = q # qs \<and> q < length (kc_seq_to_stream k)"
    using I(2) k by (cases "ub_seq_id_unq u") auto
  then show ?thesis using v ne nt i(1) by (auto simp: ubatch_fit_def ubatch_for_def)
qed

lemma split_reset_same: "same_batch a a' \<Longrightarrow> split_reset a' = split_reset a"
  by (auto simp: same_batch_def split_reset_def allocr_get_n_tokens_def)

lemma accepted_split_fit:
  assumes init: "allocr_init b n_vocab memory n_embd n_seq_max output_all a0 = Some (Inr a)" and wf: "batch_wf b" and apt: "batch_apt a" and n: "0 < n_seq_max"
    and run: "split_run split pick a parts us a'" and k: "length (kc_seq_to_stream k) = LLAMA_MAX_SEQ"
  shows "split_fit split a k"
proof -
  note I = allocr_init_Inr[OF init] and R = init_ready[OF init wf]
  have "split_reset (split_reset x) = split_reset x" for x by (simp add: split_reset_def allocr_get_n_tokens_def)
  then have ra: "split_reset a = a" using I(5) by metis
  have parts: "set (concat parts) = {..<b_n_tokens b}"
    using split_run_parts[OF run] simple_split.inv_ok[OF R(1)] R(3,8) by auto
  have rows: "list_all2 (ubatch_rows a) parts us" using split_run_rows[OF run] .
  have "ubatch_fit k u" if "u \<in> set us" for u
  proof -
    from that obtain i where i: "i < length us" "u = us ! i" by (auto simp: in_set_conv_nth)
    with rows have "parts ! i \<in> set parts" "ubatch_rows a (parts ! i) u" by (auto simp: list_all2_conv_all_nth)
    then obtain idxs where p: "idxs \<in> set parts" "ubatch_rows a idxs u" by blast
    have "idxs \<noteq> []" using split_run_pos[OF run] that p(2) by (auto simp: ubatch_rows_def)
    moreover have "\<forall>i \<in> set idxs. i < b_n_tokens b" using parts p(1) by auto
    ultimately show ?thesis using rows_fit[OF init wf apt n p(2)] k by blast
  qed
  moreover have "us \<noteq> []" using rows parts I(1) by (auto simp: lessThan_empty_iff)
  moreover have "split_loop split (split_reset a) = Some (us, a')" using split_run_loop[OF run] ra by simp
  moreover have "split_reset a' = split_reset a" using split_reset_same[OF split_run_same[OF run]] .
  ultimately show ?thesis unfolding split_fit_def by blast
qed

lemma accepted_ready:
  assumes init: "allocr_init b n_vocab memory n_embd n_seq_max output_all a0 = Some (Inr a)" and wf: "batch_wf b" and apt: "batch_apt a" and n: "0 < n_seq_max"
    and kv: "iswa_ok kv" and cpl: "iw_unified kv \<or> \<not> a_has_cpl a"
  shows "batch_ready n_ubatch a kv"
proof -
  note R = init_ready[OF init wf]
  have k: "length (kc_seq_to_stream (iw_base kv)) = LLAMA_MAX_SEQ" using kv by (simp add: iswa_ok_def uni_ok_def)
  obtain parts us a' where "split_run (split_simple n_ubatch) (simple_pick n_ubatch) a parts us a'"
    using simple_split.split_loop_total[OF R(1)] by blast
  then have "split_fit (split_simple n_ubatch) a (iw_base kv)" by (rule accepted_split_fit[OF init wf apt n _ k])
  moreover obtain parts us a' where "split_run (split_equal n_ubatch (\<not> iw_unified kv)) (equal_pick n_ubatch (\<not> iw_unified kv)) a parts us a'"
    using equal_split.split_loop_total[OF R(7)[of "\<not> iw_unified kv"]] cpl by blast
  then have "split_fit (split_equal n_ubatch (\<not> iw_unified kv)) a (iw_base kv)" by (rule accepted_split_fit[OF init wf apt n _ k])
  ultimately show ?thesis by (simp add: batch_ready_def)
qed

section \<open>Updates\<close>

lemma uni_ok_sc: "uni_ok (k\<lparr>kc_sc_info := sc\<rparr>) = uni_ok k"
  by (simp add: uni_ok_def cache_ok_def swa_ok_def)

text \<open>Only the pending shifts and the list of stream copies differ.\<close>

definition same_cells :: "llama_kv_cache \<Rightarrow> llama_kv_cache \<Rightarrow> bool" where
  "same_cells k k' \<longleftrightarrow> uni_ok k' \<and> kc_swa_type k' = kc_swa_type k \<and> cells_size (cells0 k') = cells_size (cells0 k) \<and>
     (\<forall>i < cells_size (cells0 k). fst (cell_at (cells0 k') i) = fst (cell_at (cells0 k) i) \<and> cell_seqs (cell_at (cells0 k') i) = cell_seqs (cell_at (cells0 k) i))"

lemma same_cells_ok:
  assumes "iswa_ok kv" "same_cells (iw_base kv) b" "same_cells (iw_swa kv) s"
  shows "iswa_ok (kv\<lparr>iw_base := b, iw_swa := s\<rparr>)"
  using assms by (auto simp: iswa_ok_def same_cells_def covers_def owned_def own_def)

lemma reset_shift_same:
  assumes k: "uni_ok k"
  shows "same_cells k (cache_reset_shift k)"
proof -
  note K = uni_okD[OF k]
  have eq: "cache_reset_shift k = k\<lparr>kc_cells := [cells_reset_shift (cells0 k)]\<rparr>" unfolding cache_reset_shift_def by (subst K(3)) simp
  have "cells_ok (cells_reset_shift (cells0 k))" "cells_size (cells_reset_shift (cells0 k)) = cells_size (cells0 k)"
    using cells_reset_shift_ok[OF K(5)] by (auto simp: cells_reset_shift_def cells_size_def)
  then show ?thesis unfolding eq using k
    by (auto simp: same_cells_def uni_ok_def cache_ok_def swa_ok_def cell_at_def cells_reset_shift_def)
qed

lemma update_same:
  assumes k: "uni_ok k" and u: "cache_init_update k = Some (x, k1)" and a: "context_apply can_shift uses_rope computed x k1 = Some (x', k2)"
  shows "same_cells k k2"
proof -
  have k1: "k1 = k\<lparr>kc_sc_info := \<lparr>sc_ssrc = [], sc_sdst = []\<rparr>\<rparr>" "cx_ubatches x = []"
    using u by (auto simp: cache_init_update_def context_update_def context_status_def bind_Some_iff)
  have w: "uni_ok k1" using k by (simp add: k1 uni_ok_sc)
  have "k2 = k1 \<or> k2 = cache_reset_shift k1"
    using a k1(2) by (auto simp: context_apply_def cache_update_def bind_Some_iff split: if_splits)
  moreover have "same_cells k k1" using w by (simp add: same_cells_def k1)
  moreover have "same_cells k (cache_reset_shift k1)" using reset_shift_same[OF w] by (simp add: same_cells_def k1)
  ultimately show ?thesis by blast
qed

lemma iswa_update_ok:
  assumes kv: "iswa_ok kv" and u: "iswa_init_update kv = Some (x, kv1)" and a: "iswa_context_apply step35 uses_rope computed x kv1 = Some (x', kv2)"
  shows "iswa_ok kv2"
proof -
  obtain xb b xs s where bs: "cache_init_update (iw_base kv) = Some (xb, b)" "cache_init_update (iw_swa kv) = Some (xs, s)"
    "x = iswa_context_of [] xb xs" "kv1 = kv\<lparr>iw_base := b, iw_swa := s\<rparr>"
    using u by (auto simp: iswa_init_update_def bind_Some_iff)
  obtain xb' b' xs' s' where r: "context_apply (cache_get_can_shift step35 b) uses_rope (fst computed) xb b = Some (xb', b')"
    "context_apply (cache_get_can_shift step35 s) uses_rope (snd computed) xs s = Some (xs', s')" "kv2 = kv\<lparr>iw_base := b', iw_swa := s'\<rparr>"
    using a by (auto simp: bs(3,4) iswa_context_apply_def iswa_context_of_def bind_Some_iff split: if_splits)
  from same_cells_ok[OF kv] update_same[OF _ bs(1) r(1)] update_same[OF _ bs(2) r(2)] kv show ?thesis unfolding r(3) iswa_ok_def by blast
qed

section \<open>Reachable states\<close>

text \<open>
  The runs considered: two new caches that are unified or made for one sequence, with a chunk size
  other than 0 when the window is chunked, and from there any operations with sequence ids in range (or -1 for
  \<open>seq_rm\<close>), a copy to a sequence that is in none of the copied cells, shifts and divisions of a
  sequence with cells of its own that stay within 32 bits, updates, and batches when no shift is
  pending. A context that was obtained for a batch may be processed in full or dropped. Caches
  with several streams, a restored state (\<open>state_read\<close>) and a batch processed in part are not among
  them, nor are shifts of shared cells, which can part the two caches (\<open>shared_shift_diverges\<close>).
\<close>

inductive iswa_reach :: "llama_kv_cache_iswa \<Rightarrow> bool" where
  reach_new: "\<lbrakk>iswa_new swa_full unified kv_size n_seq_max n_ubatch n_pad n_swa swa_type n_pos = Some kv; unified \<or> n_seq_max = 1;
     swa_type = SWA_CHUNKED \<longrightarrow> n_swa \<noteq> 0; n_seq_max \<le> LLAMA_MAX_SEQ\<rbrakk> \<Longrightarrow> iswa_reach kv"
| reach_clear: "iswa_reach kv \<Longrightarrow> iswa_reach (iswa_clear kv)"
| reach_rm: "\<lbrakk>iswa_reach kv; valid_seq_id s \<or> s = -1; iswa_seq_rm s p0 p1 kv = Some kv'\<rbrakk> \<Longrightarrow> iswa_reach kv'"
| reach_keep: "\<lbrakk>iswa_reach kv; valid_seq_id s; iswa_seq_keep s kv = Some kv'\<rbrakk> \<Longrightarrow> iswa_reach kv'"
| reach_cp: "\<lbrakk>iswa_reach kv; valid_seq_id s; valid_seq_id d; s \<noteq> d; cp_fresh s d p0 p1 (iw_base kv); iswa_seq_cp s d p0 p1 kv = Some kv'\<rbrakk> \<Longrightarrow> iswa_reach kv'"
| reach_add: "\<lbrakk>iswa_reach kv; valid_seq_id s; seq_alone s (iw_base kv); add_fits s p0 p1 m (iw_base kv); add_fits s p0 p1 m (iw_swa kv);
     iswa_seq_add s p0 p1 m kv = Some kv'\<rbrakk> \<Longrightarrow> iswa_reach kv'"
| reach_div: "\<lbrakk>iswa_reach kv; valid_seq_id s; seq_alone s (iw_base kv); div_fits s p0 p1 d (iw_base kv); div_fits s p0 p1 d (iw_swa kv);
     iswa_seq_div s p0 p1 d kv = Some kv'\<rbrakk> \<Longrightarrow> iswa_reach kv'"
| reach_update: "\<lbrakk>iswa_reach kv; iswa_init_update kv = Some (x, kv1); iswa_context_apply step35 uses_rope computed x kv1 = Some (x', kv2)\<rbrakk> \<Longrightarrow> iswa_reach kv2"
| reach_batch: "\<lbrakk>iswa_reach kv; settled kv; batch_ready n balloc kv; iswa_init_batch n balloc kv = Some (x, a, kv')\<rbrakk> \<Longrightarrow> iswa_reach kv'"
| reach_process: "\<lbrakk>iswa_reach kv; settled kv; batch_ready n balloc kv; iswa_init_batch n balloc kv = Some (x, a, kv1);
     ix_status x = LLAMA_MEMORY_STATUS_SUCCESS; iswa_process step35 uses_rope computed x kv1 = Some kv2\<rbrakk> \<Longrightarrow> iswa_reach kv2"

lemma iswa_reach_ok: "iswa_reach kv \<Longrightarrow> iswa_ok kv"
proof (induction rule: iswa_reach.induct)
  case reach_new
  then show ?case by (rule iswa_new_ok)
next
  case (reach_clear kv)
  then show ?case using iswa_clear_ok by blast
next
  case (reach_rm kv s p0 p1 kv')
  then show ?case using iswa_seq_rm_ok[of kv s p0 p1] by auto
next
  case (reach_keep kv s kv')
  then show ?case using iswa_seq_keep_ok[of kv s] by auto
next
  case (reach_cp kv s d p0 p1 kv')
  then show ?case using iswa_seq_cp_ok[of kv s d p0 p1] by auto
next
  case (reach_add kv s p0 p1 m kv')
  then show ?case using iswa_seq_add_ok[of kv s p0 p1 m] by auto
next
  case (reach_div kv s p0 p1 d kv')
  then show ?case using iswa_seq_div_ok[of kv s p0 p1 d] by auto
next
  case reach_update
  then show ?case using iswa_update_ok by blast
next
  case (reach_batch kv n balloc x a kv')
  then show ?case using init_batch_ok[of kv n balloc] by (auto simp: batch_result_def)
next
  case (reach_process kv n balloc x a kv1 step35 uses_rope computed kv2)
  then show ?case using init_batch_ok[of kv n balloc] by (cases computed) (auto simp: batch_result_def)
qed

text \<open>The memory interface: the extremes of a sequence are those of the cache with the window.\<close>

interpretation iswa: seq_memory iswa_ok "\<lambda>kv. cache_positions (iw_swa kv)" iswa_seq_pos_min iswa_seq_pos_max "\<lambda>_. valid_seq_id"
proof
  fix kv s
  assume kv: "iswa_ok kv"
  then have k: "cache_ok (iw_swa kv)" "length (kc_seq_to_stream (iw_swa kv)) = LLAMA_MAX_SEQ" by (auto simp: iswa_ok_def uni_ok_def)
  show "finite (cache_positions (iw_swa kv) t)" "p \<in> cache_positions (iw_swa kv) t \<Longrightarrow> 0 \<le> p" for t p
    using kv_cache.positions_finite[OF k(1)] kv_cache.positions_nonneg[OF k(1)] by auto
  assume "valid_seq_id s"
  then have "known_seq (iw_swa kv) s" using k(2) by (simp add: valid_seq_id_def)
  then show "iswa_seq_pos_min s kv = Some (if cache_positions (iw_swa kv) (nat s) = {} then -1 else Min (cache_positions (iw_swa kv) (nat s)))"
    "iswa_seq_pos_max s kv = Some (if cache_positions (iw_swa kv) (nat s) = {} then -1 else Max (cache_positions (iw_swa kv) (nat s)))"
    using kv_cache.pos_min_eq[OF k(1)] kv_cache.pos_max_eq[OF k(1)] by (auto simp: iswa_seq_pos_min_def iswa_seq_pos_max_def)
qed

lemma iswa_positions: "iswa_ok kv \<Longrightarrow> cache_positions (iw_swa kv) t \<subseteq> cache_positions (iw_base kv) t"
  using covers_positions[of "cells0 (iw_base kv)" "cells0 (iw_swa kv)" t] by (auto simp: iswa_ok_def uni_positions)


section \<open>The window\<close>

text \<open>The cache with the window holds every position of the base cache that the next token may look at.\<close>

definition window_full :: "llama_kv_cache_iswa \<Rightarrow> bool" where
  "window_full kv \<longleftrightarrow> (\<forall>t. in_window (kc_n_swa (iw_swa kv)) (kc_swa_type (iw_swa kv)) (cache_positions (iw_base kv) t) \<subseteq> cache_positions (iw_swa kv) t)"

lemma uni_positions_eq: "uni_ok k \<Longrightarrow> cache_positions k = seq_positions (cells0 k)"
proof
  fix t assume k: "uni_ok k"
  have "seq_positions (cells0 k) t = {}" if "\<not> t < LLAMA_MAX_SEQ"
    using cells_okD(8)[OF uni_okD(5)[OF k]] that by (auto simp: seq_positions_def)
  then show "cache_positions k t = seq_positions (cells0 k) t" using uni_positions[OF k] by simp
qed

text \<open>
  C6: The window is complete. If the cache with the window holds, for every sequence, all
  positions that its next token may look at, and an attempt of \<open>init_batch\<close> succeeds for ubatches
  that continue the sequences, then processing them does not abort; the base cache gains
  exactly the positions of the batch, and the cache with the window again holds all positions
  that the next token may look at.
\<close>

theorem iswa_window_complete:
  assumes r: "iswa_reach kv" "settled kv" and win: "window_full kv" and fit: "split_fit split balloc (iw_base kv)"
    and tr: "iswa_try split balloc kv = Some (Some x, a, kv')" and asc: "ascending (cache_positions (iw_base kv)) (ix_ubatches x)"
  shows "\<exists>kv''. iswa_process step35 uses_rope computed x kv' = Some kv'' \<and> window_full kv'' \<and>
    (\<forall>t. cache_positions (iw_base kv'') t = cache_positions (iw_base kv) t \<union> us_positions (ix_ubatches x) t)"
proof -
  have ok: "iswa_ok kv" using iswa_reach_ok[OF r(1)] .
  note w = settled_window[OF ok r(2)]
  have u: "uni_ok (iw_base kv)" "uni_ok (iw_swa kv)" using ok by (auto simp: iswa_ok_def)
  from try_ok[OF ok r(2) fit] tr have t: "try_result kv (Some x) kv'" by auto
  then obtain bf sf where bf: "placed_run (iw_base kv) (ix_ubatches x) bf" "placed_run (iw_swa kv) (ix_ubatches x) sf"
    "iswa_process step35 uses_rope computed x kv' = Some (kv'\<lparr>iw_base := bf, iw_swa := sf\<rparr>)" by (cases computed) (auto simp: try_result_def)
  have wf: "window_ok bf" "window_ok sf" using placed_run_ok bf w by blast+
  then have uf: "uni_ok bf" "uni_ok sf" by (auto simp: window_ok_uni)
  have *: "seq_positions (cells0 bf) t = seq_positions (cells0 (iw_base kv)) t \<union> us_positions (ix_ubatches x) t \<and>
      in_window (kc_n_swa (iw_swa kv)) (kc_swa_type (iw_swa kv)) (seq_positions (cells0 bf) t) \<subseteq> seq_positions (cells0 sf) t" for t
  proof (rule runs_window[OF bf(1,2)])
    show "seq_positions (cells0 (iw_swa kv)) t \<subseteq> seq_positions (cells0 (iw_base kv)) t" for t
      using iswa_positions[OF ok] by (simp add: uni_positions_eq[OF u(1)] uni_positions_eq[OF u(2)])
    show "in_window (kc_n_swa (iw_swa kv)) (kc_swa_type (iw_swa kv)) (seq_positions (cells0 (iw_base kv)) t) \<subseteq> seq_positions (cells0 (iw_swa kv)) t" for t
      using win by (simp add: window_full_def uni_positions_eq[OF u(1)] uni_positions_eq[OF u(2)])
  qed (use w ok asc uni_positions_eq[OF u(1)] in \<open>auto simp: iswa_ok_def\<close>)
  have "window_full (kv'\<lparr>iw_base := bf, iw_swa := sf\<rparr>)"
    using conjunct2[OF *] placed_run_fields[OF bf(2)] by (simp add: window_full_def uni_positions_eq[OF uf(1)] uni_positions_eq[OF uf(2)])
  with * bf(3) show ?thesis by (simp add: uni_positions_eq[OF uf(1)] uni_positions_eq[OF u(1)])
qed

section \<open>An example\<close>

text \<open>Two new caches, and a batch of one token without a position.\<close>

definition one_token :: llama_batch where
  "one_token = llama_batch_get_one [7]"

definition one_allocr :: llama_batch_allocr where
  "one_allocr = split_reset (init_stats (init_fill one_token [0] 4 2 False (allocr_new 1)))"

lemma one_wf: "batch_wf one_token"
  by (simp add: batch_wf_def one_token_def llama_batch_get_one_def)

lemma one_init: "allocr_init one_token 10 None 4 2 False (allocr_new 1) = Some (Inr one_allocr)"
proof -
  have "allocr_init one_token 10 None 4 2 False (allocr_new 1) =
    Some (Inr (split_reset (init_stats (init_fill one_token (map (auto_pos None one_token) [0..<b_n_tokens one_token]) 4 2 False (allocr_new 1)))))"
  proof (rule init_auto_accepts)
    show "check_tokens 10 one_token = None" "check_seq_ids 2 one_token = None" by code_simp+
  qed (use one_wf in \<open>auto simp: single_seq_def fill_n_seq_id_def tok_seq_def fill_seq_id_def one_token_def llama_batch_get_one_def
      LLAMA_MAX_SEQ_def allocr_new_def pos_room_def next_pos_def i32_max_def\<close>)
  moreover have "map (auto_pos None one_token) [0..<b_n_tokens one_token] = [0]"
    by (simp add: one_token_def llama_batch_get_one_def auto_pos_def next_pos_def)
  ultimately show ?thesis by (simp add: one_allocr_def)
qed

lemma one_apt: "batch_apt one_allocr"
proof -
  have "a_n_pos_per_embd one_allocr = 1" by (simp add: one_allocr_def init_stats_fields allocr_new_def)
  moreover have "a_n_tokens one_allocr = 1" "a_pos one_allocr = [0]" "a_n_seq_id one_allocr = [1]" "a_seq_id one_allocr = [[0]]"
    by (simp_all add: one_allocr_def init_stats_fields one_token_def llama_batch_get_one_def fill_n_seq_id_def fill_seq_id_def)
  ultimately show ?thesis by (simp add: batch_apt_def tok_seqs_def)
qed

lemma example_iswa:
  "\<exists>kv. iswa_new False True 4 2 2 1 2 SWA_STANDARD 1 = Some kv \<and> iswa_reach kv \<and> iswa_ok kv \<and> settled kv \<and> window_full kv \<and>
     cache_positions (iw_base kv) = (\<lambda>_. {}) \<and> 1 \<le> card (empties (cells0 (iw_base kv))) \<and> 1 \<le> card (empties (cells0 (iw_swa kv)))"
proof -
  obtain b s where b: "cache_new True 4 2 1 0 SWA_NONE 1 = Some b" and s: "cache_new True 256 2 1 2 SWA_STANDARD 1 = Some s"
    by (simp add: cache_new_def)
  have sz: "iswa_size_swa False True 4 2 2 2 = 256" by (simp add: iswa_size_swa_def)
  have new: "iswa_new False True 4 2 2 1 2 SWA_STANDARD 1 = Some \<lparr>iw_unified = True, iw_base = b, iw_swa = s\<rparr>"
    unfolding iswa_new_def sz b s by simp
  have r: "iswa_reach \<lparr>iw_unified = True, iw_base = b, iw_swa = s\<rparr>" by (rule reach_new[OF new]) (auto simp: LLAMA_MAX_SEQ_def)
  have B: "uni_ok b" "\<forall>i < cells_size (cells0 b). c_pos (cells0 b) ! i = -1" "\<not> c_has_shift (cells0 b)"
    using cache_new_uni[OF b] by (auto simp: LLAMA_MAX_SEQ_def)
  have S: "uni_ok s" "\<forall>i < cells_size (cells0 s). c_pos (cells0 s) ! i = -1" "\<not> c_has_shift (cells0 s)"
    using cache_new_uni[OF s] by (auto simp: LLAMA_MAX_SEQ_def)
  have size: "cells_size (cells0 b) = 4" "cells_size (cells0 s) = 256"
    using b s by (auto simp: cache_new_def cells_size_def cells_resize_def cells_reset_def cells_new_def)
  have p: "cache_positions b = (\<lambda>_. {})"
    using B cells_okD(9)[OF uni_okD(5)[OF B(1)]] by (auto simp: uni_positions_eq seq_positions_def cells_size_def fun_eq_iff)
  have "empties (cells0 b) = {..<4}" "empties (cells0 s) = {..<256}" using B(2) S(2) size by (auto simp: empties_def)
  then show ?thesis using new r iswa_reach_ok[OF r] p B(3) S(3) by (auto simp: settled_def window_full_def in_window_def)
qed


lemma one_split: "\<exists>u a. split_loop (split_simple 2) (split_reset one_allocr) = Some ([u], a) \<and> ub_n_tokens u = 1 \<and> \<not> allocr_get_n_used a < allocr_get_n_tokens a"
proof -
  note R = init_ready[OF one_init one_wf]
  have n: "b_n_tokens one_token = 1" by (simp add: one_token_def llama_batch_get_one_def)
  obtain parts us a where run: "split_run (split_simple 2) (simple_pick 2) one_allocr parts us a"
    using simple_split.split_loop_total[OF R(1)] by blast
  have c: "concat parts = [0]" using simple_split.parts_in_order[OF run R(1)] R(2,3) n by simp
  have rows: "list_all2 (ubatch_rows one_allocr) parts us" using split_run_rows[OF run] .
  have ne: "[] \<notin> set parts"
  proof
    assume "[] \<in> set parts"
    then obtain i where "i < length us" "ubatch_rows one_allocr [] (us ! i)" using rows by (auto simp: list_all2_conv_all_nth in_set_conv_nth)
    then have "us ! i \<in> set us" "ub_n_tokens (us ! i) = 0" by (auto simp: ubatch_rows_def)
    then show False using split_run_pos[OF run] by auto
  qed
  have "parts = [[0]]"
  proof (cases parts)
    case (Cons p ps)
    then have "p = [0] \<and> concat ps = []" using c ne by (cases p) auto
    moreover from this have "ps = []" using ne Cons by (cases ps) auto
    ultimately show ?thesis using Cons by simp
  qed (use c in simp)
  then obtain u where u: "us = [u]" "ub_n_tokens u = 1" using rows by (auto simp: list_all2_Cons1 ubatch_rows_def)
  have "split_reset one_allocr = one_allocr" by (simp add: one_allocr_def split_reset_def allocr_get_n_tokens_def)
  moreover have "a_n_used a = a_n_tokens a" using split_run_parts[OF run simple_split.inv_ok[OF R(1)]] by blast
  ultimately show ?thesis using split_run_loop[OF run] u by (auto simp: allocr_get_n_used_def allocr_get_n_tokens_def)
qed

theorem iswa_window_complete_witness:
  "\<exists>kv x a kv' kv''. iswa_new False True 4 2 2 1 2 SWA_STANDARD 1 = Some kv \<and> iswa_try (split_simple 2) one_allocr kv = Some (Some x, a, kv') \<and>
     iswa_process False True (True, True) x kv' = Some kv'' \<and> window_full kv''"
proof -
  obtain kv where kv: "iswa_new False True 4 2 2 1 2 SWA_STANDARD 1 = Some kv" "iswa_reach kv" "iswa_ok kv" "settled kv" "window_full kv"
    "cache_positions (iw_base kv) = (\<lambda>_. {})" "1 \<le> card (empties (cells0 (iw_base kv)))" "1 \<le> card (empties (cells0 (iw_swa kv)))"
    using example_iswa by blast
  note w = settled_window[OF kv(3,4)]
  have u: "iw_unified kv" using kv(1) by (auto simp: iswa_new_def bind_Some_iff)
  have "batch_ready 2 one_allocr kv" by (rule accepted_ready[OF one_init one_wf one_apt _ kv(3)]) (auto simp: u)
  then have fit: "split_fit (split_simple 2) one_allocr (iw_base kv)" by (simp add: batch_ready_def u)
  obtain ub a where ub: "split_loop (split_simple 2) (split_reset one_allocr) = Some ([ub], a)" "ub_n_tokens ub = 1" "\<not> allocr_get_n_used a < allocr_get_n_tokens a"
    using one_split by blast
  have f: "\<forall>u \<in> set [ub]. ubatch_for (iw_base kv) u" using fit ub(1) by (auto simp: split_fit_def ubatch_fit_def)
  obtain r kv' where t: "iswa_try (split_simple 2) one_allocr kv = Some (r, a, kv')" "\<forall>x. r = Some x \<longrightarrow> ix_ubatches x = [ub]"
    using try_spec[OF _ _ _ ub(1) _ f] w kv(3) by (auto simp: iswa_ok_def)
  obtain x where x: "r = Some x" using try_enough[OF _ _ ub(1) _ f ub(3) _ _ t(1)] w kv(7,8) ub(2) by auto
  have "ascending (cache_positions (iw_base kv)) (ix_ubatches x)" using t(2) x by (simp add: kv(6))
  from iswa_window_complete[OF kv(2,4,5) fit t(1)[unfolded x] this, of False True "(True, True)"] kv(1) t(1) x show ?thesis by blast
qed

end
