(* ===== verification/Chat_Template.thy ===== *)
theory Chat_Template
  imports Llama_Prelude "HOL-Library.Sublist" "HOL-Library.Char_ord" "HOL-Library.List_Lexorder"
begin

text \<open>
  The built-in chat templates (\<open>src/src/llama-chat.cpp\<close>, \<open>llama_chat_apply_template\<close> of
  \<open>src/src/llama.cpp\<close>): the table of names, the detection of a template from the text of a Jinja
  template, and the formatter, with one definition per branch of \<open>llm_chat_apply_template\<close>.

  A \<open>std::string\<close> is the list of its bytes; literals outside ASCII are written as their UTF-8
  bytes. The string stream only grows, so a branch is a function to the text it has written:
  \<open>put\<close> is a chain of \<open><<\<close>, \<open>emit\<close> the loop over the messages with the local variables that
  survive an iteration as its state. A chat is a vector of pointers; a pointer is its address
  with the message it points to, because one branch compares addresses.
\<close>

section \<open>Data\<close>

datatype llm_chat_template = TEMPLATE_CHATML | TEMPLATE_LLAMA_2 | TEMPLATE_LLAMA_2_SYS | TEMPLATE_LLAMA_2_SYS_BOS
  | TEMPLATE_LLAMA_2_SYS_STRIP | TEMPLATE_MISTRAL_V1 | TEMPLATE_MISTRAL_V3 | TEMPLATE_MISTRAL_V3_TEKKEN
  | TEMPLATE_MISTRAL_V7 | TEMPLATE_MISTRAL_V7_TEKKEN | TEMPLATE_PHI_3 | TEMPLATE_PHI_4 | TEMPLATE_FALCON_3
  | TEMPLATE_ZEPHYR | TEMPLATE_MONARCH | TEMPLATE_GEMMA | TEMPLATE_ORION | TEMPLATE_OPENCHAT | TEMPLATE_VICUNA
  | TEMPLATE_VICUNA_ORCA | TEMPLATE_DEEPSEEK | TEMPLATE_DEEPSEEK_2 | TEMPLATE_DEEPSEEK_3 | TEMPLATE_COMMAND_R
  | TEMPLATE_LLAMA_3 | TEMPLATE_CHATGLM_3 | TEMPLATE_CHATGLM_4 | TEMPLATE_GLMEDGE | TEMPLATE_MINICPM
  | TEMPLATE_EXAONE_3 | TEMPLATE_EXAONE_4 | TEMPLATE_EXAONE_MOE | TEMPLATE_RWKV_WORLD | TEMPLATE_GRANITE
  | TEMPLATE_GIGACHAT | TEMPLATE_MEGREZ | TEMPLATE_YANDEX | TEMPLATE_BAILING | TEMPLATE_BAILING_THINK
  | TEMPLATE_BAILING2 | TEMPLATE_LLAMA4 | TEMPLATE_SMOLVLM | TEMPLATE_DOTS1 | TEMPLATE_HUNYUAN_MOE
  | TEMPLATE_OPENAI_MOE | TEMPLATE_HUNYUAN_DENSE | TEMPLATE_KIMI_K2 | TEMPLATE_SEED_OSS | TEMPLATE_GROK_2
  | TEMPLATE_PANGU_EMBED | TEMPLATE_SOLAR_OPEN | TEMPLATE_UNKNOWN

record llama_chat_message =
  cm_role :: string
  cm_content :: string

type_synonym chat_ptr = "nat \<times> llama_chat_message"

abbreviation role :: "chat_ptr \<Rightarrow> string" where
  "role m \<equiv> cm_role (snd m)"

abbreviation content :: "chat_ptr \<Rightarrow> string" where
  "content m \<equiv> cm_content (snd m)"

abbreviation nl :: string where
  "nl \<equiv> [CHR 0x0A]"

named_theorems chat_branches \<open>the branches of the formatter\<close>

section \<open>Helpers\<close>

definition isspace :: "char \<Rightarrow> bool" where
  "isspace c \<longleftrightarrow> c \<in> {CHR 0x20, CHR 0x09, CHR 0x0A, CHR 0x0B, CHR 0x0C, CHR 0x0D}"

text \<open>\<open>toupper\<close> in the C locale.\<close>

definition toupper :: "char \<Rightarrow> char" where
  "toupper c = (if CHR ''a'' \<le> c \<and> c \<le> CHR ''z'' then char_of (of_char c - 32 :: nat) else c)"

text \<open>The two loops of \<open>trim\<close> on the indices \<open>start\<close> and \<open>end\<close>.\<close>

function trim_start :: "string \<Rightarrow> nat \<Rightarrow> nat \<Rightarrow> nat" where
  "trim_start str start stop = (if start < stop \<and> isspace (str ! start) then trim_start str (start + 1) stop else start)"
  by pat_completeness auto
termination by (relation "measure (\<lambda>(_, start, stop). stop - start)") auto

fun trim_end :: "string \<Rightarrow> nat \<Rightarrow> nat \<Rightarrow> nat" where
  "trim_end str start stop = (if start < stop \<and> isspace (str ! (stop - 1)) then trim_end str start (stop - 1) else stop)"

declare trim_start.simps [simp del] trim_end.simps [simp del]

definition trim :: "string \<Rightarrow> string" where
  "trim str = (let start = trim_start str 0 (length str); stop = trim_end str start (length str)
     in take (stop - start) (drop start str))"

definition put :: "string list \<Rightarrow> string" where
  "put xs = concat xs"

fun emit :: "('s \<Rightarrow> 'm \<Rightarrow> string \<times> 's) \<Rightarrow> 's \<Rightarrow> 'm list \<Rightarrow> string" where
  "emit f s [] = []"
| "emit f s (m # ms) = (case f s m of (text, s') \<Rightarrow> text @ emit f s' ms)"

definition each :: "('m \<Rightarrow> string) \<Rightarrow> 'm list \<Rightarrow> string" where
  "each f = emit (\<lambda>u m. (f m, u)) ()"

definition each_i :: "nat \<Rightarrow> (nat \<Rightarrow> 'm \<Rightarrow> string) \<Rightarrow> 'm list \<Rightarrow> string" where
  "each_i i f = emit (\<lambda>i m. (f i m, Suc i)) i"

text \<open>\<open>if (add_ass) ss << ...\<close>\<close>

definition ass :: "bool \<Rightarrow> string list \<Rightarrow> string" where
  "ass add_ass xs = (if add_ass then put xs else [])"

section \<open>Names\<close>

definition LLM_CHAT_TEMPLATES :: "(string \<times> llm_chat_template) list" where
  "LLM_CHAT_TEMPLATES = [
    (''chatml'', TEMPLATE_CHATML),
    (''llama2'', TEMPLATE_LLAMA_2),
    (''llama2-sys'', TEMPLATE_LLAMA_2_SYS),
    (''llama2-sys-bos'', TEMPLATE_LLAMA_2_SYS_BOS),
    (''llama2-sys-strip'', TEMPLATE_LLAMA_2_SYS_STRIP),
    (''mistral-v1'', TEMPLATE_MISTRAL_V1),
    (''mistral-v3'', TEMPLATE_MISTRAL_V3),
    (''mistral-v3-tekken'', TEMPLATE_MISTRAL_V3_TEKKEN),
    (''mistral-v7'', TEMPLATE_MISTRAL_V7),
    (''mistral-v7-tekken'', TEMPLATE_MISTRAL_V7_TEKKEN),
    (''phi3'', TEMPLATE_PHI_3),
    (''phi4'', TEMPLATE_PHI_4),
    (''falcon3'', TEMPLATE_FALCON_3),
    (''zephyr'', TEMPLATE_ZEPHYR),
    (''monarch'', TEMPLATE_MONARCH),
    (''gemma'', TEMPLATE_GEMMA),
    (''orion'', TEMPLATE_ORION),
    (''openchat'', TEMPLATE_OPENCHAT),
    (''vicuna'', TEMPLATE_VICUNA),
    (''vicuna-orca'', TEMPLATE_VICUNA_ORCA),
    (''deepseek'', TEMPLATE_DEEPSEEK),
    (''deepseek2'', TEMPLATE_DEEPSEEK_2),
    (''deepseek3'', TEMPLATE_DEEPSEEK_3),
    (''command-r'', TEMPLATE_COMMAND_R),
    (''llama3'', TEMPLATE_LLAMA_3),
    (''chatglm3'', TEMPLATE_CHATGLM_3),
    (''chatglm4'', TEMPLATE_CHATGLM_4),
    (''glmedge'', TEMPLATE_GLMEDGE),
    (''minicpm'', TEMPLATE_MINICPM),
    (''exaone3'', TEMPLATE_EXAONE_3),
    (''exaone4'', TEMPLATE_EXAONE_4),
    (''exaone-moe'', TEMPLATE_EXAONE_MOE),
    (''rwkv-world'', TEMPLATE_RWKV_WORLD),
    (''granite'', TEMPLATE_GRANITE),
    (''gigachat'', TEMPLATE_GIGACHAT),
    (''megrez'', TEMPLATE_MEGREZ),
    (''yandex'', TEMPLATE_YANDEX),
    (''bailing'', TEMPLATE_BAILING),
    (''bailing-think'', TEMPLATE_BAILING_THINK),
    (''bailing2'', TEMPLATE_BAILING2),
    (''llama4'', TEMPLATE_LLAMA4),
    (''smolvlm'', TEMPLATE_SMOLVLM),
    (''hunyuan-moe'', TEMPLATE_HUNYUAN_MOE),
    (''gpt-oss'', TEMPLATE_OPENAI_MOE),
    (''hunyuan-dense'', TEMPLATE_HUNYUAN_DENSE),
    (''kimi-k2'', TEMPLATE_KIMI_K2),
    (''seed_oss'', TEMPLATE_SEED_OSS),
    (''grok-2'', TEMPLATE_GROK_2),
    (''pangu-embedded'', TEMPLATE_PANGU_EMBED),
    (''solar-open'', TEMPLATE_SOLAR_OPEN)]"

definition llm_chat_template_from_str :: "string \<Rightarrow> llm_chat_template option" where
  "llm_chat_template_from_str name = map_of LLM_CHAT_TEMPLATES name"

text \<open>The map is ordered by its keys, and \<open>builtin_templates\<close> walks through it.\<close>

definition llama_chat_builtin_templates :: "string list \<Rightarrow> nat \<Rightarrow> int \<times> string list" where
  "llama_chat_builtin_templates output len =
    (let names = sort (map fst LLM_CHAT_TEMPLATES); k = min len (length names)
     in (int (length names), take k names @ drop k output))"

fun str_contains :: "string \<Rightarrow> string \<Rightarrow> bool" where
  "str_contains haystack [] \<longleftrightarrow> haystack = []"
| "str_contains haystack (c # cs) \<longleftrightarrow> prefix haystack (c # cs) \<or> str_contains haystack cs"

text \<open>The chain of tests; the first part is the family of \<open>[INST]\<close> templates.\<close>

definition detect_inst :: "(string \<Rightarrow> bool) \<Rightarrow> llm_chat_template" where
  "detect_inst has =
    (if has ''[SYSTEM_PROMPT]'' then TEMPLATE_MISTRAL_V7
     else if has ([CHR 0x27] @ '' [INST] '' @ [CHR 0x27] @ '' + system_message'') \<or> has ''[AVAILABLE_TOOLS]'' then
       (if has '' [INST]'' then TEMPLATE_MISTRAL_V1
        else if has ([CHR 0x22] @ ''[INST]'' @ [CHR 0x22]) then TEMPLATE_MISTRAL_V3_TEKKEN
        else TEMPLATE_MISTRAL_V3)
     else if has ''content.strip()'' then TEMPLATE_LLAMA_2_SYS_STRIP
     else if has (''bos_token + '' @ [CHR 0x27] @ ''[INST]'') then TEMPLATE_LLAMA_2_SYS_BOS
     else if has ''<<SYS>>'' then TEMPLATE_LLAMA_2_SYS
     else TEMPLATE_LLAMA_2)"

definition detect_text :: "string \<Rightarrow> (string \<Rightarrow> bool) \<Rightarrow> llm_chat_template" where
  "detect_text tmpl has =
    (if has ''<|im_start|>'' then
       (if has ''<|im_sep|>'' then TEMPLATE_PHI_4
        else if has ''<end_of_utterance>'' then TEMPLATE_SMOLVLM
        else TEMPLATE_CHATML)
     else if prefix ''mistral'' tmpl \<or> has ''[INST]'' then detect_inst has
     else if has ''<|assistant|>'' \<and> has ''<|end|>'' then TEMPLATE_PHI_3
     else if has ''[gMASK]<sop>'' then TEMPLATE_CHATGLM_4
     else if has ''<|assistant|>'' \<and> has ''<|user|>'' then
       (if has ''<|tool_declare|>'' then TEMPLATE_EXAONE_MOE
        else if has ''</s>'' then TEMPLATE_FALCON_3 else TEMPLATE_GLMEDGE)
     else if has (''<|{{ item['' @ [CHR 0x27] @ ''role'' @ [CHR 0x27] @ ''] }}|>'') \<and> has ''<|begin_of_image|>'' then TEMPLATE_GLMEDGE
     else if has ''<|user|>'' \<and> has ''<|endoftext|>'' then TEMPLATE_ZEPHYR
     else if has (''bos_token + message['' @ [CHR 0x27] @ ''role'' @ [CHR 0x27] @ '']'') then TEMPLATE_MONARCH
     else if has ''<start_of_turn>'' then TEMPLATE_GEMMA
     else if has ([CHR 0x27] @ [CHR 0x5C] @ ''n'' @ [CHR 0x5C] @ ''nAssistant: '' @ [CHR 0x27] @ '' + eos_token'') then TEMPLATE_ORION
     else if has ''GPT4 Correct '' then TEMPLATE_OPENCHAT
     else if has ''USER: '' \<and> has ''ASSISTANT: '' then
       (if has ''SYSTEM: '' then TEMPLATE_VICUNA_ORCA else TEMPLATE_VICUNA)
     else if has ''### Instruction:'' \<and> has ''<|EOT|>'' then TEMPLATE_DEEPSEEK
     else if has ''<|START_OF_TURN_TOKEN|>'' \<and> has ''<|USER_TOKEN|>'' then TEMPLATE_COMMAND_R
     else if has ''<|start_header_id|>'' \<and> has ''<|end_header_id|>'' then TEMPLATE_LLAMA_3
     else if has ''[gMASK]sop'' then TEMPLATE_CHATGLM_3
     else if has (''<'' @ [CHR 0xE7, CHR 0x94, CHR 0xA8, CHR 0xE6, CHR 0x88, CHR 0xB7] @ ''>'') then TEMPLATE_MINICPM
     else if has ([CHR 0x27] @ ''Assistant: '' @ [CHR 0x27] @ '' + message['' @ [CHR 0x27] @ ''content'' @ [CHR 0x27] @ ''] + eos_token'') then TEMPLATE_DEEPSEEK_2
     else if has (''<'' @ [CHR 0xEF, CHR 0xBD, CHR 0x9C] @ ''Assistant'' @ [CHR 0xEF, CHR 0xBD, CHR 0x9C] @ ''>'') \<and> has (''<'' @ [CHR 0xEF, CHR 0xBD, CHR 0x9C] @ ''User'' @ [CHR 0xEF, CHR 0xBD, CHR 0x9C] @ ''>'') \<and> has (''<'' @ [CHR 0xEF, CHR 0xBD, CHR 0x9C] @ ''end'' @ [CHR 0xE2, CHR 0x96, CHR 0x81] @ ''of'' @ [CHR 0xE2, CHR 0x96, CHR 0x81] @ ''sentence'' @ [CHR 0xEF, CHR 0xBD, CHR 0x9C] @ ''>'') then TEMPLATE_DEEPSEEK_3
     else if has ''[|system|]'' \<and> has ''[|assistant|]'' \<and> has ''[|endofturn|]'' then
       (if has ''[|tool|]'' then TEMPLATE_EXAONE_4 else TEMPLATE_EXAONE_3)
     else if has ''rwkv-world'' \<or> has (''{{- '' @ [CHR 0x27] @ ''User: '' @ [CHR 0x27] @ '' + message['' @ [CHR 0x27] @ ''content'' @ [CHR 0x27] @ '']|trim + '' @ [CHR 0x27] @ [CHR 0x5C] @ ''n'' @ [CHR 0x5C] @ ''n'' @ [CHR 0x27] @ '' -}}'') then TEMPLATE_RWKV_WORLD
     else if has ''<|start_of_role|>'' then TEMPLATE_GRANITE
     else if has (''message['' @ [CHR 0x27] @ ''role'' @ [CHR 0x27] @ ''] + additional_special_tokens[0] + message['' @ [CHR 0x27] @ ''content'' @ [CHR 0x27] @ ''] + additional_special_tokens[1]'') then TEMPLATE_GIGACHAT
     else if has ''<|role_start|>'' then TEMPLATE_MEGREZ
     else if has ('' '' @ [CHR 0xD0, CHR 0x90, CHR 0xD1, CHR 0x81, CHR 0xD1, CHR 0x81, CHR 0xD0, CHR 0xB8, CHR 0xD1, CHR 0x81, CHR 0xD1, CHR 0x82, CHR 0xD0, CHR 0xB5, CHR 0xD0, CHR 0xBD, CHR 0xD1, CHR 0x82] @ '':'') then TEMPLATE_YANDEX
     else if has ''<role>ASSISTANT</role>'' \<and> has ([CHR 0x27] @ ''HUMAN'' @ [CHR 0x27]) then TEMPLATE_BAILING
     else if has ''<role>ASSISTANT</role>'' \<and> has ([CHR 0x22] @ ''HUMAN'' @ [CHR 0x22]) \<and> has ''<think>'' then TEMPLATE_BAILING_THINK
     else if has ''<role>ASSISTANT</role>'' \<and> has ''<role>HUMAN</role>'' \<and> has ''<|role_end|>'' then TEMPLATE_BAILING2
     else if has ''<|header_start|>'' \<and> has ''<|header_end|>'' then TEMPLATE_LLAMA4
     else if has ''<|endofuserprompt|>'' then TEMPLATE_DOTS1
     else if has ''<|extra_0|>'' \<and> has ''<|extra_4|>'' then TEMPLATE_HUNYUAN_MOE
     else if has ''<|start|>'' \<and> has ''<|channel|>'' then TEMPLATE_OPENAI_MOE
     else if has (''<'' @ [CHR 0xEF, CHR 0xBD, CHR 0x9C] @ ''hy_Assistant'' @ [CHR 0xEF, CHR 0xBD, CHR 0x9C] @ ''>'') \<and> has (''<'' @ [CHR 0xEF, CHR 0xBD, CHR 0x9C] @ ''hy_place'' @ [CHR 0xE2, CHR 0x96, CHR 0x81] @ ''holder'' @ [CHR 0xE2, CHR 0x96, CHR 0x81] @ ''no'' @ [CHR 0xE2, CHR 0x96, CHR 0x81] @ ''3'' @ [CHR 0xEF, CHR 0xBD, CHR 0x9C] @ ''>'') then TEMPLATE_HUNYUAN_DENSE
     else if has ''<|im_assistant|>assistant<|im_middle|>'' then TEMPLATE_KIMI_K2
     else if has ''<seed:bos>'' then TEMPLATE_SEED_OSS
     else if has ([CHR 0x27] @ ''Assistant: '' @ [CHR 0x27] @ ''  + message['' @ [CHR 0x27] @ ''content'' @ [CHR 0x27] @ ''] + '' @ [CHR 0x27] @ ''<|separator|>'') then TEMPLATE_GROK_2
     else if has (''[unused9]'' @ [CHR 0xE7, CHR 0xB3, CHR 0xBB, CHR 0xE7, CHR 0xBB, CHR 0x9F, CHR 0xEF, CHR 0xBC, CHR 0x9A] @ ''[unused10]'') then TEMPLATE_PANGU_EMBED
     else if has ''<|begin|>'' \<and> has ''<|end|>'' \<and> has ''<|content|>'' then TEMPLATE_SOLAR_OPEN
     else TEMPLATE_UNKNOWN)"

definition llm_chat_detect_template :: "string \<Rightarrow> llm_chat_template" where
  "llm_chat_detect_template tmpl = (case llm_chat_template_from_str tmpl of
     Some t \<Rightarrow> t
   | None \<Rightarrow> detect_text tmpl (\<lambda>haystack. str_contains haystack tmpl))"

section \<open>The branches of the formatter\<close>

definition apply_chatml :: "chat_ptr list \<Rightarrow> bool \<Rightarrow> string" where [chat_branches]:
  "apply_chatml chat add_ass =
    each (\<lambda>m. put [''<|im_start|>'', role m, nl, content m, ''<|im_end|>'', nl]) chat
   @ ass add_ass [''<|im_start|>assistant'', nl]"

definition apply_mistral_v7 :: "string \<Rightarrow> chat_ptr list \<Rightarrow> bool \<Rightarrow> string" where [chat_branches]:
  "apply_mistral_v7 trailing_space chat add_ass =
    each (\<lambda>m.
     if role m = ''system'' then put [''[SYSTEM_PROMPT]'', trailing_space, content m, ''[/SYSTEM_PROMPT]'']
     else if role m = ''user'' then put [''[INST]'', trailing_space, content m, ''[/INST]'']
     else put [trailing_space, content m, ''</s>'']) chat"

definition apply_mistral :: "string \<Rightarrow> string \<Rightarrow> bool \<Rightarrow> chat_ptr list \<Rightarrow> bool \<Rightarrow> string" where [chat_branches]:
  "apply_mistral leading_space trailing_space trim_assistant_message chat add_ass =
    emit (\<lambda>is_inside_turn m.
     let start = (if is_inside_turn then [] else put [leading_space, ''[INST]'', trailing_space])
     in if role m = ''system'' then (start @ put [content m, nl, nl], True)
        else if role m = ''user'' then (start @ put [content m, leading_space, ''[/INST]''], True)
        else (start @ put [trailing_space, if trim_assistant_message then trim (content m) else content m, ''</s>''], False)) False chat"

definition apply_llama_2 :: "bool \<Rightarrow> bool \<Rightarrow> bool \<Rightarrow> chat_ptr list \<Rightarrow> bool \<Rightarrow> string" where [chat_branches]:
  "apply_llama_2 support_system_message add_bos_inside_history strip_message chat add_ass =
    put [''[INST] '']
   @ emit (\<lambda>is_inside_turn m.
     let text = (if strip_message then trim (content m) else content m);
         start = (if is_inside_turn then [] else put [if add_bos_inside_history then ''<s>[INST] '' else ''[INST] ''])
     in if role m = ''system'' then
          (start @ (if support_system_message then put [''<<SYS>>'', nl, text, nl, ''<</SYS>>'', nl, nl] else put [text, nl]), True)
        else if role m = ''user'' then (start @ put [text, '' [/INST]''], True)
        else (start @ put [text, ''</s>''], False)) True chat"

definition apply_phi_3 :: "chat_ptr list \<Rightarrow> bool \<Rightarrow> string" where [chat_branches]:
  "apply_phi_3 chat add_ass =
    each (\<lambda>m. put [''<|'', role m, ''|>'', nl, content m, ''<|end|>'', nl]) chat
   @ ass add_ass [''<|assistant|>'', nl]"

definition apply_phi_4 :: "chat_ptr list \<Rightarrow> bool \<Rightarrow> string" where [chat_branches]:
  "apply_phi_4 chat add_ass =
    each (\<lambda>m. put [''<|im_start|>'', role m, ''<|im_sep|>'', content m, ''<|im_end|>'']) chat
   @ ass add_ass [''<|im_start|>assistant<|im_sep|>'']"

definition apply_falcon_3 :: "chat_ptr list \<Rightarrow> bool \<Rightarrow> string" where [chat_branches]:
  "apply_falcon_3 chat add_ass =
    each (\<lambda>m. put [''<|'', role m, ''|>'', nl, content m, nl]) chat
   @ ass add_ass [''<|assistant|>'', nl]"

definition apply_zephyr :: "chat_ptr list \<Rightarrow> bool \<Rightarrow> string" where [chat_branches]:
  "apply_zephyr chat add_ass =
    each (\<lambda>m. put [''<|'', role m, ''|>'', nl, content m, ''<|endoftext|>'', nl]) chat
   @ ass add_ass [''<|assistant|>'', nl]"

definition apply_monarch :: "chat_ptr list \<Rightarrow> bool \<Rightarrow> string" where [chat_branches]:
  "apply_monarch chat add_ass =
    each (\<lambda>m.
     let bos = (if fst m = fst (hd chat) then [] else ''<s>'')
     in put [bos, role m, nl, content m, ''</s>'', nl]) chat
   @ ass add_ass [''<s>assistant'', nl]"

definition apply_gemma :: "chat_ptr list \<Rightarrow> bool \<Rightarrow> string" where [chat_branches]:
  "apply_gemma chat add_ass =
    emit (\<lambda>system_prompt m.
     if role m = ''system'' then ([], system_prompt @ trim (content m))
     else let r = (if role m = ''assistant'' then ''model'' else role m);
              sys = system_prompt \<noteq> [] \<and> r \<noteq> ''model''
       in (put [''<start_of_turn>'', r, nl] @ (if sys then put [system_prompt, nl, nl] else [])
             @ put [trim (content m), ''<end_of_turn>'', nl],
           if sys then [] else system_prompt)) [] chat
   @ ass add_ass [''<start_of_turn>model'', nl]"

definition apply_orion :: "chat_ptr list \<Rightarrow> bool \<Rightarrow> string" where [chat_branches]:
  "apply_orion chat add_ass =
    emit (\<lambda>system_prompt m.
     if role m = ''system'' then ([], system_prompt @ content m)
     else if role m = ''user'' then
       (put [''Human: ''] @ (if system_prompt \<noteq> [] then put [system_prompt, nl, nl] else [])
          @ put [content m, nl, nl, ''Assistant: </s>''], [])
     else (put [content m, ''</s>''], system_prompt)) [] chat"

definition apply_openchat :: "chat_ptr list \<Rightarrow> bool \<Rightarrow> string" where [chat_branches]:
  "apply_openchat chat add_ass =
    each (\<lambda>m.
     if role m = ''system'' then put [content m, ''<|end_of_turn|>'']
     else let r = (case role m of [] \<Rightarrow> [] | c # cs \<Rightarrow> toupper c # cs)
       in put [''GPT4 Correct '', r, '': '', content m, ''<|end_of_turn|>'']) chat
   @ ass add_ass [''GPT4 Correct Assistant:'']"

definition apply_vicuna :: "bool \<Rightarrow> chat_ptr list \<Rightarrow> bool \<Rightarrow> string" where [chat_branches]:
  "apply_vicuna orca chat add_ass =
    each (\<lambda>m.
     if role m = ''system'' then (if orca then put [''SYSTEM: '', content m, nl] else put [content m, nl, nl])
     else if role m = ''user'' then put [''USER: '', content m, nl]
     else if role m = ''assistant'' then put [''ASSISTANT: '', content m, ''</s>'', nl]
     else []) chat
   @ ass add_ass [''ASSISTANT:'']"

definition apply_deepseek :: "chat_ptr list \<Rightarrow> bool \<Rightarrow> string" where [chat_branches]:
  "apply_deepseek chat add_ass =
    each (\<lambda>m.
     if role m = ''system'' then put [content m]
     else if role m = ''user'' then put [''### Instruction:'', nl, content m, nl]
     else if role m = ''assistant'' then put [''### Response:'', nl, content m, nl, ''<|EOT|>'', nl]
     else []) chat
   @ ass add_ass [''### Response:'', nl]"

definition apply_command_r :: "chat_ptr list \<Rightarrow> bool \<Rightarrow> string" where [chat_branches]:
  "apply_command_r chat add_ass =
    each (\<lambda>m.
     if role m = ''system'' then put [''<|START_OF_TURN_TOKEN|><|SYSTEM_TOKEN|>'', trim (content m), ''<|END_OF_TURN_TOKEN|>'']
     else if role m = ''user'' then put [''<|START_OF_TURN_TOKEN|><|USER_TOKEN|>'', trim (content m), ''<|END_OF_TURN_TOKEN|>'']
     else if role m = ''assistant'' then put [''<|START_OF_TURN_TOKEN|><|CHATBOT_TOKEN|>'', trim (content m), ''<|END_OF_TURN_TOKEN|>'']
     else []) chat
   @ ass add_ass [''<|START_OF_TURN_TOKEN|><|CHATBOT_TOKEN|>'']"

definition apply_llama_3 :: "chat_ptr list \<Rightarrow> bool \<Rightarrow> string" where [chat_branches]:
  "apply_llama_3 chat add_ass =
    each (\<lambda>m. put [''<|start_header_id|>'', role m, ''<|end_header_id|>'', nl, nl, trim (content m), ''<|eot_id|>'']) chat
   @ ass add_ass [''<|start_header_id|>assistant<|end_header_id|>'', nl, nl]"

definition apply_chatglm_3 :: "chat_ptr list \<Rightarrow> bool \<Rightarrow> string" where [chat_branches]:
  "apply_chatglm_3 chat add_ass =
    put [''[gMASK]'', ''sop'']
   @ each (\<lambda>m. put [''<|'', role m, ''|>'', nl, '' '', content m]) chat
   @ ass add_ass [''<|assistant|>'']"

definition apply_chatglm_4 :: "chat_ptr list \<Rightarrow> bool \<Rightarrow> string" where [chat_branches]:
  "apply_chatglm_4 chat add_ass =
    put [''[gMASK]'', ''<sop>'']
   @ each (\<lambda>m. put [''<|'', role m, ''|>'', nl, content m]) chat
   @ ass add_ass [''<|assistant|>'', nl]"

definition apply_glmedge :: "chat_ptr list \<Rightarrow> bool \<Rightarrow> string" where [chat_branches]:
  "apply_glmedge chat add_ass =
    each (\<lambda>m. put [''<|'', role m, ''|>'', nl, content m]) chat
   @ ass add_ass [''<|assistant|>'']"

definition apply_minicpm :: "chat_ptr list \<Rightarrow> bool \<Rightarrow> string" where [chat_branches]:
  "apply_minicpm chat add_ass =
    each (\<lambda>m.
     if role m = ''user'' then put [''<'', [CHR 0xE7, CHR 0x94, CHR 0xA8, CHR 0xE6, CHR 0x88, CHR 0xB7], ''>''] @ put [trim (content m)] @ put [''<AI>'']
     else put [trim (content m)]) chat"

definition apply_deepseek_2 :: "chat_ptr list \<Rightarrow> bool \<Rightarrow> string" where [chat_branches]:
  "apply_deepseek_2 chat add_ass =
    each (\<lambda>m.
     if role m = ''system'' then put [content m, nl, nl]
     else if role m = ''user'' then put [''User: '', content m, nl, nl]
     else if role m = ''assistant'' then put [''Assistant: '', content m, ''<'', [CHR 0xEF, CHR 0xBD, CHR 0x9C], ''end'', [CHR 0xE2, CHR 0x96, CHR 0x81], ''of'', [CHR 0xE2, CHR 0x96, CHR 0x81], ''sentence'', [CHR 0xEF, CHR 0xBD, CHR 0x9C], ''>'']
     else []) chat
   @ ass add_ass [''Assistant:'']"

definition apply_deepseek_3 :: "chat_ptr list \<Rightarrow> bool \<Rightarrow> string" where [chat_branches]:
  "apply_deepseek_3 chat add_ass =
    each (\<lambda>m.
     if role m = ''system'' then put [content m, nl, nl]
     else if role m = ''user'' then put [''<'', [CHR 0xEF, CHR 0xBD, CHR 0x9C], ''User'', [CHR 0xEF, CHR 0xBD, CHR 0x9C], ''>'', content m]
     else if role m = ''assistant'' then put [''<'', [CHR 0xEF, CHR 0xBD, CHR 0x9C], ''Assistant'', [CHR 0xEF, CHR 0xBD, CHR 0x9C], ''>'', content m, ''<'', [CHR 0xEF, CHR 0xBD, CHR 0x9C], ''end'', [CHR 0xE2, CHR 0x96, CHR 0x81], ''of'', [CHR 0xE2, CHR 0x96, CHR 0x81], ''sentence'', [CHR 0xEF, CHR 0xBD, CHR 0x9C], ''>'']
     else []) chat
   @ ass add_ass [''<'', [CHR 0xEF, CHR 0xBD, CHR 0x9C], ''Assistant'', [CHR 0xEF, CHR 0xBD, CHR 0x9C], ''>'']"

definition apply_exaone_3 :: "chat_ptr list \<Rightarrow> bool \<Rightarrow> string" where [chat_branches]:
  "apply_exaone_3 chat add_ass =
    each (\<lambda>m.
     if role m = ''system'' then put [''[|system|]'', trim (content m), ''[|endofturn|]'', nl]
     else if role m = ''user'' then put [''[|user|]'', trim (content m), nl]
     else if role m = ''assistant'' then put [''[|assistant|]'', trim (content m), ''[|endofturn|]'', nl]
     else []) chat
   @ ass add_ass [''[|assistant|]'']"

definition apply_exaone_4 :: "chat_ptr list \<Rightarrow> bool \<Rightarrow> string" where [chat_branches]:
  "apply_exaone_4 chat add_ass =
    each (\<lambda>m.
     if role m = ''system'' then put [''[|system|]'', trim (content m), ''[|endofturn|]'', nl]
     else if role m = ''user'' then put [''[|user|]'', trim (content m), nl]
     else if role m = ''assistant'' then put [''[|assistant|]'', trim (content m), ''[|endofturn|]'', nl]
     else if role m = ''tool'' then put [''[|tool|]'', trim (content m), ''[|endofturn|]'', nl]
     else []) chat
   @ ass add_ass [''[|assistant|]'']"

definition apply_exaone_moe :: "chat_ptr list \<Rightarrow> bool \<Rightarrow> string" where [chat_branches]:
  "apply_exaone_moe chat add_ass =
    each (\<lambda>m.
     if role m = ''system'' then put [''<|system|>'', nl, trim (content m), ''<|endofturn|>'', nl]
     else if role m = ''user'' then put [''<|user|>'', nl, trim (content m), ''<|endofturn|>'', nl]
     else if role m = ''assistant'' then put [''<|assistant|>'', nl, trim (content m), ''<|endofturn|>'', nl]
     else if role m = ''tool'' then put [''<|tool|>'', nl, trim (content m), ''<|endofturn|>'', nl]
     else []) chat
   @ ass add_ass [''<|assistant|>'', nl]"

definition apply_rwkv_world :: "chat_ptr list \<Rightarrow> bool \<Rightarrow> string" where [chat_branches]:
  "apply_rwkv_world chat add_ass =
    each_i 0 (\<lambda>i m.
     if role m = ''system'' then put [''System: '', trim (content m), nl, nl]
     else if role m = ''user'' then
       put [''User: '', trim (content m), nl, nl] @ (if i = length chat - 1 then put [''Assistant:''] else [])
     else if role m = ''assistant'' then put [''Assistant: '', trim (content m), nl, nl]
     else []) chat"

definition apply_granite :: "chat_ptr list \<Rightarrow> bool \<Rightarrow> string" where [chat_branches]:
  "apply_granite chat add_ass =
    each (\<lambda>m.
     put [''<|start_of_role|>'', role m, ''<|end_of_role|>'']
     @ (if role m = ''assistant_tool_call'' then put [''<|tool_call|>''] else [])
     @ put [content m, ''<|end_of_text|>'', nl]) chat
   @ ass add_ass [''<|start_of_role|>assistant<|end_of_role|>'']"

definition apply_gigachat :: "chat_ptr list \<Rightarrow> bool \<Rightarrow> string" where [chat_branches]:
  "apply_gigachat chat add_ass =
    (let has_system = chat \<noteq> [] \<and> role (hd chat) = ''system''
     in (if has_system then put [''<s>'', content (hd chat), ''<|message_sep|>''] else put [''<s>''])
      @ each (\<lambda>m.
          if role m = ''user'' then put [''user<|role_sep|>'', content m, ''<|message_sep|>'', ''available functions<|role_sep|>[]<|message_sep|>'']
          else if role m = ''assistant'' then put [''assistant<|role_sep|>'', content m, ''<|message_sep|>'']
          else []) (drop (if has_system then 1 else 0) chat)
      @ ass add_ass [''assistant<|role_sep|>''])"

definition apply_megrez :: "chat_ptr list \<Rightarrow> bool \<Rightarrow> string" where [chat_branches]:
  "apply_megrez chat add_ass =
    each (\<lambda>m. put [''<|role_start|>'', role m, ''<|role_end|>'', content m, ''<|turn_end|>'']) chat
   @ ass add_ass [''<|role_start|>assistant<|role_end|>'']"

definition apply_yandex :: "chat_ptr list \<Rightarrow> bool \<Rightarrow> string" where [chat_branches]:
  "apply_yandex chat add_ass =
    each (\<lambda>m.
     if role m = ''user'' then put ['' '', [CHR 0xD0, CHR 0x9F, CHR 0xD0, CHR 0xBE, CHR 0xD0, CHR 0xBB, CHR 0xD1, CHR 0x8C, CHR 0xD0, CHR 0xB7, CHR 0xD0, CHR 0xBE, CHR 0xD0, CHR 0xB2, CHR 0xD0, CHR 0xB0, CHR 0xD1, CHR 0x82, CHR 0xD0, CHR 0xB5, CHR 0xD0, CHR 0xBB, CHR 0xD1, CHR 0x8C], '': '', content m, nl, nl]
     else if role m = ''assistant'' then put ['' '', [CHR 0xD0, CHR 0x90, CHR 0xD1, CHR 0x81, CHR 0xD1, CHR 0x81, CHR 0xD0, CHR 0xB8, CHR 0xD1, CHR 0x81, CHR 0xD1, CHR 0x82, CHR 0xD0, CHR 0xB5, CHR 0xD0, CHR 0xBD, CHR 0xD1, CHR 0x82], '': '', content m, nl, nl]
     else []) chat
   @ ass add_ass ['' '', [CHR 0xD0, CHR 0x90, CHR 0xD1, CHR 0x81, CHR 0xD1, CHR 0x81, CHR 0xD0, CHR 0xB8, CHR 0xD1, CHR 0x81, CHR 0xD1, CHR 0x82, CHR 0xD0, CHR 0xB5, CHR 0xD0, CHR 0xBD, CHR 0xD1, CHR 0x82], '':[SEP]'']"

definition apply_bailing :: "bool \<Rightarrow> chat_ptr list \<Rightarrow> bool \<Rightarrow> string" where [chat_branches]:
  "apply_bailing think chat add_ass =
    each (\<lambda>m.
     let r = (if role m = ''user'' then ''HUMAN'' else map toupper (role m))
     in put [''<role>'', r, ''</role>'', content m]) chat
   @ ass add_ass [''<role>ASSISTANT</role>''] @ ass (add_ass \<and> think) [''<think>'']"

definition apply_bailing2 :: "chat_ptr list \<Rightarrow> bool \<Rightarrow> string" where [chat_branches]:
  "apply_bailing2 chat add_ass =
    (if chat \<noteq> [] \<and> role (hd chat) = ''system'' then [] else put [''<role>SYSTEM</role>detailed thinking off<|role_end|>''])
   @ each (\<lambda>m.
       let r = (if role m = ''user'' then ''HUMAN'' else map toupper (role m))
       in put [''<role>'', r, ''</role>'', content m, ''<|role_end|>'']) chat
   @ ass add_ass [''<role>ASSISTANT</role>'']"

definition apply_llama4 :: "chat_ptr list \<Rightarrow> bool \<Rightarrow> string" where [chat_branches]:
  "apply_llama4 chat add_ass =
    each (\<lambda>m. put [''<|header_start|>'', role m, ''<|header_end|>'', nl, nl, trim (content m), ''<|eot|>'']) chat
   @ ass add_ass [''<|header_start|>assistant<|header_end|>'', nl, nl]"

definition apply_smolvlm :: "chat_ptr list \<Rightarrow> bool \<Rightarrow> string" where [chat_branches]:
  "apply_smolvlm chat add_ass =
    put [''<|im_start|>'']
   @ each (\<lambda>m.
       if role m = ''system'' then put [content m, nl, nl]
       else if role m = ''user'' then put [''User: '', content m, ''<end_of_utterance>'', nl]
       else put [''Assistant: '', content m, ''<end_of_utterance>'', nl]) chat
   @ ass add_ass [''Assistant:'']"

definition apply_dots1 :: "chat_ptr list \<Rightarrow> bool \<Rightarrow> string" where [chat_branches]:
  "apply_dots1 chat add_ass =
    each (\<lambda>m.
     if role m = ''system'' then put [''<|system|>'', content m, ''<|endofsystem|>'']
     else if role m = ''user'' then put [''<|userprompt|>'', content m, ''<|endofuserprompt|>'']
     else put [''<|response|>'', content m, ''<|endofresponse|>'']) chat
   @ ass add_ass [''<|response|>'']"

definition apply_hunyuan_moe :: "chat_ptr list \<Rightarrow> bool \<Rightarrow> string" where [chat_branches]:
  "apply_hunyuan_moe chat add_ass =
    each (\<lambda>m.
     if role m = ''system'' then put [''<|startoftext|>'', content m, ''<|extra_4|>'']
     else if role m = ''assistant'' then put [content m, ''<|eos|>'']
     else put [''<|startoftext|>'', content m, ''<|extra_0|>'']) chat"

definition apply_openai_moe :: "chat_ptr list \<Rightarrow> bool \<Rightarrow> string" where [chat_branches]:
  "apply_openai_moe chat add_ass =
    each (\<lambda>m.
     put [''<|start|>'', role m, ''<|message|>'', content m]
     @ put [if role m = ''assistant'' then ''<|return|>'' else ''<|end|>'']) chat
   @ ass add_ass [''<|start|>assistant'']"

definition apply_hunyuan_dense :: "chat_ptr list \<Rightarrow> bool \<Rightarrow> string" where [chat_branches]:
  "apply_hunyuan_dense chat add_ass =
    each_i 0 (\<lambda>i m.
     (if i = 0 then (if role m = ''system'' then put [content m, ''<'', [CHR 0xEF, CHR 0xBD, CHR 0x9C], ''hy_place'', [CHR 0xE2, CHR 0x96, CHR 0x81], ''holder'', [CHR 0xE2, CHR 0x96, CHR 0x81], ''no'', [CHR 0xE2, CHR 0x96, CHR 0x81], ''3'', [CHR 0xEF, CHR 0xBD, CHR 0x9C], ''>''] else []) else [])
     @ (if role m = ''assistant'' then put [''<'', [CHR 0xEF, CHR 0xBD, CHR 0x9C], ''hy_Assistant'', [CHR 0xEF, CHR 0xBD, CHR 0x9C], ''>'', content m, ''<'', [CHR 0xEF, CHR 0xBD, CHR 0x9C], ''hy_place'', [CHR 0xE2, CHR 0x96, CHR 0x81], ''holder'', [CHR 0xE2, CHR 0x96, CHR 0x81], ''no'', [CHR 0xE2, CHR 0x96, CHR 0x81], ''2'', [CHR 0xEF, CHR 0xBD, CHR 0x9C], ''>'']
        else if role m = ''user'' then put [''<'', [CHR 0xEF, CHR 0xBD, CHR 0x9C], ''hy_User'', [CHR 0xEF, CHR 0xBD, CHR 0x9C], ''>'', content m, ''<'', [CHR 0xEF, CHR 0xBD, CHR 0x9C], ''hy_Assistant'', [CHR 0xEF, CHR 0xBD, CHR 0x9C], ''>'']
        else [])) chat"

definition apply_kimi_k2 :: "chat_ptr list \<Rightarrow> bool \<Rightarrow> string" where [chat_branches]:
  "apply_kimi_k2 chat add_ass =
    each (\<lambda>m.
     (if role m = ''system'' then put [''<|im_system|>system<|im_middle|>'']
      else if role m = ''user'' then put [''<|im_user|>user<|im_middle|>'']
      else if role m = ''assistant'' then put [''<|im_assistant|>assistant<|im_middle|>'']
      else if role m = ''tool'' then put [''<|im_system|>tool<|im_middle|>'']
      else [])
     @ put [content m, ''<|im_end|>'']) chat
   @ ass add_ass [''<|im_assistant|>assistant<|im_middle|>'']"

definition apply_seed_oss :: "chat_ptr list \<Rightarrow> bool \<Rightarrow> string" where [chat_branches]:
  "apply_seed_oss chat add_ass =
    each (\<lambda>m. put [''<seed:bos>'', role m, nl, if role m = ''assistant'' then trim (content m) else content m, ''<seed:eos>'']) chat
   @ ass add_ass [''<seed:bos>assistant'', nl]"

definition apply_grok_2 :: "chat_ptr list \<Rightarrow> bool \<Rightarrow> string" where [chat_branches]:
  "apply_grok_2 chat add_ass =
    each (\<lambda>m.
     if role m = ''system'' then put [''System: '', trim (content m), ''<|separator|>'', nl, nl]
     else if role m = ''user'' then put [''Human: '', trim (content m), ''<|separator|>'', nl, nl]
     else if role m = ''assistant'' then put [''Assistant: '', content m, ''<|separator|>'', nl, nl]
     else []) chat
   @ ass add_ass [''Assistant:'']"

definition apply_pangu_embed :: "chat_ptr list \<Rightarrow> bool \<Rightarrow> string" where [chat_branches]:
  "apply_pangu_embed chat add_ass =
    each_i 0 (\<lambda>i m.
     (if i = 0 \<and> role m \<noteq> ''system'' then put [''[unused9]'', [CHR 0xE7, CHR 0xB3, CHR 0xBB, CHR 0xE7, CHR 0xBB, CHR 0x9F, CHR 0xEF, CHR 0xBC, CHR 0x9A], ''[unused10]''] else [])
     @ (if role m = ''system'' then put [''[unused9]'', [CHR 0xE7, CHR 0xB3, CHR 0xBB, CHR 0xE7, CHR 0xBB, CHR 0x9F, CHR 0xEF, CHR 0xBC, CHR 0x9A], content m, ''[unused10]'']
        else if role m = ''user'' then put [''[unused9]'', [CHR 0xE7, CHR 0x94, CHR 0xA8, CHR 0xE6, CHR 0x88, CHR 0xB7, CHR 0xEF, CHR 0xBC, CHR 0x9A], content m, ''[unused10]'']
        else if role m = ''assistant'' then put [''[unused9]'', [CHR 0xE5, CHR 0x8A, CHR 0xA9, CHR 0xE6, CHR 0x89, CHR 0x8B, CHR 0xEF, CHR 0xBC, CHR 0x9A], content m, ''[unused10]'']
        else if role m = ''tool'' then put [''[unused9]'', [CHR 0xE5, CHR 0xB7, CHR 0xA5, CHR 0xE5, CHR 0x85, CHR 0xB7, CHR 0xEF, CHR 0xBC, CHR 0x9A], content m, ''[unused10]'']
        else if role m = ''function'' then put [''[unused9]'', [CHR 0xE6, CHR 0x96, CHR 0xB9, CHR 0xE6, CHR 0xB3, CHR 0x95, CHR 0xEF, CHR 0xBC, CHR 0x9A], content m, ''[unused10]'']
        else [])) chat
   @ ass add_ass [''[unused9]'', [CHR 0xE5, CHR 0x8A, CHR 0xA9, CHR 0xE6, CHR 0x89, CHR 0x8B, CHR 0xEF, CHR 0xBC, CHR 0x9A]]"

definition apply_solar_open :: "chat_ptr list \<Rightarrow> bool \<Rightarrow> string" where [chat_branches]:
  "apply_solar_open chat add_ass =
    each (\<lambda>m. put [''<|begin|>'', role m, ''<|content|>'', content m, ''<|end|>'']) chat
   @ ass add_ass [''<|begin|>assistant'']"


section \<open>The formatter and its callers\<close>

text \<open>\<open>None\<close> is the branch "template not supported".\<close>

definition llm_chat_format :: "llm_chat_template \<Rightarrow> chat_ptr list \<Rightarrow> bool \<Rightarrow> string option" where
  "llm_chat_format tmpl chat add_ass = (case tmpl of
     TEMPLATE_CHATML \<Rightarrow> Some (apply_chatml chat add_ass)
   | TEMPLATE_LLAMA_2 \<Rightarrow> Some (apply_llama_2 False False False chat add_ass)
   | TEMPLATE_LLAMA_2_SYS \<Rightarrow> Some (apply_llama_2 True False False chat add_ass)
   | TEMPLATE_LLAMA_2_SYS_BOS \<Rightarrow> Some (apply_llama_2 True True False chat add_ass)
   | TEMPLATE_LLAMA_2_SYS_STRIP \<Rightarrow> Some (apply_llama_2 True False True chat add_ass)
   | TEMPLATE_MISTRAL_V1 \<Rightarrow> Some (apply_mistral '' '' '' '' False chat add_ass)
   | TEMPLATE_MISTRAL_V3 \<Rightarrow> Some (apply_mistral '''' '' '' True chat add_ass)
   | TEMPLATE_MISTRAL_V3_TEKKEN \<Rightarrow> Some (apply_mistral '''' '''' False chat add_ass)
   | TEMPLATE_MISTRAL_V7 \<Rightarrow> Some (apply_mistral_v7 '' '' chat add_ass)
   | TEMPLATE_MISTRAL_V7_TEKKEN \<Rightarrow> Some (apply_mistral_v7 '''' chat add_ass)
   | TEMPLATE_PHI_3 \<Rightarrow> Some (apply_phi_3 chat add_ass)
   | TEMPLATE_PHI_4 \<Rightarrow> Some (apply_phi_4 chat add_ass)
   | TEMPLATE_FALCON_3 \<Rightarrow> Some (apply_falcon_3 chat add_ass)
   | TEMPLATE_ZEPHYR \<Rightarrow> Some (apply_zephyr chat add_ass)
   | TEMPLATE_MONARCH \<Rightarrow> Some (apply_monarch chat add_ass)
   | TEMPLATE_GEMMA \<Rightarrow> Some (apply_gemma chat add_ass)
   | TEMPLATE_ORION \<Rightarrow> Some (apply_orion chat add_ass)
   | TEMPLATE_OPENCHAT \<Rightarrow> Some (apply_openchat chat add_ass)
   | TEMPLATE_VICUNA \<Rightarrow> Some (apply_vicuna False chat add_ass)
   | TEMPLATE_VICUNA_ORCA \<Rightarrow> Some (apply_vicuna True chat add_ass)
   | TEMPLATE_DEEPSEEK \<Rightarrow> Some (apply_deepseek chat add_ass)
   | TEMPLATE_DEEPSEEK_2 \<Rightarrow> Some (apply_deepseek_2 chat add_ass)
   | TEMPLATE_DEEPSEEK_3 \<Rightarrow> Some (apply_deepseek_3 chat add_ass)
   | TEMPLATE_COMMAND_R \<Rightarrow> Some (apply_command_r chat add_ass)
   | TEMPLATE_LLAMA_3 \<Rightarrow> Some (apply_llama_3 chat add_ass)
   | TEMPLATE_CHATGLM_3 \<Rightarrow> Some (apply_chatglm_3 chat add_ass)
   | TEMPLATE_CHATGLM_4 \<Rightarrow> Some (apply_chatglm_4 chat add_ass)
   | TEMPLATE_GLMEDGE \<Rightarrow> Some (apply_glmedge chat add_ass)
   | TEMPLATE_MINICPM \<Rightarrow> Some (apply_minicpm chat add_ass)
   | TEMPLATE_EXAONE_3 \<Rightarrow> Some (apply_exaone_3 chat add_ass)
   | TEMPLATE_EXAONE_4 \<Rightarrow> Some (apply_exaone_4 chat add_ass)
   | TEMPLATE_EXAONE_MOE \<Rightarrow> Some (apply_exaone_moe chat add_ass)
   | TEMPLATE_RWKV_WORLD \<Rightarrow> Some (apply_rwkv_world chat add_ass)
   | TEMPLATE_GRANITE \<Rightarrow> Some (apply_granite chat add_ass)
   | TEMPLATE_GIGACHAT \<Rightarrow> Some (apply_gigachat chat add_ass)
   | TEMPLATE_MEGREZ \<Rightarrow> Some (apply_megrez chat add_ass)
   | TEMPLATE_YANDEX \<Rightarrow> Some (apply_yandex chat add_ass)
   | TEMPLATE_BAILING \<Rightarrow> Some (apply_bailing False chat add_ass)
   | TEMPLATE_BAILING_THINK \<Rightarrow> Some (apply_bailing True chat add_ass)
   | TEMPLATE_BAILING2 \<Rightarrow> Some (apply_bailing2 chat add_ass)
   | TEMPLATE_LLAMA4 \<Rightarrow> Some (apply_llama4 chat add_ass)
   | TEMPLATE_SMOLVLM \<Rightarrow> Some (apply_smolvlm chat add_ass)
   | TEMPLATE_DOTS1 \<Rightarrow> Some (apply_dots1 chat add_ass)
   | TEMPLATE_HUNYUAN_MOE \<Rightarrow> Some (apply_hunyuan_moe chat add_ass)
   | TEMPLATE_OPENAI_MOE \<Rightarrow> Some (apply_openai_moe chat add_ass)
   | TEMPLATE_HUNYUAN_DENSE \<Rightarrow> Some (apply_hunyuan_dense chat add_ass)
   | TEMPLATE_KIMI_K2 \<Rightarrow> Some (apply_kimi_k2 chat add_ass)
   | TEMPLATE_SEED_OSS \<Rightarrow> Some (apply_seed_oss chat add_ass)
   | TEMPLATE_GROK_2 \<Rightarrow> Some (apply_grok_2 chat add_ass)
   | TEMPLATE_PANGU_EMBED \<Rightarrow> Some (apply_pangu_embed chat add_ass)
   | TEMPLATE_SOLAR_OPEN \<Rightarrow> Some (apply_solar_open chat add_ass)
   | TEMPLATE_UNKNOWN \<Rightarrow> None)"

text \<open>Conversion to \<open>int32_t\<close>.\<close>

definition to_i32 :: "int \<Rightarrow> int" where
  "to_i32 x = (x + 2147483648) mod 4294967296 - 2147483648"

text \<open>The result is the return value and the new \<open>dest\<close>.\<close>

definition llm_chat_apply_template :: "llm_chat_template \<Rightarrow> chat_ptr list \<Rightarrow> string \<Rightarrow> bool \<Rightarrow> int \<times> string" where
  "llm_chat_apply_template tmpl chat dest add_ass = (case llm_chat_format tmpl chat add_ass of
     None \<Rightarrow> (-1, dest)
   | Some text \<Rightarrow> (to_i32 (int (length text)), text))"

text \<open>
  \<open>strncpy\<close> copies up to the terminating zero of the source and fills the rest of the
  \<open>n\<close> bytes with zeros; \<open>buf\<close> has at least \<open>n\<close> bytes.
\<close>

definition strncpy :: "string \<Rightarrow> string \<Rightarrow> nat \<Rightarrow> string option" where
  "strncpy buf src n = do {
     assert_that (n \<le> length buf);
     let s = take n (takeWhile (\<lambda>c. c \<noteq> CHR 0x00) src);
     Some (s @ replicate (n - length s) (CHR 0x00) @ drop n buf) }"

text \<open>The chat is an array, its element \<open>i\<close> is at address \<open>i\<close>; \<open>None\<close> as \<open>tmpl\<close> or \<open>buf\<close> is \<open>nullptr\<close>.\<close>

definition llama_chat_apply_template :: "string option \<Rightarrow> llama_chat_message list \<Rightarrow> bool \<Rightarrow> string option \<Rightarrow> int \<Rightarrow> (int \<times> string option) option" where
  "llama_chat_apply_template tmpl chat add_ass buf len =
    (let curr_tmpl = (case tmpl of None \<Rightarrow> ''chatml'' | Some t \<Rightarrow> t);
         chat_vec = enumerate 0 chat;
         detected_tmpl = llm_chat_detect_template curr_tmpl
     in if detected_tmpl = TEMPLATE_UNKNOWN then Some (-1, buf)
        else let (res, formatted_chat) = llm_chat_apply_template detected_tmpl chat_vec [] add_ass
        in if res < 0 then Some (res, buf)
        else case buf of
            None \<Rightarrow> Some (res, None)
          | Some b \<Rightarrow>
              if len > 0 then do { b' \<leftarrow> strncpy b formatted_chat (nat len); Some (res, Some b') }
              else Some (res, Some b))"

end
