(* ===== verification/Chat_Format.thy ===== *)
theory Chat_Format
  imports Chat_Template
begin

text \<open>
  Properties of the chat formatter: whitespace trimming, the names of the templates, growth of
  the formatted text with the conversation, the generation prompt, and the public entry point
  with its buffer.
\<close>

section \<open>Trimming\<close>

lemma trim_start_eq:
  "start \<le> length str \<Longrightarrow> drop (trim_start str start (length str)) str = dropWhile isspace (drop start str)
    \<and> start \<le> trim_start str start (length str) \<and> trim_start str start (length str) \<le> length str"
proof (induction str start "length str" rule: trim_start.induct)
  case (1 str start)
  show ?case
  proof (cases "start < length str \<and> isspace (str ! start)")
    case True
    then have "drop start str = str ! start # drop (Suc start) str" by (simp add: Cons_nth_drop_Suc)
    with True 1(1)[OF True] show ?thesis by (subst (1 2 3) trim_start.simps) simp
  next
    case False
    with 1(2) have "dropWhile isspace (drop start str) = drop start str"
      by (cases "start < length str") (auto simp: Cons_nth_drop_Suc[symmetric])
    with False 1(2) show ?thesis by (subst (1 2 3) trim_start.simps) auto
  qed
qed

lemma trim_end_eq:
  "start \<le> stop \<Longrightarrow> stop \<le> length str \<Longrightarrow>
    take (trim_end str start stop - start) (drop start str) = rev (dropWhile isspace (rev (take (stop - start) (drop start str))))"
proof (induction str start stop rule: trim_end.induct)
  case (1 str start stop)
  show ?case
  proof (cases "start < stop")
    case True
    then obtain k where k: "stop - start = Suc k" "k < length (drop start str)" "start + k = stop - 1" "stop - Suc start = k"
      using 1(3) by (cases "stop - start") auto
    have t: "take (stop - start) (drop start str) = take (stop - 1 - start) (drop start str) @ [str ! (stop - 1)]"
      using take_Suc_conv_app_nth[OF k(2)] k 1(3) True by simp
    show ?thesis
    proof (cases "isspace (str ! (stop - 1))")
      case sp: True
      have "take (trim_end str start (stop - 1) - start) (drop start str) = rev (dropWhile isspace (rev (take (stop - 1 - start) (drop start str))))"
        using 1 True sp by simp
      then show ?thesis using True sp t by (subst trim_end.simps) simp
    next
      case False
      then show ?thesis using t by (subst trim_end.simps) simp
    qed
  next
    case False
    then show ?thesis using 1(2) by (subst trim_end.simps) simp
  qed
qed

lemma trim_eq: "trim str = rev (dropWhile isspace (rev (dropWhile isspace str)))"
proof -
  note s = trim_start_eq[of 0 str, simplified]
  then have "length (dropWhile isspace str) = length str - trim_start str 0 (length str)" by (metis length_drop)
  then show ?thesis
    using trim_end_eq[of "trim_start str 0 (length str)" "length str" str] s by (simp add: trim_def Let_def)
qed

lemma sublist_trim: "sublist (trim s) s"
proof -
  obtain a where a: "s = a @ dropWhile isspace s" by (metis takeWhile_dropWhile_id)
  let ?t = "dropWhile isspace s"
  have "rev ?t = takeWhile isspace (rev ?t) @ dropWhile isspace (rev ?t)" by simp
  then have "?t = rev (dropWhile isspace (rev ?t)) @ rev (takeWhile isspace (rev ?t))" by (metis rev_append rev_rev_ident)
  with a show ?thesis unfolding trim_eq sublist_def by metis
qed

text \<open>
  \<open>trim\<close> cuts off exactly the whitespace at both ends: the text is whitespace, then the
  result, then whitespace, and the result neither begins nor ends with whitespace.
\<close>

lemma trim_correct:
  "\<exists>a b. str = a @ trim str @ b \<and> (\<forall>c \<in> set a \<union> set b. isspace c) \<and>
    (trim str = [] \<or> \<not> isspace (hd (trim str)) \<and> \<not> isspace (last (trim str)))"
proof -
  let ?d = "dropWhile isspace str"
  let ?w = "takeWhile isspace (rev ?d)"
  have d: "?d = trim str @ rev ?w"
    unfolding trim_eq by (metis rev_append rev_rev_ident takeWhile_dropWhile_id)
  have "str = takeWhile isspace str @ trim str @ rev ?w" by (metis d takeWhile_dropWhile_id)
  moreover have "\<forall>c \<in> set (takeWhile isspace str) \<union> set (rev ?w). isspace c" by (auto dest: set_takeWhileD)
  moreover have "\<not> isspace (hd (trim str)) \<and> \<not> isspace (last (trim str))" if ne: "trim str \<noteq> []"
  proof
    have "?d \<noteq> []" using d ne by (metis append_is_Nil_conv)
    then have "\<not> isspace (hd ?d)" using hd_dropWhile by blast
    then show "\<not> isspace (hd (trim str))" using d ne by (metis hd_append2)
    have "dropWhile isspace (rev ?d) \<noteq> []" using ne by (simp add: trim_eq)
    then show "\<not> isspace (last (trim str))" using hd_dropWhile[of isspace "rev ?d"] by (simp add: trim_eq last_rev)
  qed
  ultimately show ?thesis by (intro exI[of _ "takeWhile isspace str"] exI[of _ "rev ?w"]) auto
qed

section \<open>The loop over the messages\<close>

definition emit_state :: "('s \<Rightarrow> 'm \<Rightarrow> string \<times> 's) \<Rightarrow> 's \<Rightarrow> 'm list \<Rightarrow> 's" where
  "emit_state f = foldl (\<lambda>s m. snd (f s m))"

lemma emit_append [simp]: "emit f s (xs @ ys) = emit f s xs @ emit f (emit_state f s xs) ys"
  by (induction xs arbitrary: s) (auto simp: emit_state_def split: prod.split)

lemma each_append [simp]: "each f (xs @ ys) = each f xs @ each f ys"
  by (simp add: each_def)

lemma each_i_append [simp]: "each_i k f (xs @ ys) = each_i k f xs @ each_i (k + length xs) f ys"
proof -
  have "emit_state (\<lambda>i m. (f i m, Suc i)) k xs = k + length xs"
    by (induction xs arbitrary: k) (simp_all add: emit_state_def)
  then show ?thesis by (simp add: each_i_def)
qed

lemma each_i_cong:
  "(\<And>i. i < length ms \<Longrightarrow> f (k + i) (ms ! i) = g (k + i) (ms ! i)) \<Longrightarrow> each_i k f ms = each_i k g ms"
proof (induction ms arbitrary: k)
  case (Cons m ms)
  have "each_i (Suc k) f ms = each_i (Suc k) g ms" using Cons(2)[of "Suc _"] by (intro Cons(1)) simp
  then show ?case using Cons(2)[of 0] by (simp add: each_i_def)
qed (simp add: each_i_def)

lemma each_Cons [simp]: "each f (m # ms) = f m @ each f ms"
  by (simp add: each_def)

lemma each_i_Cons [simp]: "each_i k f (m # ms) = f k m @ each_i (Suc k) f ms"
  by (simp add: each_i_def)

text \<open>The text of a message occurs in the output; the rules search for the place.\<close>

definition shown :: "chat_ptr \<Rightarrow> string \<Rightarrow> bool" where
  "shown m s \<longleftrightarrow> sublist (trim (content m)) s"

lemma shown_put:
  assumes "content m \<in> set xs \<or> trim (content m) \<in> set xs"
  shows "shown m (put xs)"
proof -
  have "sublist x (put xs)" if "x \<in> set xs" for x
    using that unfolding put_def sublist_def by (metis concat.simps(2) concat_append split_list)
  with assms sublist_trim[of "content m"] show ?thesis
    unfolding shown_def by (meson sublist_order.order_trans)
qed

lemma shown_append: "shown m b \<Longrightarrow> shown m (a @ b)" "shown m a \<Longrightarrow> shown m (a @ b)"
  unfolding shown_def sublist_def by (metis append.assoc)+

lemmas shown_rules = shown_put shown_append

section \<open>Growth with the conversation\<close>

lemma format_defined: "llm_chat_format t chat b = None \<longleftrightarrow> t = TEMPLATE_UNKNOWN"
  by (cases t) (simp_all add: llm_chat_format_def)

lemma rwkv_growth:
  assumes "chat \<noteq> []" "role (last chat) \<noteq> ''user''"
  shows "prefix (apply_rwkv_world chat b) (apply_rwkv_world (chat @ rest) b')"
proof -
  let ?f = "\<lambda>n i m. if role m = ''system'' then put [''System: '', trim (content m), nl, nl]
     else if role m = ''user'' then put [''User: '', trim (content m), nl, nl] @ (if i = n - 1 then put [''Assistant:''] else [])
     else if role m = ''assistant'' then put [''Assistant: '', trim (content m), nl, nl] else []"
  have "each_i 0 (?f (length chat)) chat = each_i 0 (?f (length (chat @ rest))) chat"
  proof (rule each_i_cong)
    fix i assume "i < length chat"
    then show "?f (length chat) (0 + i) (chat ! i) = ?f (length (chat @ rest)) (0 + i) (chat ! i)"
      using assms by (cases "i = length chat - 1") (auto simp: last_conv_nth)
  qed
  then show ?thesis by (simp add: apply_rwkv_world_def)
qed

text \<open>
  C23: Formatting is incremental: the text of a conversation without generation prompt is a
  prefix of the text of every longer conversation, so the tokens of the old text (and the cache
  entries for them) stay valid. The two exceptions are \<open>rwkv-world\<close> after a user message and \<open>bailing2\<close> for the empty conversation.
\<close>

theorem chat_growth:
  assumes "t \<noteq> TEMPLATE_UNKNOWN" "t = TEMPLATE_BAILING2 \<longrightarrow> chat \<noteq> []" "t = TEMPLATE_RWKV_WORLD \<and> chat \<noteq> [] \<longrightarrow> role (last chat) \<noteq> ''user''"
  shows "\<exists>p q. llm_chat_format t chat False = Some p \<and> llm_chat_format t (chat @ rest) add_ass = Some q \<and> prefix p q"
proof (cases "t = TEMPLATE_RWKV_WORLD")
  case True
  then show ?thesis using assms rwkv_growth[of chat False rest add_ass]
    by (cases "chat = []") (auto simp: llm_chat_format_def apply_rwkv_world_def each_i_def)
next
  case f: False
  show ?thesis
  proof (cases "chat = []")
    case True
    with f assms(1,2) show ?thesis
      by (cases t) (simp_all add: llm_chat_format_def chat_branches ass_def Let_def each_def each_i_def put_def)
  next
    case False
    with f assms(1) show ?thesis
      by (cases t) (simp_all add: llm_chat_format_def chat_branches ass_def Let_def)
  qed
qed

text \<open>
  The generation prompt is a constant of the template: asking for it appends the same text
  to every conversation and changes nothing else.
\<close>

lemma generation_prompt:
  "\<exists>s. \<forall>chat. llm_chat_format t chat True = map_option (\<lambda>p. p @ s) (llm_chat_format t chat False)"
  by (cases t) (auto simp: llm_chat_format_def chat_branches ass_def Let_def intro!: exI)

lemma gigachat_shows:
  assumes "m \<in> set chat" and r: "role m = ''user'' \<or> role m = ''assistant''"
  shows "shown m (apply_gigachat chat add_ass)"
proof -
  have "m \<in> set (drop (if chat \<noteq> [] \<and> role (hd chat) = ''system'' then 1 else 0) chat)"
    using assms by (cases chat) auto
  then obtain xs ys where "drop (if chat \<noteq> [] \<and> role (hd chat) = ''system'' then 1 else 0) chat = xs @ m # ys"
    using split_list by fast
  then show ?thesis using r unfolding apply_gigachat_def Let_def
    by (elim disjE) (simp_all add: shown_rules)
qed

lemma format_shows:
  assumes "t \<noteq> TEMPLATE_UNKNOWN" "t \<noteq> TEMPLATE_GIGACHAT" "role m = ''user'' \<or> role m = ''assistant''"
  shows "shown m (the (llm_chat_format t (xs @ m # ys) add_ass))"
  using assms(3,1,2) 
  by (elim disjE; cases t) (simp_all add: llm_chat_format_def chat_branches Let_def shown_rules)

text \<open>
  C25: No turn is lost: the trimmed text of every user and assistant message occurs in the
  formatted conversation, whichever template is used.
\<close>

theorem chat_keeps_turns:
  assumes "t \<noteq> TEMPLATE_UNKNOWN" "m \<in> set chat" "role m = ''user'' \<or> role m = ''assistant''"
  shows "\<exists>p. llm_chat_format t chat add_ass = Some p \<and> sublist (trim (content m)) p"
proof -
  obtain p where p: "llm_chat_format t chat add_ass = Some p" using assms(1) format_defined by (metis option.exhaust)
  obtain xs ys where "chat = xs @ m # ys" using assms(2) split_list by fast
  then have "shown m p" using format_shows[of t m xs ys add_ass] gigachat_shows[OF assms(2,3)] assms p
    by (cases "t = TEMPLATE_GIGACHAT") (auto simp: llm_chat_format_def)
  with p show ?thesis by (simp add: shown_def)
qed

section \<open>Names of the templates\<close>

lemma str_contains_iff: "str_contains h s \<longleftrightarrow> sublist h s"
  by (induction s) (auto simp: sublist_Cons_right)

lemma names_distinct: "distinct (map fst LLM_CHAT_TEMPLATES)"
  unfolding LLM_CHAT_TEMPLATES_def by simp

lemma named_templates: "t \<in> snd ` set LLM_CHAT_TEMPLATES \<longleftrightarrow> t \<notin> {TEMPLATE_UNKNOWN, TEMPLATE_DOTS1}"
  by (cases t) (simp_all add: LLM_CHAT_TEMPLATES_def)

lemma detect_named: "(n, t) \<in> set LLM_CHAT_TEMPLATES \<Longrightarrow> llm_chat_detect_template n = t"
  using names_distinct by (simp add: llm_chat_detect_template_def llm_chat_template_from_str_def)

text \<open>
  The names that \<open>llama_chat_builtin_templates\<close> reports are sorted and distinct, each is
  accepted as the name of a template that the formatter supports, and conversely every supported
  template but \<open>DOTS1\<close> is reported under some name.
\<close>

lemma builtin_names_roundtrip:
  assumes "length output = len" "length LLM_CHAT_TEMPLATES \<le> len"
  shows "\<exists>names. llama_chat_builtin_templates output len = (int (length names), names @ drop (length names) output) \<and>
    sorted names \<and> distinct names \<and>
    llm_chat_detect_template ` set names = UNIV - {TEMPLATE_UNKNOWN, TEMPLATE_DOTS1}"
proof (intro exI conjI)
  let ?ns = "sort (map fst LLM_CHAT_TEMPLATES)"
  show "llama_chat_builtin_templates output len = (int (length ?ns), ?ns @ drop (length ?ns) output)"
    using assms by (simp add: llama_chat_builtin_templates_def Let_def min_absorb2)
  show "sorted ?ns" "distinct ?ns" using names_distinct by simp_all
  have "llm_chat_detect_template ` set ?ns = snd ` set LLM_CHAT_TEMPLATES"
    using detect_named by (force simp: image_iff)
  then show "llm_chat_detect_template ` set ?ns = UNIV - {TEMPLATE_UNKNOWN, TEMPLATE_DOTS1}"
    using named_templates by auto
qed

section \<open>The public entry point\<close>

definition nul_free :: "string \<Rightarrow> bool" where
  "nul_free s \<longleftrightarrow> CHR 0x00 \<notin> set s"

lemma nul_free_simps [simp]: "nul_free []" "nul_free (c # s) \<longleftrightarrow> c \<noteq> CHR 0x00 \<and> nul_free s"
  "nul_free (a @ b) \<longleftrightarrow> nul_free a \<and> nul_free b" "nul_free (put xs) \<longleftrightarrow> (\<forall>x \<in> set xs. nul_free x)"
  by (auto simp: nul_free_def put_def)

lemma nul_free_each [simp]: "nul_free (each f ms) \<longleftrightarrow> (\<forall>m \<in> set ms. nul_free (f m))"
  by (induction ms) (simp_all add: each_def)

lemma nul_free_trim: "nul_free s \<Longrightarrow> nul_free (trim s)"
  unfolding nul_free_def using sublist_trim set_mono_sublist by fast

lemma toupper_nul: "c \<noteq> CHR 0x00 \<Longrightarrow> toupper c \<noteq> CHR 0x00"
proof -
  have "char_of (n - 32) \<noteq> CHR 0x00" if "97 \<le> n" "n \<le> 122" for n :: nat
  proof
    assume "char_of (n - 32) = CHR 0x00"
    then have "of_char (char_of (n - 32) :: char) = (0 :: nat)" by simp
    then show False using that by simp
  qed
  then show "c \<noteq> CHR 0x00 \<Longrightarrow> toupper c \<noteq> CHR 0x00" by (simp add: toupper_def less_eq_char_def)
qed

lemma emit_nul_free:
  assumes "\<And>s m. Q s \<Longrightarrow> m \<in> set ms \<Longrightarrow> nul_free (fst (f s m)) \<and> Q (snd (f s m))" "Q s"
  shows "nul_free (emit f s ms)"
  using assms
proof (induction ms arbitrary: s)
  case (Cons m ms)
  then show ?case using Cons(2)[of s m] by (cases "f s m") auto
qed simp

lemma each_i_nul_free: "(\<And>i m. m \<in> set ms \<Longrightarrow> nul_free (f i m)) \<Longrightarrow> nul_free (each_i k f ms)"
  unfolding each_i_def by (rule emit_nul_free[where Q = "\<lambda>_. True"]) simp_all

lemma nul_free_toupper [simp]: "nul_free s \<Longrightarrow> nul_free (map toupper s)"
  by (induction s) (simp_all add: toupper_nul)

definition clean_chat :: "chat_ptr list \<Rightarrow> bool" where
  "clean_chat chat \<longleftrightarrow> (\<forall>m \<in> set chat. nul_free (role m) \<and> nul_free (content m))"

lemma clean_chatD: "clean_chat chat \<Longrightarrow> m \<in> set chat \<Longrightarrow> nul_free (role m) \<and> nul_free (content m) \<and> nul_free (trim (content m))"
  by (auto simp: clean_chat_def nul_free_trim)

lemma nul_free_stateful:
  assumes c: "clean_chat chat"
  shows "nul_free a \<Longrightarrow> nul_free b \<Longrightarrow> nul_free (apply_mistral a b x chat add_ass)"
    "nul_free (apply_llama_2 x y z chat add_ass)"
    "nul_free (apply_gemma chat add_ass)" "nul_free (apply_orion chat add_ass)"
proof -
  note D = clean_chatD[OF c]
  show "nul_free a \<Longrightarrow> nul_free b \<Longrightarrow> nul_free (apply_mistral a b x chat add_ass)"
    unfolding apply_mistral_def by (rule emit_nul_free[where Q = "\<lambda>_. True"]) (auto simp: Let_def dest: D)
  have "nul_free (emit (\<lambda>is_inside_turn m.
     let text = (if z then trim (content m) else content m);
         start = (if is_inside_turn then [] else put [if y then ''<s>[INST] '' else ''[INST] ''])
     in if role m = ''system'' then
          (start @ (if x then put [''<<SYS>>'', nl, text, nl, ''<</SYS>>'', nl, nl] else put [text, nl]), True)
        else if role m = ''user'' then (start @ put [text, '' [/INST]''], True)
        else (start @ put [text, ''</s>''], False)) True chat)"
    by (rule emit_nul_free[where Q = "\<lambda>_. True"]) (auto simp: Let_def dest: D)
  then show "nul_free (apply_llama_2 x y z chat add_ass)" by (simp add: apply_llama_2_def)
  have "nul_free (emit (\<lambda>system_prompt m.
     if role m = ''system'' then ([], system_prompt @ trim (content m))
     else let r = (if role m = ''assistant'' then ''model'' else role m);
              sys = system_prompt \<noteq> [] \<and> r \<noteq> ''model''
       in (put [''<start_of_turn>'', r, nl] @ (if sys then put [system_prompt, nl, nl] else [])
             @ put [trim (content m), ''<end_of_turn>'', nl],
           if sys then [] else system_prompt)) [] chat)"
    by (rule emit_nul_free[where Q = nul_free]) (auto simp: Let_def dest: D)
  then show "nul_free (apply_gemma chat add_ass)" by (simp add: apply_gemma_def ass_def)
  show "nul_free (apply_orion chat add_ass)"
    unfolding apply_orion_def by (rule emit_nul_free[where Q = nul_free]) (auto simp: Let_def dest: D)
qed

lemma format_nul_free:
  assumes c: "clean_chat chat" and p: "llm_chat_format t chat add_ass = Some p"
  shows "nul_free p"
proof -
  note D = clean_chatD[OF c]
  have hd: "chat \<noteq> [] \<Longrightarrow> nul_free (content (hd chat))" using D[of "hd chat"] by simp
  have indexed: "nul_free (apply_rwkv_world chat add_ass)" "nul_free (apply_hunyuan_dense chat add_ass)" "nul_free (apply_pangu_embed chat add_ass)"
    unfolding apply_rwkv_world_def apply_hunyuan_dense_def apply_pangu_embed_def ass_def
    by (auto dest: D intro!: each_i_nul_free)
  have giga: "nul_free (apply_gigachat chat add_ass)"
    using hd by (auto simp: apply_gigachat_def Let_def ass_def dest!: in_set_dropD dest: D)
  have openchat: "nul_free (apply_openchat chat add_ass)"
    by (auto simp: apply_openchat_def ass_def Let_def toupper_nul dest: D split: list.splits)
  show ?thesis
    using p by (cases t) (auto simp: llm_chat_format_def nul_free_stateful[OF c] indexed giga openchat,
      auto simp: chat_branches ass_def Let_def dest: D)
qed

lemma takeWhile_nul_free: "nul_free s \<Longrightarrow> takeWhile (\<lambda>c. c \<noteq> CHR 0x00) s = s"
  by (auto simp: nul_free_def takeWhile_eq_all_conv)

text \<open>
  C27: The public entry point returns the length of the whole text whatever the buffer, and
  fills a buffer of \<open>len\<close> bytes with the text, cut off or padded with zeros: without a buffer
  it only measures, a buffer of one byte more gets the terminated text, and a buffer that is too
  small gets an unterminated prefix.
\<close>

theorem chat_api_buffer:
  assumes clean: "\<forall>m \<in> set chat. nul_free (cm_role m) \<and> nul_free (cm_content m)"
    and tx: "llm_chat_format (llm_chat_detect_template (case tmpl of None \<Rightarrow> ''chatml'' | Some t \<Rightarrow> t)) (enumerate 0 chat) add_ass = Some text"
    and sz: "length text < 2147483648"
  shows "llama_chat_apply_template tmpl chat add_ass None len = Some (int (length text), None) \<and>
    (buf \<noteq> [] \<longrightarrow> llama_chat_apply_template tmpl chat add_ass (Some buf) (int (length buf)) =
      Some (int (length text), Some (take (length buf) text @ replicate (length buf - length text) (CHR 0x00))))"
proof -
  let ?t = "llm_chat_detect_template (case tmpl of None \<Rightarrow> ''chatml'' | Some t \<Rightarrow> t)"
  have "clean_chat (enumerate 0 chat)" using clean by (auto simp: clean_chat_def in_set_enumerate_eq)
  then have nf: "nul_free text" using format_nul_free tx by blast
  have ap: "llm_chat_apply_template ?t (enumerate 0 chat) [] add_ass = (int (length text), text)"
    using tx sz by (simp add: llm_chat_apply_template_def to_i32_def)
  have "?t \<noteq> TEMPLATE_UNKNOWN" using tx format_defined by (metis option.distinct(1))
  moreover have "strncpy buf text (length buf) = Some (take (length buf) text @ replicate (length buf - length text) (CHR 0x00))"
    by (simp add: strncpy_def takeWhile_nul_free[OF nf] min_def)
  ultimately show ?thesis using ap by (auto simp: llama_chat_apply_template_def Let_def)
qed

section \<open>Examples\<close>

definition example_chat :: "chat_ptr list" where
  "example_chat = [(0, \<lparr>cm_role = ''system'', cm_content = ''S''\<rparr>), (1, \<lparr>cm_role = ''user'', cm_content = '' U ''\<rparr>),
     (2, \<lparr>cm_role = ''assistant'', cm_content = ''A''\<rparr>)]"

theorem chat_growth_witness:
  "\<exists>p q. llm_chat_format TEMPLATE_GEMMA example_chat False = Some p \<and>
    llm_chat_format TEMPLATE_GEMMA (example_chat @ [(3, \<lparr>cm_role = ''user'', cm_content = ''V''\<rparr>)]) True = Some q \<and> prefix p q"
  by (rule chat_growth) (simp_all add: example_chat_def)

theorem chat_keeps_turns_witness:
  "\<exists>p. llm_chat_format TEMPLATE_MISTRAL_V3 example_chat True = Some p \<and> sublist ''U'' p"
proof -
  have "trim '' U '' = ''U''" by code_simp
  then show ?thesis
    using chat_keeps_turns[of TEMPLATE_MISTRAL_V3 "example_chat ! 1" example_chat True] by (simp add: example_chat_def)
qed

lemma builtin_names_roundtrip_example:
  "\<exists>names. llama_chat_builtin_templates (replicate 60 []) 60 = (int (length names), names @ drop (length names) (replicate 60 [])) \<and>
    TEMPLATE_CHATML \<in> llm_chat_detect_template ` set names"
proof -
  have "length (replicate 60 ([] :: string)) = 60" "length LLM_CHAT_TEMPLATES \<le> 60" by (simp_all add: LLM_CHAT_TEMPLATES_def)
  from builtin_names_roundtrip[OF this] show ?thesis by auto
qed

theorem chat_api_buffer_witness:
  "llama_chat_apply_template None [\<lparr>cm_role = ''user'', cm_content = ''x''\<rparr>] False (Some ''????'') 4 = Some (29, Some ''<|im'')"
proof -
  let ?chat = "[\<lparr>cm_role = ''user'', cm_content = ''x''\<rparr>]" and ?text = "''<|im_start|>user'' @ nl @ ''x<|im_end|>'' @ nl"
  have "\<forall>m \<in> set ?chat. nul_free (cm_role m) \<and> nul_free (cm_content m)" by simp
  moreover have "llm_chat_format (llm_chat_detect_template (case None of None \<Rightarrow> ''chatml'' | Some t \<Rightarrow> t)) (enumerate 0 ?chat) False = Some ?text"
    by code_simp
  ultimately show ?thesis using chat_api_buffer[of ?chat None False ?text 0 "''????''"] by simp
qed

text \<open>The two exceptions to growth.\<close>

lemma rwkv_not_growing:
  "llm_chat_format TEMPLATE_RWKV_WORLD [(0, \<lparr>cm_role = ''user'', cm_content = ''a''\<rparr>)] False = Some (''User: a'' @ nl @ nl @ ''Assistant:'') \<and>
   llm_chat_format TEMPLATE_RWKV_WORLD [(0, \<lparr>cm_role = ''user'', cm_content = ''a''\<rparr>), (1, \<lparr>cm_role = ''user'', cm_content = ''b''\<rparr>)] False =
     Some (''User: a'' @ nl @ nl @ ''User: b'' @ nl @ nl @ ''Assistant:'')"
  by code_simp

lemma bailing2_not_growing:
  "llm_chat_format TEMPLATE_BAILING2 [] False = Some ''<role>SYSTEM</role>detailed thinking off<|role_end|>'' \<and>
   llm_chat_format TEMPLATE_BAILING2 [(0, \<lparr>cm_role = ''system'', cm_content = ''a''\<rparr>)] False = Some ''<role>SYSTEM</role>a<|role_end|>''"
  by code_simp

end
