(* ===== verification/Unicode_Utf8.thy ===== *)
theory Unicode_Utf8
  imports Llama_Prelude
begin

text \<open>
  UTF-8 (\<open>src/src/unicode.cpp\<close>): encoding of a code point, decoding at an offset of a byte string
  with the exceptions of the code as \<open>Inl\<close>, decoding of a whole string with replacement
  characters, and the two byte maps of byte-level BPE.

  A byte string is a list of bytes, natural numbers below 256; masks and shifts are the bit
  operations of the code on natural numbers.
\<close>

unbundle bit_operations_syntax

type_synonym bytes = "nat list"

abbreviation byte_string :: "bytes \<Rightarrow> bool" where
  "byte_string s \<equiv> (\<forall>b \<in> set s. b < 256)"

datatype invalid_argument = Invalid_Character | Failed_To_Convert | Invalid_Codepoint

section \<open>Definitions\<close>

definition unicode_len_utf8 :: "nat \<Rightarrow> nat" where
  "unicode_len_utf8 src = [1, 1, 1, 1, 1, 1, 1, 1, 1, 1, 1, 1, 2, 2, 3, 4] ! drop_bit 4 src"

definition unicode_cpt_to_utf8 :: "nat \<Rightarrow> invalid_argument + bytes" where
  "unicode_cpt_to_utf8 cpt =
    (if cpt \<le> 0x7f then Inr [cpt]
     else if 0x80 \<le> cpt \<and> cpt \<le> 0x7ff then
       Inr [0xc0 OR (drop_bit 6 cpt AND 0x1f), 0x80 OR (cpt AND 0x3f)]
     else if 0x800 \<le> cpt \<and> cpt \<le> 0xffff then
       Inr [0xe0 OR (drop_bit 12 cpt AND 0x0f), 0x80 OR (drop_bit 6 cpt AND 0x3f), 0x80 OR (cpt AND 0x3f)]
     else if 0x10000 \<le> cpt \<and> cpt \<le> 0x10ffff then
       Inr [0xf0 OR (drop_bit 18 cpt AND 0x07), 0x80 OR (drop_bit 12 cpt AND 0x3f), 0x80 OR (drop_bit 6 cpt AND 0x3f), 0x80 OR (cpt AND 0x3f)]
     else Inl Invalid_Codepoint)"

fun unicode_cpts_to_utf8 :: "nat list \<Rightarrow> invalid_argument + bytes" where
  "unicode_cpts_to_utf8 [] = Inr []"
| "unicode_cpts_to_utf8 (c # cps) = (case unicode_cpt_to_utf8 c of
     Inl e \<Rightarrow> Inl e
   | Inr s \<Rightarrow> (case unicode_cpts_to_utf8 cps of Inl e \<Rightarrow> Inl e | Inr t \<Rightarrow> Inr (s @ t)))"

abbreviation is_cont :: "bytes \<Rightarrow> nat \<Rightarrow> bool" where
  "is_cont utf8 i \<equiv> (utf8 ! i) AND 0xc0 = 0x80"

text \<open>The code point and the new offset; the assertion is a precondition of the caller.\<close>

definition unicode_cpt_from_utf8 :: "bytes \<Rightarrow> nat \<Rightarrow> invalid_argument + (nat \<times> nat)" where
  "unicode_cpt_from_utf8 utf8 offset =
    (if utf8 ! offset AND 0x80 = 0 then Inr (utf8 ! offset, offset + 1)
     else if utf8 ! offset AND 0x40 = 0 then Inl Invalid_Character
     else if utf8 ! offset AND 0x20 = 0 then
       (if offset + 1 \<ge> length utf8 \<or> \<not> is_cont utf8 (offset + 1) then Inl Invalid_Character
        else Inr (push_bit 6 (utf8 ! offset AND 0x1f) OR (utf8 ! (offset + 1) AND 0x3f), offset + 2))
     else if utf8 ! offset AND 0x10 = 0 then
       (if offset + 2 \<ge> length utf8 \<or> \<not> is_cont utf8 (offset + 1) \<or> \<not> is_cont utf8 (offset + 2) then Inl Invalid_Character
        else Inr (push_bit 12 (utf8 ! offset AND 0x0f) OR push_bit 6 (utf8 ! (offset + 1) AND 0x3f) OR (utf8 ! (offset + 2) AND 0x3f), offset + 3))
     else if utf8 ! offset AND 0x08 = 0 then
       (if offset + 3 \<ge> length utf8 \<or> \<not> is_cont utf8 (offset + 1) \<or> \<not> is_cont utf8 (offset + 2) \<or> \<not> is_cont utf8 (offset + 3) then Inl Invalid_Character
        else Inr (push_bit 18 (utf8 ! offset AND 0x07) OR push_bit 12 (utf8 ! (offset + 1) AND 0x3f)
               OR push_bit 6 (utf8 ! (offset + 2) AND 0x3f) OR (utf8 ! (offset + 3) AND 0x3f), offset + 4))
     else Inl Failed_To_Convert)"

lemma cpt_from_utf8_advances:
  "unicode_cpt_from_utf8 utf8 offset = Inr (c, offset') \<Longrightarrow> offset < offset' \<and> (offset < length utf8 \<longrightarrow> offset' \<le> length utf8)"
  by (auto simp: unicode_cpt_from_utf8_def split: if_splits)

function cpts_from_utf8_loop :: "bytes \<Rightarrow> nat \<Rightarrow> nat list" where
  "cpts_from_utf8_loop utf8 offset =
    (if offset < length utf8 then
       (case unicode_cpt_from_utf8 utf8 offset of
          Inr (c, offset') \<Rightarrow> c # cpts_from_utf8_loop utf8 offset'
        | Inl _ \<Rightarrow> 0xFFFD # cpts_from_utf8_loop utf8 (offset + 1))
     else [])"
  by pat_completeness auto
termination
  by (relation "measure (\<lambda>(utf8, offset). length utf8 - offset)") (auto dest!: cpt_from_utf8_advances)

declare cpts_from_utf8_loop.simps [simp del]

definition unicode_cpts_from_utf8 :: "bytes \<Rightarrow> nat list" where
  "unicode_cpts_from_utf8 utf8 = cpts_from_utf8_loop utf8 0"

text \<open>
  The byte maps. Three ranges of bytes stand for themselves; the other bytes get the code points
  from 256 on, in order.
\<close>

definition printable_bytes :: "nat list" where
  "printable_bytes = [0x21..<0x7F] @ [0xA1..<0xAD] @ [0xAE..<0x100]"

text \<open>The encoding of a code point that is known to be valid.\<close>

definition utf8_of :: "nat \<Rightarrow> bytes" where
  "utf8_of cpt = projr (unicode_cpt_to_utf8 cpt)"

definition byte_map_step :: "nat \<Rightarrow> (nat \<rightharpoonup> bytes) \<times> nat \<Rightarrow> (nat \<rightharpoonup> bytes) \<times> nat" where
  "byte_map_step ch = (\<lambda>(map, n). if map ch = None then (map(ch \<mapsto> utf8_of (256 + n)), n + 1) else (map, n))"

definition unicode_byte_to_utf8_map :: "nat \<rightharpoonup> bytes" where
  "unicode_byte_to_utf8_map = fst (fold byte_map_step [0..<256]
     (fold (\<lambda>ch map. map(ch \<mapsto> utf8_of ch)) printable_bytes Map.empty, 0))"

definition unicode_byte_to_utf8 :: "nat \<Rightarrow> bytes option" where
  "unicode_byte_to_utf8 byte = unicode_byte_to_utf8_map byte"

definition cpt_map_step :: "nat \<Rightarrow> (bytes \<rightharpoonup> nat) \<times> nat \<Rightarrow> (bytes \<rightharpoonup> nat) \<times> nat" where
  "cpt_map_step ch = (\<lambda>(map, n). if map (utf8_of ch) = None then (map(utf8_of (256 + n) \<mapsto> ch), n + 1) else (map, n))"

definition unicode_utf8_to_byte_map :: "bytes \<rightharpoonup> nat" where
  "unicode_utf8_to_byte_map = fst (fold cpt_map_step [0..<256]
     (fold (\<lambda>ch map. map(utf8_of ch \<mapsto> ch)) printable_bytes Map.empty, 0))"

definition unicode_utf8_to_byte :: "bytes \<Rightarrow> nat option" where
  "unicode_utf8_to_byte utf8 = unicode_utf8_to_byte_map utf8"

definition unicode_cpt_is_han :: "nat \<Rightarrow> bool" where
  "unicode_cpt_is_han cpt \<longleftrightarrow>
     (0x4E00 \<le> cpt \<and> cpt \<le> 0x9FFF) \<or> (0x3400 \<le> cpt \<and> cpt \<le> 0x4DBF) \<or> (0x20000 \<le> cpt \<and> cpt \<le> 0x2A6DF) \<or>
     (0x2A700 \<le> cpt \<and> cpt \<le> 0x2B73F) \<or> (0x2B740 \<le> cpt \<and> cpt \<le> 0x2B81F) \<or> (0x2B820 \<le> cpt \<and> cpt \<le> 0x2CEAF) \<or>
     (0x2CEB0 \<le> cpt \<and> cpt \<le> 0x2EBEF) \<or> (0xF900 \<le> cpt \<and> cpt \<le> 0xFAFF) \<or> (0x2F800 \<le> cpt \<and> cpt \<le> 0x2FA1F)"

section \<open>Bit operations as arithmetic\<close>

lemma and_mod:
  fixes x :: nat
  shows "x AND 0x3f = x mod 64" "x AND 0x1f = x mod 32" "x AND 0x0f = x mod 16" "x AND 0x07 = x mod 8"
  using take_bit_eq_mask[of 6 x] take_bit_eq_mask[of 5 x] take_bit_eq_mask[of 4 x] take_bit_eq_mask[of 3 x]
  by (simp_all add: take_bit_eq_mod mask_eq_exp_minus_1)

lemma or_add:
  fixes x y :: nat
  assumes "y < 2 ^ n"
  shows "push_bit n x OR y = x * 2 ^ n + y"
proof -
  have "bit y m \<Longrightarrow> m < n" for m
    using assms by (metis bit_take_bit_iff take_bit_nat_eq_self)
  then have "push_bit n x AND y = 0"
    by (intro bit_eqI) (auto simp: bit_simps, meson leD)
  then show ?thesis by (simp add: disjunctive_add_eq_or[symmetric] push_bit_eq_mult)
qed

lemma or_lead:
  fixes y :: nat
  shows "y < 32 \<Longrightarrow> 0xc0 OR y = 0xc0 + y" "y < 64 \<Longrightarrow> 0x80 OR y = 0x80 + y" "y < 16 \<Longrightarrow> 0xe0 OR y = 0xe0 + y" "y < 8 \<Longrightarrow> 0xf0 OR y = 0xf0 + y"
  using or_add[of y 5 6] or_add[of y 6 2] or_add[of y 4 14] or_add[of y 3 30] by (simp_all add: push_bit_eq_mult)

text \<open>The tests on a byte.\<close>

lemma and_bit: "(b::nat) AND 2 ^ k = 0 \<longleftrightarrow> even (b div 2 ^ k)"
  by (simp add: and_exp_eq_0_iff_not_bit bit_iff_odd)

lemma and_c0: "(b::nat) AND 0xc0 = 64 * (b div 64 mod 4)"
proof -
  have "b AND push_bit 6 (mask 2) = push_bit 6 (take_bit 2 (drop_bit 6 b))"
    by (intro bit_eqI) (auto simp: bit_simps)
  then show ?thesis by (simp add: mask_eq_exp_minus_1 push_bit_eq_mult take_bit_eq_mod drop_bit_eq_div)
qed

lemma even_div:
  fixes b :: nat
  assumes "2 * q * m \<le> b" "b < (2 * q + 2) * m"
  shows "even (b div m) \<longleftrightarrow> b < (2 * q + 1) * m"
proof (cases "b < (2 * q + 1) * m")
  case True
  then have "b div m = 2 * q" using assms(1) by (intro div_nat_eqI) (simp_all add: algebra_simps)
  with True show ?thesis by simp
next
  case False
  then have "b div m = 2 * q + 1" using assms(2) by (intro div_nat_eqI) (simp_all add: algebra_simps)
  with False show ?thesis by simp
qed

lemma byte_tests:
  fixes b :: nat
  assumes "b < 256"
  shows "b AND 0x80 = 0 \<longleftrightarrow> b < 0x80" "b AND 0xc0 = 0x80 \<longleftrightarrow> 0x80 \<le> b \<and> b < 0xc0"
    "b \<ge> 0x80 \<Longrightarrow> b AND 0x40 = 0 \<longleftrightarrow> b < 0xc0" "b \<ge> 0xc0 \<Longrightarrow> b AND 0x20 = 0 \<longleftrightarrow> b < 0xe0"
    "b \<ge> 0xe0 \<Longrightarrow> b AND 0x10 = 0 \<longleftrightarrow> b < 0xf0" "b \<ge> 0xf0 \<Longrightarrow> b AND 0x08 = 0 \<longleftrightarrow> b < 0xf8"
proof -
  show "b AND 0x80 = 0 \<longleftrightarrow> b < 0x80" using assms and_bit[of b 7] even_div[of 0 128 b] by simp
  show "b AND 0xc0 = 0x80 \<longleftrightarrow> 0x80 \<le> b \<and> b < 0xc0"
  proof -
    have "b div 64 = 2 \<longleftrightarrow> 0x80 \<le> b \<and> b < 0xc0" using assms by auto
    then show ?thesis using assms by (simp add: and_c0)
  qed
  show "b \<ge> 0x80 \<Longrightarrow> b AND 0x40 = 0 \<longleftrightarrow> b < 0xc0" using assms and_bit[of b 6] even_div[of 1 64 b] by simp
  show "b \<ge> 0xc0 \<Longrightarrow> b AND 0x20 = 0 \<longleftrightarrow> b < 0xe0" using assms and_bit[of b 5] even_div[of 3 32 b] by simp
  show "b \<ge> 0xe0 \<Longrightarrow> b AND 0x10 = 0 \<longleftrightarrow> b < 0xf0" using assms and_bit[of b 4] even_div[of 7 16 b] by simp
  show "b \<ge> 0xf0 \<Longrightarrow> b AND 0x08 = 0 \<longleftrightarrow> b < 0xf8" using assms and_bit[of b 3] even_div[of 15 8 b] by simp
qed

lemma drop_bit_div: "drop_bit 6 (x::nat) = x div 64" "drop_bit 12 (x::nat) = x div 4096" "drop_bit 18 (x::nat) = x div 262144"
  by (simp_all add: drop_bit_eq_div)

text \<open>The encoding by arithmetic.\<close>

lemma cpt_to_utf8_eq:
  "unicode_cpt_to_utf8 cpt =
    (if cpt < 0x80 then Inr [cpt]
     else if cpt < 0x800 then Inr [0xc0 + cpt div 64, 0x80 + cpt mod 64]
     else if cpt < 0x10000 then Inr [0xe0 + cpt div 4096, 0x80 + (cpt div 64) mod 64, 0x80 + cpt mod 64]
     else if cpt < 0x110000 then
       Inr [0xf0 + cpt div 262144, 0x80 + (cpt div 4096) mod 64, 0x80 + (cpt div 64) mod 64, 0x80 + cpt mod 64]
     else Inl Invalid_Codepoint)"
  by (auto simp: unicode_cpt_to_utf8_def and_mod or_lead drop_bit_div)

section \<open>Round trip\<close>

lemma cpt_to_utf8_bytes: "unicode_cpt_to_utf8 c = Inr s \<Longrightarrow> byte_string s \<and> s \<noteq> [] \<and> c < 0x110000"
  by (auto simp: cpt_to_utf8_eq split: if_splits)

text \<open>Decoding by arithmetic.\<close>

lemma or_add_simps:
  fixes x y z w :: nat
  shows "y < 64 \<Longrightarrow> push_bit 6 x OR y = x * 64 + y"
    "y < 64 \<Longrightarrow> z < 64 \<Longrightarrow> push_bit 12 x OR push_bit 6 y OR z = x * 4096 + y * 64 + z"
    "y < 64 \<Longrightarrow> z < 64 \<Longrightarrow> w < 64 \<Longrightarrow> push_bit 18 x OR push_bit 12 y OR push_bit 6 z OR w = x * 262144 + y * 4096 + z * 64 + w"
proof -
  have 6: "y < 64 \<Longrightarrow> push_bit 6 x OR y = x * 64 + y" for x y :: nat using or_add[of y 6 x] by simp
  have 12: "push_bit 12 x OR push_bit 6 y OR z = x * 4096 + y * 64 + z" if "y < 64" "z < 64" for x y z :: nat
  proof -
    have "push_bit 12 x OR (push_bit 6 y OR z) = x * 4096 + (y * 64 + z)"
      using or_add[of "y * 64 + z" 12 x] 6[of z y] that by simp
    then show ?thesis by (simp add: or.assoc)
  qed
  show "y < 64 \<Longrightarrow> push_bit 6 x OR y = x * 64 + y" by (rule 6)
  show "y < 64 \<Longrightarrow> z < 64 \<Longrightarrow> push_bit 12 x OR push_bit 6 y OR z = x * 4096 + y * 64 + z" by (rule 12)
  assume yz: "y < 64" "z < 64" "w < 64"
  have "push_bit 18 x OR (push_bit 12 y OR push_bit 6 z OR w) = x * 262144 + (y * 4096 + z * 64 + w)"
    using or_add[of "y * 4096 + z * 64 + w" 18 x] 12[of z w y] yz by simp
  then show "push_bit 18 x OR push_bit 12 y OR push_bit 6 z OR w = x * 262144 + y * 4096 + z * 64 + w" by (simp add: or.assoc)
qed

definition cont_byte :: "nat \<Rightarrow> bool" where
  "cont_byte b \<longleftrightarrow> 0x80 \<le> b \<and> b < 0xc0"

lemma cpt_from_utf8_lead:
  assumes "b < 256" "length pre = n" "byte_string post"
  shows "b < 0x80 \<Longrightarrow> unicode_cpt_from_utf8 (pre @ b # post) n = Inr (b, n + 1)"
    "0x80 \<le> b \<Longrightarrow> b < 0xc0 \<Longrightarrow> unicode_cpt_from_utf8 (pre @ b # post) n = Inl Invalid_Character"
    "0xc0 \<le> b \<Longrightarrow> b < 0xe0 \<Longrightarrow> unicode_cpt_from_utf8 (pre @ b # post) n =
      (if length post < 1 \<or> \<not> cont_byte (post ! 0) then Inl Invalid_Character
       else Inr (b mod 32 * 64 + post ! 0 mod 64, n + 2))"
    "0xe0 \<le> b \<Longrightarrow> b < 0xf0 \<Longrightarrow> unicode_cpt_from_utf8 (pre @ b # post) n =
      (if length post < 2 \<or> \<not> cont_byte (post ! 0) \<or> \<not> cont_byte (post ! 1) then Inl Invalid_Character
       else Inr (b mod 16 * 4096 + post ! 0 mod 64 * 64 + post ! 1 mod 64, n + 3))"
    "0xf0 \<le> b \<Longrightarrow> b < 0xf8 \<Longrightarrow> unicode_cpt_from_utf8 (pre @ b # post) n =
      (if length post < 3 \<or> \<not> cont_byte (post ! 0) \<or> \<not> cont_byte (post ! 1) \<or> \<not> cont_byte (post ! 2) then Inl Invalid_Character
       else Inr (b mod 8 * 262144 + post ! 0 mod 64 * 4096 + post ! 1 mod 64 * 64 + post ! 2 mod 64, n + 4))"
    "0xf8 \<le> b \<Longrightarrow> unicode_cpt_from_utf8 (pre @ b # post) n = Inl Failed_To_Convert"
proof -
  have nth: "(pre @ b # post) ! n = b" "(pre @ b # post) ! (n + 1) = post ! 0" "(pre @ b # post) ! (n + 2) = post ! 1" "(pre @ b # post) ! (n + 3) = post ! 2"
    using assms(2) by (auto simp: nth_append)
  have cont: "length post \<le> i \<or> (post ! i AND 0xc0 = 0x80 \<longleftrightarrow> cont_byte (post ! i))" for i
    using assms(3) byte_tests(2)[of "post ! i"] by (cases "i < length post") (simp_all add: cont_byte_def)
  have len: "length (pre @ b # post) = n + 1 + length post" using assms(2) by simp
  note T = byte_tests[OF assms(1)]
  note S = unicode_cpt_from_utf8_def nth len and_mod
  have m: "x mod 64 < 64" for x :: nat by simp
  note O = or_add_simps(1)[OF m, of "b mod 32" "post ! 0"] or_add_simps(2)[OF m m, of "b mod 16" "post ! 0" "post ! 1"]
    or_add_simps(3)[OF m m m, of "b mod 8" "post ! 0" "post ! 1" "post ! 2"]
  show "b < 0x80 \<Longrightarrow> unicode_cpt_from_utf8 (pre @ b # post) n = Inr (b, n + 1)"
    unfolding S using T(1) by simp
  show "0x80 \<le> b \<Longrightarrow> b < 0xc0 \<Longrightarrow> unicode_cpt_from_utf8 (pre @ b # post) n = Inl Invalid_Character"
    unfolding S using T(1,3) by simp
  show "0xc0 \<le> b \<Longrightarrow> b < 0xe0 \<Longrightarrow> unicode_cpt_from_utf8 (pre @ b # post) n =
      (if length post < 1 \<or> \<not> cont_byte (post ! 0) then Inl Invalid_Character
       else Inr (b mod 32 * 64 + post ! 0 mod 64, n + 2))"
    unfolding S O(1) using T(1,3,4) cont[of 0] by (cases "length post < 1") auto
  show "0xe0 \<le> b \<Longrightarrow> b < 0xf0 \<Longrightarrow> unicode_cpt_from_utf8 (pre @ b # post) n =
      (if length post < 2 \<or> \<not> cont_byte (post ! 0) \<or> \<not> cont_byte (post ! 1) then Inl Invalid_Character
       else Inr (b mod 16 * 4096 + post ! 0 mod 64 * 64 + post ! 1 mod 64, n + 3))"
    unfolding S O(2) using T(1,3,4,5) cont[of 0] cont[of 1] by (cases "length post < 2") auto
  show "0xf0 \<le> b \<Longrightarrow> b < 0xf8 \<Longrightarrow> unicode_cpt_from_utf8 (pre @ b # post) n =
      (if length post < 3 \<or> \<not> cont_byte (post ! 0) \<or> \<not> cont_byte (post ! 1) \<or> \<not> cont_byte (post ! 2) then Inl Invalid_Character
       else Inr (b mod 8 * 262144 + post ! 0 mod 64 * 4096 + post ! 1 mod 64 * 64 + post ! 2 mod 64, n + 4))"
    unfolding S O(3) using T(1,3,4,5,6) cont[of 0] cont[of 1] cont[of 2] by (cases "length post < 3") auto
  show "0xf8 \<le> b \<Longrightarrow> unicode_cpt_from_utf8 (pre @ b # post) n = Inl Failed_To_Convert"
    unfolding S using T(1,3,4,5,6) by simp
qed

lemma lead_mod:
  fixes q :: nat
  shows "q < 32 \<Longrightarrow> (0xc0 + q) mod 32 = q" "q < 16 \<Longrightarrow> (0xe0 + q) mod 16 = q" "q < 8 \<Longrightarrow> (0xf0 + q) mod 8 = q"
    "q < 64 \<Longrightarrow> (0x80 + q) mod 64 = q"
  using mod_mult_self1[of q 6 32] mod_mult_self1[of q 14 16] mod_mult_self1[of q 30 8] mod_mult_self1[of q 2 64]
  by (simp_all add: add.commute)

lemma digits64:
  fixes c :: nat
  shows "c div 64 * 64 + c mod 64 = c" "c div 4096 * 4096 + (c div 64) mod 64 * 64 + c mod 64 = c"
    "c div 262144 * 262144 + (c div 4096) mod 64 * 4096 + (c div 64) mod 64 * 64 + c mod 64 = c"
proof -
  have d: "x div 64 * 64 + x mod 64 = x" for x :: nat by (rule div_mult_mod_eq)
  have q: "c div 4096 = c div 64 div 64" "c div 262144 = c div 64 div 64 div 64" by (simp_all add: div_mult2_eq[symmetric])
  show "c div 64 * 64 + c mod 64 = c" by (rule d)
  show "c div 4096 * 4096 + (c div 64) mod 64 * 64 + c mod 64 = c"
    unfolding q using d[of c] d[of "c div 64"] by linarith
  show "c div 262144 * 262144 + (c div 4096) mod 64 * 4096 + (c div 64) mod 64 * 64 + c mod 64 = c"
    unfolding q using d[of c] d[of "c div 64"] d[of "c div 64 div 64"] by linarith
qed

text \<open>Decoding at the start of an encoded code point, in any surrounding.\<close>

lemma cpt_from_to_utf8:
  assumes "unicode_cpt_to_utf8 c = Inr s" "byte_string post"
  shows "unicode_cpt_from_utf8 (pre @ s @ post) (length pre) = Inr (c, length pre + length s)"
proof -
  have m: "x mod 64 < 64" for x :: nat by simp
  consider "c < 0x80" | "0x80 \<le> c" "c < 0x800" | "0x800 \<le> c" "c < 0x10000" | "0x10000 \<le> c" "c < 0x110000"
    using cpt_to_utf8_bytes[OF assms(1)] by linarith
  then show ?thesis
  proof cases
    case 1
    then show ?thesis using assms cpt_from_utf8_lead(1)[of c pre _ post] by (auto simp: cpt_to_utf8_eq)
  next
    case 2
    let ?b = "0xc0 + c div 64" and ?t = "[0x80 + c mod 64]"
    have s: "s = ?b # ?t" using assms 2 by (simp add: cpt_to_utf8_eq)
    have "c div 64 < 32" using 2 by simp
    then show ?thesis using 2 assms(2) cpt_from_utf8_lead(3)[of ?b pre _ "?t @ post"] m[of c]
      by (simp add: s cont_byte_def lead_mod digits64)
  next
    case 3
    let ?b = "0xe0 + c div 4096" and ?t = "[0x80 + (c div 64) mod 64, 0x80 + c mod 64]"
    have s: "s = ?b # ?t" using assms 3 by (simp add: cpt_to_utf8_eq)
    have "c div 4096 < 16" using 3 by simp
    then show ?thesis using 3 assms(2) cpt_from_utf8_lead(4)[of ?b pre _ "?t @ post"] m[of c] m[of "c div 64"]
      by (simp add: s cont_byte_def lead_mod digits64)
  next
    case 4
    let ?b = "0xf0 + c div 262144" and ?t = "[0x80 + (c div 4096) mod 64, 0x80 + (c div 64) mod 64, 0x80 + c mod 64]"
    have s: "s = ?b # ?t" using assms 4 by (simp add: cpt_to_utf8_eq)
    have "c div 262144 < 8" using 4 by simp
    then show ?thesis using 4 assms(2) cpt_from_utf8_lead(5)[of ?b pre _ "?t @ post"] m[of c] m[of "c div 64"] m[of "c div 4096"]
      by (simp add: s cont_byte_def lead_mod digits64)
  qed
qed

lemma cpts_to_utf8_bytes: "unicode_cpts_to_utf8 cps = Inr s \<Longrightarrow> byte_string s"
  by (induction cps arbitrary: s) (auto split: sum.splits dest!: cpt_to_utf8_bytes)

lemma cpts_loop_to_utf8:
  "unicode_cpts_to_utf8 cps = Inr s \<Longrightarrow> cpts_from_utf8_loop (pre @ s) (length pre) = cps"
proof (induction cps arbitrary: s pre)
  case Nil
  then show ?case by (simp add: cpts_from_utf8_loop.simps)
next
  case (Cons c cps)
  then obtain a b where ab: "unicode_cpt_to_utf8 c = Inr a" "unicode_cpts_to_utf8 cps = Inr b" "s = a @ b"
    by (auto split: sum.splits)
  have d: "unicode_cpt_from_utf8 (pre @ a @ b) (length pre) = Inr (c, length pre + length a)"
    by (rule cpt_from_to_utf8[OF ab(1) cpts_to_utf8_bytes[OF ab(2)]])
  have "length pre < length (pre @ s)" using cpt_to_utf8_bytes[OF ab(1)] ab(3) by simp
  then show ?case using Cons(1)[OF ab(2), of "pre @ a"] d ab(3)
    by (subst cpts_from_utf8_loop.simps) simp
qed

text \<open>
  C28: UTF-8 round trip: a vector of code points that the encoder accepts is decoded to itself,
  the encoder accepts exactly the vectors of code points up to \<open>0x10ffff\<close>, and throws on all others.
\<close>

theorem utf8_roundtrip:
  "(case unicode_cpts_to_utf8 cps of
      Inr s \<Rightarrow> byte_string s \<and> unicode_cpts_from_utf8 s = cps \<and> (\<forall>c \<in> set cps. c \<le> 0x10ffff)
    | Inl e \<Rightarrow> e = Invalid_Codepoint \<and> (\<exists>c \<in> set cps. c > 0x10ffff))"
proof (cases "unicode_cpts_to_utf8 cps")
  case (Inr s)
  moreover have "unicode_cpts_to_utf8 cps = Inr s \<Longrightarrow> \<forall>c \<in> set cps. c \<le> 0x10ffff" for s
    by (induction cps arbitrary: s) (auto simp: cpt_to_utf8_eq split: sum.splits if_splits)
  ultimately show ?thesis using cpts_loop_to_utf8[of cps s "[]"] cpts_to_utf8_bytes by (simp add: unicode_cpts_from_utf8_def)
next
  case (Inl e)
  moreover have "unicode_cpts_to_utf8 cps = Inl e \<Longrightarrow> e = Invalid_Codepoint \<and> (\<exists>c \<in> set cps. c > 0x10ffff)" for e
    by (induction cps) (auto simp: cpt_to_utf8_eq split: sum.splits if_splits)
  ultimately show ?thesis by simp
qed

theorem utf8_roundtrip_witness:
  "unicode_cpts_from_utf8 [0x41, 0xc3, 0xa9, 0xf0, 0x9f, 0x98, 0x80] = [0x41, 0xe9, 0x1f600]"
  using utf8_roundtrip[of "[0x41, 0xe9, 0x1f600]"] by (simp add: cpt_to_utf8_eq)

section \<open>The byte maps\<close>

lemma utf8_of_eq:
  assumes "c < 0x110000"
  shows "unicode_cpt_to_utf8 c = Inr (utf8_of c)"
proof (cases "unicode_cpt_to_utf8 c")
  case (Inl e)
  then show ?thesis using assms unfolding cpt_to_utf8_eq by (simp split: if_splits)
next
  case (Inr s)
  then show ?thesis by (simp add: utf8_of_def)
qed

lemma utf8_of_decode: "c < 0x110000 \<Longrightarrow> unicode_cpts_from_utf8 (utf8_of c) = [c]"
proof -
  assume "c < 0x110000"
  then have "unicode_cpts_to_utf8 [c] = Inr (utf8_of c)" using utf8_of_eq by simp
  from cpts_loop_to_utf8[OF this, of "[]"] show ?thesis by (simp only: unicode_cpts_from_utf8_def append_Nil list.size(3))
qed

lemma utf8_of_inj: "c < 0x110000 \<Longrightarrow> d < 0x110000 \<Longrightarrow> utf8_of c = utf8_of d \<longleftrightarrow> c = d"
  by (metis list.inject utf8_of_decode)

lemma printable_iff: "b \<in> set printable_bytes \<longleftrightarrow> (0x21 \<le> b \<and> b < 0x7F) \<or> (0xA1 \<le> b \<and> b < 0xAD) \<or> (0xAE \<le> b \<and> b < 0x100)"
  by (simp only: printable_bytes_def set_append set_upt Un_iff atLeastLessThan_iff)

text \<open>The code point that stands for a byte.\<close>

definition skipped :: "nat \<Rightarrow> nat" where
  "skipped k = card {c. c < k \<and> c \<notin> set printable_bytes}"

definition target :: "nat \<Rightarrow> nat" where
  "target b = (if b \<in> set printable_bytes then b else 256 + skipped b)"

lemma skipped_Suc: "skipped (Suc k) = (if k \<in> set printable_bytes then skipped k else Suc (skipped k))"
proof -
  have "{c. c < Suc k \<and> c \<notin> set printable_bytes} = (if k \<in> set printable_bytes then {c. c < k \<and> c \<notin> set printable_bytes}
      else insert k {c. c < k \<and> c \<notin> set printable_bytes})" by (auto simp: less_Suc_eq)
  then show ?thesis by (simp add: skipped_def)
qed

lemma skipped_0 [simp]: "skipped 0 = 0"
  by (simp add: skipped_def)

lemma skipped_mono: "j \<le> k \<Longrightarrow> skipped j \<le> skipped k"
  unfolding skipped_def by (intro card_mono) auto

lemma skipped_le: "skipped k \<le> k"
  by (induction k) (auto simp: skipped_Suc)

lemma target_bound: "b < 256 \<Longrightarrow> target b < 512"
  using skipped_le[of b] by (auto simp: target_def)

lemma target_inj:
  assumes "b < 256" "c < 256" "target b = target c"
  shows "b = c"
proof -
  have "skipped j < skipped k" if "j < k" "j \<notin> set printable_bytes" for j k
    using skipped_Suc[of j] skipped_mono[of "Suc j" k] that by simp
  then show ?thesis using assms by (auto simp: target_def split: if_splits) (metis less_irrefl linorder_neqE_nat)
qed

lemma fold_map_upd: "fold (\<lambda>ch map. map(ch \<mapsto> f ch)) xs m = (\<lambda>b. if b \<in> set xs then Some (f b) else m b)"
  by (induction xs arbitrary: m) (auto simp: fun_eq_iff)

lemma byte_map_state:
  "k \<le> 256 \<Longrightarrow> fold byte_map_step [0..<k] (fold (\<lambda>ch map. map(ch \<mapsto> utf8_of ch)) printable_bytes Map.empty, 0) =
    ((\<lambda>b. if b \<in> set printable_bytes \<or> b < k then Some (utf8_of (target b)) else None), skipped k)"
proof (induction k)
  case 0
  then show ?case unfolding fold_map_upd by (auto simp: fun_eq_iff target_def)
next
  case (Suc k)
  then show ?case by (auto simp: byte_map_step_def skipped_Suc fun_eq_iff target_def less_Suc_eq)
qed

lemma byte_to_utf8_eq: "b < 256 \<Longrightarrow> unicode_byte_to_utf8 b = Some (utf8_of (target b))"
  using byte_map_state[of 256] by (simp add: unicode_byte_to_utf8_def unicode_byte_to_utf8_map_def)

lemma fold_printable_upd:
  "set xs \<subseteq> set printable_bytes \<Longrightarrow> fold (\<lambda>ch map. map(utf8_of ch \<mapsto> ch)) xs m s = Some b \<longleftrightarrow>
    (b \<in> set xs \<and> s = utf8_of b) \<or> (s \<notin> utf8_of ` set xs \<and> m s = Some b)"
proof (induction xs arbitrary: m)
  case (Cons x xs)
  have "utf8_of x = utf8_of y \<longleftrightarrow> x = y" if "y \<in> set xs" for y
  proof -
    have "x < 0x110000" "y < 0x110000" using Cons(2) that by (auto simp: printable_iff subset_iff)
    then show ?thesis by (rule utf8_of_inj)
  qed
  with Cons show ?case by auto
qed simp

definition base_map :: "bytes \<rightharpoonup> nat" where
  "base_map = fold (\<lambda>ch map. map(utf8_of ch \<mapsto> ch)) printable_bytes Map.empty"

lemma cpt_map_state:
  "k \<le> 256 \<Longrightarrow> \<exists>m. fold cpt_map_step [0..<k] (base_map, 0) = (m, skipped k) \<and>
    (\<forall>s b. m s = Some b \<longleftrightarrow> (b \<in> set printable_bytes \<or> b < k) \<and> s = utf8_of (target b))"
proof (induction k)
  case 0
  have "base_map s = Some b \<longleftrightarrow> b \<in> set printable_bytes \<and> s = utf8_of (target b)" for s b
    unfolding base_map_def fold_printable_upd[OF subset_refl] by (auto simp: target_def)
  then show ?case by simp
next
  case (Suc k)
  then obtain m where m: "fold cpt_map_step [0..<k] (base_map, 0) = (m, skipped k)"
    "\<forall>s b. m s = Some b \<longleftrightarrow> (b \<in> set printable_bytes \<or> b < k) \<and> s = utf8_of (target b)" by auto
  have P: "b \<in> set printable_bytes \<Longrightarrow> b < 256" for b by (auto simp: printable_iff)
  have inj: "utf8_of (target b) = utf8_of c \<longleftrightarrow> target b = c" if "b < 256" "c < 512" for b c
    using utf8_of_inj target_bound[OF that(1)] that(2) by simp
  have look: "m (utf8_of k) = None \<longleftrightarrow> k \<notin> set printable_bytes"
  proof
    show "m (utf8_of k) = None \<Longrightarrow> k \<notin> set printable_bytes" using m(2) by (metis option.distinct(1) target_def)
    assume k: "k \<notin> set printable_bytes"
    show "m (utf8_of k) = None"
    proof (rule ccontr)
      assume "m (utf8_of k) \<noteq> None"
      then obtain b where b: "b \<in> set printable_bytes \<or> b < k" "utf8_of k = utf8_of (target b)" using m(2) by auto
      then have "b < 256" using P Suc(2) by auto
      then have "target b = k" using inj[of b k] b(2) Suc(2) by simp
      then show False using k Suc(2) by (auto simp: target_def split: if_splits)
    qed
  qed
  have st: "fold cpt_map_step [0..<Suc k] (base_map, 0) = cpt_map_step k (m, skipped k)" using m(1) by simp
  show ?case
  proof (cases "k \<in> set printable_bytes")
    case True
    then have "cpt_map_step k (m, skipped k) = (m, skipped (Suc k))" using look by (auto simp: cpt_map_step_def skipped_Suc)
    moreover have "(b \<in> set printable_bytes \<or> b < Suc k) = (b \<in> set printable_bytes \<or> b < k)" for b using True by (auto simp: less_Suc_eq)
    ultimately show ?thesis using m(2) unfolding st by simp
  next
    case False
    have new: "(m(utf8_of (target k) \<mapsto> k)) s = Some b \<longleftrightarrow> (b \<in> set printable_bytes \<or> b < Suc k) \<and> s = utf8_of (target b)" for s b
    proof (cases "s = utf8_of (target k)")
      case True
      have "b = k" if "b \<in> set printable_bytes \<or> b < Suc k" "utf8_of (target k) = utf8_of (target b)"
        using target_inj[of b k] inj[of b "target k"] that target_bound[of k] P Suc(2) by auto
      with True show ?thesis by auto
    next
      case False
      then show ?thesis using m(2) by (auto simp: less_Suc_eq)
    qed
    have "fold cpt_map_step [0..<Suc k] (base_map, 0) =
        (m(utf8_of (target k) \<mapsto> k), skipped (Suc k))"
      unfolding st using look False by (simp add: cpt_map_step_def skipped_Suc target_def)
    with new show ?thesis by blast
  qed
qed

text \<open>
  Byte-level BPE loses nothing: the two byte maps are inverse to each other on all 256 bytes.
\<close>

lemma byte_maps_inverse:
  "b < 256 \<and> unicode_byte_to_utf8 b = Some s \<longleftrightarrow> unicode_utf8_to_byte s = Some b"
proof -
  obtain m where m: "fold cpt_map_step [0..<256] (base_map, 0) = (m, skipped 256)"
    "\<forall>s b. m s = Some b \<longleftrightarrow> (b \<in> set printable_bytes \<or> b < 256) \<and> s = utf8_of (target b)"
    using cpt_map_state[of 256] by auto
  have "unicode_utf8_to_byte s = m s" using m(1) by (simp add: unicode_utf8_to_byte_def unicode_utf8_to_byte_map_def base_map_def[symmetric])
  moreover have "b \<in> set printable_bytes \<Longrightarrow> b < 256" by (auto simp: printable_iff)
  ultimately show ?thesis using m(2) byte_to_utf8_eq by auto
qed

end
