(* ===== verification/Grammar_Engine.thy ===== *)
theory Grammar_Engine
  imports Unicode_Utf8
begin

text \<open>
  The grammar engine (\<open>src/src/llama-grammar.cpp\<close>, the part behind the parser): a set of pushdown
  stacks that is advanced character by character while text is generated, and that rejects the
  candidate tokens that would leave the grammar.

  A pointer to a grammar element is the pair of a rule index and an offset in that rule. A stack
  keeps the back of the C++ vector at the head of the list. Code points, rule and token ids are
  \<open>uint32_t\<close>, kept as natural numbers. Assertions, reads outside a rule and recursion without
  end are \<open>None\<close>; the C++ exceptions are values of \<open>grammar_exn\<close>, with the changed object beside them. The vocabulary and the regular
  expressions of the triggers are parameters.
\<close>

section \<open>Data\<close>

datatype llama_gretype = GRETYPE_END | GRETYPE_ALT | GRETYPE_RULE_REF | GRETYPE_CHAR | GRETYPE_CHAR_NOT
  | GRETYPE_CHAR_RNG_UPPER | GRETYPE_CHAR_ALT | GRETYPE_CHAR_ANY | GRETYPE_TOKEN | GRETYPE_TOKEN_NOT

record llama_grammar_element =
  ge_type :: llama_gretype
  ge_value :: nat

type_synonym llama_grammar_rule = "llama_grammar_element list"
type_synonym llama_grammar_rules = "llama_grammar_rule list"
type_synonym gpos = "nat \<times> nat"
type_synonym llama_grammar_stack = "gpos list"
type_synonym llama_grammar_stacks = "llama_grammar_stack list"

record llama_partial_utf8 =
  pu_value :: nat
  pu_n_remain :: int

text \<open>The code points of a candidate are an array and an offset into it.\<close>

record llama_grammar_candidate =
  gc_index :: nat
  gc_code_points :: "nat list"
  gc_offset :: nat
  gc_partial_utf8 :: llama_partial_utf8
  gc_id :: llama_token

section \<open>Decoding of token pieces\<close>

text \<open>Continuing a sequence that an earlier piece began; \<open>None\<close> is an invalid byte.\<close>

fun utf8_continue :: "bytes \<Rightarrow> nat \<Rightarrow> int \<Rightarrow> (bytes \<times> nat \<times> int) option" where
  "utf8_continue [] value n_remain = Some ([], value, n_remain)"
| "utf8_continue (b # bs) value n_remain =
    (if n_remain > 0 then
       (if drop_bit 6 b \<noteq> 2 then None else utf8_continue bs ((value * 64 + (b AND 0x3F)) mod 2 ^ 32) (n_remain - 1))
     else Some (b # bs, value, n_remain))"

text \<open>The bytes after the first one of a sequence.\<close>

fun utf8_tail :: "bytes \<Rightarrow> nat \<Rightarrow> int \<Rightarrow> bytes \<times> nat \<times> int" where
  "utf8_tail [] value n_remain = ([], value, n_remain)"
| "utf8_tail (b # bs) value n_remain =
    (if n_remain > 0 then utf8_tail bs ((value * 64 + (b AND 0x3F)) mod 2 ^ 32) (n_remain - 1) else (b # bs, value, n_remain))"

lemma length_utf8_tail: "utf8_tail bs v n = (rest, v', n') \<Longrightarrow> length rest \<le> length bs"
  by (induction bs arbitrary: v n) (auto split: if_splits intro: le_SucI)

definition utf8_lookup :: "nat \<Rightarrow> int" where
  "utf8_lookup highbits = [1, 1, 1, 1, 1, 1, 1, 1, 0, 0, 0, 0, 2, 2, 3, 4] ! highbits"

function utf8_loop :: "bytes \<Rightarrow> nat list \<Rightarrow> nat \<Rightarrow> int \<Rightarrow> nat list \<times> llama_partial_utf8" where
  "utf8_loop [] code_points value n_remain = (code_points @ [0], \<lparr>pu_value = value, pu_n_remain = n_remain\<rparr>)"
| "utf8_loop (b # bs) code_points value n_remain =
    (let n = utf8_lookup (drop_bit 4 b) - 1
     in if n < 0 then ([0], \<lparr>pu_value = 0, pu_n_remain = n\<rparr>)
        else case utf8_tail bs (b AND mask (nat (7 - n))) n of (rest, v, n') \<Rightarrow>
          utf8_loop rest (if n' = 0 then code_points @ [v] else code_points) v n')"
  by pat_completeness auto
termination
  by (relation "measure (\<lambda>(bs, _, _, _). length bs)") (auto simp: less_Suc_eq_le dest!: sym[of "(_, _, _)" "utf8_tail _ _ _"] length_utf8_tail)

text \<open>\<open>decode_utf8(src, partial_start)\<close>; the string ends at its first zero byte.\<close>

definition decode_utf8 :: "bytes \<Rightarrow> llama_partial_utf8 \<Rightarrow> nat list \<times> llama_partial_utf8" where
  "decode_utf8 src partial_start =
    (case utf8_continue (takeWhile (\<lambda>b. b \<noteq> 0) src) (pu_value partial_start) (pu_n_remain partial_start) of
       None \<Rightarrow> ([0], \<lparr>pu_value = 0, pu_n_remain = -1\<rparr>)
     | Some (rest, value, n_remain) \<Rightarrow>
         utf8_loop rest (if pu_n_remain partial_start > 0 \<and> n_remain = 0 then [value] else []) value n_remain)"

section \<open>Elements\<close>

definition gelem :: "llama_grammar_rules \<Rightarrow> gpos \<Rightarrow> llama_grammar_element option" where
  "gelem rules pos = do { rule \<leftarrow> vget rules (fst pos); vget rule (snd pos) }"

definition gnext :: "gpos \<Rightarrow> nat \<Rightarrow> gpos" where
  "gnext pos k = (fst pos, snd pos + k)"

fun is_end_of_sequence :: "llama_grammar_element \<Rightarrow> bool" where
  "is_end_of_sequence e \<longleftrightarrow> (case ge_type e of GRETYPE_END \<Rightarrow> True | GRETYPE_ALT \<Rightarrow> True | _ \<Rightarrow> False)"

declare is_end_of_sequence.simps [simp del]

definition llama_grammar_is_end_of_sequence :: "llama_grammar_rules \<Rightarrow> gpos \<Rightarrow> bool option" where
  "llama_grammar_is_end_of_sequence rules pos = do { e \<leftarrow> gelem rules pos; Some (is_end_of_sequence e) }"

text \<open>The loop of \<open>match_char\<close> over the alternatives of a character range.\<close>

function match_char_loop :: "llama_grammar_rules \<Rightarrow> gpos \<Rightarrow> nat \<Rightarrow> bool \<Rightarrow> (bool \<times> gpos) option" where
  "match_char_loop rules pos chr found =
    (case (gelem rules pos, gelem rules (gnext pos 1)) of
       (Some e, Some e1) \<Rightarrow>
         (let (found', pos') =
            (if ge_type e1 = GRETYPE_CHAR_RNG_UPPER then (found \<or> ge_value e \<le> chr \<and> chr \<le> ge_value e1, gnext pos 2)
             else if ge_type e = GRETYPE_CHAR_ANY then (True, gnext pos 1)
             else (found \<or> ge_value e = chr, gnext pos 1))
          in case gelem rules pos' of
               None \<Rightarrow> None
             | Some e' \<Rightarrow> if ge_type e' = GRETYPE_CHAR_ALT then match_char_loop rules pos' chr found' else Some (found', pos'))
     | _ \<Rightarrow> None)"
  by pat_completeness auto
termination
  by (relation "measure (\<lambda>(rules, pos, _, _). length (rules ! fst pos) - snd pos)")
    (auto simp: gelem_def gnext_def bind_Some_iff split: if_splits)

declare match_char_loop.simps [simp del]

definition is_positive_char :: "llama_grammar_element \<Rightarrow> bool" where
  "is_positive_char e \<longleftrightarrow> ge_type e = GRETYPE_CHAR \<or> ge_type e = GRETYPE_CHAR_ANY"

definition llama_grammar_match_char :: "llama_grammar_rules \<Rightarrow> gpos \<Rightarrow> nat \<Rightarrow> (bool \<times> gpos) option" where
  "llama_grammar_match_char rules pos chr = do {
     e \<leftarrow> gelem rules pos;
     assert_that (is_positive_char e \<or> ge_type e = GRETYPE_CHAR_NOT);
     (found, pos') \<leftarrow> match_char_loop rules pos chr False;
     Some (found = is_positive_char e, pos') }"

text \<open>The loop of \<open>match_partial_char\<close>; \<open>positive\<close> is \<open>is_positive_char\<close>.\<close>

function match_partial_loop :: "llama_grammar_rules \<Rightarrow> gpos \<Rightarrow> nat \<Rightarrow> nat \<Rightarrow> bool \<Rightarrow> bool option" where
  "match_partial_loop rules pos low high positive =
    (case (gelem rules pos, gelem rules (gnext pos 1)) of
       (Some e, Some e1) \<Rightarrow>
         (if ge_type e1 = GRETYPE_CHAR_RNG_UPPER then
            (if ge_value e \<le> high \<and> low \<le> ge_value e1 then Some positive
             else (case gelem rules (gnext pos 2) of
                 None \<Rightarrow> None
               | Some e' \<Rightarrow> if ge_type e' = GRETYPE_CHAR_ALT then match_partial_loop rules (gnext pos 2) low high positive else Some (\<not> positive)))
          else if ge_type e = GRETYPE_CHAR_ANY then Some True
          else if low \<le> ge_value e \<and> ge_value e \<le> high then Some positive
          else if ge_type e1 = GRETYPE_CHAR_ALT then match_partial_loop rules (gnext pos 1) low high positive
          else Some (\<not> positive))
     | _ \<Rightarrow> None)"
  by pat_completeness auto
termination
  by (relation "measure (\<lambda>(rules, pos, _). length (rules ! fst pos) - snd pos)")
    (auto simp: gelem_def gnext_def bind_Some_iff split: if_splits dest!: sym[of "Some _"])

declare match_partial_loop.simps [simp del]

definition llama_grammar_match_partial_char :: "llama_grammar_rules \<Rightarrow> gpos \<Rightarrow> llama_partial_utf8 \<Rightarrow> bool option" where
  "llama_grammar_match_partial_char rules pos partial_utf8 = do {
     e \<leftarrow> gelem rules pos;
     assert_that (is_positive_char e \<or> ge_type e = GRETYPE_CHAR_NOT);
     let partial_value = pu_value partial_utf8;
     let n_remain = pu_n_remain partial_utf8;
     if n_remain < 0 \<or> (n_remain = 1 \<and> partial_value < 2) then Some False
     else do {
       let low = push_bit (nat n_remain * 6) partial_value mod 2 ^ 32;
       let high = low OR (2 ^ (nat n_remain * 6) - 1);
       let low = (if low = 0 then (if n_remain = 2 then 2 ^ 11 else if n_remain = 3 then 2 ^ 16 else low) else low);
       match_partial_loop rules pos low high (is_positive_char e) } }"

text \<open>\<open>static_cast<uint32_t>\<close> of a token id.\<close>

definition token_u32 :: "llama_token \<Rightarrow> nat" where
  "token_u32 token = nat (token mod 2 ^ 32)"

definition is_token_elem :: "llama_grammar_element \<Rightarrow> bool" where
  "is_token_elem e \<longleftrightarrow> ge_type e = GRETYPE_TOKEN \<or> ge_type e = GRETYPE_TOKEN_NOT"

definition llama_grammar_match_token :: "llama_grammar_rules \<Rightarrow> gpos \<Rightarrow> llama_token \<Rightarrow> bool option" where
  "llama_grammar_match_token rules pos token = do {
     e \<leftarrow> gelem rules pos;
     assert_that (is_token_elem e);
     Some (if ge_type e = GRETYPE_TOKEN then ge_value e = token_u32 token else ge_value e \<noteq> token_u32 token) }"

section \<open>Stacks\<close>

text \<open>Pushing a position unless it is the end of its sequence.\<close>

definition push_pos :: "llama_grammar_rules \<Rightarrow> gpos \<Rightarrow> llama_grammar_stack \<Rightarrow> llama_grammar_stack option" where
  "push_pos rules pos stack = do { b \<leftarrow> llama_grammar_is_end_of_sequence rules pos; Some (if b then stack else pos # stack) }"

text \<open>The start positions of the alternates of a rule, from \<open>subpos\<close> on.\<close>

function scan_end :: "llama_grammar_rules \<Rightarrow> gpos \<Rightarrow> gpos option" where
  "scan_end rules subpos = (case gelem rules subpos of
     None \<Rightarrow> None
   | Some e \<Rightarrow> if is_end_of_sequence e then Some subpos else scan_end rules (gnext subpos 1))"
  by pat_completeness auto
termination
  by (relation "measure (\<lambda>(rules, pos). length (rules ! fst pos) - snd pos)")
    (auto simp: gelem_def gnext_def bind_Some_iff split: if_splits)

declare scan_end.simps [simp del]

lemma scan_end_Some:
  "scan_end rules pos = Some p \<Longrightarrow> fst p = fst pos \<and> snd pos \<le> snd p \<and> (\<exists>e. gelem rules p = Some e \<and> is_end_of_sequence e)"
proof (induction rules pos rule: scan_end.induct)
  case (1 rules pos)
  from 1(2) show ?case
    by (subst (asm) scan_end.simps) (auto split: option.splits if_splits dest!: 1(1) simp: gnext_def)
qed

function alternates :: "llama_grammar_rules \<Rightarrow> gpos \<Rightarrow> gpos list option" where
  "alternates rules subpos = (case scan_end rules subpos of
     None \<Rightarrow> None
   | Some p \<Rightarrow> (case gelem rules p of
       None \<Rightarrow> None
     | Some e \<Rightarrow> if ge_type e = GRETYPE_ALT
         then (case alternates rules (gnext p 1) of None \<Rightarrow> None | Some ps \<Rightarrow> Some (subpos # ps))
         else Some [subpos]))"
  by pat_completeness auto
termination
  by (relation "measure (\<lambda>(rules, pos). length (rules ! fst pos) - snd pos)")
    (auto simp: gelem_def gnext_def bind_Some_iff dest!: scan_end_Some)

declare alternates.simps [simp del]

definition add_stack :: "llama_grammar_stack \<Rightarrow> llama_grammar_stacks \<Rightarrow> llama_grammar_stacks" where
  "add_stack stack new_stacks = (if stack \<in> set new_stacks then new_stacks else new_stacks @ [stack])"

text \<open>The stacks that a rule reference at the top leads to, one for each alternate.\<close>

definition expand_ref :: "llama_grammar_rules \<Rightarrow> gpos \<Rightarrow> nat \<Rightarrow> llama_grammar_stack \<Rightarrow> llama_grammar_stacks option" where
  "expand_ref rules pos rule_id stack = do {
     subs \<leftarrow> alternates rules (rule_id, 0);
     base \<leftarrow> push_pos rules (gnext pos 1) stack;
     those (map (\<lambda>sub. push_pos rules sub base) subs) }"

lemma ofold_mono [partial_function_mono]:
  assumes "\<And>x s. mono_option (\<lambda>f. B x s f)"
  shows "mono_option (\<lambda>f. ofold (\<lambda>x s. B x s f) xs s)"
proof (induction xs arbitrary: s)
  case Nil
  show ?case by (simp add: option.const_mono)
next
  case (Cons x xs)
  have "mono_option (\<lambda>f. Option.bind (B x s f) (\<lambda>s'. ofold (\<lambda>x s. B x s f) xs s'))"
    by (rule bind_mono[OF assms Cons])
  then show ?case by simp
qed

partial_function (option) llama_grammar_advance_stack ::
    "llama_grammar_rules \<Rightarrow> llama_grammar_stack \<Rightarrow> llama_grammar_stacks \<Rightarrow> llama_grammar_stacks option" where
  [code]: "llama_grammar_advance_stack rules stack new_stacks =
    (case stack of
       [] \<Rightarrow> Some (add_stack stack new_stacks)
     | pos # below \<Rightarrow> do {
         e \<leftarrow> gelem rules pos;
         case ge_type e of
           GRETYPE_RULE_REF \<Rightarrow> do {
             stacks \<leftarrow> expand_ref rules pos (ge_value e) below;
             ofold (\<lambda>st acc. llama_grammar_advance_stack rules st acc) stacks new_stacks }
         | GRETYPE_CHAR \<Rightarrow> Some (add_stack stack new_stacks)
         | GRETYPE_CHAR_NOT \<Rightarrow> Some (add_stack stack new_stacks)
         | GRETYPE_CHAR_ANY \<Rightarrow> Some (add_stack stack new_stacks)
         | GRETYPE_TOKEN \<Rightarrow> Some (add_stack stack new_stacks)
         | GRETYPE_TOKEN_NOT \<Rightarrow> Some (add_stack stack new_stacks)
         | _ \<Rightarrow> None })"

section \<open>Accepting a character\<close>

definition llama_grammar_accept_chr :: "llama_grammar_rules \<Rightarrow> nat \<Rightarrow> llama_grammar_stack \<Rightarrow> llama_grammar_stacks \<Rightarrow> llama_grammar_stacks option" where
  "llama_grammar_accept_chr rules chr stack new_stacks =
    (case stack of
       [] \<Rightarrow> Some new_stacks
     | pos # below \<Rightarrow> do {
         e \<leftarrow> gelem rules pos;
         if is_token_elem e then Some new_stacks
         else do {
           (matches, pos') \<leftarrow> llama_grammar_match_char rules pos chr;
           if matches then do {
             new_stack \<leftarrow> push_pos rules pos' below;
             llama_grammar_advance_stack rules new_stack new_stacks }
           else Some new_stacks } })"

text \<open>The grammar object; the vocabulary and the trigger patterns are parameters of its functions.\<close>

record llama_grammar =
  g_rules :: llama_grammar_rules
  g_stacks :: llama_grammar_stacks
  g_partial_utf8 :: llama_partial_utf8
  g_lazy :: bool
  g_awaiting_trigger :: bool
  g_trigger_buffer :: bytes
  g_trigger_buffer_positions :: "(llama_token \<times> nat \<times> nat) list"
  g_trigger_tokens :: "llama_token list"

definition accept_all :: "llama_grammar_rules \<Rightarrow> nat \<Rightarrow> llama_grammar_stacks \<Rightarrow> llama_grammar_stacks option" where
  "accept_all rules chr stacks = ofold (llama_grammar_accept_chr rules chr) stacks []"

definition llama_grammar_accept :: "nat \<Rightarrow> llama_grammar \<Rightarrow> llama_grammar option" where
  "llama_grammar_accept chr grammar = do {
     stacks_new \<leftarrow> accept_all (g_rules grammar) chr (g_stacks grammar);
     Some (grammar\<lparr>g_stacks := stacks_new\<rparr>) }"

section \<open>Rejecting candidates\<close>

definition code_point :: "llama_grammar_candidate \<Rightarrow> nat option" where
  "code_point tok = vget (gc_code_points tok) (gc_offset tok)"

text \<open>One candidate against the top of a stack: rejected, passed on with its next code point, or accepted.\<close>

datatype verdict = Reject | Pass | Keep

definition test_empty :: "llama_grammar_candidate \<Rightarrow> verdict option" where
  "test_empty tok = do {
     c \<leftarrow> code_point tok;
     Some (if c \<noteq> 0 \<or> pu_n_remain (gc_partial_utf8 tok) \<noteq> 0 then Reject else Keep) }"

definition test_token :: "llama_grammar_rules \<Rightarrow> gpos \<Rightarrow> llama_grammar_candidate \<Rightarrow> verdict option" where
  "test_token rules pos tok = do {
     c \<leftarrow> code_point tok;
     if c = 0 then Some (if pu_n_remain (gc_partial_utf8 tok) \<noteq> 0 then Reject else Keep)
     else do {
       m \<leftarrow> llama_grammar_match_token rules pos (gc_id tok);
       Some (if m then Keep else Reject) } }"

definition test_char :: "llama_grammar_rules \<Rightarrow> gpos \<Rightarrow> llama_grammar_candidate \<Rightarrow> verdict option" where
  "test_char rules pos tok = do {
     c \<leftarrow> code_point tok;
     if c = 0 then
       (if pu_n_remain (gc_partial_utf8 tok) = 0 then Some Keep
        else do {
          m \<leftarrow> llama_grammar_match_partial_char rules pos (gc_partial_utf8 tok);
          Some (if m then Keep else Reject) })
     else do {
       (m, _) \<leftarrow> llama_grammar_match_char rules pos c;
       Some (if m then Pass else Reject) } }"

text \<open>The candidates with a given verdict, in order.\<close>

fun sort_out :: "(llama_grammar_candidate \<Rightarrow> verdict option) \<Rightarrow> llama_grammar_candidate list \<Rightarrow> (llama_grammar_candidate list \<times> llama_grammar_candidate list) option" where
  "sort_out test [] = Some ([], [])"
| "sort_out test (tok # toks) = do {
     v \<leftarrow> test tok;
     (rejects, passed) \<leftarrow> sort_out test toks;
     Some (if v = Reject then (tok # rejects, passed) else if v = Pass then (rejects, tok # passed) else (rejects, passed)) }"

definition cp_forward :: "llama_grammar_candidate \<Rightarrow> llama_grammar_candidate" where
  "cp_forward tok = tok\<lparr>gc_offset := gc_offset tok + 1\<rparr>"

definition cp_back :: "llama_grammar_candidate \<Rightarrow> llama_grammar_candidate" where
  "cp_back tok = tok\<lparr>gc_offset := gc_offset tok - 1\<rparr>"

text \<open>
  \<open>llama_grammar_reject_candidates_for_stack\<close>, with the loop over the next stacks of
  \<open>llama_grammar_reject_candidates\<close> in place of the mutual recursion.
\<close>

partial_function (option) reject_candidates_for_stack ::
    "llama_grammar_rules \<Rightarrow> llama_grammar_stack \<Rightarrow> llama_grammar_candidate list \<Rightarrow> llama_grammar_candidate list option" where
  [code]: "reject_candidates_for_stack rules stack candidates =
    (case stack of
       [] \<Rightarrow> do { (rejects, _) \<leftarrow> sort_out test_empty candidates; Some rejects }
     | pos # below \<Rightarrow> do {
         e \<leftarrow> gelem rules pos;
         if is_token_elem e then do { (rejects, _) \<leftarrow> sort_out (test_token rules pos) candidates; Some rejects }
         else do {
           (rejects, passed) \<leftarrow> sort_out (test_char rules pos) candidates;
           (_, pos_after) \<leftarrow> llama_grammar_match_char rules pos 0;
           stack_after \<leftarrow> push_pos rules pos_after below;
           next_stacks \<leftarrow> llama_grammar_advance_stack rules stack_after [];
           _ \<leftarrow> assert_that (next_stacks \<noteq> []);
           next_rejects \<leftarrow> (if passed = [] then Some []
             else ofold (\<lambda>st toks. reject_candidates_for_stack rules st toks) next_stacks (map cp_forward passed));
           Some (rejects @ map cp_back next_rejects) } })"

definition llama_grammar_reject_candidates :: "llama_grammar_rules \<Rightarrow> llama_grammar_stacks \<Rightarrow> llama_grammar_candidate list \<Rightarrow> llama_grammar_candidate list option" where
  "llama_grammar_reject_candidates rules stacks candidates = do {
     assert_that (stacks \<noteq> []);
     if candidates = [] then Some []
     else ofold (reject_candidates_for_stack rules) stacks candidates }"

section \<open>Left recursion\<close>

record lr_state =
  lr_visited :: "bool list"
  lr_in_progress :: "bool list"
  lr_may_be_empty :: "bool list"

text \<open>The first loop: some alternate of the rule is empty.\<close>

fun has_empty_alternate :: "bool \<Rightarrow> llama_grammar_rule \<Rightarrow> bool" where
  "has_empty_alternate at_rule_start [] = False"
| "has_empty_alternate at_rule_start (e # es) =
    (if is_end_of_sequence e then (if at_rule_start then True else has_empty_alternate True es)
     else has_empty_alternate False es)"

text \<open>The result and the three vectors; the second loop stops at the first recursion it finds.\<close>

partial_function (option) llama_grammar_detect_left_recursion ::
    "llama_grammar_rules \<Rightarrow> nat \<Rightarrow> lr_state \<Rightarrow> (bool \<times> lr_state) option" where
  [code]: "llama_grammar_detect_left_recursion rules rule_index st = do {
     p \<leftarrow> vget (lr_in_progress st) rule_index;
     if p then Some (True, st)
     else do {
       ip \<leftarrow> vset (lr_in_progress st) rule_index True;
       rule \<leftarrow> vget rules rule_index;
       me \<leftarrow> (if has_empty_alternate True rule then vset (lr_may_be_empty st) rule_index True else Some (lr_may_be_empty st));
       (found, _, st) \<leftarrow> ofold (\<lambda>e (found, recurse, st).
           if found then Some (found, recurse, st)
           else if ge_type e = GRETYPE_RULE_REF \<and> recurse then do {
             (b, st) \<leftarrow> llama_grammar_detect_left_recursion rules (ge_value e) st;
             if b then Some (True, recurse, st)
             else do { m \<leftarrow> vget (lr_may_be_empty st) (ge_value e); Some (False, m, st) } }
           else Some (False, is_end_of_sequence e, st))
         rule (False, True, st\<lparr>lr_in_progress := ip, lr_may_be_empty := me\<rparr>);
       if found then Some (True, st)
       else do {
         ip \<leftarrow> vset (lr_in_progress st) rule_index False;
         vs \<leftarrow> vset (lr_visited st) rule_index True;
         Some (False, st\<lparr>lr_in_progress := ip, lr_visited := vs\<rparr>) } } }"

text \<open>The check of all rules in \<open>llama_grammar_init_impl\<close>; \<open>True\<close> if some rule is left recursive.\<close>

definition check_left_recursion :: "llama_grammar_rules \<Rightarrow> bool option" where
  "check_left_recursion rules = (let n_rules = length rules in do {
     (found, _) \<leftarrow> ofold (\<lambda>i (found, st).
         if found then Some (found, st)
         else do {
           v \<leftarrow> vget (lr_visited st) i;
           if v then Some (False, st) else llama_grammar_detect_left_recursion rules i st })
       [0..<n_rules]
       (False, \<lparr>lr_visited = replicate n_rules False, lr_in_progress = replicate n_rules False, lr_may_be_empty = replicate n_rules False\<rparr>);
     Some found })"

section \<open>Construction\<close>

definition gre_end :: llama_grammar_element where
  "gre_end = \<lparr>ge_type = GRETYPE_END, ge_value = 0\<rparr>"

definition copy_rule :: "llama_grammar_rule \<Rightarrow> llama_grammar_rule option" where
  "copy_rule rule = do {
     assert_that (\<exists>e \<in> set rule. ge_type e = GRETYPE_END);
     Some (takeWhile (\<lambda>e. ge_type e \<noteq> GRETYPE_END) rule @ [gre_end]) }"

definition initial_stacks :: "llama_grammar_rules \<Rightarrow> nat \<Rightarrow> llama_grammar_stacks option" where
  "initial_stacks rules start_rule_index = do {
     starts \<leftarrow> alternates rules (start_rule_index, 0);
     ofold (\<lambda>pos stacks. do {
       stack \<leftarrow> push_pos rules pos [];
       llama_grammar_advance_stack rules stack stacks }) starts [] }"

text \<open>\<open>Some None\<close> is the null pointer that is returned for a left-recursive grammar.\<close>

definition llama_grammar_init_impl :: "llama_grammar_rule list \<Rightarrow> nat \<Rightarrow> bool \<Rightarrow> llama_token list \<Rightarrow> llama_grammar option option" where
  "llama_grammar_init_impl rules start_rule_index lazy trigger_tokens = do {
     vec_rules \<leftarrow> those (map copy_rule rules);
     rec \<leftarrow> check_left_recursion vec_rules;
     if rec then Some None
     else do {
       stacks \<leftarrow> initial_stacks vec_rules start_rule_index;
       Some (Some \<lparr>g_rules = vec_rules, g_stacks = stacks, g_partial_utf8 = \<lparr>pu_value = 0, pu_n_remain = 0\<rparr>, g_lazy = lazy,
         g_awaiting_trigger = lazy, g_trigger_buffer = [], g_trigger_buffer_positions = [], g_trigger_tokens = trigger_tokens\<rparr>) } }"

section \<open>Tokens\<close>

record llama_vocab =
  v_token_to_piece :: "llama_token \<Rightarrow> bytes"
  v_is_eog :: "llama_token \<Rightarrow> bool"

datatype logit = Minus_Infinity | Logit int

record llama_token_data =
  td_id :: llama_token
  td_logit :: logit

definition allow_eog :: "llama_grammar \<Rightarrow> bool" where
  "allow_eog grammar \<longleftrightarrow> [] \<in> set (g_stacks grammar)"

text \<open>The loop over the candidates: the logits masked at once, and the candidates for the grammar.\<close>

definition apply_step :: "llama_vocab \<Rightarrow> llama_grammar \<Rightarrow> nat \<Rightarrow> llama_token_data list \<times> llama_grammar_candidate list \<Rightarrow> (llama_token_data list \<times> llama_grammar_candidate list) option" where
  "apply_step vocab grammar i = (\<lambda>(cur_p, cands). do {
     d \<leftarrow> vget cur_p i;
     let piece = v_token_to_piece vocab (td_id d);
     if v_is_eog vocab (td_id d) then
       (if allow_eog grammar then Some (cur_p, cands) else Some (cur_p[i := d\<lparr>td_logit := Minus_Infinity\<rparr>], cands))
     else if piece = [] \<or> hd piece = 0 then Some (cur_p[i := d\<lparr>td_logit := Minus_Infinity\<rparr>], cands)
     else do {
       let decoded = decode_utf8 piece (g_partial_utf8 grammar);
       Some (cur_p, cands @ [\<lparr>gc_index = i, gc_code_points = fst decoded, gc_offset = 0, gc_partial_utf8 = snd decoded, gc_id = td_id d\<rparr>]) } })"

definition mask_logit :: "llama_grammar_candidate \<Rightarrow> llama_token_data list \<Rightarrow> llama_token_data list option" where
  "mask_logit reject cur_p = do { d \<leftarrow> vget cur_p (gc_index reject); vset cur_p (gc_index reject) (d\<lparr>td_logit := Minus_Infinity\<rparr>) }"

definition llama_grammar_apply_impl :: "llama_vocab \<Rightarrow> llama_grammar \<Rightarrow> llama_token_data list \<Rightarrow> llama_token_data list option" where
  "llama_grammar_apply_impl vocab grammar cur_p =
    (if g_awaiting_trigger grammar then Some cur_p
     else do {
       (cur_p, candidates) \<leftarrow> ofold (apply_step vocab grammar) [0..<length cur_p] (cur_p, []);
       rejects \<leftarrow> llama_grammar_reject_candidates (g_rules grammar) (g_stacks grammar) candidates;
       ofold mask_logit rejects cur_p })"

datatype grammar_exn = Empty_Grammar_Stack

text \<open>The object is changed in place before an exception is thrown, so an exception comes with the object it leaves.\<close>

type_synonym grammar_result = "(grammar_exn \<times> llama_grammar) + llama_grammar"

fun run_chars :: "llama_grammar_rules \<Rightarrow> nat list \<Rightarrow> llama_grammar_stacks \<Rightarrow> llama_grammar_stacks option" where
  "run_chars rules [] current_stacks = Some current_stacks"
| "run_chars rules (c # cs) current_stacks = do {
     next_stacks \<leftarrow> accept_all rules c current_stacks;
     if next_stacks = [] then Some [] else run_chars rules cs next_stacks }"

definition accept_token_stack :: "llama_grammar_rules \<Rightarrow> llama_token \<Rightarrow> nat list \<Rightarrow> llama_grammar_stack \<Rightarrow> llama_grammar_stacks \<Rightarrow> llama_grammar_stacks option" where
  "accept_token_stack rules token cps stack stacks_new =
    (case stack of
       [] \<Rightarrow> Some stacks_new
     | pos # below \<Rightarrow> do {
         e \<leftarrow> gelem rules pos;
         if is_token_elem e then do {
           m \<leftarrow> llama_grammar_match_token rules pos token;
           if m then do {
             new_stack \<leftarrow> push_pos rules (gnext pos 1) below;
             llama_grammar_advance_stack rules new_stack stacks_new }
           else Some stacks_new }
         else do {
           surviving \<leftarrow> run_chars rules cps [stack];
           Some (fold add_stack surviving stacks_new) } })"

definition llama_grammar_accept_token :: "llama_token \<Rightarrow> bytes \<Rightarrow> llama_grammar \<Rightarrow> grammar_result option" where
  "llama_grammar_accept_token token piece grammar = do {
     let decoded = decode_utf8 piece (g_partial_utf8 grammar);
     stacks_new \<leftarrow> ofold (accept_token_stack (g_rules grammar) token (butlast (fst decoded))) (g_stacks grammar) [];
     let grammar = grammar\<lparr>g_stacks := stacks_new, g_partial_utf8 := snd decoded\<rparr>;
     Some (if g_stacks grammar = [] then Inl (Empty_Grammar_Stack, grammar) else Inr grammar) }"

definition llama_grammar_accept_str :: "bytes \<Rightarrow> llama_grammar \<Rightarrow> grammar_result option" where
  "llama_grammar_accept_str piece grammar = do {
     let decoded = decode_utf8 piece (g_partial_utf8 grammar);
     grammar \<leftarrow> ofold llama_grammar_accept (butlast (fst decoded)) grammar;
     let grammar = grammar\<lparr>g_partial_utf8 := snd decoded\<rparr>;
     Some (if g_stacks grammar = [] then Inl (Empty_Grammar_Stack, grammar) else Inr grammar) }"

section \<open>Triggers\<close>

text \<open>
  A match is the list of its groups, position and length, the whole match first; the two
  functions of the regular expression are parameters.
\<close>

record trigger_pattern =
  tp_pattern :: bytes
  tp_match :: "bytes \<Rightarrow> (nat \<times> nat) list option"
  tp_search :: "bytes \<Rightarrow> (nat \<times> nat) list option"

definition find_start_pos :: "(nat \<times> nat) list \<Rightarrow> nat" where
  "find_start_pos groups = (case filter (\<lambda>(_, len). len > 0) (tl groups) of [] \<Rightarrow> fst (hd groups) | g # _ \<Rightarrow> fst g)"

definition trigger_find :: "trigger_pattern \<Rightarrow> bytes \<Rightarrow> nat option" where
  "trigger_find tp input =
    (case (if tp_pattern tp \<noteq> [] \<and> hd (tp_pattern tp) = 0x5E \<and> last (tp_pattern tp) = 0x24 then tp_match tp input else None) of
       Some groups \<Rightarrow> Some (find_start_pos groups)
     | None \<Rightarrow> map_option find_start_pos (tp_search tp input))"

text \<open>The first pattern that is found.\<close>

fun find_trigger :: "trigger_pattern list \<Rightarrow> bytes \<Rightarrow> nat option" where
  "find_trigger [] buf = None"
| "find_trigger (tp # tps) buf = (case trigger_find tp buf of Some start \<Rightarrow> Some start | None \<Rightarrow> find_trigger tps buf)"

text \<open>Replaying the buffered tokens from \<open>start\<close> on; an exception ends the loop.\<close>

fun replay :: "bytes \<Rightarrow> nat \<Rightarrow> (llama_token \<times> nat \<times> nat) list \<Rightarrow> llama_grammar \<Rightarrow> grammar_result option" where
  "replay buf start [] grammar = Some (Inr grammar)"
| "replay buf start ((tok, tok_start, tok_end) # ps) grammar =
    (if tok_end \<le> start then replay buf start ps grammar
     else do {
       let piece_start = (if tok_start < start then start else tok_start);
       r \<leftarrow> llama_grammar_accept_token tok (take (tok_end - piece_start) (drop piece_start buf)) grammar;
       case r of Inl e \<Rightarrow> Some (Inl e) | Inr grammar \<Rightarrow> replay buf start ps grammar })"

definition llama_grammar_accept_impl :: "llama_vocab \<Rightarrow> trigger_pattern list \<Rightarrow> llama_token \<Rightarrow> llama_grammar \<Rightarrow> grammar_result option" where
  "llama_grammar_accept_impl vocab trigger_patterns token grammar =
    (let piece = v_token_to_piece vocab token in
     if g_awaiting_trigger grammar then
       (if token \<in> set (g_trigger_tokens grammar) then
          llama_grammar_accept_token token piece (grammar\<lparr>g_awaiting_trigger := False, g_trigger_buffer := []\<rparr>)
        else
          let from = length (g_trigger_buffer grammar);
              buf = g_trigger_buffer grammar @ piece;
              positions = g_trigger_buffer_positions grammar @ [(token, from, from + length piece)];
              grammar = grammar\<lparr>g_trigger_buffer := buf, g_trigger_buffer_positions := positions\<rparr>
          in case find_trigger trigger_patterns buf of
               None \<Rightarrow> Some (Inr grammar)
             | Some start \<Rightarrow> do {
                 r \<leftarrow> replay buf start positions (grammar\<lparr>g_awaiting_trigger := False\<rparr>);
                 Some (case r of Inl e \<Rightarrow> Inl e
                   | Inr grammar \<Rightarrow> Inr (grammar\<lparr>g_trigger_buffer := [], g_trigger_buffer_positions := []\<rparr>)) })
     else if v_is_eog vocab token then (if [] \<in> set (g_stacks grammar) then Some (Inr grammar) else None)
     else llama_grammar_accept_token token piece grammar)"

end
