(* ===== verification/Grammar_Lang.thy ===== *)
theory Grammar_Lang
  imports Grammar_Engine
begin

text \<open>
  The language of a grammar as a set of words of code points, and the stacks as a representation
  of what may follow: accepting a character takes the derivative of the language.
\<close>

section \<open>Well-formed rules\<close>

text \<open>What the parser produces: a rule has one END, its last element, references are in range, and the elements that
  continue a character range follow one.\<close>

definition wf_rule :: "nat \<Rightarrow> llama_grammar_rule \<Rightarrow> bool" where
  "wf_rule n rule \<longleftrightarrow> rule \<noteq> [] \<and> ge_type (last rule) = GRETYPE_END \<and>
     (\<forall>i < length rule.
        (ge_type (rule ! i) = GRETYPE_END \<longrightarrow> i = length rule - 1) \<and>
        (ge_type (rule ! i) = GRETYPE_RULE_REF \<longrightarrow> ge_value (rule ! i) < n) \<and>
        (ge_type (rule ! i) = GRETYPE_CHAR_RNG_UPPER \<longrightarrow> i > 0 \<and> ge_type (rule ! (i - 1)) \<in> {GRETYPE_CHAR, GRETYPE_CHAR_NOT, GRETYPE_CHAR_ALT}) \<and>
        (ge_type (rule ! i) = GRETYPE_CHAR_ALT \<longrightarrow> i > 0 \<and> ge_type (rule ! (i - 1)) \<in> {GRETYPE_CHAR, GRETYPE_CHAR_NOT, GRETYPE_CHAR_ALT, GRETYPE_CHAR_RNG_UPPER}))"

definition wf_rules :: "llama_grammar_rules \<Rightarrow> bool" where
  "wf_rules rules \<longleftrightarrow> (\<forall>rule \<in> set rules. wf_rule (length rules) rule)"

text \<open>A position where a symbol begins, and one where a terminal begins.\<close>

definition sym_pos :: "llama_grammar_rules \<Rightarrow> gpos \<Rightarrow> bool" where
  "sym_pos rules p \<longleftrightarrow> (\<exists>e. gelem rules p = Some e \<and> ge_type e \<notin> {GRETYPE_CHAR_RNG_UPPER, GRETYPE_CHAR_ALT})"

definition char_elem :: "llama_grammar_element \<Rightarrow> bool" where
  "char_elem e \<longleftrightarrow> ge_type e \<in> {GRETYPE_CHAR, GRETYPE_CHAR_NOT, GRETYPE_CHAR_ANY}"

lemma gelem_Some: "gelem rules p = Some e \<longleftrightarrow> fst p < length rules \<and> snd p < length (rules ! fst p) \<and> rules ! fst p ! snd p = e"
  by (auto simp: gelem_def bind_Some_iff)

lemma gelem_next: "gelem rules (gnext p k) = Some e \<longleftrightarrow> fst p < length rules \<and> snd p + k < length (rules ! fst p) \<and> rules ! fst p ! (snd p + k) = e"
  by (simp add: gelem_Some gnext_def)

lemma is_end_iff: "is_end_of_sequence e \<longleftrightarrow> ge_type e = GRETYPE_END \<or> ge_type e = GRETYPE_ALT"
  by (cases "ge_type e") (simp_all add: is_end_of_sequence.simps)

lemma next_exists:
  assumes "wf_rules rules" "gelem rules p = Some e" "ge_type e \<noteq> GRETYPE_END"
  shows "\<exists>e'. gelem rules (gnext p 1) = Some e'"
proof -
  have "wf_rule (length rules) (rules ! fst p)" using assms by (auto simp: wf_rules_def gelem_Some)
  then have "ge_type (last (rules ! fst p)) = GRETYPE_END" "rules ! fst p \<noteq> []" by (auto simp: wf_rule_def)
  then have "snd p \<noteq> length (rules ! fst p) - 1" using assms(2,3) by (auto simp: gelem_Some last_conv_nth)
  then show ?thesis using assms(2) by (auto simp: gelem_Some gnext_def)
qed

text \<open>The element after a symbol that is no character range begins a symbol.\<close>

lemma elem_after:
  assumes "wf_rules rules" "gelem rules p = Some e" "gelem rules (gnext p 1) = Some e'"
  shows "ge_type e' = GRETYPE_CHAR_RNG_UPPER \<Longrightarrow> ge_type e \<in> {GRETYPE_CHAR, GRETYPE_CHAR_NOT, GRETYPE_CHAR_ALT}"
    "ge_type e' = GRETYPE_CHAR_ALT \<Longrightarrow> ge_type e \<in> {GRETYPE_CHAR, GRETYPE_CHAR_NOT, GRETYPE_CHAR_ALT, GRETYPE_CHAR_RNG_UPPER}"
proof -
  have w: "wf_rule (length rules) (rules ! fst p)" using assms by (auto simp: wf_rules_def gelem_Some)
  have i: "snd p + 1 < length (rules ! fst p)" "rules ! fst p ! (snd p + 1) = e'" "rules ! fst p ! snd p = e"
    using assms(2,3) by (auto simp: gelem_Some gnext_def)
  have q: "(ge_type e' = GRETYPE_CHAR_RNG_UPPER \<longrightarrow> ge_type e \<in> {GRETYPE_CHAR, GRETYPE_CHAR_NOT, GRETYPE_CHAR_ALT}) \<and>
      (ge_type e' = GRETYPE_CHAR_ALT \<longrightarrow> ge_type e \<in> {GRETYPE_CHAR, GRETYPE_CHAR_NOT, GRETYPE_CHAR_ALT, GRETYPE_CHAR_RNG_UPPER})"
    using spec[OF conjunct2[OF conjunct2[OF w[unfolded wf_rule_def]]], of "snd p + 1"] i by simp
  show "ge_type e' = GRETYPE_CHAR_RNG_UPPER \<Longrightarrow> ge_type e \<in> {GRETYPE_CHAR, GRETYPE_CHAR_NOT, GRETYPE_CHAR_ALT}"
    using q by blast
  show "ge_type e' = GRETYPE_CHAR_ALT \<Longrightarrow> ge_type e \<in> {GRETYPE_CHAR, GRETYPE_CHAR_NOT, GRETYPE_CHAR_ALT, GRETYPE_CHAR_RNG_UPPER}"
    using q by blast
qed

lemma sym_pos_next:
  assumes "wf_rules rules" "gelem rules p = Some e" "ge_type e \<notin> {GRETYPE_END, GRETYPE_CHAR, GRETYPE_CHAR_NOT, GRETYPE_CHAR_ALT, GRETYPE_CHAR_RNG_UPPER}"
  shows "sym_pos rules (gnext p 1)"
proof -
  obtain e' where e': "gelem rules (gnext p 1) = Some e'" using next_exists[OF assms(1,2)] assms(3) by auto
  show ?thesis using elem_after[OF assms(1,2) e'] assms(3) e' by (auto simp: sym_pos_def)
qed

text \<open>A character range is matched in full: the result is defined and the position behind it does not
  depend on the character.\<close>

lemma match_char_loop_total:
  assumes "wf_rules rules" "gelem rules p = Some e" "ge_type e \<in> {GRETYPE_CHAR, GRETYPE_CHAR_NOT, GRETYPE_CHAR_ANY, GRETYPE_CHAR_ALT}"
  shows "\<exists>p'. sym_pos rules p' \<and> (\<forall>chr found. \<exists>b. match_char_loop rules p chr found = Some (b, p'))"
  using assms(2,3)
proof (induction "length (rules ! fst p) - snd p" arbitrary: p e rule: less_induct)
  case less
  obtain e1 where e1: "gelem rules (gnext p 1) = Some e1" using next_exists[OF assms(1) less(2)] less(3) by auto
  let ?rng = "ge_type e1 = GRETYPE_CHAR_RNG_UPPER"
  let ?p = "gnext p (if ?rng then 2 else 1)"
  have nn: "gnext p 2 = gnext (gnext p 1) 1" by (simp add: gnext_def)
  obtain e' where e': "gelem rules ?p = Some e'"
    using e1 next_exists[OF assms(1) e1] by (cases ?rng) (auto simp: nn)
  have step: "\<exists>b. match_char_loop rules p chr found =
      (if ge_type e' = GRETYPE_CHAR_ALT then match_char_loop rules ?p chr b else Some (b, ?p))" for chr found
    by (subst match_char_loop.simps) (use less(2) e1 e' in auto)
  show ?case
  proof (cases "ge_type e' = GRETYPE_CHAR_ALT")
    case True
    have "length (rules ! fst ?p) - snd ?p < length (rules ! fst p) - snd p"
      using less(2) by (auto simp: gelem_Some gnext_def)
    from less(1)[OF this e'] True obtain p' where p': "sym_pos rules p'" "\<forall>chr found. \<exists>b. match_char_loop rules ?p chr found = Some (b, p')" by auto
    then show ?thesis using step True by metis
  next
    case False
    have "ge_type e' \<noteq> GRETYPE_CHAR_RNG_UPPER"
    proof (cases ?rng)
      case True
      then show ?thesis using elem_after(1)[OF assms(1) e1, of e'] e' by (auto simp: nn)
    next
      case False
      then show ?thesis using e1 e' by simp
    qed
    then have "sym_pos rules ?p" using False e' by (auto simp: sym_pos_def)
    then show ?thesis using step False by metis
  qed
qed

lemma match_char_total:
  assumes "wf_rules rules" "gelem rules p = Some e" "char_elem e"
  obtains p' where "sym_pos rules p'" "\<And>chr. \<exists>b. llama_grammar_match_char rules p chr = Some (b, p')"
proof -
  obtain p' where p': "sym_pos rules p'" "\<forall>chr found. \<exists>b. match_char_loop rules p chr found = Some (b, p')"
    using match_char_loop_total[OF assms(1,2)] assms(3) by (auto simp: char_elem_def)
  moreover have "\<exists>b. llama_grammar_match_char rules p chr = Some (b, p')" for chr
  proof -
    obtain b where "match_char_loop rules p chr False = Some (b, p')" using p'(2) by blast
    then show ?thesis using assms(2,3) by (auto simp: llama_grammar_match_char_def char_elem_def is_positive_char_def)
  qed
  ultimately show ?thesis using that by blast
qed

section \<open>Alternates\<close>

lemma scan_end_total:
  assumes "wf_rules rules" "gelem rules p = Some e"
  shows "\<exists>q. scan_end rules p = Some q"
  using assms(2)
proof (induction "length (rules ! fst p) - snd p" arbitrary: p e rule: less_induct)
  case less
  show ?case
  proof (cases "is_end_of_sequence e")
    case True
    then show ?thesis using less(2) by (subst scan_end.simps) simp
  next
    case False
    then obtain e' where e': "gelem rules (gnext p 1) = Some e'" using next_exists[OF assms(1) less(2)] by (auto simp: is_end_iff)
    have "length (rules ! fst (gnext p 1)) - snd (gnext p 1) < length (rules ! fst p) - snd p"
      using less(2) by (auto simp: gelem_Some gnext_def)
    from less(1)[OF this e'] False less(2) show ?thesis by (subst scan_end.simps) simp
  qed
qed

lemma alternates_total:
  assumes "wf_rules rules" "sym_pos rules p"
  shows "\<exists>ps. alternates rules p = Some (p # ps) \<and> (\<forall>q \<in> set (p # ps). sym_pos rules q)"
  using assms(2)
proof (induction "length (rules ! fst p) - snd p" arbitrary: p rule: less_induct)
  case less
  then obtain e where e: "gelem rules p = Some e" by (auto simp: sym_pos_def)
  obtain q where q: "scan_end rules p = Some q" using scan_end_total[OF assms(1) e] by blast
  obtain e' where e': "gelem rules q = Some e'" "is_end_of_sequence e'" "fst q = fst p" "snd p \<le> snd q" using scan_end_Some[OF q] by auto
  show ?case
  proof (cases "ge_type e' = GRETYPE_ALT")
    case True
    then have s: "sym_pos rules (gnext q 1)" using sym_pos_next[OF assms(1) e'(1)] by simp
    have "length (rules ! fst (gnext q 1)) - snd (gnext q 1) < length (rules ! fst p) - snd p"
      using e e' by (auto simp: gelem_Some gnext_def)
    from less(1)[OF this s] less(2) show ?thesis using q e' True by (subst alternates.simps) auto
  next
    case False
    then show ?thesis using q e' less(2) by (subst alternates.simps) simp
  qed
qed

lemma rule_start:
  assumes "wf_rules rules" "r < length rules"
  shows "sym_pos rules (r, 0)"
proof -
  have w: "wf_rule (length rules) (rules ! r)" using assms by (simp add: wf_rules_def)
  then have l: "0 < length (rules ! r)" by (simp add: wf_rule_def)
  with w have "ge_type (rules ! r ! 0) \<noteq> GRETYPE_CHAR_RNG_UPPER" "ge_type (rules ! r ! 0) \<noteq> GRETYPE_CHAR_ALT"
    unfolding wf_rule_def by (metis less_irrefl)+
  then show ?thesis using assms(2) l by (simp add: sym_pos_def gelem_Some)
qed

section \<open>Words\<close>

text \<open>
  The words of the sequence that starts at a position: the alternates of a rule are its
  productions, a character range contributes one of its characters, and an element for a token
  matches no text.
\<close>

inductive gen :: "llama_grammar_rules \<Rightarrow> gpos \<Rightarrow> nat list \<Rightarrow> bool" for rules where
  gen_end: "gelem rules p = Some e \<Longrightarrow> is_end_of_sequence e \<Longrightarrow> gen rules p []"
| gen_char: "gelem rules p = Some e \<Longrightarrow> char_elem e \<Longrightarrow> llama_grammar_match_char rules p c = Some (True, p') \<Longrightarrow>
    gen rules p' w \<Longrightarrow> gen rules p (c # w)"
| gen_ref: "gelem rules p = Some e \<Longrightarrow> ge_type e = GRETYPE_RULE_REF \<Longrightarrow> alternates rules (ge_value e, 0) = Some subs \<Longrightarrow>
    a \<in> set subs \<Longrightarrow> gen rules a u \<Longrightarrow> gen rules (gnext p 1) v \<Longrightarrow> gen rules p (u @ v)"

lemma gen_end_iff: "gelem rules p = Some e \<Longrightarrow> is_end_of_sequence e \<Longrightarrow> gen rules p w \<longleftrightarrow> w = []"
  by (subst gen.simps) (auto simp: char_elem_def is_end_iff)

lemma gen_char_iff:
  assumes "gelem rules p = Some e" "char_elem e"
  shows "gen rules p w \<longleftrightarrow> (\<exists>c p' v. w = c # v \<and> llama_grammar_match_char rules p c = Some (True, p') \<and> gen rules p' v)"
  using assms by (subst gen.simps) (auto simp: char_elem_def is_end_iff)

lemma gen_ref_iff:
  assumes "gelem rules p = Some e" "ge_type e = GRETYPE_RULE_REF"
  shows "gen rules p w \<longleftrightarrow> (\<exists>subs a u v. w = u @ v \<and> alternates rules (ge_value e, 0) = Some subs \<and> a \<in> set subs \<and> gen rules a u \<and> gen rules (gnext p 1) v)"
  using assms by (subst gen.simps) (auto simp: char_elem_def is_end_iff)

lemma gen_token: "gelem rules p = Some e \<Longrightarrow> is_token_elem e \<Longrightarrow> \<not> gen rules p w"
  by (subst gen.simps) (auto simp: char_elem_def is_end_iff is_token_elem_def)

text \<open>The words of a stack, and of a set of stacks.\<close>

fun sgen :: "llama_grammar_rules \<Rightarrow> llama_grammar_stack \<Rightarrow> nat list \<Rightarrow> bool" where
  "sgen rules [] w \<longleftrightarrow> w = []"
| "sgen rules (p # ps) w \<longleftrightarrow> (\<exists>u v. w = u @ v \<and> gen rules p u \<and> sgen rules ps v)"

definition words :: "llama_grammar_rules \<Rightarrow> llama_grammar_stack set \<Rightarrow> nat list set" where
  "words rules S = {w. \<exists>st \<in> S. sgen rules st w}"

definition grammar_words :: "llama_grammar_rules \<Rightarrow> nat \<Rightarrow> nat list set" where
  "grammar_words rules r = {w. \<exists>subs a. alternates rules (r, 0) = Some subs \<and> a \<in> set subs \<and> gen rules a w}"

lemma words_simps [simp]: "words rules {} = {}" "words rules (insert st S) = {w. sgen rules st w} \<union> words rules S"
  "words rules (S \<union> T) = words rules S \<union> words rules T"
  by (auto simp: words_def)

lemma words_UN: "words rules S = (\<Union>st \<in> S. {w. sgen rules st w})"
  by (auto simp: words_def)

lemma push_pos_sgen:
  assumes "push_pos rules p st = Some st'"
  shows "sgen rules st' w \<longleftrightarrow> (\<exists>u v. w = u @ v \<and> gen rules p u \<and> sgen rules st v)"
proof -
  obtain e where "gelem rules p = Some e" "st' = (if is_end_of_sequence e then st else p # st)"
    using assms by (auto simp: push_pos_def llama_grammar_is_end_of_sequence_def bind_Some_iff)
  then show ?thesis using gen_end_iff[of rules p e] by (cases "is_end_of_sequence e") simp_all
qed

text \<open>A stack is ready if it is empty or a terminal is at its top.\<close>

definition ready :: "llama_grammar_rules \<Rightarrow> llama_grammar_stack \<Rightarrow> bool" where
  "ready rules st \<longleftrightarrow> (case st of [] \<Rightarrow> True | p # _ \<Rightarrow> \<exists>e. gelem rules p = Some e \<and> (char_elem e \<or> is_token_elem e))"

lemma set_add_stack [simp]: "set (add_stack st acc) = insert st (set acc)"
  by (auto simp: add_stack_def)

lemma expand_ref_words:
  assumes "expand_ref rules p (ge_value e) below = Some stacks" "gelem rules p = Some e" "ge_type e = GRETYPE_RULE_REF"
  shows "words rules (set stacks) = {w. sgen rules (p # below) w}"
proof -
  from assms(1) obtain subs base where s: "alternates rules (ge_value e, 0) = Some subs" "push_pos rules (gnext p 1) below = Some base"
    "those (map (\<lambda>sub. push_pos rules sub base) subs) = Some stacks" by (auto simp: expand_ref_def bind_Some_iff)
  have "words rules (set stacks) = {w. \<exists>a \<in> set subs. \<exists>u v. w = u @ v \<and> gen rules a u \<and> sgen rules base v}"
    using s(3)
  proof (induction subs arbitrary: stacks)
    case (Cons a subs)
    then obtain st sts where "push_pos rules a base = Some st" "those (map (\<lambda>sub. push_pos rules sub base) subs) = Some sts" "stacks = st # sts"
      by (auto split: option.splits)
    then show ?case using Cons(1)[of sts] by (auto simp: push_pos_sgen)
  qed (auto simp: words_def)
  also have "\<dots> = {w. sgen rules (p # below) w}"
  proof (intro Collect_cong iffI)
    fix w assume "\<exists>a \<in> set subs. \<exists>u v. w = u @ v \<and> gen rules a u \<and> sgen rules base v"
    then obtain a u x y where w: "a \<in> set subs" "w = u @ x @ y" "gen rules a u" "gen rules (gnext p 1) x" "sgen rules below y"
      using push_pos_sgen[OF s(2)] by blast
    then have "gen rules p (u @ x)" using gen_ref[OF assms(2,3) s(1)] by blast
    then have "\<exists>z v. w = z @ v \<and> gen rules p z \<and> sgen rules below v" using w by (intro exI[of _ "u @ x"] exI[of _ y]) simp
    then show "sgen rules (p # below) w" by simp
  next
    fix w assume "sgen rules (p # below) w"
    then obtain z y where w: "w = z @ y" "gen rules p z" "sgen rules below y" by auto
    then obtain a u x where "a \<in> set subs" "z = u @ x" "gen rules a u" "gen rules (gnext p 1) x"
      using gen_ref_iff[OF assms(2,3)] s(1) by auto
    then show "\<exists>a \<in> set subs. \<exists>u v. w = u @ v \<and> gen rules a u \<and> sgen rules base v"
      using w push_pos_sgen[OF s(2), of "x @ y"] by (intro bexI[of _ a] exI[of _ u] exI[of _ "x @ y"]) auto
  qed
  finally show ?thesis .
qed

text \<open>Advancing keeps the words and leaves ready stacks only.\<close>

definition advanced :: "llama_grammar_rules \<Rightarrow> nat list set \<Rightarrow> llama_grammar_stacks \<Rightarrow> llama_grammar_stacks \<Rightarrow> bool" where
  "advanced rules W acc res \<longleftrightarrow> words rules (set res) = words rules (set acc) \<union> W \<and> set acc \<subseteq> set res \<and>
     (\<forall>st \<in> set res - set acc. ready rules st) \<and> (distinct acc \<longrightarrow> distinct res)"

lemma advanced_refl: "advanced rules {} acc acc"
  by (simp add: advanced_def)

lemma advanced_add: "ready rules st \<Longrightarrow> advanced rules {w. sgen rules st w} acc (add_stack st acc)"
  by (auto simp: advanced_def add_stack_def words_def)

lemma advanced_trans: "advanced rules V a b \<Longrightarrow> advanced rules W b c \<Longrightarrow> advanced rules (V \<union> W) a c"
  by (auto simp: advanced_def)

lemma advanced_ofold:
  assumes "\<And>x acc res. x \<in> set xs \<Longrightarrow> f x acc = Some res \<Longrightarrow> advanced rules (W x) acc res" "ofold f xs acc = Some res"
  shows "advanced rules (\<Union>x \<in> set xs. W x) acc res"
  using assms
proof (induction xs arbitrary: acc)
  case Nil
  then show ?case by (simp add: advanced_refl)
next
  case (Cons x xs)
  then obtain mid where m: "f x acc = Some mid" "ofold f xs mid = Some res" by (auto simp: bind_Some_iff)
  have "advanced rules (W x \<union> (\<Union>x \<in> set xs. W x)) acc res"
    using Cons(2)[of x acc mid] m Cons(1)[OF _ m(2)] Cons(2) by (intro advanced_trans[of _ _ _ mid]) auto
  then show ?case by simp
qed

lemma advance_words:
  "llama_grammar_advance_stack rules stack acc = Some res \<Longrightarrow> advanced rules {w. sgen rules stack w} acc res"
proof (induction rule: llama_grammar_advance_stack.raw_induct[rotated, consumes 1, case_names step])
  case (step adv rules stack acc res)
  show ?case
  proof (cases stack)
    case Nil
    then show ?thesis using step(2) advanced_add[of rules "[]" acc] by (simp add: ready_def)
  next
    case (Cons p below)
    with step(2) obtain e where e: "gelem rules p = Some e" by (auto simp: bind_Some_iff)
    show ?thesis
    proof (cases "ge_type e = GRETYPE_RULE_REF")
      case True
      with step(2) Cons e obtain stacks where s: "expand_ref rules p (ge_value e) below = Some stacks" "ofold (\<lambda>st acc. adv rules st acc) stacks acc = Some res"
        by (auto simp: bind_Some_iff)
      have "advanced rules (\<Union>st \<in> set stacks. {w. sgen rules st w}) acc res"
        by (rule advanced_ofold[OF _ s(2)]) (rule step(1))
      moreover have "(\<Union>st \<in> set stacks. {w. sgen rules st w}) = {w. sgen rules stack w}"
        using expand_ref_words[OF s(1) e True] Cons by (simp add: words_UN)
      ultimately show ?thesis by simp
    next
      case False
      then have "ready rules stack \<and> res = add_stack stack acc"
        using step(2) Cons e by (cases "ge_type e") (auto simp: ready_def char_elem_def is_token_elem_def)
      then show ?thesis using advanced_add by blast
    qed
  qed
qed

section \<open>Derivatives\<close>

definition deriv :: "nat list \<Rightarrow> nat list set \<Rightarrow> nat list set" where
  "deriv cs W = {w. cs @ w \<in> W}"

lemma accept_chr_words:
  assumes "ready rules stack" "llama_grammar_accept_chr rules chr stack acc = Some res"
  shows "advanced rules (deriv [chr] {w. sgen rules stack w}) acc res"
proof (cases stack)
  case Nil
  then show ?thesis using assms(2) by (simp add: llama_grammar_accept_chr_def deriv_def advanced_refl)
next
  case (Cons p below)
  with assms(1) obtain e where e: "gelem rules p = Some e" "char_elem e \<or> is_token_elem e" by (auto simp: ready_def)
  show ?thesis
  proof (cases "is_token_elem e")
    case True
    then show ?thesis using assms(2) Cons e gen_token[OF e(1)] by (simp add: llama_grammar_accept_chr_def deriv_def advanced_refl)
  next
    case False
    with assms(2) Cons e obtain b p' where m: "llama_grammar_match_char rules p chr = Some (b, p')"
      by (auto simp: llama_grammar_accept_chr_def bind_Some_iff)
    have d: "deriv [chr] {w. sgen rules stack w} = {w. b \<and> (\<exists>u v. w = u @ v \<and> gen rules p' u \<and> sgen rules below v)}"
    proof -
      have "gen rules p (chr # u) \<longleftrightarrow> b \<and> gen rules p' u" for u
        using gen_char_iff[OF e(1)] e(2) False m by (cases p') auto
      moreover have "\<not> gen rules p []" using gen_char_iff[OF e(1)] e(2) False by auto
      ultimately have "sgen rules stack (chr # w) \<longleftrightarrow> b \<and> (\<exists>u v. w = u @ v \<and> gen rules p' u \<and> sgen rules below v)" for w
        unfolding Cons sgen.simps by (auto simp: Cons_eq_append_conv)
      then show ?thesis by (simp add: deriv_def)
    qed
    show ?thesis
    proof (cases b)
      case True
      with assms(2) Cons e m False obtain st where st: "push_pos rules p' below = Some st" "llama_grammar_advance_stack rules st acc = Some res"
        by (auto simp: llama_grammar_accept_chr_def bind_Some_iff)
      show ?thesis using advance_words[OF st(2)] d True push_pos_sgen[OF st(1)] by simp
    next
      case bf: False
      then show ?thesis using assms(2) Cons e m False d by (simp add: llama_grammar_accept_chr_def advanced_refl)
    qed
  qed
qed

lemma deriv_words: "deriv cs (words rules S) = (\<Union>st \<in> S. deriv cs {w. sgen rules st w})"
  by (auto simp: words_def deriv_def)

lemma deriv_append: "deriv ds (deriv cs W) = deriv (cs @ ds) W"
  by (auto simp: deriv_def)

definition all_ready :: "llama_grammar_rules \<Rightarrow> llama_grammar_stacks \<Rightarrow> bool" where
  "all_ready rules stacks \<longleftrightarrow> (\<forall>st \<in> set stacks. ready rules st) \<and> distinct stacks"

lemma accept_all_words:
  assumes "all_ready rules stacks" "accept_all rules chr stacks = Some res"
  shows "words rules (set res) = deriv [chr] (words rules (set stacks)) \<and> all_ready rules res"
proof -
  have "advanced rules (\<Union>st \<in> set stacks. deriv [chr] {w. sgen rules st w}) [] res"
    using assms by (intro advanced_ofold[of stacks "llama_grammar_accept_chr rules chr"])
      (auto simp: accept_all_def all_ready_def intro: accept_chr_words)
  then show ?thesis by (simp add: advanced_def deriv_words all_ready_def)
qed

lemma accept_word_words:
  assumes "all_ready rules stacks" "ofold (accept_all rules) cs stacks = Some res"
  shows "words rules (set res) = deriv cs (words rules (set stacks)) \<and> all_ready rules res"
  using assms
proof (induction cs arbitrary: stacks)
  case Nil
  then show ?case by (simp add: deriv_def)
next
  case (Cons c cs)
  then obtain mid where "accept_all rules c stacks = Some mid" "ofold (accept_all rules) cs mid = Some res"
    by (auto simp: bind_Some_iff)
  then show ?case using accept_all_words[OF Cons(2)] Cons(1)[of mid] by (simp add: deriv_append)
qed

lemma initial_words:
  assumes "initial_stacks rules r = Some stacks"
  shows "words rules (set stacks) = grammar_words rules r \<and> all_ready rules stacks"
proof -
  from assms obtain starts where s: "alternates rules (r, 0) = Some starts"
    "ofold (\<lambda>pos stacks. do { stack \<leftarrow> push_pos rules pos []; llama_grammar_advance_stack rules stack stacks }) starts [] = Some stacks"
    by (auto simp: initial_stacks_def bind_Some_iff)
  have "advanced rules (\<Union>a \<in> set starts. {w. gen rules a w}) [] stacks"
  proof (rule advanced_ofold[OF _ s(2)])
    fix a acc res assume "(do { stack \<leftarrow> push_pos rules a []; llama_grammar_advance_stack rules stack acc }) = Some res"
    then obtain st where st: "push_pos rules a [] = Some st" "llama_grammar_advance_stack rules st acc = Some res"
      by (auto simp: bind_Some_iff)
    show "advanced rules {w. gen rules a w} acc res" using advance_words[OF st(2)] push_pos_sgen[OF st(1)] by simp
  qed
  moreover have "(\<Union>a \<in> set starts. {w. gen rules a w}) = grammar_words rules r" using s(1) by (auto simp: grammar_words_def)
  ultimately show ?thesis by (simp add: advanced_def all_ready_def)
qed

text \<open>Only the empty stack can end here.\<close>

lemma ready_empty_word: "ready rules st \<Longrightarrow> sgen rules st [] \<longleftrightarrow> st = []"
proof (cases st)
  case (Cons p ps)
  assume "ready rules st"
  with Cons obtain e where "gelem rules p = Some e" "char_elem e \<or> is_token_elem e" by (auto simp: ready_def)
  then have "\<not> gen rules p []" using gen_char_iff[of rules p e "[]"] gen_token[of rules p e "[]"] by auto
  with Cons show ?thesis by simp
qed simp

lemma complete_iff: "all_ready rules stacks \<Longrightarrow> [] \<in> set stacks \<longleftrightarrow> [] \<in> words rules (set stacks)"
  using ready_empty_word by (auto simp: all_ready_def words_def)

end
