(* ===== verification/Grammar_Term.thy ===== *)
theory Grammar_Term
  imports Grammar_Lang
begin

text \<open>
  Termination of the grammar engine: what left recursion is for it, that a grammar without it
  never runs forever, and what the check of \<open>llama_grammar_init_impl\<close> guarantees.
\<close>

section \<open>Left recursion\<close>

text \<open>The positions that are reached from \<open>a\<close> before any character is read.\<close>

inductive leads :: "llama_grammar_rules \<Rightarrow> gpos \<Rightarrow> gpos \<Rightarrow> bool" for rules a where
  leads_refl: "leads rules a a"
| leads_skip: "leads rules a p \<Longrightarrow> gelem rules p = Some e \<Longrightarrow> ge_type e = GRETYPE_RULE_REF \<Longrightarrow>
    alternates rules (ge_value e, 0) = Some subs \<Longrightarrow> b \<in> set subs \<Longrightarrow> gen rules b [] \<Longrightarrow> leads rules a (gnext p 1)"

text \<open>A rule refers to another one at its left edge.\<close>

definition left_edge :: "llama_grammar_rules \<Rightarrow> nat \<Rightarrow> nat \<Rightarrow> bool" where
  "left_edge rules s r \<longleftrightarrow> (\<exists>subs a p e. alternates rules (r, 0) = Some subs \<and> a \<in> set subs \<and> leads rules a p \<and>
     gelem rules p = Some e \<and> ge_type e = GRETYPE_RULE_REF \<and> ge_value e = s)"

definition returns :: "llama_grammar_rules \<Rightarrow> llama_grammar_stack \<Rightarrow> bool" where
  "returns rules stack \<longleftrightarrow> (\<forall>acc. \<exists>res. llama_grammar_advance_stack rules stack acc = Some res)"

lemma returns_ready: "ready rules stack \<Longrightarrow> returns rules stack"
  unfolding returns_def
  by (subst llama_grammar_advance_stack.simps) (auto simp: ready_def char_elem_def is_token_elem_def split: list.splits)

lemma ofold_returns: "(\<And>st. st \<in> set stacks \<Longrightarrow> returns rules st) \<Longrightarrow>
    \<exists>res. ofold (\<lambda>st acc. llama_grammar_advance_stack rules st acc) stacks acc = Some res"
proof (induction stacks arbitrary: acc)
  case (Cons st stacks)
  have "returns rules st" by (rule Cons(2)) simp
  then obtain mid where "llama_grammar_advance_stack rules st acc = Some mid" by (auto simp: returns_def)
  then show ?case using Cons by simp
qed simp

lemma returns_ref:
  assumes "gelem rules p = Some e" "ge_type e = GRETYPE_RULE_REF" "expand_ref rules p (ge_value e) below = Some stacks"
    "\<And>st. st \<in> set stacks \<Longrightarrow> returns rules st"
  shows "returns rules (p # below)"
  unfolding returns_def using assms(1-3) ofold_returns[OF assms(4)]
  by (subst llama_grammar_advance_stack.simps) simp

lemma push_pos_total: "sym_pos rules p \<Longrightarrow> \<exists>st. push_pos rules p X = Some st"
  by (auto simp: sym_pos_def push_pos_def llama_grammar_is_end_of_sequence_def)

lemma those_map_total: "(\<And>x. x \<in> set xs \<Longrightarrow> \<exists>y. f x = Some y) \<Longrightarrow> \<exists>ys. those (map f xs) = Some ys \<and> (\<forall>y \<in> set ys. \<exists>x \<in> set xs. f x = Some y)"
proof (induction xs)
  case (Cons x xs)
  obtain y where "f x = Some y" using Cons(2)[of x] by auto
  moreover obtain ys where "those (map f xs) = Some ys" "\<forall>y \<in> set ys. \<exists>x \<in> set xs. f x = Some y" using Cons by auto
  ultimately show ?case by auto
qed simp

text \<open>What a reference expands to.\<close>

lemma expand_ref_total:
  assumes wf: "wf_rules rules" and e: "gelem rules p = Some e" "ge_type e = GRETYPE_RULE_REF"
  obtains subs base stacks where "ge_value e < length rules" "alternates rules (ge_value e, 0) = Some subs" "\<forall>b \<in> set subs. sym_pos rules b"
    "push_pos rules (gnext p 1) below = Some base" "expand_ref rules p (ge_value e) below = Some stacks"
    "\<forall>st \<in> set stacks. \<exists>b \<in> set subs. push_pos rules b base = Some st"
proof -
  have v: "ge_value e < length rules" using wf e by (auto simp: wf_rules_def wf_rule_def gelem_Some)
  obtain subs where s: "alternates rules (ge_value e, 0) = Some subs" "\<forall>b \<in> set subs. sym_pos rules b"
    using alternates_total[OF wf rule_start[OF wf v]] by auto
  have "sym_pos rules (gnext p 1)" using sym_pos_next[OF wf e(1)] e(2) by simp
  then obtain base where b: "push_pos rules (gnext p 1) below = Some base" using push_pos_total by blast
  obtain stacks where "those (map (\<lambda>sub. push_pos rules sub base) subs) = Some stacks" "\<forall>st \<in> set stacks. \<exists>b \<in> set subs. push_pos rules b base = Some st"
    using those_map_total[of subs "\<lambda>sub. push_pos rules sub base"] push_pos_total s(2) by blast
  with v s b that show ?thesis by (auto simp: expand_ref_def)
qed

lemma push_pos_cases:
  assumes "push_pos rules p X = Some X'" "gelem rules p = Some e"
  shows "X' = (if is_end_of_sequence e then X else p # X)"
  using assms by (auto simp: push_pos_def llama_grammar_is_end_of_sequence_def)

lemma sym_pos_types:
  assumes "sym_pos rules p" "gelem rules p = Some e"
  shows "is_end_of_sequence e \<or> char_elem e \<or> is_token_elem e \<or> ge_type e = GRETYPE_RULE_REF"
  using assms by (cases "ge_type e") (auto simp: sym_pos_def is_end_iff char_elem_def is_token_elem_def)

abbreviation grounded :: "llama_grammar_rules \<Rightarrow> nat \<Rightarrow> bool" where
  "grounded rules \<equiv> Wellfounded.accp (left_edge rules)"

text \<open>The alternates of a grounded rule return on every stack that returns if it is reached.\<close>

lemma grounded_returns:
  assumes wf: "wf_rules rules"
  shows "grounded rules r \<Longrightarrow> alternates rules (r, 0) = Some subs \<Longrightarrow> a \<in> set subs \<Longrightarrow> leads rules a p \<Longrightarrow> sym_pos rules p \<Longrightarrow>
    push_pos rules p X = Some X' \<Longrightarrow> (gen rules p [] \<Longrightarrow> returns rules X) \<Longrightarrow> returns rules X'"
proof (induction r arbitrary: subs a p X X' rule: accp_induct_rule[consumes 1, case_names step])
  case (step r)
  note outer = step(2)
  from step(3-) show ?case
  proof (induction "length (rules ! fst p) - snd p" arbitrary: p X X' rule: less_induct)
    case less
    obtain e where e: "gelem rules p = Some e" using less(5) by (auto simp: sym_pos_def)
    note X' = push_pos_cases[OF less(6) e]
    consider "is_end_of_sequence e" | "ready rules (p # X)" "\<not> is_end_of_sequence e" | "ge_type e = GRETYPE_RULE_REF" "\<not> is_end_of_sequence e"
      using sym_pos_types[OF less(5) e] e by (auto simp: ready_def is_end_iff)
    then show ?case
    proof cases
      case 1
      then show ?thesis using X' less(7) gen_end[OF e] by simp
    next
      case 2
      then show ?thesis using X' returns_ready by simp
    next
      case 3
      obtain sb base stacks where ex: "ge_value e < length rules" "alternates rules (ge_value e, 0) = Some sb" "\<forall>b \<in> set sb. sym_pos rules b"
        "push_pos rules (gnext p 1) X = Some base" "expand_ref rules p (ge_value e) X = Some stacks"
        "\<forall>st \<in> set stacks. \<exists>b \<in> set sb. push_pos rules b base = Some st"
        by (rule expand_ref_total[OF wf e 3(1)])
      have edge: "left_edge rules (ge_value e) r" unfolding left_edge_def using less(2,3,4) e 3(1) by blast
      have nx: "sym_pos rules (gnext p 1)" using sym_pos_next[OF wf e] 3(1) by simp
      have smaller: "length (rules ! fst (gnext p 1)) - snd (gnext p 1) < length (rules ! fst p) - snd p"
        using e by (auto simp: gelem_Some gnext_def)
      have "returns rules st" if st: "st \<in> set stacks" for st
      proof -
        obtain b where b: "b \<in> set sb" "push_pos rules b base = Some st" using bspec[OF ex(6) st] by blast
        have "returns rules base" if bn: "gen rules b []"
        proof (rule less(1)[OF smaller less(2,3) _ nx ex(4)])
          show "leads rules a (gnext p 1)" by (rule leads_skip[OF less(4) e 3(1) ex(2) b(1) bn])
          show "gen rules (gnext p 1) [] \<Longrightarrow> returns rules X"
            using gen_ref[OF e 3(1) ex(2) b(1) bn, of "[]"] less(7) by simp
        qed
        then show ?thesis using outer[OF edge ex(2) b(1) leads_refl _ b(2)] ex(3) b(1) by blast
      qed
      then show ?thesis using X' 3(2) returns_ref[OF e 3(1) ex(5)] by simp
    qed
  qed
qed

text \<open>If every rule is grounded, every stack returns.\<close>

definition all_grounded :: "llama_grammar_rules \<Rightarrow> bool" where
  "all_grounded rules \<longleftrightarrow> (\<forall>r < length rules. grounded rules r)"

lemma push_returns:
  assumes wf: "wf_rules rules" and g: "all_grounded rules"
  shows "sym_pos rules p \<Longrightarrow> push_pos rules p X = Some X' \<Longrightarrow> returns rules X \<Longrightarrow> returns rules X'"
proof (induction "length (rules ! fst p) - snd p" arbitrary: p X' rule: less_induct)
  case less
  obtain e where e: "gelem rules p = Some e" using less(2) by (auto simp: sym_pos_def)
  note X' = push_pos_cases[OF less(3) e]
  consider "is_end_of_sequence e" | "ready rules (p # X)" "\<not> is_end_of_sequence e" | "ge_type e = GRETYPE_RULE_REF" "\<not> is_end_of_sequence e"
    using sym_pos_types[OF less(2) e] e by (auto simp: ready_def is_end_iff)
  then show ?case
  proof cases
    case 3
    obtain sb base stacks where ex: "ge_value e < length rules" "alternates rules (ge_value e, 0) = Some sb" "\<forall>b \<in> set sb. sym_pos rules b"
      "push_pos rules (gnext p 1) X = Some base" "expand_ref rules p (ge_value e) X = Some stacks"
      "\<forall>st \<in> set stacks. \<exists>b \<in> set sb. push_pos rules b base = Some st"
      by (rule expand_ref_total[OF wf e 3(1)])
    have nx: "sym_pos rules (gnext p 1)" using sym_pos_next[OF wf e] 3(1) by simp
    have smaller: "length (rules ! fst (gnext p 1)) - snd (gnext p 1) < length (rules ! fst p) - snd p"
      using e by (auto simp: gelem_Some gnext_def)
    have base: "returns rules base" by (rule less(1)[OF smaller nx ex(4) less(4)])
    have "returns rules st" if "st \<in> set stacks" for st
      using grounded_returns[OF wf _ ex(2) _ leads_refl] g ex(1,3,6) base that unfolding all_grounded_def by blast
    then show ?thesis using X' 3(2) returns_ref[OF e 3(1) ex(5)] by simp
  qed (use X' less(4) returns_ready in simp_all)
qed

section \<open>Stacks stay valid\<close>

definition stack_ok :: "llama_grammar_rules \<Rightarrow> llama_grammar_stack \<Rightarrow> bool" where
  "stack_ok rules st \<longleftrightarrow> (\<forall>p \<in> set st. sym_pos rules p \<and> (\<forall>e. gelem rules p = Some e \<longrightarrow> \<not> is_end_of_sequence e))"

lemma stack_ok_simps [simp]: "stack_ok rules []"
  "stack_ok rules (p # st) \<longleftrightarrow> sym_pos rules p \<and> (\<forall>e. gelem rules p = Some e \<longrightarrow> \<not> is_end_of_sequence e) \<and> stack_ok rules st"
  by (auto simp: stack_ok_def)

lemma push_ok: "push_pos rules p X = Some X' \<Longrightarrow> sym_pos rules p \<Longrightarrow> stack_ok rules X \<Longrightarrow> stack_ok rules X'"
  by (auto simp: push_pos_def llama_grammar_is_end_of_sequence_def bind_Some_iff)

lemma stack_returns:
  assumes "wf_rules rules" "all_grounded rules" "stack_ok rules st"
  shows "returns rules st"
  using assms(3)
proof (induction st)
  case Nil
  show ?case by (rule returns_ready) (simp add: ready_def)
next
  case (Cons p st)
  then obtain e where "gelem rules p = Some e" "\<not> is_end_of_sequence e" by (auto simp: sym_pos_def)
  then have "push_pos rules p st = Some (p # st)" by (simp add: push_pos_def llama_grammar_is_end_of_sequence_def)
  then show ?case using push_returns[OF assms(1,2), of p st "p # st"] Cons by simp
qed

lemma ofold_collect:
  assumes "\<And>x acc res. x \<in> set xs \<Longrightarrow> f x acc = Some res \<Longrightarrow> (\<forall>st \<in> set res - set acc. Q st) \<and> set acc \<subseteq> set res \<and> res \<noteq> []"
    "ofold f xs acc = Some res"
  shows "(\<forall>st \<in> set res - set acc. Q st) \<and> set acc \<subseteq> set res \<and> (xs \<noteq> [] \<longrightarrow> res \<noteq> [])"
  using assms
proof (induction xs arbitrary: acc)
  case (Cons x xs)
  then obtain mid where m: "f x acc = Some mid" "ofold f xs mid = Some res" by (auto simp: bind_Some_iff)
  have "(\<forall>st \<in> set mid - set acc. Q st) \<and> set acc \<subseteq> set mid \<and> mid \<noteq> []" by (rule Cons(2)[OF _ m(1)]) simp
  moreover have "(\<forall>st \<in> set res - set mid. Q st) \<and> set mid \<subseteq> set res \<and> (xs \<noteq> [] \<longrightarrow> res \<noteq> [])"
    by (rule Cons(1)[OF _ m(2)]) (rule Cons(2), rule list.set_intros(2))
  ultimately show ?case by (cases mid) auto
qed simp

lemma those_length: "those xs = Some ys \<Longrightarrow> length ys = length xs"
  by (induction xs arbitrary: ys) (auto split: option.splits)

lemma advance_ok:
  assumes "llama_grammar_advance_stack rules stack acc = Some res" "wf_rules rules" "stack_ok rules stack"
  shows "(\<forall>st \<in> set res - set acc. stack_ok rules st) \<and> set acc \<subseteq> set res \<and> res \<noteq> []"
  using assms
proof (induction rule: llama_grammar_advance_stack.raw_induct[rotated, consumes 1, case_names step])
  case (step adv rules stack acc res)
  have add: "(\<forall>st \<in> set (add_stack stack acc) - set acc. stack_ok rules st) \<and> set acc \<subseteq> set (add_stack stack acc) \<and> add_stack stack acc \<noteq> []"
    using step(4) by (auto simp: add_stack_def)
  show ?case
  proof (cases stack)
    case Nil
    then show ?thesis using step(2) add by simp
  next
    case (Cons p below)
    with step(2) obtain e where e: "gelem rules p = Some e" by (auto simp: bind_Some_iff)
    show ?thesis
    proof (cases "ge_type e = GRETYPE_RULE_REF")
      case True
      with step(2) Cons e obtain stacks where s: "expand_ref rules p (ge_value e) below = Some stacks" "ofold (\<lambda>st acc. adv rules st acc) stacks acc = Some res"
        by (auto simp: bind_Some_iff)
      obtain sb base stacks' where ex: "ge_value e < length rules" "alternates rules (ge_value e, 0) = Some sb" "\<forall>b \<in> set sb. sym_pos rules b"
        "push_pos rules (gnext p 1) below = Some base" "expand_ref rules p (ge_value e) below = Some stacks'"
        "\<forall>st \<in> set stacks'. \<exists>b \<in> set sb. push_pos rules b base = Some st"
        by (rule expand_ref_total[OF step(3) e True])
      have "stack_ok rules base" using push_ok[OF ex(4)] sym_pos_next[OF step(3) e] True step(4) Cons by simp
      then have ok: "stack_ok rules st" if "st \<in> set stacks" for st using push_ok ex(3,5,6) s(1) that by fastforce
      have "sb \<noteq> []" using alternates_total[OF step(3) rule_start[OF step(3) ex(1)]] ex(2) by auto
      then have "stacks \<noteq> []" using s(1) ex(2,4) those_length by (fastforce simp: expand_ref_def)
      moreover have "(\<forall>s \<in> set r - set a. stack_ok rules s) \<and> set a \<subseteq> set r \<and> r \<noteq> []" if "st \<in> set stacks" "adv rules st a = Some r" for st a r
        by (rule step(1)[OF that(2) step(3) ok[OF that(1)]])
      ultimately show ?thesis using ofold_collect[of stacks "\<lambda>st acc. adv rules st acc" "stack_ok rules", OF _ s(2)] by simp
    next
      case False
      then have r: "res = add_stack stack acc" using step(2) Cons e by (cases "ge_type e") auto
      show ?thesis unfolding r by (rule add)
    qed
  qed
qed

lemma push_advance_total:
  assumes "wf_rules rules" "all_grounded rules" "sym_pos rules a" "stack_ok rules below"
  obtains X res where "push_pos rules a below = Some X" "llama_grammar_advance_stack rules X acc = Some res"
    "\<forall>s \<in> set res - set acc. stack_ok rules s" "set acc \<subseteq> set res" "res \<noteq> []"
proof -
  obtain X where X: "push_pos rules a below = Some X" using push_pos_total[OF assms(3)] by blast
  have ok: "stack_ok rules X" by (rule push_ok[OF X assms(3,4)])
  then obtain res where r: "llama_grammar_advance_stack rules X acc = Some res"
    using stack_returns[OF assms(1,2)] unfolding returns_def by blast
  show ?thesis by (rule that[OF X r]) (use advance_ok[OF r assms(1) ok] in blast)+
qed

text \<open>The states of the engine.\<close>

definition stacks_ok :: "llama_grammar_rules \<Rightarrow> llama_grammar_stacks \<Rightarrow> bool" where
  "stacks_ok rules stacks \<longleftrightarrow> all_ready rules stacks \<and> (\<forall>st \<in> set stacks. stack_ok rules st)"

lemma accept_chr_total:
  assumes "wf_rules rules" "all_grounded rules" "ready rules st" "stack_ok rules st"
  shows "\<exists>res. llama_grammar_accept_chr rules chr st acc = Some res \<and> (\<forall>s \<in> set res - set acc. stack_ok rules s) \<and> set acc \<subseteq> set res"
proof (cases st)
  case Nil
  then show ?thesis by (simp add: llama_grammar_accept_chr_def)
next
  case (Cons p below)
  then obtain e where e: "gelem rules p = Some e" "char_elem e \<or> is_token_elem e" using assms(3) by (auto simp: ready_def)
  show ?thesis
  proof (cases "is_token_elem e")
    case True
    then show ?thesis using Cons e by (simp add: llama_grammar_accept_chr_def)
  next
    case False
    then obtain p' b where m: "sym_pos rules p'" "llama_grammar_match_char rules p chr = Some (b, p')"
      using match_char_total[OF assms(1) e(1)] e(2) by metis
    have "stack_ok rules below" using assms(4) Cons by simp
    with assms(1,2) m(1) obtain X res where X: "push_pos rules p' below = Some X" "llama_grammar_advance_stack rules X acc = Some res"
      "\<forall>s \<in> set res - set acc. stack_ok rules s" "set acc \<subseteq> set res" "res \<noteq> []" by (rule push_advance_total)
    then show ?thesis using Cons e False m(2) X by (cases b) (simp_all add: llama_grammar_accept_chr_def)
  qed
qed

lemma ofold_stacks_total:
  assumes "\<And>x acc. x \<in> set xs \<Longrightarrow> \<exists>res. f x acc = Some res \<and> (\<forall>s \<in> set res - set acc. Q s) \<and> set acc \<subseteq> set res"
  shows "\<exists>res. ofold f xs acc = Some res \<and> (\<forall>s \<in> set res - set acc. Q s) \<and> set acc \<subseteq> set res"
  using assms
proof (induction xs arbitrary: acc)
  case (Cons x xs)
  obtain mid where m: "f x acc = Some mid" "\<forall>s \<in> set mid - set acc. Q s" "set acc \<subseteq> set mid" using Cons(2)[of x acc] by auto
  obtain res where "ofold f xs mid = Some res" "\<forall>s \<in> set res - set mid. Q s" "set mid \<subseteq> set res" using Cons by force
  with m show ?case by (intro exI[of _ res]) auto
qed simp

lemma accept_all_total:
  assumes "wf_rules rules" "all_grounded rules" "stacks_ok rules stacks"
  shows "\<exists>res. accept_all rules chr stacks = Some res \<and> stacks_ok rules res"
proof -
  obtain res where r: "accept_all rules chr stacks = Some res" "\<forall>s \<in> set res. stack_ok rules s"
    using ofold_stacks_total[of stacks "llama_grammar_accept_chr rules chr" "stack_ok rules" "[]"] accept_chr_total[OF assms(1,2)] assms(3)
    by (auto simp: accept_all_def stacks_ok_def all_ready_def)
  then show ?thesis using accept_all_words[OF _ r(1)] assms(3) by (auto simp: stacks_ok_def)
qed

lemma accept_word_total:
  assumes "wf_rules rules" "all_grounded rules" "stacks_ok rules stacks"
  shows "\<exists>res. ofold (accept_all rules) cs stacks = Some res \<and> stacks_ok rules res"
  using assms(3)
proof (induction cs arbitrary: stacks)
  case (Cons c cs)
  then show ?case using accept_all_total[OF assms(1,2) Cons(2), of c] by auto
qed simp

lemma initial_total:
  assumes "wf_rules rules" "all_grounded rules" "r < length rules"
  shows "\<exists>res. initial_stacks rules r = Some res \<and> stacks_ok rules res \<and> res \<noteq> []"
proof -
  let ?f = "\<lambda>pos stacks. do { stack \<leftarrow> push_pos rules pos []; llama_grammar_advance_stack rules stack stacks }"
  obtain ps where ps: "alternates rules (r, 0) = Some ((r, 0) # ps)" "\<forall>q \<in> set ((r, 0) # ps). sym_pos rules q"
    using alternates_total[OF assms(1) rule_start[OF assms(1,3)]] by blast
  have step: "\<exists>res. ?f a acc = Some res \<and> (\<forall>s \<in> set res - set acc. stack_ok rules s) \<and> set acc \<subseteq> set res \<and> res \<noteq> []" if a: "sym_pos rules a" for a acc
  proof -
    obtain X res where X: "push_pos rules a [] = Some X" "llama_grammar_advance_stack rules X acc = Some res"
      "\<forall>s \<in> set res - set acc. stack_ok rules s" "set acc \<subseteq> set res" "res \<noteq> []"
      by (rule push_advance_total[OF assms(1,2) a stack_ok_simps(1)])
    then show ?thesis using X by auto
  qed
  obtain res where r: "ofold ?f ((r, 0) # ps) [] = Some res" "\<forall>s \<in> set res. stack_ok rules s"
    using ofold_stacks_total[of "(r, 0) # ps" ?f "stack_ok rules" "[]"] step ps(2) by (metis Diff_empty empty_set)
  have "res \<noteq> []" using ofold_collect[of "(r, 0) # ps" ?f "\<lambda>_. True", OF _ r(1)] step ps(2) by (metis list.distinct(1) option.inject)
  moreover have i: "initial_stacks rules r = Some res" using ps(1) r(1) by (simp add: initial_stacks_def)
  ultimately show ?thesis using initial_words[OF i] r(2) by (auto simp: stacks_ok_def)
qed

end
