(* ===== verification/Grammar_Check.thy ===== *)
theory Grammar_Check
  imports Grammar_Term
begin

text \<open>
  What the left recursion check of \<open>llama_grammar_init_impl\<close> establishes: it always returns,
  and on a grammar in which every rule that derives the empty word has an empty alternate it
  finds left recursion exactly if there is some.
\<close>

section \<open>Left edges of a rule\<close>

text \<open>Offset \<open>i\<close> of rule \<open>r\<close> is reached without reading a character.\<close>

definition led :: "llama_grammar_rules \<Rightarrow> nat \<Rightarrow> nat \<Rightarrow> bool" where
  "led rules r i \<longleftrightarrow> (\<exists>subs a. alternates rules (r, 0) = Some subs \<and> a \<in> set subs \<and> leads rules a (r, i))"

definition nullable :: "llama_grammar_rules \<Rightarrow> nat \<Rightarrow> bool" where
  "nullable rules r \<longleftrightarrow> [] \<in> grammar_words rules r"

definition empties_visible :: "llama_grammar_rules \<Rightarrow> bool" where
  "empties_visible rules \<longleftrightarrow> (\<forall>r < length rules. nullable rules r \<longrightarrow> has_empty_alternate True (rules ! r))"

lemma wf_end_last:
  assumes "wf_rules rules" "gelem rules p = Some e" "ge_type e = GRETYPE_END"
  shows "snd p = length (rules ! fst p) - 1"
proof -
  have p: "fst p < length rules" "snd p < length (rules ! fst p)" "rules ! fst p ! snd p = e" using assms(2) by (auto simp: gelem_Some)
  have "wf_rule (length rules) (rules ! fst p)" using assms(1) p(1) by (simp add: wf_rules_def)
  from spec[OF conjunct2[OF conjunct2[OF this[unfolded wf_rule_def]]], of "snd p"] p assms(3) show ?thesis by simp
qed

lemma alternates_starts:
  "alternates rules p = Some ps \<Longrightarrow> q \<in> set ps \<Longrightarrow>
    q = p \<or> fst q = fst p \<and> (\<exists>j e. snd q = Suc j \<and> gelem rules (fst p, j) = Some e \<and> ge_type e = GRETYPE_ALT)"
proof (induction rules p arbitrary: ps rule: alternates.induct)
  case (1 rules p)
  from 1(2) obtain s e where s: "scan_end rules p = Some s" "gelem rules s = Some e"
    by (subst (asm) alternates.simps) (auto split: option.splits)
  note fs = scan_end_Some[OF s(1)]
  show ?case
  proof (cases "ge_type e = GRETYPE_ALT")
    case True
    with 1(2) s obtain qs where qs: "alternates rules (gnext s 1) = Some qs" "ps = p # qs"
      by (subst (asm) alternates.simps) (auto split: option.splits)
    have "q = p \<or> q = gnext s 1 \<or> fst q = fst p \<and> (\<exists>j e. snd q = Suc j \<and> gelem rules (fst p, j) = Some e \<and> ge_type e = GRETYPE_ALT)"
      using 1(1)[OF s True qs(1)] 1(3) qs(2) fs by (auto simp: gnext_def)
    moreover have "gelem rules (fst p, snd s) = Some e" using s(2) fs by (cases s) auto
    ultimately show ?thesis using True fs by (auto simp: gnext_def)
  next
    case False
    have "alternates rules p = Some [p]" using False s by (subst alternates.simps) simp
    then show ?thesis using 1(2,3) by simp
  qed
qed

lemma leads_fst: "leads rules a p \<Longrightarrow> fst p = fst a"
  by (induction rule: leads.induct) (auto simp: gnext_def)

lemma led_I: "alternates rules (r, 0) = Some subs \<Longrightarrow> a \<in> set subs \<Longrightarrow> leads rules a p \<Longrightarrow> p = (r, i) \<Longrightarrow> led rules r i"
  unfolding led_def by blast

lemma led_cases:
  assumes "led rules r i"
  shows "i = 0 \<or> (\<exists>j e. i = Suc j \<and> gelem rules (r, j) = Some e \<and>
    (ge_type e = GRETYPE_ALT \<or> led rules r j \<and> ge_type e = GRETYPE_RULE_REF \<and> nullable rules (ge_value e)))"
proof -
  from assms obtain subs a where a: "alternates rules (r, 0) = Some subs" "a \<in> set subs" "leads rules a (r, i)" unfolding led_def by blast
  from a(3) show ?thesis
  proof cases
    case leads_refl
    then show ?thesis using alternates_starts[OF a(1,2)] by auto
  next
    case (leads_skip p e subs' b)
    have p: "p = (r, snd p)" "i = Suc (snd p)" using leads_skip(1) by (auto simp: gnext_def prod_eq_iff)
    have "led rules r (snd p)" by (rule led_I[OF a(1,2) leads_skip(2) p(1)])
    moreover have "nullable rules (ge_value e)" unfolding nullable_def grammar_words_def using leads_skip(5-7) by blast
    moreover have "gelem rules (r, snd p) = Some e" using leads_skip(3) p(1) by simp
    ultimately show ?thesis using leads_skip(4) p(2) by blast
  qed
qed

lemma led_skip:
  assumes "led rules r i" "gelem rules (r, i) = Some e" "ge_type e = GRETYPE_RULE_REF" "nullable rules (ge_value e)"
  shows "led rules r (Suc i)"
proof -
  from assms(1) obtain subs a where a: "alternates rules (r, 0) = Some subs" "a \<in> set subs" "leads rules a (r, i)" unfolding led_def by blast
  obtain subs' b where b: "alternates rules (ge_value e, 0) = Some subs'" "b \<in> set subs'" "gen rules b []"
    using assms(4) unfolding nullable_def grammar_words_def by blast
  show ?thesis by (rule led_I[OF a(1,2) leads_skip[OF a(3) assms(2,3) b]]) (simp add: gnext_def)
qed

lemma left_edge_led: "left_edge rules s r \<longleftrightarrow> (\<exists>i e. led rules r i \<and> gelem rules (r, i) = Some e \<and> ge_type e = GRETYPE_RULE_REF \<and> ge_value e = s)"
proof
  assume "left_edge rules s r"
  then obtain subs a p e where p: "alternates rules (r, 0) = Some subs" "a \<in> set subs" "leads rules a p" "gelem rules p = Some e"
    "ge_type e = GRETYPE_RULE_REF" "ge_value e = s" unfolding left_edge_def by blast
  have "fst p = r" using leads_fst[OF p(3)] alternates_starts[OF p(1,2)] by auto
  then have "p = (r, snd p)" by (cases p) simp
  then show "\<exists>i e. led rules r i \<and> gelem rules (r, i) = Some e \<and> ge_type e = GRETYPE_RULE_REF \<and> ge_value e = s"
    using led_I[OF p(1-3)] p(4-6) by metis
qed (auto simp only: left_edge_def led_def)

text \<open>Every alternative bar of a rule begins an alternate.\<close>

lemma scan_end_first: "scan_end rules p = Some s \<Longrightarrow> snd p \<le> j \<Longrightarrow> j < snd s \<Longrightarrow> gelem rules (fst p, j) = Some e \<Longrightarrow> \<not> is_end_of_sequence e"
proof (induction rules p rule: scan_end.induct)
  case (1 rules p)
  show ?case
  proof (cases "j = snd p")
    case True
    then show ?thesis using 1(2,4,5) by (subst (asm) scan_end.simps) (auto split: if_splits)
  next
    case False
    obtain e0 where e0: "gelem rules p = Some e0" "\<not> is_end_of_sequence e0" "scan_end rules (gnext p 1) = Some s"
      using 1(2,3,4) False by (subst (asm) scan_end.simps) (auto split: option.splits if_splits)
    show ?thesis by (rule 1(1)[OF e0]) (use 1(3-5) False in \<open>auto simp: gnext_def\<close>)
  qed
qed

lemma alternates_complete:
  assumes wf: "wf_rules rules" and "alternates rules p = Some ps" "snd p \<le> j" "gelem rules (fst p, j) = Some e" "ge_type e = GRETYPE_ALT"
  shows "(fst p, Suc j) \<in> set ps"
  using assms(2-)
proof (induction "length (rules ! fst p) - snd p" arbitrary: p ps rule: less_induct)
  case less
  obtain s e' where s: "scan_end rules p = Some s" "gelem rules s = Some e'"
    using less(2) by (subst (asm) alternates.simps) (auto split: option.splits)
  have fs: "fst s = fst p" "snd p \<le> snd s" using scan_end_Some[OF s(1)] by auto
  have js: "snd s \<le> j" using scan_end_first[OF s(1) less(3) _ less(4)] less(5) by (fastforce simp: is_end_iff)
  have r: "rules ! fst p ! snd s = e'" "snd s < length (rules ! fst p)" "rules ! fst p ! j = e" "j < length (rules ! fst p)" "fst p < length rules"
    using s(2) less(4) fs by (auto simp: gelem_Some)
  have alt: "ge_type e' = GRETYPE_ALT"
    using wf_end_last[OF wf s(2)] r js fs scan_end_Some[OF s(1)] s(2) less(5) by (cases "snd s = j") (auto simp: is_end_iff)
  then obtain qs where qs: "alternates rules (gnext s 1) = Some qs" "ps = p # qs"
    using less(2) s by (subst (asm) alternates.simps) (auto split: option.splits)
  show ?case
  proof (cases "snd s = j")
    case True
    have "sym_pos rules (gnext s 1)" by (rule sym_pos_next[OF wf s(2)]) (simp add: alt)
    then have "gnext s 1 \<in> set qs" using alternates_total[OF wf] qs(1) by fastforce
    then show ?thesis using qs(2) fs True by (simp add: gnext_def)
  next
    case False
    have "(fst (gnext s 1), Suc j) \<in> set qs"
      by (rule less(1)[OF _ qs(1)]) (use fs js r False less(4,5) in \<open>auto simp: gnext_def\<close>)
    then show ?thesis using qs(2) fs by (simp add: gnext_def)
  qed
qed

lemma led_start:
  assumes "wf_rules rules" "r < length rules"
  shows "led rules r 0"
proof -
  obtain ps where "alternates rules (r, 0) = Some ((r, 0) # ps)" using alternates_total[OF assms(1) rule_start[OF assms]] by blast
  then show ?thesis using led_I[OF _ _ leads_refl] by auto
qed

lemma led_alt:
  assumes "wf_rules rules" "gelem rules (r, j) = Some e" "ge_type e = GRETYPE_ALT"
  shows "led rules r (Suc j)"
proof -
  have "r < length rules" using assms(2) by (auto simp: gelem_Some)
  then obtain ps where ps: "alternates rules (r, 0) = Some ps" using alternates_total[OF assms(1) rule_start[OF assms(1)]] by blast
  then have "(r, Suc j) \<in> set ps" using alternates_complete[OF assms(1) ps _ _ assms(3), of j] assms(2) by simp
  then show ?thesis using led_I[OF ps _ leads_refl] by blast
qed

text \<open>An empty alternate makes the rule derive the empty word.\<close>

lemma has_empty_alternate_nth:
  "has_empty_alternate b es \<Longrightarrow> \<exists>i < length es. is_end_of_sequence (es ! i) \<and> (if i = 0 then b else is_end_of_sequence (es ! (i - 1)))"
proof (induction b es rule: has_empty_alternate.induct)
  case (2 b e es)
  show ?case
  proof (cases "is_end_of_sequence e \<and> b")
    case True
    then show ?thesis by (intro exI[of _ 0]) simp
  next
    case False
    then have "\<exists>i < length es. is_end_of_sequence (es ! i) \<and> (if i = 0 then is_end_of_sequence e else is_end_of_sequence (es ! (i - 1)))"
    proof (cases "is_end_of_sequence e")
      case True
      with False 2(3) have "\<not> b" "has_empty_alternate True es" by auto
      from 2(1)[OF True this] show ?thesis by (simp only: True)
    next
      case ne: False
      with 2(3) have "has_empty_alternate False es" by simp
      from 2(2)[OF ne this] show ?thesis by (simp only: ne)
    qed
    then obtain i where "i < length es" "is_end_of_sequence (es ! i)" "if i = 0 then is_end_of_sequence e else is_end_of_sequence (es ! (i - 1))" by blast
    then show ?thesis by (intro exI[of _ "Suc i"]) (cases i; simp)
  qed
qed simp

lemma has_empty_nullable:
  assumes wf: "wf_rules rules" and r: "r < length rules" and h: "has_empty_alternate True (rules ! r)"
  shows "nullable rules r"
proof -
  obtain ps where ps: "alternates rules (r, 0) = Some ((r, 0) # ps)" using alternates_total[OF wf rule_start[OF wf r]] by blast
  obtain i where i: "i < length (rules ! r)" "is_end_of_sequence (rules ! r ! i)" "i \<noteq> 0 \<Longrightarrow> is_end_of_sequence (rules ! r ! (i - 1))"
    using has_empty_alternate_nth[OF h] by (auto split: if_splits)
  have "(r, i) \<in> set ((r, 0) # ps)"
  proof (cases i)
    case (Suc j)
    have "ge_type (rules ! r ! j) \<noteq> GRETYPE_END" using wf_end_last[OF wf, of "(r, j)"] i(1) r Suc by (auto simp: gelem_Some)
    then have "ge_type (rules ! r ! j) = GRETYPE_ALT" using i Suc by (auto simp: is_end_iff)
    then show ?thesis using alternates_complete[OF wf ps, of j "rules ! r ! j"] i(1) r Suc by (simp add: gelem_Some)
  qed simp
  moreover have "gen rules (r, i) []" by (rule gen_end[OF _ i(2)]) (use r i(1) in \<open>simp add: gelem_Some\<close>)
  ultimately show ?thesis unfolding nullable_def grammar_words_def using ps by blast
qed

lemma ofold_stop: "(\<And>x. x \<in> set xs \<Longrightarrow> f x s = Some s) \<Longrightarrow> ofold f xs s = Some s"
  by (induction xs) auto

section \<open>The vectors of the search\<close>

definition lr_sized :: "llama_grammar_rules \<Rightarrow> lr_state \<Rightarrow> bool" where
  "lr_sized rules st \<longleftrightarrow> length (lr_visited st) = length rules \<and> length (lr_in_progress st) = length rules \<and> length (lr_may_be_empty st) = length rules"

text \<open>The body of the second loop.\<close>

definition lr_step :: "(nat \<Rightarrow> lr_state \<Rightarrow> (bool \<times> lr_state) option) \<Rightarrow> llama_grammar_element \<Rightarrow> bool \<times> bool \<times> lr_state \<Rightarrow> (bool \<times> bool \<times> lr_state) option" where
  "lr_step d e = (\<lambda>(found, recurse, st).
     if found then Some (found, recurse, st)
     else if ge_type e = GRETYPE_RULE_REF \<and> recurse then do {
       (b, st) \<leftarrow> d (ge_value e) st;
       if b then Some (True, recurse, st)
       else do { m \<leftarrow> vget (lr_may_be_empty st) (ge_value e); Some (False, m, st) } }
     else Some (False, is_end_of_sequence e, st))"

text \<open>The vectors when the loop starts, and when a rule is done.\<close>

definition lr_enter :: "llama_grammar_rules \<Rightarrow> nat \<Rightarrow> lr_state \<Rightarrow> lr_state" where
  "lr_enter rules r st = st\<lparr>lr_in_progress := (lr_in_progress st)[r := True],
     lr_may_be_empty := (if has_empty_alternate True (rules ! r) then (lr_may_be_empty st)[r := True] else lr_may_be_empty st)\<rparr>"

definition lr_leave :: "nat \<Rightarrow> lr_state \<Rightarrow> lr_state" where
  "lr_leave r st = st\<lparr>lr_in_progress := (lr_in_progress st)[r := False], lr_visited := (lr_visited st)[r := True]\<rparr>"

definition lr_body :: "llama_grammar_rules \<Rightarrow> (nat \<Rightarrow> lr_state \<Rightarrow> (bool \<times> lr_state) option) \<Rightarrow> nat \<Rightarrow> lr_state \<Rightarrow> (bool \<times> lr_state) option" where
  "lr_body rules d r st = do {
     (found, _, st) \<leftarrow> ofold (lr_step d) (rules ! r) (False, True, lr_enter rules r st);
     if found then Some (True, st)
     else do {
       ip \<leftarrow> vset (lr_in_progress st) r False;
       vs \<leftarrow> vset (lr_visited st) r True;
       Some (False, st\<lparr>lr_in_progress := ip, lr_visited := vs\<rparr>) } }"

lemma detect_unfold:
  assumes "r < length rules" "lr_sized rules st"
  shows "llama_grammar_detect_left_recursion rules r st =
    (if lr_in_progress st ! r then Some (True, st) else lr_body rules (llama_grammar_detect_left_recursion rules) r st)"
  using assms
  by (subst llama_grammar_detect_left_recursion.simps) (simp add: lr_body_def lr_step_def[abs_def] lr_enter_def lr_sized_def)

section \<open>The search\<close>

definition lr_inv :: "llama_grammar_rules \<Rightarrow> lr_state \<Rightarrow> bool" where
  "lr_inv rules st \<longleftrightarrow> lr_sized rules st \<and> (\<forall>i < length rules. lr_may_be_empty st ! i \<longrightarrow> nullable rules i) \<and>
     (empties_visible rules \<longrightarrow> (\<forall>i < length rules. lr_visited st ! i \<longrightarrow> grounded rules i))"

definition cyclic :: "llama_grammar_rules \<Rightarrow> bool" where
  "cyclic rules \<longleftrightarrow> (\<exists>q < length rules. (left_edge rules)\<^sup>+\<^sup>+ q q)"

definition lr_mono :: "llama_grammar_rules \<Rightarrow> lr_state \<Rightarrow> lr_state \<Rightarrow> bool" where
  "lr_mono rules st st' \<longleftrightarrow> (\<forall>i < length rules. lr_may_be_empty st ! i \<longrightarrow> lr_may_be_empty st' ! i)"

text \<open>All rules in progress have \<open>r\<close> at their left edge.\<close>

definition below_all :: "llama_grammar_rules \<Rightarrow> bool list \<Rightarrow> nat \<Rightarrow> bool" where
  "below_all rules ip r \<longleftrightarrow> (\<forall>p < length rules. ip ! p \<longrightarrow> (left_edge rules)\<^sup>+\<^sup>+ r p)"

definition lr_post :: "llama_grammar_rules \<Rightarrow> nat \<Rightarrow> lr_state \<Rightarrow> bool \<Rightarrow> lr_state \<Rightarrow> bool" where
  "lr_post rules r st b st' \<longleftrightarrow> lr_inv rules st' \<and> lr_mono rules st st' \<and>
     (if b then below_all rules (lr_in_progress st) r \<longrightarrow> cyclic rules
      else lr_in_progress st' = lr_in_progress st \<and> (has_empty_alternate True (rules ! r) \<longrightarrow> lr_may_be_empty st' ! r) \<and>
        (empties_visible rules \<longrightarrow> grounded rules r))"

lemma lr_mono_trans: "lr_mono rules a b \<Longrightarrow> lr_mono rules b c \<Longrightarrow> lr_mono rules a c"
  by (simp add: lr_mono_def)

text \<open>The references at the left edge from offset \<open>i\<close> on are grounded.\<close>

definition edges_grounded :: "llama_grammar_rules \<Rightarrow> nat \<Rightarrow> nat \<Rightarrow> bool" where
  "edges_grounded rules r i \<longleftrightarrow> (\<forall>j e. i \<le> j \<longrightarrow> gelem rules (r, j) = Some e \<longrightarrow> ge_type e = GRETYPE_RULE_REF \<longrightarrow> led rules r j \<longrightarrow>
     grounded rules (ge_value e))"

lemma edges_grounded_Suc:
  "edges_grounded rules r (Suc i) \<Longrightarrow>
    (\<And>e. gelem rules (r, i) = Some e \<Longrightarrow> ge_type e = GRETYPE_RULE_REF \<Longrightarrow> led rules r i \<Longrightarrow> grounded rules (ge_value e)) \<Longrightarrow> edges_grounded rules r i"
  unfolding edges_grounded_def by (metis Suc_leI le_neq_implies_less)

lemma edges_grounded_grounded: "edges_grounded rules r 0 \<Longrightarrow> grounded rules r"
  by (rule accp.intros) (auto simp: edges_grounded_def left_edge_led)

definition loop_post :: "llama_grammar_rules \<Rightarrow> nat \<Rightarrow> nat \<Rightarrow> bool list \<Rightarrow> lr_state \<Rightarrow> bool \<times> bool \<times> lr_state \<Rightarrow> bool" where
  "loop_post rules r i ip st = (\<lambda>(found, _, st'). lr_inv rules st' \<and> lr_mono rules st st' \<and>
     (if found then (\<forall>s. left_edge rules s r \<longrightarrow> below_all rules ip s) \<longrightarrow> cyclic rules
      else lr_in_progress st' = ip \<and> (empties_visible rules \<longrightarrow> edges_grounded rules r i)))"

text \<open>The flag of the loop at offset \<open>i\<close>: the offset is reached without reading a character.\<close>

definition flag_ok :: "llama_grammar_rules \<Rightarrow> nat \<Rightarrow> nat \<Rightarrow> bool \<Rightarrow> bool" where
  "flag_ok rules r i recurse \<longleftrightarrow> (i < length (rules ! r) \<longrightarrow> recurse \<longrightarrow> led rules r i) \<and> (empties_visible rules \<longrightarrow> led rules r i \<longrightarrow> recurse)"

lemma flag_ok_next:
  assumes wf: "wf_rules rules" and e: "gelem rules (r, i) = Some e" and fl: "flag_ok rules r i recurse"
    and nr: "\<not> (ge_type e = GRETYPE_RULE_REF \<and> recurse)"
  shows "flag_ok rules r (Suc i) (is_end_of_sequence e)"
proof -
  have "led rules r (Suc i)" if "Suc i < length (rules ! r)" "is_end_of_sequence e"
    using led_alt[OF wf e] wf_end_last[OF wf e] that by (auto simp: is_end_iff)
  moreover have "is_end_of_sequence e" if "empties_visible rules" "led rules r (Suc i)"
    using led_cases[OF that(2)] e fl nr that(1) by (auto simp: flag_ok_def is_end_iff)
  ultimately show ?thesis by (simp add: flag_ok_def)
qed

lemma flag_ok_ref:
  assumes e: "gelem rules (r, i) = Some e" "ge_type e = GRETYPE_RULE_REF" and v: "ge_value e < length rules"
    and l: "led rules r i" and st: "lr_inv rules st'" "has_empty_alternate True (rules ! ge_value e) \<longrightarrow> lr_may_be_empty st' ! ge_value e"
  shows "flag_ok rules r (Suc i) (lr_may_be_empty st' ! ge_value e)"
proof -
  have "led rules r (Suc i)" if "lr_may_be_empty st' ! ge_value e"
    using led_skip[OF l e] that st(1) v by (simp add: lr_inv_def)
  moreover have "lr_may_be_empty st' ! ge_value e" if "empties_visible rules" "led rules r (Suc i)"
    using led_cases[OF that(2)] e st(2) that(1) v by (auto simp: empties_visible_def)
  ultimately show ?thesis by (simp add: flag_ok_def)
qed

lemma lr_loop:
  assumes wf: "wf_rules rules" and r: "r < length rules"
    and d: "\<And>s st. s < length rules \<Longrightarrow> lr_inv rules st \<Longrightarrow> lr_in_progress st = ip \<Longrightarrow> \<exists>b st'. d s st = Some (b, st') \<and> lr_post rules s st b st'"
  shows "i \<le> length (rules ! r) \<Longrightarrow> lr_inv rules st \<Longrightarrow> lr_in_progress st = ip \<Longrightarrow> flag_ok rules r i recurse \<Longrightarrow>
    \<exists>res. ofold (lr_step d) (drop i (rules ! r)) (False, recurse, st) = Some res \<and> loop_post rules r i ip st res"
proof (induction "length (rules ! r) - i" arbitrary: i st recurse)
  case 0
  then have "gelem rules (r, j) = None" if "i \<le> j" for j using that r by (simp add: gelem_def vget_def)
  then show ?case using 0 by (auto simp: loop_post_def lr_mono_def edges_grounded_def)
next
  case (Suc n)
  have i: "i < length (rules ! r)" and n: "n = length (rules ! r) - Suc i" using Suc(2) by simp_all
  define e where "e = rules ! r ! i"
  have e: "gelem rules (r, i) = Some e" using i r by (simp add: gelem_Some e_def)
  have dr: "drop i (rules ! r) = e # drop (Suc i) (rules ! r)" using i by (simp add: Cons_nth_drop_Suc e_def)
  show ?case
  proof (cases "ge_type e = GRETYPE_RULE_REF \<and> recurse")
    case False
    obtain res where res: "ofold (lr_step d) (drop (Suc i) (rules ! r)) (False, is_end_of_sequence e, st) = Some res" "loop_post rules r (Suc i) ip st res"
      using Suc(1)[OF n _ Suc(4,5) flag_ok_next[OF wf e Suc(6) False]] i by (meson Suc_leI)
    have "loop_post rules r i ip st res"
      using res(2) edges_grounded_Suc[of rules r i] Suc(6) e False by (auto simp: loop_post_def flag_ok_def split: prod.splits if_splits)
    moreover have "lr_step d e (False, recurse, st) = Some (False, is_end_of_sequence e, st)" using False by (auto simp: lr_step_def)
    ultimately show ?thesis using res(1) unfolding dr by (intro exI[of _ res]) simp
  next
    case True
    have l: "led rules r i" using Suc(6) True i by (simp add: flag_ok_def)
    have v: "ge_value e < length rules" using wf e True by (auto simp: wf_rules_def wf_rule_def gelem_Some)
    have edge: "left_edge rules (ge_value e) r" using l e True by (auto simp: left_edge_led)
    obtain b st' where b: "d (ge_value e) st = Some (b, st')" "lr_post rules (ge_value e) st b st'" using d[OF v Suc(4,5)] by blast
    show ?thesis
    proof (cases b)
      case bt: True
      have "ofold (lr_step d) (drop (Suc i) (rules ! r)) (True, recurse, st') = Some (True, recurse, st')"
        by (rule ofold_stop) (simp add: lr_step_def)
      then show ?thesis using b bt True edge Suc(5) by (auto simp: dr lr_step_def lr_post_def loop_post_def)
    next
      case bf: False
      have p: "lr_inv rules st'" "lr_mono rules st st'" "lr_in_progress st' = ip"
        "has_empty_alternate True (rules ! ge_value e) \<longrightarrow> lr_may_be_empty st' ! ge_value e" "empties_visible rules \<longrightarrow> grounded rules (ge_value e)"
        using b(2) bf Suc(5) by (auto simp: lr_post_def)
      have m: "ge_value e < length (lr_may_be_empty st')" using p(1) v by (simp add: lr_inv_def lr_sized_def)
      obtain res where res: "ofold (lr_step d) (drop (Suc i) (rules ! r)) (False, lr_may_be_empty st' ! ge_value e, st') = Some res"
          "loop_post rules r (Suc i) ip st' res"
        using Suc(1)[OF n _ p(1,3) flag_ok_ref[OF e conjunct1[OF True] v l p(1,4)]] i by (meson Suc_leI)
      have "loop_post rules r i ip st res"
        using res(2) edges_grounded_Suc[of rules r i] lr_mono_trans[OF p(2)] e p(5) by (auto simp: loop_post_def split: prod.splits if_splits)
      moreover have "lr_step d e (False, recurse, st) = Some (False, lr_may_be_empty st' ! ge_value e, st')"
        using b(1) bf True m by (simp add: lr_step_def)
      ultimately show ?thesis using res(1) unfolding dr by (intro exI[of _ res]) simp
    qed
  qed
qed

text \<open>The recursion ends: a rule is entered only if it is not in progress.\<close>

definition lr_open :: "lr_state \<Rightarrow> nat" where
  "lr_open st = length (filter Not (lr_in_progress st))"

lemma filter_Not_update: "r < length bs \<Longrightarrow> \<not> bs ! r \<Longrightarrow> length (filter Not (bs[r := True])) < length (filter Not bs)"
proof (induction bs arbitrary: r)
  case (Cons b bs)
  then show ?case by (cases r) auto
qed simp

lemma lr_enter_inv:
  assumes "wf_rules rules" "r < length rules" "lr_inv rules st"
  shows "lr_inv rules (lr_enter rules r st)" "lr_mono rules st (lr_enter rules r st)"
    "has_empty_alternate True (rules ! r) \<Longrightarrow> lr_may_be_empty (lr_enter rules r st) ! r"
    "lr_in_progress (lr_enter rules r st) = (lr_in_progress st)[r := True]"
  using assms has_empty_nullable[OF assms(1,2)]
  by (auto simp: lr_enter_def lr_inv_def lr_sized_def lr_mono_def nth_list_update)

lemma below_all_enter:
  assumes "below_all rules ip r" "left_edge rules s r" "r < length rules" "length ip = length rules"
  shows "below_all rules (ip[r := True]) s"
  using assms by (auto simp: below_all_def nth_list_update intro: tranclp_into_tranclp2)

lemma lr_leave_post:
  assumes "r < length rules" "lr_inv rules st'" "lr_mono rules (lr_enter rules r st) st'" "lr_mono rules st (lr_enter rules r st)"
    "lr_in_progress st' = (lr_in_progress st)[r := True]" "\<not> lr_in_progress st ! r" "length (lr_in_progress st) = length rules"
    "empties_visible rules \<longrightarrow> grounded rules r" "has_empty_alternate True (rules ! r) \<longrightarrow> lr_may_be_empty (lr_enter rules r st) ! r"
  shows "lr_post rules r st False (lr_leave r st')"
proof -
  have "lr_inv rules (lr_leave r st')" using assms(1,2,8) by (auto simp: lr_inv_def lr_sized_def lr_leave_def nth_list_update)
  moreover have "lr_in_progress (lr_leave r st') = lr_in_progress st"
    using assms(5,6) by (auto simp: lr_leave_def list_update_overwrite) (metis list_update_id)
  moreover have "lr_mono rules st (lr_leave r st')" "has_empty_alternate True (rules ! r) \<longrightarrow> lr_may_be_empty (lr_leave r st') ! r"
    using assms(1,3,4,9) by (auto simp: lr_mono_def lr_leave_def)
  ultimately show ?thesis using assms(8) by (simp add: lr_post_def)
qed

lemma detect_post:
  assumes wf: "wf_rules rules"
  shows "r < length rules \<Longrightarrow> lr_inv rules st \<Longrightarrow>
    \<exists>b st'. llama_grammar_detect_left_recursion rules r st = Some (b, st') \<and> lr_post rules r st b st'"
proof (induction "lr_open st" arbitrary: r st rule: less_induct)
  case less
  let ?d = "llama_grammar_detect_left_recursion rules"
  let ?st = "lr_enter rules r st"
  let ?ip = "(lr_in_progress st)[r := True]"
  have sz: "lr_sized rules st" "length (lr_in_progress st) = length rules" using less(3) by (auto simp: lr_inv_def lr_sized_def)
  note en = lr_enter_inv[OF wf less(2,3)]
  show ?case
  proof (cases "lr_in_progress st ! r")
    case True
    then have "lr_post rules r st True st" using less(2,3) by (auto simp: lr_post_def lr_mono_def below_all_def cyclic_def)
    then show ?thesis using detect_unfold[OF less(2) sz(1)] True by auto
  next
    case False
    have sm: "lr_open st1 < lr_open st" if "lr_in_progress st1 = ?ip" for st1
      using filter_Not_update[of r "lr_in_progress st"] False less(2) sz(2) that by (simp add: lr_open_def)
    have d: "\<exists>b st'. ?d s st1 = Some (b, st') \<and> lr_post rules s st1 b st'" if "s < length rules" "lr_inv rules st1" "lr_in_progress st1 = ?ip" for s st1
      by (rule less(1)[OF sm[OF that(3)] that(1,2)])
    have "flag_ok rules r 0 True" using led_start[OF wf less(2)] by (simp add: flag_ok_def)
    then obtain found rc st' where l: "ofold (lr_step ?d) (rules ! r) (False, True, ?st) = Some (found, rc, st')" "loop_post rules r 0 ?ip ?st (found, rc, st')"
      using lr_loop[OF wf less(2) d, where i = 0 and st = ?st and recurse = True] en(1,4) by auto
    have inv: "lr_inv rules st'" "lr_mono rules ?st st'" using l(2) by (auto simp: loop_post_def)
    show ?thesis
    proof (cases found)
      case True
      have "lr_post rules r st True st'"
        using l(2) True inv lr_mono_trans[OF en(2)] below_all_enter[OF _ _ less(2) sz(2)] by (auto simp: lr_post_def loop_post_def)
      then show ?thesis using detect_unfold[OF less(2) sz(1)] False l(1) True by (auto simp: lr_body_def)
    next
      case nf: False
      have "lr_post rules r st False (lr_leave r st')"
        using lr_leave_post[OF less(2) inv en(2) _ False sz(2)] l(2) nf edges_grounded_grounded en(3) by (auto simp: loop_post_def)
      moreover have "r < length (lr_in_progress st')" "r < length (lr_visited st')" using inv(1) less(2) by (auto simp: lr_inv_def lr_sized_def)
      ultimately show ?thesis using detect_unfold[OF less(2) sz(1)] False l(1) nf by (auto simp: lr_body_def lr_leave_def)
    qed
  qed
qed

section \<open>The check\<close>

lemma accp_no_cycle: "Wellfounded.accp R x \<Longrightarrow> \<not> R\<^sup>+\<^sup>+ x x"
proof (induction rule: accp_induct_rule[consumes 1, case_names step])
  case (step x)
  show ?case
  proof
    assume "R\<^sup>+\<^sup>+ x x"
    then show False
      by (cases rule: tranclp.cases) (use step(2) tranclp_into_tranclp2[of R] in blast)+
  qed
qed

lemma cyclic_not_grounded: "cyclic rules \<Longrightarrow> \<not> all_grounded rules"
  using accp_no_cycle[of "left_edge rules"] by (auto simp: cyclic_def all_grounded_def)

lemma check_post:
  assumes wf: "wf_rules rules"
  shows "\<exists>b. check_left_recursion rules = Some b \<and> (if b then cyclic rules else empties_visible rules \<longrightarrow> all_grounded rules)"
proof -
  let ?n = "length rules"
  let ?P = "\<lambda>k (found, st). if found then cyclic rules
    else lr_inv rules st \<and> lr_in_progress st = replicate ?n False \<and> (empties_visible rules \<longrightarrow> (\<forall>i < k. grounded rules i))"
  let ?f = "\<lambda>i (found, st). if found then Some (found, st)
         else do {
           v \<leftarrow> vget (lr_visited st) i;
           if v then Some (False, st) else llama_grammar_detect_left_recursion rules i st }"
  let ?st = "\<lparr>lr_visited = replicate ?n False, lr_in_progress = replicate ?n False, lr_may_be_empty = replicate ?n False\<rparr>"
  have step: "\<exists>t'. ?f i t = Some t' \<and> ?P (Suc i) t'" if i: "i < ?n" and t: "?P i t" for i t
  proof -
    obtain found st where [simp]: "t = (found, st)" by (cases t)
    show ?thesis
    proof (cases found)
      case False
      then have inv: "lr_inv rules st" "lr_in_progress st = replicate ?n False" "empties_visible rules \<longrightarrow> (\<forall>j < i. grounded rules j)" using t by auto
      have v: "i < length (lr_visited st)" "lr_visited st ! i \<Longrightarrow> empties_visible rules \<Longrightarrow> grounded rules i"
        using inv(1) i by (auto simp: lr_inv_def lr_sized_def)
      obtain b st' where b: "llama_grammar_detect_left_recursion rules i st = Some (b, st')" "lr_post rules i st b st'"
        using detect_post[OF wf i inv(1)] by blast
      have "below_all rules (lr_in_progress st) i" using inv(2) by (simp add: below_all_def)
      then have "?P (Suc i) (b, st')" using b(2) inv by (auto simp: lr_post_def less_Suc_eq split: if_splits)
      then show ?thesis using False b(1) inv v by (cases "lr_visited st ! i") (auto simp: less_Suc_eq)
    qed (use t in simp)
  qed
  have "?P 0 (False, ?st)" by (simp add: lr_inv_def lr_sized_def)
  from ofold_upto[where P = ?P and f = ?f and n = ?n, OF this step]
  obtain t where t: "ofold ?f [0..<?n] (False, ?st) = Some t" "?P ?n t" by blast
  obtain found st where [simp]: "t = (found, st)" by (cases t)
  show ?thesis using t by (auto simp: check_left_recursion_def all_grounded_def split: if_splits)
qed

theorem check_returns: "wf_rules rules \<Longrightarrow> \<exists>b. check_left_recursion rules = Some b"
  using check_post by blast

theorem check_exact:
  assumes "wf_rules rules" "empties_visible rules"
  shows "check_left_recursion rules = Some (\<not> all_grounded rules)"
  using check_post[OF assms(1)] assms(2) cyclic_not_grounded by (auto split: if_splits)

end
