(* ===== verification/Grammar_Derives.thy ===== *)
theory Grammar_Derives
  imports Grammar_Lang
begin

text \<open>
  A reference semantics for the rules: derivations of a context-free grammar on lists of elements, without positions. The
  words of the engine are the words of the derivations, and a sequence derives the concatenations of what its parts derive.
\<close>

section \<open>Derivations\<close>

text \<open>The alternates of a rule as lists of elements.\<close>

fun split_alts :: "llama_grammar_rule \<Rightarrow> llama_grammar_rule list" where
  "split_alts [] = [[]]"
| "split_alts (e # es) =
    (if ge_type e = GRETYPE_END then [[]]
     else if ge_type e = GRETYPE_ALT then [] # split_alts es
     else (case split_alts es of [] \<Rightarrow> [[e]] | alt # alts \<Rightarrow> (e # alt) # alts))"

text \<open>The set of characters that the terminal at the front lists, and the elements behind it.\<close>

function char_class :: "llama_grammar_rule \<Rightarrow> nat set \<times> llama_grammar_rule" where
  "char_class [] = ({}, [])"
| "char_class (e # es) =
    (let (C, rest) =
       (if es \<noteq> [] \<and> ge_type (hd es) = GRETYPE_CHAR_RNG_UPPER then ({ge_value e..ge_value (hd es)}, tl es)
        else if ge_type e = GRETYPE_CHAR_ANY then (UNIV, es)
        else ({ge_value e}, es))
     in if rest \<noteq> [] \<and> ge_type (hd rest) = GRETYPE_CHAR_ALT then (C \<union> fst (char_class rest), snd (char_class rest)) else (C, rest))"
  by pat_completeness auto
termination
  by (relation "measure length") (auto split: if_splits)

inductive derives :: "llama_grammar_rules \<Rightarrow> llama_grammar_rule \<Rightarrow> nat list \<Rightarrow> bool" for rules where
  derives_nil: "derives rules [] []"
| derives_char: "char_elem e \<Longrightarrow> char_class (e # es) = (C, rest) \<Longrightarrow> c \<in> (if ge_type e = GRETYPE_CHAR_NOT then - C else C) \<Longrightarrow>
    derives rules rest w \<Longrightarrow> derives rules (e # es) (c # w)"
| derives_ref: "ge_type e = GRETYPE_RULE_REF \<Longrightarrow> ge_value e < length rules \<Longrightarrow> alt \<in> set (split_alts (rules ! ge_value e)) \<Longrightarrow>
    derives rules alt u \<Longrightarrow> derives rules es v \<Longrightarrow> derives rules (e # es) (u @ v)"

definition derived_words :: "llama_grammar_rules \<Rightarrow> nat \<Rightarrow> nat list set" where
  "derived_words rules r = {w. \<exists>alt \<in> set (split_alts (rules ! r)). derives rules alt w}"

inductive_simps derives_nil_iff [simp]: "derives rules [] w"

lemma derives_ref_iff:
  "ge_type e = GRETYPE_RULE_REF \<Longrightarrow> ge_value e < length rules \<Longrightarrow>
    derives rules (e # es) w \<longleftrightarrow> (\<exists>u v. w = u @ v \<and> u \<in> derived_words rules (ge_value e) \<and> derives rules es v)"
  by (subst derives.simps) (auto simp: char_elem_def derived_words_def)

section \<open>Positions and lists\<close>

text \<open>The elements from a position to the end of its rule, and to the end of its sequence.\<close>

definition rest_at :: "llama_grammar_rules \<Rightarrow> gpos \<Rightarrow> llama_grammar_rule" where
  "rest_at rules p = drop (snd p) (rules ! fst p)"

definition seq_at :: "llama_grammar_rules \<Rightarrow> gpos \<Rightarrow> llama_grammar_rule" where
  "seq_at rules p = takeWhile (\<lambda>e. \<not> is_end_of_sequence e) (rest_at rules p)"

lemma rest_at_step: "gelem rules p = Some e \<Longrightarrow> rest_at rules p = e # rest_at rules (gnext p 1)"
  by (auto simp: rest_at_def gelem_Some gnext_def Cons_nth_drop_Suc)

lemma seq_at_step: "gelem rules p = Some e \<Longrightarrow> seq_at rules p = (if is_end_of_sequence e then [] else e # seq_at rules (gnext p 1))"
  by (simp add: seq_at_def rest_at_step)

lemma match_char_loop_class:
  "match_char_loop rules p c found = Some (b, p') \<Longrightarrow> gelem rules p = Some e \<Longrightarrow> \<not> is_end_of_sequence e \<Longrightarrow>
    (b \<longleftrightarrow> found \<or> c \<in> fst (char_class (seq_at rules p))) \<and> seq_at rules p' = snd (char_class (seq_at rules p))"
proof (induction rules p c found arbitrary: e rule: match_char_loop.induct)
  case (1 rules p c found)
  from 1(2,3) obtain e1 where e1: "gelem rules (gnext p 1) = Some e1"
    by (subst (asm) match_char_loop.simps) (auto split: option.splits)
  let ?rng = "ge_type e1 = GRETYPE_CHAR_RNG_UPPER"
  let ?q = "gnext p (if ?rng then 2 else 1)"
  define f where "f = (if ?rng then found \<or> ge_value e \<le> c \<and> c \<le> ge_value e1 else if ge_type e = GRETYPE_CHAR_ANY then True else found \<or> ge_value e = c)"
  define C where "C = (if ?rng then {ge_value e..ge_value e1} else if ge_type e = GRETYPE_CHAR_ANY then UNIV else {ge_value e})"
  have fC: "f \<longleftrightarrow> found \<or> c \<in> C" by (auto simp: f_def C_def)
  have nn: "gnext p 2 = gnext (gnext p 1) 1" by (simp add: gnext_def)
  have step: "match_char_loop rules p c found = (case gelem rules ?q of None \<Rightarrow> None
      | Some e' \<Rightarrow> if ge_type e' = GRETYPE_CHAR_ALT then match_char_loop rules ?q c f else Some (f, ?q))"
    unfolding f_def using 1(3) e1 by (subst match_char_loop.simps) simp
  then obtain e' where e': "gelem rules ?q = Some e'" using 1(2) by (auto split: option.splits)
  have n: "seq_at rules (gnext p 1) = (if is_end_of_sequence e1 then [] else e1 # seq_at rules (gnext p 2))" using seq_at_step[OF e1] by (simp add: nn)
  have s: "seq_at rules p = e # seq_at rules (gnext p 1)" using seq_at_step[OF 1(3)] 1(4) by simp
  have m: "char_class (seq_at rules p) =
      (if seq_at rules ?q \<noteq> [] \<and> ge_type (hd (seq_at rules ?q)) = GRETYPE_CHAR_ALT
       then (C \<union> fst (char_class (seq_at rules ?q)), snd (char_class (seq_at rules ?q))) else (C, seq_at rules ?q))"
    using n by (simp add: s C_def is_end_iff)
  have q: "seq_at rules ?q \<noteq> [] \<and> ge_type (hd (seq_at rules ?q)) = GRETYPE_CHAR_ALT \<longleftrightarrow> ge_type e' = GRETYPE_CHAR_ALT"
    using seq_at_step[OF e'] by (auto simp: is_end_iff)
  show ?case
  proof (cases "ge_type e' = GRETYPE_CHAR_ALT")
    case True
    have "(b \<longleftrightarrow> f \<or> c \<in> fst (char_class (seq_at rules ?q))) \<and> seq_at rules p' = snd (char_class (seq_at rules ?q))"
      using 1(1)[OF refl 1(3) e1, of "(f, ?q)" f ?q e' e'] 1(2) step True e' by (auto simp: f_def is_end_iff)
    then show ?thesis using m q True fC by auto
  next
    case False
    then show ?thesis using m q step e' 1(2) fC by auto
  qed
qed

lemma scan_end_rest: "scan_end rules p = Some q \<Longrightarrow> rest_at rules p = seq_at rules p @ rest_at rules q"
proof (induction rules p rule: scan_end.induct)
  case (1 rules p)
  from 1(2) show ?case
    by (subst (asm) scan_end.simps) (auto split: option.splits if_splits dest: 1(1) simp: rest_at_step seq_at_step)
qed

lemma split_alts_end: "\<forall>e \<in> set es. \<not> is_end_of_sequence e \<Longrightarrow> ge_type e = GRETYPE_END \<Longrightarrow> split_alts (es @ e # tail) = [es]"
  by (induction es) (auto simp: is_end_iff)

lemma split_alts_alt: "\<forall>e \<in> set es. \<not> is_end_of_sequence e \<Longrightarrow> ge_type e = GRETYPE_ALT \<Longrightarrow> split_alts (es @ e # tail) = es # split_alts tail"
  by (induction es) (auto simp: is_end_iff)

lemma seq_at_no_end: "\<forall>e \<in> set (seq_at rules p). \<not> is_end_of_sequence e"
  by (auto simp: seq_at_def dest: set_takeWhileD)

lemma alternates_split: "alternates rules p = Some subs \<Longrightarrow> split_alts (rest_at rules p) = map (seq_at rules) subs"
proof (induction rules p arbitrary: subs rule: alternates.induct)
  case (1 rules p)
  from 1(2) obtain q where q: "scan_end rules p = Some q" by (subst (asm) alternates.simps) (auto split: option.splits)
  then obtain e where e: "gelem rules q = Some e" "is_end_of_sequence e" using scan_end_Some by blast
  note r = scan_end_rest[OF q] rest_at_step[OF e(1)]
  show ?case
  proof (cases "ge_type e = GRETYPE_ALT")
    case True
    then obtain ps where "alternates rules (gnext q 1) = Some ps" "subs = p # ps"
      using 1(2) q e by (subst (asm) alternates.simps) (auto split: option.splits)
    then show ?thesis using 1(1)[OF q e(1) True] split_alts_alt[OF seq_at_no_end True] r by simp
  next
    case False
    then have "ge_type e = GRETYPE_END" "subs = [p]" using 1(2) q e by (subst (asm) alternates.simps, auto simp: is_end_iff)+
    then show ?thesis using split_alts_end[OF seq_at_no_end] r by simp
  qed
qed

section \<open>The words of the engine are derived\<close>

lemma gen_derives: "gen rules p w \<Longrightarrow> derives rules (seq_at rules p) w"
proof (induction rule: gen.induct)
  case (gen_end p e)
  then show ?case by (simp add: seq_at_step)
next
  case (gen_char p e c p' w)
  then have ne: "\<not> is_end_of_sequence e" by (auto simp: char_elem_def is_end_iff)
  from gen_char have "match_char_loop rules p c False = Some (is_positive_char e, p')"
    by (auto simp: llama_grammar_match_char_def bind_Some_iff split: if_splits)
  note cl = match_char_loop_class[OF this gen_char(1) ne]
  have s: "seq_at rules p = e # seq_at rules (gnext p 1)" using seq_at_step[OF gen_char(1)] ne by simp
  show ?case unfolding s
    by (rule derives_char[OF gen_char(2) prod.collapse[symmetric]])
      (use cl gen_char(2,5) s in \<open>auto simp: char_elem_def is_positive_char_def simp del: char_class.simps\<close>)
next
  case (gen_ref p e subs a u v)
  have "\<not> is_end_of_sequence e" using gen_ref(2) by (simp add: is_end_iff)
  moreover have "ge_value e < length rules"
  proof -
    obtain q where "scan_end rules (ge_value e, 0) = Some q" using gen_ref(3) by (subst (asm) alternates.simps) (auto split: option.splits)
    then show ?thesis using scan_end_Some by (fastforce simp: gelem_Some)
  qed
  moreover have "seq_at rules a \<in> set (split_alts (rules ! ge_value e))"
    using alternates_split[OF gen_ref(3)] gen_ref(4) by (simp add: rest_at_def)
  ultimately show ?case using derives_ref[OF gen_ref(2)] gen_ref(7,8) seq_at_step[OF gen_ref(1)] by simp
qed

lemma derives_gen:
  assumes "wf_rules rules"
  shows "derives rules es w \<Longrightarrow> seq_at rules p = es \<Longrightarrow> gelem rules p = Some x \<Longrightarrow> gen rules p w"
proof (induction arbitrary: p x rule: derives.induct)
  case derives_nil
  then show ?case using gen_end seq_at_step by (metis list.distinct(1))
next
  case (derives_char e es C rest c w)
  have x: "x = e" "\<not> is_end_of_sequence e" using derives_char(6) seq_at_step[OF derives_char(7)] by (auto split: if_splits)
  obtain p' b where p': "sym_pos rules p'" "llama_grammar_match_char rules p c = Some (b, p')"
    using match_char_total[OF assms derives_char(7)] derives_char(1) x by metis
  then obtain f where f: "match_char_loop rules p c False = Some (f, p')" "b \<longleftrightarrow> f = is_positive_char e"
    using derives_char(7) x by (auto simp: llama_grammar_match_char_def bind_Some_iff split: if_splits)
  have "f \<longleftrightarrow> c \<in> C" "seq_at rules p' = rest"
    using match_char_loop_class[OF f(1) derives_char(7)] x derives_char(2,6) by auto
  then have "f = is_positive_char e" "seq_at rules p' = rest"
    using derives_char(1,3) by (auto simp: char_elem_def is_positive_char_def split: if_splits)
  moreover obtain y where "gelem rules p' = Some y" using p'(1) by (auto simp: sym_pos_def)
  ultimately show ?case using gen_char[OF derives_char(7)] derives_char(1,5) x p'(2) f(2) by simp
next
  case (derives_ref e alt u es v)
  have x: "x = e" "seq_at rules (gnext p 1) = es" using derives_ref(8) seq_at_step[OF derives_ref(9)] by (auto split: if_splits)
  obtain y where y: "gelem rules (gnext p 1) = Some y" using next_exists[OF assms derives_ref(9)] x derives_ref(1) by auto
  obtain ps where ps: "alternates rules (ge_value e, 0) = Some ps" "\<forall>q \<in> set ps. sym_pos rules q"
    using alternates_total[OF assms rule_start[OF assms derives_ref(2)]] by auto
  obtain a where a: "a \<in> set ps" "seq_at rules a = alt" using alternates_split[OF ps(1)] derives_ref(3) by (auto simp: rest_at_def)
  then obtain z where "gelem rules a = Some z" using ps(2) by (auto simp: sym_pos_def)
  then have "gen rules a u" using derives_ref(6)[OF a(2)] by simp
  then show ?case using gen_ref[OF derives_ref(9)] x derives_ref(1) ps(1) a(1) derives_ref(7)[OF x(2) y] by simp
qed

lemma grammar_words_derived:
  assumes "wf_rules rules" "r < length rules"
  shows "grammar_words rules r = derived_words rules r"
proof -
  obtain ps where ps: "alternates rules (r, 0) = Some ps" "\<forall>q \<in> set ps. sym_pos rules q"
    using alternates_total[OF assms(1) rule_start[OF assms]] by auto
  have "gen rules a w \<longleftrightarrow> derives rules (seq_at rules a) w" if a: "a \<in> set ps" for a w
  proof -
    obtain x where "gelem rules a = Some x" using ps(2) a by (auto simp: sym_pos_def)
    then show ?thesis using gen_derives derives_gen[OF assms(1) _ refl] by blast
  qed
  moreover have "grammar_words rules r = {w. \<exists>a \<in> set ps. gen rules a w}" unfolding grammar_words_def using ps(1) by auto
  moreover have "derived_words rules r = {w. \<exists>a \<in> set ps. derives rules (seq_at rules a) w}"
    unfolding derived_words_def using alternates_split[OF ps(1)] by (simp add: rest_at_def)
  ultimately show ?thesis by blast
qed

section \<open>Sequences\<close>

text \<open>Elements that begin with a symbol, so that no terminal before them reaches into them.\<close>

definition starts_symbol :: "llama_grammar_rule \<Rightarrow> bool" where
  "starts_symbol es \<longleftrightarrow> es = [] \<or> ge_type (hd es) \<notin> {GRETYPE_CHAR_RNG_UPPER, GRETYPE_CHAR_ALT}"

lemma char_class_append:
  assumes "starts_symbol bs"
  shows "as \<noteq> [] \<Longrightarrow> char_class (as @ bs) = (fst (char_class as), snd (char_class as) @ bs)"
proof (induction as rule: length_induct)
  case (1 as)
  then obtain e es where as: "as = e # es" by (cases as) auto
  define rng where "rng \<longleftrightarrow> es \<noteq> [] \<and> ge_type (hd es) = GRETYPE_CHAR_RNG_UPPER"
  define C where "C = (if rng then {ge_value e..ge_value (hd es)} else if ge_type e = GRETYPE_CHAR_ANY then UNIV else {ge_value e})"
  define rest where "rest = (if rng then tl es else es)"
  let ?alt = "\<lambda>es. es \<noteq> [] \<and> ge_type (hd es) = GRETYPE_CHAR_ALT"
  have m: "char_class as = (if ?alt rest then (C \<union> fst (char_class rest), snd (char_class rest)) else (C, rest))"
    by (simp add: as C_def rest_def rng_def)
  have "es @ bs \<noteq> [] \<and> ge_type (hd (es @ bs)) = GRETYPE_CHAR_RNG_UPPER \<longleftrightarrow> rng" "rng \<Longrightarrow> hd (es @ bs) = hd es \<and> tl (es @ bs) = tl es @ bs"
    using assms by (auto simp: starts_symbol_def rng_def hd_append)
  then have n: "char_class (as @ bs) = (if ?alt (rest @ bs) then (C \<union> fst (char_class (rest @ bs)), snd (char_class (rest @ bs))) else (C, rest @ bs))"
    by (simp add: as C_def rest_def)
  have "?alt (rest @ bs) \<longleftrightarrow> ?alt rest" using assms by (auto simp: starts_symbol_def hd_append)
  moreover have "length rest < length as" by (auto simp: as rest_def)
  ultimately show ?case using 1(1) by (simp only: m n) auto
qed

text \<open>A terminal at the front of two sequences lies in the first of them, which begins with it.\<close>

lemma char_class_front:
  assumes "starts_symbol bs" "char_class (as @ bs) = (C, rest)" "as = e # as'"
  shows "char_class (e # as') = (C, snd (char_class as))" "rest = snd (char_class as) @ bs"
  using char_class_append[OF assms(1), of as] assms(2,3) by (auto simp: prod_eq_iff simp del: char_class.simps)

lemma derives_append:
  assumes "starts_symbol bs"
  shows "derives rules (as @ bs) w \<longleftrightarrow> (\<exists>u v. w = u @ v \<and> derives rules as u \<and> derives rules bs v)"
proof
  have "derives rules es w \<Longrightarrow> es = as @ bs \<Longrightarrow> \<exists>u v. w = u @ v \<and> derives rules as u \<and> derives rules bs v" for es
  proof (induction arbitrary: as rule: derives.induct)
    case (derives_char e es C rest c w)
    show ?case
    proof (cases as)
      case Nil
      then show ?thesis using derives.derives_char[OF derives_char(1-4)] derives_char(6) by simp
    next
      case (Cons e' as')
      then have as: "as = e # as'" using derives_char(6) by simp
      note m = char_class_front[OF assms derives_char(2)[unfolded derives_char(6)] as]
      from derives_char(5)[OF m(2)] obtain u v where uv: "w = u @ v" "derives rules (snd (char_class as)) u" "derives rules bs v" by blast
      show ?thesis using derives.derives_char[OF derives_char(1) m(1) derives_char(3) uv(2)] uv as by (intro exI[of _ "c # u"] exI[of _ v]) simp
    qed
  next
    case (derives_ref e alt u es v)
    show ?case
    proof (cases as)
      case Nil
      then show ?thesis using derives.derives_ref[OF derives_ref(1-5)] derives_ref(8) by simp
    next
      case (Cons e' as')
      then obtain u' v' where "v = u' @ v'" "derives rules as' u'" "derives rules bs v'" using derives_ref(7)[of as'] derives_ref(8) by auto
      then show ?thesis using derives.derives_ref[OF derives_ref(1-4)] Cons derives_ref(8) by (intro exI[of _ "u @ u'"] exI[of _ v']) simp
    qed
  qed simp
  then show "derives rules (as @ bs) w \<Longrightarrow> \<exists>u v. w = u @ v \<and> derives rules as u \<and> derives rules bs v" by blast
  have "derives rules as u \<Longrightarrow> derives rules bs v \<Longrightarrow> derives rules (as @ bs) (u @ v)" for u v
  proof (induction rule: derives.induct)
    case (derives_char e es C rest c w)
    have "char_class (e # es @ bs) = (C, rest @ bs)" using char_class_append[OF assms, of "e # es"] derives_char(2) by simp
    then show ?case using derives.derives_char[OF derives_char(1) _ derives_char(3)] derives_char(5,6) by simp
  next
    case (derives_ref e alt u es v')
    then show ?case using derives.derives_ref[OF derives_ref(1-4)] by simp
  qed simp
  then show "\<exists>u v. w = u @ v \<and> derives rules as u \<and> derives rules bs v \<Longrightarrow> derives rules (as @ bs) w" by blast
qed

text \<open>A sequence repeated.\<close>

lemma derives_replicate:
  assumes "starts_symbol es"
  shows "derives rules (concat (replicate n es)) w \<longleftrightarrow> (\<exists>ws. length ws = n \<and> (\<forall>v \<in> set ws. derives rules es v) \<and> w = concat ws)"
proof (induction n arbitrary: w)
  case (Suc n)
  have "starts_symbol (concat (replicate n es))" using assms by (cases n) (auto simp: starts_symbol_def hd_append)
  then have "derives rules (concat (replicate (Suc n) es)) w \<longleftrightarrow>
      (\<exists>u ws. derives rules es u \<and> length ws = n \<and> (\<forall>v \<in> set ws. derives rules es v) \<and> w = u @ concat ws)"
    by (auto simp: derives_append Suc)
  also have "\<dots> \<longleftrightarrow> (\<exists>ws. length ws = Suc n \<and> (\<forall>v \<in> set ws. derives rules es v) \<and> w = concat ws)"
    by (auto simp: length_Suc_conv) (metis concat.simps(2) set_ConsD)+
  finally show ?case .
qed simp

end
