(* ===== verification/Grammar_Correct.thy ===== *)
theory Grammar_Correct
  imports Grammar_Check Grammar_Derives
begin

text \<open>
  The engine against the language of the grammar: what a grammar object accepts, what its
  construction decides, and the grammar that passes the check and runs forever.
\<close>

text \<open>The rules that the engine is correct on.\<close>

definition sound_rules :: "llama_grammar_rules \<Rightarrow> bool" where
  "sound_rules rules \<longleftrightarrow> wf_rules rules \<and> empties_visible rules"

lemma sound_rules_wf: "sound_rules rules \<Longrightarrow> wf_rules rules"
  by (simp add: sound_rules_def)

text \<open>What every grammar object satisfies: its stacks are valid and stand for the rest of the words.\<close>

definition grammar_inv :: "nat list set \<Rightarrow> llama_grammar \<Rightarrow> bool" where
  "grammar_inv W g \<longleftrightarrow> wf_rules (g_rules g) \<and> all_grounded (g_rules g) \<and> stacks_ok (g_rules g) (g_stacks g) \<and>
     words (g_rules g) (set (g_stacks g)) = W"

lemma grammar_inv_eog: "grammar_inv W g \<Longrightarrow> allow_eog g \<longleftrightarrow> [] \<in> W"
  using complete_iff by (auto simp: grammar_inv_def stacks_ok_def allow_eog_def)

lemma grammar_accept_inv:
  assumes "grammar_inv W g"
  shows "\<exists>g'. ofold llama_grammar_accept cs g = Some g' \<and> g_rules g' = g_rules g \<and> grammar_inv (deriv cs W) g'"
  using assms
proof (induction cs arbitrary: g W)
  case Nil
  then show ?case by (simp add: deriv_def)
next
  case (Cons c cs)
  note g = Cons(2)[unfolded grammar_inv_def]
  obtain st where st: "accept_all (g_rules g) c (g_stacks g) = Some st" "stacks_ok (g_rules g) st"
    using accept_all_total[of "g_rules g" "g_stacks g" c] g by blast
  then have "words (g_rules g) (set st) = deriv [c] W" using accept_all_words[OF _ st(1)] g by (auto simp: stacks_ok_def)
  then have "grammar_inv (deriv [c] W) (g\<lparr>g_stacks := st\<rparr>)" using g st(2) by (simp add: grammar_inv_def)
  from Cons(1)[OF this] show ?case using st(1) by (simp add: llama_grammar_accept_def deriv_append)
qed

lemma init_grammar:
  assumes "llama_grammar_init_impl rules r lazy tts = Some (Some g)" "sound_rules (g_rules g)" "r < length (g_rules g)"
  shows "grammar_inv (grammar_words (g_rules g) r) g" "g_stacks g \<noteq> []"
proof -
  from assms(1) obtain stacks where s: "check_left_recursion (g_rules g) = Some False" "initial_stacks (g_rules g) r = Some stacks" "g_stacks g = stacks"
    by (auto simp: llama_grammar_init_impl_def bind_Some_iff split: if_splits)
  have wf: "wf_rules (g_rules g)" and gr: "all_grounded (g_rules g)" using assms(2) check_exact s(1) by (auto simp: sound_rules_def)
  show "grammar_inv (grammar_words (g_rules g) r) g" "g_stacks g \<noteq> []"
    using initial_total[OF wf gr assms(3)] initial_words[OF s(2)] s(2,3) wf gr by (auto simp: grammar_inv_def)
qed

section \<open>An example grammar\<close>

text \<open>A single element, and the grammar \<open>root ::= [a-c] b\<close>, \<open>b ::= "x" b |\<close>.\<close>

definition gre :: "llama_gretype \<Rightarrow> nat \<Rightarrow> llama_grammar_element" where
  "gre t v = \<lparr>ge_type = t, ge_value = v\<rparr>"

definition example_rules :: llama_grammar_rules where
  "example_rules =
    [[gre GRETYPE_CHAR 0x61, gre GRETYPE_CHAR_RNG_UPPER 0x63, gre GRETYPE_RULE_REF 1, gre GRETYPE_END 0],
     [gre GRETYPE_CHAR 0x78, gre GRETYPE_RULE_REF 1, gre GRETYPE_ALT 0, gre GRETYPE_END 0]]"

lemma example_rules_sound: "sound_rules example_rules"
proof -
  have "alternates example_rules (0, 0) = Some [(0, 0)]" by code_simp
  moreover have "gelem example_rules (0, 0) = Some (gre GRETYPE_CHAR 0x61)" by code_simp
  ultimately have "\<not> nullable example_rules 0" by (auto simp: nullable_def grammar_words_def gen_char_iff char_elem_def gre_def)
  moreover have "has_empty_alternate True (example_rules ! 1)" "length example_rules = 2" "wf_rules example_rules" by code_simp+
  ultimately show ?thesis by (auto simp: sound_rules_def empties_visible_def less_2_cases_iff)
qed

lemma example_rules_copy: "those (map copy_rule example_rules) = Some example_rules"
  by code_simp

lemma example_rules_check: "check_left_recursion example_rules = Some False"
  by code_simp

lemma example_rules_init: "\<exists>g. llama_grammar_init_impl example_rules 0 False [] = Some (Some g) \<and> g_rules g = example_rules"
proof -
  have "initial_stacks example_rules 0 = Some [[(0, 0)]]" by code_simp
  then show ?thesis using example_rules_copy example_rules_check by (simp add: llama_grammar_init_impl_def)
qed

lemma example_rules_length: "0 < length example_rules"
  by code_simp

section \<open>Language\<close>

text \<open>
  C30: The engine implements the language of its grammar. Let a grammar object be made from rules that are well
  formed and in which every rule that derives the empty word has an empty alternate. It accepts
  any sequence of code points without running forever, its stacks then stand for exactly the words that may still
  follow, and the end of generation is allowed exactly if the sequence is a word of the grammar: one
  derived from the start rule in the sense of context-free grammars, where a terminal derives the
  characters of its class and a token element derives nothing (\<open>derived_words\<close>).
\<close>

theorem grammar_accepts_language:
  assumes "llama_grammar_init_impl rules r lazy tts = Some (Some g)" "sound_rules (g_rules g)" "r < length (g_rules g)"
  shows "\<exists>g'. ofold llama_grammar_accept cs g = Some g' \<and>
    words (g_rules g) (set (g_stacks g')) = deriv cs (derived_words (g_rules g) r) \<and>
    (allow_eog g' \<longleftrightarrow> cs \<in> derived_words (g_rules g) r)"
proof -
  have d: "derived_words (g_rules g) r = grammar_words (g_rules g) r"
    using grammar_words_derived[OF sound_rules_wf[OF assms(2)] assms(3)] by simp
  obtain g' where g': "ofold llama_grammar_accept cs g = Some g'" "g_rules g' = g_rules g" "grammar_inv (deriv cs (derived_words (g_rules g) r)) g'"
    using grammar_accept_inv[OF init_grammar(1)[OF assms]] unfolding d by blast
  then show ?thesis using grammar_inv_eog[OF g'(3)] by (auto simp: grammar_inv_def deriv_def)
qed

theorem grammar_accepts_language_witness:
  "\<exists>g g'. llama_grammar_init_impl example_rules 0 False [] = Some (Some g) \<and> ofold llama_grammar_accept [0x62, 0x78] g = Some g' \<and>
     (allow_eog g' \<longleftrightarrow> [0x62, 0x78] \<in> derived_words example_rules 0)"
proof -
  obtain g where g: "llama_grammar_init_impl example_rules 0 False [] = Some (Some g)" "g_rules g = example_rules" using example_rules_init by blast
  from grammar_accepts_language[OF g(1)] g example_rules_sound example_rules_length show ?thesis by metis
qed

text \<open>
  C31: The construction decides left recursion. On rules that are well formed and whose empty rules
  have an empty alternate it always returns: the null pointer if some rule is left recursive, and
  a grammar with at least one stack otherwise.
\<close>

theorem grammar_init_decides:
  assumes "those (map copy_rule rules) = Some vec_rules" "sound_rules vec_rules" "r < length vec_rules"
  shows "if all_grounded vec_rules
    then \<exists>g. llama_grammar_init_impl rules r lazy tts = Some (Some g) \<and> g_rules g = vec_rules \<and> g_stacks g \<noteq> [] \<and> g_awaiting_trigger g = lazy
    else llama_grammar_init_impl rules r lazy tts = Some None"
proof -
  have wf: "wf_rules vec_rules" and c: "check_left_recursion vec_rules = Some (\<not> all_grounded vec_rules)"
    using assms(2) check_exact by (auto simp: sound_rules_def)
  show ?thesis
  proof (cases "all_grounded vec_rules")
    case True
    then obtain st where "initial_stacks vec_rules r = Some st" "st \<noteq> []" using initial_total[OF wf _ assms(3)] by blast
    then show ?thesis using True c assms(1) by (simp add: llama_grammar_init_impl_def)
  qed (use c assms(1) in \<open>simp add: llama_grammar_init_impl_def\<close>)
qed

theorem grammar_init_decides_witness:
  "\<exists>g. llama_grammar_init_impl example_rules 0 True [7] = Some (Some g) \<and> g_stacks g \<noteq> [] \<and> g_awaiting_trigger g"
proof -
  have "all_grounded example_rules" using check_exact[of example_rules] example_rules_sound example_rules_check by (simp add: sound_rules_def)
  then show ?thesis using grammar_init_decides[OF example_rules_copy example_rules_sound example_rules_length, of True "[7]"] by auto
qed

section \<open>A grammar that the check misses\<close>

text \<open>The grammar \<open>root ::= b root "a" | "x"\<close>, \<open>b ::= c\<close>, \<open>c ::= ""\<close>.\<close>

definition hidden_rules :: llama_grammar_rules where
  "hidden_rules =
    [[gre GRETYPE_RULE_REF 1, gre GRETYPE_RULE_REF 0, gre GRETYPE_CHAR 0x61, gre GRETYPE_ALT 0, gre GRETYPE_CHAR 0x78, gre GRETYPE_END 0],
     [gre GRETYPE_RULE_REF 2, gre GRETYPE_END 0],
     [gre GRETYPE_END 0]]"

lemma hidden_check: "check_left_recursion hidden_rules = Some False"
  by code_simp

lemma hidden_expand:
  "gelem hidden_rules (0, 0) = Some (gre GRETYPE_RULE_REF 1)" "gelem hidden_rules (0, 1) = Some (gre GRETYPE_RULE_REF 0)"
  "gelem hidden_rules (1, 0) = Some (gre GRETYPE_RULE_REF 2)"
  by code_simp+

lemma hidden_alternates:
  "alternates hidden_rules (0, 0) = Some [(0, 0), (0, 4)]" "alternates hidden_rules (1, 0) = Some [(1, 0)]" "alternates hidden_rules (2, 0) = Some [(2, 0)]"
  by code_simp+

lemma hidden_push:
  "push_pos hidden_rules (0, 0) X = Some ((0, 0) # X)" "push_pos hidden_rules (0, 1) X = Some ((0, 1) # X)"
  "push_pos hidden_rules (0, 2) X = Some ((0, 2) # X)" "push_pos hidden_rules (0, 4) X = Some ((0, 4) # X)"
  "push_pos hidden_rules (1, 0) X = Some ((1, 0) # X)" "push_pos hidden_rules (1, 1) X = Some X" "push_pos hidden_rules (2, 0) X = Some X"
  by code_simp+

lemmas hidden_step = hidden_expand expand_ref_def hidden_alternates hidden_push gnext_def gre_def bind_Some_iff

lemma hidden_diverges:
  assumes "llama_grammar_advance_stack rules stack acc = Some res" "rules = hidden_rules"
    "stack = (0, 0) # X \<or> stack = (1, 0) # (0, 1) # X \<or> stack = (0, 1) # X"
  shows False
  using assms
proof (induction arbitrary: X rule: llama_grammar_advance_stack.raw_induct[rotated, consumes 1, case_names step])
  case (step adv rules stack acc res)
  from step(4) show False
  proof (elim disjE)
    assume "stack = (0, 0) # X"
    then show False using step(1)[of rules "(1, 0) # (0, 1) # X" acc res X] step(2,3)
      by (auto simp: hidden_step simp del: One_nat_def)
  next
    assume "stack = (1, 0) # (0, 1) # X"
    then show False using step(1)[of rules "(0, 1) # X" acc res X] step(2,3)
      by (auto simp: hidden_step simp del: One_nat_def)
  next
    assume "stack = (0, 1) # X"
    then show False using step(1)[of rules "(0, 0) # (0, 2) # X" acc _ "(0, 2) # X"] step(2,3)
      by (auto simp: hidden_step simp del: One_nat_def)
  qed
qed

text \<open>
  C32: The left recursion check is incomplete. There is a well-formed grammar with a rule that is
  empty only through another rule; the check passes it, and the construction of the initial stacks
  never returns.
\<close>

theorem left_recursion_missed:
  "wf_rules hidden_rules \<and> check_left_recursion hidden_rules = Some False \<and> llama_grammar_init_impl hidden_rules 0 lazy tts = None"
proof -
  have c: "those (map copy_rule hidden_rules) = Some hidden_rules" by code_simp
  have "initial_stacks hidden_rules 0 = None"
  proof (cases "llama_grammar_advance_stack hidden_rules [(0, 0)] []")
    case None
    then show ?thesis by (simp add: initial_stacks_def hidden_alternates hidden_push)
  next
    case (Some res)
    from hidden_diverges[OF Some, of "[]"] show ?thesis by simp
  qed
  moreover have "wf_rules hidden_rules" by code_simp
  ultimately show ?thesis using c hidden_check by (simp add: llama_grammar_init_impl_def)
qed

end
