(* ===== verification/Grammar_Stream.thy ===== *)
theory Grammar_Stream
  imports Grammar_Correct
begin

text \<open>
  Text in pieces: a token may end inside a UTF-8 sequence. The decoder carries the incomplete
  sequence over to the next piece, so that the grammar sees the code points of the text however
  the text is cut.
\<close>

section \<open>Bytes of a code point\<close>

text \<open>The last \<open>n\<close> bytes of the encoding.\<close>

fun ctail :: "nat \<Rightarrow> nat \<Rightarrow> bytes" where
  "ctail c 0 = []"
| "ctail c (Suc n) = (0x80 + (c div 64 ^ n) mod 64) # ctail c n"

lemma length_ctail [simp]: "length (ctail c n) = n"
  by (induction n) auto

lemma ctail_empty [simp]: "ctail c n = [] \<longleftrightarrow> n = 0"
  by (cases n) auto

lemma ctail_suffix: "ctail c n = u @ v \<Longrightarrow> v = ctail c (length v)"
proof (induction n arbitrary: u)
  case (Suc n)
  show ?case
  proof (cases u)
    case Nil
    then have "v = ctail c (Suc n)" using Suc(2) by simp
    then show ?thesis by (metis length_ctail)
  next
    case (Cons b u')
    then show ?thesis using Suc(1)[of u'] Suc(2) by simp
  qed
qed simp

lemma shift_step:
  fixes c :: nat
  assumes "c < 2 ^ 21"
  shows "(c div 64 ^ Suc n * 64 + (c div 64 ^ n) mod 64) mod 2 ^ 32 = c div 64 ^ n"
proof -
  have "c div 64 ^ Suc n = c div 64 ^ n div 64" by (simp add: div_mult2_eq[symmetric] mult.commute)
  moreover have "c div 64 ^ n < 2 ^ 32" by (rule le_less_trans[OF div_le_dividend]) (use assms in simp)
  ultimately show ?thesis using assms by simp
qed

lemma cont_and: "(0x80 + x mod 64) AND 0x3F = (x mod 64 :: nat)" "drop_bit 6 (0x80 + x mod 64) = (2 :: nat)"
  using lead_mod(4)[of "x mod 64"] by (simp_all add: and_mod drop_bit_div)

lemma utf8_tail_ctail:
  assumes "c < 2 ^ 21"
  shows "utf8_tail (ctail c n @ rest) (c div 64 ^ n) (int n) = (rest, c, 0)"
proof (induction n)
  case 0
  then show ?case by (cases rest) auto
next
  case (Suc n)
  then show ?case using shift_step[OF assms, of n] by (simp only: ctail.simps append_Cons utf8_tail.simps cont_and) simp
qed

lemma utf8_tail_cut:
  assumes "c < 2 ^ 21"
  shows "ctail c n = u @ v \<Longrightarrow> utf8_tail u (c div 64 ^ n) (int n) = ([], c div 64 ^ length v, int (length v))"
proof (induction n arbitrary: u)
  case (Suc n)
  show ?case
  proof (cases u)
    case Nil
    then have "length v = Suc n" using arg_cong[OF Suc(2), of length] by simp
    then show ?thesis using Nil by simp
  next
    case (Cons b u')
    then have b: "b = 0x80 + (c div 64 ^ n) mod 64" "ctail c n = u' @ v" using Suc(2) by auto
    then show ?thesis using Suc(1)[OF b(2)] shift_step[OF assms, of n] Cons by (simp only: utf8_tail.simps cont_and) simp
  qed
qed simp

lemma utf8_continue_ctail:
  assumes "c < 2 ^ 21"
  shows "utf8_continue (ctail c n @ rest) (c div 64 ^ n) (int n) = Some (rest, c, 0)"
proof (induction n)
  case 0
  then show ?case by (cases rest) auto
next
  case (Suc n)
  then show ?case using shift_step[OF assms, of n] by (simp only: ctail.simps append_Cons utf8_continue.simps cont_and) simp
qed

lemma utf8_continue_cut:
  assumes "c < 2 ^ 21"
  shows "ctail c n = u @ v \<Longrightarrow> utf8_continue u (c div 64 ^ n) (int n) = Some ([], c div 64 ^ length v, int (length v))"
proof (induction n arbitrary: u)
  case (Suc n)
  show ?case
  proof (cases u)
    case Nil
    then have "length v = Suc n" using arg_cong[OF Suc(2), of length] by simp
    then show ?thesis using Nil by simp
  next
    case (Cons b u')
    then have b: "b = 0x80 + (c div 64 ^ n) mod 64" "ctail c n = u' @ v" using Suc(2) by auto
    then show ?thesis using Suc(1)[OF b(2)] shift_step[OF assms, of n] Cons by (simp only: utf8_continue.simps cont_and) simp
  qed
qed simp

lemma ctail_numeral: "ctail c 1 = [0x80 + c mod 64]" "ctail c 2 = [0x80 + (c div 64) mod 64, 0x80 + c mod 64]"
  "ctail c 3 = [0x80 + (c div 4096) mod 64, 0x80 + (c div 64) mod 64, 0x80 + c mod 64]"
  by (simp_all add: numeral_2_eq_2 numeral_3_eq_3)

lemma drop4: "drop_bit 4 (x::nat) = x div 16"
  by (simp add: drop_bit_eq_div)

lemma mask_and: "(b::nat) AND mask k = b mod 2 ^ k"
  by (simp add: take_bit_eq_mask[symmetric] take_bit_eq_mod)

lemma enc_shape:
  assumes "unicode_cpt_to_utf8 c = Inr s" "c \<noteq> 0"
  obtains b n where "s = b # ctail c n" "n \<le> 3" "utf8_lookup (drop_bit 4 b) - 1 = int n" "b AND mask (7 - n) = c div 64 ^ n" "b \<noteq> 0" "c < 2 ^ 21"
proof -
  consider "c < 0x80" | "0x80 \<le> c" "c < 0x800" | "0x800 \<le> c" "c < 0x10000" | "0x10000 \<le> c" "c < 0x110000"
    using cpt_to_utf8_bytes[OF assms(1)] by linarith
  then show ?thesis
  proof cases
    case 1
    have "c div 16 < 8" using 1 by simp
    then have "c div 16 \<in> {0, 1, 2, 3, 4, 5, 6, 7}" by auto
    then have "utf8_lookup (drop_bit 4 c) - 1 = int 0" by (auto simp: utf8_lookup_def drop4)
    then show ?thesis using assms 1 by (intro that[of c 0]) (auto simp: cpt_to_utf8_eq mask_and)
  next
    case 2
    let ?b = "0xc0 + c div 64"
    have d: "c div 64 < 32" using 2 by simp
    then have "?b div 16 \<in> {12, 13}" by auto
    then have "utf8_lookup (drop_bit 4 ?b) - 1 = int 1" by (auto simp: utf8_lookup_def drop4)
    moreover have "?b AND mask (7 - 1) = c div 64 ^ 1" using mod_mult_self1[of "c div 64" 3 64] d by (simp add: mask_and add.commute)
    ultimately show ?thesis using assms 2 by (intro that[of ?b 1]) (auto simp: cpt_to_utf8_eq)
  next
    case 3
    let ?b = "0xe0 + c div 4096"
    have d: "c div 4096 < 16" using 3 by simp
    then have "?b div 16 = 14" by auto
    then have "utf8_lookup (drop_bit 4 ?b) - 1 = int 2" by (auto simp: utf8_lookup_def drop4)
    moreover have "?b AND mask (7 - 2) = c div 64 ^ 2" using mod_mult_self1[of "c div 4096" 7 32] d by (simp add: mask_and add.commute)
    ultimately show ?thesis using assms 3 by (intro that[of ?b 2]) (auto simp: cpt_to_utf8_eq ctail_numeral)
  next
    case 4
    let ?b = "0xf0 + c div 262144"
    have d: "c div 262144 < 8" using 4 by simp
    then have "?b div 16 = 15" by auto
    then have "utf8_lookup (drop_bit 4 ?b) - 1 = int 3" by (auto simp: utf8_lookup_def drop4)
    moreover have "?b AND mask (7 - 3) = c div 64 ^ 3" using mod_mult_self1[of "c div 262144" 15 16] d by (simp add: mask_and add.commute)
    ultimately show ?thesis using assms 4 by (intro that[of ?b 3]) (auto simp: cpt_to_utf8_eq ctail_numeral)
  qed
qed

lemma append_cut: "a @ b = s @ t \<Longrightarrow> (\<exists>u. a = s @ u \<and> u @ b = t) \<or> (\<exists>w. s = a @ w \<and> w \<noteq> [] \<and> b = w @ t)"
  unfolding append_eq_append_conv2 by (metis append_Nil append_Nil2)

section \<open>Decoding in pieces\<close>

text \<open>
  The bytes \<open>bs\<close>, after what the partial sequence \<open>p\<close> has already read, are the UTF-8 encoding of \<open>cps\<close>.
\<close>

definition utf8_rest :: "llama_partial_utf8 \<Rightarrow> bytes \<Rightarrow> nat list \<Rightarrow> bool" where
  "utf8_rest p bs cps \<longleftrightarrow> 0 \<notin> set cps \<and>
     (pu_n_remain p = 0 \<and> unicode_cpts_to_utf8 cps = Inr bs \<or>
      (\<exists>c ds n t x. cps = c # ds \<and> 0 < n \<and> unicode_cpt_to_utf8 c = Inr (x @ ctail c n) \<and> x \<noteq> [] \<and> p = \<lparr>pu_value = c div 64 ^ n, pu_n_remain = int n\<rparr> \<and>
         unicode_cpts_to_utf8 ds = Inr t \<and> bs = ctail c n @ t))"

lemma utf8_rest_start: "utf8_rest \<lparr>pu_value = v, pu_n_remain = 0\<rparr> bs cps \<longleftrightarrow> 0 \<notin> set cps \<and> unicode_cpts_to_utf8 cps = Inr bs"
  by (auto simp: utf8_rest_def)

lemma utf8_rest_cut:
  assumes "ctail c n = u @ v" "v \<noteq> []" "unicode_cpt_to_utf8 c = Inr (x @ ctail c n)" "x \<noteq> []" "0 \<notin> set (c # ds)" "unicode_cpts_to_utf8 ds = Inr t"
  shows "utf8_rest \<lparr>pu_value = c div 64 ^ length v, pu_n_remain = int (length v)\<rparr> (v @ t) (c # ds)"
proof -
  have v: "v = ctail c (length v)" by (rule ctail_suffix[OF assms(1)])
  then have "unicode_cpt_to_utf8 c = Inr ((x @ u) @ ctail c (length v))" "v @ t = ctail c (length v) @ t" using assms(1,3) by simp_all
  then show ?thesis unfolding utf8_rest_def using assms(2,4-6) by (intro conjI disjI2 exI[of _ c] exI[of _ ds] exI[of _ "length v"] exI[of _ t] exI[of _ "x @ u"]) simp_all
qed

lemma ctail_nonzero: "0 \<notin> set (ctail c n)"
  by (induction n) auto

lemma cpts_to_utf8_nonzero: "unicode_cpts_to_utf8 cps = Inr s \<Longrightarrow> 0 \<notin> set cps \<Longrightarrow> 0 \<notin> set s"
proof (induction cps arbitrary: s)
  case (Cons c cps)
  then obtain a b where ab: "unicode_cpt_to_utf8 c = Inr a" "unicode_cpts_to_utf8 cps = Inr b" "s = a @ b" by (auto split: sum.splits)
  moreover have "0 \<notin> set a" using ab(1) Cons(3) ctail_nonzero by (auto elim!: enc_shape)
  ultimately show ?case using Cons by auto
qed simp

lemma utf8_rest_nonzero: "utf8_rest p bs cps \<Longrightarrow> 0 \<notin> set bs"
  using cpts_to_utf8_nonzero ctail_nonzero by (auto simp: utf8_rest_def)

lemma utf8_loop_rest:
  "unicode_cpts_to_utf8 cps = Inr (a @ b) \<Longrightarrow> 0 \<notin> set cps \<Longrightarrow>
    \<exists>cs ds p. utf8_loop a acc v 0 = (acc @ cs @ [0], p) \<and> cps = cs @ ds \<and> utf8_rest p b ds"
proof (induction cps arbitrary: a acc v)
  case Nil
  then show ?case by (intro exI[of _ "[]"]) (auto simp: utf8_rest_def)
next
  case (Cons c cps)
  show ?case
  proof (cases a)
    case Nil
    then show ?thesis using Cons(2,3) by (intro exI[of _ "[]"] exI[of _ "c # cps"]) (auto simp: utf8_rest_def)
  next
    case (Cons x a')
    obtain s t where st: "unicode_cpt_to_utf8 c = Inr s" "unicode_cpts_to_utf8 cps = Inr t" "a @ b = s @ t" using Cons.prems by (auto split: sum.splits)
    obtain y n where s: "s = y # ctail c n" "n \<le> 3" "utf8_lookup (drop_bit 4 y) - 1 = int n" "y AND mask (7 - n) = c div 64 ^ n" "c < 2 ^ 21"
      by (rule enc_shape[OF st(1)]) (use Cons.prems(2) in auto)
    have e: "x = y" "a' @ b = ctail c n @ t" using st(3) s(1) Cons by auto
    have m: "nat (7 - int n) = 7 - n" by simp
    consider u where "a' = ctail c n @ u" "u @ b = t" | w where "ctail c n = a' @ w" "w \<noteq> []" "b = w @ t"
      using append_cut[OF e(2)] by blast
    then show ?thesis
    proof cases
      case 1
      obtain cs ds p where r: "utf8_loop u (acc @ [c]) c 0 = ((acc @ [c]) @ cs @ [0], p)" "cps = cs @ ds" "utf8_rest p b ds"
        using Cons.IH[of u "acc @ [c]" c] st(2) 1(2) Cons.prems(2) by auto
      have "utf8_loop a acc v 0 = utf8_loop u (acc @ [c]) c 0"
        using utf8_tail_ctail[OF s(5), of n u] by (simp add: Cons e(1) s(3,4) m 1(1))
      then show ?thesis using r by (intro exI[of _ "c # cs"] exI[of _ ds] exI[of _ p]) simp
    next
      case 2
      have "utf8_loop a acc v 0 = (acc @ [0], \<lparr>pu_value = c div 64 ^ length w, pu_n_remain = int (length w)\<rparr>)"
        using utf8_tail_cut[OF s(5) 2(1)] 2(2) by (simp add: Cons e(1) s(3,4) m)
      moreover have "unicode_cpt_to_utf8 c = Inr ([y] @ ctail c n)" using st(1) s(1) by simp
      ultimately show ?thesis using utf8_rest_cut[OF 2(1,2) _ _ Cons.prems(2) st(2), of "[y]"] 2(3)
        by (intro exI[of _ "[]"] exI[of _ "c # cps"]) simp
    qed
  qed
qed

lemma decode_rest:
  assumes "utf8_rest p (a @ b) cps"
  shows "\<exists>cs ds p'. decode_utf8 a p = (cs @ [0], p') \<and> cps = cs @ ds \<and> utf8_rest p' b ds"
proof -
  have z: "takeWhile (\<lambda>b. b \<noteq> 0) a = a" using utf8_rest_nonzero[OF assms] unfolding takeWhile_eq_all_conv set_append by (metis UnI1)
  note dec = decode_utf8_def[of a p, unfolded z]
  have nz: "0 \<notin> set cps" using assms by (simp add: utf8_rest_def)
  from assms consider "pu_n_remain p = 0" "unicode_cpts_to_utf8 cps = Inr (a @ b)"
    | c ds n t x where "cps = c # ds" "0 < n" "unicode_cpt_to_utf8 c = Inr (x @ ctail c n)" "x \<noteq> []" "p = \<lparr>pu_value = c div 64 ^ n, pu_n_remain = int n\<rparr>"
      "unicode_cpts_to_utf8 ds = Inr t" "a @ b = ctail c n @ t" by (auto simp: utf8_rest_def)
  then show ?thesis
  proof cases
    case 1
    have "utf8_continue a (pu_value p) 0 = Some (a, pu_value p, 0)" by (cases a) auto
    then show ?thesis using utf8_loop_rest[OF 1(2) nz, of "[]" "pu_value p"] by (simp add: dec 1(1))
  next
    case (2 c ds n t x)
    have c: "c < 2 ^ 21" using cpt_to_utf8_bytes[OF 2(3)] by simp
    consider u where "a = ctail c n @ u" "u @ b = t" | w where "ctail c n = a @ w" "w \<noteq> []" "b = w @ t"
      using append_cut[OF 2(7)] by blast
    then show ?thesis
    proof cases
      case u: 1
      obtain cs es q where r: "utf8_loop u [c] c 0 = ([c] @ cs @ [0], q)" "ds = cs @ es" "utf8_rest q b es"
        using utf8_loop_rest[of ds u b "[c]" c] 2(1,6) u(2) nz by auto
      have "decode_utf8 a p = ((c # cs) @ [0], q)" unfolding dec using r(1) utf8_continue_ctail[OF c, of n u] 2(2,5) u(1) by simp
      moreover have "cps = (c # cs) @ es" using r(2) 2(1) by simp
      ultimately show ?thesis using r(3) by blast
    next
      case w: 2
      have "decode_utf8 a p = ([] @ [0], \<lparr>pu_value = c div 64 ^ length w, pu_n_remain = int (length w)\<rparr>)"
        unfolding dec using utf8_continue_cut[OF c w(1)] 2(2,5) w(2) by simp
      then show ?thesis using utf8_rest_cut[OF w(1,2) 2(3,4) _ 2(6)] nz 2(1) w(3)
        by (intro exI[of _ "[]"] exI[of _ cps]) simp
    qed
  qed
qed

lemma utf8_rest_Nil: "utf8_rest p [] cps \<Longrightarrow> cps = [] \<and> pu_n_remain p = 0"
  by (cases cps) (auto simp: utf8_rest_def split: sum.splits dest!: cpt_to_utf8_bytes)

text \<open>A piece that leaves no incomplete sequence has a code point.\<close>

lemma utf8_rest_inj: "utf8_rest p bs cps \<Longrightarrow> utf8_rest q cs cps \<Longrightarrow> pu_n_remain q = 0 \<Longrightarrow> length bs \<le> length cs"
  by (auto simp: utf8_rest_def split: sum.splits)

lemma decode_progress:
  assumes "decode_utf8 a p = (cs @ [0], p')" "utf8_rest p (a @ b) cps" "a \<noteq> []" "pu_n_remain p' = 0"
  shows "cs \<noteq> []"
proof
  assume "cs = []"
  moreover obtain ds where "cps = cs @ ds" "utf8_rest p' b ds" using decode_rest[OF assms(2)] assms(1) by auto
  ultimately have "length (a @ b) \<le> length b" using utf8_rest_inj[OF assms(2), of p' b] assms(4) by simp
  then show False using assms(3) by simp
qed

text \<open>Decoding a list of pieces, each one from the state that the one before it left.\<close>

fun decode_pieces :: "bytes list \<Rightarrow> llama_partial_utf8 \<Rightarrow> nat list \<times> llama_partial_utf8" where
  "decode_pieces [] p = ([], p)"
| "decode_pieces (a # as) p = (case decode_utf8 a p of (cs, p') \<Rightarrow> (case decode_pieces as p' of (ds, q) \<Rightarrow> (butlast cs @ ds, q)))"

lemma decode_pieces_rest: "utf8_rest p (concat as) cps \<Longrightarrow> \<exists>q. decode_pieces as p = (cps, q) \<and> pu_n_remain q = 0"
proof (induction as arbitrary: p cps)
  case Nil
  then show ?case using utf8_rest_Nil[of p cps] by simp
next
  case (Cons a as)
  then obtain cs ds p' where d: "decode_utf8 a p = (cs @ [0], p')" "cps = cs @ ds" "utf8_rest p' (concat as) ds" using decode_rest by (metis concat.simps(2))
  from Cons(1)[OF d(3)] d(1,2) show ?case by auto
qed

text \<open>
  C33: Decoding does not depend on where the text is cut. If the pieces put together are the UTF-8
  encoding of nonzero code points, decoding the pieces one after the other gives these code points and leaves
  no incomplete sequence.
\<close>

theorem decode_any_pieces:
  assumes "unicode_cpts_to_utf8 cps = Inr (concat pieces)" "0 \<notin> set cps"
  shows "\<exists>q. decode_pieces pieces \<lparr>pu_value = 0, pu_n_remain = 0\<rparr> = (cps, q) \<and> pu_n_remain q = 0"
  using decode_pieces_rest[of "\<lparr>pu_value = 0, pu_n_remain = 0\<rparr>"] assms by (simp add: utf8_rest_start)

theorem decode_any_pieces_witness:
  "\<exists>q. decode_pieces [[0x41, 0xf0], [0x9f], [], [0x98, 0x80, 0xc3], [0xa9]] \<lparr>pu_value = 0, pu_n_remain = 0\<rparr> = ([0x41, 0x1f600, 0xe9], q) \<and> pu_n_remain q = 0"
  by (rule decode_any_pieces) (simp_all add: cpt_to_utf8_eq)

end
