(* ===== verification/Grammar_Feed.thy ===== *)
theory Grammar_Feed
  imports Grammar_Stream
begin

text \<open>
  The grammar fed with the pieces of a text. \<open>llama_grammar_accept_str\<close> and
  \<open>llama_grammar_accept_token\<close> share a contract, the locale \<open>piece_feed\<close>: a piece takes the derivative of the
  language by its code points, except that a piece without a complete code point may drop the empty word.
\<close>

section \<open>The contract\<close>

fun run_pieces :: "('t \<Rightarrow> bytes \<Rightarrow> llama_grammar \<Rightarrow> grammar_result option) \<Rightarrow> ('t \<times> bytes) list \<Rightarrow> llama_grammar \<Rightarrow>
    grammar_result option" where
  "run_pieces step [] g = Some (Inr g)"
| "run_pieces step ((t, piece) # ts) g = do {
     r \<leftarrow> step t piece g;
     case r of Inl e \<Rightarrow> Some (Inl e) | Inr g \<Rightarrow> run_pieces step ts g }"

text \<open>Two languages that differ at most in the empty word.\<close>

definition upto_empty :: "nat list set \<Rightarrow> nat list set \<Rightarrow> bool" where
  "upto_empty X Y \<longleftrightarrow> X \<subseteq> Y \<and> Y - {[]} \<subseteq> X"

lemma upto_empty_refl: "upto_empty X X"
  by (simp add: upto_empty_def)

lemma upto_empty_trans: "upto_empty X Y \<Longrightarrow> upto_empty Y Z \<Longrightarrow> upto_empty X Z"
  by (auto simp: upto_empty_def)

lemma deriv_upto: "upto_empty X Y \<Longrightarrow> cs \<noteq> [] \<Longrightarrow> deriv cs X = deriv cs Y"
  by (auto simp: upto_empty_def deriv_def)

locale piece_feed =
  fixes usable :: "llama_grammar_rules \<Rightarrow> bool"
    and feed :: "'t \<Rightarrow> llama_grammar_rules \<Rightarrow> nat list \<Rightarrow> llama_grammar_stacks \<Rightarrow> llama_grammar_stacks option"
    and step :: "'t \<Rightarrow> bytes \<Rightarrow> llama_grammar \<Rightarrow> grammar_result option"
  assumes step_eq: "step t piece g = (let decoded = decode_utf8 piece (g_partial_utf8 g) in do {
        stacks \<leftarrow> feed t (g_rules g) (butlast (fst decoded)) (g_stacks g);
        let g = g\<lparr>g_stacks := stacks, g_partial_utf8 := snd decoded\<rparr>;
        Some (if stacks = [] then Inl (Empty_Grammar_Stack, g) else Inr g) })"
    and feed_ok: "\<lbrakk>usable rules; wf_rules rules; all_grounded rules; stacks_ok rules stacks\<rbrakk> \<Longrightarrow>
        \<exists>res. feed t rules cs stacks = Some res \<and> stacks_ok rules res \<and> upto_empty (words rules (set res)) (deriv cs (words rules (set stacks))) \<and>
          (cs \<noteq> [] \<longrightarrow> words rules (set res) = deriv cs (words rules (set stacks)))"
begin

text \<open>One piece of a text whose rest is still to come.\<close>

lemma step_piece:
  assumes "usable (g_rules g)" "grammar_inv X g" "upto_empty X W" "pu_n_remain (g_partial_utf8 g) = 0 \<longrightarrow> X = W"
    "utf8_rest (g_partial_utf8 g) (piece @ more_bytes) cps" "piece \<noteq> []"
  obtains (failed) g' where "step t piece g = Some (Inl (Empty_Grammar_Stack, g'))" "deriv cps W = {}"
  | (fed) g' cs ds X' where "step t piece g = Some (Inr g')" "cps = cs @ ds" "utf8_rest (g_partial_utf8 g') more_bytes ds" "g_rules g' = g_rules g"
      "grammar_inv X' g'" "upto_empty X' (deriv cs W)" "pu_n_remain (g_partial_utf8 g') = 0 \<longrightarrow> X' = deriv cs W"
proof -
  obtain cs ds p where d: "decode_utf8 piece (g_partial_utf8 g) = (cs @ [0], p)" "cps = cs @ ds" "utf8_rest p more_bytes ds"
    using decode_rest[OF assms(5)] by blast
  note g = assms(2)[unfolded grammar_inv_def]
  obtain st where st: "feed t (g_rules g) cs (g_stacks g) = Some st" "stacks_ok (g_rules g) st" "upto_empty (words (g_rules g) (set st)) (deriv cs X)"
    "cs \<noteq> [] \<longrightarrow> words (g_rules g) (set st) = deriv cs X" using feed_ok[OF assms(1), of "g_stacks g" t cs] g by blast
  let ?X = "words (g_rules g) (set st)"
  have de: "cs = [] \<Longrightarrow> deriv cs Y = Y" for Y by (simp add: deriv_def)
  have up: "upto_empty ?X (deriv cs W)"
    using st(3,4) deriv_upto[OF assms(3)] upto_empty_trans[OF _ assms(3)] de upto_empty_refl by (cases "cs = []") auto
  have ex: "?X = deriv cs W" if "pu_n_remain p = 0"
    using st(4) deriv_upto[OF assms(3)] decode_progress[OF d(1) assms(5,6) that] by auto
  have sp: "step t piece g = Some (if st = [] then Inl (Empty_Grammar_Stack, g\<lparr>g_stacks := st, g_partial_utf8 := p\<rparr>) else Inr (g\<lparr>g_stacks := st, g_partial_utf8 := p\<rparr>))"
    using st(1) by (simp add: step_eq d(1) Let_def)
  show ?thesis
  proof (cases "st = []")
    case True
    have "deriv cps W = {}"
    proof (cases "pu_n_remain p = 0")
      case z: True
      have "deriv cs W = {}" using ex[OF z] True by simp
      then show ?thesis using deriv_append[of ds cs W] d(2) by (simp add: deriv_def)
    next
      case False
      then have "ds \<noteq> []" using d(3) by (auto simp: utf8_rest_def)
      moreover have "deriv ds ?X = deriv ds (deriv cs W)" by (rule deriv_upto[OF up]) fact
      ultimately show ?thesis using True deriv_append[of ds cs W] d(2) by (simp add: deriv_def)
    qed
    then show ?thesis using failed sp True by simp
  next
    case False
    show ?thesis by (rule fed[of "g\<lparr>g_stacks := st, g_partial_utf8 := p\<rparr>" cs ds ?X]) (use False sp d st(2) g up ex in \<open>simp_all add: grammar_inv_def\<close>)
  qed
qed

lemma pieces_feed:
  assumes "usable (g_rules g)" "grammar_inv X g" "upto_empty X W" "pu_n_remain (g_partial_utf8 g) = 0 \<longrightarrow> X = W"
    "utf8_rest (g_partial_utf8 g) (concat (map snd ts)) cps" "[] \<notin> snd ` set ts"
  shows "\<exists>res. run_pieces step ts g = Some res \<and> (case res of Inl e \<Rightarrow> deriv cps W = {} | Inr g' \<Rightarrow> grammar_inv (deriv cps W) g')"
  using assms
proof (induction ts arbitrary: g X W cps)
  case Nil
  then have "cps = []" "pu_n_remain (g_partial_utf8 g) = 0" using utf8_rest_Nil by auto
  then show ?case using Nil by (simp add: deriv_def)
next
  case (Cons tp ts)
  obtain t piece where tp: "tp = (t, piece)" by (cases tp)
  have r: "utf8_rest (g_partial_utf8 g) (piece @ concat (map snd ts)) cps" "piece \<noteq> []" using Cons.prems(5,6) tp by auto
  show ?case
  proof (rule step_piece[OF Cons.prems(1-4) r, of t], goal_cases)
    case 1
    then show ?case by (simp add: tp)
  next
    case (2 g' cs ds X')
    have "\<exists>res. run_pieces step ts g' = Some res \<and> (case res of Inl e \<Rightarrow> deriv ds (deriv cs W) = {} | Inr g' \<Rightarrow> grammar_inv (deriv ds (deriv cs W)) g')"
      by (rule Cons.IH[of g' X']) (use 2 Cons.prems(1,6) in auto)
    then have "\<exists>res. run_pieces step ts g' = Some res \<and> (case res of Inl e \<Rightarrow> deriv cps W = {} | Inr g' \<Rightarrow> grammar_inv (deriv cps W) g')"
      by (simp only: deriv_append 2(2))
    then show ?case using 2(1) by (simp only: tp run_pieces.simps Option.bind.simps sum.case)
  qed
qed

end

section \<open>Strings\<close>

lemma accept_stacks:
  "ofold llama_grammar_accept cs g = map_option (\<lambda>st. g\<lparr>g_stacks := st\<rparr>) (ofold (accept_all (g_rules g)) cs (g_stacks g))"
proof (induction cs arbitrary: g)
  case (Cons c cs)
  then show ?case by (cases "accept_all (g_rules g) c (g_stacks g)") (simp_all add: llama_grammar_accept_def)
qed simp

lemma accept_word_ok:
  assumes "wf_rules rules" "all_grounded rules" "stacks_ok rules stacks"
  shows "\<exists>res. ofold (accept_all rules) cs stacks = Some res \<and> stacks_ok rules res \<and> words rules (set res) = deriv cs (words rules (set stacks))"
proof -
  obtain res where "ofold (accept_all rules) cs stacks = Some res" "stacks_ok rules res" using accept_word_total[OF assms] by blast
  then show ?thesis using accept_word_words[of rules stacks cs res] assms(3) by (simp add: stacks_ok_def)
qed

interpretation str: piece_feed "\<lambda>_. True" "\<lambda>(_::unit) rules cs stacks. ofold (accept_all rules) cs stacks" "\<lambda>_. llama_grammar_accept_str"
proof unfold_locales
  fix piece g
  show "llama_grammar_accept_str piece g = (let decoded = decode_utf8 piece (g_partial_utf8 g) in do {
      stacks \<leftarrow> ofold (accept_all (g_rules g)) (butlast (fst decoded)) (g_stacks g);
      let g = g\<lparr>g_stacks := stacks, g_partial_utf8 := snd decoded\<rparr>;
        Some (if stacks = [] then Inl (Empty_Grammar_Stack, g) else Inr g) })"
    by (simp add: llama_grammar_accept_str_def accept_stacks Let_def split: option.splits)
      (simp add: bind_eq_None_conv map_option_case split: option.splits)
next
  fix rules stacks cs
  assume "wf_rules rules" "all_grounded rules" "stacks_ok rules stacks"
  from accept_word_ok[OF this, of cs] show "\<exists>res. ofold (accept_all rules) cs stacks = Some res \<and> stacks_ok rules res \<and>
      upto_empty (words rules (set res)) (deriv cs (words rules (set stacks))) \<and> (cs \<noteq> [] \<longrightarrow> words rules (set res) = deriv cs (words rules (set stacks)))"
    by (auto simp: upto_empty_refl)
qed

section \<open>Tokens\<close>

definition token_free :: "llama_grammar_rules \<Rightarrow> bool" where
  "token_free rules \<longleftrightarrow> (\<forall>rule \<in> set rules. \<forall>e \<in> set rule. \<not> is_token_elem e)"

lemma token_free_elem: "token_free rules \<Longrightarrow> gelem rules p = Some e \<Longrightarrow> \<not> is_token_elem e"
  unfolding token_free_def gelem_Some by (metis nth_mem)

lemma accept_all_Nil [simp]: "accept_all rules c [] = Some []"
  by (simp add: accept_all_def)

lemma run_chars_eq: "run_chars rules cs stacks = ofold (accept_all rules) cs stacks"
proof (induction cs arbitrary: stacks)
  case (Cons c cs)
  have "ofold (accept_all rules) ds [] = Some []" for ds by (induction ds) simp_all
  then show ?case using Cons by (cases "accept_all rules c stacks") simp_all
qed simp

lemma set_fold_add: "set (fold add_stack xs acc) = set xs \<union> set acc" "distinct acc \<Longrightarrow> distinct (fold add_stack xs acc)"
  by (induction xs arbitrary: acc) (auto simp: add_stack_def)

lemma ofold_union:
  assumes "\<And>x acc. x \<in> set xs \<Longrightarrow> \<exists>res. f x acc = Some res \<and> set res = set acc \<union> R x \<and> (distinct acc \<longrightarrow> distinct res)"
  shows "\<exists>res. ofold f xs acc = Some res \<and> set res = set acc \<union> (\<Union>x \<in> set xs. R x) \<and> (distinct acc \<longrightarrow> distinct res)"
  using assms
proof (induction xs arbitrary: acc)
  case (Cons x xs)
  obtain m where m: "f x acc = Some m" "set m = set acc \<union> R x" "distinct acc \<longrightarrow> distinct m" using Cons(2)[of x acc] by auto
  obtain res where "ofold f xs m = Some res" "set res = set m \<union> (\<Union>x \<in> set xs. R x)" "distinct m \<longrightarrow> distinct res"
    using Cons(1)[of m] Cons(2) by auto
  with m show ?case by auto
qed simp

text \<open>The stacks that survive the code points, from one stack.\<close>

definition survivors :: "llama_grammar_rules \<Rightarrow> nat list \<Rightarrow> llama_grammar_stack \<Rightarrow> llama_grammar_stack set" where
  "survivors rules cs st = (if st = [] then {} else set (the (ofold (accept_all rules) cs [st])))"

lemma single_ok: "ready rules st \<Longrightarrow> stack_ok rules st \<Longrightarrow> stacks_ok rules [st]"
  by (simp add: stacks_ok_def all_ready_def)

lemma survivors_ok:
  assumes "wf_rules rules" "all_grounded rules" "ready rules st" "stack_ok rules st"
  shows "\<forall>s \<in> survivors rules cs st. ready rules s \<and> stack_ok rules s"
    "upto_empty (words rules (survivors rules cs st)) (deriv cs {w. sgen rules st w})"
    "cs \<noteq> [] \<Longrightarrow> words rules (survivors rules cs st) = deriv cs {w. sgen rules st w}"
proof -
  obtain res where r: "ofold (accept_all rules) cs [st] = Some res" "stacks_ok rules res" "words rules (set res) = deriv cs {w. sgen rules st w}"
    using accept_word_ok[OF assms(1,2) single_ok[OF assms(3,4)], of cs] by auto
  show "\<forall>s \<in> survivors rules cs st. ready rules s \<and> stack_ok rules s"
    "upto_empty (words rules (survivors rules cs st)) (deriv cs {w. sgen rules st w})"
    "cs \<noteq> [] \<Longrightarrow> words rules (survivors rules cs st) = deriv cs {w. sgen rules st w}"
    using r by (auto simp: survivors_def stacks_ok_def all_ready_def upto_empty_def deriv_def)
qed

lemma accept_token_stack_union:
  assumes "token_free rules" "wf_rules rules" "all_grounded rules" "ready rules st" "stack_ok rules st"
  shows "\<exists>res. accept_token_stack rules t cs st acc = Some res \<and> set res = set acc \<union> survivors rules cs st \<and> (distinct acc \<longrightarrow> distinct res)"
proof (cases st)
  case (Cons p below)
  then obtain e where e: "gelem rules p = Some e" using assms(4) by (auto simp: ready_def)
  obtain s where s: "ofold (accept_all rules) cs [st] = Some s" using accept_word_total[OF assms(2,3) single_ok[OF assms(4,5)]] by blast
  then have "accept_token_stack rules t cs st acc = Some (fold add_stack s acc)"
    using Cons e token_free_elem[OF assms(1) e] by (simp add: accept_token_stack_def run_chars_eq)
  then show ?thesis using s Cons set_fold_add[of s acc] set_fold_add(2)[of acc s] by (auto simp: survivors_def)
qed (simp add: accept_token_stack_def survivors_def)

lemma deriv_UN: "deriv cs (\<Union>x \<in> A. F x) = (\<Union>x \<in> A. deriv cs (F x))"
  by (auto simp: deriv_def)

lemma words_Union: "words rules (\<Union>x \<in> A. F x) = (\<Union>x \<in> A. words rules (F x))"
  by (auto simp: words_def)

lemma upto_empty_UN: "(\<And>x. x \<in> A \<Longrightarrow> upto_empty (F x) (G x)) \<Longrightarrow> upto_empty (\<Union>x \<in> A. F x) (\<Union>x \<in> A. G x)"
  unfolding upto_empty_def by blast

lemma feed_token_ok:
  assumes "token_free rules" "wf_rules rules" "all_grounded rules" "stacks_ok rules stacks"
  shows "\<exists>res. ofold (accept_token_stack rules t cs) stacks [] = Some res \<and> stacks_ok rules res \<and>
    set res = (\<Union>st \<in> set stacks. survivors rules cs st) \<and>
    upto_empty (words rules (set res)) (deriv cs (words rules (set stacks))) \<and>
    (cs \<noteq> [] \<longrightarrow> words rules (set res) = deriv cs (words rules (set stacks)))"
proof -
  have st: "ready rules st" "stack_ok rules st" if "st \<in> set stacks" for st using assms(4) that by (auto simp: stacks_ok_def all_ready_def)
  obtain res where r: "ofold (accept_token_stack rules t cs) stacks [] = Some res" "set res = (\<Union>st \<in> set stacks. survivors rules cs st)" "distinct res"
    using ofold_union[of stacks "accept_token_stack rules t cs" "survivors rules cs" "[]"] accept_token_stack_union[OF assms(1-3) st] by auto
  note ok = survivors_ok[OF assms(2,3) st]
  have "stacks_ok rules res" using r(2,3) ok(1) by (auto simp: stacks_ok_def all_ready_def)
  moreover have "upto_empty (words rules (set res)) (deriv cs (words rules (set stacks)))"
    unfolding r(2) words_Union deriv_words by (rule upto_empty_UN) (rule ok(2))
  moreover have "words rules (set res) = deriv cs (words rules (set stacks))" if "cs \<noteq> []"
    unfolding r(2) words_Union deriv_words using ok(3)[OF _ _ that] by auto
  ultimately show ?thesis using r by blast
qed

interpretation tok: piece_feed token_free "\<lambda>t rules cs stacks. ofold (accept_token_stack rules t cs) stacks []" llama_grammar_accept_token
  by unfold_locales (simp add: llama_grammar_accept_token_def Let_def, use feed_token_ok in blast)

text \<open>
  C34: A grammar constrains a text however it is cut into tokens. Let a grammar object be made from rules without
  token elements that are well formed and in which every rule that derives the empty word has an empty
  alternate, and let the pieces of the tokens, none of them
  empty, make up the UTF-8 encoding of nonzero code points. Accepting the tokens one
  after the other always returns: with an exception, and then no word of the grammar begins
  with the text, or with stacks that stand for exactly the words that may still follow, the end of generation being
  allowed exactly if the text is a word of the grammar.
\<close>

theorem grammar_accepts_tokens:
  assumes "llama_grammar_init_impl rules r lazy tts = Some (Some g)" "sound_rules (g_rules g)" "token_free (g_rules g)" "r < length (g_rules g)"
    "unicode_cpts_to_utf8 cps = Inr (concat (map snd ts))" "0 \<notin> set cps" "[] \<notin> snd ` set ts"
  shows "\<exists>res. run_pieces llama_grammar_accept_token ts g = Some res \<and>
    (case res of
       Inl e \<Rightarrow> \<forall>w. cps @ w \<notin> derived_words (g_rules g) r
     | Inr g' \<Rightarrow> words (g_rules g') (set (g_stacks g')) = deriv cps (derived_words (g_rules g) r) \<and>
         (allow_eog g' \<longleftrightarrow> cps \<in> derived_words (g_rules g) r))"
proof -
  have p: "g_partial_utf8 g = \<lparr>pu_value = 0, pu_n_remain = 0\<rparr>" using assms(1) by (auto simp: llama_grammar_init_impl_def bind_Some_iff split: if_splits)
  have d: "derived_words (g_rules g) r = grammar_words (g_rules g) r"
    using grammar_words_derived[OF sound_rules_wf[OF assms(2)] assms(4)] by simp
  obtain res where "run_pieces llama_grammar_accept_token ts g = Some res"
    "case res of Inl e \<Rightarrow> deriv cps (grammar_words (g_rules g) r) = {} | Inr g' \<Rightarrow> grammar_inv (deriv cps (grammar_words (g_rules g) r)) g'"
    using tok.pieces_feed[OF assms(3) init_grammar(1)[OF assms(1,2,4)] upto_empty_refl, of ts cps] assms(5-7) by (auto simp: p utf8_rest_start)
  then show ?thesis using grammar_inv_eog by (auto simp: d deriv_def grammar_inv_def split: sum.splits)
qed

theorem grammar_accepts_tokens_witness:
  "\<exists>g res. llama_grammar_init_impl example_rules 0 False [] = Some (Some g) \<and>
    run_pieces llama_grammar_accept_token [(4, [0x62]), (5, [0x78, 0x78])] g = Some res \<and>
    (case res of Inl e \<Rightarrow> \<forall>w. [0x62, 0x78, 0x78] @ w \<notin> derived_words example_rules 0
     | Inr g' \<Rightarrow> allow_eog g' \<longleftrightarrow> [0x62, 0x78, 0x78] \<in> derived_words example_rules 0)"
proof -
  obtain g where g: "llama_grammar_init_impl example_rules 0 False [] = Some (Some g)" "g_rules g = example_rules" using example_rules_init by blast
  have "token_free example_rules" by code_simp
  then obtain res where res: "run_pieces llama_grammar_accept_token [(4, [0x62]), (5, [0x78, 0x78])] g = Some res \<and>
    (case res of Inl e \<Rightarrow> \<forall>w. [0x62, 0x78, 0x78] @ w \<notin> derived_words (g_rules g) 0
     | Inr g' \<Rightarrow> words (g_rules g') (set (g_stacks g')) = deriv [0x62, 0x78, 0x78] (derived_words (g_rules g) 0) \<and>
         (allow_eog g' \<longleftrightarrow> [0x62, 0x78, 0x78] \<in> derived_words (g_rules g) 0))"
    using grammar_accepts_tokens[OF g(1), of "[0x62, 0x78, 0x78]" "[(4, [0x62]), (5, [0x78, 0x78])]"] g example_rules_sound example_rules_length
    by (simp add: cpt_to_utf8_eq) blast
  show ?thesis by (intro exI[of _ g] exI[of _ res]) (use g res in \<open>simp split: sum.splits\<close>)
qed

end
