(* ===== verification/Grammar_Reject.thy ===== *)
theory Grammar_Reject
  imports Grammar_Feed "HOL-Library.Multiset"
begin

text \<open>
  Candidate tokens: the engine rejects exactly the tokens whose text leaves no stack, and a token
  that it lets through is accepted.
\<close>

section \<open>Stacks behind a text, as a set\<close>

inductive expands :: "llama_grammar_rules \<Rightarrow> llama_grammar_stack \<Rightarrow> llama_grammar_stack \<Rightarrow> bool" for rules where
  expands_ready: "ready rules st \<Longrightarrow> expands rules st st"
| expands_ref: "gelem rules p = Some e \<Longrightarrow> ge_type e = GRETYPE_RULE_REF \<Longrightarrow> expand_ref rules p (ge_value e) below = Some stacks \<Longrightarrow>
    st \<in> set stacks \<Longrightarrow> expands rules st s \<Longrightarrow> expands rules (p # below) s"

lemma expands_ready_iff: "ready rules st \<Longrightarrow> expands rules st s \<longleftrightarrow> s = st"
  by (subst expands.simps) (auto simp: ready_def char_elem_def is_token_elem_def)

lemma expands_ref_iff:
  "gelem rules p = Some e \<Longrightarrow> ge_type e = GRETYPE_RULE_REF \<Longrightarrow> expand_ref rules p (ge_value e) below = Some stacks \<Longrightarrow>
    expands rules (p # below) s \<longleftrightarrow> (\<exists>st \<in> set stacks. expands rules st s)"
  by (subst expands.simps) (auto simp: ready_def char_elem_def is_token_elem_def)

lemma ofold_set:
  assumes "\<And>x acc res. x \<in> set xs \<Longrightarrow> f x acc = Some res \<Longrightarrow> set res = set acc \<union> R x" "ofold f xs acc = Some res"
  shows "set res = set acc \<union> (\<Union>x \<in> set xs. R x)"
  using assms
proof (induction xs arbitrary: acc)
  case (Cons x xs)
  then obtain mid where m: "f x acc = Some mid" "ofold f xs mid = Some res" by (auto simp: bind_Some_iff)
  have "set mid = set acc \<union> R x" by (rule Cons(2)[OF _ m(1)]) simp
  moreover have "set res = set mid \<union> (\<Union>x \<in> set xs. R x)" by (rule Cons(1)[OF _ m(2)]) (rule Cons(2), rule list.set_intros(2))
  ultimately show ?case by auto
qed simp

lemma advance_expands:
  "llama_grammar_advance_stack rules stack acc = Some res \<Longrightarrow> set res = set acc \<union> {s. expands rules stack s}"
proof (induction rule: llama_grammar_advance_stack.raw_induct[rotated, consumes 1, case_names step])
  case (step adv rules stack acc res)
  show ?case
  proof (cases stack)
    case Nil
    have "ready rules []" by (simp add: ready_def)
    then have x: "{s. expands rules stack s} = {[]}" using expands_ready_iff Nil by auto
    have r: "res = add_stack [] acc" using step(2) Nil by simp
    show ?thesis unfolding x r by simp
  next
    case (Cons p below)
    with step(2) obtain e where e: "gelem rules p = Some e" by (auto simp: bind_Some_iff)
    show ?thesis
    proof (cases "ge_type e = GRETYPE_RULE_REF")
      case True
      with step(2) Cons e obtain stacks where s: "expand_ref rules p (ge_value e) below = Some stacks" "ofold (\<lambda>st acc. adv rules st acc) stacks acc = Some res"
        by (auto simp: bind_Some_iff)
      have "set res = set acc \<union> (\<Union>st \<in> set stacks. {s. expands rules st s})"
        by (rule ofold_set[OF _ s(2)]) (rule step(1))
      then show ?thesis using expands_ref_iff[OF e True s(1)] Cons by auto
    next
      case False
      then have "ready rules stack \<and> res = add_stack stack acc"
        using step(2) Cons e by (cases "ge_type e") (auto simp: ready_def char_elem_def is_token_elem_def)
      then have "{s. expands rules stack s} = {stack}" "res = add_stack stack acc" using expands_ready_iff by auto
      then show ?thesis by simp
    qed
  qed
qed

definition chr_next :: "llama_grammar_rules \<Rightarrow> nat \<Rightarrow> llama_grammar_stack \<Rightarrow> llama_grammar_stack set" where
  "chr_next rules c st = {s. \<exists>p below e p' X. st = p # below \<and> gelem rules p = Some e \<and> \<not> is_token_elem e \<and>
     llama_grammar_match_char rules p c = Some (True, p') \<and> push_pos rules p' below = Some X \<and> expands rules X s}"

lemma accept_chr_set:
  assumes "llama_grammar_accept_chr rules c st acc = Some res"
  shows "set res = set acc \<union> chr_next rules c st"
proof (cases st)
  case Nil
  then show ?thesis using assms by (simp add: llama_grammar_accept_chr_def chr_next_def)
next
  case (Cons p below)
  with assms obtain e where e: "gelem rules p = Some e" by (auto simp: llama_grammar_accept_chr_def bind_Some_iff)
  consider "is_token_elem e" "res = acc" | p' where "\<not> is_token_elem e" "llama_grammar_match_char rules p c = Some (False, p')" "res = acc"
    | p' X where "\<not> is_token_elem e" "llama_grammar_match_char rules p c = Some (True, p')" "push_pos rules p' below = Some X"
        "llama_grammar_advance_stack rules X acc = Some res"
    using assms Cons e by (auto simp: llama_grammar_accept_chr_def bind_Some_iff split: if_splits)
  then show ?thesis by cases (use Cons e advance_expands in \<open>auto simp: chr_next_def\<close>)
qed

fun next_set :: "llama_grammar_rules \<Rightarrow> nat list \<Rightarrow> llama_grammar_stack \<Rightarrow> llama_grammar_stack set" where
  "next_set rules [] st = {st}"
| "next_set rules (c # cs) st = (\<Union>s \<in> chr_next rules c st. next_set rules cs s)"

lemma accept_word_set:
  "ofold (accept_all rules) cs stacks = Some res \<Longrightarrow> set res = (\<Union>st \<in> set stacks. next_set rules cs st)"
proof (induction cs arbitrary: stacks)
  case (Cons c cs)
  then obtain mid where m: "accept_all rules c stacks = Some mid" "ofold (accept_all rules) cs mid = Some res" by (auto simp: bind_Some_iff)
  have "set mid = (\<Union>st \<in> set stacks. chr_next rules c st)"
    using ofold_set[of stacks "llama_grammar_accept_chr rules c" "chr_next rules c" "[]" mid] accept_chr_set m(1) by (auto simp: accept_all_def)
  then show ?case using Cons(1)[OF m(2)] by simp
qed simp

section \<open>Incomplete sequences\<close>

lemma match_partial_loop_total:
  assumes "wf_rules rules" "gelem rules p = Some e" "ge_type e \<in> {GRETYPE_CHAR, GRETYPE_CHAR_NOT, GRETYPE_CHAR_ANY, GRETYPE_CHAR_ALT}"
  shows "\<exists>b. match_partial_loop rules p low high positive = Some b"
  using assms(2,3)
proof (induction "length (rules ! fst p) - snd p" arbitrary: p e rule: less_induct)
  case less
  obtain e1 where e1: "gelem rules (gnext p 1) = Some e1" using next_exists[OF assms(1) less(2)] less(3) by auto
  have nn: "gnext p 2 = gnext (gnext p 1) 1" by (simp add: gnext_def)
  have lt: "length (rules ! fst (gnext p k)) - snd (gnext p k) < length (rules ! fst p) - snd p" if "0 < k" for k
    using less(2) that by (auto simp: gelem_Some gnext_def)
  show ?case
  proof (cases "ge_type e1 = GRETYPE_CHAR_RNG_UPPER")
    case True
    obtain e2 where e2: "gelem rules (gnext p 2) = Some e2" using next_exists[OF assms(1) e1] True by (auto simp: nn)
    have "ge_type e2 = GRETYPE_CHAR_ALT \<Longrightarrow> \<exists>b. match_partial_loop rules (gnext p 2) low high positive = Some b"
      using less(1)[OF lt e2] by simp
    then show ?thesis using less(2) e1 e2 True by (subst match_partial_loop.simps) auto
  next
    case False
    have "ge_type e1 = GRETYPE_CHAR_ALT \<Longrightarrow> \<exists>b. match_partial_loop rules (gnext p 1) low high positive = Some b"
      using less(1)[OF lt e1] by simp
    then show ?thesis using less(2) e1 False by (subst match_partial_loop.simps) auto
  qed
qed

lemma match_partial_total:
  assumes "wf_rules rules" "gelem rules p = Some e" "char_elem e"
  shows "\<exists>b. llama_grammar_match_partial_char rules p pu = Some b"
  using assms match_partial_loop_total[OF assms(1,2)]
  by (auto simp: llama_grammar_match_partial_char_def Let_def is_positive_char_def char_elem_def)

lemma match_partial_negative:
  "llama_grammar_match_partial_char rules p pu = Some b \<Longrightarrow> pu_n_remain pu < 0 \<Longrightarrow> \<not> b"
  by (auto simp: llama_grammar_match_partial_char_def bind_Some_iff split: if_splits)

section \<open>One stack\<close>

text \<open>The code points that are left, and whether a stack can take what follows them.\<close>

definition rest_cps :: "llama_grammar_candidate \<Rightarrow> nat list" where
  "rest_cps tok = takeWhile (\<lambda>c. c \<noteq> 0) (drop (gc_offset tok) (gc_code_points tok))"

definition cand_ok :: "llama_grammar_candidate \<Rightarrow> bool" where
  "cand_ok tok \<longleftrightarrow> 0 \<in> set (drop (gc_offset tok) (gc_code_points tok))"

definition takes_partial :: "llama_grammar_rules \<Rightarrow> llama_partial_utf8 \<Rightarrow> llama_grammar_stack \<Rightarrow> bool" where
  "takes_partial rules pu st \<longleftrightarrow> pu_n_remain pu = 0 \<or>
     (case st of [] \<Rightarrow> False | p # _ \<Rightarrow> llama_grammar_match_partial_char rules p pu = Some True)"

definition viable :: "llama_grammar_rules \<Rightarrow> llama_grammar_candidate \<Rightarrow> llama_grammar_stack \<Rightarrow> bool" where
  "viable rules tok st \<longleftrightarrow> (\<exists>s \<in> next_set rules (rest_cps tok) st. takes_partial rules (gc_partial_utf8 tok) s)"

lemma code_point_cases:
  assumes "cand_ok tok"
  obtains "code_point tok = Some 0" "rest_cps tok = []"
  | c where "code_point tok = Some c" "c \<noteq> 0" "rest_cps tok = c # rest_cps (cp_forward tok)" "cand_ok (cp_forward tok)"
proof -
  let ?d = "drop (gc_offset tok) (gc_code_points tok)"
  have lt: "gc_offset tok < length (gc_code_points tok)" using assms by (auto simp: cand_ok_def intro: ccontr)
  then have d: "?d = gc_code_points tok ! gc_offset tok # drop (Suc (gc_offset tok)) (gc_code_points tok)" by (simp add: Cons_nth_drop_Suc)
  show ?thesis
  proof (cases "gc_code_points tok ! gc_offset tok = 0")
    case True
    then show ?thesis using that(1) lt d by (simp add: code_point_def rest_cps_def)
  next
    case False
    then show ?thesis using that(2) lt d assms by (simp add: code_point_def rest_cps_def cand_ok_def cp_forward_def)
  qed
qed

lemma sort_out_filter:
  "(\<And>t. t \<in> set toks \<Longrightarrow> test t = Some (v t)) \<Longrightarrow>
    sort_out test toks = Some (filter (\<lambda>t. v t = Reject) toks, filter (\<lambda>t. v t = Pass) toks)"
  by (induction toks) auto

lemma chr_next_Nil [simp]: "chr_next rules c [] = {}"
  by (simp add: chr_next_def)

lemma viable_Nil: "viable rules tok [] \<longleftrightarrow> rest_cps tok = [] \<and> pu_n_remain (gc_partial_utf8 tok) = 0"
  by (cases "rest_cps tok") (auto simp: viable_def takes_partial_def)

lemma reject_empty_stack:
  assumes "\<forall>t \<in> set cands. cand_ok t"
  shows "reject_candidates_for_stack rules [] cands = Some (filter (\<lambda>t. \<not> viable rules t []) cands)"
proof -
  have "test_empty t = Some (if viable rules t [] then Keep else Reject)" if "t \<in> set cands" for t
    by (rule code_point_cases[of t]) (use assms that in \<open>auto simp: test_empty_def viable_Nil\<close>)
  then have "sort_out test_empty cands = Some (filter (\<lambda>t. (if viable rules t [] then Keep else Reject) = Reject) cands,
      filter (\<lambda>t. (if viable rules t [] then Keep else Reject) = Pass) cands)" by (rule sort_out_filter)
  moreover have "filter (\<lambda>t. (if viable rules t [] then Keep else Reject) = Reject) cands = filter (\<lambda>t. \<not> viable rules t []) cands"
    by (rule filter_cong) auto
  ultimately show ?thesis by (subst reject_candidates_for_stack.simps) simp
qed

text \<open>What follows a character at the top of a stack.\<close>

lemma char_top:
  assumes "token_free rules" "wf_rules rules" "all_grounded rules" "ready rules (p # below)" "stack_ok rules (p # below)"
  obtains e p' X ns where "gelem rules p = Some e" "char_elem e" "\<not> is_token_elem e" "\<And>c. \<exists>b. llama_grammar_match_char rules p c = Some (b, p')"
    "push_pos rules p' below = Some X" "llama_grammar_advance_stack rules X [] = Some ns" "ns \<noteq> []" "\<forall>s \<in> set ns. ready rules s \<and> stack_ok rules s"
    "\<And>c b. llama_grammar_match_char rules p c = Some (b, p') \<Longrightarrow> chr_next rules c (p # below) = (if b then set ns else {})"
proof -
  obtain e where e0: "gelem rules p = Some e" "char_elem e \<or> is_token_elem e" using assms(4) by (auto simp: ready_def)
  have e: "gelem rules p = Some e" "char_elem e" "\<not> is_token_elem e" using e0 token_free_elem[OF assms(1) e0(1)] by auto
  obtain p' where m: "sym_pos rules p'" "\<And>c. \<exists>b. llama_grammar_match_char rules p c = Some (b, p')" using match_char_total[OF assms(2) e(1,2)] by blast
  have bl: "stack_ok rules below" using assms(5) by simp
  obtain X ns where X: "push_pos rules p' below = Some X" "llama_grammar_advance_stack rules X [] = Some ns"
      "\<forall>s \<in> set ns - set []. stack_ok rules s" "set [] \<subseteq> set ns" "ns \<noteq> []" by (rule push_advance_total[OF assms(2,3) m(1) bl])
  have rd: "\<forall>s \<in> set ns. ready rules s" using advance_words[OF X(2)] by (simp add: advanced_def)
  have cn: "chr_next rules c (p # below) = (if b then set ns else {})" if "llama_grammar_match_char rules p c = Some (b, p')" for c b
    using that e X(1) advance_expands[OF X(2)] by (cases p') (auto simp: chr_next_def)
  show ?thesis by (rule that[OF e m(2) X(1,2,5) _ cn]) (use X(3) rd in auto)
qed

definition verdict_of :: "llama_grammar_rules \<Rightarrow> llama_grammar_stack \<Rightarrow> llama_grammar_candidate \<Rightarrow> verdict" where
  "verdict_of rules st t = (case rest_cps t of
      [] \<Rightarrow> if viable rules t st then Keep else Reject
    | c # _ \<Rightarrow> if chr_next rules c st = {} then Reject else Pass)"

lemma test_char_verdict:
  assumes "wf_rules rules" "gelem rules p = Some e" "char_elem e" "\<And>c. \<exists>b. llama_grammar_match_char rules p c = Some (b, p')" "ns \<noteq> []"
    "\<And>c b. llama_grammar_match_char rules p c = Some (b, p') \<Longrightarrow> chr_next rules c (p # below) = (if b then set ns else {})" "cand_ok t"
  shows "test_char rules p t = Some (verdict_of rules (p # below) t)"
proof (rule code_point_cases[OF assms(7)])
  assume c: "code_point t = Some 0" "rest_cps t = []"
  obtain b where b: "llama_grammar_match_partial_char rules p (gc_partial_utf8 t) = Some b" using match_partial_total[OF assms(1-3)] by blast
  then show ?thesis using c by (auto simp: test_char_def verdict_of_def viable_def takes_partial_def)
next
  fix c assume c: "code_point t = Some c" "c \<noteq> 0" "rest_cps t = c # rest_cps (cp_forward t)"
  obtain b where b: "llama_grammar_match_char rules p c = Some (b, p')" using assms(4) by blast
  then show ?thesis using c assms(5) assms(6)[OF b] by (cases b) (auto simp: test_char_def verdict_of_def)
qed

text \<open>The loop over the next stacks filters the candidates.\<close>

lemma ofold_filter:
  assumes "\<And>x toks. x \<in> set xs \<Longrightarrow> \<forall>t \<in> set toks. P t \<Longrightarrow> \<exists>rej. f x toks = Some rej \<and> mset rej = filter_mset (\<lambda>t. \<not> Q x t) (mset toks)"
    "\<forall>t \<in> set toks. P t"
  shows "\<exists>rej. ofold f xs toks = Some rej \<and> mset rej = filter_mset (\<lambda>t. \<forall>x \<in> set xs. \<not> Q x t) (mset toks)"
  using assms
proof (induction xs arbitrary: toks)
  case (Cons x xs)
  obtain mid where m: "f x toks = Some mid" "mset mid = filter_mset (\<lambda>t. \<not> Q x t) (mset toks)" using Cons(2)[of x toks] Cons(3) by auto
  have "set mid \<subseteq> set toks" using arg_cong[OF m(2), of set_mset] by auto
  then have pm: "\<forall>t \<in> set mid. P t" using Cons(3) by blast
  have "\<exists>rej. ofold f xs mid = Some rej \<and> mset rej = filter_mset (\<lambda>t. \<forall>x \<in> set xs. \<not> Q x t) (mset mid)"
    by (rule Cons(1)[OF _ pm]) (rule Cons(2), simp_all)
  then obtain rej where r: "ofold f xs mid = Some rej" "mset rej = filter_mset (\<lambda>t. \<forall>x \<in> set xs. \<not> Q x t) (mset mid)" by blast
  have "mset rej = filter_mset (\<lambda>t. \<forall>y \<in> set (x # xs). \<not> Q y t) (mset toks)" using r(2) m(2) by (simp add: filter_filter_mset conj_commute)
  then show ?case using m(1) r(1) by simp
qed simp

lemma cp_back_forward [simp]: "cp_back (cp_forward t) = t"
  by (simp add: cp_back_def cp_forward_def)

lemma viable_forward:
  "rest_cps t = c # rest_cps (cp_forward t) \<Longrightarrow> viable rules t st \<longleftrightarrow> (\<exists>s \<in> chr_next rules c st. viable rules (cp_forward t) s)"
  by (simp add: viable_def cp_forward_def)

lemma verdict_reject: "cand_ok t \<Longrightarrow> verdict_of rules st t = Reject \<longleftrightarrow> \<not> viable rules t st \<and> verdict_of rules st t \<noteq> Pass"
  by (rule code_point_cases) (auto simp: verdict_of_def viable_forward split: if_splits)

lemma mset_filter_split:
  "(\<And>t. t \<in> set xs \<Longrightarrow> P t \<longleftrightarrow> Q t \<and> \<not> R t) \<Longrightarrow> mset (filter P xs) + filter_mset Q (mset (filter R xs)) = filter_mset Q (mset xs)"
  by (induction xs) auto

lemma reject_stack:
  assumes rules: "token_free rules" "wf_rules rules" "all_grounded rules"
  shows "ready rules st \<Longrightarrow> stack_ok rules st \<Longrightarrow> \<forall>t \<in> set cands. cand_ok t \<and> length (rest_cps t) \<le> n \<Longrightarrow>
    \<exists>rej. reject_candidates_for_stack rules st cands = Some rej \<and> mset rej = filter_mset (\<lambda>t. \<not> viable rules t st) (mset cands)"
proof (induction n arbitrary: st cands rule: less_induct)
  case (less n)
  show ?case
  proof (cases st)
    case Nil
    then show ?thesis using reject_empty_stack[of cands rules] less(4) by simp
  next
    case (Cons p below)
    obtain e p' X ns where t: "gelem rules p = Some e" "char_elem e" "\<not> is_token_elem e" "\<And>c. \<exists>b. llama_grammar_match_char rules p c = Some (b, p')"
      "push_pos rules p' below = Some X" "llama_grammar_advance_stack rules X [] = Some ns" "ns \<noteq> []" "\<forall>s \<in> set ns. ready rules s \<and> stack_ok rules s"
      "\<And>c b. llama_grammar_match_char rules p c = Some (b, p') \<Longrightarrow> chr_next rules c (p # below) = (if b then set ns else {})"
      using char_top[OF rules less(2,3)[unfolded Cons]] by blast
    define v where "v = verdict_of rules st"
    define passed where "passed = filter (\<lambda>t. v t = Pass) cands"
    define rejects where "rejects = filter (\<lambda>t. v t = Reject) cands"
    have so: "sort_out (test_char rules p) cands = Some (rejects, passed)"
      unfolding rejects_def passed_def v_def by (rule sort_out_filter) (use test_char_verdict[OF rules(2) t(1,2,4,7,9)] less(4) Cons in blast)
    have pass: "cand_ok (cp_forward x)" "length (rest_cps (cp_forward x)) < n" "\<not> viable rules x st \<longleftrightarrow> (\<forall>s \<in> set ns. \<not> viable rules (cp_forward x) s)"
      if x: "x \<in> set passed" for x
    proof -
      from x have x': "cand_ok x" "length (rest_cps x) \<le> n" "v x = Pass" using less(4) by (auto simp: passed_def)
      obtain c where c: "rest_cps x = c # rest_cps (cp_forward x)" "cand_ok (cp_forward x)"
        by (rule code_point_cases[OF x'(1)]) (use x'(3) in \<open>auto simp: v_def verdict_of_def split: if_splits\<close>)
      obtain b where "llama_grammar_match_char rules p c = Some (b, p')" using t(4) by blast
      then have "chr_next rules c st = set ns" using t(9)[of c b] x'(3) c(1) Cons by (auto simp: v_def verdict_of_def split: if_splits)
      then show "cand_ok (cp_forward x)" "length (rest_cps (cp_forward x)) < n" "\<not> viable rules x st \<longleftrightarrow> (\<forall>s \<in> set ns. \<not> viable rules (cp_forward x) s)"
        using c x'(2) viable_forward[OF c(1), of rules st] by auto
    qed
    obtain b0 where m0: "llama_grammar_match_char rules p 0 = Some (b0, p')" using t(4) by blast
    have "\<exists>nr. (if passed = [] then Some [] else ofold (\<lambda>st toks. reject_candidates_for_stack rules st toks) ns (map cp_forward passed)) = Some nr \<and>
        mset (map cp_back nr) = filter_mset (\<lambda>t. \<not> viable rules t st) (mset passed)"
    proof (cases "passed = []")
      case False
      then have n: "n - 1 < n" using pass(2) by (cases passed) fastforce+
      have fw: "\<forall>t \<in> set (map cp_forward passed). cand_ok t \<and> length (rest_cps t) \<le> n - 1" using pass(1,2) by fastforce
      obtain nr where nr: "ofold (\<lambda>st toks. reject_candidates_for_stack rules st toks) ns (map cp_forward passed) = Some nr"
        "mset nr = filter_mset (\<lambda>t. \<forall>s \<in> set ns. \<not> viable rules t s) (mset (map cp_forward passed))"
        using ofold_filter[of ns "\<lambda>t. cand_ok t \<and> length (rest_cps t) \<le> n - 1" "\<lambda>st toks. reject_candidates_for_stack rules st toks" "\<lambda>s t. viable rules t s", OF _ fw]
          less(1)[OF n] t(8) by blast
      have "mset (map cp_back nr) = image_mset cp_back (filter_mset (\<lambda>t. \<forall>s \<in> set ns. \<not> viable rules t s) (image_mset cp_forward (mset passed)))"
        using nr(2) by simp
      also have "\<dots> = filter_mset (\<lambda>t. \<forall>s \<in> set ns. \<not> viable rules (cp_forward t) s) (mset passed)"
        by (simp add: filter_mset_image_mset image_mset.compositionality comp_def)
      also have "\<dots> = filter_mset (\<lambda>t. \<not> viable rules t st) (mset passed)" by (rule filter_mset_cong) (use pass(3) in auto)
      finally show ?thesis using nr(1) False by auto
    qed simp
    then obtain nr where nr: "(if passed = [] then Some [] else ofold (\<lambda>st toks. reject_candidates_for_stack rules st toks) ns (map cp_forward passed)) = Some nr"
        "mset (map cp_back nr) = filter_mset (\<lambda>t. \<not> viable rules t st) (mset passed)" by blast
    have "reject_candidates_for_stack rules st cands = Some (rejects @ map cp_back nr)"
      using t(1,3,5,6,7) so m0 nr(1) unfolding Cons by (subst reject_candidates_for_stack.simps) simp
    moreover have "mset (rejects @ map cp_back nr) = filter_mset (\<lambda>t. \<not> viable rules t st) (mset cands)"
      unfolding rejects_def mset_append nr(2) passed_def
      by (rule mset_filter_split) (use verdict_reject less(4) v_def in blast)
    ultimately show ?thesis by blast
  qed
qed

section \<open>All stacks\<close>

lemma reject_all:
  assumes "token_free rules" "wf_rules rules" "all_grounded rules" "stacks_ok rules stacks" "stacks \<noteq> []" "\<forall>t \<in> set cands. cand_ok t"
  shows "\<exists>rej. llama_grammar_reject_candidates rules stacks cands = Some rej \<and>
    mset rej = filter_mset (\<lambda>t. \<forall>st \<in> set stacks. \<not> viable rules t st) (mset cands)"
proof (cases "cands = []")
  case False
  define n where "n = Max ((\<lambda>t. length (rest_cps t)) ` set cands)"
  have "\<forall>t \<in> set cands. cand_ok t \<and> length (rest_cps t) \<le> n" using assms(6) by (simp add: n_def)
  from ofold_filter[of stacks "\<lambda>t. cand_ok t \<and> length (rest_cps t) \<le> n" "reject_candidates_for_stack rules" "\<lambda>st t. viable rules t st", OF _ this]
  obtain rej where "ofold (reject_candidates_for_stack rules) stacks cands = Some rej"
    "mset rej = filter_mset (\<lambda>t. \<forall>st \<in> set stacks. \<not> viable rules t st) (mset cands)"
    using reject_stack[OF assms(1-3)] assms(4) unfolding stacks_ok_def all_ready_def by blast
  then show ?thesis using False assms(5) by (simp add: llama_grammar_reject_candidates_def)
qed (use assms(5) in \<open>simp add: llama_grammar_reject_candidates_def\<close>)

lemma viable_some:
  assumes "wf_rules rules" "all_grounded rules" "stacks_ok rules stacks"
  shows "(\<exists>st \<in> set stacks. viable rules t st) \<longleftrightarrow>
    (\<exists>res s. ofold (accept_all rules) (rest_cps t) stacks = Some res \<and> s \<in> set res \<and> takes_partial rules (gc_partial_utf8 t) s)"
proof -
  obtain res where r: "ofold (accept_all rules) (rest_cps t) stacks = Some res" using accept_word_total[OF assms] by blast
  show ?thesis using accept_word_set[OF r] r by (auto simp: viable_def)
qed

lemma takeWhile_nonzero: "0 \<notin> set cs \<Longrightarrow> takeWhile (\<lambda>c. c \<noteq> (0::nat)) (cs @ [0]) = cs"
  by (induction cs) auto

text \<open>
  C35: The engine rejects exactly the candidates that leave the grammar. For a grammar object with valid stacks, at
  least one of them, over well-formed rules without left recursion and without
  token elements, and for candidates with nonzero code points the search ends, and a candidate is rejected exactly if
  accepting its code points one after the other leaves no stack, or none that can take the
  incomplete sequence at its end.
\<close>

theorem rejects_exactly:
  assumes "grammar_inv W g" "token_free (g_rules g)" "g_stacks g \<noteq> []"
    "\<forall>t \<in> set cands. gc_offset t = 0 \<and> (\<exists>cs. gc_code_points t = cs @ [0] \<and> 0 \<notin> set cs)"
  shows "\<exists>rejects. llama_grammar_reject_candidates (g_rules g) (g_stacks g) cands = Some rejects \<and>
    mset rejects = filter_mset (\<lambda>t. \<not> (\<exists>stacks st. ofold (accept_all (g_rules g)) (butlast (gc_code_points t)) (g_stacks g) = Some stacks \<and>
      st \<in> set stacks \<and> takes_partial (g_rules g) (gc_partial_utf8 t) st)) (mset cands)"
proof -
  note g = assms(1)[unfolded grammar_inv_def]
  have c: "cand_ok t" "rest_cps t = butlast (gc_code_points t)" if "t \<in> set cands" for t
    using assms(4) that takeWhile_nonzero by (fastforce simp: cand_ok_def rest_cps_def)+
  obtain rej where r: "llama_grammar_reject_candidates (g_rules g) (g_stacks g) cands = Some rej"
    "mset rej = filter_mset (\<lambda>t. \<forall>st \<in> set (g_stacks g). \<not> viable (g_rules g) t st) (mset cands)"
    using reject_all[OF assms(2), of "g_stacks g" cands] g assms(3) c(1) by blast
  moreover have "filter_mset (\<lambda>t. \<forall>st \<in> set (g_stacks g). \<not> viable (g_rules g) t st) (mset cands) =
      filter_mset (\<lambda>t. \<not> (\<exists>stacks st. ofold (accept_all (g_rules g)) (butlast (gc_code_points t)) (g_stacks g) = Some stacks \<and>
      st \<in> set stacks \<and> takes_partial (g_rules g) (gc_partial_utf8 t) st)) (mset cands)"
  proof (rule filter_mset_cong[OF refl])
    fix t assume "t \<in># mset cands"
    then have "rest_cps t = butlast (gc_code_points t)" using c(2) by simp
    then show "(\<forall>st \<in> set (g_stacks g). \<not> viable (g_rules g) t st) \<longleftrightarrow>
        \<not> (\<exists>stacks st. ofold (accept_all (g_rules g)) (butlast (gc_code_points t)) (g_stacks g) = Some stacks \<and>
        st \<in> set stacks \<and> takes_partial (g_rules g) (gc_partial_utf8 t) st)"
      using viable_some[of "g_rules g" "g_stacks g" t] g by metis
  qed
  ultimately show ?thesis by metis
qed

lemma example_grammar:
  obtains g where "llama_grammar_init_impl example_rules 0 False [] = Some (Some g)" "g_rules g = example_rules" "grammar_inv (grammar_words example_rules 0) g"
    "token_free example_rules" "g_stacks g \<noteq> []" "\<not> g_awaiting_trigger g"
proof -
  obtain g where g: "llama_grammar_init_impl example_rules 0 False [] = Some (Some g)" "g_rules g = example_rules" using example_rules_init by blast
  moreover have "token_free example_rules" by code_simp
  moreover have "\<not> g_awaiting_trigger g" using g(1) by (auto simp: llama_grammar_init_impl_def bind_Some_iff split: if_splits)
  ultimately show ?thesis using that init_grammar[OF g(1)] g(2) example_rules_sound example_rules_length by simp
qed

definition example_cands :: "llama_grammar_candidate list" where
  "example_cands = map (\<lambda>(i, c). \<lparr>gc_index = i, gc_code_points = [c, 0], gc_offset = 0, gc_partial_utf8 = \<lparr>pu_value = 0, pu_n_remain = 0\<rparr>, gc_id = int i\<rparr>)
     [(0, 0x62), (1, 0x7a)]"

theorem rejects_exactly_witness:
  "\<exists>g rejects. llama_grammar_init_impl example_rules 0 False [] = Some (Some g) \<and>
    llama_grammar_reject_candidates (g_rules g) (g_stacks g) example_cands = Some rejects \<and>
    mset rejects = filter_mset (\<lambda>t. \<not> (\<exists>stacks st. ofold (accept_all (g_rules g)) (butlast (gc_code_points t)) (g_stacks g) = Some stacks \<and>
      st \<in> set stacks \<and> takes_partial (g_rules g) (gc_partial_utf8 t) st)) (mset example_cands)"
proof -
  obtain g where g: "llama_grammar_init_impl example_rules 0 False [] = Some (Some g)" "g_rules g = example_rules" "grammar_inv (grammar_words example_rules 0) g"
    "token_free example_rules" "g_stacks g \<noteq> []" by (rule example_grammar)
  have tf: "token_free (g_rules g)" using g(2,4) by simp
  have "\<forall>t \<in> set example_cands. gc_offset t = 0 \<and> (\<exists>cs. gc_code_points t = cs @ [0] \<and> 0 \<notin> set cs)"
    by (simp add: example_cands_def Cons_eq_append_conv)
  from rejects_exactly[OF g(3) tf g(5) this] show ?thesis using g(1) by blast
qed

section \<open>Masking and accepting\<close>

lemma utf8_loop_ends: "\<exists>cs. fst (utf8_loop bs acc v n) = cs @ [0]"
  by (induction bs acc v n rule: utf8_loop.induct) (auto simp: Let_def split: prod.splits)

lemma decode_ends: "\<exists>cs. fst (decode_utf8 bs p) = cs @ [0]"
  using utf8_loop_ends by (auto simp: decode_utf8_def split: option.splits)

text \<open>A piece that has no code point leaves an incomplete or invalid sequence.\<close>

lemma utf8_loop_acc: "acc \<noteq> [] \<Longrightarrow> pu_n_remain (snd (utf8_loop bs acc v n)) = 0 \<Longrightarrow> fst (utf8_loop bs acc v n) \<noteq> [0]"
  by (induction bs acc v n rule: utf8_loop.induct) (auto simp: Let_def split: prod.splits if_splits)

lemma utf8_loop_progress: "bs \<noteq> [] \<Longrightarrow> pu_n_remain (snd (utf8_loop bs acc v n)) = 0 \<Longrightarrow> fst (utf8_loop bs acc v n) \<noteq> [0]"
proof (induction bs acc v n rule: utf8_loop.induct)
  case (2 b bs acc v n)
  let ?n = "utf8_lookup (drop_bit 4 b) - 1"
  have neg: "0 \<le> ?n" using 2(3) by (auto simp: Let_def split: if_splits)
  obtain rest w m where t: "utf8_tail bs (b AND mask (nat (7 - ?n))) ?n = (rest, w, m)" by (metis prod_cases3)
  have eq: "utf8_loop (b # bs) acc v n = utf8_loop rest (if m = 0 then acc @ [w] else acc) w m" using neg t by simp
  show ?case
  proof (cases "m = 0")
    case True
    then show ?thesis using 2(3) utf8_loop_acc[of "acc @ [w]"] unfolding eq by simp
  next
    case False
    then have "rest \<noteq> []" using 2(3) unfolding eq by auto
    then show ?thesis using 2(1)[OF refl _ t[symmetric] refl] 2(3) neg unfolding eq by simp
  qed
qed simp

lemma decode_nonempty:
  assumes "piece \<noteq> []" "hd piece \<noteq> 0" "fst (decode_utf8 piece p) = [0]"
  shows "pu_n_remain (snd (decode_utf8 piece p)) \<noteq> 0"
proof
  assume z: "pu_n_remain (snd (decode_utf8 piece p)) = 0"
  let ?bs = "takeWhile (\<lambda>b. b \<noteq> 0) piece"
  have ne: "?bs \<noteq> []" using assms(1,2) by (cases piece) auto
  show False
  proof (cases "utf8_continue ?bs (pu_value p) (pu_n_remain p)")
    case None
    then show False using z by (simp add: decode_utf8_def)
  next
    case (Some r)
    obtain rest w m where r: "r = (rest, w, m)" by (cases r)
    let ?acc = "if pu_n_remain p > 0 \<and> m = 0 then [w] else []"
    have d: "decode_utf8 piece p = utf8_loop rest ?acc w m" using Some r by (simp add: decode_utf8_def)
    have "rest = []" using utf8_loop_progress[of rest ?acc w m] z assms(3) d by auto
    then have "m = 0" "?acc = []" using z d assms(3) by (auto split: if_splits)
    then have "\<not> pu_n_remain p > 0" by (auto split: if_splits)
    then have "r = (?bs, pu_value p, pu_n_remain p)" using Some by (cases ?bs) auto
    then show False using ne \<open>rest = []\<close> r by simp
  qed
qed

definition masked :: "llama_token_data \<Rightarrow> llama_token_data" where
  "masked d = d\<lparr>td_logit := Minus_Infinity\<rparr>"

definition piece_of :: "llama_vocab \<Rightarrow> llama_token_data \<Rightarrow> bytes" where
  "piece_of vocab d = v_token_to_piece vocab (td_id d)"

text \<open>The tokens that become candidates, and those whose logit is masked at once.\<close>

definition is_candidate :: "llama_vocab \<Rightarrow> llama_token_data \<Rightarrow> bool" where
  "is_candidate vocab d \<longleftrightarrow> \<not> v_is_eog vocab (td_id d) \<and> piece_of vocab d \<noteq> [] \<and> hd (piece_of vocab d) \<noteq> 0"

definition masked_now :: "llama_vocab \<Rightarrow> llama_grammar \<Rightarrow> llama_token_data \<Rightarrow> bool" where
  "masked_now vocab g d \<longleftrightarrow> (if v_is_eog vocab (td_id d) then \<not> allow_eog g else \<not> is_candidate vocab d)"

definition candidate_of :: "llama_vocab \<Rightarrow> llama_grammar \<Rightarrow> llama_token_data list \<Rightarrow> nat \<Rightarrow> llama_grammar_candidate" where
  "candidate_of vocab g cur_p i = (let decoded = decode_utf8 (piece_of vocab (cur_p ! i)) (g_partial_utf8 g) in
     \<lparr>gc_index = i, gc_code_points = fst decoded, gc_offset = 0, gc_partial_utf8 = snd decoded, gc_id = td_id (cur_p ! i)\<rparr>)"

lemma apply_loop:
  "k \<le> length cur_p \<Longrightarrow> \<exists>cur. ofold (apply_step vocab g) [0..<k] (cur_p, []) =
      Some (cur, map (candidate_of vocab g cur_p) (filter (\<lambda>i. is_candidate vocab (cur_p ! i)) [0..<k])) \<and>
    length cur = length cur_p \<and> (\<forall>i < length cur_p. cur ! i = (if i < k \<and> masked_now vocab g (cur_p ! i) then masked (cur_p ! i) else cur_p ! i))"
proof (induction k)
  case (Suc k)
  then obtain cur where c: "ofold (apply_step vocab g) [0..<k] (cur_p, []) =
      Some (cur, map (candidate_of vocab g cur_p) (filter (\<lambda>i. is_candidate vocab (cur_p ! i)) [0..<k]))"
    "length cur = length cur_p" "\<forall>i < length cur_p. cur ! i = (if i < k \<and> masked_now vocab g (cur_p ! i) then masked (cur_p ! i) else cur_p ! i)" by auto
  have k: "k < length cur_p" "k < length cur" "cur ! k = cur_p ! k" using c(2,3) Suc(2) by auto
  let ?cands = "map (candidate_of vocab g cur_p) (filter (\<lambda>i. is_candidate vocab (cur_p ! i)) [0..<k])"
  have "apply_step vocab g k (cur, ?cands) = Some (if masked_now vocab g (cur_p ! k) then cur[k := masked (cur_p ! k)] else cur,
      if is_candidate vocab (cur_p ! k) then ?cands @ [candidate_of vocab g cur_p k] else ?cands)"
    using k by (simp add: apply_step_def Let_def masked_now_def is_candidate_def piece_of_def masked_def candidate_of_def)
  then have "ofold (apply_step vocab g) [0..<Suc k] (cur_p, []) = Some (if masked_now vocab g (cur_p ! k) then cur[k := masked (cur_p ! k)] else cur,
      map (candidate_of vocab g cur_p) (filter (\<lambda>i. is_candidate vocab (cur_p ! i)) [0..<Suc k]))"
    using c(1) by (simp add: ofold_append)
  then show ?case using c(2,3) k by (auto simp: nth_list_update less_Suc_eq)
qed simp

lemma mask_loop:
  "\<forall>t \<in> set rejects. gc_index t < length cur \<Longrightarrow> \<exists>cur'. ofold mask_logit rejects cur = Some cur' \<and> length cur' = length cur \<and>
    (\<forall>i < length cur. cur' ! i = (if i \<in> gc_index ` set rejects then masked (cur ! i) else cur ! i))"
proof (induction rejects arbitrary: cur)
  case (Cons t rejects)
  let ?cur = "cur[gc_index t := masked (cur ! gc_index t)]"
  have "mask_logit t cur = Some ?cur" using Cons(2) by (simp add: mask_logit_def masked_def)
  moreover obtain cur' where "ofold mask_logit rejects ?cur = Some cur'" "length cur' = length ?cur"
    "\<forall>i < length ?cur. cur' ! i = (if i \<in> gc_index ` set rejects then masked (?cur ! i) else ?cur ! i)"
    using Cons(1)[of ?cur] Cons(2) by auto
  moreover have "masked (masked d) = masked d" for d by (simp add: masked_def)
  ultimately show ?case using Cons(2) by (auto simp: nth_list_update_in)
qed simp

lemma apply_result:
  assumes "grammar_inv W g" "token_free (g_rules g)" "g_stacks g \<noteq> []" "\<not> g_awaiting_trigger g"
  shows "\<exists>cur'. llama_grammar_apply_impl vocab g cur_p = Some cur' \<and> length cur' = length cur_p \<and>
    (\<forall>i < length cur_p. cur' ! i = (if masked_now vocab g (cur_p ! i) \<or> is_candidate vocab (cur_p ! i) \<and>
       (\<forall>st \<in> set (g_stacks g). \<not> viable (g_rules g) (candidate_of vocab g cur_p i) st) then masked (cur_p ! i) else cur_p ! i))"
proof -
  note g = assms(1)[unfolded grammar_inv_def]
  let ?cands = "map (candidate_of vocab g cur_p) (filter (\<lambda>i. is_candidate vocab (cur_p ! i)) [0..<length cur_p])"
  let ?rejected = "\<lambda>i. is_candidate vocab (cur_p ! i) \<and> (\<forall>st \<in> set (g_stacks g). \<not> viable (g_rules g) (candidate_of vocab g cur_p i) st)"
  obtain cur where c: "ofold (apply_step vocab g) [0..<length cur_p] (cur_p, []) = Some (cur, ?cands)" "length cur = length cur_p"
    "\<forall>i < length cur_p. cur ! i = (if masked_now vocab g (cur_p ! i) then masked (cur_p ! i) else cur_p ! i)"
    using apply_loop[of "length cur_p" cur_p vocab g] by auto
  have "cand_ok (candidate_of vocab g cur_p i)" for i
    using decode_ends[of "piece_of vocab (cur_p ! i)" "g_partial_utf8 g"] by (auto simp: cand_ok_def candidate_of_def Let_def)
  then obtain rej where r: "llama_grammar_reject_candidates (g_rules g) (g_stacks g) ?cands = Some rej"
    "mset rej = filter_mset (\<lambda>t. \<forall>st \<in> set (g_stacks g). \<not> viable (g_rules g) t st) (mset ?cands)"
    using reject_all[OF assms(2), of "g_stacks g" ?cands] g assms(3) by auto
  have ix: "gc_index (candidate_of vocab g cur_p i) = i" for i by (simp add: candidate_of_def Let_def)
  have sr: "set rej = candidate_of vocab g cur_p ` {i. i < length cur_p \<and> ?rejected i}" using arg_cong[OF r(2), of set_mset] by auto
  have im: "gc_index ` set rej = {i. i < length cur_p \<and> ?rejected i}" unfolding sr by (auto simp: image_image ix)
  obtain cur' where m: "ofold mask_logit rej cur = Some cur'" "length cur' = length cur"
    "\<forall>i < length cur. cur' ! i = (if i \<in> gc_index ` set rej then masked (cur ! i) else cur ! i)"
    using mask_loop[of rej cur] sr c(2) ix by auto
  have "masked (masked d) = masked d" for d by (simp add: masked_def)
  then have "\<forall>i < length cur_p. cur' ! i = (if masked_now vocab g (cur_p ! i) \<or> ?rejected i then masked (cur_p ! i) else cur_p ! i)"
    using m(3) c(2,3) unfolding im by auto
  then show ?thesis using assms(4) c(1,2) r(1) m(1,2) by (simp add: llama_grammar_apply_impl_def)
qed

text \<open>A candidate is viable exactly if the token is accepted, up to the incomplete sequence at its end.\<close>

lemma survivors_next:
  assumes "wf_rules rules" "all_grounded rules" "ready rules st" "stack_ok rules st"
  shows "survivors rules cs st = (if st = [] then {} else next_set rules cs st)"
proof -
  obtain res where r: "ofold (accept_all rules) cs [st] = Some res" using accept_word_total[OF assms(1,2) single_ok[OF assms(3,4)]] by blast
  then show ?thesis using accept_word_set[OF r] by (simp add: survivors_def)
qed

lemma next_set_Nil: "cs \<noteq> [] \<Longrightarrow> next_set rules cs [] = {}"
  by (cases cs) auto

lemma viable_accepted:
  assumes "grammar_inv W g" "token_free (g_rules g)" "is_candidate vocab (cur_p ! i)"
    "0 \<notin> set (butlast (fst (decode_utf8 (piece_of vocab (cur_p ! i)) (g_partial_utf8 g))))"
  shows "(\<exists>st \<in> set (g_stacks g). viable (g_rules g) (candidate_of vocab g cur_p i) st) \<Longrightarrow>
      \<exists>g'. llama_grammar_accept_token (td_id (cur_p ! i)) (piece_of vocab (cur_p ! i)) g = Some (Inr g')"
    "pu_n_remain (snd (decode_utf8 (piece_of vocab (cur_p ! i)) (g_partial_utf8 g))) = 0 \<Longrightarrow>
      \<not> (\<exists>st \<in> set (g_stacks g). viable (g_rules g) (candidate_of vocab g cur_p i) st) \<Longrightarrow>
      \<exists>g'. llama_grammar_accept_token (td_id (cur_p ! i)) (piece_of vocab (cur_p ! i)) g = Some (Inl (Empty_Grammar_Stack, g'))"
proof -
  note g = assms(1)[unfolded grammar_inv_def]
  let ?rules = "g_rules g" and ?piece = "piece_of vocab (cur_p ! i)" and ?t = "candidate_of vocab g cur_p i"
  let ?dec = "decode_utf8 ?piece (g_partial_utf8 g)"
  define cs where "cs = butlast (fst ?dec)"
  have d: "fst ?dec = cs @ [0]" using decode_ends[of ?piece "g_partial_utf8 g"] by (auto simp: cs_def)
  have rc: "rest_cps ?t = cs" "gc_partial_utf8 ?t = snd ?dec"
    using takeWhile_nonzero[of cs] assms(4) d by (simp_all add: rest_cps_def candidate_of_def Let_def)
  obtain res where r: "ofold (accept_token_stack ?rules (td_id (cur_p ! i)) cs) (g_stacks g) [] = Some res"
    "set res = (\<Union>st \<in> set (g_stacks g). survivors ?rules cs st)"
    using feed_token_ok[OF assms(2), of "g_stacks g" "td_id (cur_p ! i)" cs] g by blast
  have sv: "survivors ?rules cs st = (if st = [] then {} else next_set ?rules cs st)" if "st \<in> set (g_stacks g)" for st
    using survivors_next[of ?rules st cs] g that by (auto simp: stacks_ok_def all_ready_def)
  have acc: "llama_grammar_accept_token (td_id (cur_p ! i)) ?piece g =
      (let g' = g\<lparr>g_stacks := res, g_partial_utf8 := snd ?dec\<rparr> in Some (if res = [] then Inl (Empty_Grammar_Stack, g') else Inr g'))"
    using r(1) by (simp add: llama_grammar_accept_token_def cs_def Let_def)
  show "\<exists>g'. llama_grammar_accept_token (td_id (cur_p ! i)) ?piece g = Some (Inr g')" if "\<exists>st \<in> set (g_stacks g). viable ?rules ?t st"
  proof -
    from that obtain st s where st: "st \<in> set (g_stacks g)" "s \<in> next_set ?rules cs st" "takes_partial ?rules (snd ?dec) s"
      by (auto simp: viable_def rc)
    have "st \<noteq> []"
    proof
      assume "st = []"
      then have "cs = []" "s = []" using st(2) next_set_Nil[of cs ?rules] by (cases cs; auto)+
      then have "pu_n_remain (snd ?dec) = 0" using st(3) by (simp add: takes_partial_def)
      then show False using decode_nonempty[of ?piece "g_partial_utf8 g"] assms(3) d \<open>cs = []\<close> by (simp add: is_candidate_def)
    qed
    then have "s \<in> set res" using r(2) sv st(1,2) by auto
    then show ?thesis using acc by (cases res) auto
  qed
  show "\<exists>g'. llama_grammar_accept_token (td_id (cur_p ! i)) ?piece g = Some (Inl (Empty_Grammar_Stack, g'))"
    if "pu_n_remain (snd ?dec) = 0" "\<not> (\<exists>st \<in> set (g_stacks g). viable ?rules ?t st)"
  proof -
    have "next_set ?rules cs st = {}" if "st \<in> set (g_stacks g)" for st
      using \<open>\<not> (\<exists>st \<in> set (g_stacks g). viable ?rules ?t st)\<close> \<open>pu_n_remain (snd ?dec) = 0\<close> that by (auto simp: viable_def rc takes_partial_def)
    then have "set res = {}" using r(2) sv by auto
    then show ?thesis using acc by simp
  qed
qed

text \<open>
  C36: Masking and accepting agree. For a grammar object that awaits no trigger, with valid stacks, at least one of
  them, over well-formed rules without left recursion and without token elements, the mask always returns and changes logits only.
  An end-of-generation token keeps its logit exactly if the grammar may end here, a token without text
  loses it, and any other token with nonzero code points is either kept, and then it is accepted, or
  masked, and then accepting it would throw unless its text ends in an incomplete or invalid sequence.
\<close>

theorem kept_tokens_are_accepted:
  assumes "grammar_inv W g" "token_free (g_rules g)" "g_stacks g \<noteq> []" "\<not> g_awaiting_trigger g"
  shows "\<exists>cur'. llama_grammar_apply_impl vocab g cur_p = Some cur' \<and> length cur' = length cur_p \<and>
    (\<forall>i < length cur_p. \<exists>keep. cur' ! i = (if keep then cur_p ! i else masked (cur_p ! i)) \<and>
      (let piece = piece_of vocab (cur_p ! i); decoded = decode_utf8 piece (g_partial_utf8 g); r = llama_grammar_accept_token (td_id (cur_p ! i)) piece g in
       if v_is_eog vocab (td_id (cur_p ! i)) then keep = allow_eog g
       else if piece = [] \<or> hd piece = 0 then \<not> keep
       else 0 \<notin> set (butlast (fst decoded)) \<longrightarrow>
         (keep \<longrightarrow> (\<exists>g'. r = Some (Inr g'))) \<and> (pu_n_remain (snd decoded) = 0 \<longrightarrow> \<not> keep \<longrightarrow> (\<exists>g'. r = Some (Inl (Empty_Grammar_Stack, g'))))))"
proof -
  obtain cur' where c: "llama_grammar_apply_impl vocab g cur_p = Some cur'" "length cur' = length cur_p"
    "\<And>i. i < length cur_p \<Longrightarrow> cur' ! i = (if masked_now vocab g (cur_p ! i) \<or> is_candidate vocab (cur_p ! i) \<and>
       (\<forall>st \<in> set (g_stacks g). \<not> viable (g_rules g) (candidate_of vocab g cur_p i) st) then masked (cur_p ! i) else cur_p ! i)"
    using apply_result[OF assms, of vocab cur_p] by blast
  show ?thesis
  proof (intro exI[of _ cur'] conjI allI impI c(1,2), goal_cases)
    case (1 i)
    define keep where "keep \<longleftrightarrow> \<not> (masked_now vocab g (cur_p ! i) \<or> is_candidate vocab (cur_p ! i) \<and>
       (\<forall>st \<in> set (g_stacks g). \<not> viable (g_rules g) (candidate_of vocab g cur_p i) st))"
    have k: "cur' ! i = (if keep then cur_p ! i else masked (cur_p ! i))" using c(3)[OF 1] by (auto simp: keep_def)
    have eog: "keep = allow_eog g" if "v_is_eog vocab (td_id (cur_p ! i))" using that by (auto simp: keep_def masked_now_def is_candidate_def)
    have empty: "\<not> keep" if "\<not> v_is_eog vocab (td_id (cur_p ! i))" "piece_of vocab (cur_p ! i) = [] \<or> hd (piece_of vocab (cur_p ! i)) = 0"
      using that by (auto simp: keep_def masked_now_def is_candidate_def)
    have kv: "keep \<longleftrightarrow> (\<exists>st \<in> set (g_stacks g). viable (g_rules g) (candidate_of vocab g cur_p i) st)" if "is_candidate vocab (cur_p ! i)"
      using that by (auto simp: keep_def masked_now_def is_candidate_def)
    show ?case
    proof (cases "v_is_eog vocab (td_id (cur_p ! i)) \<or> piece_of vocab (cur_p ! i) = [] \<or> hd (piece_of vocab (cur_p ! i)) = 0")
      case True
      then show ?thesis using k eog empty by (intro exI[of _ keep]) (auto simp: Let_def)
    next
      case False
      then have cand: "is_candidate vocab (cur_p ! i)" by (simp add: is_candidate_def)
      have n: "\<not> v_is_eog vocab (td_id (cur_p ! i))" "\<not> (piece_of vocab (cur_p ! i) = [] \<or> hd (piece_of vocab (cur_p ! i)) = 0)" using False by auto
      show ?thesis unfolding Let_def if_not_P[OF n(1)] if_not_P[OF n(2)]
        by (intro exI[of _ keep] conjI impI k) (use viable_accepted[OF assms(1,2) cand] kv[OF cand] in blast)+
    qed
  qed
qed

text \<open>A vocabulary with a token for each byte, and 256 for the end of generation.\<close>

definition byte_vocab :: llama_vocab where
  "byte_vocab = \<lparr>v_token_to_piece = (\<lambda>t. if t = 256 then [] else [nat t]), v_is_eog = (\<lambda>t. t = 256)\<rparr>"

theorem kept_tokens_are_accepted_witness:
  "\<exists>g g' g''. llama_grammar_init_impl example_rules 0 False [] = Some (Some g) \<and>
    llama_grammar_apply_impl byte_vocab g [\<lparr>td_id = 256, td_logit = Logit 1\<rparr>, \<lparr>td_id = 0x62, td_logit = Logit 2\<rparr>, \<lparr>td_id = 0x7a, td_logit = Logit 3\<rparr>] =
      Some [\<lparr>td_id = 256, td_logit = Minus_Infinity\<rparr>, \<lparr>td_id = 0x62, td_logit = Logit 2\<rparr>, \<lparr>td_id = 0x7a, td_logit = Minus_Infinity\<rparr>] \<and>
    llama_grammar_accept_token 0x62 [0x62] g = Some (Inr g') \<and> llama_grammar_accept_token 0x7a [0x7a] g = Some (Inl (Empty_Grammar_Stack, g''))"
proof -
  let ?cur = "[\<lparr>td_id = 256, td_logit = Logit 1\<rparr>, \<lparr>td_id = 0x62, td_logit = Logit 2\<rparr>, \<lparr>td_id = 0x7a, td_logit = Logit 3\<rparr>] :: llama_token_data list"
  obtain g where g: "llama_grammar_init_impl example_rules 0 False [] = Some (Some g)" "g_rules g = example_rules" "grammar_inv (grammar_words example_rules 0) g"
    "token_free example_rules" "g_stacks g \<noteq> []" "\<not> g_awaiting_trigger g" by (rule example_grammar)
  have tf: "token_free (g_rules g)" using g(2,4) by simp
  have "llama_grammar_init_impl example_rules 0 False [] \<bind> (\<lambda>x. x \<bind> (\<lambda>g. llama_grammar_apply_impl byte_vocab g ?cur)) =
      Some [\<lparr>td_id = 256, td_logit = Minus_Infinity\<rparr>, \<lparr>td_id = 0x62, td_logit = Logit 2\<rparr>, \<lparr>td_id = 0x7a, td_logit = Minus_Infinity\<rparr>]"
    by code_simp
  then have cur': "llama_grammar_apply_impl byte_vocab g ?cur =
      Some [\<lparr>td_id = 256, td_logit = Minus_Infinity\<rparr>, \<lparr>td_id = 0x62, td_logit = Logit 2\<rparr>, \<lparr>td_id = 0x7a, td_logit = Minus_Infinity\<rparr>]"
    by (simp add: g(1))
  have p: "g_partial_utf8 g = \<lparr>pu_value = 0, pu_n_remain = 0\<rparr>" using g(1) by (auto simp: llama_grammar_init_impl_def bind_Some_iff split: if_splits)
  have d: "decode_utf8 [0x62] (g_partial_utf8 g) = ([0x62, 0], \<lparr>pu_value = 0x62, pu_n_remain = 0\<rparr>)"
    "decode_utf8 [0x7a] (g_partial_utf8 g) = ([0x7a, 0], \<lparr>pu_value = 0x7a, pu_n_remain = 0\<rparr>)" unfolding p by code_simp+
  from kept_tokens_are_accepted[OF g(3) tf g(5,6), of byte_vocab ?cur, unfolded cur' option.inject]
  have K: "\<forall>i < length ?cur. \<exists>keep. [\<lparr>td_id = 256, td_logit = Minus_Infinity\<rparr>, \<lparr>td_id = 0x62, td_logit = Logit 2\<rparr>, \<lparr>td_id = 0x7a, td_logit = Minus_Infinity\<rparr>] ! i =
      (if keep then ?cur ! i else masked (?cur ! i)) \<and>
      (let piece = piece_of byte_vocab (?cur ! i); decoded = decode_utf8 piece (g_partial_utf8 g); r = llama_grammar_accept_token (td_id (?cur ! i)) piece g in
       if v_is_eog byte_vocab (td_id (?cur ! i)) then keep = allow_eog g
       else if piece = [] \<or> hd piece = 0 then \<not> keep
       else 0 \<notin> set (butlast (fst decoded)) \<longrightarrow>
         (keep \<longrightarrow> (\<exists>g'. r = Some (Inr g'))) \<and> (pu_n_remain (snd decoded) = 0 \<longrightarrow> \<not> keep \<longrightarrow> (\<exists>g'. r = Some (Inl (Empty_Grammar_Stack, g')))))"
    by (elim exE conjE) (simp only:)
  have "\<exists>g'. llama_grammar_accept_token 0x62 [0x62] g = Some (Inr g')"
    using spec[OF K, of "Suc 0", unfolded nth_Cons_Suc nth_Cons_0]
    by (auto simp: byte_vocab_def piece_of_def d Let_def masked_def split: if_splits)
  moreover have "\<exists>g'. llama_grammar_accept_token 0x7a [0x7a] g = Some (Inl (Empty_Grammar_Stack, g'))"
    using spec[OF K, of "Suc (Suc 0)", unfolded nth_Cons_Suc nth_Cons_0]
    by (auto simp: byte_vocab_def piece_of_def d Let_def split: if_splits)
  ultimately show ?thesis using g(1) cur' by blast
qed

section \<open>Where masking and accepting disagree\<close>

text \<open>The grammar \<open>root ::= "a" <[5]>\<close> at its start, and a vocabulary whose token 5 has the text \<open>ab\<close>.\<close>

definition mixed_grammar :: llama_grammar where
  "mixed_grammar = \<lparr>g_rules = [[gre GRETYPE_CHAR 0x61, gre GRETYPE_TOKEN 5, gre GRETYPE_END 0]], g_stacks = [[(0, 0)]],
     g_partial_utf8 = \<lparr>pu_value = 0, pu_n_remain = 0\<rparr>, g_lazy = False, g_awaiting_trigger = False, g_trigger_buffer = [],
     g_trigger_buffer_positions = [], g_trigger_tokens = []\<rparr>"

definition mixed_vocab :: llama_vocab where
  "mixed_vocab = \<lparr>v_token_to_piece = (\<lambda>t. if t = 5 then [0x61, 0x62] else [0x61]), v_is_eog = (\<lambda>_. False)\<rparr>"

text \<open>
  A token element inside the text of a token is not handled alike. At the start of the grammar above
  the mask keeps token 5, whose text runs past the character into the token element, and accepting it throws.
\<close>

lemma token_element_mismatch:
  "llama_grammar_init_impl (g_rules mixed_grammar) 0 False [] = Some (Some mixed_grammar) \<and>
   llama_grammar_apply_impl mixed_vocab mixed_grammar [\<lparr>td_id = 5, td_logit = Logit 1\<rparr>] = Some [\<lparr>td_id = 5, td_logit = Logit 1\<rparr>] \<and>
   llama_grammar_accept_impl mixed_vocab [] 5 mixed_grammar = Some (Inl (Empty_Grammar_Stack, mixed_grammar\<lparr>g_stacks := [], g_partial_utf8 := \<lparr>pu_value = 0x62, pu_n_remain = 0\<rparr>\<rparr>))"
  by (intro conjI) code_simp+

end
