(* ===== verification/Grammar_Parser.thy ===== *)
theory Grammar_Parser
  imports Grammar_Correct "HOL-Library.AList"
begin

text \<open>
  The parser of the grammar notation (\<open>src/src/llama-grammar.cpp\<close>, \<open>llama_grammar_parser\<close>).

  A pointer into the text is the list of bytes from there on; the end of the list is the
  terminating zero. The C++ exceptions are values of \<open>parse_error\<close>. The two mutually
  recursive functions take fuel; \<open>Out_Of_Fuel\<close> is no exception of the code, and
  \<open>parse\<close> supplies enough fuel never to meet it. The tokenizer is a parameter, \<open>None\<close> for
  a null vocabulary.
\<close>

section \<open>Errors and characters\<close>

datatype parse_error = Expecting_Hex | Expecting_Name | Expecting_Integer | Unknown_Escape | Unexpected_End | Out_Of_Range
  | Expecting_Lt | Expecting_Rbracket | Expecting_Gt | No_Vocab | Invalid_Token | Expecting_Item | Expecting_Rparen
  | Expecting_Int | Expecting_Rbrace | Expecting_Comma | Too_Many_Repetitions | Expecting_Define | Expecting_Newline
  | Undefined_Rule | Undefined_Identifier | Out_Of_Fuel

definition ebind :: "parse_error + 'a \<Rightarrow> ('a \<Rightarrow> parse_error + 'b) \<Rightarrow> parse_error + 'b" where
  "ebind r f = (case r of Inl e \<Rightarrow> Inl e | Inr x \<Rightarrow> f x)"

lemma ebind_simps [simp]: "ebind (Inl e) f = Inl e" "ebind (Inr x) f = f x"
  by (simp_all add: ebind_def)

lemma ebind_Inr: "ebind r f = Inr y \<longleftrightarrow> (\<exists>x. r = Inr x \<and> f x = Inr y)"
  by (cases r) auto

text \<open>The byte at a position, zero at the end.\<close>

definition cur :: "bytes \<Rightarrow> nat" where
  "cur pos = (case pos of [] \<Rightarrow> 0 | c # _ \<Rightarrow> c)"

definition is_digit_char :: "nat \<Rightarrow> bool" where
  "is_digit_char c \<longleftrightarrow> 48 \<le> c \<and> c \<le> 57"

definition is_word_char :: "nat \<Rightarrow> bool" where
  "is_word_char c \<longleftrightarrow> (97 \<le> c \<and> c \<le> 122) \<or> (65 \<le> c \<and> c \<le> 90) \<or> c = 45 \<or> is_digit_char c"

section \<open>Tokens of the notation\<close>

text \<open>\<open>decode_utf8(src)\<close>: one code point, without a check of its bytes.\<close>

fun utf8_chars :: "nat \<Rightarrow> bytes \<Rightarrow> nat \<Rightarrow> nat \<times> bytes" where
  "utf8_chars 0 pos value = (value, pos)"
| "utf8_chars (Suc n) pos value = (case pos of
     [] \<Rightarrow> (value, pos)
   | b # pos' \<Rightarrow> utf8_chars n pos' ((value * 64 + (b AND 0x3F)) mod 2 ^ 32))"

definition decode_utf8_char :: "bytes \<Rightarrow> nat \<times> bytes" where
  "decode_utf8_char src = (let first_byte = cur src; len = [1, 1, 1, 1, 1, 1, 1, 1, 1, 1, 1, 1, 2, 2, 3, 4] ! drop_bit 4 first_byte
     in utf8_chars (len - 1) (tl src) (first_byte AND mask (8 - len)))"

definition hex_digit :: "nat \<Rightarrow> nat option" where
  "hex_digit c = (if 97 \<le> c \<and> c \<le> 102 then Some (c - 97 + 10) else if 65 \<le> c \<and> c \<le> 70 then Some (c - 65 + 10)
     else if 48 \<le> c \<and> c \<le> 57 then Some (c - 48) else None)"

fun hex_loop :: "nat \<Rightarrow> bytes \<Rightarrow> nat \<Rightarrow> parse_error + (nat \<times> bytes)" where
  "hex_loop 0 pos value = Inr (value, pos)"
| "hex_loop (Suc n) pos value = (case pos of
     [] \<Rightarrow> Inl Expecting_Hex
   | c # pos' \<Rightarrow> (case hex_digit c of None \<Rightarrow> Inl Expecting_Hex | Some d \<Rightarrow> hex_loop n pos' ((value * 16 + d) mod 2 ^ 32)))"

definition parse_hex :: "bytes \<Rightarrow> nat \<Rightarrow> parse_error + (nat \<times> bytes)" where
  "parse_hex src n = hex_loop n src 0"

function parse_space :: "bytes \<Rightarrow> bool \<Rightarrow> bytes" where
  "parse_space [] newline_ok = []"
| "parse_space (c # pos) newline_ok =
    (if c = 35 then parse_space (dropWhile (\<lambda>c. c \<noteq> 13 \<and> c \<noteq> 10) pos) newline_ok
     else if c = 32 \<or> c = 9 \<or> newline_ok \<and> (c = 13 \<or> c = 10) then parse_space pos newline_ok
     else c # pos)"
  by pat_completeness auto
termination
  by (relation "measure (\<lambda>(pos, _). length pos)") (auto simp: length_dropWhile_le le_imp_less_Suc)

definition parse_name :: "bytes \<Rightarrow> parse_error + (bytes \<times> bytes)" where
  "parse_name src = (let name = takeWhile is_word_char src in if name = [] then Inl Expecting_Name else Inr (name, drop (length name) src))"

definition parse_int :: "bytes \<Rightarrow> parse_error + (bytes \<times> bytes)" where
  "parse_int src = (let ds = takeWhile is_digit_char src in if ds = [] then Inl Expecting_Integer else Inr (ds, drop (length ds) src))"

text \<open>\<open>std::stoul\<close> and \<open>std::stoull\<close> on a string of digits.\<close>

definition stoull :: "bytes \<Rightarrow> parse_error + int" where
  "stoull ds = (let v = foldl (\<lambda>v d. v * 10 + int (d - 48)) 0 ds in if v < 2 ^ 64 then Inr v else Inl Out_Of_Range)"

definition parse_char :: "bytes \<Rightarrow> parse_error + (nat \<times> bytes)" where
  "parse_char src =
    (if cur src = 92 then
       (let c = cur (tl src); pos = tl (tl src) in
        if c = 120 then parse_hex pos 2
        else if c = 117 then parse_hex pos 4
        else if c = 85 then parse_hex pos 8
        else if c = 116 then Inr (9, pos)
        else if c = 114 then Inr (13, pos)
        else if c = 110 then Inr (10, pos)
        else if c = 92 \<or> c = 34 \<or> c = 91 \<or> c = 93 then Inr (c, pos)
        else Inl Unknown_Escape)
     else if cur src \<noteq> 0 then Inr (decode_utf8_char src)
     else Inl Unexpected_End)"

text \<open>\<open>parse_token\<close>; the text given to the tokenizer is the token with its brackets.\<close>

definition parse_token :: "(bytes \<Rightarrow> llama_token list) option \<Rightarrow> bytes \<Rightarrow> parse_error + (nat \<times> bytes)" where
  "parse_token tokenize src =
    (if cur src \<noteq> 60 then Inl Expecting_Lt
     else let pos = tl src in
       if cur pos = 91 then
         ebind (parse_int (tl pos)) (\<lambda>(ds, pos). ebind (stoull ds) (\<lambda>token_id.
           if cur pos \<noteq> 93 then Inl Expecting_Rbracket
           else if cur (tl pos) \<noteq> 62 then Inl Expecting_Gt
           else Inr (nat (token_id mod 2 ^ 32), tl (tl pos))))
       else (case tokenize of
           None \<Rightarrow> Inl No_Vocab
         | Some tok \<Rightarrow>
             (let name = takeWhile (\<lambda>c. c \<noteq> 62) pos; rest = drop (length name) pos in
              if cur rest \<noteq> 62 then Inl Expecting_Gt
              else (case tok (60 # name @ [62]) of [t] \<Rightarrow> Inr (token_u32 t, tl rest) | _ \<Rightarrow> Inl Invalid_Token))))"

section \<open>Lengths\<close>

text \<open>Every token of the notation is read from the front of the text, and is not empty.\<close>

lemma length_tl_cur: "cur pos \<noteq> 0 \<Longrightarrow> length (tl pos) < length pos"
  by (cases pos) (auto simp: cur_def)

lemma length_utf8_chars: "utf8_chars n pos v = (c, rest) \<Longrightarrow> length rest \<le> length pos"
  by (induction n pos v rule: utf8_chars.induct) (auto split: list.splits intro: le_SucI)

lemma length_hex_loop: "hex_loop n pos v = Inr (c, rest) \<Longrightarrow> length rest \<le> length pos"
  by (induction n pos v rule: hex_loop.induct) (auto split: list.splits option.splits intro: le_SucI)

lemma length_parse_space: "length (parse_space pos b) \<le> length pos"
proof (induction pos b rule: parse_space.induct)
  case (2 c pos b)
  then show ?case using length_dropWhile_le[of "\<lambda>c. c \<noteq> 13 \<and> c \<noteq> 10" pos] by auto
qed simp

lemma length_parse_char: "parse_char src = Inr (c, rest) \<Longrightarrow> length rest < length src"
proof -
  assume p: "parse_char src = Inr (c, rest)"
  then obtain x t where s: "src = x # t" by (cases src) (auto simp: parse_char_def cur_def)
  have "length rest \<le> length t"
    using p length_hex_loop[of _ "tl t" 0 c rest] length_utf8_chars[of _ t _ c rest] diff_le_self[of "length t" 1]
    by (fastforce simp: parse_char_def s cur_def parse_hex_def decode_utf8_char_def Let_def split: if_splits list.splits)
  then show ?thesis by (simp add: s)
qed

lemma length_parse_name: "parse_name src = Inr (n, rest) \<Longrightarrow> length rest < length src"
  by (cases src) (auto simp: parse_name_def Let_def split: if_splits)

lemma length_parse_int: "parse_int src = Inr (n, rest) \<Longrightarrow> length rest < length src"
  by (cases src) (auto simp: parse_int_def Let_def split: if_splits)

lemma length_parse_token: "parse_token tokenize src = Inr (t, rest) \<Longrightarrow> length rest < length src"
proof -
  assume p: "parse_token tokenize src = Inr (t, rest)"
  then obtain x pos where s: "src = x # pos" by (cases src) (auto simp: parse_token_def cur_def)
  have "length rest \<le> length pos"
  proof (cases "cur pos = 91")
    case True
    with p s obtain ds p' where d: "parse_int (tl pos) = Inr (ds, p')" "rest = tl (tl p')"
      by (auto simp: parse_token_def cur_def Let_def ebind_Inr split: if_splits prod.splits)
    then show ?thesis using length_parse_int[OF d(1)] by simp
  next
    case False
    with p s have "rest = tl (drop (length (takeWhile (\<lambda>c. c \<noteq> 62) pos)) pos)"
      by (auto simp: parse_token_def cur_def Let_def split: if_splits option.splits list.splits)
    then show ?thesis by simp
  qed
  then show ?thesis by (simp add: s)
qed

section \<open>The state of the parser\<close>

text \<open>The map of symbols is kept in the order of insertion; its size is the next id.\<close>

record llama_grammar_parser =
  symbol_ids :: "(bytes \<times> nat) list"
  parser_rules :: llama_grammar_rules

definition get_symbol_id :: "bytes \<Rightarrow> llama_grammar_parser \<Rightarrow> nat \<times> llama_grammar_parser" where
  "get_symbol_id name P = (case map_of (symbol_ids P) name of
     Some i \<Rightarrow> (i, P)
   | None \<Rightarrow> let next_id = u32 (length (symbol_ids P)) in (next_id, P\<lparr>symbol_ids := symbol_ids P @ [(name, next_id)]\<rparr>))"

text \<open>\<open>std::to_string\<close>.\<close>

fun to_string :: "nat \<Rightarrow> bytes" where
  "to_string n = (if n < 10 then [48 + n] else to_string (n div 10) @ [48 + n mod 10])"

declare to_string.simps [simp del]

definition generate_symbol_id :: "bytes \<Rightarrow> llama_grammar_parser \<Rightarrow> nat \<times> llama_grammar_parser" where
  "generate_symbol_id base_name P = (let next_id = u32 (length (symbol_ids P)) in
     (next_id, P\<lparr>symbol_ids := AList.update (base_name @ [95] @ to_string next_id) next_id (symbol_ids P)\<rparr>))"

text \<open>
  The new size is computed in \<open>uint32_t\<close>. For the id \<open>2 ^ 32 - 1\<close> it is 0, and the code then writes behind the end of the
  empty vector, where the list below stays as it is; the lemmas about rules are for parsers with fewer symbols.
\<close>

definition add_rule :: "nat \<Rightarrow> llama_grammar_rule \<Rightarrow> llama_grammar_parser \<Rightarrow> llama_grammar_parser" where
  "add_rule rule_id rule P =
    (let n = u32 (rule_id + 1);
         rs = (if length (parser_rules P) \<le> rule_id then take n (parser_rules P) @ replicate (n - length (parser_rules P)) [] else parser_rules P)
     in P\<lparr>parser_rules := rs[rule_id := rule]\<rparr>)"

section \<open>Repetitions\<close>

definition gel :: "llama_gretype \<Rightarrow> nat \<Rightarrow> llama_grammar_element" where
  "gel t v = \<lparr>ge_type = t, ge_value = v\<rparr>"

definition UINT64_MAX :: int where
  "UINT64_MAX = 2 ^ 64 - 1"

text \<open>The rules for the optional repetitions; the id of the last one is the result.\<close>

definition opt_rule :: "bytes \<Rightarrow> llama_grammar_rule \<Rightarrow> bool \<Rightarrow> nat \<Rightarrow> nat \<times> llama_grammar_parser \<Rightarrow> nat \<times> llama_grammar_parser" where
  "opt_rule rule_name prev_rule no_max i = (\<lambda>(last_rec_rule_id, P).
     let (rec_rule_id, P) = generate_symbol_id rule_name P;
         rec_rule = prev_rule @ (if i > 0 \<or> no_max then [gel GRETYPE_RULE_REF (if no_max then rec_rule_id else last_rec_rule_id)] else [])
           @ [gel GRETYPE_ALT 0, gel GRETYPE_END 0]
     in (rec_rule_id, add_rule rec_rule_id rec_rule P))"

text \<open>\<open>n_opt\<close> is computed in \<open>uint64_t\<close>.\<close>

definition n_opt :: "int \<Rightarrow> int \<Rightarrow> nat" where
  "n_opt min_times max_times = (if max_times = UINT64_MAX then 1 else nat ((max_times - min_times) mod 2 ^ 64))"

definition handle_repetitions :: "bytes \<Rightarrow> int \<Rightarrow> int \<Rightarrow> nat \<Rightarrow> llama_grammar_rule \<Rightarrow> llama_grammar_parser \<Rightarrow>
    parse_error + (llama_grammar_rule \<times> llama_grammar_parser)" where
  "handle_repetitions rule_name min_times max_times last_sym_start rule P =
    (if last_sym_start = length rule then Inl Expecting_Item
     else let no_max = (max_times = UINT64_MAX);
              prev_rule = drop last_sym_start rule;
              rule = (if min_times = 0 then take last_sym_start rule else rule @ concat (replicate (nat (min_times - 1)) prev_rule));
              n = n_opt min_times max_times;
              (last_rec_rule_id, P) = fold (opt_rule rule_name prev_rule no_max) [0..<n] (0, P)
          in Inr (if n > 0 then rule @ [gel GRETYPE_RULE_REF last_rec_rule_id] else rule, P))"

definition MAX_REPETITION_THRESHOLD :: int where
  "MAX_REPETITION_THRESHOLD = 2000"

text \<open>The bounds in braces: the two numbers and the position behind them.\<close>

definition parse_bounds :: "bool \<Rightarrow> bytes \<Rightarrow> parse_error + (int \<times> int \<times> bytes)" where
  "parse_bounds is_nested pos =
    (if \<not> is_digit_char (cur pos) then Inl Expecting_Int
     else ebind (parse_int pos) (\<lambda>(ds, int_end). ebind (stoull ds) (\<lambda>min_times.
       let pos = parse_space int_end is_nested in
       ebind (if cur pos = 125 then Inr (min_times, parse_space (tl pos) is_nested)
              else if cur pos = 44 then
                (let pos = parse_space (tl pos) is_nested in
                 ebind (if is_digit_char (cur pos)
                        then ebind (parse_int pos) (\<lambda>(ds, int_end). ebind (stoull ds) (\<lambda>max_times. Inr (max_times, parse_space int_end is_nested)))
                        else Inr (UINT64_MAX, pos))
                   (\<lambda>(max_times, pos). if cur pos \<noteq> 125 then Inl Expecting_Rbrace else Inr (max_times, parse_space (tl pos) is_nested)))
              else Inl Expecting_Comma)
         (\<lambda>(max_times, pos).
            if min_times > MAX_REPETITION_THRESHOLD \<or> (max_times \<noteq> UINT64_MAX \<and> max_times > MAX_REPETITION_THRESHOLD)
            then Inl Too_Many_Repetitions else Inr (min_times, max_times, pos)))))"

section \<open>Literals and ranges\<close>

function lit_loop :: "bytes \<Rightarrow> llama_grammar_rule \<Rightarrow> parse_error + (llama_grammar_rule \<times> bytes)" where
  "lit_loop pos rule =
    (if cur pos = 34 then Inr (rule, pos)
     else if cur pos = 0 then Inl Unexpected_End
     else case parse_char pos of Inl e \<Rightarrow> Inl e | Inr (c, pos') \<Rightarrow> lit_loop pos' (rule @ [gel GRETYPE_CHAR c]))"
  by pat_completeness auto
termination
  by (relation "measure (\<lambda>(pos, _). length pos)") (auto dest: length_parse_char)

declare lit_loop.simps [simp del]

function range_loop :: "llama_gretype \<Rightarrow> nat \<Rightarrow> bytes \<Rightarrow> llama_grammar_rule \<Rightarrow> parse_error + (llama_grammar_rule \<times> bytes)" where
  "range_loop start_type last_sym_start pos rule =
    (if cur pos = 93 then Inr (rule, pos)
     else if cur pos = 0 then Inl Unexpected_End
     else case parse_char pos of
         Inl e \<Rightarrow> Inl e
       | Inr (c, pos1) \<Rightarrow>
           (let rule1 = rule @ [gel (if last_sym_start < length rule then GRETYPE_CHAR_ALT else start_type) c] in
            if cur pos1 = 45 \<and> cur (tl pos1) \<noteq> 93 then
              (if cur (tl pos1) = 0 then Inl Unexpected_End
               else case parse_char (tl pos1) of
                   Inl e \<Rightarrow> Inl e
                 | Inr (c2, pos2) \<Rightarrow> range_loop start_type last_sym_start pos2 (rule1 @ [gel GRETYPE_CHAR_RNG_UPPER c2]))
            else range_loop start_type last_sym_start pos1 rule1))"
  by pat_completeness auto
termination
proof (relation "measure (\<lambda>(_, _, pos, _). length pos)", goal_cases)
  case (2 st ls pos rule x c pos1 rule1 y c2 pos2)
  then show ?case using length_parse_char[of pos c pos1] length_parse_char[of "tl pos1" c2 pos2] by auto
next
  case (3 st ls pos rule x c pos1 rule1)
  then show ?case using length_parse_char[of pos c pos1] by auto
qed simp

declare range_loop.simps [simp del]

section \<open>Sequences and alternates\<close>

text \<open>
  One step of the loop of \<open>parse_sequence\<close>, except for groups: the start of the last symbol, the rule so far, the parser and
  the position; \<open>None\<close> leaves the loop.
\<close>

definition parse_item :: "(bytes \<Rightarrow> llama_token list) option \<Rightarrow> bytes \<Rightarrow> bool \<Rightarrow> nat \<Rightarrow> llama_grammar_rule \<Rightarrow> llama_grammar_parser \<Rightarrow> bytes \<Rightarrow>
    (parse_error + (nat \<times> llama_grammar_rule \<times> llama_grammar_parser \<times> bytes)) option" where
  "parse_item tokenize rule_name is_nested last_sym_start rule P pos =
    (let rep = (\<lambda>min_times max_times pos.
           ebind (handle_repetitions rule_name min_times max_times last_sym_start rule P) (\<lambda>(rule, P). Inr (last_sym_start, rule, P, pos)))
     in if cur pos = 34 then
          Some (ebind (lit_loop (tl pos) rule) (\<lambda>(rule', pos). Inr (length rule, rule', P, parse_space (tl pos) is_nested)))
        else if cur pos = 91 then
          (let neg = (cur (tl pos) = 94) in
           Some (ebind (range_loop (if neg then GRETYPE_CHAR_NOT else GRETYPE_CHAR) (length rule) (if neg then tl (tl pos) else tl pos) rule)
             (\<lambda>(rule', pos). Inr (length rule, rule', P, parse_space (tl pos) is_nested))))
        else if cur pos = 60 \<or> cur pos = 33 then
          (let neg = (cur pos = 33) in
           Some (ebind (parse_token tokenize (if neg then tl pos else pos))
             (\<lambda>(t, pos). Inr (length rule, rule @ [gel (if neg then GRETYPE_TOKEN_NOT else GRETYPE_TOKEN) t], P, parse_space pos is_nested))))
        else if is_word_char (cur pos) then
          Some (ebind (parse_name pos) (\<lambda>(name, name_end).
            let (ref_rule_id, P) = get_symbol_id name P
            in Inr (length rule, rule @ [gel GRETYPE_RULE_REF ref_rule_id], P, parse_space name_end is_nested)))
        else if cur pos = 46 then Some (Inr (length rule, rule @ [gel GRETYPE_CHAR_ANY 0], P, parse_space (tl pos) is_nested))
        else if cur pos = 42 then Some (rep 0 UINT64_MAX (parse_space (tl pos) is_nested))
        else if cur pos = 43 then Some (rep 1 UINT64_MAX (parse_space (tl pos) is_nested))
        else if cur pos = 63 then Some (rep 0 1 (parse_space (tl pos) is_nested))
        else if cur pos = 123 then
          Some (ebind (parse_bounds is_nested (parse_space (tl pos) is_nested)) (\<lambda>(min_times, max_times, pos). rep min_times max_times pos))
        else None)"

function seq_loop :: "nat \<Rightarrow> (bytes \<Rightarrow> llama_token list) option \<Rightarrow> bytes \<Rightarrow> bool \<Rightarrow> nat \<Rightarrow> llama_grammar_rule \<Rightarrow> llama_grammar_parser \<Rightarrow> bytes \<Rightarrow>
    parse_error + (llama_grammar_rule \<times> llama_grammar_parser \<times> bytes)"
and alt_loop :: "nat \<Rightarrow> (bytes \<Rightarrow> llama_token list) option \<Rightarrow> bytes \<Rightarrow> nat \<Rightarrow> bool \<Rightarrow> llama_grammar_rule \<Rightarrow> llama_grammar_parser \<Rightarrow> bytes \<Rightarrow>
    parse_error + (llama_grammar_parser \<times> bytes)"
and parse_alternates :: "nat \<Rightarrow> (bytes \<Rightarrow> llama_token list) option \<Rightarrow> bytes \<Rightarrow> nat \<Rightarrow> bool \<Rightarrow> llama_grammar_parser \<Rightarrow> bytes \<Rightarrow>
    parse_error + (llama_grammar_parser \<times> bytes)" where
  "seq_loop 0 tokenize rule_name is_nested last_sym_start rule P pos = Inl Out_Of_Fuel"
| "seq_loop (Suc n) tokenize rule_name is_nested last_sym_start rule P pos =
    (if cur pos = 40 then
       (let (sub_rule_id, P) = generate_symbol_id rule_name P in
        ebind (parse_alternates n tokenize rule_name sub_rule_id True P (parse_space (tl pos) True)) (\<lambda>(P, pos).
          if cur pos \<noteq> 41 then Inl Expecting_Rparen
          else seq_loop n tokenize rule_name is_nested (length rule) (rule @ [gel GRETYPE_RULE_REF sub_rule_id]) P (parse_space (tl pos) is_nested)))
     else case parse_item tokenize rule_name is_nested last_sym_start rule P pos of
         None \<Rightarrow> Inr (rule, P, pos)
       | Some r \<Rightarrow> ebind r (\<lambda>(last_sym_start, rule, P, pos). seq_loop n tokenize rule_name is_nested last_sym_start rule P pos))"
| "alt_loop 0 tokenize rule_name rule_id is_nested rule P pos = Inl Out_Of_Fuel"
| "alt_loop (Suc n) tokenize rule_name rule_id is_nested rule P pos =
    (if cur pos = 124 then
       (let rule = rule @ [gel GRETYPE_ALT 0] in
        ebind (seq_loop n tokenize rule_name is_nested (length rule) rule P (parse_space (tl pos) True)) (\<lambda>(rule, P, pos).
          alt_loop n tokenize rule_name rule_id is_nested rule P pos))
     else Inr (add_rule rule_id (rule @ [gel GRETYPE_END 0]) P, pos))"
| "parse_alternates 0 tokenize rule_name rule_id is_nested P pos = Inl Out_Of_Fuel"
| "parse_alternates (Suc n) tokenize rule_name rule_id is_nested P pos =
    ebind (seq_loop n tokenize rule_name is_nested 0 [] P pos) (\<lambda>(rule, P, pos). alt_loop n tokenize rule_name rule_id is_nested rule P pos)"
  by pat_completeness auto
termination
  by (relation "measure (\<lambda>x. case x of Inl (n, _) \<Rightarrow> n | Inr (Inl (n, _)) \<Rightarrow> n | Inr (Inr (n, _)) \<Rightarrow> n)") auto

section \<open>Rules\<close>

text \<open>The fuel for a text.\<close>

definition alt_fuel :: "bytes \<Rightarrow> nat" where
  "alt_fuel pos = 2 * length pos + 2"

definition parse_rule :: "(bytes \<Rightarrow> llama_token list) option \<Rightarrow> llama_grammar_parser \<Rightarrow> bytes \<Rightarrow> parse_error + (llama_grammar_parser \<times> bytes)" where
  "parse_rule tokenize P src = ebind (parse_name src) (\<lambda>(name, name_end).
     let pos = parse_space name_end False;
         (rule_id, P) = get_symbol_id name P
     in if \<not> (cur pos = 58 \<and> cur (tl pos) = 58 \<and> cur (tl (tl pos)) = 61) then Inl Expecting_Define
        else let pos = parse_space (drop 3 pos) True in
          ebind (parse_alternates (alt_fuel pos) tokenize name rule_id False P pos) (\<lambda>(P, pos).
            if cur pos = 13 then Inr (P, parse_space (if cur (tl pos) = 10 then tl (tl pos) else tl pos) True)
            else if cur pos = 10 then Inr (P, parse_space (tl pos) True)
            else if cur pos \<noteq> 0 then Inl Expecting_Newline
            else Inr (P, parse_space pos True)))"

fun rules_loop :: "nat \<Rightarrow> (bytes \<Rightarrow> llama_token list) option \<Rightarrow> llama_grammar_parser \<Rightarrow> bytes \<Rightarrow> parse_error + llama_grammar_parser" where
  "rules_loop 0 tokenize P pos = Inl Out_Of_Fuel"
| "rules_loop (Suc n) tokenize P pos = (if cur pos = 0 then Inr P
     else ebind (parse_rule tokenize P pos) (\<lambda>(P, pos). rules_loop n tokenize P pos))"

text \<open>The validation: the first error in the order of the code.\<close>

definition elem_error :: "llama_grammar_parser \<Rightarrow> llama_grammar_element \<Rightarrow> bool" where
  "elem_error P e \<longleftrightarrow> ge_type e = GRETYPE_RULE_REF \<and>
     (ge_value e \<ge> length (parser_rules P) \<or> parser_rules P ! ge_value e = []) \<and> ge_value e \<in> snd ` set (symbol_ids P)"

fun first_rule_error :: "llama_grammar_parser \<Rightarrow> llama_grammar_rules \<Rightarrow> parse_error option" where
  "first_rule_error P [] = None"
| "first_rule_error P (rule # rules) =
    (if rule = [] then Some Undefined_Rule
     else if \<exists>e \<in> set rule. elem_error P e then Some Undefined_Identifier
     else first_rule_error P rules)"

definition parse_text :: "(bytes \<Rightarrow> llama_token list) option \<Rightarrow> bytes \<Rightarrow> parse_error + llama_grammar_parser" where
  "parse_text tokenize src = (let pos = parse_space src True in
     ebind (rules_loop (Suc (length pos)) tokenize \<lparr>symbol_ids = [], parser_rules = []\<rparr> pos) (\<lambda>P.
       case first_rule_error P (parser_rules P) of Some e \<Rightarrow> Inl e | None \<Rightarrow> Inr P))"

text \<open>\<open>parse\<close>: the parser with its rules, and \<open>None\<close> when it returns false.\<close>

definition parse :: "(bytes \<Rightarrow> llama_token list) option \<Rightarrow> bytes \<Rightarrow> llama_grammar_parser option" where
  "parse tokenize src = (case parse_text tokenize (takeWhile (\<lambda>c. c \<noteq> 0) src) of Inl e \<Rightarrow> None | Inr P \<Rightarrow> Some P)"

text \<open>\<open>llama_grammar_init_impl\<close> on a text: \<open>Some None\<close> is the null pointer, \<open>None\<close> an exception, an assertion or no return.\<close>

definition llama_grammar_init_str :: "(bytes \<Rightarrow> llama_token list) option \<Rightarrow> bytes \<Rightarrow> bytes \<Rightarrow> bool \<Rightarrow> llama_token list \<Rightarrow> llama_grammar option option" where
  "llama_grammar_init_str tokenize grammar_str grammar_root lazy trigger_tokens =
    (case parse tokenize grammar_str of
       None \<Rightarrow> Some None
     | Some P \<Rightarrow>
         if parser_rules P = [] then Some None
         else if map_of (symbol_ids P) [114, 111, 111, 116] = None then Some None
         else (case map_of (symbol_ids P) grammar_root of
             None \<Rightarrow> None
           | Some start_rule_index \<Rightarrow> llama_grammar_init_impl (parser_rules P) start_rule_index lazy trigger_tokens))"

end
