(* ===== verification/Grammar_Parse_Wf.thy ===== *)
theory Grammar_Parse_Wf
  imports Grammar_Parser
begin

text \<open>
  What the parser produces: it always returns, and rules that it returns are well formed, so that
  the theorems about the engine apply to them.
\<close>

section \<open>Bodies of rules\<close>

text \<open>The elements that continue a character range follow one; \<open>p\<close> is the type of the element before the list.\<close>

definition follows :: "llama_gretype option \<Rightarrow> llama_gretype \<Rightarrow> bool" where
  "follows p t \<longleftrightarrow>
     (t = GRETYPE_CHAR_RNG_UPPER \<longrightarrow> p \<in> Some ` {GRETYPE_CHAR, GRETYPE_CHAR_NOT, GRETYPE_CHAR_ALT}) \<and>
     (t = GRETYPE_CHAR_ALT \<longrightarrow> p \<in> Some ` {GRETYPE_CHAR, GRETYPE_CHAR_NOT, GRETYPE_CHAR_ALT, GRETYPE_CHAR_RNG_UPPER})"

fun chain :: "llama_gretype option \<Rightarrow> llama_grammar_rule \<Rightarrow> bool" where
  "chain p [] \<longleftrightarrow> True"
| "chain p (e # es) \<longleftrightarrow> follows p (ge_type e) \<and> chain (Some (ge_type e)) es"

lemma chain_None: "chain None es \<Longrightarrow> chain p es"
  by (cases es) (auto simp: follows_def)

lemma chain_append: "chain p (xs @ ys) \<longleftrightarrow> chain p xs \<and> chain (if xs = [] then p else Some (ge_type (last xs))) ys"
  by (induction xs arbitrary: p) auto

lemma chain_append_None: "chain None xs \<Longrightarrow> chain None ys \<Longrightarrow> chain None (xs @ ys)"
  by (simp add: chain_append chain_None)

lemma chain_nth:
  assumes "chain p es" "i < length es"
  shows "follows (if i = 0 then p else Some (ge_type (es ! (i - 1)))) (ge_type (es ! i))"
proof -
  have "es = take i es @ es ! i # drop (Suc i) es" using assms(2) by (simp add: id_take_nth_drop)
  then have "chain (if take i es = [] then p else Some (ge_type (last (take i es)))) (es ! i # drop (Suc i) es)"
    using assms(1) chain_append by metis
  moreover have "i \<noteq> 0 \<Longrightarrow> last (take i es) = es ! (i - 1)" using assms(2) by (subst last_conv_nth) (auto simp: min_def)
  ultimately show ?thesis using assms(2) by (cases "i = 0"; cases "es = []") auto
qed

text \<open>The ids of \<open>n\<close> symbols; they are truncated to 32 bits, so nothing is said of them from there on.\<close>

definition id_ok :: "nat \<Rightarrow> nat \<Rightarrow> bool" where
  "id_ok n i \<longleftrightarrow> (n < 2 ^ 32 \<longrightarrow> i < n)"

lemma id_ok_mono: "id_ok n i \<Longrightarrow> n \<le> m \<Longrightarrow> id_ok m i"
  by (auto simp: id_ok_def)

definition elem_ok :: "nat \<Rightarrow> llama_grammar_element \<Rightarrow> bool" where
  "elem_ok n e \<longleftrightarrow> ge_type e \<noteq> GRETYPE_END \<and> (ge_type e = GRETYPE_RULE_REF \<longrightarrow> id_ok n (ge_value e))"

definition body_ok :: "nat \<Rightarrow> llama_grammar_rule \<Rightarrow> bool" where
  "body_ok n es \<longleftrightarrow> chain None es \<and> (\<forall>e \<in> set es. elem_ok n e)"

lemma body_ok_simps [simp]: "body_ok n []"
  "body_ok n [gel t v] \<longleftrightarrow> t \<notin> {GRETYPE_END, GRETYPE_CHAR_RNG_UPPER, GRETYPE_CHAR_ALT} \<and> (t = GRETYPE_RULE_REF \<longrightarrow> id_ok n v)"
  by (auto simp: body_ok_def elem_ok_def gel_def follows_def)

lemma body_ok_append: "body_ok n xs \<Longrightarrow> body_ok n ys \<Longrightarrow> body_ok n (xs @ ys)"
  by (auto simp: body_ok_def chain_append_None)

lemma body_ok_mono: "body_ok n xs \<Longrightarrow> n \<le> m \<Longrightarrow> body_ok m xs"
  by (auto simp: body_ok_def elem_ok_def intro: id_ok_mono)

lemma body_ok_repeat: "body_ok n xs \<Longrightarrow> body_ok n (concat (replicate k xs))"
  by (induction k) (auto intro: body_ok_append)

text \<open>A finished rule.\<close>

definition closed :: "nat \<Rightarrow> llama_grammar_rule \<Rightarrow> bool" where
  "closed n rule \<longleftrightarrow> (\<exists>body. rule = body @ [gel GRETYPE_END 0] \<and> body_ok n body)"

lemma closed_wf:
  assumes "closed m rule" "\<And>e. e \<in> set rule \<Longrightarrow> ge_type e = GRETYPE_RULE_REF \<Longrightarrow> ge_value e < n"
  shows "wf_rule n rule"
proof -
  obtain body where b: "rule = body @ [gel GRETYPE_END 0]" "body_ok m body" using assms(1) by (auto simp: closed_def)
  have c: "chain None rule" using b by (auto simp: body_ok_def gel_def follows_def intro!: chain_append_None)
  have e: "ge_type (rule ! i) \<noteq> GRETYPE_END \<and> (ge_type (rule ! i) = GRETYPE_RULE_REF \<longrightarrow> ge_value (rule ! i) < n)" if "i < length body" for i
    using b that assms(2)[of "rule ! i"] by (auto simp: nth_append body_ok_def elem_ok_def)
  have l: "ge_type (rule ! length body) = GRETYPE_END" using b(1) by (simp add: gel_def)
  have "wf_rule n rule"
    unfolding wf_rule_def
  proof (intro conjI allI impI)
    show "rule \<noteq> []" "ge_type (last rule) = GRETYPE_END" using b(1) by (simp_all add: gel_def)
    fix i assume i: "i < length rule"
    then consider "i < length body" | "i = length body" using b(1) by fastforce
    then show "ge_type (rule ! i) = GRETYPE_END \<Longrightarrow> i = length rule - 1" "ge_type (rule ! i) = GRETYPE_RULE_REF \<Longrightarrow> ge_value (rule ! i) < n"
      using e l b(1) by (cases; force)+
    note f = chain_nth[OF c i]
    show "ge_type (rule ! i) = GRETYPE_CHAR_RNG_UPPER \<Longrightarrow> 0 < i" "ge_type (rule ! i) = GRETYPE_CHAR_ALT \<Longrightarrow> 0 < i"
      using f by (cases "i = 0"; auto simp: follows_def)+
    show "ge_type (rule ! i) = GRETYPE_CHAR_RNG_UPPER \<Longrightarrow> ge_type (rule ! (i - 1)) \<in> {GRETYPE_CHAR, GRETYPE_CHAR_NOT, GRETYPE_CHAR_ALT}"
      "ge_type (rule ! i) = GRETYPE_CHAR_ALT \<Longrightarrow> ge_type (rule ! (i - 1)) \<in> {GRETYPE_CHAR, GRETYPE_CHAR_NOT, GRETYPE_CHAR_ALT, GRETYPE_CHAR_RNG_UPPER}"
      using f by (cases "i = 0"; auto simp: follows_def)+
  qed
  then show ?thesis .
qed

lemma closed_copy: "closed n rule \<Longrightarrow> copy_rule rule = Some rule"
proof -
  assume "closed n rule"
  then obtain body where b: "rule = body @ [gel GRETYPE_END 0]" "\<forall>e \<in> set body. ge_type e \<noteq> GRETYPE_END"
    by (auto simp: closed_def body_ok_def elem_ok_def)
  have "takeWhile (\<lambda>e. ge_type e \<noteq> GRETYPE_END) rule = body" using b by (simp add: takeWhile_append gel_def)
  then show ?thesis using b(1) by (simp add: copy_rule_def gre_end_def gel_def)
qed

section \<open>Symbols\<close>

lemma to_string_digits: "c \<in> set (to_string n) \<Longrightarrow> 48 \<le> c \<and> c \<le> 57"
  by (induction n rule: to_string.induct) (subst (asm) (2) to_string.simps, fastforce split: if_splits)

definition of_digits :: "bytes \<Rightarrow> nat" where
  "of_digits ds = foldl (\<lambda>v d. v * 10 + (d - 48)) 0 ds"

lemma of_digits_to_string: "of_digits (to_string n) = n"
proof (induction n rule: to_string.induct)
  case (1 n)
  show ?case
  proof (cases "n < 10")
    case False
    then show ?thesis using 1 by (subst to_string.simps) (simp add: of_digits_def)
  qed (subst to_string.simps, simp add: of_digits_def)
qed

lemma to_string_inj: "to_string m = to_string n \<Longrightarrow> m = n"
  using of_digits_to_string by metis

definition symbols_ok :: "(bytes \<times> nat) list \<Rightarrow> bool" where
  "symbols_ok syms \<longleftrightarrow> length syms < 2 ^ 32 \<longrightarrow> map snd syms = [0..<length syms] \<and>
     (\<forall>(k, v) \<in> set syms. 95 \<in> set k \<longrightarrow> (\<exists>base. 95 \<notin> set base \<and> k = base @ [95] @ to_string v))"

lemma symbols_ok_ids: "symbols_ok syms \<Longrightarrow> length syms < 2 ^ 32 \<Longrightarrow> snd ` set syms = {0..<length syms}"
  unfolding symbols_ok_def by (metis set_map set_upt)

lemma symbols_ok_fresh:
  assumes "symbols_ok syms" "95 \<notin> set base" "length syms < 2 ^ 32"
  shows "base @ [95] @ to_string (length syms) \<notin> fst ` set syms"
proof
  let ?k = "base @ [95] @ to_string (length syms)"
  assume "?k \<in> fst ` set syms"
  then obtain v where v: "(?k, v) \<in> set syms" by auto
  then obtain base' where b: "95 \<notin> set base'" "?k = base' @ [95] @ to_string v" using assms(1,3) by (fastforce simp: symbols_ok_def)
  have "base = takeWhile (\<lambda>c. c \<noteq> 95) ?k" using assms(2) by (metis (mono_tags, lifting) append_Cons append_Nil2 takeWhile.simps(2) takeWhile_append2)
  also have "\<dots> = base'" unfolding b(2) using b(1) by (metis (mono_tags, lifting) append_Cons append_Nil2 takeWhile.simps(2) takeWhile_append2)
  finally have "v = length syms" using b(2) to_string_inj by simp
  moreover have "v < length syms" using symbols_ok_ids[OF assms(1,3)] v by force
  ultimately show False by simp
qed

lemma update_fresh: "k \<notin> fst ` set al \<Longrightarrow> AList.update k v al = al @ [(k, v)]"
  by (induction al) auto

lemma symbols_ok_append:
  "symbols_ok syms \<Longrightarrow> (95 \<in> set k \<Longrightarrow> \<exists>base. 95 \<notin> set base \<and> k = base @ [95] @ to_string (length syms)) \<Longrightarrow> symbols_ok (syms @ [(k, length syms)])"
  by (auto simp: symbols_ok_def)

definition parser_inv :: "llama_grammar_parser \<Rightarrow> bool" where
  "parser_inv P \<longleftrightarrow> symbols_ok (symbol_ids P) \<and> (\<forall>rule \<in> set (parser_rules P). rule = [] \<or> closed (length (symbol_ids P)) rule)"

text \<open>The invariant holds afterwards and no symbol is lost.\<close>

definition grown :: "llama_grammar_parser \<Rightarrow> llama_grammar_parser \<Rightarrow> bool" where
  "grown P P' \<longleftrightarrow> parser_inv P' \<and> length (symbol_ids P) \<le> length (symbol_ids P')"

lemma grown_refl: "parser_inv P \<Longrightarrow> grown P P"
  by (simp add: grown_def)

lemma grown_trans: "grown P Q \<Longrightarrow> grown Q R \<Longrightarrow> grown P R"
  by (simp add: grown_def)

lemma closed_mono: "closed n rule \<Longrightarrow> n \<le> m \<Longrightarrow> closed m rule"
  by (auto simp: closed_def intro: body_ok_mono)

lemma get_symbol_grown:
  assumes "get_symbol_id name P = (i, P')" "parser_inv P" "95 \<notin> set name"
  shows "grown P P' \<and> id_ok (length (symbol_ids P')) i"
proof (cases "map_of (symbol_ids P) name")
  case None
  let ?n = "length (symbol_ids P)"
  have P': "P' = P\<lparr>symbol_ids := symbol_ids P @ [(name, u32 ?n)]\<rparr>" "i = u32 ?n" using None assms(1) by (auto simp: get_symbol_id_def Let_def)
  have "symbols_ok (symbol_ids P @ [(name, u32 ?n)])"
    using assms(2,3) symbols_ok_append[of "symbol_ids P" name] by (cases "Suc ?n < 2 ^ 32") (auto simp: parser_inv_def symbols_ok_def)
  then show ?thesis unfolding P' using assms(2) by (auto simp: grown_def parser_inv_def id_ok_def intro: closed_mono)
next
  case (Some j)
  then have "P' = P" "i = j" using assms(1) by (auto simp: get_symbol_id_def)
  moreover have "id_ok (length (symbol_ids P)) j"
    using map_of_SomeD[OF Some] symbols_ok_ids[of "symbol_ids P"] assms(2) by (force simp: parser_inv_def id_ok_def)
  ultimately show ?thesis using grown_refl[OF assms(2)] by simp
qed

lemma length_update: "length al \<le> length (AList.update k v al)"
  by (induction al) auto

text \<open>Below the limit a generated name is a new one.\<close>

lemma generate_symbol_fresh:
  assumes "generate_symbol_id base P = (i, P')" "parser_inv P" "95 \<notin> set base" "length (symbol_ids P) < 2 ^ 32"
  shows "i = length (symbol_ids P)" "P' = P\<lparr>symbol_ids := symbol_ids P @ [(base @ [95] @ to_string i, i)]\<rparr>"
proof -
  have "symbols_ok (symbol_ids P)" using assms(2) by (simp add: parser_inv_def)
  from update_fresh[OF symbols_ok_fresh[OF this assms(3,4)]] assms(1,4)
  show "i = length (symbol_ids P)" "P' = P\<lparr>symbol_ids := symbol_ids P @ [(base @ [95] @ to_string i, i)]\<rparr>"
    by (auto simp: generate_symbol_id_def Let_def)
qed

lemma generate_symbol_grown:
  assumes "generate_symbol_id base P = (i, P')" "parser_inv P" "95 \<notin> set base"
  shows "grown P P' \<and> id_ok (length (symbol_ids P')) i \<and> parser_rules P' = parser_rules P"
proof -
  have le: "length (symbol_ids P) \<le> length (symbol_ids P')" "parser_rules P' = parser_rules P"
    using assms(1) length_update by (auto simp: generate_symbol_id_def Let_def)
  have "symbols_ok (symbol_ids P') \<and> id_ok (length (symbol_ids P')) i"
  proof (cases "length (symbol_ids P') < 2 ^ 32")
    case True
    then have "length (symbol_ids P) < 2 ^ 32" using le(1) by linarith
    from generate_symbol_fresh[OF assms this] show ?thesis
      using assms(2,3) symbols_ok_append[of "symbol_ids P" "base @ [95] @ to_string i"] by (auto simp: parser_inv_def id_ok_def)
  qed (simp add: symbols_ok_def id_ok_def)
  then show ?thesis using assms(2) le closed_mono[OF _ le(1)] by (auto simp: grown_def parser_inv_def)
qed

lemma add_rule_grown: "parser_inv P \<Longrightarrow> closed (length (symbol_ids P)) rule \<Longrightarrow> grown P (add_rule i rule P) \<and> symbol_ids (add_rule i rule P) = symbol_ids P"
  by (auto simp: grown_def parser_inv_def add_rule_def Let_def dest!: set_update_subset_insert[THEN subsetD] in_set_takeD)

section \<open>Repetitions\<close>

lemma opt_rule_grown:
  assumes "opt_rule name prev no_max i (l, P) = (l', P')" "parser_inv P" "95 \<notin> set name" "body_ok (length (symbol_ids P)) prev" "i > 0 \<Longrightarrow> id_ok (length (symbol_ids P)) l"
  shows "grown P P' \<and> id_ok (length (symbol_ids P')) l'"
proof -
  obtain k Q where Q: "generate_symbol_id name P = (k, Q)" by (cases "generate_symbol_id name P")
  note g = generate_symbol_grown[OF Q assms(2,3)]
  let ?n = "length (symbol_ids Q)"
  let ?ref = "if i > 0 \<or> no_max then [gel GRETYPE_RULE_REF (if no_max then k else l)] else []"
  have "body_ok ?n (prev @ ?ref @ [gel GRETYPE_ALT 0])"
    using g assms(4,5) by (intro body_ok_append) (auto simp: grown_def intro: body_ok_mono id_ok_mono)
  then have "closed ?n (prev @ ?ref @ [gel GRETYPE_ALT 0, gel GRETYPE_END 0])" by (auto simp: closed_def)
  from add_rule_grown[OF _ this, of k] have "grown Q P' \<and> symbol_ids P' = symbol_ids Q \<and> l' = k"
    using assms(1) g Q by (auto simp: opt_rule_def Let_def grown_def)
  then show ?thesis using g grown_trans by auto
qed

lemma opt_rules_grown:
  "fold (opt_rule name prev no_max) [0..<n] (0, P) = (l, P') \<Longrightarrow> parser_inv P \<Longrightarrow> 95 \<notin> set name \<Longrightarrow> body_ok (length (symbol_ids P)) prev \<Longrightarrow>
    grown P P' \<and> (n > 0 \<longrightarrow> id_ok (length (symbol_ids P')) l)"
proof (induction n arbitrary: l P')
  case 0
  then show ?case by (simp add: grown_refl)
next
  case (Suc n)
  obtain l1 P1 where f: "fold (opt_rule name prev no_max) [0..<n] (0, P) = (l1, P1)" by (cases "fold (opt_rule name prev no_max) [0..<n] (0, P)")
  note g = Suc(1)[OF f Suc(3-5)]
  have "grown P1 P' \<and> id_ok (length (symbol_ids P')) l"
    by (rule opt_rule_grown[of name prev no_max n l1 P1]) (use Suc(2,4,5) f g in \<open>auto simp: grown_def intro: body_ok_mono\<close>)
  then show ?case using g grown_trans by blast
qed

text \<open>The rule so far: everything before and from the start of the last symbol.\<close>

definition rule_ok :: "nat \<Rightarrow> nat \<Rightarrow> llama_grammar_rule \<Rightarrow> bool" where
  "rule_ok n k rule \<longleftrightarrow> k \<le> length rule \<and> body_ok n (take k rule) \<and> body_ok n (drop k rule)"

lemma rule_ok_body: "rule_ok n k rule \<Longrightarrow> body_ok n rule"
  unfolding rule_ok_def by (metis append_take_drop_id body_ok_append)

lemma rule_ok_push: "rule_ok n k rule \<Longrightarrow> n \<le> m \<Longrightarrow> body_ok m es \<Longrightarrow> rule_ok m (length rule) (rule @ es)"
  by (simp add: rule_ok_def[of m] body_ok_mono[OF rule_ok_body])

lemma rule_ok_mono: "rule_ok n k rule \<Longrightarrow> n \<le> m \<Longrightarrow> rule_ok m k rule"
  by (auto simp: rule_ok_def intro: body_ok_mono)

lemma rule_ok_start: "body_ok n rule \<Longrightarrow> rule_ok n (length rule) rule"
  by (simp add: rule_ok_def)

lemma repetitions_grown:
  assumes "handle_repetitions name lo hi k rule P = Inr (rule', P')" "parser_inv P" "95 \<notin> set name" "rule_ok (length (symbol_ids P)) k rule"
  shows "grown P P' \<and> rule_ok (length (symbol_ids P')) k rule'"
proof -
  let ?prev = "drop k rule" and ?n = "n_opt lo hi"
  define mid where "mid = (if lo = 0 then take k rule else rule @ concat (replicate (nat (lo - 1)) ?prev))"
  obtain l Q where f: "fold (opt_rule name ?prev (hi = UINT64_MAX)) [0..<?n] (0, P) = (l, Q)" by (cases "fold (opt_rule name ?prev (hi = UINT64_MAX)) [0..<?n] (0, P)")
  have r: "rule' = (if ?n > 0 then mid @ [gel GRETYPE_RULE_REF l] else mid)" "P' = Q"
    using assms(1) f by (auto simp: handle_repetitions_def Let_def mid_def split: if_splits)
  have k: "k \<le> length rule" "body_ok (length (symbol_ids P)) (take k rule)" "body_ok (length (symbol_ids P)) ?prev" using assms(4) by (auto simp: rule_ok_def)
  have g: "grown P Q" "?n > 0 \<longrightarrow> id_ok (length (symbol_ids Q)) l" using opt_rules_grown[OF f assms(2,3) k(3)] by auto
  then have le: "length (symbol_ids P) \<le> length (symbol_ids Q)" by (simp add: grown_def)
  let ?m = "length (symbol_ids Q)"
  have b: "body_ok ?m (take k rule)" "body_ok ?m ?prev" "body_ok ?m (concat (replicate j ?prev))" for j
    using k(2,3) le body_ok_mono body_ok_repeat by blast+
  have md: "take k mid = take k rule" "body_ok ?m (drop k mid)" "k \<le> length mid"
    using k(1) b by (auto simp: mid_def intro: body_ok_append)
  have "body_ok ?m (drop k rule')" "take k rule' = take k rule" "k \<le> length rule'"
    unfolding r(1) using md g(2) by (auto intro: body_ok_append)
  then show ?thesis using g(1) b(1) r(2) by (simp add: rule_ok_def)
qed

section \<open>Items\<close>

lemma lit_loop_adds: "lit_loop pos rule = Inr (rule', pos') \<Longrightarrow> (\<exists>es. rule' = rule @ es \<and> body_ok n es) \<and> length pos' \<le> length pos \<and> cur pos' = 34"
proof (induction pos rule rule: lit_loop.induct)
  case (1 pos rule)
  show ?case
  proof (cases "cur pos = 34 \<or> cur pos = 0")
    case True
    then show ?thesis using 1(2) by (subst (asm) lit_loop.simps) auto
  next
    case False
    with 1(2) obtain c p where c: "parse_char pos = Inr (c, p)" "lit_loop p (rule @ [gel GRETYPE_CHAR c]) = Inr (rule', pos')"
      by (subst (asm) lit_loop.simps) (auto split: sum.splits)
    from 1(1)[OF _ _ c(1) refl c(2)] False length_parse_char[OF c(1)] body_ok_append[of n "[gel GRETYPE_CHAR c]"] show ?thesis by auto
  qed
qed

text \<open>A character range: all its elements are characters, and they follow each other properly.\<close>

definition range_ok :: "llama_grammar_rule \<Rightarrow> bool" where
  "range_ok es \<longleftrightarrow> chain None es \<and> (\<forall>e \<in> set es. ge_type e \<in> {GRETYPE_CHAR, GRETYPE_CHAR_NOT, GRETYPE_CHAR_ALT, GRETYPE_CHAR_RNG_UPPER})"

lemma range_ok_body: "range_ok es \<Longrightarrow> body_ok n es"
  by (force simp: range_ok_def body_ok_def elem_ok_def)

lemma range_ok_push:
  assumes "range_ok es" "t \<in> {GRETYPE_CHAR, GRETYPE_CHAR_NOT}"
  shows "range_ok (es @ [gel (if es = [] then t else GRETYPE_CHAR_ALT) c])"
    "range_ok (es @ [gel (if es = [] then t else GRETYPE_CHAR_ALT) c, gel GRETYPE_CHAR_RNG_UPPER d])"
proof -
  have "es \<noteq> [] \<Longrightarrow> ge_type (last es) \<in> {GRETYPE_CHAR, GRETYPE_CHAR_NOT, GRETYPE_CHAR_ALT, GRETYPE_CHAR_RNG_UPPER}"
    using assms(1) by (simp add: range_ok_def)
  then show "range_ok (es @ [gel (if es = [] then t else GRETYPE_CHAR_ALT) c])"
    "range_ok (es @ [gel (if es = [] then t else GRETYPE_CHAR_ALT) c, gel GRETYPE_CHAR_RNG_UPPER d])"
    using assms by (auto simp: range_ok_def chain_append gel_def follows_def)
qed

lemma range_loop_adds:
  "range_loop t k pos rule = Inr (rule', pos') \<Longrightarrow> t \<in> {GRETYPE_CHAR, GRETYPE_CHAR_NOT} \<Longrightarrow> rule = pre @ es \<Longrightarrow> length pre = k \<Longrightarrow> range_ok es \<Longrightarrow>
    (\<exists>es'. rule' = pre @ es' \<and> range_ok es') \<and> length pos' \<le> length pos \<and> cur pos' = 93"
proof (induction t k pos rule arbitrary: es rule: range_loop.induct)
  case (1 t k pos rule)
  show ?case
  proof (cases "cur pos = 93 \<or> cur pos = 0")
    case True
    then show ?thesis using 1(3-) by (subst (asm) range_loop.simps) auto
  next
    case False
    let ?rule1 = "\<lambda>c. rule @ [gel (if k < length rule then GRETYPE_CHAR_ALT else t) c]"
    have r1: "?rule1 c = pre @ (es @ [gel (if es = [] then t else GRETYPE_CHAR_ALT) c])" for c using 1(5,6) by auto
    from False 1(3) obtain c p where c: "parse_char pos = Inr (c, p)" by (subst (asm) range_loop.simps) (auto split: sum.splits)
    note lp = length_parse_char[OF c]
    show ?thesis
    proof (cases "cur p = 45 \<and> cur (tl p) \<noteq> 93")
      case True
      with 1(3) False c obtain d q where d: "parse_char (tl p) = Inr (d, q)" "range_loop t k q (?rule1 c @ [gel GRETYPE_CHAR_RNG_UPPER d]) = Inr (rule', pos')" "cur (tl p) \<noteq> 0"
        by (subst (asm) range_loop.simps) (auto simp: Let_def split: sum.splits if_splits)
      have "(\<exists>es'. rule' = pre @ es' \<and> range_ok es') \<and> length pos' \<le> length q \<and> cur pos' = 93"
        by (rule 1(1)[OF _ _ c refl refl True d(3,1) refl d(2) 1(4) _ 1(6) range_ok_push(2)[OF 1(7,4), of c d]]) (use False r1[of c] in auto)
      then show ?thesis using lp length_parse_char[OF d(1)] by auto
    next
      case F: False
      then have d: "range_loop t k p (?rule1 c) = Inr (rule', pos')" using 1(3) False c by (subst (asm) range_loop.simps) (auto simp: Let_def)
      have "(\<exists>es'. rule' = pre @ es' \<and> range_ok es') \<and> length pos' \<le> length p \<and> cur pos' = 93"
        by (rule 1(2)[OF _ _ c refl refl F d 1(4) _ 1(6) range_ok_push(1)[OF 1(7,4), of c]]) (use False r1[of c] in auto)
      then show ?thesis using lp by auto
    qed
  qed
qed

lemma word_no_underscore: "parse_name src = Inr (name, rest) \<Longrightarrow> 95 \<notin> set name"
  by (auto simp: parse_name_def Let_def is_word_char_def is_digit_char_def split: if_splits dest: set_takeWhileD)

lemma length_space_tl: "cur pos \<noteq> 0 \<Longrightarrow> length (parse_space (tl pos) b) < length pos"
  using length_parse_space[of "tl pos" b] length_tl_cur[of pos] by linarith

lemma length_parse_bounds:
  assumes "parse_bounds b pos = Inr (lo, hi, pos')"
  shows "length pos' \<le> length pos"
proof -
  have dg: "is_digit_char (cur pos)" using assms by (auto simp: parse_bounds_def split: if_splits)
  obtain ds p where d: "parse_int pos = Inr (ds, p)" using assms dg by (auto simp: parse_bounds_def ebind_Inr)
  obtain v where v: "stoull ds = Inr v" using assms dg d by (auto simp: parse_bounds_def ebind_Inr)
  let ?q = "parse_space p b"
  let ?r = "parse_space (tl ?q) b"
  have q: "length ?q < length pos" "length ?r \<le> length ?q"
    using length_parse_int[OF d] length_parse_space[of p b] length_parse_space[of "tl ?q" b] by simp_all
  have sp: "length (parse_space (tl x) b) \<le> length x" for x using length_parse_space[of "tl x" b] by simp
  show ?thesis
  proof (cases "cur ?q = 125")
    case True
    then have "pos' = ?r" using assms dg d v by (simp add: parse_bounds_def Let_def split: if_splits)
    then show ?thesis using q by simp
  next
    case F: False
    then have c: "cur ?q = 44" using assms dg d v by (simp add: parse_bounds_def Let_def split: if_splits)
    show ?thesis
    proof (cases "is_digit_char (cur ?r)")
      case True
      obtain ds2 p2 where d2: "parse_int ?r = Inr (ds2, p2)" using assms dg d v c True by (auto simp: parse_bounds_def Let_def ebind_Inr)
      obtain w where w: "stoull ds2 = Inr w" using assms dg d v c True d2 by (auto simp: parse_bounds_def Let_def ebind_Inr)
      have "pos' = parse_space (tl (parse_space p2 b)) b" using assms dg d v c True d2 w by (simp add: parse_bounds_def Let_def split: if_splits)
      then show ?thesis using q length_parse_int[OF d2] length_parse_space[of p2 b] sp[of "parse_space p2 b"] by simp
    next
      case False
      then have "pos' = parse_space (tl ?r) b" using assms dg d v c by (simp add: parse_bounds_def Let_def split: if_splits)
      then show ?thesis using q sp[of ?r] by simp
    qed
  qed
qed

lemma parse_item_grown:
  assumes "parse_item tokenize name nested k rule P pos = Some (Inr (k', rule', P', pos'))"
    "parser_inv P" "95 \<notin> set name" "rule_ok (length (symbol_ids P)) k rule"
  shows "grown P P' \<and> rule_ok (length (symbol_ids P')) k' rule' \<and> length pos' < length pos"
proof -
  let ?n = "length (symbol_ids P)"
  have push: "rule_ok ?n (length rule) (rule @ es)" if "body_ok ?n es" for es by (rule rule_ok_push[OF assms(4) order_refl that])
  have gr: "grown P P" by (rule grown_refl[OF assms(2)])
  have repeat: "grown P P' \<and> rule_ok (length (symbol_ids P')) k' rule' \<and> pos' = p"
    if "ebind (handle_repetitions name lo hi k rule P) (\<lambda>(rule, Q). Inr (k, rule, Q, p)) = Inr (k', rule', P', pos')" for lo hi p
  proof (cases "handle_repetitions name lo hi k rule P")
    case (Inr r)
    obtain r' Q where r: "r = (r', Q)" by (cases r)
    show ?thesis using repetitions_grown[OF Inr[unfolded r] assms(2-4)] that by (simp add: Inr r)
  qed (use that in simp)
  have sp: "length (parse_space p nested) \<le> length p" for p by (rule length_parse_space)
  note item = assms(1)[unfolded parse_item_def Let_def]
  consider "cur pos = 34" | "cur pos = 91" | "cur pos = 60 \<or> cur pos = 33" | "is_word_char (cur pos)" "cur pos \<notin> {34, 91, 60, 33}" | "cur pos = 46"
    | "cur pos = 42" | "cur pos = 43" | "cur pos = 63" | "cur pos = 123"
    using item by (auto split: if_splits)
  then show ?thesis
  proof cases
    case 1
    then obtain p where p: "lit_loop (tl pos) rule = Inr (rule', p)" "k' = length rule" "P' = P" "pos' = parse_space (tl p) nested"
      using item by (auto simp: ebind_Inr)
    from lit_loop_adds[OF p(1), of ?n] obtain es where "rule' = rule @ es" "body_ok ?n es" "length p \<le> length (tl pos)" by auto
    then show ?thesis using push gr p(2-) sp[of "tl p"] length_tl_cur[of pos] 1 by auto
  next
    case 2
    let ?neg = "cur (tl pos) = 94"
    let ?q = "if ?neg then tl (tl pos) else tl pos" and ?t = "if ?neg then GRETYPE_CHAR_NOT else GRETYPE_CHAR"
    obtain p where p: "range_loop ?t (length rule) ?q rule = Inr (rule', p)" "k' = length rule" "P' = P" "pos' = parse_space (tl p) nested"
      using item 2 by (auto simp: ebind_Inr)
    have "?t \<in> {GRETYPE_CHAR, GRETYPE_CHAR_NOT}" by simp
    from range_loop_adds[OF p(1) this, of rule "[]"] obtain es where es: "rule' = rule @ es" "range_ok es" "length p \<le> length ?q" by (auto simp: range_ok_def)
    have "length ?q \<le> length (tl pos)" by (auto simp: diff_le_mono2)
    then show ?thesis using push[OF range_ok_body[OF es(2)]] gr p(2-) es(1,3) sp[of "tl p"] length_tl_cur[of pos] 2 by simp
  next
    case 3
    let ?q = "if cur pos = 33 then tl pos else pos" and ?t = "if cur pos = 33 then GRETYPE_TOKEN_NOT else GRETYPE_TOKEN"
    obtain v p where p: "parse_token tokenize ?q = Inr (v, p)" "k' = length rule" "rule' = rule @ [gel ?t v]" "P' = P" "pos' = parse_space p nested"
      using item 3 by (auto simp: ebind_Inr)
    have "length ?q \<le> length pos" by simp
    then show ?thesis using push[of "[gel ?t v]"] gr p(2-) sp[of p] length_parse_token[OF p(1)] by simp
  next
    case 4
    then obtain nm i p where p: "parse_name pos = Inr (nm, p)" "get_symbol_id nm P = (i, P')" "k' = length rule" "rule' = rule @ [gel GRETYPE_RULE_REF i]"
        "pos' = parse_space p nested"
      using item by (cases "get_symbol_id (fst (projr (parse_name pos))) P") (auto simp: ebind_Inr)
    note g = get_symbol_grown[OF p(2) assms(2) word_no_underscore[OF p(1)]]
    then have "rule_ok (length (symbol_ids P')) (length rule) (rule @ [gel GRETYPE_RULE_REF i])"
      by (intro rule_ok_push[OF assms(4)]) (auto simp: grown_def)
    then show ?thesis using g p(3-) sp[of p] length_parse_name[OF p(1)] by simp
  next
    case 5
    then have "k' = length rule" "rule' = rule @ [gel GRETYPE_CHAR_ANY 0]" "P' = P" "pos' = parse_space (tl pos) nested"
      using item by (auto simp: is_word_char_def is_digit_char_def)
    then show ?thesis using push[of "[gel GRETYPE_CHAR_ANY 0]"] gr length_space_tl[of pos nested] 5 by simp
  next
    case 9
    let ?e = "\<lambda>lo hi p. ebind (handle_repetitions name lo hi k rule P) (\<lambda>(rule, Q). Inr (k, rule, Q, p))"
    have e: "ebind (parse_bounds nested (parse_space (tl pos) nested)) (\<lambda>(lo, hi, p). ?e lo hi p) = Inr (k', rule', P', pos')"
      using item 9 by (simp add: is_word_char_def is_digit_char_def)
    then obtain lo hi p where p: "parse_bounds nested (parse_space (tl pos) nested) = Inr (lo, hi, p)" unfolding ebind_Inr by auto
    then have "?e lo hi p = Inr (k', rule', P', pos')" using e by simp
    from repeat[OF this] show ?thesis using length_parse_bounds[OF p] length_space_tl[of pos nested] 9 by simp
  next
    case 6
    then have e: "ebind (handle_repetitions name 0 UINT64_MAX k rule P) (\<lambda>(rule, Q). Inr (k, rule, Q, parse_space (tl pos) nested)) = Inr (k', rule', P', pos')"
      using item by (simp add: is_word_char_def is_digit_char_def)
    show ?thesis using repeat[OF e] length_space_tl[of pos nested] 6 by simp
  next
    case 7
    then have e: "ebind (handle_repetitions name 1 UINT64_MAX k rule P) (\<lambda>(rule, Q). Inr (k, rule, Q, parse_space (tl pos) nested)) = Inr (k', rule', P', pos')"
      using item by (simp add: is_word_char_def is_digit_char_def)
    show ?thesis using repeat[OF e] length_space_tl[of pos nested] 7 by simp
  next
    case 8
    then have e: "ebind (handle_repetitions name 0 1 k rule P) (\<lambda>(rule, Q). Inr (k, rule, Q, parse_space (tl pos) nested)) = Inr (k', rule', P', pos')"
      using item by (simp add: is_word_char_def is_digit_char_def)
    show ?thesis using repeat[OF e] length_space_tl[of pos nested] 8 by simp
  qed
qed

section \<open>Sequences, alternates and rules\<close>

lemma loops_grown:
  shows seq_grown: "seq_loop n tokenize name nested k rule P pos = Inr (rule', P', pos') \<Longrightarrow> parser_inv P \<Longrightarrow> 95 \<notin> set name \<Longrightarrow>
      rule_ok (length (symbol_ids P)) k rule \<Longrightarrow> grown P P' \<and> body_ok (length (symbol_ids P')) rule' \<and> length pos' \<le> length pos"
    and alt_grown: "alt_loop n tokenize name i nested rule P pos = Inr (P', pos') \<Longrightarrow> parser_inv P \<Longrightarrow> 95 \<notin> set name \<Longrightarrow>
      body_ok (length (symbol_ids P)) rule \<Longrightarrow> grown P P' \<and> length pos' \<le> length pos"
    and alternates_grown: "parse_alternates n tokenize name i nested P pos = Inr (P', pos') \<Longrightarrow> parser_inv P \<Longrightarrow> 95 \<notin> set name \<Longrightarrow>
      grown P P' \<and> length pos' \<le> length pos"
proof (induction n tokenize name nested k rule P pos and n tokenize name i nested rule P pos and n tokenize name i nested P pos
    arbitrary: rule' P' pos' and P' pos' and P' pos' rule: seq_loop_alt_loop_parse_alternates.induct)
  case (2 n tokenize name nested k rule P pos)
  show ?case
  proof (cases "cur pos = 40")
    case True
    obtain i Q where Q: "generate_symbol_id name P = (i, Q)" by (cases "generate_symbol_id name P")
    note g = generate_symbol_grown[OF Q 2(5,6)]
    from True 2(4) Q obtain R p where R: "parse_alternates n tokenize name i True Q (parse_space (tl pos) True) = Inr (R, p)" "cur p = 41"
      "seq_loop n tokenize name nested (length rule) (rule @ [gel GRETYPE_RULE_REF i]) R (parse_space (tl p) nested) = Inr (rule', P', pos')"
      by (auto simp: ebind_Inr split: if_splits)
    have "grown Q R" and lp: "length p \<le> length (parse_space (tl pos) True)"
      using 2(1)[OF True refl Q[symmetric] R(1)] g 2(6) by (auto simp: grown_def)
    then have gr: "grown P R" "id_ok (length (symbol_ids R)) i" using g grown_trans id_ok_mono by (auto simp: grown_def)
    have ok: "rule_ok (length (symbol_ids R)) (length rule) (rule @ [gel GRETYPE_RULE_REF i])"
      by (rule rule_ok_push[OF 2(7)]) (use gr in \<open>auto simp: grown_def\<close>)
    have inv: "parser_inv R" using gr(1) by (simp add: grown_def)
    have "\<not> cur p \<noteq> 41" using R(2) by simp
    from 2(2)[OF True refl Q[symmetric] this R(3) inv 2(6) ok] gr(1)
    have "grown P P'" "body_ok (length (symbol_ids P')) rule'" "length pos' \<le> length (parse_space (tl p) nested)" using grown_trans by auto
    then show ?thesis using lp length_parse_space[of "tl p" nested] length_parse_space[of "tl pos" True] by simp
  next
    case False
    show ?thesis
    proof (cases "parse_item tokenize name nested k rule P pos")
      case None
      then show ?thesis using 2(4,7) False grown_refl[OF 2(5)] rule_ok_body by auto
    next
      case (Some r)
      then obtain k1 rule1 P1 p1 where r: "r = Inr (k1, rule1, P1, p1)" "seq_loop n tokenize name nested k1 rule1 P1 p1 = Inr (rule', P', pos')"
        using 2(4) False by (auto simp: ebind_Inr)
      note it = parse_item_grown[OF Some[unfolded r(1)] 2(5-7)]
      from 2(3)[OF False Some r(2)] it 2(6) show ?thesis using grown_trans by (auto simp: grown_def)
    qed
  qed
next
  case (4 n tokenize name i nested rule P pos)
  let ?n = "length (symbol_ids P)"
  show ?case
  proof (cases "cur pos = 124")
    case True
    let ?rule = "rule @ [gel GRETYPE_ALT 0]"
    from True 4(3) obtain rule1 P1 p1 where r: "seq_loop n tokenize name nested (length ?rule) ?rule P (parse_space (tl pos) True) = Inr (rule1, P1, p1)"
      "alt_loop n tokenize name i nested rule1 P1 p1 = Inr (P', pos')" by (auto simp: ebind_Inr Let_def)
    have ok: "rule_ok ?n (length ?rule) ?rule" by (rule rule_ok_start) (use 4(6) in \<open>auto intro: body_ok_append\<close>)
    have s: "grown P P1" "body_ok (length (symbol_ids P1)) rule1" "length p1 \<le> length (parse_space (tl pos) True)"
      using 4(1)[OF True refl r(1) 4(4,5) ok] by auto
    have "parser_inv P1" using s(1) by (simp add: grown_def)
    from 4(2)[OF True refl r(2) this 4(5) s(2)] s(1,3) show ?thesis
      using grown_trans length_parse_space[of "tl pos" True] by fastforce
  next
    case False
    have "closed ?n (rule @ [gel GRETYPE_END 0])" using 4(6) by (auto simp: closed_def)
    then show ?thesis using 4(3,4) False add_rule_grown by auto
  qed
next
  case (6 n tokenize name i nested P pos)
  from 6(3) obtain rule1 P1 p1 where r: "seq_loop n tokenize name nested 0 [] P pos = Inr (rule1, P1, p1)"
    "alt_loop n tokenize name i nested rule1 P1 p1 = Inr (P', pos')" by (auto simp: ebind_Inr)
  have s: "grown P P1" "body_ok (length (symbol_ids P1)) rule1" "length p1 \<le> length pos"
    using 6(1)[OF r(1) 6(4,5)] by (auto simp: rule_ok_def)
  have "parser_inv P1" using s(1) by (simp add: grown_def)
  from 6(2)[OF r(2) this 6(5) s(2)] s(1,3) show ?case using grown_trans by fastforce
qed simp_all

lemma parse_rule_grown:
  assumes "parse_rule tokenize P src = Inr (P', pos')" "parser_inv P"
  shows "grown P P' \<and> length pos' < length src"
proof -
  obtain name e where n: "parse_name src = Inr (name, e)" using assms(1) by (auto simp: parse_rule_def ebind_Inr)
  obtain i Q where Q: "get_symbol_id name P = (i, Q)" by (cases "get_symbol_id name P")
  let ?pos = "parse_space (drop 3 (parse_space e False)) True"
  obtain p where p: "parse_alternates (alt_fuel ?pos) tokenize name i False Q ?pos = Inr (P', p)"
    "pos' = parse_space (tl (tl p)) True \<or> pos' = parse_space (tl p) True \<or> pos' = parse_space p True"
    using assms(1) n Q by (auto simp: parse_rule_def Let_def ebind_Inr split: if_splits)
  note nu = word_no_underscore[OF n]
  have g: "grown P Q" using get_symbol_grown[OF Q assms(2) nu] by simp
  then have a: "grown Q P'" "length p \<le> length ?pos" using alternates_grown[OF p(1) _ nu] by (auto simp: grown_def)
  have "length pos' \<le> length p"
    using p(2) length_parse_space[of "tl (tl p)" True] length_parse_space[of "tl p" True] length_parse_space[of p True] by auto
  moreover have "length ?pos \<le> length e" using length_parse_space[of "drop 3 (parse_space e False)" True] length_parse_space[of e False] by simp
  ultimately show ?thesis using g a grown_trans length_parse_name[OF n] by fastforce
qed

lemma rules_loop_grown: "rules_loop n tokenize P pos = Inr P' \<Longrightarrow> parser_inv P \<Longrightarrow> grown P P'"
proof (induction n tokenize P pos rule: rules_loop.induct)
  case (2 n tokenize P pos)
  show ?case
  proof (cases "cur pos = 0")
    case True
    then show ?thesis using 2(2,3) grown_refl by simp
  next
    case False
    with 2(2) obtain Q p where q: "parse_rule tokenize P pos = Inr (Q, p)" "rules_loop n tokenize Q p = Inr P'" by (auto simp: ebind_Inr)
    have g: "grown P Q" using parse_rule_grown[OF q(1) 2(3)] by simp
    then show ?thesis using 2(1)[OF False q(2)] grown_trans by (auto simp: grown_def)
  qed
qed simp

section \<open>Enough fuel\<close>

definition fuelled :: "parse_error + 'a \<Rightarrow> bool" where
  "fuelled r \<longleftrightarrow> r \<noteq> Inl Out_Of_Fuel"

lemma fuelled_simps [simp]: "fuelled (Inr x)" "fuelled (Inl e) \<longleftrightarrow> e \<noteq> Out_Of_Fuel"
  by (simp_all add: fuelled_def)

lemma fuelled_ebind [intro!]: "fuelled r \<Longrightarrow> (\<And>x. r = Inr x \<Longrightarrow> fuelled (f x)) \<Longrightarrow> fuelled (ebind r f)"
  by (cases r) (auto simp: fuelled_def)

lemma hex_fuel: "fuelled (hex_loop n pos v)"
  by (induction n pos v rule: hex_loop.induct) (auto split: list.splits option.splits)

lemma char_fuel [simp]: "fuelled (parse_char src)"
  by (simp add: parse_char_def parse_hex_def hex_fuel Let_def)

lemma lexer_fuel [simp]: "fuelled (parse_name src)" "fuelled (parse_int src)" "fuelled (stoull ds)"
  by (simp_all add: parse_name_def parse_int_def stoull_def Let_def)

lemma token_fuel [simp]: "fuelled (parse_token tokenize src)"
  unfolding parse_token_def Let_def by (auto split: option.split list.split)

lemma lit_fuel [simp]: "fuelled (lit_loop pos rule)"
proof (induction pos rule rule: lit_loop.induct)
  case (1 pos rule)
  then show ?case using char_fuel[of pos] by (subst lit_loop.simps) (auto simp: fuelled_def split: sum.splits)
qed

lemma range_fuel [simp]: "fuelled (range_loop t k pos rule)"
proof (induction t k pos rule rule: range_loop.induct)
  case (1 t k pos rule)
  then show ?case using char_fuel by (subst range_loop.simps) (auto simp: fuelled_def Let_def split: sum.splits)
qed

lemma bounds_fuel [simp]: "fuelled (parse_bounds b pos)"
  unfolding parse_bounds_def Let_def by auto

lemma repetitions_fuel [simp]: "fuelled (handle_repetitions name lo hi k rule P)"
  by (simp add: handle_repetitions_def Let_def split: prod.split)

lemma item_fuel: "parse_item tokenize name nested k rule P pos = Some r \<Longrightarrow> fuelled r"
  unfolding parse_item_def Let_def by (auto split: if_splits prod.split)

text \<open>The parser invariant is needed for the lengths only.\<close>

lemma loops_fuel:
  shows "2 * length pos + 1 \<le> n \<Longrightarrow> parser_inv P \<Longrightarrow> 95 \<notin> set name \<Longrightarrow> rule_ok (length (symbol_ids P)) k rule \<Longrightarrow>
      fuelled (seq_loop n tokenize name nested k rule P pos)"
    and "2 * length pos + 1 \<le> n \<Longrightarrow> parser_inv P \<Longrightarrow> 95 \<notin> set name \<Longrightarrow> body_ok (length (symbol_ids P)) rule \<Longrightarrow>
      fuelled (alt_loop n tokenize name i nested rule P pos)"
    and alternates_fuel: "2 * length pos + 2 \<le> n \<Longrightarrow> parser_inv P \<Longrightarrow> 95 \<notin> set name \<Longrightarrow>
      fuelled (parse_alternates n tokenize name i nested P pos)"
proof (induction n tokenize name nested k rule P pos and n tokenize name i nested rule P pos and n tokenize name i nested P pos
    rule: seq_loop_alt_loop_parse_alternates.induct)
  case (2 n tokenize name nested k rule P pos)
  show ?case
  proof (cases "cur pos = 40")
    case True
    obtain i Q where Q: "generate_symbol_id name P = (i, Q)" by (cases "generate_symbol_id name P")
    note g = generate_symbol_grown[OF Q 2(5,6)]
    let ?pos = "parse_space (tl pos) True"
    have lp: "length ?pos < length pos" by (rule length_space_tl) (simp add: True)
    have inv: "parser_inv Q" using g by (simp add: grown_def)
    have a: "fuelled (parse_alternates n tokenize name i True Q ?pos)"
      by (rule 2(1)[OF True refl Q[symmetric] _ inv 2(6)]) (use lp 2(4) in simp)
    have "fuelled (seq_loop n tokenize name nested (length rule) (rule @ [gel GRETYPE_RULE_REF i]) R (parse_space (tl p) nested))"
      if R: "parse_alternates n tokenize name i True Q ?pos = Inr (R, p)" "cur p = 41" for R p
    proof (rule 2(2)[OF True refl Q[symmetric]])
      have h: "grown Q R" "length p \<le> length ?pos" using alternates_grown[OF R(1) inv 2(6)] by auto
      then show "parser_inv R" "rule_ok (length (symbol_ids R)) (length rule) (rule @ [gel GRETYPE_RULE_REF i])"
        using g by (auto simp: grown_def intro!: rule_ok_push[OF 2(7)] intro: id_ok_mono)
      show "2 * length (parse_space (tl p) nested) + 1 \<le> n" using length_space_tl[of p nested] R(2) h(2) lp 2(4) by simp
    qed (use R(2) 2(6) in auto)
    then show ?thesis using True Q a by auto
  next
    case False
    show ?thesis
    proof (cases "parse_item tokenize name nested k rule P pos")
      case None
      then show ?thesis using False by simp
    next
      case (Some r)
      have "fuelled (seq_loop n tokenize name nested k1 rule1 P1 p1)" if "r = Inr (k1, rule1, P1, p1)" for k1 rule1 P1 p1
        using parse_item_grown[OF Some[unfolded that] 2(5-7)] 2(4,6) by (intro 2(3)[OF False Some]) (auto simp: grown_def)
      then show ?thesis using False Some item_fuel[OF Some] by auto
    qed
  qed
next
  case (4 n tokenize name i nested rule P pos)
  show ?case
  proof (cases "cur pos = 124")
    case True
    let ?rule = "rule @ [gel GRETYPE_ALT 0]" and ?pos = "parse_space (tl pos) True"
    have lp: "length ?pos < length pos" by (rule length_space_tl) (simp add: True)
    have ok: "rule_ok (length (symbol_ids P)) (length ?rule) ?rule" by (rule rule_ok_start) (use 4(6) in \<open>auto intro: body_ok_append\<close>)
    have "fuelled (seq_loop n tokenize name nested (length ?rule) ?rule P ?pos)"
      by (rule 4(1)[OF True refl _ 4(4,5) ok]) (use lp 4(3) in simp)
    moreover have "fuelled (alt_loop n tokenize name i nested rule1 P1 p1)"
      if "seq_loop n tokenize name nested (length ?rule) ?rule P ?pos = Inr (rule1, P1, p1)" for rule1 P1 p1
      using seq_grown[OF that 4(4,5) ok] lp 4(3,5) by (intro 4(2)[OF True refl]) (auto simp: grown_def)
    ultimately show ?thesis using True by (auto simp: Let_def)
  qed simp
next
  case (6 n tokenize name i nested P pos)
  have ok: "rule_ok (length (symbol_ids P)) 0 []" by (simp add: rule_ok_def)
  have "fuelled (seq_loop n tokenize name nested 0 [] P pos)" by (rule 6(1)[OF _ 6(4,5) ok]) (use 6(3) in simp)
  moreover have "fuelled (alt_loop n tokenize name i nested rule1 P1 p1)" if "seq_loop n tokenize name nested 0 [] P pos = Inr (rule1, P1, p1)" for rule1 P1 p1
    using seq_grown[OF that 6(4,5) ok] 6(3,5) by (intro 6(2)) (auto simp: grown_def)
  ultimately show ?case by auto
qed simp_all

lemma rule_fuel: "parser_inv P \<Longrightarrow> fuelled (parse_rule tokenize P src)"
proof -
  assume inv: "parser_inv P"
  have "fuelled (parse_alternates (alt_fuel pos) tokenize name i False Q pos)"
    if "parse_name src = Inr (name, e)" "get_symbol_id name P = (i, Q)" for name e i Q pos
    using alternates_fuel[of pos "alt_fuel pos" Q name] get_symbol_grown[OF that(2) inv word_no_underscore[OF that(1)]] word_no_underscore[OF that(1)]
    by (auto simp: alt_fuel_def grown_def)
  then show ?thesis unfolding parse_rule_def Let_def by (auto split: prod.splits)
qed

lemma rules_fuel: "length pos < n \<Longrightarrow> parser_inv P \<Longrightarrow> fuelled (rules_loop n tokenize P pos)"
proof (induction n tokenize P pos rule: rules_loop.induct)
  case (2 n tokenize P pos)
  have "fuelled (rules_loop n tokenize Q p)" if "cur pos \<noteq> 0" "parse_rule tokenize P pos = Inr (Q, p)" for Q p
    using parse_rule_grown[OF that(2) 2(3)] 2(2) by (intro 2(1)[OF that(1)]) (auto simp: grown_def)
  then show ?case using rule_fuel[OF 2(3)] by auto
qed simp

section \<open>The result of the parser\<close>

lemma first_rule_error_None: "first_rule_error P rules = None \<longleftrightarrow> (\<forall>rule \<in> set rules. rule \<noteq> [] \<and> (\<forall>e \<in> set rule. \<not> elem_error P e))"
  by (induction rules) auto

lemma first_rule_error_fuel: "first_rule_error P rules \<noteq> Some Out_Of_Fuel"
  by (induction rules) auto

lemma parser_start: "parser_inv \<lparr>symbol_ids = [], parser_rules = []\<rparr>"
  by (simp add: parser_inv_def symbols_ok_def)

lemma text_fuel: "fuelled (parse_text tokenize src)"
  unfolding parse_text_def Let_def
  by (rule fuelled_ebind[OF rules_fuel[OF _ parser_start]]) (auto simp: first_rule_error_fuel split: option.split)

lemma parse_text_inv:
  assumes "parse_text tokenize src = Inr P"
  shows "parser_inv P" "first_rule_error P (parser_rules P) = None"
proof -
  obtain n pos where "rules_loop n tokenize \<lparr>symbol_ids = [], parser_rules = []\<rparr> pos = Inr P" "first_rule_error P (parser_rules P) = None"
    using assms by (auto simp: parse_text_def Let_def ebind_Inr simp del: rules_loop.simps split: option.splits)
  then show "parser_inv P" "first_rule_error P (parser_rules P) = None"
    using rules_loop_grown by (auto simp: grown_def parser_inv_def symbols_ok_def)
qed

lemma parsed_rules_wf:
  assumes "parse_text tokenize src = Inr P" "length (symbol_ids P) < 2 ^ 32"
  shows "wf_rules (parser_rules P)" "those (map copy_rule (parser_rules P)) = Some (parser_rules P)" "map snd (symbol_ids P) = [0..<length (symbol_ids P)]"
proof -
  note p = parse_text_inv[OF assms(1)]
  let ?n = "length (parser_rules P)" and ?m = "length (symbol_ids P)"
  have cl: "closed ?m rule" if "rule \<in> set (parser_rules P)" for rule using p that by (auto simp: parser_inv_def first_rule_error_None)
  have "wf_rule ?n rule" if r: "rule \<in> set (parser_rules P)" for rule
  proof (rule closed_wf[OF cl[OF r]])
    fix e assume e: "e \<in> set rule" "ge_type e = GRETYPE_RULE_REF"
    have "ge_value e < ?m" using cl[OF r] e assms(2) by (auto simp: closed_def body_ok_def elem_ok_def id_ok_def gel_def)
    then have "ge_value e \<in> snd ` set (symbol_ids P)" using symbols_ok_ids[OF _ assms(2)] p(1) by (auto simp: parser_inv_def)
    moreover have "\<not> elem_error P e" using p(2) r e(1) by (auto simp: first_rule_error_None)
    ultimately show "ge_value e < ?n" using e(2) by (auto simp: elem_error_def)
  qed
  then show "wf_rules (parser_rules P)" by (auto simp: wf_rules_def)
  have "map copy_rule rs = map Some rs" if "set rs \<subseteq> set (parser_rules P)" for rs using that closed_copy[OF cl] by (induction rs) auto
  moreover have "those (map Some rs) = Some rs" for rs :: llama_grammar_rules by (induction rs) auto
  ultimately show "those (map copy_rule (parser_rules P)) = Some (parser_rules P)" by (metis order_refl)
  show "map snd (symbol_ids P) = [0..<length (symbol_ids P)]" using p(1) assms(2) by (simp add: parser_inv_def symbols_ok_def)
qed

end
