(* ===== verification/Grammar_Repeat.thy ===== *)
theory Grammar_Repeat
  imports Grammar_Derives Grammar_Parse_Wf
begin

text \<open>
  The meaning of the repetition operators: the elements that the parser writes for a repeated symbol derive
  exactly the concatenations of the allowed numbers of words of the symbol.
\<close>

section \<open>The generated rules\<close>

lemma add_rule_rules:
  "i + 1 < 2 ^ 32 \<Longrightarrow> i < length (parser_rules (add_rule i rule P))" "i + 1 < 2 ^ 32 \<Longrightarrow> parser_rules (add_rule i rule P) ! i = rule"
  "symbol_ids (add_rule i rule P) = symbol_ids P"
  "i + 1 < 2 ^ 32 \<Longrightarrow> j < length (parser_rules P) \<Longrightarrow> j \<noteq> i \<Longrightarrow> j < length (parser_rules (add_rule i rule P)) \<and> parser_rules (add_rule i rule P) ! j = parser_rules P ! j"
  by (auto simp: add_rule_def Let_def nth_append)

definition rec_rule :: "llama_grammar_rule \<Rightarrow> bool \<Rightarrow> nat \<Rightarrow> nat \<Rightarrow> llama_grammar_rule" where
  "rec_rule prev_rule no_max s i = prev_rule @ (if i > 0 \<or> no_max then [gel GRETYPE_RULE_REF (if no_max then s + i else s + i - 1)] else [])
     @ [gel GRETYPE_ALT 0, gel GRETYPE_END 0]"

lemma opt_rules_written:
  "fold (opt_rule name prev no_max) [0..<n] (0, P) = (l, P') \<Longrightarrow> parser_inv P \<Longrightarrow> 95 \<notin> set name \<Longrightarrow> body_ok (length (symbol_ids P)) prev \<Longrightarrow> length (symbol_ids P') < 2 ^ 32 \<Longrightarrow>
    length (symbol_ids P') = length (symbol_ids P) + n \<and> (n > 0 \<longrightarrow> l = length (symbol_ids P) + n - 1) \<and>
    (\<forall>i < n. length (symbol_ids P) + i < length (parser_rules P') \<and> parser_rules P' ! (length (symbol_ids P) + i) = rec_rule prev no_max (length (symbol_ids P)) i)"
proof (induction n arbitrary: l P')
  case (Suc n)
  let ?s = "length (symbol_ids P)"
  obtain l1 P1 where f: "fold (opt_rule name prev no_max) [0..<n] (0, P) = (l1, P1)" by (cases "fold (opt_rule name prev no_max) [0..<n] (0, P)")
  have o: "opt_rule name prev no_max n (l1, P1) = (l, P')" using Suc(2) f by simp
  have inv: "parser_inv P1" using opt_rules_grown[OF f Suc(3-5)] by (simp add: grown_def)
  obtain k Q where Q: "generate_symbol_id name P1 = (k, Q)" by (cases "generate_symbol_id name P1")
  have ids: "symbol_ids P' = symbol_ids Q" using o Q by (auto simp: opt_rule_def Let_def add_rule_rules(3))
  have few: "length (symbol_ids P1) < 2 ^ 32" using generate_symbol_grown[OF Q inv Suc(4)] Suc(6) ids by (simp add: grown_def)
  note ih = Suc(1)[OF f Suc(3-5) few]
  have k: "k = ?s + n" "parser_rules Q = parser_rules P1" "length (symbol_ids Q) = ?s + Suc n"
    using generate_symbol_fresh[OF Q inv Suc(4) few] ih by auto
  have kn: "k + 1 < 2 ^ 32" using k(1,3) Suc(6) ids by simp
  note o
  moreover have "n > 0 \<Longrightarrow> l1 = ?s + n - 1" using ih by simp
  ultimately have r: "l = k" "P' = add_rule k (rec_rule prev no_max ?s n) Q"
    using Q k(1) unfolding opt_rule_def rec_rule_def Let_def by (cases no_max; cases "n > 0"; simp)+
  have "?s + i < length (parser_rules P') \<and> parser_rules P' ! (?s + i) = rec_rule prev no_max ?s i" if "i < Suc n" for i
  proof (cases "i = n")
    case True
    then show ?thesis using add_rule_rules(1,2)[OF kn] k(1) by (simp add: r(2))
  next
    case False
    then show ?thesis using add_rule_rules(4)[OF kn, of "?s + i" Q] that ih k by (simp add: r(2))
  qed
  then show ?case using k r add_rule_rules(3) by simp
qed simp

section \<open>The words of the generated rules\<close>

definition times_words :: "llama_grammar_rules \<Rightarrow> llama_grammar_rule \<Rightarrow> nat list list \<Rightarrow> bool" where
  "times_words rules es ws \<longleftrightarrow> (\<forall>v \<in> set ws. derives rules es v)"

lemma times_words_simps [simp]: "times_words rules es []" "times_words rules es (v # ws) \<longleftrightarrow> derives rules es v \<and> times_words rules es ws"
  "times_words rules es (vs @ ws) \<longleftrightarrow> times_words rules es vs \<and> times_words rules es ws"
  by (auto simp: times_words_def)

lemma starts_symbol_gel [simp]: "starts_symbol (gel GRETYPE_RULE_REF i # es)"
  by (simp add: starts_symbol_def gel_def)

lemma rec_rule_alts:
  assumes "\<forall>e \<in> set prev. \<not> is_end_of_sequence e"
  shows "split_alts (rec_rule prev no_max s i) = [prev @ (if i > 0 \<or> no_max then [gel GRETYPE_RULE_REF (if no_max then s + i else s + i - 1)] else []), []]"
  unfolding rec_rule_def append_assoc[symmetric] using assms by (subst split_alts_alt) (auto simp: gel_def is_end_iff)

lemma derives_last_ref:
  "i < length rules \<Longrightarrow> derives rules (es @ [gel GRETYPE_RULE_REF i]) w \<longleftrightarrow> (\<exists>u v. w = u @ v \<and> derives rules es u \<and> v \<in> derived_words rules i)"
  by (simp add: derives_append) (auto simp: derives_ref_iff gel_def)

lemma one_more_word:
  "{u @ concat ws | u ws. derives rules es u \<and> length ws \<le> i \<and> times_words rules es ws} \<union> {[]} =
   {concat ws | ws. length ws \<le> Suc i \<and> times_words rules es ws}" (is "?A = ?B")
proof (intro set_eqI iffI)
  fix x assume "x \<in> ?A"
  then consider u ws where "x = concat (u # ws)" "length (u # ws) \<le> Suc i" "times_words rules es (u # ws)" | "x = concat []" by auto
  then show "x \<in> ?B" by cases (blast, fastforce)
next
  fix x assume "x \<in> ?B"
  then obtain ws where "x = concat ws" "length ws \<le> Suc i" "times_words rules es ws" by blast
  then show "x \<in> ?A" by (cases ws) auto
qed

lemma bounded_words:
  assumes "\<forall>e \<in> set prev. \<not> is_end_of_sequence e" "\<forall>i < n. s + i < length rules \<and> rules ! (s + i) = rec_rule prev False s i"
  shows "i < n \<Longrightarrow> derived_words rules (s + i) = {concat ws | ws. length ws \<le> Suc i \<and> times_words rules prev ws}"
proof (induction i)
  case 0
  have "derived_words rules s = {w. derives rules prev w} \<union> {[]}"
    using 0 spec[OF assms(2), of 0] rec_rule_alts[OF assms(1), of False s 0] by (auto simp: derived_words_def)
  also have "{w. derives rules prev w} = {u @ concat ws | u ws. derives rules prev u \<and> length ws \<le> 0 \<and> times_words rules prev ws}" by auto
  finally show ?case unfolding one_more_word by simp
next
  case (Suc i)
  have "derived_words rules (s + Suc i) = {w. derives rules (prev @ [gel GRETYPE_RULE_REF (s + i)]) w} \<union> {[]}"
    using spec[OF assms(2), of "Suc i"] Suc(2) rec_rule_alts[OF assms(1), of False s "Suc i"] by (auto simp: derived_words_def)
  also have "{w. derives rules (prev @ [gel GRETYPE_RULE_REF (s + i)]) w} =
      {u @ concat ws | u ws. derives rules prev u \<and> length ws \<le> Suc i \<and> times_words rules prev ws}"
    using assms(2) Suc by (auto simp: derives_last_ref)
  finally show ?case unfolding one_more_word .
qed

lemma star_words:
  assumes "\<forall>e \<in> set prev. \<not> is_end_of_sequence e" "s < length rules" "rules ! s = rec_rule prev True s 0"
  shows "derived_words rules s = {concat ws | ws. times_words rules prev ws}"
proof -
  let ?ref = "gel GRETYPE_RULE_REF s"
  have alts: "split_alts (rules ! s) = [prev @ [?ref], []]" using rec_rule_alts[OF assms(1), of True s 0] assms(3) by simp
  then have d: "derived_words rules s = {w. derives rules (prev @ [?ref]) w} \<union> {[]}" by (auto simp: derived_words_def)
  have "derives rules es w \<Longrightarrow> es = as @ [?ref] \<Longrightarrow> \<exists>u ws. w = u @ concat ws \<and> derives rules as u \<and> times_words rules prev ws" for es as w
  proof (induction arbitrary: as rule: derives.induct)
    case (derives_char e es C rest c w)
    then obtain as' where as: "as = e # as'" by (cases as) (auto simp: char_elem_def gel_def)
    have "starts_symbol [?ref]" by (simp add: starts_symbol_def gel_def)
    note m = char_class_front[OF this derives_char(2)[unfolded derives_char(6)] as]
    from derives_char(5)[OF m(2)] obtain u ws where u: "w = u @ concat ws" "derives rules (snd (char_class as)) u" "times_words rules prev ws" by blast
    show ?case using derives.derives_char[OF derives_char(1) m(1) derives_char(3) u(2)] u as by (intro exI[of _ "c # u"] exI[of _ ws]) simp
  next
    case (derives_ref e alt u es v)
    show ?case
    proof (cases as)
      case Nil
      then have e: "ge_value e = s" "v = []" using derives_ref(5,8) by (auto simp: gel_def)
      then consider "alt = prev @ [?ref]" | "alt = []" using derives_ref(3) alts by auto
      then show ?thesis
      proof cases
        case 1
        from derives_ref(6)[OF this] obtain x ws where "u = x @ concat ws" "derives rules prev x" "times_words rules prev ws" by blast
        then show ?thesis using Nil e by (intro exI[of _ "[]"] exI[of _ "x # ws"]) simp
      next
        case 2
        then show ?thesis using derives_ref(4) Nil e by (intro exI[of _ "[]"]) simp
      qed
    next
      case (Cons e' as')
      then obtain x ws where "v = x @ concat ws" "derives rules as' x" "times_words rules prev ws" using derives_ref(7)[of as'] derives_ref(8) by auto
      then show ?thesis using derives.derives_ref[OF derives_ref(1-4)] Cons derives_ref(8) by (intro exI[of _ "u @ x"] exI[of _ ws]) simp
    qed
  qed simp
  then have "\<exists>ws. w = concat ws \<and> times_words rules prev ws" if "derives rules (prev @ [?ref]) w" for w
    using that by (metis concat.simps(2) times_words_simps(2))
  moreover have "concat ws \<in> derived_words rules s" if "times_words rules prev ws" for ws
    using that
  proof (induction ws)
    case Nil
    then show ?case by (simp add: d)
  next
    case (Cons v ws)
    then have "derives rules (prev @ [?ref]) (v @ concat ws)" unfolding derives_last_ref[OF assms(2)] by auto
    then show ?case by (simp add: d)
  qed
  ultimately have "x \<in> derived_words rules s \<longleftrightarrow> (\<exists>ws. x = concat ws \<and> times_words rules prev ws)" for x
    unfolding d using concat.simps(1)[symmetric] times_words_simps(1) by blast
  then show ?thesis by blast
qed

lemma optional_words:
  assumes "\<forall>e \<in> set prev. \<not> is_end_of_sequence e" "\<And>i. i < n \<Longrightarrow> s + i < length rules \<and> rules ! (s + i) = rec_rule prev no_max s i"
    "no_max \<Longrightarrow> n = 1"
  shows "derives rules (if n > 0 then [gel GRETYPE_RULE_REF (s + n - 1)] else []) w \<longleftrightarrow>
    (\<exists>ws. (\<not> no_max \<longrightarrow> length ws \<le> n) \<and> times_words rules prev ws \<and> w = concat ws)"
proof (cases n)
  case 0
  then show ?thesis using assms(3) by auto
next
  case (Suc i)
  have "derived_words rules (s + i) = {concat ws | ws. (\<not> no_max \<longrightarrow> length ws \<le> n) \<and> times_words rules prev ws}"
  proof (cases no_max)
    case True
    then show ?thesis using star_words[OF assms(1), of s rules] assms(2)[of 0] assms(3) Suc by simp
  next
    case False
    then show ?thesis using bounded_words[OF assms(1), of n s rules i] assms(2) Suc by simp
  qed
  then show ?thesis using derives_last_ref[of "s + i" rules "[]" w] assms(2)[of i] Suc by auto
qed

lemma required_and_optional_words:
  assumes "starts_symbol es" "starts_symbol opt" "\<And>w. derives rules opt w \<longleftrightarrow> (\<exists>ws. (\<not> no_max \<longrightarrow> length ws \<le> n) \<and> times_words rules es ws \<and> w = concat ws)"
  shows "derives rules (concat (replicate m es) @ opt) w \<longleftrightarrow>
    (\<exists>ws. m \<le> length ws \<and> (\<not> no_max \<longrightarrow> length ws \<le> m + n) \<and> times_words rules es ws \<and> w = concat ws)" (is "?l \<longleftrightarrow> ?r")
proof
  assume ?l
  then obtain us vs where "length us = m" "times_words rules es us" "\<not> no_max \<longrightarrow> length vs \<le> n" "times_words rules es vs" "w = concat us @ concat vs"
    unfolding derives_append[OF assms(2)] derives_replicate[OF assms(1)] assms(3) times_words_def by blast
  then show ?r by (intro exI[of _ "us @ vs"]) simp
next
  assume ?r
  then obtain ws where ws: "m \<le> length ws" "\<not> no_max \<longrightarrow> length ws \<le> m + n" "times_words rules es (take m ws @ drop m ws)" "w = concat (take m ws @ drop m ws)" by auto
  have "derives rules (concat (replicate m es)) (concat (take m ws))"
    unfolding derives_replicate[OF assms(1)] using ws(1,3) by (intro exI[of _ "take m ws"]) (auto simp: times_words_def dest: in_set_takeD)
  moreover have "derives rules opt (concat (drop m ws))" unfolding assms(3) using ws by (intro exI[of _ "drop m ws"]) (auto simp: times_words_def dest: in_set_dropD)
  ultimately show ?l unfolding derives_append[OF assms(2)] using ws(4) by (metis concat_append)
qed

section \<open>Repetition\<close>

text \<open>
  C39: The repetition operators mean repetition. When the parser rewrites the last symbol of a rule for a repetition of at
  least \<open>min_times\<close> and at most \<open>max_times\<close> times, it replaces the symbol by a sequence that derives exactly the
  concatenations of that many words of the symbol; \<open>UINT64_MAX\<close> stands for no upper bound. It does so in any grammar that
  has the rules generated for the repetition, as long as the symbols are fewer than \<open>2 ^ 32\<close>, so that no id is truncated.
\<close>

theorem repetition_words:
  assumes "handle_repetitions name min_times max_times k rule P = Inr (rule', P')" "0 \<le> min_times" "min_times \<le> max_times" "max_times \<le> UINT64_MAX"
    "parser_inv P" "95 \<notin> set name" "rule_ok (length (symbol_ids P)) k rule" "\<forall>e \<in> set (drop k rule). \<not> is_end_of_sequence e"
    "\<forall>i. length (symbol_ids P) \<le> i \<and> i < length (symbol_ids P') \<longrightarrow> i < length rules \<and> rules ! i = parser_rules P' ! i"
    "length (symbol_ids P') < 2 ^ 32"
  shows "\<exists>tail. rule' = take k rule @ tail \<and> (\<forall>w. derives rules tail w \<longleftrightarrow>
    (\<exists>ws. min_times \<le> int (length ws) \<and> (max_times \<noteq> UINT64_MAX \<longrightarrow> int (length ws) \<le> max_times) \<and>
          (\<forall>v \<in> set ws. derives rules (drop k rule) v) \<and> w = concat ws))"
proof -
  let ?prev = "drop k rule" and ?n = "n_opt min_times max_times" and ?s = "length (symbol_ids P)" and ?m = "nat min_times"
  let ?nm = "max_times = UINT64_MAX"
  obtain l Q where f: "fold (opt_rule name ?prev ?nm) [0..<?n] (0, P) = (l, Q)" by (cases "fold (opt_rule name ?prev ?nm) [0..<?n] (0, P)")
  have pv: "body_ok ?s ?prev" using assms(7) by (simp add: rule_ok_def)
  define opt where "opt = (if ?n > 0 then [gel GRETYPE_RULE_REF (?s + ?n - 1)] else [])"
  have PQ: "P' = Q" using assms(1) f by (auto simp: handle_repetitions_def Let_def split: if_splits)
  note wr = opt_rules_written[OF f assms(5,6) pv assms(10)[unfolded PQ]]
  have "?m = Suc (nat (min_times - 1))" if "min_times \<noteq> 0" using that assms(2) by simp
  then have r: "rule' = take k rule @ concat (replicate ?m ?prev) @ opt"
    using assms(1) f wr by (auto simp: handle_repetitions_def Let_def opt_def split: if_splits)
  have R: "?s + i < length rules \<and> rules ! (?s + i) = rec_rule ?prev ?nm ?s i" if "i < ?n" for i
    using spec[OF assms(9), of "?s + i"] wr that PQ by simp
  have ss: "starts_symbol ?prev" using pv by (cases ?prev) (auto simp: body_ok_def follows_def starts_symbol_def)
  have n1: "?nm \<Longrightarrow> ?n = 1" by (simp add: n_opt_def)
  have "derives rules (concat (replicate ?m ?prev) @ opt) w \<longleftrightarrow>
      (\<exists>ws. ?m \<le> length ws \<and> (\<not> ?nm \<longrightarrow> length ws \<le> ?m + ?n) \<and> times_words rules ?prev ws \<and> w = concat ws)" for w
    by (rule required_and_optional_words[OF ss]) (simp add: opt_def starts_symbol_def gel_def, unfold opt_def, rule optional_words[OF assms(8) R n1])
  moreover have "\<not> ?nm \<Longrightarrow> int (?m + ?n) = max_times" using assms(2-4) by (simp add: n_opt_def UINT64_MAX_def)
  ultimately show ?thesis using r assms(2) by (intro exI[of _ "concat (replicate ?m ?prev) @ opt"]) (auto simp: times_words_def nat_le_iff)
qed

text \<open>The parser after the symbol \<open>r\<close>, and what \<open>"a"{1,3}\<close> adds to it.\<close>

definition rep_start :: llama_grammar_parser where
  "rep_start = \<lparr>symbol_ids = [([114], 0)], parser_rules = []\<rparr>"

definition rep_end :: llama_grammar_parser where
  "rep_end = \<lparr>symbol_ids = [([114], 0), ([114, 95, 49], 1), ([114, 95, 50], 2)],
     parser_rules = [[], [gel GRETYPE_CHAR 97, gel GRETYPE_ALT 0, gel GRETYPE_END 0],
       [gel GRETYPE_CHAR 97, gel GRETYPE_RULE_REF 1, gel GRETYPE_ALT 0, gel GRETYPE_END 0]]\<rparr>"

theorem repetition_words_witness:
  "\<exists>tail. [gel GRETYPE_CHAR 97, gel GRETYPE_RULE_REF 2] = tail \<and> (derives (parser_rules rep_end) tail [97, 97] \<longleftrightarrow>
     (\<exists>ws. 1 \<le> int (length ws) \<and> int (length ws) \<le> 3 \<and> (\<forall>v \<in> set ws. derives (parser_rules rep_end) [gel GRETYPE_CHAR 97] v) \<and> [97, 97] = concat ws))"
proof -
  have h: "handle_repetitions [114] 1 3 0 [gel GRETYPE_CHAR 97] rep_start = Inr ([gel GRETYPE_CHAR 97, gel GRETYPE_RULE_REF 2], rep_end)" by code_simp
  have p: "parser_inv rep_start" by (simp add: parser_inv_def symbols_ok_def rep_start_def)
  have n: "length (symbol_ids rep_start) = 1" "length (symbol_ids rep_end) = 3" "length (parser_rules rep_end) = 3" by (simp_all add: rep_start_def rep_end_def)
  have o: "rule_ok 1 0 [gel GRETYPE_CHAR 97]" "\<forall>e \<in> set [gel GRETYPE_CHAR 97]. \<not> is_end_of_sequence e"
    by (simp add: rule_ok_def) (simp add: gel_def is_end_iff)
  show ?thesis using repetition_words[OF h _ _ _ p, of "parser_rules rep_end"] n o by (simp add: UINT64_MAX_def)
qed

end
