(* ===== verification/Grammar_Text.thy ===== *)
theory Grammar_Text
  imports Grammar_Repeat Grammar_Correct
begin

text \<open>
  From the text of a grammar to the language of the grammar object: the parser always returns, what it returns is
  what the engine needs, and the object accepts the words that the parsed rules derive.
\<close>

section \<open>The parser\<close>

text \<open>
  C38: The recursion of the parser ends on every text, at the latest when the text is used up: the result is an
  error of the code or a parser object, never an exhausted bound on the recursion. If the object has fewer than
  \<open>2 ^ 32\<close> symbols, so that no id was truncated, its rules are well formed: every rule ends with its only
  END element, every reference is to a defined rule, every continuation of a character range follows a range, and the
  ids of the symbols are the numbers from 0 on; and the copy that the construction of the engine makes of the rules is exact.
  Memory is not part of the model. The bound on the symbols is reached by texts with bounds in the wrong order,
  such as \<open>{3,2}\<close>, for which the code generates rules until the memory is used up (\<open>n_opt_wraps\<close>).
\<close>

theorem parser_result:
  "case parse_text tokenize src of
     Inl e \<Rightarrow> e \<noteq> Out_Of_Fuel
   | Inr P \<Rightarrow> length (symbol_ids P) < 2 ^ 32 \<longrightarrow>
       wf_rules (parser_rules P) \<and> those (map copy_rule (parser_rules P)) = Some (parser_rules P) \<and>
       map snd (symbol_ids P) = [0..<length (symbol_ids P)]"
proof (cases "parse_text tokenize src")
  case (Inl e)
  then show ?thesis using text_fuel[of tokenize src] by (simp add: fuelled_def)
next
  case (Inr P)
  then show ?thesis using parsed_rules_wf[OF Inr] by simp
qed

text \<open>The text \<open>root ::= [a-c] b\<close>, \<open>b ::= "x" b |\<close>.\<close>

definition example_text :: bytes where
  "example_text = map of_char ''root ::= [a-c] b'' @ [10] @ map of_char ''b ::= \"x\" b |'' @ [10]"

definition root_name :: bytes where
  "root_name = map of_char ''root''"

lemma example_text_parse: "parse_text None example_text = Inr \<lparr>symbol_ids = [(root_name, 0), ([98], 1)], parser_rules = example_rules\<rparr>"
  by code_simp

theorem parser_result_witness:
  "\<exists>P. parse_text None example_text = Inr P \<and> length (symbol_ids P) = 2 \<and> wf_rules (parser_rules P) \<and>
     those (map copy_rule (parser_rules P)) = Some (parser_rules P) \<and> map snd (symbol_ids P) = [0, 1]"
  using parser_result[of None example_text] by (auto simp: example_text_parse)

section \<open>From the text to the words\<close>

lemma init_str_inv:
  assumes "llama_grammar_init_str tokenize grammar_str grammar_root lazy tts = Some (Some g)"
    "\<And>P. parse tokenize grammar_str = Some P \<Longrightarrow> length (symbol_ids P) < 2 ^ 32"
  obtains P r where "parse tokenize grammar_str = Some P" "map_of (symbol_ids P) grammar_root = Some r" "wf_rules (parser_rules P)"
    "llama_grammar_init_impl (parser_rules P) r lazy tts = Some (Some g)" "g_rules g = parser_rules P" "r < length (parser_rules P)"
proof -
  obtain P r where p: "parse tokenize grammar_str = Some P" "map_of (symbol_ids P) grammar_root = Some r"
    "llama_grammar_init_impl (parser_rules P) r lazy tts = Some (Some g)"
    using assms(1) by (auto simp: llama_grammar_init_str_def split: option.splits if_splits)
  obtain src where s: "parse_text tokenize src = Inr P" using p(1) by (auto simp: parse_def split: sum.splits)
  note w = parsed_rules_wf[OF s assms(2)[OF p(1)]]
  obtain st where i: "g_rules g = parser_rules P" "initial_stacks (parser_rules P) r = Some st"
    using p(3) w(2) by (auto simp: llama_grammar_init_impl_def bind_Some_iff split: if_splits)
  then obtain starts where "alternates (parser_rules P) (r, 0) = Some starts" by (auto simp: initial_stacks_def bind_Some_iff)
  then obtain q where "scan_end (parser_rules P) (r, 0) = Some q" by (subst (asm) alternates.simps) (auto split: option.splits)
  then have "r < length (parser_rules P)" using scan_end_Some by (fastforce simp: gelem_Some)
  then show ?thesis using that p w(1) i(1) by blast
qed

text \<open>
  C40: A grammar given as text accepts the words of its rules. If the construction from a text returns a grammar object, the
  parser has read fewer than \<open>2 ^ 32\<close> symbols, and every rule that derives the empty word has an empty alternate, the object accepts any sequence of code points without
  running forever, and the end of generation is then allowed exactly if the sequence is derived from the root symbol by
  the rules the parser has read.
\<close>

theorem text_grammar_language:
  assumes "llama_grammar_init_str tokenize grammar_str grammar_root lazy tts = Some (Some g)" "empties_visible (g_rules g)"
    "\<And>P. parse tokenize grammar_str = Some P \<Longrightarrow> length (symbol_ids P) < 2 ^ 32"
  shows "\<exists>P r g'. parse tokenize grammar_str = Some P \<and> map_of (symbol_ids P) grammar_root = Some r \<and>
    ofold llama_grammar_accept cs g = Some g' \<and> (allow_eog g' \<longleftrightarrow> cs \<in> derived_words (parser_rules P) r)"
proof -
  obtain P r where p: "parse tokenize grammar_str = Some P" "map_of (symbol_ids P) grammar_root = Some r" "wf_rules (parser_rules P)"
    "llama_grammar_init_impl (parser_rules P) r lazy tts = Some (Some g)" "g_rules g = parser_rules P" "r < length (parser_rules P)"
    using init_str_inv[OF assms(1,3)] by blast
  have "grammar_inv (grammar_words (g_rules g) r) g" using init_grammar(1)[OF p(4)] assms(2) p(3,5,6) by (simp add: sound_rules_def)
  from grammar_accept_inv[OF this, of cs] obtain g' where g': "ofold llama_grammar_accept cs g = Some g'"
    "grammar_inv (deriv cs (grammar_words (g_rules g) r)) g'" by blast
  then have "allow_eog g' \<longleftrightarrow> cs \<in> derived_words (parser_rules P) r"
    using grammar_inv_eog[OF g'(2)] grammar_words_derived[OF p(3,6)] p(5) by (simp add: deriv_def)
  then show ?thesis using p(1,2) g'(1) by blast
qed

lemma example_text_parsed: "parse None example_text = Some \<lparr>symbol_ids = [(root_name, 0), ([98], 1)], parser_rules = example_rules\<rparr>"
proof -
  have "takeWhile (\<lambda>c. c \<noteq> 0) example_text = example_text" by code_simp
  then show ?thesis unfolding parse_def by (simp only: example_text_parse sum.case)
qed

theorem text_grammar_language_witness:
  "\<exists>g g'. llama_grammar_init_str None example_text root_name False [] = Some (Some g) \<and> ofold llama_grammar_accept [0x62, 0x78] g = Some g' \<and>
     (allow_eog g' \<longleftrightarrow> [0x62, 0x78] \<in> derived_words example_rules 0)"
proof -
  obtain g where g: "llama_grammar_init_impl example_rules 0 False [] = Some (Some g)" "g_rules g = example_rules" using example_rules_init by blast
  have "root_name = [114, 111, 111, 116]" by code_simp
  moreover have "example_rules \<noteq> []" using example_rules_length by auto
  ultimately have i: "llama_grammar_init_str None example_text root_name False [] = Some (Some g)"
    using g(1) example_text_parsed by (simp add: llama_grammar_init_str_def)
  have "empties_visible (g_rules g)" using example_rules_sound g(2) by (simp add: sound_rules_def)
  moreover have "length (symbol_ids P) < 2 ^ 32" if "parse None example_text = Some P" for P using that example_text_parsed by auto
  ultimately have "\<exists>P r g'. parse None example_text = Some P \<and> map_of (symbol_ids P) root_name = Some r \<and>
      ofold llama_grammar_accept [0x62, 0x78] g = Some g' \<and> (allow_eog g' \<longleftrightarrow> [0x62, 0x78] \<in> derived_words (parser_rules P) r)"
    by (rule text_grammar_language[OF i])
  then show ?thesis using i example_text_parsed by auto
qed

section \<open>A text that the check misses\<close>

text \<open>
  The text \<open>root ::= ("x"?)*\<close>. The rule of the group is empty only through the rule of the question mark, so the left
  recursion of the rule of the star is not seen.
\<close>

definition star_text :: bytes where
  "star_text = map of_char ''root ::= (\"x\"?)*''"

definition star_rules :: llama_grammar_rules where
  "star_rules =
    [[gre GRETYPE_RULE_REF 3, gre GRETYPE_END 0],
     [gre GRETYPE_RULE_REF 2, gre GRETYPE_END 0],
     [gre GRETYPE_CHAR 0x78, gre GRETYPE_ALT 0, gre GRETYPE_END 0],
     [gre GRETYPE_RULE_REF 1, gre GRETYPE_RULE_REF 3, gre GRETYPE_ALT 0, gre GRETYPE_END 0]]"

lemma star_text_parsed:
  "parse None star_text = Some \<lparr>symbol_ids = [(root_name, 0), (root_name @ [95, 49], 1), (root_name @ [95, 50], 2), (root_name @ [95, 51], 3)],
     parser_rules = star_rules\<rparr>"
  by code_simp

lemma star_check: "check_left_recursion star_rules = Some False"
  by code_simp

lemma star_expand:
  "gelem star_rules (0, 0) = Some (gre GRETYPE_RULE_REF 3)" "gelem star_rules (1, 0) = Some (gre GRETYPE_RULE_REF 2)"
  "gelem star_rules (3, 0) = Some (gre GRETYPE_RULE_REF 1)" "gelem star_rules (3, 1) = Some (gre GRETYPE_RULE_REF 3)"
  by code_simp+

lemma star_alternates:
  "alternates star_rules (0, 0) = Some [(0, 0)]" "alternates star_rules (1, 0) = Some [(1, 0)]"
  "alternates star_rules (2, 0) = Some [(2, 0), (2, 2)]" "alternates star_rules (3, 0) = Some [(3, 0), (3, 3)]"
  by code_simp+

lemma star_push:
  "push_pos star_rules (0, 0) X = Some ((0, 0) # X)" "push_pos star_rules (0, 1) X = Some X"
  "push_pos star_rules (1, 0) X = Some ((1, 0) # X)" "push_pos star_rules (1, 1) X = Some X"
  "push_pos star_rules (2, 0) X = Some ((2, 0) # X)" "push_pos star_rules (2, 2) X = Some X"
  "push_pos star_rules (3, 0) X = Some ((3, 0) # X)" "push_pos star_rules (3, 1) X = Some ((3, 1) # X)"
  "push_pos star_rules (3, 2) X = Some X" "push_pos star_rules (3, 3) X = Some X"
  by code_simp+

lemmas star_step = star_expand expand_ref_def star_alternates star_push gnext_def gre_def bind_Some_iff

lemma star_diverges:
  assumes "llama_grammar_advance_stack rules stack acc = Some res" "rules = star_rules"
    "stack \<in> {[(0, 0)], [(3, 0)], [(1, 0), (3, 1)], [(3, 1)]}"
  shows False
  using assms
proof (induction rule: llama_grammar_advance_stack.raw_induct[rotated, consumes 1, case_names step])
  case (step adv rules stack acc res)
  have ih: "\<not> adv rules st acc' = Some res'" if "st \<in> {[(3, 0)], [(1, 0), (3, 1)], [(3, 1)]}" for st acc' res'
    using step(1)[of rules st acc' res'] step(3) that by blast
  from step(4) show False
    using step(2,3) ih[of "[(3, 0)]"] ih[of "[(1, 0), (3, 1)]"] ih[of "[(3, 1)]"] by (auto simp: star_step simp del: One_nat_def)
qed

lemma star_text_diverges: "llama_grammar_init_str None star_text root_name lazy tts = None"
proof -
  have "those (map copy_rule star_rules) = Some star_rules" by code_simp
  moreover have "initial_stacks star_rules 0 = None"
  proof (cases "llama_grammar_advance_stack star_rules [(0, 0)] []")
    case None
    then show ?thesis by (simp add: initial_stacks_def star_alternates star_push)
  next
    case (Some res)
    from star_diverges[OF Some] show ?thesis by simp
  qed
  ultimately have "llama_grammar_init_impl star_rules 0 lazy tts = None" using star_check by (simp add: llama_grammar_init_impl_def)
  moreover have "root_name = [114, 111, 111, 116]" by code_simp
  moreover have "star_rules \<noteq> []" by (simp add: star_rules_def)
  ultimately show ?thesis using star_text_parsed by (simp add: llama_grammar_init_str_def)
qed

section \<open>Corner cases of the repetition\<close>

text \<open>For bounds in the wrong order, such as \<open>{3,2}\<close>, the number of optional rules wraps around.\<close>

lemma n_opt_wraps: "int (n_opt 3 2) = 2 ^ 64 - 1"
  by (simp add: n_opt_def UINT64_MAX_def)

text \<open>
  The text \<open>s ::= root{0}\<close>: the reference to the symbol \<open>root\<close> is dropped before the validation, so the symbol exists
  and its rule does not, and the construction reads behind the end of the rules.
\<close>

definition undefined_root_text :: bytes where
  "undefined_root_text = map of_char ''s ::= root{0}''"

lemma undefined_root_parsed:
  "parse None undefined_root_text = Some \<lparr>symbol_ids = [([115], 0), (root_name, 1)], parser_rules = [[gre GRETYPE_END 0]]\<rparr>"
  by code_simp

end
