(* ===== verification/Dyn_Tallocr.thy ===== *)
theory Dyn_Tallocr
  imports Llama_Prelude "HOL-Library.Word"
begin

text \<open>
  The dynamic tensor allocator of ggml (\<open>src/ggml/src/ggml-alloc.c\<close>), which plans where the
  tensors of a compute graph live. It hands out offsets in up to 16 chunks; each chunk keeps
  an array of 256 free blocks sorted by offset. \<open>ggml_dyn_tallocr_alloc\<close> takes a best
  fitting block, or the last block of a chunk, or opens a chunk;
  \<open>ggml_dyn_tallocr_free_bytes\<close> gives a region back and merges it with its neighbours. The
  file also has the linear allocator \<open>ggml_tallocr\<close>, which fills one buffer from its start.

  \<open>size_t\<close> and addresses are 64-bit words, so that sums and differences wrap as in C. The
  array of free blocks has its 256 places, and reading or writing outside it is an abort
  (\<open>None\<close>), as is a failed \<open>GGML_ASSERT\<close>, \<open>assert\<close> or \<open>GGML_ABORT\<close>. The array of chunk
  pointers is the list of the chunks that exist, so \<open>n_chunks\<close> is its length;
  \<open>n_free_blocks\<close> is a \<open>nat\<close>, since it is only lowered after a block was found. The running
  maximum \<open>max_avail\<close>, which is only printed, and the code under \<open>GGML_ALLOCATOR_DEBUG\<close> are
  left out.
\<close>

unbundle bit_operations_syntax

type_synonym size_t = "64 word"

definition SIZE_MAX :: size_t where
  "SIZE_MAX = - 1"

definition INT64_MIN :: int where
  "INT64_MIN = - (2 ^ 63)"

definition MAX_FREE_BLOCKS :: nat where
  "MAX_FREE_BLOCKS = 256"

definition GGML_VBUFFER_MAX_CHUNKS :: nat where
  "GGML_VBUFFER_MAX_CHUNKS = 16"

definition aligned_offset :: "size_t \<Rightarrow> size_t \<Rightarrow> size_t \<Rightarrow> size_t option" where
  "aligned_offset buffer offset alignment = do {
     assert_that (alignment \<noteq> 0 \<and> (alignment AND (alignment - 1)) = 0);
     let align = (alignment - ((buffer + offset) mod alignment)) mod alignment;
     Some (offset + align) }"

section \<open>The linear allocator\<close>

record ggml_tallocr =
  ta_base :: size_t
  ta_buffer_size :: size_t
  ta_alignment :: size_t
  ta_offset :: size_t

definition GGML_PAD :: "size_t \<Rightarrow> size_t \<Rightarrow> size_t" where
  "GGML_PAD x n = (x + n - 1) AND (NOT (n - 1))"

definition ggml_tallocr_new :: "size_t \<Rightarrow> size_t \<Rightarrow> size_t \<Rightarrow> ggml_tallocr option" where
  "ggml_tallocr_new base buffer_size align = do {
     assert_that (align \<noteq> 0 \<and> (align AND (align - 1)) = 0);
     off \<leftarrow> aligned_offset base 0 align;
     Some \<lparr>ta_base = base, ta_buffer_size = buffer_size, ta_alignment = align, ta_offset = off\<rparr> }"

text \<open>
  The result is the address given to \<open>ggml_backend_tensor_alloc\<close>; \<open>alloc_size\<close> is what the
  backend reports for the tensor.
\<close>

definition ggml_tallocr_alloc :: "ggml_tallocr \<Rightarrow> size_t \<Rightarrow> (size_t \<times> ggml_tallocr) option" where
  "ggml_tallocr_alloc talloc alloc_size = do {
     let sz = GGML_PAD alloc_size (ta_alignment talloc);
     assert_that (\<not> ta_offset talloc + sz > ta_buffer_size talloc);
     let addr = ta_base talloc + ta_offset talloc;
     assert_that (addr mod ta_alignment talloc = 0);
     Some (addr, talloc\<lparr>ta_offset := ta_offset talloc + sz\<rparr>) }"

section \<open>The dynamic allocator\<close>

record buffer_address =
  ba_chunk :: int
  ba_offset :: size_t

definition GGML_BUFFER_ADDRESS_INVALID :: buffer_address where
  "GGML_BUFFER_ADDRESS_INVALID = \<lparr>ba_chunk = - 1, ba_offset = SIZE_MAX\<rparr>"

record free_block =
  fb_offset :: size_t
  fb_size :: size_t

record tallocr_chunk =
  free_blocks :: "free_block list"
  n_free_blocks :: nat
  max_size :: size_t

record ggml_dyn_tallocr =
  dt_alignment :: size_t
  max_chunk_size :: size_t
  dt_chunks :: "tallocr_chunk list"

definition zero_block :: free_block where
  "zero_block = \<lparr>fb_offset = 0, fb_size = 0\<rparr>"

text \<open>The \<open>while\<close> loop that finds the place of a new block.\<close>

function insert_pos_from :: "free_block list \<Rightarrow> nat \<Rightarrow> size_t \<Rightarrow> nat \<Rightarrow> nat" where
  "insert_pos_from bs n offset p =
     (if p < n \<and> fb_offset (bs ! p) < offset then insert_pos_from bs n offset (p + 1) else p)"
  by auto
termination by (relation "measure (\<lambda>(bs, n, offset, p). n - p)") auto

definition shift_right :: "nat \<Rightarrow> free_block list \<Rightarrow> free_block list option" where
  "shift_right i bs = do { b \<leftarrow> vget bs (i - 1); vset bs i b }"

definition shift_left :: "nat \<Rightarrow> free_block list \<Rightarrow> free_block list option" where
  "shift_left i bs = do { b \<leftarrow> vget bs (i + 1); vset bs i b }"

definition ggml_dyn_tallocr_insert_block :: "tallocr_chunk \<Rightarrow> size_t \<Rightarrow> size_t \<Rightarrow> tallocr_chunk option" where
  "ggml_dyn_tallocr_insert_block chunk offset sz = do {
     assert_that (n_free_blocks chunk < MAX_FREE_BLOCKS);
     let insert_pos = insert_pos_from (free_blocks chunk) (n_free_blocks chunk) offset 0;
     bs \<leftarrow> ofold shift_right (rev [insert_pos + 1..<n_free_blocks chunk + 1]) (free_blocks chunk);
     bs \<leftarrow> vset bs insert_pos \<lparr>fb_offset = offset, fb_size = sz\<rparr>;
     Some (chunk\<lparr>free_blocks := bs, n_free_blocks := n_free_blocks chunk + 1\<rparr>) }"

definition ggml_dyn_tallocr_remove_block :: "tallocr_chunk \<Rightarrow> nat \<Rightarrow> tallocr_chunk option" where
  "ggml_dyn_tallocr_remove_block chunk idx = do {
     bs \<leftarrow> ofold shift_left [idx..<n_free_blocks chunk] (free_blocks chunk);
     Some (chunk\<lparr>free_blocks := bs, n_free_blocks := n_free_blocks chunk - 1\<rparr>) }"

text \<open>The index of the new chunk, or \<open>-1\<close> when there are 16 already.\<close>

definition ggml_dyn_tallocr_new_chunk :: "ggml_dyn_tallocr \<Rightarrow> size_t \<Rightarrow> int \<times> ggml_dyn_tallocr" where
  "ggml_dyn_tallocr_new_chunk alloc min_size =
     (if length (dt_chunks alloc) \<ge> GGML_VBUFFER_MAX_CHUNKS then (- 1, alloc)
      else let sz = max min_size (max_chunk_size alloc);
               sz = (if length (dt_chunks alloc) = GGML_VBUFFER_MAX_CHUNKS - 1 then SIZE_MAX div 2 else sz);
               chunk = \<lparr>free_blocks = (replicate MAX_FREE_BLOCKS zero_block)[0 := \<lparr>fb_offset = 0, fb_size = sz\<rparr>],
                        n_free_blocks = 1, max_size = 0\<rparr>;
               alloc = alloc\<lparr>dt_chunks := dt_chunks alloc @ [chunk]\<rparr>
           in (int (length (dt_chunks alloc)) - 1, alloc))"

subsection \<open>Allocation\<close>

text \<open>One block of the search for the best fit among the blocks before the last one.\<close>

definition fit_block :: "size_t \<Rightarrow> nat \<Rightarrow> tallocr_chunk \<Rightarrow> nat \<Rightarrow> int \<times> int \<times> size_t \<Rightarrow> (int \<times> int \<times> size_t) option" where
  "fit_block sz c chunk i = (\<lambda>(best_fit_chunk, best_fit_block, best_fit_size). do {
     block \<leftarrow> vget (free_blocks chunk) i;
     if fb_size block \<ge> sz \<and> fb_size block \<le> best_fit_size
     then Some (int c, int i, fb_size block)
     else Some (best_fit_chunk, best_fit_block, best_fit_size) })"

text \<open>\<open>best_fit_size\<close> starts again for each chunk.\<close>

definition fit_chunk :: "size_t \<Rightarrow> tallocr_chunk list \<Rightarrow> nat \<Rightarrow> int \<times> int \<Rightarrow> (int \<times> int) option" where
  "fit_chunk sz chunks c = (\<lambda>(best_fit_chunk, best_fit_block). do {
     chunk \<leftarrow> vget chunks c;
     (bc, bb, bs) \<leftarrow> ofold (fit_block sz c chunk) [0..<n_free_blocks chunk - 1]
        (best_fit_chunk, best_fit_block, SIZE_MAX);
     Some (bc, bb) })"

text \<open>
  One chunk of the search among the last blocks; \<open>reuse_factor\<close> is the difference of the
  \<open>size_t\<close> values read as \<open>int64_t\<close>.
\<close>

definition reuse_factor :: "tallocr_chunk \<Rightarrow> free_block \<Rightarrow> size_t \<Rightarrow> int" where
  "reuse_factor chunk block sz = sint (max_size chunk - fb_offset block - sz)"

definition last_chunk :: "size_t \<Rightarrow> tallocr_chunk list \<Rightarrow> nat \<Rightarrow> int \<times> int \<times> int \<Rightarrow> (int \<times> int \<times> int) option" where
  "last_chunk sz chunks c = (\<lambda>(best_fit_chunk, best_fit_block, best_reuse). do {
     chunk \<leftarrow> vget chunks c;
     if n_free_blocks chunk > 0 then do {
       block \<leftarrow> vget (free_blocks chunk) (n_free_blocks chunk - 1);
       let rf = reuse_factor chunk block sz;
       let better_reuse = (best_reuse < 0 \<and> rf > best_reuse);
       let better_fit = (rf \<ge> 0 \<and> rf < best_reuse);
       if fb_size block \<ge> sz \<and> (better_reuse \<or> better_fit)
       then Some (int c, int (n_free_blocks chunk) - 1, rf)
       else Some (best_fit_chunk, best_fit_block, best_reuse) }
     else Some (best_fit_chunk, best_fit_block, best_reuse) })"

text \<open>The two searches, and a new chunk when both fail: chunk and block to allocate from.\<close>

definition choose_block :: "ggml_dyn_tallocr \<Rightarrow> size_t \<Rightarrow> (int \<times> int \<times> ggml_dyn_tallocr) option" where
  "choose_block alloc sz = do {
     let chunks = dt_chunks alloc;
     (bc, bb) \<leftarrow> ofold (fit_chunk sz chunks) [0..<length chunks] (- 1, - 1);
     (bc, bb) \<leftarrow> (if bb = - 1 then do {
         (bc, bb, br) \<leftarrow> ofold (last_chunk sz chunks) [0..<length chunks] (bc, bb, INT64_MIN);
         Some (bc, bb) }
       else Some (bc, bb));
     Some (if bb = - 1 then let (bc, alloc) = ggml_dyn_tallocr_new_chunk alloc sz in (bc, 0, alloc)
       else (bc, bb, alloc)) }"

text \<open>Taking \<open>sz\<close> bytes from the front of block \<open>i\<close> of a chunk.\<close>

definition take_bytes :: "tallocr_chunk \<Rightarrow> nat \<Rightarrow> size_t \<Rightarrow> (size_t \<times> tallocr_chunk) option" where
  "take_bytes chunk i sz = do {
     block \<leftarrow> vget (free_blocks chunk) i;
     let addr_offset = fb_offset block;
     let block = block\<lparr>fb_offset := fb_offset block + sz, fb_size := fb_size block - sz\<rparr>;
     bs \<leftarrow> vset (free_blocks chunk) i block;
     let chunk = chunk\<lparr>free_blocks := bs\<rparr>;
     chunk \<leftarrow> (if fb_size block = 0 then ggml_dyn_tallocr_remove_block chunk i else Some chunk);
     Some (addr_offset, chunk\<lparr>max_size := max (max_size chunk) (addr_offset + sz)\<rparr>) }"

definition ggml_dyn_tallocr_alloc :: "ggml_dyn_tallocr \<Rightarrow> size_t \<Rightarrow> (buffer_address \<times> ggml_dyn_tallocr) option" where
  "ggml_dyn_tallocr_alloc alloc sz = do {
     sz \<leftarrow> aligned_offset 0 sz (dt_alignment alloc);
     (bc, bb, alloc) \<leftarrow> choose_block alloc sz;
     assert_that (bc \<noteq> - 1);
     chunk \<leftarrow> vget (dt_chunks alloc) (nat bc);
     (off, chunk) \<leftarrow> take_bytes chunk (nat bb) sz;
     chunks \<leftarrow> vset (dt_chunks alloc) (nat bc) chunk;
     Some (\<lparr>ba_chunk = bc, ba_offset = off\<rparr>, alloc\<lparr>dt_chunks := chunks\<rparr>) }"

subsection \<open>Release\<close>

text \<open>The two merges of a released region with block \<open>i\<close>, which it follows or precedes.\<close>

definition merge_after :: "tallocr_chunk \<Rightarrow> nat \<Rightarrow> free_block \<Rightarrow> size_t \<Rightarrow> tallocr_chunk option" where
  "merge_after chunk i block sz = do {
     let block = block\<lparr>fb_size := fb_size block + sz\<rparr>;
     bs \<leftarrow> vset (free_blocks chunk) i block;
     if i + 1 < n_free_blocks chunk then do {
       nxt \<leftarrow> vget bs (i + 1);
       if fb_offset block + fb_size block = fb_offset nxt then do {
         bs \<leftarrow> vset bs i (block\<lparr>fb_size := fb_size block + fb_size nxt\<rparr>);
         ggml_dyn_tallocr_remove_block (chunk\<lparr>free_blocks := bs\<rparr>) (i + 1) }
       else Some (chunk\<lparr>free_blocks := bs\<rparr>) }
     else Some (chunk\<lparr>free_blocks := bs\<rparr>) }"

definition merge_before :: "tallocr_chunk \<Rightarrow> nat \<Rightarrow> free_block \<Rightarrow> size_t \<Rightarrow> size_t \<Rightarrow> tallocr_chunk option" where
  "merge_before chunk i block offset sz = do {
     let block = \<lparr>fb_offset = offset, fb_size = fb_size block + sz\<rparr>;
     bs \<leftarrow> vset (free_blocks chunk) i block;
     if i > 0 then do {
       prev \<leftarrow> vget bs (i - 1);
       if fb_offset prev + fb_size prev = fb_offset block then do {
         bs \<leftarrow> vset bs (i - 1) (prev\<lparr>fb_size := fb_size prev + fb_size block\<rparr>);
         ggml_dyn_tallocr_remove_block (chunk\<lparr>free_blocks := bs\<rparr>) i }
       else Some (chunk\<lparr>free_blocks := bs\<rparr>) }
     else Some (chunk\<lparr>free_blocks := bs\<rparr>) }"

fun free_scan :: "nat list \<Rightarrow> tallocr_chunk \<Rightarrow> size_t \<Rightarrow> size_t \<Rightarrow> tallocr_chunk option" where
  "free_scan [] chunk offset sz = ggml_dyn_tallocr_insert_block chunk offset sz"
| "free_scan (i # is) chunk offset sz = do {
     block \<leftarrow> vget (free_blocks chunk) i;
     if fb_offset block + fb_size block = offset then merge_after chunk i block sz
     else if offset + sz = fb_offset block then merge_before chunk i block offset sz
     else free_scan is chunk offset sz }"

definition ggml_dyn_tallocr_free_bytes :: "ggml_dyn_tallocr \<Rightarrow> buffer_address \<Rightarrow> size_t \<Rightarrow> ggml_dyn_tallocr option" where
  "ggml_dyn_tallocr_free_bytes alloc addr sz = do {
     sz \<leftarrow> aligned_offset 0 sz (dt_alignment alloc);
     assert_that (0 \<le> ba_chunk addr);
     chunk \<leftarrow> vget (dt_chunks alloc) (nat (ba_chunk addr));
     chunk \<leftarrow> free_scan [0..<n_free_blocks chunk] chunk (ba_offset addr) sz;
     chunks \<leftarrow> vset (dt_chunks alloc) (nat (ba_chunk addr)) chunk;
     Some (alloc\<lparr>dt_chunks := chunks\<rparr>) }"

subsection \<open>Construction\<close>

definition ggml_dyn_tallocr_reset :: "ggml_dyn_tallocr \<Rightarrow> ggml_dyn_tallocr" where
  "ggml_dyn_tallocr_reset alloc = alloc\<lparr>dt_chunks := []\<rparr>"

definition ggml_dyn_tallocr_new :: "size_t \<Rightarrow> size_t \<Rightarrow> ggml_dyn_tallocr" where
  "ggml_dyn_tallocr_new alignment max_buffer_size =
     ggml_dyn_tallocr_reset
       \<lparr>dt_alignment = alignment, max_chunk_size = min max_buffer_size (SIZE_MAX div 2), dt_chunks = []\<rparr>"

definition ggml_dyn_tallocr_max_size :: "ggml_dyn_tallocr \<Rightarrow> nat \<Rightarrow> size_t" where
  "ggml_dyn_tallocr_max_size alloc chunk =
     (if chunk < length (dt_chunks alloc) then max_size (dt_chunks alloc ! chunk) else 0)"

end
