(* ===== verification/Tallocr_Blocks.thy ===== *)
theory Tallocr_Blocks
  imports Dyn_Tallocr
begin

text \<open>
  The free blocks of one chunk of the dynamic tensor allocator. \<open>fblocks\<close> is the list in the
  used part of the array. \<open>blocks_ok\<close> is its invariant: the blocks are not empty, start at
  multiples of the alignment, lie within the capacity of the chunk, and are sorted with a
  gap between neighbours, so that no two blocks could be merged. The lemmas say what the
  array loops do on that list, what taking bytes from a block and giving a region back does
  to the set of free bytes, and that the list is determined by that set.
\<close>

section \<open>The list in the array\<close>

definition fb_lo :: "free_block \<Rightarrow> nat" where
  "fb_lo b = unat (fb_offset b)"

definition fb_hi :: "free_block \<Rightarrow> nat" where
  "fb_hi b = unat (fb_offset b) + unat (fb_size b)"

definition fblocks :: "tallocr_chunk \<Rightarrow> free_block list" where
  "fblocks ck = take (n_free_blocks ck) (free_blocks ck)"

definition arr_ok :: "tallocr_chunk \<Rightarrow> bool" where
  "arr_ok ck \<longleftrightarrow> length (free_blocks ck) = MAX_FREE_BLOCKS \<and> n_free_blocks ck \<le> MAX_FREE_BLOCKS"

lemma length_fblocks [simp]: "arr_ok ck \<Longrightarrow> length (fblocks ck) = n_free_blocks ck"
  by (simp add: arr_ok_def fblocks_def)

lemma nth_fblocks: "i < n_free_blocks ck \<Longrightarrow> fblocks ck ! i = free_blocks ck ! i"
  by (simp add: fblocks_def)

lemma vget_fblocks:
  "\<lbrakk>arr_ok ck; fblocks ck = L @ b # R; i = length L\<rbrakk> \<Longrightarrow> vget (free_blocks ck) i = Some b"
  using nth_fblocks[of i ck] length_fblocks[of ck] by (auto simp: arr_ok_def)

lemma vset_fblocks:
  assumes "arr_ok ck" "fblocks ck = L @ b # R" "i = length L"
  shows "\<exists>bs. vset (free_blocks ck) i x = Some bs \<and> arr_ok (ck\<lparr>free_blocks := bs\<rparr>)
    \<and> fblocks (ck\<lparr>free_blocks := bs\<rparr>) = L @ x # R"
proof -
  have "i < n_free_blocks ck" using assms length_fblocks[of ck] by auto
  then have "i < length (free_blocks ck)" using assms(1) by (simp add: arr_ok_def)
  moreover have "take (n_free_blocks ck) ((free_blocks ck)[i := x]) = (fblocks ck)[i := x]"
    by (simp add: fblocks_def take_update_swap)
  ultimately show ?thesis
    using assms by (auto simp: arr_ok_def fblocks_def list_update_append)
qed

lemma shift_right_loop:
  assumes "n < length bs" "p \<le> n"
  shows "\<exists>bs'. ofold shift_right (rev [p + 1..<n + 1]) bs = Some bs' \<and> length bs' = length bs
    \<and> (\<forall>j < length bs. bs' ! j = (if p < j \<and> j \<le> n then bs ! (j - 1) else bs ! j))"
  using assms
proof (induction n arbitrary: bs)
  case 0
  then show ?case by simp
next
  case (Suc n)
  show ?case
  proof (cases "p = Suc n")
    case True
    then show ?thesis by auto
  next
    case False
    define bs1 where "bs1 = bs[Suc n := bs ! n]"
    have step: "shift_right (Suc n) bs = Some bs1"
      using Suc.prems by (simp add: shift_right_def bs1_def)
    obtain bs' where bs': "ofold shift_right (rev [p + 1..<n + 1]) bs1 = Some bs'" "length bs' = length bs1"
      "\<forall>j < length bs1. bs' ! j = (if p < j \<and> j \<le> n then bs1 ! (j - 1) else bs1 ! j)"
      using Suc.IH[of bs1] Suc.prems False by (auto simp: bs1_def)
    have rng: "rev [p + 1..<Suc n + 1] = Suc n # rev [p + 1..<n + 1]"
      using False Suc.prems by simp
    have "bs' ! j = (if p < j \<and> j \<le> Suc n then bs ! (j - 1) else bs ! j)" if "j < length bs" for j
      using bs'(3) that Suc.prems False by (auto simp: bs1_def nth_list_update)
    then show ?thesis
      unfolding rng using step bs'(1,2) by (auto simp: bs1_def)
  qed
qed

lemma shift_left_loop:
  assumes "n < length bs" "p \<le> n"
  shows "\<exists>bs'. ofold shift_left [p..<n] bs = Some bs' \<and> length bs' = length bs
    \<and> (\<forall>j < length bs. bs' ! j = (if p \<le> j \<and> j < n then bs ! (j + 1) else bs ! j))"
  using assms(2,1)
proof (induction n rule: dec_induct)
  case base
  then show ?case by auto
next
  case (step n)
  then obtain bs' where bs': "ofold shift_left [p..<n] bs = Some bs'" "length bs' = length bs"
    "\<forall>j < length bs. bs' ! j = (if p \<le> j \<and> j < n then bs ! (j + 1) else bs ! j)"
    by auto
  have "shift_left n bs' = Some (bs'[n := bs ! Suc n])"
    using bs' step.prems by (simp add: shift_left_def)
  then show ?case
    using bs' step by (auto simp: ofold_append nth_list_update less_Suc_eq)
qed

declare insert_pos_from.simps [simp del]

lemma insert_pos_bounds:
  "p \<le> n \<Longrightarrow> insert_pos_from bs n off p \<le> n \<and> p \<le> insert_pos_from bs n off p
    \<and> (\<forall>j. p \<le> j \<and> j < insert_pos_from bs n off p \<longrightarrow> fb_offset (bs ! j) < off)
    \<and> (insert_pos_from bs n off p < n \<longrightarrow> \<not> fb_offset (bs ! insert_pos_from bs n off p) < off)"
proof (induction bs n off p rule: insert_pos_from.induct)
  case (1 bs n off p)
  show ?case
  proof (cases "p < n \<and> fb_offset (bs ! p) < off")
    case True
    define q where "q = insert_pos_from bs n off (p + 1)"
    have eq: "insert_pos_from bs n off p = q"
      using True unfolding q_def by (subst insert_pos_from.simps) simp
    have IH: "q \<le> n" "p + 1 \<le> q" "\<forall>j. p + 1 \<le> j \<and> j < q \<longrightarrow> fb_offset (bs ! j) < off"
      "q < n \<longrightarrow> \<not> fb_offset (bs ! q) < off"
      using 1(1)[OF True] True by (auto simp: q_def)
    have "fb_offset (bs ! j) < off" if "p \<le> j" "j < q" for j
      using IH(3) that True by (cases "j = p") auto
    then show ?thesis unfolding eq using IH by simp
  next
    case False
    then have "insert_pos_from bs n off p = p"
      by (subst insert_pos_from.simps) (rule if_not_P)
    then show ?thesis using False 1(2) by auto
  qed
qed

lemma insert_pos_split:
  assumes "arr_ok ck" "fblocks ck = L @ R"
    and L: "\<And>b. b \<in> set L \<Longrightarrow> fb_offset b < off" and R: "\<And>b. b \<in> set R \<Longrightarrow> \<not> fb_offset b < off"
  shows "insert_pos_from (free_blocks ck) (n_free_blocks ck) off 0 = length L"
proof -
  define p where "p = insert_pos_from (free_blocks ck) (n_free_blocks ck) off 0"
  have n: "n_free_blocks ck = length L + length R"
    using length_fblocks[OF assms(1)] assms(2) by simp
  have b: "p \<le> n_free_blocks ck" "\<forall>j < p. fb_offset (free_blocks ck ! j) < off"
    "p < n_free_blocks ck \<longrightarrow> \<not> fb_offset (free_blocks ck ! p) < off"
    using insert_pos_bounds[of 0 "n_free_blocks ck" "free_blocks ck" off] by (auto simp: p_def)
  have e: "free_blocks ck ! j = (L @ R) ! j" if "j < length L + length R" for j
    using nth_fblocks[of j ck] assms(2) n that by simp
  have "\<not> p < length L"
    using b(3) e[of p] n L[OF nth_mem, of p] by (auto simp: nth_append)
  moreover have "\<not> length L < p"
  proof
    assume "length L < p"
    with b(1,2) n have "R \<noteq> []" "fb_offset (free_blocks ck ! length L) < off" by auto
    then show False using e[of "length L"] R[OF nth_mem, of 0] by (auto simp: nth_append)
  qed
  ultimately show ?thesis by (simp add: p_def)
qed

lemma insert_block_list:
  assumes "arr_ok ck" "n_free_blocks ck < MAX_FREE_BLOCKS" "fblocks ck = L @ R"
    and "\<And>b. b \<in> set L \<Longrightarrow> fb_offset b < off" and "\<And>b. b \<in> set R \<Longrightarrow> \<not> fb_offset b < off"
  shows "\<exists>ck'. ggml_dyn_tallocr_insert_block ck off sz = Some ck' \<and> arr_ok ck'
    \<and> fblocks ck' = L @ \<lparr>fb_offset = off, fb_size = sz\<rparr> # R \<and> max_size ck' = max_size ck"
proof -
  let ?n = "n_free_blocks ck" and ?x = "\<lparr>fb_offset = off, fb_size = sz\<rparr>"
  have pos: "insert_pos_from (free_blocks ck) ?n off 0 = length L"
    using insert_pos_split[OF assms(1,3-5)] .
  have n: "?n = length L + length R" "?n < length (free_blocks ck)"
    using assms(1-3) length_fblocks[OF assms(1)] by (auto simp: arr_ok_def)
  obtain bs where bs: "ofold shift_right (rev [length L + 1..<?n + 1]) (free_blocks ck) = Some bs"
    "length bs = length (free_blocks ck)"
    "\<forall>j < length (free_blocks ck). bs ! j = (if length L < j \<and> j \<le> ?n then free_blocks ck ! (j - 1) else free_blocks ck ! j)"
    using shift_right_loop[OF n(2), of "length L"] n(1) by auto
  have e: "free_blocks ck ! j = (L @ R) ! j" if "j < length L + length R" for j
    using nth_fblocks[of j ck] assms(3) n(1) that by simp
  have "take (?n + 1) (bs[length L := ?x]) = L @ ?x # R"
  proof (rule nth_equalityI)
    show "length (take (?n + 1) (bs[length L := ?x])) = length (L @ ?x # R)"
      using n bs(2) by simp
    fix j assume j: "j < length (take (?n + 1) (bs[length L := ?x]))"
    then have j': "j < length bs" "j \<le> ?n" by auto
    show "take (?n + 1) (bs[length L := ?x]) ! j = (L @ ?x # R) ! j"
    proof (cases "j = length L")
      case True
      then show ?thesis using j' by simp
    next
      case False
      then show ?thesis
        using j' bs(2,3) e[of j] e[of "j - 1"] n(1) by (auto simp: nth_append nth_Cons' )
    qed
  qed
  moreover have "ggml_dyn_tallocr_insert_block ck off sz
      = Some (ck\<lparr>free_blocks := bs[length L := ?x], n_free_blocks := ?n + 1\<rparr>)"
    unfolding ggml_dyn_tallocr_insert_block_def Let_def pos bs(1)
    using assms(2) n bs(2) by simp
  ultimately show ?thesis
    using assms(1,2) bs(2) by (simp add: arr_ok_def fblocks_def)
qed

text \<open>
  With all 256 places of the array in use, removing a block reads one place behind the array.
\<close>

lemma remove_block_full:
  assumes "arr_ok ck" "n_free_blocks ck = MAX_FREE_BLOCKS" "i < MAX_FREE_BLOCKS"
  shows "ggml_dyn_tallocr_remove_block ck i = None"
proof -
  let ?k = "MAX_FREE_BLOCKS - 1"
  have len: "length (free_blocks ck) = MAX_FREE_BLOCKS" using assms(1) by (simp add: arr_ok_def)
  have k: "?k < length (free_blocks ck)" "i \<le> ?k" using assms(3) len by auto
  obtain bs where bs: "ofold shift_left [i..<?k] (free_blocks ck) = Some bs" "length bs = MAX_FREE_BLOCKS"
    using shift_left_loop[OF k] len by auto
  have "[i..<MAX_FREE_BLOCKS] = [i..<?k] @ [?k]"
    using k(2) upt_Suc_append[of i ?k] assms(3) by simp
  moreover have "shift_left ?k bs = None" using bs(2) assms(3) by (simp add: shift_left_def vget_def)
  ultimately show ?thesis
    using bs(1) assms(2) by (simp add: ggml_dyn_tallocr_remove_block_def ofold_append)
qed

lemma remove_block_room:
  assumes "arr_ok ck" "i < n_free_blocks ck" "n_free_blocks ck < MAX_FREE_BLOCKS \<or> ggml_dyn_tallocr_remove_block ck i \<noteq> None"
  shows "n_free_blocks ck < MAX_FREE_BLOCKS"
  using assms remove_block_full[OF assms(1), of i] by (fastforce simp: arr_ok_def)

lemma remove_block_list:
  assumes "arr_ok ck" "n_free_blocks ck < MAX_FREE_BLOCKS" "fblocks ck = L @ b # R" "i = length L"
  shows "\<exists>ck'. ggml_dyn_tallocr_remove_block ck i = Some ck' \<and> arr_ok ck'
    \<and> fblocks ck' = L @ R \<and> max_size ck' = max_size ck"
proof -
  let ?n = "n_free_blocks ck"
  have n: "?n = length L + length R + 1" "?n < length (free_blocks ck)"
    using assms(1-3) length_fblocks[OF assms(1)] by (auto simp: arr_ok_def)
  obtain bs where bs: "ofold shift_left [length L..<?n] (free_blocks ck) = Some bs"
    "length bs = length (free_blocks ck)"
    "\<forall>j < length (free_blocks ck). bs ! j = (if length L \<le> j \<and> j < ?n then free_blocks ck ! (j + 1) else free_blocks ck ! j)"
    using shift_left_loop[OF n(2), of "length L"] n(1) by auto
  have e: "free_blocks ck ! j = (L @ b # R) ! j" if "j < length L + length R + 1" for j
    using nth_fblocks[of j ck] assms(3) n(1) that by simp
  have "take (?n - 1) bs = L @ R"
  proof (rule nth_equalityI)
    show "length (take (?n - 1) bs) = length (L @ R)"
      using n bs(2) by simp
    fix j assume "j < length (take (?n - 1) bs)"
    then have j: "j < length bs" "j < ?n - 1" by auto
    then show "take (?n - 1) bs ! j = (L @ R) ! j"
      using bs(2,3) e[of j] e[of "j + 1"] n(1) by (auto simp: nth_append nth_Cons')
  qed
  then show ?thesis
    using assms(1,2,4) n bs(1,2)
    by (auto simp: ggml_dyn_tallocr_remove_block_def arr_ok_def fblocks_def)
qed

lemma merge_after_list:
  assumes ok: "arr_ok ck" "n_free_blocks ck < MAX_FREE_BLOCKS \<or> merge_after ck i b sz \<noteq> None" and F: "fblocks ck = L @ b # R" and i: "i = length L"
  shows "\<exists>ck'. merge_after ck i b sz = Some ck' \<and> arr_ok ck' \<and> max_size ck' = max_size ck
    \<and> fblocks ck' = (if R \<noteq> [] \<and> fb_offset b + (fb_size b + sz) = fb_offset (hd R)
        then L @ b\<lparr>fb_size := fb_size b + sz + fb_size (hd R)\<rparr> # tl R
        else L @ b\<lparr>fb_size := fb_size b + sz\<rparr> # R)"
proof -
  let ?b = "b\<lparr>fb_size := fb_size b + sz\<rparr>"
  obtain bs where bs: "vset (free_blocks ck) i ?b = Some bs" "arr_ok (ck\<lparr>free_blocks := bs\<rparr>)"
    "fblocks (ck\<lparr>free_blocks := bs\<rparr>) = L @ ?b # R"
    using vset_fblocks[OF ok(1) F i] by blast
  have n: "n_free_blocks ck = length L + 1 + length R"
    using length_fblocks[OF ok(1)] F by simp
  show ?thesis
  proof (cases R)
    case Nil
    then have "merge_after ck i b sz = Some (ck\<lparr>free_blocks := bs\<rparr>)"
      unfolding merge_after_def Let_def bs(1) using n i by simp
    then show ?thesis using bs Nil by simp
  next
    case (Cons q R')
    have q: "vget bs (i + 1) = Some q"
      using vget_fblocks[OF bs(2), of "L @ [?b]" q R' "i + 1"] bs(3) Cons i by simp
    let ?m = "?b\<lparr>fb_size := fb_size ?b + fb_size q\<rparr>"
    obtain bs2 where bs2: "vset bs i ?m = Some bs2" "arr_ok (ck\<lparr>free_blocks := bs2\<rparr>)"
      "fblocks (ck\<lparr>free_blocks := bs2\<rparr>) = L @ ?m # R"
      using vset_fblocks[OF bs(2,3) i, of ?m] by auto
    let ?rm = "ggml_dyn_tallocr_remove_block (ck\<lparr>free_blocks := bs2\<rparr>) (i + 1)"
    have eval: "merge_after ck i b sz = (if fb_offset b + (fb_size b + sz) = fb_offset q then ?rm
        else Some (ck\<lparr>free_blocks := bs\<rparr>))"
      unfolding merge_after_def Let_def bs(1) using n i Cons q bs2(1) by simp
    show ?thesis
    proof (cases "fb_offset b + (fb_size b + sz) = fb_offset q")
      case True
      have room: "n_free_blocks ck < MAX_FREE_BLOCKS"
        using remove_block_room[OF bs2(2), of "i + 1"] ok(2) eval True n Cons i by auto
      obtain ck' where "?rm = Some ck'" "arr_ok ck'" "fblocks ck' = L @ [?m] @ R'" "max_size ck' = max_size ck"
        using remove_block_list[OF bs2(2), of "L @ [?m]" q R' "i + 1"] bs2(3) Cons room i by auto
      then show ?thesis using eval True Cons by (simp add: add.assoc)
    next
      case False
      then show ?thesis using eval bs Cons by simp
    qed
  qed
qed

lemma merge_before_list:
  assumes ok: "arr_ok ck" and F: "fblocks ck = L @ b # R" and i: "i = length L"
    and prev: "L = [] \<or> fb_offset (last L) + fb_size (last L) \<noteq> off"
  shows "\<exists>ck'. merge_before ck i b off sz = Some ck' \<and> arr_ok ck' \<and> max_size ck' = max_size ck
    \<and> fblocks ck' = L @ \<lparr>fb_offset = off, fb_size = fb_size b + sz\<rparr> # R"
proof -
  let ?b = "\<lparr>fb_offset = off, fb_size = fb_size b + sz\<rparr>"
  obtain bs where bs: "vset (free_blocks ck) i ?b = Some bs" "arr_ok (ck\<lparr>free_blocks := bs\<rparr>)"
    "fblocks (ck\<lparr>free_blocks := bs\<rparr>) = L @ ?b # R"
    using vset_fblocks[OF ok F i] by blast
  have "merge_before ck i b off sz = Some (ck\<lparr>free_blocks := bs\<rparr>)"
  proof (cases L rule: rev_cases)
    case Nil
    then show ?thesis unfolding merge_before_def Let_def bs(1) using i by simp
  next
    case (snoc L' p)
    have "vget bs (i - 1) = Some p"
      using vget_fblocks[OF bs(2), of L' p "?b # R" "i - 1"] bs(3) snoc i by simp
    then show ?thesis unfolding merge_before_def Let_def bs(1) using i snoc prev by simp
  qed
  then show ?thesis using bs by simp
qed

section \<open>The bytes of the blocks\<close>

definition block_bytes :: "free_block \<Rightarrow> nat set" where
  "block_bytes b = {fb_lo b..<fb_hi b}"

definition free_bytes :: "free_block list \<Rightarrow> nat set" where
  "free_bytes bs = (\<Union>b \<in> set bs. block_bytes b)"

definition region_bytes :: "size_t \<Rightarrow> size_t \<Rightarrow> nat set" where
  "region_bytes a n = {unat a..<unat a + unat n}"

definition block_ok :: "size_t \<Rightarrow> nat \<Rightarrow> free_block \<Rightarrow> bool" where
  "block_ok al cap b \<longleftrightarrow> 0 < unat (fb_size b) \<and> fb_hi b \<le> cap \<and> unat al dvd fb_lo b"

definition blocks_ok :: "size_t \<Rightarrow> nat \<Rightarrow> free_block list \<Rightarrow> bool" where
  "blocks_ok al cap bs \<longleftrightarrow> sorted_wrt (\<lambda>a b. fb_hi a < fb_lo b) bs \<and> (\<forall>b \<in> set bs. block_ok al cap b)"

lemma free_bytes_simps [simp]:
  "free_bytes [] = {}"
  "free_bytes (b # bs) = block_bytes b \<union> free_bytes bs"
  "free_bytes (xs @ ys) = free_bytes xs \<union> free_bytes ys"
  by (auto simp: free_bytes_def)

lemma fb_hi_lo: "fb_hi b = fb_lo b + unat (fb_size b)"
  by (simp add: fb_hi_def fb_lo_def)

lemma block_ok_lt: "block_ok al cap b \<Longrightarrow> fb_lo b < fb_hi b"
  by (simp add: block_ok_def fb_hi_lo)

lemma blocks_ok_Nil [simp]: "blocks_ok al cap []"
  by (simp add: blocks_ok_def)

lemma blocks_ok_Cons:
  "blocks_ok al cap (b # bs) \<longleftrightarrow> block_ok al cap b \<and> (\<forall>x \<in> set bs. fb_hi b < fb_lo x) \<and> blocks_ok al cap bs"
  by (auto simp: blocks_ok_def)

lemma blocks_ok_append:
  "blocks_ok al cap (xs @ ys) \<longleftrightarrow> blocks_ok al cap xs \<and> blocks_ok al cap ys
     \<and> (\<forall>x \<in> set xs. \<forall>y \<in> set ys. fb_hi x < fb_lo y)"
  by (auto simp: blocks_ok_def sorted_wrt_append)

lemma unat_add_below: "unat a + unat b < 2 ^ 63 \<Longrightarrow> unat (a + b) = unat a + unat (b :: size_t)"
  by (simp add: unat_word_ariths)

lemma fb_end_eq: "fb_hi b < 2 ^ 63 \<Longrightarrow> fb_offset b + fb_size b = a \<longleftrightarrow> fb_hi b = unat a"
  unfolding fb_hi_def by (metis unat_add_below unsigned_word_eqI)

lemma end_eq_lo: "unat a + unat n < 2 ^ 63 \<Longrightarrow> a + n = fb_offset b \<longleftrightarrow> unat a + unat n = fb_lo b"
  unfolding fb_lo_def by (metis unat_add_below unsigned_word_eqI)

text \<open>A region outside the free bytes splits the list.\<close>

lemma free_split:
  assumes "blocks_ok al cap F" "region_bytes a n \<inter> free_bytes F = {}" "0 < unat n"
  shows "\<exists>L R. F = L @ R \<and> (\<forall>b \<in> set L. fb_hi b \<le> unat a) \<and> (\<forall>b \<in> set R. unat a + unat n \<le> fb_lo b)"
  using assms(1,2)
proof (induction F)
  case Nil
  then show ?case by simp
next
  case (Cons b F)
  have b: "fb_lo b < fb_hi b" "\<forall>x \<in> set F. fb_hi b < fb_lo x" "blocks_ok al cap F"
    using Cons.prems(1) block_ok_lt by (auto simp: blocks_ok_Cons)
  have d: "region_bytes a n \<inter> {fb_lo b..<fb_hi b} = {}" "region_bytes a n \<inter> free_bytes F = {}"
    using Cons.prems(2) by (auto simp: block_bytes_def)
  show ?case
  proof (cases "fb_hi b \<le> unat a")
    case True
    obtain L R where "F = L @ R" "\<forall>b \<in> set L. fb_hi b \<le> unat a" "\<forall>b \<in> set R. unat a + unat n \<le> fb_lo b"
      using Cons.IH[OF b(3) d(2)] by blast
    with True show ?thesis by (intro exI[of _ "b # L"] exI[of _ R]) auto
  next
    case False
    have "unat a + unat n \<le> fb_lo b"
    proof (rule ccontr)
      assume "\<not> unat a + unat n \<le> fb_lo b"
      then have "max (unat a) (fb_lo b) \<in> region_bytes a n \<inter> {fb_lo b..<fb_hi b}"
        using False b(1) assms(3) by (auto simp: region_bytes_def)
      with d(1) show False by blast
    qed
    with b show ?thesis by (intro exI[of _ "[]"] exI[of _ "b # F"]) fastforce
  qed
qed

text \<open>
  The list after a region is released between \<open>L\<close> and \<open>R\<close>: merged with the block that ends
  where it starts and with the block that starts where it ends.
\<close>

definition coalesce :: "free_block list \<Rightarrow> size_t \<Rightarrow> size_t \<Rightarrow> free_block list \<Rightarrow> free_block list" where
  "coalesce L a n R =
     (let (L', a', n') = (if L \<noteq> [] \<and> fb_hi (last L) = unat a
        then (butlast L, fb_offset (last L), fb_size (last L) + n) else (L, a, n))
      in if R \<noteq> [] \<and> unat a + unat n = fb_lo (hd R)
         then L' @ \<lparr>fb_offset = a', fb_size = n' + fb_size (hd R)\<rparr> # tl R
         else L' @ \<lparr>fb_offset = a', fb_size = n'\<rparr> # R)"

lemma coalesce_ok:
  assumes ok: "blocks_ok al cap (L @ R)" and cap: "cap < 2 ^ 63"
    and L: "\<forall>b \<in> set L. fb_hi b \<le> unat a" and R: "\<forall>b \<in> set R. unat a + unat n \<le> fb_lo b"
    and r: "0 < unat n" "unat a + unat n \<le> cap" "unat al dvd unat a"
  shows "blocks_ok al cap (coalesce L a n R)"
    and "free_bytes (coalesce L a n R) = free_bytes (L @ R) \<union> region_bytes a n"
proof -
  define S where "S = (if R \<noteq> [] \<and> unat a + unat n = fb_lo (hd R) then tl R else R)"
  define e where "e = (if R \<noteq> [] \<and> unat a + unat n = fb_lo (hd R) then fb_size (hd R) else 0)"
  define K where "K = (if L \<noteq> [] \<and> fb_hi (last L) = unat a then butlast L else L)"
  define o' where "o' = (if L \<noteq> [] \<and> fb_hi (last L) = unat a then fb_offset (last L) else a)"
  define m where "m = (if L \<noteq> [] \<and> fb_hi (last L) = unat a then fb_size (last L) + n else n)"
  let ?b = "\<lparr>fb_offset = o', fb_size = m + e\<rparr>"
  have eq: "coalesce L a n R = K @ ?b # S"
    by (simp add: coalesce_def S_def e_def K_def o'_def m_def)
  have R': "blocks_ok al cap S" "\<forall>x \<in> set S. unat a + unat n + unat e < fb_lo x" "unat a + unat n + unat e \<le> cap"
    "free_bytes R = {unat a + unat n..<unat a + unat n + unat e} \<union> free_bytes S" "set S \<subseteq> set R"
  proof -
    have ok_R: "blocks_ok al cap R" using ok by (simp add: blocks_ok_append)
    show "blocks_ok al cap S" "\<forall>x \<in> set S. unat a + unat n + unat e < fb_lo x" "unat a + unat n + unat e \<le> cap"
      "free_bytes R = {unat a + unat n..<unat a + unat n + unat e} \<union> free_bytes S"
      using ok_R R r(2) block_ok_lt
      by (cases R; force simp: S_def e_def blocks_ok_Cons fb_hi_lo block_ok_def block_bytes_def)+
    show "set S \<subseteq> set R" by (cases R) (auto simp: S_def)
  qed
  have L': "blocks_ok al cap K" "\<forall>x \<in> set K. fb_hi x < unat o'" "unat o' + unat m = unat a + unat n"
    "free_bytes L = free_bytes K \<union> {unat o'..<unat a}" "unat al dvd unat o'" "set K \<subseteq> set L" "unat o' \<le> unat a" "0 < unat m"
  proof -
    have ok_L: "blocks_ok al cap L" using ok by (simp add: blocks_ok_append)
    show "blocks_ok al cap K" using ok_L by (cases L rule: rev_cases) (auto simp: K_def blocks_ok_append)
    show "set K \<subseteq> set L" by (cases L rule: rev_cases) (auto simp: K_def)
    show "\<forall>x \<in> set K. fb_hi x < unat o'"
      using ok_L L by (cases L rule: rev_cases) (force simp: K_def o'_def blocks_ok_append blocks_ok_Cons fb_hi_lo block_ok_def fb_lo_def)+
    show "unat al dvd unat o'" "unat o' \<le> unat a"
      using ok_L L r(3)
      by (cases L rule: rev_cases; force simp: o'_def blocks_ok_append blocks_ok_Cons block_ok_def fb_hi_lo fb_lo_def)+
    show m: "unat o' + unat m = unat a + unat n"
      using r(2) cap by (auto simp: o'_def m_def fb_hi_def unat_add_below)
    show "0 < unat m" using m \<open>unat o' \<le> unat a\<close> r(1) by linarith
    show "free_bytes L = free_bytes K \<union> {unat o'..<unat a}"
      by (cases L rule: rev_cases) (auto simp: K_def o'_def block_bytes_def fb_lo_def)
  qed
  have u: "unat (m + e) = unat m + unat e"
    using L'(3) R'(3) cap by (intro unat_add_below) linarith
  have b: "fb_lo ?b = unat o'" "fb_hi ?b = unat a + unat n + unat e"
    using L'(3) u by (auto simp: fb_lo_def fb_hi_def)
  have "fb_hi x < fb_lo y" if "x \<in> set K" "y \<in> set S" for x y
    using that L'(2,7) R'(2) by fastforce
  then show "blocks_ok al cap (coalesce L a n R)"
    unfolding eq blocks_ok_append blocks_ok_Cons
    using L' R' b u by (auto simp: block_ok_def)
  show "free_bytes (coalesce L a n R) = free_bytes (L @ R) \<union> region_bytes a n"
    unfolding eq using L'(3,4,7) R'(4) b by (auto simp: block_bytes_def region_bytes_def)
qed

section \<open>Release\<close>

lemma upt_split_at: "i < n \<Longrightarrow> [0..<n] = [0..<i] @ i # [i + 1..<n]"
  using upt_add_eq_append[of 0 i "n - i"] upt_conv_Cons[of i n] by simp

lemma free_scan_skip:
  assumes "\<And>i. i \<in> set xs \<Longrightarrow> \<exists>b. vget (free_blocks ck) i = Some b \<and> fb_offset b + fb_size b \<noteq> a \<and> a + n \<noteq> fb_offset b"
  shows "free_scan (xs @ ys) ck a n = free_scan ys ck a n"
  using assms
proof (induction xs)
  case (Cons i xs)
  obtain b where "vget (free_blocks ck) i = Some b" "fb_offset b + fb_size b \<noteq> a" "a + n \<noteq> fb_offset b"
    using Cons.prems[of i] by auto
  then show ?case using Cons by (auto simp del: vget_Some)
qed simp

lemma free_scan_list:
  assumes ck: "arr_ok ck" "fblocks ck = L @ R"
    and room: "n_free_blocks ck < MAX_FREE_BLOCKS \<or> free_scan [0..<n_free_blocks ck] ck a n \<noteq> None"
    and ok: "blocks_ok al cap (L @ R)" and cap: "cap < 2 ^ 63"
    and L: "\<forall>b \<in> set L. fb_hi b \<le> unat a" and R: "\<forall>b \<in> set R. unat a + unat n \<le> fb_lo b"
    and r: "0 < unat n" "unat a + unat n \<le> cap"
  shows "\<exists>ck'. free_scan [0..<n_free_blocks ck] ck a n = Some ck' \<and> arr_ok ck' \<and> max_size ck' = max_size ck
    \<and> fblocks ck' = coalesce L a n R"
proof -
  have N: "n_free_blocks ck = length L + length R"
    using length_fblocks[OF ck(1)] ck(2) by simp
  have an: "unat a + unat n < 2 ^ 63" using r(2) cap by simp
  have hi: "fb_hi b < 2 ^ 63" "fb_lo b < fb_hi b" if b: "b \<in> set (L @ R)" for b
  proof -
    have "block_ok al cap b" using ok b unfolding blocks_ok_def by blast
    then show "fb_hi b < 2 ^ 63" "fb_lo b < fb_hi b"
      using cap block_ok_lt by (auto simp: block_ok_def intro: le_less_trans)
  qed
  have get: "vget (free_blocks ck) i = Some ((L @ R) ! i)" if "i < length L + length R" for i
    using that N ck nth_fblocks[of i ck] by (simp add: arr_ok_def)
  have skip_R: "fb_offset b + fb_size b \<noteq> a" if "b \<in> set R" for b
    using that R hi[of b] fb_end_eq[of b a] r(1) by force
  have skip_L: "a + n \<noteq> fb_offset b" if "b \<in> set L" for b
    using that L hi[of b] end_eq_lo[OF an, of b] r(1) by force
  show ?thesis
  proof (cases "L \<noteq> [] \<and> fb_hi (last L) = unat a")
    case True
    then obtain K p where L_eq: "L = K @ [p]" and p: "fb_hi p = unat a"
      by (metis append_butlast_last_id)
    have "fb_offset (L ! i) + fb_size (L ! i) \<noteq> a" if "i < length K" for i
    proof -
      have mem: "K ! i \<in> set K" using that by simp
      then have "fb_hi (K ! i) < fb_hi p"
        using ok hi[of p] by (fastforce simp: L_eq blocks_ok_append blocks_ok_Cons)
      then show ?thesis
        using p mem hi[of "K ! i"] fb_end_eq[of "K ! i" a] that by (auto simp: L_eq nth_append)
    qed
    moreover have rng: "[0..<n_free_blocks ck] = [0..<length K] @ length K # [length K + 1..<n_free_blocks ck]"
      using N L_eq by (intro upt_split_at) simp
    ultimately have "free_scan [0..<n_free_blocks ck] ck a n
        = free_scan (length K # [length K + 1..<n_free_blocks ck]) ck a n"
      unfolding rng using get skip_L L_eq
      by (intro free_scan_skip) (force simp: nth_append simp del: vget_Some)
    also have "\<dots> = merge_after ck (length K) p n"
      using get[of "length K"] p hi[of p] fb_end_eq[of p a] by (auto simp: L_eq nth_append simp del: vget_Some)
    finally have scan: "free_scan [0..<n_free_blocks ck] ck a n = merge_after ck (length K) p n" .
    have pa: "fb_offset p + (fb_size p + n) = a + n"
      using p hi[of p] fb_end_eq[of p a] by (auto simp: L_eq simp flip: add.assoc)
    have F: "fblocks ck = K @ p # R" using ck(2) L_eq by simp
    obtain ck' where ck': "merge_after ck (length K) p n = Some ck'" "arr_ok ck'" "max_size ck' = max_size ck"
      "fblocks ck' = (if R \<noteq> [] \<and> a + n = fb_offset (hd R)
        then K @ p\<lparr>fb_size := fb_size p + n + fb_size (hd R)\<rparr> # tl R else K @ p\<lparr>fb_size := fb_size p + n\<rparr> # R)"
      using merge_after_list[OF ck(1) _ F refl, of n] room scan unfolding pa by auto
    have "fblocks ck' = coalesce L a n R"
      unfolding ck'(4) end_eq_lo[OF an] coalesce_def using True by (simp add: L_eq)
    then show ?thesis using scan ck' by simp
  next
    case False
    have noL: "fb_offset b + fb_size b \<noteq> a" if b: "b \<in> set L" for b
    proof -
      obtain K p where L_eq: "L = K @ [p]"
        using b by (cases L rule: rev_cases) auto
      have "fb_hi b \<noteq> unat a"
      proof (cases "b = p")
        case True
        then show ?thesis using False by (simp add: L_eq)
      next
        case neq: False
        then have "fb_hi b < fb_lo p" using b ok by (auto simp: L_eq blocks_ok_append)
        then show ?thesis using L hi[of p] by (fastforce simp: L_eq)
      qed
      then show ?thesis using b hi[of b] fb_end_eq[of b a] by auto
    qed
    show ?thesis
    proof (cases "R \<noteq> [] \<and> unat a + unat n = fb_lo (hd R)")
      case True
      then obtain q R' where R_eq: "R = q # R'" and q: "a + n = fb_offset q"
        using end_eq_lo[OF an] by (cases R) auto
      have rng: "[0..<n_free_blocks ck] = [0..<length L] @ length L # [length L + 1..<n_free_blocks ck]"
        using N R_eq by (intro upt_split_at) simp
      have "free_scan [0..<n_free_blocks ck] ck a n
          = free_scan (length L # [length L + 1..<n_free_blocks ck]) ck a n"
        unfolding rng using get skip_L noL
        by (intro free_scan_skip) (force simp: nth_append simp del: vget_Some)
      also have "\<dots> = merge_before ck (length L) q a n"
        using get[of "length L"] q skip_R[of q] by (auto simp: R_eq nth_append simp del: vget_Some)
      finally have scan: "free_scan [0..<n_free_blocks ck] ck a n = merge_before ck (length L) q a n" .
      have F: "fblocks ck = L @ q # R'" using ck(2) R_eq by simp
      have prev: "L = [] \<or> fb_offset (last L) + fb_size (last L) \<noteq> a" using noL[of "last L"] by auto
      have "coalesce L a n R = L @ \<lparr>fb_offset = a, fb_size = fb_size q + n\<rparr> # R'"
        unfolding coalesce_def if_not_P[OF False] using True by (simp add: R_eq add.commute)
      then show ?thesis using scan merge_before_list[OF ck(1) F refl prev, of n] by simp
    next
      case noR: False
      have "a + n \<noteq> fb_offset b" if b: "b \<in> set R" for b
      proof -
        obtain q R' where R_eq: "R = q # R'" using b by (cases R) auto
        have "unat a + unat n \<noteq> fb_lo b"
          using b noR ok R hi[of q] by (fastforce simp: R_eq blocks_ok_append blocks_ok_Cons)
        then show ?thesis using end_eq_lo[OF an] by simp
      qed
      then have "\<exists>b. vget (free_blocks ck) i = Some b \<and> fb_offset b + fb_size b \<noteq> a \<and> a + n \<noteq> fb_offset b"
        if "i \<in> set [0..<n_free_blocks ck]" for i
        using that get[of i] N noL skip_L skip_R nth_mem[of i "L @ R"] by (auto simp del: vget_Some nth_mem)
      then have "free_scan ([0..<n_free_blocks ck] @ []) ck a n = free_scan [] ck a n"
        by (rule free_scan_skip)
      then have scan: "free_scan [0..<n_free_blocks ck] ck a n = ggml_dyn_tallocr_insert_block ck a n" by simp
      have lt: "fb_offset b < a" if "b \<in> set L" for b
        using that L hi[of b] by (fastforce simp: word_less_nat_alt fb_lo_def)
      have ge: "\<not> fb_offset b < a" if "b \<in> set R" for b
        using that R by (fastforce simp: word_less_nat_alt fb_lo_def)
      have "coalesce L a n R = L @ \<lparr>fb_offset = a, fb_size = n\<rparr> # R"
        unfolding coalesce_def if_not_P[OF False] using noR by auto
      moreover have "n_free_blocks ck < MAX_FREE_BLOCKS"
        using room unfolding scan by (auto simp: ggml_dyn_tallocr_insert_block_def split: if_splits)
      ultimately show ?thesis unfolding scan using insert_block_list[OF ck(1) _ ck(2) lt ge, of n] by auto
    qed
  qed
qed

section \<open>The invariant of a chunk\<close>

definition chunk_ok :: "size_t \<Rightarrow> nat \<Rightarrow> tallocr_chunk \<Rightarrow> bool" where
  "chunk_ok al cap ck \<longleftrightarrow> arr_ok ck \<and> cap < 2 ^ 63 \<and> blocks_ok al cap (fblocks ck)"

lemma free_scan_correct:
  assumes ck: "chunk_ok al cap ck" "n_free_blocks ck < MAX_FREE_BLOCKS \<or> free_scan [0..<n_free_blocks ck] ck a n \<noteq> None"
    and r: "0 < unat n" "unat a + unat n \<le> cap" "unat al dvd unat a"
    and d: "region_bytes a n \<inter> free_bytes (fblocks ck) = {}"
  shows "\<exists>ck'. free_scan [0..<n_free_blocks ck] ck a n = Some ck' \<and> chunk_ok al cap ck'
    \<and> free_bytes (fblocks ck') = free_bytes (fblocks ck) \<union> region_bytes a n \<and> max_size ck' = max_size ck"
proof -
  have ok: "arr_ok ck" "cap < 2 ^ 63" "blocks_ok al cap (fblocks ck)"
    using ck(1) by (auto simp: chunk_ok_def)
  obtain L R where F: "fblocks ck = L @ R"
    and L: "\<forall>b \<in> set L. fb_hi b \<le> unat a" and R: "\<forall>b \<in> set R. unat a + unat n \<le> fb_lo b"
    using free_split[OF ok(3) d r(1)] by blast
  show ?thesis
    using free_scan_list[OF ok(1) F ck(2) ok(3)[unfolded F] ok(2) L R r(1,2)]
      coalesce_ok[OF ok(3)[unfolded F] ok(2) L R r] ok(2)
    by (auto simp: chunk_ok_def F)
qed

lemma take_bytes_list:
  assumes "arr_ok ck" "fblocks ck = L @ b # R" "n_free_blocks ck < MAX_FREE_BLOCKS \<or> take_bytes ck (length L) sz \<noteq> None"
  shows "\<exists>ck'. take_bytes ck (length L) sz = Some (fb_offset b, ck') \<and> arr_ok ck'
    \<and> max_size ck' = max (max_size ck) (fb_offset b + sz)
    \<and> fblocks ck' = (if fb_size b = sz then L @ R
        else L @ \<lparr>fb_offset = fb_offset b + sz, fb_size = fb_size b - sz\<rparr> # R)"
proof -
  let ?b = "b\<lparr>fb_offset := fb_offset b + sz, fb_size := fb_size b - sz\<rparr>"
  obtain bs where bs: "vset (free_blocks ck) (length L) ?b = Some bs" "arr_ok (ck\<lparr>free_blocks := bs\<rparr>)"
    "fblocks (ck\<lparr>free_blocks := bs\<rparr>) = L @ ?b # R"
    using vset_fblocks[OF assms(1,2) refl] by blast
  have get: "vget (free_blocks ck) (length L) = Some b"
    using vget_fblocks[OF assms(1,2) refl] .
  have zero: "fb_size b - sz = 0 \<longleftrightarrow> fb_size b = sz" by simp
  have max_upd: "arr_ok (c\<lparr>max_size := m\<rparr>) = arr_ok c" "fblocks (c\<lparr>max_size := m\<rparr>) = fblocks c" for c m
    by (simp_all add: arr_ok_def fblocks_def)
  show ?thesis
  proof (cases "fb_size b = sz")
    case True
    have "n_free_blocks ck < MAX_FREE_BLOCKS"
      using remove_block_room[OF bs(2), of "length L"] assms(3) length_fblocks[OF assms(1)] assms(2) True bs(1)
      unfolding take_bytes_def Let_def get by (auto simp: bind_eq_Some_conv)
    then obtain ck' where ck': "ggml_dyn_tallocr_remove_block (ck\<lparr>free_blocks := bs\<rparr>) (length L) = Some ck'"
      "arr_ok ck'" "fblocks ck' = L @ R" "max_size ck' = max_size ck"
      using remove_block_list[OF bs(2) _ bs(3) refl] by auto
    have "take_bytes ck (length L) sz = Some (fb_offset b, ck'\<lparr>max_size := max (max_size ck') (fb_offset b + sz)\<rparr>)"
      unfolding take_bytes_def Let_def get using bs(1) ck'(1) True by simp
    then show ?thesis using ck' True by (simp add: max_upd)
  next
    case False
    let ?c = "ck\<lparr>free_blocks := bs\<rparr>"
    have "take_bytes ck (length L) sz = Some (fb_offset b, ?c\<lparr>max_size := max (max_size ?c) (fb_offset b + sz)\<rparr>)"
      unfolding take_bytes_def Let_def get using bs(1) False by simp
    moreover have "arr_ok (?c\<lparr>max_size := m\<rparr>)" "fblocks (?c\<lparr>max_size := m\<rparr>) = L @ ?b # R" for m
      using bs(2,3) by (simp_all only: max_upd)
    moreover have "?b = \<lparr>fb_offset = fb_offset b + sz, fb_size = fb_size b - sz\<rparr>" by simp
    ultimately show ?thesis using False by simp
  qed
qed

lemma take_bytes_correct:
  assumes ck: "chunk_ok al cap ck" "n_free_blocks ck < MAX_FREE_BLOCKS \<or> take_bytes ck i sz \<noteq> None" "i < n_free_blocks ck"
    and b: "b = fblocks ck ! i" and sz: "0 < unat sz" "sz \<le> fb_size b" "unat al dvd unat sz"
  shows "\<exists>ck'. take_bytes ck i sz = Some (fb_offset b, ck') \<and> chunk_ok al cap ck'
    \<and> free_bytes (fblocks ck') = free_bytes (fblocks ck) - region_bytes (fb_offset b) sz
    \<and> region_bytes (fb_offset b) sz \<subseteq> free_bytes (fblocks ck)
    \<and> unat (fb_offset b) + unat sz \<le> cap \<and> unat al dvd unat (fb_offset b)
    \<and> unat (max_size ck') = max (unat (max_size ck)) (unat (fb_offset b) + unat sz)"
proof -
  have ok: "arr_ok ck" "cap < 2 ^ 63" "blocks_ok al cap (fblocks ck)"
    using ck(1) by (auto simp: chunk_ok_def)
  define L R where "L = take i (fblocks ck)" and "R = drop (Suc i) (fblocks ck)"
  have F: "fblocks ck = L @ b # R" and i: "length L = i"
    using ck(3) length_fblocks[OF ok(1)] id_take_nth_drop[of i "fblocks ck"] by (auto simp: L_def R_def b)
  obtain ck' where ck': "take_bytes ck i sz = Some (fb_offset b, ck')" "arr_ok ck'"
    "max_size ck' = max (max_size ck) (fb_offset b + sz)"
    "fblocks ck' = (if fb_size b = sz then L @ R
        else L @ \<lparr>fb_offset = fb_offset b + sz, fb_size = fb_size b - sz\<rparr> # R)"
    using take_bytes_list[OF ok(1) F] ck(2) i by metis
  have bo: "block_ok al cap b" "\<forall>x \<in> set L. fb_hi x < fb_lo b" "\<forall>x \<in> set R. fb_hi b < fb_lo x"
    using ok(3) by (auto simp: F blocks_ok_append blocks_ok_Cons)
  have le: "unat sz \<le> unat (fb_size b)" using sz(2) by (simp add: word_le_nat_alt)
  have off: "unat (fb_offset b + sz) = unat (fb_offset b) + unat sz"
    using bo(1) le ok(2) by (intro unat_add_below) (auto simp: block_ok_def fb_hi_def)
  have diff: "unat (fb_size b - sz) = unat (fb_size b) - unat sz"
    using le by (simp add: unat_sub word_le_nat_alt)
  have below: "free_bytes L \<inter> block_bytes b = {}" "free_bytes R \<inter> block_bytes b = {}"
    using bo(2,3) ok(3)[unfolded F] by (fastforce simp: free_bytes_def block_bytes_def)+
  define b' where "b' = \<lparr>fb_offset = fb_offset b + sz, fb_size = fb_size b - sz\<rparr>"
  have b': "fb_lo b' = fb_lo b + unat sz" "fb_hi b' = fb_hi b" "unat (fb_size b') = unat (fb_size b) - unat sz"
    using off diff le by (auto simp: b'_def fb_lo_def fb_hi_def)
  have reg: "region_bytes (fb_offset b) sz = {fb_lo b..<fb_lo b + unat sz}"
    by (simp add: region_bytes_def fb_lo_def)
  have ok': "blocks_ok al cap (fblocks ck')"
  proof (cases "fb_size b = sz")
    case True
    then show ?thesis using ok(3) ck'(4) by (auto simp: F blocks_ok_append blocks_ok_Cons)
  next
    case False
    then have "unat (fb_size b) \<noteq> unat sz" by (metis unsigned_word_eqI)
    then have "block_ok al cap b'" using bo(1) b' le sz(3) by (auto simp: block_ok_def)
    then show ?thesis
      using ok(3) False b' unfolding ck'(4) b'_def[symmetric]
      by (auto simp: F blocks_ok_append blocks_ok_Cons)
  qed
  have fr: "free_bytes (fblocks ck') = free_bytes (fblocks ck) - region_bytes (fb_offset b) sz"
  proof (cases "fb_size b = sz")
    case True
    then have "region_bytes (fb_offset b) sz = block_bytes b" by (simp add: reg block_bytes_def fb_hi_lo)
    then show ?thesis using below ck'(4) True by (auto simp: F)
  next
    case False
    have "block_bytes b' = block_bytes b - region_bytes (fb_offset b) sz"
      using b' by (auto simp: reg block_bytes_def)
    moreover have "region_bytes (fb_offset b) sz \<subseteq> block_bytes b"
      using le by (auto simp: reg block_bytes_def fb_hi_lo)
    ultimately show ?thesis
      using below False unfolding ck'(4) b'_def[symmetric] F by auto
  qed
  have sub: "region_bytes (fb_offset b) sz \<subseteq> free_bytes (fblocks ck)"
    using le unfolding F reg by (auto simp: block_bytes_def fb_hi_lo)
  have lim: "unat (fb_offset b) + unat sz \<le> cap" "unat al dvd unat (fb_offset b)"
    using bo(1) le by (auto simp: block_ok_def fb_hi_def fb_lo_def)
  have mx: "unat (max_size ck') = max (unat (max_size ck)) (unat (fb_offset b) + unat sz)"
    unfolding ck'(3) max_def word_le_nat_alt off using off by (simp split: if_split)
  show ?thesis
    using ck'(1,2) ok' fr sub lim mx ok(2) unfolding chunk_ok_def by blast
qed

section \<open>The free list is determined by the free bytes\<close>

lemma free_bytes_ge: "\<lbrakk>blocks_ok al cap (b # bs); k \<in> free_bytes (b # bs)\<rbrakk> \<Longrightarrow> fb_lo b \<le> k"
  using block_ok_lt by (fastforce simp: blocks_ok_Cons free_bytes_def block_bytes_def)

lemma free_bytes_gap: "blocks_ok al cap (b # bs) \<Longrightarrow> fb_hi b \<notin> free_bytes (b # bs)"
  by (fastforce simp: blocks_ok_Cons free_bytes_def block_bytes_def)

lemma free_bytes_head:
  assumes "blocks_ok al cap (b # bs)"
  shows "block_bytes b \<subseteq> free_bytes (b # bs)" "fb_lo b \<in> free_bytes (b # bs)"
    "free_bytes bs = free_bytes (b # bs) - block_bytes b"
  using assms block_ok_lt by (fastforce simp: blocks_ok_Cons free_bytes_def block_bytes_def)+

lemma free_block_eqI: "\<lbrakk>fb_hi x = fb_hi y; fb_lo x = fb_lo y\<rbrakk> \<Longrightarrow> x = y"
proof -
  assume hi: "fb_hi x = fb_hi y" and lo: "fb_lo x = fb_lo y"
  have "fb_offset x = fb_offset y" using lo unfolding fb_lo_def by (rule unsigned_word_eqI)
  moreover have "unat (fb_size x) = unat (fb_size y)" using hi lo by (simp add: fb_hi_lo)
  then have "fb_size x = fb_size y" by (rule unsigned_word_eqI)
  ultimately show "x = y" by simp
qed

lemma head_hi_le:
  assumes X: "blocks_ok al cap (x # xs)" and Y: "blocks_ok al' cap' (y # ys)"
    and E: "free_bytes (x # xs) = free_bytes (y # ys)" and lo: "fb_lo x = fb_lo y"
  shows "fb_hi y \<le> fb_hi x"
proof (rule ccontr)
  assume "\<not> fb_hi y \<le> fb_hi x"
  moreover have "fb_lo x < fb_hi x" using X block_ok_lt[of al cap x] by (simp add: blocks_ok_Cons)
  ultimately have "fb_hi x \<in> block_bytes y" using lo by (simp add: block_bytes_def)
  then show False using free_bytes_head(1)[OF Y] free_bytes_gap[OF X] E by blast
qed

lemma free_blocks_unique:
  assumes "blocks_ok al cap xs" "blocks_ok al' cap' ys" "free_bytes xs = free_bytes ys"
  shows "xs = ys"
  using assms
proof (induction xs arbitrary: ys)
  case Nil
  then show ?case by (cases ys) (use free_bytes_head(2) in force)+
next
  case (Cons x xs)
  obtain y ys' where ys: "ys = y # ys'"
    using Cons.prems free_bytes_head(2)[OF Cons.prems(1)] by (cases ys) auto
  note X = Cons.prems(1) and Y = Cons.prems(2)[unfolded ys] and E = Cons.prems(3)[unfolded ys]
  have lo: "fb_lo x = fb_lo y"
    using free_bytes_ge[OF X] free_bytes_ge[OF Y] free_bytes_head(2)[OF X] free_bytes_head(2)[OF Y] E
    by (metis order_antisym)
  have "fb_hi x = fb_hi y"
    using head_hi_le[OF X Y E lo] head_hi_le[OF Y X E[symmetric] lo[symmetric]] by simp
  with lo have xy: "x = y" by (rule free_block_eqI[rotated])
  have "free_bytes xs = free_bytes ys'"
    using free_bytes_head(3)[OF X] free_bytes_head(3)[OF Y] E xy by simp
  then show ?case
    using Cons.IH X Y ys xy by (simp add: blocks_ok_Cons)
qed

end
