(* ===== verification/Tallocr_Search.thy ===== *)
theory Tallocr_Search
  imports Tallocr_Blocks
begin

text \<open>
  The choice of a block by \<open>ggml_dyn_tallocr_alloc\<close>: the rounding of sizes to the alignment,
  the search among all blocks but the last ones, the search among the last blocks, and the
  opening of a chunk. \<open>choose_block_cases\<close> says that a block that fits is returned when
  there is one, and that a chunk is opened only when no block of any chunk fits.
\<close>

section \<open>Rounding to the alignment\<close>

definition align_ok :: "size_t \<Rightarrow> bool" where
  "align_ok al \<longleftrightarrow> al \<noteq> 0 \<and> (al AND (al - 1)) = 0"

definition size_ok :: "size_t \<Rightarrow> size_t \<Rightarrow> bool" where
  "size_ok al n \<longleftrightarrow> 0 < unat n \<and> unat n + unat al \<le> 2 ^ 63"

definition round_up :: "size_t \<Rightarrow> size_t \<Rightarrow> size_t" where
  "round_up al n = n + (al - n mod al) mod al"

lemma aligned_offset_round: "align_ok al \<Longrightarrow> aligned_offset 0 n al = Some (round_up al n)"
  by (simp add: aligned_offset_def align_ok_def round_up_def)

lemma round_up_nat: "0 < A \<Longrightarrow> A dvd S + (A - S mod A) mod (A :: nat)"
proof (cases "S mod A = 0")
  case False
  assume "0 < A"
  then have "S mod A < A" by simp
  with False have "S + (A - S mod A) mod A = (S - S mod A) + A"
    using mod_less_eq_dividend[of S A] by (simp add: mod_less)
  then show ?thesis by (metis dvd_add dvd_minus_mod dvd_refl)
qed auto

lemma round_up_correct:
  assumes "align_ok al" "size_ok al n"
  shows "unat al dvd unat (round_up al n)" "unat n \<le> unat (round_up al n)"
    "unat (round_up al n) < unat n + unat al" "unat (round_up al n) < 2 ^ 63" "0 < unat (round_up al n)"
proof -
  let ?A = "unat al" and ?S = "unat n"
  have A: "0 < ?A" using assms(1) by (simp add: align_ok_def unat_gt_0)
  have le: "n mod al \<le> al"
    using A by (simp add: word_le_nat_alt unat_mod_distrib)
  have "unat ((al - n mod al) mod al) = (?A - ?S mod ?A) mod ?A"
    by (simp add: unat_mod_distrib unat_sub[OF le])
  moreover have lt: "(?A - ?S mod ?A) mod ?A < ?A" using A by simp
  ultimately have u: "unat (round_up al n) = ?S + (?A - ?S mod ?A) mod ?A"
    using assms(2) unfolding round_up_def by (subst unat_add_below) (auto simp: size_ok_def)
  show "unat al dvd unat (round_up al n)" unfolding u by (rule round_up_nat[OF A])
  show "unat n \<le> unat (round_up al n)" "unat (round_up al n) < unat n + unat al"
    "unat (round_up al n) < 2 ^ 63" "0 < unat (round_up al n)"
    using u lt assms(2) by (auto simp: size_ok_def)
qed

section \<open>The searches\<close>

lemma vget_nth_fblocks:
  "\<lbrakk>arr_ok ck; i < n_free_blocks ck\<rbrakk> \<Longrightarrow> vget (free_blocks ck) i = Some (fblocks ck ! i)"
  using nth_fblocks[of i ck] by (auto simp: arr_ok_def)

definition fits :: "size_t \<Rightarrow> tallocr_chunk \<Rightarrow> nat \<Rightarrow> bool" where
  "fits sz ck i \<longleftrightarrow> sz \<le> fb_size (fblocks ck ! i)"

lemma fit_chunk_step:
  assumes "arr_ok ck" "c < length chunks" "chunks ! c = ck"
  shows "\<exists>r. fit_chunk sz chunks c (bc, bb) = Some r
    \<and> (r = (bc, bb) \<and> (\<forall>i. i + 1 < n_free_blocks ck \<longrightarrow> \<not> fits sz ck i)
       \<or> (\<exists>i. r = (int c, int i) \<and> i + 1 < n_free_blocks ck \<and> fits sz ck i))"
proof -
  define P where "P k t \<longleftrightarrow> t = (bc, bb, SIZE_MAX) \<and> (\<forall>i < k. \<not> fits sz ck i)
     \<or> (\<exists>i w. t = (int c, int i, w) \<and> i < k \<and> fits sz ck i)" for k t
  have "\<exists>t. ofold (fit_block sz c ck) [0..<n_free_blocks ck - 1] (bc, bb, SIZE_MAX) = Some t
      \<and> P (n_free_blocks ck - 1) t"
  proof (rule ofold_upto)
    show "P 0 (bc, bb, SIZE_MAX)" by (simp add: P_def)
    fix k t assume k: "k < n_free_blocks ck - 1" and P: "P k t"
    have g: "vget (free_blocks ck) k = Some (fblocks ck ! k)"
      using k assms(1) by (intro vget_nth_fblocks) auto
    obtain x y w where t: "t = (x, y, w)" by (cases t) auto
    show "\<exists>t'. fit_block sz c ck k t = Some t' \<and> P (Suc k) t'"
    proof (cases "fits sz ck k \<and> fb_size (fblocks ck ! k) \<le> w")
      case True
      then have "fit_block sz c ck k t = Some (int c, int k, fb_size (fblocks ck ! k))"
        unfolding fit_block_def t by (simp add: g fits_def)
      then show ?thesis using True by (auto simp: P_def)
    next
      case False
      then have "fit_block sz c ck k t = Some t"
        unfolding fit_block_def t by (auto simp: g fits_def)
      moreover have "P (Suc k) t"
        using P False unfolding P_def t by (auto simp: SIZE_MAX_def less_Suc_eq)
      ultimately show ?thesis by blast
    qed
  qed
  then obtain x y w where f: "ofold (fit_block sz c ck) [0..<n_free_blocks ck - 1] (bc, bb, SIZE_MAX) = Some (x, y, w)"
    and P: "P (n_free_blocks ck - 1) (x, y, w)" by (metis prod_cases3)
  have "fit_chunk sz chunks c (bc, bb) = Some (x, y)"
    unfolding fit_chunk_def using assms(2,3) f by simp
  moreover have "i < n_free_blocks ck - 1 \<longleftrightarrow> i + 1 < n_free_blocks ck" for i by auto
  ultimately show ?thesis using P unfolding P_def by auto
qed

lemma fit_search:
  assumes "\<forall>c < length chunks. arr_ok (chunks ! c)"
  shows "\<exists>r. ofold (fit_chunk sz chunks) [0..<length chunks] (- 1, - 1) = Some r
    \<and> (r = (- 1, - 1) \<and> (\<forall>c < length chunks. \<forall>i. i + 1 < n_free_blocks (chunks ! c) \<longrightarrow> \<not> fits sz (chunks ! c) i)
       \<or> (\<exists>c i. r = (int c, int i) \<and> c < length chunks \<and> i + 1 < n_free_blocks (chunks ! c) \<and> fits sz (chunks ! c) i))"
proof (rule ofold_upto)
  fix k t
  assume k: "k < length chunks" and P: "t = (- 1, - 1) \<and> (\<forall>c < k. \<forall>i. i + 1 < n_free_blocks (chunks ! c) \<longrightarrow> \<not> fits sz (chunks ! c) i)
       \<or> (\<exists>c i. t = (int c, int i) \<and> c < k \<and> i + 1 < n_free_blocks (chunks ! c) \<and> fits sz (chunks ! c) i)"
  obtain x y where t: "t = (x, y)" by (cases t)
  obtain r where r: "fit_chunk sz chunks k t = Some r"
    "r = t \<and> (\<forall>i. i + 1 < n_free_blocks (chunks ! k) \<longrightarrow> \<not> fits sz (chunks ! k) i)
       \<or> (\<exists>i. r = (int k, int i) \<and> i + 1 < n_free_blocks (chunks ! k) \<and> fits sz (chunks ! k) i)"
    using fit_chunk_step[OF _ k refl, of sz x y] assms k unfolding t by blast
  show "\<exists>t'. fit_chunk sz chunks k t = Some t' \<and>
      (t' = (- 1, - 1) \<and> (\<forall>c < Suc k. \<forall>i. i + 1 < n_free_blocks (chunks ! c) \<longrightarrow> \<not> fits sz (chunks ! c) i)
       \<or> (\<exists>c i. t' = (int c, int i) \<and> c < Suc k \<and> i + 1 < n_free_blocks (chunks ! c) \<and> fits sz (chunks ! c) i))"
    using r P by (auto simp: less_Suc_eq)
qed simp

lemma int_diff_bounds:
  "\<lbrakk>x < 2 ^ 63; y + z < 2 ^ 63\<rbrakk> \<Longrightarrow> - (2 ^ 63) < int x - int y - int z \<and> int x - int y - int z < 2 ^ 63"
  by simp

lemma reuse_above_min:
  assumes "unat m < 2 ^ 63" "unat a + unat n < 2 ^ 63"
  shows "INT64_MIN < sint (m - a - n :: size_t)"
proof -
  define i where "i = int (unat m) - int (unat a) - int (unat n)"
  have "m - a - n = of_int i" by (simp add: i_def)
  moreover have "- (2 ^ 63) < i" "i < 2 ^ 63"
    using assms int_diff_bounds[of "unat m" "unat a" "unat n"] unfolding i_def by blast+
  then have "signed_take_bit 63 i = i" by (intro signed_take_bit_int_eq_self) auto
  ultimately show ?thesis
    using \<open>- (2 ^ 63) < i\<close> by (simp add: signed_of_int INT64_MIN_def)
qed

definition last_fits :: "size_t \<Rightarrow> tallocr_chunk \<Rightarrow> bool" where
  "last_fits sz ck \<longleftrightarrow> 0 < n_free_blocks ck \<and> fits sz ck (n_free_blocks ck - 1)"

lemma last_search:
  assumes "\<forall>c < length chunks. chunk_ok al (caps ! c) (chunks ! c) \<and> unat (max_size (chunks ! c)) \<le> caps ! c"
  shows "\<exists>r. ofold (last_chunk sz chunks) [0..<length chunks] (- 1, - 1, INT64_MIN) = Some r
    \<and> (r = (- 1, - 1, INT64_MIN) \<and> (\<forall>c < length chunks. \<not> last_fits sz (chunks ! c))
       \<or> (\<exists>c f. r = (int c, int (n_free_blocks (chunks ! c)) - 1, f) \<and> c < length chunks \<and> last_fits sz (chunks ! c)))"
proof (rule ofold_upto)
  fix k t
  assume k: "k < length chunks" and P: "t = (- 1, - 1, INT64_MIN) \<and> (\<forall>c < k. \<not> last_fits sz (chunks ! c))
       \<or> (\<exists>c f. t = (int c, int (n_free_blocks (chunks ! c)) - 1, f) \<and> c < k \<and> last_fits sz (chunks ! c))"
  let ?ck = "chunks ! k"
  obtain x y w where t: "t = (x, y, w)" by (cases t) auto
  have ok: "chunk_ok al (caps ! k) ?ck" "unat (max_size ?ck) \<le> caps ! k" using assms k by auto
  have g: "vget (free_blocks ?ck) (n_free_blocks ?ck - 1) = Some (fblocks ?ck ! (n_free_blocks ?ck - 1))"
    if "0 < n_free_blocks ?ck"
    using that ok(1) by (intro vget_nth_fblocks) (auto simp: chunk_ok_def)
  consider "\<not> last_fits sz ?ck" "last_chunk sz chunks k t = Some t"
    | "last_fits sz ?ck" "last_chunk sz chunks k t = Some t" "w \<noteq> INT64_MIN"
    | f where "last_fits sz ?ck" "last_chunk sz chunks k t = Some (int k, int (n_free_blocks ?ck) - 1, f)"
  proof (cases "last_fits sz ?ck")
    case False
    then have "last_chunk sz chunks k t = Some t"
      unfolding last_chunk_def t using k g by (auto simp: last_fits_def fits_def Let_def)
    with False show ?thesis by (rule that(1))
  next
    case True
    define b f where "b = fblocks ?ck ! (n_free_blocks ?ck - 1)" and "f = reuse_factor ?ck b sz"
    have n: "0 < n_free_blocks ?ck" "sz \<le> fb_size b" using True by (auto simp: last_fits_def fits_def b_def)
    have "b \<in> set (fblocks ?ck)" using n(1) ok(1) by (simp add: b_def chunk_ok_def)
    then have "fb_hi b < 2 ^ 63" using ok(1) by (fastforce simp: chunk_ok_def blocks_ok_def block_ok_def)
    then have "unat (fb_offset b) + unat sz < 2 ^ 63"
      using n(2) by (simp add: fb_hi_def word_le_nat_alt)
    then have f: "INT64_MIN < f"
      unfolding f_def reuse_factor_def using ok(2) \<open>fb_hi b < 2 ^ 63\<close> ok(1)
      by (intro reuse_above_min) (auto simp: chunk_ok_def)
    have eval: "last_chunk sz chunks k t = (if w < 0 \<and> f > w \<or> f \<ge> 0 \<and> f < w
        then Some (int k, int (n_free_blocks ?ck) - 1, f) else Some t)"
      unfolding last_chunk_def t using k n g[OF n(1), folded b_def]
      by (simp add: Let_def f_def del: One_nat_def)
    show ?thesis
    proof (cases "w < 0 \<and> f > w \<or> f \<ge> 0 \<and> f < w")
      case taken: True
      then show ?thesis using that(3) True eval by simp
    next
      case kept: False
      have "w \<noteq> INT64_MIN" using kept f by (auto simp: INT64_MIN_def)
      then show ?thesis using that(2) True eval[unfolded if_not_P[OF kept]] by blast
    qed
  qed
  then show "\<exists>t'. last_chunk sz chunks k t = Some t' \<and>
      (t' = (- 1, - 1, INT64_MIN) \<and> (\<forall>c < Suc k. \<not> last_fits sz (chunks ! c))
       \<or> (\<exists>c f. t' = (int c, int (n_free_blocks (chunks ! c)) - 1, f) \<and> c < Suc k \<and> last_fits sz (chunks ! c)))"
    using P t by cases (auto simp: less_Suc_eq)
qed simp

section \<open>The choice\<close>

definition fresh_size :: "ggml_dyn_tallocr \<Rightarrow> size_t \<Rightarrow> size_t" where
  "fresh_size s sz = (if length (dt_chunks s) = GGML_VBUFFER_MAX_CHUNKS - 1 then SIZE_MAX div 2
     else max sz (max_chunk_size s))"

definition fresh_chunk :: "ggml_dyn_tallocr \<Rightarrow> size_t \<Rightarrow> tallocr_chunk" where
  "fresh_chunk s sz = \<lparr>free_blocks = (replicate MAX_FREE_BLOCKS zero_block)[0 := \<lparr>fb_offset = 0, fb_size = fresh_size s sz\<rparr>],
     n_free_blocks = 1, max_size = 0\<rparr>"

lemma fresh_chunk_ok:
  "arr_ok (fresh_chunk s sz)" "fblocks (fresh_chunk s sz) = [\<lparr>fb_offset = 0, fb_size = fresh_size s sz\<rparr>]"
  by (simp_all add: fresh_chunk_def arr_ok_def fblocks_def MAX_FREE_BLOCKS_def numeral_eq_Suc)

definition no_block_fits :: "size_t \<Rightarrow> ggml_dyn_tallocr \<Rightarrow> bool" where
  "no_block_fits sz s \<longleftrightarrow> (\<forall>ck \<in> set (dt_chunks s). \<forall>b \<in> set (fblocks ck). \<not> sz \<le> fb_size b)"

lemma no_block_fitsI:
  assumes "\<forall>c < length (dt_chunks s). arr_ok (dt_chunks s ! c)"
    and "\<forall>c < length (dt_chunks s). \<forall>i. i + 1 < n_free_blocks (dt_chunks s ! c) \<longrightarrow> \<not> fits sz (dt_chunks s ! c) i"
    and "\<forall>c < length (dt_chunks s). \<not> last_fits sz (dt_chunks s ! c)"
  shows "no_block_fits sz s"
  unfolding no_block_fits_def
proof (intro ballI)
  fix ck b assume "ck \<in> set (dt_chunks s)" "b \<in> set (fblocks ck)"
  then obtain c i where c: "c < length (dt_chunks s)" "ck = dt_chunks s ! c"
    and i: "i < n_free_blocks ck" "b = fblocks ck ! i"
    using assms(1) by (metis in_set_conv_nth length_fblocks)
  show "\<not> sz \<le> fb_size b"
  proof (cases "i + 1 < n_free_blocks ck")
    case True
    then show ?thesis using assms(2) c i by (simp add: fits_def)
  next
    case False
    then have "i = n_free_blocks ck - 1" using i(1) by simp
    then show ?thesis using assms(3) c i by (auto simp: fits_def last_fits_def)
  qed
qed

lemma choose_block_cases:
  assumes ok: "\<forall>c < length (dt_chunks s). chunk_ok al (caps ! c) (dt_chunks s ! c) \<and> unat (max_size (dt_chunks s ! c)) \<le> caps ! c"
  obtains (found) c i where "choose_block s sz = Some (int c, int i, s)" "c < length (dt_chunks s)"
      "i < n_free_blocks (dt_chunks s ! c)" "fits sz (dt_chunks s ! c) i"
    | (opened) "choose_block s sz = Some (int (length (dt_chunks s)), 0, s\<lparr>dt_chunks := dt_chunks s @ [fresh_chunk s sz]\<rparr>)"
      "no_block_fits sz s" "length (dt_chunks s) < GGML_VBUFFER_MAX_CHUNKS"
    | (full) "choose_block s sz = Some (- 1, 0, s)" "no_block_fits sz s" "length (dt_chunks s) \<ge> GGML_VBUFFER_MAX_CHUNKS"
proof -
  let ?cs = "dt_chunks s"
  have arr: "\<forall>c < length ?cs. arr_ok (?cs ! c)" using ok by (auto simp: chunk_ok_def)
  consider c i where "ofold (fit_chunk sz ?cs) [0..<length ?cs] (- 1, - 1) = Some (int c, int i)"
      "c < length ?cs" "i + 1 < n_free_blocks (?cs ! c)" "fits sz (?cs ! c) i"
    | "ofold (fit_chunk sz ?cs) [0..<length ?cs] (- 1, - 1) = Some (- 1, - 1)"
      "\<forall>c < length ?cs. \<forall>i. i + 1 < n_free_blocks (?cs ! c) \<longrightarrow> \<not> fits sz (?cs ! c) i"
    using fit_search[OF arr, of sz] by blast
  then show thesis
  proof cases
    case (1 c i)
    have "choose_block s sz = Some (int c, int i, s)"
      unfolding choose_block_def Let_def 1(1) by simp
    then show thesis using found 1 by simp
  next
    case 2
    consider c f where "ofold (last_chunk sz ?cs) [0..<length ?cs] (- 1, - 1, INT64_MIN) = Some (int c, int (n_free_blocks (?cs ! c)) - 1, f)"
        "c < length ?cs" "last_fits sz (?cs ! c)"
      | "ofold (last_chunk sz ?cs) [0..<length ?cs] (- 1, - 1, INT64_MIN) = Some (- 1, - 1, INT64_MIN)"
        "\<forall>c < length ?cs. \<not> last_fits sz (?cs ! c)"
      using last_search[OF ok, of sz] by blast
    then show thesis
    proof cases
      case last: (1 c f)
      have n: "0 < n_free_blocks (?cs ! c)" using last(3) by (simp add: last_fits_def)
      then have e: "int (n_free_blocks (?cs ! c)) - 1 = int (n_free_blocks (?cs ! c) - 1)" by simp
      have "choose_block s sz = Some (int c, int (n_free_blocks (?cs ! c) - 1), s)"
        unfolding choose_block_def Let_def 2(1) using last(1) n by (simp add: e del: of_nat_diff)
      then show thesis by (rule found) (use last n in \<open>auto simp: last_fits_def\<close>)
    next
      case none: 2
      have nf: "no_block_fits sz s" by (rule no_block_fitsI[OF arr 2(2) none(2)])
      have eval: "choose_block s sz = Some (let (bc, t) = ggml_dyn_tallocr_new_chunk s sz in (bc, 0, t))"
        unfolding choose_block_def Let_def 2(1) using none(1) by simp
      show thesis
      proof (cases "length ?cs < GGML_VBUFFER_MAX_CHUNKS")
        case True
        then have "ggml_dyn_tallocr_new_chunk s sz = (int (length ?cs), s\<lparr>dt_chunks := ?cs @ [fresh_chunk s sz]\<rparr>)"
          by (simp add: ggml_dyn_tallocr_new_chunk_def fresh_chunk_def fresh_size_def Let_def)
        then show thesis using opened nf True eval by simp
      next
        case False
        then have "ggml_dyn_tallocr_new_chunk s sz = (- 1, s)"
          by (simp add: ggml_dyn_tallocr_new_chunk_def)
        then show thesis using full nf False eval by simp
      qed
    qed
  qed
qed

end
