(* ===== verification/Tallocr_Safe.thy ===== *)
theory Tallocr_Safe
  imports Tallocr_Search
begin

text \<open>
  Safety of the dynamic tensor allocator. A region is a chunk, an offset and a rounded size.
  \<open>tallocr_inv\<close> ties the state of the allocator to the list of the regions that are in use:
  in every chunk the free bytes and the bytes in use make up the capacity, and no byte
  belongs to two. The locale \<open>region_allocator\<close> is what the graph allocator relies on;
  its client lemma follows any sequence of allocations, releases and shrinkings, and the
  interpretation shows that \<open>ggml_dyn_tallocr\<close> provides it.
\<close>

section \<open>The interface of an allocator of regions\<close>

datatype 'n alloc_op = Alloc 'n | Free nat | Shrink nat 'n

definition drop_at :: "nat \<Rightarrow> 'a list \<Rightarrow> 'a list" where
  "drop_at i xs = take i xs @ drop (Suc i) xs"

fun run_ops :: "('s \<Rightarrow> 'n \<Rightarrow> ('r \<times> 's) option) \<Rightarrow> ('s \<Rightarrow> 'r \<Rightarrow> 's option) \<Rightarrow> ('s \<Rightarrow> 'r \<Rightarrow> 'n \<Rightarrow> ('r \<times> 's) option)
    \<Rightarrow> 'n alloc_op list \<Rightarrow> 's \<times> 'r list \<Rightarrow> ('s \<times> 'r list) option" where
  "run_ops al rl sh [] st = Some st"
| "run_ops al rl sh (Alloc n # ops) (s, live) = do { (r, s') \<leftarrow> al s n; run_ops al rl sh ops (s', live @ [r]) }"
| "run_ops al rl sh (Free i # ops) (s, live) = do {
     r \<leftarrow> vget live i; s' \<leftarrow> rl s r; run_ops al rl sh ops (s', drop_at i live) }"
| "run_ops al rl sh (Shrink i n # ops) (s, live) = do {
     r \<leftarrow> vget live i; (r', s') \<leftarrow> sh s r n; run_ops al rl sh ops (s', live[i := r']) }"

text \<open>
  The sizes of the regions in use after a sequence, and admissible sequences: a release or a
  shrinking names a region in use, shrinking does not enlarge, and at most \<open>lim\<close> regions are
  in use at a time.
\<close>

fun ops_sizes :: "('n \<Rightarrow> nat) \<Rightarrow> 'n alloc_op list \<Rightarrow> nat list \<Rightarrow> nat list" where
  "ops_sizes cost [] ks = ks"
| "ops_sizes cost (Alloc n # ops) ks = ops_sizes cost ops (ks @ [cost n])"
| "ops_sizes cost (Free i # ops) ks = ops_sizes cost ops (drop_at i ks)"
| "ops_sizes cost (Shrink i n # ops) ks = ops_sizes cost ops (ks[i := cost n])"

fun ops_ok :: "('n \<Rightarrow> bool) \<Rightarrow> ('n \<Rightarrow> nat) \<Rightarrow> nat \<Rightarrow> 'n alloc_op list \<Rightarrow> nat list \<Rightarrow> bool" where
  "ops_ok good cost lim [] ks \<longleftrightarrow> True"
| "ops_ok good cost lim (Alloc n # ops) ks \<longleftrightarrow> good n \<and> length ks < lim \<and> ops_ok good cost lim ops (ks @ [cost n])"
| "ops_ok good cost lim (Free i # ops) ks \<longleftrightarrow> i < length ks \<and> ops_ok good cost lim ops (drop_at i ks)"
| "ops_ok good cost lim (Shrink i n # ops) ks \<longleftrightarrow>
     good n \<and> i < length ks \<and> cost n \<le> ks ! i \<and> ops_ok good cost lim ops (ks[i := cost n])"

fun ops_cost :: "('n \<Rightarrow> nat) \<Rightarrow> 'n alloc_op list \<Rightarrow> nat" where
  "ops_cost cost [] = 0"
| "ops_cost cost (Alloc n # ops) = cost n + ops_cost cost ops"
| "ops_cost cost (Free i # ops) = ops_cost cost ops"
| "ops_cost cost (Shrink i n # ops) = ops_cost cost ops"

lemma length_drop_at [simp]: "i < length xs \<Longrightarrow> length (drop_at i xs) = length xs - 1"
  by (simp add: drop_at_def)

lemma ops_ok_snoc:
  "ops_ok good cost lim (ops @ [Alloc n]) ks \<longleftrightarrow>
     ops_ok good cost lim ops ks \<and> good n \<and> length (ops_sizes cost ops ks) < lim"
  by (induction good cost lim ops ks rule: ops_ok.induct) auto

lemma ops_cost_snoc: "ops_cost cost (ops @ [Alloc n]) = ops_cost cost ops + cost n"
  by (induction cost ops rule: ops_cost.induct) auto

lemma map_drop_at: "map f (drop_at i xs) = drop_at i (map f xs)"
  by (simp add: drop_at_def take_map drop_map)

locale region_allocator =
  fixes ok :: "'s \<Rightarrow> 'r list \<Rightarrow> bool"
    and alloc :: "'s \<Rightarrow> 'n \<Rightarrow> ('r \<times> 's) option"
    and release :: "'s \<Rightarrow> 'r \<Rightarrow> 's option"
    and shrink :: "'s \<Rightarrow> 'r \<Rightarrow> 'n \<Rightarrow> ('r \<times> 's) option"
    and rsize :: "'r \<Rightarrow> nat"
    and good :: "'n \<Rightarrow> bool" and cost :: "'n \<Rightarrow> nat" and lim total :: nat
    and used :: "'s \<Rightarrow> nat"
  assumes alloc_total: "\<lbrakk>ok s live; good n; length live < lim; used s + cost n \<le> total\<rbrakk>
      \<Longrightarrow> \<exists>r s'. alloc s n = Some (r, s') \<and> rsize r = cost n \<and> ok s' (live @ [r]) \<and> used s' \<le> used s + cost n"
    and release_total: "\<lbrakk>ok s live; i < length live; length live \<le> lim\<rbrakk>
      \<Longrightarrow> \<exists>s'. release s (live ! i) = Some s' \<and> ok s' (drop_at i live) \<and> used s' \<le> used s"
    and shrink_total: "\<lbrakk>ok s live; i < length live; length live \<le> lim; good n; cost n \<le> rsize (live ! i)\<rbrakk>
      \<Longrightarrow> \<exists>r s'. shrink s (live ! i) n = Some (r, s') \<and> rsize r = cost n \<and> ok s' (live[i := r]) \<and> used s' \<le> used s"
begin

lemma run_total:
  assumes "ok s live" "length live \<le> lim" "ops_ok good cost lim ops (map rsize live)"
    "used s + ops_cost cost ops \<le> total"
  shows "\<exists>s' live'. run_ops alloc release shrink ops (s, live) = Some (s', live') \<and> ok s' live'
    \<and> map rsize live' = ops_sizes cost ops (map rsize live) \<and> used s' \<le> used s + ops_cost cost ops"
  using assms
proof (induction ops arbitrary: s live)
  case Nil
  then show ?case by simp
next
  case (Cons op ops)
  show ?case
  proof (cases op)
    case (Alloc n)
    then have n: "good n" "length live < lim" "ops_ok good cost lim ops (map rsize live @ [cost n])"
      "used s + cost n \<le> total" "used s + (cost n + ops_cost cost ops) \<le> total"
      using Cons.prems by auto
    obtain r s' where r: "alloc s n = Some (r, s')" "rsize r = cost n" "ok s' (live @ [r])" "used s' \<le> used s + cost n"
      using alloc_total[OF Cons.prems(1) n(1,2,4)] by blast
    show ?thesis using Cons.IH[OF r(3)] r n Alloc by fastforce
  next
    case (Free i)
    then have i: "i < length live" "ops_ok good cost lim ops (drop_at i (map rsize live))" "used s + ops_cost cost ops \<le> total"
      using Cons.prems by auto
    obtain s' where s': "release s (live ! i) = Some s'" "ok s' (drop_at i live)" "used s' \<le> used s"
      using release_total[OF Cons.prems(1) i(1) Cons.prems(2)] by blast
    show ?thesis using Cons.IH[OF s'(2)] s' i Free Cons.prems(2) by (fastforce simp: map_drop_at)
  next
    case (Shrink i n)
    then have i: "i < length live" "good n" "cost n \<le> rsize (live ! i)"
      "ops_ok good cost lim ops ((map rsize live)[i := cost n])" "used s + ops_cost cost ops \<le> total"
      using Cons.prems by auto
    obtain r s' where s': "shrink s (live ! i) n = Some (r, s')" "rsize r = cost n" "ok s' (live[i := r])" "used s' \<le> used s"
      using shrink_total[OF Cons.prems(1) i(1) Cons.prems(2) i(2,3)] by blast
    show ?thesis using Cons.IH[OF s'(3)] s' i Shrink Cons.prems(2) by (fastforce simp: map_update)
  qed
qed

end

section \<open>The invariant\<close>

type_synonym tregion = "nat \<times> size_t \<times> size_t"

definition region_space :: "tregion \<Rightarrow> (nat \<times> nat) set" where
  "region_space = (\<lambda>(c, a, n). {c} \<times> region_bytes a n)"

definition live_space :: "tregion list \<Rightarrow> (nat \<times> nat) set" where
  "live_space live = (\<Union>r \<in> set live. region_space r)"

definition free_space :: "tallocr_chunk list \<Rightarrow> (nat \<times> nat) set" where
  "free_space chunks = {(c, k). c < length chunks \<and> k \<in> free_bytes (fblocks (chunks ! c))}"

definition cap_space :: "nat list \<Rightarrow> (nat \<times> nat) set" where
  "cap_space caps = {(c, k). c < length caps \<and> k < caps ! c}"

definition region_ok :: "size_t \<Rightarrow> tallocr_chunk list \<Rightarrow> tregion \<Rightarrow> bool" where
  "region_ok al chunks = (\<lambda>(c, a, n). c < length chunks \<and> 0 < unat n \<and> unat al dvd unat a \<and> unat al dvd unat n
     \<and> unat a + unat n \<le> unat (max_size (chunks ! c)))"

definition tallocr_inv :: "nat list \<Rightarrow> ggml_dyn_tallocr \<Rightarrow> tregion list \<Rightarrow> bool" where
  "tallocr_inv caps s live \<longleftrightarrow>
     align_ok (dt_alignment s) \<and> unat (max_chunk_size s) < 2 ^ 63
     \<and> length caps = length (dt_chunks s) \<and> length caps \<le> GGML_VBUFFER_MAX_CHUNKS
     \<and> (length caps = GGML_VBUFFER_MAX_CHUNKS \<longrightarrow> last caps = 2 ^ 63 - 1)
     \<and> (\<forall>k \<in> set caps. 0 < k)
     \<and> (\<forall>c < length (dt_chunks s). chunk_ok (dt_alignment s) (caps ! c) (dt_chunks s ! c)
          \<and> unat (max_size (dt_chunks s ! c)) \<le> caps ! c)
     \<and> (\<forall>r \<in> set live. region_ok (dt_alignment s) (dt_chunks s) r)
     \<and> sorted_wrt (\<lambda>x y. region_space x \<inter> region_space y = {}) live
     \<and> free_space (dt_chunks s) \<inter> live_space live = {}
     \<and> free_space (dt_chunks s) \<union> live_space live = cap_space caps"

lemma live_space_simps [simp]:
  "live_space [] = {}" "live_space (r # rs) = region_space r \<union> live_space rs"
  "live_space (xs @ ys) = live_space xs \<union> live_space ys"
  by (auto simp: live_space_def)

lemma tallocr_invD:
  assumes "tallocr_inv caps s live"
  shows "align_ok (dt_alignment s)" "length caps = length (dt_chunks s)"
    "\<And>c. c < length (dt_chunks s) \<Longrightarrow> chunk_ok (dt_alignment s) (caps ! c) (dt_chunks s ! c)"
    "\<And>c. c < length (dt_chunks s) \<Longrightarrow> unat (max_size (dt_chunks s ! c)) \<le> caps ! c"
    "\<And>r. r \<in> set live \<Longrightarrow> region_ok (dt_alignment s) (dt_chunks s) r"
    "free_space (dt_chunks s) \<inter> live_space live = {}"
    "free_space (dt_chunks s) \<union> live_space live = cap_space caps"
    "\<And>k. k \<in> set caps \<Longrightarrow> 0 < k"
  using assms unfolding tallocr_inv_def by blast+

lemma unat_half_max: "unat (SIZE_MAX div 2) = 2 ^ 63 - 1"
  by (simp add: SIZE_MAX_def unat_div_distrib unsigned_minus_1_eq_mask mask_eq_exp_minus_1)

lemma blocks_ok_lt: "\<lbrakk>blocks_ok al cap F; b \<in> set F\<rbrakk> \<Longrightarrow> fb_lo b < fb_hi b"
  using block_ok_lt by (auto simp: blocks_ok_def)

lemma new_inv:
  assumes "align_ok al"
  shows "tallocr_inv [] (ggml_dyn_tallocr_new al m) []"
proof -
  have "min m (SIZE_MAX div 2) \<le> SIZE_MAX div 2" by simp
  then have "unat (min m (SIZE_MAX div 2)) \<le> unat (SIZE_MAX div 2)" by (simp only: word_le_nat_alt)
  also have "\<dots> < 2 ^ 63" by (simp add: unat_half_max)
  finally show ?thesis
    using assms by (simp add: tallocr_inv_def ggml_dyn_tallocr_new_def ggml_dyn_tallocr_reset_def
        free_space_def cap_space_def GGML_VBUFFER_MAX_CHUNKS_def)
qed

text \<open>The byte before a free block is in use, and so is at most as far as the peak.\<close>

lemma prev_byte_not_free:
  assumes "blocks_ok al cap F" "b \<in> set F" "0 < fb_lo b"
  shows "fb_lo b - 1 \<notin> free_bytes F"
proof
  assume "fb_lo b - 1 \<in> free_bytes F"
  then obtain x where x: "x \<in> set F" "fb_lo x \<le> fb_lo b - 1" "fb_lo b - 1 < fb_hi x"
    by (auto simp: free_bytes_def block_bytes_def)
  have "x \<noteq> b" using x assms(3) by auto
  obtain i j where ij: "i < length F" "j < length F" "F ! i = x" "F ! j = b"
    using x(1) assms(2) by (metis in_set_conv_nth)
  have lt: "fb_lo y < fb_hi y" if "y \<in> set F" for y
    using assms(1) that block_ok_lt by (auto simp: blocks_ok_def)
  have s: "\<And>p q. \<lbrakk>p < q; q < length F\<rbrakk> \<Longrightarrow> fb_hi (F ! p) < fb_lo (F ! q)"
    using assms(1) by (auto simp: blocks_ok_def sorted_wrt_iff_nth_less)
  show False
    using s[of i j] s[of j i] ij x lt[OF assms(2)] lt[OF x(1)] \<open>x \<noteq> b\<close> assms(3)
    by (cases i j rule: linorder_cases) auto
qed

lemma prev_byte_live:
  assumes inv: "tallocr_inv caps s live" and c: "c < length (dt_chunks s)"
    and b: "b \<in> set (fblocks (dt_chunks s ! c))" "0 < fb_lo b"
  shows "\<exists>k < length live. (c, fb_lo b - 1) \<in> region_space (live ! k)"
proof -
  note I = tallocr_invD[OF inv]
  have ok: "blocks_ok (dt_alignment s) (caps ! c) (fblocks (dt_chunks s ! c))"
    using I(3)[OF c] by (simp add: chunk_ok_def)
  have "fb_hi b \<le> caps ! c" "fb_lo b < fb_hi b"
    using ok b(1) block_ok_lt by (auto simp: blocks_ok_def block_ok_def)
  then have "(c, fb_lo b - 1) \<in> cap_space caps" using I(2) c by (simp add: cap_space_def)
  moreover have "(c, fb_lo b - 1) \<notin> free_space (dt_chunks s)"
    using prev_byte_not_free[OF ok b] by (simp add: free_space_def)
  ultimately have "(c, fb_lo b - 1) \<in> live_space live" using I(7) by blast
  then obtain r where "r \<in> set live" "(c, fb_lo b - 1) \<in> region_space r"
    unfolding live_space_def by blast
  then show ?thesis by (metis in_set_conv_nth)
qed

lemma lo_le_peak:
  assumes inv: "tallocr_inv caps s live" and c: "c < length (dt_chunks s)"
    and b: "b \<in> set (fblocks (dt_chunks s ! c))"
  shows "fb_lo b \<le> unat (max_size (dt_chunks s ! c))"
proof (cases "0 < fb_lo b")
  case True
  obtain k where k: "k < length live" "(c, fb_lo b - 1) \<in> region_space (live ! k)"
    using prev_byte_live[OF inv c b True] by blast
  have "region_ok (dt_alignment s) (dt_chunks s) (live ! k)" using tallocr_invD(5)[OF inv] k(1) by simp
  then show ?thesis
    using k(2) True by (auto simp: region_space_def region_ok_def region_bytes_def split: prod.splits)
qed simp

lemma n_free_bound:
  assumes inv: "tallocr_inv caps s live" and c: "c < length (dt_chunks s)"
  shows "n_free_blocks (dt_chunks s ! c) \<le> length live + 1"
proof -
  let ?F = "fblocks (dt_chunks s ! c)" and ?n = "n_free_blocks (dt_chunks s ! c)"
  note I = tallocr_invD[OF inv]
  have ok: "blocks_ok (dt_alignment s) (caps ! c) ?F" and len: "length ?F = ?n"
    using I(3)[OF c] by (auto simp: chunk_ok_def)
  have srt: "\<And>p q. \<lbrakk>p < q; q < ?n\<rbrakk> \<Longrightarrow> fb_hi (?F ! p) < fb_lo (?F ! q)"
    using ok len by (auto simp: blocks_ok_def sorted_wrt_iff_nth_less)
  have lt: "fb_lo (?F ! i) < fb_hi (?F ! i)" if "i < ?n" for i
    using blocks_ok_lt[OF ok nth_mem] len that by simp
  have "\<exists>k < length live. (c, fb_lo (?F ! i) - 1) \<in> region_space (live ! k)" if "i \<in> {1..<?n}" for i
    using prev_byte_live[OF inv c, of "?F ! i"] srt[of 0 i] that len by auto
  then obtain g where g: "\<And>i. i \<in> {1..<?n} \<Longrightarrow> g i < length live \<and> (c, fb_lo (?F ! i) - 1) \<in> region_space (live ! g i)"
    by metis
  have inj: "g i \<noteq> g j" if ij: "i \<in> {1..<?n}" "j \<in> {1..<?n}" "i < j" for i j
  proof
    assume eq: "g i = g j"
    obtain c' a n where r: "live ! g i = (c', a, n)" by (cases "live ! g i")
    have "(c, fb_lo (?F ! i) - 1) \<in> region_space (c', a, n)" "(c, fb_lo (?F ! j) - 1) \<in> region_space (c', a, n)"
      using g[OF ij(1)] g[OF ij(2)] eq r by auto
    then have "c' = c" "unat a \<le> fb_lo (?F ! i) - 1" "fb_lo (?F ! j) - 1 < unat a + unat n"
      by (auto simp: region_space_def region_bytes_def)
    then have "(c, fb_lo (?F ! i)) \<in> region_space (live ! g i)"
      using srt[of i j] lt[of i] ij r by (auto simp: region_space_def region_bytes_def)
    then have "(c, fb_lo (?F ! i)) \<in> live_space live"
      using g[OF ij(1)] by (auto simp: live_space_def)
    moreover have "(c, fb_lo (?F ! i)) \<in> free_space (dt_chunks s)"
      using c lt[of i] ij(1) len nth_mem[of i ?F] by (auto simp: free_space_def free_bytes_def block_bytes_def)
    ultimately show False using I(6) by blast
  qed
  have "inj_on g {1..<?n}" using inj by (metis inj_onI linorder_neqE_nat)
  moreover have "g ` {1..<?n} \<subseteq> {..<length live}" using g by blast
  ultimately have "card {1..<?n} \<le> card {..<length live}" by (intro card_inj_on_le) auto
  then show ?thesis by simp
qed

section \<open>Allocation\<close>

lemma free_space_minus:
  assumes "c < length chunks" "free_bytes (fblocks ck') = free_bytes (fblocks (chunks ! c)) - B"
  shows "free_space (chunks[c := ck']) = free_space chunks - {c} \<times> B"
proof (rule set_eqI)
  fix x
  show "x \<in> free_space (chunks[c := ck']) \<longleftrightarrow> x \<in> free_space chunks - {c} \<times> B"
    using assms by (cases x; cases "fst x = c") (simp_all add: free_space_def)
qed

lemma free_space_union:
  assumes "c < length chunks" "free_bytes (fblocks ck') = free_bytes (fblocks (chunks ! c)) \<union> B"
  shows "free_space (chunks[c := ck']) = free_space chunks \<union> {c} \<times> B"
proof (rule set_eqI)
  fix x
  show "x \<in> free_space (chunks[c := ck']) \<longleftrightarrow> x \<in> free_space chunks \<union> {c} \<times> B"
    using assms by (cases x; cases "fst x = c") (simp_all add: free_space_def)
qed

lemma region_ok_mono:
  assumes "region_ok al chunks r" "c < length chunks" "unat (max_size (chunks ! c)) \<le> unat (max_size ck')"
  shows "region_ok al (chunks[c := ck']) r"
proof -
  have "unat (max_size (chunks ! d)) \<le> unat (max_size (chunks[c := ck'] ! d))" for d
    using assms(2,3) by (cases "d = c") auto
  then show ?thesis using assms(1) unfolding region_ok_def by (auto intro: order_trans)
qed

lemma take_inv:
  assumes inv: "tallocr_inv caps s live" and c: "c < length (dt_chunks s)"
    and i: "i < n_free_blocks (dt_chunks s ! c)" "fits sz (dt_chunks s ! c) i"
    and sz: "0 < unat sz" "unat (dt_alignment s) dvd unat sz"
    and live: "length live + 1 < MAX_FREE_BLOCKS \<or> take_bytes (dt_chunks s ! c) i sz \<noteq> None"
  shows "\<exists>off ck'. take_bytes (dt_chunks s ! c) i sz = Some (off, ck')
    \<and> tallocr_inv caps (s\<lparr>dt_chunks := (dt_chunks s)[c := ck']\<rparr>) (live @ [(c, off, sz)])
    \<and> unat (max_size ck') \<le> unat (max_size (dt_chunks s ! c)) + unat sz"
proof -
  let ?al = "dt_alignment s" and ?ck = "dt_chunks s ! c"
  define b where "b = fblocks ?ck ! i"
  let ?r = "(c, fb_offset b, sz)"
  note I = tallocr_invD[OF inv]
  have n: "n_free_blocks ?ck < MAX_FREE_BLOCKS \<or> take_bytes ?ck i sz \<noteq> None"
    using n_free_bound[OF inv c] live by auto
  obtain ck' where ck': "take_bytes ?ck i sz = Some (fb_offset b, ck')" "chunk_ok ?al (caps ! c) ck'"
    "free_bytes (fblocks ck') = free_bytes (fblocks ?ck) - region_bytes (fb_offset b) sz"
    "region_bytes (fb_offset b) sz \<subseteq> free_bytes (fblocks ?ck)"
    "unat (fb_offset b) + unat sz \<le> caps ! c" "unat ?al dvd unat (fb_offset b)"
    "unat (max_size ck') = max (unat (max_size ?ck)) (unat (fb_offset b) + unat sz)"
    using take_bytes_correct[OF I(3)[OF c] n i(1) b_def sz(1) _ sz(2)] i(2) by (auto simp: fits_def b_def)
  have "b \<in> set (fblocks ?ck)" using i(1) I(3)[OF c] by (simp add: b_def chunk_ok_def)
  then have lo: "unat (fb_offset b) \<le> unat (max_size ?ck)"
    using lo_le_peak[OF inv c] by (simp add: fb_lo_def)
  have fs: "free_space ((dt_chunks s)[c := ck']) = free_space (dt_chunks s) - region_space ?r"
    using free_space_minus[OF c ck'(3)] by (simp add: region_space_def)
  have sub: "region_space ?r \<subseteq> free_space (dt_chunks s)"
    using ck'(4) c by (auto simp: region_space_def free_space_def)
  have mono: "unat (max_size ?ck) \<le> unat (max_size ck')" using ck'(7) by simp
  have disj: "region_space x \<inter> region_space ?r = {}" if "x \<in> set live" for x
    using that sub I(6) by (auto simp: live_space_def)
  have chunks: "chunk_ok ?al (caps ! d) ((dt_chunks s)[c := ck'] ! d)
      \<and> unat (max_size ((dt_chunks s)[c := ck'] ! d)) \<le> caps ! d" if "d < length (dt_chunks s)" for d
    using I(3,4) that ck'(2,5,7) by (cases "d = c") auto
  have regions: "region_ok ?al ((dt_chunks s)[c := ck']) x" if "x \<in> set live" for x
    using region_ok_mono[OF I(5)[OF that] c mono] .
  have region: "region_ok ?al ((dt_chunks s)[c := ck']) ?r"
    using c sz ck'(6,7) by (simp add: region_ok_def)
  have "tallocr_inv caps (s\<lparr>dt_chunks := (dt_chunks s)[c := ck']\<rparr>) (live @ [?r])"
    using inv chunks regions region disj fs sub
    unfolding tallocr_inv_def by (auto simp: sorted_wrt_append)
  then show ?thesis using ck'(1,7) lo by auto
qed

lemma open_inv:
  assumes inv: "tallocr_inv caps s live" and len: "length (dt_chunks s) < GGML_VBUFFER_MAX_CHUNKS"
    and sz: "0 < unat sz" "unat sz < 2 ^ 63"
  shows "tallocr_inv (caps @ [unat (fresh_size s sz)]) (s\<lparr>dt_chunks := dt_chunks s @ [fresh_chunk s sz]\<rparr>) live"
    and "sz \<le> fresh_size s sz"
proof -
  let ?k = "fresh_size s sz" and ?cs = "dt_chunks s @ [fresh_chunk s sz]"
  note I = tallocr_invD[OF inv]
  have "unat (max_chunk_size s) < 2 ^ 63" using inv by (simp add: tallocr_inv_def)
  then have k: "unat ?k < 2 ^ 63" "unat sz \<le> unat ?k"
    using sz unat_half_max by (auto simp: fresh_size_def max_def word_le_nat_alt)
  then show "sz \<le> fresh_size s sz" by (simp add: word_le_nat_alt)
  have F: "fblocks (fresh_chunk s sz) = [\<lparr>fb_offset = 0, fb_size = ?k\<rparr>]" "arr_ok (fresh_chunk s sz)"
    by (simp_all add: fresh_chunk_ok)
  have ck: "chunk_ok (dt_alignment s) (unat ?k) (fresh_chunk s sz)"
    using k sz(1) F by (simp add: chunk_ok_def blocks_ok_Cons block_ok_def fb_lo_def fb_hi_def)
  have chunks: "chunk_ok (dt_alignment s) ((caps @ [unat ?k]) ! d) (?cs ! d)
      \<and> unat (max_size (?cs ! d)) \<le> (caps @ [unat ?k]) ! d" if "d < length ?cs" for d
  proof (cases "d < length (dt_chunks s)")
    case True
    then show ?thesis using I(2,3,4) by (simp add: nth_append)
  next
    case False
    then have "d = length (dt_chunks s)" using that by simp
    then show ?thesis using I(2) ck by (simp add: nth_append fresh_chunk_def)
  qed
  have free: "free_space ?cs = free_space (dt_chunks s) \<union> {length (dt_chunks s)} \<times> {0..<unat ?k}"
    using F by (auto simp: free_space_def nth_append block_bytes_def fb_lo_def fb_hi_def less_Suc_eq split: if_splits)
  have cap: "cap_space (caps @ [unat ?k]) = cap_space caps \<union> {length (dt_chunks s)} \<times> {0..<unat ?k}"
    using I(2) by (auto simp: cap_space_def nth_append less_Suc_eq split: if_splits)
  have regs: "region_ok (dt_alignment s) ?cs r" if "r \<in> set live" for r
    using I(5)[OF that] by (auto simp: region_ok_def nth_append)
  have out: "({length (dt_chunks s)} \<times> {0..<unat ?k}) \<inter> live_space live = {}"
    using I(5) by (fastforce simp: live_space_def region_space_def region_ok_def)
  have top: "length (caps @ [unat ?k]) = GGML_VBUFFER_MAX_CHUNKS \<longrightarrow> unat ?k = 2 ^ 63 - 1"
    using I(2) unat_half_max by (auto simp: fresh_size_def GGML_VBUFFER_MAX_CHUNKS_def)
  show "tallocr_inv (caps @ [unat ?k]) (s\<lparr>dt_chunks := ?cs\<rparr>) live"
    unfolding tallocr_inv_def
    using inv[unfolded tallocr_inv_def] chunks regs free cap out top len k(2) sz(1) by auto
qed

definition last_used :: "ggml_dyn_tallocr \<Rightarrow> nat" where
  "last_used s = (if length (dt_chunks s) = GGML_VBUFFER_MAX_CHUNKS then unat (max_size (last (dt_chunks s))) else 0)"

lemma last_used_update:
  assumes "c < length (dt_chunks s)" "unat (max_size ck') \<le> unat (max_size (dt_chunks s ! c)) + k"
  shows "last_used (s\<lparr>dt_chunks := (dt_chunks s)[c := ck']\<rparr>) \<le> last_used s + k"
proof -
  have ne: "dt_chunks s \<noteq> []" using assms(1) by auto
  have "last ((dt_chunks s)[c := ck']) = (if c = length (dt_chunks s) - 1 then ck' else last (dt_chunks s))"
    using ne by (rule last_list_update)
  moreover have "c = length (dt_chunks s) - 1 \<Longrightarrow> last (dt_chunks s) = dt_chunks s ! c"
    using ne by (simp add: last_conv_nth)
  ultimately show ?thesis
    using assms(2) by (auto simp: last_used_def)
qed

lemma last_chunk_fits:
  assumes inv: "tallocr_inv caps s live" and len: "length (dt_chunks s) \<ge> GGML_VBUFFER_MAX_CHUNKS"
    and sz: "0 < unat sz" "last_used s + unat sz \<le> 2 ^ 63 - 1"
  shows "\<not> no_block_fits sz s"
proof
  assume nf: "no_block_fits sz s"
  note I = tallocr_invD[OF inv]
  let ?c = "length (dt_chunks s) - 1"
  have L: "length (dt_chunks s) = GGML_VBUFFER_MAX_CHUNKS" "?c < length (dt_chunks s)"
    using inv len I(2) by (auto simp: tallocr_inv_def GGML_VBUFFER_MAX_CHUNKS_def)
  then have ne: "dt_chunks s \<noteq> []" "caps \<noteq> []" using I(2) by auto
  have ck: "last (dt_chunks s) = dt_chunks s ! ?c" "caps ! ?c = last caps"
    using ne I(2) by (simp_all add: last_conv_nth)
  let ?M = "unat (max_size (dt_chunks s ! ?c))" and ?cap = "caps ! ?c"
  have cap: "?cap = 2 ^ 63 - 1" "?M + unat sz \<le> ?cap"
    using inv L I(2) sz(2) ck by (simp_all add: tallocr_inv_def last_used_def)
  have "(?c, ?cap - 1) \<notin> live_space live"
  proof
    assume "(?c, ?cap - 1) \<in> live_space live"
    then obtain a n where "(?c, a, n) \<in> set live" "?cap - 1 < unat a + unat n"
      by (auto simp: live_space_def region_space_def region_bytes_def)
    then show False using I(5) cap sz(1) by (fastforce simp: region_ok_def)
  qed
  moreover have "(?c, ?cap - 1) \<in> cap_space caps" using L I(2) cap by (simp add: cap_space_def)
  ultimately have "?cap - 1 \<in> free_bytes (fblocks (dt_chunks s ! ?c))"
    using I(7) by (auto simp: free_space_def)
  then obtain b where b: "b \<in> set (fblocks (dt_chunks s ! ?c))" "?cap - 1 < fb_hi b"
    by (auto simp: free_bytes_def block_bytes_def)
  have "fb_lo b \<le> ?M" using lo_le_peak[OF inv L(2) b(1)] .
  then have "unat sz \<le> unat (fb_size b)" using b(2) cap by (simp add: fb_hi_lo)
  then have "sz \<le> fb_size b" by (simp add: word_le_nat_alt)
  then show False using nf b(1) L(2) by (auto simp: no_block_fits_def)
qed

lemma alloc_inv:
  assumes inv: "tallocr_inv caps s live" and n: "size_ok (dt_alignment s) n"
    and room: "length live + 1 < MAX_FREE_BLOCKS \<and> last_used s + unat (round_up (dt_alignment s) n) \<le> 2 ^ 63 - 1
      \<or> ggml_dyn_tallocr_alloc s n \<noteq> None"
  shows "\<exists>c off s' caps'. ggml_dyn_tallocr_alloc s n = Some (\<lparr>ba_chunk = int c, ba_offset = off\<rparr>, s')
    \<and> tallocr_inv caps' s' (live @ [(c, off, round_up (dt_alignment s) n)])
    \<and> dt_alignment s' = dt_alignment s \<and> take (length caps) caps' = caps
    \<and> (no_block_fits (round_up (dt_alignment s) n) s \<or> length (dt_chunks s') = length (dt_chunks s))
    \<and> last_used s' \<le> last_used s + unat (round_up (dt_alignment s) n)"
proof -
  let ?al = "dt_alignment s" and ?cs = "dt_chunks s"
  define z where "z = round_up ?al n"
  note I = tallocr_invD[OF inv]
  have z: "unat ?al dvd unat z" "0 < unat z" "unat z < 2 ^ 63"
    using round_up_correct[OF I(1) n] by (auto simp: z_def)
  have al: "aligned_offset 0 n ?al = Some z" using aligned_offset_round[OF I(1)] by (simp add: z_def)
  have cs: "\<forall>c < length ?cs. chunk_ok ?al (caps ! c) (?cs ! c) \<and> unat (max_size (?cs ! c)) \<le> caps ! c"
    using I(3,4) by blast
  show ?thesis
  proof (cases rule: choose_block_cases[OF cs, of z, case_names found opened full])
    case (found c i)
    have "length live + 1 < MAX_FREE_BLOCKS \<or> take_bytes (?cs ! c) i z \<noteq> None"
      using room found unfolding ggml_dyn_tallocr_alloc_def al by (cases "take_bytes (?cs ! c) i z") auto
    then obtain off ck' where t: "take_bytes (?cs ! c) i z = Some (off, ck')"
      "tallocr_inv caps (s\<lparr>dt_chunks := ?cs[c := ck']\<rparr>) (live @ [(c, off, z)])"
      "unat (max_size ck') \<le> unat (max_size (?cs ! c)) + unat z"
      using take_inv[OF inv found(2-4) z(2,1)] by blast
    have "ggml_dyn_tallocr_alloc s n = Some (\<lparr>ba_chunk = int c, ba_offset = off\<rparr>, s\<lparr>dt_chunks := ?cs[c := ck']\<rparr>)"
      unfolding ggml_dyn_tallocr_alloc_def al using found t(1) by simp
    moreover have "last_used (s\<lparr>dt_chunks := ?cs[c := ck']\<rparr>) \<le> last_used s + unat z"
      using last_used_update[OF found(2) t(3)] .
    ultimately show ?thesis using t(2) by (fastforce simp: z_def)
  next
    case opened
    let ?s1 = "s\<lparr>dt_chunks := ?cs @ [fresh_chunk s z]\<rparr>" and ?c = "length ?cs"
    have o1: "tallocr_inv (caps @ [unat (fresh_size s z)]) ?s1 live" and o2: "z \<le> fresh_size s z"
      using open_inv[OF inv opened(3) z(2,3)] by blast+
    have f: "0 < n_free_blocks (dt_chunks ?s1 ! ?c)" "fits z (dt_chunks ?s1 ! ?c) 0"
      by (simp add: fresh_chunk_def) (use o2 fresh_chunk_ok(2) in \<open>simp add: fits_def\<close>)
    have "length live + 1 < MAX_FREE_BLOCKS \<or> take_bytes (dt_chunks ?s1 ! ?c) 0 z \<noteq> None"
      using room opened(1) unfolding ggml_dyn_tallocr_alloc_def al by (cases "take_bytes (dt_chunks ?s1 ! ?c) 0 z") auto
    then obtain off ck' where t: "take_bytes (dt_chunks ?s1 ! ?c) 0 z = Some (off, ck')"
      "tallocr_inv (caps @ [unat (fresh_size s z)]) (?s1\<lparr>dt_chunks := (dt_chunks ?s1)[?c := ck']\<rparr>) (live @ [(?c, off, z)])"
      "unat (max_size ck') \<le> unat (max_size (dt_chunks ?s1 ! ?c)) + unat z"
      using take_inv[OF o1 _ f z(2)] z(1) by auto
    have "ggml_dyn_tallocr_alloc s n = Some (\<lparr>ba_chunk = int ?c, ba_offset = off\<rparr>, ?s1\<lparr>dt_chunks := (dt_chunks ?s1)[?c := ck']\<rparr>)"
      unfolding ggml_dyn_tallocr_alloc_def al using opened(1) t(1) by simp
    moreover have "last_used (?s1\<lparr>dt_chunks := (dt_chunks ?s1)[?c := ck']\<rparr>) \<le> last_used s + unat z"
      using t(3) by (simp add: last_used_def fresh_chunk_def)
    ultimately show ?thesis using t(2) opened(2) I(2) by (fastforce simp: z_def)
  next
    case full
    moreover have "ggml_dyn_tallocr_alloc s n = None"
      unfolding ggml_dyn_tallocr_alloc_def al using full(1) by simp
    ultimately show ?thesis using last_chunk_fits[OF inv full(3) z(2)] room by (simp add: z_def)
  qed
qed

section \<open>Release\<close>

lemma round_up_multiple: "\<lbrakk>align_ok al; unat al dvd unat n\<rbrakk> \<Longrightarrow> round_up al n = n"
proof -
  assume "align_ok al" "unat al dvd unat n"
  then have "unat (n mod al) = 0" by (simp add: unat_mod_distrib mod_eq_0_iff_dvd)
  then have "n mod al = 0" by (simp add: unat_eq_0)
  then show ?thesis by (simp add: round_up_def)
qed

text \<open>Giving back the bytes of a region from \<open>k\<close> on.\<close>

lemma give_back_inv:
  assumes inv: "tallocr_inv caps s (A @ (c, a, n) # B)"
    and k: "unat (dt_alignment s) dvd unat k" "unat k < unat n"
    and live: "length A + length B + 2 < MAX_FREE_BLOCKS
      \<or> ggml_dyn_tallocr_free_bytes s \<lparr>ba_chunk = int c, ba_offset = a + k\<rparr> (n - k) \<noteq> None"
  shows "\<exists>s'. ggml_dyn_tallocr_free_bytes s \<lparr>ba_chunk = int c, ba_offset = a + k\<rparr> (n - k) = Some s'
    \<and> tallocr_inv caps s' (A @ (if k = 0 then [] else [(c, a, k)]) @ B)
    \<and> dt_alignment s' = dt_alignment s \<and> last_used s' \<le> last_used s"
proof -
  let ?al = "dt_alignment s" and ?ck = "dt_chunks s ! c"
  note I = tallocr_invD[OF inv]
  have r: "c < length (dt_chunks s)" "unat ?al dvd unat a" "unat ?al dvd unat n" "unat a + unat n \<le> unat (max_size ?ck)"
    using I(5)[of "(c, a, n)"] by (auto simp: region_ok_def)
  have cap: "unat a + unat n \<le> caps ! c" "caps ! c < 2 ^ 63"
    using r(4) I(3,4)[OF r(1)] by (auto simp: chunk_ok_def)
  have u: "unat (a + k) = unat a + unat k" "unat (n - k) = unat n - unat k"
    using cap k(2) by (auto intro!: unat_add_below unat_sub simp: word_le_nat_alt)
  have al: "aligned_offset 0 (n - k) ?al = Some (n - k)"
    using aligned_offset_round[OF I(1)] round_up_multiple[OF I(1), of "n - k"] r(3) k u(2) by (simp add: dvd_diff_nat)
  have n_free: "n_free_blocks ?ck < MAX_FREE_BLOCKS \<or> free_scan [0..<n_free_blocks ?ck] ?ck (a + k) (n - k) \<noteq> None"
    using n_free_bound[OF inv r(1)] live al r(1) unfolding ggml_dyn_tallocr_free_bytes_def by auto
  have rb: "region_bytes (a + k) (n - k) = {unat a + unat k..<unat a + unat n}"
    using u k(2) by (simp add: region_bytes_def)
  have split: "region_space (c, a, n) = region_space (c, a, k) \<union> {c} \<times> region_bytes (a + k) (n - k)"
    "region_space (c, a, k) \<inter> {c} \<times> region_bytes (a + k) (n - k) = {}"
    using k(2) unfolding rb by (auto simp: region_space_def region_bytes_def)
  have "({c} \<times> region_bytes (a + k) (n - k)) \<inter> free_space (dt_chunks s) = {}" using I(6) split(1) by auto
  then have d: "region_bytes (a + k) (n - k) \<inter> free_bytes (fblocks ?ck) = {}" using r(1) by (auto simp: free_space_def)
  obtain ck' where ck': "free_scan [0..<n_free_blocks ?ck] ?ck (a + k) (n - k) = Some ck'" "chunk_ok ?al (caps ! c) ck'"
    "free_bytes (fblocks ck') = free_bytes (fblocks ?ck) \<union> region_bytes (a + k) (n - k)" "max_size ck' = max_size ?ck"
    using free_scan_correct[OF I(3)[OF r(1)] n_free _ _ _ d] u cap k r(2) by (auto simp: dvd_add)
  let ?s = "s\<lparr>dt_chunks := (dt_chunks s)[c := ck']\<rparr>" and ?X = "if k = 0 then [] else [(c, a, k)]"
  have eval: "ggml_dyn_tallocr_free_bytes s \<lparr>ba_chunk = int c, ba_offset = a + k\<rparr> (n - k) = Some ?s"
    unfolding ggml_dyn_tallocr_free_bytes_def using al r(1) ck'(1) by simp
  have X: "live_space ?X = region_space (c, a, k)"
    by (simp add: region_space_def region_bytes_def)
  have fs: "free_space (dt_chunks ?s) = free_space (dt_chunks s) \<union> {c} \<times> region_bytes (a + k) (n - k)"
    using free_space_union[OF r(1) ck'(3)] by simp
  have regs: "region_ok ?al (dt_chunks ?s) x" if "x \<in> set (A @ ?X @ B)" for x
  proof -
    have "region_ok ?al (dt_chunks s) x"
      using that I(5)[of x] I(5)[of "(c, a, n)"] k r by (auto simp: region_ok_def unat_gt_0 split: if_splits)
    from region_ok_mono[OF this r(1), of ck'] show ?thesis using ck'(4) by simp
  qed
  have chunks: "chunk_ok ?al (caps ! e) (dt_chunks ?s ! e) \<and> unat (max_size (dt_chunks ?s ! e)) \<le> caps ! e"
    if "e < length (dt_chunks s)" for e
    using I(3,4) that ck'(2,4) r(1) by (cases "e = c") auto
  have srt: "sorted_wrt (\<lambda>x y. region_space x \<inter> region_space y = {}) (A @ (c, a, n) # B)"
    using inv by (simp add: tallocr_inv_def)
  have lu: "last_used ?s \<le> last_used s"
    using last_used_update[OF r(1), of ck' 0] ck'(4) by simp
  have srt': "sorted_wrt (\<lambda>x y. region_space x \<inter> region_space y = {}) (A @ ?X @ B)"
    using srt split(1) by (auto simp: sorted_wrt_append)
  have out: "({c} \<times> region_bytes (a + k) (n - k)) \<inter> live_space (A @ ?X @ B) = {}"
    using srt split X by (fastforce simp: sorted_wrt_append live_space_def)
  have eqs: "free_space (dt_chunks ?s) \<inter> live_space (A @ ?X @ B) = {}"
    "free_space (dt_chunks ?s) \<union> live_space (A @ ?X @ B) = cap_space caps"
    using I(6,7) out X split(1) unfolding fs by auto
  have "tallocr_inv caps ?s (A @ ?X @ B)"
    using inv chunks regs srt' eqs unfolding tallocr_inv_def by simp
  then show ?thesis using eval lu by auto
qed

section \<open>The allocator as an allocator of regions\<close>

definition region_alloc :: "ggml_dyn_tallocr \<Rightarrow> size_t \<Rightarrow> (tregion \<times> ggml_dyn_tallocr) option" where
  "region_alloc s n = do {
     (addr, s') \<leftarrow> ggml_dyn_tallocr_alloc s n;
     n' \<leftarrow> aligned_offset 0 n (dt_alignment s);
     Some ((nat (ba_chunk addr), ba_offset addr, n'), s') }"

definition region_release :: "ggml_dyn_tallocr \<Rightarrow> tregion \<Rightarrow> ggml_dyn_tallocr option" where
  "region_release s = (\<lambda>(c, a, n). ggml_dyn_tallocr_free_bytes s \<lparr>ba_chunk = int c, ba_offset = a\<rparr> n)"

text \<open>
  The part of \<open>ggml_gallocr_free_extra_space\<close> that concerns the allocator: a node takes over
  the region of its parent, and what it does not need is given back.
\<close>

definition region_shrink :: "ggml_dyn_tallocr \<Rightarrow> tregion \<Rightarrow> size_t \<Rightarrow> (tregion \<times> ggml_dyn_tallocr) option" where
  "region_shrink s = (\<lambda>(c, a, parent_size) node. do {
     node_size \<leftarrow> aligned_offset 0 node (dt_alignment s);
     assert_that (parent_size \<ge> node_size);
     if parent_size > node_size then do {
       s' \<leftarrow> ggml_dyn_tallocr_free_bytes s \<lparr>ba_chunk = int c, ba_offset = a + node_size\<rparr> (parent_size - node_size);
       Some ((c, a, node_size), s') }
     else Some ((c, a, parent_size), s) })"

definition region_size :: "tregion \<Rightarrow> nat" where
  "region_size = (\<lambda>(c, a, n). unat n)"

definition round_size :: "size_t \<Rightarrow> size_t \<Rightarrow> nat" where
  "round_size al n = unat (round_up al n)"

definition tallocr_ok :: "size_t \<Rightarrow> ggml_dyn_tallocr \<Rightarrow> tregion list \<Rightarrow> bool" where
  "tallocr_ok al s live \<longleftrightarrow> dt_alignment s = al \<and> (\<exists>caps. tallocr_inv caps s live)"

definition MAX_LIVE :: nat where
  "MAX_LIVE = MAX_FREE_BLOCKS - 2"

interpretation dyn_tallocr:
  region_allocator "tallocr_ok al" region_alloc region_release region_shrink region_size
    "size_ok al" "round_size al" MAX_LIVE "2 ^ 63 - 1" last_used
proof
  fix s live n
  assume ok: "tallocr_ok al s live" and n: "size_ok al n" "length live < MAX_LIVE" "last_used s + round_size al n \<le> 2 ^ 63 - 1"
  obtain caps where inv: "tallocr_inv caps s live" and al: "dt_alignment s = al"
    using ok by (auto simp: tallocr_ok_def)
  have lim: "length live + 1 < MAX_FREE_BLOCKS" using n(2) by (simp add: MAX_LIVE_def)
  obtain c off s' caps' where a: "ggml_dyn_tallocr_alloc s n = Some (\<lparr>ba_chunk = int c, ba_offset = off\<rparr>, s')"
    "tallocr_inv caps' s' (live @ [(c, off, round_up al n)])" "dt_alignment s' = al"
    "last_used s' \<le> last_used s + unat (round_up al n)"
    using alloc_inv[OF inv, of n] n lim al unfolding round_size_def by auto
  have "region_alloc s n = Some ((c, off, round_up al n), s')"
    using a(1) aligned_offset_round tallocr_invD(1)[OF inv] al by (simp add: region_alloc_def)
  then show "\<exists>r s'. region_alloc s n = Some (r, s') \<and> region_size r = round_size al n
      \<and> tallocr_ok al s' (live @ [r]) \<and> last_used s' \<le> last_used s + round_size al n"
    using a by (auto simp: region_size_def round_size_def tallocr_ok_def)
next
  fix s live i
  assume ok: "tallocr_ok al s live" and i: "i < length live" "length live \<le> MAX_LIVE"
  obtain caps where inv: "tallocr_inv caps s live" and al: "dt_alignment s = al"
    using ok by (auto simp: tallocr_ok_def)
  obtain c a n where r: "live ! i = (c, a, n)" by (cases "live ! i")
  have sp: "tallocr_inv caps s (take i live @ (c, a, n) # drop (Suc i) live)"
    using inv id_take_nth_drop[OF i(1)] r by metis
  have lim: "length (take i live) + length (drop (Suc i) live) + 2 < MAX_FREE_BLOCKS"
    using i by (auto simp: MAX_LIVE_def MAX_FREE_BLOCKS_def)
  have "0 < unat n" using tallocr_invD(5)[OF inv, of "(c, a, n)"] i(1) r nth_mem[of i live] by (simp add: region_ok_def)
  then obtain s' where "ggml_dyn_tallocr_free_bytes s \<lparr>ba_chunk = int c, ba_offset = a\<rparr> n = Some s'"
    "tallocr_inv caps s' (take i live @ drop (Suc i) live)" "dt_alignment s' = dt_alignment s" "last_used s' \<le> last_used s"
    using give_back_inv[OF sp, of 0] lim by auto
  then show "\<exists>s'. region_release s (live ! i) = Some s' \<and> tallocr_ok al s' (drop_at i live) \<and> last_used s' \<le> last_used s"
    using al by (auto simp: r region_release_def tallocr_ok_def drop_at_def)
next
  fix s live i n
  assume ok: "tallocr_ok al s live" and i: "i < length live" "length live \<le> MAX_LIVE"
    and n: "size_ok al n" "round_size al n \<le> region_size (live ! i)"
  obtain caps where inv: "tallocr_inv caps s live" and al: "dt_alignment s = al"
    using ok by (auto simp: tallocr_ok_def)
  have aok: "align_ok al" using tallocr_invD(1)[OF inv] al by simp
  obtain c a m where r: "live ! i = (c, a, m)" by (cases "live ! i")
  have lim: "length (take i live) + length (drop (Suc i) live) + 2 < MAX_FREE_BLOCKS"
    using i by (auto simp: MAX_LIVE_def MAX_FREE_BLOCKS_def)
  let ?k = "round_up al n"
  have k: "unat al dvd unat ?k" "0 < unat ?k" using round_up_correct[OF aok n(1)] by auto
  have nz: "?k \<noteq> 0" using k(2) by (metis unat_0 less_irrefl)
  have le: "unat ?k \<le> unat m" using n(2) by (simp add: r region_size_def round_size_def)
  show "\<exists>r s'. region_shrink s (live ! i) n = Some (r, s') \<and> region_size r = round_size al n
      \<and> tallocr_ok al s' (live[i := r]) \<and> last_used s' \<le> last_used s"
  proof (cases "unat ?k < unat m")
    case True
    have sp: "tallocr_inv caps s (take i live @ (c, a, m) # drop (Suc i) live)"
      using inv id_take_nth_drop[OF i(1)] r by metis
    obtain s' where s': "ggml_dyn_tallocr_free_bytes s \<lparr>ba_chunk = int c, ba_offset = a + ?k\<rparr> (m - ?k) = Some s'"
      "tallocr_inv caps s' (take i live @ [(c, a, ?k)] @ drop (Suc i) live)" "dt_alignment s' = dt_alignment s" "last_used s' \<le> last_used s"
      using give_back_inv[OF sp, of ?k] lim k nz True al by auto
    have "region_shrink s (live ! i) n = Some ((c, a, ?k), s')"
      using s'(1) True le al by (simp add: r region_shrink_def aligned_offset_round[OF aok] word_le_nat_alt word_less_nat_alt)
    then show ?thesis
      using s' al i(1) by (auto simp: region_size_def round_size_def tallocr_ok_def upd_conv_take_nth_drop)
  next
    case False
    then have "unat m = unat ?k" using le by simp
    then have eq: "m = ?k" by (rule unsigned_word_eqI)
    have "region_shrink s (live ! i) n = Some ((c, a, m), s)"
      using al eq by (simp add: r region_shrink_def aligned_offset_round[OF aok])
    then show ?thesis
      using ok list_update_id[of live i] r eq by (auto simp: region_size_def round_size_def)
  qed
qed

end
