(* ===== verification/Tallocr_Correct.thy ===== *)
theory Tallocr_Correct
  imports Tallocr_Safe
begin

text \<open>
  The properties of the dynamic tensor allocator: regions handed out never overlap and the
  allocator does not abort, all memory is recovered when everything was released, releasing
  what was just allocated restores the free lists, and a chunk is opened only when no free
  block fits. At the end, inputs on which the code leaves its intended behaviour.
\<close>

section \<open>Reachable states\<close>

abbreviation tallocr_run :: "size_t alloc_op list \<Rightarrow> size_t \<Rightarrow> size_t \<Rightarrow> (ggml_dyn_tallocr \<times> tregion list) option" where
  "tallocr_run ops al m \<equiv> run_ops region_alloc region_release region_shrink ops (ggml_dyn_tallocr_new al m, [])"

definition admissible :: "size_t \<Rightarrow> size_t alloc_op list \<Rightarrow> bool" where
  "admissible al ops \<longleftrightarrow> align_ok al \<and> ops_ok (size_ok al) (round_size al) MAX_LIVE ops []
     \<and> ops_cost (round_size al) ops < 2 ^ 63"

lemma run_reaches:
  assumes "admissible al ops"
  shows "\<exists>s live caps. tallocr_run ops al m = Some (s, live)
    \<and> map region_size live = ops_sizes (round_size al) ops [] \<and> dt_alignment s = al \<and> tallocr_inv caps s live
    \<and> last_used s \<le> ops_cost (round_size al) ops"
proof -
  let ?s0 = "ggml_dyn_tallocr_new al m"
  have a: "align_ok al" "ops_ok (size_ok al) (round_size al) MAX_LIVE ops []" "ops_cost (round_size al) ops < 2 ^ 63"
    using assms by (auto simp: admissible_def)
  have al: "dt_alignment ?s0 = al" "last_used ?s0 = 0"
    by (simp_all add: last_used_def ggml_dyn_tallocr_new_def ggml_dyn_tallocr_reset_def GGML_VBUFFER_MAX_CHUNKS_def)
  have ok: "tallocr_ok al ?s0 []" using new_inv[OF a(1), of m] al by (auto simp: tallocr_ok_def)
  show ?thesis
    using dyn_tallocr.run_total[OF ok, of ops] a al unfolding tallocr_ok_def by auto
qed

text \<open>
  C37: From a new allocator, run any sequence of allocations, releases and shrinkings in which
  at most 254 regions are in use at a time and the rounded sizes allocated add up to at most
  \<open>SIZE_MAX / 2\<close>. Then no call aborts, the regions in use have the requested sizes rounded up
  to the alignment, start at multiples of the alignment, lie below the recorded peak
  \<open>max_size\<close> of their chunk (the size of the buffer allocated later), and no two share a byte.
\<close>

theorem dyn_tallocr_regions:
  assumes "admissible al ops"
  shows "\<exists>s live. tallocr_run ops al m = Some (s, live)
    \<and> map region_size live = ops_sizes (round_size al) ops []
    \<and> (\<forall>i < length live. case live ! i of (c, a, n) \<Rightarrow> c < length (dt_chunks s) \<and> unat al dvd unat a
         \<and> unat a + unat n \<le> unat (ggml_dyn_tallocr_max_size s c))
    \<and> (\<forall>j < length live. \<forall>i < j. region_space (live ! i) \<inter> region_space (live ! j) = {})"
proof -
  obtain s live caps where run: "tallocr_run ops al m = Some (s, live)" "map region_size live = ops_sizes (round_size al) ops []"
    and al: "dt_alignment s = al" and inv: "tallocr_inv caps s live"
    using run_reaches[OF assms] by blast
  have "case live ! i of (c, a, n) \<Rightarrow> c < length (dt_chunks s) \<and> unat al dvd unat a
         \<and> unat a + unat n \<le> unat (ggml_dyn_tallocr_max_size s c)" if "i < length live" for i
    using tallocr_invD(5)[OF inv, of "live ! i"] that al
    by (auto simp: region_ok_def ggml_dyn_tallocr_max_size_def split: prod.splits)
  moreover have "region_space (live ! i) \<inter> region_space (live ! j) = {}" if "i < j" "j < length live" for i j
    using inv that by (auto simp: tallocr_inv_def sorted_wrt_iff_nth_less)
  ultimately show ?thesis using run by blast
qed

lemma demo_ops_admissible:
  "admissible 32 [Alloc 100, Alloc 64, Alloc 200, Free 1, Shrink 0 40, Alloc 30, Free 0]"
  by (simp add: admissible_def align_ok_def size_ok_def round_size_def round_up_def drop_at_def MAX_LIVE_def MAX_FREE_BLOCKS_def)

theorem dyn_tallocr_regions_witness:
  "\<exists>s live. tallocr_run [Alloc 100, Alloc 64, Alloc 200, Free 1, Shrink 0 40, Alloc 30, Free 0] 32 4096 = Some (s, live)
    \<and> map region_size live = [224, 32]
    \<and> (\<forall>j < length live. \<forall>i < j. region_space (live ! i) \<inter> region_space (live ! j) = {})"
  using dyn_tallocr_regions[OF demo_ops_admissible, of 4096]
  by (auto simp: round_size_def round_up_def drop_at_def)

section \<open>No leak\<close>

lemma whole_chunk_free:
  assumes inv: "tallocr_inv caps s []" and c: "c < length (dt_chunks s)"
  shows "fblocks (dt_chunks s ! c) = [\<lparr>fb_offset = 0, fb_size = of_nat (caps ! c)\<rparr>]"
    and "unat (of_nat (caps ! c) :: size_t) = caps ! c"
proof -
  note I = tallocr_invD[OF inv]
  let ?b = "\<lparr>fb_offset = 0, fb_size = of_nat (caps ! c)\<rparr>"
  have ck: "chunk_ok (dt_alignment s) (caps ! c) (dt_chunks s ! c)" using I(3)[OF c] .
  then have cap: "caps ! c < 2 ^ 63" "0 < caps ! c" using I(2,8) c by (auto simp: chunk_ok_def)
  then show u: "unat (of_nat (caps ! c) :: size_t) = caps ! c" by (simp add: unsigned_of_nat take_bit_nat_eq_self)
  have "free_bytes (fblocks (dt_chunks s ! c)) = {0..<caps ! c}"
    using I(2,7) c by (auto simp: free_space_def cap_space_def set_eq_iff)
  also have "\<dots> = free_bytes [?b]" using u by (simp add: block_bytes_def fb_lo_def fb_hi_def)
  finally have "free_bytes (fblocks (dt_chunks s ! c)) = free_bytes [?b]" .
  moreover have "blocks_ok (dt_alignment s) (caps ! c) [?b]"
    using cap u by (simp add: blocks_ok_Cons block_ok_def fb_lo_def fb_hi_def)
  ultimately show "fblocks (dt_chunks s ! c) = [?b]"
    using ck free_blocks_unique unfolding chunk_ok_def by blast
qed

text \<open>
  When a sequence has released everything it allocated, in whatever order, each chunk is
  one free block again, from offset 0 and at least as large as the peak: the merges leave
  neither a lost byte nor a fragment.
\<close>

lemma dyn_tallocr_no_leak:
  assumes "admissible al ops" "ops_sizes (round_size al) ops [] = []"
  shows "\<exists>s. tallocr_run ops al m = Some (s, [])
    \<and> (\<forall>ck \<in> set (dt_chunks s). n_free_blocks ck = 1 \<and> fb_offset (free_blocks ck ! 0) = 0
         \<and> max_size ck \<le> fb_size (free_blocks ck ! 0))"
proof -
  obtain s caps where run: "tallocr_run ops al m = Some (s, [])" and inv: "tallocr_inv caps s []"
    using run_reaches[OF assms(1), of m] assms(2) by auto
  have "n_free_blocks ck = 1 \<and> fb_offset (free_blocks ck ! 0) = 0 \<and> max_size ck \<le> fb_size (free_blocks ck ! 0)"
    if "ck \<in> set (dt_chunks s)" for ck
  proof -
    obtain c where c: "c < length (dt_chunks s)" "dt_chunks s ! c = ck" using \<open>ck \<in> set _\<close> by (metis in_set_conv_nth)
    note I = tallocr_invD[OF inv]
    have F: "fblocks ck = [\<lparr>fb_offset = 0, fb_size = of_nat (caps ! c)\<rparr>]" "arr_ok ck"
      using whole_chunk_free(1)[OF inv c(1)] I(3)[OF c(1)] c(2) by (auto simp: chunk_ok_def)
    then have n: "n_free_blocks ck = 1" using length_fblocks[OF F(2)] by simp
    then have "free_blocks ck ! 0 = \<lparr>fb_offset = 0, fb_size = of_nat (caps ! c)\<rparr>"
      using nth_fblocks[of 0 ck] F(1) by simp
    then show ?thesis
      using n I(4)[OF c(1)] c(2) whole_chunk_free(2)[OF inv c(1)] by (simp add: word_le_nat_alt)
  qed
  then show ?thesis using run by blast
qed

lemma dyn_tallocr_no_leak_witness:
  "\<exists>s. tallocr_run [Alloc 100, Alloc 64, Alloc 200, Free 1, Shrink 1 40, Free 0, Free 0] 32 4096 = Some (s, [])
    \<and> (\<forall>ck \<in> set (dt_chunks s). n_free_blocks ck = 1 \<and> fb_offset (free_blocks ck ! 0) = 0
         \<and> max_size ck \<le> fb_size (free_blocks ck ! 0))"
  by (rule dyn_tallocr_no_leak)
    (simp_all add: admissible_def align_ok_def size_ok_def round_size_def round_up_def drop_at_def MAX_LIVE_def MAX_FREE_BLOCKS_def)

section \<open>Release undoes allocation\<close>

lemma same_free_lists:
  assumes inv: "tallocr_inv caps s live" and inv': "tallocr_inv caps' s' live" and pre: "take (length caps) caps' = caps"
  shows "take (length (dt_chunks s)) (map fblocks (dt_chunks s')) = map fblocks (dt_chunks s)"
proof (rule nth_equalityI)
  note I = tallocr_invD[OF inv] and I' = tallocr_invD[OF inv']
  have len: "length caps \<le> length caps'" using pre by (metis length_take min.cobounded2 min.commute)
  then show "length (take (length (dt_chunks s)) (map fblocks (dt_chunks s'))) = length (map fblocks (dt_chunks s))"
    using I(2) I'(2) by simp
  fix c assume "c < length (take (length (dt_chunks s)) (map fblocks (dt_chunks s')))"
  then have c: "c < length (dt_chunks s)" "c < length (dt_chunks s')" by auto
  have cap: "caps' ! c = caps ! c" using pre c(1) I(2) by (metis nth_take)
  have "k \<in> free_bytes (fblocks (dt_chunks s' ! c)) \<longleftrightarrow> k \<in> free_bytes (fblocks (dt_chunks s ! c))" for k
  proof -
    have "(c, k) \<in> free_space (dt_chunks s) \<longleftrightarrow> (c, k) \<in> cap_space caps \<and> (c, k) \<notin> live_space live"
      using I(6,7) by blast
    moreover have "(c, k) \<in> free_space (dt_chunks s') \<longleftrightarrow> (c, k) \<in> cap_space caps' \<and> (c, k) \<notin> live_space live"
      using I'(6,7) by blast
    ultimately show ?thesis using c cap I(2) I'(2) by (simp add: free_space_def cap_space_def)
  qed
  then have "free_bytes (fblocks (dt_chunks s' ! c)) = free_bytes (fblocks (dt_chunks s ! c))" by blast
  then show "take (length (dt_chunks s)) (map fblocks (dt_chunks s')) ! c = map fblocks (dt_chunks s) ! c"
    using free_blocks_unique I(3)[OF c(1)] I'(3)[OF c(2)] c unfolding chunk_ok_def by simp blast
qed

lemma admissible_prefix: "admissible al (ops @ [Alloc n]) \<Longrightarrow> admissible al ops"
  by (simp add: admissible_def ops_ok_snoc ops_cost_snoc)

lemma reached_room:
  assumes ops: "admissible al (ops @ [Alloc n])" and run: "tallocr_run ops al m = Some (s, live)"
  shows "\<exists>caps. dt_alignment s = al \<and> tallocr_inv caps s live \<and> size_ok al n \<and> length live < MAX_LIVE
    \<and> last_used s + unat (round_up al n) \<le> 2 ^ 63 - 1"
proof -
  obtain caps where r: "map region_size live = ops_sizes (round_size al) ops []" "dt_alignment s = al"
    "tallocr_inv caps s live" "last_used s \<le> ops_cost (round_size al) ops"
    using run_reaches[OF admissible_prefix[OF ops], of m] run by auto
  have "size_ok al n" "length (ops_sizes (round_size al) ops []) < MAX_LIVE"
    "ops_cost (round_size al) ops + unat (round_up al n) < 2 ^ 63"
    using ops by (auto simp: admissible_def ops_ok_snoc ops_cost_snoc round_size_def)
  moreover have "length live = length (ops_sizes (round_size al) ops [])" using r(1) by (metis length_map)
  ultimately show ?thesis using r(2-4) by (intro exI[of _ caps]) auto
qed

text \<open>
  After any admissible sequence, allocating a region and releasing it again succeeds and
  leaves every free list as it was; if the allocation opened a chunk, that one is extra.
\<close>

lemma dyn_tallocr_restore:
  assumes ops: "admissible al (ops @ [Alloc n])" and run: "tallocr_run ops al m = Some (s, live)"
  shows "\<exists>r s' s''. region_alloc s n = Some (r, s') \<and> region_release s' r = Some s''
    \<and> take (length (dt_chunks s)) (map fblocks (dt_chunks s'')) = map fblocks (dt_chunks s)"
proof -
  obtain caps where al: "dt_alignment s = al" and inv: "tallocr_inv caps s live"
    and n: "size_ok al n" "length live < MAX_LIVE" "last_used s + unat (round_up al n) \<le> 2 ^ 63 - 1"
    using reached_room[OF ops run] by blast
  have lim: "length live + 1 < MAX_FREE_BLOCKS" using n(2) by (simp add: MAX_LIVE_def)
  let ?z = "round_up al n"
  obtain c off s' caps' where a: "ggml_dyn_tallocr_alloc s n = Some (\<lparr>ba_chunk = int c, ba_offset = off\<rparr>, s')"
    "tallocr_inv caps' s' (live @ (c, off, ?z) # [])" "dt_alignment s' = al" "take (length caps) caps' = caps"
    using alloc_inv[OF inv, of n] n lim al by auto
  have aok: "align_ok al" using tallocr_invD(1)[OF inv] al by simp
  have "0 < unat ?z" using round_up_correct(5)[OF aok n(1)] .
  then obtain s'' where r: "ggml_dyn_tallocr_free_bytes s' \<lparr>ba_chunk = int c, ba_offset = off\<rparr> ?z = Some s''"
    "tallocr_inv caps' s'' live"
    using give_back_inv[OF a(2), of 0] n(2) by (auto simp: MAX_LIVE_def MAX_FREE_BLOCKS_def)
  have "region_alloc s n = Some ((c, off, ?z), s')"
    using a(1) aligned_offset_round[OF aok] al by (simp add: region_alloc_def)
  moreover have "region_release s' (c, off, ?z) = Some s''" using r(1) by (simp add: region_release_def)
  ultimately show ?thesis using same_free_lists[OF inv r(2) a(4)] by blast
qed

lemma dyn_tallocr_restore_witness:
  "\<exists>s live r s' s''. tallocr_run [Alloc 100, Alloc 64, Alloc 200, Free 1] 32 4096 = Some (s, live)
    \<and> region_alloc s 50 = Some (r, s') \<and> region_release s' r = Some s''
    \<and> take (length (dt_chunks s)) (map fblocks (dt_chunks s'')) = map fblocks (dt_chunks s)"
proof -
  have ops: "admissible 32 ([Alloc 100, Alloc 64, Alloc 200, Free 1] @ [Alloc 50])"
    by (simp add: admissible_def align_ok_def size_ok_def round_size_def round_up_def drop_at_def MAX_LIVE_def MAX_FREE_BLOCKS_def)
  obtain s live where run: "tallocr_run [Alloc 100, Alloc 64, Alloc 200, Free 1] 32 4096 = Some (s, live)"
    using run_reaches[OF admissible_prefix[OF ops], of 4096] by blast
  show ?thesis using dyn_tallocr_restore[OF ops run] run by blast
qed

text \<open>
  After any admissible sequence, an allocation opens a new chunk only when no free block of
  any chunk is large enough for the rounded size; otherwise the number of chunks stays.
\<close>

lemma dyn_tallocr_reuse:
  assumes ops: "admissible al (ops @ [Alloc n])" and run: "tallocr_run ops al m = Some (s, live)"
    and fit: "ck \<in> set (dt_chunks s)" "b \<in> set (fblocks ck)" "round_up al n \<le> fb_size b"
  shows "\<exists>addr s'. ggml_dyn_tallocr_alloc s n = Some (addr, s') \<and> length (dt_chunks s') = length (dt_chunks s)"
proof -
  obtain caps where al: "dt_alignment s = al" and inv: "tallocr_inv caps s live"
    and n: "size_ok al n" "length live < MAX_LIVE" "last_used s + unat (round_up al n) \<le> 2 ^ 63 - 1"
    using reached_room[OF ops run] by blast
  have lim: "length live + 1 < MAX_FREE_BLOCKS" using n(2) by (simp add: MAX_LIVE_def)
  have "\<not> no_block_fits (round_up al n) s" using fit by (auto simp: no_block_fits_def)
  then show ?thesis using alloc_inv[OF inv, of n] n lim al by auto
qed

lemma demo_run:
  "map_option (\<lambda>(s, live). map fblocks (dt_chunks s)) (tallocr_run [Alloc 100] 32 4096)
     = Some [[\<lparr>fb_offset = 128, fb_size = 3968\<rparr>]]"
  by code_simp

lemma dyn_tallocr_reuse_witness:
  "\<exists>s live addr s'. tallocr_run [Alloc 100] 32 4096 = Some (s, live) \<and> dt_chunks s \<noteq> []
     \<and> ggml_dyn_tallocr_alloc s 50 = Some (addr, s') \<and> length (dt_chunks s') = length (dt_chunks s)"
proof -
  have ops: "admissible 32 ([Alloc 100] @ [Alloc 50])"
    by (simp add: admissible_def align_ok_def size_ok_def round_size_def round_up_def MAX_LIVE_def MAX_FREE_BLOCKS_def)
  obtain s live where run: "tallocr_run [Alloc 100] 32 4096 = Some (s, live)"
    and F: "map fblocks (dt_chunks s) = [[\<lparr>fb_offset = 128, fb_size = 3968\<rparr>]]"
    using demo_run by auto
  then obtain ck where ck: "ck \<in> set (dt_chunks s)" "\<lparr>fb_offset = 128, fb_size = 3968\<rparr> \<in> set (fblocks ck)" by auto
  have "round_up 32 50 \<le> fb_size \<lparr>fb_offset = 128, fb_size = 3968\<rparr>" by (simp add: round_up_def)
  from dyn_tallocr_reuse[OF ops run ck this] show ?thesis using run ck(1) by fastforce
qed

section \<open>Outside the intended behaviour\<close>

text \<open>
  The search for the best fit starts afresh in each chunk, so it returns the best block of the
  last chunk that has one, not the best of all: here a block of exactly 64 bytes is free in
  chunk 0, and the request for 64 bytes splits a block of 160 bytes of chunk 1.
\<close>

lemma best_fit_of_last_chunk:
  "map_option (\<lambda>(s, live). (map (map fb_size \<circ> fblocks) (dt_chunks s)))
     (tallocr_run [Alloc 64, Alloc 64, Alloc 160, Alloc 64, Alloc 64, Alloc 32, Free 0, Free 1, Free 1] 32 256)
     = Some [[64, 64], [160, 64]]"
  "map_option (\<lambda>(s, live). last live)
     (tallocr_run [Alloc 64, Alloc 64, Alloc 160, Alloc 64, Alloc 64, Alloc 32, Free 0, Free 1, Free 1, Alloc 64] 32 256)
     = Some (1, 0, 64)"
  by code_simp+

text \<open>
  A region of size 0 may be released inside a region that was allocated at its offset in the
  meantime. It then stays as an empty block, and the list is not sorted any more; after one
  more allocation and release two adjacent blocks remain unmerged though nothing is in use.
\<close>

lemma zero_size_breaks_order:
  "map_option (\<lambda>(s, live). (map fblocks (dt_chunks s), live))
     (tallocr_run [Alloc 32, Alloc 0, Free 0, Alloc 96, Free 0, Free 0] 32 4096)
     = Some ([[\<lparr>fb_offset = 32, fb_size = 0\<rparr>, \<lparr>fb_offset = 0, fb_size = 4096\<rparr>]], [])"
  "map_option (\<lambda>(s, live). (map fblocks (dt_chunks s), live))
     (tallocr_run [Alloc 32, Alloc 0, Free 0, Alloc 96, Free 0, Free 0, Alloc 32, Free 0] 32 4096)
     = Some ([[\<lparr>fb_offset = 0, fb_size = 32\<rparr>, \<lparr>fb_offset = 32, fb_size = 4064\<rparr>]], [])"
  by code_simp+

end
