(* ===== verification/Gallocr.thy ===== *)
theory Gallocr
  imports Tallocr_Safe
begin

text \<open>
  The graph allocator of ggml (\<open>ggml_gallocr\<close> of \<open>src/ggml/src/ggml-alloc.c\<close>). Before a compute
  graph runs, \<open>ggml_gallocr_alloc_graph_impl\<close> walks through its nodes in order and decides where
  every tensor lives: it allocates a node when it is reached, lets it take over the memory of a
  parent that is not needed any more, and gives memory back after the last use.

  A tensor pointer is a number, \<open>NULL\<close> is \<open>None\<close>; the tensors are a function from these numbers,
  and only the members that the allocator reads are kept. The hash table of the allocator, which
  is cleared before it is filled, is a function from tensors to \<open>hash_node\<close>s that is all zero at
  first. Buffer types are numbers too; allocators of equal buffer types are shared, so a buffer id
  leads to an allocator through the index \<open>ga_buf_tallocs\<close>. What a backend reports as the size of a
  tensor (\<open>ggml_backend_buft_get_alloc_size\<close>) is the parameter \<open>asz\<close>.
\<close>

section \<open>Tensors and graphs\<close>

datatype ggml_op =
    GGML_OP_NONE | GGML_OP_FILL | GGML_OP_SCALE | GGML_OP_DIAG_MASK_ZERO | GGML_OP_DIAG_MASK_INF
  | GGML_OP_ADD | GGML_OP_ADD_ID | GGML_OP_ADD1 | GGML_OP_SUB | GGML_OP_MUL | GGML_OP_DIV
  | GGML_OP_SQR | GGML_OP_SQRT | GGML_OP_LOG | GGML_OP_UNARY | GGML_OP_ROPE | GGML_OP_ROPE_BACK
  | GGML_OP_SILU_BACK | GGML_OP_RMS_NORM | GGML_OP_RMS_NORM_BACK | GGML_OP_SOFT_MAX | GGML_OP_SOFT_MAX_BACK
  | GGML_OP_other nat \<comment> \<open>any other enumerator\<close>

definition ggml_op_can_inplace :: "ggml_op \<Rightarrow> bool" where
  "ggml_op_can_inplace op = (case op of GGML_OP_NONE \<Rightarrow> False | GGML_OP_other _ \<Rightarrow> False | _ \<Rightarrow> True)"

definition GGML_MAX_SRC :: nat where
  "GGML_MAX_SRC = 10"

definition GGML_TENSOR_FLAG_INPUT :: nat where
  "GGML_TENSOR_FLAG_INPUT = 1"

definition GGML_TENSOR_FLAG_OUTPUT :: nat where
  "GGML_TENSOR_FLAG_OUTPUT = 2"

record ggml_tensor =
  t_type :: int
  t_ne :: "int list"
  t_nb :: "size_t list"
  t_op :: ggml_op
  t_flags :: nat
  t_src :: "nat option list"
  t_view_src :: "nat option"
  t_data :: "size_t option"
  t_buffer :: "nat option"

type_synonym tensors = "nat \<Rightarrow> ggml_tensor"

record ggml_cgraph =
  cg_nodes :: "nat list"
  cg_leafs :: "nat list"

definition has_flag :: "ggml_tensor \<Rightarrow> nat \<Rightarrow> bool" where
  "has_flag t f \<longleftrightarrow> (t_flags t AND f) \<noteq> 0"

definition ggml_impl_is_view :: "ggml_tensor \<Rightarrow> bool" where
  "ggml_impl_is_view t \<longleftrightarrow> t_view_src t \<noteq> None"

definition ggml_are_same_layout :: "ggml_tensor \<Rightarrow> ggml_tensor \<Rightarrow> bool" where
  "ggml_are_same_layout a b \<longleftrightarrow> t_type a = t_type b \<and> t_ne a = t_ne b \<and> t_nb a = t_nb b"

section \<open>The allocator\<close>

record hash_node =
  n_children :: int
  n_views :: int
  hn_buffer_id :: int
  hn_addr :: buffer_address
  hn_allocated :: bool

definition hash_node_zero :: hash_node where
  "hash_node_zero = \<lparr>n_children = 0, n_views = 0, hn_buffer_id = 0,
     hn_addr = \<lparr>ba_chunk = 0, ba_offset = 0\<rparr>, hn_allocated = False\<rparr>"

record tensor_alloc =
  ta_buffer_id :: int
  ta_addr :: buffer_address
  ta_size_max :: size_t

record node_alloc =
  na_dst :: tensor_alloc
  na_src :: "tensor_alloc list"

record ggml_gallocr =
  ga_bufts :: "nat list"
  ga_buf_tallocs :: "nat list"
  ga_tallocs :: "ggml_dyn_tallocr list"
  ga_hash :: "nat \<Rightarrow> hash_node"
  ga_node_allocs :: "node_alloc list"
  ga_leaf_allocs :: "tensor_alloc list"

text \<open>
  \<open>ggml_gallocr_new_n\<close>: equal buffer types share the allocator of the first one. \<open>balign\<close> and
  \<open>bmax\<close> are the alignment and the largest buffer of a buffer type.
\<close>

definition new_talloc :: "(nat \<Rightarrow> size_t) \<Rightarrow> (nat \<Rightarrow> size_t) \<Rightarrow> nat list \<Rightarrow> nat
    \<Rightarrow> nat list \<times> ggml_dyn_tallocr list \<Rightarrow> nat list \<times> ggml_dyn_tallocr list" where
  "new_talloc balign bmax bufts i = (\<lambda>(idx, tallocs).
     case find (\<lambda>j. bufts ! i = bufts ! j) [0..<i] of
       Some j \<Rightarrow> (idx @ [idx ! j], tallocs)
     | None \<Rightarrow> (idx @ [length tallocs], tallocs @ [ggml_dyn_tallocr_new (balign (bufts ! i)) (bmax (bufts ! i))]))"

definition ggml_gallocr_new_n :: "(nat \<Rightarrow> size_t) \<Rightarrow> (nat \<Rightarrow> size_t) \<Rightarrow> nat list \<Rightarrow> ggml_gallocr" where
  "ggml_gallocr_new_n balign bmax bufts =
     (let (idx, tallocs) = fold (new_talloc balign bmax bufts) [0..<length bufts] ([], [])
      in \<lparr>ga_bufts = bufts, ga_buf_tallocs = idx, ga_tallocs = tallocs, ga_hash = (\<lambda>_. hash_node_zero),
          ga_node_allocs = [], ga_leaf_allocs = []\<rparr>)"

definition ggml_gallocr_is_own :: "ggml_gallocr \<Rightarrow> nat \<Rightarrow> bool" where
  "ggml_gallocr_is_own g t = hn_allocated (ga_hash g t)"

definition ggml_gallocr_is_allocated :: "tensors \<Rightarrow> ggml_gallocr \<Rightarrow> nat \<Rightarrow> bool" where
  "ggml_gallocr_is_allocated T g t \<longleftrightarrow> t_data (T t) \<noteq> None \<or> t_buffer (T t) \<noteq> None \<or> ggml_gallocr_is_own g t"

definition upd_hash :: "nat \<Rightarrow> (hash_node \<Rightarrow> hash_node) \<Rightarrow> ggml_gallocr \<Rightarrow> ggml_gallocr" where
  "upd_hash t f g = g\<lparr>ga_hash := (ga_hash g)(t := f (ga_hash g t))\<rparr>"

text \<open>Indexing by a buffer id: its buffer type, and the allocator it uses.\<close>

definition buft_of :: "ggml_gallocr \<Rightarrow> int \<Rightarrow> nat option" where
  "buft_of g b = do { assert_that (0 \<le> b); vget (ga_bufts g) (nat b) }"

definition talloc_index :: "ggml_gallocr \<Rightarrow> int \<Rightarrow> nat option" where
  "talloc_index g b = do { assert_that (0 \<le> b); vget (ga_buf_tallocs g) (nat b) }"

definition on_talloc :: "int \<Rightarrow> (ggml_dyn_tallocr \<Rightarrow> ('a \<times> ggml_dyn_tallocr) option) \<Rightarrow> ggml_gallocr \<Rightarrow> ('a \<times> ggml_gallocr) option" where
  "on_talloc b f g = do {
     k \<leftarrow> talloc_index g b;
     s \<leftarrow> vget (ga_tallocs g) k;
     (x, s') \<leftarrow> f s;
     Some (x, g\<lparr>ga_tallocs := (ga_tallocs g)[k := s']\<rparr>) }"

definition ggml_gallocr_free_extra_space :: "(nat \<Rightarrow> nat \<Rightarrow> size_t) \<Rightarrow> nat \<Rightarrow> nat \<Rightarrow> ggml_gallocr \<Rightarrow> ggml_gallocr option" where
  "ggml_gallocr_free_extra_space asz node parent g = do {
     let hn = ga_hash g node;
     let p_hn = ga_hash g parent;
     pb \<leftarrow> buft_of g (hn_buffer_id p_hn);
     nb \<leftarrow> buft_of g (hn_buffer_id hn);
     let parent_size = asz pb parent;
     let node_size = asz nb node;
     assert_that (parent_size \<ge> node_size);
     (u, g') \<leftarrow> on_talloc (hn_buffer_id p_hn) (\<lambda>p_alloc. do {
       parent_size \<leftarrow> aligned_offset 0 parent_size (dt_alignment p_alloc);
       node_size \<leftarrow> aligned_offset 0 node_size (dt_alignment p_alloc);
       if parent_size > node_size then do {
         let p_addr = (hn_addr p_hn)\<lparr>ba_offset := ba_offset (hn_addr p_hn) + node_size\<rparr>;
         s' \<leftarrow> ggml_dyn_tallocr_free_bytes p_alloc p_addr (parent_size - node_size);
         Some ((), s') }
       else Some ((), p_alloc) }) g;
     Some g' }"

text \<open>
  The search for a parent whose memory the node can take over; the result says whether one was
  found.
\<close>

fun reuse_scan :: "tensors \<Rightarrow> (nat \<Rightarrow> nat \<Rightarrow> size_t) \<Rightarrow> nat \<Rightarrow> nat option list \<Rightarrow> ggml_gallocr \<Rightarrow> (bool \<times> ggml_gallocr) option" where
  "reuse_scan T asz node [] g = Some (False, g)"
| "reuse_scan T asz node (None # ps) g = reuse_scan T asz node ps g"
| "reuse_scan T asz node (Some parent # ps) g =
     (if \<not> ggml_gallocr_is_own g parent then reuse_scan T asz node ps g
      else if has_flag (T parent) GGML_TENSOR_FLAG_OUTPUT
           \<or> (case t_view_src (T parent) of None \<Rightarrow> False | Some v \<Rightarrow> has_flag (T v) GGML_TENSOR_FLAG_OUTPUT)
      then reuse_scan T asz node ps g
      else if \<not> ggml_are_same_layout (T node) (T parent) then reuse_scan T asz node ps g
      else let p_hn = ga_hash g parent in
        if n_children p_hn = 1 \<and> n_views p_hn = 0 then
          (case t_view_src (T parent) of
             Some view_src \<Rightarrow>
               (let view_src_hn = ga_hash g view_src in
                if n_views view_src_hn = 1 \<and> n_children view_src_hn = 0 \<and> t_data (T view_src) = t_data (T parent) then do {
                  assert_that (hn_addr view_src_hn = hn_addr p_hn);
                  let g = upd_hash node (\<lambda>hn. hn\<lparr>hn_buffer_id := hn_buffer_id p_hn, hn_addr := hn_addr p_hn\<rparr>) g;
                  let g = upd_hash parent (\<lambda>hn. hn\<lparr>hn_allocated := False\<rparr>) g;
                  let g = upd_hash view_src (\<lambda>hn. hn\<lparr>hn_allocated := False\<rparr>) g;
                  g \<leftarrow> ggml_gallocr_free_extra_space asz node view_src g;
                  Some (True, g) }
                else reuse_scan T asz node ps g)
           | None \<Rightarrow> do {
               let g = upd_hash node (\<lambda>hn. hn\<lparr>hn_buffer_id := hn_buffer_id p_hn, hn_addr := hn_addr p_hn\<rparr>) g;
               let g = upd_hash parent (\<lambda>hn. hn\<lparr>hn_allocated := False\<rparr>) g;
               g \<leftarrow> ggml_gallocr_free_extra_space asz node parent g;
               Some (True, g) })
        else reuse_scan T asz node ps g)"

definition ggml_gallocr_allocate_node :: "tensors \<Rightarrow> (nat \<Rightarrow> nat \<Rightarrow> size_t) \<Rightarrow> int \<Rightarrow> nat \<Rightarrow> ggml_gallocr \<Rightarrow> ggml_gallocr option" where
  "ggml_gallocr_allocate_node T asz buffer_id node g = do {
     assert_that (0 \<le> buffer_id);
     if \<not> ggml_gallocr_is_allocated T g node \<and> \<not> ggml_impl_is_view (T node) then do {
       let g = upd_hash node (\<lambda>hn. hn\<lparr>hn_allocated := True\<rparr>) g;
       assert_that (ba_offset (hn_addr (ga_hash g node)) = 0);
       (reused, g) \<leftarrow> (if ggml_op_can_inplace (t_op (T node)) then reuse_scan T asz node (t_src (T node)) g else Some (False, g));
       if reused then Some g
       else do {
         buft \<leftarrow> buft_of g buffer_id;
         let g = upd_hash node (\<lambda>hn. hn\<lparr>hn_buffer_id := buffer_id\<rparr>) g;
         (addr, g) \<leftarrow> on_talloc buffer_id (\<lambda>alloc. ggml_dyn_tallocr_alloc alloc (asz buft node)) g;
         Some (upd_hash node (\<lambda>hn. hn\<lparr>hn_addr := addr\<rparr>) g) } }
     else Some g }"

definition ggml_gallocr_free_node :: "tensors \<Rightarrow> (nat \<Rightarrow> nat \<Rightarrow> size_t) \<Rightarrow> nat \<Rightarrow> ggml_gallocr \<Rightarrow> ggml_gallocr option" where
  "ggml_gallocr_free_node T asz node g =
     (if has_flag (T node) GGML_TENSOR_FLAG_OUTPUT then Some g
      else do {
        let hn = ga_hash g node;
        buft \<leftarrow> buft_of g (hn_buffer_id hn);
        (u, g) \<leftarrow> on_talloc (hn_buffer_id hn) (\<lambda>alloc. do {
          s' \<leftarrow> ggml_dyn_tallocr_free_bytes alloc (hn_addr hn) (asz buft node); Some ((), s') }) g;
        Some (upd_hash node (\<lambda>hn. hn\<lparr>hn_allocated := False\<rparr>) g) })"

subsection \<open>Planning a graph\<close>

definition get_node_buffer_id :: "int list option \<Rightarrow> nat \<Rightarrow> int option" where
  "get_node_buffer_id ids i = (case ids of None \<Rightarrow> Some 0 | Some l \<Rightarrow> vget l i)"

text \<open>The first pass over the nodes: counting children and views, allocating inputs.\<close>

definition count_src :: "tensors \<Rightarrow> (nat \<Rightarrow> nat \<Rightarrow> size_t) \<Rightarrow> int \<Rightarrow> nat option \<Rightarrow> ggml_gallocr \<Rightarrow> ggml_gallocr option" where
  "count_src T asz buffer_id s g = (case s of None \<Rightarrow> Some g
     | Some src \<Rightarrow> do {
         let g = upd_hash src (\<lambda>hn. hn\<lparr>n_children := n_children hn + 1\<rparr>) g;
         if has_flag (T src) GGML_TENSOR_FLAG_INPUT then ggml_gallocr_allocate_node T asz buffer_id src g else Some g })"

definition count_view :: "tensors \<Rightarrow> nat \<Rightarrow> ggml_gallocr \<Rightarrow> ggml_gallocr" where
  "count_view T node g = (case t_view_src (T node) of
     Some view_src \<Rightarrow> (if t_op (T node) \<noteq> GGML_OP_NONE
       then upd_hash view_src (\<lambda>hn. hn\<lparr>n_views := n_views hn + 1\<rparr>) g else g)
   | None \<Rightarrow> g)"

definition count_node :: "tensors \<Rightarrow> (nat \<Rightarrow> nat \<Rightarrow> size_t) \<Rightarrow> int list option \<Rightarrow> nat list \<Rightarrow> nat \<Rightarrow> ggml_gallocr \<Rightarrow> ggml_gallocr option" where
  "count_node T asz ids nodes i g = do {
     node \<leftarrow> vget nodes i;
     buffer_id \<leftarrow> get_node_buffer_id ids i;
     let g = count_view T node g;
     g \<leftarrow> (if has_flag (T node) GGML_TENSOR_FLAG_INPUT then ggml_gallocr_allocate_node T asz buffer_id node g else Some g);
     ofold (count_src T asz buffer_id) (t_src (T node)) g }"

text \<open>The second pass: allocating the node and its parents, then releasing what was used last.\<close>

definition alloc_src :: "tensors \<Rightarrow> (nat \<Rightarrow> nat \<Rightarrow> size_t) \<Rightarrow> int \<Rightarrow> nat option \<Rightarrow> ggml_gallocr \<Rightarrow> ggml_gallocr option" where
  "alloc_src T asz buffer_id s g = (case s of None \<Rightarrow> Some g
     | Some parent \<Rightarrow> ggml_gallocr_allocate_node T asz buffer_id parent g)"

definition update_parent :: "tensors \<Rightarrow> (nat \<Rightarrow> nat \<Rightarrow> size_t) \<Rightarrow> nat option \<Rightarrow> ggml_gallocr \<Rightarrow> ggml_gallocr option" where
  "update_parent T asz s g = (case s of None \<Rightarrow> Some g
     | Some parent \<Rightarrow>
         (let g = upd_hash parent (\<lambda>hn. hn\<lparr>n_children := n_children hn - 1\<rparr>) g;
              p_hn = ga_hash g parent
          in if n_children p_hn = 0 \<and> n_views p_hn = 0 then
               (case t_view_src (T parent) of
                  Some view_src \<Rightarrow>
                    (let g = upd_hash view_src (\<lambda>hn. hn\<lparr>n_views := n_views hn - 1\<rparr>) g;
                         view_src_hn = ga_hash g view_src
                     in if n_views view_src_hn = 0 \<and> n_children view_src_hn = 0 \<and> hn_allocated view_src_hn
                        then ggml_gallocr_free_node T asz view_src g else Some g)
                | None \<Rightarrow> if hn_allocated p_hn then ggml_gallocr_free_node T asz parent g else Some g)
             else Some g))"

definition plan_alloc :: "tensors \<Rightarrow> (nat \<Rightarrow> nat \<Rightarrow> size_t) \<Rightarrow> int \<Rightarrow> nat \<Rightarrow> ggml_gallocr \<Rightarrow> ggml_gallocr option" where
  "plan_alloc T asz buffer_id node g = do {
     g \<leftarrow> ofold (alloc_src T asz buffer_id) (t_src (T node)) g;
     ggml_gallocr_allocate_node T asz buffer_id node g }"

definition plan_node :: "tensors \<Rightarrow> (nat \<Rightarrow> nat \<Rightarrow> size_t) \<Rightarrow> int list option \<Rightarrow> nat list \<Rightarrow> nat \<Rightarrow> ggml_gallocr \<Rightarrow> ggml_gallocr option" where
  "plan_node T asz ids nodes i g = do {
     node \<leftarrow> vget nodes i;
     buffer_id \<leftarrow> get_node_buffer_id ids i;
     g \<leftarrow> plan_alloc T asz buffer_id node g;
     ofold (update_parent T asz) (t_src (T node)) g }"

definition plan_leaf :: "tensors \<Rightarrow> (nat \<Rightarrow> nat \<Rightarrow> size_t) \<Rightarrow> int list option \<Rightarrow> nat list \<Rightarrow> nat \<Rightarrow> ggml_gallocr \<Rightarrow> ggml_gallocr option" where
  "plan_leaf T asz ids leafs i g = do {
     leaf \<leftarrow> vget leafs i;
     buffer_id \<leftarrow> get_node_buffer_id ids i;
     ggml_gallocr_allocate_node T asz buffer_id leaf g }"

definition ggml_gallocr_alloc_graph_impl :: "tensors \<Rightarrow> (nat \<Rightarrow> nat \<Rightarrow> size_t) \<Rightarrow> ggml_cgraph \<Rightarrow> int list option \<Rightarrow> int list option
    \<Rightarrow> ggml_gallocr \<Rightarrow> ggml_gallocr option" where
  "ggml_gallocr_alloc_graph_impl T asz graph node_ids leaf_ids g = do {
     let g = g\<lparr>ga_hash := (\<lambda>_. hash_node_zero)\<rparr>;
     g \<leftarrow> ofold (plan_leaf T asz leaf_ids (cg_leafs graph)) [0..<length (cg_leafs graph)] g;
     g \<leftarrow> ofold (count_node T asz node_ids (cg_nodes graph)) [0..<length (cg_nodes graph)] g;
     ofold (plan_node T asz node_ids (cg_nodes graph)) [0..<length (cg_nodes graph)] g }"

subsection \<open>Reserving\<close>

definition tensor_alloc_none :: tensor_alloc where
  "tensor_alloc_none = \<lparr>ta_buffer_id = - 1, ta_addr = GGML_BUFFER_ADDRESS_INVALID, ta_size_max = 0\<rparr>"

definition planned_alloc :: "tensors \<Rightarrow> (nat \<Rightarrow> nat \<Rightarrow> size_t) \<Rightarrow> ggml_gallocr \<Rightarrow> nat \<Rightarrow> tensor_alloc option" where
  "planned_alloc T asz g t =
     (if t_view_src (T t) \<noteq> None \<or> t_data (T t) \<noteq> None then Some tensor_alloc_none
      else do {
        let hn = ga_hash g t;
        buft \<leftarrow> buft_of g (hn_buffer_id hn);
        Some \<lparr>ta_buffer_id = hn_buffer_id hn, ta_addr = hn_addr hn, ta_size_max = asz buft t\<rparr> })"

fun omap :: "('a \<Rightarrow> 'b option) \<Rightarrow> 'a list \<Rightarrow> 'b list option" where
  "omap f [] = Some []"
| "omap f (x # xs) = do { y \<leftarrow> f x; ys \<leftarrow> omap f xs; Some (y # ys) }"

definition planned_src :: "tensors \<Rightarrow> (nat \<Rightarrow> nat \<Rightarrow> size_t) \<Rightarrow> ggml_gallocr \<Rightarrow> nat option \<Rightarrow> tensor_alloc option" where
  "planned_src T asz g s = (case s of None \<Rightarrow> Some tensor_alloc_none | Some src \<Rightarrow> planned_alloc T asz g src)"

definition planned_node :: "tensors \<Rightarrow> (nat \<Rightarrow> nat \<Rightarrow> size_t) \<Rightarrow> ggml_gallocr \<Rightarrow> nat \<Rightarrow> node_alloc option" where
  "planned_node T asz g node = do {
     dst \<leftarrow> planned_alloc T asz g node;
     src \<leftarrow> omap (planned_src T asz g) (t_src (T node));
     Some \<lparr>na_dst = dst, na_src = src\<rparr> }"

text \<open>
  The planning part of \<open>ggml_gallocr_reserve_n_impl\<close>, without the allocation of the backend
  buffers that follows.
\<close>

definition reserve_plan :: "tensors \<Rightarrow> (nat \<Rightarrow> nat \<Rightarrow> size_t) \<Rightarrow> ggml_cgraph \<Rightarrow> int list option \<Rightarrow> int list option
    \<Rightarrow> ggml_gallocr \<Rightarrow> ggml_gallocr option" where
  "reserve_plan T asz graph node_ids leaf_ids g = do {
     let g = g\<lparr>ga_tallocs := map ggml_dyn_tallocr_reset (ga_tallocs g)\<rparr>;
     g \<leftarrow> ggml_gallocr_alloc_graph_impl T asz graph node_ids leaf_ids g;
     node_allocs \<leftarrow> omap (planned_node T asz g) (cg_nodes graph);
     leaf_allocs \<leftarrow> omap (planned_alloc T asz g) (cg_leafs graph);
     Some (g\<lparr>ga_node_allocs := node_allocs, ga_leaf_allocs := leaf_allocs\<rparr>) }"

text \<open>\<open>ggml_gallocr_node_needs_realloc\<close>, which is true when the planned place is still large enough.\<close>

definition ggml_gallocr_node_needs_realloc :: "tensors \<Rightarrow> (nat \<Rightarrow> nat \<Rightarrow> size_t) \<Rightarrow> ggml_gallocr \<Rightarrow> nat \<Rightarrow> tensor_alloc \<Rightarrow> bool option" where
  "ggml_gallocr_node_needs_realloc T asz g node talloc =
     (if t_data (T node) = None \<and> t_view_src (T node) = None then
        if ta_buffer_id talloc < 0 then Some False
        else do { buft \<leftarrow> buft_of g (ta_buffer_id talloc); Some (ta_size_max talloc \<ge> asz buft node) }
      else Some True)"

fun srcs_valid :: "tensors \<Rightarrow> (nat \<Rightarrow> nat \<Rightarrow> size_t) \<Rightarrow> ggml_gallocr \<Rightarrow> nat option list \<Rightarrow> tensor_alloc list \<Rightarrow> bool option" where
  "srcs_valid T asz g [] as = Some True"
| "srcs_valid T asz g (s # ss) [] = None"
| "srcs_valid T asz g (None # ss) (a # as) = srcs_valid T asz g ss as"
| "srcs_valid T asz g (Some src # ss) (a # as) = do {
     v \<leftarrow> ggml_gallocr_node_needs_realloc T asz g src a;
     if \<not> v then Some False else srcs_valid T asz g ss as }"

fun nodes_valid :: "tensors \<Rightarrow> (nat \<Rightarrow> nat \<Rightarrow> size_t) \<Rightarrow> ggml_gallocr \<Rightarrow> nat list \<Rightarrow> node_alloc list \<Rightarrow> bool option" where
  "nodes_valid T asz g [] as = Some True"
| "nodes_valid T asz g (node # ns) [] = None"
| "nodes_valid T asz g (node # ns) (a # as) = do {
     v \<leftarrow> ggml_gallocr_node_needs_realloc T asz g node (na_dst a);
     if \<not> v then Some False
     else do {
       w \<leftarrow> srcs_valid T asz g (t_src (T node)) (na_src a);
       if \<not> w then Some False else nodes_valid T asz g ns as } }"

definition ggml_gallocr_needs_realloc :: "tensors \<Rightarrow> (nat \<Rightarrow> nat \<Rightarrow> size_t) \<Rightarrow> ggml_cgraph \<Rightarrow> ggml_gallocr \<Rightarrow> bool option" where
  "ggml_gallocr_needs_realloc T asz graph g =
     (if length (ga_node_allocs g) \<noteq> length (cg_nodes graph) then Some True
      else if length (ga_leaf_allocs g) \<noteq> length (cg_leafs graph) then Some True
      else do { v \<leftarrow> nodes_valid T asz g (cg_nodes graph) (ga_node_allocs g); Some (\<not> v) })"

end
