(* ===== verification/Gallocr_Inv.thy ===== *)
theory Gallocr_Inv
  imports Gallocr
begin

text \<open>
  The graph allocator and the regions of the tensor allocators. \<open>plan_inv\<close> says that in every
  tensor allocator the regions in use are exactly those of the tensors marked as allocated, so
  that no two such tensors share a byte. Allocating a node (afresh or in the place of a parent)
  and freeing one keep it, whenever they return.
\<close>

section \<open>Steps of one tensor allocator that return\<close>

lemma tallocr_ok_alloc:
  assumes "tallocr_ok al s live" "size_ok al n" "ggml_dyn_tallocr_alloc s n = Some (addr, s')"
  shows "0 \<le> ba_chunk addr" "tallocr_ok al s' (live @ [(nat (ba_chunk addr), ba_offset addr, round_up al n)])"
proof -
  obtain caps where inv: "tallocr_inv caps s live" and al: "dt_alignment s = al"
    using assms(1) by (auto simp: tallocr_ok_def)
  show "0 \<le> ba_chunk addr" "tallocr_ok al s' (live @ [(nat (ba_chunk addr), ba_offset addr, round_up al n)])"
    using alloc_inv[OF inv, of n] assms(2,3) al by (auto simp: tallocr_ok_def)
qed

lemma free_bytes_round:
  assumes "align_ok (dt_alignment s)" "size_ok (dt_alignment s) m"
  shows "ggml_dyn_tallocr_free_bytes s addr (round_up (dt_alignment s) m) = ggml_dyn_tallocr_free_bytes s addr m"
proof -
  have "aligned_offset 0 (round_up (dt_alignment s) m) (dt_alignment s) = aligned_offset 0 m (dt_alignment s)"
    using aligned_offset_round[OF assms(1)] round_up_multiple[OF assms(1)] round_up_correct(1)[OF assms] by simp
  then show ?thesis by (simp add: ggml_dyn_tallocr_free_bytes_def)
qed

lemma tallocr_ok_release:
  assumes ok: "tallocr_ok al s (A @ (c, a, round_up al m) # B)" and m: "size_ok al m"
    and run: "ggml_dyn_tallocr_free_bytes s \<lparr>ba_chunk = int c, ba_offset = a\<rparr> m = Some s'"
  shows "tallocr_ok al s' (A @ B)"
proof -
  obtain caps where inv: "tallocr_inv caps s (A @ (c, a, round_up al m) # B)" and al: "dt_alignment s = al"
    using ok by (auto simp: tallocr_ok_def)
  have aok: "align_ok al" using tallocr_invD(1)[OF inv] al by simp
  have run': "ggml_dyn_tallocr_free_bytes s \<lparr>ba_chunk = int c, ba_offset = a\<rparr> (round_up al m) = Some s'"
    using free_bytes_round[of s m] aok m al run by simp
  have "0 < unat (round_up al m)" using round_up_correct(5)[OF aok m] .
  then show ?thesis
    using give_back_inv[OF inv, of 0] run' al by (auto simp: tallocr_ok_def)
qed

lemma tallocr_ok_shrink:
  assumes ok: "tallocr_ok al s (A @ (c, a, n) # B)" and m: "size_ok al m" "round_up al m < n"
    and run: "ggml_dyn_tallocr_free_bytes s \<lparr>ba_chunk = int c, ba_offset = a + round_up al m\<rparr> (n - round_up al m) = Some s'"
  shows "tallocr_ok al s' (A @ (c, a, round_up al m) # B)"
proof -
  obtain caps where inv: "tallocr_inv caps s (A @ (c, a, n) # B)" and al: "dt_alignment s = al"
    using ok by (auto simp: tallocr_ok_def)
  have aok: "align_ok al" using tallocr_invD(1)[OF inv] al by simp
  have k: "unat al dvd unat (round_up al m)" "0 < unat (round_up al m)" "unat (round_up al m) < unat n"
    using round_up_correct[OF aok m(1)] m(2) by (auto simp: word_less_nat_alt)
  then have "round_up al m \<noteq> 0" by (metis unat_0 less_irrefl)
  then show ?thesis
    using give_back_inv[OF inv, of "round_up al m"] run k al by (auto simp: tallocr_ok_def)
qed

lemma round_up_mono:
  assumes "align_ok al" "size_ok al m" "size_ok al n" "m \<le> n"
  shows "round_up al m \<le> round_up al n"
proof (rule ccontr)
  let ?A = "unat al" and ?m = "unat (round_up al m)" and ?n = "unat (round_up al n)"
  assume "\<not> round_up al m \<le> round_up al n"
  then have "?n < ?m" by (simp add: word_le_nat_alt)
  moreover have "?A dvd ?n" "?A dvd ?m" using round_up_correct(1)[OF assms(1)] assms(2,3) by auto
  then have "?A dvd ?m - ?n" by (intro dvd_diff_nat)
  ultimately have "?A \<le> ?m - ?n" by (intro dvd_imp_le) auto
  moreover have "unat m \<le> unat n" "unat n \<le> ?n" "?m < unat m + ?A"
    using assms(4) round_up_correct[OF assms(1)] assms(2,3) by (auto simp: word_le_nat_alt)
  ultimately show False using \<open>?n < ?m\<close> by linarith
qed

section \<open>The invariant\<close>

definition own :: "tensors \<Rightarrow> nat \<Rightarrow> bool" where
  "own T t \<longleftrightarrow> t_data (T t) = None \<and> t_buffer (T t) = None \<and> t_view_src (T t) = None"

abbreviation hbuf :: "ggml_gallocr \<Rightarrow> nat \<Rightarrow> nat" where
  "hbuf g t \<equiv> nat (hn_buffer_id (ga_hash g t))"

definition talloc_of :: "ggml_gallocr \<Rightarrow> nat \<Rightarrow> nat" where
  "talloc_of g t = ga_buf_tallocs g ! hbuf g t"

definition alignment :: "ggml_gallocr \<Rightarrow> nat \<Rightarrow> size_t" where
  "alignment g k = dt_alignment (ga_tallocs g ! k)"

definition planned_size :: "(nat \<Rightarrow> nat \<Rightarrow> size_t) \<Rightarrow> ggml_gallocr \<Rightarrow> nat \<Rightarrow> size_t" where
  "planned_size asz g t = asz (ga_bufts g ! hbuf g t) t"

definition tensor_region :: "(nat \<Rightarrow> nat \<Rightarrow> size_t) \<Rightarrow> ggml_gallocr \<Rightarrow> nat \<Rightarrow> tregion" where
  "tensor_region asz g t = (nat (ba_chunk (hn_addr (ga_hash g t))), ba_offset (hn_addr (ga_hash g t)),
     round_up (alignment g (talloc_of g t)) (planned_size asz g t))"

definition allocated_in :: "ggml_gallocr \<Rightarrow> nat \<Rightarrow> nat set" where
  "allocated_in g k = {t. hn_allocated (ga_hash g t) \<and> talloc_of g t = k}"

definition config_ok :: "(nat \<Rightarrow> nat \<Rightarrow> size_t) \<Rightarrow> ggml_gallocr \<Rightarrow> bool" where
  "config_ok asz g \<longleftrightarrow> length (ga_buf_tallocs g) = length (ga_bufts g)
     \<and> (\<forall>k \<in> set (ga_buf_tallocs g). k < length (ga_tallocs g))
     \<and> (\<forall>b < length (ga_bufts g). \<forall>t. size_ok (alignment g (ga_buf_tallocs g ! b)) (asz (ga_bufts g ! b) t))"

definition hash_ok :: "tensors \<Rightarrow> ggml_gallocr \<Rightarrow> bool" where
  "hash_ok T g \<longleftrightarrow> (\<forall>t. hn_allocated (ga_hash g t) \<longrightarrow> own T t \<and> 0 \<le> hn_buffer_id (ga_hash g t)
     \<and> hbuf g t < length (ga_bufts g) \<and> 0 \<le> ba_chunk (hn_addr (ga_hash g t)))"

definition regions_ok :: "(nat \<Rightarrow> nat \<Rightarrow> size_t) \<Rightarrow> ggml_gallocr \<Rightarrow> bool" where
  "regions_ok asz g \<longleftrightarrow> (\<exists>ts. \<forall>k < length (ga_tallocs g).
     tallocr_ok (alignment g k) (ga_tallocs g ! k) (map (tensor_region asz g) (ts k))
     \<and> distinct (ts k) \<and> set (ts k) = allocated_in g k)"

definition plan_inv :: "tensors \<Rightarrow> (nat \<Rightarrow> nat \<Rightarrow> size_t) \<Rightarrow> ggml_gallocr \<Rightarrow> bool" where
  "plan_inv T asz g \<longleftrightarrow> config_ok asz g \<and> hash_ok T g \<and> regions_ok asz g"

text \<open>What the invariant is for: tensors that are allocated do not overlap.\<close>

definition placed :: "(nat \<Rightarrow> nat \<Rightarrow> size_t) \<Rightarrow> ggml_gallocr \<Rightarrow> nat \<Rightarrow> (nat \<times> nat \<times> nat) set" where
  "placed asz g t = {talloc_of g t} \<times> region_space (tensor_region asz g t)"

lemma plan_disjoint:
  assumes "plan_inv T asz g" "hn_allocated (ga_hash g x)" "hn_allocated (ga_hash g y)" "x \<noteq> y"
  shows "placed asz g x \<inter> placed asz g y = {}"
proof (cases "talloc_of g x = talloc_of g y")
  case False
  then show ?thesis by (auto simp: placed_def)
next
  case True
  define k where "k = talloc_of g x"
  have "hbuf g x < length (ga_buf_tallocs g)"
    using assms(1,2) by (auto simp: plan_inv_def hash_ok_def config_ok_def)
  then have k: "k < length (ga_tallocs g)"
    using assms(1) by (auto simp: plan_inv_def config_ok_def k_def talloc_of_def)
  obtain ts where ts: "tallocr_ok (alignment g k) (ga_tallocs g ! k) (map (tensor_region asz g) (ts k))"
    "distinct (ts k)" "set (ts k) = allocated_in g k"
    using assms(1) k by (auto simp: plan_inv_def regions_ok_def)
  obtain caps where inv: "tallocr_inv caps (ga_tallocs g ! k) (map (tensor_region asz g) (ts k))"
    using ts(1) by (auto simp: tallocr_ok_def)
  have "x \<in> set (ts k)" "y \<in> set (ts k)"
    using ts(3) assms(2,3) True by (auto simp: allocated_in_def k_def)
  then obtain i j where ij: "i < length (ts k)" "j < length (ts k)" "ts k ! i = x" "ts k ! j = y"
    by (metis in_set_conv_nth)
  have "region_space (tensor_region asz g (ts k ! a)) \<inter> region_space (tensor_region asz g (ts k ! b)) = {}"
    if "a < b" "b < length (ts k)" for a b
    using inv that by (auto simp: tallocr_inv_def sorted_wrt_iff_nth_less)
  from this[of i j] this[of j i] have "region_space (tensor_region asz g x) \<inter> region_space (tensor_region asz g y) = {}"
    using ij assms(4) by (cases i j rule: linorder_cases) auto
  then show ?thesis by (auto simp: placed_def)
qed

section \<open>Frame lemmas\<close>

text \<open>Two states with the same configuration; only the hash table and the allocators differ.\<close>

definition same_config :: "ggml_gallocr \<Rightarrow> ggml_gallocr \<Rightarrow> bool" where
  "same_config g g' \<longleftrightarrow> ga_bufts g' = ga_bufts g \<and> ga_buf_tallocs g' = ga_buf_tallocs g
     \<and> length (ga_tallocs g') = length (ga_tallocs g) \<and> (\<forall>k. alignment g' k = alignment g k)"

lemma same_config_refl [simp]: "same_config g g"
  by (simp add: same_config_def)

lemma same_config_trans: "\<lbrakk>same_config g g'; same_config g' g''\<rbrakk> \<Longrightarrow> same_config g g''"
  by (simp add: same_config_def)

lemma upd_hash_simps [simp]:
  "ga_bufts (upd_hash t f g) = ga_bufts g" "ga_buf_tallocs (upd_hash t f g) = ga_buf_tallocs g"
  "ga_tallocs (upd_hash t f g) = ga_tallocs g" "ga_hash (upd_hash t f g) = (ga_hash g)(t := f (ga_hash g t))"
  "alignment (upd_hash t f g) k = alignment g k" "buft_of (upd_hash t f g) b = buft_of g b"
  "talloc_index (upd_hash t f g) b = talloc_index g b"
  by (simp_all add: upd_hash_def alignment_def buft_of_def talloc_index_def fun_upd_def)

lemma same_config_upd [simp]: "same_config g (upd_hash t f g)"
  by (simp add: same_config_def)

lemma config_ok_same:
  assumes "config_ok asz g" "same_config g g'"
  shows "config_ok asz g'"
  using assms nth_mem[of _ "ga_buf_tallocs g"] unfolding config_ok_def same_config_def by auto

lemma buft_of_Some: "buft_of g b = Some x \<longleftrightarrow> 0 \<le> b \<and> nat b < length (ga_bufts g) \<and> x = ga_bufts g ! nat b"
  by (auto simp: buft_of_def)

lemma on_talloc_Some:
  "on_talloc b f g = Some (x, g') \<longleftrightarrow> 0 \<le> b \<and> nat b < length (ga_buf_tallocs g)
     \<and> (let k = ga_buf_tallocs g ! nat b in k < length (ga_tallocs g)
        \<and> (\<exists>s'. f (ga_tallocs g ! k) = Some (x, s') \<and> g' = g\<lparr>ga_tallocs := (ga_tallocs g)[k := s']\<rparr>))"
  by (auto simp: on_talloc_def talloc_index_def bind_eq_Some_conv Let_def split: if_splits)

definition upd_talloc :: "nat \<Rightarrow> ggml_dyn_tallocr \<Rightarrow> (nat \<Rightarrow> hash_node) \<Rightarrow> ggml_gallocr \<Rightarrow> ggml_gallocr" where
  "upd_talloc k s h g = g\<lparr>ga_tallocs := (ga_tallocs g)[k := s], ga_hash := h\<rparr>"

lemma upd_talloc_simps [simp]:
  "ga_bufts (upd_talloc k s h g) = ga_bufts g" "ga_buf_tallocs (upd_talloc k s h g) = ga_buf_tallocs g"
  "ga_tallocs (upd_talloc k s h g) = (ga_tallocs g)[k := s]" "ga_hash (upd_talloc k s h g) = h"
  by (simp_all add: upd_talloc_def)

lemma upd_talloc_config:
  assumes "dt_alignment s = alignment g k"
  shows "same_config g (upd_talloc k s h g)"
proof -
  have "dt_alignment ((ga_tallocs g)[k := s] ! j) = dt_alignment (ga_tallocs g ! j)" for j
    using assms by (cases "k < length (ga_tallocs g)"; cases "j = k") (auto simp: alignment_def list_update_beyond)
  then show ?thesis by (simp add: same_config_def alignment_def)
qed

lemma tallocr_ok_alignment: "tallocr_ok al s live \<Longrightarrow> dt_alignment s = al \<and> align_ok al"
  using tallocr_invD(1) by (auto simp: tallocr_ok_def)

lemma talloc_of_lt: "\<lbrakk>config_ok asz g; hash_ok T g; hn_allocated (ga_hash g t)\<rbrakk> \<Longrightarrow> talloc_of g t < length (ga_tallocs g)"
  unfolding config_ok_def hash_ok_def talloc_of_def by auto

lemma region_frame:
  assumes "same_config g g'" "ga_hash g' t = ga_hash g t" "talloc_of g t < length (ga_tallocs g)"
  shows "talloc_of g' t = talloc_of g t" "tensor_region asz g' t = tensor_region asz g t" "planned_size asz g' t = planned_size asz g t"
  using assms by (auto simp: same_config_def talloc_of_def tensor_region_def planned_size_def)

lemma map_region_frame:
  assumes "same_config g g'" "\<And>t. t \<in> set xs \<Longrightarrow> ga_hash g' t = ga_hash g t \<and> talloc_of g t < length (ga_tallocs g)"
  shows "map (tensor_region asz g') xs = map (tensor_region asz g) xs"
  using region_frame(2)[OF assms(1)] assms(2) by (intro map_cong) auto

text \<open>Replacing one allocator and the entries of tensors that belong to it.\<close>

lemma regions_replace:
  assumes inv: "plan_inv T asz g" and k: "k < length (ga_tallocs g)"
    and ok: "tallocr_ok (alignment g k) s (map (tensor_region asz (upd_talloc k s h g)) ts')"
    and ts': "distinct ts'" "set ts' = allocated_in (upd_talloc k s h g) k"
    and same: "\<And>t. h t \<noteq> ga_hash g t \<Longrightarrow> (hn_allocated (ga_hash g t) \<longrightarrow> talloc_of g t = k)
      \<and> (hn_allocated (h t) \<longrightarrow> talloc_of (upd_talloc k s h g) t = k)"
  shows "regions_ok asz (upd_talloc k s h g)"
proof -
  let ?g = "upd_talloc k s h g"
  have cfg: "config_ok asz g" "hash_ok T g" using inv by (auto simp: plan_inv_def)
  have al: "dt_alignment s = alignment g k" using tallocr_ok_alignment[OF ok] by simp
  have sc: "same_config g ?g" by (rule upd_talloc_config[OF al])
  obtain ts where ts: "\<And>j. j < length (ga_tallocs g) \<Longrightarrow> tallocr_ok (alignment g j) (ga_tallocs g ! j) (map (tensor_region asz g) (ts j))
     \<and> distinct (ts j) \<and> set (ts j) = allocated_in g j"
    using inv by (auto simp: plan_inv_def regions_ok_def)
  have other: "allocated_in ?g j = allocated_in g j" "map (tensor_region asz ?g) (ts j) = map (tensor_region asz g) (ts j)"
    if j: "j < length (ga_tallocs g)" "j \<noteq> k" for j
  proof -
    have h: "ga_hash ?g t = ga_hash g t" if "t \<in> allocated_in g j \<or> t \<in> allocated_in ?g j" for t
      using same[of t] that j(2) by (auto simp: allocated_in_def)
    have "t \<in> allocated_in ?g j \<longleftrightarrow> t \<in> allocated_in g j" for t
      using h[of t] sc by (auto simp: allocated_in_def talloc_of_def same_config_def)
    then show "allocated_in ?g j = allocated_in g j" by blast
    show "map (tensor_region asz ?g) (ts j) = map (tensor_region asz g) (ts j)"
    proof (rule map_cong[OF refl])
      fix t assume "t \<in> set (ts j)"
      then have t: "t \<in> allocated_in g j" using ts[OF j(1)] by simp
      then have "talloc_of g t < length (ga_tallocs g)" using j(1) by (simp add: allocated_in_def)
      then show "tensor_region asz ?g t = tensor_region asz g t"
        using region_frame(2)[OF sc] h[of t] t by blast
    qed
  qed
  show ?thesis
    unfolding regions_ok_def
  proof (intro exI[of _ "ts(k := ts')"] allI impI)
    fix j assume "j < length (ga_tallocs ?g)"
    then have j: "j < length (ga_tallocs g)" by simp
    have alj: "alignment ?g j = alignment g j" using sc j by (simp add: same_config_def)
    show "tallocr_ok (alignment ?g j) (ga_tallocs ?g ! j) (map (tensor_region asz ?g) ((ts(k := ts')) j))
        \<and> distinct ((ts(k := ts')) j) \<and> set ((ts(k := ts')) j) = allocated_in ?g j"
    proof (cases "j = k")
      case True
      then show ?thesis using ok ts' k alj by simp
    next
      case False
      have e: "(ts(k := ts')) j = ts j" "ga_tallocs ?g ! j = ga_tallocs g ! j" using False by simp_all
      show ?thesis unfolding e alj other[OF j False] by (rule ts[OF j])
    qed
  qed
qed

lemma plan_inv_tensors:
  assumes inv: "plan_inv T asz g" and k: "k < length (ga_tallocs g)"
  obtains ts where "tallocr_ok (alignment g k) (ga_tallocs g ! k) (map (tensor_region asz g) ts)"
    "distinct ts" "set ts = allocated_in g k"
  using assms by (auto simp: plan_inv_def regions_ok_def)

section \<open>A fresh node\<close>

lemma fresh_inv:
  assumes inv: "plan_inv T asz g" and node: "own T node" "\<not> hn_allocated (ga_hash g node)"
    and b: "0 \<le> b" "nat b < length (ga_bufts g)" "k = ga_buf_tallocs g ! nat b"
    and run: "ggml_dyn_tallocr_alloc (ga_tallocs g ! k) (asz (ga_bufts g ! nat b) node) = Some (addr, s')"
  shows "plan_inv T asz (upd_talloc k s' ((ga_hash g)(node := (ga_hash g node)\<lparr>hn_allocated := True, hn_buffer_id := b, hn_addr := addr\<rparr>)) g)"
proof -
  let ?h = "(ga_hash g)(node := (ga_hash g node)\<lparr>hn_allocated := True, hn_buffer_id := b, hn_addr := addr\<rparr>)"
  let ?g = "upd_talloc k s' ?h g"
  have cfg: "config_ok asz g" "hash_ok T g" using inv by (auto simp: plan_inv_def)
  have k: "k < length (ga_tallocs g)" using cfg(1) b by (auto simp: config_ok_def)
  obtain ts where ts: "tallocr_ok (alignment g k) (ga_tallocs g ! k) (map (tensor_region asz g) ts)"
    "distinct ts" "set ts = allocated_in g k"
    using plan_inv_tensors[OF inv k] .
  have sz: "size_ok (alignment g k) (asz (ga_bufts g ! nat b) node)"
    using cfg(1) b by (simp add: config_ok_def)
  note a = tallocr_ok_alloc[OF ts(1) sz run]
  have sc: "same_config g ?g" using upd_talloc_config tallocr_ok_alignment[OF a(2)] by blast
  have notin: "node \<notin> set ts" using ts(3) node(2) by (simp add: allocated_in_def)
  have "map (tensor_region asz ?g) ts = map (tensor_region asz g) ts"
    by (rule map_region_frame[OF sc]) (use notin ts(3) k in \<open>auto simp: allocated_in_def\<close>)
  moreover have "tensor_region asz ?g node = (nat (ba_chunk addr), ba_offset addr, round_up (alignment g k) (asz (ga_bufts g ! nat b) node))"
    using sc k b(3) by (simp add: tensor_region_def talloc_of_def planned_size_def same_config_def)
  ultimately have ok: "tallocr_ok (alignment g k) s' (map (tensor_region asz ?g) (ts @ [node]))"
    using a(2) by (simp only: map_append list.map)
  have set_eq: "set (ts @ [node]) = allocated_in ?g k"
    using ts(3) b(3) by (auto simp: allocated_in_def talloc_of_def)
  have same: "(hn_allocated (ga_hash g t) \<longrightarrow> talloc_of g t = k) \<and> (hn_allocated (?h t) \<longrightarrow> talloc_of ?g t = k)"
    if "?h t \<noteq> ga_hash g t" for t
    using that node(2) b(3) by (cases "t = node") (auto simp: talloc_of_def)
  have "regions_ok asz ?g"
    by (rule regions_replace[OF inv k ok _ set_eq same]) (use ts(2) notin in auto)
  moreover have "hash_ok T ?g" using cfg(2) node(1) b a(1) by (auto simp: hash_ok_def)
  ultimately show ?thesis using config_ok_same[OF cfg(1) sc] by (simp add: plan_inv_def)
qed

section \<open>Taking over a parent\<close>

lemma take_over_inv:
  assumes inv: "plan_inv T asz g" and node: "own T node" "\<not> hn_allocated (ga_hash g node)"
    and p: "hn_allocated (ga_hash g p)"
    and h: "h = (ga_hash g)(node := (ga_hash g node)\<lparr>hn_allocated := True, hn_buffer_id := hn_buffer_id (ga_hash g p), hn_addr := hn_addr (ga_hash g p)\<rparr>,
         p := (ga_hash g p)\<lparr>hn_allocated := False\<rparr>)"
    and le: "asz (ga_bufts g ! hbuf g p) node \<le> asz (ga_bufts g ! hbuf g p) p"
    and z: "z = round_up (alignment g (talloc_of g p)) (asz (ga_bufts g ! hbuf g p) node)"
    and run: "if z < round_up (alignment g (talloc_of g p)) (planned_size asz g p)
       then ggml_dyn_tallocr_free_bytes (ga_tallocs g ! talloc_of g p)
         ((hn_addr (ga_hash g p))\<lparr>ba_offset := ba_offset (hn_addr (ga_hash g p)) + z\<rparr>)
         (round_up (alignment g (talloc_of g p)) (planned_size asz g p) - z) = Some s'
       else s' = ga_tallocs g ! talloc_of g p"
  shows "plan_inv T asz (upd_talloc (talloc_of g p) s' h g)"
proof -
  define k where "k = talloc_of g p"
  define al where "al = alignment g k"
  let ?g = "upd_talloc k s' h g" and ?n = "round_up al (planned_size asz g p)" and ?addr = "hn_addr (ga_hash g p)"
  have np: "node \<noteq> p" using node(2) p by auto
  have cfg: "config_ok asz g" "hash_ok T g" using inv by (auto simp: plan_inv_def)
  have k: "k < length (ga_tallocs g)" using talloc_of_lt[OF cfg p] by (simp add: k_def)
  have pb: "0 \<le> hn_buffer_id (ga_hash g p)" "hbuf g p < length (ga_bufts g)" "0 \<le> ba_chunk ?addr" "own T p"
    using cfg(2) p by (auto simp: hash_ok_def)
  obtain ts where ts: "tallocr_ok al (ga_tallocs g ! k) (map (tensor_region asz g) ts)" "distinct ts" "set ts = allocated_in g k"
    using plan_inv_tensors[OF inv k] unfolding al_def by metis
  have aok: "align_ok al" "dt_alignment (ga_tallocs g ! k) = al" using tallocr_ok_alignment[OF ts(1)] by auto
  have "p \<in> set ts" using ts(3) p by (simp add: allocated_in_def k_def)
  then obtain A B where AB: "ts = A @ p # B" by (meson split_list)
  have sz: "size_ok al (asz (ga_bufts g ! hbuf g p) t)" for t
    using cfg(1) pb(2) by (simp add: config_ok_def al_def k_def talloc_of_def)
  have zle: "z \<le> ?n"
    using round_up_mono[OF aok(1) sz sz le] by (simp add: z al_def k_def planned_size_def)
  have preg: "tensor_region asz g p = (nat (ba_chunk ?addr), ba_offset ?addr, ?n)"
    by (simp add: tensor_region_def al_def k_def)
  have ok: "tallocr_ok al s' (map (tensor_region asz g) A @ (nat (ba_chunk ?addr), ba_offset ?addr, z) # map (tensor_region asz g) B)"
  proof (cases "z < ?n")
    case True
    have "?addr\<lparr>ba_offset := ba_offset ?addr + z\<rparr> = \<lparr>ba_chunk = int (nat (ba_chunk ?addr)), ba_offset = ba_offset ?addr + z\<rparr>"
      using pb(3) by simp
    then have "ggml_dyn_tallocr_free_bytes (ga_tallocs g ! k) \<lparr>ba_chunk = int (nat (ba_chunk ?addr)), ba_offset = ba_offset ?addr + z\<rparr> (?n - z) = Some s'"
      using run True by (simp add: al_def k_def)
    then show ?thesis
      using tallocr_ok_shrink[OF _ sz] ts(1) True unfolding AB z al_def k_def by (simp add: preg[unfolded al_def k_def])
  next
    case False
    then have "z = ?n" using zle by simp
    then show ?thesis using ts(1) run False by (simp add: AB preg al_def k_def)
  qed
  have sc: "same_config g ?g" using upd_talloc_config tallocr_ok_alignment[OF ok] by (simp add: al_def)
  have notin: "node \<notin> set ts" using ts(3) node(2) by (simp add: allocated_in_def)
  have frame: "map (tensor_region asz ?g) xs = map (tensor_region asz g) xs" if "set xs \<subseteq> set ts - {p}" for xs
    by (rule map_region_frame[OF sc]) (use that notin ts(3) k h in \<open>auto simp: allocated_in_def\<close>)
  have "talloc_of ?g node = k" "tensor_region asz ?g node = (nat (ba_chunk ?addr), ba_offset ?addr, z)"
    using sc k np z by (auto simp: tensor_region_def talloc_of_def planned_size_def same_config_def h k_def)
  then have ok': "tallocr_ok (alignment g k) s' (map (tensor_region asz ?g) (A @ node # B))"
    using ok ts(2) frame[of A] frame[of B] unfolding al_def by (simp add: AB del: map_eq_conv)
  have set_eq: "set (A @ node # B) = allocated_in ?g k"
    using ts(2,3) AB np \<open>talloc_of ?g node = k\<close> by (auto simp: allocated_in_def talloc_of_def h)
  have same: "(hn_allocated (ga_hash g t) \<longrightarrow> talloc_of g t = k) \<and> (hn_allocated (h t) \<longrightarrow> talloc_of ?g t = k)"
    if "h t \<noteq> ga_hash g t" for t
    using that node(2) np \<open>talloc_of ?g node = k\<close> by (cases "t = node"; cases "t = p") (auto simp: h k_def)
  have "regions_ok asz ?g"
    by (rule regions_replace[OF inv k ok' _ set_eq same]) (use ts(2) notin AB in auto)
  moreover have "hash_ok T ?g" using cfg(2) node(1) pb np by (auto simp: hash_ok_def h)
  ultimately show ?thesis using config_ok_same[OF cfg(1) sc] by (simp add: plan_inv_def k_def)
qed

section \<open>Freeing\<close>

lemma free_inv:
  assumes inv: "plan_inv T asz g" and p: "hn_allocated (ga_hash g p)"
    and h: "h = (ga_hash g)(p := (ga_hash g p)\<lparr>hn_allocated := False\<rparr>)"
    and run: "ggml_dyn_tallocr_free_bytes (ga_tallocs g ! talloc_of g p) (hn_addr (ga_hash g p)) (planned_size asz g p) = Some s'"
  shows "plan_inv T asz (upd_talloc (talloc_of g p) s' h g)"
proof -
  define k where "k = talloc_of g p"
  define al where "al = alignment g k"
  let ?g = "upd_talloc k s' h g" and ?addr = "hn_addr (ga_hash g p)"
  have cfg: "config_ok asz g" "hash_ok T g" using inv by (auto simp: plan_inv_def)
  have k: "k < length (ga_tallocs g)" using talloc_of_lt[OF cfg p] by (simp add: k_def)
  have pb: "hbuf g p < length (ga_bufts g)" "0 \<le> ba_chunk ?addr" using cfg(2) p by (auto simp: hash_ok_def)
  obtain ts where ts: "tallocr_ok al (ga_tallocs g ! k) (map (tensor_region asz g) ts)" "distinct ts" "set ts = allocated_in g k"
    using plan_inv_tensors[OF inv k] unfolding al_def by metis
  have "p \<in> set ts" using ts(3) p by (simp add: allocated_in_def k_def)
  then obtain A B where AB: "ts = A @ p # B" by (meson split_list)
  have sz: "size_ok al (planned_size asz g p)"
    using cfg(1) pb(1) by (simp add: config_ok_def al_def k_def talloc_of_def planned_size_def)
  have "?addr = \<lparr>ba_chunk = int (nat (ba_chunk ?addr)), ba_offset = ba_offset ?addr\<rparr>" using pb(2) by simp
  then have "tallocr_ok al s' (map (tensor_region asz g) A @ map (tensor_region asz g) B)"
    using tallocr_ok_release[OF _ sz] ts(1) run unfolding AB k_def al_def
    by (simp add: tensor_region_def)
  then have ok: "tallocr_ok al s' (map (tensor_region asz g) (A @ B))" by simp
  have sc: "same_config g ?g" using upd_talloc_config tallocr_ok_alignment[OF ok] by (simp add: al_def)
  have "map (tensor_region asz ?g) (A @ B) = map (tensor_region asz g) (A @ B)"
    by (rule map_region_frame[OF sc]) (use ts(2,3) AB k h in \<open>auto simp: allocated_in_def\<close>)
  then have ok': "tallocr_ok (alignment g k) s' (map (tensor_region asz ?g) (A @ B))"
    using ok unfolding al_def by (simp only:)
  have set_eq: "set (A @ B) = allocated_in ?g k"
    using ts(2,3) AB by (auto simp: allocated_in_def talloc_of_def h)
  have same: "(hn_allocated (ga_hash g t) \<longrightarrow> talloc_of g t = k) \<and> (hn_allocated (h t) \<longrightarrow> talloc_of ?g t = k)"
    if "h t \<noteq> ga_hash g t" for t
    using that by (cases "t = p") (auto simp: h k_def)
  have "regions_ok asz ?g"
    by (rule regions_replace[OF inv k ok' _ set_eq same]) (use ts(2) AB in auto)
  moreover have "hash_ok T ?g" using cfg(2) by (auto simp: hash_ok_def h)
  ultimately show ?thesis using config_ok_same[OF cfg(1) sc] by (simp add: plan_inv_def k_def)
qed

lemma free_node_effect:
  assumes inv: "plan_inv T asz g" and p: "hn_allocated (ga_hash g p)"
    and run: "ggml_gallocr_free_node T asz p g = Some g'"
  shows "plan_inv T asz g'" "same_config g g'"
    "ga_hash g' = (if has_flag (T p) GGML_TENSOR_FLAG_OUTPUT then ga_hash g else (ga_hash g)(p := (ga_hash g p)\<lparr>hn_allocated := False\<rparr>))"
proof -
  let ?h = "(ga_hash g)(p := (ga_hash g p)\<lparr>hn_allocated := False\<rparr>)"
  have "plan_inv T asz g' \<and> same_config g g' \<and> ga_hash g' = (if has_flag (T p) GGML_TENSOR_FLAG_OUTPUT then ga_hash g else ?h)"
  proof (cases "has_flag (T p) GGML_TENSOR_FLAG_OUTPUT")
    case True
    then show ?thesis using run inv by (simp add: ggml_gallocr_free_node_def)
  next
    case False
    obtain s' where s': "ggml_dyn_tallocr_free_bytes (ga_tallocs g ! talloc_of g p) (hn_addr (ga_hash g p)) (planned_size asz g p) = Some s'"
      and g': "g' = upd_talloc (talloc_of g p) s' ?h g"
      using run False
      by (auto simp: ggml_gallocr_free_node_def Let_def bind_eq_Some_conv buft_of_Some on_talloc_Some
          upd_hash_def upd_talloc_def talloc_of_def planned_size_def)
    have inv': "plan_inv T asz g'" using free_inv[OF inv p refl s'] g' by simp
    have "talloc_of g p < length (ga_tallocs g)" using talloc_of_lt inv p by (auto simp: plan_inv_def)
    from plan_inv_tensors[OF inv this] have "dt_alignment (ga_tallocs g ! talloc_of g p) = alignment g (talloc_of g p)"
      using tallocr_ok_alignment by metis
    moreover have "dt_alignment s' = dt_alignment (ga_tallocs g ! talloc_of g p)"
      using s' by (auto simp: ggml_dyn_tallocr_free_bytes_def bind_eq_Some_conv split: if_splits)
    ultimately have "same_config g g'" using upd_talloc_config g' by simp
    then show ?thesis using inv' g' False by simp
  qed
  then show "plan_inv T asz g'" "same_config g g'"
    "ga_hash g' = (if has_flag (T p) GGML_TENSOR_FLAG_OUTPUT then ga_hash g else ?h)" by blast+
qed

section \<open>Allocating a node\<close>

text \<open>How the state changes: not at all, by a fresh region, or by taking over a parent.\<close>

inductive alloc_effect :: "tensors \<Rightarrow> ggml_gallocr \<Rightarrow> nat \<Rightarrow> ggml_gallocr \<Rightarrow> bool" for T g node where
  kept: "\<not> (own T node \<and> \<not> hn_allocated (ga_hash g node)) \<Longrightarrow> alloc_effect T g node g"
| fresh: "\<lbrakk>own T node; \<not> hn_allocated (ga_hash g node);
     ga_hash g' = (ga_hash g)(node := (ga_hash g node)\<lparr>hn_allocated := True, hn_buffer_id := b, hn_addr := addr\<rparr>)\<rbrakk>
   \<Longrightarrow> alloc_effect T g node g'"
| taken: "\<lbrakk>own T node; \<not> hn_allocated (ga_hash g node); ggml_op_can_inplace (t_op (T node)); Some p \<in> set (t_src (T node)); hn_allocated (ga_hash g p);
     \<not> has_flag (T p) GGML_TENSOR_FLAG_OUTPUT; n_children (ga_hash g p) = 1; n_views (ga_hash g p) = 0;
     ga_hash g' = (ga_hash g)(node := (ga_hash g node)\<lparr>hn_allocated := True, hn_buffer_id := hn_buffer_id (ga_hash g p), hn_addr := hn_addr (ga_hash g p)\<rparr>,
       p := (ga_hash g p)\<lparr>hn_allocated := False\<rparr>)\<rbrakk>
   \<Longrightarrow> alloc_effect T g node g'"

lemma reuse_scan_cases:
  assumes "reuse_scan T asz node ps g = Some (r, g')"
    and "\<And>p. hn_allocated (ga_hash g p) \<Longrightarrow> t_view_src (T p) = None"
  shows "\<not> r \<and> g' = g \<or> r \<and> (\<exists>p. Some p \<in> set ps \<and> hn_allocated (ga_hash g p) \<and> \<not> has_flag (T p) GGML_TENSOR_FLAG_OUTPUT
     \<and> n_children (ga_hash g p) = 1 \<and> n_views (ga_hash g p) = 0
     \<and> ggml_gallocr_free_extra_space asz node p (upd_hash p (\<lambda>hn. hn\<lparr>hn_allocated := False\<rparr>)
         (upd_hash node (\<lambda>hn. hn\<lparr>hn_buffer_id := hn_buffer_id (ga_hash g p), hn_addr := hn_addr (ga_hash g p)\<rparr>) g)) = Some g')"
  using assms
proof (induction ps)
  case Nil
  then show ?case by simp
next
  case (Cons a ps)
  show ?case
  proof (cases a)
    case None
    then show ?thesis using Cons by auto
  next
    case (Some parent)
    have view: "t_view_src (T parent) = None" if "ggml_gallocr_is_own g parent"
      using Cons.prems(2) that by (simp add: ggml_gallocr_is_own_def)
    show ?thesis
    proof (cases "ggml_gallocr_is_own g parent \<and> \<not> has_flag (T parent) GGML_TENSOR_FLAG_OUTPUT \<and>
        ggml_are_same_layout (T node) (T parent) \<and> n_children (ga_hash g parent) = 1 \<and> n_views (ga_hash g parent) = 0")
      case True
      then show ?thesis
        using view Cons.prems(1) Some by (auto simp: ggml_gallocr_is_own_def Let_def bind_eq_Some_conv)
    next
      case False
      then have "reuse_scan T asz node ps g = Some (r, g')"
        using view Cons.prems(1) Some by (auto simp: Let_def split: if_splits)
      from Cons.IH[OF this Cons.prems(2)] show ?thesis by (metis list.set_intros(2))
    qed
  qed
qed

lemma shrink_step:
  assumes "do { n \<leftarrow> A; z \<leftarrow> B; if z < n then do { s' \<leftarrow> f z n; Some ((), s') } else Some ((), s) } = Some (u, s')"
  shows "\<exists>z n. B = Some z \<and> A = Some n \<and> (if z < (n :: size_t) then f z n = Some s' else s' = s)"
  using assms by (cases A; cases B) (auto split: if_splits simp: bind_eq_Some_conv)

lemma extra_space_Some:
  assumes "ggml_gallocr_free_extra_space asz node p g = Some g'"
  shows "\<exists>s'. asz (ga_bufts g ! hbuf g node) node \<le> asz (ga_bufts g ! hbuf g p) p
    \<and> g' = upd_talloc (talloc_of g p) s' (ga_hash g) g
    \<and> (\<exists>z n. aligned_offset 0 (asz (ga_bufts g ! hbuf g node) node) (dt_alignment (ga_tallocs g ! talloc_of g p)) = Some z
        \<and> aligned_offset 0 (asz (ga_bufts g ! hbuf g p) p) (dt_alignment (ga_tallocs g ! talloc_of g p)) = Some n
        \<and> (if z < n then ggml_dyn_tallocr_free_bytes (ga_tallocs g ! talloc_of g p)
              ((hn_addr (ga_hash g p))\<lparr>ba_offset := ba_offset (hn_addr (ga_hash g p)) + z\<rparr>) (n - z) = Some s'
            else s' = ga_tallocs g ! talloc_of g p))"
proof -
  let ?k = "talloc_of g p"
  obtain u where le: "asz (ga_bufts g ! hbuf g node) node \<le> asz (ga_bufts g ! hbuf g p) p"
    and run: "on_talloc (hn_buffer_id (ga_hash g p)) (\<lambda>p_alloc. do {
       parent_size \<leftarrow> aligned_offset 0 (asz (ga_bufts g ! hbuf g p) p) (dt_alignment p_alloc);
       node_size \<leftarrow> aligned_offset 0 (asz (ga_bufts g ! hbuf g node) node) (dt_alignment p_alloc);
       if node_size < parent_size then do {
         s' \<leftarrow> ggml_dyn_tallocr_free_bytes p_alloc ((hn_addr (ga_hash g p))\<lparr>ba_offset := ba_offset (hn_addr (ga_hash g p)) + node_size\<rparr>) (parent_size - node_size);
         Some ((), s') }
       else Some ((), p_alloc) }) g = Some (u, g')"
    using assms unfolding ggml_gallocr_free_extra_space_def Let_def
    by (auto simp: bind_eq_Some_conv buft_of_Some split: if_splits)
  obtain s' where g': "g' = g\<lparr>ga_tallocs := (ga_tallocs g)[?k := s']\<rparr>"
    and step: "do {
       parent_size \<leftarrow> aligned_offset 0 (asz (ga_bufts g ! hbuf g p) p) (dt_alignment (ga_tallocs g ! ?k));
       node_size \<leftarrow> aligned_offset 0 (asz (ga_bufts g ! hbuf g node) node) (dt_alignment (ga_tallocs g ! ?k));
       if node_size < parent_size then do {
         s' \<leftarrow> ggml_dyn_tallocr_free_bytes (ga_tallocs g ! ?k) ((hn_addr (ga_hash g p))\<lparr>ba_offset := ba_offset (hn_addr (ga_hash g p)) + node_size\<rparr>) (parent_size - node_size);
         Some ((), s') }
       else Some ((), ga_tallocs g ! ?k) } = Some (u, s')"
    using run unfolding on_talloc_Some Let_def talloc_of_def[symmetric] by blast
  have "g' = upd_talloc ?k s' (ga_hash g) g" using g' by (simp add: upd_talloc_def)
  with le shrink_step[OF step] show ?thesis by blast
qed

lemma take_over_effect:
  assumes inv: "plan_inv T asz g" and node: "own T node" "\<not> hn_allocated (ga_hash g node)"
    and p: "hn_allocated (ga_hash g p)"
    and run: "ggml_gallocr_free_extra_space asz node p (upd_hash p (\<lambda>hn. hn\<lparr>hn_allocated := False\<rparr>)
      (upd_hash node (\<lambda>hn. hn\<lparr>hn_buffer_id := hn_buffer_id (ga_hash g p), hn_addr := hn_addr (ga_hash g p)\<rparr>)
        (upd_hash node (\<lambda>hn. hn\<lparr>hn_allocated := True\<rparr>) g))) = Some g'"
  shows "plan_inv T asz g'" "same_config g g'"
    "ga_hash g' = (ga_hash g)(node := (ga_hash g node)\<lparr>hn_allocated := True, hn_buffer_id := hn_buffer_id (ga_hash g p), hn_addr := hn_addr (ga_hash g p)\<rparr>,
       p := (ga_hash g p)\<lparr>hn_allocated := False\<rparr>)"
proof -
  define h where "h = (ga_hash g)(node := (ga_hash g node)\<lparr>hn_allocated := True, hn_buffer_id := hn_buffer_id (ga_hash g p), hn_addr := hn_addr (ga_hash g p)\<rparr>,
       p := (ga_hash g p)\<lparr>hn_allocated := False\<rparr>)"
  have np: "node \<noteq> p" using node(2) p by auto
  define g2 where "g2 = g\<lparr>ga_hash := h\<rparr>"
  have g2: "upd_hash p (\<lambda>hn. hn\<lparr>hn_allocated := False\<rparr>)
      (upd_hash node (\<lambda>hn. hn\<lparr>hn_buffer_id := hn_buffer_id (ga_hash g p), hn_addr := hn_addr (ga_hash g p)\<rparr>)
        (upd_hash node (\<lambda>hn. hn\<lparr>hn_allocated := True\<rparr>) g)) = g2"
    using np by (simp add: upd_hash_def g2_def h_def)
  have f: "ga_hash g2 = h" "ga_bufts g2 = ga_bufts g" "ga_buf_tallocs g2 = ga_buf_tallocs g" "ga_tallocs g2 = ga_tallocs g"
    by (simp_all add: g2_def)
  have hb: "nat (hn_buffer_id (h node)) = hbuf g p" "nat (hn_buffer_id (h p)) = hbuf g p" "hn_addr (h p) = hn_addr (ga_hash g p)"
    using np by (simp_all add: h_def)
  have to: "talloc_of g2 p = talloc_of g p" by (simp only: talloc_of_def f hb)
  let ?k = "talloc_of g p"
  obtain s' z n where s': "asz (ga_bufts g ! hbuf g p) node \<le> asz (ga_bufts g ! hbuf g p) p"
    "g' = upd_talloc ?k s' h g2"
    "aligned_offset 0 (asz (ga_bufts g ! hbuf g p) node) (dt_alignment (ga_tallocs g ! ?k)) = Some z"
    "aligned_offset 0 (asz (ga_bufts g ! hbuf g p) p) (dt_alignment (ga_tallocs g ! ?k)) = Some n"
    "if z < n then ggml_dyn_tallocr_free_bytes (ga_tallocs g ! ?k)
        ((hn_addr (ga_hash g p))\<lparr>ba_offset := ba_offset (hn_addr (ga_hash g p)) + z\<rparr>) (n - z) = Some s'
      else s' = ga_tallocs g ! ?k"
    using extra_space_Some[OF run[unfolded g2]] unfolding to f hb by blast
  have cfg: "config_ok asz g" "hash_ok T g" using inv by (auto simp: plan_inv_def)
  have k: "?k < length (ga_tallocs g)" using talloc_of_lt[OF cfg p] .
  have al: "dt_alignment (ga_tallocs g ! ?k) = alignment g ?k" "align_ok (alignment g ?k)"
    using plan_inv_tensors[OF inv k] tallocr_ok_alignment by metis+
  have zn: "z = round_up (alignment g ?k) (asz (ga_bufts g ! hbuf g p) node)"
    "n = round_up (alignment g ?k) (planned_size asz g p)"
    using s'(3,4) aligned_offset_round[OF al(2)] by (simp_all add: al(1) planned_size_def)
  have g': "g' = upd_talloc ?k s' h g" using s'(2) by (simp add: upd_talloc_def g2_def)
  have sal: "dt_alignment s' = dt_alignment (ga_tallocs g ! ?k)"
    using s'(5) by (auto simp: ggml_dyn_tallocr_free_bytes_def bind_eq_Some_conv split: if_splits)
  show "plan_inv T asz g'"
    unfolding g' by (rule take_over_inv[OF inv node p h_def s'(1) zn(1) s'(5)[unfolded zn(2)]])
  show "same_config g g'" unfolding g' using upd_talloc_config sal al(1) by simp
  show "ga_hash g' = (ga_hash g)(node := (ga_hash g node)\<lparr>hn_allocated := True, hn_buffer_id := hn_buffer_id (ga_hash g p), hn_addr := hn_addr (ga_hash g p)\<rparr>,
       p := (ga_hash g p)\<lparr>hn_allocated := False\<rparr>)"
    unfolding g' h_def[symmetric] by simp
qed

lemma fresh_effect:
  assumes inv: "plan_inv T asz g" and node: "own T node" "\<not> hn_allocated (ga_hash g node)"
    and b: "0 \<le> b" "nat b < length (ga_bufts g)"
    and run: "on_talloc b (\<lambda>alloc. ggml_dyn_tallocr_alloc alloc (asz (ga_bufts g ! nat b) node))
      (upd_hash node (\<lambda>hn. hn\<lparr>hn_buffer_id := b\<rparr>) (upd_hash node (\<lambda>hn. hn\<lparr>hn_allocated := True\<rparr>) g)) = Some (addr, g2)"
    and g': "g' = upd_hash node (\<lambda>hn. hn\<lparr>hn_addr := addr\<rparr>) g2"
  shows "plan_inv T asz g'" "same_config g g'"
    "ga_hash g' = (ga_hash g)(node := (ga_hash g node)\<lparr>hn_allocated := True, hn_buffer_id := b, hn_addr := addr\<rparr>)"
proof -
  define k where "k = ga_buf_tallocs g ! nat b"
  let ?h = "(ga_hash g)(node := (ga_hash g node)\<lparr>hn_allocated := True, hn_buffer_id := b, hn_addr := addr\<rparr>)"
  obtain s' where s': "ggml_dyn_tallocr_alloc (ga_tallocs g ! k) (asz (ga_bufts g ! nat b) node) = Some (addr, s')"
    and g2: "g' = upd_talloc k s' ?h g"
    using run g' unfolding on_talloc_Some Let_def by (auto simp: k_def upd_hash_def upd_talloc_def)
  show inv': "plan_inv T asz g'" unfolding g2 by (rule fresh_inv[OF inv node b k_def s'])
  have k: "k < length (ga_tallocs g)" using inv b by (auto simp: plan_inv_def config_ok_def k_def)
  obtain ts where ts: "tallocr_ok (alignment g k) (ga_tallocs g ! k) (map (tensor_region asz g) ts)"
    using plan_inv_tensors[OF inv k] by blast
  have "size_ok (alignment g k) (asz (ga_bufts g ! nat b) node)" using inv b by (simp add: plan_inv_def config_ok_def k_def)
  from tallocr_ok_alignment[OF tallocr_ok_alloc(2)[OF ts this s']]
  show "same_config g g'" unfolding g2 using upd_talloc_config by simp
  show "ga_hash g' = ?h" unfolding g2 by simp
qed

lemma allocate_node_kept:
  assumes "\<not> (own T node \<and> \<not> hn_allocated (ga_hash g node))" "ggml_gallocr_allocate_node T asz b node g = Some g'"
  shows "g' = g"
  using assms by (auto simp: ggml_gallocr_allocate_node_def own_def ggml_gallocr_is_allocated_def
      ggml_gallocr_is_own_def ggml_impl_is_view_def split: if_splits)

lemma allocate_node_effect:
  assumes inv: "plan_inv T asz g" and self: "ggml_op_can_inplace (t_op (T node)) \<Longrightarrow> Some node \<notin> set (t_src (T node))"
    and run: "ggml_gallocr_allocate_node T asz b node g = Some g'"
  shows "plan_inv T asz g' \<and> same_config g g' \<and> alloc_effect T g node g'"
proof (cases "own T node \<and> \<not> hn_allocated (ga_hash g node)")
  case False
  then have "g' = g" using allocate_node_kept run by blast
  then show ?thesis using inv False alloc_effect.kept by auto
next
  case True
  let ?g1 = "upd_hash node (\<lambda>hn. hn\<lparr>hn_allocated := True\<rparr>) g"
  have cond: "\<not> ggml_gallocr_is_allocated T g node \<and> \<not> ggml_impl_is_view (T node)"
    using True by (auto simp: own_def ggml_gallocr_is_allocated_def ggml_gallocr_is_own_def ggml_impl_is_view_def)
  have b: "0 \<le> b" using run by (auto simp: ggml_gallocr_allocate_node_def split: if_splits)
  define m where "m = (if ggml_op_can_inplace (t_op (T node)) then reuse_scan T asz node (t_src (T node)) ?g1 else Some (False, ?g1))"
  define fin where "fin = (\<lambda>(r, g2). if r then Some g2 else do {
         buft \<leftarrow> buft_of g2 b;
         let g = upd_hash node (\<lambda>hn. hn\<lparr>hn_buffer_id := b\<rparr>) g2;
         (addr, g) \<leftarrow> on_talloc b (\<lambda>alloc. ggml_dyn_tallocr_alloc alloc (asz buft node)) g;
         Some (upd_hash node (\<lambda>hn. hn\<lparr>hn_addr := addr\<rparr>) g) })"
  have "Option.bind m fin = Some g'"
    using run cond b unfolding ggml_gallocr_allocate_node_def Let_def fin_def m_def[symmetric] by (simp split: if_splits)
  then obtain r g2 where rs: "m = Some (r, g2)" and rest: "fin (r, g2) = Some g'"
    by (auto simp: bind_eq_Some_conv)
  have views: "t_view_src (T p) = None" if "hn_allocated (ga_hash ?g1 p)" for p
    using that True inv by (cases "p = node") (auto simp: own_def plan_inv_def hash_ok_def)
  have "\<not> r \<and> g2 = ?g1 \<or> r \<and> (\<exists>p. Some p \<in> set (t_src (T node)) \<and> hn_allocated (ga_hash ?g1 p) \<and> \<not> has_flag (T p) GGML_TENSOR_FLAG_OUTPUT
     \<and> n_children (ga_hash ?g1 p) = 1 \<and> n_views (ga_hash ?g1 p) = 0
     \<and> ggml_gallocr_free_extra_space asz node p (upd_hash p (\<lambda>hn. hn\<lparr>hn_allocated := False\<rparr>)
         (upd_hash node (\<lambda>hn. hn\<lparr>hn_buffer_id := hn_buffer_id (ga_hash ?g1 p), hn_addr := hn_addr (ga_hash ?g1 p)\<rparr>) ?g1)) = Some g2)"
    using rs reuse_scan_cases[of T asz node "t_src (T node)" ?g1 r g2] views unfolding m_def by (auto split: if_splits)
  then consider "\<not> r" "g2 = ?g1"
    | p where "r" "Some p \<in> set (t_src (T node))" "hn_allocated (ga_hash ?g1 p)" "\<not> has_flag (T p) GGML_TENSOR_FLAG_OUTPUT"
      "n_children (ga_hash ?g1 p) = 1" "n_views (ga_hash ?g1 p) = 0"
      "ggml_gallocr_free_extra_space asz node p (upd_hash p (\<lambda>hn. hn\<lparr>hn_allocated := False\<rparr>)
         (upd_hash node (\<lambda>hn. hn\<lparr>hn_buffer_id := hn_buffer_id (ga_hash ?g1 p), hn_addr := hn_addr (ga_hash ?g1 p)\<rparr>) ?g1)) = Some g2"
    by blast
  then show ?thesis
  proof cases
    case 1
    obtain addr g3 where ot: "nat b < length (ga_bufts g)"
      "on_talloc b (\<lambda>alloc. ggml_dyn_tallocr_alloc alloc (asz (ga_bufts g ! nat b) node)) (upd_hash node (\<lambda>hn. hn\<lparr>hn_buffer_id := b\<rparr>) ?g1) = Some (addr, g3)"
      "g' = upd_hash node (\<lambda>hn. hn\<lparr>hn_addr := addr\<rparr>) g3"
      using rest 1 by (auto simp: fin_def bind_eq_Some_conv buft_of_Some Let_def)
    have n: "own T node" "\<not> hn_allocated (ga_hash g node)" using True by auto
    note e = fresh_effect[OF inv n b ot]
    show ?thesis using e alloc_effect.fresh[OF n e(3)] by blast
  next
    case (2 p)
    have n: "own T node" "\<not> hn_allocated (ga_hash g node)" using True by auto
    have inplace: "ggml_op_can_inplace (t_op (T node))" using rs 2(1) by (auto simp: m_def split: if_splits)
    have pn: "p \<noteq> node" using 2(2) self[OF inplace] by auto
    then have h: "ga_hash ?g1 p = ga_hash g p" by simp
    have "g' = g2" using rest 2(1) by (simp add: fin_def)
    then have "ggml_gallocr_free_extra_space asz node p (upd_hash p (\<lambda>hn. hn\<lparr>hn_allocated := False\<rparr>)
         (upd_hash node (\<lambda>hn. hn\<lparr>hn_buffer_id := hn_buffer_id (ga_hash g p), hn_addr := hn_addr (ga_hash g p)\<rparr>) ?g1)) = Some g'"
      using 2(7) unfolding h by simp
    note e = take_over_effect[OF inv n _ this]
    have p: "hn_allocated (ga_hash g p)" "n_children (ga_hash g p) = 1" "n_views (ga_hash g p) = 0"
      using 2(3,5,6) unfolding h .
    from alloc_effect.taken[OF n inplace 2(2) p(1) 2(4) p(2,3) e(3)[OF p(1)]] show ?thesis using e[OF p(1)] by blast
  qed
qed

end
