(* ===== verification/Gallocr_Plan.thy ===== *)
theory Gallocr_Plan
  imports Gallocr_Inv
begin

text \<open>
  Planning a whole graph. The references to sources that are still to come are a list; the
  counters of the hash table count it, a tensor that is referred to by it, directly or through a
  view, is allocated, and the place of a tensor never changes once it has one. So a node finds
  the bytes of its sources as their producers left them.
\<close>

section \<open>Well-formed graphs\<close>

definition external :: "tensors \<Rightarrow> nat \<Rightarrow> bool" where
  "external T t \<longleftrightarrow> t_view_src (T t) = None \<and> (t_data (T t) \<noteq> None \<or> t_buffer (T t) \<noteq> None)"

definition root_of :: "tensors \<Rightarrow> nat \<Rightarrow> nat" where
  "root_of T t = (case t_view_src (T t) of None \<Rightarrow> t | Some v \<Rightarrow> v)"

definition counted_view :: "tensors \<Rightarrow> nat \<Rightarrow> nat \<Rightarrow> bool" where
  "counted_view T v w \<longleftrightarrow> t_view_src (T w) = Some v \<and> t_op (T w) \<noteq> GGML_OP_NONE"

text \<open>
  Leafs come first, have no operation and are not views of memory that the allocator manages.
  Nodes are distinct and in the order in which they are computed; a source is a leaf, an earlier
  node or memory from elsewhere. A view refers to a tensor that is not a view; the one a node is a
  view of exists before. A view without an operation, which \<open>ggml-backend\<close> adds as a dependency, is
  the source of no node. Only leafs are inputs.
\<close>

definition source_ok :: "tensors \<Rightarrow> nat set \<Rightarrow> nat \<Rightarrow> bool" where
  "source_ok T B t \<longleftrightarrow> t \<in> B \<or> external T t"

definition graph_ok :: "tensors \<Rightarrow> ggml_cgraph \<Rightarrow> bool" where
  "graph_ok T graph \<longleftrightarrow>
     distinct (cg_leafs graph @ cg_nodes graph)
     \<and> (\<forall>l \<in> set (cg_leafs graph). t_op (T l) = GGML_OP_NONE \<and> (\<forall>v. t_view_src (T l) = Some v \<longrightarrow> external T v))
     \<and> (\<forall>i < length (cg_nodes graph). let n = cg_nodes graph ! i; B = set (cg_leafs graph) \<union> set (take i (cg_nodes graph)) in
          (\<forall>p. Some p \<in> set (t_src (T n)) \<longrightarrow> source_ok T B p)
          \<and> (\<forall>p. Some p \<in> set (t_src (T n)) \<and> p \<in> set (cg_nodes graph) \<and> t_view_src (T p) \<noteq> None \<longrightarrow> t_op (T p) \<noteq> GGML_OP_NONE)
          \<and> (\<forall>v. t_view_src (T n) = Some v \<and> t_op (T n) \<noteq> GGML_OP_NONE \<longrightarrow> t_view_src (T v) = None \<and> source_ok T B v)
          \<and> \<not> has_flag (T n) GGML_TENSOR_FLAG_INPUT)"

section \<open>The counters\<close>

definition refs :: "nat option list \<Rightarrow> nat \<Rightarrow> int" where
  "refs R t = int (count_list R (Some t))"

text \<open>Views that still hold their tensor: those with a reference to come, and those never referred to.\<close>

definition open_views :: "tensors \<Rightarrow> nat set \<Rightarrow> nat option list \<Rightarrow> nat option list \<Rightarrow> nat \<Rightarrow> nat set" where
  "open_views T N S R v = {w \<in> N. counted_view T v w \<and> (Some w \<in> set R \<or> Some w \<notin> set S)}"

text \<open>Tensors whose bytes must stay: outputs, and those with a reference to come.\<close>

definition needed :: "tensors \<Rightarrow> nat set \<Rightarrow> nat option list \<Rightarrow> nat \<Rightarrow> bool" where
  "needed T N R t \<longleftrightarrow> has_flag (T t) GGML_TENSOR_FLAG_OUTPUT \<or> Some t \<in> set R \<or> (\<exists>w \<in> N. counted_view T t w \<and> Some w \<in> set R)"

definition counts_ok :: "tensors \<Rightarrow> nat set \<Rightarrow> nat option list \<Rightarrow> nat option list \<Rightarrow> ggml_gallocr \<Rightarrow> bool" where
  "counts_ok T N S R g \<longleftrightarrow> (\<forall>t. n_children (ga_hash g t) = refs R t)
     \<and> (\<forall>v. \<not> external T v \<longrightarrow> n_views (ga_hash g v) = int (card (open_views T N S R v)))"

text \<open>
  The state between two steps: \<open>B\<close> are the tensors that exist, \<open>R\<close> the references to come, \<open>X\<close> the
  parent whose memory the current node has taken over.
\<close>

definition walk_inv :: "tensors \<Rightarrow> (nat \<Rightarrow> nat \<Rightarrow> size_t) \<Rightarrow> nat set \<Rightarrow> nat option list \<Rightarrow> nat set \<Rightarrow> nat set \<Rightarrow> nat option list \<Rightarrow> ggml_gallocr \<Rightarrow> bool" where
  "walk_inv T asz N S B X R g \<longleftrightarrow> plan_inv T asz g \<and> counts_ok T N S R g
     \<and> (\<forall>t \<in> B. own T t \<and> needed T N R t \<and> t \<notin> X \<longrightarrow> hn_allocated (ga_hash g t))
     \<and> (\<forall>t. hn_allocated (ga_hash g t) \<longrightarrow> t \<in> B \<and> t \<notin> X)"

lemma refs_Cons: "refs (x # R) t = (if x = Some t then 1 else 0) + refs R t"
  by (simp add: refs_def)

lemma refs_0: "refs R t = 0 \<longleftrightarrow> Some t \<notin> set R"
  by (simp add: refs_def count_list_0_iff)

lemma finite_open_views: "finite N \<Longrightarrow> finite (open_views T N S R v)"
  by (simp add: open_views_def)

lemma not_needed:
  assumes "counts_ok T N S R g" "finite N" "\<not> external T t" "n_children (ga_hash g t) = 0" "n_views (ga_hash g t) = 0"
    "\<not> has_flag (T t) GGML_TENSOR_FLAG_OUTPUT"
  shows "\<not> needed T N R t"
proof -
  have "Some t \<notin> set R" using assms(1,4) refs_0[of R t] by (auto simp: counts_ok_def)
  moreover have "open_views T N S R t = {}"
    using assms finite_open_views[OF assms(2)] by (auto simp: counts_ok_def)
  ultimately show ?thesis using assms(6) by (auto simp: needed_def open_views_def)
qed

lemma needed_mono: "needed T N R t \<Longrightarrow> set R \<subseteq> set R' \<Longrightarrow> needed T N R' t"
  by (auto simp: needed_def)

section \<open>Using up a reference\<close>

lemma counts_pop_none: "counts_ok T N S (None # R) g \<longleftrightarrow> counts_ok T N S R g"
  by (simp add: counts_ok_def refs_Cons open_views_def)

definition views_flat :: "tensors \<Rightarrow> nat set \<Rightarrow> bool" where
  "views_flat T N \<longleftrightarrow> finite N \<and> (\<forall>v w. w \<in> N \<and> counted_view T v w \<longrightarrow> t_view_src (T v) = None)"

lemma open_views_pop:
  assumes "Some p \<in> set S"
  shows "open_views T N S R v = (if Some p \<in> set R then open_views T N S (Some p # R) v else open_views T N S (Some p # R) v - {p})"
  using assms by (auto simp: open_views_def)

lemma open_views_view: "views_flat T N \<Longrightarrow> t_view_src (T w) \<noteq> None \<Longrightarrow> open_views T N S R w = {}"
  by (auto simp: open_views_def views_flat_def)

text \<open>Steps that touch only the counters.\<close>

definition counters_only :: "ggml_gallocr \<Rightarrow> ggml_gallocr \<Rightarrow> bool" where
  "counters_only g g' \<longleftrightarrow> ga_bufts g' = ga_bufts g \<and> ga_buf_tallocs g' = ga_buf_tallocs g \<and> ga_tallocs g' = ga_tallocs g
     \<and> (\<forall>t. hn_allocated (ga_hash g' t) = hn_allocated (ga_hash g t) \<and> hn_buffer_id (ga_hash g' t) = hn_buffer_id (ga_hash g t)
          \<and> hn_addr (ga_hash g' t) = hn_addr (ga_hash g t))"

definition same_places :: "ggml_gallocr \<Rightarrow> ggml_gallocr \<Rightarrow> nat set \<Rightarrow> bool" where
  "same_places g g' B \<longleftrightarrow> (\<forall>t \<in> B. hn_buffer_id (ga_hash g' t) = hn_buffer_id (ga_hash g t) \<and> hn_addr (ga_hash g' t) = hn_addr (ga_hash g t))"

lemma same_places_refl [simp]: "same_places g g B"
  by (simp add: same_places_def)

lemma same_places_subset: "\<lbrakk>same_places g g' B; A \<subseteq> B\<rbrakk> \<Longrightarrow> same_places g g' A"
  by (auto simp: same_places_def)

lemma same_places_trans: "\<lbrakk>same_places g g' B; same_places g' g'' B'; B \<subseteq> B'\<rbrakk> \<Longrightarrow> same_places g g'' B"
  by (auto simp: same_places_def)

lemma counters_only_trans: "\<lbrakk>counters_only g g'; counters_only g' g''\<rbrakk> \<Longrightarrow> counters_only g g''"
  by (simp add: counters_only_def)

lemma counters_only_upd:
  "(\<And>hn. hn_allocated (f hn) = hn_allocated hn \<and> hn_buffer_id (f hn) = hn_buffer_id hn \<and> hn_addr (f hn) = hn_addr hn)
     \<Longrightarrow> counters_only g (upd_hash t f g)"
  by (simp add: counters_only_def)

lemma counters_only_inv:
  assumes "counters_only g g'" "plan_inv T asz g"
  shows "plan_inv T asz g'" "same_config g g'" "same_places g g' B"
proof -
  have al: "alignment g' k = alignment g k" for k using assms(1) by (simp add: counters_only_def alignment_def)
  have to: "talloc_of g' t = talloc_of g t" for t using assms(1) by (simp add: counters_only_def talloc_of_def)
  have reg: "tensor_region asz g' = tensor_region asz g"
    using assms(1) al to by (auto simp: counters_only_def tensor_region_def planned_size_def fun_eq_iff)
  have alloc: "allocated_in g' k = allocated_in g k" for k
    using assms(1) to by (auto simp: counters_only_def allocated_in_def)
  show "same_config g g'" using assms(1) al by (simp add: counters_only_def same_config_def)
  then have "config_ok asz g'" using assms(2) config_ok_same by (auto simp: plan_inv_def)
  moreover have "hash_ok T g'" using assms by (simp add: plan_inv_def hash_ok_def counters_only_def)
  moreover have "regions_ok asz g'"
    using assms unfolding plan_inv_def regions_ok_def reg alloc al by (simp add: counters_only_def)
  ultimately show "plan_inv T asz g'" by (simp add: plan_inv_def)
  show "same_places g g' B" using assms(1) by (simp add: same_places_def counters_only_def)
qed

text \<open>What is known of a source, and freeing a tensor nobody refers to any more.\<close>

definition ref_ok :: "tensors \<Rightarrow> nat set \<Rightarrow> nat option list \<Rightarrow> nat \<Rightarrow> bool" where
  "ref_ok T N S p \<longleftrightarrow> Some p \<in> set S \<and> (\<forall>v. t_view_src (T p) = Some v \<longrightarrow> external T v \<or> p \<in> N \<and> counted_view T v p)"

definition walk_post :: "tensors \<Rightarrow> (nat \<Rightarrow> nat \<Rightarrow> size_t) \<Rightarrow> nat set \<Rightarrow> nat option list \<Rightarrow> nat set \<Rightarrow> nat set \<Rightarrow> nat option list
    \<Rightarrow> ggml_gallocr \<Rightarrow> ggml_gallocr \<Rightarrow> bool" where
  "walk_post T asz N S B X R g g' \<longleftrightarrow> walk_inv T asz N S B X R g' \<and> same_config g g' \<and> same_places g g' UNIV
     \<and> (\<forall>t. hn_allocated (ga_hash g' t) \<longrightarrow> hn_allocated (ga_hash g t))"

lemma counters_post:
  assumes c: "counters_only g g'" and inv: "plan_inv T asz g" and cnt: "counts_ok T N S R g'"
    and need: "\<And>t. \<lbrakk>t \<in> B; own T t; needed T N R t; t \<notin> X\<rbrakk> \<Longrightarrow> hn_allocated (ga_hash g t)"
    and alloc: "\<And>t. hn_allocated (ga_hash g t) \<Longrightarrow> t \<in> B \<and> t \<notin> X"
  shows "walk_post T asz N S B X R g g'"
  using counters_only_inv[OF c inv] c cnt need alloc
  by (simp add: walk_post_def walk_inv_def counters_only_def)

lemma free_post:
  assumes c: "counters_only g g1" and inv: "plan_inv T asz g" and cnt: "counts_ok T N S R g1" and N: "finite N"
    and v: "hn_allocated (ga_hash g1 v)" "n_children (ga_hash g1 v) = 0" "n_views (ga_hash g1 v) = 0"
    and need: "\<And>t. \<lbrakk>t \<in> B; own T t; needed T N R t; t \<notin> X\<rbrakk> \<Longrightarrow> hn_allocated (ga_hash g t)"
    and alloc: "\<And>t. hn_allocated (ga_hash g t) \<Longrightarrow> t \<in> B \<and> t \<notin> X"
    and run: "ggml_gallocr_free_node T asz v g1 = Some g'"
  shows "walk_post T asz N S B X R g g'"
proof -
  note c1 = counters_only_inv[OF c inv]
  note f = free_node_effect[OF c1(1) v(1) run]
  have "own T v" using c1(1) v(1) by (auto simp: plan_inv_def hash_ok_def)
  then have "\<not> external T v" by (auto simp: own_def external_def)
  then have nn: "has_flag (T v) GGML_TENSOR_FLAG_OUTPUT" if "needed T N R v"
    using not_needed[OF cnt N _ v(2,3)] that by blast
  have same: "n_children (ga_hash g' t) = n_children (ga_hash g1 t)" "n_views (ga_hash g' t) = n_views (ga_hash g1 t)"
    "hn_buffer_id (ga_hash g' t) = hn_buffer_id (ga_hash g1 t)" "hn_addr (ga_hash g' t) = hn_addr (ga_hash g1 t)"
    "t \<noteq> v \<Longrightarrow> hn_allocated (ga_hash g' t) = hn_allocated (ga_hash g1 t)"
    "hn_allocated (ga_hash g' t) \<Longrightarrow> hn_allocated (ga_hash g1 t)"
    "has_flag (T v) GGML_TENSOR_FLAG_OUTPUT \<Longrightarrow> ga_hash g' t = ga_hash g1 t" for t
    unfolding f(3) by (auto split: if_splits)
  have a1: "hn_allocated (ga_hash g1 t) = hn_allocated (ga_hash g t)" for t using c by (simp add: counters_only_def)
  have "counts_ok T N S R g'" using cnt same by (simp add: counts_ok_def)
  moreover have "hn_allocated (ga_hash g' t)" if "t \<in> B" "own T t" "needed T N R t" "t \<notin> X" for t
    using nn same(5,7)[of t] a1[of t] need[OF that] that(3) by (cases "t = v") simp_all
  moreover have "t \<in> B \<and> t \<notin> X" if "hn_allocated (ga_hash g' t)" for t
    using alloc same(6)[OF that] a1 by blast
  moreover have "same_places g g' UNIV" using c same by (simp add: same_places_def counters_only_def)
  moreover have "hn_allocated (ga_hash g t)" if "hn_allocated (ga_hash g' t)" for t using same(6)[OF that] a1 by simp
  ultimately show ?thesis
    using f(1) same_config_trans[OF c1(2) f(2)] unfolding walk_post_def walk_inv_def by blast
qed

lemma update_parent_step:
  assumes W: "walk_inv T asz N S B X (s # R) g" and flat: "views_flat T N"
    and s: "\<And>p. s = Some p \<Longrightarrow> ref_ok T N S p"
    and run: "update_parent T asz s g = Some g'"
  shows "walk_post T asz N S B X R g g'"
proof -
  have inv: "plan_inv T asz g" and cnt: "counts_ok T N S (s # R) g" using W by (auto simp: walk_inv_def)
  have need: "hn_allocated (ga_hash g t)" if "t \<in> B" "own T t" "needed T N R t" "t \<notin> X" for t
    using W needed_mono[OF that(3), of "s # R"] that by (auto simp: walk_inv_def)
  have alloc: "t \<in> B \<and> t \<notin> X" if "hn_allocated (ga_hash g t)" for t using W that by (auto simp: walk_inv_def)
  have N: "finite N" using flat by (simp add: views_flat_def)
  show ?thesis
  proof (cases s)
    case None
    then have "g' = g" "counts_ok T N S R g" using run cnt by (auto simp: update_parent_def counts_pop_none)
    then show ?thesis using counters_post[of g g, OF _ inv _ need alloc] by (simp add: counters_only_def)
  next
    case (Some p)
    have r: "ref_ok T N S p" using s Some by simp
    define g1 where "g1 = upd_hash p (\<lambda>hn. hn\<lparr>n_children := n_children hn - 1\<rparr>) g"
    have c1: "counters_only g g1" unfolding g1_def by (rule counters_only_upd) simp
    have ch: "n_children (ga_hash g1 t) = refs R t" "n_views (ga_hash g1 t) = n_views (ga_hash g t)" for t
      using cnt Some by (auto simp: g1_def counts_ok_def refs_Cons)
    have views: "\<not> external T v \<Longrightarrow> n_views (ga_hash g1 v) = int (card (open_views T N S (Some p # R) v))" for v
      using cnt Some ch(2) by (simp add: counts_ok_def)
    have pop: "open_views T N S R v = (if Some p \<in> set R then open_views T N S (Some p # R) v else open_views T N S (Some p # R) v - {p})" for v
      using open_views_pop r by (simp add: ref_ok_def)
    have novp: "n_views (ga_hash g1 p) = 0" if "t_view_src (T p) \<noteq> None"
      using views[of p] open_views_view[OF flat that] that by (auto simp: external_def)
    show ?thesis
    proof (cases "n_children (ga_hash g1 p) = 0 \<and> n_views (ga_hash g1 p) = 0")
      case False
      then have "g' = g1" using run Some by (simp add: update_parent_def Let_def g1_def[symmetric] split: if_splits)
      moreover have "open_views T N S R v = open_views T N S (Some p # R) v" for v
      proof (cases "Some p \<in> set R")
        case False
        then have "t_view_src (T p) = None" using \<open>\<not> (_ \<and> _)\<close> ch(1)[of p] refs_0[of R p] novp
          by (cases "t_view_src (T p)") auto
        then have "p \<notin> open_views T N S (Some p # R) v" by (simp add: open_views_def counted_view_def)
        then show ?thesis using pop by auto
      qed (simp add: pop)
      then have "counts_ok T N S R g1" using ch views by (simp add: counts_ok_def)
      ultimately show ?thesis using counters_post[OF c1 inv _ need alloc] by simp
    next
      case True
      have notR: "Some p \<notin> set R" using True ch(1)[of p] refs_0[of R p] by simp
      show ?thesis
      proof (cases "t_view_src (T p)")
        case None
        then have "p \<notin> open_views T N S (Some p # R) v" for v by (simp add: open_views_def counted_view_def)
        then have cnt1: "counts_ok T N S R g1" using ch views pop notR by (simp add: counts_ok_def)
        have g': "(if hn_allocated (ga_hash g1 p) then ggml_gallocr_free_node T asz p g1 else Some g1) = Some g'"
          using run Some None True by (simp add: update_parent_def Let_def g1_def[symmetric])
        show ?thesis
        proof (cases "hn_allocated (ga_hash g1 p)")
          case alc: True
          then show ?thesis using free_post[OF c1 inv cnt1 N alc _ _ need alloc] True g' by simp
        next
          case False
          then show ?thesis using counters_post[OF c1 inv cnt1 need alloc] g' by simp
        qed
      next
        case (Some v)
        define g2 where "g2 = upd_hash v (\<lambda>hn. hn\<lparr>n_views := n_views hn - 1\<rparr>) g1"
        have c2: "counters_only g g2"
          by (rule counters_only_trans[OF c1]) (simp add: g2_def counters_only_upd)
        have vw: "n_views (ga_hash g2 u) = int (card (open_views T N S R u))" if u: "\<not> external T u" for u
        proof (cases "u = v")
          case True
          let ?O = "open_views T N S (Some p # R) v"
          have "p \<in> ?O" using r Some u True by (auto simp: ref_ok_def open_views_def)
          moreover have "finite ?O" using finite_open_views[OF N] .
          ultimately have "int (card (?O - {p})) = int (card ?O) - 1"
            using card_gt_0_iff[of ?O] by (auto simp: of_nat_diff)
          then show ?thesis using True u views[of v] pop[of v] notR by (simp add: g2_def)
        next
          case False
          then have "p \<notin> open_views T N S (Some p # R) u" using Some by (simp add: open_views_def counted_view_def)
          then show ?thesis using False u views[of u] pop[of u] notR by (simp add: g2_def)
        qed
        have cnt2: "counts_ok T N S R g2"
          unfolding counts_ok_def using vw ch(1) by (simp add: g2_def)
        have g': "(if n_views (ga_hash g2 v) = 0 \<and> n_children (ga_hash g2 v) = 0 \<and> hn_allocated (ga_hash g2 v)
            then ggml_gallocr_free_node T asz v g2 else Some g2) = Some g'"
          using run \<open>s = Some p\<close> Some True by (simp add: update_parent_def Let_def g1_def[symmetric] g2_def[symmetric])
        show ?thesis
        proof (cases "n_views (ga_hash g2 v) = 0 \<and> n_children (ga_hash g2 v) = 0 \<and> hn_allocated (ga_hash g2 v)")
          case fr: True
          then have "ggml_gallocr_free_node T asz v g2 = Some g'" using g' by simp
          then show ?thesis using free_post[OF c2 inv cnt2 N _ _ _ need alloc] fr by blast
        next
          case False
          have "g' = g2" using g' unfolding if_not_P[OF False] by simp
          then show ?thesis using counters_post[OF c2 inv cnt2 need alloc] by simp
        qed
      qed
    qed
  qed
qed

lemma walk_post_trans:
  assumes "walk_post T asz N S B X R g g'" "walk_post T asz N S B X R' g' g''"
  shows "walk_post T asz N S B X R' g g''"
  using assms same_config_trans same_places_trans[of g g' UNIV g'' UNIV] by (auto simp: walk_post_def)

lemma update_parents:
  assumes "walk_inv T asz N S B X (ss @ R) g" "views_flat T N" "\<And>p. Some p \<in> set ss \<Longrightarrow> ref_ok T N S p"
    "ofold (update_parent T asz) ss g = Some g'"
  shows "walk_post T asz N S B X R g g'"
  using assms
proof (induction ss arbitrary: g)
  case Nil
  then show ?case by (simp add: walk_post_def)
next
  case (Cons s ss)
  obtain g1 where g1: "update_parent T asz s g = Some g1" "ofold (update_parent T asz) ss g1 = Some g'"
    using Cons.prems(4) by (auto simp: bind_eq_Some_conv)
  have post: "walk_post T asz N S B X (ss @ R) g g1"
    by (rule update_parent_step[OF _ Cons.prems(2) _ g1(1)]) (use Cons.prems in auto)
  then have "walk_inv T asz N S B X (ss @ R) g1" by (simp add: walk_post_def)
  from Cons.IH[OF this Cons.prems(2) _ g1(2)] have "walk_post T asz N S B X R g1 g'" using Cons.prems(3) by auto
  then show ?case using walk_post_trans[OF post] by blast
qed

section \<open>Allocating a node and its sources\<close>

lemma walk_allocated:
  assumes "walk_inv T asz N S B {} R g" "source_ok T B p" "Some p \<in> set R"
  shows "\<not> (own T p \<and> \<not> hn_allocated (ga_hash g p))"
  using assms by (auto simp: walk_inv_def source_ok_def needed_def own_def external_def)

lemma alloc_srcs_kept:
  assumes "walk_inv T asz N S B {} R g" "\<And>p. Some p \<in> set ss \<Longrightarrow> source_ok T B p \<and> Some p \<in> set R"
    "ofold (alloc_src T asz b) ss g = Some g'"
  shows "g' = g"
  using assms(2,3)
proof (induction ss)
  case (Cons s ss)
  obtain g1 where g1: "alloc_src T asz b s g = Some g1" "ofold (alloc_src T asz b) ss g1 = Some g'"
    using Cons.prems(2) by (auto simp: bind_eq_Some_conv)
  have "g1 = g"
  proof (cases s)
    case None
    then show ?thesis using g1(1) by (simp add: alloc_src_def)
  next
    case (Some p)
    then have "\<not> (own T p \<and> \<not> hn_allocated (ga_hash g p))"
      using walk_allocated[OF assms(1)] Cons.prems(1) by auto
    then show ?thesis using allocate_node_kept g1(1) Some by (auto simp: alloc_src_def)
  qed
  then show ?case using Cons g1(2) by auto
qed simp

text \<open>The parents whose memory is taken over are not referred to by a later node.\<close>

definition used_last :: "tensors \<Rightarrow> nat set \<Rightarrow> nat option list \<Rightarrow> nat set \<Rightarrow> bool" where
  "used_last T N rest X \<longleftrightarrow> (\<forall>t \<in> X. \<not> needed T N rest t)"

lemma plan_alloc_step:
  assumes W: "walk_inv T asz N S B {} (t_src (T node) @ rest) g" and node: "node \<notin> B"
    and N: "finite N" and src: "\<And>p. Some p \<in> set (t_src (T node)) \<Longrightarrow> source_ok T B p"
    and run: "plan_alloc T asz b node g = Some h"
  shows "\<exists>X. walk_inv T asz N S (insert node B) X (t_src (T node) @ rest) h \<and> used_last T N rest X
    \<and> same_config g h \<and> same_places g h {t. t \<noteq> node \<or> \<not> own T t} \<and> (own T node \<longrightarrow> hn_allocated (ga_hash h node))
    \<and> (\<forall>t. hn_allocated (ga_hash h t) \<and> t \<noteq> node \<longrightarrow> hn_allocated (ga_hash g t))"
proof -
  let ?R = "t_src (T node) @ rest"
  have inv: "plan_inv T asz g" and cnt: "counts_ok T N S ?R g"
    and need: "\<And>t. \<lbrakk>t \<in> B; own T t; needed T N ?R t\<rbrakk> \<Longrightarrow> hn_allocated (ga_hash g t)"
    and alloc: "\<And>t. hn_allocated (ga_hash g t) \<Longrightarrow> t \<in> B"
    using W by (auto simp: walk_inv_def)
  have run': "ggml_gallocr_allocate_node T asz b node g = Some h"
    using run alloc_srcs_kept[OF W] src by (fastforce simp: plan_alloc_def bind_eq_Some_conv)
  show ?thesis
  proof (cases "own T node")
    case False
    then have "h = g" using allocate_node_kept run' by blast
    moreover have "walk_inv T asz N S (insert node B) {} ?R g"
      using W False by (auto simp: walk_inv_def)
    ultimately show ?thesis using False by (intro exI[of _ "{}"]) (auto simp: used_last_def)
  next
    case True
    have nal: "\<not> hn_allocated (ga_hash g node)" using alloc node by blast
    have self: "Some node \<notin> set (t_src (T node))"
    proof
      assume "Some node \<in> set (t_src (T node))"
      from src[OF this] node True show False by (auto simp: source_ok_def own_def external_def)
    qed
    have e: "plan_inv T asz h" "same_config g h" "alloc_effect T g node h"
      using allocate_node_effect[OF inv self run'] by blast+
    from e(3) show ?thesis
    proof cases
      case kept
      then show ?thesis using True nal by blast
    next
      case (fresh bid addr)
      have h: "t \<noteq> node \<Longrightarrow> ga_hash h t = ga_hash g t" "hn_allocated (ga_hash h node)"
        "n_children (ga_hash h t) = n_children (ga_hash g t)" "n_views (ga_hash h t) = n_views (ga_hash g t)" for t
        using fresh(3) by auto
      have "counts_ok T N S ?R h" using cnt h(3,4) by (simp add: counts_ok_def)
      moreover have "hn_allocated (ga_hash h t)" if "t \<in> insert node B" "own T t" "needed T N ?R t" for t
        using need[of t] that h by (cases "t = node") auto
      moreover have "t \<in> insert node B" if "hn_allocated (ga_hash h t)" for t
        using alloc[of t] that h(1)[of t] by (cases "t = node") auto
      ultimately have "walk_inv T asz N S (insert node B) {} ?R h" using e(1) by (simp add: walk_inv_def)
      moreover have "same_places g h {t. t \<noteq> node \<or> \<not> own T t}" using h(1) True by (auto simp: same_places_def)
      ultimately show ?thesis using e(2) h(1,2)
        by (intro exI[of _ "{}"]) (auto simp: used_last_def)
    next
      case (taken p)
      have pn: "p \<noteq> node" using taken(4) self by auto
      have h: "t \<noteq> node \<Longrightarrow> t \<noteq> p \<Longrightarrow> ga_hash h t = ga_hash g t" "hn_allocated (ga_hash h node)" "\<not> hn_allocated (ga_hash h p)"
        "n_children (ga_hash h t) = n_children (ga_hash g t)" "n_views (ga_hash h t) = n_views (ga_hash g t)"
        "hn_addr (ga_hash h p) = hn_addr (ga_hash g p)" "hn_buffer_id (ga_hash h p) = hn_buffer_id (ga_hash g p)" for t
        using taken(9) pn by auto
      have "counts_ok T N S ?R h" using cnt h(4,5) by (simp add: counts_ok_def)
      moreover have "hn_allocated (ga_hash h t)" if "t \<in> insert node B" "own T t" "needed T N ?R t" "t \<notin> {p}" for t
        using need[of t] that h(1,2) by (cases "t = node") auto
      moreover have "t \<in> insert node B \<and> t \<notin> {p}" if "hn_allocated (ga_hash h t)" for t
        using alloc[of t] that h(1,3) by (cases "t = node"; cases "t = p") auto
      ultimately have W': "walk_inv T asz N S (insert node B) {p} ?R h" using e(1) by (simp add: walk_inv_def)
      have "refs ?R p = 1" using cnt taken(7) by (simp add: counts_ok_def)
      moreover have "0 < count_list (t_src (T node)) (Some p)"
        using taken(4) by (metis count_list_0_iff gr0I)
      ultimately have notR: "Some p \<notin> set rest" using count_list_0_iff[of rest "Some p"] by (auto simp: refs_def)
      have "own T p" using inv taken(5) by (auto simp: plan_inv_def hash_ok_def)
      then have "\<not> external T p" by (auto simp: own_def external_def)
      then have "open_views T N S ?R p = {}"
        using cnt taken(8) finite_open_views[OF N] by (auto simp: counts_ok_def)
      then have "used_last T N rest {p}" using notR taken(6) by (auto simp: used_last_def needed_def open_views_def)
      moreover have "same_places g h {t. t \<noteq> node \<or> \<not> own T t}"
        unfolding same_places_def
      proof
        fix t assume "t \<in> {t. t \<noteq> node \<or> \<not> own T t}"
        then have "t \<noteq> node" using True by auto
        then show "hn_buffer_id (ga_hash h t) = hn_buffer_id (ga_hash g t) \<and> hn_addr (ga_hash h t) = hn_addr (ga_hash g t)"
          using h(1)[of t] h(6,7) by (cases "t = p") auto
      qed
      moreover have "hn_allocated (ga_hash g t)" if "hn_allocated (ga_hash h t)" "t \<noteq> node" for t
        using that h(1)[of t] h(3) by (cases "t = p") auto
      ultimately show ?thesis using W' e(2) h(2) by blast
    qed
  qed
qed

text \<open>One node: allocate it, then use up the references to its sources.\<close>

lemma plan_node_step:
  assumes W: "walk_inv T asz N S B {} (t_src (T node) @ rest) g" and node: "node \<notin> B"
    and flat: "views_flat T N" and src: "\<And>p. Some p \<in> set (t_src (T node)) \<Longrightarrow> source_ok T B p \<and> ref_ok T N S p"
    and i: "vget nodes i = Some node" and run: "plan_node T asz ids nodes i g = Some g'"
  shows "\<exists>h. plan_inv T asz h \<and> same_config g h \<and> same_places g h {t. t \<noteq> node \<or> \<not> own T t} \<and> (own T node \<longrightarrow> hn_allocated (ga_hash h node))
    \<and> (\<forall>t. hn_allocated (ga_hash h t) \<and> t \<noteq> node \<longrightarrow> hn_allocated (ga_hash g t))
    \<and> walk_inv T asz N S (insert node B) {} rest g' \<and> same_config h g' \<and> same_places h g' UNIV
    \<and> (\<forall>t. hn_allocated (ga_hash g' t) \<longrightarrow> hn_allocated (ga_hash h t))
    \<and> (\<exists>b. plan_alloc T asz b node g = Some h) \<and> ofold (update_parent T asz) (t_src (T node)) h = Some g'"
proof -
  obtain b h where h: "plan_alloc T asz b node g = Some h" "ofold (update_parent T asz) (t_src (T node)) h = Some g'"
    using run i by (auto simp: plan_node_def bind_eq_Some_conv)
  have N: "finite N" using flat by (simp add: views_flat_def)
  have src1: "source_ok T B p" if "Some p \<in> set (t_src (T node))" for p using src[OF that] by blast
  have src2: "ref_ok T N S p" if "Some p \<in> set (t_src (T node))" for p using src[OF that] by blast
  obtain X where X: "walk_inv T asz N S (insert node B) X (t_src (T node) @ rest) h" "used_last T N rest X"
    "same_config g h" "same_places g h {t. t \<noteq> node \<or> \<not> own T t}" "own T node \<longrightarrow> hn_allocated (ga_hash h node)"
    "\<forall>t. hn_allocated (ga_hash h t) \<and> t \<noteq> node \<longrightarrow> hn_allocated (ga_hash g t)"
    using plan_alloc_step[OF W node N src1 h(1)] by blast
  have post: "walk_post T asz N S (insert node B) X rest h g'"
    by (rule update_parents[OF X(1) flat src2 h(2)])
  then have "walk_inv T asz N S (insert node B) X rest g'" by (simp add: walk_post_def)
  then have "walk_inv T asz N S (insert node B) {} rest g'"
    using X(2) unfolding walk_inv_def used_last_def by blast
  moreover have "plan_inv T asz h" using X(1) by (simp add: walk_inv_def)
  ultimately show ?thesis using post X(3-6) h unfolding walk_post_def by blast
qed

end
