(* ===== verification/Gallocr_Run.thy ===== *)
theory Gallocr_Run
  imports Gallocr_Plan
begin

text \<open>
  A planned graph computes on the right bytes. The three passes over a graph are followed one
  after the other: the leafs get regions of their own, the counters count the references, and the
  nodes are placed in order. \<open>run_mem\<close> then runs the graph on the planned places, every tensor
  leaving its mark on the bytes it is given, and a node finds the marks of its sources.
\<close>

section \<open>An allocator ready for planning\<close>

definition gallocr_ready :: "(nat \<Rightarrow> nat \<Rightarrow> size_t) \<Rightarrow> ggml_gallocr \<Rightarrow> bool" where
  "gallocr_ready asz g \<longleftrightarrow> config_ok asz g
     \<and> (\<forall>s \<in> set (ga_tallocs g). align_ok (dt_alignment s) \<and> unat (max_chunk_size s) < 2 ^ 63)"

definition reset_hash :: "ggml_gallocr \<Rightarrow> ggml_gallocr" where
  "reset_hash g = g\<lparr>ga_tallocs := map ggml_dyn_tallocr_reset (ga_tallocs g), ga_hash := (\<lambda>_. hash_node_zero)\<rparr>"

lemma reset_ok:
  assumes "align_ok (dt_alignment s)" "unat (max_chunk_size s) < 2 ^ 63"
  shows "tallocr_ok (dt_alignment s) (ggml_dyn_tallocr_reset s) []"
  using assms unfolding tallocr_ok_def tallocr_inv_def
  by (auto simp: ggml_dyn_tallocr_reset_def free_space_def cap_space_def GGML_VBUFFER_MAX_CHUNKS_def intro!: exI[of _ "[]"])

lemma reset_hash_inv:
  assumes "gallocr_ready asz g"
  shows "plan_inv T asz (reset_hash g)"
proof -
  have al: "alignment (reset_hash g) k = alignment g k" if "k < length (ga_tallocs g)" for k
    using that by (simp add: alignment_def reset_hash_def ggml_dyn_tallocr_reset_def)
  have "tallocr_ok (alignment (reset_hash g) k) (ga_tallocs (reset_hash g) ! k) []" if "k < length (ga_tallocs (reset_hash g))" for k
    using reset_ok[of "ga_tallocs g ! k"] assms that al[of k] by (simp add: gallocr_ready_def reset_hash_def alignment_def)
  then have "regions_ok asz (reset_hash g)"
    unfolding regions_ok_def by (intro exI[of _ "\<lambda>_. []"]) (auto simp: allocated_in_def reset_hash_def hash_node_zero_def)
  moreover have "hash_ok T (reset_hash g)" by (simp add: hash_ok_def reset_hash_def hash_node_zero_def)
  moreover have "config_ok asz (reset_hash g)"
    using assms al nth_mem[of _ "ga_buf_tallocs g"] unfolding gallocr_ready_def config_ok_def
    by (auto simp: reset_hash_def)
  ultimately show ?thesis by (simp add: plan_inv_def)
qed

section \<open>The leafs\<close>

definition no_counts :: "ggml_gallocr \<Rightarrow> bool" where
  "no_counts g \<longleftrightarrow> (\<forall>t. n_children (ga_hash g t) = 0 \<and> n_views (ga_hash g t) = 0)"

text \<open>Tensors that were not reached yet have the address they were given when the table was cleared.\<close>

definition unplaced :: "nat set \<Rightarrow> ggml_gallocr \<Rightarrow> bool" where
  "unplaced B g \<longleftrightarrow> (\<forall>t. t \<notin> B \<longrightarrow> ba_offset (hn_addr (ga_hash g t)) = 0)"

text \<open>The buffer ids in the table exist, also the 0 of tensors that were not placed.\<close>

definition buffer_ok :: "ggml_gallocr \<Rightarrow> int \<Rightarrow> bool" where
  "buffer_ok g b \<longleftrightarrow> 0 \<le> b \<and> nat b < length (ga_bufts g)"

definition named_buffers :: "ggml_gallocr \<Rightarrow> bool" where
  "named_buffers g \<longleftrightarrow> (ga_bufts g \<noteq> [] \<longrightarrow> (\<forall>t. buffer_ok g (hn_buffer_id (ga_hash g t))))"

lemma named_step:
  assumes "named_buffers g" "same_config g g'" "hash_ok T g'"
    "\<And>t. hn_buffer_id (ga_hash g' t) = hn_buffer_id (ga_hash g t) \<or> hn_allocated (ga_hash g' t)"
  shows "named_buffers g'"
  unfolding named_buffers_def
proof (intro impI allI)
  fix t assume "ga_bufts g' \<noteq> []"
  then have "buffer_ok g' (hn_buffer_id (ga_hash g t))"
    using assms(1,2) by (simp add: named_buffers_def buffer_ok_def same_config_def)
  then show "buffer_ok g' (hn_buffer_id (ga_hash g' t))"
    using assms(3) assms(4)[of t] by (auto simp: hash_ok_def buffer_ok_def)
qed

definition leaf_inv :: "tensors \<Rightarrow> (nat \<Rightarrow> nat \<Rightarrow> size_t) \<Rightarrow> nat set \<Rightarrow> ggml_gallocr \<Rightarrow> bool" where
  "leaf_inv T asz B g \<longleftrightarrow> plan_inv T asz g \<and> no_counts g \<and> unplaced B g \<and> named_buffers g
     \<and> (\<forall>t. hn_allocated (ga_hash g t) \<longleftrightarrow> t \<in> B \<and> own T t)"

lemma leaf_step:
  assumes L: "leaf_inv T asz B g" and op: "t_op (T t) = GGML_OP_NONE"
    and run: "ggml_gallocr_allocate_node T asz b t g = Some g'"
  shows "leaf_inv T asz (insert t B) g' \<and> same_config g g'"
proof -
  have inplace: "\<not> ggml_op_can_inplace (t_op (T t))" using op by (simp add: ggml_op_can_inplace_def)
  have inv: "plan_inv T asz g" using L by (simp add: leaf_inv_def)
  have e: "plan_inv T asz g'" "same_config g g'" "alloc_effect T g t g'"
    using allocate_node_effect[OF inv _ run] inplace by blast+
  from e(3) show ?thesis
  proof cases
    case kept
    then show ?thesis using L by (auto simp: leaf_inv_def unplaced_def)
  next
    case (fresh bid addr)
    then have "no_counts g'" "unplaced (insert t B) g'"
      using L by (simp_all add: leaf_inv_def no_counts_def unplaced_def)
    moreover have "hn_allocated (ga_hash g' u) \<longleftrightarrow> u \<in> insert t B \<and> own T u" for u
      using L fresh by (auto simp: leaf_inv_def)
    moreover have "named_buffers g'"
      by (rule named_step[OF _ e(2)]) (use L e(1) fresh in \<open>auto simp: leaf_inv_def plan_inv_def\<close>)
    ultimately show ?thesis using e by (simp add: leaf_inv_def)
  next
    case (taken p)
    then show ?thesis using inplace by blast
  qed
qed

lemma leaf_walk:
  assumes "leaf_inv T asz B g" "\<And>i. i \<in> set js \<Longrightarrow> i < length leafs \<and> t_op (T (leafs ! i)) = GGML_OP_NONE"
    "ofold (plan_leaf T asz ids leafs) js g = Some g'"
  shows "leaf_inv T asz (B \<union> (\<lambda>i. leafs ! i) ` set js) g' \<and> same_config g g'"
  using assms
proof (induction js arbitrary: B g)
  case (Cons j js)
  obtain g1 where g1: "plan_leaf T asz ids leafs j g = Some g1" "ofold (plan_leaf T asz ids leafs) js g1 = Some g'"
    using Cons.prems(3) by (auto simp: bind_eq_Some_conv)
  obtain b where b: "ggml_gallocr_allocate_node T asz b (leafs ! j) g = Some g1"
    using g1(1) Cons.prems(2)[of j] by (auto simp: plan_leaf_def bind_eq_Some_conv)
  have s: "leaf_inv T asz (insert (leafs ! j) B) g1" "same_config g g1"
    using leaf_step[OF Cons.prems(1) _ b] Cons.prems(2)[of j] by auto
  from Cons.IH[OF s(1) _ g1(2)] have "leaf_inv T asz (insert (leafs ! j) B \<union> (\<lambda>i. leafs ! i) ` set js) g' \<and> same_config g1 g'"
    using Cons.prems(2) by auto
  then show ?case using same_config_trans[OF s(2)] by simp
qed simp

section \<open>Counting\<close>

text \<open>Counters after the references \<open>R\<close> of the nodes \<open>M\<close>.\<close>

definition counted :: "tensors \<Rightarrow> nat set \<Rightarrow> nat option list \<Rightarrow> ggml_gallocr \<Rightarrow> bool" where
  "counted T M R g \<longleftrightarrow> (\<forall>t. n_children (ga_hash g t) = refs R t \<and> n_views (ga_hash g t) = int (card {w \<in> M. counted_view T t w}))"

lemma count_src_step:
  assumes inv: "counted T M R g" and run: "count_src T asz b s g = Some g'"
    and inp: "\<And>p. \<lbrakk>s = Some p; has_flag (T p) GGML_TENSOR_FLAG_INPUT; own T p\<rbrakk> \<Longrightarrow> hn_allocated (ga_hash g p)"
  shows "counted T M (R @ [s]) g' \<and> counters_only g g'"
proof (cases s)
  case None
  then show ?thesis using inv run by (simp add: count_src_def counted_def refs_def counters_only_def)
next
  case (Some p)
  define g1 where "g1 = upd_hash p (\<lambda>hn. hn\<lparr>n_children := n_children hn + 1\<rparr>) g"
  have c: "counters_only g g1" unfolding g1_def by (rule counters_only_upd) simp
  have "g' = g1"
  proof (cases "has_flag (T p) GGML_TENSOR_FLAG_INPUT")
    case True
    then have "\<not> (own T p \<and> \<not> hn_allocated (ga_hash g1 p))" using inp[OF Some] c by (auto simp: counters_only_def)
    moreover have "ggml_gallocr_allocate_node T asz b p g1 = Some g'"
      using run Some True by (simp add: count_src_def Let_def g1_def)
    ultimately show ?thesis using allocate_node_kept by blast
  next
    case False
    then show ?thesis using run Some by (simp add: count_src_def g1_def Let_def)
  qed
  moreover have "counted T M (R @ [s]) g1" using inv Some by (auto simp: counted_def g1_def refs_def)
  ultimately show ?thesis using c by simp
qed

lemma count_srcs:
  assumes "counted T M R g" "ofold (count_src T asz b) ss g = Some g'"
    "\<And>p. \<lbrakk>Some p \<in> set ss; has_flag (T p) GGML_TENSOR_FLAG_INPUT; own T p\<rbrakk> \<Longrightarrow> hn_allocated (ga_hash g p)"
  shows "counted T M (R @ ss) g' \<and> counters_only g g'"
  using assms
proof (induction ss arbitrary: R g)
  case Nil
  then show ?case by (simp add: counters_only_def)
next
  case (Cons s ss)
  obtain g1 where g1: "count_src T asz b s g = Some g1" "ofold (count_src T asz b) ss g1 = Some g'"
    using Cons.prems(2) by (auto simp: bind_eq_Some_conv)
  have s: "counted T M (R @ [s]) g1" "counters_only g g1"
    using count_src_step[OF Cons.prems(1) g1(1)] Cons.prems(3) by auto
  from Cons.IH[OF s(1) g1(2)] have "counted T M ((R @ [s]) @ ss) g' \<and> counters_only g1 g'"
    using Cons.prems(3) s(2) by (simp add: counters_only_def)
  then show ?case using counters_only_trans[OF s(2)] by simp
qed

lemma count_view_step:
  assumes "counted T M R g" "finite M" "node \<notin> M"
  shows "counted T (insert node M) R (count_view T node g) \<and> counters_only g (count_view T node g)"
proof -
  have split: "{w \<in> insert node M. counted_view T t w} = (if counted_view T t node then insert node else id) {w \<in> M. counted_view T t w}" for t
    by auto
  have card: "card {w \<in> insert node M. counted_view T t w} = card {w \<in> M. counted_view T t w} + (if counted_view T t node then 1 else 0)" for t
    unfolding split using assms(2,3) by simp
  have "counters_only g (count_view T node g)"
    by (auto simp: count_view_def counters_only_def split: option.splits)
  moreover have "counted T (insert node M) R (count_view T node g)"
    using assms(1) unfolding counted_def card
    by (auto simp: count_view_def counted_view_def split: option.splits)
  ultimately show ?thesis by blast
qed

lemma count_node_step:
  assumes cnt: "counted T M R g" "finite M" "node \<notin> M" and i: "vget nodes i = Some node"
    and noinp: "\<not> has_flag (T node) GGML_TENSOR_FLAG_INPUT"
    and inp: "\<And>p. \<lbrakk>Some p \<in> set (t_src (T node)); has_flag (T p) GGML_TENSOR_FLAG_INPUT; own T p\<rbrakk> \<Longrightarrow> hn_allocated (ga_hash g p)"
    and run: "count_node T asz ids nodes i g = Some g'"
  shows "counted T (insert node M) (R @ t_src (T node)) g' \<and> counters_only g g'"
proof -
  have v: "counted T (insert node M) R (count_view T node g)" "counters_only g (count_view T node g)"
    using count_view_step[OF cnt] by auto
  obtain b where "ofold (count_src T asz b) (t_src (T node)) (count_view T node g) = Some g'"
    using run i noinp by (auto simp: count_node_def bind_eq_Some_conv Let_def)
  from count_srcs[OF v(1) this] inp v(2) show ?thesis
    using counters_only_trans[OF v(2)] by (simp add: counters_only_def)
qed

lemma graph_node:
  assumes "graph_ok T graph" "i < length (cg_nodes graph)"
  shows "\<And>p. Some p \<in> set (t_src (T (cg_nodes graph ! i))) \<Longrightarrow> source_ok T (set (cg_leafs graph) \<union> set (take i (cg_nodes graph))) p"
    "\<And>v. \<lbrakk>t_view_src (T (cg_nodes graph ! i)) = Some v; t_op (T (cg_nodes graph ! i)) \<noteq> GGML_OP_NONE\<rbrakk>
      \<Longrightarrow> t_view_src (T v) = None \<and> source_ok T (set (cg_leafs graph) \<union> set (take i (cg_nodes graph))) v"
    "\<not> has_flag (T (cg_nodes graph ! i)) GGML_TENSOR_FLAG_INPUT"
    "cg_nodes graph ! i \<notin> set (cg_leafs graph) \<union> set (take i (cg_nodes graph))"
    "\<And>p. \<lbrakk>Some p \<in> set (t_src (T (cg_nodes graph ! i))); p \<in> set (cg_nodes graph); t_view_src (T p) \<noteq> None\<rbrakk> \<Longrightarrow> t_op (T p) \<noteq> GGML_OP_NONE"
proof -
  show "cg_nodes graph ! i \<notin> set (cg_leafs graph) \<union> set (take i (cg_nodes graph))"
  proof -
    have d: "distinct (cg_nodes graph)" "set (cg_leafs graph) \<inter> set (cg_nodes graph) = {}"
      using assms(1) by (auto simp: graph_ok_def)
    have "distinct (take i (cg_nodes graph) @ cg_nodes graph ! i # drop (Suc i) (cg_nodes graph))"
      using d(1) id_take_nth_drop[OF assms(2)] by metis
    then show ?thesis using d(2) nth_mem[OF assms(2)] by auto
  qed
  have "\<forall>i < length (cg_nodes graph). let n = cg_nodes graph ! i; B = set (cg_leafs graph) \<union> set (take i (cg_nodes graph)) in
          (\<forall>p. Some p \<in> set (t_src (T n)) \<longrightarrow> source_ok T B p)
          \<and> (\<forall>p. Some p \<in> set (t_src (T n)) \<and> p \<in> set (cg_nodes graph) \<and> t_view_src (T p) \<noteq> None \<longrightarrow> t_op (T p) \<noteq> GGML_OP_NONE)
          \<and> (\<forall>v. t_view_src (T n) = Some v \<and> t_op (T n) \<noteq> GGML_OP_NONE \<longrightarrow> t_view_src (T v) = None \<and> source_ok T B v)
          \<and> \<not> has_flag (T n) GGML_TENSOR_FLAG_INPUT"
    using assms(1) unfolding graph_ok_def by blast
  note F = this[unfolded Let_def, rule_format, OF assms(2)]
  show "\<And>p. Some p \<in> set (t_src (T (cg_nodes graph ! i))) \<Longrightarrow> source_ok T (set (cg_leafs graph) \<union> set (take i (cg_nodes graph))) p"
    "\<And>v. \<lbrakk>t_view_src (T (cg_nodes graph ! i)) = Some v; t_op (T (cg_nodes graph ! i)) \<noteq> GGML_OP_NONE\<rbrakk>
      \<Longrightarrow> t_view_src (T v) = None \<and> source_ok T (set (cg_leafs graph) \<union> set (take i (cg_nodes graph))) v"
    "\<not> has_flag (T (cg_nodes graph ! i)) GGML_TENSOR_FLAG_INPUT"
    "\<And>p. \<lbrakk>Some p \<in> set (t_src (T (cg_nodes graph ! i))); p \<in> set (cg_nodes graph); t_view_src (T p) \<noteq> None\<rbrakk> \<Longrightarrow> t_op (T p) \<noteq> GGML_OP_NONE"
    using F by blast+
qed

lemma graph_leaf:
  assumes "graph_ok T graph" "t \<in> set (cg_leafs graph)"
  shows "t_op (T t) = GGML_OP_NONE" "t_view_src (T t) = Some v \<Longrightarrow> external T v"
  using assms by (auto simp: graph_ok_def)

lemma graph_input_leaf:
  assumes "graph_ok T graph" "i < length (cg_nodes graph)"
    "Some p \<in> set (t_src (T (cg_nodes graph ! i)))" "has_flag (T p) GGML_TENSOR_FLAG_INPUT" "own T p"
  shows "p \<in> set (cg_leafs graph)"
proof -
  have "p \<notin> set (take i (cg_nodes graph))"
    using graph_node(3)[OF assms(1)] assms(4) by (auto simp: in_set_conv_nth)
  then show ?thesis
    using graph_node(1)[OF assms(1,2,3)] assms(5) by (auto simp: source_ok_def own_def external_def)
qed

lemma count_walk:
  assumes graph: "graph_ok T graph" and n: "n = length (cg_nodes graph)"
    and leafs: "\<And>t. \<lbrakk>t \<in> set (cg_leafs graph); own T t\<rbrakk> \<Longrightarrow> hn_allocated (ga_hash g t)"
    and run: "ofold (count_node T asz ids (cg_nodes graph)) [i..<n] g = Some g'" "i \<le> n"
    and cnt: "counted T (set (take i (cg_nodes graph))) (concat (map (\<lambda>t. t_src (T t)) (take i (cg_nodes graph)))) g"
  shows "counted T (set (cg_nodes graph)) (concat (map (\<lambda>t. t_src (T t)) (cg_nodes graph))) g' \<and> counters_only g g'"
  using leafs run cnt
proof (induction "n - i" arbitrary: i g)
  case 0
  then show ?case using n by (simp add: counters_only_def)
next
  case (Suc d)
  then have i: "i < n" by simp
  let ?node = "cg_nodes graph ! i"
  obtain g1 where g1: "count_node T asz ids (cg_nodes graph) i g = Some g1" "ofold (count_node T asz ids (cg_nodes graph)) [Suc i..<n] g1 = Some g'"
    using Suc.prems(2) upt_conv_Cons[OF i] by (auto simp: bind_eq_Some_conv)
  have inp: "hn_allocated (ga_hash g p)"
    if "Some p \<in> set (t_src (T ?node))" "has_flag (T p) GGML_TENSOR_FLAG_INPUT" "own T p" for p
    using graph_input_leaf[OF graph _ that] i n Suc.prems(1) that(3) by blast
  have step: "counted T (insert ?node (set (take i (cg_nodes graph)))) (concat (map (\<lambda>t. t_src (T t)) (take i (cg_nodes graph))) @ t_src (T ?node)) g1"
    "counters_only g g1"
    using count_node_step[OF Suc.prems(4) _ _ _ _ inp g1(1)] graph_node(3,4)[OF graph] i n by auto
  have "hn_allocated (ga_hash g1 t)" if "t \<in> set (cg_leafs graph)" "own T t" for t
    using Suc.prems(1)[OF that] step(2) by (simp add: counters_only_def)
  from Suc.hyps(1)[OF _ this g1(2)] step i Suc.hyps(2) n
  have "counted T (set (cg_nodes graph)) (concat (map (\<lambda>t. t_src (T t)) (cg_nodes graph))) g' \<and> counters_only g1 g'"
    by (simp add: take_Suc_conv_app_nth)
  then show ?case using counters_only_trans[OF step(2)] by blast
qed

section \<open>The nodes\<close>

abbreviation node_refs :: "tensors \<Rightarrow> nat list \<Rightarrow> nat option list" where
  "node_refs T ns \<equiv> concat (map (\<lambda>t. t_src (T t)) ns)"

definition walk_at :: "tensors \<Rightarrow> (nat \<Rightarrow> nat \<Rightarrow> size_t) \<Rightarrow> ggml_cgraph \<Rightarrow> nat \<Rightarrow> ggml_gallocr \<Rightarrow> bool" where
  "walk_at T asz graph i g \<longleftrightarrow> walk_inv T asz (set (cg_nodes graph)) (node_refs T (cg_nodes graph))
     (set (cg_leafs graph) \<union> set (take i (cg_nodes graph))) {} (node_refs T (drop i (cg_nodes graph))) g
     \<and> unplaced (set (cg_leafs graph) \<union> set (take i (cg_nodes graph))) g \<and> named_buffers g"

lemma counted_walk_at:
  assumes L: "leaf_inv T asz (set (cg_leafs graph)) g"
    and c: "counted T (set (cg_nodes graph)) (node_refs T (cg_nodes graph)) g'" "counters_only g g'"
  shows "walk_at T asz graph 0 g'"
proof -
  have "open_views T (set (cg_nodes graph)) S S v = {w \<in> set (cg_nodes graph). counted_view T v w}" for S v
    by (auto simp: open_views_def)
  then have "counts_ok T (set (cg_nodes graph)) (node_refs T (cg_nodes graph)) (node_refs T (cg_nodes graph)) g'"
    using c(1) by (simp add: counts_ok_def counted_def)
  moreover have "plan_inv T asz g'" using counters_only_inv(1)[OF c(2)] L by (simp add: leaf_inv_def)
  moreover have "hn_allocated (ga_hash g' t) \<longleftrightarrow> t \<in> set (cg_leafs graph) \<and> own T t" for t
    using L c(2) by (simp add: leaf_inv_def counters_only_def)
  moreover have "unplaced (set (cg_leafs graph)) g'" "named_buffers g'"
    using L c(2) by (simp_all add: leaf_inv_def unplaced_def named_buffers_def buffer_ok_def counters_only_def)
  ultimately show ?thesis by (auto simp: walk_at_def walk_inv_def)
qed

lemma graph_views_flat: "graph_ok T graph \<Longrightarrow> views_flat T (set (cg_nodes graph))"
  using graph_node(2) by (auto simp: views_flat_def counted_view_def in_set_conv_nth)

lemma graph_ref_ok:
  assumes "graph_ok T graph" "i < length (cg_nodes graph)" "Some p \<in> set (t_src (T (cg_nodes graph ! i)))"
  shows "ref_ok T (set (cg_nodes graph)) (node_refs T (cg_nodes graph)) p"
proof -
  have "external T v \<or> p \<in> set (cg_nodes graph) \<and> counted_view T v p" if v: "t_view_src (T p) = Some v" for v
  proof (cases "p \<in> set (cg_leafs graph)")
    case True
    then show ?thesis using graph_leaf(2)[OF assms(1) True v] by blast
  next
    case False
    then have "p \<in> set (take i (cg_nodes graph))"
      using graph_node(1)[OF assms] v by (auto simp: source_ok_def external_def)
    then show ?thesis
      using graph_node(5)[OF assms] v set_take_subset[of i "cg_nodes graph"] by (auto simp: counted_view_def)
  qed
  then show ?thesis using assms(2,3) by (auto simp: ref_ok_def)
qed

lemma walk_at_step:
  assumes graph: "graph_ok T graph" and i: "i < length (cg_nodes graph)" and W: "walk_at T asz graph i g"
    and run: "plan_node T asz ids (cg_nodes graph) i g = Some g'"
  shows "\<exists>h. plan_inv T asz h \<and> same_config g h \<and> same_places g h {t. t \<noteq> cg_nodes graph ! i \<or> \<not> own T t}
    \<and> (own T (cg_nodes graph ! i) \<longrightarrow> hn_allocated (ga_hash h (cg_nodes graph ! i)))
    \<and> (\<forall>t. hn_allocated (ga_hash h t) \<and> t \<noteq> cg_nodes graph ! i \<longrightarrow> hn_allocated (ga_hash g t))
    \<and> walk_at T asz graph (Suc i) g' \<and> same_config h g' \<and> same_places h g' UNIV
    \<and> (\<forall>t. hn_allocated (ga_hash g' t) \<longrightarrow> hn_allocated (ga_hash h t))
    \<and> (\<exists>b. plan_alloc T asz b (cg_nodes graph ! i) g = Some h)
    \<and> ofold (update_parent T asz) (t_src (T (cg_nodes graph ! i))) h = Some g'"
proof -
  let ?B = "set (cg_leafs graph) \<union> set (take i (cg_nodes graph))"
  have W': "walk_inv T asz (set (cg_nodes graph)) (node_refs T (cg_nodes graph)) ?B {}
      (t_src (T (cg_nodes graph ! i)) @ node_refs T (drop (Suc i) (cg_nodes graph))) g"
    using W Cons_nth_drop_Suc[OF i, symmetric] by (simp add: walk_at_def)
  have B: "set (cg_leafs graph) \<union> set (take (Suc i) (cg_nodes graph)) = insert (cg_nodes graph ! i) ?B"
    using i by (simp add: take_Suc_conv_app_nth)
  have vg: "vget (cg_nodes graph) i = Some (cg_nodes graph ! i)" using i by simp
  have src: "source_ok T ?B p \<and> ref_ok T (set (cg_nodes graph)) (node_refs T (cg_nodes graph)) p"
    if "Some p \<in> set (t_src (T (cg_nodes graph ! i)))" for p
    using graph_node(1)[OF graph i that] graph_ref_ok[OF graph i that] by blast
  have un: "unplaced (insert (cg_nodes graph ! i) ?B) g'"
    if "same_places g h {t. t \<noteq> cg_nodes graph ! i \<or> \<not> own T t}" "same_places h g' UNIV" for h
    using W that by (auto simp: walk_at_def unplaced_def same_places_def)
  have nm: "named_buffers g'"
    if h: "plan_inv T asz h" "same_config g h" "same_places g h {t. t \<noteq> cg_nodes graph ! i \<or> \<not> own T t}"
      "own T (cg_nodes graph ! i) \<longrightarrow> hn_allocated (ga_hash h (cg_nodes graph ! i))" "same_config h g'" "same_places h g' UNIV" for h
  proof -
    have "named_buffers g" using W by (simp add: walk_at_def)
    moreover have "hash_ok T h" using h(1) by (simp add: plan_inv_def)
    moreover have "hn_buffer_id (ga_hash h t) = hn_buffer_id (ga_hash g t) \<or> hn_allocated (ga_hash h t)" for t
      using h(3,4) by (cases "t = cg_nodes graph ! i \<and> own T t") (auto simp: same_places_def)
    ultimately have "named_buffers h" using named_step[OF _ h(2)] by blast
    then show ?thesis using h(5,6) by (simp add: named_buffers_def buffer_ok_def same_config_def same_places_def)
  qed
  show ?thesis
    using plan_node_step[OF W' graph_node(4)[OF graph i] graph_views_flat[OF graph] src vg run] un nm
    unfolding walk_at_def B by blast
qed

text \<open>Places are final once given.\<close>

lemma walk_places:
  assumes "graph_ok T graph" "n = length (cg_nodes graph)" "walk_at T asz graph i g" "i \<le> n"
    "ofold (plan_node T asz ids (cg_nodes graph)) [i..<n] g = Some g'"
  shows "walk_at T asz graph n g' \<and> same_config g g' \<and> same_places g g' (set (cg_leafs graph) \<union> set (take i (cg_nodes graph)))"
  using assms(3-5)
proof (induction "n - i" arbitrary: i g)
  case (Suc d)
  then have i: "i < n" by simp
  obtain g1 where g1: "plan_node T asz ids (cg_nodes graph) i g = Some g1" "ofold (plan_node T asz ids (cg_nodes graph)) [Suc i..<n] g1 = Some g'"
    using Suc.prems(3) upt_conv_Cons[OF i] by (auto simp: bind_eq_Some_conv)
  obtain h where h: "same_config g h" "same_places g h {t. t \<noteq> cg_nodes graph ! i \<or> \<not> own T t}"
    "walk_at T asz graph (Suc i) g1" "same_config h g1" "same_places h g1 UNIV"
    using walk_at_step[OF assms(1) _ Suc.prems(1) g1(1)] i assms(2) by blast
  have IH: "walk_at T asz graph n g'" "same_config g1 g'" "same_places g1 g' (set (cg_leafs graph) \<union> set (take (Suc i) (cg_nodes graph)))"
    using Suc.hyps(1)[OF _ h(3) _ g1(2)] Suc.hyps(2) i by auto
  have sub: "set (cg_leafs graph) \<union> set (take i (cg_nodes graph)) \<subseteq> set (cg_leafs graph) \<union> set (take (Suc i) (cg_nodes graph))"
    using set_take_subset_set_take[of i "Suc i" "cg_nodes graph"] by auto
  have "same_places g g1 (set (cg_leafs graph) \<union> set (take i (cg_nodes graph)))"
    using same_places_trans[OF same_places_subset[OF h(2)] h(5)] graph_node(4)[OF assms(1), of i] i assms(2) by auto
  from same_places_trans[OF this IH(3) sub] show ?case
    using IH(1) same_config_trans[OF same_config_trans[OF h(1,4)] IH(2)] by blast
qed simp

section \<open>Running the planned graph\<close>

text \<open>
  A memory says whose data a byte holds. A tensor with memory of its own writes all of its place;
  a view shares the place of its tensor, and memory from elsewhere is not part of the plan.
\<close>

type_synonym memory = "nat \<times> nat \<times> nat \<Rightarrow> nat option"

definition run_tensor :: "tensors \<Rightarrow> (nat \<Rightarrow> (nat \<times> nat \<times> nat) set) \<Rightarrow> nat \<Rightarrow> memory \<Rightarrow> memory" where
  "run_tensor T place t M = (if own T t then (\<lambda>x. if x \<in> place t then Some t else M x) else M)"

definition run_mem :: "tensors \<Rightarrow> (nat \<Rightarrow> (nat \<times> nat \<times> nat) set) \<Rightarrow> nat list \<Rightarrow> memory \<Rightarrow> memory" where
  "run_mem T place ts M = fold (run_tensor T place) ts M"

definition holds :: "(nat \<Rightarrow> (nat \<times> nat \<times> nat) set) \<Rightarrow> memory \<Rightarrow> nat \<Rightarrow> bool" where
  "holds place M t \<longleftrightarrow> (\<forall>x \<in> place t. M x = Some t)"

definition sources_hold :: "tensors \<Rightarrow> (nat \<Rightarrow> (nat \<times> nat \<times> nat) set) \<Rightarrow> memory \<Rightarrow> nat \<Rightarrow> bool" where
  "sources_hold T place M node \<longleftrightarrow>
     (\<forall>p. Some p \<in> set (t_src (T node)) \<and> own T (root_of T p) \<longrightarrow> holds place M (root_of T p))"

lemma placed_same:
  assumes "same_config g g'" "same_places g g' B" "t \<in> B"
  shows "placed asz g' t = placed asz g t"
  using assms by (simp add: placed_def tensor_region_def planned_size_def talloc_of_def same_config_def same_places_def)

lemma holds_run_self: "own T t \<Longrightarrow> holds place (run_tensor T place t M) t"
  by (simp add: holds_def run_tensor_def)

lemma holds_run_other:
  assumes "holds place M t" "own T u \<Longrightarrow> place t \<inter> place u = {}"
  shows "holds place (run_tensor T place u M) t"
  using assms by (auto simp: holds_def run_tensor_def)

lemma leafs_hold:
  assumes "\<And>x y. \<lbrakk>x \<in> set ts; y \<in> set ts; own T x; own T y; x \<noteq> y\<rbrakk> \<Longrightarrow> place x \<inter> place y = {}"
    "t \<in> set ts" "own T t"
  shows "holds place (run_mem T place ts M) t"
  using assms
proof (induction ts rule: rev_induct)
  case (snoc u us)
  show ?case
  proof (cases "t = u")
    case True
    then show ?thesis using snoc.prems(3) holds_run_self by (simp add: run_mem_def)
  next
    case False
    then have "holds place (run_mem T place us M) t" using snoc by simp
    moreover have "place t \<inter> place u = {}" if "own T u" using snoc.prems False that by auto
    ultimately show ?thesis using holds_run_other by (simp add: run_mem_def)
  qed
qed simp

lemma sources_at:
  assumes graph: "graph_ok T graph" and i: "i < length (cg_nodes graph)" and W: "walk_at T asz graph i g"
    and M: "\<And>t. hn_allocated (ga_hash g t) \<Longrightarrow> holds place M t"
  shows "sources_hold T place M (cg_nodes graph ! i)"
proof -
  let ?B = "set (cg_leafs graph) \<union> set (take i (cg_nodes graph))"
  have R: "node_refs T (drop i (cg_nodes graph)) = t_src (T (cg_nodes graph ! i)) @ node_refs T (drop (Suc i) (cg_nodes graph))"
    using Cons_nth_drop_Suc[OF i, symmetric] by simp
  have "hn_allocated (ga_hash g (root_of T p))"
    if p: "Some p \<in> set (t_src (T (cg_nodes graph ! i)))" and own: "own T (root_of T p)" for p
  proof -
    have src: "source_ok T ?B p" using graph_node(1)[OF graph i p] .
    have "root_of T p \<in> ?B \<and> needed T (set (cg_nodes graph)) (node_refs T (drop i (cg_nodes graph))) (root_of T p)"
    proof (cases "t_view_src (T p)")
      case None
      then show ?thesis using src own p R by (auto simp: root_of_def source_ok_def external_def own_def needed_def)
    next
      case (Some v)
      then have v: "root_of T p = v" "\<not> external T v" using own by (auto simp: root_of_def own_def external_def)
      then have pn: "p \<in> set (cg_nodes graph)" "counted_view T v p"
        using graph_ref_ok[OF graph i p] Some by (auto simp: ref_ok_def)
      have "p \<in> set (take i (cg_nodes graph))"
        using src Some graph_leaf(2)[OF graph _ Some] v(2) by (auto simp: source_ok_def external_def)
      then obtain j where j: "j < i" "p = cg_nodes graph ! j" by (auto simp: in_set_conv_nth)
      have "source_ok T (set (cg_leafs graph) \<union> set (take j (cg_nodes graph))) v"
        using graph_node(2)[OF graph, of j v] j i Some pn(2) by (auto simp: counted_view_def)
      then have "v \<in> ?B"
        using v(2) j(1) set_take_subset_set_take[of j i "cg_nodes graph"] by (auto simp: source_ok_def)
      then show ?thesis using pn p R v(1) by (auto simp: needed_def)
    qed
    then show ?thesis using W own by (auto simp: walk_at_def walk_inv_def)
  qed
  then show ?thesis using M by (auto simp: sources_hold_def)
qed

lemma walk_reads:
  assumes graph: "graph_ok T graph" and n: "n = length (cg_nodes graph)" and W: "walk_at T asz graph i g" and i: "i \<le> n"
    and run: "ofold (plan_node T asz ids (cg_nodes graph)) [i..<n] g = Some g'"
    and M: "\<And>t. hn_allocated (ga_hash g t) \<Longrightarrow> holds (placed asz g') M t"
  shows "(\<forall>j. i \<le> j \<and> j < n \<longrightarrow> sources_hold T (placed asz g') (run_mem T (placed asz g') (drop i (take j (cg_nodes graph))) M) (cg_nodes graph ! j))
    \<and> (\<forall>t. hn_allocated (ga_hash g' t) \<longrightarrow> holds (placed asz g') (run_mem T (placed asz g') (drop i (cg_nodes graph)) M) t)"
  using W i run M
proof (induction "n - i" arbitrary: i g M)
  case 0
  then show ?case using n by (auto simp: run_mem_def)
next
  case (Suc d)
  then have i: "i < n" by simp
  let ?node = "cg_nodes graph ! i" and ?P = "placed asz g'"
  obtain g1 where g1: "plan_node T asz ids (cg_nodes graph) i g = Some g1" "ofold (plan_node T asz ids (cg_nodes graph)) [Suc i..<n] g1 = Some g'"
    using Suc.prems(3) upt_conv_Cons[OF i] by (auto simp: bind_eq_Some_conv)
  obtain h where h: "plan_inv T asz h" "own T ?node \<longrightarrow> hn_allocated (ga_hash h ?node)"
    "\<forall>t. hn_allocated (ga_hash h t) \<and> t \<noteq> ?node \<longrightarrow> hn_allocated (ga_hash g t)"
    "walk_at T asz graph (Suc i) g1" "same_config h g1" "same_places h g1 UNIV"
    "\<forall>t. hn_allocated (ga_hash g1 t) \<longrightarrow> hn_allocated (ga_hash h t)"
    using walk_at_step[OF graph _ Suc.prems(1) g1(1)] i n by blast
  have fin: "same_config g1 g'" "same_places g1 g' (set (cg_leafs graph) \<union> set (take (Suc i) (cg_nodes graph)))"
    using walk_places[OF graph n h(4) _ g1(2)] i by auto
  have P: "?P t = placed asz h t" if "t \<in> set (cg_leafs graph) \<union> set (take (Suc i) (cg_nodes graph))" for t
    using placed_same[OF fin that] placed_same[OF h(5,6)] by simp
  have B: "t \<in> set (cg_leafs graph) \<union> set (take (Suc i) (cg_nodes graph))" if "hn_allocated (ga_hash g1 t)" for t
    using h(4) that by (auto simp: walk_at_def walk_inv_def)
  have nB: "?node \<in> set (take (Suc i) (cg_nodes graph))" using i n by (simp add: take_Suc_conv_app_nth)
  have M1: "holds ?P (run_tensor T ?P ?node M) t" if t: "hn_allocated (ga_hash g1 t)" for t
  proof (cases "t = ?node")
    case True
    then have "own T ?node" using t h(4) by (auto simp: walk_at_def walk_inv_def plan_inv_def hash_ok_def)
    then show ?thesis using holds_run_self True by simp
  next
    case False
    have th: "hn_allocated (ga_hash h t)" using h(7) t by blast
    then have "holds ?P M t" using h(3) False Suc.prems(4) by blast
    moreover have "?P t \<inter> ?P ?node = {}" if "own T ?node"
      using plan_disjoint[OF h(1) th _ False] h(2) that P[OF B[OF t]] P[of ?node] nB by simp
    ultimately show ?thesis using holds_run_other by blast
  qed
  have IH: "\<forall>j. Suc i \<le> j \<and> j < n \<longrightarrow> sources_hold T ?P (run_mem T ?P (drop (Suc i) (take j (cg_nodes graph))) (run_tensor T ?P ?node M)) (cg_nodes graph ! j)"
    "\<forall>t. hn_allocated (ga_hash g' t) \<longrightarrow> holds ?P (run_mem T ?P (drop (Suc i) (cg_nodes graph)) (run_tensor T ?P ?node M)) t"
    using Suc.hyps(1)[OF _ h(4) _ g1(2) M1] Suc.hyps(2) i by auto
  have split: "run_mem T ?P (drop i (take j (cg_nodes graph))) M = run_mem T ?P (drop (Suc i) (take j (cg_nodes graph))) (run_tensor T ?P ?node M)"
    if "i < j" "j \<le> n" for j
    using that n Cons_nth_drop_Suc[of i "take j (cg_nodes graph)", symmetric] by (simp add: run_mem_def)
  have "sources_hold T ?P (run_mem T ?P (drop i (take j (cg_nodes graph))) M) (cg_nodes graph ! j)" if "i \<le> j" "j < n" for j
  proof (cases "i = j")
    case True
    then show ?thesis using sources_at[OF graph _ Suc.prems(1) Suc.prems(4)] i n by (simp add: run_mem_def)
  next
    case False
    then show ?thesis using IH(1) split[of j] that by simp
  qed
  then show ?case using IH(2) split[of n] i n by auto
qed

section \<open>The whole plan\<close>

lemma leaf_image: "(\<lambda>i. xs ! i) ` {0..<length xs} = set xs"
  by (auto simp: in_set_conv_nth)

lemma reserve_passes:
  assumes ready: "gallocr_ready asz g" and graph: "graph_ok T graph"
    and run: "reserve_plan T asz graph nids lids g = Some g'"
  shows "\<exists>g1 g2 g3. leaf_inv T asz (set (cg_leafs graph)) g1 \<and> walk_at T asz graph 0 g2 \<and> counters_only g1 g2
    \<and> same_config (reset_hash g) g2 \<and> ofold (plan_node T asz nids (cg_nodes graph)) [0..<length (cg_nodes graph)] g2 = Some g3
    \<and> (\<exists>nas las. omap (planned_node T asz g3) (cg_nodes graph) = Some nas \<and> omap (planned_alloc T asz g3) (cg_leafs graph) = Some las
        \<and> g' = g3\<lparr>ga_node_allocs := nas, ga_leaf_allocs := las\<rparr>)"
proof -
  let ?n = "length (cg_nodes graph)"
  obtain g3 where g3: "ggml_gallocr_alloc_graph_impl T asz graph nids lids (g\<lparr>ga_tallocs := map ggml_dyn_tallocr_reset (ga_tallocs g)\<rparr>) = Some g3"
    and rec: "\<exists>nas las. omap (planned_node T asz g3) (cg_nodes graph) = Some nas \<and> omap (planned_alloc T asz g3) (cg_leafs graph) = Some las
        \<and> g' = g3\<lparr>ga_node_allocs := nas, ga_leaf_allocs := las\<rparr>"
    using run by (auto simp: reserve_plan_def Let_def bind_eq_Some_conv)
  obtain g1 g2 where g1: "ofold (plan_leaf T asz lids (cg_leafs graph)) [0..<length (cg_leafs graph)] (reset_hash g) = Some g1"
    and g2: "ofold (count_node T asz nids (cg_nodes graph)) [0..<?n] g1 = Some g2"
    and g3': "ofold (plan_node T asz nids (cg_nodes graph)) [0..<?n] g2 = Some g3"
    using g3 by (auto simp: ggml_gallocr_alloc_graph_impl_def reset_hash_def bind_eq_Some_conv)
  have "leaf_inv T asz {} (reset_hash g)"
    using reset_hash_inv[OF ready] by (simp add: leaf_inv_def no_counts_def unplaced_def reset_hash_def hash_node_zero_def named_buffers_def buffer_ok_def)
  from leaf_walk[OF this _ g1] graph_leaf(1)[OF graph]
  have L: "leaf_inv T asz (set (cg_leafs graph)) g1" "same_config (reset_hash g) g1" by (auto simp: leaf_image)
  have "counted T (set (take 0 (cg_nodes graph))) (node_refs T (take 0 (cg_nodes graph))) g1"
    using L(1) by (simp add: leaf_inv_def no_counts_def counted_def refs_def)
  from count_walk[OF graph refl _ g2 _ this] L(1)
  have c: "counted T (set (cg_nodes graph)) (node_refs T (cg_nodes graph)) g2" "counters_only g1 g2"
    by (auto simp: leaf_inv_def)
  have "plan_inv T asz g1" using L(1) by (simp add: leaf_inv_def)
  note counters_only_inv(2)[OF c(2) this]
  from same_config_trans[OF L(2) this] counted_walk_at[OF L(1) c] L(1) c(2) g3' rec show ?thesis by blast
qed

lemma region_records [simp]:
  "tensor_region asz (g\<lparr>ga_node_allocs := nas, ga_leaf_allocs := las\<rparr>) = tensor_region asz g"
  by (simp add: fun_eq_iff tensor_region_def planned_size_def talloc_of_def alignment_def)

lemma placed_records [simp]: "placed asz (g\<lparr>ga_node_allocs := nas, ga_leaf_allocs := las\<rparr>) = placed asz g"
  by (simp add: fun_eq_iff placed_def tensor_region_def planned_size_def talloc_of_def alignment_def)

lemma ready_records [simp]: "gallocr_ready asz (g\<lparr>ga_node_allocs := nas, ga_leaf_allocs := las\<rparr>) = gallocr_ready asz g"
  by (simp add: gallocr_ready_def config_ok_def alignment_def)

lemma plan_inv_records [simp]: "plan_inv T asz (g\<lparr>ga_node_allocs := nas, ga_leaf_allocs := las\<rparr>) = plan_inv T asz g"
  by (simp add: plan_inv_def config_ok_def hash_ok_def regions_ok_def alignment_def allocated_in_def
      talloc_of_def)

text \<open>An allocator that has planned a graph can plan the next one.\<close>

lemma plan_inv_ready:
  assumes "plan_inv T asz g"
  shows "gallocr_ready asz g"
proof -
  have "align_ok (dt_alignment s) \<and> unat (max_chunk_size s) < 2 ^ 63" if s: "s \<in> set (ga_tallocs g)" for s
  proof -
    obtain k where k: "k < length (ga_tallocs g)" "ga_tallocs g ! k = s" using s by (auto simp: in_set_conv_nth)
    obtain ts where "tallocr_ok (alignment g k) (ga_tallocs g ! k) (map (tensor_region asz g) ts)"
      by (rule plan_inv_tensors[OF assms k(1)])
    then have "tallocr_ok (alignment g k) s (map (tensor_region asz g) ts)" using k(2) by simp
    then show ?thesis unfolding tallocr_ok_def tallocr_inv_def by blast
  qed
  then show ?thesis using assms by (simp add: gallocr_ready_def plan_inv_def)
qed

lemma reserve_inv:
  assumes "gallocr_ready asz g" "graph_ok T graph" "reserve_plan T asz graph nids lids g = Some g'"
  shows "plan_inv T asz g'"
proof -
  obtain g2 g3 where g: "walk_at T asz graph 0 g2" and P: "plan_inv T asz g' = plan_inv T asz g3"
    and run: "ofold (plan_node T asz nids (cg_nodes graph)) [0..<length (cg_nodes graph)] g2 = Some g3"
    using reserve_passes[OF assms] by auto
  have "walk_at T asz graph (length (cg_nodes graph)) g3" using walk_places[OF assms(2) refl g _ run] by simp
  then show ?thesis using P by (simp add: walk_at_def walk_inv_def)
qed

lemma reserve_reads:
  assumes ready: "gallocr_ready asz g" and graph: "graph_ok T graph"
    and run: "reserve_plan T asz graph nids lids g = Some g'"
  shows "j < length (cg_nodes graph) \<Longrightarrow> sources_hold T (placed asz g')
      (run_mem T (placed asz g') (cg_leafs graph @ take j (cg_nodes graph)) M) (cg_nodes graph ! j)"
    "\<lbrakk>t \<in> set (cg_leafs graph @ cg_nodes graph); own T t; has_flag (T t) GGML_TENSOR_FLAG_OUTPUT\<rbrakk>
      \<Longrightarrow> holds (placed asz g') (run_mem T (placed asz g') (cg_leafs graph @ cg_nodes graph) M) t"
proof -
  let ?n = "length (cg_nodes graph)"
  obtain g1 g2 g3 where g: "leaf_inv T asz (set (cg_leafs graph)) g1" "walk_at T asz graph 0 g2" "counters_only g1 g2"
    "ofold (plan_node T asz nids (cg_nodes graph)) [0..<?n] g2 = Some g3" and P: "placed asz g' = placed asz g3"
    using reserve_passes[OF assms] by auto
  have inv: "plan_inv T asz g2" using g(2) by (simp add: walk_at_def walk_inv_def)
  have al: "hn_allocated (ga_hash g2 t) \<longleftrightarrow> t \<in> set (cg_leafs graph) \<and> own T t" for t
    using g(1,3) by (simp add: leaf_inv_def counters_only_def)
  have fin: "walk_at T asz graph ?n g3" "same_config g2 g3" "same_places g2 g3 (set (cg_leafs graph))"
    using walk_places[OF graph refl g(2) _ g(4)] by auto
  define M1 where "M1 = run_mem T (placed asz g') (cg_leafs graph) M"
  have M1: "holds (placed asz g3) M1 t" if "hn_allocated (ga_hash g2 t)" for t
    unfolding M1_def P
  proof (rule leafs_hold)
    show "placed asz g3 x \<inter> placed asz g3 y = {}"
      if "x \<in> set (cg_leafs graph)" "y \<in> set (cg_leafs graph)" "own T x" "own T y" "x \<noteq> y" for x y
      using plan_disjoint[OF inv _ _ that(5)] placed_same[OF fin(2,3)] al that by auto
  qed (use al that in auto)
  note R = walk_reads[OF graph refl g(2) _ g(4) M1]
  have app: "run_mem T (placed asz g3) (cg_leafs graph @ ns) M = run_mem T (placed asz g3) ns M1" for ns
    by (simp add: run_mem_def M1_def P)
  show "sources_hold T (placed asz g') (run_mem T (placed asz g') (cg_leafs graph @ take j (cg_nodes graph)) M) (cg_nodes graph ! j)"
    if "j < ?n" using R that by (simp add: app P)
  show "holds (placed asz g') (run_mem T (placed asz g') (cg_leafs graph @ cg_nodes graph) M) t"
    if "t \<in> set (cg_leafs graph @ cg_nodes graph)" "own T t" "has_flag (T t) GGML_TENSOR_FLAG_OUTPUT"
  proof -
    have "hn_allocated (ga_hash g3 t)" using fin(1) that by (auto simp: walk_at_def walk_inv_def needed_def)
    then show ?thesis using R by (simp add: app P)
  qed
qed

end
