(* ===== verification/Gallocr_Total.thy ===== *)
theory Gallocr_Total
  imports Gallocr_Run
begin

text \<open>
  Planning returns. None of the assertions and aborts of the allocator is reached when the
  graph has at most \<open>MAX_LIVE\<close> tensors to place, the backends report moderate sizes that depend on
  the layout only, and the buffer ids exist: the address of a node is still clear when it is
  allocated, a parent is as large as the node that takes it over, the lists of free blocks never
  overflow and the last chunk never runs out.
\<close>

section \<open>Steps of one tensor allocator\<close>

lemma tallocr_alloc_total:
  assumes "tallocr_ok al s live" "size_ok al n" "length live < MAX_LIVE" "last_used s + unat (round_up al n) \<le> 2 ^ 63 - 1"
  shows "\<exists>addr s'. ggml_dyn_tallocr_alloc s n = Some (addr, s') \<and> last_used s' \<le> last_used s + unat (round_up al n)"
proof -
  obtain caps where inv: "tallocr_inv caps s live" and al: "dt_alignment s = al"
    using assms(1) by (auto simp: tallocr_ok_def)
  have "length live + 1 < MAX_FREE_BLOCKS" using assms(3) by (simp add: MAX_LIVE_def)
  then show ?thesis using alloc_inv[OF inv, of n] assms(2,4) al by auto
qed

lemma tallocr_release_total:
  assumes ok: "tallocr_ok al s (A @ (c, a, round_up al m) # B)" and m: "size_ok al m" and lim: "length A + length B < MAX_LIVE"
  shows "\<exists>s'. ggml_dyn_tallocr_free_bytes s \<lparr>ba_chunk = int c, ba_offset = a\<rparr> m = Some s' \<and> last_used s' \<le> last_used s"
proof -
  obtain caps where inv: "tallocr_inv caps s (A @ (c, a, round_up al m) # B)" and al: "dt_alignment s = al"
    using ok by (auto simp: tallocr_ok_def)
  have aok: "align_ok al" using tallocr_invD(1)[OF inv] al by simp
  have "0 < unat (round_up al m)" using round_up_correct(5)[OF aok m] .
  moreover have "length A + length B + 2 < MAX_FREE_BLOCKS" using lim by (simp add: MAX_LIVE_def)
  ultimately obtain s' where "ggml_dyn_tallocr_free_bytes s \<lparr>ba_chunk = int c, ba_offset = a\<rparr> (round_up al m) = Some s'" "last_used s' \<le> last_used s"
    using give_back_inv[OF inv, of 0] by auto
  then show ?thesis using free_bytes_round[of s m] aok m al by auto
qed

lemma tallocr_shrink_total:
  assumes ok: "tallocr_ok al s (A @ (c, a, n) # B)" and m: "size_ok al m" "round_up al m < n" and lim: "length A + length B < MAX_LIVE"
  shows "\<exists>s'. ggml_dyn_tallocr_free_bytes s \<lparr>ba_chunk = int c, ba_offset = a + round_up al m\<rparr> (n - round_up al m) = Some s'
    \<and> last_used s' \<le> last_used s"
proof -
  obtain caps where inv: "tallocr_inv caps s (A @ (c, a, n) # B)" and al: "dt_alignment s = al"
    using ok by (auto simp: tallocr_ok_def)
  have aok: "align_ok al" using tallocr_invD(1)[OF inv] al by simp
  have "unat al dvd unat (round_up al m)" "unat (round_up al m) < unat n"
    using round_up_correct[OF aok m(1)] m(2) by (auto simp: word_less_nat_alt)
  moreover have "length A + length B + 2 < MAX_FREE_BLOCKS" using lim by (simp add: MAX_LIVE_def)
  ultimately show ?thesis using give_back_inv[OF inv, of "round_up al m"] al by auto
qed

section \<open>Room\<close>

text \<open>
  \<open>U\<close> are the tensors that may be allocated. Every one of them uses at most \<open>MAX_TENSOR\<close> bytes, so
  \<open>MAX_LIVE\<close> of them fit in one chunk of the largest size.
\<close>

definition MAX_TENSOR :: nat where
  "MAX_TENSOR = 2 ^ 55"

definition moderate :: "(nat \<Rightarrow> nat \<Rightarrow> size_t) \<Rightarrow> ggml_gallocr \<Rightarrow> bool" where
  "moderate asz g \<longleftrightarrow> (\<forall>b < length (ga_bufts g). \<forall>t.
     unat (round_up (alignment g (ga_buf_tallocs g ! b)) (asz (ga_bufts g ! b) t)) \<le> MAX_TENSOR)"

text \<open>An operation that can work in place asks for no more than another tensor of the same layout.\<close>

definition by_layout :: "tensors \<Rightarrow> (nat \<Rightarrow> nat \<Rightarrow> size_t) \<Rightarrow> bool" where
  "by_layout T asz \<longleftrightarrow> (\<forall>b x y. ggml_op_can_inplace (t_op (T x)) \<and> ggml_are_same_layout (T x) (T y) \<longrightarrow> asz b x \<le> asz b y)"

definition budget :: "ggml_gallocr \<Rightarrow> nat \<Rightarrow> bool" where
  "budget g m \<longleftrightarrow> (\<forall>s \<in> set (ga_tallocs g). last_used s \<le> m * MAX_TENSOR)"

definition within :: "nat set \<Rightarrow> ggml_gallocr \<Rightarrow> bool" where
  "within U g \<longleftrightarrow> finite U \<and> card U \<le> MAX_LIVE \<and> (\<forall>t. hn_allocated (ga_hash g t) \<longrightarrow> t \<in> U)"

lemma budget_mono: "budget g m \<Longrightarrow> m \<le> m' \<Longrightarrow> budget g m'"
  unfolding budget_def using mult_le_mono1 order_trans by blast

lemma moderate_same:
  assumes "config_ok asz g" "moderate asz g" "same_config g g'"
  shows "moderate asz g'"
  using assms by (auto simp: moderate_def same_config_def)

lemma within_length:
  assumes "within U g" "distinct ts" "set ts = allocated_in g k"
  shows "length ts \<le> card U" "length ts \<le> MAX_LIVE" "\<lbrakk>x \<in> U; x \<notin> set ts\<rbrakk> \<Longrightarrow> length ts < MAX_LIVE"
proof -
  have sub: "set ts \<subseteq> U" using assms(1,3) by (auto simp: within_def allocated_in_def)
  have fin: "finite U" "card U \<le> MAX_LIVE" using assms(1) by (auto simp: within_def)
  have len: "length ts = card (set ts)" using distinct_card[OF assms(2)] by simp
  show "length ts \<le> card U" using card_mono[OF fin(1) sub] len by simp
  then show "length ts \<le> MAX_LIVE" using fin(2) by simp
  assume "x \<in> U" "x \<notin> set ts"
  then have "set ts \<subset> U" using sub by blast
  from psubset_card_mono[OF fin(1) this] show "length ts < MAX_LIVE" using len fin(2) by simp
qed

lemma budget_upd:
  assumes "budget g m" "last_used s \<le> m * MAX_TENSOR" "ga_tallocs g' = (ga_tallocs g)[k := s]"
  shows "budget g' m"
  unfolding budget_def
proof
  fix x assume "x \<in> set (ga_tallocs g')"
  then have "x = s \<or> x \<in> set (ga_tallocs g)" using set_update_subset_insert[of "ga_tallocs g" k s] assms(3) by auto
  then show "last_used x \<le> m * MAX_TENSOR" using assms(1,2) by (auto simp: budget_def)
qed

lemma upd_hash_frame [simp]:
  "budget (upd_hash t f g) m = budget g m" "buffer_ok (upd_hash t f g) b = buffer_ok g b"
  by (simp_all add: budget_def buffer_ok_def)

section \<open>Allocating a node\<close>

lemma fresh_total:
  assumes inv: "plan_inv T asz g" and w: "within U g" and node: "node \<in> U" "\<not> hn_allocated (ga_hash g node)"
    and b: "buffer_ok g b" and bud: "budget g m" "m < MAX_LIVE" "moderate asz g"
    and g1: "ga_tallocs g1 = ga_tallocs g" "ga_buf_tallocs g1 = ga_buf_tallocs g"
  shows "\<exists>addr g2. on_talloc b (\<lambda>alloc. ggml_dyn_tallocr_alloc alloc (asz (ga_bufts g ! nat b) node)) g1 = Some (addr, g2) \<and> budget g2 (Suc m)"
proof -
  define k where "k = ga_buf_tallocs g ! nat b"
  let ?n = "asz (ga_bufts g ! nat b) node"
  have cfg: "config_ok asz g" using inv by (simp add: plan_inv_def)
  have k: "k < length (ga_tallocs g)" "nat b < length (ga_buf_tallocs g)" "size_ok (alignment g k) ?n"
    "unat (round_up (alignment g k) ?n) \<le> MAX_TENSOR"
    using cfg b bud(3) by (auto simp: config_ok_def buffer_ok_def k_def moderate_def)
  obtain ts where ts: "tallocr_ok (alignment g k) (ga_tallocs g ! k) (map (tensor_region asz g) ts)" "distinct ts" "set ts = allocated_in g k"
    using plan_inv_tensors[OF inv k(1)] .
  have "node \<notin> set ts" using ts(3) node(2) by (simp add: allocated_in_def)
  then have len: "length (map (tensor_region asz g) ts) < MAX_LIVE" using within_length(3)[OF w ts(2,3) node(1)] by simp
  have lu: "last_used (ga_tallocs g ! k) \<le> m * MAX_TENSOR" using bud(1) nth_mem[OF k(1)] by (simp add: budget_def)
  then have sum: "last_used (ga_tallocs g ! k) + unat (round_up (alignment g k) ?n) \<le> Suc m * MAX_TENSOR" using k(4) by simp
  also have "\<dots> \<le> MAX_LIVE * MAX_TENSOR" using bud(2) by (intro mult_le_mono1) simp
  also have "\<dots> \<le> 2 ^ 63 - 1" by (simp add: MAX_LIVE_def MAX_FREE_BLOCKS_def MAX_TENSOR_def)
  finally obtain addr s' where s': "ggml_dyn_tallocr_alloc (ga_tallocs g ! k) ?n = Some (addr, s')"
    "last_used s' \<le> last_used (ga_tallocs g ! k) + unat (round_up (alignment g k) ?n)"
    using tallocr_alloc_total[OF ts(1) k(3) len] by blast
  have "on_talloc b (\<lambda>alloc. ggml_dyn_tallocr_alloc alloc ?n) g1 = Some (addr, g1\<lparr>ga_tallocs := (ga_tallocs g1)[k := s']\<rparr>)"
    using s'(1) b k(1,2) by (simp add: on_talloc_Some g1 k_def Let_def buffer_ok_def)
  moreover have "budget (g1\<lparr>ga_tallocs := (ga_tallocs g1)[k := s']\<rparr>) (Suc m)"
    by (rule budget_upd[OF budget_mono[OF bud(1)], where s = s' and k = k]) (use s'(2) sum g1 in auto)
  ultimately show ?thesis by blast
qed

lemma extra_space_total:
  assumes b: "hn_buffer_id (ga_hash g p) = b" "hn_buffer_id (ga_hash g node) = b" "0 \<le> b" "nat b < length (ga_bufts g)"
      "nat b < length (ga_buf_tallocs g)"
    and k: "k = ga_buf_tallocs g ! nat b" "k < length (ga_tallocs g)" "align_ok (dt_alignment (ga_tallocs g ! k))"
    and zn: "z = round_up (dt_alignment (ga_tallocs g ! k)) (asz (ga_bufts g ! nat b) node)"
      "n = round_up (dt_alignment (ga_tallocs g ! k)) (asz (ga_bufts g ! nat b) p)"
    and le: "asz (ga_bufts g ! nat b) node \<le> asz (ga_bufts g ! nat b) p"
    and run: "if z < n then ggml_dyn_tallocr_free_bytes (ga_tallocs g ! k) ((hn_addr (ga_hash g p))\<lparr>ba_offset := ba_offset (hn_addr (ga_hash g p)) + z\<rparr>) (n - z) = Some s'
      else s' = ga_tallocs g ! k"
  shows "ggml_gallocr_free_extra_space asz node p g = Some (g\<lparr>ga_tallocs := (ga_tallocs g)[k := s']\<rparr>)"
proof -
  have bo: "buft_of g b = Some (ga_bufts g ! nat b)" "talloc_index g b = Some k"
    using b k(1) by (simp_all add: buft_of_def talloc_index_def)
  show ?thesis
    using run by (simp add: ggml_gallocr_free_extra_space_def b(1,2) bo le on_talloc_def k(2)
        aligned_offset_round[OF k(3)] zn[symmetric] Let_def split: if_splits)
qed

lemma take_over_total:
  assumes inv: "plan_inv T asz g" and w: "within U g" and p: "hn_allocated (ga_hash g p)" and bud: "budget g m"
    and le: "asz (ga_bufts g ! hbuf g p) node \<le> asz (ga_bufts g ! hbuf g p) p"
    and g1: "ga_tallocs g1 = ga_tallocs g" "ga_buf_tallocs g1 = ga_buf_tallocs g" "ga_bufts g1 = ga_bufts g"
      "hn_buffer_id (ga_hash g1 p) = hn_buffer_id (ga_hash g p)" "hn_buffer_id (ga_hash g1 node) = hn_buffer_id (ga_hash g p)"
      "hn_addr (ga_hash g1 p) = hn_addr (ga_hash g p)"
  shows "\<exists>g2. ggml_gallocr_free_extra_space asz node p g1 = Some g2 \<and> budget g2 m"
proof -
  define k where "k = talloc_of g p"
  define al where "al = alignment g k"
  let ?s = "ga_tallocs g ! k" and ?addr = "hn_addr (ga_hash g p)"
  let ?z = "round_up al (asz (ga_bufts g ! hbuf g p) node)" and ?n = "round_up al (asz (ga_bufts g ! hbuf g p) p)"
  have cfg: "config_ok asz g" "hash_ok T g" using inv by (auto simp: plan_inv_def)
  have k: "k < length (ga_tallocs g)" using talloc_of_lt[OF cfg p] by (simp add: k_def)
  have pb: "0 \<le> hn_buffer_id (ga_hash g p)" "hbuf g p < length (ga_bufts g)" "hbuf g p < length (ga_buf_tallocs g)" "0 \<le> ba_chunk ?addr"
    using cfg p by (auto simp: hash_ok_def config_ok_def)
  obtain ts where ts: "tallocr_ok (alignment g k) ?s (map (tensor_region asz g) ts)" "distinct ts" "set ts = allocated_in g k"
    using plan_inv_tensors[OF inv k] .
  have al: "align_ok al" "dt_alignment ?s = al" using tallocr_ok_alignment[OF ts(1)] by (auto simp: al_def)
  have "p \<in> set ts" using ts(3) p by (simp add: allocated_in_def k_def)
  then obtain A B where AB: "ts = A @ p # B" by (meson split_list)
  have lim: "length (map (tensor_region asz g) A) + length (map (tensor_region asz g) B) < MAX_LIVE"
    using within_length(2)[OF w ts(2,3)] AB by simp
  have sz: "size_ok al (asz (ga_bufts g ! hbuf g p) t)" for t
    using cfg(1) pb(2) by (simp add: config_ok_def al_def k_def talloc_of_def)
  have ok: "tallocr_ok al ?s (map (tensor_region asz g) A @ (nat (ba_chunk ?addr), ba_offset ?addr, ?n) # map (tensor_region asz g) B)"
    using ts(1) by (simp add: AB tensor_region_def al_def k_def planned_size_def)
  have addr: "?addr\<lparr>ba_offset := ba_offset ?addr + ?z\<rparr> = \<lparr>ba_chunk = int (nat (ba_chunk ?addr)), ba_offset = ba_offset ?addr + ?z\<rparr>"
    using pb(4) by simp
  obtain s' where s': "if ?z < ?n then ggml_dyn_tallocr_free_bytes ?s (?addr\<lparr>ba_offset := ba_offset ?addr + ?z\<rparr>) (?n - ?z) = Some s'
      else s' = ?s" "last_used s' \<le> last_used ?s"
  proof (cases "?z < ?n")
    case True
    from tallocr_shrink_total[OF ok sz True lim] that show ?thesis unfolding addr by (meson True)
  next
    case False
    then show ?thesis using that[of ?s] by simp
  qed
  have "ggml_gallocr_free_extra_space asz node p g1 = Some (g1\<lparr>ga_tallocs := (ga_tallocs g1)[k := s']\<rparr>)"
  proof (rule extra_space_total[OF g1(4,5)])
    show "if ?z < ?n then ggml_dyn_tallocr_free_bytes (ga_tallocs g1 ! k)
        ((hn_addr (ga_hash g1 p))\<lparr>ba_offset := ba_offset (hn_addr (ga_hash g1 p)) + ?z\<rparr>) (?n - ?z) = Some s' else s' = ga_tallocs g1 ! k"
      unfolding g1 by (rule s'(1))
  qed (use pb k al le in \<open>simp_all add: g1 k_def talloc_of_def\<close>)
  moreover have "last_used s' \<le> m * MAX_TENSOR" using s'(2) bud nth_mem[OF k] by (fastforce simp: budget_def)
  then have "budget (g1\<lparr>ga_tallocs := (ga_tallocs g1)[k := s']\<rparr>) m" using budget_upd[OF bud] g1(1) by simp
  ultimately show ?thesis by blast
qed

lemma reuse_scan_total:
  assumes views: "\<And>p. hn_allocated (ga_hash g p) \<Longrightarrow> t_view_src (T p) = None"
    and ok: "\<And>p. \<lbrakk>Some p \<in> set ps; hn_allocated (ga_hash g p); ggml_are_same_layout (T node) (T p)\<rbrakk> \<Longrightarrow>
      \<exists>g'. ggml_gallocr_free_extra_space asz node p (upd_hash p (\<lambda>hn. hn\<lparr>hn_allocated := False\<rparr>)
         (upd_hash node (\<lambda>hn. hn\<lparr>hn_buffer_id := hn_buffer_id (ga_hash g p), hn_addr := hn_addr (ga_hash g p)\<rparr>) g)) = Some g' \<and> Q g'"
  shows "\<exists>r g'. reuse_scan T asz node ps g = Some (r, g') \<and> (r \<and> Q g' \<or> \<not> r \<and> g' = g)"
  using ok
proof (induction ps)
  case Nil
  then show ?case by (intro exI[of _ False]) simp
next
  case (Cons a ps)
  have IH: "\<exists>r g'. reuse_scan T asz node ps g = Some (r, g') \<and> (r \<and> Q g' \<or> \<not> r \<and> g' = g)"
    by (rule Cons.IH) (rule Cons.prems, simp_all)
  show ?case
  proof (cases a)
    case None
    then show ?thesis using IH by simp
  next
    case (Some p)
    show ?thesis
    proof (cases "ggml_gallocr_is_own g p \<and> \<not> has_flag (T p) GGML_TENSOR_FLAG_OUTPUT \<and>
        ggml_are_same_layout (T node) (T p) \<and> n_children (ga_hash g p) = 1 \<and> n_views (ga_hash g p) = 0")
      case True
      then have v: "t_view_src (T p) = None" using views by (simp add: ggml_gallocr_is_own_def)
      obtain g' where "ggml_gallocr_free_extra_space asz node p (upd_hash p (\<lambda>hn. hn\<lparr>hn_allocated := False\<rparr>)
         (upd_hash node (\<lambda>hn. hn\<lparr>hn_buffer_id := hn_buffer_id (ga_hash g p), hn_addr := hn_addr (ga_hash g p)\<rparr>) g)) = Some g'" "Q g'"
        using Cons.prems[of p] Some True by (auto simp: ggml_gallocr_is_own_def)
      then show ?thesis using v True Some by (intro exI[of _ True]) (simp add: Let_def)
    next
      case False
      have "reuse_scan T asz node (a # ps) g = reuse_scan T asz node ps g"
      proof (cases "ggml_gallocr_is_own g p")
        case own: True
        then have "t_view_src (T p) = None" using views by (simp add: ggml_gallocr_is_own_def)
        then show ?thesis using False own Some by (auto simp: Let_def)
      qed (simp add: Some)
      then show ?thesis using IH by simp
    qed
  qed
qed

lemma allocate_total:
  assumes inv: "plan_inv T asz g" and w: "within U g" and b: "buffer_ok g b" and bud: "budget g m" "moderate asz g" and lay: "by_layout T asz"
    and self: "ggml_op_can_inplace (t_op (T node)) \<Longrightarrow> Some node \<notin> set (t_src (T node))"
    and new: "\<lbrakk>own T node; \<not> hn_allocated (ga_hash g node)\<rbrakk> \<Longrightarrow> node \<in> U \<and> m < MAX_LIVE \<and> ba_offset (hn_addr (ga_hash g node)) = 0"
  shows "\<exists>g'. ggml_gallocr_allocate_node T asz b node g = Some g'
    \<and> budget g' (if own T node \<and> \<not> hn_allocated (ga_hash g node) then Suc m else m)"
proof (cases "own T node \<and> \<not> hn_allocated (ga_hash g node)")
  case False
  then have "ggml_gallocr_allocate_node T asz b node g = Some g"
    using b by (auto simp: ggml_gallocr_allocate_node_def buffer_ok_def own_def ggml_gallocr_is_allocated_def
        ggml_gallocr_is_own_def ggml_impl_is_view_def)
  then show ?thesis using False bud(1) by auto
next
  case True
  have n: "node \<in> U" "m < MAX_LIVE" "ba_offset (hn_addr (ga_hash g node)) = 0" "\<not> hn_allocated (ga_hash g node)" using new True by auto
  let ?g1 = "upd_hash node (\<lambda>hn. hn\<lparr>hn_allocated := True\<rparr>) g"
  have cond: "\<not> ggml_gallocr_is_allocated T g node \<and> \<not> ggml_impl_is_view (T node)"
    using True by (auto simp: own_def ggml_gallocr_is_allocated_def ggml_gallocr_is_own_def ggml_impl_is_view_def)
  define scan where "scan = (if ggml_op_can_inplace (t_op (T node)) then reuse_scan T asz node (t_src (T node)) ?g1 else Some (False, ?g1))"
  have views: "t_view_src (T p) = None" if "hn_allocated (ga_hash ?g1 p)" for p
    using that True inv by (cases "p = node") (auto simp: own_def plan_inv_def hash_ok_def)
  have over: "\<exists>g'. ggml_gallocr_free_extra_space asz node p (upd_hash p (\<lambda>hn. hn\<lparr>hn_allocated := False\<rparr>)
         (upd_hash node (\<lambda>hn. hn\<lparr>hn_buffer_id := hn_buffer_id (ga_hash ?g1 p), hn_addr := hn_addr (ga_hash ?g1 p)\<rparr>) ?g1)) = Some g' \<and> budget g' m"
    if p: "Some p \<in> set (t_src (T node))" "hn_allocated (ga_hash ?g1 p)" "ggml_are_same_layout (T node) (T p)"
      and ip: "ggml_op_can_inplace (t_op (T node))" for p
  proof -
    have pn: "p \<noteq> node" using p(1) self[OF ip] by auto
    have "asz c node \<le> asz c p" for c using lay ip p(3) by (simp add: by_layout_def)
    moreover have "hn_allocated (ga_hash g p)" using p(2) pn by simp
    ultimately show ?thesis by (intro take_over_total[OF inv w _ bud(1)]) (use pn in simp_all)
  qed
  obtain r g2 where scan: "scan = Some (r, g2)" "r \<and> budget g2 m \<or> \<not> r \<and> g2 = ?g1"
    using reuse_scan_total[of ?g1 T "t_src (T node)" node asz "\<lambda>g'. budget g' m", OF views over] unfolding scan_def
    by (cases "ggml_op_can_inplace (t_op (T node))") auto
  have b': "0 \<le> b" "buft_of ?g1 b = Some (ga_bufts g ! nat b)" using b by (auto simp: buffer_ok_def buft_of_def)
  show ?thesis
  proof (cases r)
    case r: True
    then have "ggml_gallocr_allocate_node T asz b node g = Some g2"
      using cond b' n(3) scan(1) unfolding ggml_gallocr_allocate_node_def Let_def scan_def[symmetric] by simp
    then show ?thesis using scan(2) r True budget_mono[of g2 m "Suc m"] by simp
  next
    case r: False
    obtain addr g3 where g3: "on_talloc b (\<lambda>alloc. ggml_dyn_tallocr_alloc alloc (asz (ga_bufts g ! nat b) node))
        (upd_hash node (\<lambda>hn. hn\<lparr>hn_buffer_id := b\<rparr>) ?g1) = Some (addr, g3)" "budget g3 (Suc m)"
      using fresh_total[OF inv w n(1,4) b bud(1) n(2) bud(2), of "upd_hash node (\<lambda>hn. hn\<lparr>hn_buffer_id := b\<rparr>) ?g1"] by auto
    have g2: "g2 = ?g1" using scan(2) r by simp
    have "ggml_gallocr_allocate_node T asz b node g = Some (upd_hash node (\<lambda>hn. hn\<lparr>hn_addr := addr\<rparr>) g3)"
      using cond b' n(3) scan(1) r g3(1) unfolding ggml_gallocr_allocate_node_def Let_def scan_def[symmetric] g2 by simp
    then show ?thesis using g3(2) True by simp
  qed
qed

section \<open>Giving memory back\<close>

lemma free_total:
  assumes inv: "plan_inv T asz g" and w: "within U g" and p: "hn_allocated (ga_hash g p)" and bud: "budget g m"
  shows "\<exists>g'. ggml_gallocr_free_node T asz p g = Some g' \<and> budget g' m"
proof (cases "has_flag (T p) GGML_TENSOR_FLAG_OUTPUT")
  case True
  then show ?thesis using bud by (simp add: ggml_gallocr_free_node_def)
next
  case False
  define k where "k = talloc_of g p"
  define al where "al = alignment g k"
  let ?s = "ga_tallocs g ! k" and ?addr = "hn_addr (ga_hash g p)"
  have cfg: "config_ok asz g" "hash_ok T g" using inv by (auto simp: plan_inv_def)
  have k: "k < length (ga_tallocs g)" using talloc_of_lt[OF cfg p] by (simp add: k_def)
  have pb: "0 \<le> hn_buffer_id (ga_hash g p)" "hbuf g p < length (ga_bufts g)" "hbuf g p < length (ga_buf_tallocs g)" "0 \<le> ba_chunk ?addr"
    using cfg p by (auto simp: hash_ok_def config_ok_def)
  obtain ts where ts: "tallocr_ok (alignment g k) ?s (map (tensor_region asz g) ts)" "distinct ts" "set ts = allocated_in g k"
    using plan_inv_tensors[OF inv k] .
  have "p \<in> set ts" using ts(3) p by (simp add: allocated_in_def k_def)
  then obtain A B where AB: "ts = A @ p # B" by (meson split_list)
  have lim: "length (map (tensor_region asz g) A) + length (map (tensor_region asz g) B) < MAX_LIVE"
    using within_length(2)[OF w ts(2,3)] AB by simp
  have sz: "size_ok al (asz (ga_bufts g ! hbuf g p) p)"
    using cfg(1) pb(2) by (simp add: config_ok_def al_def k_def talloc_of_def)
  have ok: "tallocr_ok al ?s (map (tensor_region asz g) A @ (nat (ba_chunk ?addr), ba_offset ?addr, round_up al (asz (ga_bufts g ! hbuf g p) p)) # map (tensor_region asz g) B)"
    using ts(1) by (simp add: AB tensor_region_def al_def k_def planned_size_def)
  have addr: "\<lparr>ba_chunk = int (nat (ba_chunk ?addr)), ba_offset = ba_offset ?addr\<rparr> = ?addr" using pb(4) by simp
  obtain s' where s': "ggml_dyn_tallocr_free_bytes ?s ?addr (asz (ga_bufts g ! hbuf g p) p) = Some s'" "last_used s' \<le> last_used ?s"
    using tallocr_release_total[OF ok sz lim] unfolding addr by blast
  have bo: "buft_of g (hn_buffer_id (ga_hash g p)) = Some (ga_bufts g ! hbuf g p)" "talloc_index g (hn_buffer_id (ga_hash g p)) = Some k"
    using pb by (simp_all add: buft_of_def talloc_index_def k_def talloc_of_def)
  have "ggml_gallocr_free_node T asz p g = Some (upd_hash p (\<lambda>hn. hn\<lparr>hn_allocated := False\<rparr>) (g\<lparr>ga_tallocs := (ga_tallocs g)[k := s']\<rparr>))"
    using False by (simp add: ggml_gallocr_free_node_def bo on_talloc_def k s'(1))
  moreover have "last_used s' \<le> m * MAX_TENSOR" using s'(2) bud nth_mem[OF k] by (fastforce simp: budget_def)
  then have "budget (g\<lparr>ga_tallocs := (ga_tallocs g)[k := s']\<rparr>) m" using budget_upd[OF bud] by simp
  ultimately show ?thesis by simp
qed

lemma counters_frame:
  assumes "counters_only g g'" "plan_inv T asz g" "within U g" "budget g m"
  shows "plan_inv T asz g'" "within U g'" "budget g' m"
  using counters_only_inv(1)[OF assms(1,2)] assms by (auto simp: within_def budget_def counters_only_def)

lemma update_parent_total:
  assumes inv: "plan_inv T asz g" "within U g" "budget g m"
  shows "\<exists>g'. update_parent T asz s g = Some g' \<and> budget g' m"
proof (cases s)
  case None
  then show ?thesis using inv(3) by (simp add: update_parent_def)
next
  case (Some p)
  define g1 where "g1 = upd_hash p (\<lambda>hn. hn\<lparr>n_children := n_children hn - 1\<rparr>) g"
  have c1: "counters_only g g1" unfolding g1_def by (rule counters_only_upd) simp
  note i1 = counters_frame[OF c1 inv]
  define g2 where "g2 v = upd_hash v (\<lambda>hn. hn\<lparr>n_views := n_views hn - 1\<rparr>) g1" for v
  have i2: "plan_inv T asz (g2 v)" "within U (g2 v)" "budget (g2 v) m" for v
    using counters_frame[OF _ i1, of "g2 v"] by (simp_all add: g2_def counters_only_upd)
  have f: "\<exists>g'. (if P \<and> hn_allocated (ga_hash h v) then ggml_gallocr_free_node T asz v h else Some h) = Some g' \<and> budget g' m"
    if "plan_inv T asz h" "within U h" "budget h m" for h v P
    using free_total[OF that(1,2) _ that(3), of v] that(3) by auto
  show ?thesis
  proof (cases "n_children (ga_hash g1 p) = 0 \<and> n_views (ga_hash g1 p) = 0")
    case False
    then have "update_parent T asz s g = Some g1" using Some by (auto simp: update_parent_def Let_def g1_def[symmetric])
    then show ?thesis using i1(3) by simp
  next
    case True
    show ?thesis
    proof (cases "t_view_src (T p)")
      case None
      have "update_parent T asz s g = (if True \<and> hn_allocated (ga_hash g1 p) then ggml_gallocr_free_node T asz p g1 else Some g1)"
        using Some None True by (simp add: update_parent_def Let_def g1_def[symmetric])
      then show ?thesis using f[OF i1] by metis
    next
      case (Some v)
      have "update_parent T asz s g = (if (n_views (ga_hash (g2 v) v) = 0 \<and> n_children (ga_hash (g2 v) v) = 0) \<and> hn_allocated (ga_hash (g2 v) v)
          then ggml_gallocr_free_node T asz v (g2 v) else Some (g2 v))"
        using \<open>s = Some p\<close> Some True by (simp add: update_parent_def Let_def g1_def[symmetric] g2_def[symmetric])
      then show ?thesis using f[OF i2] by metis
    qed
  qed
qed

section \<open>The passes\<close>

definition ids_ok :: "ggml_gallocr \<Rightarrow> int list option \<Rightarrow> nat \<Rightarrow> bool" where
  "ids_ok g ids n \<longleftrightarrow> (case ids of None \<Rightarrow> n = 0 \<or> buffer_ok g 0 | Some l \<Rightarrow> n \<le> length l \<and> (\<forall>b \<in> set (take n l). buffer_ok g b))"

lemma ids_ok_get:
  assumes "ids_ok g ids n" "i < n"
  shows "\<exists>b. get_node_buffer_id ids i = Some b \<and> buffer_ok g b"
proof (cases ids)
  case None
  then show ?thesis using assms by (simp add: ids_ok_def get_node_buffer_id_def)
next
  case (Some l)
  then have "i < length l" "l ! i \<in> set (take n l)" using assms by (auto simp: ids_ok_def in_set_conv_nth)
  then show ?thesis using assms(1) Some by (simp add: ids_ok_def get_node_buffer_id_def)
qed

lemma same_config_frame:
  assumes "same_config g g'"
  shows "ids_ok g' ids n = ids_ok g ids n" "buffer_ok g' b = buffer_ok g b" "moderate asz g' = moderate asz g"
  using assms by (auto simp: same_config_def ids_ok_def buffer_ok_def moderate_def split: option.splits)

lemma allocate_kept_total:
  assumes "\<not> (own T t \<and> \<not> hn_allocated (ga_hash g t))" "buffer_ok g b"
  shows "ggml_gallocr_allocate_node T asz b t g = Some g"
  using assms by (auto simp: ggml_gallocr_allocate_node_def buffer_ok_def own_def ggml_gallocr_is_allocated_def
      ggml_gallocr_is_own_def ggml_impl_is_view_def)

text \<open>One more tensor: the ones reached so far are still fewer than all.\<close>

lemma card_step:
  assumes "finite U" "node \<notin> B"
  shows "card (U \<inter> insert node B) = (if node \<in> U then Suc (card (U \<inter> B)) else card (U \<inter> B))"
    "node \<in> U \<Longrightarrow> card (U \<inter> B) < card U"
proof -
  show "card (U \<inter> insert node B) = (if node \<in> U then Suc (card (U \<inter> B)) else card (U \<inter> B))"
    using assms by (simp add: Int_insert_right)
  assume "node \<in> U"
  then have "U \<inter> B \<subset> U" using assms(2) by blast
  then show "card (U \<inter> B) < card U" using psubset_card_mono[OF assms(1)] by simp
qed

lemma leaf_total:
  assumes L: "leaf_inv T asz B g" and t: "t \<notin> B" "t_op (T t) = GGML_OP_NONE" and b: "buffer_ok g b" and lay: "by_layout T asz" "moderate asz g"
    and U: "finite U" "card U \<le> MAX_LIVE" "\<And>x. \<lbrakk>x \<in> insert t B; own T x\<rbrakk> \<Longrightarrow> x \<in> U" "\<And>x. x \<in> U \<Longrightarrow> own T x"
    and bud: "budget g (card (U \<inter> B))"
  shows "\<exists>g'. ggml_gallocr_allocate_node T asz b t g = Some g' \<and> budget g' (card (U \<inter> insert t B))"
proof -
  have inv: "plan_inv T asz g" and na: "\<not> hn_allocated (ga_hash g t)" and un: "ba_offset (hn_addr (ga_hash g t)) = 0"
    using L t(1) by (auto simp: leaf_inv_def unplaced_def)
  have w: "within U g" using L U by (auto simp: within_def leaf_inv_def)
  have new: "t \<in> U \<and> card (U \<inter> B) < MAX_LIVE \<and> ba_offset (hn_addr (ga_hash g t)) = 0" if "own T t"
    using U(2,3) that un card_step(2)[OF U(1) t(1)] by auto
  have "\<not> ggml_op_can_inplace (t_op (T t))" using t(2) by (simp add: ggml_op_can_inplace_def)
  then have "\<exists>g'. ggml_gallocr_allocate_node T asz b t g = Some g' \<and> budget g' (if own T t \<and> \<not> hn_allocated (ga_hash g t) then Suc (card (U \<inter> B)) else card (U \<inter> B))"
    using allocate_total[OF inv w b bud lay(2,1) _ new] by blast
  moreover have "own T t \<longleftrightarrow> t \<in> U" using U(3,4) by blast
  ultimately show ?thesis using card_step(1)[OF U(1) t(1)] na by simp
qed

lemma count_src_total:
  assumes "buffer_ok g b" "\<And>p. \<lbrakk>s = Some p; has_flag (T p) GGML_TENSOR_FLAG_INPUT; own T p\<rbrakk> \<Longrightarrow> hn_allocated (ga_hash g p)"
  shows "\<exists>g'. count_src T asz b s g = Some g'"
proof (cases s)
  case (Some p)
  let ?g = "upd_hash p (\<lambda>hn. hn\<lparr>n_children := n_children hn + 1\<rparr>) g"
  have "ggml_gallocr_allocate_node T asz b p ?g = Some ?g" if "has_flag (T p) GGML_TENSOR_FLAG_INPUT"
    by (rule allocate_kept_total) (use assms that Some in auto)
  then show ?thesis using Some by (auto simp: count_src_def Let_def)
qed (simp add: count_src_def)

lemma count_srcs_total:
  assumes "counted T M R g" "buffer_ok g b"
    "\<And>p. \<lbrakk>Some p \<in> set ss; has_flag (T p) GGML_TENSOR_FLAG_INPUT; own T p\<rbrakk> \<Longrightarrow> hn_allocated (ga_hash g p)"
  shows "\<exists>g'. ofold (count_src T asz b) ss g = Some g'"
  using assms
proof (induction ss arbitrary: R g)
  case (Cons s ss)
  obtain g1 where g1: "count_src T asz b s g = Some g1"
    using count_src_total[OF Cons.prems(2)] Cons.prems(3) by (metis list.set_intros(1))
  have c: "counted T M (R @ [s]) g1" "counters_only g g1"
    using count_src_step[OF Cons.prems(1) g1] Cons.prems(3) by auto
  have "buffer_ok g1 b" using Cons.prems(2) c(2) by (simp add: buffer_ok_def counters_only_def)
  from Cons.IH[OF c(1) this] show ?case using g1 c(2) Cons.prems(3) by (simp add: counters_only_def)
qed simp

lemma count_node_total:
  assumes cnt: "counted T M R g" "finite M" "node \<notin> M" and i: "vget nodes i = Some node"
    and b: "get_node_buffer_id ids i = Some b" "buffer_ok g b"
    and noinp: "\<not> has_flag (T node) GGML_TENSOR_FLAG_INPUT"
    and inp: "\<And>p. \<lbrakk>Some p \<in> set (t_src (T node)); has_flag (T p) GGML_TENSOR_FLAG_INPUT; own T p\<rbrakk> \<Longrightarrow> hn_allocated (ga_hash g p)"
  shows "\<exists>g'. count_node T asz ids nodes i g = Some g'"
proof -
  have v: "counted T (insert node M) R (count_view T node g)" "counters_only g (count_view T node g)"
    using count_view_step[OF cnt] by auto
  have "buffer_ok (count_view T node g) b" using b(2) v(2) by (simp add: buffer_ok_def counters_only_def)
  from count_srcs_total[OF v(1) this] show ?thesis
    using i b(1) noinp inp v(2) by (simp add: count_node_def counters_only_def)
qed

lemma update_parents_total:
  assumes "walk_inv T asz N S B X (ss @ R) g" "views_flat T N" "\<And>p. Some p \<in> set ss \<Longrightarrow> ref_ok T N S p"
    "within U g" "budget g m"
  shows "\<exists>g'. ofold (update_parent T asz) ss g = Some g' \<and> budget g' m"
  using assms
proof (induction ss arbitrary: g)
  case (Cons s ss)
  have inv: "plan_inv T asz g" using Cons.prems(1) by (simp add: walk_inv_def)
  obtain g1 where g1: "update_parent T asz s g = Some g1" "budget g1 m"
    using update_parent_total[OF inv Cons.prems(4,5)] by blast
  have post: "walk_post T asz N S B X (ss @ R) g g1"
    by (rule update_parent_step[OF _ Cons.prems(2) _ g1(1)]) (use Cons.prems in auto)
  then have "within U g1" using Cons.prems(4) by (auto simp: walk_post_def within_def)
  with post Cons.IH[OF _ Cons.prems(2) _ _ g1(2)] Cons.prems(3) g1(1) show ?case by (auto simp: walk_post_def)
qed simp

lemma alloc_srcs_total:
  assumes "walk_inv T asz N S B {} R g" "\<And>p. Some p \<in> set ss \<Longrightarrow> source_ok T B p \<and> Some p \<in> set R" "buffer_ok g b"
  shows "ofold (alloc_src T asz b) ss g = Some g"
  using assms(2)
proof (induction ss)
  case (Cons s ss)
  have "alloc_src T asz b s g = Some g"
  proof (cases s)
    case (Some p)
    then show ?thesis
      using allocate_kept_total[OF walk_allocated[OF assms(1)] assms(3)] Cons.prems[of p] by (simp add: alloc_src_def)
  qed (simp add: alloc_src_def)
  then show ?case using Cons by simp
qed simp

section \<open>The whole plan\<close>

definition own_tensors :: "tensors \<Rightarrow> ggml_cgraph \<Rightarrow> nat set" where
  "own_tensors T graph = {t \<in> set (cg_leafs graph @ cg_nodes graph). own T t}"

lemma finite_own_tensors [simp]: "finite (own_tensors T graph)"
  by (simp add: own_tensors_def)

lemma take_step:
  assumes "distinct xs" "i < length xs"
  shows "xs ! i \<notin> set (take i xs)" "set (take (Suc i) xs) = insert (xs ! i) (set (take i xs))"
  using assms by (auto simp: in_set_conv_nth nth_eq_iff_index_eq take_Suc_conv_app_nth)

lemma leafs_total:
  assumes graph: "graph_ok T graph" and few: "card (own_tensors T graph) \<le> MAX_LIVE" and lay: "by_layout T asz" and n: "n = length (cg_leafs graph)"
    and L: "leaf_inv T asz (set (take i (cg_leafs graph))) g" "i \<le> n" and ids: "ids_ok g ids n" "moderate asz g"
    and bud: "budget g (card (own_tensors T graph \<inter> set (take i (cg_leafs graph))))"
  shows "\<exists>g'. ofold (plan_leaf T asz ids (cg_leafs graph)) [i..<n] g = Some g' \<and> budget g' (card (own_tensors T graph \<inter> set (cg_leafs graph)))"
  using L ids bud
proof (induction "n - i" arbitrary: i g)
  case 0
  then show ?case using n by simp
next
  case (Suc d)
  then have i: "i < length (cg_leafs graph)" using n by simp
  let ?t = "cg_leafs graph ! i" and ?U = "own_tensors T graph"
  have t: "?t \<notin> set (take i (cg_leafs graph))" "set (take (Suc i) (cg_leafs graph)) = insert ?t (set (take i (cg_leafs graph)))"
    using take_step[OF _ i] graph by (auto simp: graph_ok_def)
  have op: "t_op (T ?t) = GGML_OP_NONE" using graph_leaf(1)[OF graph nth_mem[OF i]] .
  obtain b where b: "get_node_buffer_id ids i = Some b" "buffer_ok g b" using ids_ok_get[OF Suc.prems(3)] i n by blast
  have U: "x \<in> ?U" if "x \<in> insert ?t (set (take i (cg_leafs graph)))" "own T x" for x
    using that nth_mem[OF i] set_take_subset[of i "cg_leafs graph"] by (auto simp: own_tensors_def)
  have U': "own T x" if "x \<in> ?U" for x using that by (simp add: own_tensors_def)
  obtain g1 where g1: "ggml_gallocr_allocate_node T asz b ?t g = Some g1" "budget g1 (card (?U \<inter> set (take (Suc i) (cg_leafs graph))))"
    using leaf_total[OF Suc.prems(1) t(1) op b(2) lay Suc.prems(4) _ few U U' Suc.prems(5)] t(2) by auto
  have s: "leaf_inv T asz (set (take (Suc i) (cg_leafs graph))) g1" "same_config g g1"
    using leaf_step[OF Suc.prems(1) op g1(1)] t(2) by auto
  have "plan_leaf T asz ids (cg_leafs graph) i g = Some g1" using i b(1) g1(1) by (simp add: plan_leaf_def)
  moreover have "\<exists>g'. ofold (plan_leaf T asz ids (cg_leafs graph)) [Suc i..<n] g1 = Some g' \<and> budget g' (card (?U \<inter> set (cg_leafs graph)))"
    using Suc.hyps(1)[OF _ s(1) _ _ _ g1(2)] Suc.hyps(2) Suc.prems(3,4) same_config_frame[OF s(2)] i n by simp
  ultimately show ?case using upt_conv_Cons[of i n] i n by simp
qed

lemma counting_total:
  assumes graph: "graph_ok T graph" and n: "n = length (cg_nodes graph)"
    and leafs: "\<And>t. \<lbrakk>t \<in> set (cg_leafs graph); own T t\<rbrakk> \<Longrightarrow> hn_allocated (ga_hash g t)"
    and i: "i \<le> n" and ids: "ids_ok g ids n"
    and cnt: "counted T (set (take i (cg_nodes graph))) (node_refs T (take i (cg_nodes graph))) g"
  shows "\<exists>g'. ofold (count_node T asz ids (cg_nodes graph)) [i..<n] g = Some g'"
  using leafs i ids cnt
proof (induction "n - i" arbitrary: i g)
  case (Suc d)
  then have i: "i < length (cg_nodes graph)" using n by simp
  let ?node = "cg_nodes graph ! i"
  have inp: "hn_allocated (ga_hash g p)"
    if "Some p \<in> set (t_src (T ?node))" "has_flag (T p) GGML_TENSOR_FLAG_INPUT" "own T p" for p
    using graph_input_leaf[OF graph i that] Suc.prems(1) that(3) by blast
  obtain b where b: "get_node_buffer_id ids i = Some b" "buffer_ok g b" using ids_ok_get[OF Suc.prems(3)] i n by blast
  have node: "?node \<notin> set (take i (cg_nodes graph))" "vget (cg_nodes graph) i = Some ?node"
    using graph_node(4)[OF graph i] i by auto
  obtain g1 where g1: "count_node T asz ids (cg_nodes graph) i g = Some g1"
    using count_node_total[OF Suc.prems(4) finite_set node b graph_node(3)[OF graph i] inp] by blast
  have c: "counted T (set (take (Suc i) (cg_nodes graph))) (node_refs T (take (Suc i) (cg_nodes graph))) g1" "counters_only g g1"
    using count_node_step[OF Suc.prems(4) finite_set node graph_node(3)[OF graph i] inp g1] i by (simp_all add: take_Suc_conv_app_nth)
  have "ids_ok g1 ids n" using Suc.prems(3) c(2) by (auto simp: ids_ok_def buffer_ok_def counters_only_def split: option.splits)
  moreover have "hn_allocated (ga_hash g1 t)" if "t \<in> set (cg_leafs graph)" "own T t" for t
    using Suc.prems(1)[OF that] c(2) by (simp add: counters_only_def)
  ultimately have "\<exists>g'. ofold (count_node T asz ids (cg_nodes graph)) [Suc i..<n] g1 = Some g'"
    using Suc.hyps(1)[of "Suc i" g1] c(1) Suc.hyps(2) i n by simp
  then show ?case using upt_conv_Cons[of i n] i n g1 by simp
qed simp

lemma node_total:
  assumes graph: "graph_ok T graph" and i: "i < length (cg_nodes graph)" and W: "walk_at T asz graph i g"
    and few: "card (own_tensors T graph) \<le> MAX_LIVE" and lay: "by_layout T asz" "moderate asz g" and ids: "ids_ok g ids (length (cg_nodes graph))"
    and bud: "budget g (card (own_tensors T graph \<inter> (set (cg_leafs graph) \<union> set (take i (cg_nodes graph)))))"
  shows "\<exists>g'. plan_node T asz ids (cg_nodes graph) i g = Some g'
    \<and> budget g' (card (own_tensors T graph \<inter> (set (cg_leafs graph) \<union> set (take (Suc i) (cg_nodes graph)))))"
proof -
  let ?B = "set (cg_leafs graph) \<union> set (take i (cg_nodes graph))" and ?U = "own_tensors T graph" and ?node = "cg_nodes graph ! i"
  let ?N = "set (cg_nodes graph)" and ?S = "node_refs T (cg_nodes graph)"
  have B: "set (cg_leafs graph) \<union> set (take (Suc i) (cg_nodes graph)) = insert ?node ?B"
    using i by (simp add: take_Suc_conv_app_nth)
  have W': "walk_inv T asz ?N ?S ?B {} (t_src (T ?node) @ node_refs T (drop (Suc i) (cg_nodes graph))) g"
    using W Cons_nth_drop_Suc[OF i, symmetric] by (simp add: walk_at_def)
  have inv: "plan_inv T asz g" and sub: "\<And>t. hn_allocated (ga_hash g t) \<Longrightarrow> t \<in> ?B" using W' by (auto simp: walk_inv_def)
  have nB: "?node \<notin> ?B" using graph_node(4)[OF graph i] .
  obtain b where b: "get_node_buffer_id ids i = Some b" "buffer_ok g b" using ids_ok_get[OF ids i] by blast
  have w: "within ?U g"
    using few sub inv set_take_subset[of i "cg_nodes graph"] by (fastforce simp: within_def own_tensors_def plan_inv_def hash_ok_def)
  have srcs: "ofold (alloc_src T asz b) (t_src (T ?node)) g = Some g"
    by (rule alloc_srcs_total[OF W' _ b(2)]) (use graph_node(1)[OF graph i] in auto)
  have self: "Some ?node \<notin> set (t_src (T ?node))" if "own T ?node"
    using graph_node(1)[OF graph i, of ?node] nB that by (auto simp: source_ok_def own_def external_def)
  have na: "\<not> hn_allocated (ga_hash g ?node)" using sub nB by blast
  have U: "?node \<in> ?U \<longleftrightarrow> own T ?node" using i by (simp add: own_tensors_def)
  have new: "?node \<in> ?U \<and> card (?U \<inter> ?B) < MAX_LIVE \<and> ba_offset (hn_addr (ga_hash g ?node)) = 0" if "own T ?node"
    using that U few less_le_trans[OF card_step(2)[OF finite_own_tensors nB, of T graph]] W nB
    by (simp add: walk_at_def unplaced_def)
  have cs: "card (?U \<inter> insert ?node ?B) = (if own T ?node \<and> \<not> hn_allocated (ga_hash g ?node) then Suc (card (?U \<inter> ?B)) else card (?U \<inter> ?B))"
    using card_step(1)[OF finite_own_tensors nB] U na by simp
  obtain h where h: "ggml_gallocr_allocate_node T asz b ?node g = Some h" "budget h (card (?U \<inter> insert ?node ?B))"
  proof (cases "own T ?node")
    case True
    then show ?thesis
      using allocate_total[OF inv w b(2) bud lay(2,1) _ new] self that unfolding cs by blast
  next
    case False
    then show ?thesis using allocate_kept_total[OF _ b(2)] bud cs that by auto
  qed
  have pa: "plan_alloc T asz b ?node g = Some h" using srcs h(1) by (simp add: plan_alloc_def)
  have fl: "views_flat T ?N" using graph_views_flat[OF graph] .
  obtain X where X: "walk_inv T asz ?N ?S (insert ?node ?B) X (t_src (T ?node) @ node_refs T (drop (Suc i) (cg_nodes graph))) h"
    using plan_alloc_step[OF W' nB _ _ pa] fl graph_node(1)[OF graph i] by (auto simp: views_flat_def)
  have "within ?U h"
    using few X i set_take_subset[of i "cg_nodes graph"]
    by (fastforce simp: within_def own_tensors_def plan_inv_def hash_ok_def walk_inv_def)
  from update_parents_total[OF X fl _ this h(2)] graph_ref_ok[OF graph i]
  obtain g' where "ofold (update_parent T asz) (t_src (T ?node)) h = Some g'" "budget g' (card (?U \<inter> insert ?node ?B))"
    by blast
  then show ?thesis using i b(1) pa B by (auto simp: plan_node_def)
qed

lemma nodes_total:
  assumes graph: "graph_ok T graph" and n: "n = length (cg_nodes graph)"
    and few: "card (own_tensors T graph) \<le> MAX_LIVE" and lay: "by_layout T asz"
    and W: "walk_at T asz graph i g" "i \<le> n" and mod: "moderate asz g" "ids_ok g ids n"
    and bud: "budget g (card (own_tensors T graph \<inter> (set (cg_leafs graph) \<union> set (take i (cg_nodes graph)))))"
  shows "\<exists>g'. ofold (plan_node T asz ids (cg_nodes graph)) [i..<n] g = Some g'"
  using W mod bud
proof (induction "n - i" arbitrary: i g)
  case (Suc d)
  then have i: "i < length (cg_nodes graph)" using n by simp
  obtain g1 where g1: "plan_node T asz ids (cg_nodes graph) i g = Some g1"
    "budget g1 (card (own_tensors T graph \<inter> (set (cg_leafs graph) \<union> set (take (Suc i) (cg_nodes graph)))))"
    using node_total[OF graph i Suc.prems(1) few lay Suc.prems(3) _ Suc.prems(5)] Suc.prems(4) n by blast
  obtain h where h: "same_config g h" "walk_at T asz graph (Suc i) g1" "same_config h g1"
    using walk_at_step[OF graph i Suc.prems(1) g1(1)] by blast
  have "\<exists>g'. ofold (plan_node T asz ids (cg_nodes graph)) [Suc i..<n] g1 = Some g'"
    using Suc.hyps(1)[OF _ h(2) _ _ _ g1(2)] Suc.hyps(2) Suc.prems(3,4) i n
      same_config_frame[OF same_config_trans[OF h(1,3)]] by simp
  then show ?case using upt_conv_Cons[of i n] i n g1(1) by simp
qed simp

text \<open>What the last pass needs to record the places: every buffer id that it looks up exists.\<close>

lemma omap_total: "(\<And>x. x \<in> set xs \<Longrightarrow> \<exists>y. f x = Some y) \<Longrightarrow> \<exists>ys. omap f xs = Some ys"
proof (induction xs)
  case (Cons x xs)
  obtain y ys where "f x = Some y" "omap f xs = Some ys"
    using Cons.prems[of x] Cons.IH Cons.prems by (metis list.set_intros(1,2))
  then show ?case by simp
qed simp

lemma planned_total:
  assumes "named_buffers g" "ga_bufts g \<noteq> []"
  shows "\<exists>a. planned_alloc T asz g t = Some a" "\<exists>a. planned_node T asz g t = Some a"
proof -
  have p: "\<exists>a. planned_alloc T asz g t = Some a" for t
    using assms by (auto simp: planned_alloc_def named_buffers_def buffer_ok_def buft_of_def Let_def)
  then show "\<exists>a. planned_alloc T asz g t = Some a" .
  have "\<exists>a. planned_src T asz g s = Some a" for s using p by (cases s) (auto simp: planned_src_def)
  then obtain as where "omap (planned_src T asz g) (t_src (T t)) = Some as" using omap_total by metis
  then show "\<exists>a. planned_node T asz g t = Some a" using p[of t] by (auto simp: planned_node_def)
qed

definition plannable :: "tensors \<Rightarrow> (nat \<Rightarrow> nat \<Rightarrow> size_t) \<Rightarrow> ggml_cgraph \<Rightarrow> int list option \<Rightarrow> int list option \<Rightarrow> ggml_gallocr \<Rightarrow> bool" where
  "plannable T asz graph nids lids g \<longleftrightarrow> gallocr_ready asz g \<and> graph_ok T graph
     \<and> card (own_tensors T graph) \<le> MAX_LIVE \<and> by_layout T asz \<and> moderate asz g
     \<and> ga_bufts g \<noteq> [] \<and> ids_ok g nids (length (cg_nodes graph)) \<and> ids_ok g lids (length (cg_leafs graph))"

lemma reset_frame:
  assumes "gallocr_ready asz g"
  shows "ids_ok (reset_hash g) ids n = ids_ok g ids n" "moderate asz (reset_hash g) = moderate asz g" "budget (reset_hash g) 0"
    "ga_bufts (reset_hash g) = ga_bufts g"
proof -
  show b: "ga_bufts (reset_hash g) = ga_bufts g" by (simp add: reset_hash_def)
  then show "ids_ok (reset_hash g) ids n = ids_ok g ids n"
    by (auto simp: ids_ok_def buffer_ok_def split: option.splits)
  have "alignment (reset_hash g) (ga_buf_tallocs g ! i) = alignment g (ga_buf_tallocs g ! i)" if "i < length (ga_bufts g)" for i
    using assms that by (auto simp: gallocr_ready_def config_ok_def alignment_def reset_hash_def ggml_dyn_tallocr_reset_def)
  then show "moderate asz (reset_hash g) = moderate asz g"
    unfolding moderate_def b by (simp add: reset_hash_def)
  show "budget (reset_hash g) 0"
    by (auto simp: budget_def reset_hash_def ggml_dyn_tallocr_reset_def last_used_def GGML_VBUFFER_MAX_CHUNKS_def)
qed

lemma alloc_graph_total:
  assumes "plannable T asz graph nids lids g"
  shows "\<exists>g'. ggml_gallocr_alloc_graph_impl T asz graph nids lids (g\<lparr>ga_tallocs := map ggml_dyn_tallocr_reset (ga_tallocs g)\<rparr>) = Some g'
    \<and> named_buffers g' \<and> ga_bufts g' = ga_bufts g"
proof -
  let ?g = "reset_hash g" and ?n = "length (cg_nodes graph)" and ?U = "own_tensors T graph"
  have A: "gallocr_ready asz g" "graph_ok T graph" "card ?U \<le> MAX_LIVE" "by_layout T asz" "moderate asz ?g"
    "ids_ok ?g nids ?n" "ids_ok ?g lids (length (cg_leafs graph))"
    using assms reset_frame by (auto simp: plannable_def)
  have L0: "leaf_inv T asz {} ?g"
    using reset_hash_inv[OF A(1)] by (simp add: leaf_inv_def no_counts_def unplaced_def reset_hash_def hash_node_zero_def named_buffers_def buffer_ok_def)
  obtain g1 where g1: "ofold (plan_leaf T asz lids (cg_leafs graph)) [0..<length (cg_leafs graph)] ?g = Some g1"
    "budget g1 (card (?U \<inter> set (cg_leafs graph)))"
    using leafs_total[OF A(2-4) refl _ _ A(7,5), of 0] L0 reset_frame(3)[OF A(1)] by auto
  from leaf_walk[OF L0 _ g1(1)] graph_leaf(1)[OF A(2)]
  have L: "leaf_inv T asz (set (cg_leafs graph)) g1" "same_config ?g g1" by (auto simp: leaf_image)
  have c0: "counted T (set (take 0 (cg_nodes graph))) (node_refs T (take 0 (cg_nodes graph))) g1"
    using L(1) by (simp add: leaf_inv_def no_counts_def counted_def refs_def)
  have ids1: "ids_ok g1 nids ?n" "moderate asz g1" using A(5,6) same_config_frame[OF L(2)] by auto
  have lf: "hn_allocated (ga_hash g1 t)" if "t \<in> set (cg_leafs graph)" "own T t" for t using L(1) that by (simp add: leaf_inv_def)
  obtain g2 where g2: "ofold (count_node T asz nids (cg_nodes graph)) [0..<?n] g1 = Some g2"
    using counting_total[OF A(2) refl lf _ ids1(1) c0] by blast
  from count_walk[OF A(2) refl lf g2 _ c0]
  have c: "counted T (set (cg_nodes graph)) (node_refs T (cg_nodes graph)) g2" "counters_only g1 g2" by auto
  have W: "walk_at T asz graph 0 g2" by (rule counted_walk_at[OF L(1) c])
  have "plan_inv T asz g1" using L(1) by (simp add: leaf_inv_def)
  note sc = counters_only_inv(2)[OF c(2) this]
  have "budget g2 (card (?U \<inter> (set (cg_leafs graph) \<union> set (take 0 (cg_nodes graph)))))"
    using g1(2) c(2) by (simp add: budget_def counters_only_def)
  moreover have "moderate asz g2" "ids_ok g2 nids ?n" using ids1 same_config_frame[OF sc] by auto
  ultimately obtain g3 where g3: "ofold (plan_node T asz nids (cg_nodes graph)) [0..<?n] g2 = Some g3"
    using nodes_total[OF A(2) refl A(3,4) W] by blast
  have "walk_at T asz graph ?n g3" "same_config g2 g3" using walk_places[OF A(2) refl W _ g3] by auto
  then have "named_buffers g3" "ga_bufts g3 = ga_bufts g"
    using L(2) sc by (auto simp: walk_at_def same_config_def reset_hash_def)
  moreover have "ggml_gallocr_alloc_graph_impl T asz graph nids lids (g\<lparr>ga_tallocs := map ggml_dyn_tallocr_reset (ga_tallocs g)\<rparr>) = Some g3"
    using g1(1) g2 g3 by (simp add: ggml_gallocr_alloc_graph_impl_def reset_hash_def)
  ultimately show ?thesis by blast
qed

lemma reserve_total:
  assumes "plannable T asz graph nids lids g"
  shows "\<exists>g'. reserve_plan T asz graph nids lids g = Some g'"
proof -
  obtain g3 where g3: "ggml_gallocr_alloc_graph_impl T asz graph nids lids (g\<lparr>ga_tallocs := map ggml_dyn_tallocr_reset (ga_tallocs g)\<rparr>) = Some g3"
    "named_buffers g3" "ga_bufts g3 = ga_bufts g" using alloc_graph_total[OF assms] by blast
  have ne: "ga_bufts g3 \<noteq> []" using g3(3) assms by (simp add: plannable_def)
  obtain nas las where "omap (planned_node T asz g3) (cg_nodes graph) = Some nas" "omap (planned_alloc T asz g3) (cg_leafs graph) = Some las"
    using omap_total planned_total[OF g3(2) ne] by metis
  then show ?thesis using g3(1) by (simp add: reserve_plan_def)
qed

end
