(* ===== verification/Gallocr_Fit.thy ===== *)
theory Gallocr_Fit
  imports Gallocr_Total
begin

text \<open>
  Plans fit the buffers that are allocated for them. The peak of a chunk (\<open>max_size\<close>) only grows
  while a graph is planned, and a tensor lies below it when it gets its place, so at the end the
  peaks cover every tensor of the graph, those too that were released on the way.
\<close>

section \<open>Peaks grow\<close>

definition peaks_grow :: "ggml_dyn_tallocr \<Rightarrow> ggml_dyn_tallocr \<Rightarrow> bool" where
  "peaks_grow s s' \<longleftrightarrow> length (dt_chunks s) \<le> length (dt_chunks s')
     \<and> (\<forall>c < length (dt_chunks s). max_size (dt_chunks s ! c) \<le> max_size (dt_chunks s' ! c))"

lemma peaks_grow_refl [simp]: "peaks_grow s s"
  by (simp add: peaks_grow_def)

lemma peaks_grow_trans: "\<lbrakk>peaks_grow s s'; peaks_grow s' s''\<rbrakk> \<Longrightarrow> peaks_grow s s''"
  unfolding peaks_grow_def by (meson less_le_trans order_trans)

lemma peaks_grow_upd:
  assumes "c < length (dt_chunks s)" "max_size (dt_chunks s ! c) \<le> max_size ck"
  shows "peaks_grow s (s\<lparr>dt_chunks := (dt_chunks s)[c := ck]\<rparr>)"
  using assms by (auto simp: peaks_grow_def nth_list_update)

lemma block_ops_peak:
  "ggml_dyn_tallocr_remove_block ck i = Some ck' \<Longrightarrow> max_size ck' = max_size ck"
  "ggml_dyn_tallocr_insert_block ck off n = Some ck' \<Longrightarrow> max_size ck' = max_size ck"
  by (auto simp: ggml_dyn_tallocr_remove_block_def ggml_dyn_tallocr_insert_block_def bind_eq_Some_conv Let_def split: if_splits)

lemma merge_peak:
  "merge_after ck i b n = Some ck' \<Longrightarrow> max_size ck' = max_size ck"
  "merge_before ck i b off n = Some ck' \<Longrightarrow> max_size ck' = max_size ck"
  by (auto simp: merge_after_def merge_before_def bind_eq_Some_conv Let_def split: if_splits dest!: block_ops_peak)

lemma free_scan_peak: "free_scan is ck off n = Some ck' \<Longrightarrow> max_size ck' = max_size ck"
  by (induction "is") (auto simp: bind_eq_Some_conv split: if_splits dest: block_ops_peak merge_peak)

lemma free_bytes_grows: "ggml_dyn_tallocr_free_bytes s addr n = Some s' \<Longrightarrow> peaks_grow s s'"
  by (auto simp: ggml_dyn_tallocr_free_bytes_def bind_eq_Some_conv Let_def split: if_splits dest!: free_scan_peak intro!: peaks_grow_upd)

lemma choose_block_grows:
  assumes "choose_block s n = Some (bc, bb, s')"
  shows "peaks_grow s s'"
proof -
  have "s' = s \<or> s' = snd (ggml_dyn_tallocr_new_chunk s n)"
    using assms by (auto simp: choose_block_def bind_eq_Some_conv Let_def split: if_splits prod.splits)
  then show ?thesis
    by (auto simp: ggml_dyn_tallocr_new_chunk_def Let_def peaks_grow_def nth_append)
qed

lemma take_bytes_peak: "take_bytes ck i n = Some (off, ck') \<Longrightarrow> max_size ck \<le> max_size ck'"
  by (auto simp: take_bytes_def bind_eq_Some_conv Let_def split: if_splits dest!: block_ops_peak)

lemma alloc_grows:
  assumes "ggml_dyn_tallocr_alloc s n = Some (addr, s')"
  shows "peaks_grow s s'"
proof -
  obtain z bc bb s1 ck off ck' where cb: "choose_block s z = Some (bc, bb, s1)" "nat bc < length (dt_chunks s1)"
    "take_bytes (dt_chunks s1 ! nat bc) (nat bb) z = Some (off, ck')" "s' = s1\<lparr>dt_chunks := (dt_chunks s1)[nat bc := ck']\<rparr>"
    using assms by (auto simp: ggml_dyn_tallocr_alloc_def bind_eq_Some_conv split: if_splits)
  have "peaks_grow s1 s'" unfolding cb(4) by (rule peaks_grow_upd[OF cb(2) take_bytes_peak[OF cb(3)]])
  with choose_block_grows[OF cb(1)] show ?thesis by (rule peaks_grow_trans)
qed

section \<open>Through the planning of a graph\<close>

definition grows :: "ggml_gallocr \<Rightarrow> ggml_gallocr \<Rightarrow> bool" where
  "grows g g' \<longleftrightarrow> list_all2 peaks_grow (ga_tallocs g) (ga_tallocs g')"

lemma grows_refl [simp]: "grows g g"
  by (simp add: grows_def list.rel_refl)

lemma grows_trans: "\<lbrakk>grows g g'; grows g' g''\<rbrakk> \<Longrightarrow> grows g g''"
  unfolding grows_def by (rule list_all2_trans[of peaks_grow peaks_grow peaks_grow]) (rule peaks_grow_trans)

lemma grows_hash [simp]: "grows (upd_hash t f g) g' = grows g g'" "grows g (upd_hash t f g') = grows g g'"
  by (simp_all add: grows_def)

lemma on_talloc_grows:
  assumes "on_talloc b f g = Some (x, g')" "\<And>s s'. f s = Some (x, s') \<Longrightarrow> peaks_grow s s'"
  shows "grows g g'"
  using assms by (auto simp: on_talloc_Some Let_def grows_def list_all2_conv_all_nth nth_list_update)

lemma extra_space_grows: "ggml_gallocr_free_extra_space asz node p g = Some g' \<Longrightarrow> grows g g'"
  unfolding ggml_gallocr_free_extra_space_def Let_def
  by (auto simp: bind_eq_Some_conv split: if_splits dest!: free_bytes_grows elim!: on_talloc_grows)

lemma reuse_scan_grows: "reuse_scan T asz node ps g = Some (r, g') \<Longrightarrow> grows g g'"
  by (induction T asz node ps g rule: reuse_scan.induct)
    (auto simp: Let_def bind_eq_Some_conv split: if_splits option.splits dest!: extra_space_grows)

lemma allocate_node_grows:
  assumes "ggml_gallocr_allocate_node T asz b node g = Some g'"
  shows "grows g g'"
  using assms unfolding ggml_gallocr_allocate_node_def Let_def
  by (auto simp: bind_eq_Some_conv split: if_splits dest!: reuse_scan_grows intro: grows_trans
      dest!: on_talloc_grows[OF _ alloc_grows])

lemma free_node_grows: "ggml_gallocr_free_node T asz node g = Some g' \<Longrightarrow> grows g g'"
  unfolding ggml_gallocr_free_node_def Let_def
  by (auto simp: bind_eq_Some_conv split: if_splits dest!: free_bytes_grows elim!: on_talloc_grows)

lemma update_parent_grows: "update_parent T asz s g = Some g' \<Longrightarrow> grows g g'"
  by (auto simp: update_parent_def Let_def split: option.splits if_splits dest!: free_node_grows)

lemma ofold_grows:
  assumes step: "\<And>x h h'. f x h = Some h' \<Longrightarrow> grows h h'"
  shows "ofold f xs g = Some g' \<Longrightarrow> grows g g'"
proof (induction xs arbitrary: g)
  case (Cons x xs)
  then obtain h where h: "f x g = Some h" "ofold f xs h = Some g'" by (auto simp: bind_eq_Some_conv)
  from grows_trans[OF step[OF h(1)] Cons.IH[OF h(2)]] show ?case .
qed simp

lemma plan_alloc_grows:
  assumes "plan_alloc T asz b node g = Some h"
  shows "grows g h"
proof -
  obtain g1 where g1: "ofold (alloc_src T asz b) (t_src (T node)) g = Some g1" "ggml_gallocr_allocate_node T asz b node g1 = Some h"
    using assms by (auto simp: plan_alloc_def bind_eq_Some_conv)
  have "grows g g1"
    by (rule ofold_grows[OF _ g1(1)]) (auto simp: alloc_src_def split: option.splits dest: allocate_node_grows)
  then show ?thesis using grows_trans allocate_node_grows[OF g1(2)] by blast
qed

section \<open>Tensors below the peak\<close>

definition tensor_fits :: "(nat \<Rightarrow> nat \<Rightarrow> size_t) \<Rightarrow> ggml_gallocr \<Rightarrow> nat \<Rightarrow> bool" where
  "tensor_fits asz g t \<longleftrightarrow> buffer_ok g (hn_buffer_id (ga_hash g t)) \<and> 0 \<le> ba_chunk (hn_addr (ga_hash g t)) \<and> talloc_of g t < length (ga_tallocs g)
     \<and> (let (c, a, n) = tensor_region asz g t; chunks = dt_chunks (ga_tallocs g ! talloc_of g t)
        in c < length chunks \<and> unat a + unat n \<le> unat (max_size (chunks ! c)))"

lemma allocated_fits:
  assumes inv: "plan_inv T asz g" and t: "hn_allocated (ga_hash g t)"
  shows "tensor_fits asz g t"
proof -
  have cfg: "config_ok asz g" "hash_ok T g" using inv by (auto simp: plan_inv_def)
  have k: "talloc_of g t < length (ga_tallocs g)" using talloc_of_lt[OF cfg t] .
  obtain ts where ts: "tallocr_ok (alignment g (talloc_of g t)) (ga_tallocs g ! talloc_of g t) (map (tensor_region asz g) ts)"
    "set ts = allocated_in g (talloc_of g t)" using plan_inv_tensors[OF inv k] .
  obtain caps where I: "tallocr_inv caps (ga_tallocs g ! talloc_of g t) (map (tensor_region asz g) ts)"
    using ts(1) by (auto simp: tallocr_ok_def)
  have "tensor_region asz g t \<in> set (map (tensor_region asz g) ts)" using ts(2) t by (auto simp: allocated_in_def)
  from tallocr_invD(5)[OF I this] show ?thesis
    using k cfg(2) t by (auto simp: tensor_fits_def region_ok_def Let_def hash_ok_def buffer_ok_def)
qed

lemma fits_grows:
  assumes "tensor_fits asz g t" "same_config g g'" "same_places g g' B" "t \<in> B" "grows g g'"
  shows "tensor_fits asz g' t"
proof -
  have eq: "talloc_of g' t = talloc_of g t" "tensor_region asz g' t = tensor_region asz g t"
    "hn_buffer_id (ga_hash g' t) = hn_buffer_id (ga_hash g t)" "hn_addr (ga_hash g' t) = hn_addr (ga_hash g t)" "ga_bufts g' = ga_bufts g"
    using assms(2-4) by (auto simp: talloc_of_def tensor_region_def planned_size_def same_config_def same_places_def)
  obtain c a n where r: "tensor_region asz g t = (c, a, n)" by (cases "tensor_region asz g t")
  have k: "talloc_of g t < length (ga_tallocs g)" "c < length (dt_chunks (ga_tallocs g ! talloc_of g t))"
    using assms(1) r by (auto simp: tensor_fits_def Let_def)
  have "peaks_grow (ga_tallocs g ! talloc_of g t) (ga_tallocs g' ! talloc_of g t)" "length (ga_tallocs g') = length (ga_tallocs g)"
    using assms(5) k(1) by (auto simp: grows_def list_all2_conv_all_nth)
  then show ?thesis
    using assms(1) r k unfolding tensor_fits_def buffer_ok_def eq by (auto simp: Let_def peaks_grow_def word_le_nat_alt intro: order_trans)
qed

lemma walk_fits:
  assumes graph: "graph_ok T graph" and n: "n = length (cg_nodes graph)" and W: "walk_at T asz graph i g" "i \<le> n"
    and run: "ofold (plan_node T asz ids (cg_nodes graph)) [i..<n] g = Some g'"
    and F: "\<And>t. \<lbrakk>t \<in> set (cg_leafs graph) \<union> set (take i (cg_nodes graph)); own T t\<rbrakk> \<Longrightarrow> tensor_fits asz g t"
  shows "\<forall>t \<in> set (cg_leafs graph) \<union> set (cg_nodes graph). own T t \<longrightarrow> tensor_fits asz g' t"
  using W run F
proof (induction "n - i" arbitrary: i g)
  case 0
  then show ?case using n by simp
next
  case (Suc d)
  then have i: "i < length (cg_nodes graph)" using n by simp
  let ?node = "cg_nodes graph ! i" and ?B = "set (cg_leafs graph) \<union> set (take i (cg_nodes graph))"
  obtain g1 where g1: "plan_node T asz ids (cg_nodes graph) i g = Some g1" "ofold (plan_node T asz ids (cg_nodes graph)) [Suc i..<n] g1 = Some g'"
    using Suc.prems(3) upt_conv_Cons[of i n] i n by (auto simp: bind_eq_Some_conv)
  obtain h b where h: "plan_inv T asz h" "same_config g h" "same_places g h {t. t \<noteq> ?node \<or> \<not> own T t}"
    "own T ?node \<longrightarrow> hn_allocated (ga_hash h ?node)" "walk_at T asz graph (Suc i) g1" "same_config h g1" "same_places h g1 UNIV"
    "plan_alloc T asz b ?node g = Some h" "ofold (update_parent T asz) (t_src (T ?node)) h = Some g1"
    using walk_at_step[OF graph i Suc.prems(1) g1(1)] by blast
  have gr: "grows g h" "grows h g1" using plan_alloc_grows[OF h(8)] ofold_grows[OF update_parent_grows h(9)] by auto
  have "tensor_fits asz h t" if "t \<in> insert ?node ?B" "own T t" for t
  proof (cases "t = ?node")
    case True
    then show ?thesis using allocated_fits[OF h(1)] h(4) that by simp
  next
    case False
    then show ?thesis using fits_grows[OF _ h(2,3) _ gr(1)] Suc.prems(4) that by auto
  qed
  then have "tensor_fits asz g1 t" if "t \<in> insert ?node ?B" "own T t" for t
    using fits_grows[OF _ h(6,7) _ gr(2)] that by blast
  moreover have "set (cg_leafs graph) \<union> set (take (Suc i) (cg_nodes graph)) = insert ?node ?B"
    using i by (simp add: take_Suc_conv_app_nth)
  ultimately show ?case
    using Suc.hyps(1)[of "Suc i" g1] Suc.hyps(2) h(5) g1(2) i n by auto
qed

lemma fits_records [simp]: "tensor_fits asz (g\<lparr>ga_node_allocs := nas, ga_leaf_allocs := las\<rparr>) = tensor_fits asz g"
  by (simp add: fun_eq_iff tensor_fits_def buffer_ok_def talloc_of_def)

lemma reserve_fits:
  assumes "gallocr_ready asz g" "graph_ok T graph" "reserve_plan T asz graph nids lids g = Some g'"
    and t: "t \<in> set (cg_leafs graph @ cg_nodes graph)" "own T t"
  shows "tensor_fits asz g' t"
proof -
  obtain g1 g2 g3 where g: "leaf_inv T asz (set (cg_leafs graph)) g1" "walk_at T asz graph 0 g2" "counters_only g1 g2"
    "ofold (plan_node T asz nids (cg_nodes graph)) [0..<length (cg_nodes graph)] g2 = Some g3" and F: "tensor_fits asz g' = tensor_fits asz g3"
    using reserve_passes[OF assms(1-3)] by auto
  have "tensor_fits asz g2 u" if "u \<in> set (cg_leafs graph)" "own T u" for u
    using allocated_fits[of T asz g2 u] g(1-3) that by (auto simp: walk_at_def walk_inv_def leaf_inv_def counters_only_def)
  then show ?thesis using walk_fits[OF assms(2) refl g(2) _ g(4)] t unfolding F by auto
qed

end
