(* ===== verification/Gallocr_Correct.thy ===== *)
theory Gallocr_Correct
  imports Gallocr_Total
begin

text \<open>
  The properties of the graph allocator: a new one is ready to plan, and a planned graph finds the
  data of its sources when it runs.
\<close>

section \<open>Construction\<close>

definition idx_ok :: "(nat \<Rightarrow> size_t) \<Rightarrow> nat list \<Rightarrow> nat \<Rightarrow> nat list \<times> ggml_dyn_tallocr list \<Rightarrow> bool" where
  "idx_ok balign bufts i = (\<lambda>(idx, tallocs). length idx = i
     \<and> (\<forall>j < i. idx ! j < length tallocs \<and> dt_alignment (tallocs ! (idx ! j)) = balign (bufts ! j))
     \<and> (\<forall>j < i. \<forall>k < i. idx ! j = idx ! k \<longleftrightarrow> bufts ! j = bufts ! k)
     \<and> (\<forall>s \<in> set tallocs. \<exists>j < i. dt_alignment s = balign (bufts ! j) \<and> unat (max_chunk_size s) < 2 ^ 63))"

lemma max_chunk_new: "unat (max_chunk_size (ggml_dyn_tallocr_new al m)) < 2 ^ 63" "dt_alignment (ggml_dyn_tallocr_new al m) = al"
proof -
  have "min m (SIZE_MAX div 2) \<le> SIZE_MAX div 2" by simp
  then have "unat (min m (SIZE_MAX div 2)) \<le> unat (SIZE_MAX div 2)" by (simp only: word_le_nat_alt)
  then show "unat (max_chunk_size (ggml_dyn_tallocr_new al m)) < 2 ^ 63"
    by (simp add: ggml_dyn_tallocr_new_def ggml_dyn_tallocr_reset_def unat_half_max)
qed (simp add: ggml_dyn_tallocr_new_def ggml_dyn_tallocr_reset_def)

lemma new_talloc_step:
  assumes "idx_ok balign bufts i st"
  shows "idx_ok balign bufts (Suc i) (new_talloc balign bmax bufts i st)"
proof -
  obtain idx tallocs where st: "st = (idx, tallocs)" by (cases st)
  have I: "length idx = i" "\<And>j. j < i \<Longrightarrow> idx ! j < length tallocs \<and> dt_alignment (tallocs ! (idx ! j)) = balign (bufts ! j)"
    "\<And>j k. \<lbrakk>j < i; k < i\<rbrakk> \<Longrightarrow> idx ! j = idx ! k \<longleftrightarrow> bufts ! j = bufts ! k"
    "\<And>s. s \<in> set tallocs \<Longrightarrow> \<exists>j < i. dt_alignment s = balign (bufts ! j) \<and> unat (max_chunk_size s) < 2 ^ 63"
    using assms st by (auto simp: idx_ok_def)
  show ?thesis
  proof (cases "find (\<lambda>j. bufts ! i = bufts ! j) [0..<i]")
    case (Some k)
    then have k: "k < i" "bufts ! i = bufts ! k" by (auto simp: find_Some_iff)
    show ?thesis
      using I(1-3) k Some by (auto simp: st new_talloc_def idx_ok_def nth_append less_Suc_eq dest!: I(4))
  next
    case None
    then have new: "bufts ! j \<noteq> bufts ! i" "bufts ! i \<noteq> bufts ! j" "idx ! j \<noteq> length tallocs" "length tallocs \<noteq> idx ! j"
      if "j < i" for j using that I(2)[OF that] by (fastforce simp: find_None_iff)+
    show ?thesis
      using I(1-3) new None max_chunk_new by (auto simp: st new_talloc_def idx_ok_def nth_append less_Suc_eq dest!: I(4))
  qed
qed

lemma new_tallocs:
  "idx_ok balign bufts i (fold (new_talloc balign bmax bufts) [0..<i] ([], []))"
  by (induction i) (simp add: idx_ok_def, simp add: new_talloc_step)

text \<open>
  A new graph allocator is ready to plan: every buffer id has an allocator with the alignment of
  its buffer type, and two buffer ids share an allocator exactly when their buffer types are equal.
\<close>

lemma gallocr_new_ready:
  assumes "\<And>b. b \<in> set bufts \<Longrightarrow> align_ok (balign b)" "\<And>b t. b \<in> set bufts \<Longrightarrow> size_ok (balign b) (asz b t)"
  shows "gallocr_ready asz (ggml_gallocr_new_n balign bmax bufts)
    \<and> (\<forall>i < length bufts. \<forall>j < length bufts.
         ga_buf_tallocs (ggml_gallocr_new_n balign bmax bufts) ! i = ga_buf_tallocs (ggml_gallocr_new_n balign bmax bufts) ! j
           \<longleftrightarrow> bufts ! i = bufts ! j)"
proof -
  obtain idx tallocs where f: "fold (new_talloc balign bmax bufts) [0..<length bufts] ([], []) = (idx, tallocs)" by fastforce
  let ?g = "ggml_gallocr_new_n balign bmax bufts"
  have g: "ga_bufts ?g = bufts" "ga_buf_tallocs ?g = idx" "ga_tallocs ?g = tallocs"
    by (simp_all add: ggml_gallocr_new_n_def f)
  have I: "length idx = length bufts" "\<And>j. j < length bufts \<Longrightarrow> idx ! j < length tallocs \<and> dt_alignment (tallocs ! (idx ! j)) = balign (bufts ! j)"
    "\<And>j k. \<lbrakk>j < length bufts; k < length bufts\<rbrakk> \<Longrightarrow> idx ! j = idx ! k \<longleftrightarrow> bufts ! j = bufts ! k"
    "\<And>s. s \<in> set tallocs \<Longrightarrow> \<exists>j < length bufts. dt_alignment s = balign (bufts ! j) \<and> unat (max_chunk_size s) < 2 ^ 63"
    using new_tallocs[of balign bufts "length bufts" bmax] unfolding f by (auto simp: idx_ok_def)
  have "config_ok asz ?g"
    unfolding config_ok_def g alignment_def using I(1,2) assms(2) by (auto simp: in_set_conv_nth)
  moreover have "align_ok (dt_alignment s) \<and> unat (max_chunk_size s) < 2 ^ 63" if "s \<in> set tallocs" for s
    using I(4)[OF that] assms(1) by auto
  ultimately show ?thesis using I(3) unfolding gallocr_ready_def g by blast
qed

section \<open>Planning\<close>

text \<open>
  C26: Planning a well-formed graph returns when it has at most 254 tensors to place (\<open>plannable\<close>), and
  when the graph is run on the planned places, the leafs first and then the nodes in order, every
  node finds all bytes of its sources (and of the tensors its sources are views of) as they were
  produced, although memory is reused for later nodes and nodes take over the memory of their
  parents. At the end all outputs are intact.
\<close>

theorem gallocr_plan_safe:
  assumes "plannable T asz graph nids lids g"
  shows "\<exists>g'. reserve_plan T asz graph nids lids g = Some g'
    \<and> (\<forall>j < length (cg_nodes graph). sources_hold T (placed asz g')
          (run_mem T (placed asz g') (cg_leafs graph @ take j (cg_nodes graph)) M) (cg_nodes graph ! j))
    \<and> (\<forall>t. t \<in> set (cg_leafs graph @ cg_nodes graph) \<and> own T t \<and> has_flag (T t) GGML_TENSOR_FLAG_OUTPUT
        \<longrightarrow> holds (placed asz g') (run_mem T (placed asz g') (cg_leafs graph @ cg_nodes graph) M) t)"
proof -
  have A: "gallocr_ready asz g" "graph_ok T graph" using assms by (auto simp: plannable_def)
  obtain g' where g': "reserve_plan T asz graph nids lids g = Some g'" using reserve_total[OF assms] by blast
  show ?thesis using reserve_reads[OF A g'] g' by blast
qed

definition demo_tensor :: "ggml_op \<Rightarrow> nat \<Rightarrow> nat option list \<Rightarrow> nat option \<Rightarrow> ggml_tensor" where
  "demo_tensor op flags src view = \<lparr>t_type = 0, t_ne = [4, 1, 1, 1], t_nb = [4, 16, 16, 16], t_op = op, t_flags = flags,
     t_src = src, t_view_src = view, t_data = None, t_buffer = None\<rparr>"

definition demo_tensors :: tensors where
  "demo_tensors t =
     (if t = 0 then demo_tensor GGML_OP_NONE 1 [] None
      else if t = 1 then demo_tensor GGML_OP_SCALE 0 [Some 0] None
      else if t = 2 then demo_tensor (GGML_OP_other 0) 0 [Some 1] (Some 1)
      else if t = 3 then demo_tensor GGML_OP_ADD 0 [Some 2, Some 0] None
      else demo_tensor GGML_OP_SQR 2 [Some 3] None)"

definition demo_graph :: ggml_cgraph where
  "demo_graph = \<lparr>cg_nodes = [1, 2, 3, 4], cg_leafs = [0]\<rparr>"

definition demo_alloc_size :: "nat \<Rightarrow> nat \<Rightarrow> size_t" where
  "demo_alloc_size b t = 64"

definition demo_gallocr :: ggml_gallocr where
  "demo_gallocr = ggml_gallocr_new_n (\<lambda>_. 32) (\<lambda>_. 4096) [0]"

lemma demo_graph_ok: "graph_ok demo_tensors demo_graph"
  by (simp add: graph_ok_def demo_graph_def demo_tensors_def demo_tensor_def source_ok_def has_flag_def
      GGML_TENSOR_FLAG_INPUT_def Let_def All_less_Suc numeral_eq_Suc)

lemma demo_ready: "gallocr_ready demo_alloc_size demo_gallocr"
  unfolding gallocr_ready_def config_ok_def
  by (simp add: demo_gallocr_def ggml_gallocr_new_n_def new_talloc_def demo_alloc_size_def align_ok_def size_ok_def
      alignment_def max_chunk_new max_chunk_new(1)[simplified])

lemma demo_own: "own_tensors demo_tensors demo_graph = {0, 1, 3, 4}"
  by (auto simp: own_tensors_def own_def demo_graph_def demo_tensors_def demo_tensor_def)

lemma demo_plannable: "plannable demo_tensors demo_alloc_size demo_graph None None demo_gallocr"
proof -
  have "moderate demo_alloc_size demo_gallocr" "ga_bufts demo_gallocr \<noteq> []" "buffer_ok demo_gallocr 0"
    by (simp_all add: moderate_def demo_gallocr_def ggml_gallocr_new_n_def new_talloc_def demo_alloc_size_def
        alignment_def max_chunk_new round_up_def MAX_TENSOR_def buffer_ok_def)
  then show ?thesis
    using demo_graph_ok demo_ready
    by (simp add: plannable_def demo_own by_layout_def demo_alloc_size_def ids_ok_def MAX_LIVE_def MAX_FREE_BLOCKS_def)
qed

text \<open>In the plan of the example, node 3 takes over the input and node 4 takes over node 3.\<close>

theorem gallocr_plan_safe_witness:
  "\<exists>g'. reserve_plan demo_tensors demo_alloc_size demo_graph None None demo_gallocr = Some g'
    \<and> (\<forall>j < 4. sources_hold demo_tensors (placed demo_alloc_size g')
          (run_mem demo_tensors (placed demo_alloc_size g') ([0] @ take j [1, 2, 3, 4]) (\<lambda>_. None)) ([1, 2, 3, 4] ! j))
    \<and> holds (placed demo_alloc_size g') (run_mem demo_tensors (placed demo_alloc_size g') [0, 1, 2, 3, 4] (\<lambda>_. None)) 4"
proof -
  have out: "own demo_tensors 4" "has_flag (demo_tensors 4) GGML_TENSOR_FLAG_OUTPUT"
    by (simp_all add: own_def demo_tensors_def demo_tensor_def has_flag_def GGML_TENSOR_FLAG_OUTPUT_def)
  have gr: "cg_nodes demo_graph = [1, 2, 3, 4]" "cg_leafs demo_graph = [0]" by (simp_all add: demo_graph_def)
  show ?thesis
    using gallocr_plan_safe[OF demo_plannable, of "\<lambda>_. None"] out unfolding gr by auto
qed

end
