(* ===== verification/Gallocr_Buffers.thy ===== *)
theory Gallocr_Buffers
  imports Gallocr
begin

text \<open>
  The memory behind a plan: virtual buffers of several backend buffers (\<open>struct vbuffer\<close>), their
  reallocation in \<open>ggml_gallocr_reserve_n_impl\<close>, the public operations \<open>ggml_gallocr_reserve_n\<close>,
  \<open>ggml_gallocr_reserve_n_size\<close>, \<open>ggml_gallocr_get_buffer_size\<close> and \<open>ggml_gallocr_free\<close>, and
  \<open>ggml_gallocr_alloc_graph\<close>, which gives every tensor its address.

  A virtual buffer is a number, as a pointer; the heap says which of them exist and how large
  their backend buffers are. Freeing or reading one that does not exist is undefined behaviour
  and aborts (\<open>None\<close>). The backend is the parameter \<open>balloc\<close>: asked for the n-th time for a buffer of
  some type and size it returns the size of the buffer it made, or \<open>None\<close> for a null pointer.
\<close>

section \<open>Virtual buffers\<close>

record vheap =
  vh_live :: "nat \<Rightarrow> size_t list option"
  vh_next :: nat
  vh_calls :: nat

definition vheap_empty :: vheap where
  "vheap_empty = \<lparr>vh_live = (\<lambda>_. None), vh_next = 0, vh_calls = 0\<rparr>"

definition ggml_vbuffer_free :: "nat option \<Rightarrow> vheap \<Rightarrow> vheap option" where
  "ggml_vbuffer_free buf h = (case buf of None \<Rightarrow> Some h
     | Some v \<Rightarrow> do { assert_that (vh_live h v \<noteq> None); Some (h\<lparr>vh_live := (vh_live h)(v := None)\<rparr>) })"

definition ggml_vbuffer_chunk_size :: "nat \<Rightarrow> nat \<Rightarrow> vheap \<Rightarrow> size_t option" where
  "ggml_vbuffer_chunk_size v chunk h = do {
     chunks \<leftarrow> vh_live h v;
     assert_that (chunk < GGML_VBUFFER_MAX_CHUNKS);
     Some (if chunk < length chunks then chunks ! chunk else 0) }"

definition ggml_vbuffer_size :: "nat \<Rightarrow> vheap \<Rightarrow> size_t option" where
  "ggml_vbuffer_size v h = do { chunks \<leftarrow> vh_live h v; Some (sum_list chunks) }"

text \<open>The backend buffers of the chunks, and the number of calls made; \<open>None\<close> if one of them failed.\<close>

fun alloc_chunks :: "(nat \<Rightarrow> nat \<Rightarrow> size_t \<Rightarrow> size_t option) \<Rightarrow> nat \<Rightarrow> size_t list \<Rightarrow> nat \<Rightarrow> size_t list option \<times> nat" where
  "alloc_chunks balloc buft [] n = (Some [], n)"
| "alloc_chunks balloc buft (sz # szs) n =
     (case balloc n buft sz of None \<Rightarrow> (None, Suc n)
      | Some got \<Rightarrow> (case alloc_chunks balloc buft szs (Suc n) of
          (None, n') \<Rightarrow> (None, n') | (Some gots, n') \<Rightarrow> (Some (got # gots), n')))"

definition ggml_vbuffer_alloc :: "(nat \<Rightarrow> nat \<Rightarrow> size_t \<Rightarrow> size_t option) \<Rightarrow> nat \<Rightarrow> ggml_dyn_tallocr \<Rightarrow> vheap \<Rightarrow> nat option \<times> vheap" where
  "ggml_vbuffer_alloc balloc buft talloc h =
     (case alloc_chunks balloc buft (map max_size (dt_chunks talloc)) (vh_calls h) of
        (None, n) \<Rightarrow> (None, h\<lparr>vh_calls := n\<rparr>)
      | (Some chunks, n) \<Rightarrow> (Some (vh_next h), \<lparr>vh_live = (vh_live h)(vh_next h \<mapsto> chunks), vh_next = Suc (vh_next h), vh_calls = n\<rparr>))"

section \<open>Reserving\<close>

record gallocr_mem =
  gm_gallocr :: ggml_gallocr
  gm_buffers :: "nat option list"
  gm_heap :: vheap

definition gallocr_mem_new :: "(nat \<Rightarrow> size_t) \<Rightarrow> (nat \<Rightarrow> size_t) \<Rightarrow> nat list \<Rightarrow> vheap \<Rightarrow> gallocr_mem" where
  "gallocr_mem_new balign bmax bufts h =
     \<lparr>gm_gallocr = ggml_gallocr_new_n balign bmax bufts, gm_buffers = replicate (length bufts) None, gm_heap = h\<rparr>"

definition share_buffer :: "nat list \<Rightarrow> nat \<Rightarrow> nat option list \<Rightarrow> nat option list" where
  "share_buffer tidx i bufs = (case find (\<lambda>j. tidx ! j = tidx ! i) [0..<i] of None \<Rightarrow> bufs | Some j \<Rightarrow> bufs[i := bufs ! j])"

definition chunk_too_small :: "ggml_dyn_tallocr \<Rightarrow> nat option \<Rightarrow> vheap \<Rightarrow> nat \<Rightarrow> bool \<Rightarrow> bool option" where
  "chunk_too_small talloc buf h c acc = do {
     cur_chunk_size \<leftarrow> (case buf of None \<Rightarrow> Some 0 | Some v \<Rightarrow> ggml_vbuffer_chunk_size v c h);
     Some (acc \<or> ggml_dyn_tallocr_max_size talloc c > cur_chunk_size) }"

text \<open>One round of the loop that reallocates buffers; the result is false when the backend fails.\<close>

definition realloc_buffer :: "(nat \<Rightarrow> nat \<Rightarrow> size_t \<Rightarrow> size_t option) \<Rightarrow> bool \<Rightarrow> ggml_gallocr \<Rightarrow> nat
    \<Rightarrow> nat option list \<times> vheap \<Rightarrow> (bool \<times> nat option list \<times> vheap) option" where
  "realloc_buffer balloc no_alloc g i = (\<lambda>(bufs, h). do {
     let bufs = share_buffer (ga_buf_tallocs g) i bufs;
     buf \<leftarrow> vget bufs i;
     k \<leftarrow> vget (ga_buf_tallocs g) i;
     talloc \<leftarrow> vget (ga_tallocs g) k;
     realloc \<leftarrow> ofold (chunk_too_small talloc buf h) [0..<length (dt_chunks talloc)] (buf = None);
     if realloc then do {
       h \<leftarrow> ggml_vbuffer_free buf h;
       if no_alloc then Some (True, bufs[i := None], h)
       else do {
         buft \<leftarrow> vget (ga_bufts g) i;
         let (nbuf, h) = ggml_vbuffer_alloc balloc buft talloc h;
         Some (nbuf \<noteq> None, bufs[i := nbuf], h) } }
     else Some (True, bufs, h) })"

fun realloc_buffers :: "(nat \<Rightarrow> nat \<Rightarrow> size_t \<Rightarrow> size_t option) \<Rightarrow> bool \<Rightarrow> ggml_gallocr \<Rightarrow> nat list
    \<Rightarrow> nat option list \<times> vheap \<Rightarrow> (bool \<times> nat option list \<times> vheap) option" where
  "realloc_buffers balloc no_alloc g [] st = Some (True, st)"
| "realloc_buffers balloc no_alloc g (i # is) st = do {
     (ok, st) \<leftarrow> realloc_buffer balloc no_alloc g i st;
     if ok then realloc_buffers balloc no_alloc g is st else Some (False, st) }"

definition ggml_gallocr_reserve_n_impl :: "tensors \<Rightarrow> (nat \<Rightarrow> nat \<Rightarrow> size_t) \<Rightarrow> (nat \<Rightarrow> nat \<Rightarrow> size_t \<Rightarrow> size_t option) \<Rightarrow> ggml_cgraph
    \<Rightarrow> int list option \<Rightarrow> int list option \<Rightarrow> bool \<Rightarrow> gallocr_mem \<Rightarrow> (bool \<times> gallocr_mem) option" where
  "ggml_gallocr_reserve_n_impl T asz balloc graph node_ids leaf_ids no_alloc m = do {
     g \<leftarrow> reserve_plan T asz graph node_ids leaf_ids (gm_gallocr m);
     (ok, bufs, h) \<leftarrow> realloc_buffers balloc no_alloc g [0..<length (ga_bufts g)] (gm_buffers m, gm_heap m);
     Some (ok, \<lparr>gm_gallocr = g, gm_buffers = bufs, gm_heap = h\<rparr>) }"

definition ggml_gallocr_reserve_n where
  "ggml_gallocr_reserve_n T asz balloc graph node_ids leaf_ids m =
     ggml_gallocr_reserve_n_impl T asz balloc graph node_ids leaf_ids False m"

definition ggml_gallocr_reserve where
  "ggml_gallocr_reserve T asz balloc graph m = ggml_gallocr_reserve_n T asz balloc graph None None m"

definition planned_bytes :: "ggml_gallocr \<Rightarrow> nat \<Rightarrow> size_t option" where
  "planned_bytes g i = do {
     k \<leftarrow> vget (ga_buf_tallocs g) i;
     talloc \<leftarrow> vget (ga_tallocs g) k;
     Some (sum_list (map max_size (dt_chunks talloc))) }"

definition ggml_gallocr_reserve_n_size :: "tensors \<Rightarrow> (nat \<Rightarrow> nat \<Rightarrow> size_t) \<Rightarrow> (nat \<Rightarrow> nat \<Rightarrow> size_t \<Rightarrow> size_t option) \<Rightarrow> ggml_cgraph
    \<Rightarrow> int list option \<Rightarrow> int list option \<Rightarrow> gallocr_mem \<Rightarrow> (size_t list \<times> gallocr_mem) option" where
  "ggml_gallocr_reserve_n_size T asz balloc graph node_ids leaf_ids m = do {
     (ok, m) \<leftarrow> ggml_gallocr_reserve_n_impl T asz balloc graph node_ids leaf_ids True m;
     assert_that ok;
     sizes \<leftarrow> omap (planned_bytes (gm_gallocr m)) [0..<length (ga_bufts (gm_gallocr m))];
     Some (sizes, m) }"

definition ggml_gallocr_get_buffer_size :: "gallocr_mem \<Rightarrow> int \<Rightarrow> size_t option" where
  "ggml_gallocr_get_buffer_size m buffer_id = do {
     assert_that (0 \<le> buffer_id \<and> buffer_id < int (length (ga_bufts (gm_gallocr m))));
     buf \<leftarrow> vget (gm_buffers m) (nat buffer_id);
     case buf of None \<Rightarrow> Some 0
     | Some v \<Rightarrow> if Some v \<in> set (take (nat buffer_id) (gm_buffers m)) then Some 0 else ggml_vbuffer_size v (gm_heap m) }"

definition free_buffer :: "nat option list \<Rightarrow> nat \<Rightarrow> vheap \<Rightarrow> vheap option" where
  "free_buffer bufs i h = do {
     buf \<leftarrow> vget bufs i;
     if buf \<in> set (take i bufs) then Some h else ggml_vbuffer_free buf h }"

text \<open>\<open>ggml_gallocr_free\<close>; what is left of the allocator is the heap.\<close>

definition ggml_gallocr_free :: "gallocr_mem \<Rightarrow> vheap option" where
  "ggml_gallocr_free m = ofold (free_buffer (gm_buffers m)) [0..<length (ga_bufts (gm_gallocr m))] (gm_heap m)"

section \<open>Addresses\<close>

text \<open>
  \<open>vbase\<close> is the base address of a backend buffer, given by virtual buffer and chunk; the buffer a
  tensor is in is its virtual buffer, and \<open>view_offs\<close> the offset of a view in its tensor.
\<close>

definition ggml_backend_tensor_alloc :: "size_t \<Rightarrow> size_t \<Rightarrow> size_t \<Rightarrow> nat \<Rightarrow> size_t \<Rightarrow> ggml_tensor \<Rightarrow> ggml_tensor option" where
  "ggml_backend_tensor_alloc base bsize alloc_size buffer addr t = do {
     assert_that (t_buffer t = None);
     assert_that (t_data t = None);
     assert_that (t_view_src t = None);
     assert_that (addr \<ge> base);
     assert_that (addr + alloc_size \<le> base + bsize);
     Some (t\<lparr>t_buffer := Some buffer, t_data := Some addr\<rparr>) }"

definition ggml_vbuffer_tensor_alloc :: "(nat \<Rightarrow> nat \<Rightarrow> size_t) \<Rightarrow> vheap \<Rightarrow> nat \<Rightarrow> size_t \<Rightarrow> buffer_address \<Rightarrow> ggml_tensor \<Rightarrow> ggml_tensor option" where
  "ggml_vbuffer_tensor_alloc vbase h v alloc_size addr t = do {
     chunks \<leftarrow> vh_live h v;
     assert_that (0 \<le> ba_chunk addr);
     bsize \<leftarrow> vget chunks (nat (ba_chunk addr));
     let base = vbase v (nat (ba_chunk addr));
     ggml_backend_tensor_alloc base bsize alloc_size v (base + ba_offset addr) t }"

definition ggml_backend_view_init :: "size_t \<Rightarrow> ggml_tensor \<Rightarrow> ggml_tensor \<Rightarrow> ggml_tensor option" where
  "ggml_backend_view_init offs src t = do {
     assert_that (t_buffer t = None);
     assert_that (t_buffer src \<noteq> None);
     d \<leftarrow> t_data src;
     Some (t\<lparr>t_buffer := t_buffer src, t_data := Some (d + offs)\<rparr>) }"

definition ggml_gallocr_init_tensor :: "(nat \<Rightarrow> nat \<Rightarrow> size_t) \<Rightarrow> (nat \<Rightarrow> nat \<Rightarrow> size_t) \<Rightarrow> (nat \<Rightarrow> size_t) \<Rightarrow> gallocr_mem
    \<Rightarrow> nat \<Rightarrow> tensor_alloc \<Rightarrow> tensors \<Rightarrow> tensors option" where
  "ggml_gallocr_init_tensor vbase asz view_offs m t ta T =
     (case t_view_src (T t) of
        Some v \<Rightarrow>
          if t_buffer (T t) = None then do {
            assert_that (ba_offset (ta_addr ta) = SIZE_MAX);
            if t_buffer (T v) = None then Some T
            else do { x \<leftarrow> ggml_backend_view_init (view_offs t) (T v) (T t); Some (T(t := x)) } }
          else Some T
      | None \<Rightarrow>
          if t_data (T t) = None then do {
            buft \<leftarrow> buft_of (gm_gallocr m) (ta_buffer_id ta);
            assert_that (ba_offset (ta_addr ta) \<noteq> SIZE_MAX);
            assert_that (asz buft t \<le> ta_size_max ta);
            buf \<leftarrow> vget (gm_buffers m) (nat (ta_buffer_id ta));
            v \<leftarrow> buf;
            x \<leftarrow> ggml_vbuffer_tensor_alloc vbase (gm_heap m) v (asz buft t) (ta_addr ta) (T t);
            Some (T(t := x)) }
          else Some T)"

definition init_src where
  "init_src vbase asz view_offs m sa T = (case fst sa of None \<Rightarrow> Some T
     | Some src \<Rightarrow> ggml_gallocr_init_tensor vbase asz view_offs m src (snd sa) T)"

definition init_node where
  "init_node vbase asz view_offs m na T = do {
     T \<leftarrow> ofold (init_src vbase asz view_offs m) (zip (t_src (T (fst na))) (na_src (snd na))) T;
     ggml_gallocr_init_tensor vbase asz view_offs m (fst na) (na_dst (snd na)) T }"

definition init_leaf where
  "init_leaf vbase asz view_offs m la T = ggml_gallocr_init_tensor vbase asz view_offs m (fst la) (snd la) T"

definition ggml_gallocr_alloc_graph :: "(nat \<Rightarrow> nat \<Rightarrow> size_t) \<Rightarrow> (nat \<Rightarrow> nat \<Rightarrow> size_t) \<Rightarrow> (nat \<Rightarrow> nat \<Rightarrow> size_t \<Rightarrow> size_t option) \<Rightarrow> (nat \<Rightarrow> size_t)
    \<Rightarrow> ggml_cgraph \<Rightarrow> tensors \<Rightarrow> gallocr_mem \<Rightarrow> (bool \<times> tensors \<times> gallocr_mem) option" where
  "ggml_gallocr_alloc_graph vbase asz balloc view_offs graph T m = do {
     needs \<leftarrow> ggml_gallocr_needs_realloc T asz graph (gm_gallocr m);
     (ok, m) \<leftarrow> (if needs then
         if length (ga_bufts (gm_gallocr m)) = 1 then ggml_gallocr_reserve T asz balloc graph m
         else Some (False, m)
       else Some (True, m));
     if \<not> ok then Some (False, T, m)
     else do {
       T \<leftarrow> ofold (init_leaf vbase asz view_offs m) (zip (cg_leafs graph) (ga_leaf_allocs (gm_gallocr m))) T;
       T \<leftarrow> ofold (init_node vbase asz view_offs m) (zip (cg_nodes graph) (ga_node_allocs (gm_gallocr m))) T;
       Some (True, T, m) } }"

end
