(* ===== verification/Gallocr_Memory.thy ===== *)
theory Gallocr_Memory
  imports Gallocr_Fit Gallocr_Correct Gallocr_Buffers
begin

text \<open>
  The buffers of the graph allocator over its life. Allocators of equal buffer types share one
  virtual buffer; \<open>buffers_ok\<close> says that every entry of \<open>buffers\<close> is null or a buffer that exists, that
  two entries are equal only if they share their tensor allocator, and that the heap has no other
  buffers than these and those of somebody else. Reserving a graph keeps it and makes the buffers
  as large as the plan, and freeing the allocator gives everything back once.
\<close>

section \<open>Ownership\<close>

text \<open>
  \<open>\<beta>\<close> gives the buffer of each tensor allocator. Within the loop that reallocates buffers, an entry
  that has not been reached is stale when it shares with an entry before.
\<close>

definition bufs_rep :: "ggml_gallocr \<Rightarrow> (nat \<Rightarrow> nat option) \<Rightarrow> nat \<Rightarrow> nat option list \<Rightarrow> bool" where
  "bufs_rep g \<beta> i bufs \<longleftrightarrow> length bufs = length (ga_bufts g) \<and> (\<forall>a < length (ga_bufts g).
     (a < i \<or> (\<forall>j < i. ga_buf_tallocs g ! j \<noteq> ga_buf_tallocs g ! a)) \<longrightarrow> bufs ! a = \<beta> (ga_buf_tallocs g ! a))"

definition heap_rep :: "nat set \<Rightarrow> nat set \<Rightarrow> (nat \<Rightarrow> nat option) \<Rightarrow> vheap \<Rightarrow> bool" where
  "heap_rep F K \<beta> h \<longleftrightarrow> (\<forall>v. vh_live h v \<noteq> None \<longleftrightarrow> v \<in> F \<or> (\<exists>k \<in> K. \<beta> k = Some v))
     \<and> (\<forall>k \<in> K. \<forall>v. \<beta> k = Some v \<longrightarrow> v \<notin> F)
     \<and> (\<forall>k \<in> K. \<forall>k' \<in> K. \<forall>v. \<beta> k = Some v \<and> \<beta> k' = Some v \<longrightarrow> k = k')
     \<and> (\<forall>v. vh_live h v \<noteq> None \<longrightarrow> v < vh_next h)"

definition buffers_ok :: "nat set \<Rightarrow> gallocr_mem \<Rightarrow> bool" where
  "buffers_ok F m \<longleftrightarrow> (\<exists>\<beta>. bufs_rep (gm_gallocr m) \<beta> 0 (gm_buffers m)
     \<and> heap_rep F (set (ga_buf_tallocs (gm_gallocr m))) \<beta> (gm_heap m))"

definition covers :: "ggml_dyn_tallocr \<Rightarrow> size_t list \<Rightarrow> bool" where
  "covers s chunks \<longleftrightarrow> (\<forall>c < length (dt_chunks s). max_size (dt_chunks s ! c) \<le> (if c < length chunks then chunks ! c else 0))"

definition filled :: "ggml_gallocr \<Rightarrow> (nat \<Rightarrow> nat option) \<Rightarrow> vheap \<Rightarrow> nat \<Rightarrow> bool \<Rightarrow> bool" where
  "filled g \<beta> h i no_alloc \<longleftrightarrow> (\<forall>a < i. case \<beta> (ga_buf_tallocs g ! a) of None \<Rightarrow> no_alloc
     | Some v \<Rightarrow> (\<exists>chunks. vh_live h v = Some chunks \<and> covers (ga_tallocs g ! (ga_buf_tallocs g ! a)) chunks))"

definition config_sized :: "ggml_gallocr \<Rightarrow> bool" where
  "config_sized g \<longleftrightarrow> length (ga_buf_tallocs g) = length (ga_bufts g)
     \<and> (\<forall>k \<in> set (ga_buf_tallocs g). k < length (ga_tallocs g) \<and> length (dt_chunks (ga_tallocs g ! k)) \<le> GGML_VBUFFER_MAX_CHUNKS)"

text \<open>A backend buffer is at least as large as it was asked for.\<close>

definition backend_ok :: "(nat \<Rightarrow> nat \<Rightarrow> size_t \<Rightarrow> size_t option) \<Rightarrow> bool" where
  "backend_ok balloc \<longleftrightarrow> (\<forall>n b z got. balloc n b z = Some got \<longrightarrow> z \<le> got)"

lemma heap_repD:
  assumes "heap_rep F K \<beta> h"
  shows "vh_live h v \<noteq> None \<longleftrightarrow> v \<in> F \<or> (\<exists>k \<in> K. \<beta> k = Some v)"
    "\<lbrakk>k \<in> K; \<beta> k = Some v\<rbrakk> \<Longrightarrow> v \<notin> F"
    "\<lbrakk>k \<in> K; k' \<in> K; \<beta> k = Some v; \<beta> k' = Some v\<rbrakk> \<Longrightarrow> k = k'"
    "vh_live h v \<noteq> None \<Longrightarrow> v < vh_next h"
  using assms unfolding heap_rep_def by blast+

lemma heap_free:
  assumes "heap_rep F K \<beta> h" "k \<in> K"
  shows "\<exists>h'. ggml_vbuffer_free (\<beta> k) h = Some h' \<and> heap_rep F K (\<beta>(k := None)) h'
    \<and> (\<forall>v. \<beta> k \<noteq> Some v \<longrightarrow> vh_live h' v = vh_live h v)"
proof (cases "\<beta> k")
  case None
  then have "\<beta>(k := None) = \<beta>" by auto
  then show ?thesis using assms None by (simp add: ggml_vbuffer_free_def)
next
  case (Some v)
  note D = heap_repD[OF assms(1)]
  have live: "vh_live h v \<noteq> None" using D(1) assms(2) Some by blast
  let ?h = "h\<lparr>vh_live := (vh_live h)(v := None)\<rparr>"
  have only: "v \<notin> F" "\<And>k'. \<lbrakk>k' \<in> K; \<beta> k' = Some v\<rbrakk> \<Longrightarrow> k' = k" using D(2,3) assms(2) Some by blast+
  have "heap_rep F K (\<beta>(k := None)) ?h"
    unfolding heap_rep_def
  proof (intro conjI allI ballI impI)
    show "vh_live ?h u \<noteq> None \<longleftrightarrow> u \<in> F \<or> (\<exists>j \<in> K. (\<beta>(k := None)) j = Some u)" for u
    proof (cases "u = v")
      case True
      then show ?thesis using only Some by auto
    next
      case False
      then have "(\<beta>(k := None)) j = Some u \<longleftrightarrow> \<beta> j = Some u" for j using Some by auto
      then show ?thesis using D(1)[of u] False by simp
    qed
    show "u \<notin> F" if "j \<in> K" "(\<beta>(k := None)) j = Some u" for j u
      using D(2) that by (auto split: if_splits)
    show "j = j'" if "j \<in> K" "j' \<in> K" "(\<beta>(k := None)) j = Some u \<and> (\<beta>(k := None)) j' = Some u" for j j' u
      using D(3)[of j j' u] that by (auto split: if_splits)
    show "u < vh_next ?h" if "vh_live ?h u \<noteq> None" for u
      using D(4)[of u] that by (auto split: if_splits)
  qed
  then show ?thesis using Some live by (simp add: ggml_vbuffer_free_def)
qed

lemma alloc_chunks_covers:
  assumes "backend_ok balloc" "alloc_chunks balloc buft szs n = (Some chunks, n')"
  shows "list_all2 (\<le>) szs chunks"
  using assms(2)
proof (induction szs arbitrary: n chunks)
  case (Cons z szs)
  then show ?case using assms(1) by (auto simp: backend_ok_def split: option.splits prod.splits)
qed simp

lemma alloc_chunks_refused: "alloc_chunks balloc buft szs n = (None, n') \<Longrightarrow> n < n' \<and> (\<exists>z \<in> set szs. balloc (n' - 1) buft z = None)"
proof (induction szs arbitrary: n)
  case (Cons z szs)
  then show ?case by (fastforce split: option.splits prod.splits)
qed simp

lemma alloc_chunks_calls: "n \<le> snd (alloc_chunks balloc buft szs n)"
proof (induction szs arbitrary: n)
  case (Cons z szs)
  have "n \<le> snd (alloc_chunks balloc buft szs (Suc n))" using Cons[of "Suc n"] by simp
  then show ?case by (auto split: prod.splits option.splits)
qed simp

text \<open>
  The backend was asked for a chunk of the plan of \<open>g\<close>, as the last call between the heaps \<open>h\<close> and \<open>h'\<close>, and returned
  a null pointer.
\<close>

definition alloc_refused :: "(nat \<Rightarrow> nat \<Rightarrow> size_t \<Rightarrow> size_t option) \<Rightarrow> ggml_gallocr \<Rightarrow> vheap \<Rightarrow> vheap \<Rightarrow> bool" where
  "alloc_refused balloc g h h' \<longleftrightarrow> vh_calls h < vh_calls h' \<and> (\<exists>i < length (ga_bufts g). \<exists>c \<in> set (dt_chunks (ga_tallocs g ! (ga_buf_tallocs g ! i))).
     balloc (vh_calls h' - 1) (ga_bufts g ! i) (max_size c) = None)"

lemma vbuffer_alloc_calls:
  assumes "ggml_vbuffer_alloc balloc buft s h = (nbuf, h')"
  shows "vh_calls h \<le> vh_calls h'" "nbuf = None \<Longrightarrow> h' = h\<lparr>vh_calls := vh_calls h'\<rparr> \<and> vh_calls h < vh_calls h' \<and>
    (\<exists>c \<in> set (dt_chunks s). balloc (vh_calls h' - 1) buft (max_size c) = None)"
proof -
  obtain r n where r: "alloc_chunks balloc buft (map max_size (dt_chunks s)) (vh_calls h) = (r, n)" by fastforce
  show "vh_calls h \<le> vh_calls h'" using assms alloc_chunks_calls[of "vh_calls h" balloc buft "map max_size (dt_chunks s)"] r
    by (auto simp: ggml_vbuffer_alloc_def split: option.splits)
  assume "nbuf = None"
  then have "r = None" "h' = h\<lparr>vh_calls := n\<rparr>" using assms r by (auto simp: ggml_vbuffer_alloc_def split: option.splits)
  then show "h' = h\<lparr>vh_calls := vh_calls h'\<rparr> \<and> vh_calls h < vh_calls h' \<and> (\<exists>c \<in> set (dt_chunks s). balloc (vh_calls h' - 1) buft (max_size c) = None)"
    using alloc_chunks_refused[of balloc buft "map max_size (dt_chunks s)" "vh_calls h" n] r by auto
qed

lemma vbuffer_free_calls: "ggml_vbuffer_free buf h = Some h' \<Longrightarrow> vh_calls h' = vh_calls h"
  by (auto simp: ggml_vbuffer_free_def split: option.splits if_splits)

lemma heap_alloc:
  assumes rep: "heap_rep F K \<beta> h" "k \<in> K" "\<beta> k = None"
    and b: "backend_ok balloc"
    and run: "ggml_vbuffer_alloc balloc buft s h = (Some v, h')"
  shows "heap_rep F K (\<beta>(k \<mapsto> v)) h' \<and> (\<exists>chunks. vh_live h' v = Some chunks \<and> covers s chunks) \<and> (\<forall>u. u \<noteq> v \<longrightarrow> vh_live h' u = vh_live h u)
    \<and> vh_live h v = None"
proof -
  obtain chunks n where ch: "alloc_chunks balloc buft (map max_size (dt_chunks s)) (vh_calls h) = (Some chunks, n)"
    "v = vh_next h" "h' = \<lparr>vh_live = (vh_live h)(vh_next h \<mapsto> chunks), vh_next = Suc (vh_next h), vh_calls = n\<rparr>"
    using run by (auto simp: ggml_vbuffer_alloc_def split: prod.splits option.splits)
  have "list_all2 (\<le>) (map max_size (dt_chunks s)) chunks" by (rule alloc_chunks_covers[OF b ch(1)])
  then have cov: "covers s chunks" by (auto simp: covers_def list_all2_conv_all_nth)
  note D = heap_repD[OF rep(1)]
  have new: "vh_live h v = None" using D(4)[of v] ch(2) by (cases "vh_live h v") auto
  have "heap_rep F K (\<beta>(k \<mapsto> v)) h'"
    unfolding heap_rep_def
  proof (intro conjI allI ballI impI)
    have nv: "v \<notin> F" "\<And>j. j \<in> K \<Longrightarrow> \<beta> j \<noteq> Some v" using D(1)[of v] new by blast+
    show "vh_live h' u \<noteq> None \<longleftrightarrow> u \<in> F \<or> (\<exists>j \<in> K. (\<beta>(k \<mapsto> v)) j = Some u)" for u
    proof (cases "u = v")
      case True
      then show ?thesis using rep(2) ch(2,3) by auto
    next
      case False
      then have "(\<beta>(k \<mapsto> v)) j = Some u \<longleftrightarrow> \<beta> j = Some u" for j using rep(3) by auto
      then show ?thesis using D(1)[of u] False ch(2,3) by simp
    qed
    show "u \<notin> F" if "j \<in> K" "(\<beta>(k \<mapsto> v)) j = Some u" for j u
      using D(2)[of j u] that nv by (cases "j = k") auto
    show "j = j'" if "j \<in> K" "j' \<in> K" "(\<beta>(k \<mapsto> v)) j = Some u \<and> (\<beta>(k \<mapsto> v)) j' = Some u" for j j' u
      using D(3)[of j j' u] that nv by (cases "j = k"; cases "j' = k") auto
    show "u < vh_next h'" if "vh_live h' u \<noteq> None" for u
      using D(4)[of u] that ch(2,3) by (cases "u = v") auto
  qed
  then show ?thesis using ch(2,3) cov new by auto
qed

lemma too_small_loop:
  assumes "\<And>c. c \<in> set cs \<Longrightarrow> c < length (dt_chunks s) \<and> c < GGML_VBUFFER_MAX_CHUNKS" "\<And>v. buf = Some v \<Longrightarrow> \<exists>chunks. vh_live h v = Some chunks"
  shows "ofold (chunk_too_small s buf h) cs acc = Some (acc \<or> (\<exists>c \<in> set cs. max_size (dt_chunks s ! c) >
    (case buf of None \<Rightarrow> 0 | Some v \<Rightarrow> (let chunks = the (vh_live h v) in if c < length chunks then chunks ! c else 0))))"
  using assms(1)
proof (induction cs arbitrary: acc)
  case (Cons c cs)
  have "chunk_too_small s buf h c acc = Some (acc \<or> max_size (dt_chunks s ! c) >
    (case buf of None \<Rightarrow> 0 | Some v \<Rightarrow> (let chunks = the (vh_live h v) in if c < length chunks then chunks ! c else 0)))"
    using Cons.prems[of c] assms(2)
    by (cases buf) (auto simp: chunk_too_small_def ggml_vbuffer_chunk_size_def ggml_dyn_tallocr_max_size_def Let_def)
  then show ?case using Cons.IH Cons.prems by (simp add: disj_assoc)
qed simp

section \<open>One buffer\<close>

lemma share_rep:
  assumes rep: "bufs_rep g \<beta> i bufs" and i: "i < length (ga_bufts g)"
  shows "share_buffer (ga_buf_tallocs g) i bufs ! i = \<beta> (ga_buf_tallocs g ! i)" "bufs_rep g \<beta> (Suc i) (share_buffer (ga_buf_tallocs g) i bufs)"
    "length (share_buffer (ga_buf_tallocs g) i bufs) = length (ga_bufts g)"
proof -
  let ?t = "\<lambda>a. ga_buf_tallocs g ! a" and ?b = "share_buffer (ga_buf_tallocs g) i bufs"
  have len: "length bufs = length (ga_bufts g)" using rep by (simp add: bufs_rep_def)
  have R: "bufs ! a = \<beta> (?t a)" if "a < length (ga_bufts g)" "a < i \<or> (\<forall>j < i. ?t j \<noteq> ?t a)" for a
    using rep that unfolding bufs_rep_def by blast
  have other: "?b ! a = bufs ! a" if "a \<noteq> i" for a
    using that by (simp add: share_buffer_def split: option.splits)
  show len': "length ?b = length (ga_bufts g)" using len by (simp add: share_buffer_def split: option.splits)
  show at: "?b ! i = \<beta> (?t i)"
  proof (cases "find (\<lambda>j. ?t j = ?t i) [0..<i]")
    case None
    then have "\<forall>j < i. ?t j \<noteq> ?t i" by (auto simp: find_None_iff)
    then show ?thesis using R[OF i] None by (simp add: share_buffer_def)
  next
    case (Some j)
    then have j: "j < i" "?t j = ?t i" by (auto simp: find_Some_iff)
    then show ?thesis using R[of j] i len Some by (simp add: share_buffer_def)
  qed
  have "?b ! a = \<beta> (?t a)" if "a < length (ga_bufts g)" "a < Suc i \<or> (\<forall>j < Suc i. ?t j \<noteq> ?t a)" for a
    using at other[of a] R[of a] that by (cases "a = i") (auto simp: less_Suc_eq)
  then show "bufs_rep g \<beta> (Suc i) ?b" using len' by (simp add: bufs_rep_def)
qed

lemma bufs_rep_upd:
  assumes rep: "bufs_rep g \<beta> (Suc i) bufs" and i: "i < length (ga_bufts g)" and first: "\<forall>j < i. ga_buf_tallocs g ! j \<noteq> ga_buf_tallocs g ! i"
  shows "bufs_rep g (\<beta>(ga_buf_tallocs g ! i := x)) (Suc i) (bufs[i := x])"
  using assms by (auto simp: bufs_rep_def nth_list_update less_Suc_eq)

definition mem_step :: "nat set \<Rightarrow> ggml_gallocr \<Rightarrow> bool \<Rightarrow> nat \<Rightarrow> nat option list \<times> vheap \<Rightarrow> bool" where
  "mem_step F g no_alloc i = (\<lambda>(bufs, h). \<exists>\<beta>. bufs_rep g \<beta> i bufs \<and> heap_rep F (set (ga_buf_tallocs g)) \<beta> h \<and> filled g \<beta> h i no_alloc)"

text \<open>
  What is left when the backend fails: with allocators that are not shared, the entries are still consistent.
\<close>

definition mem_failed :: "(nat \<Rightarrow> nat \<Rightarrow> size_t \<Rightarrow> size_t option) \<Rightarrow> nat set \<Rightarrow> ggml_gallocr \<Rightarrow> bool \<Rightarrow> vheap \<Rightarrow> nat option list \<times> vheap \<Rightarrow> bool" where
  "mem_failed balloc F g no_alloc h0 = (\<lambda>(bufs, h). \<not> no_alloc \<and> alloc_refused balloc g h0 h \<and>
     (distinct (ga_buf_tallocs g) \<longrightarrow> (\<exists>\<beta>. bufs_rep g \<beta> 0 bufs \<and> heap_rep F (set (ga_buf_tallocs g)) \<beta> h)))"

lemma bufs_rep_distinct: "\<lbrakk>bufs_rep g \<beta> i bufs; distinct (ga_buf_tallocs g); length (ga_buf_tallocs g) = length (ga_bufts g)\<rbrakk> \<Longrightarrow> bufs_rep g \<beta> 0 bufs"
  by (auto simp: bufs_rep_def nth_eq_iff_index_eq)

lemma realloc_step:
  assumes st: "mem_step F g no_alloc i (bufs, h)" and i: "i < length (ga_bufts g)" and cfg: "config_sized g"
    and b: "backend_ok balloc"
  shows "\<exists>ok bufs' h'. realloc_buffer balloc no_alloc g i (bufs, h) = Some (ok, bufs', h')
    \<and> (ok \<longrightarrow> mem_step F g no_alloc (Suc i) (bufs', h') \<and> vh_calls h \<le> vh_calls h') \<and> (\<not> ok \<longrightarrow> mem_failed balloc F g no_alloc h (bufs', h'))"
proof -
  let ?t = "\<lambda>a. ga_buf_tallocs g ! a" and ?K = "set (ga_buf_tallocs g)"
  obtain \<beta> where rep: "bufs_rep g \<beta> i bufs" "heap_rep F ?K \<beta> h" "filled g \<beta> h i no_alloc"
    using st by (auto simp: mem_step_def)
  define k where "k = ?t i"
  define s where "s = ga_tallocs g ! k"
  define bufs1 where "bufs1 = share_buffer (ga_buf_tallocs g) i bufs"
  have K: "k \<in> ?K" "k < length (ga_tallocs g)" "length (dt_chunks s) \<le> GGML_VBUFFER_MAX_CHUNKS" "i < length (ga_buf_tallocs g)"
    using cfg i by (auto simp: config_sized_def k_def s_def)
  note S = share_rep[OF rep(1) i, folded bufs1_def k_def]
  have live: "\<exists>chunks. vh_live h v = Some chunks" if "\<beta> k = Some v" for v
    using heap_repD(1)[OF rep(2), of v] K(1) that by auto
  define small where "small = (\<beta> k = None \<or> (\<exists>c \<in> set [0..<length (dt_chunks s)]. max_size (dt_chunks s ! c) >
    (case \<beta> k of None \<Rightarrow> 0 | Some v \<Rightarrow> (let chunks = the (vh_live h v) in if c < length chunks then chunks ! c else 0))))"
  have loop: "ofold (chunk_too_small s (\<beta> k) h) [0..<length (dt_chunks s)] (\<beta> k = None) = Some small"
    unfolding small_def by (rule too_small_loop[OF _ live]) (use K(3) in auto)
  have run: "realloc_buffer balloc no_alloc g i (bufs, h) = (if small then do {
       h \<leftarrow> ggml_vbuffer_free (\<beta> k) h;
       if no_alloc then Some (True, bufs1[i := None], h)
       else let (nbuf, h) = ggml_vbuffer_alloc balloc (ga_bufts g ! i) s h in Some (nbuf \<noteq> None, bufs1[i := nbuf], h) }
     else Some (True, bufs1, h))"
    unfolding realloc_buffer_def prod.case Let_def bufs1_def[symmetric]
    using S(1,3) K(2,4) i loop by (simp add: k_def[symmetric] s_def[symmetric] Let_def cong: if_cong)
  have ok_here: "(\<exists>chunks. vh_live h v = Some chunks \<and> covers s chunks)" if sm: "\<not> small" and v: "\<beta> k = Some v" for v
  proof -
    obtain chunks where ch: "vh_live h v = Some chunks" using live[OF v] by blast
    then have "covers s chunks" using sm v unfolding small_def covers_def by (auto simp: Let_def not_less)
    then show ?thesis using ch by blast
  qed
  show ?thesis
  proof (cases small)
    case False
    then have "\<beta> k \<noteq> None" by (auto simp: small_def)
    then obtain v where v: "\<beta> k = Some v" by blast
    have "filled g \<beta> h (Suc i) no_alloc"
      using rep(3) ok_here[OF False v] v by (auto simp: filled_def less_Suc_eq k_def[symmetric] s_def[symmetric])
    then have "mem_step F g no_alloc (Suc i) (bufs1, h)" using rep(2) S(2) by (auto simp: mem_step_def)
    then show ?thesis using run False by (intro exI[of _ True]) auto
  next
    case True
    obtain h1 where h1: "ggml_vbuffer_free (\<beta> k) h = Some h1" "heap_rep F ?K (\<beta>(k := None)) h1" "\<And>v. \<beta> k \<noteq> Some v \<Longrightarrow> vh_live h1 v = vh_live h v"
      using heap_free[OF rep(2) K(1)] by blast
    have first: "\<forall>j < i. ?t j \<noteq> k" if "\<not> (\<beta> k = None \<and> no_alloc)"
    proof (intro allI impI notI)
      fix j assume j: "j < i" "?t j = k"
      then have "\<beta> k \<noteq> None" using rep(3) that by (cases "\<beta> k") (auto simp: filled_def)
      then obtain v chunks where "\<beta> k = Some v" "vh_live h v = Some chunks" "covers s chunks"
        using rep(3) j by (auto simp: filled_def s_def split: option.splits)
      then show False using True unfolding small_def covers_def by (fastforce simp: Let_def not_less[symmetric])
    qed
    have fill: "filled g (\<beta>(k := x)) h2 (Suc i) no_alloc"
      if "\<forall>j < i. ?t j \<noteq> k" "\<And>v c. \<lbrakk>\<beta> k \<noteq> Some v; vh_live h v = Some c\<rbrakk> \<Longrightarrow> vh_live h2 v = Some c"
        "case x of None \<Rightarrow> no_alloc | Some v \<Rightarrow> (\<exists>chunks. vh_live h2 v = Some chunks \<and> covers s chunks)" for x h2
      unfolding filled_def
    proof (intro allI impI)
      fix a assume a: "a < Suc i"
      show "case (\<beta>(k := x)) (?t a) of None \<Rightarrow> no_alloc
        | Some v \<Rightarrow> \<exists>chunks. vh_live h2 v = Some chunks \<and> covers (ga_tallocs g ! (?t a)) chunks"
      proof (cases "a = i")
        case True
        then have eq: "?t a = k" by (simp add: k_def)
        show ?thesis unfolding eq using that(3) unfolding s_def by simp
      next
        case False
        then have a': "a < i" "?t a \<noteq> k" using a that(1) by auto
        have "?t a \<in> ?K" using a' i cfg by (auto simp: config_sized_def)
        then have "\<beta> k \<noteq> Some v" if "\<beta> (?t a) = Some v" for v
          using heap_repD(3)[OF rep(2) _ K(1) that] a'(2) by blast
        then show ?thesis using rep(3) a' that(2) by (fastforce simp: filled_def split: option.splits)
      qed
    qed
    show ?thesis
    proof (cases no_alloc)
      case na: True
      have "mem_step F g no_alloc (Suc i) (bufs1[i := None], h1)"
      proof (cases "\<beta> k = None")
        case none: True
        then have "\<beta>(k := None) = \<beta>" "bufs1[i := None] = bufs1" using S(1) by (auto simp: list_update_same_conv S(3) i)
        moreover have "h1 = h" using h1(1) none by (simp add: ggml_vbuffer_free_def)
        moreover have "filled g \<beta> h (Suc i) no_alloc" using rep(3) none na by (auto simp: filled_def less_Suc_eq k_def[symmetric])
        ultimately show ?thesis using S(2) rep(2) by (auto simp: mem_step_def)
      next
        case False
        then have f: "\<forall>j < i. ?t j \<noteq> k" by (intro first) simp
        have "filled g (\<beta>(k := None)) h1 (Suc i) no_alloc" by (rule fill[OF f]) (use h1(3) na in auto)
        then show ?thesis using bufs_rep_upd[OF S(2) i, of None] f h1(2) by (auto simp: mem_step_def k_def)
      qed
      then show ?thesis using run True na h1(1) vbuffer_free_calls[OF h1(1)] by (intro exI[of _ True]) auto
    next
      case na: False
      then have f: "\<forall>j < i. ?t j \<noteq> k" by (intro first) simp
      obtain nbuf h2 where al: "ggml_vbuffer_alloc balloc (ga_bufts g ! i) s h1 = (nbuf, h2)" by fastforce
      have run': "realloc_buffer balloc no_alloc g i (bufs, h) = Some (nbuf \<noteq> None, bufs1[i := nbuf], h2)"
        using run True na h1(1) al by simp
      show ?thesis
      proof (cases nbuf)
        case None
        note c = vbuffer_alloc_calls(2)[OF al None]
        have "alloc_refused balloc g h h2"
          using c vbuffer_free_calls[OF h1(1)] i unfolding alloc_refused_def s_def k_def by auto
        moreover have "heap_rep F ?K (\<beta>(k := None)) h2" by (subst conjunct1[OF c]) (use h1(2) in \<open>simp add: heap_rep_def\<close>)
        moreover have "bufs_rep g (\<beta>(k := None)) (Suc i) (bufs1[i := None])" using bufs_rep_upd[OF S(2) i, of None] f by (simp add: k_def)
        ultimately have "mem_failed balloc F g no_alloc h (bufs1[i := None], h2)"
          using bufs_rep_distinct[of g "\<beta>(k := None)"] cfg na unfolding mem_failed_def config_sized_def by blast
        then show ?thesis using run' None by (intro exI[of _ False]) auto
      next
        case (Some v)
        have H: "heap_rep F ?K (\<beta>(k \<mapsto> v)) h2" "\<exists>chunks. vh_live h2 v = Some chunks \<and> covers s chunks"
          "\<And>u. u \<noteq> v \<Longrightarrow> vh_live h2 u = vh_live h1 u" "vh_live h1 v = None"
          using heap_alloc[OF h1(2) K(1) _ b al[unfolded Some]] by auto
        have "filled g (\<beta>(k \<mapsto> v)) h2 (Suc i) no_alloc"
        proof (rule fill[OF f])
          show "vh_live h2 u = Some c" if "\<beta> k \<noteq> Some u" "vh_live h u = Some c" for u c
            using h1(3)[OF that(1)] that(2) H(3)[of u] H(4) by (cases "u = v") auto
        qed (use H(2) in simp)
        then have "mem_step F g no_alloc (Suc i) (bufs1[i := Some v], h2)"
          using bufs_rep_upd[OF S(2) i, of "Some v"] f H(1) by (auto simp: mem_step_def k_def)
        then show ?thesis using run' Some vbuffer_alloc_calls(1)[OF al] vbuffer_free_calls[OF h1(1)] by (intro exI[of _ True]) auto
      qed
    qed
  qed
qed

lemma realloc_loop:
  assumes "mem_step F g no_alloc i (bufs, h)" "i \<le> length (ga_bufts g)" "config_sized g"
    and b: "backend_ok balloc"
  shows "\<exists>ok bufs' h'. realloc_buffers balloc no_alloc g [i..<length (ga_bufts g)] (bufs, h) = Some (ok, bufs', h')
    \<and> (ok \<longrightarrow> mem_step F g no_alloc (length (ga_bufts g)) (bufs', h')) \<and> (\<not> ok \<longrightarrow> mem_failed balloc F g no_alloc h (bufs', h'))"
  using assms(1,2)
proof (induction "length (ga_bufts g) - i" arbitrary: i bufs h)
  case 0
  then show ?case by (intro exI[of _ True]) auto
next
  case (Suc d)
  then have i: "i < length (ga_bufts g)" by simp
  obtain ok bufs1 h1 where s: "realloc_buffer balloc no_alloc g i (bufs, h) = Some (ok, bufs1, h1)"
    "ok \<longrightarrow> mem_step F g no_alloc (Suc i) (bufs1, h1) \<and> vh_calls h \<le> vh_calls h1" "\<not> ok \<longrightarrow> mem_failed balloc F g no_alloc h (bufs1, h1)"
    using realloc_step[OF Suc.prems(1) i assms(3) b] by blast
  show ?case
  proof (cases ok)
    case True
    have "mem_failed balloc F g no_alloc h x" if "mem_failed balloc F g no_alloc h1 x" for x
      using that s(2) True by (auto simp: mem_failed_def alloc_refused_def)
    then show ?thesis using Suc.hyps(1)[of "Suc i" bufs1 h1] Suc.hyps(2) s i upt_conv_Cons[OF i] True by fastforce
  next
    case False
    then show ?thesis using s upt_conv_Cons[OF i] by (intro exI[of _ False]) auto
  qed
qed

section \<open>Reserving\<close>

lemma reserve_config:
  assumes "gallocr_ready asz g" "graph_ok T graph" "reserve_plan T asz graph nids lids g = Some g'"
  shows "ga_bufts g' = ga_bufts g" "ga_buf_tallocs g' = ga_buf_tallocs g"
proof -
  obtain g2 g3 where g: "walk_at T asz graph 0 g2" "same_config (reset_hash g) g2"
    "ofold (plan_node T asz nids (cg_nodes graph)) [0..<length (cg_nodes graph)] g2 = Some g3"
    "ga_bufts g' = ga_bufts g3" "ga_buf_tallocs g' = ga_buf_tallocs g3"
    using reserve_passes[OF assms] by auto
  have "same_config g2 g3" using walk_places[OF assms(2) refl g(1) _ g(3)] by simp
  then show "ga_bufts g' = ga_bufts g" "ga_buf_tallocs g' = ga_buf_tallocs g"
    using g(2,4,5) by (simp_all add: same_config_def reset_hash_def)
qed

lemma plan_inv_sized:
  assumes "plan_inv T asz g"
  shows "config_sized g"
proof -
  have cfg: "config_ok asz g" using assms by (simp add: plan_inv_def)
  have "length (dt_chunks (ga_tallocs g ! k)) \<le> GGML_VBUFFER_MAX_CHUNKS" if "k < length (ga_tallocs g)" for k
  proof -
    obtain ts where "tallocr_ok (alignment g k) (ga_tallocs g ! k) (map (tensor_region asz g) ts)"
      by (rule plan_inv_tensors[OF assms \<open>k < length (ga_tallocs g)\<close>])
    then show ?thesis unfolding tallocr_ok_def tallocr_inv_def by auto
  qed
  then show ?thesis using cfg by (auto simp: config_ok_def config_sized_def)
qed

text \<open>A tensor whose place lies inside a backend buffer that exists.\<close>

definition tensor_backed :: "(nat \<Rightarrow> nat \<Rightarrow> size_t) \<Rightarrow> gallocr_mem \<Rightarrow> nat \<Rightarrow> bool" where
  "tensor_backed asz m t \<longleftrightarrow>
     (let hn = ga_hash (gm_gallocr m) t; b = nat (hn_buffer_id hn); c = nat (ba_chunk (hn_addr hn)) in
      0 \<le> hn_buffer_id hn \<and> b < length (gm_buffers m) \<and> 0 \<le> ba_chunk (hn_addr hn)
      \<and> (case gm_buffers m ! b of None \<Rightarrow> False
         | Some v \<Rightarrow> (case vh_live (gm_heap m) v of None \<Rightarrow> False
           | Some chunks \<Rightarrow> c < length chunks
               \<and> unat (ba_offset (hn_addr hn)) + unat (asz (ga_bufts (gm_gallocr m) ! b) t) \<le> unat (chunks ! c))))"

lemma filled_backed:
  assumes inv: "plan_inv T asz g" and fit: "tensor_fits asz g t" and st: "mem_step F g False (length (ga_bufts g)) (bufs, h)"
  shows "tensor_backed asz \<lparr>gm_gallocr = g, gm_buffers = bufs, gm_heap = h\<rparr> t"
proof -
  obtain \<beta> where rep: "bufs_rep g \<beta> (length (ga_bufts g)) bufs" "filled g \<beta> h (length (ga_bufts g)) False"
    using st by (auto simp: mem_step_def)
  let ?hn = "ga_hash g t" and ?k = "talloc_of g t"
  let ?c = "nat (ba_chunk (hn_addr ?hn))" and ?n = "asz (ga_bufts g ! hbuf g t) t"
  have f: "0 \<le> hn_buffer_id ?hn" "hbuf g t < length (ga_bufts g)" "0 \<le> ba_chunk (hn_addr ?hn)" "?k < length (ga_tallocs g)"
    "?c < length (dt_chunks (ga_tallocs g ! ?k))"
    "unat (ba_offset (hn_addr ?hn)) + unat (round_up (alignment g ?k) ?n) \<le> unat (max_size (dt_chunks (ga_tallocs g ! ?k) ! ?c))"
    using fit by (auto simp: tensor_fits_def buffer_ok_def tensor_region_def planned_size_def Let_def)
  have tk: "ga_buf_tallocs g ! hbuf g t = ?k" by (simp add: talloc_of_def)
  have "bufs ! hbuf g t = \<beta> ?k" "length bufs = length (ga_bufts g)"
    using rep(1) f(2) tk by (auto simp: bufs_rep_def)
  moreover have "case \<beta> ?k of None \<Rightarrow> False | Some v \<Rightarrow> (\<exists>chunks. vh_live h v = Some chunks \<and> covers (ga_tallocs g ! ?k) chunks)"
    using rep(2) f(2) unfolding filled_def tk[symmetric] by blast
  then obtain v chunks where v: "\<beta> ?k = Some v" "vh_live h v = Some chunks" "covers (ga_tallocs g ! ?k) chunks"
    by (auto split: option.splits)
  moreover have al: "align_ok (alignment g ?k)" by (rule plan_inv_tensors[OF inv f(4)]) (use tallocr_ok_alignment in blast)
  have sz: "size_ok (alignment g ?k) ?n"
    using inv f(2) tk by (auto simp: plan_inv_def config_ok_def)
  have ru: "unat ?n \<le> unat (round_up (alignment g ?k) ?n)" "0 < unat (round_up (alignment g ?k) ?n)"
    using round_up_correct[OF al sz] by auto
  have cov: "max_size (dt_chunks (ga_tallocs g ! ?k) ! ?c) \<le> (if ?c < length chunks then chunks ! ?c else 0)"
    using v(3) f(5) by (simp add: covers_def)
  have "?c < length chunks" using cov f(6) ru(2) by (auto split: if_splits)
  ultimately show ?thesis
    using f(1-3,6) cov ru(1) v by (simp add: tensor_backed_def word_le_nat_alt Let_def)
qed

lemma step_ok:
  assumes "mem_step F g no_alloc (length (ga_bufts g)) (bufs, h)"
  shows "buffers_ok F \<lparr>gm_gallocr = g, gm_buffers = bufs, gm_heap = h\<rparr>"
proof -
  obtain \<beta> where rep: "bufs_rep g \<beta> (length (ga_bufts g)) bufs" "heap_rep F (set (ga_buf_tallocs g)) \<beta> h"
    using assms by (auto simp: mem_step_def)
  then have "bufs_rep g \<beta> 0 bufs" by (simp add: bufs_rep_def)
  then show ?thesis using rep(2) by (auto simp: buffers_ok_def)
qed

lemma ok_step:
  assumes "buffers_ok F m" "ga_bufts g = ga_bufts (gm_gallocr m)" "ga_buf_tallocs g = ga_buf_tallocs (gm_gallocr m)"
  shows "mem_step F g no_alloc 0 (gm_buffers m, gm_heap m)"
  using assms by (auto simp: buffers_ok_def mem_step_def filled_def bufs_rep_def)

lemma reserve_impl_memory:
  assumes ready: "gallocr_ready asz (gm_gallocr m)" and graph: "graph_ok T graph"
    and g: "reserve_plan T asz graph nids lids (gm_gallocr m) = Some g"
    and ok: "buffers_ok F m" and b: "backend_ok balloc"
  shows "\<exists>ok m'. ggml_gallocr_reserve_n_impl T asz balloc graph nids lids no_alloc m = Some (ok, m') \<and> gm_gallocr m' = g
    \<and> (ok \<longrightarrow> buffers_ok F m' \<and> (\<not> no_alloc \<longrightarrow> (\<forall>t \<in> own_tensors T graph. tensor_backed asz m' t)))
    \<and> (\<not> ok \<longrightarrow> \<not> no_alloc \<and> alloc_refused balloc g (gm_heap m) (gm_heap m') \<and> (distinct (ga_buf_tallocs g) \<longrightarrow> buffers_ok F m'))"
proof -
  have inv: "plan_inv T asz g" using reserve_inv[OF ready graph g] .
  have "mem_step F g no_alloc 0 (gm_buffers m, gm_heap m)" using ok_step[OF ok] reserve_config[OF ready graph g] by simp
  from realloc_loop[OF this le0 plan_inv_sized[OF inv] b] obtain k bufs h where
    r: "realloc_buffers balloc no_alloc g [0..<length (ga_bufts g)] (gm_buffers m, gm_heap m) = Some (k, bufs, h)"
      "k \<longrightarrow> mem_step F g no_alloc (length (ga_bufts g)) (bufs, h)" "\<not> k \<longrightarrow> mem_failed balloc F g no_alloc (gm_heap m) (bufs, h)"
    by blast
  let ?m = "\<lparr>gm_gallocr = g, gm_buffers = bufs, gm_heap = h\<rparr>"
  have "ggml_gallocr_reserve_n_impl T asz balloc graph nids lids no_alloc m = Some (k, ?m)"
    using g r(1) by (simp add: ggml_gallocr_reserve_n_impl_def)
  moreover have "buffers_ok F ?m" if k using step_ok r(2) that by blast
  moreover have "tensor_backed asz ?m t" if "k" "\<not> no_alloc" "t \<in> own_tensors T graph" for t
    using filled_backed[OF inv reserve_fits[OF ready graph g]] r(2) that by (auto simp: own_tensors_def)
  moreover have "\<not> no_alloc" "alloc_refused balloc g (gm_heap m) h" "distinct (ga_buf_tallocs g) \<longrightarrow> buffers_ok F ?m" if "\<not> k"
    using r(3) that by (auto simp: mem_failed_def buffers_ok_def)
  ultimately show ?thesis by (intro exI[of _ k] exI[of _ ?m]) auto
qed

section \<open>Freeing\<close>

lemma free_buffers_loop:
  assumes rep: "bufs_rep g \<beta> 0 bufs" and len: "length (ga_buf_tallocs g) = length (ga_bufts g)"
    and h: "heap_rep F (set (ga_buf_tallocs g)) (\<lambda>k. if k \<in> set (take i (ga_buf_tallocs g)) then None else \<beta> k) h" and i: "i \<le> length (ga_bufts g)"
    and inj: "\<And>k k' v. \<lbrakk>k \<in> set (ga_buf_tallocs g); k' \<in> set (ga_buf_tallocs g); \<beta> k = Some v; \<beta> k' = Some v\<rbrakk> \<Longrightarrow> k = k'"
  shows "\<exists>h'. ofold (free_buffer bufs) [i..<length (ga_bufts g)] h = Some h' \<and> (\<forall>v. vh_live h' v \<noteq> None \<longleftrightarrow> v \<in> F)"
  using h i
proof (induction "length (ga_bufts g) - i" arbitrary: i h)
  case 0
  then show ?case using len by (auto simp: heap_rep_def)
next
  case (Suc d)
  then have i: "i < length (ga_bufts g)" by simp
  let ?t = "\<lambda>a. ga_buf_tallocs g ! a" and ?K = "set (ga_buf_tallocs g)"
  let ?\<beta> = "\<lambda>i k. if k \<in> set (take i (ga_buf_tallocs g)) then None else \<beta> k"
  have B: "bufs ! a = \<beta> (?t a)" if "a < length (ga_bufts g)" for a using rep that by (simp add: bufs_rep_def)
  have bl: "length bufs = length (ga_bufts g)" using rep by (simp add: bufs_rep_def)
  have tk: "?t i \<in> ?K" "\<And>a. a < i \<Longrightarrow> ?t a \<in> ?K" using i len by auto
  have tt: "take (Suc i) (ga_buf_tallocs g) = take i (ga_buf_tallocs g) @ [?t i]" using i len by (simp add: take_Suc_conv_app_nth)
  have nx: "?\<beta> (Suc i) = (?\<beta> i)(?t i := None)" unfolding tt by (auto simp: fun_eq_iff)
  have seen: "?t i \<in> set (take i (ga_buf_tallocs g)) \<longleftrightarrow> (\<exists>a < i. ?t a = ?t i)"
    using i len by (auto simp: in_set_conv_nth)
  have "\<exists>h1. free_buffer bufs i h = Some h1 \<and> heap_rep F ?K (?\<beta> (Suc i)) h1"
  proof (cases "bufs ! i \<in> set (take i bufs)")
    case True
    then obtain a where a: "a < i" "\<beta> (?t a) = \<beta> (?t i)" using B bl i by (auto simp: in_set_conv_nth)
    have "?\<beta> i (?t i) = None"
    proof (cases "\<beta> (?t i)")
      case (Some v)
      then have "?t a = ?t i" using inj[OF tk(2)[OF a(1)] tk(1)] a(2) by simp
      then show ?thesis using seen a(1) by auto
    qed simp
    then have "?\<beta> (Suc i) = ?\<beta> i" unfolding nx by (rule fun_upd_idem)
    then show ?thesis using True Suc.prems(1) i bl by (simp add: free_buffer_def)
  next
    case False
    have "?t i \<notin> set (take i (ga_buf_tallocs g))"
    proof
      assume "?t i \<in> set (take i (ga_buf_tallocs g))"
      then obtain a where "a < i" "?t a = ?t i" using seen by blast
      then have "bufs ! i \<in> set (take i bufs)" using B[of a] B[OF i] i bl by (auto simp: in_set_conv_nth)
      then show False using False by blast
    qed
    then have e: "?\<beta> i (?t i) = bufs ! i" using B[OF i] by simp
    from heap_free[OF Suc.prems(1) tk(1)] show ?thesis
      unfolding e nx using False i bl by (auto simp: free_buffer_def)
  qed
  then obtain h1 where h1: "free_buffer bufs i h = Some h1" "heap_rep F ?K (?\<beta> (Suc i)) h1" by blast
  have "\<exists>h'. ofold (free_buffer bufs) [Suc i..<length (ga_bufts g)] h1 = Some h' \<and> (\<forall>v. vh_live h' v \<noteq> None \<longleftrightarrow> v \<in> F)"
    using Suc.hyps(1)[OF _ h1(2)] Suc.hyps(2) i by simp
  then show ?case using h1(1) upt_conv_Cons[OF i] by simp
qed

lemma free_all:
  assumes "buffers_ok F m" "length (ga_buf_tallocs (gm_gallocr m)) = length (ga_bufts (gm_gallocr m))"
  shows "\<exists>h. ggml_gallocr_free m = Some h \<and> (\<forall>v. vh_live h v \<noteq> None \<longleftrightarrow> v \<in> F)"
proof -
  obtain \<beta> where r: "bufs_rep (gm_gallocr m) \<beta> 0 (gm_buffers m)" "heap_rep F (set (ga_buf_tallocs (gm_gallocr m))) \<beta> (gm_heap m)"
    using assms(1) by (auto simp: buffers_ok_def)
  show ?thesis
    unfolding ggml_gallocr_free_def
    by (rule free_buffers_loop[OF r(1) assms(2)]) (use r(2) heap_repD(3)[OF r(2)] in auto)
qed

section \<open>Properties\<close>

text \<open>
  C29: Reserving a graph with at most 254 tensors to place, each of at most \<open>2 ^ 55\<close> bytes and with sizes that depend on the layout alone,
  returns. It reports failure only when the last call that it made to the backend, for a chunk of the plan, returned no
  buffer; the entries of \<open>buffers\<close> are then still consistent if no two buffer ids share an allocator.
  Otherwise every tensor of the graph that the allocator places lies, with all the bytes that its
  backend asks for, inside a buffer that exists, and the entries of \<open>buffers\<close> are consistent.
\<close>

theorem gallocr_reserve_memory:
  assumes "plannable T asz graph nids lids (gm_gallocr m)" "buffers_ok F m" "backend_ok balloc"
  shows "\<exists>ok m'. ggml_gallocr_reserve_n T asz balloc graph nids lids m = Some (ok, m')
    \<and> (ok \<longrightarrow> buffers_ok F m' \<and> (\<forall>t \<in> own_tensors T graph. tensor_backed asz m' t))
    \<and> (\<not> ok \<longrightarrow> alloc_refused balloc (gm_gallocr m') (gm_heap m) (gm_heap m') \<and> (distinct (ga_buf_tallocs (gm_gallocr m')) \<longrightarrow> buffers_ok F m'))"
proof -
  have A: "gallocr_ready asz (gm_gallocr m)" "graph_ok T graph" using assms(1) by (auto simp: plannable_def)
  obtain g where "reserve_plan T asz graph nids lids (gm_gallocr m) = Some g" using reserve_total[OF assms(1)] by blast
  from reserve_impl_memory[OF A this assms(2,3), of False] show ?thesis
    unfolding ggml_gallocr_reserve_n_def by blast
qed

lemma new_buffers_ok:
  assumes "\<And>v. vh_live h v \<noteq> None \<Longrightarrow> v < vh_next h"
  shows "buffers_ok {v. vh_live h v \<noteq> None} (gallocr_mem_new balign bmax bufts h)"
proof -
  have "ga_bufts (ggml_gallocr_new_n balign bmax bufts) = bufts" by (simp add: ggml_gallocr_new_n_def split: prod.splits)
  then show ?thesis
    using assms unfolding buffers_ok_def
    by (intro exI[of _ "\<lambda>_. None"]) (auto simp: bufs_rep_def heap_rep_def gallocr_mem_new_def)
qed

definition demo_mem :: gallocr_mem where
  "demo_mem = gallocr_mem_new (\<lambda>_. 32) (\<lambda>_. 4096) [0] vheap_empty"

definition demo_backend :: "nat \<Rightarrow> nat \<Rightarrow> size_t \<Rightarrow> size_t option" where
  "demo_backend n b z = Some z"

lemma demo_mem_ok: "buffers_ok {} demo_mem" "gm_gallocr demo_mem = demo_gallocr" "backend_ok demo_backend"
  using new_buffers_ok[of vheap_empty "\<lambda>_. 32" "\<lambda>_. 4096" "[0]"]
  by (auto simp: demo_mem_def vheap_empty_def gallocr_mem_new_def demo_gallocr_def backend_ok_def demo_backend_def)

theorem gallocr_reserve_memory_witness:
  "\<exists>m'. ggml_gallocr_reserve_n demo_tensors demo_alloc_size demo_backend demo_graph None None demo_mem = Some (True, m')
    \<and> buffers_ok {} m' \<and> (\<forall>t \<in> {0, 1, 3, 4}. tensor_backed demo_alloc_size m' t)"
proof -
  have "plannable demo_tensors demo_alloc_size demo_graph None None (gm_gallocr demo_mem)"
    unfolding demo_mem_ok(2) by (rule demo_plannable)
  from gallocr_reserve_memory[OF this demo_mem_ok(1,3)]
  obtain ok m' where m': "ggml_gallocr_reserve_n demo_tensors demo_alloc_size demo_backend demo_graph None None demo_mem = Some (ok, m')"
    "ok \<longrightarrow> buffers_ok {} m' \<and> (\<forall>t \<in> own_tensors demo_tensors demo_graph. tensor_backed demo_alloc_size m' t)"
    "\<not> ok \<longrightarrow> alloc_refused demo_backend (gm_gallocr m') (gm_heap demo_mem) (gm_heap m')" by blast
  then have "ok = True" by (auto simp: demo_backend_def alloc_refused_def)
  then show ?thesis using m'(1,2) unfolding demo_own by simp
qed

text \<open>
  The life of a graph allocator: it is made, and graphs are reserved. A reservation may fail if no two buffer ids share
  an allocator.
\<close>

inductive gallocr_life :: "(nat \<Rightarrow> nat \<Rightarrow> size_t) \<Rightarrow> (nat \<Rightarrow> nat \<Rightarrow> size_t \<Rightarrow> size_t option) \<Rightarrow> gallocr_mem \<Rightarrow> gallocr_mem \<Rightarrow> bool"
  for asz balloc m0 where
  new: "gallocr_life asz balloc m0 m0"
| reserve: "\<lbrakk>gallocr_life asz balloc m0 m; graph_ok T graph;
     ggml_gallocr_reserve_n_impl T asz balloc graph nids lids no_alloc m = Some (ok, m'); ok \<or> distinct (ga_buf_tallocs (gm_gallocr m))\<rbrakk> \<Longrightarrow> gallocr_life asz balloc m0 m'"

lemma life_ok:
  assumes "gallocr_life asz balloc m0 m" "gallocr_ready asz (gm_gallocr m0)" "buffers_ok F m0" "backend_ok balloc"
  shows "gallocr_ready asz (gm_gallocr m) \<and> buffers_ok F m"
  using assms(1)
proof induction
  case new
  then show ?case using assms(2,3) by simp
next
  case (reserve m T graph nids lids no_alloc ok m')
  have r: "gallocr_ready asz (gm_gallocr m)" "buffers_ok F m" using reserve.IH by auto
  obtain g where g: "reserve_plan T asz graph nids lids (gm_gallocr m) = Some g"
    using reserve.hyps(3) by (auto simp: ggml_gallocr_reserve_n_impl_def bind_eq_Some_conv)
  have "buffers_ok F m'" "gm_gallocr m' = g"
    using reserve_impl_memory[OF r(1) reserve.hyps(2) g r(2) assms(4), of no_alloc] reserve.hyps(3,4)
      reserve_config(2)[OF r(1) reserve.hyps(2) g] by auto
  then show ?case using plan_inv_ready[OF reserve_inv[OF r(1) reserve.hyps(2) g]] by simp
qed

text \<open>
  C12: However many graphs a graph allocator has reserved, all of them with success, or also with failures of the backend if its
  buffer types are all different,
  freeing it never frees a buffer twice or one that does not exist, and gives back exactly the
  buffers that were allocated since it was made.
\<close>

theorem gallocr_free_once:
  assumes "\<And>b. b \<in> set bufts \<Longrightarrow> align_ok (balign b)" "\<And>b t. b \<in> set bufts \<Longrightarrow> size_ok (balign b) (asz b t)"
    "backend_ok balloc" "\<And>v. vh_live h v \<noteq> None \<Longrightarrow> v < vh_next h"
    "gallocr_life asz balloc (gallocr_mem_new balign bmax bufts h) m"
  shows "\<exists>h'. ggml_gallocr_free m = Some h' \<and> (\<forall>v. vh_live h' v \<noteq> None \<longleftrightarrow> vh_live h v \<noteq> None)"
proof -
  have "gallocr_ready asz (gm_gallocr (gallocr_mem_new balign bmax bufts h))"
    using gallocr_new_ready[of bufts balign asz bmax] assms(1,2) by (simp add: gallocr_mem_new_def)
  from life_ok[OF assms(5) this new_buffers_ok assms(3)] assms(4)
  have "gallocr_ready asz (gm_gallocr m)" "buffers_ok {v. vh_live h v \<noteq> None} m" by auto
  then show ?thesis using free_all[of "{v. vh_live h v \<noteq> None}" m] by (auto simp: gallocr_ready_def config_ok_def)
qed

theorem gallocr_free_once_witness:
  "\<exists>m h'. ggml_gallocr_reserve_n demo_tensors demo_alloc_size demo_backend demo_graph None None demo_mem = Some (True, m)
    \<and> vh_live (gm_heap m) 0 \<noteq> None \<and> ggml_gallocr_free m = Some h' \<and> (\<forall>v. vh_live h' v = None)"
proof -
  obtain m where m: "ggml_gallocr_reserve_n demo_tensors demo_alloc_size demo_backend demo_graph None None demo_mem = Some (True, m)"
    "vh_live (gm_heap m) 0 \<noteq> None"
  proof -
    have "(case ggml_gallocr_reserve_n demo_tensors demo_alloc_size demo_backend demo_graph None None demo_mem of
        Some (True, m) \<Rightarrow> vh_live (gm_heap m) 0 \<noteq> None | _ \<Rightarrow> False)" by code_simp
    then show ?thesis using that by (auto split: option.splits prod.splits bool.splits)
  qed
  have "gallocr_life demo_alloc_size demo_backend demo_mem m"
    by (rule gallocr_life.reserve[OF gallocr_life.new demo_graph_ok, where ok = True]) (use m(1) in \<open>auto simp: ggml_gallocr_reserve_n_def\<close>)
  from gallocr_free_once[OF _ _ demo_mem_ok(3) _ this[unfolded demo_mem_def]]
  have "\<exists>h'. ggml_gallocr_free m = Some h' \<and> (\<forall>v. vh_live h' v = None)"
    by (simp add: align_ok_def size_ok_def demo_alloc_size_def vheap_empty_def)
  then show ?thesis using m by blast
qed

end
