(* ===== verification/Gallocr_Address.thy ===== *)
theory Gallocr_Address
  imports Gallocr_Memory
begin

text \<open>
  \<open>ggml_gallocr_alloc_graph\<close>: a graph that was just reserved needs no reallocation, and every tensor
  the allocator places gets the address of its place. At the end, what happens when a reservation
  fails and when a leaf that no node uses has grown.
\<close>

section \<open>The records of a plan\<close>

lemma omap_nth:
  assumes "omap f xs = Some ys"
  shows "length ys = length xs" "i < length xs \<Longrightarrow> f (xs ! i) = Some (ys ! i)"
proof -
  have "length ys = length xs \<and> (\<forall>i < length xs. f (xs ! i) = Some (ys ! i))"
    using assms
  proof (induction xs arbitrary: ys)
    case (Cons x xs)
    then obtain y zs where yz: "f x = Some y" "omap f xs = Some zs" "ys = y # zs" by (auto simp: bind_eq_Some_conv)
    show ?case using Cons.IH[OF yz(2)] yz by (auto simp: nth_Cons split: nat.splits)
  qed simp
  then show "length ys = length xs" "i < length xs \<Longrightarrow> f (xs ! i) = Some (ys ! i)" by auto
qed

lemma planned_valid:
  assumes "planned_alloc T asz g t = Some a" "ga_bufts g' = ga_bufts g"
  shows "ggml_gallocr_node_needs_realloc T asz g' t a = Some True"
proof (cases "t_view_src (T t) \<noteq> None \<or> t_data (T t) \<noteq> None")
  case False
  then have "0 \<le> ta_buffer_id a" "nat (ta_buffer_id a) < length (ga_bufts g)" "ta_size_max a = asz (ga_bufts g ! nat (ta_buffer_id a)) t"
    using assms(1) by (auto simp: planned_alloc_def bind_eq_Some_conv buft_of_Some Let_def)
  then show ?thesis using False assms(2) by (simp add: ggml_gallocr_node_needs_realloc_def buft_of_def)
qed (auto simp: ggml_gallocr_node_needs_realloc_def)

lemma srcs_planned_valid:
  assumes "omap (planned_src T asz g) ss = Some as" "ga_bufts g' = ga_bufts g"
  shows "srcs_valid T asz g' ss as = Some True"
  using assms(1)
proof (induction ss arbitrary: as)
  case (Cons s ss)
  then obtain a bs where ab: "planned_src T asz g s = Some a" "omap (planned_src T asz g) ss = Some bs" "as = a # bs"
    by (auto simp: bind_eq_Some_conv)
  show ?case
    using Cons.IH[OF ab(2)] ab planned_valid[OF _ assms(2)] by (cases s) (auto simp: planned_src_def)
qed simp

lemma nodes_planned_valid:
  assumes "omap (planned_node T asz g) ns = Some as" "ga_bufts g' = ga_bufts g"
  shows "nodes_valid T asz g' ns as = Some True"
  using assms(1)
proof (induction ns arbitrary: as)
  case (Cons n ns)
  then obtain a bs where ab: "planned_node T asz g n = Some a" "omap (planned_node T asz g) ns = Some bs" "as = a # bs"
    by (auto simp: bind_eq_Some_conv)
  then obtain d ss where ds: "planned_alloc T asz g n = Some d" "omap (planned_src T asz g) (t_src (T n)) = Some ss" "a = \<lparr>na_dst = d, na_src = ss\<rparr>"
    by (auto simp: planned_node_def bind_eq_Some_conv)
  show ?case
    using Cons.IH[OF ab(2)] ab(3) ds planned_valid[OF ds(1) assms(2)] srcs_planned_valid[OF ds(2) assms(2)] by simp
qed simp

lemma reserve_records:
  assumes "reserve_plan T asz graph nids lids g = Some g'"
  shows "\<exists>g3. ga_bufts g' = ga_bufts g3 \<and> ga_hash g' = ga_hash g3
    \<and> omap (planned_node T asz g3) (cg_nodes graph) = Some (ga_node_allocs g')
    \<and> omap (planned_alloc T asz g3) (cg_leafs graph) = Some (ga_leaf_allocs g')"
  using assms by (auto simp: reserve_plan_def Let_def bind_eq_Some_conv)

lemma reserve_no_realloc:
  assumes "reserve_plan T asz graph nids lids g = Some g'"
  shows "ggml_gallocr_needs_realloc T asz graph g' = Some False"
proof -
  obtain g3 where g3: "ga_bufts g' = ga_bufts g3" "omap (planned_node T asz g3) (cg_nodes graph) = Some (ga_node_allocs g')"
    "omap (planned_alloc T asz g3) (cg_leafs graph) = Some (ga_leaf_allocs g')" using reserve_records[OF assms] by blast
  show ?thesis
    using nodes_planned_valid[OF g3(2,1)] omap_nth(1)[OF g3(2)] omap_nth(1)[OF g3(3)]
    by (simp add: ggml_gallocr_needs_realloc_def)
qed

section \<open>Giving addresses\<close>

text \<open>No backend buffer reaches over the end of the address space.\<close>

definition addressable :: "(nat \<Rightarrow> nat \<Rightarrow> size_t) \<Rightarrow> vheap \<Rightarrow> bool" where
  "addressable vbase h \<longleftrightarrow> (\<forall>v chunks. vh_live h v = Some chunks \<longrightarrow> (\<forall>c < length chunks. unat (vbase v c) + unat (chunks ! c) < 2 ^ 64))"

definition tensor_address :: "(nat \<Rightarrow> nat \<Rightarrow> size_t) \<Rightarrow> gallocr_mem \<Rightarrow> nat \<Rightarrow> size_t" where
  "tensor_address vbase m t = (let hn = ga_hash (gm_gallocr m) t in
     vbase (the (gm_buffers m ! nat (hn_buffer_id hn))) (nat (ba_chunk (hn_addr hn))) + ba_offset (hn_addr hn))"

definition initialised :: "(nat \<Rightarrow> nat \<Rightarrow> size_t) \<Rightarrow> gallocr_mem \<Rightarrow> ggml_tensor \<Rightarrow> nat \<Rightarrow> ggml_tensor" where
  "initialised vbase m x t = x\<lparr>t_buffer := gm_buffers m ! nat (hn_buffer_id (ga_hash (gm_gallocr m) t)), t_data := Some (tensor_address vbase m t)\<rparr>"

text \<open>
  What the initialisation may have done to a tensor: nothing; a tensor that the allocator places
  has its address; a view has got some.
\<close>

definition init_rel :: "(nat \<Rightarrow> nat \<Rightarrow> size_t) \<Rightarrow> gallocr_mem \<Rightarrow> tensors \<Rightarrow> tensors \<Rightarrow> bool" where
  "init_rel vbase m T T' \<longleftrightarrow> (\<forall>t. T' t = T t \<or> own T t \<and> T' t = initialised vbase m (T t) t
     \<or> t_view_src (T t) \<noteq> None \<and> (\<exists>b d. T' t = (T t)\<lparr>t_buffer := b, t_data := d\<rparr>))"

definition data_ok :: "tensors \<Rightarrow> bool" where
  "data_ok T \<longleftrightarrow> (\<forall>t. t_buffer (T t) \<noteq> None \<longrightarrow> t_data (T t) \<noteq> None)"

lemma init_rel_view: "init_rel vbase m T T' \<Longrightarrow> t_view_src (T' t) = t_view_src (T t)"
  unfolding init_rel_def by (erule allE[of _ t]) (auto simp: initialised_def)

lemma init_rel_src: "init_rel vbase m T T' \<Longrightarrow> t_src (T' t) = t_src (T t)"
  unfolding init_rel_def by (erule allE[of _ t]) (auto simp: initialised_def)

text \<open>What is kept while tensors are initialised: the ones of \<open>D\<close> have their address.\<close>

definition init_inv :: "(nat \<Rightarrow> nat \<Rightarrow> size_t) \<Rightarrow> gallocr_mem \<Rightarrow> tensors \<Rightarrow> nat set \<Rightarrow> tensors \<Rightarrow> bool" where
  "init_inv vbase m T D T' \<longleftrightarrow> init_rel vbase m T T' \<and> data_ok T' \<and> (\<forall>t \<in> D. own T t \<longrightarrow> T' t = initialised vbase m (T t) t)"

lemma backed_alloc:
  assumes bk: "tensor_backed asz m t" and ad: "addressable vbase (gm_heap m)" and t: "own T t"
    and sz: "0 < unat (asz (ga_bufts (gm_gallocr m) ! nat (hn_buffer_id (ga_hash (gm_gallocr m) t))) t)"
  shows "\<exists>v. gm_buffers m ! nat (hn_buffer_id (ga_hash (gm_gallocr m) t)) = Some v
    \<and> ggml_vbuffer_tensor_alloc vbase (gm_heap m) v (asz (ga_bufts (gm_gallocr m) ! nat (hn_buffer_id (ga_hash (gm_gallocr m) t))) t)
        (hn_addr (ga_hash (gm_gallocr m) t)) (T t) = Some (initialised vbase m (T t) t)
    \<and> ba_offset (hn_addr (ga_hash (gm_gallocr m) t)) \<noteq> SIZE_MAX"
proof -
  let ?hn = "ga_hash (gm_gallocr m) t"
  let ?b = "nat (hn_buffer_id ?hn)" and ?c = "nat (ba_chunk (hn_addr ?hn))"
  let ?off = "ba_offset (hn_addr ?hn)" and ?n = "asz (ga_bufts (gm_gallocr m) ! ?b) t"
  obtain v chunks where v: "gm_buffers m ! ?b = Some v" "vh_live (gm_heap m) v = Some chunks" "?c < length chunks"
    "unat ?off + unat ?n \<le> unat (chunks ! ?c)" "0 \<le> ba_chunk (hn_addr ?hn)"
    using bk by (auto simp: tensor_backed_def Let_def split: option.splits)
  let ?base = "vbase v ?c"
  have nw: "unat ?base + unat (chunks ! ?c) < 2 ^ 64" using ad v(2,3) by (auto simp: addressable_def)
  have u: "unat (?base + ?off) = unat ?base + unat ?off" "unat (?base + chunks ! ?c) = unat ?base + unat (chunks ! ?c)"
    using nw v(4) by (auto simp: unat_word_ariths)
  have u2: "unat (?base + ?off + ?n) = unat ?base + unat ?off + unat ?n"
    using nw v(4) u(1) by (auto simp: unat_word_ariths)
  have "?base \<le> ?base + ?off" "?base + ?off + ?n \<le> ?base + chunks ! ?c"
    using u u2 v(4) by (auto simp: word_le_nat_alt)
  then have "ggml_vbuffer_tensor_alloc vbase (gm_heap m) v ?n (hn_addr ?hn) (T t) = Some (initialised vbase m (T t) t)"
    using v t by (simp add: ggml_vbuffer_tensor_alloc_def ggml_backend_tensor_alloc_def own_def initialised_def tensor_address_def Let_def)
  moreover have "unat ?off < unat (chunks ! ?c)" using v(4) sz by simp
  then have "?off < chunks ! ?c" by (simp add: word_less_nat_alt)
  then have "?off \<noteq> SIZE_MAX" using word_order.extremum_strict[of "chunks ! ?c"] by (auto simp: SIZE_MAX_def)
  ultimately show ?thesis using v(1) by blast
qed

lemma init_rel_upd:
  assumes "init_rel vbase m T T'" "x = T t \<or> own T t \<and> x = initialised vbase m (T t) t
     \<or> t_view_src (T t) \<noteq> None \<and> (\<exists>b d. x = (T t)\<lparr>t_buffer := b, t_data := d\<rparr>)"
  shows "init_rel vbase m T (T'(t := x))"
  using assms unfolding init_rel_def by simp

lemma init_view_step:
  assumes I: "init_inv vbase m T D T'" and v: "t_view_src (T t) = Some v" and a: "ba_offset (ta_addr a) = SIZE_MAX"
  shows "\<exists>T''. ggml_gallocr_init_tensor vbase asz view_offs m t a T' = Some T'' \<and> init_inv vbase m T (insert t D) T''"
proof -
  have rel: "init_rel vbase m T T'" "data_ok T'" using I by (auto simp: init_inv_def)
  have v': "t_view_src (T' t) = Some v" using init_rel_view[OF rel(1)] v by simp
  have no: "\<not> own T t" using v by (simp add: own_def)
  have same: "init_inv vbase m T (insert t D) T'" using I no by (simp add: init_inv_def)
  show ?thesis
  proof (cases "t_buffer (T' t) = None \<and> t_buffer (T' v) \<noteq> None")
    case False
    then have "ggml_gallocr_init_tensor vbase asz view_offs m t a T' = Some T'"
      using v' a by (auto simp: ggml_gallocr_init_tensor_def)
    then show ?thesis using same by blast
  next
    case True
    then obtain d where d: "t_data (T' v) = Some d" using rel(2) by (auto simp: data_ok_def)
    let ?x = "(T' t)\<lparr>t_buffer := t_buffer (T' v), t_data := Some (d + view_offs t)\<rparr>"
    have run: "ggml_gallocr_init_tensor vbase asz view_offs m t a T' = Some (T'(t := ?x))"
      using v' a True d by (auto simp: ggml_gallocr_init_tensor_def ggml_backend_view_init_def)
    have "\<exists>b d. T' t = (T t)\<lparr>t_buffer := b, t_data := d\<rparr>"
    proof -
      have "T' t = T t \<or> (\<exists>b d. T' t = (T t)\<lparr>t_buffer := b, t_data := d\<rparr>)" using rel(1) no unfolding init_rel_def by blast
      then show ?thesis by (metis ggml_tensor.surjective ggml_tensor.update_convs(8,9))
    qed
    then have "?x = (T t)\<lparr>t_buffer := t_buffer (T' v), t_data := Some (d + view_offs t)\<rparr>" by auto
    then have "\<exists>b d. ?x = (T t)\<lparr>t_buffer := b, t_data := d\<rparr>" by blast
    then have "init_rel vbase m T (T'(t := ?x))" using init_rel_upd[OF rel(1)] v by blast
    moreover have "data_ok (T'(t := ?x))" using rel(2) by (simp add: data_ok_def)
    ultimately have "init_inv vbase m T (insert t D) (T'(t := ?x))" using I no by (auto simp: init_inv_def)
    then show ?thesis using run by blast
  qed
qed

lemma init_step:
  assumes I: "init_inv vbase m T D T'" and ok: "data_ok T" and g: "ga_hash g = ga_hash (gm_gallocr m)" "ga_bufts g = ga_bufts (gm_gallocr m)"
    and a: "planned_alloc T asz g t = Some a" and ad: "addressable vbase (gm_heap m)"
    and bk: "own T t \<Longrightarrow> tensor_backed asz m t \<and> 0 < unat (asz (ga_bufts g ! nat (hn_buffer_id (ga_hash g t))) t)"
  shows "\<exists>T''. ggml_gallocr_init_tensor vbase asz view_offs m t a T' = Some T'' \<and> init_inv vbase m T (insert t D) T''"
proof (cases "t_view_src (T t)")
  case (Some v)
  have "ba_offset (ta_addr a) = SIZE_MAX"
    using a Some by (auto simp: planned_alloc_def tensor_alloc_none_def GGML_BUFFER_ADDRESS_INVALID_def)
  from init_view_step[OF I Some this] show ?thesis .
next
  case None
  have rel: "init_rel vbase m T T'" "data_ok T'" using I by (auto simp: init_inv_def)
  have v': "t_view_src (T' t) = None" using init_rel_view[OF rel(1)] None by simp
  have cases: "T' t = T t \<or> own T t \<and> T' t = initialised vbase m (T t) t" using rel(1) None unfolding init_rel_def by blast
  show ?thesis
  proof (cases "t_data (T' t)")
    case (Some d)
    then have "ggml_gallocr_init_tensor vbase asz view_offs m t a T' = Some T'" using v' by (simp add: ggml_gallocr_init_tensor_def)
    moreover have "T' t = initialised vbase m (T t) t" if "own T t" using cases Some that by (auto simp: own_def)
    then have "init_inv vbase m T (insert t D) T'" using I by (simp add: init_inv_def)
    ultimately show ?thesis by blast
  next
    case data: None
    then have T: "T' t = T t" using cases by (auto simp: initialised_def)
    then have o: "own T t" using data ok None by (auto simp: own_def data_ok_def)
    let ?hn = "ga_hash (gm_gallocr m) t"
    have A: "0 \<le> hn_buffer_id ?hn" "nat (hn_buffer_id ?hn) < length (ga_bufts (gm_gallocr m))"
      "a = \<lparr>ta_buffer_id = hn_buffer_id ?hn, ta_addr = hn_addr ?hn, ta_size_max = asz (ga_bufts (gm_gallocr m) ! nat (hn_buffer_id ?hn)) t\<rparr>"
      using a o unfolding g[symmetric] by (auto simp: planned_alloc_def own_def bind_eq_Some_conv buft_of_Some Let_def)
    have bk': "tensor_backed asz m t" "0 < unat (asz (ga_bufts (gm_gallocr m) ! nat (hn_buffer_id ?hn)) t)" using bk[OF o] g by auto
    obtain v where v: "gm_buffers m ! nat (hn_buffer_id ?hn) = Some v"
      "ggml_vbuffer_tensor_alloc vbase (gm_heap m) v (asz (ga_bufts (gm_gallocr m) ! nat (hn_buffer_id ?hn)) t) (hn_addr ?hn) (T t) = Some (initialised vbase m (T t) t)"
      "ba_offset (hn_addr ?hn) \<noteq> SIZE_MAX"
      using backed_alloc[OF bk'(1) ad o bk'(2)] by blast
    have len: "nat (hn_buffer_id ?hn) < length (gm_buffers m)" using bk'(1) by (simp add: tensor_backed_def Let_def)
    have "ggml_gallocr_init_tensor vbase asz view_offs m t a T' = Some (T'(t := initialised vbase m (T t) t))"
      using v' data T A v len by (simp add: ggml_gallocr_init_tensor_def buft_of_def)
    moreover have "init_rel vbase m T (T'(t := initialised vbase m (T t) t))" using init_rel_upd[OF rel(1)] o by blast
    moreover have "data_ok (T'(t := initialised vbase m (T t) t))" using rel(2) by (simp add: data_ok_def initialised_def)
    ultimately show ?thesis using I by (auto simp: init_inv_def)
  qed
qed

section \<open>The graph\<close>

text \<open>The records of the plan \<open>g\<close> are those of the allocator that hands out addresses.\<close>

definition plan_of :: "tensors \<Rightarrow> (nat \<Rightarrow> nat \<Rightarrow> size_t) \<Rightarrow> (nat \<Rightarrow> nat \<Rightarrow> size_t) \<Rightarrow> nat set \<Rightarrow> gallocr_mem \<Rightarrow> ggml_gallocr \<Rightarrow> bool" where
  "plan_of T vbase asz U m g \<longleftrightarrow> data_ok T \<and> ga_hash g = ga_hash (gm_gallocr m) \<and> ga_bufts g = ga_bufts (gm_gallocr m)
     \<and> addressable vbase (gm_heap m)
     \<and> (\<forall>t \<in> U. own T t \<longrightarrow> tensor_backed asz m t \<and> 0 < unat (asz (ga_bufts g ! nat (hn_buffer_id (ga_hash g t))) t))"

lemma init_tensor_total:
  assumes "plan_of T vbase asz U m g" "init_inv vbase m T D T'" "planned_alloc T asz g t = Some a" "t \<in> U \<or> \<not> own T t"
  shows "\<exists>T''. ggml_gallocr_init_tensor vbase asz view_offs m t a T' = Some T'' \<and> init_inv vbase m T (insert t D) T''"
  by (rule init_step[OF assms(2) _ _ _ assms(3)]) (use assms(1,4) in \<open>auto simp: plan_of_def\<close>)

lemma init_inv_mono: "init_inv vbase m T D T' \<Longrightarrow> D' \<subseteq> D \<Longrightarrow> init_inv vbase m T D' T'"
  by (auto simp: init_inv_def)

lemma init_leafs:
  assumes P: "plan_of T vbase asz U m g" and I: "init_inv vbase m T D T'" and o: "omap (planned_alloc T asz g) ls = Some as" and U: "set ls \<subseteq> U"
  shows "\<exists>T''. ofold (init_leaf vbase asz view_offs m) (zip ls as) T' = Some T'' \<and> init_inv vbase m T (set ls \<union> D) T''"
  using I o U
proof (induction ls arbitrary: as D T')
  case (Cons l ls)
  then obtain a bs where ab: "planned_alloc T asz g l = Some a" "omap (planned_alloc T asz g) ls = Some bs" "as = a # bs"
    by (auto simp: bind_eq_Some_conv)
  obtain T1 where T1: "ggml_gallocr_init_tensor vbase asz view_offs m l a T' = Some T1" "init_inv vbase m T (insert l D) T1"
    using init_tensor_total[OF P Cons.prems(1) ab(1)] Cons.prems(3) by auto
  from Cons.IH[OF T1(2) ab(2)] Cons.prems(3)
  obtain T2 where "ofold (init_leaf vbase asz view_offs m) (zip ls bs) T1 = Some T2" "init_inv vbase m T (set ls \<union> insert l D) T2" by auto
  moreover have "init_leaf vbase asz view_offs m (l, a) T' = Some T1" using T1(1) by (simp add: init_leaf_def)
  ultimately show ?case using ab(3) by simp
qed simp

lemma init_srcs:
  assumes P: "plan_of T vbase asz U m g" and I: "init_inv vbase m T D T'" and o: "omap (planned_src T asz g) ss = Some as"
    and U: "\<And>p. Some p \<in> set ss \<Longrightarrow> p \<in> U \<or> \<not> own T p"
  shows "\<exists>T''. ofold (init_src vbase asz view_offs m) (zip ss as) T' = Some T'' \<and> init_inv vbase m T D T''"
  using I o U
proof (induction ss arbitrary: as T')
  case (Cons s ss)
  then obtain a bs where ab: "planned_src T asz g s = Some a" "omap (planned_src T asz g) ss = Some bs" "as = a # bs"
    by (auto simp: bind_eq_Some_conv)
  obtain T1 where T1: "init_src vbase asz view_offs m (s, a) T' = Some T1" "init_inv vbase m T D T1"
  proof (cases s)
    case None
    then show ?thesis using that Cons.prems(1) by (simp add: init_src_def)
  next
    case (Some p)
    then show ?thesis
      using init_tensor_total[OF P Cons.prems(1), of p a view_offs] ab(1) Cons.prems(3)[of p] init_inv_mono that
      by (fastforce simp: init_src_def planned_src_def)
  qed
  from Cons.IH[OF T1(2) ab(2)] Cons.prems(3)
  obtain T2 where "ofold (init_src vbase asz view_offs m) (zip ss bs) T1 = Some T2" "init_inv vbase m T D T2" by auto
  then show ?case using T1(1) ab(3) by simp
qed simp

lemma init_nodes:
  assumes P: "plan_of T vbase asz U m g" and I: "init_inv vbase m T D T'" and o: "omap (planned_node T asz g) ns = Some as" and U: "set ns \<subseteq> U"
    and S: "\<And>n p. \<lbrakk>n \<in> set ns; Some p \<in> set (t_src (T n))\<rbrakk> \<Longrightarrow> p \<in> U \<or> \<not> own T p"
  shows "\<exists>T''. ofold (init_node vbase asz view_offs m) (zip ns as) T' = Some T'' \<and> init_inv vbase m T (set ns \<union> D) T''"
  using I o U S
proof (induction ns arbitrary: as D T')
  case (Cons n ns)
  then obtain a bs where ab: "planned_node T asz g n = Some a" "omap (planned_node T asz g) ns = Some bs" "as = a # bs"
    by (auto simp: bind_eq_Some_conv)
  obtain d ss where ds: "planned_alloc T asz g n = Some d" "omap (planned_src T asz g) (t_src (T n)) = Some ss" "a = \<lparr>na_dst = d, na_src = ss\<rparr>"
    using ab(1) by (auto simp: planned_node_def bind_eq_Some_conv)
  have src: "t_src (T' n) = t_src (T n)" using init_rel_src Cons.prems(1) by (auto simp: init_inv_def)
  obtain T1 where T1: "ofold (init_src vbase asz view_offs m) (zip (t_src (T n)) ss) T' = Some T1" "init_inv vbase m T D T1"
    using init_srcs[OF P Cons.prems(1) ds(2)] Cons.prems(4)[of n] by auto
  obtain T2 where T2: "ggml_gallocr_init_tensor vbase asz view_offs m n d T1 = Some T2" "init_inv vbase m T (insert n D) T2"
    using init_tensor_total[OF P T1(2) ds(1)] Cons.prems(3) by auto
  have "init_node vbase asz view_offs m (n, a) T' = Some T2" using T1(1) T2(1) src ds(3) by (simp add: init_node_def)
  moreover obtain T3 where "ofold (init_node vbase asz view_offs m) (zip ns bs) T2 = Some T3" "init_inv vbase m T (set ns \<union> insert n D) T3"
    using Cons.IH[OF T2(2) ab(2)] Cons.prems(3,4) by auto
  ultimately show ?case using ab(3) by simp
qed simp

text \<open>
  C18: A graph that has just been reserved can be allocated: \<open>ggml_gallocr_alloc_graph\<close> does not reserve
  again, none of its assertions fails, and every tensor that the allocator places gets the
  address of its place in the buffer that was allocated for it.
\<close>

theorem gallocr_alloc_graph_addresses:
  assumes ready: "gallocr_ready asz (gm_gallocr m)" and graph: "graph_ok T graph" and ok: "buffers_ok F m" and b: "backend_ok balloc"
    and run: "ggml_gallocr_reserve_n T asz balloc graph nids lids m = Some (True, m')"
    and data: "data_ok T" "addressable vbase (gm_heap m')"
  shows "\<exists>T'. ggml_gallocr_alloc_graph vbase asz balloc view_offs graph T m' = Some (True, T', m')
    \<and> (\<forall>t \<in> own_tensors T graph. t_data (T' t) = Some (tensor_address vbase m' t)
         \<and> t_buffer (T' t) = gm_buffers m' ! nat (hn_buffer_id (ga_hash (gm_gallocr m') t)))"
proof -
  let ?U = "set (cg_leafs graph) \<union> set (cg_nodes graph)"
  have run': "ggml_gallocr_reserve_n_impl T asz balloc graph nids lids False m = Some (True, m')"
    using run by (simp add: ggml_gallocr_reserve_n_def)
  then obtain g where g: "reserve_plan T asz graph nids lids (gm_gallocr m) = Some g"
    by (auto simp: ggml_gallocr_reserve_n_impl_def bind_eq_Some_conv)
  have M: "gm_gallocr m' = g" "\<forall>t \<in> own_tensors T graph. tensor_backed asz m' t"
    using reserve_impl_memory[OF ready graph g ok b, of False] run' by auto
  obtain g3 where g3: "ga_bufts g = ga_bufts g3" "ga_hash g = ga_hash g3" "omap (planned_node T asz g3) (cg_nodes graph) = Some (ga_node_allocs g)"
    "omap (planned_alloc T asz g3) (cg_leafs graph) = Some (ga_leaf_allocs g)" using reserve_records[OF g] by blast
  have inv: "plan_inv T asz g" by (rule reserve_inv[OF ready graph g])
  have sz: "0 < unat (asz (ga_bufts g3 ! nat (hn_buffer_id (ga_hash g3 t))) t)" if "t \<in> ?U" "own T t" for t
  proof -
    have "tensor_fits asz g t" using reserve_fits[OF ready graph g] that by simp
    then have "hbuf g t < length (ga_bufts g)" by (simp add: tensor_fits_def buffer_ok_def)
    then show ?thesis using inv g3(1,2) by (auto simp: plan_inv_def config_ok_def size_ok_def)
  qed
  have P: "plan_of T vbase asz ?U m' g3"
    using data M sz g3 by (auto simp: plan_of_def own_tensors_def)
  have "init_inv vbase m' T {} T" using data(1) by (simp add: init_inv_def init_rel_def)
  from init_leafs[OF P this g3(4)] obtain T1 where
    T1: "ofold (init_leaf vbase asz view_offs m') (zip (cg_leafs graph) (ga_leaf_allocs g)) T = Some T1" "init_inv vbase m' T (set (cg_leafs graph)) T1" by auto
  have S: "p \<in> ?U \<or> \<not> own T p" if n: "n \<in> set (cg_nodes graph)" "Some p \<in> set (t_src (T n))" for n p
  proof -
    obtain i where i: "i < length (cg_nodes graph)" "n = cg_nodes graph ! i" using n(1) by (auto simp: in_set_conv_nth)
    from graph_node(1)[OF graph i(1)] n(2) i(2) show ?thesis
      using set_take_subset[of i "cg_nodes graph"] by (auto simp: source_ok_def own_def external_def)
  qed
  have "\<exists>T2. ofold (init_node vbase asz view_offs m') (zip (cg_nodes graph) (ga_node_allocs g)) T1 = Some T2
      \<and> init_inv vbase m' T (set (cg_nodes graph) \<union> set (cg_leafs graph)) T2"
    by (rule init_nodes[OF P T1(2) g3(3)]) (use S in auto)
  then obtain T2 where T2: "ofold (init_node vbase asz view_offs m') (zip (cg_nodes graph) (ga_node_allocs g)) T1 = Some T2"
      "init_inv vbase m' T (set (cg_nodes graph) \<union> set (cg_leafs graph)) T2" by blast
  have "ggml_gallocr_alloc_graph vbase asz balloc view_offs graph T m' = Some (True, T2, m')"
    using T1(1) T2(1) reserve_no_realloc[OF g] M(1) by (simp add: ggml_gallocr_alloc_graph_def)
  moreover have "T2 t = initialised vbase m' (T t) t" if "t \<in> own_tensors T graph" for t
    using T2(2) that by (auto simp: init_inv_def own_tensors_def)
  ultimately show ?thesis by (auto simp: initialised_def)
qed

definition demo_base :: "nat \<Rightarrow> nat \<Rightarrow> size_t" where
  "demo_base v c = 4096"

theorem gallocr_alloc_graph_addresses_witness:
  "\<exists>m' T'. ggml_gallocr_reserve_n demo_tensors demo_alloc_size demo_backend demo_graph None None demo_mem = Some (True, m')
    \<and> ggml_gallocr_alloc_graph demo_base demo_alloc_size demo_backend (\<lambda>_. 0) demo_graph demo_tensors m' = Some (True, T', m')
    \<and> (\<forall>t \<in> {0, 1, 3, 4}. t_data (T' t) = Some (tensor_address demo_base m' t))"
proof -
  obtain m' where m': "ggml_gallocr_reserve_n demo_tensors demo_alloc_size demo_backend demo_graph None None demo_mem = Some (True, m')"
    "vh_live (gm_heap m') = (vh_live vheap_empty)(0 \<mapsto> [128])"
  proof -
    have "(case ggml_gallocr_reserve_n demo_tensors demo_alloc_size demo_backend demo_graph None None demo_mem of
        Some (True, m) \<Rightarrow> vh_live (gm_heap m) 0 = Some [128] \<and> gm_buffers m = [Some 0]
          \<and> ga_bufts (gm_gallocr m) = [0] \<and> ga_buf_tallocs (gm_gallocr m) = [0] | _ \<Rightarrow> False)" by code_simp
    then obtain m where m: "ggml_gallocr_reserve_n demo_tensors demo_alloc_size demo_backend demo_graph None None demo_mem = Some (True, m)"
      "vh_live (gm_heap m) 0 = Some [128]" "gm_buffers m = [Some 0]" "ga_bufts (gm_gallocr m) = [0]" "ga_buf_tallocs (gm_gallocr m) = [0]" by (auto split: option.splits prod.splits bool.splits)
    have life: "gallocr_life demo_alloc_size demo_backend demo_mem m"
      by (rule gallocr_life.reserve[OF gallocr_life.new demo_graph_ok, where ok = True]) (use m(1) in \<open>auto simp: ggml_gallocr_reserve_n_def\<close>)
    have "gallocr_ready demo_alloc_size (gm_gallocr demo_mem)" using demo_ready by (simp add: demo_mem_ok(2))
    from life_ok[OF life this demo_mem_ok(1,3)] have "buffers_ok {} m" by blast
    then obtain \<beta> where r: "bufs_rep (gm_gallocr m) \<beta> 0 (gm_buffers m)" "heap_rep {} (set (ga_buf_tallocs (gm_gallocr m))) \<beta> (gm_heap m)"
      by (auto simp: buffers_ok_def)
    have "\<beta> 0 = Some 0" using r(1) m(3-5) by (simp add: bufs_rep_def)
    then have "vh_live (gm_heap m) v = None" if "v \<noteq> 0" for v
      using that heap_repD(1)[OF r(2), of v] m(5) by simp
    then show ?thesis using that m by (auto simp: fun_eq_iff vheap_empty_def)
  qed
  have "addressable demo_base (gm_heap m')" by (simp add: addressable_def m'(2) vheap_empty_def demo_base_def)
  moreover have "data_ok demo_tensors" by (simp add: data_ok_def demo_tensors_def demo_tensor_def)
  ultimately show ?thesis
    using gallocr_alloc_graph_addresses[OF _ demo_graph_ok demo_mem_ok(1,3) m'(1), of demo_base "\<lambda>_. 0"] demo_ready m'(1)
    unfolding demo_own demo_mem_ok(2) by blast
qed

section \<open>Limits\<close>

text \<open>
  Two buffers of the same type share one virtual buffer. When a second reservation needs a larger
  one and the backend fails, the old one is already freed and only the first of the two entries is
  cleared; the other is left dangling, and \<open>ggml_gallocr_free\<close> frees it again.
\<close>

definition big_tensors :: tensors where
  "big_tensors t = (if t = 10 then demo_tensor GGML_OP_NONE 1 [] None else demo_tensor GGML_OP_SQR 2 [Some 10] None)"

definition failing_backend :: "nat \<Rightarrow> nat \<Rightarrow> size_t \<Rightarrow> size_t option" where
  "failing_backend n b z = (if n = 0 then Some z else None)"

definition shared_mem :: gallocr_mem where
  "shared_mem = gallocr_mem_new (\<lambda>_. 32) (\<lambda>_. 4096) [0, 0] vheap_empty"

lemma shared_buffer_double_free:
  "case ggml_gallocr_reserve_n demo_tensors (\<lambda>_ _. 64) failing_backend demo_graph None None shared_mem of None \<Rightarrow> False
   | Some (ok, m) \<Rightarrow> ok
       \<and> (case ggml_gallocr_reserve_n big_tensors (\<lambda>_ _. 1024) failing_backend \<lparr>cg_nodes = [11], cg_leafs = [10]\<rparr> None None m of None \<Rightarrow> False
          | Some (ok', m') \<Rightarrow> \<not> ok' \<and> gm_buffers m' = [None, Some 0] \<and> ggml_gallocr_free m' = None)"
  by code_simp

text \<open>
  \<open>ggml_gallocr_needs_realloc\<close> compares the nodes and their sources with the plan, but not the leafs.
  A leaf that is the source of no node may have grown since the plan was made: the plan is
  still taken as valid and the leaf does not fit its place.
\<close>

definition leaf_graph :: "nat \<Rightarrow> ggml_cgraph" where
  "leaf_graph n = \<lparr>cg_nodes = [n + 2], cg_leafs = [n, n + 1]\<rparr>"

definition leaf_tensors :: tensors where
  "leaf_tensors t = (if t \<in> {2, 12} then demo_tensor GGML_OP_SQR 2 [Some (t - 2)] None else demo_tensor GGML_OP_NONE 1 [] None)"

definition leaf_sizes :: "nat \<Rightarrow> nat \<Rightarrow> size_t" where
  "leaf_sizes b t = (if t = 11 then 256 else 64)"

lemma unused_leaf_not_checked:
  "case ggml_gallocr_reserve_n leaf_tensors leaf_sizes demo_backend (leaf_graph 0) None None demo_mem of None \<Rightarrow> False
   | Some (ok, m) \<Rightarrow> ok
       \<and> ggml_gallocr_needs_realloc leaf_tensors leaf_sizes (leaf_graph 10) (gm_gallocr m) = Some False
       \<and> map ta_size_max (ga_leaf_allocs (gm_gallocr m)) = [64, 64] \<and> leaf_sizes 0 11 = 256
       \<and> ggml_gallocr_alloc_graph demo_base leaf_sizes demo_backend (\<lambda>_. 0) (leaf_graph 10) leaf_tensors m = None"
  by code_simp

end
