(* ===== verification/Spec2Isabelle.thy ===== *)
theory Spec2Isabelle
  imports Kv_Cells Batch_Init Kv_Find Kv_Place Kv_Mask Kv_Restore Iswa_Correct Chat_Format Grammar_Reject Grammar_Text Tallocr_Correct Gallocr_Address
begin

text \<open>
  Verification of the core of llama.cpp.

  \<^bold>\<open>The program.\<close> llama.cpp runs language models. A conversation is turned into a prompt by a chat
  template (\<open>src/src/llama-chat.cpp\<close>), split into tokens, and given to \<open>llama_decode\<close> as a batch of
  tokens with positions and sequence ids. \<open>llama_batch_allocr\<close> (\<open>src/src/llama-batch.cpp\<close>) checks the
  batch, fills in what the caller left out, and cuts it into ubatches. The memory module
  \<open>llama_kv_cache\<close> (\<open>src/src/llama-kv-cache.cpp\<close>) keeps, for each stream, an array of cells
  (\<open>src/src/llama-kv-cells.h\<close>) that says which position of which sequences lies in which row of the
  key and value tensors. It finds cells for every ubatch, records the tokens there, and computes
  the attention mask from the cells; sequences are removed, copied, kept, shifted and divided by
  operations on the cells, and the cache can be written to and read from a byte buffer. The
  compute graph of a ubatch gets its memory from the graph allocator of ggml, which uses a tensor
  allocator for every type of buffer (\<open>src/ggml/src/ggml-alloc.c\<close>). When a grammar constrains the output (\<open>src/src/llama-grammar.cpp\<close>),
  its text is parsed into rules, a set of pushdown stacks follows the text generated so far, and
  the candidates for the next token are masked by the stacks. Text is handled as UTF-8
  (\<open>src/src/unicode.cpp\<close> and the decoder of the grammar).

  \<^bold>\<open>Conventions.\<close> \<open>Llama_Prelude\<close> has the shared vocabulary. A function that can hit an assertion, an
  exception that nobody catches, an index outside a vector or other undefined behaviour returns
  an \<open>option\<close> whose \<open>None\<close> is that abort; error results and caught exceptions are values of a sum
  type or of a datatype of their own. Loops over indices are \<open>ofold\<close> over a list of indices. Loops
  and recursions that may not end are \<open>partial_function (option)\<close> (the search of \<open>find_slot\<close>, the
  expansion of grammar stacks, the left recursion check, the search over candidates), and that
  they return is proved as such. \<open>int32_t\<close> positions are \<open>int\<close>,
  and where they are added or subtracted the result is tested (\<open>i32\<close>, \<open>in_i32\<close>): an overflow is an
  abort. \<open>uint32_t\<close> values are \<open>nat\<close>, with the wrap-around (\<open>u32\<close>) where the code multiplies or
  truncates to them: the offsets of transposed values in a saved state and the ids of grammar
  symbols. Characters and code points are \<open>nat\<close> or
  \<open>int\<close> with the wrap-around written out, and \<open>size_t\<close> of the allocator is a 64-bit word.
  \<open>std::set\<close> and \<open>std::map\<close> are strictly increasing lists (\<open>Std_Containers\<close>), whose counters serve the
  cells through the locale \<open>ordered_counter\<close>.

  \<^bold>\<open>The memory cells\<close> (\<open>Memory_Interface\<close>, \<open>Kv_Cells\<close>). The record \<open>llama_kv_cells\<close> has the members of
  the class, and each member function is a definition \<open>cells_<name>\<close>. In every state reachable
  through the mutators the redundant members \<open>used\<close> and \<open>seq_pos\<close> agree with the cells
  (\<open>cells_reach_invariant\<close>), the extremes of a sequence are right, no assertion fires under the
  documented preconditions, copying out and back restores the object, and the shift of a moved
  cell is the distance it moved. The locale \<open>seq_memory\<close> is what a client of \<open>llama_memory_i\<close>
  relies on; the cells, the cache and the pair of caches below are interpreted as it.

  \<^bold>\<open>Batches\<close> (\<open>Batch\<close>, \<open>Batch_Split\<close>, \<open>Batch_Init\<close>). \<open>allocr_init\<close> is \<open>llama_batch_allocr::init\<close> with its
  checks and generated fields; \<open>split_simple\<close>, \<open>split_equal\<close> and \<open>split_seq\<close> are the three splits. The
  locales \<open>batch_split\<close> and \<open>ordered_split\<close> carry the argument that the loop around a split ends and
  gives every token to exactly one ubatch, and each split is an interpretation. Accepted batches
  have gapless positions that continue what the memory holds. The result of \<open>allocr_init\<close> is \<open>None\<close>
  for the failed assertion on an empty batch and for positions whose arithmetic overflows.

  \<^bold>\<open>The KV cache\<close> (\<open>Kv_Cache\<close>, \<open>Kv_Slots\<close>, \<open>Kv_Find\<close>, \<open>Kv_Place\<close>, \<open>Kv_Mask\<close>). The sequence operations are
  sweeps over the cells (locale \<open>cell_sweep\<close>, interpreted for each of them) and their theorems say
  what every sequence holds afterwards. \<open>find_slot\<close> returns usable cells whenever there are enough of
  them, \<open>apply_ubatch\<close> places the tokens cell by cell and moves the head, and the mask with its copied rows equals the mask computed
  cell by cell. \<open>Kv_Window\<close> treats caches with a sliding window, where a token may take a cell whose
  token is out of sight and the older positions of that sequence are purged: \<open>prepare\<close> tries out all
  ubatches, and the slots it finds have the same effect on the cache it leaves behind as on the
  cache before; without a window it restores the cache exactly.

  \<^bold>\<open>Mixed attention\<close> (\<open>Kv_Iswa\<close>, \<open>Iswa_Inv\<close>, \<open>Iswa_Batch\<close>, \<open>Iswa_Correct\<close>). \<open>llama_kv_cache_iswa\<close>
  (\<open>src/src/llama-kv-cache-iswa.cpp\<close>) is a pair of caches, one for the layers with full attention and
  one for the layers with a window, and \<open>Kv_Iswa\<close> has its operations, contexts and state files. The
  comment in \<open>seq_pos_min\<close> that the first is a superset of the second is the invariant of
  \<open>Iswa_Inv\<close>: the locale \<open>cover_step\<close> says when a change of single cells keeps it and is interpreted
  for every sequence operation. \<open>Iswa_Batch\<close> shows that it is kept by preparing and processing a
  batch, one ubatch after the other as \<open>llama_decode\<close> does (\<open>iswa_process\<close>). \<open>Iswa_Correct\<close> has the
  runs considered (\<open>iswa_reach\<close>), which include every batch that \<open>allocr_init\<close> accepts, and shows that the second
  cache keeps all positions that the next token of a sequence may look at. These theorems are
  for the unified cache, where all sequences share one stream; the definitions are for both. The
  runs leave out \<open>seq_add\<close> and \<open>seq_div\<close> of sequences that share a cell, restored states, and batches
  that are processed in part.

  \<^bold>\<open>Saved state\<close> (\<open>Kv_State\<close>, \<open>Kv_Restore\<close>). \<open>state_write\<close> and \<open>state_read\<close> on lists of bytes, little
  endian, with the key and value rows of every layer; row sizes and types, which ggml computes,
  are fields of the layer. What is written and read back into a cache of the same model gives the
  same cells and rows, for the whole cache and for one sequence, as long as the values of a layer
  are at most 4 GiB when they are transposed; beyond that the code reads wrong bytes (\<open>v_offset_wraps\<close>).

  \<^bold>\<open>Chat templates and text\<close> (\<open>Chat_Template\<close>, \<open>Chat_Format\<close>, \<open>Unicode_Utf8\<close>). The detection of a
  template, the formatter with all its templates and the public entry point with its buffer; the
  text of a conversation only grows (with two exceptions, \<open>rwkv_not_growing\<close> and \<open>bailing2_not_growing\<close>), no turn is lost, and the buffer is filled as documented.
  UTF-8 encoding and decoding are inverse, as are the byte maps of the tokenizers.

  \<^bold>\<open>Grammars\<close>. \<open>Grammar_Engine\<close> is the engine, \<open>Grammar_Parser\<close> the parser of the notation.
  \<open>Grammar_Lang\<close> gives stacks and rules a language; \<open>Grammar_Term\<close> and \<open>Grammar_Check\<close> treat left
  recursion and termination; \<open>Grammar_Derives\<close> is the reference semantics, derivations of a
  context-free grammar in which a terminal derives the characters of a set, and
  \<open>Grammar_Correct\<close> shows that the stacks of a grammar object stand for
  exactly the words that may follow. This is for rules in which every rule that derives the empty
  word has an empty alternate; without it the expansion of the stacks may run forever. An exception of the engine carries the
  object as it was changed before the throw. \<open>Grammar_Stream\<close> and \<open>Grammar_Feed\<close> (locale \<open>piece_feed\<close>,
  interpreted for strings and for tokens) extend this to text that is cut anywhere, for rules without token elements;
  \<open>Grammar_Reject\<close> shows that the mask rejects the tokens that would leave no stack.
  \<open>Grammar_Parse_Wf\<close> shows that the parser returns, with rules the engine can use; its recursion
  is bounded by fuel \<open>2 * n + 2\<close> for alternatives and \<open>n + 1\<close> for rules on a text of \<open>n\<close> bytes, and
  that this is enough for every text is part of the proof. Symbol ids are truncated to 32 bits as in
  the code, and the rules are shown to be well formed for fewer than \<open>2 ^ 32\<close> symbols. \<open>Grammar_Repeat\<close> gives the meaning of the repetition operators
  and \<open>Grammar_Text\<close> ties the text of a grammar to what the object built from it accepts.

  \<^bold>\<open>The tensor allocator\<close> (\<open>Dyn_Tallocr\<close>, \<open>Tallocr_Blocks\<close>, \<open>Tallocr_Search\<close>, \<open>Tallocr_Safe\<close>,
  \<open>Tallocr_Correct\<close>). The free blocks of a chunk in their array of 256, the searches for a block, the
  opening of chunks and the release with merging. The locale \<open>region_allocator\<close> is the interface to
  the graph allocator; through its interpretation every sequence of calls with at most 254 regions
  in use (so that the array of free blocks never overflows) and at most \<open>SIZE_MAX / 2\<close> bytes in all
  runs without abort, hands out disjoint regions, and leaves single free blocks when all is
  released.

  \<^bold>\<open>The graph allocator\<close> (\<open>Gallocr\<close>, \<open>Gallocr_Buffers\<close> and the theories on them). \<open>Gallocr\<close> has the plan of a
  graph: the hash table, counting of children and views, allocation of leafs and nodes, taking
  over the memory of a parent, release after the last use, and the records of the plan.
  \<open>Gallocr_Buffers\<close> has the memory: virtual buffers, their reallocation, the public operations and the
  addresses of the tensors. A tensor is a number and the tensors of a graph a function, so that
  pointers are compared as in C; the backend (what it reports as the size of a tensor, whether and
  how large it makes a buffer, where the buffer lies) is a parameter. \<open>Gallocr_Inv\<close> ties the tensors
  marked as allocated to the regions in use of the tensor allocators; \<open>Gallocr_Plan\<close> shows that the
  counters count the references to come, through views too, and \<open>Gallocr_Run\<close> that a graph that is
  run on the planned places finds the data of its sources. \<open>Gallocr_Total\<close> shows that planning returns
  for at most 254 tensors (the bound of the tensor allocator) of at most \<open>2 ^ 55\<close> bytes, and
  \<open>Gallocr_Correct\<close> puts both together. \<open>Gallocr_Fit\<close> shows that the peaks of the chunks cover every
  tensor, \<open>Gallocr_Memory\<close> that buffers are large enough and freed once, and \<open>Gallocr_Address\<close> that the
  tensors get the addresses of their places. The graphs are those of \<open>graph_ok\<close>: leafs without
  operation, sources before the nodes that use them, and no node flagged as input. The hash table
  is a total function: its abort when it is full is not modelled. The code makes the table a quarter larger than the
  number of nodes and leafs, so it does not fill when the tensors that a graph refers to are among these.

  \<^bold>\<open>Findings.\<close> Where the code does not do what it means to, a lemma shows it on a concrete input, among
  them \<open>init_never_decreasing\<close>, \<open>gap_test_overflows\<close>, \<open>v_offset_wraps\<close>, \<open>left_recursion_missed\<close>, \<open>star_text_diverges\<close>, \<open>n_opt_wraps\<close>,
  \<open>undefined_root_parsed\<close>, \<open>token_element_mismatch\<close>, \<open>streams_lost\<close>, \<open>extra_data_misread\<close>,
  \<open>empty_state_keeps_cells\<close>, \<open>best_fit_of_last_chunk\<close>, \<open>zero_size_breaks_order\<close>, \<open>remove_block_full\<close>,
  \<open>shared_buffer_double_free\<close>, \<open>unused_leaf_not_checked\<close>, \<open>shared_shift_diverges\<close> (which is why the
  reachable states of the pair of caches shift and divide only sequences that share no cell),
  \<open>chunk_end_masked\<close> with \<open>last_cell_taken\<close>.

  \<^bold>\<open>Not modelled.\<close> The numerical part (the operations and backends of ggml, the model graphs,
  quantisation, samplers over floating point), because its content is arithmetic on floating point
  tensors and calls of device drivers; the model loader and GGUF files; \<open>llama_context\<close> beyond its
  byte buffers; the tokenizers and the regular expression splitting of \<open>unicode.cpp\<close>; the recurrent
  and hybrid memories, which share the interface of \<open>Memory_Interface\<close>; the
  allocation of the tensors of a context and the scheduler of the backends; the command line, server
  and example programs under \<open>src/common\<close>, \<open>src/tools\<close> and \<open>src/examples\<close>. Code outside the repository (the vocabulary's token pieces seen
  by the grammar, \<open>vocab->tokenize\<close>) is a parameter of the definitions.
\<close>

end
